(* ===== verification/Prelude.thy ===== *)
theory Prelude
  imports Main "HOL-Library.Word" "HOL-Library.Signed_Division"
begin

text \<open>
  Shared vocabulary of the development: the C integer types as words of their width, the
  collections of simplification rules the component theories fill (\<open>bounded_bits\<close> for
  bit-field arithmetic, \<open>frame\<close> for ``this operation leaves that alone'' facts), and
  generic lemmas on words, bits and lists that more than one component uses.
\<close>

unbundle bit_operations_syntax

type_synonym u8 = "8 word"
type_synonym u16 = "16 word"
type_synonym u32 = "32 word"
type_synonym u64 = "64 word"

named_theorems bounded_bits "bits of a word beyond its known bound"
named_theorems frame "what an operation does not change"

section \<open>Bits of bounded words\<close>

lemma take_bit_eq_self_of_less:
  "(w :: 'a::len word) < 2 ^ n \<Longrightarrow> n < LENGTH('a) \<Longrightarrow> take_bit n w = w"
  by (metis less_mask_eq take_bit_eq_mask and.commute)

lemma not_bit_of_less:
  assumes "(w :: 'a::len word) < 2 ^ n" and "n < LENGTH('a)" and "n \<le> k"
  shows "\<not> bit w k"
  using assms by (metis bit_take_bit_iff not_le take_bit_eq_self_of_less)

lemma not_bit_u32 [bounded_bits]:
  "(w :: u32) < 2 \<Longrightarrow> 1 \<le> k \<Longrightarrow> \<not> bit w k"
  "w < 4 \<Longrightarrow> 2 \<le> k \<Longrightarrow> \<not> bit w k"
  "w < 8 \<Longrightarrow> 3 \<le> k \<Longrightarrow> \<not> bit w k"
  "w < 32 \<Longrightarrow> 5 \<le> k \<Longrightarrow> \<not> bit w k"
  "w < 128 \<Longrightarrow> 7 \<le> k \<Longrightarrow> \<not> bit w k"
  using not_bit_of_less [of w 1 k] not_bit_of_less [of w 2 k] not_bit_of_less [of w 3 k]
    not_bit_of_less [of w 5 k] not_bit_of_less [of w 7 k] by auto

lemma mask_literals [bounded_bits]:
  "(0x3 :: u32) = mask 2" "(0x7 :: u32) = mask 3"
  "(0xF :: u32) = mask 4" "(0x1F :: u32) = mask 5" "(0x3F :: u32) = mask 6"
  "(0x7F :: u32) = mask 7" "(0xFF :: u32) = mask 8" "(0x3FF :: u32) = mask 10"
  "(0xFFF :: u32) = mask 12"
  by (simp_all add: mask_eq_exp_minus_1)

lemma bit_times_2 [bounded_bits]:
  "bit ((w :: u32) * 2) n \<longleftrightarrow> n \<noteq> 0 \<and> n < 32 \<and> bit w (n - 1)"
  using bit_double_iff [of w n] by (auto simp: mult.commute)

lemma and_mask_less:
  "n < LENGTH('a) \<Longrightarrow> (w :: 'a::len word) AND mask n < 2 ^ n"
  by (metis and_mask_less')

text \<open>
  Two 32-bit words are equal when their 32 bits are: with the bits written out, an equation
  between bit-field expressions is a conjunction of 32 small facts the simplifier decides.
\<close>

lemma all_less_32:
  "(\<forall>n < (32::nat). P n) \<longleftrightarrow>
     P 0 \<and> P 1 \<and> P 2 \<and> P 3 \<and> P 4 \<and> P 5 \<and> P 6 \<and> P 7 \<and> P 8 \<and> P 9 \<and> P 10 \<and> P 11 \<and> P 12 \<and>
     P 13 \<and> P 14 \<and> P 15 \<and> P 16 \<and> P 17 \<and> P 18 \<and> P 19 \<and> P 20 \<and> P 21 \<and> P 22 \<and> P 23 \<and> P 24 \<and>
     P 25 \<and> P 26 \<and> P 27 \<and> P 28 \<and> P 29 \<and> P 30 \<and> P 31"
  by (simp add: numeral_eq_Suc All_less_Suc conj_ac)

lemma u32_eq_bits: "(\<forall>n < 32. bit a n = bit b n) \<Longrightarrow> a = (b :: u32)"
  by (rule bit_word_eqI) simp


section \<open>Counting on words\<close>

lemma unat_plus_one:
  assumes "(a :: 'a::len word) < b" shows "unat (a + 1) = Suc (unat a)"
proof -
  have "Suc (unat a) \<le> unat b" using assms by (simp add: word_less_nat_alt)
  also have "unat b < 2 ^ LENGTH('a)" by (rule unsigned_less)
  finally show ?thesis by (simp add: unat_word_ariths take_bit_nat_eq_self)
qed

section \<open>Powers of two\<close>

text \<open>The test \<open>x && (x & (x - 1)) == 0\<close> on naturals.\<close>

lemma nat_power_of_two:
  "0 < (x :: nat) \<Longrightarrow> x AND (x - 1) = 0 \<Longrightarrow> \<exists>k. x = 2 ^ k"
proof (induction x rule: less_induct)
  case (less x)
  have half: "(x div 2) AND ((x - 1) div 2) = 0"
    using drop_bit_and [of 1 x "x - 1"] less.prems(2) by (simp add: drop_bit_eq_div)
  show ?case
  proof (cases "odd x")
    case True
    then have "(x - 1) div 2 = x div 2" by (auto elim: oddE)
    then have "x div 2 = 0" using half by simp
    then have "x = 1" using True by (metis One_nat_def odd_Suc_div_two add_0 div_mult_mod_eq mult_zero_left odd_iff_mod_2_eq_one)
    then show ?thesis by (intro exI [of _ 0]) simp
  next
    case False
    then have "(x - 1) div 2 = x div 2 - 1" "0 < x div 2" "x = 2 * (x div 2)" using less.prems(1) by (auto elim!: evenE)
    then obtain k where "x div 2 = 2 ^ k" using less.IH [of "x div 2"] half by auto
    then show ?thesis using \<open>x = 2 * (x div 2)\<close> by (intro exI [of _ "Suc k"]) simp
  qed
qed

end
