(* ===== verification/Host_Memory.thy ===== *)
theory Host_Memory
  imports Prelude
begin

text \<open>
  The host's memory, the store behind every pointer of the C code. A host address is a
  natural number (\<open>0\<close> is NULL; pointer arithmetic inside a C object never wraps, so no
  width is needed), the memory maps addresses to bytes. The C code reads and writes it with
  \<open>memcpy\<close>, \<open>memset\<close> and typed pointers; the hosts the code targets are little-endian, so
  a multi-byte access is the little-endian composition of its bytes.
\<close>

type_synonym hptr = nat
type_synonym hmem = "nat \<Rightarrow> u8"

section \<open>Bytes of a word\<close>

primrec le_bytes :: "nat \<Rightarrow> 'a::len word \<Rightarrow> u8 list" where
  "le_bytes 0 w = []"
| "le_bytes (Suc n) w = ucast w # le_bytes n (drop_bit 8 w)"

primrec from_le :: "u8 list \<Rightarrow> 'a::len word" where
  "from_le [] = 0"
| "from_le (b # bs) = ucast b OR push_bit 8 (from_le bs)"

lemma length_le_bytes [simp]: "length (le_bytes n w) = n"
  by (induction n arbitrary: w) auto

lemma from_le_le_bytes [simp]:
  "from_le (le_bytes n (w :: 'a::len word)) = take_bit (8 * n) w"
proof (induction n arbitrary: w)
  case 0
  show ?case by simp
next
  case (Suc n)
  show ?case
    by (rule bit_word_eqI) (use Suc in \<open>auto simp: bit_simps\<close>)
qed

section \<open>Reading and writing\<close>

definition load_bytes :: "hmem \<Rightarrow> hptr \<Rightarrow> nat \<Rightarrow> u8 list" where
  "load_bytes m p n = map (\<lambda>i. m (p + i)) [0..<n]"

definition store_bytes :: "hmem \<Rightarrow> hptr \<Rightarrow> u8 list \<Rightarrow> hmem" where
  "store_bytes m p bs = (\<lambda>a. if p \<le> a \<and> a < p + length bs then bs ! (a - p) else m a)"

definition load_le :: "nat \<Rightarrow> hmem \<Rightarrow> hptr \<Rightarrow> 'a::len word" where
  "load_le n m p = from_le (load_bytes m p n)"

definition store_le :: "nat \<Rightarrow> hmem \<Rightarrow> hptr \<Rightarrow> 'a::len word \<Rightarrow> hmem" where
  "store_le n m p v = store_bytes m p (le_bytes n v)"

definition memcpy :: "hmem \<Rightarrow> hptr \<Rightarrow> hptr \<Rightarrow> nat \<Rightarrow> hmem" where
  "memcpy m dst src n = store_bytes m dst (load_bytes m src n)"

definition memset0 :: "hmem \<Rightarrow> hptr \<Rightarrow> nat \<Rightarrow> hmem" where
  "memset0 m dst n = store_bytes m dst (replicate n 0)"

abbreviation ld16 :: "hmem \<Rightarrow> hptr \<Rightarrow> u16" where "ld16 \<equiv> load_le 2"
abbreviation ld32 :: "hmem \<Rightarrow> hptr \<Rightarrow> u32" where "ld32 \<equiv> load_le 4"
abbreviation ld64 :: "hmem \<Rightarrow> hptr \<Rightarrow> u64" where "ld64 \<equiv> load_le 8"
abbreviation st16 :: "hmem \<Rightarrow> hptr \<Rightarrow> u16 \<Rightarrow> hmem" where "st16 \<equiv> store_le 2"
abbreviation st32 :: "hmem \<Rightarrow> hptr \<Rightarrow> u32 \<Rightarrow> hmem" where "st32 \<equiv> store_le 4"
abbreviation st64 :: "hmem \<Rightarrow> hptr \<Rightarrow> u64 \<Rightarrow> hmem" where "st64 \<equiv> store_le 8"

text \<open>The bytes from \<open>p\<close>, \<open>n\<close> long, and two extents with no byte in common.\<close>

definition extent :: "hptr \<Rightarrow> nat \<Rightarrow> hptr set" where
  "extent p n = {p ..< p + n}"

definition apart :: "hptr \<Rightarrow> nat \<Rightarrow> hptr \<Rightarrow> nat \<Rightarrow> bool" where
  "apart p n q k \<longleftrightarrow> p + n \<le> q \<or> q + k \<le> p \<or> n = 0 \<or> k = 0"

lemma in_extent [simp]: "a \<in> extent p n \<longleftrightarrow> p \<le> a \<and> a < p + n"
  by (simp add: extent_def)

lemma apart_sym: "apart p n q k \<longleftrightarrow> apart q k p n"
  by (auto simp: apart_def)

lemma length_load_bytes [simp]: "length (load_bytes m p n) = n"
  by (simp add: load_bytes_def)

lemma nth_load_bytes [simp]: "i < n \<Longrightarrow> load_bytes m p n ! i = m (p + i)"
  by (simp add: load_bytes_def)

lemma load_bytes_0 [simp]: "load_bytes m p 0 = []"
  by (simp add: load_bytes_def)

lemma load_bytes_eqI:
  "(\<And>a. p \<le> a \<Longrightarrow> a < p + n \<Longrightarrow> m a = m' a) \<Longrightarrow> load_bytes m p n = load_bytes m' p n"
  by (simp add: load_bytes_def)

lemma load_bytes_append: "load_bytes m p (n + k) = load_bytes m p n @ load_bytes m (p + n) k"
  by (rule nth_equalityI) (auto simp: nth_append)

lemma take_load_bytes [simp]: "take k (load_bytes m p n) = load_bytes m p (min k n)"
  by (rule nth_equalityI) auto

lemma drop_load_bytes [simp]: "drop k (load_bytes m p n) = load_bytes m (p + k) (n - k)"
  by (rule nth_equalityI) (auto simp: add.assoc)

lemma store_bytes_other [frame]:
  "a \<notin> extent p (length bs) \<Longrightarrow> store_bytes m p bs a = m a"
  by (auto simp: store_bytes_def)

lemma store_bytes_Nil [simp]: "store_bytes m p [] = m"
  by (rule ext) (auto simp: store_bytes_def)

lemma load_store_same [simp]:
  "n = length bs \<Longrightarrow> load_bytes (store_bytes m p bs) p n = bs"
  by (rule nth_equalityI) (auto simp: store_bytes_def)

lemma load_store_apart [simp]:
  "apart p (length bs) q n \<Longrightarrow> load_bytes (store_bytes m p bs) q n = load_bytes m q n"
  by (rule load_bytes_eqI) (auto simp: store_bytes_def apart_def)

lemma store_load_self [simp]: "store_bytes m p (load_bytes m p n) = m"
  by (rule ext) (auto simp: store_bytes_def)

lemma store_store_same:
  "length bs = length cs \<Longrightarrow> store_bytes (store_bytes m p bs) p cs = store_bytes m p cs"
  by (rule ext) (auto simp: store_bytes_def)

lemma load_le_store_le [simp]:
  "load_le n (store_le n m p v) p = take_bit (8 * n) (v :: 'a::len word)"
  by (simp add: load_le_def store_le_def)

lemma ld_st_same [simp]:
  "ld16 (st16 m p v) p = v" "ld32 (st32 m p w) p = w" "ld64 (st64 m p x) p = x"
  by (simp_all add: take_bit_word_eq_self)

lemma load_le_store_le_apart [simp]:
  "apart p n q k \<Longrightarrow> load_le k (store_le n m p (v :: 'b::len word)) q = (load_le k m q :: 'a::len word)"
  by (simp add: load_le_def store_le_def)

lemma load_le_store_bytes_apart [simp]:
  "apart p (length bs) q k \<Longrightarrow> load_le k (store_bytes m p bs) q = (load_le k m q :: 'a::len word)"
  by (simp add: load_le_def)

lemma load_bytes_store_le_apart [simp]:
  "apart p n q k \<Longrightarrow> load_bytes (store_le n m p (v :: 'b::len word)) q k = load_bytes m q k"
  by (simp add: store_le_def)

lemma store_le_other [frame]: "a \<notin> extent p n \<Longrightarrow> store_le n m p v a = m a"
  by (auto simp: store_le_def store_bytes_def)

lemma load_le_eqI:
  "(\<And>a. p \<le> a \<Longrightarrow> a < p + n \<Longrightarrow> m a = m' a) \<Longrightarrow> load_le n m p = load_le n m' p"
  unfolding load_le_def by (metis load_bytes_eqI)

end
