(* ===== verification/VM_Types.thy ===== *)
theory VM_Types
  imports Host_Memory
begin

text \<open>
  The data of the VM core (\<open>include/vm/vm_core.h\<close>): region descriptors, trap causes, block
  reasons, step results and the CPU record \<open>VmCpu\<close>, with \<open>vm_init\<close> and \<open>vm_reset\<close>
  (\<open>src/vm/vm_core.c\<close>).

  A C handle (\<open>VmCpu *cpu\<close>) is a value of the record: the code's \<open>if (!cpu)\<close> guards are
  discharged by the types. Arrays are functions of the index the C code uses; every index
  the core forms is masked to the array's size (\<open>VM_Decode\<close>: register fields are below
  32, \<open>VM_Memory\<close>: region numbers are below 4).
\<close>

datatype VmStepResult =
    VM_STEP_QUANTUM_EXPIRED | VM_STEP_ECALL | VM_STEP_TRAPPED | VM_STEP_HALTED

datatype VmTrapCause =
    TRAP_NONE
  | TRAP_ILLEGAL_INSTR
  | TRAP_LOAD_FAULT
  | TRAP_STORE_FAULT
  | TRAP_LOAD_MISALIGNED
  | TRAP_STORE_MISALIGNED
  | TRAP_STORE_RO
  | TRAP_INSTR_FETCH_FAULT
  | TRAP_INSTR_MISALIGNED
  | TRAP_ECALL
  | TRAP_BREAKPOINT
  | TRAP_HALT
  | TRAP_WATCHPOINT
  | TRAP_SINGLESTEP

datatype VmBlockReason =
    BLOCK_NONE
  | BLOCK_YIELDED
  | BLOCK_MAILBOX_RECV
  | BLOCK_SLEEP
  | BLOCK_ON_CHILD
  | BLOCK_FRAME_CONSUMED

record VmRegion =
  r_base :: hptr
  r_length :: u32
  r_writable :: bool

record VmCpu =
  regs :: "u32 \<Rightarrow> u32"
  pc :: u32
  regions :: "u32 \<Rightarrow> VmRegion"
  l2_shared :: VmRegion
  trap_cause :: VmTrapCause
  trap_pc :: u32
  trap_addr :: u32
  trap_insn :: u32
  halted :: bool
  in_critical :: bool
  block_reason :: VmBlockReason
  block_deadline :: u32
  block_child_vm :: u16
  reload_period :: u32
  reload_next_deadline :: u32
  vm_id :: u16
  instructions_retired :: u64
  trap_count :: u32
  ecall_count :: u32
  cpu_internal :: "nat \<Rightarrow> u32"

abbreviation (input) VM_REGION_CODE :: u32 where "VM_REGION_CODE \<equiv> 0"
abbreviation (input) VM_REGION_RODATA :: u32 where "VM_REGION_RODATA \<equiv> 1"
abbreviation (input) VM_REGION_DATA :: u32 where "VM_REGION_DATA \<equiv> 2"
abbreviation (input) VM_REGION_SHARED :: u32 where "VM_REGION_SHARED \<equiv> 3"

abbreviation (input) VM_REG_SP :: u32 where "VM_REG_SP \<equiv> 2"
abbreviation (input) VM_REG_A0 :: u32 where "VM_REG_A0 \<equiv> 10"
abbreviation (input) VM_REG_A7 :: u32 where "VM_REG_A7 \<equiv> 17"

abbreviation (input) UINT16_MAX :: u16 where "UINT16_MAX \<equiv> 0xFFFF"
abbreviation (input) UINT32_MAX :: u32 where "UINT32_MAX \<equiv> 0xFFFFFFFF"

section \<open>Lifecycle\<close>

text \<open>\<open>memset(cpu, 0, sizeof(*cpu))\<close>: every scalar zero, every enum its first constant.\<close>

definition zero_region :: VmRegion where
  "zero_region = \<lparr>r_base = 0, r_length = 0, r_writable = False\<rparr>"

definition zero_cpu :: VmCpu where
  "zero_cpu = \<lparr>regs = (\<lambda>_. 0), pc = 0, regions = (\<lambda>_. zero_region), l2_shared = zero_region,
     trap_cause = TRAP_NONE, trap_pc = 0, trap_addr = 0, trap_insn = 0,
     halted = False, in_critical = False,
     block_reason = BLOCK_NONE, block_deadline = 0, block_child_vm = 0,
     reload_period = 0, reload_next_deadline = 0, vm_id = 0,
     instructions_retired = 0, trap_count = 0, ecall_count = 0, cpu_internal = (\<lambda>_. 0)\<rparr>"

definition vm_init :: "u16 \<Rightarrow> VmCpu" where
  "vm_init n = zero_cpu\<lparr>vm_id := n, block_child_vm := UINT16_MAX\<rparr>"

definition vm_reset :: "VmCpu \<Rightarrow> VmCpu" where
  "vm_reset cpu = zero_cpu\<lparr>regions := regions cpu, l2_shared := l2_shared cpu,
     vm_id := vm_id cpu, block_child_vm := UINT16_MAX\<rparr>"

text \<open>Header accessors (\<open>vm_get_reg\<close> hides whatever \<open>regs[0]\<close> holds).\<close>

definition vm_get_reg :: "VmCpu \<Rightarrow> int \<Rightarrow> u32" where
  "vm_get_reg cpu i = (if i < 0 \<or> i \<ge> 32 then 0 else if i = 0 then 0 else regs cpu (word_of_int i))"

definition vm_is_halted :: "VmCpu \<Rightarrow> bool" where
  "vm_is_halted cpu = halted cpu"

lemma vm_reset_init: "vm_reset (vm_init n) = vm_init n"
  by (simp add: vm_reset_def vm_init_def zero_cpu_def)

lemma vm_reset_idem: "vm_reset (vm_reset cpu) = vm_reset cpu"
  by (simp add: vm_reset_def zero_cpu_def)

section \<open>The host memory a VM can reach\<close>

text \<open>
  The five region descriptors name the only host memory a guest should see. A descriptor
  is well formed when a populated region has backing storage.
\<close>

definition region_ok :: "VmRegion \<Rightarrow> bool" where
  "region_ok r \<longleftrightarrow> (r_length r \<noteq> 0 \<longrightarrow> r_base r \<noteq> 0)"

definition vm_descriptors :: "VmCpu \<Rightarrow> VmRegion list" where
  "vm_descriptors cpu = [regions cpu 0, regions cpu 1, regions cpu 2, regions cpu 3, l2_shared cpu]"

definition vm_regions_ok :: "VmCpu \<Rightarrow> bool" where
  "vm_regions_ok cpu \<longleftrightarrow> list_all region_ok (vm_descriptors cpu)"

definition region_extent :: "VmRegion \<Rightarrow> hptr set" where
  "region_extent r = extent (r_base r) (unat (r_length r))"

definition vm_readable :: "VmCpu \<Rightarrow> hptr set" where
  "vm_readable cpu = (\<Union>r \<in> set (vm_descriptors cpu). region_extent r)"

definition vm_writable :: "VmCpu \<Rightarrow> hptr set" where
  "vm_writable cpu = (\<Union>r \<in> {r \<in> set (vm_descriptors cpu). r_writable r}. region_extent r)"

lemma vm_writable_readable: "vm_writable cpu \<subseteq> vm_readable cpu"
  by (auto simp: vm_writable_def vm_readable_def)

lemma descriptor_extent_readable:
  "r \<in> set (vm_descriptors cpu) \<Longrightarrow> region_extent r \<subseteq> vm_readable cpu"
  by (auto simp: vm_readable_def)

lemma descriptor_extent_writable:
  "r \<in> set (vm_descriptors cpu) \<Longrightarrow> r_writable r \<Longrightarrow> region_extent r \<subseteq> vm_writable cpu"
  by (auto simp: vm_writable_def)

lemma descriptor_ok: "vm_regions_ok cpu \<Longrightarrow> r \<in> set (vm_descriptors cpu) \<Longrightarrow> region_ok r"
  by (simp add: vm_regions_ok_def list_all_iff)

text \<open>
  What the guest's own instructions can never change: the descriptors and the fields the
  loader, the ECALL handlers and the scheduler own.
\<close>

definition same_host_fields :: "VmCpu \<Rightarrow> VmCpu \<Rightarrow> bool" where
  "same_host_fields c d \<longleftrightarrow>
     regions d = regions c \<and> l2_shared d = l2_shared c \<and> vm_id d = vm_id c \<and>
     halted d = halted c \<and> in_critical d = in_critical c \<and> block_reason d = block_reason c \<and>
     block_deadline d = block_deadline c \<and> block_child_vm d = block_child_vm c \<and>
     reload_period d = reload_period c \<and> reload_next_deadline d = reload_next_deadline c \<and>
     ecall_count d = ecall_count c \<and> cpu_internal d = cpu_internal c"

lemma same_host_fields_refl [simp, intro]: "same_host_fields c c"
  by (simp add: same_host_fields_def)

lemma same_host_fields_trans [trans]:
  "same_host_fields a b \<Longrightarrow> same_host_fields b c \<Longrightarrow> same_host_fields a c"
  by (simp add: same_host_fields_def)

lemma same_host_fields_descriptors:
  "same_host_fields c d \<Longrightarrow> vm_descriptors d = vm_descriptors c"
  by (simp add: same_host_fields_def vm_descriptors_def)

lemma same_host_fields_reach [frame]:
  assumes "same_host_fields c d"
  shows "vm_readable d = vm_readable c" "vm_writable d = vm_writable c"
    "vm_regions_ok d = vm_regions_ok c"
  using same_host_fields_descriptors [OF assms]
  by (simp_all add: vm_readable_def vm_writable_def vm_regions_ok_def)

end
