(* ===== verification/VM_Memory.thy ===== *)
theory VM_Memory
  imports VM_Types
begin

text \<open>
  Guest memory access of \<open>src/vm/vm_core.c\<close>: the region split of an address (\<open>xlat_pick\<close>),
  the bounds-checked translations \<open>xlat_read\<close> and \<open>xlat_write\<close>, the public accessors the
  ECALL handlers and debuggers use, and the instruction fetch. Translations return the CPU
  (whose trap fields a fault sets) and a host pointer, \<open>0\<close> for NULL.
\<close>

section \<open>Translation\<close>

definition xlat_pick :: "VmCpu \<Rightarrow> u32 \<Rightarrow> VmRegion \<times> u32" where
  "xlat_pick cpu addr =
     (let region = drop_bit 30 addr in
      if region = VM_REGION_SHARED then
        if addr AND 0x20000000 \<noteq> 0 then (l2_shared cpu, addr AND 0x1FFFFFFF)
        else (regions cpu VM_REGION_SHARED, addr AND 0x1FFFFFFF)
      else (regions cpu region, addr AND 0x3FFFFFFF))"

definition set_trap :: "VmCpu \<Rightarrow> VmTrapCause \<Rightarrow> u32 \<Rightarrow> VmCpu" where
  "set_trap cpu cause addr = cpu\<lparr>trap_cause := cause, trap_pc := pc cpu, trap_addr := addr\<rparr>"

definition xlat_read :: "VmCpu \<Rightarrow> u32 \<Rightarrow> u32 \<Rightarrow> VmTrapCause \<Rightarrow> VmCpu \<times> hptr" where
  "xlat_read cpu addr sz fault_cause =
     (let (r, offset) = xlat_pick cpu addr in
      if r_length r = 0 \<or> offset > r_length r \<or> sz > r_length r - offset
      then (set_trap cpu fault_cause addr, 0)
      else (cpu, r_base r + unat offset))"

definition xlat_write :: "VmCpu \<Rightarrow> u32 \<Rightarrow> u32 \<Rightarrow> VmCpu \<times> hptr" where
  "xlat_write cpu addr sz =
     (let (r, offset) = xlat_pick cpu addr in
      if r_length r = 0 \<or> offset > r_length r \<or> sz > r_length r - offset
      then (set_trap cpu TRAP_STORE_FAULT addr, 0)
      else if \<not> r_writable r then (set_trap cpu TRAP_STORE_RO addr, 0)
      else (cpu, r_base r + unat offset))"

section \<open>Public accessors\<close>

definition vm_translate_read :: "VmCpu \<Rightarrow> u32 \<Rightarrow> u32 \<Rightarrow> VmCpu \<times> hptr" where
  "vm_translate_read cpu addr sz =
     (if sz = 0 then (cpu, 0) else xlat_read cpu addr sz TRAP_LOAD_FAULT)"

definition vm_translate_write :: "VmCpu \<Rightarrow> u32 \<Rightarrow> u32 \<Rightarrow> VmCpu \<times> hptr" where
  "vm_translate_write cpu addr sz =
     (if sz = 0 then (cpu, 0) else xlat_write cpu addr sz)"

definition vm_read_u32 :: "VmCpu \<Rightarrow> hmem \<Rightarrow> u32 \<Rightarrow> VmCpu \<times> u32" where
  "vm_read_u32 cpu m addr =
     (if addr AND 0x3 \<noteq> 0 then (set_trap cpu TRAP_LOAD_MISALIGNED addr, 0)
      else let (cpu, p) = xlat_read cpu addr 4 TRAP_LOAD_FAULT in
           if p = 0 then (cpu, 0) else (cpu, ld32 m p))"

definition vm_write_u32 :: "VmCpu \<Rightarrow> hmem \<Rightarrow> u32 \<Rightarrow> u32 \<Rightarrow> bool \<times> VmCpu \<times> hmem" where
  "vm_write_u32 cpu m addr value =
     (if addr AND 0x3 \<noteq> 0 then (False, set_trap cpu TRAP_STORE_MISALIGNED addr, m)
      else let (cpu, p) = xlat_write cpu addr 4 in
           if p = 0 then (False, cpu, m) else (True, cpu, st32 m p value))"

definition vm_copy_from_guest ::
  "VmCpu \<Rightarrow> hmem \<Rightarrow> hptr \<Rightarrow> u32 \<Rightarrow> u32 \<Rightarrow> bool \<times> VmCpu \<times> hmem" where
  "vm_copy_from_guest cpu m dst guest_src n =
     (if dst = 0 \<or> n = 0 then (False, cpu, m)
      else let (cpu, p) = xlat_read cpu guest_src n TRAP_LOAD_FAULT in
           if p = 0 then (False, cpu, m) else (True, cpu, memcpy m dst p (unat n)))"

definition vm_copy_to_guest ::
  "VmCpu \<Rightarrow> hmem \<Rightarrow> u32 \<Rightarrow> hptr \<Rightarrow> u32 \<Rightarrow> bool \<times> VmCpu \<times> hmem" where
  "vm_copy_to_guest cpu m guest_dst src n =
     (if src = 0 \<or> n = 0 then (False, cpu, m)
      else let (cpu, p) = xlat_write cpu guest_dst n in
           if p = 0 then (False, cpu, m) else (True, cpu, memcpy m p src (unat n)))"

section \<open>Instruction fetch\<close>

definition fetch_instruction :: "VmCpu \<Rightarrow> hmem \<Rightarrow> bool \<times> VmCpu \<times> u32 \<times> u32" where
  "fetch_instruction cpu m =
     (if pc cpu AND 0x1 \<noteq> 0 then (False, set_trap cpu TRAP_INSTR_MISALIGNED (pc cpu), 0, 0)
      else let (cpu, p) = xlat_read cpu (pc cpu) 2 TRAP_INSTR_FETCH_FAULT in
      if p = 0 then (False, cpu, 0, 0)
      else let lo = ld16 m p in
      if lo AND 0x3 = 0x3 then
        let (cpu, p) = xlat_read cpu (pc cpu + 2) 2 TRAP_INSTR_FETCH_FAULT in
        if p = 0 then (False, cpu, 0, 0)
        else let hi = ld16 m p in
             (True, cpu, push_bit 16 (ucast hi) OR ucast lo, 4)
      else (True, cpu, ucast lo, 2))"


section \<open>Translation facts\<close>

lemma drop_bit_30_less: "drop_bit 30 (a :: u32) < 4"
  using unsigned_less [of a, where 'a = nat]
  by (simp add: word_less_nat_alt drop_bit_eq_div unat_div)

lemma u32_less_4_cases: "(w :: u32) < 4 \<Longrightarrow> w = 0 \<or> w = 1 \<or> w = 2 \<or> w = 3"
  by (simp add: word_less_nat_alt word_unat_eq_iff) arith

lemma xlat_pick_descriptor: "fst (xlat_pick cpu addr) \<in> set (vm_descriptors cpu)"
  using u32_less_4_cases [OF drop_bit_30_less [of addr]]
  by (auto simp: xlat_pick_def vm_descriptors_def Let_def)

text \<open>
  An access the code lets through lies inside one descriptor: the offset test and the
  subtraction \<open>length - offset\<close> cannot wrap once the test before it has passed.
\<close>

lemma in_bounds_unat:
  assumes "\<not> off > (len :: u32)" and "\<not> n > len - off"
  shows "unat off + unat n \<le> unat len"
  using assms by (simp add: word_le_nat_alt unat_sub not_less)

definition in_region :: "VmRegion \<Rightarrow> hptr \<Rightarrow> nat \<Rightarrow> bool" where
  "in_region r p n \<longleftrightarrow> r_base r \<le> p \<and> p + n \<le> r_base r + unat (r_length r)"

lemma in_region_extent: "in_region r p n \<Longrightarrow> extent p n \<subseteq> region_extent r"
  by (auto simp: in_region_def region_extent_def extent_def)

lemma xlat_read_cases:
  obtains (fault) "xlat_read cpu addr n c = (set_trap cpu c addr, 0)"
  | (ok) r p where "xlat_read cpu addr n c = (cpu, p)" "r \<in> set (vm_descriptors cpu)"
      "in_region r p (unat n)" "r_length r \<noteq> 0"
proof (cases "xlat_pick cpu addr")
  case (Pair r off)
  show thesis
  proof (cases "r_length r = 0 \<or> off > r_length r \<or> n > r_length r - off")
    case True
    then show thesis using fault Pair by (simp add: xlat_read_def)
  next
    case False
    then have "unat off + unat n \<le> unat (r_length r)" by (intro in_bounds_unat) auto
    then show thesis
      using ok [of "r_base r + unat off" r] False Pair xlat_pick_descriptor [of cpu addr]
      by (auto simp: xlat_read_def in_region_def)
  qed
qed

lemma xlat_write_cases:
  obtains (fault) c where "xlat_write cpu addr n = (set_trap cpu c addr, 0)"
      "c = TRAP_STORE_FAULT \<or> c = TRAP_STORE_RO"
  | (ok) r p where "xlat_write cpu addr n = (cpu, p)" "r \<in> set (vm_descriptors cpu)"
      "in_region r p (unat n)" "r_length r \<noteq> 0" "r_writable r"
proof (cases "xlat_pick cpu addr")
  case (Pair r off)
  show thesis
  proof (cases "r_length r = 0 \<or> off > r_length r \<or> n > r_length r - off")
    case True
    then show thesis using fault Pair by (simp add: xlat_write_def)
  next
    case False
    then have "unat off + unat n \<le> unat (r_length r)" by (intro in_bounds_unat) auto
    then show thesis
      using ok [of "r_base r + unat off" r] fault [of TRAP_STORE_RO]
        False Pair xlat_pick_descriptor [of cpu addr]
      by (cases "r_writable r") (auto simp: xlat_write_def in_region_def)
  qed
qed

lemma in_region_nonnull:
  "vm_regions_ok cpu \<Longrightarrow> r \<in> set (vm_descriptors cpu) \<Longrightarrow> r_length r \<noteq> 0 \<Longrightarrow> in_region r p n \<Longrightarrow> p \<noteq> 0"
  using descriptor_ok [of cpu r] by (auto simp: region_ok_def in_region_def)

lemma in_region_readable:
  "r \<in> set (vm_descriptors cpu) \<Longrightarrow> in_region r p n \<Longrightarrow> extent p n \<subseteq> vm_readable cpu"
  using in_region_extent descriptor_extent_readable by blast

lemma in_region_writable:
  "r \<in> set (vm_descriptors cpu) \<Longrightarrow> r_writable r \<Longrightarrow> in_region r p n \<Longrightarrow> extent p n \<subseteq> vm_writable cpu"
  using in_region_extent descriptor_extent_writable by blast

text \<open>The two cases as one elimination each: the form the step proofs use.\<close>

lemma xlat_read_result:
  assumes "xlat_read cpu addr n c = (cpu', p)" and "vm_regions_ok cpu"
  shows "(p = 0 \<and> cpu' = set_trap cpu c addr) \<or>
         (p \<noteq> 0 \<and> cpu' = cpu \<and> extent p (unat n) \<subseteq> vm_readable cpu)"
proof (rule xlat_read_cases [of cpu addr n c])
  fix r q
  assume *: "xlat_read cpu addr n c = (cpu, q)" "r \<in> set (vm_descriptors cpu)"
    "in_region r q (unat n)" "r_length r \<noteq> 0"
  have "q \<noteq> 0" and "extent q (unat n) \<subseteq> vm_readable cpu"
    using * assms(2) in_region_nonnull in_region_readable by blast+
  with * assms(1) show ?thesis by simp
qed (use assms(1) in simp)

lemma xlat_write_result:
  assumes "xlat_write cpu addr n = (cpu', p)" and "vm_regions_ok cpu"
  shows "(p = 0 \<and> (\<exists>c. c \<in> {TRAP_STORE_FAULT, TRAP_STORE_RO} \<and> cpu' = set_trap cpu c addr)) \<or>
         (p \<noteq> 0 \<and> cpu' = cpu \<and> extent p (unat n) \<subseteq> vm_writable cpu)"
proof (rule xlat_write_cases [of cpu addr n])
  fix r q
  assume *: "xlat_write cpu addr n = (cpu, q)" "r \<in> set (vm_descriptors cpu)"
    "in_region r q (unat n)" "r_length r \<noteq> 0" "r_writable r"
  have "q \<noteq> 0" and "extent q (unat n) \<subseteq> vm_writable cpu"
    using * assms(2) in_region_nonnull in_region_writable by blast+
  with * assms(1) show ?thesis by simp
next
  fix c
  assume "xlat_write cpu addr n = (set_trap cpu c addr, 0)" "c = TRAP_STORE_FAULT \<or> c = TRAP_STORE_RO"
  with assms(1) show ?thesis by auto
qed

lemma set_trap_same_host_fields [simp]: "same_host_fields cpu (set_trap cpu c a)"
  by (simp add: set_trap_def same_host_fields_def)

lemma set_trap_simps [simp]:
  "regs (set_trap cpu c a) = regs cpu" "pc (set_trap cpu c a) = pc cpu"
  "trap_cause (set_trap cpu c a) = c" "trap_pc (set_trap cpu c a) = pc cpu"
  "trap_addr (set_trap cpu c a) = a"
  "instructions_retired (set_trap cpu c a) = instructions_retired cpu"
  by (simp_all add: set_trap_def)

text \<open>A write that translates makes the matching read translate to the same pointer.\<close>

lemma xlat_write_read:
  assumes "xlat_write cpu addr n = (cpu', p)" "p \<noteq> 0"
  shows "xlat_read cpu addr n c = (cpu, p)"
  using assms by (auto simp: xlat_write_def xlat_read_def Let_def split: prod.splits if_splits)

lemma and_1_eq_0: "(w :: u32) AND 1 = 0 \<longleftrightarrow> even w"
  by (simp add: and_one_eq even_iff_mod_2_eq_zero)

end
