(* ===== verification/VM_Decode.thy ===== *)
theory VM_Decode
  imports VM_Types
begin

text \<open>
  Instruction fields of \<open>src/vm/vm_core.c\<close>: the extractors of the 32-bit formats, the
  builders \<open>mk_r\<close> \<open>...\<close> \<open>mk_j\<close> the compressed expander assembles instructions with, the
  portable arithmetic shift and the CSR shim. An \<open>int32_t\<close> is its 32-bit word; a signed
  comparison reads it with \<open>sint\<close>, a right shift of an \<open>int32_t\<close> is \<open>signed_drop_bit\<close>.

  The lemmas show that the extractors read back what the builders put in (fields and
  sign-extended immediates), that every register field is below 32, and that \<open>sra32\<close> is
  the arithmetic shift.
\<close>

section \<open>Field extractors\<close>

definition opcode_of :: "u32 \<Rightarrow> u32" where "opcode_of insn = insn AND 0x7F"
definition rd_of :: "u32 \<Rightarrow> u32" where "rd_of insn = drop_bit 7 insn AND 0x1F"
definition funct3_of :: "u32 \<Rightarrow> u32" where "funct3_of insn = drop_bit 12 insn AND 0x7"
definition rs1_of :: "u32 \<Rightarrow> u32" where "rs1_of insn = drop_bit 15 insn AND 0x1F"
definition rs2_of :: "u32 \<Rightarrow> u32" where "rs2_of insn = drop_bit 20 insn AND 0x1F"
definition funct7_of :: "u32 \<Rightarrow> u32" where "funct7_of insn = drop_bit 25 insn AND 0x7F"

definition imm_i :: "u32 \<Rightarrow> u32" where "imm_i insn = signed_drop_bit 20 insn"

definition imm_s :: "u32 \<Rightarrow> u32" where
  "imm_s insn =
     (let hi = drop_bit 25 insn AND 0x7F;
          lo = drop_bit 7 insn AND 0x1F;
          combined = push_bit 5 hi OR lo
      in signed_drop_bit 20 (push_bit 20 combined))"

definition imm_b :: "u32 \<Rightarrow> u32" where
  "imm_b insn =
     (let b12 = drop_bit 31 insn AND 0x1;
          b11 = drop_bit 7 insn AND 0x1;
          b10_5 = drop_bit 25 insn AND 0x3F;
          b4_1 = drop_bit 8 insn AND 0xF;
          combined = push_bit 12 b12 OR push_bit 11 b11 OR push_bit 5 b10_5 OR push_bit 1 b4_1
      in signed_drop_bit 19 (push_bit 19 combined))"

definition imm_j :: "u32 \<Rightarrow> u32" where
  "imm_j insn =
     (let b20 = drop_bit 31 insn AND 0x1;
          b19_12 = drop_bit 12 insn AND 0xFF;
          b11 = drop_bit 20 insn AND 0x1;
          b10_1 = drop_bit 21 insn AND 0x3FF;
          combined = push_bit 20 b20 OR push_bit 12 b19_12 OR push_bit 11 b11 OR push_bit 1 b10_1
      in signed_drop_bit 11 (push_bit 11 combined))"

definition imm_u :: "u32 \<Rightarrow> u32" where "imm_u insn = insn AND 0xFFFFF000"

definition shamt_of :: "u32 \<Rightarrow> u32" where "shamt_of insn = drop_bit 20 insn AND 0x1F"

definition sra32 :: "u32 \<Rightarrow> u32 \<Rightarrow> u32" where
  "sra32 v shift =
     (let s = shift AND 0x1F in
      if s = 0 then v
      else let result = drop_bit (unat s) v in
           if v AND 0x80000000 \<noteq> 0
           then result OR NOT (push_bit (unat (32 - s)) 1 - 1)
           else result)"

section \<open>CSR access\<close>

definition csr_read :: "VmCpu \<Rightarrow> u32 \<Rightarrow> u32" where
  "csr_read cpu csr =
     (if csr = 0xC00 \<or> csr = 0xC02 then ucast (instructions_retired cpu AND 0xFFFFFFFF)
      else if csr = 0xC80 \<or> csr = 0xC82 then ucast (drop_bit 32 (instructions_retired cpu))
      else if csr = 0xF14 then ucast (vm_id cpu)
      else 0)"

definition csr_write :: "VmCpu \<Rightarrow> u32 \<Rightarrow> u32 \<Rightarrow> VmCpu" where
  "csr_write cpu csr v = cpu"

section \<open>Instruction builders\<close>

definition mk_r :: "u32 \<Rightarrow> u32 \<Rightarrow> u32 \<Rightarrow> u32 \<Rightarrow> u32 \<Rightarrow> u32 \<Rightarrow> u32" where
  "mk_r f7 rs2 rs1 f3 rd op =
     push_bit 25 f7 OR push_bit 20 rs2 OR push_bit 15 rs1 OR
     push_bit 12 f3 OR push_bit 7 rd OR op"

definition mk_i :: "u32 \<Rightarrow> u32 \<Rightarrow> u32 \<Rightarrow> u32 \<Rightarrow> u32 \<Rightarrow> u32" where
  "mk_i imm12 rs1 f3 rd op =
     push_bit 20 (imm12 AND 0xFFF) OR push_bit 15 rs1 OR
     push_bit 12 f3 OR push_bit 7 rd OR op"

definition mk_s :: "u32 \<Rightarrow> u32 \<Rightarrow> u32 \<Rightarrow> u32 \<Rightarrow> u32 \<Rightarrow> u32" where
  "mk_s imm12 rs2 rs1 f3 op =
     (let hi = drop_bit 5 imm12 AND 0x7F;
          lo = imm12 AND 0x1F
      in push_bit 25 hi OR push_bit 20 rs2 OR push_bit 15 rs1 OR
         push_bit 12 f3 OR push_bit 7 lo OR op)"

definition mk_b :: "u32 \<Rightarrow> u32 \<Rightarrow> u32 \<Rightarrow> u32 \<Rightarrow> u32 \<Rightarrow> u32" where
  "mk_b imm rs2 rs1 f3 op =
     (let b12 = drop_bit 12 imm AND 0x1;
          b11 = drop_bit 11 imm AND 0x1;
          b10_5 = drop_bit 5 imm AND 0x3F;
          b4_1 = drop_bit 1 imm AND 0xF
      in push_bit 31 b12 OR push_bit 25 b10_5 OR push_bit 20 rs2 OR push_bit 15 rs1 OR
         push_bit 12 f3 OR push_bit 8 b4_1 OR push_bit 7 b11 OR op)"

definition mk_u :: "u32 \<Rightarrow> u32 \<Rightarrow> u32 \<Rightarrow> u32" where
  "mk_u imm rd op = (imm AND 0xFFFFF000) OR push_bit 7 rd OR op"

definition mk_j :: "u32 \<Rightarrow> u32 \<Rightarrow> u32 \<Rightarrow> u32" where
  "mk_j imm rd op =
     (let b20 = drop_bit 20 imm AND 0x1;
          b19_12 = drop_bit 12 imm AND 0xFF;
          b11 = drop_bit 11 imm AND 0x1;
          b10_1 = drop_bit 1 imm AND 0x3FF
      in push_bit 31 b20 OR push_bit 21 b10_1 OR push_bit 20 b11 OR push_bit 12 b19_12 OR
         push_bit 7 rd OR op)"

definition sign_extend :: "u32 \<Rightarrow> nat \<Rightarrow> u32" where
  "sign_extend v bits = (let shift = 32 - bits in signed_drop_bit shift (push_bit shift v))"

definition creg :: "u32 \<Rightarrow> u32" where "creg f3 = f3 + 8"

section \<open>Fields are bounded\<close>

lemma field_bounds [simp, intro]:
  "opcode_of i < 128" "rd_of i < 32" "rs1_of i < 32" "rs2_of i < 32" "funct3_of i < 8"
  "funct7_of i < 128" "shamt_of i < 32"
  using and_mask_less [of 7 i] and_mask_less [of 5 "drop_bit 7 i"] and_mask_less [of 5 "drop_bit 15 i"]
    and_mask_less [of 5 "drop_bit 20 i"] and_mask_less [of 3 "drop_bit 12 i"]
    and_mask_less [of 7 "drop_bit 25 i"]
  by (simp_all add: opcode_of_def rd_of_def rs1_of_def rs2_of_def funct3_of_def funct7_of_def
      shamt_of_def mask_eq_exp_minus_1)

lemma creg_bound: "f < 8 \<Longrightarrow> creg f < 32"
  by (simp add: creg_def word_less_nat_alt unat_word_ariths)

section \<open>Extractors undo builders\<close>

lemmas field_defs = opcode_of_def rd_of_def funct3_of_def rs1_of_def rs2_of_def funct7_of_def

lemma mk_r_fields:
  assumes "f7 < 128" "rs2 < 32" "rs1 < 32" "f3 < 8" "rd < 32" "op < 128"
  shows "opcode_of (mk_r f7 rs2 rs1 f3 rd op) = op" "rd_of (mk_r f7 rs2 rs1 f3 rd op) = rd"
    "funct3_of (mk_r f7 rs2 rs1 f3 rd op) = f3" "rs1_of (mk_r f7 rs2 rs1 f3 rd op) = rs1"
    "rs2_of (mk_r f7 rs2 rs1 f3 rd op) = rs2" "funct7_of (mk_r f7 rs2 rs1 f3 rd op) = f7"
  unfolding field_defs mk_r_def
  by (rule u32_eq_bits, use assms in \<open>simp add: all_less_32 bit_simps bounded_bits\<close>)+

lemma mk_i_fields:
  assumes "rs1 < 32" "f3 < 8" "rd < 32" "op < 128"
  shows "opcode_of (mk_i imm rs1 f3 rd op) = op" "rd_of (mk_i imm rs1 f3 rd op) = rd"
    "funct3_of (mk_i imm rs1 f3 rd op) = f3" "rs1_of (mk_i imm rs1 f3 rd op) = rs1"
    "imm_i (mk_i imm rs1 f3 rd op) = signed_take_bit 11 imm"
  unfolding field_defs mk_i_def imm_i_def
  by (rule u32_eq_bits, use assms in \<open>simp add: all_less_32 bit_simps bounded_bits\<close>)+

lemma mk_s_fields:
  assumes "rs2 < 32" "rs1 < 32" "f3 < 8" "op < 128"
  shows "opcode_of (mk_s imm rs2 rs1 f3 op) = op" "rs2_of (mk_s imm rs2 rs1 f3 op) = rs2"
    "funct3_of (mk_s imm rs2 rs1 f3 op) = f3" "rs1_of (mk_s imm rs2 rs1 f3 op) = rs1"
    "imm_s (mk_s imm rs2 rs1 f3 op) = signed_take_bit 11 imm"
  unfolding field_defs mk_s_def imm_s_def Let_def
  by (rule u32_eq_bits, use assms in \<open>simp add: all_less_32 bit_simps bounded_bits\<close>)+

lemma mk_b_fields:
  assumes "rs2 < 32" "rs1 < 32" "f3 < 8" "op < 128"
  shows "opcode_of (mk_b imm rs2 rs1 f3 op) = op" "rs2_of (mk_b imm rs2 rs1 f3 op) = rs2"
    "funct3_of (mk_b imm rs2 rs1 f3 op) = f3" "rs1_of (mk_b imm rs2 rs1 f3 op) = rs1"
    "imm_b (mk_b imm rs2 rs1 f3 op) = signed_take_bit 12 imm AND NOT 1"
  unfolding field_defs mk_b_def imm_b_def Let_def
  by (rule u32_eq_bits, use assms in \<open>simp add: all_less_32 bit_simps bounded_bits flip: numeral_2_eq_2\<close>)+

lemma mk_u_fields:
  assumes "rd < 32" "op < 128"
  shows "opcode_of (mk_u imm rd op) = op" "rd_of (mk_u imm rd op) = rd"
    "imm_u (mk_u imm rd op) = imm AND 0xFFFFF000"
  unfolding field_defs mk_u_def imm_u_def
  by (rule u32_eq_bits, use assms in \<open>simp add: all_less_32 bit_simps bounded_bits\<close>)+

lemma mk_j_fields:
  assumes "rd < 32" "op < 128"
  shows "opcode_of (mk_j imm rd op) = op" "rd_of (mk_j imm rd op) = rd"
    "imm_j (mk_j imm rd op) = signed_take_bit 20 imm AND NOT 1"
  unfolding field_defs mk_j_def imm_j_def Let_def
  by (rule u32_eq_bits, use assms in \<open>simp add: all_less_32 bit_simps bounded_bits flip: numeral_2_eq_2\<close>)+


section \<open>The portable arithmetic shift\<close>

lemma unat_and_1F: "unat (s AND (0x1F :: u32)) < 32"
  using and_mask_less [of 5 s] by (simp add: mask_eq_exp_minus_1 word_less_nat_alt)

lemma sra32_arith: "sra32 v s = signed_drop_bit (unat (s AND 0x1F)) v"
proof (cases "s AND 0x1F = 0")
  case True
  then show ?thesis by (simp add: sra32_def signed_drop_bit_0)
next
  case False
  define k where "k = unat (s AND 0x1F)"
  have k: "0 < k" "k < 32" using False unat_and_1F by (auto simp: k_def unat_gt_0)
  have sign: "v AND 0x80000000 \<noteq> 0 \<longleftrightarrow> bit v 31"
  proof -
    have "(0x80000000 :: u32) = push_bit 31 1" by simp
    then show ?thesis by (metis and_exp_eq_0_iff_not_bit push_bit_of_1)
  qed
  have sub: "unat (32 - (s AND 0x1F)) = 32 - k"
    using k by (simp add: unat_sub k_def word_le_nat_alt)
  have ones: "(push_bit (32 - k) 1 - 1 :: u32) = mask (32 - k)"
    by (simp add: mask_eq_exp_minus_1)
  show ?thesis
    unfolding sra32_def Let_def sub ones sign
    using False k
    by (intro bit_word_eqI) (auto simp: bit_simps simp flip: k_def dest: bit_imp_le_length)
qed

end
