(* ===== verification/VM_Expand.thy ===== *)
theory VM_Expand
  imports VM_Decode
begin

text \<open>
  The C-extension expander of \<open>src/vm/vm_core.c\<close>: \<open>expand_compressed\<close> maps a 16-bit
  encoding to the 32-bit instruction with the same meaning, or to \<open>0\<close> (an illegal encoding
  of the main decoder) where the compressed form is reserved or unsupported. One definition
  per quadrant, one case per \<open>funct3\<close>, in the code's order. The immediate shuffles the code
  repeats for two instructions are named once.
\<close>

section \<open>Immediate shuffles\<close>

definition cimm_lw :: "u32 \<Rightarrow> u32" where
  "cimm_lw c =
     push_bit 3 (drop_bit 10 c AND 0x7) OR
     push_bit 2 (drop_bit 6 c AND 0x1) OR
     push_bit 6 (drop_bit 5 c AND 0x1)"

definition cimm_6 :: "u32 \<Rightarrow> u32" where
  "cimm_6 c = push_bit 5 (drop_bit 12 c AND 0x1) OR (drop_bit 2 c AND 0x1F)"

definition cimm_j :: "u32 \<Rightarrow> u32" where
  "cimm_j c =
     push_bit 11 (drop_bit 12 c AND 0x1) OR
     push_bit 4 (drop_bit 11 c AND 0x1) OR
     push_bit 8 (drop_bit 9 c AND 0x3) OR
     push_bit 10 (drop_bit 8 c AND 0x1) OR
     push_bit 6 (drop_bit 7 c AND 0x1) OR
     push_bit 7 (drop_bit 6 c AND 0x1) OR
     push_bit 1 (drop_bit 3 c AND 0x7) OR
     push_bit 5 (drop_bit 2 c AND 0x1)"

section \<open>Quadrant 0\<close>

definition expand_q0 :: "u32 \<Rightarrow> u32" where
  "expand_q0 c =
     (let f3 = drop_bit 13 c AND 0x7 in
      if f3 = 0x0 then
        let rd_p = creg (drop_bit 2 c AND 0x7);
            imm = push_bit 4 (drop_bit 11 c AND 0x3) OR
                  push_bit 6 (drop_bit 7 c AND 0xF) OR
                  push_bit 2 (drop_bit 6 c AND 0x1) OR
                  push_bit 3 (drop_bit 5 c AND 0x1)
        in if imm = 0 then 0 else mk_i imm 2 0x0 rd_p 0x13
      else if f3 = 0x2 then
        let rd_p = creg (drop_bit 2 c AND 0x7);
            rs1_p = creg (drop_bit 7 c AND 0x7)
        in mk_i (cimm_lw c) rs1_p 0x2 rd_p 0x03
      else if f3 = 0x6 then
        let rs2_p = creg (drop_bit 2 c AND 0x7);
            rs1_p = creg (drop_bit 7 c AND 0x7)
        in mk_s (cimm_lw c) rs2_p rs1_p 0x2 0x23
      else 0)"

section \<open>Quadrant 1\<close>

text \<open>\<open>funct3 = 4\<close>: shifts, \<open>C.ANDI\<close> and the register ALU on the compressed registers.\<close>

definition expand_q1_alu :: "u32 \<Rightarrow> u32" where
  "expand_q1_alu c =
     (let sub = drop_bit 10 c AND 0x3;
          rd_p = creg (drop_bit 7 c AND 0x7) in
      if sub = 0x0 \<or> sub = 0x1 then
        let shamt5 = drop_bit 12 c AND 0x1;
            shamt40 = drop_bit 2 c AND 0x1F in
        if shamt5 \<noteq> 0 then 0
        else let f7 = (if sub = 0x1 then 0x20 else 0x00)
             in mk_i (push_bit 5 f7 OR shamt40) rd_p 0x5 rd_p 0x13
      else if sub = 0x2 then
        mk_i (sign_extend (cimm_6 c) 6) rd_p 0x7 rd_p 0x13
      else
        let rs2_p = creg (drop_bit 2 c AND 0x7);
            op = drop_bit 5 c AND 0x3 in
        if drop_bit 12 c AND 0x1 \<noteq> 0 then 0
        else if op = 0x0 then mk_r 0x20 rs2_p rd_p 0x0 rd_p 0x33
        else if op = 0x1 then mk_r 0x00 rs2_p rd_p 0x4 rd_p 0x33
        else if op = 0x2 then mk_r 0x00 rs2_p rd_p 0x6 rd_p 0x33
        else if op = 0x3 then mk_r 0x00 rs2_p rd_p 0x7 rd_p 0x33
        else 0)"

definition expand_q1 :: "u32 \<Rightarrow> u32" where
  "expand_q1 c =
     (let f3 = drop_bit 13 c AND 0x7 in
      if f3 = 0x0 then
        let rd = drop_bit 7 c AND 0x1F;
            simm = sign_extend (cimm_6 c) 6
        in mk_i simm rd 0x0 rd 0x13
      else if f3 = 0x1 then
        let simm = sign_extend (cimm_j c) 12
        in mk_j simm 1 0x6F
      else if f3 = 0x2 then
        let rd = drop_bit 7 c AND 0x1F;
            simm = sign_extend (cimm_6 c) 6
        in mk_i simm 0 0x0 rd 0x13
      else if f3 = 0x3 then
        let rd = drop_bit 7 c AND 0x1F in
        if rd = 0 then 0
        else if rd = 2 then
          let imm = push_bit 9 (drop_bit 12 c AND 0x1) OR
                    push_bit 4 (drop_bit 6 c AND 0x1) OR
                    push_bit 6 (drop_bit 5 c AND 0x1) OR
                    push_bit 7 (drop_bit 3 c AND 0x3) OR
                    push_bit 5 (drop_bit 2 c AND 0x1)
          in if imm = 0 then 0 else mk_i (sign_extend imm 10) 2 0x0 2 0x13
        else
          let imm = push_bit 17 (drop_bit 12 c AND 0x1) OR push_bit 12 (drop_bit 2 c AND 0x1F)
          in if imm = 0 then 0 else mk_u (sign_extend imm 18) rd 0x37
      else if f3 = 0x4 then expand_q1_alu c
      else if f3 = 0x5 then
        let simm = sign_extend (cimm_j c) 12
        in mk_j simm 0 0x6F
      else if f3 = 0x6 \<or> f3 = 0x7 then
        let rs1_p = creg (drop_bit 7 c AND 0x7);
            imm = push_bit 8 (drop_bit 12 c AND 0x1) OR
                  push_bit 3 (drop_bit 10 c AND 0x3) OR
                  push_bit 6 (drop_bit 5 c AND 0x3) OR
                  push_bit 1 (drop_bit 3 c AND 0x3) OR
                  push_bit 5 (drop_bit 2 c AND 0x1);
            simm = sign_extend imm 9;
            branch_f3 = (if f3 = 0x6 then 0x0 else 0x1)
        in mk_b simm 0 rs1_p branch_f3 0x63
      else 0)"

section \<open>Quadrant 2\<close>

definition expand_q2 :: "u32 \<Rightarrow> u32" where
  "expand_q2 c =
     (let f3 = drop_bit 13 c AND 0x7 in
      if f3 = 0x0 then
        let rd = drop_bit 7 c AND 0x1F;
            shamt5 = drop_bit 12 c AND 0x1;
            shamt40 = drop_bit 2 c AND 0x1F
        in if shamt5 \<noteq> 0 then 0 else mk_i shamt40 rd 0x1 rd 0x13
      else if f3 = 0x2 then
        let rd = drop_bit 7 c AND 0x1F in
        if rd = 0 then 0
        else
          let imm = push_bit 5 (drop_bit 12 c AND 0x1) OR
                    push_bit 2 (drop_bit 4 c AND 0x7) OR
                    push_bit 6 (drop_bit 2 c AND 0x3)
          in mk_i imm 2 0x2 rd 0x03
      else if f3 = 0x4 then
        let rd_or_rs1 = drop_bit 7 c AND 0x1F;
            rs2 = drop_bit 2 c AND 0x1F;
            bit12 = drop_bit 12 c AND 0x1 in
        if bit12 = 0 then
          if rs2 = 0 then
            if rd_or_rs1 = 0 then 0 else mk_i 0 rd_or_rs1 0x0 0 0x67
          else mk_r 0x00 rs2 0 0x0 rd_or_rs1 0x33
        else if rd_or_rs1 = 0 \<and> rs2 = 0 then 0x00100073
        else if rs2 = 0 then mk_i 0 rd_or_rs1 0x0 1 0x67
        else if rd_or_rs1 = 0 then 0
        else mk_r 0x00 rs2 rd_or_rs1 0x0 rd_or_rs1 0x33
      else if f3 = 0x6 then
        let rs2 = drop_bit 2 c AND 0x1F;
            imm = push_bit 2 (drop_bit 9 c AND 0xF) OR
                  push_bit 6 (drop_bit 7 c AND 0x3)
        in mk_s imm rs2 2 0x2 0x23
      else 0)"

definition expand_compressed :: "u16 \<Rightarrow> u32" where
  "expand_compressed c16 =
     (let c = ucast c16; quadrant = c AND 0x3 in
      if quadrant = 0 then expand_q0 c
      else if quadrant = 1 then expand_q1 c
      else expand_q2 c)"

end
