(* ===== verification/VM_Exec.thy ===== *)
theory VM_Exec
  imports VM_Memory VM_Expand
begin

text \<open>
  Instruction execution of \<open>src/vm/vm_core.c\<close>: \<open>execute_one\<close> with one definition per major
  opcode, \<open>step_once\<close> and the dispatch loop \<open>vm_step\<close>. A step takes the CPU and the host
  memory and returns the C function's boolean, the CPU and the memory; only stores change
  the memory. \<open>goto illegal\<close> is the function \<open>illegal\<close>, a result computation that may jump
  there returns an option.
\<close>

section \<open>Results of an instruction\<close>

definition illegal :: "VmCpu \<Rightarrow> u32 \<Rightarrow> bool \<times> VmCpu" where
  "illegal cpu insn =
     (False, cpu\<lparr>trap_cause := TRAP_ILLEGAL_INSTR, trap_pc := pc cpu, trap_insn := insn\<rparr>)"

text \<open>\<open>cpu->regs[rd] = result; cpu->pc += insn_size; return true;\<close>\<close>

definition retire_rd :: "VmCpu \<Rightarrow> u32 \<Rightarrow> u32 \<Rightarrow> u32 \<Rightarrow> bool \<times> VmCpu" where
  "retire_rd cpu rd result insn_size =
     (True, cpu\<lparr>regs := (regs cpu)(rd := result), pc := pc cpu + insn_size\<rparr>)"

definition retire :: "VmCpu \<Rightarrow> u32 \<Rightarrow> bool \<times> VmCpu" where
  "retire cpu insn_size = (True, cpu\<lparr>pc := pc cpu + insn_size\<rparr>)"

section \<open>OP-IMM and OP\<close>

definition op_imm_result :: "u32 \<Rightarrow> u32 \<Rightarrow> u32 option" where
  "op_imm_result a insn =
     (let f3 = funct3_of insn; f7 = funct7_of insn; uimm = imm_i insn in
      if f3 = 0x0 then Some (a + uimm)
      else if f3 = 0x2 then Some (if sint a < sint uimm then 1 else 0)
      else if f3 = 0x3 then Some (if a < uimm then 1 else 0)
      else if f3 = 0x4 then Some (a XOR uimm)
      else if f3 = 0x6 then Some (a OR uimm)
      else if f3 = 0x7 then Some (a AND uimm)
      else if f3 = 0x1 then
        if f7 \<noteq> 0x00 then None else Some (push_bit (unat (shamt_of insn)) a)
      else if f3 = 0x5 then
        if f7 = 0x00 then Some (drop_bit (unat (shamt_of insn)) a)
        else if f7 = 0x20 then Some (sra32 a (shamt_of insn))
        else None
      else None)"

definition exec_op_imm :: "VmCpu \<Rightarrow> u32 \<Rightarrow> u32 \<Rightarrow> bool \<times> VmCpu" where
  "exec_op_imm cpu insn insn_size =
     (case op_imm_result (regs cpu (rs1_of insn)) insn of
        None \<Rightarrow> illegal cpu insn
      | Some result \<Rightarrow> retire_rd cpu (rd_of insn) result insn_size)"

definition op_m_result :: "u32 \<Rightarrow> u32 \<Rightarrow> u32 \<Rightarrow> u32 option" where
  "op_m_result f3 a b =
     (if f3 = 0x0 then Some (a * b)
      else if f3 = 0x1 then
        let prod = (scast a * scast b :: u64) in Some (ucast (drop_bit 32 prod))
      else if f3 = 0x2 then
        let prod = (scast a * ucast b :: u64) in Some (ucast (drop_bit 32 prod))
      else if f3 = 0x3 then
        let prod = (ucast a * ucast b :: u64) in Some (ucast (drop_bit 32 prod))
      else if f3 = 0x4 then
        if b = 0 then Some 0xFFFFFFFF
        else if a = 0x80000000 \<and> b = 0xFFFFFFFF then Some 0x80000000
        else Some (word_of_int (sint a sdiv sint b))
      else if f3 = 0x5 then
        if b = 0 then Some 0xFFFFFFFF else Some (a div b)
      else if f3 = 0x6 then
        if b = 0 then Some a
        else if a = 0x80000000 \<and> b = 0xFFFFFFFF then Some 0
        else Some (word_of_int (sint a smod sint b))
      else if f3 = 0x7 then
        if b = 0 then Some a else Some (a mod b)
      else None)"

definition op_i_result :: "u32 \<Rightarrow> u32 \<Rightarrow> u32 \<Rightarrow> u32 \<Rightarrow> u32 option" where
  "op_i_result f3 f7 a b =
     (if f3 = 0x0 then
        if f7 = 0x00 then Some (a + b) else if f7 = 0x20 then Some (a - b) else None
      else if f3 = 0x1 then
        if f7 \<noteq> 0x00 then None else Some (push_bit (unat (b AND 0x1F)) a)
      else if f3 = 0x2 then
        if f7 \<noteq> 0x00 then None else Some (if sint a < sint b then 1 else 0)
      else if f3 = 0x3 then
        if f7 \<noteq> 0x00 then None else Some (if a < b then 1 else 0)
      else if f3 = 0x4 then
        if f7 \<noteq> 0x00 then None else Some (a XOR b)
      else if f3 = 0x5 then
        if f7 = 0x00 then Some (drop_bit (unat (b AND 0x1F)) a)
        else if f7 = 0x20 then Some (sra32 a (b AND 0x1F))
        else None
      else if f3 = 0x6 then
        if f7 \<noteq> 0x00 then None else Some (a OR b)
      else if f3 = 0x7 then
        if f7 \<noteq> 0x00 then None else Some (a AND b)
      else None)"

definition exec_op :: "VmCpu \<Rightarrow> u32 \<Rightarrow> u32 \<Rightarrow> bool \<times> VmCpu" where
  "exec_op cpu insn insn_size =
     (let a = regs cpu (rs1_of insn); b = regs cpu (rs2_of insn);
          f3 = funct3_of insn; f7 = funct7_of insn
      in case (if f7 = 0x01 then op_m_result f3 a b else op_i_result f3 f7 a b) of
           None \<Rightarrow> illegal cpu insn
         | Some result \<Rightarrow> retire_rd cpu (rd_of insn) result insn_size)"

section \<open>Loads and stores\<close>

text \<open>Address checks of a load: alignment trap first, then translation.\<close>

definition load_ptr :: "VmCpu \<Rightarrow> u32 \<Rightarrow> u32 \<Rightarrow> VmCpu \<times> hptr" where
  "load_ptr cpu addr n =
     (if addr AND (n - 1) \<noteq> 0 then (set_trap cpu TRAP_LOAD_MISALIGNED addr, 0)
      else xlat_read cpu addr n TRAP_LOAD_FAULT)"

definition store_ptr :: "VmCpu \<Rightarrow> u32 \<Rightarrow> u32 \<Rightarrow> VmCpu \<times> hptr" where
  "store_ptr cpu addr n =
     (if addr AND (n - 1) \<noteq> 0 then (set_trap cpu TRAP_STORE_MISALIGNED addr, 0)
      else xlat_write cpu addr n)"

definition exec_load :: "VmCpu \<Rightarrow> hmem \<Rightarrow> u32 \<Rightarrow> u32 \<Rightarrow> bool \<times> VmCpu" where
  "exec_load cpu m insn insn_size =
     (let addr = regs cpu (rs1_of insn) + imm_i insn;
          rd = rd_of insn; f3 = funct3_of insn in
      if f3 = 0x0 then
        let (cpu, p) = load_ptr cpu addr 1 in
        if p = 0 then (False, cpu) else retire_rd cpu rd (scast (m p)) insn_size
      else if f3 = 0x1 then
        let (cpu, p) = load_ptr cpu addr 2 in
        if p = 0 then (False, cpu) else retire_rd cpu rd (scast (ld16 m p)) insn_size
      else if f3 = 0x2 then
        let (cpu, p) = load_ptr cpu addr 4 in
        if p = 0 then (False, cpu) else retire_rd cpu rd (ld32 m p) insn_size
      else if f3 = 0x4 then
        let (cpu, p) = load_ptr cpu addr 1 in
        if p = 0 then (False, cpu) else retire_rd cpu rd (ucast (m p)) insn_size
      else if f3 = 0x5 then
        let (cpu, p) = load_ptr cpu addr 2 in
        if p = 0 then (False, cpu) else retire_rd cpu rd (ucast (ld16 m p)) insn_size
      else illegal cpu insn)"

definition exec_store :: "VmCpu \<Rightarrow> hmem \<Rightarrow> u32 \<Rightarrow> u32 \<Rightarrow> bool \<times> VmCpu \<times> hmem" where
  "exec_store cpu m insn insn_size =
     (let addr = regs cpu (rs1_of insn) + imm_s insn;
          v = regs cpu (rs2_of insn); f3 = funct3_of insn in
      if f3 = 0x0 then
        let (cpu, p) = store_ptr cpu addr 1 in
        if p = 0 then (False, cpu, m)
        else let (ok, cpu) = retire cpu insn_size in (ok, cpu, m(p := ucast (v AND 0xFF)))
      else if f3 = 0x1 then
        let (cpu, p) = store_ptr cpu addr 2 in
        if p = 0 then (False, cpu, m)
        else let (ok, cpu) = retire cpu insn_size in (ok, cpu, st16 m p (ucast (v AND 0xFFFF)))
      else if f3 = 0x2 then
        let (cpu, p) = store_ptr cpu addr 4 in
        if p = 0 then (False, cpu, m)
        else let (ok, cpu) = retire cpu insn_size in (ok, cpu, st32 m p v)
      else let (ok, cpu) = illegal cpu insn in (ok, cpu, m))"

section \<open>Control transfer\<close>

definition branch_taken :: "u32 \<Rightarrow> u32 \<Rightarrow> u32 \<Rightarrow> bool option" where
  "branch_taken f3 a b =
     (if f3 = 0x0 then Some (a = b)
      else if f3 = 0x1 then Some (a \<noteq> b)
      else if f3 = 0x4 then Some (sint a < sint b)
      else if f3 = 0x5 then Some (sint a \<ge> sint b)
      else if f3 = 0x6 then Some (a < b)
      else if f3 = 0x7 then Some (a \<ge> b)
      else None)"

definition exec_branch :: "VmCpu \<Rightarrow> u32 \<Rightarrow> u32 \<Rightarrow> bool \<times> VmCpu" where
  "exec_branch cpu insn insn_size =
     (case branch_taken (funct3_of insn) (regs cpu (rs1_of insn)) (regs cpu (rs2_of insn)) of
        None \<Rightarrow> illegal cpu insn
      | Some take_it \<Rightarrow>
          (True, cpu\<lparr>pc := pc cpu + (if take_it then imm_b insn else insn_size)\<rparr>))"

definition exec_jal :: "VmCpu \<Rightarrow> u32 \<Rightarrow> u32 \<Rightarrow> bool \<times> VmCpu" where
  "exec_jal cpu insn insn_size =
     (let link = pc cpu + insn_size; target = pc cpu + imm_j insn
      in (True, cpu\<lparr>regs := (regs cpu)(rd_of insn := link), pc := target\<rparr>))"

definition exec_jalr :: "VmCpu \<Rightarrow> u32 \<Rightarrow> u32 \<Rightarrow> bool \<times> VmCpu" where
  "exec_jalr cpu insn insn_size =
     (if funct3_of insn \<noteq> 0x0 then illegal cpu insn
      else let link = pc cpu + insn_size;
               target = (regs cpu (rs1_of insn) + imm_i insn) AND NOT 1
           in (True, cpu\<lparr>regs := (regs cpu)(rd_of insn := link), pc := target\<rparr>))"

section \<open>SYSTEM\<close>

definition exec_csr :: "VmCpu \<Rightarrow> u32 \<Rightarrow> u32 \<Rightarrow> bool \<times> VmCpu" where
  "exec_csr cpu insn insn_size =
     (let f3 = funct3_of insn; rs1 = rs1_of insn;
          csr = drop_bit 20 insn AND 0xFFF;
          source = (if f3 AND 0x4 \<noteq> 0 then rs1 else regs cpu rs1);
          old_value = csr_read cpu csr;
          sel = f3 AND 0x3 in
      if sel = 0x0 then illegal cpu insn
      else
        let (new_value, do_write) =
              (if sel = 0x1 then (source, True)
               else if sel = 0x2 then (old_value OR source, source \<noteq> 0)
               else (old_value AND NOT source, source \<noteq> 0));
            cpu1 = cpu\<lparr>regs := (regs cpu)(rd_of insn := old_value)\<rparr>;
            cpu2 = (if do_write then csr_write cpu1 csr new_value else cpu1)
        in retire cpu2 insn_size)"

definition exec_system :: "VmCpu \<Rightarrow> u32 \<Rightarrow> u32 \<Rightarrow> bool \<times> VmCpu" where
  "exec_system cpu insn insn_size =
     (if funct3_of insn = 0x0 then
        let imm = drop_bit 20 insn AND 0xFFF in
        if imm = 0x000 then
          (False, cpu\<lparr>pc := pc cpu + insn_size, trap_cause := TRAP_ECALL,
             trap_pc := (pc cpu + insn_size) - insn_size\<rparr>)
        else if imm = 0x001 then
          (False, cpu\<lparr>trap_cause := TRAP_BREAKPOINT, trap_pc := pc cpu, trap_insn := insn\<rparr>)
        else illegal cpu insn
      else exec_csr cpu insn insn_size)"

section \<open>The main decode\<close>

definition execute_decoded :: "VmCpu \<Rightarrow> hmem \<Rightarrow> u32 \<Rightarrow> u32 \<Rightarrow> bool \<times> VmCpu \<times> hmem" where
  "execute_decoded cpu m insn insn_size =
     (let op = opcode_of insn; rd = rd_of insn; f3 = funct3_of insn;
          keep = (\<lambda>(ok, cpu). (ok, cpu, m)) in
      if op = 0x13 then keep (exec_op_imm cpu insn insn_size)
      else if op = 0x33 then keep (exec_op cpu insn insn_size)
      else if op = 0x37 then keep (retire_rd cpu rd (imm_u insn) insn_size)
      else if op = 0x17 then keep (retire_rd cpu rd (pc cpu + imm_u insn) insn_size)
      else if op = 0x03 then keep (exec_load cpu m insn insn_size)
      else if op = 0x23 then exec_store cpu m insn insn_size
      else if op = 0x63 then keep (exec_branch cpu insn insn_size)
      else if op = 0x6F then keep (exec_jal cpu insn insn_size)
      else if op = 0x67 then keep (exec_jalr cpu insn insn_size)
      else if op = 0x0F then
        keep (if f3 \<noteq> 0x0 \<and> f3 \<noteq> 0x1 then illegal cpu insn else retire cpu insn_size)
      else if op = 0x73 then keep (exec_system cpu insn insn_size)
      else keep (illegal cpu insn))"

definition execute_one :: "VmCpu \<Rightarrow> hmem \<Rightarrow> u32 \<Rightarrow> u32 \<Rightarrow> bool \<times> VmCpu \<times> hmem" where
  "execute_one cpu m insn insn_size =
     (if insn_size = 2 then
        let expanded = expand_compressed (ucast insn) in
        if expanded = 0 then
          (False, cpu\<lparr>trap_cause := TRAP_ILLEGAL_INSTR, trap_pc := pc cpu, trap_insn := insn\<rparr>, m)
        else execute_decoded cpu m expanded insn_size
      else execute_decoded cpu m insn insn_size)"

section \<open>One step and the dispatch loop\<close>

definition step_once :: "VmCpu \<Rightarrow> hmem \<Rightarrow> bool \<times> VmCpu \<times> hmem" where
  "step_once cpu m =
     (let (fetched, cpu, insn, insn_size) = fetch_instruction cpu m in
      if \<not> fetched then (False, cpu\<lparr>trap_count := trap_count cpu + 1\<rparr>, m)
      else let (ok, cpu, m) = execute_one cpu m insn insn_size in
      if \<not> ok then
        (False, if trap_cause cpu \<noteq> TRAP_ECALL then cpu\<lparr>trap_count := trap_count cpu + 1\<rparr> else cpu, m)
      else
        (True, cpu\<lparr>regs := (regs cpu)(0 := 0), instructions_retired := instructions_retired cpu + 1\<rparr>, m))"

function vm_step_loop :: "u32 \<Rightarrow> u32 \<Rightarrow> VmCpu \<Rightarrow> hmem \<Rightarrow> bool \<times> u32 \<times> VmCpu \<times> hmem" where
  "vm_step_loop steps budget cpu m =
     (if steps < budget then
        let (ok, cpu, m) = step_once cpu m in
        if \<not> ok then (False, steps, cpu, m)
        else vm_step_loop (steps + 1) budget cpu m
      else (True, steps, cpu, m))"
  by pat_completeness auto
termination
  by (relation "measure (\<lambda>(steps, budget, _, _). unat budget - unat steps)")
    (auto simp: unat_plus_one word_less_nat_alt)

declare vm_step_loop.simps [simp del]

definition clear_trap :: "VmCpu \<Rightarrow> VmCpu" where
  "clear_trap cpu = cpu\<lparr>trap_cause := TRAP_NONE, trap_pc := 0, trap_addr := 0, trap_insn := 0\<rparr>"

text \<open>\<open>vm_step\<close> returns its result code and \<open>*out_steps\<close>.\<close>

definition vm_step :: "VmCpu \<Rightarrow> hmem \<Rightarrow> u32 \<Rightarrow> VmStepResult \<times> u32 \<times> VmCpu \<times> hmem" where
  "vm_step cpu m budget =
     (if halted cpu then (VM_STEP_HALTED, 0, cpu, m)
      else
        let (expired, steps, cpu, m) = vm_step_loop 0 budget (clear_trap cpu) m in
        if expired then (VM_STEP_QUANTUM_EXPIRED, steps, cpu, m)
        else if trap_cause cpu = TRAP_ECALL then
          (VM_STEP_ECALL, steps, cpu\<lparr>ecall_count := ecall_count cpu + 1\<rparr>, m)
        else if trap_cause cpu = TRAP_HALT then
          (VM_STEP_HALTED, steps, cpu\<lparr>halted := True\<rparr>, m)
        else (VM_STEP_TRAPPED, steps, cpu, m))"

end
