(* ===== verification/VM_Safety.thy ===== *)
theory VM_Safety
  imports VM_Exec
begin

text \<open>
  What a guest instruction can and cannot do. Every opcode keeps \<open>well_behaved\<close>: the fields
  the host owns are untouched, a trap is precise (registers, program counter and memory as
  before the instruction, except that ECALL has advanced the program counter), a retired
  instruction leaves the trap fields alone and the program counter even. Stores write only
  to writable regions, and the outcome depends on the host memory only through the readable
  regions. The facts are lifted from opcodes to \<open>step_once\<close>, to the loop and to \<open>vm_step\<close>.
\<close>

section \<open>One opcode\<close>

definition same_trap :: "VmCpu \<Rightarrow> VmCpu \<Rightarrow> bool" where
  "same_trap c d \<longleftrightarrow> trap_cause d = trap_cause c \<and> trap_pc d = trap_pc c \<and>
     trap_addr d = trap_addr c \<and> trap_insn d = trap_insn c"

definition well_behaved :: "VmCpu \<Rightarrow> u32 \<Rightarrow> bool \<times> VmCpu \<Rightarrow> bool" where
  "well_behaved cpu insn_size res \<longleftrightarrow>
     (let (ok, cpu') = res in
      same_host_fields cpu cpu' \<and>
      instructions_retired cpu' = instructions_retired cpu \<and> trap_count cpu' = trap_count cpu \<and>
      (if ok then same_trap cpu cpu' \<and> (even (pc cpu) \<longrightarrow> even (pc cpu'))
       else regs cpu' = regs cpu \<and> trap_pc cpu' = pc cpu \<and>
         trap_cause cpu' \<notin> {TRAP_NONE, TRAP_HALT, TRAP_INSTR_MISALIGNED} \<and>
         pc cpu' = (if trap_cause cpu' = TRAP_ECALL then pc cpu + insn_size else pc cpu)))"

lemmas behaviour = well_behaved_def same_host_fields_def same_trap_def

lemma illegal_well_behaved [intro]: "well_behaved cpu n (illegal cpu insn)"
  by (simp add: behaviour illegal_def)

lemma retire_rd_well_behaved [intro]: "even n \<Longrightarrow> well_behaved cpu n (retire_rd cpu rd v n)"
  by (simp add: behaviour retire_rd_def)

lemma retire_well_behaved [intro]: "even n \<Longrightarrow> well_behaved cpu n (retire cpu n)"
  by (simp add: behaviour retire_def)

lemma fault_well_behaved:
  "c \<notin> {TRAP_NONE, TRAP_HALT, TRAP_INSTR_MISALIGNED, TRAP_ECALL} \<Longrightarrow>
   well_behaved cpu n (False, set_trap cpu c a)"
  by (simp add: behaviour set_trap_def)

lemma even_iff_not_bit_0: "even (w :: u32) \<longleftrightarrow> \<not> bit w 0"
  by (simp add: bit_0)

lemma even_imm_b: "even (imm_b insn)"
  unfolding even_iff_not_bit_0 imm_b_def Let_def
  by (simp only: bit_simps) simp

lemma even_imm_j: "even (imm_j insn)"
  unfolding even_iff_not_bit_0 imm_j_def Let_def
  by (simp only: bit_simps) simp

lemma even_and_minus_2: "even (w AND - 2 :: u32)"
  by (simp add: even_and_iff)


lemma exec_op_imm_wb: "even n \<Longrightarrow> well_behaved cpu n (exec_op_imm cpu insn n)"
  by (auto simp: exec_op_imm_def split: option.split)

lemma exec_op_wb: "even n \<Longrightarrow> well_behaved cpu n (exec_op cpu insn n)"
  by (auto simp: exec_op_def Let_def split: option.split)

lemma exec_branch_wb: "even n \<Longrightarrow> well_behaved cpu n (exec_branch cpu insn n)"
  by (auto simp: exec_branch_def behaviour even_imm_b split: option.split)
    (auto simp: illegal_def)

lemma exec_jal_wb: "well_behaved cpu n (exec_jal cpu insn n)"
  by (simp add: exec_jal_def behaviour Let_def even_imm_j)

lemma exec_jalr_wb: "well_behaved cpu n (exec_jalr cpu insn n)"
  by (auto simp: exec_jalr_def Let_def) (simp add: behaviour even_and_minus_2)

lemma exec_csr_wb: "even n \<Longrightarrow> well_behaved cpu n (exec_csr cpu insn n)"
  by (auto simp: exec_csr_def csr_write_def Let_def) (simp_all add: behaviour retire_def)

lemma exec_system_wb: "even n \<Longrightarrow> well_behaved cpu n (exec_system cpu insn n)"
  by (auto simp: exec_system_def exec_csr_wb Let_def) (simp_all add: behaviour)

lemma load_ptr_result:
  assumes "load_ptr cpu addr n = (cpu', p)" and "vm_regions_ok cpu"
  shows "(p = 0 \<and> cpu' = set_trap cpu (trap_cause cpu') addr \<and>
            trap_cause cpu' \<in> {TRAP_LOAD_MISALIGNED, TRAP_LOAD_FAULT}) \<or>
         (p \<noteq> 0 \<and> cpu' = cpu \<and> extent p (unat n) \<subseteq> vm_readable cpu)"
  using assms xlat_read_result [of cpu addr n TRAP_LOAD_FAULT cpu' p]
  by (auto simp: load_ptr_def split: if_splits)

lemma store_ptr_result:
  assumes "store_ptr cpu addr n = (cpu', p)" and "vm_regions_ok cpu"
  shows "(p = 0 \<and> cpu' = set_trap cpu (trap_cause cpu') addr \<and>
            trap_cause cpu' \<in> {TRAP_STORE_MISALIGNED, TRAP_STORE_FAULT, TRAP_STORE_RO}) \<or>
         (p \<noteq> 0 \<and> cpu' = cpu \<and> extent p (unat n) \<subseteq> vm_writable cpu)"
  using assms xlat_write_result [of cpu addr n cpu' p]
  by (auto simp: store_ptr_def split: if_splits)

text \<open>The shape every load shares: translate, stop on NULL, else retire with a value.\<close>

lemma load_case_wb:
  assumes "vm_regions_ok cpu" and "even n"
  shows "well_behaved cpu n
     (let (cpu, p) = load_ptr cpu addr k in
      if p = 0 then (False, cpu) else retire_rd cpu rd (v p) n)"
proof (cases "load_ptr cpu addr k")
  case (Pair cpu' p)
  then show ?thesis
    using load_ptr_result [OF Pair assms(1)] assms(2)
    by (auto intro: fault_well_behaved)
qed


lemma exec_load_wb:
  assumes "vm_regions_ok cpu" and "even n"
  shows "well_behaved cpu n (exec_load cpu m insn n)"
  using assms by (simp add: exec_load_def Let_def load_case_wb [unfolded Let_def] illegal_well_behaved)

text \<open>
  Stores: a retired store changes bytes of one writable region only; a trapped one changes
  nothing.
\<close>

definition writes_only :: "hptr set \<Rightarrow> hmem \<Rightarrow> hmem \<Rightarrow> bool" where
  "writes_only S m m' \<longleftrightarrow> (\<forall>a. a \<notin> S \<longrightarrow> m' a = m a)"

lemma writes_only_refl [simp, intro]: "writes_only S m m"
  by (simp add: writes_only_def)

lemma writes_only_trans [trans]: "writes_only S m m' \<Longrightarrow> writes_only S m' m'' \<Longrightarrow> writes_only S m m''"
  by (simp add: writes_only_def)

lemma writes_only_store_bytes:
  "extent p (length bs) \<subseteq> S \<Longrightarrow> writes_only S m (store_bytes m p bs)"
  by (auto simp: writes_only_def store_bytes_def subset_iff)

lemma writes_only_store_le:
  "extent p n \<subseteq> S \<Longrightarrow> writes_only S m (store_le n m p v)"
  by (simp add: store_le_def writes_only_store_bytes)

lemma store_byte_as_bytes: "m(p := b) = store_bytes m p [b]"
  by (rule ext) (auto simp: store_bytes_def)

definition store_outcome :: "VmCpu \<Rightarrow> hmem \<Rightarrow> u32 \<Rightarrow> bool \<times> VmCpu \<times> hmem \<Rightarrow> bool" where
  "store_outcome cpu m n res \<longleftrightarrow>
     (let (ok, cpu', m') = res in
      well_behaved cpu n (ok, cpu') \<and> (if ok then writes_only (vm_writable cpu) m m' else m' = m))"

lemma store_case_ok:
  assumes "vm_regions_ok cpu" and "even n"
    and "\<And>p. extent p (unat k) \<subseteq> vm_writable cpu \<Longrightarrow> writes_only (vm_writable cpu) m (f p)"
  shows "store_outcome cpu m n
     (let (cpu, p) = store_ptr cpu addr k in
      if p = 0 then (False, cpu, m)
      else let (ok, cpu) = retire cpu n in (ok, cpu, f p))"
proof (cases "store_ptr cpu addr k")
  case (Pair cpu' p)
  then show ?thesis
    using store_ptr_result [OF Pair assms(1)] assms(2,3) retire_well_behaved [of n cpu]
    by (auto simp: store_outcome_def retire_def intro: fault_well_behaved)
qed

lemma illegal_store_outcome:
  "store_outcome cpu m n (False, cpu\<lparr>trap_cause := TRAP_ILLEGAL_INSTR, trap_pc := pc cpu, trap_insn := i\<rparr>, m)"
  using illegal_well_behaved [of cpu n i] by (simp add: store_outcome_def illegal_def)

lemma exec_store_ok:
  assumes "vm_regions_ok cpu" and "even n"
  shows "store_outcome cpu m n (exec_store cpu m insn n)"
proof -
  let ?addr = "regs cpu (rs1_of insn) + imm_s insn" and ?v = "regs cpu (rs2_of insn)"
  have sb: "writes_only (vm_writable cpu) m (m(p := b))" if "extent p (unat (1 :: u32)) \<subseteq> vm_writable cpu" for p b
    using that by (auto simp: writes_only_def subset_iff)
  have sh: "writes_only (vm_writable cpu) m (st16 m p v)"
    if "extent p (unat (2 :: u32)) \<subseteq> vm_writable cpu" for p v
    using that by (simp add: writes_only_store_le)
  have sw: "writes_only (vm_writable cpu) m (st32 m p v)"
    if "extent p (unat (4 :: u32)) \<subseteq> vm_writable cpu" for p v
    using that by (simp add: writes_only_store_le)
  consider "funct3_of insn = 0" | "funct3_of insn = 1" | "funct3_of insn = 2"
    | "funct3_of insn \<notin> {0, 1, 2}" by blast
  then show ?thesis
  proof cases
    case 1
    then show ?thesis
      using store_case_ok [OF assms, of 1 m "\<lambda>p. m(p := ucast (?v AND 0xFF))" ?addr, OF sb]
      by (simp add: exec_store_def Let_def)
  next
    case 2
    then show ?thesis
      using store_case_ok [OF assms, of 2 m "\<lambda>p. st16 m p (ucast (?v AND 0xFFFF))" ?addr, OF sh]
      by (simp add: exec_store_def Let_def)
  next
    case 3
    then show ?thesis
      using store_case_ok [OF assms, of 4 m "\<lambda>p. st32 m p ?v" ?addr, OF sw]
      by (simp add: exec_store_def Let_def)
  next
    case 4
    then show ?thesis
      using illegal_store_outcome [of cpu m n insn] by (simp add: exec_store_def Let_def illegal_def)
  qed
qed

lemma keep_store_outcome:
  "well_behaved cpu n res \<Longrightarrow> store_outcome cpu m n (case res of (ok, c) \<Rightarrow> (ok, c, m))"
  by (cases res) (simp add: store_outcome_def)

lemma execute_decoded_ok:
  assumes "vm_regions_ok cpu" and "even n"
  shows "store_outcome cpu m n (execute_decoded cpu m insn n)"
  unfolding execute_decoded_def Let_def
  using exec_store_ok [OF assms] exec_load_wb [OF assms] assms(2)
  by (auto intro!: keep_store_outcome exec_op_imm_wb exec_op_wb exec_branch_wb exec_jal_wb
      exec_jalr_wb exec_system_wb)

lemma execute_one_ok:
  assumes "vm_regions_ok cpu" and "even n"
  shows "store_outcome cpu m n (execute_one cpu m insn n)"
  using execute_decoded_ok [OF assms] illegal_store_outcome
  by (auto simp: execute_one_def Let_def)

section \<open>One step\<close>

lemma fetch_result:
  assumes "fetch_instruction cpu m = (ok, cpu', insn, n)" and "vm_regions_ok cpu"
  shows "if ok then cpu' = cpu \<and> even (pc cpu) \<and> (n = 2 \<or> n = 4)
         else (\<exists>a. cpu' = set_trap cpu (trap_cause cpu') a) \<and>
              trap_cause cpu' \<in> {TRAP_INSTR_MISALIGNED, TRAP_INSTR_FETCH_FAULT} \<and>
              (even (pc cpu) \<longrightarrow> trap_cause cpu' = TRAP_INSTR_FETCH_FAULT)"
proof (cases "odd (pc cpu)")
  case True
  then show ?thesis using assms(1) by (auto simp: fetch_instruction_def and_1_eq_0)
next
  case False
  obtain c1 p1 where x1: "xlat_read cpu (pc cpu) 2 TRAP_INSTR_FETCH_FAULT = (c1, p1)" by force
  obtain c2 p2 where x2: "xlat_read cpu (pc cpu + 2) 2 TRAP_INSTR_FETCH_FAULT = (c2, p2)" by force
  show ?thesis
    using False assms(1) xlat_read_result [OF x1 assms(2)] xlat_read_result [OF x2 assms(2)] x1 x2
    by (auto simp: fetch_instruction_def and_1_eq_0 Let_def split: if_splits)
qed

text \<open>What one step promises, whatever the guest's code is.\<close>

definition step_spec :: "VmCpu \<Rightarrow> hmem \<Rightarrow> bool \<times> VmCpu \<times> hmem \<Rightarrow> bool" where
  "step_spec cpu m res \<longleftrightarrow>
     (let (ok, cpu', m') = res in
      same_host_fields cpu cpu' \<and>
      (if ok then
         writes_only (vm_writable cpu) m m' \<and> same_trap cpu cpu' \<and> regs cpu' 0 = 0 \<and>
         even (pc cpu') \<and> instructions_retired cpu' = instructions_retired cpu + 1
       else
         m' = m \<and> regs cpu' = regs cpu \<and> instructions_retired cpu' = instructions_retired cpu \<and>
         trap_pc cpu' = pc cpu \<and> trap_cause cpu' \<notin> {TRAP_NONE, TRAP_HALT} \<and>
         (even (pc cpu) \<longrightarrow> trap_cause cpu' \<noteq> TRAP_INSTR_MISALIGNED) \<and>
         (if trap_cause cpu' = TRAP_ECALL
          then pc cpu' \<in> {pc cpu + 2, pc cpu + 4} \<and> trap_count cpu' = trap_count cpu
          else pc cpu' = pc cpu \<and> trap_count cpu' = trap_count cpu + 1)))"

lemma step_once_spec:
  assumes "vm_regions_ok cpu"
  shows "step_spec cpu m (step_once cpu m)"
proof -
  obtain f c insn n where f: "fetch_instruction cpu m = (f, c, insn, n)" by (metis prod_cases4)
  show ?thesis
  proof (cases f)
    case False
    with fetch_result [OF f assms] show ?thesis
      by (auto simp: step_once_def f step_spec_def same_host_fields_def set_trap_def)
  next
    case True
    with fetch_result [OF f assms] have c: "c = cpu" and pc: "even (pc cpu)" and n: "n = 2 \<or> n = 4"
      by auto
    obtain ok c' m' where x: "execute_one cpu m insn n = (ok, c', m')" by (metis prod_cases3)
    have "store_outcome cpu m n (ok, c', m')"
      using execute_one_ok [OF assms, of n m insn] n x by auto
    with True pc n x c show ?thesis
      by (cases ok) (auto simp: step_once_def f step_spec_def store_outcome_def behaviour)
  qed
qed

end
