(* ===== verification/VM_Isolation.thy ===== *)
theory VM_Isolation
  imports VM_Safety
begin

text \<open>
  Read isolation: a guest's run depends on the host memory only through its five regions.
  Two memories that agree there give the same registers, the same traps and the same result,
  and still agree there afterwards. Together with the write confinement of \<open>VM_Safety\<close> this
  is the sandbox the README promises.
\<close>

definition agree :: "hptr set \<Rightarrow> hmem \<Rightarrow> hmem \<Rightarrow> bool" where
  "agree S m1 m2 \<longleftrightarrow> (\<forall>a \<in> S. m1 a = m2 a)"

lemma agree_refl [simp]: "agree S m m"
  by (simp add: agree_def)

lemma agree_store_bytes: "agree S m1 m2 \<Longrightarrow> agree S (store_bytes m1 p bs) (store_bytes m2 p bs)"
  by (simp add: agree_def store_bytes_def)

lemma agree_store_le: "agree S m1 m2 \<Longrightarrow> agree S (store_le n m1 p v) (store_le n m2 p v)"
  by (simp add: store_le_def agree_store_bytes)

lemma agree_upd: "agree S m1 m2 \<Longrightarrow> agree S (m1(p := b)) (m2(p := b))"
  by (simp add: agree_def)

lemma agree_load_le: "agree S m1 m2 \<Longrightarrow> extent p n \<subseteq> S \<Longrightarrow> load_le n m1 p = load_le n m2 p"
  by (rule load_le_eqI) (auto simp: agree_def subset_iff)

lemma agree_byte: "agree S m1 m2 \<Longrightarrow> extent p (Suc 0) \<subseteq> S \<Longrightarrow> m1 p = m2 p"
  by (auto simp: agree_def subset_iff)

text \<open>A pair of outcomes that the guest cannot tell apart.\<close>

definition same_outcome :: "hptr set \<Rightarrow> 'r \<times> VmCpu \<times> hmem \<Rightarrow> 'r \<times> VmCpu \<times> hmem \<Rightarrow> bool" where
  "same_outcome S x y \<longleftrightarrow>
     (let (r, c, m) = x; (r', c', m') = y in r' = r \<and> c' = c \<and> agree S m m')"

lemma same_outcome_keep:
  "agree S m1 m2 \<Longrightarrow> res1 = res2 \<Longrightarrow>
   same_outcome S (case res1 of (r, c) \<Rightarrow> (r, c, m1)) (case res2 of (r, c) \<Rightarrow> (r, c, m2))"
  by (cases res2) (simp add: same_outcome_def)

lemma fetch_local:
  assumes "vm_regions_ok cpu" and "agree (vm_readable cpu) m1 m2"
  shows "fetch_instruction cpu m1 = fetch_instruction cpu m2"
proof -
  obtain c1 p1 where x1: "xlat_read cpu (pc cpu) 2 TRAP_INSTR_FETCH_FAULT = (c1, p1)" by force
  obtain c2 p2 where x2: "xlat_read cpu (pc cpu + 2) 2 TRAP_INSTR_FETCH_FAULT = (c2, p2)" by force
  have "ld16 m1 p1 = ld16 m2 p1" if "p1 \<noteq> 0"
    using xlat_read_result [OF x1 assms(1)] that by (simp add: agree_load_le [OF assms(2)])
  moreover have "ld16 m1 p2 = ld16 m2 p2" if "p2 \<noteq> 0"
    using xlat_read_result [OF x2 assms(1)] that by (simp add: agree_load_le [OF assms(2)])
  moreover have "p1 \<noteq> 0 \<Longrightarrow> c1 = cpu" using xlat_read_result [OF x1 assms(1)] by simp
  ultimately show ?thesis by (simp add: fetch_instruction_def x1 x2 Let_def)
qed

lemma load_case_local:
  assumes "vm_regions_ok cpu" and "\<And>p. extent p (unat k) \<subseteq> vm_readable cpu \<Longrightarrow> v1 p = v2 p"
  shows "(let (cpu, p) = load_ptr cpu addr k in
      if p = 0 then (False, cpu) else retire_rd cpu rd (v1 p) n) =
    (let (cpu, p) = load_ptr cpu addr k in
      if p = 0 then (False, cpu) else retire_rd cpu rd (v2 p) n)"
proof (cases "load_ptr cpu addr k")
  case (Pair c p)
  then show ?thesis using load_ptr_result [OF Pair assms(1)] assms(2) by auto
qed

lemma exec_load_local:
  assumes "vm_regions_ok cpu" and "agree (vm_readable cpu) m1 m2"
  shows "exec_load cpu m1 insn n = exec_load cpu m2 insn n"
proof -
  have b: "m1 p = m2 p" if "extent p (unat (1 :: u32)) \<subseteq> vm_readable cpu" for p
    using that agree_byte [OF assms(2)] by simp
  have h: "ld16 m1 p = ld16 m2 p" if "extent p (unat (2 :: u32)) \<subseteq> vm_readable cpu" for p
    using that by (simp add: agree_load_le [OF assms(2)])
  have w: "ld32 m1 p = ld32 m2 p" if "extent p (unat (4 :: u32)) \<subseteq> vm_readable cpu" for p
    using that by (simp add: agree_load_le [OF assms(2)])
  let ?addr = "regs cpu (rs1_of insn) + imm_i insn" and ?rd = "rd_of insn"
  have "(let (cpu, p) = load_ptr cpu ?addr 1 in
          if p = 0 then (False, cpu) else retire_rd cpu ?rd (scast (m1 p)) n) =
        (let (cpu, p) = load_ptr cpu ?addr 1 in
          if p = 0 then (False, cpu) else retire_rd cpu ?rd (scast (m2 p)) n)"
    using b by (intro load_case_local [OF assms(1)]) simp
  moreover have "(let (cpu, p) = load_ptr cpu ?addr 1 in
          if p = 0 then (False, cpu) else retire_rd cpu ?rd (ucast (m1 p)) n) =
        (let (cpu, p) = load_ptr cpu ?addr 1 in
          if p = 0 then (False, cpu) else retire_rd cpu ?rd (ucast (m2 p)) n)"
    using b by (intro load_case_local [OF assms(1)]) simp
  moreover have "(let (cpu, p) = load_ptr cpu ?addr 2 in
          if p = 0 then (False, cpu) else retire_rd cpu ?rd (scast (ld16 m1 p)) n) =
        (let (cpu, p) = load_ptr cpu ?addr 2 in
          if p = 0 then (False, cpu) else retire_rd cpu ?rd (scast (ld16 m2 p)) n)"
    using h by (intro load_case_local [OF assms(1)]) simp
  moreover have "(let (cpu, p) = load_ptr cpu ?addr 2 in
          if p = 0 then (False, cpu) else retire_rd cpu ?rd (ucast (ld16 m1 p)) n) =
        (let (cpu, p) = load_ptr cpu ?addr 2 in
          if p = 0 then (False, cpu) else retire_rd cpu ?rd (ucast (ld16 m2 p)) n)"
    using h by (intro load_case_local [OF assms(1)]) simp
  moreover have "(let (cpu, p) = load_ptr cpu ?addr 4 in
          if p = 0 then (False, cpu) else retire_rd cpu ?rd (ld32 m1 p) n) =
        (let (cpu, p) = load_ptr cpu ?addr 4 in
          if p = 0 then (False, cpu) else retire_rd cpu ?rd (ld32 m2 p) n)"
    using w by (intro load_case_local [OF assms(1)]) simp
  ultimately show ?thesis unfolding exec_load_def Let_def by simp
qed


lemma store_case_local:
  assumes "agree S m1 m2" and "\<And>p. agree S (f p) (g p)"
  shows "same_outcome S
     (let (cpu, p) = store_ptr cpu addr k in
      if p = 0 then (False, cpu, m1) else let (ok, cpu) = retire cpu n in (ok, cpu, f p))
     (let (cpu, p) = store_ptr cpu addr k in
      if p = 0 then (False, cpu, m2) else let (ok, cpu) = retire cpu n in (ok, cpu, g p))"
  using assms by (cases "store_ptr cpu addr k") (simp add: same_outcome_def retire_def)

lemma exec_store_local:
  assumes "agree S m1 m2"
  shows "same_outcome S (exec_store cpu m1 insn n) (exec_store cpu m2 insn n)"
proof -
  let ?addr = "regs cpu (rs1_of insn) + imm_s insn" and ?v = "regs cpu (rs2_of insn)"
  consider "funct3_of insn = 0" | "funct3_of insn = 1" | "funct3_of insn = 2"
    | "funct3_of insn \<notin> {0, 1, 2}" by blast
  then show ?thesis
  proof cases
    case 1
    then show ?thesis
      using store_case_local [OF assms agree_upd [OF assms], of cpu ?addr 1 n "\<lambda>p. p" "\<lambda>_. ucast (?v AND 0xFF)"]
      by (simp add: exec_store_def Let_def)
  next
    case 2
    then show ?thesis
      using store_case_local [OF assms agree_store_le [OF assms],
          of cpu ?addr 2 n "\<lambda>_. 2" "\<lambda>p. p" "\<lambda>_. ucast (?v AND 0xFFFF) :: u16"]
      by (simp add: exec_store_def Let_def)
  next
    case 3
    then show ?thesis
      using store_case_local [OF assms agree_store_le [OF assms],
          of cpu ?addr 4 n "\<lambda>_. 4" "\<lambda>p. p" "\<lambda>_. ?v"]
      by (simp add: exec_store_def Let_def)
  next
    case 4
    then show ?thesis using assms by (simp add: exec_store_def Let_def illegal_def same_outcome_def)
  qed
qed

lemma execute_decoded_local:
  assumes "vm_regions_ok cpu" and "agree (vm_readable cpu) m1 m2"
  shows "same_outcome (vm_readable cpu) (execute_decoded cpu m1 insn n) (execute_decoded cpu m2 insn n)"
  unfolding execute_decoded_def Let_def
  using exec_store_local [OF assms(2)] exec_load_local [OF assms] assms(2)
  by (auto intro!: same_outcome_keep)

lemma execute_one_local:
  assumes "vm_regions_ok cpu" and "agree (vm_readable cpu) m1 m2"
  shows "same_outcome (vm_readable cpu) (execute_one cpu m1 insn n) (execute_one cpu m2 insn n)"
  using execute_decoded_local [OF assms] assms(2)
  by (auto simp: execute_one_def Let_def) (simp add: same_outcome_def)

lemma step_once_local:
  assumes "vm_regions_ok cpu" and "agree (vm_readable cpu) m1 m2"
  shows "same_outcome (vm_readable cpu) (step_once cpu m1) (step_once cpu m2)"
proof -
  obtain f c insn n where f: "fetch_instruction cpu m1 = (f, c, insn, n)" by (metis prod_cases4)
  then have f2: "fetch_instruction cpu m2 = (f, c, insn, n)" using fetch_local [OF assms] by simp
  show ?thesis
  proof (cases f)
    case False
    then show ?thesis using assms(2) by (simp add: step_once_def f f2 same_outcome_def)
  next
    case True
    then have "c = cpu" using fetch_result [OF f assms(1)] by simp
    with True execute_one_local [OF assms, of insn n] show ?thesis
      by (auto simp: step_once_def f f2 same_outcome_def split: prod.splits)
  qed
qed

lemma vm_step_loop_local:
  assumes "vm_regions_ok cpu" and "agree (vm_readable cpu) m1 m2"
  shows "\<exists>exp n cpu' m1' m2'.
      vm_step_loop steps budget cpu m1 = (exp, n, cpu', m1') \<and>
      vm_step_loop steps budget cpu m2 = (exp, n, cpu', m2') \<and>
      agree (vm_readable cpu) m1' m2'"
  using assms
proof (induction steps budget cpu m1 arbitrary: m2 rule: vm_step_loop.induct)
  case (1 steps budget cpu m1)
  obtain ok c n1 where s1: "step_once cpu m1 = (ok, c, n1)" by (metis prod_cases3)
  obtain n2 where s2: "step_once cpu m2 = (ok, c, n2)" and ag: "agree (vm_readable cpu) n1 n2"
    using step_once_local [OF "1.prems"] s1
    by (cases "step_once cpu m2") (simp add: same_outcome_def)
  show ?case
  proof (cases "steps < budget \<and> ok")
    case True
    have same: "same_host_fields cpu c"
      using step_once_spec [OF "1.prems"(1), of m1] by (simp add: s1 step_spec_def)
    then have "vm_regions_ok c" "agree (vm_readable c) n1 n2"
      using "1.prems"(1) ag by (simp_all add: frame)
    from "1.IH" [OF _ s1 [symmetric] refl refl _ this] True show ?thesis
      by (simp add: vm_step_loop.simps [of steps budget cpu] s1 s2 same_host_fields_reach [OF same])
  next
    case False
    then show ?thesis
      using ag "1.prems"(2) by (auto simp: vm_step_loop.simps [of steps budget cpu] s1 s2)
  qed
qed

end
