(* ===== verification/VM_Demo.thy ===== *)
theory VM_Demo
  imports VM_Types
begin

text \<open>
  A small guest the witnesses run: twelve bytes of code at host address 16 (\<open>addi x1, x0, 5\<close>,
  \<open>sw x1, 0(x2)\<close>, \<open>ecall\<close>) and eight writable data bytes at host address 32, with \<open>x2\<close> at the
  start of the data region.
\<close>

definition demo_cpu :: VmCpu where
  "demo_cpu = (vm_init 3)\<lparr>
     regions := (\<lambda>_. zero_region)
       (0 := \<lparr>r_base = 16, r_length = 12, r_writable = False\<rparr>,
        2 := \<lparr>r_base = 32, r_length = 8, r_writable = True\<rparr>),
     regs := (\<lambda>_. 0)(2 := 0x80000000)\<rparr>"

definition demo_mem :: hmem where
  "demo_mem = store_bytes (\<lambda>_. 0) 16
     [0x93, 0x00, 0x50, 0x00, 0x23, 0x20, 0x11, 0x00, 0x73, 0x00, 0x00, 0x00]"

lemma demo_regions_ok: "vm_regions_ok demo_cpu"
  by (simp add: vm_regions_ok_def vm_descriptors_def region_ok_def demo_cpu_def zero_region_def
      vm_init_def zero_cpu_def)

lemma demo_descriptors:
  "vm_descriptors demo_cpu =
     [\<lparr>r_base = 16, r_length = 12, r_writable = False\<rparr>, zero_region,
      \<lparr>r_base = 32, r_length = 8, r_writable = True\<rparr>, zero_region, zero_region]"
  by (simp add: vm_descriptors_def demo_cpu_def vm_init_def zero_cpu_def)

lemma demo_writable: "vm_writable demo_cpu = extent 32 8"
proof -
  have "vm_writable demo_cpu = (\<Union>r \<in> set (filter r_writable (vm_descriptors demo_cpu)). region_extent r)"
    by (simp add: vm_writable_def)
  also have "\<dots> = extent 32 8"
    unfolding demo_descriptors by (simp add: zero_region_def region_extent_def)
  finally show ?thesis .
qed

lemma demo_readable: "vm_readable demo_cpu = extent 16 12 \<union> extent 32 8"
  unfolding vm_readable_def demo_descriptors
  by (simp add: zero_region_def region_extent_def) (simp add: extent_def)

end
