(* ===== verification/VM_Run.thy ===== *)
theory VM_Run
  imports VM_Isolation VM_Demo
begin

text \<open>
  Whole runs: the facts about one step lifted through the dispatch loop to \<open>vm_step\<close>, the
  call the scheduler makes. A run is confined to the writable regions and sees only the
  readable ones, keeps every host-owned field, accounts for its instructions exactly, stops
  precisely, and may be cut into quanta at any point without changing its result.
\<close>

section \<open>The dispatch loop\<close>

definition loop_spec :: "u32 \<Rightarrow> u32 \<Rightarrow> VmCpu \<Rightarrow> hmem \<Rightarrow> bool \<times> u32 \<times> VmCpu \<times> hmem \<Rightarrow> bool" where
  "loop_spec steps budget cpu m res \<longleftrightarrow>
     (let (expired, n, cpu', m') = res in
      same_host_fields cpu cpu' \<and> writes_only (vm_writable cpu) m m' \<and>
      unat steps \<le> unat n \<and>
      instructions_retired cpu' = instructions_retired cpu + of_nat (unat n - unat steps) \<and>
      (if expired then \<not> n < budget \<and> (unat steps \<le> unat budget \<longrightarrow> n = budget) \<and> same_trap cpu cpu' \<and>
         (even (pc cpu) \<longrightarrow> even (pc cpu')) \<and> (regs cpu 0 = 0 \<longrightarrow> regs cpu' 0 = 0)
       else n < budget \<and> trap_cause cpu' \<notin> {TRAP_NONE, TRAP_HALT} \<and>
         (even (pc cpu) \<longrightarrow> trap_cause cpu' \<noteq> TRAP_INSTR_MISALIGNED \<and> even (trap_pc cpu')) \<and>
         (regs cpu 0 = 0 \<longrightarrow> regs cpu' 0 = 0) \<and>
         (if trap_cause cpu' = TRAP_ECALL then pc cpu' \<in> {trap_pc cpu' + 2, trap_pc cpu' + 4}
          else pc cpu' = trap_pc cpu')))"

lemma vm_step_loop_spec:
  assumes "vm_regions_ok cpu"
  shows "loop_spec steps budget cpu m (vm_step_loop steps budget cpu m)"
  using assms
proof (induction steps budget cpu m rule: vm_step_loop.induct)
  case (1 steps budget cpu m)
  obtain ok c n1 where s: "step_once cpu m = (ok, c, n1)" by (metis prod_cases3)
  have spec: "step_spec cpu m (ok, c, n1)" using step_once_spec [OF "1.prems", of m] s by simp
  then have same: "same_host_fields cpu c" by (simp add: step_spec_def)
  note unfold = vm_step_loop.simps [of steps budget cpu m] s
  show ?case
  proof (cases "steps < budget")
    case False
    then show ?thesis
      by (auto simp: unfold loop_spec_def same_trap_def word_less_nat_alt word_unat_eq_iff)
  next
    case True
    then have next_n: "unat (steps + 1) = Suc (unat steps)" by (rule unat_plus_one)
    show ?thesis
    proof (cases ok)
      case False
      with True spec show ?thesis by (auto simp: unfold loop_spec_def step_spec_def)
    next
      case ok: True
      have "vm_regions_ok c" using "1.prems" same by (simp add: same_host_fields_reach [OF same])
      then have ih: "loop_spec (steps + 1) budget c n1 (vm_step_loop (steps + 1) budget c n1)"
        using "1.IH" [OF True s [symmetric]] ok by simp
      obtain e n c' m' where r: "vm_step_loop (steps + 1) budget c n1 = (e, n, c', m')"
        by (metis prod_cases4)
      have "Suc (unat steps) \<le> unat budget" using True by (simp add: word_less_nat_alt)
      moreover have "of_nat (unat n - unat steps) = (of_nat (unat n - Suc (unat steps)) + 1 :: u64)"
        if "Suc (unat steps) \<le> unat n"
        using that by (metis Suc_diff_Suc Suc_le_lessD add.commute of_nat_Suc)
      ultimately show ?thesis
        using True ok spec ih
        by (auto simp: unfold r loop_spec_def step_spec_def next_n same_host_fields_reach [OF same]
            same_trap_def intro: same_host_fields_trans writes_only_trans)
    qed
  qed
qed


section \<open>vm_step\<close>

lemma clear_trap_simps [simp]:
  "regs (clear_trap c) = regs c" "pc (clear_trap c) = pc c" "halted (clear_trap c) = halted c"
  "instructions_retired (clear_trap c) = instructions_retired c"
  "trap_cause (clear_trap c) = TRAP_NONE" "vm_descriptors (clear_trap c) = vm_descriptors c"
  by (simp_all add: clear_trap_def vm_descriptors_def)

lemma clear_trap_reach [simp]:
  "vm_readable (clear_trap c) = vm_readable c" "vm_writable (clear_trap c) = vm_writable c"
  "vm_regions_ok (clear_trap c) = vm_regions_ok c" "same_host_fields c (clear_trap c)"
  by (simp_all add: vm_readable_def vm_writable_def vm_regions_ok_def)
    (simp add: clear_trap_def same_host_fields_def)

text \<open>The loop's facts in the form every property of \<open>vm_step\<close> below starts from.\<close>

lemma vm_step_loop_result:
  assumes "vm_regions_ok cpu"
  obtains e n c m' where "vm_step_loop 0 budget (clear_trap cpu) m = (e, n, c, m')"
    and "loop_spec 0 budget (clear_trap cpu) m (e, n, c, m')"
  using vm_step_loop_spec [of "clear_trap cpu" 0 budget m] assms
  by (metis clear_trap_reach(3) prod_cases4)

text \<open>
  C1. Write confinement: whatever code the guest runs and however long, \<open>vm_step\<close> changes no
  host byte outside the VM's writable regions, and the guest cannot alter its region
  descriptors, its identity or the scheduler's fields.
\<close>

theorem vm_step_confined:
  assumes "vm_regions_ok cpu"
  shows "case vm_step cpu m budget of (r, n, cpu', m') \<Rightarrow>
           (\<forall>a. a \<notin> vm_writable cpu \<longrightarrow> m' a = m a) \<and>
           vm_descriptors cpu' = vm_descriptors cpu \<and> vm_id cpu' = vm_id cpu \<and>
           block_reason cpu' = block_reason cpu \<and> block_deadline cpu' = block_deadline cpu \<and>
           in_critical cpu' = in_critical cpu \<and> halted cpu' = halted cpu"
proof -
  obtain e n c m' where r: "vm_step_loop 0 budget (clear_trap cpu) m = (e, n, c, m')"
    "loop_spec 0 budget (clear_trap cpu) m (e, n, c, m')"
    using vm_step_loop_result [OF assms] .
  then have "same_host_fields cpu c" and "writes_only (vm_writable cpu) m m'"
    by (auto simp: loop_spec_def intro: same_host_fields_trans [OF clear_trap_reach(4)])
  with r show ?thesis
    by (auto simp: vm_step_def loop_spec_def same_host_fields_def writes_only_def vm_descriptors_def)
qed

theorem vm_step_confined_witness:
  "vm_regions_ok demo_cpu \<and>
   (case vm_step demo_cpu demo_mem 10 of (r, n, cpu', m') \<Rightarrow> m' 40 = demo_mem 40 \<and> m' 32 = 5)"
proof -
  have "40 \<notin> vm_writable demo_cpu" by (simp add: demo_writable)
  then have "case vm_step demo_cpu demo_mem 10 of (r, n, cpu', m') \<Rightarrow> m' 40 = demo_mem 40"
    using vm_step_confined [OF demo_regions_ok, of demo_mem 10] by (auto split: prod.splits)
  moreover have "case vm_step demo_cpu demo_mem 10 of (r, n, cpu', m') \<Rightarrow> m' 32 = 5" by code_simp
  ultimately show ?thesis using demo_regions_ok by (auto split: prod.splits)
qed

text \<open>
  C2. Read isolation (noninterference): two host memories that agree on the VM's regions are
  indistinguishable to the guest. \<open>vm_step\<close> returns the same code, count, registers and trap
  record from both, and leaves memories that agree on the regions again.
\<close>

theorem vm_step_isolated:
  assumes "vm_regions_ok cpu" and "agree (vm_readable cpu) m1 m2"
  shows "\<exists>r n cpu' m1' m2'.
           vm_step cpu m1 budget = (r, n, cpu', m1') \<and> vm_step cpu m2 budget = (r, n, cpu', m2') \<and>
           agree (vm_readable cpu) m1' m2'"
proof -
  have "vm_regions_ok (clear_trap cpu)" "agree (vm_readable (clear_trap cpu)) m1 m2"
    using assms by simp_all
  from vm_step_loop_local [OF this, of 0 budget] show ?thesis
    using assms(2) by (auto simp: vm_step_def)
qed

theorem vm_step_isolated_witness:
  "agree (vm_readable demo_cpu) demo_mem (demo_mem(100 := 7)) \<and>
   (\<exists>r n cpu' m1' m2'. vm_step demo_cpu demo_mem 10 = (r, n, cpu', m1') \<and>
      vm_step demo_cpu (demo_mem(100 := 7)) 10 = (r, n, cpu', m2') \<and>
      agree (vm_readable demo_cpu) m1' m2')"
proof -
  have "agree (vm_readable demo_cpu) demo_mem (demo_mem(100 := 7))"
    by (auto simp: demo_readable agree_def)
  with vm_step_isolated [OF demo_regions_ok this, of 10] show ?thesis by blast
qed

text \<open>
  Exact accounting: a run retires exactly \<open>*out_steps\<close> instructions, never more than the
  budget; it reports QUANTUM_EXPIRED only with the budget used up, ECALL and TRAPPED only
  before that, HALTED only for a VM already halted; the ECALL counter moves by one on
  an ECALL and not otherwise.
\<close>

theorem vm_step_accounting:
  assumes "vm_regions_ok cpu"
  shows "case vm_step cpu m budget of (r, n, cpu', m') \<Rightarrow>
           instructions_retired cpu' = instructions_retired cpu + ucast n \<and>
           ecall_count cpu' = ecall_count cpu + (if r = VM_STEP_ECALL then 1 else 0) \<and>
           (r = VM_STEP_QUANTUM_EXPIRED \<longrightarrow> n = budget) \<and>
           (r \<in> {VM_STEP_ECALL, VM_STEP_TRAPPED} \<longrightarrow> n < budget) \<and>
           (r = VM_STEP_HALTED \<longleftrightarrow> halted cpu) \<and> (halted cpu \<longrightarrow> n = 0 \<and> cpu' = cpu \<and> m' = m) \<and>
           r \<in> {VM_STEP_QUANTUM_EXPIRED, VM_STEP_ECALL, VM_STEP_TRAPPED, VM_STEP_HALTED}"
proof -
  obtain e n c m' where r: "vm_step_loop 0 budget (clear_trap cpu) m = (e, n, c, m')"
    "loop_spec 0 budget (clear_trap cpu) m (e, n, c, m')"
    using vm_step_loop_result [OF assms] .
  moreover have "ecall_count (clear_trap cpu) = ecall_count cpu" by (simp add: clear_trap_def)
  ultimately show ?thesis
    by (auto simp: vm_step_def loop_spec_def same_host_fields_def)
qed

theorem vm_step_accounting_witness:
  "case vm_step demo_cpu demo_mem 10 of (r, n, cpu', m') \<Rightarrow>
     r = VM_STEP_ECALL \<and> instructions_retired cpu' = 2 \<and> ecall_count cpu' = 1"
proof -
  have "case vm_step demo_cpu demo_mem 10 of (r, n, cpu', m') \<Rightarrow> r = VM_STEP_ECALL \<and> n = 2" by code_simp
  moreover have "instructions_retired demo_cpu = 0" "ecall_count demo_cpu = 0"
    by (simp_all add: demo_cpu_def vm_init_def zero_cpu_def)
  ultimately show ?thesis
    using vm_step_accounting [OF demo_regions_ok, where m = demo_mem and budget = 10] by (auto split: prod.splits)
qed

section \<open>Runs as step sequences\<close>

text \<open>
  The small-step view of the guest: \<open>guest_steps n\<close> relates two machine states when exactly
  \<open>n\<close> instructions retire between them.
\<close>

inductive guest_steps :: "nat \<Rightarrow> VmCpu \<times> hmem \<Rightarrow> VmCpu \<times> hmem \<Rightarrow> bool" where
  guest_done: "guest_steps 0 s s"
| guest_next: "step_once c m = (True, c', m') \<Longrightarrow> guest_steps n (c', m') s \<Longrightarrow>
    guest_steps (Suc n) (c, m) s"

inductive_simps guest_steps_0 [simp]: "guest_steps 0 s s'"
inductive_simps guest_steps_Suc [simp]: "guest_steps (Suc n) (c, m) s'"
inductive_cases guest_steps_SucE: "guest_steps (Suc n) s s'"

lemma guest_steps_spec:
  "guest_steps n (c, m) (c', m') \<Longrightarrow> vm_regions_ok c \<Longrightarrow>
   same_host_fields c c' \<and> same_trap c c' \<and> (even (pc c) \<longrightarrow> even (pc c')) \<and>
   (regs c 0 = 0 \<longrightarrow> regs c' 0 = 0)"
proof (induction n arbitrary: c m)
  case 0
  then show ?case by (simp add: same_trap_def)
next
  case (Suc n)
  then obtain c1 m1 where s: "step_once c m = (True, c1, m1)" and rest: "guest_steps n (c1, m1) (c', m')"
    by auto
  from step_once_spec [OF Suc.prems(2), of m] s
  have one: "same_host_fields c c1" "same_trap c c1" "even (pc c1)" "regs c1 0 = 0"
    by (simp_all add: step_spec_def)
  with Suc.IH [OF rest] Suc.prems(2) show ?case
    by (auto simp: same_host_fields_reach [OF one(1)] same_trap_def intro: same_host_fields_trans)
qed

lemma guest_steps_deterministic:
  "guest_steps n s t \<Longrightarrow> guest_steps n s t' \<Longrightarrow> t' = t"
  by (induction n s t rule: guest_steps.induct) auto

text \<open>The loop performs the steps it counts, then stops at the budget or at a failing step.\<close>

lemma vm_step_loop_steps:
  "vm_step_loop steps budget c m = (e, n, c', m') \<Longrightarrow>
   \<exists>c1 m1. unat steps \<le> unat n \<and> guest_steps (unat n - unat steps) (c, m) (c1, m1) \<and>
     (if e then (c', m') = (c1, m1) else step_once c1 m1 = (False, c', m'))"
proof (induction steps budget c m rule: vm_step_loop.induct)
  case (1 steps budget c m)
  obtain ok d k where s: "step_once c m = (ok, d, k)" by (metis prod_cases3)
  show ?case
  proof (cases "steps < budget \<and> ok")
    case False
    then show ?thesis using "1.prems" s
      by (auto simp: vm_step_loop.simps [of steps budget] split: if_splits)
  next
    case True
    then have "vm_step_loop (steps + 1) budget d k = (e, n, c', m')"
      using "1.prems" s by (simp add: vm_step_loop.simps [of steps budget])
    from "1.IH" [OF _ refl s [symmetric] refl _ this] True obtain c1 m1 where
      le: "unat (steps + 1) \<le> unat n" and g: "guest_steps (unat n - unat (steps + 1)) (d, k) (c1, m1)"
      and rest: "if e then (c', m') = (c1, m1) else step_once c1 m1 = (False, c', m')" by auto
    have "unat (steps + 1) = Suc (unat steps)" using True unat_plus_one by blast
    with le g s True have "unat steps \<le> unat n" "guest_steps (unat n - unat steps) (c, m) (c1, m1)"
      by (auto simp: Suc_diff_Suc [symmetric] simp del: guest_steps_Suc intro: guest_next)
    with rest show ?thesis by blast
  qed
qed

text \<open>
  C3. Precise exceptions: a run that reports \<open>n\<close> steps has retired exactly the \<open>n\<close>
  instructions of the step relation. When it stops on a trap, registers, memory and program
  counter are those reached by these steps, \<open>trap_pc\<close> names the faulting instruction, and the
  faulting instruction has had no effect; on an ECALL only the program counter has moved, past
  the two or four bytes of the call. A guest started on an even program counter never takes
  an alignment trap on a fetch.
\<close>

theorem vm_step_precise:
  assumes "vm_regions_ok cpu" and "\<not> halted cpu" and "vm_step cpu m budget = (r, n, cpu', m')"
  shows "\<exists>c. guest_steps (unat n) (clear_trap cpu, m) (c, m') \<and>
           (r = VM_STEP_QUANTUM_EXPIRED \<longrightarrow> cpu' = c) \<and>
           (r \<in> {VM_STEP_TRAPPED, VM_STEP_ECALL} \<longrightarrow>
              regs cpu' = regs c \<and> instructions_retired cpu' = instructions_retired c \<and>
              trap_pc cpu' = pc c \<and> trap_cause cpu' \<noteq> TRAP_NONE \<and>
              (trap_cause cpu' = TRAP_INSTR_MISALIGNED \<longrightarrow> odd (pc cpu))) \<and>
           (r = VM_STEP_TRAPPED \<longrightarrow> pc cpu' = pc c \<and> trap_count cpu' = trap_count c + 1) \<and>
           (r = VM_STEP_ECALL \<longrightarrow> trap_cause cpu' = TRAP_ECALL \<and> pc cpu' \<in> {pc c + 2, pc c + 4})"
proof -
  obtain e k d w where l: "vm_step_loop 0 budget (clear_trap cpu) m = (e, k, d, w)" by (metis prod_cases4)
  from vm_step_loop_steps [OF l] obtain c m1 where
    g: "guest_steps (unat k) (clear_trap cpu, m) (c, m1)"
    and stop: "if e then (d, w) = (c, m1) else step_once c m1 = (False, d, w)" by auto
  from guest_steps_spec [OF g] assms(1)
  have c: "same_host_fields (clear_trap cpu) c" "even (pc cpu) \<longrightarrow> even (pc c)" by simp_all
  then have "vm_regions_ok c" using assms(1) same_host_fields_reach [OF c(1)] by simp
  from step_once_spec [OF this, of m1] assms(2,3) g stop c(2) l show ?thesis
    by (auto simp: vm_step_def step_spec_def split: if_splits)
qed

theorem vm_step_precise_witness:
  "\<exists>c m'. guest_steps 2 (clear_trap demo_cpu, demo_mem) (c, m') \<and> pc c = 8 \<and> regs c 1 = 5"
proof -
  obtain r n cpu' m' where s: "vm_step demo_cpu demo_mem 10 = (r, n, cpu', m')" by (metis prod_cases4)
  have "case vm_step demo_cpu demo_mem 10 of (r, n, cpu', m') \<Rightarrow>
          r = VM_STEP_ECALL \<and> n = 2 \<and> trap_pc cpu' = 8 \<and> regs cpu' 1 = 5" by code_simp
  moreover have "\<not> halted demo_cpu" by (simp add: demo_cpu_def vm_init_def zero_cpu_def)
  ultimately show ?thesis
    using vm_step_precise [OF demo_regions_ok _ s] s by auto
qed

section \<open>Cutting a run into quanta\<close>

lemma vm_step_loop_resume:
  assumes "vm_step_loop s a c m = (True, n, c', m')" and "s \<le> a" and "a \<le> b"
  shows "vm_step_loop s b c m = vm_step_loop a b c' m'"
  using assms
proof (induction s a c m rule: vm_step_loop.induct)
  case (1 s a c m)
  obtain ok d k where st: "step_once c m = (ok, d, k)" by (metis prod_cases3)
  show ?case
  proof (cases "s < a")
    case True
    with "1.prems" st have ok: ok "vm_step_loop (s + 1) a d k = (True, n, c', m')"
      by (auto simp: vm_step_loop.simps [of s a] split: if_splits)
    moreover have "s + 1 \<le> a" using True by (simp add: word_le_nat_alt word_less_nat_alt unat_plus_one)
    ultimately have "vm_step_loop (s + 1) b d k = vm_step_loop a b c' m'"
      using "1.IH" [OF True refl st [symmetric] refl] "1.prems"(3) by simp
    then show ?thesis using True ok st "1.prems"(3) by (subst vm_step_loop.simps) auto
  next
    case False
    then show ?thesis using "1.prems" by (auto simp: vm_step_loop.simps [of s a] vm_step_loop.simps [of a a])
  qed
qed

lemma vm_step_loop_shift:
  "s \<le> b \<Longrightarrow> unat a + unat b < 2 ^ 32 \<Longrightarrow>
   vm_step_loop (a + s) (a + b) c m = (let (e, n, c', m') = vm_step_loop s b c m in (e, a + n, c', m'))"
proof (induction s b c m rule: vm_step_loop.induct)
  case (1 s b c m)
  obtain ok d k where st: "step_once c m = (ok, d, k)" by (metis prod_cases3)
  have lt: "a + s < a + b \<longleftrightarrow> s < b"
    using "1.prems" by (simp add: word_less_nat_alt word_le_nat_alt unat_word_ariths)
  show ?case
  proof (cases "s < b \<and> ok")
    case True
    then have "s + 1 \<le> b" using unat_plus_one [of s b] by (simp add: word_le_nat_alt word_less_nat_alt)
    with "1.IH" [OF _ refl st [symmetric] refl] True "1.prems"(2)
    have "vm_step_loop (a + s + 1) (a + b) d k =
        (let (e, n, c', m') = vm_step_loop (s + 1) b d k in (e, a + n, c', m'))"
      by (simp add: add.assoc split_def)
    then show ?thesis using True st lt
      by (simp add: split_def vm_step_loop.simps [of s b] vm_step_loop.simps [of "a + s" "a + b"])
  next
    case False
    then show ?thesis using st lt
      by (auto simp: vm_step_loop.simps [of s b] vm_step_loop.simps [of "a + s" "a + b"])
  qed
qed

text \<open>
  Quantum independence: a run cut by an expired quantum can be resumed. Running \<open>a\<close>
  instructions, then \<open>b\<close> more, ends in the state, the memory and with the result code that one
  run with budget \<open>a + b\<close> has, and the step counts add up.
\<close>

theorem vm_step_split:
  assumes "vm_regions_ok cpu" and "unat a + unat b < 2 ^ 32"
    and "vm_step cpu m a = (VM_STEP_QUANTUM_EXPIRED, n, cpu1, m1)"
  shows "vm_step cpu m (a + b) = (case vm_step cpu1 m1 b of (r, k, cpu2, m2) \<Rightarrow> (r, a + k, cpu2, m2))"
proof -
  have run: "\<not> halted cpu" and l: "vm_step_loop 0 a (clear_trap cpu) m = (True, n, cpu1, m1)"
    using assms(3) by (auto simp: vm_step_def split: if_splits prod.splits)
  have spec: "loop_spec 0 a (clear_trap cpu) m (True, n, cpu1, m1)"
    using vm_step_loop_spec [of "clear_trap cpu" 0 a m] assms(1) by (simp add: l)
  then have still: "\<not> halted cpu1" "clear_trap cpu1 = cpu1"
    using run by (auto simp: loop_spec_def same_host_fields_def same_trap_def clear_trap_def)
  have "vm_step_loop 0 (a + b) (clear_trap cpu) m = vm_step_loop a (a + b) cpu1 m1"
    using vm_step_loop_resume [OF l] assms(2) by (simp add: word_le_nat_alt unat_word_ariths)
  also have "\<dots> = (let (e, k, c, w) = vm_step_loop 0 b cpu1 m1 in (e, a + k, c, w))"
    using vm_step_loop_shift [OF _ assms(2), of 0 cpu1 m1] by simp
  finally show ?thesis using run still
    by (cases "vm_step_loop 0 b cpu1 m1") (auto simp: vm_step_def)
qed

theorem vm_step_split_witness:
  "\<exists>cpu1 m1. vm_step demo_cpu demo_mem 1 = (VM_STEP_QUANTUM_EXPIRED, 1, cpu1, m1) \<and>
     vm_step demo_cpu demo_mem 10 =
       (case vm_step cpu1 m1 9 of (r, k, cpu2, m2) \<Rightarrow> (r, 1 + k, cpu2, m2))"
proof -
  obtain r n c w where s: "vm_step demo_cpu demo_mem 1 = (r, n, c, w)" by (metis prod_cases4)
  have "case vm_step demo_cpu demo_mem 1 of (r, n, c, w) \<Rightarrow> r = VM_STEP_QUANTUM_EXPIRED \<and> n = 1" by code_simp
  with s have s1: "vm_step demo_cpu demo_mem 1 = (VM_STEP_QUANTUM_EXPIRED, 1, c, w)" by simp
  show ?thesis using vm_step_split [OF demo_regions_ok _ s1, of 9] s1 by auto
qed

section \<open>What the host sees of a run\<close>

lemma vm_step_view:
  assumes "vm_regions_ok c" and "vm_step c m b = (r, n, c', m')"
  shows "vm_id c' = vm_id c" "vm_regions_ok c'" "halted c \<Longrightarrow> halted c'" "in_critical c' = in_critical c"
    "block_reason c' = block_reason c" "l2_shared c' = l2_shared c"
    "r = VM_STEP_HALTED \<Longrightarrow> halted c'" "r = VM_STEP_QUANTUM_EXPIRED \<Longrightarrow> n = b" "r = VM_STEP_ECALL \<Longrightarrow> n < b"
    "a \<notin> vm_writable c \<Longrightarrow> m' a = m a"
proof -
  obtain e k d q where l: "vm_step_loop 0 b (clear_trap c) m = (e, k, d, q)"
    "loop_spec 0 b (clear_trap c) m (e, k, d, q)"
    using vm_step_loop_result [OF assms(1)] .
  then have s: "same_host_fields c d" and w: "writes_only (vm_writable c) m q"
    by (auto simp: loop_spec_def intro: same_host_fields_trans [OF clear_trap_reach(4)])
  have "c' = c \<and> n = 0 \<and> m' = m \<and> r = VM_STEP_HALTED \<and> halted c \<or>
      \<not> halted c \<and> n = k \<and> m' = q \<and> (c' = d \<or> c' = d\<lparr>ecall_count := ecall_count d + 1\<rparr>) \<and>
      r \<noteq> VM_STEP_HALTED \<and> (r = VM_STEP_QUANTUM_EXPIRED \<longrightarrow> n = b) \<and> (r = VM_STEP_ECALL \<longrightarrow> n < b)"
    using assms(2) l by (auto simp: vm_step_def loop_spec_def split: if_splits)
  then show "vm_id c' = vm_id c" "vm_regions_ok c'" "halted c \<Longrightarrow> halted c'" "in_critical c' = in_critical c"
    "block_reason c' = block_reason c" "l2_shared c' = l2_shared c"
    "r = VM_STEP_HALTED \<Longrightarrow> halted c'" "r = VM_STEP_QUANTUM_EXPIRED \<Longrightarrow> n = b" "r = VM_STEP_ECALL \<Longrightarrow> n < b"
    "a \<notin> vm_writable c \<Longrightarrow> m' a = m a"
    using s w assms(1) same_host_fields_reach [OF s]
    by (auto simp: same_host_fields_def writes_only_def vm_regions_ok_def vm_descriptors_def)
qed

end
