(* ===== verification/VM_RVC.thy ===== *)
theory VM_RVC
  imports VM_Expand
begin

text \<open>
  The compressed instructions against the ISA manual's tables. \<open>rv_insn\<close> names the base
  instructions a compressed one can stand for; \<open>rv_view\<close> reads a 32-bit encoding with the
  interpreter's own field extractors; \<open>rvc_view\<close> reads a 16-bit encoding the way the manual
  prints it, each immediate a table of (encoding bit, immediate bit) pairs; \<open>None\<close> stands for
  an encoding that is reserved in RV32C, left to custom extensions, or part of the
  floating-point extensions, and HINT encodings stand for the base instruction they spell.
  The expander is compared with the table on every one of the \<open>3 * 2^14\<close> compressed
  encodings. It departs from the manual on two groups of HINTs, \<open>C.LUI\<close> and \<open>C.ADD\<close> with
  \<open>rd = x0\<close>: the manual makes them instructions without effect, the code takes them for
  reserved and expands them to the illegal word. \<open>refused_hint\<close> names exactly those.
\<close>

datatype rv_insn =
    Addi u32 u32 u32 | Slli u32 u32 u32 | Srli u32 u32 u32 | Srai u32 u32 u32 | Andi u32 u32 u32
  | Lui u32 u32 | Lw u32 u32 u32 | Sw u32 u32 u32
  | Add u32 u32 u32 | Sub u32 u32 u32 | Xor u32 u32 u32 | Or u32 u32 u32 | And u32 u32 u32
  | Jal u32 u32 | Jalr u32 u32 u32 | Beq u32 u32 u32 | Bne u32 u32 u32 | Ebreak

text \<open>Operands are destination, sources, immediate, in the order of the assembler syntax.\<close>

definition rv_view :: "u32 \<Rightarrow> rv_insn option" where
  "rv_view i =
     (let op = opcode_of i; f3 = funct3_of i; f7 = funct7_of i;
          rd = rd_of i; rs1 = rs1_of i; rs2 = rs2_of i in
      if op = 0x13 \<and> f3 = 0 then Some (Addi rd rs1 (imm_i i))
      else if op = 0x13 \<and> f3 = 1 \<and> f7 = 0 then Some (Slli rd rs1 (shamt_of i))
      else if op = 0x13 \<and> f3 = 5 \<and> f7 = 0 then Some (Srli rd rs1 (shamt_of i))
      else if op = 0x13 \<and> f3 = 5 \<and> f7 = 0x20 then Some (Srai rd rs1 (shamt_of i))
      else if op = 0x13 \<and> f3 = 7 then Some (Andi rd rs1 (imm_i i))
      else if op = 0x37 then Some (Lui rd (imm_u i))
      else if op = 0x03 \<and> f3 = 2 then Some (Lw rd rs1 (imm_i i))
      else if op = 0x23 \<and> f3 = 2 then Some (Sw rs2 rs1 (imm_s i))
      else if op = 0x33 \<and> f3 = 0 \<and> f7 = 0 then Some (Add rd rs1 rs2)
      else if op = 0x33 \<and> f3 = 0 \<and> f7 = 0x20 then Some (Sub rd rs1 rs2)
      else if op = 0x33 \<and> f3 = 4 \<and> f7 = 0 then Some (Xor rd rs1 rs2)
      else if op = 0x33 \<and> f3 = 6 \<and> f7 = 0 then Some (Or rd rs1 rs2)
      else if op = 0x33 \<and> f3 = 7 \<and> f7 = 0 then Some (And rd rs1 rs2)
      else if op = 0x6F then Some (Jal rd (imm_j i))
      else if op = 0x67 \<and> f3 = 0 then Some (Jalr rd rs1 (imm_i i))
      else if op = 0x63 \<and> f3 = 0 then Some (Beq rs1 rs2 (imm_b i))
      else if op = 0x63 \<and> f3 = 1 then Some (Bne rs1 rs2 (imm_b i))
      else if i = 0x00100073 then Some Ebreak
      else None)"

section \<open>The compressed tables\<close>

text \<open>An immediate whose bit \<open>d\<close> is bit \<open>s\<close> of the encoding, for each pair \<open>(s, d)\<close> listed.\<close>

fun scatter :: "u32 \<Rightarrow> (nat \<times> nat) list \<Rightarrow> u32" where
  "scatter c [] = 0"
| "scatter c ((s, d) # ps) = (if bit c s then push_bit d 1 else 0) OR scatter c ps"

definition zimm_addi4spn :: "u32 \<Rightarrow> u32" where
  "zimm_addi4spn c = scatter c [(12,5), (11,4), (10,9), (9,8), (8,7), (7,6), (6,2), (5,3)]"
definition zimm_lw :: "u32 \<Rightarrow> u32" where
  "zimm_lw c = scatter c [(12,5), (11,4), (10,3), (6,2), (5,6)]"
definition simm_6 :: "u32 \<Rightarrow> u32" where
  "simm_6 c = signed_take_bit 5 (scatter c [(12,5), (6,4), (5,3), (4,2), (3,1), (2,0)])"
definition simm_j :: "u32 \<Rightarrow> u32" where
  "simm_j c = signed_take_bit 11 (scatter c
     [(12,11), (11,4), (10,9), (9,8), (8,10), (7,6), (6,7), (5,3), (4,2), (3,1), (2,5)])"
definition simm_16sp :: "u32 \<Rightarrow> u32" where
  "simm_16sp c = signed_take_bit 9 (scatter c [(12,9), (6,4), (5,6), (4,8), (3,7), (2,5)])"
definition simm_lui :: "u32 \<Rightarrow> u32" where
  "simm_lui c = signed_take_bit 17 (scatter c [(12,17), (6,16), (5,15), (4,14), (3,13), (2,12)])"
definition simm_b :: "u32 \<Rightarrow> u32" where
  "simm_b c = signed_take_bit 8 (scatter c
     [(12,8), (11,4), (10,3), (6,7), (5,6), (4,2), (3,1), (2,5)])"
definition zimm_lwsp :: "u32 \<Rightarrow> u32" where
  "zimm_lwsp c = scatter c [(12,5), (6,4), (5,3), (4,2), (3,7), (2,6)]"
definition zimm_swsp :: "u32 \<Rightarrow> u32" where
  "zimm_swsp c = scatter c [(12,5), (11,4), (10,3), (9,2), (8,7), (7,6)]"

text \<open>Register fields: five bits, or three bits naming \<open>x8\<close> to \<open>x15\<close>.\<close>

definition r5 :: "u32 \<Rightarrow> nat \<Rightarrow> u32" where "r5 c k = take_bit 5 (drop_bit k c)"
definition r3 :: "u32 \<Rightarrow> nat \<Rightarrow> u32" where "r3 c k = 8 + take_bit 3 (drop_bit k c)"

definition rvc_view :: "u16 \<Rightarrow> rv_insn option" where
  "rvc_view h =
     (let c = ucast h; q = take_bit 2 c; f3 = take_bit 3 (drop_bit 13 c); b12 = bit c 12;
          rd = r5 c 7; rs2 = r5 c 2; rdp = r3 c 2; rs1p = r3 c 7 in
      if q = 0 then
        if f3 = 0 then (if zimm_addi4spn c = 0 then None else Some (Addi rdp 2 (zimm_addi4spn c)))
        else if f3 = 2 then Some (Lw rdp rs1p (zimm_lw c))
        else if f3 = 6 then Some (Sw rdp rs1p (zimm_lw c))
        else None
      else if q = 1 then
        if f3 = 0 then Some (Addi rd rd (simm_6 c))
        else if f3 = 1 then Some (Jal 1 (simm_j c))
        else if f3 = 2 then Some (Addi rd 0 (simm_6 c))
        else if f3 = 3 then
          if rd = 2 then (if simm_16sp c = 0 then None else Some (Addi 2 2 (simm_16sp c)))
          else (if simm_lui c = 0 then None else Some (Lui rd (simm_lui c)))
        else if f3 = 4 then
          let f2 = take_bit 2 (drop_bit 10 c); g2 = take_bit 2 (drop_bit 5 c) in
          if f2 = 0 then (if b12 then None else Some (Srli rs1p rs1p (r5 c 2)))
          else if f2 = 1 then (if b12 then None else Some (Srai rs1p rs1p (r5 c 2)))
          else if f2 = 2 then Some (Andi rs1p rs1p (simm_6 c))
          else if b12 then None
          else if g2 = 0 then Some (Sub rs1p rs1p rdp)
          else if g2 = 1 then Some (Xor rs1p rs1p rdp)
          else if g2 = 2 then Some (Or rs1p rs1p rdp)
          else Some (And rs1p rs1p rdp)
        else if f3 = 5 then Some (Jal 0 (simm_j c))
        else if f3 = 6 then Some (Beq rs1p 0 (simm_b c))
        else Some (Bne rs1p 0 (simm_b c))
      else
        if f3 = 0 then (if b12 then None else Some (Slli rd rd (r5 c 2)))
        else if f3 = 2 then (if rd = 0 then None else Some (Lw rd 2 (zimm_lwsp c)))
        else if f3 = 4 then
          if \<not> b12 then
            if rs2 = 0 then (if rd = 0 then None else Some (Jalr 0 rd 0))
            else Some (Add rd 0 rs2)
          else if rs2 = 0 then (if rd = 0 then Some Ebreak else Some (Jalr 1 rd 0))
          else Some (Add rd rd rs2)
        else if f3 = 6 then Some (Sw rs2 2 (zimm_swsp c))
        else None)"

text \<open>
  The HINT encodings the code refuses, by their bits: \<open>C.LUI\<close> (quadrant 1, funct3 3) with
  \<open>rd = x0\<close> and a non-zero immediate field, and \<open>C.ADD\<close> (quadrant 2, funct3 4, bit 12 set) with
  \<open>rd = x0\<close> and a non-zero source.
\<close>

definition refused_hint :: "u16 \<Rightarrow> bool" where
  "refused_hint h =
     (let c = ucast h :: u32; q = take_bit 2 c; f3 = take_bit 3 (drop_bit 13 c) in
      r5 c 7 = 0 \<and>
      (q = 1 \<and> f3 = 3 \<and> simm_lui c \<noteq> 0 \<or>
       q = 2 \<and> f3 = 4 \<and> bit c 12 \<and> r5 c 2 \<noteq> 0))"

section \<open>Fields and immediates agree\<close>

lemma mask_take_bit:
  "(w :: u32) AND 0x1F = take_bit 5 w" "w AND 0x7 = take_bit 3 w" "w AND 0x3 = take_bit 2 w"
  "w AND 1 = of_bool (odd w)"
  by (simp_all add: take_bit_eq_mask mask_eq_exp_minus_1 and_one_eq mod_2_eq_odd)

lemma take_bit_bounds [simp]:
  "take_bit 5 (w :: u32) < 32" "take_bit 3 (w :: u32) < 8" "8 + take_bit 3 (w :: u32) < 32"
proof -
  show 3: "take_bit 3 w < 8"
    using and_mask_less [of 3 w] by (simp add: take_bit_eq_mask)
  show "take_bit 5 w < 32"
    using and_mask_less [of 5 w] by (simp add: take_bit_eq_mask)
  show "8 + take_bit 3 w < 32"
    using creg_bound [OF 3] by (simp add: creg_def add.commute)
qed

lemma odd_drop_bit_32: "odd (drop_bit k (w :: u32)) \<longleftrightarrow> bit w k"
  by (simp add: bit_iff_odd_drop_bit)

lemmas zimm_defs = zimm_addi4spn_def zimm_lw_def simm_6_def simm_j_def simm_16sp_def simm_lui_def
  simm_b_def zimm_lwsp_def zimm_swsp_def

lemma bit_scatter [simp]:
  "bit (scatter c []) n = False"
  "bit (scatter c ((s, d) # ps)) n = (n < 32 \<and> n = d \<and> bit c s \<or> bit (scatter c ps) n)"
  by (auto simp: bit_simps)
declare scatter.simps [simp del]

lemma sign_extend_take_bit: "0 < n \<Longrightarrow> n \<le> 32 \<Longrightarrow> sign_extend v n = signed_take_bit (n - 1) v"
  unfolding sign_extend_def Let_def by (rule bit_word_eqI) (auto simp: bit_simps)

lemmas by_bits = sign_extend_take_bit all_less_32 bit_simps bounded_bits

text \<open>
  The code's shuffles are the table's scatters, and the immediate fields of the expanded
  instruction carry them unchanged.
\<close>

lemma shuffle_agree:
  "cimm_lw c = zimm_lw c"
  "cimm_6 c = scatter c [(12,5), (6,4), (5,3), (4,2), (3,1), (2,0)]"
  "cimm_j c = scatter c
     [(12,11), (11,4), (10,9), (9,8), (8,10), (7,6), (6,7), (5,3), (4,2), (3,1), (2,5)]"
  "push_bit 4 (drop_bit 11 c AND 0x3) OR push_bit 6 (drop_bit 7 c AND 0xF) OR
     push_bit 2 (drop_bit 6 c AND 0x1) OR push_bit 3 (drop_bit 5 c AND 0x1) = zimm_addi4spn c"
  "push_bit 9 (drop_bit 12 c AND 0x1) OR push_bit 4 (drop_bit 6 c AND 0x1) OR
     push_bit 6 (drop_bit 5 c AND 0x1) OR push_bit 7 (drop_bit 3 c AND 0x3) OR
     push_bit 5 (drop_bit 2 c AND 0x1) = scatter c [(12,9), (6,4), (5,6), (4,8), (3,7), (2,5)]"
  "push_bit 17 (drop_bit 12 c AND 0x1) OR push_bit 12 (drop_bit 2 c AND 0x1F) =
     scatter c [(12,17), (6,16), (5,15), (4,14), (3,13), (2,12)]"
  "push_bit 8 (drop_bit 12 c AND 0x1) OR push_bit 3 (drop_bit 10 c AND 0x3) OR
     push_bit 6 (drop_bit 5 c AND 0x3) OR push_bit 1 (drop_bit 3 c AND 0x3) OR
     push_bit 5 (drop_bit 2 c AND 0x1) =
     scatter c [(12,8), (11,4), (10,3), (6,7), (5,6), (4,2), (3,1), (2,5)]"
  "push_bit 5 (drop_bit 12 c AND 0x1) OR push_bit 2 (drop_bit 4 c AND 0x7) OR
     push_bit 6 (drop_bit 2 c AND 0x3) = zimm_lwsp c"
  "push_bit 2 (drop_bit 9 c AND 0xF) OR push_bit 6 (drop_bit 7 c AND 0x3) = zimm_swsp c"
  by (rule u32_eq_bits,
      simp add: by_bits cimm_lw_def cimm_j_def cimm_6_def zimm_defs flip: numeral_2_eq_2 numeral_3_eq_3)+

lemma imm_carried:
  "signed_take_bit 11 (zimm_lw c) = zimm_lw c"
  "signed_take_bit 11 (zimm_lwsp c) = zimm_lwsp c"
  "signed_take_bit 11 (zimm_swsp c) = zimm_swsp c"
  "signed_take_bit 11 (zimm_addi4spn c) = zimm_addi4spn c"
  "signed_take_bit 11 (simm_16sp c) = simm_16sp c"
  "signed_take_bit 11 (simm_6 c) = simm_6 c"
  "signed_take_bit 20 (simm_j c) AND NOT 1 = simm_j c"
  "signed_take_bit 12 (simm_b c) AND NOT 1 = simm_b c"
  "simm_lui c AND 0xFFFFF000 = simm_lui c"
  by (rule u32_eq_bits, simp add: by_bits zimm_defs flip: numeral_2_eq_2 numeral_3_eq_3)+

lemma simm_sign_extend:
  "sign_extend (scatter c [(12,5), (6,4), (5,3), (4,2), (3,1), (2,0)]) 6 = simm_6 c"
  "sign_extend (scatter c
     [(12,11), (11,4), (10,9), (9,8), (8,10), (7,6), (6,7), (5,3), (4,2), (3,1), (2,5)]) 12 = simm_j c"
  "sign_extend (scatter c [(12,9), (6,4), (5,6), (4,8), (3,7), (2,5)]) 10 = simm_16sp c"
  "sign_extend (scatter c [(12,17), (6,16), (5,15), (4,14), (3,13), (2,12)]) 18 = simm_lui c"
  "sign_extend (scatter c [(12,8), (11,4), (10,3), (6,7), (5,6), (4,2), (3,1), (2,5)]) 9 = simm_b c"
  by (simp_all add: sign_extend_take_bit zimm_defs)

lemma scatter_take_bit:
  "take_bit 18 (scatter c [(12,17), (6,16), (5,15), (4,14), (3,13), (2,12)]) =
     scatter c [(12,17), (6,16), (5,15), (4,14), (3,13), (2,12)]"
  "take_bit 10 (scatter c [(12,9), (6,4), (5,6), (4,8), (3,7), (2,5)]) =
     scatter c [(12,9), (6,4), (5,6), (4,8), (3,7), (2,5)]"
  by (rule u32_eq_bits, simp add: by_bits flip: numeral_2_eq_2)+

lemma imm_zero_agree:
  "scatter c [(12,17), (6,16), (5,15), (4,14), (3,13), (2,12)] = 0 \<longleftrightarrow> simm_lui c = 0"
  "scatter c [(12,9), (6,4), (5,6), (4,8), (3,7), (2,5)] = 0 \<longleftrightarrow> simm_16sp c = 0"
  using signed_take_bit_eq_iff_take_bit_eq [of 17 "scatter c [(12,17), (6,16), (5,15), (4,14), (3,13), (2,12)]" 0]
    signed_take_bit_eq_iff_take_bit_eq [of 9 "scatter c [(12,9), (6,4), (5,6), (4,8), (3,7), (2,5)]" 0]
  by (simp_all add: scatter_take_bit simm_lui_def simm_16sp_def)

lemma mk_i_shift_fields:
  assumes "rs1 < 32" "f3 < 8" "rd < 32" "op < 128" "sh < 32" "f7 < 128"
  shows "funct7_of (mk_i (push_bit 5 f7 OR sh) rs1 f3 rd op) = f7"
    "shamt_of (mk_i (push_bit 5 f7 OR sh) rs1 f3 rd op) = sh"
  unfolding field_defs shamt_of_def mk_i_def
  by (rule u32_eq_bits, use assms in \<open>simp add: all_less_32 bit_simps bounded_bits\<close>)+

lemma mk_i_shift_fields_0:
  assumes "rs1 < 32" "f3 < 8" "rd < 32" "op < 128" "sh < 32"
  shows "funct7_of (mk_i sh rs1 f3 rd op) = 0" "shamt_of (mk_i sh rs1 f3 rd op) = sh"
  using mk_i_shift_fields [of rs1 f3 rd op sh 0] assms by simp_all

lemmas mk_fields = mk_r_fields mk_i_fields mk_s_fields mk_b_fields mk_u_fields mk_j_fields
  mk_i_shift_fields [of _ _ _ _ _ "0x20", simplified] mk_i_shift_fields_0

section \<open>What the interpreter reads from each instruction the expander builds\<close>

lemma view_i:
  assumes "rd < 32" "rs1 < 32"
  shows "rv_view (mk_i imm rs1 0 rd 0x13) = Some (Addi rd rs1 (signed_take_bit 11 imm))"
    "rv_view (mk_i imm rs1 7 rd 0x13) = Some (Andi rd rs1 (signed_take_bit 11 imm))"
    "rv_view (mk_i imm rs1 2 rd 0x03) = Some (Lw rd rs1 (signed_take_bit 11 imm))"
    "rv_view (mk_i imm rs1 0 rd 0x67) = Some (Jalr rd rs1 (signed_take_bit 11 imm))"
  using assms by (simp_all add: rv_view_def mk_fields)

lemma view_shift:
  assumes "rd < 32" "rs1 < 32" "sh < 32"
  shows "rv_view (mk_i sh rs1 1 rd 0x13) = Some (Slli rd rs1 sh)"
    "rv_view (mk_i (push_bit 5 0 OR sh) rs1 5 rd 0x13) = Some (Srli rd rs1 sh)"
    "rv_view (mk_i (push_bit 5 0x20 OR sh) rs1 5 rd 0x13) = Some (Srai rd rs1 sh)"
  using assms by (simp_all add: rv_view_def mk_fields)

lemma view_s_b:
  assumes "rs1 < 32" "rs2 < 32"
  shows "rv_view (mk_s imm rs2 rs1 2 0x23) = Some (Sw rs2 rs1 (signed_take_bit 11 imm))"
    "rv_view (mk_b imm rs2 rs1 0 0x63) = Some (Beq rs1 rs2 (signed_take_bit 12 imm AND NOT 1))"
    "rv_view (mk_b imm rs2 rs1 1 0x63) = Some (Bne rs1 rs2 (signed_take_bit 12 imm AND NOT 1))"
  using assms by (simp_all add: rv_view_def mk_fields)

lemma view_u_j:
  assumes "rd < 32"
  shows "rv_view (mk_u imm rd 0x37) = Some (Lui rd (imm AND 0xFFFFF000))"
    "rv_view (mk_j imm rd 0x6F) = Some (Jal rd (signed_take_bit 20 imm AND NOT 1))"
  using assms by (simp_all add: rv_view_def mk_fields)

lemma view_r:
  assumes "rd < 32" "rs1 < 32" "rs2 < 32"
  shows "rv_view (mk_r 0 rs2 rs1 0 rd 0x33) = Some (Add rd rs1 rs2)"
    "rv_view (mk_r 0x20 rs2 rs1 0 rd 0x33) = Some (Sub rd rs1 rs2)"
    "rv_view (mk_r 0 rs2 rs1 4 rd 0x33) = Some (Xor rd rs1 rs2)"
    "rv_view (mk_r 0 rs2 rs1 6 rd 0x33) = Some (Or rd rs1 rs2)"
    "rv_view (mk_r 0 rs2 rs1 7 rd 0x33) = Some (And rd rs1 rs2)"
  using assms by (simp_all add: rv_view_def mk_fields)

lemma view_const: "rv_view 0x00100073 = Some Ebreak" "rv_view 0 = None"
  by (simp_all add: rv_view_def field_defs)

lemmas view_mk = view_i view_shift view_s_b view_u_j view_r view_const

lemma field_shapes:
  "creg w = 8 + w" "(w :: u32) AND 0x1F = take_bit 5 w"
  "(w :: u32) AND 0x7 = take_bit 3 w" "(w :: u32) AND 0x3 = take_bit 2 w"
  "(drop_bit k (w :: u32) AND 0x1 = 0) = (\<not> bit w k)"
  by (simp_all add: creg_def mask_take_bit odd_drop_bit_32)
lemma mask_literals_16: "(0x3 :: u16) = mask 2" by (simp add: mask_eq_exp_minus_1)
lemma take_bit_3_cases:
  "take_bit 3 (w :: u32) = 0 \<or> take_bit 3 w = 1 \<or> take_bit 3 w = 2 \<or> take_bit 3 w = 3 \<or>
   take_bit 3 w = 4 \<or> take_bit 3 w = 5 \<or> take_bit 3 w = 6 \<or> take_bit 3 w = 7"
proof -
  have "unat (take_bit 3 w) < 8" using take_bit_bounds(2) [of w] by (simp add: word_less_nat_alt)
  then show ?thesis by (simp add: word_unat_eq_iff) arith
qed

lemma take_bit_2_cases:
  "take_bit 2 (w :: u32) = 0 \<or> take_bit 2 w = 1 \<or> take_bit 2 w = 2 \<or> take_bit 2 w = 3"
proof -
  have "take_bit 2 w < 4" using and_mask_less [of 2 w] by (simp add: take_bit_eq_mask)
  then have "unat (take_bit 2 w) < 4" by (simp add: word_less_nat_alt)
  then show ?thesis by (simp add: word_unat_eq_iff) arith
qed

lemma expand_q0_view:
  "rv_view (expand_q0 c) =
     (let f3 = take_bit 3 (drop_bit 13 c); rdp = r3 c 2; rs1p = r3 c 7 in
        if f3 = 0 then (if zimm_addi4spn c = 0 then None else Some (Addi rdp 2 (zimm_addi4spn c)))
        else if f3 = 2 then Some (Lw rdp rs1p (zimm_lw c))
        else if f3 = 6 then Some (Sw rdp rs1p (zimm_lw c))
        else None)"
  unfolding expand_q0_def Let_def unfolding shuffle_agree unfolding field_shapes r3_def
  by (simp add: view_mk imm_carried)

lemma expand_q2_view:
  "rv_view (expand_q2 c) =
     (let f3 = take_bit 3 (drop_bit 13 c);  b12 = bit c 12; rd = r5 c 7; rs2 = r5 c 2 in
        if f3 = 0 then (if b12 then None else Some (Slli rd rd (r5 c 2)))
        else if f3 = 2 then (if rd = 0 then None else Some (Lw rd 2 (zimm_lwsp c)))
        else if f3 = 4 then
          if \<not> b12 then
            if rs2 = 0 then (if rd = 0 then None else Some (Jalr 0 rd 0))
            else Some (Add rd 0 rs2)
          else if rs2 = 0 then (if rd = 0 then Some Ebreak else Some (Jalr 1 rd 0))
          else (if rd = 0 then None else Some (Add rd rd rs2))
        else if f3 = 6 then Some (Sw rs2 2 (zimm_swsp c))
        else None)"
  unfolding expand_q2_def Let_def unfolding shuffle_agree unfolding field_shapes r5_def
  by (simp add: view_mk imm_carried)

lemma expand_q1_alu_view:
  "rv_view (expand_q1_alu c) =
     (let b12 = bit c 12; rs1p = r3 c 7; rdp = r3 c 2;
          f2 = take_bit 2 (drop_bit 10 c); g2 = take_bit 2 (drop_bit 5 c) in
          if f2 = 0 then (if b12 then None else Some (Srli rs1p rs1p (r5 c 2)))
          else if f2 = 1 then (if b12 then None else Some (Srai rs1p rs1p (r5 c 2)))
          else if f2 = 2 then Some (Andi rs1p rs1p (simm_6 c))
          else if b12 then None
          else if g2 = 0 then Some (Sub rs1p rs1p rdp)
          else if g2 = 1 then Some (Xor rs1p rs1p rdp)
          else if g2 = 2 then Some (Or rs1p rs1p rdp)
          else Some (And rs1p rs1p rdp))"
  unfolding expand_q1_alu_def Let_def unfolding shuffle_agree unfolding field_shapes r5_def r3_def simm_sign_extend
  using take_bit_2_cases [of "drop_bit 10 c"] take_bit_2_cases [of "drop_bit 5 c"]
  by (auto simp: view_mk view_shift [simplified] imm_carried)
lemma expand_q1_view:
  "rv_view (expand_q1 c) =
     (let f3 = take_bit 3 (drop_bit 13 c); b12 = bit c 12; rd = r5 c 7; rs2 = r5 c 2; rdp = r3 c 2; rs1p = r3 c 7 in
        if f3 = 0 then Some (Addi rd rd (simm_6 c))
        else if f3 = 1 then Some (Jal 1 (simm_j c))
        else if f3 = 2 then Some (Addi rd 0 (simm_6 c))
        else if f3 = 3 then
          if rd = 0 then None
          else if rd = 2 then (if simm_16sp c = 0 then None else Some (Addi 2 2 (simm_16sp c)))
          else (if simm_lui c = 0 then None else Some (Lui rd (simm_lui c)))
        else if f3 = 4 then rv_view (expand_q1_alu c)
        else if f3 = 5 then Some (Jal 0 (simm_j c))
        else if f3 = 6 then Some (Beq rs1p 0 (simm_b c))
        else Some (Bne rs1p 0 (simm_b c)))"
  unfolding expand_q1_def Let_def unfolding shuffle_agree unfolding field_shapes r5_def r3_def simm_sign_extend imm_zero_agree
  using take_bit_3_cases [of "drop_bit 13 c"]
  by (auto simp: view_mk imm_carried imm_carried [simplified])

text \<open>Only the reserved encodings expand to zero.\<close>

lemma expand_quadrants_zero:
  "rv_view (expand_q0 c) = None \<Longrightarrow> expand_q0 c = 0"
  "rv_view (expand_q1_alu c) = None \<Longrightarrow> expand_q1_alu c = 0"
  "rv_view (expand_q1 c) = None \<Longrightarrow> expand_q1 c = 0"
  "rv_view (expand_q2 c) = None \<Longrightarrow> expand_q2 c = 0"
proof -
  show "rv_view (expand_q0 c) = None \<Longrightarrow> expand_q0 c = 0"
    unfolding expand_q0_def Let_def unfolding shuffle_agree unfolding field_shapes
    by (simp add: view_mk split: if_splits)
  show alu: "rv_view (expand_q1_alu c) = None \<Longrightarrow> expand_q1_alu c = 0"
    unfolding expand_q1_alu_def Let_def unfolding shuffle_agree unfolding field_shapes
    by (auto simp: view_mk view_shift [simplified] split: if_splits)
  show "rv_view (expand_q1 c) = None \<Longrightarrow> expand_q1 c = 0"
    unfolding expand_q1_def Let_def unfolding shuffle_agree unfolding field_shapes
    using alu by (simp add: view_mk split: if_splits)
  show "rv_view (expand_q2 c) = None \<Longrightarrow> expand_q2 c = 0"
    unfolding expand_q2_def Let_def unfolding shuffle_agree unfolding field_shapes
    by (simp add: view_mk split: if_splits)
qed

text \<open>
  C4. The compressed expander against the ISA table, for every 16-bit encoding that is not the
  first half of a 32-bit instruction. Except for the two groups of HINTs the code refuses,
  the interpreter reads from the expansion exactly the base instruction, registers and
  immediate the manual gives, and no instruction where the manual gives none. The expansion
  is the illegal word \<open>0\<close> exactly for the encodings without an instruction and the refused
  HINTs, and every refused HINT is one the manual lets execute without an effect: it names an
  instruction whose destination is \<open>x0\<close> and which accesses no memory and jumps nowhere.
\<close>

theorem expand_matches_isa:
  assumes "h AND 0x3 \<noteq> 0x3"
  shows "rv_view (expand_compressed h) = (if refused_hint h then None else rvc_view h)
    \<and> (expand_compressed h = 0 \<longleftrightarrow> rvc_view h = None \<or> refused_hint h)
    \<and> (refused_hint h \<longrightarrow> (\<exists>imm. rvc_view h = Some (Lui 0 imm)) \<or> (\<exists>rs2. rvc_view h = Some (Add 0 0 rs2)))"
proof -
  have "take_bit 2 (ucast h :: u32) \<noteq> 3"
  proof
    assume "take_bit 2 (ucast h :: u32) = 3"
    then have "bit (take_bit 2 (ucast h :: u32)) n = bit (3 :: u32) n" for n by simp
    from this [of 0] this [of 1] have "bit h 0" "bit h 1" by (simp_all add: bit_simps flip: bit_0)
    then have "h AND 0x3 = 0x3"
      by (intro bit_word_eqI) (auto simp: bit_simps mask_literals_16  less_Suc_eq numeral_2_eq_2)
    with assms show False ..
  qed
  then have view: "rv_view (expand_compressed h) = (if refused_hint h then None else rvc_view h)"
    unfolding expand_compressed_def rvc_view_def refused_hint_def Let_def field_shapes
    using take_bit_2_cases [of "ucast h"]
    by (auto simp: expand_q0_view expand_q1_view expand_q1_alu_view expand_q2_view Let_def)
  have zero: "rv_view (expand_compressed h) = None \<Longrightarrow> expand_compressed h = 0"
    by (auto simp: expand_compressed_def Let_def dest: expand_quadrants_zero split: if_splits)
  have "expand_compressed h = 0 \<longleftrightarrow> rvc_view h = None \<or> refused_hint h"
    using view zero view_const by (metis option.distinct(1))
  moreover have "refused_hint h \<Longrightarrow>
      (\<exists>imm. rvc_view h = Some (Lui 0 imm)) \<or> (\<exists>rs2. rvc_view h = Some (Add 0 0 rs2))"
    by (auto simp: refused_hint_def rvc_view_def Let_def)
  ultimately show ?thesis using view by blast
qed

text \<open>
  \<open>c.addi x1, 5\<close> is \<open>addi x1, x1, 5\<close>; \<open>c.add x0, x2\<close>, a HINT of the manual, is refused.
\<close>

theorem expand_matches_isa_witness:
  "(0x0095 :: u16) AND 0x3 \<noteq> 0x3 \<and> rv_view (expand_compressed 0x0095) = Some (Addi 1 1 5)
   \<and> (0x900A :: u16) AND 0x3 \<noteq> 0x3 \<and> rvc_view 0x900A = Some (Add 0 0 2) \<and> expand_compressed 0x900A = 0"
proof -
  have "rvc_view 0x0095 = Some (Addi 1 1 5)" "\<not> refused_hint 0x0095" "rvc_view 0x900A = Some (Add 0 0 2)"
    "refused_hint 0x900A" by code_simp+
  then show ?thesis using expand_matches_isa [of "0x0095"] expand_matches_isa [of "0x900A"] by simp
qed

end
