(* ===== verification/VM_ISA.thy ===== *)
theory VM_ISA
  imports VM_Run
begin

text \<open>
  What the arithmetic and memory instructions compute: the M extension's products and
  quotients as integers (the code's casts and special cases against the ISA's definition),
  the portable arithmetic shift, and the round trips between the host's accessors and the
  guest's loads.
\<close>

section \<open>The M extension\<close>

lemma high_half:
  fixes x :: int
  shows "(word_of_int (x div 2 ^ 32) :: u32) = ucast (drop_bit 32 (word_of_int x :: u64))"
proof -
  have "(word_of_int (x div 2 ^ 32) :: u32) = word_of_int (drop_bit 32 x)"
    by (simp add: drop_bit_eq_div)
  also have "\<dots> = ucast (drop_bit 32 (word_of_int x :: u64))"
    by (rule bit_word_eqI) (auto simp: bit_simps)
  finally show ?thesis .
qed

lemma scast_ucast_u64:
  "scast (a :: u32) * scast (b :: u32) = (word_of_int (sint a * sint b) :: u64)"
  "scast a * ucast b = (word_of_int (sint a * uint b) :: u64)"
  "ucast a * ucast b = (word_of_int (uint a * uint b) :: u64)"
  by (simp_all only: scast_eq ucast_eq wi_homs)

lemma op_m_cases:
  "op_m_result 0 a b = Some (a * b)"
  "op_m_result 1 a b = Some (ucast (drop_bit 32 (scast a * scast b :: u64)))"
  "op_m_result 2 a b = Some (ucast (drop_bit 32 (scast a * ucast b :: u64)))"
  "op_m_result 3 a b = Some (ucast (drop_bit 32 (ucast a * ucast b :: u64)))"
  "op_m_result 4 a b = Some (if b = 0 then 0xFFFFFFFF
     else if a = 0x80000000 \<and> b = 0xFFFFFFFF then 0x80000000 else word_of_int (sint a sdiv sint b))"
  "op_m_result 5 a b = Some (if b = 0 then 0xFFFFFFFF else a div b)"
  "op_m_result 6 a b = Some (if b = 0 then a
     else if a = 0x80000000 \<and> b = 0xFFFFFFFF then 0 else word_of_int (sint a smod sint b))"
  "op_m_result 7 a b = Some (if b = 0 then a else a mod b)"
  by (simp_all add: op_m_result_def)

text \<open>
  Multiplication: \<open>MUL\<close> is the low, \<open>MULH\<close>, \<open>MULHSU\<close> and \<open>MULHU\<close> the high 32 bits of the
  exact product of the operands read as signed or unsigned integers.
\<close>

theorem mul_high_exact:
  "op_m_result 0 a b = Some (word_of_int (uint a * uint b)) \<and>
   op_m_result 1 a b = Some (word_of_int ((sint a * sint b) div 2 ^ 32)) \<and>
   op_m_result 2 a b = Some (word_of_int ((sint a * uint b) div 2 ^ 32)) \<and>
   op_m_result 3 a b = Some (word_of_int ((uint a * uint b) div 2 ^ 32))"
  by (simp only: op_m_cases scast_ucast_u64 high_half word_mult_def [of a b] simp_thms)

lemma sint_range_32: "- (2 ^ 31) \<le> sint (w :: u32)" "sint (w :: u32) < 2 ^ 31"
  using sint_greater_eq [of w] sint_less [of w] by simp_all

lemma sint_word_of_int_32: "- (2 ^ 31) \<le> k \<Longrightarrow> k < 2 ^ 31 \<Longrightarrow> sint (word_of_int k :: u32) = k"
  by (simp add: signed_of_int signed_take_bit_int_eq_self)

lemma eq_of_sint: "sint (a :: u32) = k \<Longrightarrow> a = word_of_int k"
  by (metis of_int_sint scast_id)

lemma sint_minimum: "sint (a :: u32) = - (2 ^ 31) \<Longrightarrow> a = 0x80000000"
  by (drule eq_of_sint) simp

lemma sint_minus_one: "sint (b :: u32) = - 1 \<Longrightarrow> b = 0xFFFFFFFF"
  by (drule eq_of_sint) simp

text \<open>The one quotient out of range is the one the code special-cases.\<close>

lemma sdiv_range_32:
  fixes a b :: u32
  assumes "\<not> (a = 0x80000000 \<and> b = 0xFFFFFFFF)"
  shows "sint (word_of_int (sint a sdiv sint b) :: u32) = sint a sdiv sint b"
proof (rule sint_word_of_int_32)
  have range: "- \<bar>sint a\<bar> \<le> sint a sdiv sint b" "sint a sdiv sint b \<le> \<bar>sint a\<bar>"
    using sdiv_int_range [of "sint a" "sint b"] by simp_all
  then show "- (2 ^ 31) \<le> sint a sdiv sint b" using sint_range_32 [of a] by linarith
  show "sint a sdiv sint b < 2 ^ 31"
  proof (cases "sint a = - (2 ^ 31)")
    case False
    then show ?thesis using range sint_range_32 [of a] by linarith
  next
    case True
    then have "sint b \<noteq> - 1" using assms sint_minimum sint_minus_one by blast
    then have "sint a sdiv sint b \<noteq> - sint a" using True int_sdiv_negated_is_minus1 [of "sint a" "sint b"] by simp
    then show ?thesis using range True by simp
  qed
qed

lemma smod_range_32:
  fixes a b :: u32
  assumes "b \<noteq> 0"
  shows "sint (word_of_int (sint a smod sint b) :: u32) = sint a smod sint b"
    and "\<bar>sint a smod sint b\<bar> < \<bar>sint b\<bar>"
proof -
  have "sint b \<noteq> 0" using assms eq_of_sint [of b 0] by auto
  from smod_int_range [OF this, of "sint a"] show "\<bar>sint a smod sint b\<bar> < \<bar>sint b\<bar>" by auto
  then show "sint (word_of_int (sint a smod sint b) :: u32) = sint a smod sint b"
    using sint_range_32 [of b] by (intro sint_word_of_int_32) linarith+
qed

lemma signed_identity:
  fixes a b :: u32
  shows "word_of_int (sint a sdiv sint b) * b + word_of_int (sint a smod sint b) = a"
proof -
  have "word_of_int (sint a sdiv sint b) * b + word_of_int (sint a smod sint b)
      = (word_of_int (sint a sdiv sint b * sint b + sint a smod sint b) :: u32)" by simp
  then show ?thesis by (simp add: sdiv_mult_smod_eq)
qed

text \<open>
  C5. Division: for every operand pair, zero divisor and signed overflow included, \<open>DIV\<close> and
  \<open>REM\<close> (and \<open>DIVU\<close>, \<open>REMU\<close>) give words with quotient times divisor plus remainder equal to
  the dividend. For a nonzero divisor the remainder is smaller than the divisor, and the
  signed quotient is the integer quotient rounded towards zero unless it overflows. A zero divisor
  gives the all-ones quotient.
\<close>

theorem div_rem_identity:
  "\<exists>q r u v. op_m_result 4 a b = Some q \<and> op_m_result 6 a b = Some r \<and> q * b + r = a \<and>
     op_m_result 5 a b = Some u \<and> op_m_result 7 a b = Some v \<and> u * b + v = a \<and>
     (if b = 0 then q = 0xFFFFFFFF \<and> u = 0xFFFFFFFF
      else \<bar>sint r\<bar> < \<bar>sint b\<bar> \<and> v < b \<and>
        (sint q = sint a sdiv sint b \<or> a = 0x80000000 \<and> b = 0xFFFFFFFF))"
proof -
  have u: "(a div b) * b + a mod b = a" by (simp add: div_mult_mod_eq)
  have v: "b \<noteq> 0 \<Longrightarrow> a mod b < b" by (rule word_mod_less_divisor) (simp add: word_neq_0_conv)
  consider "b = 0" | "a = 0x80000000" "b = 0xFFFFFFFF" | "b \<noteq> 0" "\<not> (a = 0x80000000 \<and> b = 0xFFFFFFFF)"
    by blast
  then show ?thesis
  proof cases
    case 1
    then show ?thesis by (simp add: op_m_cases)
  next
    case 2
    then show ?thesis using u v by (simp add: op_m_cases)
  next
    case 3
    then have "op_m_result 4 a b = Some (word_of_int (sint a sdiv sint b))"
      "op_m_result 6 a b = Some (word_of_int (sint a smod sint b))"
      "op_m_result 5 a b = Some (a div b)" "op_m_result 7 a b = Some (a mod b)"
      by (auto simp: op_m_cases)
    then show ?thesis
      using 3(1) u v signed_identity [of a b] sdiv_range_32 [OF 3(2)] smod_range_32 [OF 3(1), of a]
      by auto
  qed
qed

section \<open>Guest memory\<close>

text \<open>
  The accessors agree with the guest: after a successful \<open>vm_write_u32\<close> the CPU is
  unchanged, \<open>vm_read_u32\<close> returns the value from the new memory without a trap, a guest
  \<open>lw\<close> at the address retires with it, and no byte outside the four bytes of one writable
  region has changed.
\<close>

theorem guest_word_roundtrip:
  assumes "vm_regions_ok cpu" and "vm_write_u32 cpu m addr v = (True, cpu', m')"
    and "funct3_of insn = 2" and "regs cpu (rs1_of insn) + imm_i insn = addr"
  shows "cpu' = cpu \<and> vm_read_u32 cpu m' addr = (cpu, v) \<and>
     exec_load cpu m' insn n = retire_rd cpu (rd_of insn) v n \<and>
     (\<exists>p. extent p 4 \<subseteq> vm_writable cpu \<and> (\<forall>a. a \<notin> extent p 4 \<longrightarrow> m' a = m a))"
proof -
  obtain c p where x: "xlat_write cpu addr 4 = (c, p)" by force
  with assms(2) have al: "addr AND 3 = 0" and p: "p \<noteq> 0" and m': "m' = st32 m p v" and "cpu' = c"
    by (auto simp: vm_write_u32_def split: if_splits)
  moreover have c: "c = cpu" and ext: "extent p 4 \<subseteq> vm_writable cpu"
    using xlat_write_result [OF x assms(1)] p by auto
  moreover have r: "xlat_read cpu addr 4 TRAP_LOAD_FAULT = (cpu, p)"
    by (rule xlat_write_read [OF x p])
  moreover have "\<forall>a. a \<notin> extent p 4 \<longrightarrow> m' a = m a" using m' store_le_other by blast
  ultimately show ?thesis
    using assms(3,4) by (auto simp: vm_read_u32_def exec_load_def load_ptr_def Let_def take_bit_word_eq_self)
qed

theorem guest_word_roundtrip_witness:
  "\<exists>m'. vm_write_u32 demo_cpu demo_mem 0x80000004 77 = (True, demo_cpu, m') \<and>
     vm_read_u32 demo_cpu m' 0x80000004 = (demo_cpu, 77)"
proof -
  obtain ok c m' where w: "vm_write_u32 demo_cpu demo_mem 0x80000004 77 = (ok, c, m')" by (metis prod_cases3)
  have "fst (vm_write_u32 demo_cpu demo_mem 0x80000004 77)" by code_simp
  with w have w: "vm_write_u32 demo_cpu demo_mem 0x80000004 77 = (True, c, m')" by simp
  have "regs demo_cpu (rs1_of 0x00412083) + imm_i 0x00412083 = 0x80000004" "funct3_of 0x00412083 = 2"
    by code_simp+
  from guest_word_roundtrip [OF demo_regions_ok w this(2,1)] w show ?thesis by auto
qed

text \<open>
  Bulk copies: bytes a handler copies into the guest come back unchanged through
  \<open>vm_copy_from_guest\<close>; the first copy touches writable guest memory only, the second only
  the handler's buffer; neither changes the CPU.
\<close>

theorem guest_copy_roundtrip:
  assumes "vm_regions_ok cpu" and "vm_copy_to_guest cpu m g src n = (True, cpu1, m1)" and "dst \<noteq> 0"
  shows "\<exists>m2. vm_copy_from_guest cpu1 m1 dst g n = (True, cpu, m2) \<and>
     load_bytes m2 dst (unat n) = load_bytes m src (unat n) \<and>
     writes_only (vm_writable cpu) m m1 \<and> writes_only (extent dst (unat n)) m1 m2"
proof -
  obtain c p where x: "xlat_write cpu g n = (c, p)" by force
  with assms(2) have n: "n \<noteq> 0" and p: "p \<noteq> 0" and m1: "m1 = memcpy m p src (unat n)" and "cpu1 = c"
    by (auto simp: vm_copy_to_guest_def split: if_splits)
  moreover have "c = cpu" and "extent p (unat n) \<subseteq> vm_writable cpu"
    using xlat_write_result [OF x assms(1)] p by auto
  moreover have "xlat_read cpu g n TRAP_LOAD_FAULT = (cpu, p)" by (rule xlat_write_read [OF x p])
  ultimately show ?thesis using assms(3)
    by (auto simp: vm_copy_from_guest_def memcpy_def intro!: writes_only_store_bytes)
qed

theorem guest_copy_roundtrip_witness:
  "\<exists>c m1 m2. vm_copy_to_guest demo_cpu demo_mem 0x80000000 16 8 = (True, c, m1) \<and>
     vm_copy_from_guest c m1 64 0x80000000 8 = (True, demo_cpu, m2) \<and>
     load_bytes m2 64 8 = [0x93, 0x00, 0x50, 0x00, 0x23, 0x20, 0x11, 0x00]"
proof -
  obtain ok c m1 where w: "vm_copy_to_guest demo_cpu demo_mem 0x80000000 16 8 = (ok, c, m1)" by (metis prod_cases3)
  have "fst (vm_copy_to_guest demo_cpu demo_mem 0x80000000 16 8)" by code_simp
  with w have w: "vm_copy_to_guest demo_cpu demo_mem 0x80000000 16 8 = (True, c, m1)" by simp
  have "load_bytes demo_mem 16 8 = [0x93, 0x00, 0x50, 0x00, 0x23, 0x20, 0x11, 0x00]" by code_simp
  with guest_copy_roundtrip [OF demo_regions_ok w, of 64] w show ?thesis by auto
qed

end
