(* ===== verification/Slab.thy ===== *)
theory Slab
  imports Host_Memory
begin

text \<open>
  The slab allocator (\<open>src/memory/slab_stack.c\<close>, \<open>include/memory/slab_stack.h\<close>) at the level
  of bytes: block headers and the per-bin pointer stacks live in the host memory, the handle
  is a record. The build modelled is the default one (block magic on, 64-bit host: \<open>size_t\<close>
  and pointers are eight bytes).

  Request sizes are \<open>u64\<close>, because \<open>size_to_bin\<close> adds the header size to them and truncates to
  32 bits; the statistics counters keep their widths. Region sizes and byte totals are
  natural numbers: they are sums over sixteen bins of at most \<open>65535\<close> blocks of at most a
  megabyte, below \<open>2^64\<close> (\<open>slab_required_bytes_bound\<close>). The locker's callbacks are functions
  on an environment \<open>'e\<close> that stands for the state they act on.
\<close>

section \<open>Data\<close>

abbreviation (input) SLAB_BIN_COUNT :: nat where "SLAB_BIN_COUNT \<equiv> 16"
abbreviation (input) SLAB_MIN_BLOCK :: nat where "SLAB_MIN_BLOCK \<equiv> 32"
abbreviation (input) SLAB_HEADER_SIZE :: nat where "SLAB_HEADER_SIZE \<equiv> 8"
abbreviation (input) SLAB_MAGIC_ALLOCATED :: u32 where "SLAB_MAGIC_ALLOCATED \<equiv> 0x4D4D4D4D"
abbreviation (input) SLAB_MAGIC_FREED :: u32 where "SLAB_MAGIC_FREED \<equiv> 0xDEADBEEF"

datatype SlabResult =
    SLAB_OK | SLAB_ERR_INVALID_ARG | SLAB_ERR_NO_SPACE | SLAB_ERR_BIN_EXHAUSTED
  | SLAB_ERR_SIZE_TOO_LARGE | SLAB_ERR_CORRUPTED | SLAB_ERR_DOUBLE_FREE | SLAB_ERR_FOREIGN_POINTER

record 'e SlabLocker =
  lk_lock :: "'e \<Rightarrow> u64 \<times> 'e"
  lk_unlock :: "'e \<Rightarrow> u64 \<Rightarrow> 'e"

record SlabBinInfo =
  block_size :: nat
  bucket_count :: u16
  blocks_in_use :: u16
  peak_in_use :: u16
  int_top :: u16
  int_stack :: hptr
  int_blocks :: hptr

record 'e SlabAllocator =
  total_bytes_managed :: nat
  total_bytes_in_use :: nat
  peak_bytes_in_use :: nat
  alloc_count :: u32
  free_count :: u32
  failed_alloc_count :: u32
  bins :: "nat \<Rightarrow> SlabBinInfo"
  bitmap :: u32
  region :: hptr
  region_bytes :: nat
  locker :: "'e SlabLocker"

type_synonym SlabConfig = "nat \<Rightarrow> u16"

definition slab_null_locker :: "'e SlabLocker" where
  "slab_null_locker = \<lparr>lk_lock = (\<lambda>e. (0, e)), lk_unlock = (\<lambda>e s. e)\<rparr>"

section \<open>Sizes\<close>

definition header_of :: "hptr \<Rightarrow> hptr" where "header_of p = p - SLAB_HEADER_SIZE"
definition payload_of :: "hptr \<Rightarrow> hptr" where "payload_of h = h + SLAB_HEADER_SIZE"

definition sw_clz32 :: "u32 \<Rightarrow> nat" where
  "sw_clz32 x0 =
     (let (n, x) = (0, x0);
          (n, x) = (if x AND 0xFFFF0000 = 0 then (n + 16, push_bit 16 x) else (n, x));
          (n, x) = (if x AND 0xFF000000 = 0 then (n + 8, push_bit 8 x) else (n, x));
          (n, x) = (if x AND 0xF0000000 = 0 then (n + 4, push_bit 4 x) else (n, x));
          (n, x) = (if x AND 0xC0000000 = 0 then (n + 2, push_bit 2 x) else (n, x))
      in if x AND 0x80000000 = 0 then n + 1 else n)"

definition size_to_bin :: "u64 \<Rightarrow> nat" where
  "size_to_bin payload_size =
     (let total_sz = payload_size + 8 in
      if total_sz \<le> 32 then 0
      else
        let v = (ucast (total_sz - 1) :: u32);
            ceil_log2 = 32 - int (sw_clz32 v);
            bin = ceil_log2 - 5;
            bin = (if bin < 0 then 0 else bin)
        in if bin \<ge> 16 then SLAB_BIN_COUNT else nat bin)"

definition slab_required_bytes :: "SlabConfig \<Rightarrow> nat" where
  "slab_required_bytes cfg =
     fold (\<lambda>i total_sz.
       if cfg i = 0 then total_sz
       else total_sz + unat (cfg i) * 8 + unat (cfg i) * (SLAB_MIN_BLOCK * 2 ^ i + SLAB_HEADER_SIZE))
       [0..<SLAB_BIN_COUNT] 0 + 8"

definition align8 :: "hptr \<Rightarrow> hptr" where "align8 v = (v + 7) div 8 * 8"

section \<open>Initialisation\<close>

definition update_bin :: "nat \<Rightarrow> (SlabBinInfo \<Rightarrow> SlabBinInfo) \<Rightarrow> 'e SlabAllocator \<Rightarrow> 'e SlabAllocator" where
  "update_bin i f a = a\<lparr>bins := (bins a)(i := f (bins a i))\<rparr>"

definition zero_slab :: "'e SlabLocker \<Rightarrow> 'e SlabAllocator" where
  "zero_slab lk = \<lparr>total_bytes_managed = 0, total_bytes_in_use = 0, peak_bytes_in_use = 0,
     alloc_count = 0, free_count = 0, failed_alloc_count = 0,
     bins = (\<lambda>_. \<lparr>block_size = 0, bucket_count = 0, blocks_in_use = 0, peak_in_use = 0,
       int_top = 0, int_stack = 0, int_blocks = 0\<rparr>),
     bitmap = 0, region = 0, region_bytes = 0, locker = lk\<rparr>"

definition carve_stack :: "nat \<Rightarrow> 'e SlabAllocator \<times> hptr \<Rightarrow> 'e SlabAllocator \<times> hptr" where
  "carve_stack i = (\<lambda>(a, cursor).
     if bucket_count (bins a i) = 0 then (a, cursor)
     else (update_bin i (\<lambda>b. b\<lparr>int_stack := cursor\<rparr>) a,
           cursor + unat (bucket_count (bins a i)) * 8))"

definition push_block :: "nat \<Rightarrow> hptr \<Rightarrow> hptr \<Rightarrow> nat \<Rightarrow> nat \<Rightarrow> hmem \<Rightarrow> hmem" where
  "push_block i cursor stack block_total b m =
     (let h = cursor + b * block_total;
          m = st32 m (h + 4) (of_nat i);
          m = st32 m h SLAB_MAGIC_FREED
      in st64 m (stack + 8 * b) (of_nat (payload_of h)))"

definition carve_blocks ::
  "nat \<Rightarrow> 'e SlabAllocator \<times> hmem \<times> hptr \<Rightarrow> 'e SlabAllocator \<times> hmem \<times> hptr" where
  "carve_blocks i = (\<lambda>(a, m, cursor).
     let n = bucket_count (bins a i) in
     if n = 0 then (a, m, cursor)
     else
       let cursor = align8 cursor;
           a = update_bin i (\<lambda>b. b\<lparr>int_blocks := cursor\<rparr>) a;
           block_total = block_size (bins a i) + SLAB_HEADER_SIZE;
           m = fold (push_block i cursor (int_stack (bins a i)) block_total) [0..<unat n] m;
           a = update_bin i (\<lambda>b. b\<lparr>int_top := n\<rparr>) a;
           a = a\<lparr>bitmap := bitmap a OR push_bit i 1,
                 total_bytes_managed := total_bytes_managed a + unat n * block_size (bins a i)\<rparr>
       in (a, m, cursor + unat n * block_total))"

definition slab_init ::
  "'e SlabAllocator \<Rightarrow> hmem \<Rightarrow> hptr \<Rightarrow> nat \<Rightarrow> SlabConfig \<Rightarrow> 'e SlabLocker \<Rightarrow>
   SlabResult \<times> 'e SlabAllocator \<times> hmem" where
  "slab_init a m rgn bytes cfg lk =
     (if rgn = 0 then (SLAB_ERR_INVALID_ARG, a, m)
      else if bytes < slab_required_bytes cfg then (SLAB_ERR_NO_SPACE, a, m)
      else
        let a = (zero_slab lk)\<lparr>region := rgn, region_bytes := bytes,
                  bins := (\<lambda>i. \<lparr>block_size = SLAB_MIN_BLOCK * 2 ^ i, bucket_count = cfg i,
                    blocks_in_use = 0, peak_in_use = 0, int_top = 0, int_stack = 0, int_blocks = 0\<rparr>)\<rparr>;
            (a, cursor) = fold carve_stack [0..<SLAB_BIN_COUNT] (a, rgn);
            (a, m, cursor) = fold carve_blocks [0..<SLAB_BIN_COUNT] (a, m, cursor)
        in if cursor - rgn > bytes then (SLAB_ERR_NO_SPACE, a, m) else (SLAB_OK, a, m))"

text \<open>
  \<open>memset(a, 0, sizeof(*a))\<close>; the first argument stands for the locker with null callbacks
  the zeroed handle holds.
\<close>

definition slab_destroy :: "'e SlabLocker \<Rightarrow> 'e SlabAllocator \<Rightarrow> 'e SlabAllocator" where
  "slab_destroy null_lk a = zero_slab null_lk"

section \<open>Allocation\<close>

definition slab_fail :: "'e SlabAllocator \<Rightarrow> 'e \<Rightarrow> 'e SlabAllocator \<times> 'e" where
  "slab_fail a e =
     (let (saved, e) = lk_lock (locker a) e;
          a = a\<lparr>failed_alloc_count := failed_alloc_count a + 1\<rparr>
      in (a, lk_unlock (locker a) e saved))"

definition slab_alloc ::
  "'e SlabAllocator \<Rightarrow> hmem \<Rightarrow> 'e \<Rightarrow> u64 \<Rightarrow> hptr \<times> 'e SlabAllocator \<times> hmem \<times> 'e" where
  "slab_alloc a m e n =
     (if n = 0 then (0, a, m, e)
      else let bin = size_to_bin n in
      if bin \<ge> SLAB_BIN_COUNT then let (a, e) = slab_fail a e in (0, a, m, e)
      else if bitmap a AND push_bit bin 1 = 0 then let (a, e) = slab_fail a e in (0, a, m, e)
      else
        let (saved, e) = lk_lock (locker a) e;
            a = update_bin bin (\<lambda>b. b\<lparr>int_top := int_top b - 1\<rparr>) a;
            user_ptr = unat (ld64 m (int_stack (bins a bin) + 8 * unat (int_top (bins a bin))));
            a = a\<lparr>bitmap := (if int_top (bins a bin) = 0 then bitmap a AND NOT (push_bit bin 1)
                              else bitmap a)\<rparr>;
            m = st32 m (header_of user_ptr) SLAB_MAGIC_ALLOCATED;
            a = update_bin bin (\<lambda>b. b\<lparr>blocks_in_use := blocks_in_use b + 1\<rparr>) a;
            a = update_bin bin (\<lambda>b. b\<lparr>peak_in_use := (if blocks_in_use b > peak_in_use b
                                     then blocks_in_use b else peak_in_use b)\<rparr>) a;
            a = a\<lparr>total_bytes_in_use := total_bytes_in_use a + block_size (bins a bin)\<rparr>;
            a = a\<lparr>peak_bytes_in_use := (if total_bytes_in_use a > peak_bytes_in_use a
                 then total_bytes_in_use a else peak_bytes_in_use a)\<rparr>;
            a = a\<lparr>alloc_count := alloc_count a + 1\<rparr>
        in (user_ptr, a, m, lk_unlock (locker a) e saved))"

definition slab_free ::
  "'e SlabAllocator \<Rightarrow> hmem \<Rightarrow> 'e \<Rightarrow> hptr \<Rightarrow> SlabResult \<times> 'e SlabAllocator \<times> hmem \<times> 'e" where
  "slab_free a m e p =
     (if p = 0 then (SLAB_OK, a, m, e)
      else let h = header_of p in
      if h < region a \<or> h \<ge> region a + region_bytes a then (SLAB_ERR_FOREIGN_POINTER, a, m, e)
      else if ld32 m h = SLAB_MAGIC_FREED then (SLAB_ERR_DOUBLE_FREE, a, m, e)
      else if ld32 m h \<noteq> SLAB_MAGIC_ALLOCATED then (SLAB_ERR_CORRUPTED, a, m, e)
      else let bin = unat (ld32 m (h + 4)) in
      if bin \<ge> SLAB_BIN_COUNT then (SLAB_ERR_CORRUPTED, a, m, e)
      else
        let (saved, e) = lk_lock (locker a) e in
        if int_top (bins a bin) \<ge> bucket_count (bins a bin)
        then (SLAB_ERR_DOUBLE_FREE, a, m, lk_unlock (locker a) e saved)
        else
          let m = st64 m (int_stack (bins a bin) + 8 * unat (int_top (bins a bin))) (of_nat p);
              a = update_bin bin (\<lambda>b. b\<lparr>int_top := int_top b + 1\<rparr>) a;
              a = a\<lparr>bitmap := bitmap a OR push_bit bin 1\<rparr>;
              m = st32 m h SLAB_MAGIC_FREED;
              a = update_bin bin (\<lambda>b. b\<lparr>blocks_in_use :=
                    (if blocks_in_use b > 0 then blocks_in_use b - 1 else blocks_in_use b)\<rparr>) a;
              a = a\<lparr>total_bytes_in_use := (if total_bytes_in_use a \<ge> block_size (bins a bin)
                    then total_bytes_in_use a - block_size (bins a bin) else 0)\<rparr>;
              a = a\<lparr>free_count := free_count a + 1\<rparr>
          in (SLAB_OK, a, m, lk_unlock (locker a) e saved))"

definition slab_block_size :: "'e SlabAllocator \<Rightarrow> hmem \<Rightarrow> hptr \<Rightarrow> nat" where
  "slab_block_size a m p =
     (if p = 0 then 0
      else let h = header_of p in
      if h < region a \<or> h \<ge> region a + region_bytes a then 0
      else if ld32 m h \<noteq> SLAB_MAGIC_ALLOCATED then 0
      else let bin = unat (ld32 m (h + 4)) in
      if bin \<ge> SLAB_BIN_COUNT then 0 else block_size (bins a bin))"

definition slab_realloc ::
  "'e SlabAllocator \<Rightarrow> hmem \<Rightarrow> 'e \<Rightarrow> hptr \<Rightarrow> u64 \<Rightarrow> hptr \<times> 'e SlabAllocator \<times> hmem \<times> 'e" where
  "slab_realloc a m e p new_size =
     (if p = 0 then slab_alloc a m e new_size
      else if new_size = 0 then let (_, a, m, e) = slab_free a m e p in (0, a, m, e)
      else let old_cap = slab_block_size a m p in
      if old_cap = 0 then (0, a, m, e)
      else if unat new_size \<le> old_cap then (p, a, m, e)
      else let (np, a, m, e) = slab_alloc a m e new_size in
      if np = 0 then (0, a, m, e)
      else let m = memcpy m np p old_cap;
               (_, a, m, e) = slab_free a m e p
           in (np, a, m, e))"

end
