(* ===== verification/Slab_Size.thy ===== *)
theory Slab_Size
  imports Slab
begin

text \<open>
  The bin choice of the slab allocator: the software count-leading-zeros against its
  specification (the builtin the GNU build uses agrees with it except on \<open>0\<close>, where the
  builtin is undefined), \<open>size_to_bin\<close> against ``smallest bin that holds request and header'',
  and the truncation that breaks this for requests near and above \<open>2^32\<close>.
\<close>

lemma and_high_mask: "(x :: u32) AND NOT (mask k) = 0 \<longleftrightarrow> unat x < 2 ^ k" if "k < 32"
proof -
  have "x AND NOT (mask k) = 0 \<longleftrightarrow> take_bit k x = x"
    unfolding bit_eq_iff by (auto simp: bit_simps)
  also have "\<dots> \<longleftrightarrow> unat x < 2 ^ k"
    by (simp add: word_unat_eq_iff unsigned_take_bit_eq take_bit_nat_eq_self_iff)
  finally show ?thesis .
qed

text \<open>Each halving step of the search keeps \<open>x = x0 * 2^n\<close> and doubles the known bits.\<close>

lemma clz_step:
  fixes x :: u32
  assumes "unat x = k * 2 ^ n" and "2 ^ (32 - 2 * s) \<le> unat x" and "0 < s" "s \<le> 16"
    and "(n', x') = (if x AND NOT (mask (32 - s)) = 0 then (n + s, push_bit s x) else (n, x))"
  shows "unat x' = k * 2 ^ n'" and "2 ^ (32 - s) \<le> unat x'"
proof -
  have hi: "x AND NOT (mask (32 - s)) = 0 \<longleftrightarrow> unat x < 2 ^ (32 - s)"
    using and_high_mask assms by simp
  have sp: "(2::nat) ^ (32 - s) * 2 ^ s = 2 ^ 32" "(2::nat) ^ (32 - 2 * s) * 2 ^ s = 2 ^ (32 - s)"
    using assms by (simp_all flip: power_add)
  have sh: "unat (push_bit s x) = unat x * 2 ^ s" if "unat x < 2 ^ (32 - s)"
  proof -
    have "unat x * 2 ^ s < 2 ^ (32 - s) * 2 ^ s" using that by simp
    then have "unat x * 2 ^ s < 2 ^ 32" unfolding sp .
    then show ?thesis by (subst unsigned_push_bit_eq) (simp add: take_bit_nat_eq_self push_bit_eq_mult)
  qed
  show "unat x' = k * 2 ^ n'" using assms(1,5) hi sh by (auto simp: power_add split: if_splits)
  show "2 ^ (32 - s) \<le> unat x'"
    using assms(2,5) hi sh mult_le_mono1 [OF assms(2), of "2 ^ s"] sp by (auto split: if_splits)
qed

lemma sw_clz32_bounds:
  assumes "x \<noteq> 0"
  shows "2 ^ (31 - sw_clz32 x) \<le> unat x \<and> unat x < 2 ^ (32 - sw_clz32 x) \<and> sw_clz32 x \<le> 31"
proof -
  have masks: "(0xFFFF0000 :: u32) = NOT (mask 16)" "(0xFF000000 :: u32) = NOT (mask 24)"
    "(0xF0000000 :: u32) = NOT (mask 28)" "(0xC0000000 :: u32) = NOT (mask 30)"
    "(0x80000000 :: u32) = NOT (mask 31)"
    by (simp_all add: mask_eq_exp_minus_1)
  define st where "st s = (\<lambda>(n, x :: u32). if x AND NOT (mask (32 - s)) = 0 then (n + s, push_bit s x) else (n, x))"
    for s :: nat
  obtain n1 x1 where s1: "st 16 (0, x) = (n1, x1)" by force
  obtain n2 x2 where s2: "st 8 (n1, x1) = (n2, x2)" by force
  obtain n3 x3 where s3: "st 4 (n2, x2) = (n3, x3)" by force
  obtain n4 x4 where s4: "st 2 (n3, x3) = (n4, x4)" by force
  obtain n5 x5 where s5: "st 1 (n4, x4) = (n5, x5)" by force
  note step = clz_step [where k = "unat x"]
  have 1: "unat x1 = unat x * 2 ^ n1" "2 ^ 16 \<le> unat x1"
    using step [of x 0 16 n1 x1] s1 assms by (auto simp: st_def Suc_le_eq unat_gt_0)
  have 2: "unat x2 = unat x * 2 ^ n2" "2 ^ 24 \<le> unat x2"
    using step [of x1 n1 8 n2 x2] s2 1 by (auto simp: st_def)
  have 3: "unat x3 = unat x * 2 ^ n3" "2 ^ 28 \<le> unat x3"
    using step [of x2 n2 4 n3 x3] s3 2 by (auto simp: st_def)
  have 4: "unat x4 = unat x * 2 ^ n4" "2 ^ 30 \<le> unat x4"
    using step [of x3 n3 2 n4 x4] s4 3 by (auto simp: st_def)
  have 5: "unat x5 = unat x * 2 ^ n5" "2 ^ 31 \<le> unat x5"
    using step [of x4 n4 1 n5 x5] s5 4 by (auto simp: st_def simp del: One_nat_def)
  have n5: "sw_clz32 x = n5"
    using s1 s2 s3 s4 s5 unfolding sw_clz32_def masks st_def Let_def by (auto split: if_splits)
  have "n5 \<le> 31"
  proof (rule ccontr)
    assume "\<not> n5 \<le> 31"
    then have "(2::nat) ^ 32 \<le> 2 ^ n5" by (intro power_increasing) auto
    also have "\<dots> \<le> unat x * 2 ^ n5" using assms unat_gt_0 [of x] by (simp add: Suc_le_eq)
    also have "\<dots> < 2 ^ 32" using 5(1) unsigned_less [of x5, where 'a = nat] by simp
    finally show False by simp
  qed
  moreover have "2 ^ (31 - n5) * 2 ^ n5 \<le> unat x * 2 ^ n5" "unat x * 2 ^ n5 < 2 ^ (32 - n5) * 2 ^ n5"
    using 5 calculation unsigned_less [of x5, where 'a = nat] by (simp_all flip: power_add)
  ultimately show ?thesis using n5 by simp
qed

lemma size_to_bin_exact:
  assumes "unat n + 8 < 2 ^ 32"
  shows "if unat n + 8 \<le> 2 ^ 20
         then size_to_bin n < 16 \<and> unat n + 8 \<le> 32 * 2 ^ size_to_bin n \<and>
              (\<forall>j < size_to_bin n. 32 * 2 ^ j < unat n + 8)
         else size_to_bin n = 16"
proof -
  have t: "unat (n + 8) = unat n + 8" using assms by (simp add: unat_word_ariths)
  show ?thesis
  proof (cases "unat n + 8 \<le> 32")
    case True
    then have "size_to_bin n = 0" by (simp add: size_to_bin_def word_le_nat_alt t)
    then show ?thesis using True by simp
  next
    case False
    define v where "v = (ucast (n + 8 - 1) :: u32)"
    have v: "unat v = unat n + 7"
      using assms t by (simp add: v_def unsigned_ucast_eq unat_word_ariths take_bit_nat_eq_self)
    define c where "c = sw_clz32 v"
    have "v \<noteq> 0" using v by auto
    from sw_clz32_bounds [OF this]
    have c: "2 ^ (31 - c) \<le> unat n + 7" "unat n + 7 < 2 ^ (32 - c)" "c \<le> 31" by (simp_all add: c_def v)
    have big: "32 \<le> unat n + 7" using False by simp
    have c26: "c \<le> 26"
    proof (rule ccontr)
      assume "\<not> c \<le> 26"
      then have "(2::nat) ^ (32 - c) \<le> 2 ^ 5" by (intro power_increasing) auto
      with c(2) big show False by simp
    qed
    have bin: "size_to_bin n = (if 27 - c \<ge> 16 then 16 else 27 - c)"
      using False c26 unfolding size_to_bin_def Let_def c_def [unfolded v_def, symmetric]
      by (auto simp: word_le_nat_alt t)
    show ?thesis
    proof (cases "unat n + 8 \<le> 2 ^ 20")
      case True
      have "c \<ge> 12"
      proof (rule ccontr)
        assume "\<not> 12 \<le> c"
        then have "(2::nat) ^ 20 \<le> 2 ^ (31 - c)" by (intro power_increasing) auto
        with c(1) True show False by simp
      qed
      then have b: "size_to_bin n = 27 - c" "27 - c < 16" using bin by auto
      have p: "(32::nat) * 2 ^ k = 2 ^ (5 + k)" for k by (simp add: power_add)
      have "unat n + 8 \<le> 32 * 2 ^ (27 - c)" unfolding p using c(2) c26 by simp
      moreover have "32 * 2 ^ j < unat n + 8" if "j < 27 - c" for j
      proof -
        have "(2::nat) ^ (5 + j) \<le> 2 ^ (31 - c)" using that c26 by (intro power_increasing) auto
        then show ?thesis unfolding p using c(1) by linarith
      qed
      ultimately show ?thesis using True b by simp
    next
      case False
      have "c \<le> 11"
      proof (rule ccontr)
        assume "\<not> c \<le> 11"
        then have "(2::nat) ^ (32 - c) \<le> 2 ^ 20" by (intro power_increasing) auto
        with c(2) False show False by simp
      qed
      then show ?thesis using False bin by simp
    qed
  qed
qed

text \<open>
  C11. The bin choice is right: for a request that fits the biggest bin with its header, the
  bin's block holds request and header, and no smaller bin would; a larger request, up to the
  32-bit limit, is refused.
\<close>

theorem size_to_bin_correct:
  assumes "unat n + 8 < 2 ^ 32"
  shows "if unat n + 8 \<le> 2 ^ 20
         then size_to_bin n < 16 \<and> unat n + 8 \<le> 32 * 2 ^ size_to_bin n \<and>
              (\<forall>j < size_to_bin n. 32 * 2 ^ j < unat n + 8)
         else size_to_bin n = 16"
  by (rule size_to_bin_exact [OF assms])

theorem size_to_bin_correct_witness:
  "unat (100 :: u64) + 8 < 2 ^ 32 \<and> 108 \<le> 32 * (2::nat) ^ size_to_bin 100 \<and> size_to_bin 100 < 16"
  using size_to_bin_correct [of 100] by simp

text \<open>
  What the 64-bit build does with a request of 4 GB and more: the size is truncated to 32
  bits, so a request of \<open>2^32 - 6\<close> bytes, which a 32-bit guest can make, is sent to the 32-byte bin
  instead of being refused, and \<open>slab_alloc\<close> hands out a block of that bin.
\<close>

theorem size_to_bin_truncates:
  "size_to_bin (2 ^ 32 - 6) = 0 \<and> size_to_bin (2 ^ 32) = 0 \<and> size_to_bin (2 ^ 64 - 4) = 0"
  by code_simp

section \<open>The bin of a configured size\<close>

text \<open>
  \<open>slab_bin_for_size\<close>, with which a configuration picks the bins it populates: a scan up the bin
  sizes that stays in the last bin.
\<close>

function bin_scan :: "u64 \<Rightarrow> nat \<Rightarrow> u64 \<Rightarrow> nat" where
  "bin_scan tot bin sz =
     (if sz < tot \<and> bin < SLAB_BIN_COUNT - 1 then bin_scan tot (bin + 1) (push_bit 1 sz) else bin)"
  by pat_completeness auto
termination by (relation "measure (\<lambda>(tot, bin, sz). 16 - bin)") auto

declare bin_scan.simps [simp del]

definition slab_bin_for_size :: "u64 \<Rightarrow> nat" where
  "slab_bin_for_size n = bin_scan (n + 8) 0 32"

lemma bin_scan_least:
  assumes "b \<le> 15" "sz = 32 * 2 ^ b" "unat tot \<le> 2 ^ 20" "\<And>j. j < b \<Longrightarrow> 32 * 2 ^ j < unat tot"
  shows "bin_scan tot b sz < 16 \<and> unat tot \<le> 32 * 2 ^ bin_scan tot b sz \<and>
    (\<forall>j < bin_scan tot b sz. 32 * 2 ^ j < unat tot)"
  using assms
proof (induction tot b sz rule: bin_scan.induct)
  case (1 tot b sz)
  have p: "(2::nat) ^ b \<le> 2 ^ 15" using "1.prems"(1) by (intro power_increasing) auto
  have u: "unat sz = 32 * 2 ^ b"
  proof -
    have "sz = word_of_nat (32 * 2 ^ b)" using "1.prems"(2) by simp
    then show ?thesis using p by (simp only: unat_of_nat) simp
  qed
  show ?case
  proof (cases "sz < tot \<and> b < 15")
    case True
    then have "unat sz < unat tot" by (simp add: word_less_nat_alt)
    then have "j < b + 1 \<Longrightarrow> 32 * 2 ^ j < unat tot" for j
      using "1.prems"(4) u by (cases "j = b") auto
    moreover have "push_bit 1 sz = 32 * 2 ^ (b + 1)" using "1.prems"(2) by (simp add: push_bit_eq_mult)
    ultimately have "bin_scan tot (b + 1) (push_bit 1 sz) < 16 \<and>
        unat tot \<le> 32 * 2 ^ bin_scan tot (b + 1) (push_bit 1 sz) \<and>
        (\<forall>j < bin_scan tot (b + 1) (push_bit 1 sz). 32 * 2 ^ j < unat tot)"
      using "1.IH" True "1.prems"(3) by simp
    then show ?thesis using True by (subst (1 2 3) bin_scan.simps) simp
  next
    case False
    have "unat tot \<le> 32 * 2 ^ b"
    proof (cases "b < 15")
      case True
      then show ?thesis using False u by (simp add: not_less word_le_nat_alt)
    next
      case False
      then have "b = 15" using "1.prems"(1) by simp
      then show ?thesis using "1.prems"(3) by simp
    qed
    then show ?thesis using False "1.prems"(1,4) by (subst (1 2 3) bin_scan.simps) auto
  qed
qed

lemma least_power_unique:
  assumes "n \<le> 32 * 2 ^ i" "\<And>j. j < i \<Longrightarrow> 32 * 2 ^ j < n"
    and "n \<le> 32 * (2::nat) ^ k" "\<And>j. j < k \<Longrightarrow> 32 * 2 ^ j < n"
  shows "i = k"
proof (rule linorder_cases [of i k])
  assume "i < k" then show ?thesis using assms(1) assms(4) [of i] by simp
next
  assume "k < i" then show ?thesis using assms(3) assms(2) [of k] by simp
qed

text \<open>A configuration that names a size this way populates the bin a request of that size goes to.\<close>

lemma slab_bin_for_size_exact:
  assumes "unat n + 8 \<le> 2 ^ 20"
  shows "slab_bin_for_size n = size_to_bin n"
proof -
  have t: "unat (n + 8) = unat n + 8" using assms by (simp add: unat_word_ariths)
  have s: "bin_scan (n + 8) 0 32 < 16 \<and> unat n + 8 \<le> 32 * 2 ^ bin_scan (n + 8) 0 32 \<and>
      (\<forall>j < bin_scan (n + 8) 0 32. 32 * 2 ^ j < unat n + 8)"
    using bin_scan_least [of 0 32 "n + 8"] assms unfolding t by simp
  have z: "size_to_bin n < 16 \<and> unat n + 8 \<le> 32 * 2 ^ size_to_bin n \<and>
      (\<forall>j < size_to_bin n. 32 * 2 ^ j < unat n + 8)"
    using size_to_bin_exact [of n] assms by simp
  show ?thesis unfolding slab_bin_for_size_def
    by (rule least_power_unique [of "unat n + 8"]) (use s z in auto)
qed

end
