(* ===== verification/Slab_Inv.thy ===== *)
theory Slab_Inv
  imports Slab_Size
begin

text \<open>
  The slab allocator's invariant and what every operation does to it. \<open>slab_layout\<close> is the
  geometry \<open>slab_init\<close> carves (stack arrays and block storage of the sixteen bins, pairwise
  disjoint inside the region); \<open>bin_ok\<close> ties a bin's free stack, its headers in memory and its
  counters together. Over the invariant the allocator is a set of live blocks:
  \<open>slab_alloc\<close> adds one that was not live, \<open>slab_free\<close> removes exactly its argument, a second
  free is rejected, and no operation writes a byte of a live block's payload.
\<close>

section \<open>Geometry\<close>

definition bcount :: "'e SlabAllocator \<Rightarrow> nat \<Rightarrow> nat" where "bcount a i = unat (bucket_count (bins a i))"
definition btop :: "'e SlabAllocator \<Rightarrow> nat \<Rightarrow> nat" where "btop a i = unat (int_top (bins a i))"
definition payload :: "nat \<Rightarrow> nat" where "payload i = 32 * 2 ^ i"
definition btotal :: "nat \<Rightarrow> nat" where "btotal i = payload i + 8"
definition slot_at :: "'e SlabAllocator \<Rightarrow> nat \<Rightarrow> nat \<Rightarrow> hptr" where
  "slot_at a i k = int_stack (bins a i) + 8 * k"
definition block_at :: "'e SlabAllocator \<Rightarrow> nat \<Rightarrow> nat \<Rightarrow> hptr" where
  "block_at a i b = int_blocks (bins a i) + b * btotal i"
definition user_at :: "'e SlabAllocator \<Rightarrow> nat \<Rightarrow> nat \<Rightarrow> hptr" where
  "user_at a i b = block_at a i b + 8"

lemmas geometry = bcount_def btop_def slot_at_def block_at_def user_at_def

definition slab_layout :: "'e SlabAllocator \<Rightarrow> bool" where
  "slab_layout a \<longleftrightarrow>
     0 < region a \<and> region a + region_bytes a < 2 ^ 64 \<and>
     (\<forall>i<16. block_size (bins a i) = payload i) \<and>
     (\<forall>i<16. bcount a i \<noteq> 0 \<longrightarrow>
        region a \<le> int_blocks (bins a i) \<and>
        int_blocks (bins a i) + bcount a i * btotal i \<le> region a + region_bytes a) \<and>
     (\<forall>i<16. bcount a i \<noteq> 0 \<longrightarrow>
        region a \<le> int_stack (bins a i) \<and> int_stack (bins a i) + 8 * bcount a i \<le> region a + region_bytes a) \<and>
     (\<forall>i<16. \<forall>j<16. i \<noteq> j \<longrightarrow>
        apart (int_stack (bins a i)) (8 * bcount a i) (int_stack (bins a j)) (8 * bcount a j) \<and>
        apart (int_blocks (bins a i)) (bcount a i * btotal i) (int_blocks (bins a j)) (bcount a j * btotal j)) \<and>
     (\<forall>i<16. \<forall>j<16.
        apart (int_stack (bins a i)) (8 * bcount a i) (int_blocks (bins a j)) (bcount a j * btotal j))"

lemma apart_sub:
  "apart p n q k \<Longrightarrow> p \<le> p' \<Longrightarrow> p' + n' \<le> p + n \<Longrightarrow> q \<le> q' \<Longrightarrow> q' + k' \<le> q + k \<Longrightarrow> apart p' n' q' k'"
  by (auto simp: apart_def)

lemma mult_add_le: "(b :: nat) < c \<Longrightarrow> b * t + t \<le> c * t"
  by (metis Suc_leI mult.commute mult_Suc_right mult_le_mono1 add.commute)

lemma strided_apart: "(b :: nat) \<noteq> d \<Longrightarrow> apart (x + b * t) t (x + d * t) t"
  using mult_add_le [of b d t] mult_add_le [of d b t] by (auto simp: apart_def nat_neq_iff)

lemma block_apart:
  assumes "slab_layout a" "i < 16" "j < 16" "b < bcount a i" "d < bcount a j" "(i, b) \<noteq> (j, d)"
  shows "apart (block_at a i b) (btotal i) (block_at a j d) (btotal j)"
proof (cases "i = j")
  case True
  then show ?thesis using assms(6) strided_apart by (simp add: block_at_def)
next
  case False
  then have "apart (int_blocks (bins a i)) (bcount a i * btotal i) (int_blocks (bins a j)) (bcount a j * btotal j)"
    using assms(1-3) by (simp add: slab_layout_def)
  then show ?thesis
    by (rule apart_sub) (use mult_add_le [OF assms(4), of "btotal i"] mult_add_le [OF assms(5), of "btotal j"]
      in \<open>simp_all add: block_at_def\<close>)
qed

lemma slot_block_apart:
  assumes "slab_layout a" "i < 16" "j < 16" "k < bcount a i" "d < bcount a j"
  shows "apart (slot_at a i k) 8 (block_at a j d) (btotal j)"
proof -
  have "apart (int_stack (bins a i)) (8 * bcount a i) (int_blocks (bins a j)) (bcount a j * btotal j)"
    using assms(1-3) by (simp add: slab_layout_def)
  then show ?thesis
    by (rule apart_sub) (use mult_add_le [OF assms(5), of "btotal j"] assms(4)
      in \<open>simp_all add: block_at_def slot_at_def\<close>)
qed

lemma slot_apart:
  assumes "slab_layout a" "i < 16" "j < 16" "k < bcount a i" "l < bcount a j" "(i, k) \<noteq> (j, l)"
  shows "apart (slot_at a i k) 8 (slot_at a j l) 8"
proof (cases "i = j")
  case True
  then show ?thesis using assms(6) by (auto simp: slot_at_def apart_def)
next
  case False
  then have "apart (int_stack (bins a i)) (8 * bcount a i) (int_stack (bins a j)) (8 * bcount a j)"
    using assms(1-3) by (simp add: slab_layout_def)
  then show ?thesis by (rule apart_sub) (use assms(4,5) in \<open>simp_all add: slot_at_def\<close>)
qed

lemma btotal_ge: "40 \<le> btotal i" by (simp add: btotal_def payload_def)

lemma block_bounds:
  assumes "slab_layout a" "i < 16" "b < bcount a i"
  shows "region a \<le> block_at a i b" "block_at a i b + btotal i \<le> region a + region_bytes a"
    "block_at a i b < 2 ^ 64" "0 < block_at a i b" "user_at a i b < 2 ^ 64"
proof -
  have "region a \<le> int_blocks (bins a i)"
    "int_blocks (bins a i) + bcount a i * btotal i \<le> region a + region_bytes a"
    "region a + region_bytes a < 2 ^ 64" "0 < region a"
    using assms by (auto simp: slab_layout_def)
  then show "region a \<le> block_at a i b" "block_at a i b + btotal i \<le> region a + region_bytes a"
    "block_at a i b < 2 ^ 64" "0 < block_at a i b" "user_at a i b < 2 ^ 64"
    using mult_add_le [OF assms(3), of "btotal i"] btotal_ge [of i] by (auto simp: block_at_def user_at_def)
qed

lemma slot_bounds:
  assumes "slab_layout a" "i < 16" "k < bcount a i"
  shows "region a \<le> slot_at a i k" "slot_at a i k + 8 \<le> region a + region_bytes a"
  using assms by (auto simp: slab_layout_def slot_at_def)

lemma user_at_inject:
  assumes "slab_layout a" "i < 16" "j < 16" "b < bcount a i" "d < bcount a j"
  shows "user_at a i b = user_at a j d \<longleftrightarrow> i = j \<and> b = d"
  using block_apart [OF assms] btotal_ge [of i] btotal_ge [of j]
  by (cases "(i, b) = (j, d)") (auto simp: user_at_def apart_def)

section \<open>The invariant\<close>

definition free_list :: "'e SlabAllocator \<Rightarrow> hmem \<Rightarrow> nat \<Rightarrow> hptr list" where
  "free_list a m i = map (\<lambda>k. unat (ld64 m (slot_at a i k))) [0..<btop a i]"

definition bin_ok :: "'e SlabAllocator \<Rightarrow> hmem \<Rightarrow> nat \<Rightarrow> bool" where
  "bin_ok a m i \<longleftrightarrow>
     btop a i \<le> bcount a i \<and> distinct (free_list a m i) \<and>
     set (free_list a m i) \<subseteq> user_at a i ` {..<bcount a i} \<and>
     (\<forall>b<bcount a i. ld32 m (block_at a i b + 4) = of_nat i \<and>
        ld32 m (block_at a i b) =
          (if user_at a i b \<in> set (free_list a m i) then SLAB_MAGIC_FREED else SLAB_MAGIC_ALLOCATED)) \<and>
     (bit (bitmap a) i \<longleftrightarrow> btop a i \<noteq> 0) \<and>
     unat (blocks_in_use (bins a i)) + btop a i = bcount a i"

definition slab_inv :: "'e SlabAllocator \<Rightarrow> hmem \<Rightarrow> bool" where
  "slab_inv a m \<longleftrightarrow> slab_layout a \<and> (\<forall>i<16. bin_ok a m i) \<and>
     total_bytes_in_use a = (\<Sum>i<16. unat (blocks_in_use (bins a i)) * payload i)"

definition slab_live :: "'e SlabAllocator \<Rightarrow> hmem \<Rightarrow> hptr set" where
  "slab_live a m = {user_at a i b | i b. i < 16 \<and> b < bcount a i \<and> user_at a i b \<notin> set (free_list a m i)}"

text \<open>A bin whose descriptor and memory an operation leaves alone stays correct.\<close>

lemma free_list_frame:
  assumes "bins a' i = bins a i" "btop a i \<le> bcount a i"
    and "\<And>k. k < bcount a i \<Longrightarrow> ld64 m' (slot_at a i k) = ld64 m (slot_at a i k)"
  shows "free_list a' m' i = free_list a m i"
  using assms by (auto simp: free_list_def geometry)

lemma bin_ok_frame:
  assumes "bin_ok a m i" and "bins a' i = bins a i" "bit (bitmap a') i = bit (bitmap a) i"
    and "\<And>k. k < bcount a i \<Longrightarrow> ld64 m' (slot_at a i k) = ld64 m (slot_at a i k)"
    and "\<And>b. b < bcount a i \<Longrightarrow> ld32 m' (block_at a i b) = ld32 m (block_at a i b)"
    and "\<And>b. b < bcount a i \<Longrightarrow> ld32 m' (block_at a i b + 4) = ld32 m (block_at a i b + 4)"
  shows "bin_ok a' m' i"
proof -
  have "free_list a' m' i = free_list a m i" using assms by (intro free_list_frame) (auto simp: bin_ok_def)
  moreover have "bcount a' i = bcount a i" "btop a' i = btop a i"
    "\<And>b. user_at a' i b = user_at a i b" "\<And>b. block_at a' i b = block_at a i b"
    using assms(2) by (simp_all add: geometry)
  ultimately show ?thesis using assms by (simp add: bin_ok_def)
qed

lemma slab_layout_cong:
  assumes "region a' = region a" "region_bytes a' = region_bytes a"
    and "\<And>i. block_size (bins a' i) = block_size (bins a i)" "\<And>i. bucket_count (bins a' i) = bucket_count (bins a i)"
    and "\<And>i. int_stack (bins a' i) = int_stack (bins a i)" "\<And>i. int_blocks (bins a' i) = int_blocks (bins a i)"
  shows "slab_layout a' = slab_layout a"
  using assms by (simp add: slab_layout_def bcount_def)

section \<open>Allocation and release\<close>

lemma bit_test: "(w :: u32) AND push_bit i 1 = 0 \<longleftrightarrow> \<not> bit w i"
  by (simp add: and_exp_eq_0_iff_not_bit push_bit_of_1)

lemma bit_set_clear:
  "i < 32 \<Longrightarrow> bit ((w :: u32) OR push_bit i 1) j \<longleftrightarrow> j = i \<or> bit w j"
  "i < 32 \<Longrightarrow> bit ((w :: u32) AND NOT (push_bit i 1)) j \<longleftrightarrow> j \<noteq> i \<and> bit w j"
  by (auto simp: bit_simps dest: bit_imp_le_length)

lemma free_list_Suc:
  "btop a i = Suc k \<Longrightarrow> free_list a m i =
     map (\<lambda>k. unat (ld64 m (slot_at a i k))) [0..<k] @ [unat (ld64 m (slot_at a i k))]"
  by (simp add: free_list_def)

lemma slab_inv_bin: "slab_inv a m \<Longrightarrow> i < 16 \<Longrightarrow> bin_ok a m i"
  and slab_inv_layout: "slab_inv a m \<Longrightarrow> slab_layout a"
  by (simp_all add: slab_inv_def)

lemma update_bin_simps [simp]:
  "bins (update_bin i f a) j = (if j = i then f (bins a i) else bins a j)"
  "bitmap (update_bin i f a) = bitmap a" "region (update_bin i f a) = region a"
  "region_bytes (update_bin i f a) = region_bytes a" "locker (update_bin i f a) = locker a"
  "total_bytes_in_use (update_bin i f a) = total_bytes_in_use a"
  "peak_bytes_in_use (update_bin i f a) = peak_bytes_in_use a"
  "alloc_count (update_bin i f a) = alloc_count a" "free_count (update_bin i f a) = free_count a"
  "failed_alloc_count (update_bin i f a) = failed_alloc_count a"
  "total_bytes_managed (update_bin i f a) = total_bytes_managed a"
  by (simp_all add: update_bin_def)

lemma header_user: "header_of (user_at a i b) = block_at a i b"
  by (simp add: header_of_def user_at_def)

lemma slab_alloc_result:
  assumes inv: "slab_inv a m" and n: "n \<noteq> 0" and bin: "size_to_bin n = i" "i < 16" and top: "btop a i = Suc k"
  obtains b a' where "slab_alloc a m e n =
        (user_at a i b, a', st32 m (block_at a i b) SLAB_MAGIC_ALLOCATED,
         lk_unlock (locker a) (snd (lk_lock (locker a) e)) (fst (lk_lock (locker a) e)))"
    and "b < bcount a i" and "user_at a i b = unat (ld64 m (slot_at a i k))"
    and "region a' = region a" "region_bytes a' = region_bytes a"
    and "\<And>j. j \<noteq> i \<Longrightarrow> bins a' j = bins a j"
    and "block_size (bins a' i) = block_size (bins a i)" "bucket_count (bins a' i) = bucket_count (bins a i)"
    and "int_stack (bins a' i) = int_stack (bins a i)" "int_blocks (bins a' i) = int_blocks (bins a i)"
    and "btop a' i = k" "unat (blocks_in_use (bins a' i)) = unat (blocks_in_use (bins a i)) + 1"
    and "\<And>j. bit (bitmap a') j \<longleftrightarrow> (if j = i then k \<noteq> 0 else bit (bitmap a) j)"
    and "total_bytes_in_use a' = total_bytes_in_use a + payload i"
proof -
  note ok = slab_inv_bin [OF inv bin(2)]
  have "unat (ld64 m (slot_at a i k)) \<in> set (free_list a m i)" by (simp add: free_list_Suc [OF top])
  then obtain b where b: "b < bcount a i" "unat (ld64 m (slot_at a i k)) = user_at a i b"
    using ok by (auto simp: bin_ok_def)
  have set: "bit (bitmap a) i" using ok top by (simp add: bin_ok_def)
  have dec: "unat (int_top (bins a i) - 1) = k"
    using top unat_plus_one [of "int_top (bins a i) - 1" "int_top (bins a i)"]
    by (simp add: btop_def unat_sub word_le_nat_alt)
  have inc: "unat (blocks_in_use (bins a i) + 1) = unat (blocks_in_use (bins a i)) + 1"
  proof -
    have "unat (blocks_in_use (bins a i)) < bcount a i" using ok top by (simp add: bin_ok_def)
    then show ?thesis using unat_plus_one [of "blocks_in_use (bins a i)" "bucket_count (bins a i)"]
      by (simp add: bcount_def word_less_nat_alt)
  qed
  have size: "block_size (bins a i) = payload i" using inv bin(2) by (simp add: slab_inv_def slab_layout_def)
  have z: "int_top (bins a i) - 1 = 0 \<longleftrightarrow> k = 0" using dec by (metis unat_0 unat_eq_zero)
  have slot: "int_stack (bins a i) + 8 * k = slot_at a i k" by (simp add: slot_at_def)
  define a' where "a' = fst (snd (slab_alloc a m e n))"
  have bit: "\<not> (bitmap a AND push_bit i 1 = 0)" using set bit_test by blast
  show thesis
  proof (rule that [of b a'])
    show "slab_alloc a m e n =
        (user_at a i b, a', st32 m (block_at a i b) SLAB_MAGIC_ALLOCATED,
         lk_unlock (locker a) (snd (lk_lock (locker a) e)) (fst (lk_lock (locker a) e)))"
      using n bin bit by (simp add: a'_def slab_alloc_def Let_def split_def dec slot b(2) header_user)
    show "btop a' i = k" "unat (blocks_in_use (bins a' i)) = unat (blocks_in_use (bins a i)) + 1"
      using n bin bit by (simp_all add: a'_def slab_alloc_def Let_def split_def btop_def dec inc)
    show "bit (bitmap a') j \<longleftrightarrow> (if j = i then k \<noteq> 0 else bit (bitmap a) j)" for j
      using n bin bit set z by (simp add: a'_def slab_alloc_def Let_def split_def bit_set_clear bit_set_clear [simplified])
    show "total_bytes_in_use a' = total_bytes_in_use a + payload i"
      using n bin bit by (simp add: a'_def slab_alloc_def Let_def split_def size)
  qed (use n bin bit b in \<open>simp_all add: a'_def slab_alloc_def Let_def split_def\<close>)
qed

text \<open>A write to one block's header or to one unused stack slot, seen from the other places.\<close>

lemma header_write:
  assumes lay: "slab_layout a" and i: "i < 16" "b < bcount a i" and j: "j < 16"
  shows "k < bcount a j \<Longrightarrow> ld64 (st32 m (block_at a i b) v) (slot_at a j k) = ld64 m (slot_at a j k)"
    and "d < bcount a j \<Longrightarrow> ld32 (st32 m (block_at a i b) v) (block_at a j d) =
           (if (j, d) = (i, b) then v else ld32 m (block_at a j d))"
    and "d < bcount a j \<Longrightarrow> ld32 (st32 m (block_at a i b) v) (block_at a j d + 4) = ld32 m (block_at a j d + 4)"
proof -
  have t: "40 \<le> btotal i" "40 \<le> btotal j" by (rule btotal_ge)+
  {
    assume k: "k < bcount a j"
    have "apart (block_at a i b) 4 (slot_at a j k) 8"
      unfolding apart_sym [of "block_at a i b"]
      by (rule apart_sub [OF slot_block_apart [OF lay j i(1) k i(2)]]) (use t in simp_all)
    then show "ld64 (st32 m (block_at a i b) v) (slot_at a j k) = ld64 m (slot_at a j k)" by simp
  }
  assume d: "d < bcount a j"
  have other: "apart (block_at a i b) 4 (block_at a j d) 40" if "(j, d) \<noteq> (i, b)"
    by (rule apart_sub [OF block_apart [OF lay i(1) j i(2) d]]) (use t that in auto)
  then have "apart (block_at a i b) 4 (block_at a j d) 4" if "(j, d) \<noteq> (i, b)"
    using that by (auto simp: apart_def)
  then show "ld32 (st32 m (block_at a i b) v) (block_at a j d) =
      (if (j, d) = (i, b) then v else ld32 m (block_at a j d))"
    by (auto simp: take_bit_word_eq_self)
  have "apart (block_at a i b) 4 (block_at a j d + 4) 4"
    using other by (cases "(j, d) = (i, b)") (auto simp: apart_def)
  then show "ld32 (st32 m (block_at a i b) v) (block_at a j d + 4) = ld32 m (block_at a j d + 4)" by simp
qed

lemma slot_write:
  assumes lay: "slab_layout a" and i: "i < 16" "l < bcount a i" and j: "j < 16"
  shows "k < bcount a j \<Longrightarrow> ld64 (st64 m (slot_at a i l) v) (slot_at a j k) =
           (if (j, k) = (i, l) then v else ld64 m (slot_at a j k))"
    and "d < bcount a j \<Longrightarrow> ld32 (st64 m (slot_at a i l) v) (block_at a j d) = ld32 m (block_at a j d)"
    and "d < bcount a j \<Longrightarrow> ld32 (st64 m (slot_at a i l) v) (block_at a j d + 4) = ld32 m (block_at a j d + 4)"
proof -
  show "ld64 (st64 m (slot_at a i l) v) (slot_at a j k) =
      (if (j, k) = (i, l) then v else ld64 m (slot_at a j k))" if "k < bcount a j"
    using slot_apart [OF lay i(1) j i(2) that] by (auto simp: take_bit_word_eq_self)
  assume d: "d < bcount a j"
  have "apart (slot_at a i l) 8 (block_at a j d) (btotal j)" by (rule slot_block_apart [OF lay i(1) j i(2) d])
  then have "apart (slot_at a i l) 8 (block_at a j d) 4" "apart (slot_at a i l) 8 (block_at a j d + 4) 4"
    using btotal_ge [of j] by (auto simp: apart_def)
  then show "ld32 (st64 m (slot_at a i l) v) (block_at a j d) = ld32 m (block_at a j d)"
    "ld32 (st64 m (slot_at a i l) v) (block_at a j d + 4) = ld32 m (block_at a j d + 4)" by simp_all
qed

lemma sum_one_change:
  fixes f g :: "nat \<Rightarrow> nat"
  assumes "i < 16" and "\<And>j. j \<noteq> i \<Longrightarrow> g j = f j"
  shows "(\<Sum>j<16. g j) + f i = (\<Sum>j<16. f j) + g i"
proof -
  have "(\<Sum>j<16. g j) = g i + (\<Sum>j\<in>{..<16} - {i}. g j)" "(\<Sum>j<16. f j) = f i + (\<Sum>j\<in>{..<16} - {i}. f j)"
    using assms(1) by (simp_all add: sum.remove)
  moreover have "(\<Sum>j\<in>{..<16} - {i}. g j) = (\<Sum>j\<in>{..<16} - {i}. f j)"
    using assms(2) by (intro sum.cong) auto
  ultimately show ?thesis by simp
qed

lemma slab_alloc_live:
  assumes inv: "slab_inv a m" and n: "n \<noteq> 0" and bin: "size_to_bin n = i" "i < 16" and top: "btop a i = Suc k"
  obtains b a' m' e' where "slab_alloc a m e n = (user_at a i b, a', m', e')"
    and "b < bcount a i" and "m' = st32 m (block_at a i b) SLAB_MAGIC_ALLOCATED"
    and "user_at a i b \<notin> slab_live a m" and "slab_inv a' m'"
    and "slab_live a' m' = insert (user_at a i b) (slab_live a m)"
    and "slab_block_size a' m' (user_at a i b) = payload i"
proof -
  obtain b a' where al: "slab_alloc a m e n =
        (user_at a i b, a', st32 m (block_at a i b) SLAB_MAGIC_ALLOCATED,
         lk_unlock (locker a) (snd (lk_lock (locker a) e)) (fst (lk_lock (locker a) e)))"
    and b: "b < bcount a i" and entry: "user_at a i b = unat (ld64 m (slot_at a i k))"
    and reg: "region a' = region a" "region_bytes a' = region_bytes a"
    and other: "\<And>j. j \<noteq> i \<Longrightarrow> bins a' j = bins a j"
    and same: "block_size (bins a' i) = block_size (bins a i)" "bucket_count (bins a' i) = bucket_count (bins a i)"
      "int_stack (bins a' i) = int_stack (bins a i)" "int_blocks (bins a' i) = int_blocks (bins a i)"
    and top': "btop a' i = k" and use': "unat (blocks_in_use (bins a' i)) = unat (blocks_in_use (bins a i)) + 1"
    and map': "\<And>j. bit (bitmap a') j \<longleftrightarrow> (if j = i then k \<noteq> 0 else bit (bitmap a) j)"
    and bytes: "total_bytes_in_use a' = total_bytes_in_use a + payload i"
    using slab_alloc_result [OF assms] by blast
  define m' where "m' = st32 m (block_at a i b) SLAB_MAGIC_ALLOCATED"
  have lay: "slab_layout a" by (rule slab_inv_layout [OF inv])
  note ok = slab_inv_bin [OF inv bin(2)]
  note hw = header_write [OF lay bin(2) b, of _ _ m SLAB_MAGIC_ALLOCATED, folded m'_def]
  have geo: "bcount a' j = bcount a j" "slot_at a' j = slot_at a j" "block_at a' j = block_at a j"
    "user_at a' j = user_at a j" for j
    using other [of j] same by (cases "j = i"; auto simp: geometry fun_eq_iff)+
  have lay': "slab_layout a'"
    using lay slab_layout_cong [of a' a] reg other same by (metis (no_types))
  have fl: "free_list a m i = free_list a' m' i @ [user_at a i b]"
  proof -
    have "free_list a' m' i = map (\<lambda>k. unat (ld64 m (slot_at a i k))) [0..<k]"
      using hw(1) [OF bin(2)] ok top by (auto simp: free_list_def top' geo bin_ok_def)
    then show ?thesis by (simp add: free_list_Suc [OF top] entry)
  qed
  have flj: "free_list a' m' j = free_list a m j" if "j < 16" "j \<noteq> i" for j
    using that slab_inv_bin [OF inv] hw(1) [of j] by (intro free_list_frame other) (auto simp: bin_ok_def)
  have new: "user_at a i b \<notin> set (free_list a' m' i)" and dist: "distinct (free_list a' m' i)"
    using ok fl by (auto simp: bin_ok_def)
  have inj: "user_at a i d = user_at a i b \<longleftrightarrow> d = b" if "d < bcount a i" for d
    using user_at_inject [OF lay bin(2) bin(2) that b] by simp
  have "bin_ok a' m' j" if j: "j < 16" for j
  proof (cases "j = i")
    case False
    then show ?thesis using slab_inv_bin [OF inv j] other map' hw [OF j]
      by (intro bin_ok_frame [of a m j a' m']) auto
  next
    case True
    have "ld32 m' (block_at a i d) = (if user_at a i d \<in> set (free_list a' m' i)
        then SLAB_MAGIC_FREED else SLAB_MAGIC_ALLOCATED)" if "d < bcount a i" for d
      using ok that hw(2) [OF bin(2) that] new inj [OF that] fl by (auto simp: bin_ok_def)
    moreover have "ld32 m' (block_at a i d + 4) = of_nat i" if "d < bcount a i" for d
      using ok that hw(3) [OF bin(2) that] by (simp add: bin_ok_def)
    ultimately show ?thesis using True ok dist fl top top' use' map'
      by (auto simp: bin_ok_def geo)
  qed
  moreover have "total_bytes_in_use a' = (\<Sum>j<16. unat (blocks_in_use (bins a' j)) * payload j)"
    using sum_one_change [OF bin(2), of "\<lambda>j. unat (blocks_in_use (bins a' j)) * payload j"
        "\<lambda>j. unat (blocks_in_use (bins a j)) * payload j"] other use' bytes inv
    by (simp add: slab_inv_def algebra_simps)
  ultimately have inv': "slab_inv a' m'" using lay' by (simp add: slab_inv_def)
  have notlive: "user_at a i b \<notin> slab_live a m"
    using user_at_inject [OF lay] bin(2) b fl by (fastforce simp: slab_live_def)
  have live: "slab_live a' m' = insert (user_at a i b) (slab_live a m)"
  proof (rule set_eqI)
    fix p
    show "p \<in> slab_live a' m' \<longleftrightarrow> p \<in> insert (user_at a i b) (slab_live a m)"
      unfolding slab_live_def geo using flj fl new bin(2) b by (fastforce)
  qed
  have hdr: "ld32 m' (block_at a i b) = SLAB_MAGIC_ALLOCATED" "ld32 m' (block_at a i b + 4) = of_nat i"
    using hw(2,3) [OF bin(2) b] ok b by (auto simp: bin_ok_def)
  have "unat (of_nat i :: u32) = i" using bin(2) by (simp add: unat_of_nat)
  then have "slab_block_size a' m' (user_at a i b) = payload i"
    using hdr block_bounds [OF lay bin(2) b] bin(2) lay reg same btotal_ge [of i]
    by (simp add: slab_block_size_def header_user Let_def slab_layout_def) (simp add: user_at_def)
  then show thesis using that al b m'_def notlive inv' live by blast
qed

lemma live_has_room:
  assumes inv: "slab_inv a m" and i: "i < 16" "b < bcount a i" and "user_at a i b \<notin> set (free_list a m i)"
  shows "btop a i < bcount a i"
proof -
  note ok = slab_inv_bin [OF inv i(1)]
  have "btop a i = card (set (free_list a m i))"
    using ok by (simp add: bin_ok_def distinct_card) (simp add: free_list_def)
  also have "\<dots> \<le> card (user_at a i ` {..<bcount a i} - {user_at a i b})"
    using ok assms(4) by (intro card_mono) (auto simp: bin_ok_def)
  also have "\<dots> < card (user_at a i ` {..<bcount a i})" using i(2) by (intro psubset_card_mono) auto
  also have "\<dots> \<le> bcount a i" using card_image_le [of "{..<bcount a i}" "user_at a i"] by simp
  finally show ?thesis .
qed

lemma slab_free_result:
  assumes inv: "slab_inv a m" and i: "i < 16" "b < bcount a i" and live: "user_at a i b \<notin> set (free_list a m i)"
  obtains a' where "slab_free a m e (user_at a i b) =
        (SLAB_OK, a', st32 (st64 m (slot_at a i (btop a i)) (of_nat (user_at a i b))) (block_at a i b) SLAB_MAGIC_FREED,
         lk_unlock (locker a) (snd (lk_lock (locker a) e)) (fst (lk_lock (locker a) e)))"
    and "region a' = region a" "region_bytes a' = region_bytes a"
    and "\<And>j. j \<noteq> i \<Longrightarrow> bins a' j = bins a j"
    and "block_size (bins a' i) = block_size (bins a i)" "bucket_count (bins a' i) = bucket_count (bins a i)"
    and "int_stack (bins a' i) = int_stack (bins a i)" "int_blocks (bins a' i) = int_blocks (bins a i)"
    and "btop a' i = Suc (btop a i)" "unat (blocks_in_use (bins a i)) = unat (blocks_in_use (bins a' i)) + 1"
    and "\<And>j. bit (bitmap a') j \<longleftrightarrow> (if j = i then True else bit (bitmap a) j)"
    and "total_bytes_in_use a = total_bytes_in_use a' + payload i"
proof -
  have lay: "slab_layout a" by (rule slab_inv_layout [OF inv])
  note ok = slab_inv_bin [OF inv i(1)]
  have room: "btop a i < bcount a i" by (rule live_has_room [OF assms])
  have hdr: "ld32 m (block_at a i b) = SLAB_MAGIC_ALLOCATED" "ld32 m (block_at a i b + 4) = of_nat i"
    using ok i(2) live by (auto simp: bin_ok_def)
  have ni: "unat (of_nat i :: u32) = i" using i(1) by (simp add: unat_of_nat)
  note bnd = block_bounds [OF lay i]
  have inreg: "\<not> block_at a i b < region a" "\<not> block_at a i b \<ge> region a + region_bytes a"
    using bnd(1,2) btotal_ge [of i] by auto
  have nz: "user_at a i b \<noteq> 0" by (simp add: user_at_def)
  have full: "\<not> bucket_count (bins a i) \<le> int_top (bins a i)"
    using room by (simp add: word_le_nat_alt bcount_def btop_def)
  have used: "0 < unat (blocks_in_use (bins a i))" using ok room by (simp add: bin_ok_def)
  have size: "block_size (bins a i) = payload i" using lay i(1) by (simp add: slab_layout_def)
  have "unat (blocks_in_use (bins a i)) * payload i \<le> (\<Sum>j<16. unat (blocks_in_use (bins a j)) * payload j)"
    using i(1) by (intro member_le_sum) auto
  then have tot: "payload i \<le> total_bytes_in_use a"
    using used inv by (simp add: slab_inv_def) (metis Suc_leI le_trans mult.left_neutral mult_le_mono1 One_nat_def)
  have inc: "unat (int_top (bins a i) + 1) = Suc (btop a i)"
    using unat_plus_one [of "int_top (bins a i)" "bucket_count (bins a i)"] full by (simp add: btop_def)
  have dec: "unat (blocks_in_use (bins a i)) = unat (blocks_in_use (bins a i) - 1) + 1"
    using used by (simp add: unat_sub word_le_nat_alt)
  have used': "0 < blocks_in_use (bins a i)" using used by (simp add: word_less_nat_alt)
  have slot: "int_stack (bins a i) + 8 * unat (int_top (bins a i)) = slot_at a i (btop a i)"
    by (simp add: slot_at_def btop_def)
  have hu: "header_of (user_at a i b) = block_at a i b" by (rule header_user)
  note facts = nz hu inreg hdr ni i(1) full
  define a' where "a' = fst (snd (slab_free a m e (user_at a i b)))"
  show thesis
  proof (rule that [of a'])
    show "slab_free a m e (user_at a i b) =
        (SLAB_OK, a', st32 (st64 m (slot_at a i (btop a i)) (of_nat (user_at a i b))) (block_at a i b) SLAB_MAGIC_FREED,
         lk_unlock (locker a) (snd (lk_lock (locker a) e)) (fst (lk_lock (locker a) e)))"
      using facts slot by (simp add: a'_def slab_free_def Let_def split_def)
    show "btop a' i = Suc (btop a i)" "unat (blocks_in_use (bins a i)) = unat (blocks_in_use (bins a' i)) + 1"
      using facts inc dec used' by (simp_all add: a'_def slab_free_def Let_def split_def btop_def)
    show "bit (bitmap a') j \<longleftrightarrow> (if j = i then True else bit (bitmap a) j)" for j
      using facts by (simp add: a'_def slab_free_def Let_def split_def bit_set_clear bit_set_clear [simplified])
    show "total_bytes_in_use a = total_bytes_in_use a' + payload i"
      using facts tot size by (simp add: a'_def slab_free_def Let_def split_def)
  qed (use facts in \<open>simp_all add: a'_def slab_free_def Let_def split_def\<close>)
qed

lemma slab_free_live:
  assumes inv: "slab_inv a m" and p: "p \<in> slab_live a m"
  obtains a' m' e' where "slab_free a m e p = (SLAB_OK, a', m', e')" and "slab_inv a' m'"
    and "slab_live a' m' = slab_live a m - {p}" and "slab_free a' m' e' p = (SLAB_ERR_DOUBLE_FREE, a', m', e')"
proof -
  obtain i b where i: "i < 16" "b < bcount a i" and live: "user_at a i b \<notin> set (free_list a m i)"
    and pu: "p = user_at a i b" using p by (auto simp: slab_live_def)
  obtain a' where fr: "slab_free a m e (user_at a i b) =
        (SLAB_OK, a', st32 (st64 m (slot_at a i (btop a i)) (of_nat (user_at a i b))) (block_at a i b) SLAB_MAGIC_FREED,
         lk_unlock (locker a) (snd (lk_lock (locker a) e)) (fst (lk_lock (locker a) e)))"
    and reg: "region a' = region a" "region_bytes a' = region_bytes a"
    and other: "\<And>j. j \<noteq> i \<Longrightarrow> bins a' j = bins a j"
    and same: "block_size (bins a' i) = block_size (bins a i)" "bucket_count (bins a' i) = bucket_count (bins a i)"
      "int_stack (bins a' i) = int_stack (bins a i)" "int_blocks (bins a' i) = int_blocks (bins a i)"
    and top': "btop a' i = Suc (btop a i)" and use': "unat (blocks_in_use (bins a i)) = unat (blocks_in_use (bins a' i)) + 1"
    and map': "\<And>j. bit (bitmap a') j \<longleftrightarrow> (if j = i then True else bit (bitmap a) j)"
    and bytes: "total_bytes_in_use a = total_bytes_in_use a' + payload i"
    using slab_free_result [OF inv i live, of e] by blast
  define m1 where "m1 = st64 m (slot_at a i (btop a i)) (of_nat (user_at a i b))"
  define m' where "m' = st32 m1 (block_at a i b) SLAB_MAGIC_FREED"
  have lay: "slab_layout a" by (rule slab_inv_layout [OF inv])
  have room: "btop a i < bcount a i" by (rule live_has_room [OF inv i live])
  note ok = slab_inv_bin [OF inv i(1)]
  note hw = header_write [OF lay i, of _ _ m1 SLAB_MAGIC_FREED, folded m'_def]
  note sw = slot_write [OF lay i(1) room, of _ _ m "of_nat (user_at a i b)", folded m1_def]
  have geo: "bcount a' j = bcount a j" "slot_at a' j = slot_at a j" "block_at a' j = block_at a j"
    "user_at a' j = user_at a j" for j
    using other [of j] same by (cases "j = i"; auto simp: geometry fun_eq_iff)+
  have lay': "slab_layout a'"
    using lay slab_layout_cong [of a' a] reg other same by (metis (no_types))
  have addr: "unat (of_nat (user_at a i b) :: u64) = user_at a i b"
    using block_bounds(5) [OF lay i] by (simp add: unat_of_nat)
  have fl: "free_list a' m' i = free_list a m i @ [user_at a i b]"
    using hw(1) [OF i(1)] sw(1) [OF i(1)] room addr by (auto simp: free_list_Suc [OF top'] geo) (auto simp: free_list_def)
  have flj: "free_list a' m' j = free_list a m j" if "j < 16" "j \<noteq> i" for j
    using that slab_inv_bin [OF inv] hw(1) [of j] sw(1) [of j] by (intro free_list_frame other) (auto simp: bin_ok_def)
  have inj: "user_at a i d = user_at a i b \<longleftrightarrow> d = b" if "d < bcount a i" for d
    using user_at_inject [OF lay i(1) i(1) that i(2)] by simp
  have "bin_ok a' m' j" if j: "j < 16" for j
  proof (cases "j = i")
    case False
    then show ?thesis using slab_inv_bin [OF inv j] other map' hw [OF j] sw [OF j]
      by (intro bin_ok_frame [of a m j a' m']) auto
  next
    case True
    have "ld32 m' (block_at a i d) = (if user_at a i d \<in> set (free_list a' m' i)
        then SLAB_MAGIC_FREED else SLAB_MAGIC_ALLOCATED)" if "d < bcount a i" for d
      using ok that hw(2) [OF i(1) that] sw(2) [OF i(1) that] inj [OF that] fl by (auto simp: bin_ok_def)
    moreover have "ld32 m' (block_at a i d + 4) = of_nat i" if "d < bcount a i" for d
      using ok that hw(3) [OF i(1) that] sw(3) [OF i(1) that] by (simp add: bin_ok_def)
    ultimately show ?thesis using True ok fl live room top' use' map' i(2)
      by (auto simp: bin_ok_def geo)
  qed
  moreover have "total_bytes_in_use a' = (\<Sum>j<16. unat (blocks_in_use (bins a' j)) * payload j)"
    using sum_one_change [OF i(1), of "\<lambda>j. unat (blocks_in_use (bins a' j)) * payload j"
        "\<lambda>j. unat (blocks_in_use (bins a j)) * payload j"] other use' bytes inv
    by (simp add: slab_inv_def algebra_simps)
  ultimately have inv': "slab_inv a' m'" using lay' by (simp add: slab_inv_def)
  have liv: "slab_live a' m' = slab_live a m - {p}"
  proof (rule set_eqI)
    fix q
    have "user_at a j d = p \<Longrightarrow> j < 16 \<Longrightarrow> d < bcount a j \<Longrightarrow> j = i \<and> d = b" for j d
      using user_at_inject [OF lay _ i(1) _ i(2), of j d] pu by simp
    then show "q \<in> slab_live a' m' \<longleftrightarrow> q \<in> slab_live a m - {p}"
      unfolding slab_live_def geo using flj fl pu by (fastforce)
  qed
  have "ld32 m' (block_at a i b) = SLAB_MAGIC_FREED" using hw(2) [OF i(1,2)] by simp
  then have "slab_free a' m' e'' p = (SLAB_ERR_DOUBLE_FREE, a', m', e'')" for e''
    using block_bounds [OF lay i] reg btotal_ge [of i]
    by (simp add: slab_free_def pu header_user Let_def) (simp add: user_at_def)
  with that fr inv' liv show thesis unfolding pu m'_def m1_def by blast
qed

end
