(* ===== verification/Slab_Init.thy ===== *)
theory Slab_Init
  imports Slab_Inv
begin

text \<open>
  \<open>slab_init\<close> establishes the allocator's invariant: the sizes add up to what
  \<open>slab_required_bytes\<close> asks for, the carved arrays do not overlap, every block starts free.
\<close>

section \<open>Sizes\<close>

definition cnt :: "SlabConfig \<Rightarrow> nat \<Rightarrow> nat" where "cnt cfg i = unat (cfg i)"
definition stacks_before :: "SlabConfig \<Rightarrow> nat \<Rightarrow> nat" where "stacks_before cfg k = (\<Sum>j<k. 8 * cnt cfg j)"
definition blocks_before :: "SlabConfig \<Rightarrow> nat \<Rightarrow> nat" where "blocks_before cfg k = (\<Sum>j<k. cnt cfg j * btotal j)"

lemma cnt_0_iff: "cnt cfg i = 0 \<longleftrightarrow> cfg i = 0"
  by (simp add: cnt_def unat_eq_zero)

lemma before_Suc [simp]:
  "stacks_before cfg (Suc k) = stacks_before cfg k + 8 * cnt cfg k"
  "blocks_before cfg (Suc k) = blocks_before cfg k + cnt cfg k * btotal k"
  "stacks_before cfg 0 = 0" "blocks_before cfg 0 = 0"
  by (simp_all add: stacks_before_def blocks_before_def)

lemma stacks_before_mono: "i < k \<Longrightarrow> stacks_before cfg i + 8 * cnt cfg i \<le> stacks_before cfg k"
proof (induction k)
  case (Suc k)
  then show ?case by (cases "i = k") auto
qed simp

lemma required_fold:
  "fold (\<lambda>i t. if cfg i = 0 then t else t + unat (cfg i) * 8 + unat (cfg i) * (32 * 2 ^ i + 8)) [0..<k] 0
     = stacks_before cfg k + blocks_before cfg k"
  by (induction k) (auto simp: cnt_def btotal_def payload_def algebra_simps)

lemma slab_required_bytes_eq:
  "slab_required_bytes cfg = stacks_before cfg 16 + blocks_before cfg 16 + 8"
  unfolding slab_required_bytes_def required_fold ..

lemma slab_required_bytes_bound: "slab_required_bytes cfg < 2 ^ 64"
proof -
  have "stacks_before cfg k + blocks_before cfg k \<le> k * (2 ^ 16 * (2 ^ 20 + 16))" if "k \<le> 16" for k
    using that
  proof (induction k)
    case (Suc k)
    have "cnt cfg k < 2 ^ 16" using unsigned_less [of "cfg k", where 'a = nat] by (simp add: cnt_def)
    moreover have "(2::nat) ^ k \<le> 2 ^ 15" using Suc.prems by (intro power_increasing) auto
    then have "btotal k + 8 \<le> 2 ^ 20 + 16" by (simp add: btotal_def payload_def)
    ultimately have "cnt cfg k * (btotal k + 8) \<le> 2 ^ 16 * (2 ^ 20 + 16)" by (intro mult_le_mono) auto
    then show ?case using Suc by (simp add: algebra_simps)
  qed simp
  from this [of 16] show ?thesis by (simp add: slab_required_bytes_eq)
qed

lemma align8_facts: "v \<le> align8 v" "align8 v \<le> v + 7" "8 dvd align8 v"
  by (auto simp: align8_def)

lemma align8_le: "v \<le> u \<Longrightarrow> 8 dvd u \<Longrightarrow> align8 v \<le> u"
  by (auto simp: align8_def dvd_def)

lemma btotal_dvd: "8 dvd btotal i"
proof -
  have "btotal i = 8 * (4 * 2 ^ i + 1)" by (simp add: btotal_def payload_def)
  then show ?thesis by (metis dvd_triv_left)
qed

lemma blocks_before_dvd: "8 dvd blocks_before cfg k"
  by (induction k) (auto intro: dvd_add dvd_mult btotal_dvd)

text \<open>The stack arrays, one after the other.\<close>

lemma carve_stacks:
  assumes "\<And>i. bucket_count (bins a i) = cfg i"
  shows "fold carve_stack [0..<k] (a, rgn) =
     (a\<lparr>bins := (\<lambda>i. if i < k \<and> cfg i \<noteq> 0 then (bins a i)\<lparr>int_stack := rgn + stacks_before cfg i\<rparr> else bins a i)\<rparr>,
      rgn + stacks_before cfg k)"
proof (induction k)
  case (Suc k)
  then show ?case using assms
    by (auto simp: carve_stack_def update_bin_def cnt_def less_Suc_eq intro!: arg_cong [where f = "\<lambda>f. a\<lparr>bins := f\<rparr>"])
qed simp

text \<open>One bin's blocks: what the inner loop leaves in memory.\<close>

lemma push_blocks:
  assumes "apart stk (8 * n) cur (n * t)" and "8 \<le> t"
  shows "k \<le> n \<Longrightarrow>
     (\<forall>x. x \<notin> extent stk (8 * k) \<and> x \<notin> extent cur (k * t) \<longrightarrow>
        fold (push_block i cur stk t) [0..<k] m x = m x) \<and>
     (\<forall>b<k. ld64 (fold (push_block i cur stk t) [0..<k] m) (stk + 8 * b) = of_nat (cur + b * t + 8) \<and>
        ld32 (fold (push_block i cur stk t) [0..<k] m) (cur + b * t) = SLAB_MAGIC_FREED \<and>
        ld32 (fold (push_block i cur stk t) [0..<k] m) (cur + b * t + 4) = of_nat i)"
proof (induction k)
  case (Suc k)
  define w where "w = fold (push_block i cur stk t) [0..<k] m"
  define w' where "w' = push_block i cur stk t k w"
  have ih: "\<And>x. x \<notin> extent stk (8 * k) \<Longrightarrow> x \<notin> extent cur (k * t) \<Longrightarrow> w x = m x"
    "\<And>b. b < k \<Longrightarrow> ld64 w (stk + 8 * b) = of_nat (cur + b * t + 8)"
    "\<And>b. b < k \<Longrightarrow> ld32 w (cur + b * t) = SLAB_MAGIC_FREED"
    "\<And>b. b < k \<Longrightarrow> ld32 w (cur + b * t + 4) = of_nat i"
    using Suc by (auto simp: w_def)
  have kt: "k * t + t \<le> n * t" using Suc.prems mult_add_le by simp
  have w': "w' = st64 (st32 (st32 w (cur + k * t + 4) (of_nat i)) (cur + k * t) SLAB_MAGIC_FREED)
      (stk + 8 * k) (of_nat (cur + k * t + 8))"
    by (simp add: w'_def push_block_def payload_of_def Let_def)
  have far: "apart (stk + 8 * b) 8 (cur + d * t) 8" if "b \<le> k" "d \<le> k" for b d
    by (rule apart_sub [OF assms(1)])
      (use Suc.prems that kt mult_le_mono1 [OF that(2), of t] assms(2) in linarith)+
  have near: "apart (cur + k * t) 8 (cur + b * t) 8" if "b < k" for b
    by (rule apart_sub [OF strided_apart [of k b cur t]]) (use that assms(2) in auto)
  have "w' x = m x" if "x \<notin> extent stk (8 * Suc k)" "x \<notin> extent cur (Suc k * t)" for x
  proof -
    have "x \<notin> extent (stk + 8 * k) 8" "x \<notin> extent (cur + k * t) 4" "x \<notin> extent (cur + k * t + 4) 4"
      "x \<notin> extent stk (8 * k)" "x \<notin> extent cur (k * t)"
      using that assms(2) by auto
    then show ?thesis unfolding w' by (simp only: store_le_other ih(1) simp_thms)
  qed
  moreover have "ld64 w' (stk + 8 * b) = of_nat (cur + b * t + 8) \<and>
      ld32 w' (cur + b * t) = SLAB_MAGIC_FREED \<and> ld32 w' (cur + b * t + 4) = of_nat i" if b: "b < Suc k" for b
  proof (cases "b = k")
    case True
    have "apart (stk + 8 * k) 8 (cur + k * t) 4" "apart (stk + 8 * k) 8 (cur + k * t + 4) 4"
      "apart (cur + k * t) 4 (cur + k * t + 4) 4"
      using far [of k k] by (auto simp: apart_def)
    then show ?thesis unfolding w' True by (simp add: take_bit_word_eq_self)
  next
    case False
    then have bk: "b < k" using b by simp
    have "apart (stk + 8 * k) 8 (stk + 8 * b) 8" using bk by (auto simp: apart_def)
    moreover have "apart (cur + k * t) 4 (stk + 8 * b) 8" "apart (cur + k * t + 4) 4 (stk + 8 * b) 8"
      using far [of b k] bk by (auto simp: apart_def)
    moreover have "apart (stk + 8 * k) 8 (cur + b * t) 4" "apart (stk + 8 * k) 8 (cur + b * t + 4) 4"
      using far [of k b] bk by (auto simp: apart_def)
    moreover have "apart (cur + k * t) 4 (cur + b * t) 4" "apart (cur + k * t + 4) 4 (cur + b * t) 4"
      "apart (cur + k * t) 4 (cur + b * t + 4) 4" "apart (cur + k * t + 4) 4 (cur + b * t + 4) 4"
      using near [OF bk] unfolding apart_def by linarith+
    ultimately show ?thesis unfolding w' using ih(2-4) [OF bk] by simp
  qed
  ultimately show ?case by (simp add: w_def [symmetric] w'_def [symmetric])
qed simp


section \<open>Carving\<close>

text \<open>The outer loop: \<open>carved\<close> holds after the first \<open>k\<close> bins have their blocks.\<close>

definition carved :: "SlabConfig \<Rightarrow> hptr \<Rightarrow> 'e SlabAllocator \<Rightarrow> nat \<Rightarrow> 'e SlabAllocator \<times> hmem \<times> hptr \<Rightarrow> bool" where
  "carved cfg rgn a0 k s \<longleftrightarrow>
     (let (a, m, cur) = s in
      region a = region a0 \<and> region_bytes a = region_bytes a0 \<and> total_bytes_in_use a = total_bytes_in_use a0 \<and>
      (\<forall>i. block_size (bins a i) = payload i \<and> bucket_count (bins a i) = cfg i \<and>
         blocks_in_use (bins a i) = 0 \<and> (i < 16 \<longrightarrow> cfg i \<noteq> 0 \<longrightarrow> int_stack (bins a i) = rgn + stacks_before cfg i) \<and>
         btop a i = (if i < k then cnt cfg i else 0)) \<and>
      rgn + stacks_before cfg 16 \<le> cur \<and> cur \<le> align8 (rgn + stacks_before cfg 16) + blocks_before cfg k \<and>
      (\<forall>i<k. cfg i \<noteq> 0 \<longrightarrow>
         rgn + stacks_before cfg 16 \<le> int_blocks (bins a i) \<and>
         int_blocks (bins a i) + cnt cfg i * btotal i \<le> cur \<and>
         (\<forall>j<i. cfg j \<noteq> 0 \<longrightarrow> int_blocks (bins a j) + cnt cfg j * btotal j \<le> int_blocks (bins a i)) \<and>
         (\<forall>b<cnt cfg i. ld64 m (slot_at a i b) = of_nat (user_at a i b) \<and>
            ld32 m (block_at a i b) = SLAB_MAGIC_FREED \<and> ld32 m (block_at a i b + 4) = of_nat i)) \<and>
      (\<forall>i<16. bit (bitmap a) i \<longleftrightarrow> i < k \<and> cfg i \<noteq> 0))"

lemma carve_blocks_step:
  assumes "carved cfg rgn a0 k (a, m, cur)" and k: "k < 16"
  shows "carved cfg rgn a0 (Suc k) (carve_blocks k (a, m, cur))"
proof (cases "cfg k = 0")
  case True
  then have "carve_blocks k (a, m, cur) = (a, m, cur)" using assms(1)
    by (simp add: carve_blocks_def carved_def Let_def)
  with assms(1) True show ?thesis by (auto simp: carved_def less_Suc_eq cnt_0_iff)
next
  case False
  define c where "c = align8 cur"
  define stk where "stk = rgn + stacks_before cfg k"
  define m' where "m' = fold (push_block k c stk (btotal k)) [0..<cnt cfg k] m"
  define a' where "a' = fst (carve_blocks k (a, m, cur))"
  have st: "block_size (bins a i) = payload i" "bucket_count (bins a i) = cfg i"
    "blocks_in_use (bins a i) = 0" "i < 16 \<Longrightarrow> cfg i \<noteq> 0 \<Longrightarrow> int_stack (bins a i) = rgn + stacks_before cfg i"
    "btop a i = (if i < k then cnt cfg i else 0)" for i
    using assms(1) by (auto simp: carved_def)
  have cur: "rgn + stacks_before cfg 16 \<le> cur" "cur \<le> align8 (rgn + stacks_before cfg 16) + blocks_before cfg k"
    and bm: "\<And>i. i < 16 \<Longrightarrow> bit (bitmap a) i \<longleftrightarrow> i < k \<and> cfg i \<noteq> 0"
    using assms(1) by (auto simp: carved_def)
  have ar: "region a = region a0" "region_bytes a = region_bytes a0" "total_bytes_in_use a = total_bytes_in_use a0"
    using assms(1) by (auto simp: carved_def)
  have old: "rgn + stacks_before cfg 16 \<le> int_blocks (bins a i)"
    "int_blocks (bins a i) + cnt cfg i * btotal i \<le> cur"
    "\<And>j. j < i \<Longrightarrow> cfg j \<noteq> 0 \<Longrightarrow> int_blocks (bins a j) + cnt cfg j * btotal j \<le> int_blocks (bins a i)"
    "\<And>b. b < cnt cfg i \<Longrightarrow> ld64 m (slot_at a i b) = of_nat (user_at a i b) \<and>
            ld32 m (block_at a i b) = SLAB_MAGIC_FREED \<and> ld32 m (block_at a i b + 4) = of_nat i"
    if "i < k" "cfg i \<noteq> 0" for i
    using assms(1) that by (auto simp: carved_def)
  have cb: "carve_blocks k (a, m, cur) = (a', m', c + cnt cfg k * btotal k)"
    using False k st(1,2,4) [of k] by (simp add: a'_def carve_blocks_def Let_def m'_def c_def stk_def cnt_def btotal_def)
  have bk: "bins a' k = (bins a k)\<lparr>int_blocks := c, int_top := cfg k\<rparr>" "\<And>i. i \<noteq> k \<Longrightarrow> bins a' i = bins a i"
    "\<And>i. i < 16 \<Longrightarrow> bit (bitmap a') i \<longleftrightarrow> i = k \<or> bit (bitmap a) i"
    "region a' = region a" "region_bytes a' = region_bytes a" "total_bytes_in_use a' = total_bytes_in_use a"
    using False st(2) [of k] k
    by (simp_all add: a'_def carve_blocks_def Let_def c_def bit_set_clear bit_set_clear [simplified])
  have c: "cur \<le> c" by (simp add: c_def align8_facts)
  have c2: "c \<le> align8 (rgn + stacks_before cfg 16) + blocks_before cfg k"
    unfolding c_def by (rule align8_le [OF cur(2)]) (intro dvd_add align8_facts blocks_before_dvd)
  have stk_end: "stk + 8 * cnt cfg k \<le> rgn + stacks_before cfg 16"
    using stacks_before_mono [OF k, of cfg] by (simp add: stk_def)
  have ap: "apart stk (8 * cnt cfg k) c (cnt cfg k * btotal k)" using stk_end cur(1) c by (simp add: apart_def)
  have new: "ld64 m' (stk + 8 * b) = of_nat (c + b * btotal k + 8)" "ld32 m' (c + b * btotal k) = SLAB_MAGIC_FREED"
    "ld32 m' (c + b * btotal k + 4) = of_nat k" if "b < cnt cfg k" for b
    using push_blocks [OF ap, of "cnt cfg k" k m] that btotal_ge [of k] by (simp_all add: m'_def)
  have keep: "m' x = m x" if "x \<notin> extent stk (8 * cnt cfg k)" "x \<notin> extent c (cnt cfg k * btotal k)" for x
    using push_blocks [OF ap, of "cnt cfg k" k m] that btotal_ge [of k] by (simp add: m'_def del: in_extent)
  have kept: "load_le n m' p = (load_le n m p :: 'w::len word)"
    if "apart stk (8 * cnt cfg k) p n" "apart c (cnt cfg k * btotal k) p n" for n p
    using that by (intro load_le_eqI keep) (auto simp: apart_def)
  have mem: "ld64 m' (slot_at a' i b) = of_nat (user_at a' i b) \<and>
            ld32 m' (block_at a' i b) = SLAB_MAGIC_FREED \<and> ld32 m' (block_at a' i b + 4) = of_nat i"
    if i: "i < Suc k" "cfg i \<noteq> 0" and b: "b < cnt cfg i" for i b
  proof (cases "i = k")
    case True
    then show ?thesis using new [of b] b st(4) [OF k False] bk(1) by (simp add: geometry stk_def)
  next
    case ik: False
    then have i': "i < k" "i < 16" using i k by simp_all
    have "stacks_before cfg i + 8 * cnt cfg i \<le> stacks_before cfg k" by (rule stacks_before_mono [OF i'(1)])
    moreover have "b * btotal i + btotal i \<le> cnt cfg i * btotal i" by (rule mult_add_le [OF b])
    ultimately have "apart stk (8 * cnt cfg k) (slot_at a i b) 8" "apart c (cnt cfg k * btotal k) (slot_at a i b) 8"
      "apart stk (8 * cnt cfg k) (block_at a i b) 4" "apart c (cnt cfg k * btotal k) (block_at a i b) 4"
      "apart stk (8 * cnt cfg k) (block_at a i b + 4) 4" "apart c (cnt cfg k * btotal k) (block_at a i b + 4) 4"
      using old(1,2) [OF i'(1) i(2)] st(4) [OF i'(2) i(2)] stk_end cur(1) c b btotal_ge [of i]
      unfolding apart_def slot_at_def block_at_def stk_def by linarith+
    then have "ld64 m' (slot_at a i b) = ld64 m (slot_at a i b)" "ld32 m' (block_at a i b) = ld32 m (block_at a i b)"
      "ld32 m' (block_at a i b + 4) = ld32 m (block_at a i b + 4)"
      by (simp_all add: kept)
    then show ?thesis using old(4) [OF i'(1) i(2) b] bk(2) [OF ik] by (simp add: geometry)
  qed
  have geo: "rgn + stacks_before cfg 16 \<le> int_blocks (bins a' i) \<and>
         int_blocks (bins a' i) + cnt cfg i * btotal i \<le> c + cnt cfg k * btotal k \<and>
         (\<forall>j<i. cfg j \<noteq> 0 \<longrightarrow> int_blocks (bins a' j) + cnt cfg j * btotal j \<le> int_blocks (bins a' i))"
    if i: "i < Suc k" "cfg i \<noteq> 0" for i
  proof (cases "i = k")
    case True
    then show ?thesis using old(2) bk(1,2) cur(1) c by fastforce
  next
    case ik: False
    then show ?thesis using i old(1-3) [of i] bk(2) c by fastforce
  qed
  have "carved cfg rgn a0 (Suc k) (a', m', c + cnt cfg k * btotal k)"
    unfolding carved_def prod.case Let_def
  proof (intro conjI allI impI)
    fix i
    show "block_size (bins a' i) = payload i" "bucket_count (bins a' i) = cfg i" "blocks_in_use (bins a' i) = 0"
      using st [of i] bk(1,2) by (cases "i = k"; simp)+
    show "i < 16 \<Longrightarrow> cfg i \<noteq> 0 \<Longrightarrow> int_stack (bins a' i) = rgn + stacks_before cfg i"
      using st [of i] bk(1,2) by (cases "i = k"; simp)
    show "btop a' i = (if i < Suc k then cnt cfg i else 0)"
      using st [of i] bk(1,2) by (cases "i = k"; simp add: btop_def cnt_def)
  next
    fix i assume "i < (16::nat)"
    then show "bit (bitmap a') i \<longleftrightarrow> i < Suc k \<and> cfg i \<noteq> 0" using bk(3) bm False by (auto simp: less_Suc_eq)
  next
    show "rgn + stacks_before cfg 16 \<le> c + cnt cfg k * btotal k" using cur(1) c by linarith
    show "c + cnt cfg k * btotal k \<le> align8 (rgn + stacks_before cfg 16) + blocks_before cfg (Suc k)"
      using c2 by simp
  next
    fix i assume "i < Suc k" "cfg i \<noteq> 0"
    from geo [OF this] show "rgn + stacks_before cfg 16 \<le> int_blocks (bins a' i)"
      "int_blocks (bins a' i) + cnt cfg i * btotal i \<le> c + cnt cfg k * btotal k" by blast+
    show "int_blocks (bins a' j) + cnt cfg j * btotal j \<le> int_blocks (bins a' i)" if "j < i" "cfg j \<noteq> 0" for j
      using geo [OF \<open>i < Suc k\<close> \<open>cfg i \<noteq> 0\<close>] that by blast
    fix b assume "b < cnt cfg i"
    from mem [OF \<open>i < Suc k\<close> \<open>cfg i \<noteq> 0\<close> this] show "ld64 m' (slot_at a' i b) = of_nat (user_at a' i b)"
      "ld32 m' (block_at a' i b) = SLAB_MAGIC_FREED" "ld32 m' (block_at a' i b + 4) = of_nat i" by blast+
  qed (use ar bk(4-6) in simp_all)
  then show ?thesis unfolding cb .
qed

lemma carve_blocks_all:
  "carved cfg rgn a0 0 (a, m, cur) \<Longrightarrow> k \<le> 16 \<Longrightarrow> carved cfg rgn a0 k (fold carve_blocks [0..<k] (a, m, cur))"
proof (induction k)
  case (Suc k)
  obtain a1 m1 c1 where f: "fold carve_blocks [0..<k] (a, m, cur) = (a1, m1, c1)" by (metis prod_cases3)
  with Suc have "carved cfg rgn a0 k (a1, m1, c1)" by simp
  from carve_blocks_step [OF this] Suc.prems(2) show ?case by (simp add: f)
qed simp

lemma carved_slab_inv:
  assumes car: "carved cfg rgn a0 16 (a, m, cur)" and "region a0 = rgn" "region_bytes a0 = bytes" "0 < rgn"
    "total_bytes_in_use a0 = 0" and fits: "cur \<le> rgn + bytes" "rgn + bytes < 2 ^ 64"
  shows "slab_inv a m \<and> slab_live a m = {} \<and> (\<forall>i<16. btop a i = cnt cfg i)"
proof -
  have st: "block_size (bins a i) = payload i" "bucket_count (bins a i) = cfg i"
    "blocks_in_use (bins a i) = 0" "i < 16 \<Longrightarrow> cfg i \<noteq> 0 \<Longrightarrow> int_stack (bins a i) = rgn + stacks_before cfg i"
    "i < 16 \<Longrightarrow> btop a i = cnt cfg i" for i
    using car by (auto simp: carved_def)
  have bc: "bcount a i = cnt cfg i" for i by (simp add: bcount_def cnt_def st)
  have geo: "rgn + stacks_before cfg 16 \<le> int_blocks (bins a i)"
    "int_blocks (bins a i) + cnt cfg i * btotal i \<le> cur"
    "\<And>j. j < i \<Longrightarrow> cfg j \<noteq> 0 \<Longrightarrow> int_blocks (bins a j) + cnt cfg j * btotal j \<le> int_blocks (bins a i)"
    "\<And>b. b < cnt cfg i \<Longrightarrow> ld64 m (slot_at a i b) = of_nat (user_at a i b) \<and>
            ld32 m (block_at a i b) = SLAB_MAGIC_FREED \<and> ld32 m (block_at a i b + 4) = of_nat i"
    if "i < 16" "cnt cfg i \<noteq> 0" for i
    using car that by (auto simp: carved_def cnt_0_iff)
  have bm: "i < 16 \<Longrightarrow> bit (bitmap a) i \<longleftrightarrow> cfg i \<noteq> 0" for i using car by (auto simp: carved_def)
  have reg: "region a = rgn" "region_bytes a = bytes" "total_bytes_in_use a = 0"
    using car assms by (auto simp: carved_def)
  have sb: "cnt cfg i \<noteq> 0 \<Longrightarrow> i < 16 \<Longrightarrow> int_stack (bins a i) + 8 * cnt cfg i \<le> rgn + stacks_before cfg 16" for i
    using stacks_before_mono [of i 16 cfg] st(4) [of i] by (simp add: cnt_0_iff)
  have ss: "apart (int_stack (bins a i)) (8 * cnt cfg i) (int_stack (bins a j)) (8 * cnt cfg j)"
    if "i < j" "j < 16" for i j
  proof (cases "cnt cfg i = 0 \<or> cnt cfg j = 0")
    case False
    then show ?thesis using stacks_before_mono [OF that(1), of cfg] that st(4) [of i] st(4) [of j]
      by (simp add: apart_def cnt_0_iff)
  qed (auto simp: apart_def)
  have bb: "apart (int_blocks (bins a i)) (cnt cfg i * btotal i) (int_blocks (bins a j)) (cnt cfg j * btotal j)"
    if "i < j" "j < 16" for i j
    using geo(3) [of j i] that by (cases "cnt cfg i = 0 \<or> cnt cfg j = 0") (auto simp: apart_def cnt_0_iff)
  have sbl: "apart (int_stack (bins a i)) (8 * cnt cfg i) (int_blocks (bins a j)) (cnt cfg j * btotal j)"
    if "i < 16" "j < 16" for i j
    using geo(1) [of j] sb [of i] that by (cases "cnt cfg i = 0 \<or> cnt cfg j = 0") (auto simp: apart_def cnt_0_iff)
  have lay: "slab_layout a"
    unfolding slab_layout_def bc reg
  proof (intro conjI allI impI)
    fix i j :: nat assume ij: "i < 16" "j < 16"
    show "apart (int_stack (bins a i)) (8 * cnt cfg i) (int_blocks (bins a j)) (cnt cfg j * btotal j)"
      by (rule sbl [OF ij])
    assume "i \<noteq> j"
    then have "i < j \<or> j < i" by auto
    then show "apart (int_stack (bins a i)) (8 * cnt cfg i) (int_stack (bins a j)) (8 * cnt cfg j)"
      "apart (int_blocks (bins a i)) (cnt cfg i * btotal i) (int_blocks (bins a j)) (cnt cfg j * btotal j)"
      using ss [of i j] ss [of j i] bb [of i j] bb [of j i] ij apart_sym by blast+
  next
    fix i :: nat assume i: "i < 16" "cnt cfg i \<noteq> 0"
    show "rgn \<le> int_blocks (bins a i)" "int_blocks (bins a i) + cnt cfg i * btotal i \<le> rgn + bytes"
      using geo(1,2) [OF i] fits by linarith+
    show "rgn \<le> int_stack (bins a i)" "int_stack (bins a i) + 8 * cnt cfg i \<le> rgn + bytes"
      using st(4) [of i] sb [OF i(2,1)] geo(1,2) [OF i] i fits by (auto simp: cnt_0_iff)
  qed (use assms st in simp_all)
  have fl: "free_list a m i = map (user_at a i) [0..<cnt cfg i]" if i: "i < 16" for i
    using geo(4) [OF i] block_bounds(5) [OF lay i] st(5) [OF i]
    by (auto simp: free_list_def unat_of_nat bc)
  have "bin_ok a m i" if i: "i < 16" for i
  proof -
    have "distinct (free_list a m i)"
      unfolding fl [OF i] using user_at_inject [OF lay i i] by (auto simp: distinct_map inj_on_def bc)
    moreover have "ld32 m (block_at a i b) = SLAB_MAGIC_FREED" "ld32 m (block_at a i b + 4) = of_nat i"
      if "b < cnt cfg i" for b using geo(4) [OF i] that by auto
    ultimately show ?thesis
      using st(3,5) [of i] bm [OF i] i by (auto simp: bin_ok_def bc fl cnt_0_iff)
  qed
  moreover have "slab_live a m = {}" using fl by (auto simp: slab_live_def bc)
  ultimately show ?thesis using lay st(3,5) reg by (simp add: slab_inv_def)
qed

lemma slab_init_establishes:
  assumes "0 < rgn" and "rgn + bytes < 2 ^ 64" and "slab_required_bytes cfg \<le> bytes"
  obtains a' m' where "slab_init a m rgn bytes cfg lk = (SLAB_OK, a', m')"
    and "slab_inv a' m'" "slab_live a' m' = {}" "\<And>i. i < 16 \<Longrightarrow> btop a' i = cnt cfg i"
proof -
  define a0 where "a0 = (zero_slab lk)\<lparr>region := rgn, region_bytes := bytes,
      bins := (\<lambda>i. \<lparr>block_size = 32 * 2 ^ i, bucket_count = cfg i, blocks_in_use = 0, peak_in_use = 0,
        int_top = 0, int_stack = 0, int_blocks = 0\<rparr>)\<rparr>"
  obtain a1 c1 where f1: "fold carve_stack [0..<16] (a0, rgn) = (a1, c1)" by force
  obtain a2 m2 c2 where f2: "fold carve_blocks [0..<16] (a1, m, c1) = (a2, m2, c2)" by (metis prod_cases3)
  have c1: "a1 = a0\<lparr>bins := (\<lambda>i. if i < 16 \<and> cfg i \<noteq> 0
        then (bins a0 i)\<lparr>int_stack := rgn + stacks_before cfg i\<rparr> else bins a0 i)\<rparr>"
    "c1 = rgn + stacks_before cfg 16"
    using carve_stacks [of a0 cfg 16 rgn] f1 by (simp_all add: a0_def)
  have "carved cfg rgn a0 0 (a1, m, c1)"
    by (simp add: carved_def c1 a0_def zero_slab_def payload_def btop_def align8_facts)
  from carve_blocks_all [OF this, of 16] f2 have car: "carved cfg rgn a0 16 (a2, m2, c2)" by simp
  have "c2 \<le> align8 (rgn + stacks_before cfg 16) + blocks_before cfg 16" using car by (simp add: carved_def)
  also have "\<dots> \<le> rgn + bytes"
    using assms(3) align8_facts(2) [of "rgn + stacks_before cfg 16"] by (simp add: slab_required_bytes_eq)
  finally have fits: "c2 \<le> rgn + bytes" .
  have "slab_init a m rgn bytes cfg lk = (SLAB_OK, a2, m2)"
    using assms(1,3) f1 f2 fits by (simp add: slab_init_def a0_def [symmetric] Let_def)
  moreover have "slab_inv a2 m2 \<and> slab_live a2 m2 = {} \<and> (\<forall>i<16. btop a2 i = cnt cfg i)"
    by (rule carved_slab_inv [OF car]) (use assms fits in \<open>simp_all add: a0_def zero_slab_def\<close>)
  ultimately show thesis using that by blast
qed

lemma carve_keeps_region:
  "region (fst (fold carve_stack is (a, c))) = region a \<and> region_bytes (fst (fold carve_stack is (a, c))) = region_bytes a"
  "region (fst (fold carve_blocks is (a, m, c))) = region a \<and> region_bytes (fst (fold carve_blocks is (a, m, c))) = region_bytes a"
  by (induction "is" arbitrary: a c m) (auto simp: carve_stack_def carve_blocks_def Let_def)

lemma slab_init_region:
  assumes "slab_init a m rgn bytes cfg lk = (SLAB_OK, a', m')"
  shows "region a' = rgn" "region_bytes a' = bytes"
proof -
  define a0 where "a0 = (zero_slab lk)\<lparr>region := rgn, region_bytes := bytes,
      bins := (\<lambda>i. \<lparr>block_size = SLAB_MIN_BLOCK * 2 ^ i, bucket_count = cfg i, blocks_in_use = 0, peak_in_use = 0,
        int_top = 0, int_stack = 0, int_blocks = 0\<rparr>)\<rparr>"
  obtain a1 c1 where f1: "fold carve_stack [0..<16] (a0, rgn) = (a1, c1)" by force
  obtain a2 m2 c2 where f2: "fold carve_blocks [0..<16] (a1, m, c1) = (a2, m2, c2)" by (metis prod_cases3)
  have "a' = a2"
    using assms f1 f2 by (auto simp: slab_init_def a0_def [symmetric] Let_def split: if_splits)
  moreover have "region a2 = region a0 \<and> region_bytes a2 = region_bytes a0"
    using carve_keeps_region(1) [of "[0..<16]" a0 rgn] carve_keeps_region(2) [of "[0..<16]" a1 m c1] f1 f2 by simp
  ultimately show "region a' = rgn" "region_bytes a' = bytes" by (simp_all add: a0_def)
qed

section \<open>Carving writes inside the region\<close>

lemma carve_blocks_frame:
  assumes car: "carved cfg rgn a0 k (a, m, cur)" and k: "k < 16" and eq: "carve_blocks k (a, m, cur) = (a', m', cur')"
  shows "cur \<le> cur'" "x < rgn \<or> cur' \<le> x \<Longrightarrow> m' x = m x"
proof -
  have "cur \<le> cur' \<and> (x < rgn \<or> cur' \<le> x \<longrightarrow> m' x = m x)"
  proof (cases "cfg k = 0")
    case True
    then have "carve_blocks k (a, m, cur) = (a, m, cur)" using car by (simp add: carve_blocks_def carved_def Let_def)
    then show ?thesis using eq by simp
  next
    case False
    define c where "c = align8 cur"
    define stk where "stk = rgn + stacks_before cfg k"
    have st: "block_size (bins a k) = payload k" "bucket_count (bins a k) = cfg k" "int_stack (bins a k) = stk"
      and cur: "rgn + stacks_before cfg 16 \<le> cur"
      using car k False by (auto simp: carved_def stk_def)
    have cb: "m' = fold (push_block k c stk (btotal k)) [0..<cnt cfg k] m" "cur' = c + cnt cfg k * btotal k"
      using eq False st by (simp_all add: carve_blocks_def Let_def c_def cnt_def btotal_def)
    have c: "cur \<le> c" by (simp add: c_def align8_facts)
    have stk: "rgn \<le> stk" "stk + 8 * cnt cfg k \<le> cur" using stacks_before_mono [OF k, of cfg] cur by (simp_all add: stk_def)
    have ap: "apart stk (8 * cnt cfg k) c (cnt cfg k * btotal k)" using stk c by (simp add: apart_def)
    have "m' x = m x" if "x \<notin> extent stk (8 * cnt cfg k)" "x \<notin> extent c (cnt cfg k * btotal k)"
      using push_blocks [OF ap, of "cnt cfg k" k m] that btotal_ge [of k] by (simp add: cb(1) del: in_extent)
    then show ?thesis using cb(2) c stk by auto
  qed
  then show "cur \<le> cur'" "x < rgn \<or> cur' \<le> x \<Longrightarrow> m' x = m x" by blast+
qed

lemma carve_all_frame:
  "carved cfg rgn a0 0 (a, m, cur) \<Longrightarrow> k \<le> 16 \<Longrightarrow> fold carve_blocks [0..<k] (a, m, cur) = (a', m', cur') \<Longrightarrow>
   x < rgn \<or> cur' \<le> x \<Longrightarrow> m' x = m x"
proof (induction k arbitrary: a' m' cur')
  case (Suc k)
  obtain a1 m1 c1 where f: "fold carve_blocks [0..<k] (a, m, cur) = (a1, m1, c1)" by (metis prod_cases3)
  have car: "carved cfg rgn a0 k (a1, m1, c1)" using carve_blocks_all [OF Suc.prems(1), of k] Suc.prems(2) f by simp
  have "carve_blocks k (a1, m1, c1) = (a', m', cur')" using Suc.prems(3) f by simp
  note fr = carve_blocks_frame [OF car _ this]
  show ?case using fr(1) fr(2) [of x] Suc.IH [OF Suc.prems(1) _ f] Suc.prems(2,4) by fastforce
qed simp

lemma slab_init_writes_inside:
  assumes "slab_init a m rgn bytes cfg lk = (SLAB_OK, a', m')" and "x \<notin> extent rgn bytes"
  shows "m' x = m x"
proof -
  define a0 where "a0 = (zero_slab lk)\<lparr>region := rgn, region_bytes := bytes,
      bins := (\<lambda>i. \<lparr>block_size = 32 * 2 ^ i, bucket_count = cfg i, blocks_in_use = 0, peak_in_use = 0,
        int_top = 0, int_stack = 0, int_blocks = 0\<rparr>)\<rparr>"
  obtain a1 c1 where f1: "fold carve_stack [0..<16] (a0, rgn) = (a1, c1)" by force
  obtain a2 m2 c2 where f2: "fold carve_blocks [0..<16] (a1, m, c1) = (a2, m2, c2)" by (metis prod_cases3)
  have c1: "a1 = a0\<lparr>bins := (\<lambda>i. if i < 16 \<and> cfg i \<noteq> 0
        then (bins a0 i)\<lparr>int_stack := rgn + stacks_before cfg i\<rparr> else bins a0 i)\<rparr>"
    "c1 = rgn + stacks_before cfg 16"
    using carve_stacks [of a0 cfg 16 rgn] f1 by (simp_all add: a0_def)
  have car: "carved cfg rgn a0 0 (a1, m, c1)"
    by (simp add: carved_def c1 a0_def zero_slab_def payload_def btop_def align8_facts)
  have "m' = m2" "c2 - rgn \<le> bytes" using assms(1) f1 f2 by (auto simp: slab_init_def a0_def [symmetric] Let_def split: if_splits)
  then show ?thesis using carve_all_frame [OF car _ f2, of x] assms(2) by auto
qed

lemma slab_init_refuses:
  "bytes < slab_required_bytes cfg \<Longrightarrow> fst (slab_init a m rgn bytes cfg lk) \<noteq> SLAB_OK"
  by (simp add: slab_init_def)

end
