(* ===== verification/Slab_Safety.thy ===== *)
theory Slab_Safety
  imports Slab_Init
begin

text \<open>
  The contract of the slab allocator, stated over its set of live blocks, and the interface
  \<open>block_allocator\<close> its clients (the bump arena, the loader, the VM system) rely on. The
  interface is interpreted on the modelled \<open>slab_alloc\<close> and \<open>slab_free\<close>.
\<close>

section \<open>Live blocks\<close>

lemma slab_liveE:
  assumes "p \<in> slab_live a m"
  obtains i b where "i < 16" "b < bcount a i" "p = user_at a i b" "user_at a i b \<notin> set (free_list a m i)"
  using assms by (auto simp: slab_live_def)

lemma live_block_size:
  assumes inv: "slab_inv a m" and i: "i < 16" "b < bcount a i" "user_at a i b \<notin> set (free_list a m i)"
  shows "slab_block_size a m (user_at a i b) = payload i"
proof -
  have lay: "slab_layout a" by (rule slab_inv_layout [OF inv])
  have "ld32 m (block_at a i b) = SLAB_MAGIC_ALLOCATED" "ld32 m (block_at a i b + 4) = of_nat i"
    using slab_inv_bin [OF inv i(1)] i by (auto simp: bin_ok_def)
  moreover have "unat (of_nat i :: u32) = i" using i(1) by (simp add: unat_of_nat)
  moreover have "block_size (bins a i) = payload i" using lay i(1) by (simp add: slab_layout_def)
  ultimately show ?thesis using block_bounds [OF lay i(1,2)] i(1) btotal_ge [of i]
    by (simp add: slab_block_size_def header_user Let_def) (simp add: user_at_def)
qed

lemma payload_in_block: "extent (user_at a i b) (payload i) \<subseteq> extent (block_at a i b + 8) (btotal i - 8)"
  by (simp add: user_at_def btotal_def)

lemma live_nonzero: "p \<in> slab_live a m \<Longrightarrow> p \<noteq> 0"
  by (auto simp: slab_live_def user_at_def)

lemma slab_fail_inv:
  assumes "slab_fail a e = (a', e')"
  shows "slab_inv a' m = slab_inv a m" "slab_live a' m = slab_live a m"
proof -
  have a': "a' = a\<lparr>failed_alloc_count := failed_alloc_count a + 1\<rparr>"
    using assms by (auto simp: slab_fail_def Let_def split: prod.splits)
  have "slab_layout a' = slab_layout a" by (rule slab_layout_cong) (simp_all add: a')
  moreover have "free_list a' m i = free_list a m i" "bcount a' i = bcount a i" "user_at a' i = user_at a i"
    "bin_ok a' m i = bin_ok a m i" for i
    by (simp_all add: a' free_list_def geometry bin_ok_def fun_eq_iff)
  ultimately show "slab_inv a' m = slab_inv a m" "slab_live a' m = slab_live a m"
    by (simp_all add: slab_inv_def slab_live_def a')
qed

text \<open>When a request succeeds, and what a refusal leaves behind.\<close>

lemma slab_alloc_refused:
  assumes inv: "slab_inv a m"
    and "n = 0 \<or> size_to_bin n \<ge> 16 \<or> btop a (size_to_bin n) = 0"
  obtains a' e' where "slab_alloc a m e n = (0, a', m, e')" "slab_inv a' m" "slab_live a' m = slab_live a m"
proof -
  obtain a' e' where f: "slab_fail a e = (a', e')" by force
  have "bitmap a AND push_bit (size_to_bin n) 1 = 0" if "size_to_bin n < 16" "btop a (size_to_bin n) = 0"
    using slab_inv_bin [OF inv that(1)] that(2) by (simp add: bin_ok_def bit_test del: push_bit_of_1)
  then have "slab_alloc a m e n = (0, a, m, e) \<or> slab_alloc a m e n = (0, a', m, e')"
    using assms(2) f by (auto simp: slab_alloc_def Let_def simp del: push_bit_of_1)
  then show thesis using that slab_fail_inv [OF f, of m] inv by metis
qed

lemma slab_alloc_cases:
  assumes inv: "slab_inv a m"
  obtains (refused) a' e' where "slab_alloc a m e n = (0, a', m, e')" "slab_inv a' m"
      "slab_live a' m = slab_live a m" "n = 0 \<or> size_to_bin n \<ge> 16 \<or> btop a (size_to_bin n) = 0"
  | (granted) b a' m' e' where "slab_alloc a m e n = (user_at a (size_to_bin n) b, a', m', e')"
      "size_to_bin n < 16" "b < bcount a (size_to_bin n)"
      "m' = st32 m (block_at a (size_to_bin n) b) SLAB_MAGIC_ALLOCATED"
      "user_at a (size_to_bin n) b \<notin> slab_live a m" "slab_inv a' m'"
      "slab_live a' m' = insert (user_at a (size_to_bin n) b) (slab_live a m)"
      "slab_block_size a' m' (user_at a (size_to_bin n) b) = payload (size_to_bin n)"
      "n \<noteq> 0" "btop a (size_to_bin n) \<noteq> 0"
proof (cases "n = 0 \<or> size_to_bin n \<ge> 16 \<or> btop a (size_to_bin n) = 0")
  case True
  show thesis by (rule slab_alloc_refused [OF inv True, of e]) (rule refused [OF _ _ _ True])
next
  case False
  then have n: "n \<noteq> 0" "size_to_bin n < 16" "btop a (size_to_bin n) \<noteq> 0" by auto
  then obtain k where top: "btop a (size_to_bin n) = Suc k" by (metis not0_implies_Suc)
  show thesis
    by (rule slab_alloc_live [OF inv n(1) refl n(2) top, of e])
      (rule granted [OF _ n(2) _ _ _ _ _ _ n(1,3)])
qed

text \<open>Writing one block's header never touches the payload of a live block.\<close>

lemma payload_unchanged:
  assumes inv: "slab_inv a m" and i: "i < 16" "b < bcount a i" and q: "q \<in> slab_live a m"
    and x: "x \<in> extent q (slab_block_size a m q)"
  shows "st32 m' (block_at a i b) v x = m' x"
proof -
  have lay: "slab_layout a" by (rule slab_inv_layout [OF inv])
  obtain j d where j: "j < 16" "d < bcount a j" "q = user_at a j d" "user_at a j d \<notin> set (free_list a m j)"
    using q by (rule slab_liveE)
  have xp: "block_at a j d + 8 \<le> x" "x < block_at a j d + btotal j"
    using x j live_block_size [OF inv j(1,2,4)] by (simp_all add: user_at_def btotal_def)
  have "x \<notin> extent (block_at a i b) 4"
  proof (cases "(i, b) = (j, d)")
    case False
    from block_apart [OF lay i(1) j(1) i(2) j(2) False] show ?thesis
      using xp btotal_ge [of i] btotal_ge [of j] by (auto simp: apart_def)
  qed (use xp in auto)
  then show ?thesis by (rule store_le_other)
qed

text \<open>
  C7. Allocation: over a well-formed allocator, a request is granted exactly when its bin exists
  and has a free block. A granted block was not live before and is the one addition to the live
  set, its usable size is the bin's, and no byte of a live block changes; a refusal changes
  neither memory nor live set. The invariant is kept in every case.
\<close>

theorem slab_alloc_contract:
  assumes "slab_inv a m"
  shows "case slab_alloc a m e n of (p, a', m', e') \<Rightarrow>
     slab_inv a' m' \<and>
     (p \<noteq> 0 \<longleftrightarrow> n \<noteq> 0 \<and> size_to_bin n < 16 \<and> btop a (size_to_bin n) \<noteq> 0) \<and>
     (if p = 0 then m' = m \<and> slab_live a' m' = slab_live a m
      else p \<notin> slab_live a m \<and> slab_live a' m' = insert p (slab_live a m) \<and>
        slab_block_size a' m' p = 32 * 2 ^ size_to_bin n \<and>
        (\<forall>q \<in> slab_live a m. \<forall>x \<in> extent q (slab_block_size a m q). m' x = m x))"
proof (rule slab_alloc_cases [OF assms, of e n])
  fix a' e'
  assume "slab_alloc a m e n = (0, a', m, e')" "slab_inv a' m" "slab_live a' m = slab_live a m"
    "n = 0 \<or> size_to_bin n \<ge> 16 \<or> btop a (size_to_bin n) = 0"
  then show ?thesis by auto
next
  fix b a' m' e'
  assume *: "slab_alloc a m e n = (user_at a (size_to_bin n) b, a', m', e')"
      "size_to_bin n < 16" "b < bcount a (size_to_bin n)"
      "m' = st32 m (block_at a (size_to_bin n) b) SLAB_MAGIC_ALLOCATED"
      "user_at a (size_to_bin n) b \<notin> slab_live a m" "slab_inv a' m'"
      "slab_live a' m' = insert (user_at a (size_to_bin n) b) (slab_live a m)"
      "slab_block_size a' m' (user_at a (size_to_bin n) b) = payload (size_to_bin n)"
      "n \<noteq> 0" "btop a (size_to_bin n) \<noteq> 0"
  have "\<forall>q \<in> slab_live a m. \<forall>x \<in> extent q (slab_block_size a m q). m' x = m x"
    using payload_unchanged [OF assms *(2,3)] *(4) by blast
  moreover have "user_at a (size_to_bin n) b \<noteq> 0" by (simp add: user_at_def)
  ultimately show ?thesis using * by (simp add: payload_def)
qed


text \<open>A two-block allocator for the witnesses: bin 0 only, 104 bytes at address 8.\<close>

definition demo_config :: SlabConfig where "demo_config = (\<lambda>i. if i = 0 then 2 else 0)"

lemma demo_slab:
  obtains a m where "slab_init (zero_slab slab_null_locker) (\<lambda>_. 0) 8 104 demo_config slab_null_locker =
      (SLAB_OK, a :: unit SlabAllocator, m)"
    and "slab_inv a m" "slab_live a m = {}" "btop a 0 = 2"
proof -
  have "slab_required_bytes demo_config \<le> 104" by code_simp
  then show thesis
    by (rule slab_init_establishes [of 8 104 demo_config "zero_slab slab_null_locker" "\<lambda>_. 0" slab_null_locker, rotated 2])
      (auto intro!: that simp: cnt_def demo_config_def)
qed

lemma demo_slab_live:
  obtains a :: "unit SlabAllocator" and m p where "slab_inv a m" "slab_live a m = {p}" "btop a 0 = 1"
proof -
  obtain a :: "unit SlabAllocator" and m where a: "slab_inv a m" "slab_live a m = {}" "btop a 0 = 2"
    using demo_slab by metis
  have bin: "size_to_bin 20 = 0" by code_simp
  have pre: "(20 :: u64) \<noteq> 0" "(0::nat) < 16" "btop a 0 = Suc 1" using a(3) by simp_all
  show thesis
  proof (rule slab_alloc_result [OF a(1) pre(1) bin pre(2,3), of "()"])
    fix b a'
    assume al: "slab_alloc a m () 20 = (user_at a 0 b, a', st32 m (block_at a 0 b) SLAB_MAGIC_ALLOCATED,
        lk_unlock (locker a) (snd (lk_lock (locker a) ())) (fst (lk_lock (locker a) ())))" and top: "btop a' 0 = 1"
    show thesis
    proof (rule slab_alloc_live [OF a(1) pre(1) bin pre(2,3), of "()"])
      fix d a2 m2 e2
      assume "slab_alloc a m () 20 = (user_at a 0 d, a2, m2, e2)" "slab_inv a2 m2"
        "slab_live a2 m2 = insert (user_at a 0 d) (slab_live a m)"
      with al top a(2) show thesis using that [of a2 m2 "user_at a 0 d"] by simp
    qed
  qed
qed

theorem slab_alloc_contract_witness:
  "\<exists>(a :: unit SlabAllocator) m p a' m' e'. slab_inv a m \<and>
     slab_alloc a m () 20 = (p, a', m', e') \<and> p \<noteq> 0 \<and> slab_live a' m' = {p}"
proof -
  obtain a :: "unit SlabAllocator" and m where a: "slab_inv a m" "slab_live a m = {}" "btop a 0 = 2"
    using demo_slab by metis
  obtain p a' m' e' where al: "slab_alloc a m () 20 = (p, a', m', e')" by (metis prod_cases4)
  have "size_to_bin 20 = 0" by code_simp
  with slab_alloc_contract [OF a(1), where e = "()" and n = 20] al a have "p \<noteq> 0" "slab_live a' m' = {p}" by auto
  with a(1) al show ?thesis by blast
qed

lemma slab_free_payloads:
  assumes inv: "slab_inv a m" and p: "p \<in> slab_live a m" and f: "slab_free a m e p = (SLAB_OK, a', m', e')"
    and q: "q \<in> slab_live a m" and x: "x \<in> extent q (slab_block_size a m q)"
  shows "m' x = m x"
proof -
  obtain i b where i: "i < 16" "b < bcount a i" "p = user_at a i b" "user_at a i b \<notin> set (free_list a m i)"
    using p by (rule slab_liveE)
  have lay: "slab_layout a" by (rule slab_inv_layout [OF inv])
  have room: "btop a i < bcount a i" by (rule live_has_room [OF inv i(1,2,4)])
  obtain a2 where "slab_free a m e (user_at a i b) =
        (SLAB_OK, a2, st32 (st64 m (slot_at a i (btop a i)) (of_nat (user_at a i b))) (block_at a i b) SLAB_MAGIC_FREED,
         lk_unlock (locker a) (snd (lk_lock (locker a) e)) (fst (lk_lock (locker a) e)))"
    by (rule slab_free_result [OF inv i(1,2,4), of e])
  then have m': "m' = st32 (st64 m (slot_at a i (btop a i)) (of_nat (user_at a i b))) (block_at a i b) SLAB_MAGIC_FREED"
    using f i(3) by simp
  obtain j d where j: "j < 16" "d < bcount a j" "q = user_at a j d" "user_at a j d \<notin> set (free_list a m j)"
    using q by (rule slab_liveE)
  have "block_at a j d + 8 \<le> x" "x < block_at a j d + btotal j"
    using x j live_block_size [OF inv j(1,2,4)] by (simp_all add: user_at_def btotal_def)
  then have "x \<notin> extent (slot_at a i (btop a i)) 8"
    using slot_block_apart [OF lay i(1) j(1) room j(2)] btotal_ge [of j] by (auto simp: apart_def)
  then show ?thesis
    unfolding m' payload_unchanged [OF inv i(1,2) q x] by (rule store_le_other)
qed

text \<open>
  C8. Release: freeing a live block succeeds, removes exactly that block from the live set,
  keeps the invariant and changes no byte of any live block's payload; freeing the same
  pointer again is detected and changes nothing; a pointer outside the region is rejected.
\<close>

theorem slab_free_contract:
  assumes inv: "slab_inv a m" and p: "p \<in> slab_live a m"
  shows "\<exists>a' m' e'. slab_free a m e p = (SLAB_OK, a', m', e') \<and> slab_inv a' m' \<and>
     slab_live a' m' = slab_live a m - {p} \<and>
     (\<forall>q \<in> slab_live a m. \<forall>x \<in> extent q (slab_block_size a m q). m' x = m x) \<and>
     slab_free a' m' e' p = (SLAB_ERR_DOUBLE_FREE, a', m', e')"
proof -
  obtain a' m' e' where f: "slab_free a m e p = (SLAB_OK, a', m', e')" "slab_inv a' m'"
    "slab_live a' m' = slab_live a m - {p}" "slab_free a' m' e' p = (SLAB_ERR_DOUBLE_FREE, a', m', e')"
    by (rule slab_free_live [OF inv p, of e])
  with slab_free_payloads [OF inv p f(1)] show ?thesis by blast
qed

theorem slab_free_contract_witness:
  "\<exists>(a :: unit SlabAllocator) m p a' m' e'. p \<in> slab_live a m \<and>
     slab_free a m () p = (SLAB_OK, a', m', e') \<and> slab_live a' m' = slab_live a m - {p}"
proof -
  obtain a :: "unit SlabAllocator" and m p where a: "slab_inv a m" "slab_live a m = {p}"
    using demo_slab_live by metis
  then have "p \<in> slab_live a m" by simp
  moreover obtain a' m' e' where "slab_free a m () p = (SLAB_OK, a', m', e')" "slab_live a' m' = slab_live a m - {p}"
    using slab_free_contract [OF a(1) calculation, of "()"] by blast
  ultimately show ?thesis by (intro exI conjI)
qed

text \<open>
  C6. Initialisation: given a region of at least \<open>slab_required_bytes\<close> bytes, \<open>slab_init\<close> succeeds
  (its last sanity check never fires), establishes the invariant, and every block of the
  configuration starts on its bin's free stack.
\<close>

theorem slab_init_correct:
  assumes "0 < rgn" and "rgn + bytes < 2 ^ 64" and "slab_required_bytes cfg \<le> bytes"
  shows "\<exists>a' m'. slab_init a m rgn bytes cfg lk = (SLAB_OK, a', m') \<and> slab_inv a' m' \<and>
     slab_live a' m' = {} \<and> (\<forall>i<16. length (free_list a' m' i) = unat (cfg i))"
proof -
  obtain a' m' where "slab_init a m rgn bytes cfg lk = (SLAB_OK, a', m')" "slab_inv a' m'"
    "slab_live a' m' = {}" "\<And>i. i < 16 \<Longrightarrow> btop a' i = cnt cfg i"
    using slab_init_establishes [OF assms, of a m lk] by metis
  then show ?thesis by (intro exI [of _ a'] exI [of _ m']) (simp add: free_list_def cnt_def)
qed

theorem slab_init_correct_witness:
  "slab_required_bytes demo_config = 104 \<and>
   (\<exists>(a :: unit SlabAllocator) m. slab_init (zero_slab slab_null_locker) (\<lambda>_. 0) 8 104 demo_config slab_null_locker =
      (SLAB_OK, a, m) \<and> slab_inv a m)"
proof -
  have "slab_required_bytes demo_config = 104" by code_simp
  moreover have "(0::nat) < 8" "(8::nat) + 104 < 2 ^ 64" by simp_all
  ultimately show ?thesis
    using slab_init_correct [of 8 104 demo_config "zero_slab slab_null_locker" "\<lambda>_. 0" slab_null_locker] by auto
qed

section \<open>The interface to the allocator's clients\<close>

locale block_allocator =
  fixes alloc :: "'s \<Rightarrow> u64 \<Rightarrow> hptr \<times> 's"
    and release :: "'s \<Rightarrow> hptr \<Rightarrow> SlabResult \<times> 's"
    and inv :: "'s \<Rightarrow> bool"
    and live :: "'s \<Rightarrow> hptr set"
  assumes alloc_inv: "inv s \<Longrightarrow> alloc s n = (p, s') \<Longrightarrow> inv s'"
    and alloc_refused: "inv s \<Longrightarrow> alloc s n = (0, s') \<Longrightarrow> live s' = live s"
    and alloc_granted: "inv s \<Longrightarrow> alloc s n = (p, s') \<Longrightarrow> p \<noteq> 0 \<Longrightarrow> p \<notin> live s \<and> live s' = insert p (live s)"
    and release_live: "inv s \<Longrightarrow> p \<in> live s \<Longrightarrow>
      \<exists>s'. release s p = (SLAB_OK, s') \<and> inv s' \<and> live s' = live s - {p}"
begin

text \<open>A block taken and given back leaves the live set as it was, whatever happened between.\<close>

lemma borrow:
  assumes "inv s" "alloc s n = (p, s1)" "p \<noteq> 0" and "inv s2" "live s2 = live s1"
  shows "\<exists>s3. release s2 p = (SLAB_OK, s3) \<and> inv s3 \<and> live s3 = live s"
proof -
  have "p \<notin> live s" "live s1 = insert p (live s)" using alloc_granted assms(1-3) by blast+
  then show ?thesis using release_live [OF assms(4), of p] assms(5) by auto
qed

lemma alloc_fresh:
  assumes "inv s" "alloc s n = (p, s1)" "p \<noteq> 0" "alloc s1 k = (q, s2)" "q \<noteq> 0"
  shows "p \<noteq> q"
  using alloc_granted [OF assms(1-3)] alloc_granted [OF alloc_inv [OF assms(1,2)] assms(4,5)] by blast

end

lemma slab_alloc_step:
  assumes inv: "slab_inv a m" and al: "slab_alloc a m e n = (p, a', m', e')"
  shows "slab_inv a' m' \<and>
     (if p = 0 then slab_live a' m' = slab_live a m
      else p \<notin> slab_live a m \<and> slab_live a' m' = insert p (slab_live a m))"
proof (rule slab_alloc_cases [OF inv, of e n])
  fix a1 e1
  assume "slab_alloc a m e n = (0, a1, m, e1)" "slab_inv a1 m" "slab_live a1 m = slab_live a m"
  with al show ?thesis by simp
next
  fix b a1 m1 e1
  assume *: "slab_alloc a m e n = (user_at a (size_to_bin n) b, a1, m1, e1)"
    "user_at a (size_to_bin n) b \<notin> slab_live a m" "slab_inv a1 m1"
    "slab_live a1 m1 = insert (user_at a (size_to_bin n) b) (slab_live a m)"
  have "user_at a (size_to_bin n) b \<noteq> 0" by (simp add: user_at_def)
  with * al show ?thesis by simp
qed

lemma slab_free_step:
  assumes "slab_inv a m" and "p \<in> slab_live a m"
  shows "\<exists>a' m' e'. slab_free a m e p = (SLAB_OK, a', m', e') \<and> slab_inv a' m' \<and> slab_live a' m' = slab_live a m - {p}"
  by (rule slab_free_live [OF assms, of e]) blast

interpretation slab_mem: block_allocator
  "\<lambda>(a, m, e) n. slab_alloc a m e n" "\<lambda>(a, m, e) p. slab_free a m e p"
  "\<lambda>(a, m, e). slab_inv a m" "\<lambda>(a, m, e). slab_live a m"
proof (unfold_locales, goal_cases)
  case (1 s n p s')
  then show ?case by (cases s; cases s') (simp add: slab_alloc_step)
next
  case (2 s n s')
  then show ?case using slab_alloc_step [where p = 0] by (cases s; cases s') fastforce
next
  case (3 s n p s')
  then show ?case using slab_alloc_step [where p = p] by (cases s; cases s') fastforce
next
  case (4 s p)
  then show ?case using slab_free_step by (cases s) fastforce
qed

end
