(* ===== verification/Slab_Client.thy ===== *)
theory Slab_Client
  imports Slab_Safety
begin

text \<open>
  The slab allocator from its clients' side: what a client may write without harm, and
  resizing. The last theorem shows what the truncated size computation of \<open>Slab_Size\<close> means
  for a caller.
\<close>

section \<open>Clients writing their blocks\<close>

lemma client_write_frame:
  assumes inv: "slab_inv a m" and i: "i < 16" "b < bcount a i"
    and wr: "\<And>x. x \<notin> extent (user_at a i b) (payload i) \<Longrightarrow> m' x = m x"
  shows "slab_inv a m'" and "slab_live a m' = slab_live a m"
    and "q \<in> slab_live a m \<Longrightarrow> slab_block_size a m' q = slab_block_size a m q"
proof -
  have lay: "slab_layout a" by (rule slab_inv_layout [OF inv])
  have same: "load_le n m' q = (load_le n m q :: 'w::len word)"
    if "apart (user_at a i b) (payload i) q n" for n q
    using that by (intro load_le_eqI wr) (auto simp: apart_def)
  have sl: "ld64 m' (slot_at a j k) = ld64 m (slot_at a j k)" if "j < 16" "k < bcount a j" for j k
  proof (rule same)
    show "apart (user_at a i b) (payload i) (slot_at a j k) 8"
      using slot_block_apart [OF lay that(1) i(1) that(2) i(2)]
      by (auto simp: apart_def user_at_def btotal_def)
  qed
  have hd: "ld32 m' (block_at a j d) = ld32 m (block_at a j d)"
    "ld32 m' (block_at a j d + 4) = ld32 m (block_at a j d + 4)" if "j < 16" "d < bcount a j" for j d
  proof -
    have "apart (user_at a i b) (payload i) (block_at a j d) 8"
    proof (cases "(i, b) = (j, d)")
      case False
      from block_apart [OF lay i(1) that(1) i(2) that(2) False] show ?thesis
        using btotal_ge [of j] by (auto simp: apart_def user_at_def btotal_def)
    qed (auto simp: user_at_def apart_def)
    then have "apart (user_at a i b) (payload i) (block_at a j d) 4"
      "apart (user_at a i b) (payload i) (block_at a j d + 4) 4" by (auto simp: apart_def)
    then show "ld32 m' (block_at a j d) = ld32 m (block_at a j d)"
      "ld32 m' (block_at a j d + 4) = ld32 m (block_at a j d + 4)" by (simp_all add: same)
  qed
  have "bin_ok a m' j" if "j < 16" for j
    by (rule bin_ok_frame [OF slab_inv_bin [OF inv that]]) (use sl hd that in simp_all)
  moreover have "free_list a m' j = free_list a m j" if "j < 16" for j
    using slab_inv_bin [OF inv that] sl [OF that] by (intro free_list_frame) (auto simp: bin_ok_def)
  then have live: "slab_live a m' = slab_live a m" unfolding slab_live_def by (metis (no_types, lifting))
  ultimately show inv': "slab_inv a m'" and "slab_live a m' = slab_live a m"
    using inv by (simp_all add: slab_inv_def)
  fix q assume q: "q \<in> slab_live a m"
  obtain j d where j: "j < 16" "d < bcount a j" "q = user_at a j d" "user_at a j d \<notin> set (free_list a m j)"
    using q by (rule slab_liveE)
  obtain k c where k: "k < 16" "c < bcount a k" "q = user_at a k c" "user_at a k c \<notin> set (free_list a m' k)"
    using q live by (metis slab_liveE)
  have "k = j" using user_at_inject [OF lay k(1) j(1) k(2) j(2)] k(3) j(3) by simp
  then show "slab_block_size a m' q = slab_block_size a m q"
    using live_block_size [OF inv j(1,2,4)] live_block_size [OF inv' k(1,2,4)] j(3) k(3) by simp
qed

lemma slab_write_live:
  assumes inv: "slab_inv a m" and p: "p \<in> slab_live a m"
    and wr: "\<And>x. x \<notin> extent p (slab_block_size a m p) \<Longrightarrow> m' x = m x"
  shows "slab_inv a m'" "slab_live a m' = slab_live a m"
    "q \<in> slab_live a m \<Longrightarrow> slab_block_size a m' q = slab_block_size a m q"
proof -
  obtain i b where i: "i < 16" "b < bcount a i" "p = user_at a i b" "user_at a i b \<notin> set (free_list a m i)"
    using p by (rule slab_liveE)
  have "m' x = m x" if "x \<notin> extent (user_at a i b) (payload i)" for x
    using that wr live_block_size [OF inv i(1,2,4)] i(3) by simp
  from client_write_frame [OF inv i(1,2) this] show "slab_inv a m'" "slab_live a m' = slab_live a m"
    "q \<in> slab_live a m \<Longrightarrow> slab_block_size a m' q = slab_block_size a m q" by blast+
qed

text \<open>
  Robustness: a client that writes only inside its own live block cannot break the allocator.
  Invariant, live set and every block's size are as before.
\<close>

theorem slab_client_write:
  assumes inv: "slab_inv a m" and p: "p \<in> slab_live a m"
    and wr: "\<And>x. x \<notin> extent p (slab_block_size a m p) \<Longrightarrow> m' x = m x"
  shows "slab_inv a m' \<and> slab_live a m' = slab_live a m \<and>
     (\<forall>q \<in> slab_live a m. slab_block_size a m' q = slab_block_size a m q)"
  using slab_write_live [OF assms] by blast

theorem slab_client_write_witness:
  "\<exists>(a :: unit SlabAllocator) m p. p \<in> slab_live a m \<and> slab_inv a m \<and> slab_inv a (m(p := 42))"
proof -
  obtain a :: "unit SlabAllocator" and m p where a: "slab_inv a m" "slab_live a m = {p}"
    using demo_slab_live by metis
  have p: "p \<in> slab_live a m" using a(2) by simp
  obtain i b where i: "i < 16" "b < bcount a i" "p = user_at a i b" "user_at a i b \<notin> set (free_list a m i)"
    using p by (rule slab_liveE)
  have "p \<in> extent p (slab_block_size a m p)"
    using live_block_size [OF a(1) i(1,2,4)] i(3) by (simp add: payload_def)
  then have "slab_inv a (m(p := 42))" using slab_client_write [OF a(1) p, of "m(p := 42)"] by fastforce
  with p a(1) show ?thesis by blast
qed

section \<open>Resizing\<close>

lemma payload_grows:
  assumes "payload i < unat n" and "unat n + 8 < 2 ^ 32" and "size_to_bin n < 16"
  shows "payload i < payload (size_to_bin n)"
proof -
  have "unat n + 8 \<le> 32 * 2 ^ size_to_bin n"
    using size_to_bin_exact [OF assms(2)] assms(3) by (auto split: if_splits)
  then show ?thesis using assms(1) unfolding payload_def by linarith
qed

text \<open>
  C10. Resizing a live block (requests below 4 GB): size zero frees it; a size its bin already
  holds returns it in place; otherwise either nothing changes and NULL is returned, or the
  result is a new live block that starts with all the old block's bytes, in place of the old one
  in the live set. The invariant is kept.
\<close>

theorem slab_realloc_contract:
  assumes inv: "slab_inv a m" and p: "p \<in> slab_live a m" and n: "unat n + 8 < 2 ^ 32"
  shows "case slab_realloc a m e p n of (np, a', m', e') \<Rightarrow>
     slab_inv a' m' \<and>
     (if n = 0 then np = 0 \<and> slab_live a' m' = slab_live a m - {p}
      else if unat n \<le> slab_block_size a m p then np = p \<and> a' = a \<and> m' = m
      else if np = 0 then m' = m \<and> slab_live a' m' = slab_live a m
      else np \<notin> slab_live a m \<and> slab_live a' m' = insert np (slab_live a m - {p}) \<and>
        load_bytes m' np (slab_block_size a m p) = load_bytes m p (slab_block_size a m p))"
proof -
  obtain i b where i: "i < 16" "b < bcount a i" "p = user_at a i b" "user_at a i b \<notin> set (free_list a m i)"
    using p by (rule slab_liveE)
  have size: "slab_block_size a m p = payload i" using live_block_size [OF inv i(1,2,4)] i(3) by simp
  have p0: "p \<noteq> 0" by (rule live_nonzero [OF p])
  consider "n = 0" | "n \<noteq> 0" "unat n \<le> payload i" | "n \<noteq> 0" "payload i < unat n" by linarith
  then show ?thesis
  proof cases
    case 1
    obtain a' m' e' where "slab_free a m e p = (SLAB_OK, a', m', e')" "slab_inv a' m'"
      "slab_live a' m' = slab_live a m - {p}" using slab_free_step [OF inv p] by blast
    then show ?thesis using 1 p0 by (simp add: slab_realloc_def)
  next
    case 2
    have "payload i \<noteq> 0" by (simp add: payload_def)
    then show ?thesis using 2 p0 size inv by (simp add: slab_realloc_def Let_def)
  next
    case 3
    have pi: "payload i \<noteq> 0" by (simp add: payload_def)
    show ?thesis
    proof (rule slab_alloc_cases [OF inv, of e n])
      fix a1 e1
      assume "slab_alloc a m e n = (0, a1, m, e1)" "slab_inv a1 m" "slab_live a1 m = slab_live a m"
      then show ?thesis using 3 p0 pi size by (simp add: slab_realloc_def Let_def)
    next
      let ?i = "size_to_bin n"
      fix c a1 m1 e1
      assume al: "slab_alloc a m e n = (user_at a ?i c, a1, m1, e1)" "?i < 16" "c < bcount a ?i"
        "m1 = st32 m (block_at a ?i c) SLAB_MAGIC_ALLOCATED" "user_at a ?i c \<notin> slab_live a m" "slab_inv a1 m1"
        "slab_live a1 m1 = insert (user_at a ?i c) (slab_live a m)"
        "slab_block_size a1 m1 (user_at a ?i c) = payload ?i"
      define np where "np = user_at a ?i c"
      define m2 where "m2 = memcpy m1 np p (payload i)"
      have np0: "np \<noteq> 0" by (simp add: np_def user_at_def)
      have np1: "np \<in> slab_live a1 m1" using al(7) by (simp add: np_def)
      obtain j d where j: "j < 16" "d < bcount a1 j" "np = user_at a1 j d" "user_at a1 j d \<notin> set (free_list a1 m1 j)"
        using np1 by (rule slab_liveE)
      have "payload j = payload ?i" using live_block_size [OF al(6) j(1,2,4)] al(8) j(3) np_def by simp
      then have big: "payload i < payload j" using payload_grows [OF 3(2) n al(2)] by simp
      have m2: "m2 x = m1 x" if "x \<notin> extent np (payload j)" for x
        using that big by (auto simp: m2_def memcpy_def store_bytes_def)
      have fr: "slab_inv a1 m2" "slab_live a1 m2 = slab_live a1 m1"
        "\<And>q. q \<in> slab_live a1 m1 \<Longrightarrow> slab_block_size a1 m2 q = slab_block_size a1 m1 q"
        using client_write_frame [OF al(6) j(1,2), of m2] m2 j(3) by simp_all
      have p2: "p \<in> slab_live a1 m2" using fr(2) al(7) p by simp
      obtain a3 m3 e3 where f: "slab_free a1 m2 e1 p = (SLAB_OK, a3, m3, e3)" "slab_inv a3 m3"
        "slab_live a3 m3 = slab_live a1 m2 - {p}"
        using slab_free_step [OF fr(1) p2, of e1] by blast
      have np2: "np \<in> slab_live a1 m2" "slab_block_size a1 m2 np = payload j"
        using np1 fr(2,3) live_block_size [OF al(6) j(1,2,4)] j(3) by simp_all
      have f4: "m3 x = m2 x" if "x \<in> extent np (payload j)" for x
        using slab_free_payloads [OF fr(1) p2 f(1) np2(1)] np2(2) that by simp
      have "slab_realloc a m e p n = (np, a3, m3, e3)"
        using 3 p0 pi size al(1) f(1) np0 by (simp add: slab_realloc_def Let_def np_def m2_def)
      moreover have "slab_live a3 m3 = insert np (slab_live a m - {p})"
        using f(3) fr(2) al(5,7) p by (auto simp: np_def)
      moreover have "load_bytes m3 np (payload i) = load_bytes m2 np (payload i)"
        using f4 big by (intro load_bytes_eqI) auto
      moreover have "load_bytes m2 np (payload i) = load_bytes m1 p (payload i)" by (simp add: m2_def memcpy_def)
      moreover have "load_bytes m1 p (payload i) = load_bytes m p (payload i)"
        using payload_unchanged [OF inv al(2,3) p, of _ m] size al(4) by (intro load_bytes_eqI) auto
      ultimately show ?thesis using 3 size np0 f(2) al(5) by (simp add: np_def)
    qed
  qed
qed

theorem slab_realloc_contract_witness:
  "\<exists>(a :: unit SlabAllocator) m p a' m' e'. p \<in> slab_live a m \<and>
     slab_realloc a m () p 0 = (0, a', m', e') \<and> slab_live a' m' = slab_live a m - {p}"
proof -
  obtain a :: "unit SlabAllocator" and m p where a: "slab_inv a m" "slab_live a m = {p}"
    using demo_slab_live by metis
  then have p: "p \<in> slab_live a m" by simp
  obtain np a' m' e' where r: "slab_realloc a m () p 0 = (np, a', m', e')" by (metis prod_cases4)
  from slab_realloc_contract [OF a(1) p, of 0 "()"] r have "np = 0" "slab_live a' m' = slab_live a m - {p}"
    by simp_all
  with p r show ?thesis by (intro exI conjI) simp_all
qed

section \<open>What an allocation leaves alone\<close>

lemma slab_alloc_geometry:
  assumes "slab_alloc a m e n = (p, a', m', e')"
  shows "region a' = region a" "region_bytes a' = region_bytes a" "bucket_count (bins a' i) = bucket_count (bins a i)"
    "int_blocks (bins a' i) = int_blocks (bins a i)"
  using assms by (auto simp: slab_alloc_def slab_fail_def Let_def split: if_splits prod.splits)

lemma live_size_geometry:
  assumes inv: "slab_inv a m" "slab_inv a' m'"
    and same: "\<And>j. bucket_count (bins a' j) = bucket_count (bins a j)" "\<And>j. int_blocks (bins a' j) = int_blocks (bins a j)"
    and q: "q \<in> slab_live a m" "q \<in> slab_live a' m'"
  shows "slab_block_size a' m' q = slab_block_size a m q"
proof -
  have same: "user_at a' j = user_at a j" "bcount a' j = bcount a j" for j
    using same by (simp_all add: geometry fun_eq_iff)
  obtain j d where j: "j < 16" "d < bcount a j" "q = user_at a j d" "user_at a j d \<notin> set (free_list a m j)"
    using q(1) by (rule slab_liveE)
  obtain k c where k: "k < 16" "c < bcount a' k" "q = user_at a' k c" "user_at a' k c \<notin> set (free_list a' m' k)"
    using q(2) by (rule slab_liveE)
  have "k = j"
    using user_at_inject [OF slab_inv_layout [OF inv(1)] k(1) j(1) _ j(2), of c] k(2,3) j(3) same by simp
  then show ?thesis
    using live_block_size [OF inv(1) j(1,2,4)] live_block_size [OF inv(2) k(1,2,4)] j(3) k(3) by simp
qed

lemma alloc_live_size:
  assumes al: "slab_alloc a m e n = (p, a', m', e')" and inv: "slab_inv a m" "slab_inv a' m'"
    and q: "q \<in> slab_live a m" "q \<in> slab_live a' m'"
  shows "slab_block_size a' m' q = slab_block_size a m q"
  by (rule live_size_geometry [OF inv _ _ q]) (rule slab_alloc_geometry(3,4) [OF al])+

lemma slab_free_release:
  assumes inv: "slab_inv a m" and p: "p \<in> slab_live a m" and fr: "slab_free a m e p = (r, a', m', e')"
  shows "r = SLAB_OK" "slab_inv a' m'" "slab_live a' m' = slab_live a m - {p}"
    "region a' = region a" "region_bytes a' = region_bytes a"
    "q \<in> slab_live a m \<Longrightarrow> q \<noteq> p \<Longrightarrow> slab_block_size a' m' q = slab_block_size a m q"
    "q \<in> slab_live a m \<Longrightarrow> x \<in> extent q (slab_block_size a m q) \<Longrightarrow> m' x = m x"
    "x \<notin> extent (region a) (region_bytes a) \<Longrightarrow> m' x = m x"
proof -
  show ok: "r = SLAB_OK" and inv': "slab_inv a' m'" and live: "slab_live a' m' = slab_live a m - {p}"
    by (rule slab_free_live [OF inv p, of e]; use fr in simp)+
  show "m' x = m x" if "q \<in> slab_live a m" "x \<in> extent q (slab_block_size a m q)"
    by (rule slab_free_payloads [OF inv p fr [unfolded ok] that])
  obtain i b where i: "i < 16" "b < bcount a i" "p = user_at a i b" "user_at a i b \<notin> set (free_list a m i)"
    using p by (rule slab_liveE)
  have lay: "slab_layout a" by (rule slab_inv_layout [OF inv])
  have room: "btop a i < bcount a i" by (rule live_has_room [OF inv i(1,2,4)])
  obtain a2 where a2: "slab_free a m e (user_at a i b) =
        (SLAB_OK, a2, st32 (st64 m (slot_at a i (btop a i)) (of_nat (user_at a i b))) (block_at a i b) SLAB_MAGIC_FREED,
         lk_unlock (locker a) (snd (lk_lock (locker a) e)) (fst (lk_lock (locker a) e)))"
    "region a2 = region a" "region_bytes a2 = region_bytes a"
    "\<And>j. j \<noteq> i \<Longrightarrow> bins a2 j = bins a j" "bucket_count (bins a2 i) = bucket_count (bins a i)"
    "int_blocks (bins a2 i) = int_blocks (bins a i)"
    by (rule slab_free_result [OF inv i(1,2,4), of e]) (rule that)
  have a': "a2 = a'" and m': "m' = st32 (st64 m (slot_at a i (btop a i)) (of_nat (user_at a i b))) (block_at a i b) SLAB_MAGIC_FREED"
    using a2(1) fr i(3) by simp_all
  show "region a' = region a" "region_bytes a' = region_bytes a" using a2(2,3) a' by simp_all
  have same: "bucket_count (bins a' j) = bucket_count (bins a j)" "int_blocks (bins a' j) = int_blocks (bins a j)" for j
    using a2(4) [of j] a2(5,6) a' by (cases "j = i"; simp)+
  show "slab_block_size a' m' q = slab_block_size a m q" if "q \<in> slab_live a m" "q \<noteq> p"
    by (rule live_size_geometry [OF inv inv' same]) (use that live in auto)
  show "m' x = m x" if "x \<notin> extent (region a) (region_bytes a)"
  proof -
    have "x \<notin> extent (slot_at a i (btop a i)) 8" "x \<notin> extent (block_at a i b) 4"
      using that slot_bounds [OF lay i(1) room] block_bounds(1,2) [OF lay i(1,2)] btotal_ge [of i] by auto
    then show ?thesis unfolding m' by (simp add: store_le_other del: in_extent)
  qed
qed

lemma slab_alloc_grant:
  assumes inv: "slab_inv a m" and al: "slab_alloc a m e n = (p, a', m', e')" and "p \<noteq> 0"
  shows "slab_inv a' m'" "p \<notin> slab_live a m" "slab_live a' m' = insert p (slab_live a m)"
    "unat n + 8 < 2 ^ 32 \<Longrightarrow> unat n \<le> slab_block_size a' m' p"
    "q \<in> slab_live a m \<Longrightarrow> slab_block_size a' m' q = slab_block_size a m q"
    "q \<in> slab_live a m \<Longrightarrow> x \<in> extent q (slab_block_size a m q) \<Longrightarrow> m' x = m x"
    "x \<notin> extent (region a) (region_bytes a) \<Longrightarrow> m' x = m x"
proof -
  let ?i = "size_to_bin n"
  have lay: "slab_layout a" by (rule slab_inv_layout [OF inv])
  obtain b where g: "p = user_at a ?i b" "?i < 16" "b < bcount a ?i"
      "m' = st32 m (block_at a ?i b) SLAB_MAGIC_ALLOCATED"
      "p \<notin> slab_live a m" "slab_inv a' m'" "slab_live a' m' = insert p (slab_live a m)"
      "slab_block_size a' m' p = payload ?i"
    by (rule slab_alloc_cases [OF inv, of e n]) (use al assms(3) in auto)
  show "slab_inv a' m'" "p \<notin> slab_live a m" "slab_live a' m' = insert p (slab_live a m)" by (rule g)+
  show "unat n \<le> slab_block_size a' m' p" if "unat n + 8 < 2 ^ 32"
    using size_to_bin_exact [OF that] g(2,8) by (auto simp: payload_def split: if_splits)
  show "m' x = m x" if "q \<in> slab_live a m" "x \<in> extent q (slab_block_size a m q)"
    unfolding g(4) by (rule payload_unchanged [OF inv g(2,3) that])
  show "m' x = m x" if "x \<notin> extent (region a) (region_bytes a)"
    unfolding g(4) using that block_bounds(1,2) [OF lay g(2,3)] btotal_ge [of ?i] by (intro store_le_other) auto
  show "slab_block_size a' m' q = slab_block_size a m q" if "q \<in> slab_live a m"
    using alloc_live_size [OF al inv g(6) that] that g(7) by simp
qed

lemma slab_live_bounds:
  assumes inv: "slab_inv a m" and "p \<in> slab_live a m"
  shows "extent p (slab_block_size a m p) \<subseteq> extent (region a) (region_bytes a)"
    "q \<in> slab_live a m \<Longrightarrow> p \<noteq> q \<Longrightarrow> extent p (slab_block_size a m p) \<inter> extent q (slab_block_size a m q) = {}"
proof -
  have lay: "slab_layout a" by (rule slab_inv_layout [OF inv])
  obtain i b where i: "i < 16" "b < bcount a i" "p = user_at a i b" "user_at a i b \<notin> set (free_list a m i)"
    using assms(2) by (rule slab_liveE)
  note size = live_block_size [OF inv i(1,2,4), folded i(3)]
  show "extent p (slab_block_size a m p) \<subseteq> extent (region a) (region_bytes a)"
    using block_bounds(1,2) [OF lay i(1,2)] unfolding size by (auto simp: i(3) user_at_def btotal_def)
  assume q: "q \<in> slab_live a m" "p \<noteq> q"
  obtain j d where j: "j < 16" "d < bcount a j" "q = user_at a j d" "user_at a j d \<notin> set (free_list a m j)"
    using q(1) by (rule slab_liveE)
  have "apart (block_at a i b) (btotal i) (block_at a j d) (btotal j)"
    using block_apart [OF lay i(1) j(1) i(2) j(2)] q(2) i(3) j(3) by auto
  then show "extent p (slab_block_size a m p) \<inter> extent q (slab_block_size a m q) = {}"
    unfolding size live_block_size [OF inv j(1,2,4), folded j(3)]
    by (auto simp: apart_def i(3) j(3) user_at_def btotal_def)
qed

text \<open>The invariant reads nothing outside the region.\<close>

lemma slab_inv_local:
  assumes inv: "slab_inv a m" and same: "\<And>x. x \<in> extent (region a) (region_bytes a) \<Longrightarrow> m' x = m x"
  shows "slab_inv a m'" "slab_live a m' = slab_live a m"
proof -
  have lay: "slab_layout a" by (rule slab_inv_layout [OF inv])
  have ld: "load_le k m' q = (load_le k m q :: 'w::len word)"
    if "region a \<le> q" "q + k \<le> region a + region_bytes a" for k q
    using that by (intro load_le_eqI same) auto
  have sl: "ld64 m' (slot_at a j k) = ld64 m (slot_at a j k)" if "j < 16" "k < bcount a j" for j k
    by (rule ld [OF slot_bounds [OF lay that]])
  have hd: "ld32 m' (block_at a j d) = ld32 m (block_at a j d)"
    "ld32 m' (block_at a j d + 4) = ld32 m (block_at a j d + 4)" if "j < 16" "d < bcount a j" for j d
    using block_bounds(1,2) [OF lay that] btotal_ge [of j] by (auto intro!: ld)
  have "bin_ok a m' j" if "j < 16" for j
    by (rule bin_ok_frame [OF slab_inv_bin [OF inv that]]) (use sl hd that in simp_all)
  then show "slab_inv a m'" using inv by (simp add: slab_inv_def)
  have "free_list a m' j = free_list a m j" if "j < 16" for j
    using slab_inv_bin [OF inv that] sl [OF that] by (intro free_list_frame) (auto simp: bin_ok_def)
  then show "slab_live a m' = slab_live a m" unfolding slab_live_def by (metis (no_types, lifting))
qed

section \<open>Requests near 4 GB\<close>

text \<open>
  On a 64-bit host a request of \<open>2^32 - 6\<close> bytes, which a 32-bit guest can pass through \<open>SYS_ALLOC\<close>,
  is granted a block of 32 bytes whenever bin 0 has one, although the header promises NULL for
  requests beyond the biggest bin.
\<close>

theorem slab_alloc_truncates:
  assumes inv: "slab_inv a m" and "btop a 0 \<noteq> 0"
  shows "\<exists>p a' m' e'. slab_alloc a m e (2 ^ 32 - 6) = (p, a', m', e') \<and> p \<noteq> 0 \<and> slab_block_size a' m' p = 32"
proof -
  have bin: "size_to_bin (2 ^ 32 - 6) = 0" using size_to_bin_truncates by simp
  have nz: "(2 ^ 32 - 6 :: u64) \<noteq> 0" by simp
  obtain k where top: "btop a 0 = Suc k" using assms(2) by (metis not0_implies_Suc)
  show ?thesis
  proof (rule slab_alloc_live [OF inv nz bin _ top, of e])
    fix b a' m' e'
    assume "slab_alloc a m e (2 ^ 32 - 6) = (user_at a 0 b, a', m', e')"
      "slab_block_size a' m' (user_at a 0 b) = payload 0"
    moreover have "user_at a 0 b \<noteq> 0" by (simp add: user_at_def)
    ultimately show ?thesis by (simp add: payload_def)
  qed simp
qed

theorem slab_alloc_truncates_witness:
  "\<exists>(a :: unit SlabAllocator) m p a' m' e'. slab_alloc a m () (2 ^ 32 - 6) = (p, a', m', e') \<and>
     p \<noteq> 0 \<and> slab_block_size a' m' p = 32"
proof -
  obtain a :: "unit SlabAllocator" and m where a: "slab_inv a m" "btop a 0 = 2"
    using demo_slab by metis
  then have "btop a 0 \<noteq> 0" by simp
  from slab_alloc_truncates [OF a(1) this, of "()"] show ?thesis by blast
qed

end
