(* ===== verification/Slab_Trace.thy ===== *)
theory Slab_Trace
  imports Slab_Client
begin

text \<open>
  The slab allocator over whole sessions: \<open>slab_init\<close> on fresh memory followed by any sequence of
  allocations, releases of outstanding blocks and writes of the clients into their own blocks.
  The clients' book-keeping is a list of loans: where a block is, how much was asked for, and
  which bytes its owner has written. The theorem of the theory is stated over that list and
  the code's own results, not over the allocator's invariant.
\<close>

section \<open>Sessions\<close>

record loan =
  at :: hptr
  asked :: u64
  wrote :: "nat \<Rightarrow> u8 option"

record 'e session =
  alc :: "'e SlabAllocator"
  heap :: hmem
  env :: 'e
  loans :: "loan list"
  answers :: "SlabResult list"

text \<open>
  What clients do: ask for \<open>n\<close> bytes, give back the \<open>k\<close>-th outstanding block, or write a byte at
  an offset of the \<open>k\<close>-th block below its \<open>slab_block_size\<close>.
\<close>

datatype request = Take u64 | Give nat | Fill nat nat u8

definition drop_nth :: "nat \<Rightarrow> 'a list \<Rightarrow> 'a list" where
  "drop_nth k xs = take k xs @ drop (Suc k) xs"

fun session_step :: "request \<Rightarrow> 'e session \<Rightarrow> 'e session" where
  "session_step (Take n) s =
     (case slab_alloc (alc s) (heap s) (env s) n of (p, a', m', e') \<Rightarrow>
        s\<lparr>alc := a', heap := m', env := e',
          loans := (if p = 0 then loans s else loans s @ [\<lparr>at = p, asked = n, wrote = Map.empty\<rparr>])\<rparr>)"
| "session_step (Give k) s =
     (if k < length (loans s) then
        case slab_free (alc s) (heap s) (env s) (at (loans s ! k)) of (r, a', m', e') \<Rightarrow>
          s\<lparr>alc := a', heap := m', env := e', loans := drop_nth k (loans s), answers := answers s @ [r]\<rparr>
      else s)"
| "session_step (Fill k off v) s =
     (if k < length (loans s) \<and> off < slab_block_size (alc s) (heap s) (at (loans s ! k)) then
        s\<lparr>heap := (heap s)(at (loans s ! k) + off := v),
          loans := (loans s)[k := (loans s ! k)\<lparr>wrote := (wrote (loans s ! k))(off \<mapsto> v)\<rparr>]\<rparr>
      else s)"

definition new_session :: "'e SlabAllocator \<Rightarrow> hmem \<Rightarrow> 'e \<Rightarrow> 'e session" where
  "new_session a m e = \<lparr>alc = a, heap = m, env = e, loans = [], answers = []\<rparr>"

definition run_session :: "request list \<Rightarrow> 'e session \<Rightarrow> 'e session" where
  "run_session = fold session_step"

section \<open>Counting the blocks of a bin\<close>

text \<open>The live blocks of bin \<open>i\<close> and the entries of its free stack are together its blocks.\<close>

definition live_in :: "'e SlabAllocator \<Rightarrow> hmem \<Rightarrow> nat \<Rightarrow> hptr set" where
  "live_in a m i = {p \<in> slab_live a m. slab_block_size a m p = payload i}"

lemma payload_inject: "payload i = payload j \<longleftrightarrow> i = j"
  by (simp add: payload_def)

lemma live_in_eq:
  assumes inv: "slab_inv a m" and i: "i < 16"
  shows "live_in a m i = user_at a i ` {..<bcount a i} - set (free_list a m i)"
proof (intro set_eqI iffI)
  fix p assume "p \<in> live_in a m i"
  then have p: "p \<in> slab_live a m" "slab_block_size a m p = payload i" by (simp_all add: live_in_def)
  obtain j b where j: "j < 16" "b < bcount a j" "p = user_at a j b" "user_at a j b \<notin> set (free_list a m j)"
    using p(1) by (rule slab_liveE)
  have "j = i" using live_block_size [OF inv j(1,2,4)] p(2) j(3) by (simp add: payload_inject)
  then show "p \<in> user_at a i ` {..<bcount a i} - set (free_list a m i)" using j by simp
next
  fix p assume "p \<in> user_at a i ` {..<bcount a i} - set (free_list a m i)"
  then obtain b where b: "b < bcount a i" "p = user_at a i b" "p \<notin> set (free_list a m i)" by blast
  then have "p \<in> slab_live a m" using i by (auto simp: slab_live_def)
  then show "p \<in> live_in a m i" using live_block_size [OF inv i b(1)] b by (simp add: live_in_def)
qed

lemma free_plus_live:
  assumes inv: "slab_inv a m" and i: "i < 16"
  shows "btop a i + card (live_in a m i) = bcount a i"
proof -
  let ?all = "user_at a i ` {..<bcount a i}" and ?free = "set (free_list a m i)"
  have "inj_on (user_at a i) {..<bcount a i}"
    using user_at_inject [OF slab_inv_layout [OF inv] i i] by (auto intro: inj_onI)
  then have all: "card ?all = bcount a i" by (simp add: card_image)
  have ok: "distinct (free_list a m i)" "?free \<subseteq> ?all"
    using slab_inv_bin [OF inv i] by (simp_all add: bin_ok_def)
  have free: "card ?free = btop a i" using distinct_card [OF ok(1)] by (simp add: free_list_def)
  have "card (?all - ?free) = card ?all - card ?free" using ok(2) by (intro card_Diff_subset) auto
  moreover have "card ?free \<le> card ?all" using ok(2) by (intro card_mono) auto
  ultimately show ?thesis using all free live_in_eq [OF inv i] by simp
qed

section \<open>What every session keeps\<close>

definition loan_ok :: "'e session \<Rightarrow> loan \<Rightarrow> bool" where
  "loan_ok s l \<longleftrightarrow> size_to_bin (asked l) < 16 \<and>
     slab_block_size (alc s) (heap s) (at l) = payload (size_to_bin (asked l)) \<and>
     (\<forall>off v. wrote l off = Some v \<longrightarrow> off < payload (size_to_bin (asked l)) \<and> heap s (at l + off) = v)"

definition session_ok :: "hptr \<Rightarrow> nat \<Rightarrow> SlabConfig \<Rightarrow> hmem \<Rightarrow> 'e session \<Rightarrow> bool" where
  "session_ok rgn bytes cfg m0 s \<longleftrightarrow> slab_inv (alc s) (heap s) \<and>
     region (alc s) = rgn \<and> region_bytes (alc s) = bytes \<and>
     (\<forall>i<16. bcount (alc s) i = unat (cfg i)) \<and>
     slab_live (alc s) (heap s) = at ` set (loans s) \<and> distinct (map at (loans s)) \<and>
     (\<forall>l \<in> set (loans s). loan_ok s l) \<and> set (answers s) \<subseteq> {SLAB_OK} \<and>
     (\<forall>x. x \<notin> extent rgn bytes \<longrightarrow> heap s x = m0 x)"

lemma session_okD:
  assumes "session_ok rgn bytes cfg m0 s"
  shows "slab_inv (alc s) (heap s)" "region (alc s) = rgn" "region_bytes (alc s) = bytes"
    "i < 16 \<Longrightarrow> bcount (alc s) i = unat (cfg i)"
    "slab_live (alc s) (heap s) = at ` set (loans s)" "distinct (map at (loans s))"
    "l \<in> set (loans s) \<Longrightarrow> loan_ok s l" "set (answers s) \<subseteq> {SLAB_OK}"
    "x \<notin> extent rgn bytes \<Longrightarrow> heap s x = m0 x"
  using assms unfolding session_ok_def by blast+

text \<open>A loan stays good when its size and the bytes of its block are unchanged.\<close>

lemma loan_ok_frame:
  assumes "loan_ok s l"
    and "slab_block_size (alc s') (heap s') (at l) = slab_block_size (alc s) (heap s) (at l)"
    and "\<And>x. x \<in> extent (at l) (slab_block_size (alc s) (heap s) (at l)) \<Longrightarrow> heap s' x = heap s x"
  shows "loan_ok s' l"
  unfolding loan_ok_def
proof (intro conjI allI impI)
  show "size_to_bin (asked l) < 16"
    "slab_block_size (alc s') (heap s') (at l) = payload (size_to_bin (asked l))"
    using assms(1,2) by (simp_all add: loan_ok_def)
  fix off v assume "wrote l off = Some v"
  then have w: "off < payload (size_to_bin (asked l))" "heap s (at l + off) = v"
    using assms(1) by (simp_all add: loan_ok_def)
  show "off < payload (size_to_bin (asked l))" by (rule w)
  show "heap s' (at l + off) = v" using assms(1,3) [of] w by (simp add: loan_ok_def)
qed

lemma slab_alloc_bcount: "slab_alloc a m e n = (p, a', m', e') \<Longrightarrow> bcount a' i = bcount a i"
  unfolding bcount_def by (simp add: slab_alloc_geometry(3))

lemma slab_free_bcount:
  assumes inv: "slab_inv a m" and p: "p \<in> slab_live a m" and fr: "slab_free a m e p = (r, a', m', e')"
  shows "bcount a' j = bcount a j"
proof -
  obtain i b where i: "i < 16" "b < bcount a i" "p = user_at a i b" "user_at a i b \<notin> set (free_list a m i)"
    using p by (rule slab_liveE)
  obtain a2 where "slab_free a m e (user_at a i b) =
        (SLAB_OK, a2, st32 (st64 m (slot_at a i (btop a i)) (of_nat (user_at a i b))) (block_at a i b) SLAB_MAGIC_FREED,
         lk_unlock (locker a) (snd (lk_lock (locker a) e)) (fst (lk_lock (locker a) e)))"
    "\<And>j. j \<noteq> i \<Longrightarrow> bins a2 j = bins a j" "bucket_count (bins a2 i) = bucket_count (bins a i)"
    by (rule slab_free_result [OF inv i(1,2,4), of e]) (rule that)
  then show ?thesis using fr i(3) by (cases "j = i") (simp_all add: bcount_def)
qed

lemma take_ok:
  assumes ok: "session_ok rgn bytes cfg m0 s"
  shows "session_ok rgn bytes cfg m0 (session_step (Take n) s)"
proof -
  note D = session_okD [OF ok]
  obtain p a' m' e' where al: "slab_alloc (alc s) (heap s) (env s) n = (p, a', m', e')" by (metis prod_cases4)
  show ?thesis
  proof (cases "p = 0")
    case True
    have r: "slab_inv a' m'" "m' = heap s" "slab_live a' m' = slab_live (alc s) (heap s)"
      by (rule slab_alloc_cases [OF D(1), of "env s" n]; use al True in \<open>simp add: user_at_def\<close>)+
    let ?s = "s\<lparr>alc := a', heap := m', env := e'\<rparr>"
    have "loan_ok ?s l" if l: "l \<in> set (loans s)" for l
    proof (rule loan_ok_frame [OF D(7) [OF l]])
      have "at l \<in> slab_live (alc s) (heap s)" using D(5) l by simp
      then show "slab_block_size (alc ?s) (heap ?s) (at l) = slab_block_size (alc s) (heap s) (at l)"
        using alloc_live_size [OF al D(1) r(1)] r(3) by simp
    qed (simp add: r)
    then show ?thesis using ok al True r slab_alloc_geometry [OF al] slab_alloc_bcount [OF al]
      by (simp add: session_ok_def)
  next
    case False
    note g = slab_alloc_grant [OF D(1) al False]
    let ?s = "session_step (Take n) s"
    have s: "alc ?s = a'" "heap ?s = m'" "answers ?s = answers s"
      "loans ?s = loans s @ [\<lparr>at = p, asked = n, wrote = Map.empty\<rparr>]"
      using al False by simp_all
    have old: "loan_ok ?s l" if l: "l \<in> set (loans s)" for l
    proof (rule loan_ok_frame [OF D(7) [OF l]])
      have q: "at l \<in> slab_live (alc s) (heap s)" using D(5) l by simp
      show "slab_block_size (alc ?s) (heap ?s) (at l) = slab_block_size (alc s) (heap s) (at l)"
        unfolding s by (rule g(5) [OF q])
      show "heap ?s x = heap s x" if "x \<in> extent (at l) (slab_block_size (alc s) (heap s) (at l))" for x
        unfolding s by (rule g(6) [OF q that])
    qed
    have "size_to_bin n < 16 \<and> slab_block_size a' m' p = payload (size_to_bin n)"
      by (rule slab_alloc_cases [OF D(1), of "env s" n]) (use al False in auto)
    then have new: "loan_ok ?s \<lparr>at = p, asked = n, wrote = Map.empty\<rparr>" by (simp add: loan_ok_def s del: session_step.simps)
    show ?thesis unfolding session_ok_def s
      using g(1,2,3,7) D(2-6,8,9) slab_alloc_geometry [OF al] slab_alloc_bcount [OF al] old new by auto
  qed
qed

lemma set_drop_nth:
  assumes "k < length xs" "distinct (map f xs)"
  shows "f ` set (drop_nth k xs) = f ` set xs - {f (xs ! k)}" "distinct (map f (drop_nth k xs))"
    "set (drop_nth k xs) \<subseteq> set xs"
proof -
  have x: "xs = take k xs @ xs ! k # drop (Suc k) xs" using assms(1) by (simp add: id_take_nth_drop)
  have d: "distinct (map f (take k xs @ xs ! k # drop (Suc k) xs))" using assms(2) x by simp
  have im: "f ` set xs = f ` set (take k xs @ xs ! k # drop (Suc k) xs)" using x by simp
  have "f (xs ! k) \<notin> f ` set (drop_nth k xs)"
    using d by (auto simp: drop_nth_def simp del: set_take_subset)
  then show "f ` set (drop_nth k xs) = f ` set xs - {f (xs ! k)}"
    unfolding im by (auto simp: drop_nth_def)
  show "distinct (map f (drop_nth k xs))" using d by (auto simp: drop_nth_def)
  show "set (drop_nth k xs) \<subseteq> set xs" by (auto simp: drop_nth_def dest: in_set_takeD in_set_dropD)
qed

lemma give_ok:
  assumes ok: "session_ok rgn bytes cfg m0 s"
  shows "session_ok rgn bytes cfg m0 (session_step (Give k) s)"
proof (cases "k < length (loans s)")
  case True
  note D = session_okD [OF ok]
  define p where "p = at (loans s ! k)"
  have p: "p \<in> slab_live (alc s) (heap s)" using D(5) True by (simp add: p_def)
  obtain r a' m' e' where fr: "slab_free (alc s) (heap s) (env s) p = (r, a', m', e')" by (metis prod_cases4)
  note f = slab_free_release [OF D(1) p fr]
  note dn = set_drop_nth [OF True D(6), folded p_def]
  let ?s = "session_step (Give k) s"
  have s: "alc ?s = a'" "heap ?s = m'" "answers ?s = answers s @ [r]" "loans ?s = drop_nth k (loans s)"
    using fr True by (simp_all add: p_def)
  have old: "loan_ok ?s l" if l: "l \<in> set (drop_nth k (loans s))" for l
  proof (rule loan_ok_frame [OF D(7)])
    show "l \<in> set (loans s)" using l dn(3) by blast
    then have q: "at l \<in> slab_live (alc s) (heap s)" using D(5) by simp
    have "at l \<in> at ` set (drop_nth k (loans s))" using l by simp
    then have "at l \<noteq> p" using dn(1) by simp
    then show "slab_block_size (alc ?s) (heap ?s) (at l) = slab_block_size (alc s) (heap s) (at l)"
      unfolding s by (rule f(6) [OF q])
    show "heap ?s x = heap s x" if "x \<in> extent (at l) (slab_block_size (alc s) (heap s) (at l))" for x
      unfolding s by (rule f(7) [OF q that])
  qed
  show ?thesis unfolding session_ok_def s
    using f(1-5,8) D(2-6,8,9) dn slab_free_bcount [OF D(1) p fr] old by auto
qed (use ok in simp)

lemma fill_ok:
  assumes ok: "session_ok rgn bytes cfg m0 s"
  shows "session_ok rgn bytes cfg m0 (session_step (Fill k off v) s)"
proof (cases "k < length (loans s) \<and> off < slab_block_size (alc s) (heap s) (at (loans s ! k))")
  case True
  note D = session_okD [OF ok]
  define l where "l = loans s ! k"
  have k: "k < length (loans s)" and off: "off < slab_block_size (alc s) (heap s) (at l)"
    using True by (simp_all add: l_def)
  have l: "l \<in> set (loans s)" using k by (simp add: l_def)
  have p: "at l \<in> slab_live (alc s) (heap s)" using D(5) l by simp
  define m' where "m' = (heap s)(at l + off := v)"
  define l' where "l' = l\<lparr>wrote := (wrote l)(off \<mapsto> v)\<rparr>"
  let ?s = "session_step (Fill k off v) s"
  have s: "alc ?s = alc s" "heap ?s = m'" "answers ?s = answers s" "loans ?s = (loans s)[k := l']"
    using True by (simp_all add: m'_def l'_def l_def)
  have wr: "m' x = heap s x" if "x \<notin> extent (at l) (slab_block_size (alc s) (heap s) (at l))" for x
    using that off by (auto simp: m'_def)
  have w: "slab_inv (alc s) m'" "slab_live (alc s) m' = slab_live (alc s) (heap s)"
    "\<And>q. q \<in> slab_live (alc s) (heap s) \<Longrightarrow> slab_block_size (alc s) m' q = slab_block_size (alc s) (heap s) q"
    by (rule slab_write_live [OF D(1) p]; use wr in blast)+
  have ats: "map at ((loans s)[k := l']) = map at (loans s)"
    using k by (intro nth_equalityI) (auto simp: nth_list_update l'_def l_def)
  then have set_ats: "at ` set ((loans s)[k := l']) = at ` set (loans s)" by (metis set_map)
  have new: "loan_ok ?s l'"
    using D(7) [OF l] w(3) [OF p] off
    by (simp add: loan_ok_def s l'_def m'_def del: session_step.simps)
  have old: "loan_ok ?s q" if q: "q \<in> set (loans s)" "at q \<noteq> at l" for q
  proof (rule loan_ok_frame [OF D(7) [OF q(1)]])
    have ql: "at q \<in> slab_live (alc s) (heap s)" using D(5) q by simp
    show "slab_block_size (alc ?s) (heap ?s) (at q) = slab_block_size (alc s) (heap s) (at q)"
      unfolding s by (rule w(3) [OF ql])
    have "extent (at q) (slab_block_size (alc s) (heap s) (at q)) \<inter>
        extent (at l) (slab_block_size (alc s) (heap s) (at l)) = {}"
      by (rule slab_live_bounds(2) [OF D(1) ql p q(2)])
    then show "heap ?s x = heap s x" if "x \<in> extent (at q) (slab_block_size (alc s) (heap s) (at q))" for x
      unfolding s using wr that by blast
  qed
  have all: "loan_ok ?s q" if q: "q \<in> set ((loans s)[k := l'])" for q
  proof (cases "q = l'")
    case False
    obtain j where j: "j < length (loans s)" "q = (loans s)[k := l'] ! j"
      using q by (metis in_set_conv_nth length_list_update)
    then have "j \<noteq> k" "q = loans s ! j" using False k by (auto simp: nth_list_update split: if_splits)
    moreover have "at (loans s ! j) \<noteq> at (loans s ! k)"
      using D(6) j(1) k \<open>j \<noteq> k\<close> by (simp add: distinct_conv_nth)
    ultimately show ?thesis using old [of q] j(1) by (simp add: l_def)
  qed (use new in simp)
  have out: "m' x = m0 x" if "x \<notin> extent rgn bytes" for x
  proof -
    have "x \<notin> extent (at l) (slab_block_size (alc s) (heap s) (at l))"
      using slab_live_bounds(1) [OF D(1) p] D(2,3) that by blast
    then show ?thesis using wr D(9) [OF that] by simp
  qed
  show ?thesis unfolding session_ok_def s
    using w(1,2) D(2-6,8) ats set_ats all out by simp
qed (use ok in auto)

lemma run_session_ok:
  "session_ok rgn bytes cfg m0 s \<Longrightarrow> session_ok rgn bytes cfg m0 (run_session rs s)"
proof (induction rs arbitrary: s)
  case (Cons r rs)
  then have "session_ok rgn bytes cfg m0 (session_step r s)"
    by (cases r) (simp_all add: take_ok give_ok fill_ok del: session_step.simps)
  from Cons.IH [OF this] show ?case by (simp add: run_session_def)
qed (simp add: run_session_def)

lemma new_session_ok:
  assumes "0 < rgn" "rgn + bytes < 2 ^ 64" "slab_required_bytes cfg \<le> bytes"
    and "slab_init a0 m0 rgn bytes cfg lk = (r, a, m)"
  shows "session_ok rgn bytes cfg m0 (new_session a m e)"
proof -
  have i: "r = SLAB_OK" "slab_inv a m" "slab_live a m = {}" "\<And>i. i < 16 \<Longrightarrow> btop a i = cnt cfg i"
    by (rule slab_init_establishes [OF assms(1-3), of a0 m0 lk]; use assms(4) in simp)+
  have "bcount a i = unat (cfg i)" if "i < 16" for i
    using free_plus_live [OF i(2) that] i(3) i(4) [OF that] by (simp add: live_in_def cnt_def)
  moreover note slab_init_region [OF assms(4) [unfolded i(1)]] slab_init_writes_inside [OF assms(4) [unfolded i(1)]]
  ultimately show ?thesis using i(2,3) by (simp add: session_ok_def new_session_def)
qed

text \<open>How many loans a bin serves, by the size the code reports, and what is left for the next.\<close>

lemma loans_of_bin:
  assumes ok: "session_ok rgn bytes cfg m0 s" and i: "i < 16"
  shows "length (filter (\<lambda>l. slab_block_size (alc s) (heap s) (at l) = payload i) (loans s)) = card (live_in (alc s) (heap s) i)"
proof -
  note D = session_okD [OF ok]
  let ?P = "\<lambda>p. slab_block_size (alc s) (heap s) p = payload i"
  have "filter ?P (map at (loans s)) = map at (filter (\<lambda>l. ?P (at l)) (loans s))"
    by (simp add: filter_map o_def)
  moreover have "distinct (filter ?P (map at (loans s)))" using D(6) by (rule distinct_filter)
  ultimately have "length (filter (\<lambda>l. ?P (at l)) (loans s)) = card (set (filter ?P (map at (loans s))))"
    by (metis distinct_card length_map)
  also have "set (filter ?P (map at (loans s))) = live_in (alc s) (heap s) i"
    using D(5) by (auto simp: live_in_def)
  finally show ?thesis .
qed

text \<open>
  C9. Isolation of the slab's clients, over whole sessions. A slab is initialised on any memory
  with at least \<open>slab_required_bytes\<close> bytes, and its clients take blocks, give outstanding blocks
  back and write inside their own blocks, in any order. Then, whatever they did:
  every release was answered \<open>SLAB_OK\<close>;
  each outstanding block lies in the region, and no two of them share a byte;
  the size of each block is exactly the least of the 16 bin sizes that holds the request and
  its header (for requests below 4 GB);
  every byte an owner wrote to its block is still there;
  nothing outside the region changed;
  and the next request with a bin is refused exactly when the bin's configured number of
  blocks is outstanding, so that no block is ever lost.
\<close>

theorem slab_sessions:
  assumes "0 < rgn" "rgn + bytes < 2 ^ 64" "slab_required_bytes cfg \<le> bytes"
    and init: "slab_init a0 m0 rgn bytes cfg lk = (r, a, m)"
    and s: "s = run_session rs (new_session a m e)"
  shows "set (answers s) \<subseteq> {SLAB_OK}
    \<and> (\<forall>j < length (loans s). let p = at (loans s ! j) in
         extent p (slab_block_size (alc s) (heap s) p) \<subseteq> extent rgn bytes \<and>
         (\<forall>k < length (loans s). let q = at (loans s ! k) in
            j \<noteq> k \<longrightarrow> extent p (slab_block_size (alc s) (heap s) p) \<inter> extent q (slab_block_size (alc s) (heap s) q) = {}))
    \<and> (\<forall>l \<in> set (loans s). unat (asked l) + 8 < 2 ^ 32 \<longrightarrow>
         (\<exists>i < 16. slab_block_size (alc s) (heap s) (at l) = 32 * 2 ^ i \<and>
            unat (asked l) + 8 \<le> 32 * 2 ^ i \<and> (\<forall>j < i. 32 * 2 ^ j < unat (asked l) + 8)))
    \<and> (\<forall>l \<in> set (loans s). \<forall>off v. wrote l off = Some v \<longrightarrow> heap s (at l + off) = v)
    \<and> (\<forall>x. x \<notin> extent rgn bytes \<longrightarrow> heap s x = m0 x)
    \<and> (\<forall>n i. 0 < n \<longrightarrow> i < 16 \<longrightarrow> unat n + 8 \<le> 32 * 2 ^ i \<longrightarrow> (\<forall>j < i. 32 * 2 ^ j < unat n + 8) \<longrightarrow>
         (fst (slab_alloc (alc s) (heap s) (env s) n) = 0 \<longleftrightarrow>
          length (filter (\<lambda>l. slab_block_size (alc s) (heap s) (at l) = 32 * 2 ^ i) (loans s)) = unat (cfg i)))"
proof -
  have ok: "session_ok rgn bytes cfg m0 s"
    unfolding s by (rule run_session_ok [OF new_session_ok [OF assms(1-4)]])
  note D = session_okD [OF ok]
  have live: "at (loans s ! j) \<in> slab_live (alc s) (heap s)" if "j < length (loans s)" for j
    using D(5) that by simp
  have apart: "at (loans s ! j) \<noteq> at (loans s ! k)" if "j < length (loans s)" "k < length (loans s)" "j \<noteq> k" for j k
    using D(6) that by (simp add: distinct_conv_nth)
  have sizes: "\<exists>i < 16. slab_block_size (alc s) (heap s) (at l) = 32 * 2 ^ i \<and>
        unat (asked l) + 8 \<le> 32 * 2 ^ i \<and> (\<forall>j < i. 32 * 2 ^ j < unat (asked l) + 8)"
    if l: "l \<in> set (loans s)" "unat (asked l) + 8 < 2 ^ 32" for l
    using D(7) [OF l(1)] size_to_bin_exact [OF l(2)]
    by (intro exI [of _ "size_to_bin (asked l)"]) (simp add: loan_ok_def payload_def split: if_splits)
  have refusal: "fst (slab_alloc (alc s) (heap s) (env s) n) = 0 \<longleftrightarrow>
        length (filter (\<lambda>l. slab_block_size (alc s) (heap s) (at l) = 32 * 2 ^ i) (loans s)) = unat (cfg i)"
    if n: "0 < n" "i < 16" "unat n + 8 \<le> 32 * 2 ^ i" "\<forall>j < i. 32 * 2 ^ j < unat n + 8" for n i
  proof -
    have "(2 :: nat) ^ i \<le> 2 ^ 15" using n(2) by (intro power_increasing) auto
    then have z: "size_to_bin n < 16 \<and> unat n + 8 \<le> 32 * 2 ^ size_to_bin n \<and> (\<forall>j < size_to_bin n. 32 * 2 ^ j < unat n + 8)"
      using size_to_bin_exact [of n] n(3) by simp
    have bin: "size_to_bin n = i" by (rule least_power_unique [of "unat n + 8"]) (use z n in auto)
    have cases: "fst (slab_alloc (alc s) (heap s) (env s) n) = 0 \<longleftrightarrow> btop (alc s) i = 0"
      by (rule slab_alloc_cases [OF D(1), of "env s" n]) (use n bin in \<open>auto simp: user_at_def\<close>)
    show ?thesis
      using free_plus_live [OF D(1) n(2)] loans_of_bin [OF ok n(2)] D(4) [OF n(2)] unfolding cases
      by (simp add: payload_def) presburger
  qed
  show ?thesis unfolding Let_def
    using D(8,9) slab_live_bounds [OF D(1) live, unfolded D(2,3)] live apart sizes D(7) refusal
    by (intro conjI) (blast, blast, blast, simp add: loan_ok_def, blast, blast)
qed

text \<open>
  Two blocks of 32 bytes in 104 bytes at address 8: after two requests both are outstanding,
  the first still holds what its owner wrote, and a third request is refused.
\<close>

lemma run_session_snoc: "run_session (rs @ [r]) s = session_step r (run_session rs s)"
  by (simp add: run_session_def)

lemma take_granted:
  assumes "fst (slab_alloc (alc s) (heap s) (env s) n) \<noteq> 0"
  shows "\<exists>p. loans (session_step (Take n) s) = loans s @ [\<lparr>at = p, asked = n, wrote = Map.empty\<rparr>]"
  using assms by (auto split: prod.splits)

lemma least_bin_0: "n \<le> 32 * 2 ^ i \<Longrightarrow> \<forall>j < i. 32 * 2 ^ j < (n :: nat) \<Longrightarrow> n \<le> 32 \<Longrightarrow> i = 0"
  by (cases i) auto

theorem slab_sessions_witness:
  "\<exists>(a :: unit SlabAllocator) m s. slab_init (zero_slab slab_null_locker) (\<lambda>_. 0) 8 104 demo_config slab_null_locker =
      (SLAB_OK, a, m) \<and> s = run_session [Take 20, Fill 0 3 7, Take 5] (new_session a m ()) \<and>
     length (loans s) = 2 \<and> heap s (at (loans s ! 0) + 3) = 7 \<and> fst (slab_alloc (alc s) (heap s) (env s) 9) = 0"
proof -
  obtain a :: "unit SlabAllocator" and m where
    init: "slab_init (zero_slab slab_null_locker) (\<lambda>_. 0) 8 104 demo_config slab_null_locker = (SLAB_OK, a, m)"
    by (rule demo_slab)
  have "slab_required_bytes demo_config \<le> 104" by code_simp
  note T = slab_sessions [OF _ _ this init refl, of _ "()", simplified]
  have c: "unat (demo_config 0) = 2" by (simp add: demo_config_def)
  define S where "S rs = run_session rs (new_session a m ())" for rs
  have refused: "fst (slab_alloc (alc (S rs)) (heap (S rs)) (env (S rs)) n) = 0 \<longleftrightarrow>
      length (filter (\<lambda>l. slab_block_size (alc (S rs)) (heap (S rs)) (at l) = 32) (loans (S rs))) = 2"
    if "0 < n" "unat n \<le> 24" for rs n
  proof -
    have "\<forall>n i. 0 < n \<longrightarrow> i < 16 \<longrightarrow> unat n + 8 \<le> 32 * 2 ^ i \<longrightarrow> (\<forall>j < i. 32 * 2 ^ j < unat n + 8) \<longrightarrow>
        (fst (slab_alloc (alc (S rs)) (heap (S rs)) (env (S rs)) n) = 0 \<longleftrightarrow>
         length (filter (\<lambda>l. slab_block_size (alc (S rs)) (heap (S rs)) (at l) = 32 * 2 ^ i) (loans (S rs))) =
           unat (demo_config i))"
      using T [of rs] unfolding S_def [symmetric] by simp
    from this [rule_format, of n 0] that c show ?thesis by simp
  qed
  have size: "slab_block_size (alc (S rs)) (heap (S rs)) (at l) = 32"
    if "l \<in> set (loans (S rs))" "unat (asked l) \<le> 24" for rs l
  proof -
    have "\<exists>i < 16. slab_block_size (alc (S rs)) (heap (S rs)) (at l) = 32 * 2 ^ i \<and>
        unat (asked l) + 8 \<le> 32 * 2 ^ i \<and> (\<forall>j < i. 32 * 2 ^ j < unat (asked l) + 8)"
      using T [of rs] that unfolding S_def [symmetric] by simp
    with least_bin_0 [of "unat (asked l) + 8"] that(2) show ?thesis by fastforce
  qed
  have S0: "S [] = new_session a m ()" by (simp add: S_def run_session_def)
  have S1: "S [Take 20] = session_step (Take 20) (S [])" by (simp add: S_def run_session_def)
  have S2: "S [Take 20, Fill 0 3 7] = session_step (Fill 0 3 7) (S [Take 20])" by (simp add: S_def run_session_def)
  have S3: "S [Take 20, Fill 0 3 7, Take 5] = session_step (Take 5) (S [Take 20, Fill 0 3 7])"
    by (simp add: S_def run_session_def)
  obtain p where l1: "loans (S [Take 20]) = [\<lparr>at = p, asked = 20, wrote = Map.empty\<rparr>]"
    using take_granted [of "S []" 20] refused [of 20 "[]"] unfolding S1 by (auto simp: S0 new_session_def)
  have l2: "loans (S [Take 20, Fill 0 3 7]) = [\<lparr>at = p, asked = 20, wrote = [3 \<mapsto> 7]\<rparr>]"
    using size [of "\<lparr>at = p, asked = 20, wrote = Map.empty\<rparr>" "[Take 20]"] l1 unfolding S2 by simp
  obtain q where l3: "loans (S [Take 20, Fill 0 3 7, Take 5]) =
      [\<lparr>at = p, asked = 20, wrote = [3 \<mapsto> 7]\<rparr>, \<lparr>at = q, asked = 5, wrote = Map.empty\<rparr>]"
    using take_granted [of "S [Take 20, Fill 0 3 7]" 5] refused [of 5 "[Take 20, Fill 0 3 7]"] l2 unfolding S3
    by (auto split: if_splits)
  let ?s = "S [Take 20, Fill 0 3 7, Take 5]"
  have "\<forall>l \<in> set (loans ?s). \<forall>off v. wrote l off = Some v \<longrightarrow> heap ?s (at l + off) = v"
    using T [of "[Take 20, Fill 0 3 7, Take 5]"] unfolding S_def [symmetric] by blast
  then have "heap ?s (at (loans ?s ! 0) + 3) = 7" by (simp add: l3)
  moreover have "fst (slab_alloc (alc ?s) (heap ?s) (env ?s) 9) = 0"
    using refused [of 9 "[Take 20, Fill 0 3 7, Take 5]"] l3
      size [of "loans ?s ! 0" "[Take 20, Fill 0 3 7, Take 5]"] size [of "loans ?s ! 1" "[Take 20, Fill 0 3 7, Take 5]"]
    by simp
  ultimately show ?thesis using init l3
    by (intro exI [of _ a] exI [of _ m] exI [of _ ?s]) (simp add: S_def)
qed

end
