(* ===== verification/Bump.thy ===== *)
theory Bump
  imports Slab_Safety
begin

text \<open>
  The bump allocator (\<open>src/memory/bump.c\<close>, \<open>include/memory/bump.h\<close>). Offsets and sizes are
  \<open>size_t\<close> values and keep their 64 bits, because the code's overflow check on the aligned
  offset is part of what is proved. \<open>parent_slab\<close> records whether the arena came from a slab;
  that slab's state is an argument of the two functions that use it.
\<close>

section \<open>Data and operations\<close>

datatype BumpResult = BUMP_OK | BUMP_ERR_INVALID_ARG | BUMP_ERR_NO_SPACE

record BumpAllocator =
  bp_region :: hptr
  bp_bytes :: u64
  bp_offset :: u64
  bp_peak :: u64
  bp_parent :: bool

definition is_power_of_two :: "u64 \<Rightarrow> bool" where
  "is_power_of_two x \<longleftrightarrow> x \<noteq> 0 \<and> x AND (x - 1) = 0"

definition bump_init :: "BumpAllocator \<Rightarrow> hptr \<Rightarrow> u64 \<Rightarrow> BumpResult \<times> BumpAllocator" where
  "bump_init b rgn bytes =
     (if rgn = 0 \<or> bytes = 0 then (BUMP_ERR_INVALID_ARG, b)
      else (BUMP_OK, \<lparr>bp_region = rgn, bp_bytes = bytes, bp_offset = 0, bp_peak = 0, bp_parent = False\<rparr>))"

definition bump_init_from_slab ::
  "BumpAllocator \<Rightarrow> 'e SlabAllocator \<times> hmem \<times> 'e \<Rightarrow> u64 \<Rightarrow>
   BumpResult \<times> BumpAllocator \<times> 'e SlabAllocator \<times> hmem \<times> 'e" where
  "bump_init_from_slab b slab bytes =
     (if bytes = 0 then (BUMP_ERR_INVALID_ARG, b, slab)
      else let (a, m, e) = slab; (rgn, slab) = slab_alloc a m e bytes in
      if rgn = 0 then (BUMP_ERR_NO_SPACE, b, slab)
      else (BUMP_OK, \<lparr>bp_region = rgn, bp_bytes = bytes, bp_offset = 0, bp_peak = 0, bp_parent = True\<rparr>, slab))"

definition bump_destroy ::
  "BumpAllocator \<Rightarrow> 'e SlabAllocator \<times> hmem \<times> 'e \<Rightarrow> BumpAllocator \<times> 'e SlabAllocator \<times> hmem \<times> 'e" where
  "bump_destroy b slab =
     (let slab = (if bp_parent b \<and> bp_region b \<noteq> 0
                  then let (a, m, e) = slab in snd (slab_free a m e (bp_region b)) else slab)
      in (\<lparr>bp_region = 0, bp_bytes = 0, bp_offset = 0, bp_peak = 0, bp_parent = False\<rparr>, slab))"

definition bump_reset :: "BumpAllocator \<Rightarrow> BumpAllocator" where
  "bump_reset b = b\<lparr>bp_offset := 0, bp_peak := 0\<rparr>"

definition bump_rewind_to :: "BumpAllocator \<Rightarrow> u64 \<Rightarrow> BumpAllocator" where
  "bump_rewind_to b mark = (if mark > bp_offset b then b else b\<lparr>bp_offset := mark\<rparr>)"

definition bump_alloc_aligned :: "BumpAllocator \<Rightarrow> u64 \<Rightarrow> u64 \<Rightarrow> hptr \<times> BumpAllocator" where
  "bump_alloc_aligned b n alignment =
     (if bp_region b = 0 \<or> n = 0 then (0, b)
      else if \<not> is_power_of_two alignment then (0, b)
      else
        let msk = alignment - 1;
            aligned_off = (bp_offset b + msk) AND NOT msk in
        if aligned_off < bp_offset b then (0, b)
        else if aligned_off > bp_bytes b then (0, b)
        else if n > bp_bytes b - aligned_off then (0, b)
        else
          let p = bp_region b + unat aligned_off;
              b = b\<lparr>bp_offset := aligned_off + n\<rparr>;
              b = (if bp_offset b > bp_peak b then b\<lparr>bp_peak := bp_offset b\<rparr> else b)
          in (p, b))"

definition bump_alloc :: "BumpAllocator \<Rightarrow> u64 \<Rightarrow> hptr \<times> BumpAllocator" where
  "bump_alloc b n = bump_alloc_aligned b n 8"

section \<open>Rounding up\<close>

lemma unat_mask_u64: "k < 64 \<Longrightarrow> unat (mask k :: u64) = 2 ^ k - 1"
proof -
  assume "k < 64"
  then have "(2::nat) ^ k \<le> 2 ^ 64" by (intro power_increasing) auto
  then have "(2::nat) ^ k - 1 < 2 ^ 64" by simp
  then have "unat (of_nat (mask k) :: u64) = mask k"
    unfolding unat_of_nat by (simp add: mask_eq_exp_minus_1)
  then show ?thesis by (simp add: of_nat_mask_eq mask_eq_exp_minus_1)
qed

lemma power_of_two_shape:
  assumes "is_power_of_two x"
  obtains k where "k < 64" "unat x = 2 ^ k" "x - 1 = mask k"
proof -
  have x: "x \<noteq> 0" "x AND (x - 1) = 0" using assms by (auto simp: is_power_of_two_def)
  have pos: "0 < unat x" using x(1) by (simp add: unat_gt_0)
  have m: "unat (x - 1) = unat x - 1" using pos by (simp add: unat_sub word_le_nat_alt)
  have "unat x AND unat (x - 1) = 0" using x(2) by (metis unat_0 unsigned_and_eq)
  then obtain k where k: "unat x = 2 ^ k" using nat_power_of_two [OF pos] m by auto
  have "(2::nat) ^ k < 2 ^ 64" using unsigned_less [of x, where 'a = nat] k by simp
  then have k64: "k < 64" by (rule power_less_imp_less_exp [rotated]) simp
  have "unat (x - 1) = unat (mask k :: u64)"
    using k m unat_mask_u64 [OF k64] by simp
  then have "x - 1 = mask k" by (simp add: word_unat_eq_iff)
  with k64 k show thesis by (rule that)
qed

text \<open>The C rounding, with its overflow: either the mathematical round-up, or a wrap it detects.\<close>

definition round_up :: "nat \<Rightarrow> nat \<Rightarrow> nat" where "round_up x al = (x + al - 1) div al * al"

lemma and_not_mask_unat: "k < 64 \<Longrightarrow> unat ((w :: u64) AND NOT (mask k)) = unat w div 2 ^ k * 2 ^ k"
proof -
  assume k: "k < 64"
  have "w AND NOT (mask k) = push_bit k (drop_bit k w)"
    by (rule bit_word_eqI) (auto simp: bit_simps)
  moreover have "unat w div 2 ^ k * 2 ^ k < 2 ^ 64"
    using unsigned_less [of w, where 'a = nat] by (simp add: le_less_trans [OF div_times_less_eq_dividend])
  ultimately show ?thesis
    by (simp only: unsigned_push_bit_eq unat_drop_bit_eq)
      (simp add: push_bit_eq_mult drop_bit_eq_div take_bit_nat_eq_self)
qed

lemma round_up_ge: "0 < al \<Longrightarrow> x \<le> round_up x al"
  using div_mult_mod_eq [of "x + al - 1" al] mod_less_divisor [of al "x + al - 1"]
  unfolding round_up_def by linarith

lemma round_up_bound: "round_up x al \<le> x + al - 1"
  by (simp add: round_up_def)

lemma round_up_dvd: "al dvd round_up x al"
  by (simp add: round_up_def)

lemma aligned_offset:
  assumes "is_power_of_two al" and "aligned = (off + (al - 1)) AND NOT (al - 1)"
  shows "if unat off + unat al - 1 < 2 ^ 64 then unat aligned = round_up (unat off) (unat al) else aligned < off"
proof -
  obtain k where k: "k < 64" "unat al = 2 ^ k" "al - 1 = mask k" using power_of_two_shape [OF assms(1)] .
  have m: "unat (mask k :: u64) = 2 ^ k - 1" by (rule unat_mask_u64 [OF k(1)])
  have al: "unat aligned = unat (off + mask k) div 2 ^ k * 2 ^ k"
    using assms(2) and_not_mask_unat [OF k(1)] k(3) by simp
  show ?thesis
  proof (cases "unat off + unat al - 1 < 2 ^ 64")
    case True
    then have "unat (off + mask k) = unat off + 2 ^ k - 1"
      using k(2) m by (simp add: unat_word_ariths)
    then show ?thesis using True al k(2) by (simp add: round_up_def)
  next
    case False
    have "unat (off + mask k) = unat off + (2 ^ k - 1) - 2 ^ 64"
      using False k(2) m unsigned_less [of off, where 'a = nat] unsigned_less [of "mask k :: u64", where 'a = nat]
      by (simp add: unat_word_ariths mod_if) 
    also have "\<dots> < unat off" using False k(2) m unsigned_less [of "mask k :: u64", where 'a = nat] by simp
    finally have "unat aligned < unat off" using al by (metis div_times_less_eq_dividend le_less_trans)
    then show ?thesis using False by (simp add: word_less_nat_alt)
  qed
qed

section \<open>Correctness\<close>

definition bump_ok :: "BumpAllocator \<Rightarrow> bool" where
  "bump_ok b \<longleftrightarrow> bp_region b \<noteq> 0 \<and> bp_offset b \<le> bp_peak b \<and> bp_peak b \<le> bp_bytes b"

text \<open>
  C12. Bump allocation: over a well-formed arena and for any request, the call succeeds exactly
  when the size is positive, the alignment a power of two, and the request fits after rounding the
  offset up. Then the block starts at that rounded offset, lies inside the region, after everything
  allocated before, and the arena stays well formed with the offset at the block's end. A refused
  call changes nothing, and no size or alignment makes the arithmetic overflow undetected.
\<close>

theorem bump_alloc_correct:
  assumes "bump_ok b"
  shows "case bump_alloc_aligned b n al of (p, b') \<Rightarrow>
     bump_ok b' \<and>
     (p \<noteq> 0 \<longleftrightarrow> n \<noteq> 0 \<and> is_power_of_two al \<and>
        round_up (unat (bp_offset b)) (unat al) + unat n \<le> unat (bp_bytes b)) \<and>
     (if p = 0 then b' = b
      else p = bp_region b + round_up (unat (bp_offset b)) (unat al) \<and>
        unat (bp_offset b') = round_up (unat (bp_offset b)) (unat al) + unat n \<and>
        extent p (unat n) \<subseteq> extent (bp_region b) (unat (bp_bytes b)) \<and>
        (\<forall>x \<in> extent p (unat n). bp_region b + unat (bp_offset b) \<le> x) \<and>
        bp_region b' = bp_region b \<and> bp_bytes b' = bp_bytes b)"
proof -
  obtain p b' where r: "bump_alloc_aligned b n al = (p, b')" by force
  have reg: "bp_region b \<noteq> 0" and ord: "bp_offset b \<le> bp_peak b" "bp_peak b \<le> bp_bytes b"
    using assms by (simp_all add: bump_ok_def)
  show ?thesis
  proof (cases "n = 0 \<or> \<not> is_power_of_two al")
    case True
    then have "p = 0" "b' = b" using r by (auto simp: bump_alloc_aligned_def split: if_splits)
    then show ?thesis using True r assms by auto
  next
    case False
    define off where "off = (bp_offset b + (al - 1)) AND NOT (al - 1)"
    define up where "up = round_up (unat (bp_offset b)) (unat al)"
    have "al \<noteq> 0" using False by (simp add: is_power_of_two_def)
    then have al: "0 < unat al" by (simp add: unat_gt_0)
    have le: "unat (bp_offset b) \<le> up" unfolding up_def by (rule round_up_ge [OF al])
    show ?thesis
    proof (cases "unat (bp_offset b) + unat al - 1 < 2 ^ 64 \<and> up + unat n \<le> unat (bp_bytes b)")
      case True
      have off: "unat off = up" using aligned_offset [of al off "bp_offset b"] False True by (simp add: off_def up_def)
      have fit: "\<not> off < bp_offset b" "\<not> off > bp_bytes b" "\<not> n > bp_bytes b - off"
        using True le off by (auto simp: word_less_nat_alt word_le_nat_alt unat_sub)
      have sum: "unat (off + n) = up + unat n"
        using True off unsigned_less [of "bp_bytes b", where 'a = nat] by (simp add: unat_word_ariths)
      have "p = bp_region b + up" "bp_offset b' = off + n" "bp_region b' = bp_region b" "bp_bytes b' = bp_bytes b"
        "bp_peak b' = (if off + n > bp_peak b then off + n else bp_peak b)"
        using r False reg fit off by (auto simp: bump_alloc_aligned_def Let_def off_def [symmetric])
      moreover have "off + n \<le> bp_bytes b" using True sum by (simp add: word_le_nat_alt)
      ultimately show ?thesis using r False True reg ord le sum
        by (auto simp: bump_ok_def up_def [symmetric] subset_iff)
    next
      case no: False
      have "off < bp_offset b \<or> off > bp_bytes b \<or> n > bp_bytes b - off"
      proof (cases "unat (bp_offset b) + unat al - 1 < 2 ^ 64")
        case True
        then have off: "unat off = up" using aligned_offset [of al off "bp_offset b"] False by (simp add: off_def up_def)
        have "\<not> up + unat n \<le> unat (bp_bytes b)" using no True by simp
        then show ?thesis using off
          by (cases "off \<le> bp_bytes b") (auto simp: word_less_nat_alt word_le_nat_alt unat_sub not_less)
      next
        case wrap: False
        then show ?thesis using aligned_offset [of al off "bp_offset b"] False by (simp add: off_def)
      qed
      then have pb: "p = 0" "b' = b"
        using r by (auto simp: bump_alloc_aligned_def Let_def off_def [symmetric] split: if_splits)
      have "\<not> up + unat n \<le> unat (bp_bytes b)"
      proof
        assume fits: "up + unat n \<le> unat (bp_bytes b)"
        then have "\<not> unat (bp_offset b) + unat al - 1 < 2 ^ 64" using no by simp
        obtain k where k: "k < 64" "unat al = 2 ^ k" using power_of_two_shape False by metis
        have "(2::nat) ^ 64 div 2 ^ k * 2 ^ k = 2 ^ 64"
          using k(1) by (simp add: dvd_div_mult_self le_imp_power_dvd less_imp_le del: power_numeral)
        moreover have "(2::nat) ^ 64 div 2 ^ k * 2 ^ k \<le> up"
          unfolding up_def round_up_def k(2) using \<open>\<not> _ < 2 ^ 64\<close> k(2)
          by (intro mult_le_mono1 div_le_mono) simp
        ultimately show False using fits unsigned_less [of "bp_bytes b", where 'a = nat] by simp
      qed
      then show ?thesis using pb r assms by (simp add: up_def)
    qed
  qed
qed

theorem bump_alloc_correct_witness:
  "bump_ok \<lparr>bp_region = 100, bp_bytes = 64, bp_offset = 3, bp_peak = 3, bp_parent = False\<rparr> \<and>
   (case bump_alloc_aligned \<lparr>bp_region = 100, bp_bytes = 64, bp_offset = 3, bp_peak = 3, bp_parent = False\<rparr> 10 8 of
      (p, b') \<Rightarrow> p = 108 \<and> bump_ok b')"
proof -
  let ?b = "\<lparr>bp_region = 100, bp_bytes = 64, bp_offset = 3, bp_peak = 3, bp_parent = False\<rparr>"
  have ok: "bump_ok ?b" by (simp add: bump_ok_def)
  have "fst (bump_alloc_aligned ?b 10 8) = 108" by code_simp
  with bump_alloc_correct [OF ok, of 10 8] ok show ?thesis by (auto split: prod.splits)
qed

text \<open>Rewinding to a mark taken earlier restores the offset exactly; it never moves forward.\<close>

lemma bump_rewind_mark:
  "bump_ok b \<Longrightarrow> bump_ok b' \<Longrightarrow> bp_offset b \<le> bp_offset b' \<Longrightarrow>
   bp_offset (bump_rewind_to b' (bp_offset b)) = bp_offset b \<and> bump_ok (bump_rewind_to b' (bp_offset b))"
  by (auto simp: bump_rewind_to_def bump_ok_def)

text \<open>
  A slab-backed arena gives back what it took: if \<open>bump_init_from_slab\<close> succeeds, the arena is
  well formed over a fresh live block of the slab; destroying it later, in any slab state with
  the same live blocks, returns that block and leaves the slab's live set as before the
  initialisation. A failed initialisation leaves the live set alone.
\<close>

theorem bump_slab_lifetime:
  fixes a :: "'e SlabAllocator"
  assumes inv: "slab_inv a m" and init: "bump_init_from_slab b0 (a, m, e) bytes = (r, b, a1, m1, e1)"
  shows "slab_inv a1 m1 \<and>
     (r \<noteq> BUMP_OK \<longrightarrow> b = b0 \<and> slab_live a1 m1 = slab_live a m) \<and>
     (r = BUMP_OK \<longrightarrow> bump_ok b \<and> bp_region b \<notin> slab_live a m \<and> bp_region b \<in> slab_live a1 m1 \<and>
        (\<forall>(a2 :: 'e SlabAllocator) m2 e2. slab_inv a2 m2 \<longrightarrow> slab_live a2 m2 = slab_live a1 m1 \<longrightarrow>
           (\<exists>b' a3 m3 e3. bump_destroy b (a2, m2, e2) = (b', a3, m3, e3) \<and>
              slab_inv a3 m3 \<and> slab_live a3 m3 = slab_live a m)))"
proof (cases "bytes = 0")
  case True
  then show ?thesis using inv init by (auto simp: bump_init_from_slab_def)
next
  case False
  obtain p a' m' e' where al: "slab_alloc a m e bytes = (p, a', m', e')" by (metis prod_cases4)
  have s: "a1 = a'" "m1 = m'" "e1 = e'" using init al False by (auto simp: bump_init_from_slab_def split: if_splits)
  note st = slab_alloc_step [OF inv al]
  show ?thesis
  proof (cases "p = 0")
    case True
    then show ?thesis using init al False st s by (auto simp: bump_init_from_slab_def)
  next
    case p: False
    then have r: "r = BUMP_OK" and b: "bp_region b = p" "bp_parent b" "bump_ok b"
      using init al False by (auto simp: bump_init_from_slab_def bump_ok_def)
    have "\<exists>b' a3 m3 e3. bump_destroy b (a2, m2, e2) = (b', a3, m3, e3) \<and>
              slab_inv a3 m3 \<and> slab_live a3 m3 = slab_live a m"
      if "slab_inv a2 m2" "slab_live a2 m2 = slab_live a1 m1"
      for a2 :: "'e SlabAllocator" and m2 e2
      using slab_mem.borrow [of "(a, m, e)" bytes p "(a', m', e')" "(a2, m2, e2)"] inv al p that b s
      by (fastforce simp: bump_destroy_def)
    then show ?thesis using st p r b s by auto
  qed
qed

theorem bump_slab_lifetime_witness:
  "\<exists>(a :: unit SlabAllocator) m b a1 m1 e1. slab_inv a m \<and>
     bump_init_from_slab \<lparr>bp_region = 0, bp_bytes = 0, bp_offset = 0, bp_peak = 0, bp_parent = False\<rparr> (a, m, ()) 20 =
       (BUMP_OK, b, a1, m1, e1) \<and> bump_ok b"
proof -
  let ?b = "\<lparr>bp_region = 0, bp_bytes = 0, bp_offset = 0, bp_peak = 0, bp_parent = False\<rparr>"
  obtain a :: "unit SlabAllocator" and m q where a: "slab_inv a m" "slab_live a m = {q}" "btop a 0 = 1"
    using demo_slab_live by metis
  have bin: "size_to_bin 20 = 0" by code_simp
  have pre: "(20 :: u64) \<noteq> 0" "(0::nat) < 16" "btop a 0 = Suc 0" using a(3) by simp_all
  obtain r b a1 m1 e1 where i: "bump_init_from_slab ?b (a, m, ()) 20 = (r, b, a1, m1, e1)" by (metis prod_cases5)
  have "r = BUMP_OK"
  proof (rule slab_alloc_live [OF a(1) pre(1) bin pre(2,3), of "()"])
    fix d m2 e2 and a2 :: "unit SlabAllocator"
    assume "slab_alloc a m () 20 = (user_at a 0 d, a2, m2, e2)"
    moreover have "user_at a 0 d \<noteq> 0" by (simp add: user_at_def)
    ultimately show "r = BUMP_OK" using i by (simp add: bump_init_from_slab_def)
  qed
  with bump_slab_lifetime [OF a(1) i] i
  have "bump_init_from_slab ?b (a, m, ()) 20 = (BUMP_OK, b, a1, m1, e1)" "bump_ok b" by simp_all
  with a(1) show ?thesis by (intro exI conjI)
qed

end
