(* ===== verification/Cells.thy ===== *)
theory Cells
  imports Host_Memory
begin

text \<open>
  Arrays of fixed-size elements in host memory: the element \<open>i\<close> of an array at \<open>base\<close> is the
  \<open>sz\<close> bytes from \<open>base + i * sz\<close>. The containers that copy elements in and out of
  caller-owned storage share these facts.
\<close>

definition cell :: "hptr \<Rightarrow> nat \<Rightarrow> nat \<Rightarrow> hptr" where
  "cell base sz i = base + i * sz"

definition cell_val :: "hmem \<Rightarrow> hptr \<Rightarrow> nat \<Rightarrow> nat \<Rightarrow> u8 list" where
  "cell_val m base sz i = load_bytes m (cell base sz i) sz"

lemma length_cell_val [simp]: "length (cell_val m base sz i) = sz"
  by (simp add: cell_val_def)

lemma cell_bounds:
  assumes "i < n"
  shows "base \<le> cell base sz i" "cell base sz i + sz \<le> base + n * sz"
proof -
  have "Suc i * sz \<le> n * sz" using assms by (intro mult_le_mono1) simp
  then show "base \<le> cell base sz i" "cell base sz i + sz \<le> base + n * sz"
    by (simp_all add: cell_def)
qed

lemma cells_apart:
  assumes "i \<noteq> j" shows "apart (cell base sz i) sz (cell base sz j) sz"
proof -
  have "Suc i * sz \<le> j * sz \<or> Suc j * sz \<le> i * sz"
    using assms by (metis Suc_leI linorder_neqE_nat mult_le_mono1)
  then show ?thesis by (auto simp: apart_def cell_def)
qed

lemma cell_apart_client:
  "apart base (n * sz) p k \<Longrightarrow> i < n \<Longrightarrow> apart (cell base sz i) sz p k"
  using cell_bounds [of i n base sz] by (auto simp: apart_def)

lemma cell_val_store:
  "length bs = sz \<Longrightarrow>
   cell_val (store_bytes m (cell base sz i) bs) base sz j = (if j = i then bs else cell_val m base sz j)"
  using cells_apart [of i j base sz] by (simp add: cell_val_def)

lemma cell_val_client_store:
  "apart base (n * sz) p (length bs) \<Longrightarrow> i < n \<Longrightarrow>
   cell_val (store_bytes m p bs) base sz i = cell_val m base sz i"
  using cell_apart_client [of base n sz p "length bs" i] apart_sym by (simp add: cell_val_def)

lemma cell_val_cong:
  "(\<And>x. x \<in> extent base (n * sz) \<Longrightarrow> m' x = m x) \<Longrightarrow> i < n \<Longrightarrow>
   cell_val m' base sz i = cell_val m base sz i"
  unfolding cell_val_def
  by (rule load_bytes_eqI) (use cell_bounds [of i n base sz] in auto)

text \<open>The index arithmetic of a cyclic window.\<close>

lemma cyclic_distinct:
  assumes "i < (c::nat)" "j < c" "t < c" "(t + i) mod c = (t + j) mod c" shows "i = j"
  using assms by (auto simp: mod_if split: if_splits)

lemma cyclic_Suc: "((t + 1) mod c + k) mod c = (t + Suc k) mod (c::nat)"
  by (simp add: mod_add_left_eq)

lemmas cyclic_step = cyclic_Suc cyclic_Suc [simplified]

end
