(* ===== verification/Queue_Interface.thy ===== *)
theory Queue_Interface
  imports Prelude
begin

text \<open>
  The interface of a bounded queue, as the mailbox and the audio and channel code use one:
  a push that reports whether it accepted, a pop that reports whether it delivered. The
  pusher hands over a place \<open>'p\<close> (in the code, a pointer to an element, or a sender and a
  payload), the popper a place \<open>'q\<close> to deliver into; \<open>src\<close> is the element at the one, \<open>dst\<close> the
  element at the other. The order theorem is proved once from the laws: for any sequence of
  operations, what comes out is what went in, in order, nothing lost and nothing invented.
\<close>

datatype ('p, 'q) queue_op = QPush 'p | QPop 'q

fun op_ok :: "('p \<Rightarrow> bool) \<Rightarrow> ('q \<Rightarrow> bool) \<Rightarrow> ('p, 'q) queue_op \<Rightarrow> bool" where
  "op_ok f g (QPush p) = f p"
| "op_ok f g (QPop q) = g q"

text \<open>Runs a sequence of operations; collects the accepted and the delivered elements.\<close>

fun run_queue ::
  "('s \<Rightarrow> 'p \<Rightarrow> bool \<times> 's) \<Rightarrow> ('s \<Rightarrow> 'q \<Rightarrow> bool \<times> 's) \<Rightarrow> ('s \<Rightarrow> 'p \<Rightarrow> 'a) \<Rightarrow> ('s \<Rightarrow> 'q \<Rightarrow> 'a) \<Rightarrow>
   ('p, 'q) queue_op list \<Rightarrow> 's \<Rightarrow> 'a list \<times> 'a list \<times> 's" where
  "run_queue push pop src dst [] s = ([], [], s)"
| "run_queue push pop src dst (QPush p # ops) s =
     (let (ok, s1) = push s p; (ins, outs, s2) = run_queue push pop src dst ops s1
      in (if ok then src s p # ins else ins, outs, s2))"
| "run_queue push pop src dst (QPop p # ops) s =
     (let (ok, s1) = pop s p; (ins, outs, s2) = run_queue push pop src dst ops s1
      in (ins, if ok then dst s1 p # outs else outs, s2))"

locale bounded_queue =
  fixes push :: "'s \<Rightarrow> 'p \<Rightarrow> bool \<times> 's"
    and pop :: "'s \<Rightarrow> 'q \<Rightarrow> bool \<times> 's"
    and src :: "'s \<Rightarrow> 'p \<Rightarrow> 'a"
    and dst :: "'s \<Rightarrow> 'q \<Rightarrow> 'a"
    and inv :: "'s \<Rightarrow> bool"
    and pusher :: "'s \<Rightarrow> 'p \<Rightarrow> bool"
    and popper :: "'s \<Rightarrow> 'q \<Rightarrow> bool"
    and allowed :: "'s \<Rightarrow> 'p \<Rightarrow> bool"
    and contents :: "'s \<Rightarrow> 'a list"
    and limit :: "'s \<Rightarrow> nat"
  assumes push_law: "inv s \<Longrightarrow> pusher s p \<Longrightarrow> push s p = (ok, s') \<Longrightarrow>
      inv s' \<and> limit s' = limit s \<and> pusher s' = pusher s \<and> popper s' = popper s \<and> allowed s' = allowed s \<and>
      (ok \<longleftrightarrow> allowed s p \<and> length (contents s) < limit s) \<and>
      contents s' = (if ok then contents s @ [src s p] else contents s)"
    and pop_law: "inv s \<Longrightarrow> popper s q \<Longrightarrow> pop s q = (ok, s') \<Longrightarrow>
      inv s' \<and> limit s' = limit s \<and> pusher s' = pusher s \<and> popper s' = popper s \<and> allowed s' = allowed s \<and>
      (ok \<longleftrightarrow> contents s \<noteq> []) \<and>
      contents s = (if ok then dst s' q # contents s' else contents s')"
begin

lemma run_order:
  "inv s \<Longrightarrow> \<forall>x \<in> set ops. op_ok (pusher s) (popper s) x \<Longrightarrow>
   run_queue push pop src dst ops s = (ins, outs, s') \<Longrightarrow>
   contents s @ ins = outs @ contents s' \<and> inv s' \<and> limit s' = limit s"
proof (induction ops arbitrary: s ins outs s')
  case Nil
  then show ?case by simp
next
  case (Cons x ops)
  show ?case
  proof (cases x)
    case (QPush p)
    obtain ok s1 where st: "push s p = (ok, s1)" by (cases "push s p")
    obtain i o' s2 where r: "run_queue push pop src dst ops s1 = (i, o', s2)"
      by (cases "run_queue push pop src dst ops s1")
    have c: "pusher s p" and cs: "\<forall>x \<in> set ops. op_ok (pusher s) (popper s) x"
      using Cons.prems(2) QPush by simp_all
    note law = push_law [OF Cons.prems(1) c st]
    have e: "ins = (if ok then src s p # i else i)" "outs = o'" "s' = s2"
      using Cons.prems(3) QPush st r by simp_all
    have "contents s1 @ i = o' @ contents s2 \<and> inv s2 \<and> limit s2 = limit s1"
      using Cons.IH [OF _ _ r] law cs by simp
    moreover have "contents s1 = (if ok then contents s @ [src s p] else contents s)" "limit s1 = limit s"
      using law by blast+
    ultimately show ?thesis unfolding e by auto
  next
    case (QPop p)
    obtain ok s1 where st: "pop s p = (ok, s1)" by (cases "pop s p")
    obtain i o' s2 where r: "run_queue push pop src dst ops s1 = (i, o', s2)"
      by (cases "run_queue push pop src dst ops s1")
    have c: "popper s p" and cs: "\<forall>x \<in> set ops. op_ok (pusher s) (popper s) x"
      using Cons.prems(2) QPop by simp_all
    note law = pop_law [OF Cons.prems(1) c st]
    have e: "ins = i" "outs = (if ok then dst s1 p # o' else o')" "s' = s2"
      using Cons.prems(3) QPop st r by simp_all
    have "contents s1 @ i = o' @ contents s2 \<and> inv s2 \<and> limit s2 = limit s1"
      using Cons.IH [OF _ _ r] law cs by simp
    moreover have "contents s = (if ok then dst s1 p # contents s1 else contents s1)" "limit s1 = limit s"
      using law by blast+
    ultimately show ?thesis unfolding e by auto
  qed
qed

lemma pop_after_push:
  assumes "inv s" "pusher s p" "allowed s p" "popper s q" "contents s = []" "0 < limit s"
    and "push s p = (ok, s1)" "pop s1 q = (ok', s2)"
  shows "ok \<and> ok' \<and> dst s2 q = src s p \<and> contents s2 = []"
  using push_law [OF assms(1,2,7)] pop_law [of s1 q ok' s2] assms by auto

end

end
