(* ===== verification/Ring.thy ===== *)
theory Ring
  imports Cells Queue_Interface
begin

text \<open>
  The ring buffer (\<open>src/containers/ring_buffer.c\<close>) and the FIFO built on it
  (\<open>src/containers/fifo_queue.c\<close>). Elements are byte blocks of a fixed size in caller-owned
  storage; the operations copy them with \<open>memcpy\<close>. Indices and counts are natural numbers:
  the code keeps them below the capacity, and the storage of \<open>capacity * element_size\<close> bytes
  exists, so the \<open>size_t\<close> arithmetic cannot wrap. The abstraction \<open>rb_list\<close> reads the live
  elements from memory, oldest first.
\<close>

section \<open>Ring buffer\<close>

record RingBuffer =
  rg_storage :: hptr
  rg_capacity :: nat
  rg_esize :: nat
  rg_head :: nat
  rg_tail :: nat
  rg_count :: nat

definition rb_slot_at :: "RingBuffer \<Rightarrow> nat \<Rightarrow> hptr" where
  "rb_slot_at rb slot = rg_storage rb + slot * rg_esize rb"

definition rb_init :: "hptr \<Rightarrow> nat \<Rightarrow> nat \<Rightarrow> RingBuffer" where
  "rb_init storage capacity element_size =
     \<lparr>rg_storage = storage, rg_capacity = capacity, rg_esize = element_size,
      rg_head = 0, rg_tail = 0, rg_count = 0\<rparr>"

definition rb_reset :: "RingBuffer \<Rightarrow> RingBuffer" where
  "rb_reset rb = rb\<lparr>rg_head := 0, rg_tail := 0, rg_count := 0\<rparr>"

definition rb_push :: "RingBuffer \<Rightarrow> hmem \<Rightarrow> hptr \<Rightarrow> RingBuffer \<times> hmem" where
  "rb_push rb m element =
     (let m = memcpy m (rb_slot_at rb (rg_head rb)) element (rg_esize rb);
          rb = rb\<lparr>rg_head := (rg_head rb + 1) mod rg_capacity rb\<rparr>
      in if rg_count rb = rg_capacity rb
         then (rb\<lparr>rg_tail := (rg_tail rb + 1) mod rg_capacity rb\<rparr>, m)
         else (rb\<lparr>rg_count := rg_count rb + 1\<rparr>, m))"

definition rb_pop :: "RingBuffer \<Rightarrow> hmem \<Rightarrow> hptr \<Rightarrow> bool \<times> RingBuffer \<times> hmem" where
  "rb_pop rb m out =
     (if rg_count rb = 0 then (False, rb, m)
      else
        let m = memcpy m out (rb_slot_at rb (rg_tail rb)) (rg_esize rb);
            rb = rb\<lparr>rg_tail := (rg_tail rb + 1) mod rg_capacity rb\<rparr>;
            rb = rb\<lparr>rg_count := rg_count rb - 1\<rparr>
        in (True, rb, m))"

definition rb_peek :: "RingBuffer \<Rightarrow> hmem \<Rightarrow> hptr \<Rightarrow> bool \<times> hmem" where
  "rb_peek rb m out =
     (if rg_count rb = 0 then (False, m)
      else (True, memcpy m out (rb_slot_at rb (rg_tail rb)) (rg_esize rb)))"

definition rb_peek_at :: "RingBuffer \<Rightarrow> hmem \<Rightarrow> nat \<Rightarrow> hptr \<Rightarrow> bool \<times> hmem" where
  "rb_peek_at rb m offset out =
     (if offset \<ge> rg_count rb then (False, m)
      else let slot = (rg_tail rb + offset) mod rg_capacity rb
           in (True, memcpy m out (rb_slot_at rb slot) (rg_esize rb)))"

definition rb_count :: "RingBuffer \<Rightarrow> nat" where "rb_count rb = rg_count rb"
definition rb_empty :: "RingBuffer \<Rightarrow> bool" where "rb_empty rb \<longleftrightarrow> rg_count rb = 0"
definition rb_full :: "RingBuffer \<Rightarrow> bool" where "rb_full rb \<longleftrightarrow> rg_count rb = rg_capacity rb"

section \<open>FIFO queue\<close>

text \<open>\<open>FifoQueue\<close> is a struct with the ring buffer as its only member.\<close>

record FifoQueue =
  ff_rb :: RingBuffer

definition fifo_init :: "hptr \<Rightarrow> nat \<Rightarrow> nat \<Rightarrow> FifoQueue" where
  "fifo_init storage capacity element_size = \<lparr>ff_rb = rb_init storage capacity element_size\<rparr>"

definition fifo_reset :: "FifoQueue \<Rightarrow> FifoQueue" where
  "fifo_reset q = q\<lparr>ff_rb := rb_reset (ff_rb q)\<rparr>"

definition fifo_push :: "FifoQueue \<Rightarrow> hmem \<Rightarrow> hptr \<Rightarrow> bool \<times> FifoQueue \<times> hmem" where
  "fifo_push q m element =
     (if rb_full (ff_rb q) then (False, q, m)
      else let (rb, m) = rb_push (ff_rb q) m element in (True, q\<lparr>ff_rb := rb\<rparr>, m))"

definition fifo_pop :: "FifoQueue \<Rightarrow> hmem \<Rightarrow> hptr \<Rightarrow> bool \<times> FifoQueue \<times> hmem" where
  "fifo_pop q m out = (let (ok, rb, m) = rb_pop (ff_rb q) m out in (ok, q\<lparr>ff_rb := rb\<rparr>, m))"

definition fifo_peek :: "FifoQueue \<Rightarrow> hmem \<Rightarrow> hptr \<Rightarrow> bool \<times> hmem" where
  "fifo_peek q m out = rb_peek (ff_rb q) m out"

definition fifo_count :: "FifoQueue \<Rightarrow> nat" where "fifo_count q = rb_count (ff_rb q)"
definition fifo_empty :: "FifoQueue \<Rightarrow> bool" where "fifo_empty q = rb_empty (ff_rb q)"
definition fifo_full :: "FifoQueue \<Rightarrow> bool" where "fifo_full q = rb_full (ff_rb q)"

section \<open>Contents\<close>

definition rb_ok :: "RingBuffer \<Rightarrow> bool" where
  "rb_ok rb \<longleftrightarrow> 0 < rg_capacity rb \<and> rg_tail rb < rg_capacity rb \<and> rg_count rb \<le> rg_capacity rb \<and>
     rg_head rb = (rg_tail rb + rg_count rb) mod rg_capacity rb"

definition rb_elem :: "RingBuffer \<Rightarrow> hmem \<Rightarrow> nat \<Rightarrow> u8 list" where
  "rb_elem rb m slot = load_bytes m (rb_slot_at rb slot) (rg_esize rb)"

definition rb_list :: "RingBuffer \<Rightarrow> hmem \<Rightarrow> u8 list list" where
  "rb_list rb m = map (\<lambda>k. rb_elem rb m ((rg_tail rb + k) mod rg_capacity rb)) [0..<rg_count rb]"

definition rb_extent :: "RingBuffer \<Rightarrow> hptr set" where
  "rb_extent rb = extent (rg_storage rb) (rg_capacity rb * rg_esize rb)"

text \<open>A caller's buffer: one element long and outside the storage.\<close>

definition rb_client :: "RingBuffer \<Rightarrow> hptr \<Rightarrow> bool" where
  "rb_client rb p \<longleftrightarrow> apart (rg_storage rb) (rg_capacity rb * rg_esize rb) p (rg_esize rb)"

lemma length_rb_list [simp]: "length (rb_list rb m) = rg_count rb"
  by (simp add: rb_list_def)

lemma rb_slot_at_cell: "rb_slot_at rb slot = cell (rg_storage rb) (rg_esize rb) slot"
  by (simp add: rb_slot_at_def cell_def)

lemma rb_elem_cell: "rb_elem rb m slot = cell_val m (rg_storage rb) (rg_esize rb) slot"
  by (simp add: rb_elem_def cell_val_def rb_slot_at_cell)

lemma slot_in_storage:
  assumes "slot < rg_capacity rb"
  shows "rg_storage rb \<le> rb_slot_at rb slot"
    "rb_slot_at rb slot + rg_esize rb \<le> rg_storage rb + rg_capacity rb * rg_esize rb"
  using cell_bounds [OF assms] by (simp_all add: rb_slot_at_cell)

text \<open>Copying into one slot changes that element and no other.\<close>

lemma elem_after_write:
  assumes "length bs = rg_esize rb"
  shows "rb_elem rb (store_bytes m (rb_slot_at rb i) bs) j = (if j = i then bs else rb_elem rb m j)"
  using cell_val_store [OF assms] by (simp add: rb_elem_cell rb_slot_at_cell)

lemma elem_after_client_write:
  assumes "rb_client rb p" "length bs = rg_esize rb" "j < rg_capacity rb"
  shows "rb_elem rb (store_bytes m p bs) j = rb_elem rb m j"
  using assms cell_val_client_store [of _ _ _ p bs] by (simp add: rb_elem_cell rb_client_def)

lemma rb_list_nth: "k < rg_count rb \<Longrightarrow> rb_list rb m ! k = rb_elem rb m ((rg_tail rb + k) mod rg_capacity rb)"
  by (simp add: rb_list_def)

lemma rb_list_other:
  assumes "\<And>x. x \<in> rb_extent rb \<Longrightarrow> m' x = m x" and "rb_ok rb"
  shows "rb_list rb m' = rb_list rb m"
proof -
  have "rb_elem rb m' slot = rb_elem rb m slot" if "slot < rg_capacity rb" for slot
    unfolding rb_elem_cell by (rule cell_val_cong [OF _ that]) (rule assms(1), simp add: rb_extent_def extent_def)
  then show ?thesis using assms(2) by (auto simp: rb_list_def rb_ok_def)
qed

lemma rb_init_ok: "0 < c \<Longrightarrow> rb_ok (rb_init s c es) \<and> rb_list (rb_init s c es) m = []"
  by (simp add: rb_ok_def rb_init_def rb_list_def)

lemma rb_push_spec:
  assumes ok: "rb_ok rb" and push: "rb_push rb m p = (rb', m')"
  shows "rb_ok rb'"
    and "rb_list rb' m' =
      (if rg_count rb = rg_capacity rb then tl (rb_list rb m) else rb_list rb m) @ [load_bytes m p (rg_esize rb)]"
    and "x \<notin> rb_extent rb \<Longrightarrow> m' x = m x"
    and "rg_storage rb' = rg_storage rb" "rg_capacity rb' = rg_capacity rb" "rg_esize rb' = rg_esize rb"
proof -
  define c where "c = rg_capacity rb"
  define t where "t = rg_tail rb"
  define n where "n = rg_count rb"
  have b: "0 < c" "t < c" "n \<le> c" "rg_head rb = (t + n) mod c" using ok by (auto simp: rb_ok_def c_def t_def n_def)
  have h: "rg_head rb < c" using b by simp
  have m': "m' = store_bytes m (rb_slot_at rb (rg_head rb)) (load_bytes m p (rg_esize rb))"
    using push by (auto simp: rb_push_def memcpy_def Let_def split: if_splits)
  have rb': "rb' = (if n = c then rb\<lparr>rg_head := (rg_head rb + 1) mod c, rg_tail := (t + 1) mod c\<rparr>
      else rb\<lparr>rg_head := (rg_head rb + 1) mod c, rg_count := n + 1\<rparr>)"
    using push by (auto simp: rb_push_def Let_def c_def t_def n_def split: if_splits)
  show frame: "rg_storage rb' = rg_storage rb" "rg_capacity rb' = rg_capacity rb" "rg_esize rb' = rg_esize rb"
    by (simp_all add: rb')
  have eqs: "rg_capacity rb = c" "rg_tail rb = t" "rg_count rb = n" by (simp_all add: c_def t_def n_def)
  show "rb_ok rb'" using b by (auto simp: rb_ok_def rb' eqs mod_simps)
  show "m' x = m x" if "x \<notin> rb_extent rb"
    unfolding m' using that slot_in_storage [OF h [unfolded c_def]] by (intro store_bytes_other) (auto simp: rb_extent_def)
  have el: "rb_elem rb' m' j = (if j = rg_head rb then load_bytes m p (rg_esize rb) else rb_elem rb m j)" for j
    using elem_after_write [of "load_bytes m p (rg_esize rb)" rb m "rg_head rb" j] frame
    by (simp add: m' rb_elem_def rb_slot_at_def)
  show "rb_list rb' m' =
      (if rg_count rb = rg_capacity rb then tl (rb_list rb m) else rb_list rb m) @ [load_bytes m p (rg_esize rb)]"
  proof (cases "n = c")
    case False
    have "(t + k) mod c \<noteq> rg_head rb" if "k < n" for k
      using cyclic_distinct [of k c n t] b that False by auto
    then show ?thesis using False b
      by (auto simp: rb_list_def el frame c_def [symmetric] n_def [symmetric] t_def [symmetric]) (auto simp: rb' t_def)
  next
    case True
    have ht: "rg_head rb = t" using b True by simp
    have tail': "rg_tail rb' = (t + 1) mod c" and count': "rg_count rb' = c" using True by (simp_all add: rb' n_def)
    have nth': "rb_list rb' m' ! k = rb_elem rb' m' ((t + Suc k) mod c)" if "k < c" for k
      using that by (simp add: rb_list_nth count' tail' frame eqs cyclic_step del: One_nat_def add_Suc_right)
    have "rb_list rb' m' ! k = (tl (rb_list rb m) @ [load_bytes m p (rg_esize rb)]) ! k" if k: "k < c" for k
    proof (cases "Suc k = c")
      case last: True
      then have "(t + Suc k) mod c = t" using b by simp
      then have "rb_list rb' m' ! k = load_bytes m p (rg_esize rb)" using nth' [OF k] ht by (simp add: el)
      moreover have "length (tl (rb_list rb m)) = k" using last True eqs by simp
      ultimately show ?thesis by (metis nth_append_length)
    next
      case False
      then have sk: "Suc k < c" using k by simp
      then have "(t + Suc k) mod c \<noteq> t" using cyclic_distinct [of "Suc k" c 0 t] b by auto
      then have "rb_list rb' m' ! k = rb_elem rb m ((t + Suc k) mod c)" using nth' [OF k] ht by (simp add: el)
      moreover have "\<dots> = rb_list rb m ! Suc k" using sk True eqs by (simp add: rb_list_nth)
      moreover have "k < length (tl (rb_list rb m))" using sk True eqs by simp
      ultimately show ?thesis by (simp add: nth_append nth_tl)
    qed
    moreover have "rg_count rb' = c" using True by (simp add: rb' n_def)
    ultimately show ?thesis using True b by (intro nth_equalityI) (auto simp: n_def c_def)
  qed
qed

lemma rb_pop_spec:
  assumes ok: "rb_ok rb" and cl: "rb_client rb out" and pop: "rb_pop rb m out = (r, rb', m')"
  shows "r \<longleftrightarrow> rb_list rb m \<noteq> []" and "rb_ok rb'"
    and "r \<Longrightarrow> rb_list rb' m' = tl (rb_list rb m) \<and> load_bytes m' out (rg_esize rb) = hd (rb_list rb m)"
    and "\<not> r \<Longrightarrow> rb' = rb \<and> m' = m"
    and "x \<notin> extent out (rg_esize rb) \<Longrightarrow> m' x = m x"
    and "rg_storage rb' = rg_storage rb" "rg_capacity rb' = rg_capacity rb" "rg_esize rb' = rg_esize rb"
proof -
  have ne: "rb_list rb m \<noteq> [] \<longleftrightarrow> rg_count rb \<noteq> 0" by (metis length_0_conv length_rb_list)
  have b: "0 < rg_capacity rb" "rg_tail rb < rg_capacity rb" "rg_count rb \<le> rg_capacity rb"
    using ok by (auto simp: rb_ok_def)
  show "r \<longleftrightarrow> rb_list rb m \<noteq> []" unfolding ne using pop by (auto simp: rb_pop_def Let_def split: if_splits)
  show "\<not> r \<Longrightarrow> rb' = rb \<and> m' = m" using pop by (auto simp: rb_pop_def Let_def split: if_splits)
  show "rg_storage rb' = rg_storage rb" "rg_capacity rb' = rg_capacity rb" "rg_esize rb' = rg_esize rb"
    using pop by (auto simp: rb_pop_def Let_def split: if_splits)
  have m': "m' = store_bytes m out (rb_elem rb m (rg_tail rb))" if r using that pop
    by (auto simp: rb_pop_def Let_def memcpy_def rb_elem_def split: if_splits)
  have len: "length (rb_elem rb m j) = rg_esize rb" for j by (simp add: rb_elem_def)
  show "m' x = m x" if "x \<notin> extent out (rg_esize rb)"
  proof (cases r)
    case True
    then show ?thesis using that store_bytes_other [of x out "rb_elem rb m (rg_tail rb)" m] by (simp add: m' len)
  qed (use pop in \<open>auto simp: rb_pop_def Let_def split: if_splits\<close>)
  show "rb_ok rb'"
  proof (cases "rg_count rb")
    case 0
    then show ?thesis using ok pop by (simp add: rb_pop_def)
  next
    case (Suc k)
    then have "rb' = rb\<lparr>rg_tail := (rg_tail rb + 1) mod rg_capacity rb, rg_count := k\<rparr>"
      using pop by (auto simp: rb_pop_def Let_def)
    then show ?thesis using ok Suc by (simp add: rb_ok_def mod_simps)
  qed
  assume r
  then have n: "0 < rg_count rb" and rb': "rb' = rb\<lparr>rg_tail := (rg_tail rb + 1) mod rg_capacity rb, rg_count := rg_count rb - 1\<rparr>"
    using pop by (auto simp: rb_pop_def Let_def split: if_splits)
  have "rb_list rb' m' ! k = tl (rb_list rb m) ! k" if k: "k < rg_count rb - 1" for k
  proof -
    have "(rg_tail rb + Suc k) mod rg_capacity rb < rg_capacity rb" using b by simp
    from elem_after_client_write [OF cl len this] show ?thesis
      using k m' [OF \<open>r\<close>] by (simp add: rb_list_nth nth_tl rb' cyclic_step) (simp add: rb_elem_def rb_slot_at_def)
  qed
  then have "rb_list rb' m' = tl (rb_list rb m)" by (intro nth_equalityI) (auto simp: rb')
  moreover have "load_bytes m' out (rg_esize rb) = hd (rb_list rb m)"
    using n b ne by (simp add: m' [OF \<open>r\<close>] len hd_conv_nth rb_list_nth)
  ultimately show "rb_list rb' m' = tl (rb_list rb m) \<and> load_bytes m' out (rg_esize rb) = hd (rb_list rb m)" ..
qed

section \<open>The FIFO as a bounded queue\<close>

lemma fifo_push_cases:
  assumes ok: "rb_ok (ff_rb q)" and push: "fifo_push q m p = (r, q', m')"
  shows "rb_ok (ff_rb q')" and "r \<longleftrightarrow> rg_count (ff_rb q) < rg_capacity (ff_rb q)"
    and "rb_list (ff_rb q') m' =
      (if r then rb_list (ff_rb q) m @ [load_bytes m p (rg_esize (ff_rb q))] else rb_list (ff_rb q) m)"
    and "x \<notin> rb_extent (ff_rb q) \<Longrightarrow> m' x = m x"
    and "rg_storage (ff_rb q') = rg_storage (ff_rb q)" "rg_capacity (ff_rb q') = rg_capacity (ff_rb q)"
      "rg_esize (ff_rb q') = rg_esize (ff_rb q)"
proof -
  obtain rb' w where rp: "rb_push (ff_rb q) m p = (rb', w)" by force
  have le: "rg_count (ff_rb q) \<le> rg_capacity (ff_rb q)" using ok by (simp add: rb_ok_def)
  note spec = rb_push_spec [OF ok rp]
  show "rb_ok (ff_rb q')" "r \<longleftrightarrow> rg_count (ff_rb q) < rg_capacity (ff_rb q)"
    "rb_list (ff_rb q') m' =
      (if r then rb_list (ff_rb q) m @ [load_bytes m p (rg_esize (ff_rb q))] else rb_list (ff_rb q) m)"
    "rg_storage (ff_rb q') = rg_storage (ff_rb q)" "rg_capacity (ff_rb q') = rg_capacity (ff_rb q)"
    "rg_esize (ff_rb q') = rg_esize (ff_rb q)"
    using push rp spec ok le by (auto simp: fifo_push_def rb_full_def split: if_splits)
  show "x \<notin> rb_extent (ff_rb q) \<Longrightarrow> m' x = m x"
    using push rp spec(3) by (auto simp: fifo_push_def split: if_splits)
qed

lemma fifo_pop_cases:
  assumes ok: "rb_ok (ff_rb q)" and cl: "rb_client (ff_rb q) p" and pop: "fifo_pop q m p = (r, q', m')"
  shows "rb_ok (ff_rb q')" and "r \<longleftrightarrow> rb_list (ff_rb q) m \<noteq> []"
    and "rb_list (ff_rb q) m =
      (if r then load_bytes m' p (rg_esize (ff_rb q')) # rb_list (ff_rb q') m' else rb_list (ff_rb q') m')"
    and "x \<notin> extent p (rg_esize (ff_rb q)) \<Longrightarrow> m' x = m x"
    and "rg_storage (ff_rb q') = rg_storage (ff_rb q)" "rg_capacity (ff_rb q') = rg_capacity (ff_rb q)"
      "rg_esize (ff_rb q') = rg_esize (ff_rb q)"
proof -
  obtain r0 rb' w where rp: "rb_pop (ff_rb q) m p = (r0, rb', w)" by (metis prod_cases3)
  have eq: "r = r0" "ff_rb q' = rb'" "m' = w" using pop rp by (auto simp: fifo_pop_def)
  note spec = rb_pop_spec [OF ok cl rp]
  show "rb_ok (ff_rb q')" "r \<longleftrightarrow> rb_list (ff_rb q) m \<noteq> []"
    "rg_storage (ff_rb q') = rg_storage (ff_rb q)" "rg_capacity (ff_rb q') = rg_capacity (ff_rb q)"
    "rg_esize (ff_rb q') = rg_esize (ff_rb q)"
    using spec(1,2,6-8) eq by simp_all
  show "x \<notin> extent p (rg_esize (ff_rb q)) \<Longrightarrow> m' x = m x" using spec(5) eq by simp
  show "rb_list (ff_rb q) m =
      (if r then load_bytes m' p (rg_esize (ff_rb q')) # rb_list (ff_rb q') m' else rb_list (ff_rb q') m')"
    using spec(1,3,4,8) eq by (cases r) (auto simp: neq_Nil_conv)
qed

lemma rb_client_cong:
  "rg_storage r' = rg_storage r \<Longrightarrow> rg_capacity r' = rg_capacity r \<Longrightarrow> rg_esize r' = rg_esize r \<Longrightarrow>
   rb_client r' = rb_client r"
  by (simp add: rb_client_def fun_eq_iff)

abbreviation fifo_val :: "FifoQueue \<times> hmem \<Rightarrow> hptr \<Rightarrow> u8 list" where
  "fifo_val \<equiv> \<lambda>(q, m) p. load_bytes m p (rg_esize (ff_rb q))"

interpretation fifo: bounded_queue
  "\<lambda>(q, m) p. fifo_push q m p" "\<lambda>(q, m) p. fifo_pop q m p" fifo_val fifo_val
  "\<lambda>(q, m). rb_ok (ff_rb q)" "\<lambda>(q, m). rb_client (ff_rb q)" "\<lambda>(q, m). rb_client (ff_rb q)" "\<lambda>_ _. True"
  "\<lambda>(q, m). rb_list (ff_rb q) m" "\<lambda>(q, m). rg_capacity (ff_rb q)"
proof (unfold_locales, goal_cases)
  case (1 s p ok s')
  obtain q m where s: "s = (q, m)" by force
  obtain q' m' where s': "s' = (q', m')" by force
  have ok: "rb_ok (ff_rb q)" and push: "fifo_push q m p = (ok, q', m')" using 1 s s' by auto
  note c = fifo_push_cases [OF ok push]
  show ?case unfolding s s' prod.case using c(1-3) c(5-7) rb_client_cong [OF c(5-7)] by auto
next
  case (2 s p ok s')
  obtain q m where s: "s = (q, m)" by force
  obtain q' m' where s': "s' = (q', m')" by force
  have ok: "rb_ok (ff_rb q)" and cl: "rb_client (ff_rb q) p" and pop: "fifo_pop q m p = (ok, q', m')"
    using 2 s s' by auto
  note c = fifo_pop_cases [OF ok cl pop]
  show ?case unfolding s s' prod.case using c(1-3) c(5-7) rb_client_cong [OF c(5-7)] by auto
qed

end
