(* ===== verification/Ring_Trace.thy ===== *)
theory Ring_Trace
  imports Ring
begin

text \<open>
  The FIFO over whole sessions, against a queue of values that knows nothing of the code. A
  session starts with \<open>fifo_init\<close> and mixes every operation of \<open>fifo_queue.h\<close> with the callers'
  own writes outside the storage; it leaves a log of what each call answered and copied out.
  \<open>replay\<close> reads such a log as a bounded list queue would have produced it: it fixes each answer
  and each value, so a log it accepts is the only one possible.
\<close>

section \<open>Sessions and their log\<close>

text \<open>\<open>Client x v\<close> is not a call of the queue: its caller writes a byte of its own memory.\<close>

datatype fifo_call =
    Push hptr | Pop hptr | Peek hptr | Count | Empty | Full | Reset
  | Client hptr u8

datatype fifo_event =
    Pushed "u8 list" bool | Popped "u8 list option" | Peeked "u8 list option"
  | Counted nat | Emptied bool | Filled bool | Cleared

fun fifo_do :: "fifo_call \<Rightarrow> FifoQueue \<times> hmem \<Rightarrow> fifo_event list \<times> FifoQueue \<times> hmem" where
  "fifo_do (Push p) (q, m) =
     (let (ok, q', m') = fifo_push q m p in ([Pushed (load_bytes m p (rg_esize (ff_rb q))) ok], q', m'))"
| "fifo_do (Pop p) (q, m) =
     (let (ok, q', m') = fifo_pop q m p
      in ([Popped (if ok then Some (load_bytes m' p (rg_esize (ff_rb q))) else None)], q', m'))"
| "fifo_do (Peek p) (q, m) =
     (let (ok, m') = fifo_peek q m p
      in ([Peeked (if ok then Some (load_bytes m' p (rg_esize (ff_rb q))) else None)], q, m'))"
| "fifo_do Count (q, m) = ([Counted (fifo_count q)], q, m)"
| "fifo_do Empty (q, m) = ([Emptied (fifo_empty q)], q, m)"
| "fifo_do Full (q, m) = ([Filled (fifo_full q)], q, m)"
| "fifo_do Reset (q, m) = ([Cleared], fifo_reset q, m)"
| "fifo_do (Client x v) (q, m) = ([], q, m(x := v))"

fun fifo_run :: "fifo_call list \<Rightarrow> FifoQueue \<times> hmem \<Rightarrow> fifo_event list \<times> FifoQueue \<times> hmem" where
  "fifo_run [] s = ([], s)"
| "fifo_run (c # cs) s = (let (es, s1) = fifo_do c s; (es', s2) = fifo_run cs s1 in (es @ es', s2))"

section \<open>The bounded list queue\<close>

fun replay_one :: "nat \<Rightarrow> fifo_event \<Rightarrow> u8 list list \<Rightarrow> u8 list list option" where
  "replay_one cap (Pushed v ok) xs =
     (if ok = (length xs < cap) then Some (if ok then xs @ [v] else xs) else None)"
| "replay_one cap (Popped r) xs =
     (case xs of [] \<Rightarrow> if r = None then Some [] else None
      | x # ys \<Rightarrow> if r = Some x then Some ys else None)"
| "replay_one cap (Peeked r) xs =
     (if r = (case xs of [] \<Rightarrow> None | x # _ \<Rightarrow> Some x) then Some xs else None)"
| "replay_one cap (Counted n) xs = (if n = length xs then Some xs else None)"
| "replay_one cap (Emptied b) xs = (if b = (xs = []) then Some xs else None)"
| "replay_one cap (Filled b) xs = (if b = (length xs = cap) then Some xs else None)"
| "replay_one cap Cleared xs = Some []"

fun replay :: "nat \<Rightarrow> fifo_event list \<Rightarrow> u8 list list \<Rightarrow> u8 list list option" where
  "replay cap [] xs = Some xs"
| "replay cap (e # es) xs = (case replay_one cap e xs of None \<Rightarrow> None | Some ys \<Rightarrow> replay cap es ys)"

lemma replay_append:
  "replay cap (es @ es') xs = (case replay cap es xs of None \<Rightarrow> None | Some ys \<Rightarrow> replay cap es' ys)"
  by (induction es arbitrary: xs) (auto split: option.splits)

text \<open>The calls that obey the contract of a queue whose storage is \<open>extent st (cap * es)\<close>.\<close>

fun call_ok :: "hptr \<Rightarrow> nat \<Rightarrow> nat \<Rightarrow> fifo_call \<Rightarrow> bool" where
  "call_ok st cap es (Push p) \<longleftrightarrow> apart st (cap * es) p es"
| "call_ok st cap es (Pop p) \<longleftrightarrow> apart st (cap * es) p es"
| "call_ok st cap es (Peek p) \<longleftrightarrow> apart st (cap * es) p es"
| "call_ok st cap es (Client x v) \<longleftrightarrow> x \<notin> extent st (cap * es)"
| "call_ok st cap es _ \<longleftrightarrow> True"

text \<open>The bytes a call may change outside the storage.\<close>

fun call_writes :: "nat \<Rightarrow> fifo_call \<Rightarrow> hptr set" where
  "call_writes es (Pop p) = extent p es"
| "call_writes es (Peek p) = extent p es"
| "call_writes es (Client x v) = {x}"
| "call_writes es _ = {}"

section \<open>One call\<close>

definition fifo_at :: "hptr \<Rightarrow> nat \<Rightarrow> nat \<Rightarrow> FifoQueue \<Rightarrow> bool" where
  "fifo_at st cap es q \<longleftrightarrow> rb_ok (ff_rb q) \<and> rg_storage (ff_rb q) = st \<and> rg_capacity (ff_rb q) = cap \<and>
     rg_esize (ff_rb q) = es"

lemma fifo_peek_cases:
  assumes ok: "rb_ok (ff_rb q)" and cl: "rb_client (ff_rb q) p" and peek: "fifo_peek q m p = (r, m')"
  shows "r \<longleftrightarrow> rb_list (ff_rb q) m \<noteq> []"
    and "r \<Longrightarrow> load_bytes m' p (rg_esize (ff_rb q)) = hd (rb_list (ff_rb q) m)"
    and "rb_list (ff_rb q) m' = rb_list (ff_rb q) m"
    and "x \<notin> extent p (rg_esize (ff_rb q)) \<Longrightarrow> m' x = m x"
proof -
  let ?rb = "ff_rb q"
  have ne: "rb_list ?rb m \<noteq> [] \<longleftrightarrow> rg_count ?rb \<noteq> 0" by (metis length_0_conv length_rb_list)
  show "r \<longleftrightarrow> rb_list ?rb m \<noteq> []" unfolding ne using peek by (auto simp: fifo_peek_def rb_peek_def split: if_splits)
  have el: "r \<Longrightarrow> m' = store_bytes m p (rb_elem ?rb m (rg_tail ?rb))" "\<not> r \<Longrightarrow> m' = m"
    using peek by (auto simp: fifo_peek_def rb_peek_def memcpy_def rb_elem_def split: if_splits)
  have len: "length (rb_elem ?rb m j) = rg_esize ?rb" for j by (simp add: rb_elem_def)
  have b: "rg_tail ?rb < rg_capacity ?rb" "0 < rg_capacity ?rb" using ok by (simp_all add: rb_ok_def)
  show "load_bytes m' p (rg_esize ?rb) = hd (rb_list ?rb m)" if r
  proof -
    have "0 < rg_count ?rb" using that \<open>r \<longleftrightarrow> rb_list ?rb m \<noteq> []\<close> ne by simp
    then show ?thesis using b ne by (simp add: el(1) [OF that] len hd_conv_nth rb_list_nth)
  qed
  show frame: "m' x = m x" if "x \<notin> extent p (rg_esize ?rb)" for x
    using el that store_bytes_other [of x p "rb_elem ?rb m (rg_tail ?rb)" m] by (cases r) (simp_all add: len)
  show "rb_list ?rb m' = rb_list ?rb m"
  proof (cases r)
    case True
    show ?thesis unfolding rb_list_def
    proof (rule map_cong [OF refl])
      fix k assume "k \<in> set [0..<rg_count ?rb]"
      have "(rg_tail ?rb + k) mod rg_capacity ?rb < rg_capacity ?rb" using b by simp
      from elem_after_client_write [OF cl len this]
      show "rb_elem ?rb m' ((rg_tail ?rb + k) mod rg_capacity ?rb) = rb_elem ?rb m ((rg_tail ?rb + k) mod rg_capacity ?rb)"
        unfolding el(1) [OF True] .
    qed
  qed (simp add: el)
qed

lemma fifo_do_replays:
  assumes at: "fifo_at st cap es q" and call: "call_ok st cap es c" and step: "fifo_do c (q, m) = (ev, q', m')"
  shows "fifo_at st cap es q' \<and> replay cap ev (rb_list (ff_rb q) m) = Some (rb_list (ff_rb q') m') \<and>
    (\<forall>x. x \<notin> extent st (cap * es) \<longrightarrow> x \<notin> call_writes es c \<longrightarrow> m' x = m x)"
proof -
  have ok: "rb_ok (ff_rb q)" and geo: "rg_storage (ff_rb q) = st" "rg_capacity (ff_rb q) = cap" "rg_esize (ff_rb q) = es"
    using at by (simp_all add: fifo_at_def)
  have st: "rb_extent (ff_rb q) = extent st (cap * es)" by (simp add: rb_extent_def geo)
  have cl: "rb_client (ff_rb q) p \<longleftrightarrow> apart st (cap * es) p es" for p by (simp add: rb_client_def geo)
  have le: "rg_count (ff_rb q) \<le> cap" using ok geo by (simp add: rb_ok_def)
  have ne: "rg_count (ff_rb q) = 0 \<longleftrightarrow> rb_list (ff_rb q) m = []" by (metis length_0_conv length_rb_list)
  show ?thesis
  proof (cases c)
    case (Push p)
    obtain r q1 m1 where push: "fifo_push q m p = (r, q1, m1)" by (metis prod_cases3)
    have e: "ev = [Pushed (load_bytes m p es) r]" "q' = q1" "m' = m1" using step push Push geo by simp_all
    note c = fifo_push_cases [OF ok push]
    show ?thesis using c(1-3) c(5-7) c(4) at geo le unfolding e st by (auto simp: fifo_at_def)
  next
    case (Pop p)
    obtain r q1 m1 where pop: "fifo_pop q m p = (r, q1, m1)" by (metis prod_cases3)
    have e: "ev = [Popped (if r then Some (load_bytes m1 p es) else None)]" "q' = q1" "m' = m1"
      using step pop Pop geo by auto
    have "rb_client (ff_rb q) p" using call Pop cl by simp
    note c = fifo_pop_cases [OF ok this pop]
    have "replay cap ev (rb_list (ff_rb q) m) = Some (rb_list (ff_rb q') m')"
      using c(2,3) unfolding e by (cases "rb_list (ff_rb q) m") (auto simp: geo c(5-7))
    then show ?thesis using c(1) c(4-7) at geo unfolding e by (auto simp: fifo_at_def Pop)
  next
    case (Peek p)
    obtain r m1 where peek: "fifo_peek q m p = (r, m1)" by force
    have e: "ev = [Peeked (if r then Some (load_bytes m1 p es) else None)]" "q' = q" "m' = m1"
      using step peek Peek geo by auto
    have "rb_client (ff_rb q) p" using call Peek cl by simp
    note c = fifo_peek_cases [OF ok this peek, unfolded geo]
    have "replay cap ev (rb_list (ff_rb q) m) = Some (rb_list (ff_rb q') m')"
      using c(1-3) unfolding e geo by (cases "rb_list (ff_rb q) m") auto
    then show ?thesis using c(4) at unfolding e by (auto simp: Peek)
  next
    case Reset
    then have e: "ev = [Cleared]" "q' = fifo_reset q" "m' = m" using step by auto
    have "0 < cap" using ok geo by (simp add: rb_ok_def)
    then show ?thesis unfolding e using geo by (simp add: fifo_at_def fifo_reset_def rb_reset_def rb_ok_def rb_list_def)
  next
    case (Client x v)
    then have e: "ev = []" "q' = q" "m' = m(x := v)" using step by auto
    have "rb_list (ff_rb q) (m(x := v)) = rb_list (ff_rb q) m"
      by (rule rb_list_other [OF _ ok]) (use Client call st in auto)
    then show ?thesis unfolding e using at by (simp add: Client)
  next
    case Count
    then have "ev = [Counted (rg_count (ff_rb q))]" "q' = q" "m' = m"
      using step by (auto simp: fifo_count_def rb_count_def)
    then show ?thesis using at by simp
  next
    case Empty
    then have "ev = [Emptied (rg_count (ff_rb q) = 0)]" "q' = q" "m' = m"
      using step by (auto simp: fifo_empty_def rb_empty_def)
    then show ?thesis using at ne by simp
  next
    case Full
    then have "ev = [Filled (rg_count (ff_rb q) = cap)]" "q' = q" "m' = m"
      using step geo by (auto simp: fifo_full_def rb_full_def)
    then show ?thesis using at by simp
  qed
qed

lemma fifo_run_replays:
  assumes "fifo_at st cap es q" and "\<forall>c \<in> set cs. call_ok st cap es c" and "fifo_run cs (q, m) = (log, q', m')"
  shows "fifo_at st cap es q' \<and> replay cap log (rb_list (ff_rb q) m) = Some (rb_list (ff_rb q') m') \<and>
    (\<forall>x. x \<notin> extent st (cap * es) \<longrightarrow> (\<forall>c \<in> set cs. x \<notin> call_writes es c) \<longrightarrow> m' x = m x)"
  using assms
proof (induction cs arbitrary: q m log)
  case (Cons c cs)
  obtain ev q1 m1 where d: "fifo_do c (q, m) = (ev, q1, m1)" by (metis prod_cases3)
  obtain log' q2 m2 where r: "fifo_run cs (q1, m1) = (log', q2, m2)" by (metis prod_cases3)
  have e: "log = ev @ log'" "q2 = q'" "m2 = m'" using Cons.prems(3) d r by simp_all
  have one: "fifo_at st cap es q1" "replay cap ev (rb_list (ff_rb q) m) = Some (rb_list (ff_rb q1) m1)"
    "x \<notin> extent st (cap * es) \<Longrightarrow> x \<notin> call_writes es c \<Longrightarrow> m1 x = m x" for x
    using fifo_do_replays [OF Cons.prems(1) _ d] Cons.prems(2) by auto
  have "\<forall>c \<in> set cs. call_ok st cap es c" using Cons.prems(2) by simp
  from Cons.IH [OF one(1) this r [unfolded e]] one(2,3) show ?case by (simp add: e replay_append)
qed simp

text \<open>
  C13. The FIFO is a bounded queue of values. Take a queue initialised with a positive capacity
  on any memory, and any sequence of its operations and of callers' writes, the callers'
  buffers being outside the storage. The log of all answers and copied elements is exactly what
  a list queue of that capacity produces from the pushed values: a push is accepted if and
  only if fewer than \<open>capacity\<close> elements are held, pop and peek deliver the oldest element
  whole if and only if there is one, and the counts and tests tell the truth, across any number
  of wrap-arounds. What the queue still holds at the end is that list, and no byte is changed
  outside the storage, the buffers popped or peeked into, and the callers' own writes.
\<close>

theorem fifo_trace:
  assumes "0 < cap" and "\<forall>c \<in> set calls. call_ok st cap es c"
    and "fifo_run calls (fifo_init st cap es, m) = (log, q', m')"
  shows "replay cap log [] = Some (rb_list (ff_rb q') m')
    \<and> (\<forall>x. x \<notin> extent st (cap * es) \<longrightarrow> (\<forall>c \<in> set calls. x \<notin> call_writes es c) \<longrightarrow> m' x = m x)"
proof -
  have "fifo_at st cap es (fifo_init st cap es)"
    using rb_init_ok [OF assms(1)] by (simp add: fifo_at_def fifo_init_def) (simp add: rb_init_def)
  moreover have "rb_list (ff_rb (fifo_init st cap es)) m = []" using rb_init_ok [OF assms(1)] by (simp add: fifo_init_def)
  ultimately show ?thesis using fifo_run_replays [OF _ assms(2,3)] by auto
qed

text \<open>A queue of two bytes at address 1: the third push is refused, the queue wraps around.\<close>

theorem fifo_trace_witness:
  "\<exists>log q' m'. fifo_run [Push 10, Push 11, Push 12, Peek 20, Pop 20, Push 12, Pop 21]
      (fifo_init 1 2 1, \<lambda>a. of_nat a) = (log, q', m') \<and>
    log = [Pushed [10] True, Pushed [11] True, Pushed [12] False, Peeked (Some [10]), Popped (Some [10]),
      Pushed [12] True, Popped (Some [11])] \<and>
    rb_list (ff_rb q') m' = [[12]]"
proof -
  let ?run = "fifo_run [Push 10, Push 11, Push 12, Peek 20, Pop 20, Push 12, Pop 21] (fifo_init 1 2 1, \<lambda>a. of_nat a)"
  obtain log q' m' where r: "?run = (log, q', m')" by (metis prod_cases3)
  have "fst ?run = [Pushed [10] True, Pushed [11] True, Pushed [12] False, Peeked (Some [10]), Popped (Some [10]),
      Pushed [12] True, Popped (Some [11])]" by code_simp
  then have log: "log = [Pushed [10] True, Pushed [11] True, Pushed [12] False, Peeked (Some [10]), Popped (Some [10]),
      Pushed [12] True, Popped (Some [11])]" using r by simp
  have "\<forall>c \<in> set [Push 10, Push 11, Push 12, Peek 20, Pop 20, Push 12, Pop 21]. call_ok 1 2 1 c"
    by (simp add: apart_def)
  from fifo_trace [OF _ this r] have "replay 2 log [] = Some (rb_list (ff_rb q') m')" by simp
  then have "rb_list (ff_rb q') m' = [[12]]" by (simp add: log)
  with r log show ?thesis by blast
qed

end
