(* ===== verification/Stack.thy ===== *)
theory Stack
  imports Cells
begin

text \<open>
  The bounded stack (\<open>src/containers/stack.c\<close>): fixed-size elements in caller-owned storage,
  a count of them, and its refinement of a list.
\<close>

record Stack =
  sk_storage :: hptr
  sk_capacity :: nat
  sk_esize :: nat
  sk_top :: nat

definition stack_slot_at :: "Stack \<Rightarrow> nat \<Rightarrow> hptr" where
  "stack_slot_at s slot = sk_storage s + slot * sk_esize s"

definition stack_init :: "hptr \<Rightarrow> nat \<Rightarrow> nat \<Rightarrow> Stack" where
  "stack_init storage capacity element_size =
     \<lparr>sk_storage = storage, sk_capacity = capacity, sk_esize = element_size, sk_top = 0\<rparr>"

definition stack_reset :: "Stack \<Rightarrow> Stack" where
  "stack_reset s = s\<lparr>sk_top := 0\<rparr>"

definition stack_push :: "Stack \<Rightarrow> hmem \<Rightarrow> hptr \<Rightarrow> bool \<times> Stack \<times> hmem" where
  "stack_push s m element =
     (if sk_top s = sk_capacity s then (False, s, m)
      else
        let m = memcpy m (stack_slot_at s (sk_top s)) element (sk_esize s)
        in (True, s\<lparr>sk_top := sk_top s + 1\<rparr>, m))"

definition stack_pop :: "Stack \<Rightarrow> hmem \<Rightarrow> hptr \<Rightarrow> bool \<times> Stack \<times> hmem" where
  "stack_pop s m out =
     (if sk_top s = 0 then (False, s, m)
      else
        let s = s\<lparr>sk_top := sk_top s - 1\<rparr>
        in (True, s, memcpy m out (stack_slot_at s (sk_top s)) (sk_esize s)))"

definition stack_peek :: "Stack \<Rightarrow> hmem \<Rightarrow> hptr \<Rightarrow> bool \<times> hmem" where
  "stack_peek s m out =
     (if sk_top s = 0 then (False, m)
      else (True, memcpy m out (stack_slot_at s (sk_top s - 1)) (sk_esize s)))"

definition stack_count :: "Stack \<Rightarrow> nat" where "stack_count s = sk_top s"
definition stack_empty :: "Stack \<Rightarrow> bool" where "stack_empty s \<longleftrightarrow> sk_top s = 0"
definition stack_full :: "Stack \<Rightarrow> bool" where "stack_full s \<longleftrightarrow> sk_top s = sk_capacity s"

section \<open>Contents, most recent first\<close>

definition stack_ok :: "Stack \<Rightarrow> bool" where
  "stack_ok s \<longleftrightarrow> sk_top s \<le> sk_capacity s"

definition stack_list :: "Stack \<Rightarrow> hmem \<Rightarrow> u8 list list" where
  "stack_list s m = rev (map (cell_val m (sk_storage s) (sk_esize s)) [0..<sk_top s])"

definition stack_client :: "Stack \<Rightarrow> hptr \<Rightarrow> bool" where
  "stack_client s p \<longleftrightarrow> apart (sk_storage s) (sk_capacity s * sk_esize s) p (sk_esize s)"

lemma stack_slot_cell: "stack_slot_at s i = cell (sk_storage s) (sk_esize s) i"
  by (simp add: stack_slot_at_def cell_def)

lemma stack_list_Suc:
  "sk_top s = Suc n \<Longrightarrow>
   stack_list s m = cell_val m (sk_storage s) (sk_esize s) n # stack_list (s\<lparr>sk_top := n\<rparr>) m"
  by (simp add: stack_list_def)

lemma stack_list_client_store:
  "stack_ok s \<Longrightarrow> stack_client s p \<Longrightarrow> length bs = sk_esize s \<Longrightarrow>
   stack_list s (store_bytes m p bs) = stack_list s m"
  by (simp add: stack_list_def stack_ok_def stack_client_def cell_val_client_store [of _ "sk_capacity s"])

lemma stack_push_list:
  assumes "stack_ok s" "stack_push s m p = (True, s', m')"
  shows "stack_ok s' \<and> stack_list s' m' = load_bytes m p (sk_esize s) # stack_list s m"
proof -
  let ?bs = "load_bytes m p (sk_esize s)"
  have s': "s' = s\<lparr>sk_top := Suc (sk_top s)\<rparr>" and "sk_top s < sk_capacity s"
    and m': "m' = store_bytes m (cell (sk_storage s) (sk_esize s) (sk_top s)) ?bs"
    using assms by (auto simp: stack_push_def stack_ok_def memcpy_def stack_slot_cell Let_def split: if_splits)
  then show ?thesis
    by (simp add: stack_list_def stack_ok_def cell_val_store)
qed

lemma stack_pop_list:
  assumes "stack_ok s" "stack_client s p" "stack_pop s m p = (True, s', m')"
  shows "stack_ok s' \<and> stack_list s m = load_bytes m' p (sk_esize s) # stack_list s' m'"
proof -
  obtain n where n: "sk_top s = Suc n" using assms(3) by (cases "sk_top s") (auto simp: stack_pop_def)
  then have s': "s' = s\<lparr>sk_top := n\<rparr>" and m': "m' = store_bytes m p (cell_val m (sk_storage s) (sk_esize s) n)"
    using assms by (auto simp: stack_pop_def memcpy_def stack_slot_cell Let_def cell_val_def)
  have "stack_ok s'" "stack_client s' p" using assms n by (simp_all add: stack_ok_def stack_client_def s')
  then show ?thesis using n stack_list_client_store [of s' p _ m]
    by (simp add: stack_list_Suc m' s')
qed

text \<open>
  The stack refines a list: push accepts exactly when there is room and puts the caller's
  element in front; pop delivers exactly when there is one, takes the front element off and
  copies it out; peek copies the same element and takes nothing off; a refused call changes
  neither the stack nor memory; count is the length.
\<close>

theorem stack_refines:
  assumes "stack_ok s" and "stack_client s p"
  shows "(case stack_push s m p of (r, s', m') \<Rightarrow>
        stack_ok s' \<and> (r \<longleftrightarrow> length (stack_list s m) < sk_capacity s) \<and>
        (if r then stack_list s' m' = load_bytes m p (sk_esize s) # stack_list s m else s' = s \<and> m' = m)) \<and>
     (case stack_pop s m p of (r, s', m') \<Rightarrow>
        stack_ok s' \<and> (r \<longleftrightarrow> stack_list s m \<noteq> []) \<and>
        (if r then stack_list s m = load_bytes m' p (sk_esize s) # stack_list s' m' else s' = s \<and> m' = m)) \<and>
     (case stack_peek s m p of (r, m') \<Rightarrow>
        (r \<longleftrightarrow> stack_list s m \<noteq> []) \<and> stack_list s m' = stack_list s m \<and>
        (if r then load_bytes m' p (sk_esize s) = hd (stack_list s m) else m' = m)) \<and>
     stack_count s = length (stack_list s m)" (is "?push \<and> ?pop \<and> ?peek \<and> ?count")
proof (intro conjI)
  have len: "length (stack_list s m) = sk_top s" by (simp add: stack_list_def)
  then have ne: "stack_list s m \<noteq> [] \<longleftrightarrow> sk_top s \<noteq> 0" by (metis length_0_conv)
  show ?count by (simp add: stack_count_def len)
  obtain r s' m' where p: "stack_push s m p = (r, s', m')" by (cases "stack_push s m p")
  then show ?push using assms(1) len stack_push_list [of s m p s' m']
    by (cases r) (auto simp: stack_push_def stack_ok_def Let_def split: if_splits)
  obtain r s' m' where p: "stack_pop s m p = (r, s', m')" by (cases "stack_pop s m p")
  then show ?pop using assms ne stack_pop_list [of s p m s' m']
    by (cases r) (auto simp: stack_pop_def Let_def split: if_splits)
  show ?peek
  proof (cases "sk_top s")
    case 0
    then show ?thesis using ne by (auto simp: stack_peek_def)
  next
    case (Suc n)
    then have "stack_peek s m p = (True, store_bytes m p (cell_val m (sk_storage s) (sk_esize s) n))"
      by (auto simp: stack_peek_def memcpy_def stack_slot_cell cell_val_def)
    then show ?thesis using Suc assms ne by (simp add: stack_list_client_store) (simp add: stack_list_Suc)
  qed
qed

theorem stack_refines_witness:
  "case stack_pop (stack_init 1 2 1\<lparr>sk_top := 2\<rparr>) (\<lambda>a. of_nat a) 10 of (r, s', m') \<Rightarrow>
     r \<and> m' 10 = 2 \<and> stack_list s' m' = [[1]]"
proof -
  let ?s = "stack_init 1 2 1\<lparr>sk_top := 2\<rparr>" and ?m = "(\<lambda>a. of_nat a) :: hmem"
  have "stack_ok ?s" "stack_client ?s 10"
    by (simp_all add: stack_ok_def stack_client_def stack_init_def apart_def)
  note t = stack_refines [OF this, where m = ?m, THEN conjunct2, THEN conjunct1]
  have "stack_list ?s ?m = [[2], [1]]"
    by (simp add: stack_list_def stack_init_def cell_val_def cell_def load_bytes_def numeral_2_eq_2)
  then show ?thesis using t by (auto simp: stack_init_def load_bytes_def split: prod.splits if_splits)
qed

end
