(* ===== verification/Spsc.thy ===== *)
theory Spsc
  imports Cells Queue_Interface
begin

text \<open>
  The lock-free single-producer single-consumer ring (\<open>src/containers/spsc_ring.c\<close>). The
  first part is each operation as one function. The second part cuts push and pop at their
  atomic accesses, and the copy at every byte, and lets a producer, a consumer and the code
  around them interleave in every order; every value the ring ever hands out is then shown to
  be an element that was accepted, whole and in order. The steps are sequentially consistent:
  the acquire/release pairs the code uses are what makes the payload bytes follow the index
  that publishes them, which is the order the steps have here. Indices are natural numbers below
  the capacity; only the observer \<open>count\<close> subtracts, so only it is computed on \<open>u64\<close>.
\<close>

record SpscRing =
  sp_storage :: hptr
  sp_capacity :: nat
  sp_mask :: nat
  sp_esize :: nat
  sp_head :: nat
  sp_tail :: nat

definition is_pow2 :: "nat \<Rightarrow> bool" where
  "is_pow2 x \<longleftrightarrow> x \<ge> 2 \<and> x AND (x - 1) = 0"

definition spsc_ring_init :: "SpscRing \<Rightarrow> hptr \<Rightarrow> nat \<Rightarrow> nat \<Rightarrow> bool \<times> SpscRing" where
  "spsc_ring_init r storage capacity element_size =
     (if storage = 0 \<or> element_size = 0 then (False, r)
      else if \<not> is_pow2 capacity then (False, r)
      else (True, \<lparr>sp_storage = storage, sp_capacity = capacity, sp_mask = capacity - 1,
                   sp_esize = element_size, sp_head = 0, sp_tail = 0\<rparr>))"

definition spsc_ring_reset :: "SpscRing \<Rightarrow> SpscRing" where
  "spsc_ring_reset r = r\<lparr>sp_head := 0, sp_tail := 0\<rparr>"

definition spsc_ring_push :: "SpscRing \<Rightarrow> hmem \<Rightarrow> hptr \<Rightarrow> bool \<times> SpscRing \<times> hmem" where
  "spsc_ring_push r m element =
     (if element = 0 then (False, r, m)
      else
        let head = sp_head r;
            nxt = (head + 1) AND sp_mask r;
            tail = sp_tail r in
        if nxt = tail then (False, r, m)
        else
          let slot = sp_storage r + head * sp_esize r;
              m = memcpy m slot element (sp_esize r)
          in (True, r\<lparr>sp_head := nxt\<rparr>, m))"

definition spsc_ring_pop :: "SpscRing \<Rightarrow> hmem \<Rightarrow> hptr \<Rightarrow> bool \<times> SpscRing \<times> hmem" where
  "spsc_ring_pop r m out =
     (if out = 0 then (False, r, m)
      else
        let tail = sp_tail r;
            head = sp_head r in
        if tail = head then (False, r, m)
        else
          let slot = sp_storage r + tail * sp_esize r;
              m = memcpy m out slot (sp_esize r)
          in (True, r\<lparr>sp_tail := (tail + 1) AND sp_mask r\<rparr>, m))"

definition spsc_ring_count :: "SpscRing \<Rightarrow> nat" where
  "spsc_ring_count r = unat ((of_nat (sp_head r) - of_nat (sp_tail r) :: u64) AND of_nat (sp_mask r))"

definition spsc_ring_empty :: "SpscRing \<Rightarrow> bool" where
  "spsc_ring_empty r \<longleftrightarrow> sp_head r = sp_tail r"

definition spsc_ring_full :: "SpscRing \<Rightarrow> bool" where
  "spsc_ring_full r \<longleftrightarrow> (sp_head r + 1) AND sp_mask r = sp_tail r"

definition spsc_ring_capacity :: "SpscRing \<Rightarrow> nat" where
  "spsc_ring_capacity r = sp_capacity r - 1"

section \<open>The two sides, one access at a time\<close>

text \<open>
  Where the producer stands in its call: outside; after the load of \<open>head\<close> (with the element,
  the head and the next index); copying, with the bytes done so far. The consumer likewise.
\<close>

datatype producer = PIdle | PEntered hptr nat nat | PCopy hptr nat nat nat
datatype consumer = CIdle | CEntered hptr nat | CCopy hptr nat nat

text \<open>\<open>sc_in\<close> and \<open>sc_out\<close> are histories: what the producer published and the consumer took.\<close>

record spsc =
  sc_ring :: SpscRing
  sc_mem :: hmem
  sc_prod :: producer
  sc_cons :: consumer
  sc_in :: "u8 list list"
  sc_out :: "u8 list list"

fun producer_step :: "hptr \<Rightarrow> spsc \<Rightarrow> spsc" where
  "producer_step element c =
     (let r = sc_ring c; m = sc_mem c in
      case sc_prod c of
        PIdle \<Rightarrow> if element = 0 then c
          else c\<lparr>sc_prod := PEntered element (sp_head r) ((sp_head r + 1) AND sp_mask r)\<rparr>
      | PEntered e head nxt \<Rightarrow>
          if nxt = sp_tail r then c\<lparr>sc_prod := PIdle\<rparr> else c\<lparr>sc_prod := PCopy e head nxt 0\<rparr>
      | PCopy e head nxt k \<Rightarrow>
          if k < sp_esize r
          then c\<lparr>sc_mem := m(sp_storage r + head * sp_esize r + k := m (e + k)),
                 sc_prod := PCopy e head nxt (k + 1)\<rparr>
          else c\<lparr>sc_ring := r\<lparr>sp_head := nxt\<rparr>, sc_prod := PIdle,
                 sc_in := sc_in c @ [load_bytes m e (sp_esize r)]\<rparr>)"

fun consumer_step :: "hptr \<Rightarrow> spsc \<Rightarrow> spsc" where
  "consumer_step out c =
     (let r = sc_ring c; m = sc_mem c in
      case sc_cons c of
        CIdle \<Rightarrow> if out = 0 then c else c\<lparr>sc_cons := CEntered out (sp_tail r)\<rparr>
      | CEntered p tail \<Rightarrow>
          if tail = sp_head r then c\<lparr>sc_cons := CIdle\<rparr> else c\<lparr>sc_cons := CCopy p tail 0\<rparr>
      | CCopy p tail k \<Rightarrow>
          if k < sp_esize r
          then c\<lparr>sc_mem := m(p + k := m (sp_storage r + tail * sp_esize r + k)),
                 sc_cons := CCopy p tail (k + 1)\<rparr>
          else c\<lparr>sc_ring := r\<lparr>sp_tail := (tail + 1) AND sp_mask r\<rparr>, sc_cons := CIdle,
                 sc_out := sc_out c @ [load_bytes m p (sp_esize r)]\<rparr>)"

declare producer_step.simps [simp del] consumer_step.simps [simp del]

text \<open>The buffer each side's call in progress works on.\<close>

definition busy_in :: "spsc \<Rightarrow> hptr set" where
  "busy_in c = (case sc_prod c of PIdle \<Rightarrow> {} | PEntered e h n \<Rightarrow> extent e (sp_esize (sc_ring c))
     | PCopy e h n k \<Rightarrow> extent e (sp_esize (sc_ring c)))"

definition busy_out :: "spsc \<Rightarrow> hptr set" where
  "busy_out c = (case sc_cons c of CIdle \<Rightarrow> {} | CEntered p t \<Rightarrow> extent p (sp_esize (sc_ring c))
     | CCopy p t k \<Rightarrow> extent p (sp_esize (sc_ring c)))"

definition spsc_extent :: "SpscRing \<Rightarrow> hptr set" where
  "spsc_extent r = extent (sp_storage r) (sp_capacity r * sp_esize r)"

inductive spsc_step :: "spsc \<Rightarrow> spsc \<Rightarrow> bool" where
  produce: "extent e (sp_esize (sc_ring c)) \<inter> (spsc_extent (sc_ring c) \<union> busy_out c) = {} \<Longrightarrow>
    spsc_step c (producer_step e c)"
| consume: "extent p (sp_esize (sc_ring c)) \<inter> (spsc_extent (sc_ring c) \<union> busy_in c) = {} \<Longrightarrow>
    spsc_step c (consumer_step p c)"
| environment: "(\<And>x. x \<in> spsc_extent (sc_ring c) \<union> busy_in c \<union> busy_out c \<Longrightarrow> m x = sc_mem c x) \<Longrightarrow>
    spsc_step c (c\<lparr>sc_mem := m\<rparr>)"

inductive_cases spsc_stepE: "spsc_step c c'"

definition spsc_start :: "SpscRing \<Rightarrow> hmem \<Rightarrow> spsc" where
  "spsc_start r m = \<lparr>sc_ring = r, sc_mem = m, sc_prod = PIdle, sc_cons = CIdle, sc_in = [], sc_out = []\<rparr>"

section \<open>Contents and invariant\<close>

definition spsc_ok :: "SpscRing \<Rightarrow> bool" where
  "spsc_ok r \<longleftrightarrow> (\<exists>k. 0 < k \<and> k < 64 \<and> sp_capacity r = 2 ^ k) \<and> sp_mask r = sp_capacity r - 1 \<and>
     0 < sp_esize r \<and> sp_head r < sp_capacity r \<and> sp_tail r < sp_capacity r"

definition spsc_used :: "SpscRing \<Rightarrow> nat" where
  "spsc_used r = (sp_head r + sp_capacity r - sp_tail r) mod sp_capacity r"

definition spsc_list :: "SpscRing \<Rightarrow> hmem \<Rightarrow> u8 list list" where
  "spsc_list r m = map (\<lambda>k. cell_val m (sp_storage r) (sp_esize r) ((sp_tail r + k) mod sp_capacity r))
     [0..<spsc_used r]"

text \<open>What holds between any two steps, whoever made them.\<close>

definition producer_inv :: "spsc \<Rightarrow> bool" where
  "producer_inv c \<longleftrightarrow> (let r = sc_ring c; m = sc_mem c in
     case sc_prod c of PIdle \<Rightarrow> True
     | PEntered e h n \<Rightarrow> h = sp_head r \<and> n = (h + 1) mod sp_capacity r
     | PCopy e h n k \<Rightarrow> h = sp_head r \<and> n = (h + 1) mod sp_capacity r \<and> n \<noteq> sp_tail r \<and> k \<le> sp_esize r \<and>
         (\<forall>j < k. m (cell (sp_storage r) (sp_esize r) h + j) = m (e + j)))"

definition consumer_inv :: "spsc \<Rightarrow> bool" where
  "consumer_inv c \<longleftrightarrow> (let r = sc_ring c; m = sc_mem c in
     case sc_cons c of CIdle \<Rightarrow> True
     | CEntered p t \<Rightarrow> t = sp_tail r
     | CCopy p t k \<Rightarrow> t = sp_tail r \<and> t \<noteq> sp_head r \<and> k \<le> sp_esize r \<and>
         (\<forall>j < k. m (p + j) = m (cell (sp_storage r) (sp_esize r) t + j)))"

definition spsc_inv :: "spsc \<Rightarrow> bool" where
  "spsc_inv c \<longleftrightarrow> spsc_ok (sc_ring c) \<and> producer_inv c \<and> consumer_inv c \<and>
     busy_in c \<inter> spsc_extent (sc_ring c) = {} \<and> busy_out c \<inter> spsc_extent (sc_ring c) = {} \<and>
     busy_in c \<inter> busy_out c = {} \<and>
     sc_in c = sc_out c @ spsc_list (sc_ring c) (sc_mem c)"

lemma is_pow2_shape:
  assumes "is_pow2 x" shows "\<exists>k > 0. x = 2 ^ k"
proof -
  obtain k where k: "x = 2 ^ k" using assms nat_power_of_two [of x] by (auto simp: is_pow2_def)
  moreover have "k \<noteq> 0" using assms k by (intro notI) (simp add: is_pow2_def)
  ultimately show ?thesis by auto
qed

lemma mask_index:
  assumes "spsc_ok r" shows "x AND sp_mask r = x mod sp_capacity r"
proof -
  obtain k where "sp_capacity r = 2 ^ k" "sp_mask r = mask k"
    using assms by (auto simp: spsc_ok_def mask_eq_exp_minus_1)
  then show ?thesis by (metis take_bit_eq_mask take_bit_eq_mod)
qed

lemma spsc_window:
  assumes "spsc_ok r"
  shows "spsc_used r < sp_capacity r" "(sp_tail r + spsc_used r) mod sp_capacity r = sp_head r"
proof -
  have b: "sp_head r < sp_capacity r" "sp_tail r < sp_capacity r" using assms by (simp_all add: spsc_ok_def)
  then show "spsc_used r < sp_capacity r" by (simp add: spsc_used_def)
  have "(sp_tail r + spsc_used r) mod sp_capacity r = (sp_tail r + (sp_head r + sp_capacity r - sp_tail r)) mod sp_capacity r"
    unfolding spsc_used_def by (rule mod_add_right_eq)
  also have "sp_tail r + (sp_head r + sp_capacity r - sp_tail r) = sp_head r + sp_capacity r" using b by simp
  finally show "(sp_tail r + spsc_used r) mod sp_capacity r = sp_head r" using b by simp
qed

lemma spsc_used_unique:
  assumes "spsc_ok r" "n < sp_capacity r" "(sp_tail r + n) mod sp_capacity r = sp_head r"
  shows "spsc_used r = n"
  using cyclic_distinct [of "spsc_used r" "sp_capacity r" n "sp_tail r"] spsc_window [OF assms(1)] assms
  by (simp add: spsc_ok_def)

text \<open>Publishing an element appends it; releasing a slot drops the oldest.\<close>

lemma spsc_publish:
  assumes ok: "spsc_ok r" and room: "(sp_head r + 1) mod sp_capacity r \<noteq> sp_tail r"
  defines "r' \<equiv> r\<lparr>sp_head := (sp_head r + 1) mod sp_capacity r\<rparr>"
  shows "spsc_ok r'" "spsc_used r' = spsc_used r + 1"
    "spsc_list r' m = spsc_list r m @ [cell_val m (sp_storage r) (sp_esize r) (sp_head r)]"
proof -
  note w = spsc_window [OF ok]
  have c: "0 < sp_capacity r" "sp_tail r < sp_capacity r" using ok by (auto simp: spsc_ok_def)
  show ok': "spsc_ok r'" using ok c by (simp add: r'_def spsc_ok_def)
  have h: "(sp_tail r + (spsc_used r + 1)) mod sp_capacity r = (sp_head r + 1) mod sp_capacity r"
    using w(2) by (metis add.assoc mod_add_left_eq)
  have "spsc_used r + 1 \<noteq> sp_capacity r"
  proof
    assume "spsc_used r + 1 = sp_capacity r"
    then have "(sp_head r + 1) mod sp_capacity r = sp_tail r" using h c by simp
    then show False using room by simp
  qed
  then show used: "spsc_used r' = spsc_used r + 1"
    using spsc_used_unique [OF ok', of "spsc_used r + 1"] w(1) h by (simp add: r'_def)
  show "spsc_list r' m = spsc_list r m @ [cell_val m (sp_storage r) (sp_esize r) (sp_head r)]"
    using w(2) by (simp add: spsc_list_def used) (simp add: r'_def)
qed

lemma spsc_release:
  assumes ok: "spsc_ok r" and some: "sp_tail r \<noteq> sp_head r"
  defines "r' \<equiv> r\<lparr>sp_tail := (sp_tail r + 1) mod sp_capacity r\<rparr>"
  shows "spsc_ok r'" "spsc_used r = spsc_used r' + 1"
    "spsc_list r m = cell_val m (sp_storage r) (sp_esize r) (sp_tail r) # spsc_list r' m"
proof -
  note w = spsc_window [OF ok]
  have c: "0 < sp_capacity r" "sp_tail r < sp_capacity r" using ok by (auto simp: spsc_ok_def)
  show ok': "spsc_ok r'" using ok c by (simp add: r'_def spsc_ok_def)
  have "spsc_used r \<noteq> 0" using w(2) c some by (intro notI) simp
  then obtain n where n: "spsc_used r = Suc n" by (cases "spsc_used r") auto
  have "(sp_tail r' + n) mod sp_capacity r = sp_head r" using w(2) by (simp add: r'_def n cyclic_step)
  then have "spsc_used r' = n" using spsc_used_unique [OF ok', of n] w(1) n by (simp add: r'_def)
  with n show used: "spsc_used r = spsc_used r' + 1" by simp
  have "[0..<spsc_used r] = 0 # map Suc [0..<spsc_used r']"
    using used by (simp add: upt_conv_Cons map_Suc_upt)
  then show "spsc_list r m = cell_val m (sp_storage r) (sp_esize r) (sp_tail r) # spsc_list r' m"
    using c by (simp add: spsc_list_def) (simp add: r'_def cyclic_step)
qed

lemma spsc_list_cong:
  assumes "spsc_ok r" "\<And>k. k < spsc_used r \<Longrightarrow>
      cell_val m' (sp_storage r) (sp_esize r) ((sp_tail r + k) mod sp_capacity r) =
      cell_val m (sp_storage r) (sp_esize r) ((sp_tail r + k) mod sp_capacity r)"
  shows "spsc_list r m' = spsc_list r m"
  using assms by (simp add: spsc_list_def)

section \<open>Every step keeps the invariant\<close>

lemma cell_in_storage:
  "i < sp_capacity r \<Longrightarrow> j < sp_esize r \<Longrightarrow> cell (sp_storage r) (sp_esize r) i + j \<in> spsc_extent r"
  using cell_bounds [of i "sp_capacity r" "sp_storage r" "sp_esize r"] by (simp add: spsc_extent_def)

lemma cell_bytes_differ:
  "i \<noteq> j \<Longrightarrow> a < sz \<Longrightarrow> b < sz \<Longrightarrow> cell base sz i + a \<noteq> cell base sz j + b"
  using cells_apart [of i j base sz] by (auto simp: apart_def)

lemma window_not_head:
  assumes "spsc_ok r" "k < spsc_used r" shows "(sp_tail r + k) mod sp_capacity r \<noteq> sp_head r"
proof
  assume "(sp_tail r + k) mod sp_capacity r = sp_head r"
  from spsc_used_unique [OF assms(1) _ this] show False
    using less_trans [OF assms(2) spsc_window(1) [OF assms(1)]] assms(2) by simp
qed

lemma window_index: "spsc_ok r \<Longrightarrow> (sp_tail r + k) mod sp_capacity r < sp_capacity r"
  by (auto simp: spsc_ok_def)

lemma spsc_list_frame:
  assumes "spsc_ok r" and "\<And>x. x \<in> spsc_extent r \<Longrightarrow> m' x = m x"
  shows "spsc_list r m' = spsc_list r m"
  by (rule spsc_list_cong [OF assms(1)], rule cell_val_cong [OF _ window_index [OF assms(1)]])
    (use assms(2) in \<open>simp add: spsc_extent_def extent_def\<close>)

lemma spsc_list_free_slot:
  assumes "spsc_ok r" and "k < sp_esize r"
  shows "spsc_list r (m(cell (sp_storage r) (sp_esize r) (sp_head r) + k := v)) = spsc_list r m"
proof (rule spsc_list_cong [OF assms(1)])
  fix n assume "n < spsc_used r"
  from cell_bytes_differ [OF window_not_head [OF assms(1) this] _ assms(2)]
  show "cell_val (m(cell (sp_storage r) (sp_esize r) (sp_head r) + k := v)) (sp_storage r) (sp_esize r)
      ((sp_tail r + n) mod sp_capacity r) =
    cell_val m (sp_storage r) (sp_esize r) ((sp_tail r + n) mod sp_capacity r)"
    unfolding cell_val_def load_bytes_def by (intro map_cong) auto
qed

lemmas spsc_views = producer_inv_def consumer_inv_def busy_in_def busy_out_def Let_def

lemma spsc_inv_dest:
  assumes "spsc_inv c"
  shows "spsc_ok (sc_ring c)" "producer_inv c" "consumer_inv c"
    "busy_in c \<inter> spsc_extent (sc_ring c) = {}" "busy_out c \<inter> spsc_extent (sc_ring c) = {}"
    "busy_in c \<inter> busy_out c = {}" "sc_in c = sc_out c @ spsc_list (sc_ring c) (sc_mem c)"
  using assms by (simp_all add: spsc_inv_def)

lemma inv_environment:
  assumes inv: "spsc_inv c"
    and m: "\<And>x. x \<in> spsc_extent (sc_ring c) \<union> busy_in c \<union> busy_out c \<Longrightarrow> m x = sc_mem c x"
  shows "spsc_inv (c\<lparr>sc_mem := m\<rparr>)"
proof -
  note d = spsc_inv_dest [OF inv]
  let ?r = "sc_ring c"
  have st: "m (cell (sp_storage ?r) (sp_esize ?r) i + j) = sc_mem c (cell (sp_storage ?r) (sp_esize ?r) i + j)"
    if "i < sp_capacity ?r" "j < sp_esize ?r" for i j
    using m cell_in_storage [OF that] by simp
  have hd: "sp_head ?r < sp_capacity ?r" "sp_tail ?r < sp_capacity ?r" using d(1) by (simp_all add: spsc_ok_def)
  have "producer_inv (c\<lparr>sc_mem := m\<rparr>)"
    using d(2) m st [OF hd(1)] by (auto simp: spsc_views split: producer.splits)
  moreover have "consumer_inv (c\<lparr>sc_mem := m\<rparr>)"
    using d(3) m st [OF hd(2)] by (auto simp: spsc_views split: consumer.splits)
  moreover have "spsc_list ?r m = spsc_list ?r (sc_mem c)" by (rule spsc_list_frame [OF d(1)]) (use m in simp)
  moreover have "busy_in (c\<lparr>sc_mem := m\<rparr>) = busy_in c" "busy_out (c\<lparr>sc_mem := m\<rparr>) = busy_out c"
    by (simp_all add: busy_in_def busy_out_def split: producer.split consumer.split)
  ultimately show ?thesis using d by (simp add: spsc_inv_def)
qed

lemma inv_produce_byte:
  assumes inv: "spsc_inv c" and pc: "sc_prod c = PCopy e h n k" and k: "k < sp_esize (sc_ring c)"
  shows "spsc_inv (producer_step e0 c)"
proof -
  note d = spsc_inv_dest [OF inv]
  let ?r = "sc_ring c" and ?m = "sc_mem c"
  let ?x = "cell (sp_storage ?r) (sp_esize ?r) h + k"
  let ?c = "c\<lparr>sc_mem := ?m(?x := ?m (e + k)), sc_prod := PCopy e h n (k + 1)\<rparr>"
  have step: "producer_step e0 c = ?c" using pc k by (simp add: producer_step.simps cell_def Let_def)
  have h: "h = sp_head ?r" "h < sp_capacity ?r" using d(1,2) pc by (simp_all add: spsc_views spsc_ok_def)
  have x: "?x \<in> spsc_extent ?r" by (rule cell_in_storage [OF h(2) k])
  have e: "e + j \<noteq> ?x" if "j < sp_esize ?r" for j
  proof -
    have "e + j \<in> busy_in c" using that pc by (simp add: busy_in_def)
    then show ?thesis using d(4) x by (metis disjoint_iff)
  qed
  have "producer_inv ?c"
    using d(2) pc k e by (auto simp: spsc_views less_Suc_eq)
  moreover have "consumer_inv ?c"
  proof (cases "sc_cons c")
    case (CCopy p t k2)
    then have t: "t \<noteq> h" "k2 \<le> sp_esize ?r" using d(3) h(1) by (simp_all add: spsc_views)
    have "p + j \<noteq> ?x" if "j < sp_esize ?r" for j
    proof -
      have "p + j \<in> busy_out c" using that CCopy by (simp add: busy_out_def)
      then show ?thesis using d(5) x by (metis disjoint_iff)
    qed
    moreover have "cell (sp_storage ?r) (sp_esize ?r) t + j \<noteq> ?x" if "j < sp_esize ?r" for j
      by (rule cell_bytes_differ [OF t(1) that k])
    ultimately show ?thesis using d(3) CCopy t(2) by (auto simp: spsc_views)
  qed (use d(3) in \<open>simp_all add: spsc_views\<close>)
  moreover have "busy_in ?c = busy_in c" "busy_out ?c = busy_out c" using pc
    by (simp_all add: busy_in_def busy_out_def split: consumer.split)
  moreover have "spsc_list ?r (?m(?x := ?m (e + k))) = spsc_list ?r ?m"
    unfolding h(1) by (rule spsc_list_free_slot [OF d(1) k])
  ultimately show ?thesis using d step by (simp add: spsc_inv_def)
qed

lemma inv_publish:
  assumes inv: "spsc_inv c" and pc: "sc_prod c = PCopy e h n k" and k: "\<not> k < sp_esize (sc_ring c)"
  shows "spsc_inv (producer_step e0 c)"
proof -
  note d = spsc_inv_dest [OF inv]
  let ?r = "sc_ring c" and ?m = "sc_mem c"
  have p: "h = sp_head ?r" "n = (sp_head ?r + 1) mod sp_capacity ?r" "n \<noteq> sp_tail ?r" "k = sp_esize ?r"
    and bytes: "\<forall>j < k. ?m (cell (sp_storage ?r) (sp_esize ?r) h + j) = ?m (e + j)"
    using d(2) pc k by (auto simp: spsc_views)
  let ?c = "c\<lparr>sc_ring := ?r\<lparr>sp_head := n\<rparr>, sc_prod := PIdle, sc_in := sc_in c @ [load_bytes ?m e (sp_esize ?r)]\<rparr>"
  have step: "producer_step e0 c = ?c" using pc k by (simp add: producer_step.simps Let_def)
  have "cell_val ?m (sp_storage ?r) (sp_esize ?r) h = load_bytes ?m e (sp_esize ?r)"
    using bytes p(4) by (simp add: cell_val_def load_bytes_def)
  moreover note pub = spsc_publish [OF d(1), folded p(2), OF p(3)]
  ultimately have "spsc_list (?r\<lparr>sp_head := n\<rparr>) ?m = spsc_list ?r ?m @ [load_bytes ?m e (sp_esize ?r)]"
    using pub(3) [of ?m] p(1) by simp
  moreover have "consumer_inv ?c"
  proof (cases "sc_cons c")
    case (CCopy q t k2)
    then show ?thesis using d(3) p(3) by (simp add: spsc_views)
  qed (use d(3) in \<open>simp_all add: spsc_views\<close>)
  moreover have "producer_inv ?c" "busy_in ?c = {}" "busy_out ?c = busy_out c"
    by (simp_all add: spsc_views split: consumer.split)
  moreover have "spsc_extent (?r\<lparr>sp_head := n\<rparr>) = spsc_extent ?r" by (simp add: spsc_extent_def)
  ultimately show ?thesis using d pub(1) step by (simp add: spsc_inv_def)
qed

lemma inv_produce:
  assumes inv: "spsc_inv c"
    and e: "extent e (sp_esize (sc_ring c)) \<inter> (spsc_extent (sc_ring c) \<union> busy_out c) = {}"
  shows "spsc_inv (producer_step e c)"
proof (cases "sc_prod c")
  case PIdle
  then show ?thesis using inv e mask_index [of "sc_ring c"]
    by (auto simp: spsc_inv_def producer_step.simps spsc_views split: consumer.splits)
next
  case (PEntered e' h n)
  then show ?thesis using inv
    by (auto simp: spsc_inv_def producer_step.simps spsc_views split: consumer.splits)
next
  case (PCopy e' h n k)
  then show ?thesis using inv_produce_byte [OF inv] inv_publish [OF inv] by blast
qed

lemma inv_consume_byte:
  assumes inv: "spsc_inv c" and pc: "sc_cons c = CCopy p t k" and k: "k < sp_esize (sc_ring c)"
  shows "spsc_inv (consumer_step p0 c)"
proof -
  note d = spsc_inv_dest [OF inv]
  let ?r = "sc_ring c" and ?m = "sc_mem c"
  let ?v = "?m (cell (sp_storage ?r) (sp_esize ?r) t + k)"
  let ?c = "c\<lparr>sc_mem := ?m(p + k := ?v), sc_cons := CCopy p t (k + 1)\<rparr>"
  have step: "consumer_step p0 c = ?c" using pc k by (simp add: consumer_step.simps cell_def Let_def)
  have t: "t < sp_capacity ?r" "sp_head ?r < sp_capacity ?r" using d(1,3) pc by (simp_all add: spsc_views spsc_ok_def)
  have x: "p + k \<in> busy_out c" using pc k by (simp add: busy_out_def)
  have st: "x \<noteq> p + k" if "x \<in> spsc_extent ?r \<union> busy_in c" for x using x d(5,6) that by blast
  have cl: "cell (sp_storage ?r) (sp_esize ?r) i + j \<noteq> p + k" if "i < sp_capacity ?r" "j < sp_esize ?r" for i j
    using st cell_in_storage [OF that] by simp
  have "consumer_inv ?c"
    using d(3) pc k cl [OF t(1)] by (auto simp: spsc_views less_Suc_eq)
  moreover have "producer_inv ?c"
  proof (cases "sc_prod c")
    case (PCopy e h n k2)
    have "e + j \<noteq> p + k" if "j < sp_esize ?r" for j
      using st [of "e + j"] PCopy that by (simp add: busy_in_def)
    then show ?thesis using d(2) PCopy cl [OF t(2)] by (auto simp: spsc_views)
  qed (use d(2) in \<open>simp_all add: spsc_views\<close>)
  moreover have "busy_in ?c = busy_in c" "busy_out ?c = busy_out c"
    using pc by (simp_all add: busy_in_def busy_out_def split: producer.split)
  moreover have "spsc_list ?r (?m(p + k := ?v)) = spsc_list ?r ?m"
    by (rule spsc_list_frame [OF d(1)]) (use st in auto)
  ultimately show ?thesis using d step by (simp add: spsc_inv_def)
qed

lemma inv_release:
  assumes inv: "spsc_inv c" and pc: "sc_cons c = CCopy p t k" and k: "\<not> k < sp_esize (sc_ring c)"
  shows "spsc_inv (consumer_step p0 c)"
proof -
  note d = spsc_inv_dest [OF inv]
  let ?r = "sc_ring c" and ?m = "sc_mem c"
  have p: "t = sp_tail ?r" "t \<noteq> sp_head ?r" "k = sp_esize ?r"
    and bytes: "\<forall>j < k. ?m (p + j) = ?m (cell (sp_storage ?r) (sp_esize ?r) t + j)"
    using d(3) pc k by (auto simp: spsc_views)
  let ?r' = "?r\<lparr>sp_tail := (sp_tail ?r + 1) mod sp_capacity ?r\<rparr>"
  let ?c = "c\<lparr>sc_ring := ?r', sc_cons := CIdle, sc_out := sc_out c @ [load_bytes ?m p (sp_esize ?r)]\<rparr>"
  have step: "consumer_step p0 c = ?c"
    using pc k p(1) mask_index [OF d(1)] by (simp add: consumer_step.simps Let_def)
  have "cell_val ?m (sp_storage ?r) (sp_esize ?r) t = load_bytes ?m p (sp_esize ?r)"
    using bytes p(3) by (simp add: cell_val_def load_bytes_def)
  moreover note rel = spsc_release [OF d(1) p(2) [unfolded p(1)]]
  ultimately have "spsc_list ?r ?m = load_bytes ?m p (sp_esize ?r) # spsc_list ?r' ?m"
    using rel(3) [of ?m] p(1) by simp
  moreover have "producer_inv ?c"
  proof (cases "sc_prod c")
    case (PCopy e h n k2)
    have "(sp_head ?r + 1) mod sp_capacity ?r \<noteq> (sp_tail ?r + 1) mod sp_capacity ?r"
      using cyclic_distinct [of "sp_head ?r" "sp_capacity ?r" "sp_tail ?r" 1] p d(1)
      by (cases "sp_capacity ?r = 1") (auto simp: spsc_ok_def add.commute)
    then show ?thesis using d(2) PCopy by (auto simp: spsc_views)
  qed (use d(2) in \<open>simp_all add: spsc_views\<close>)
  moreover have "consumer_inv ?c" "busy_out ?c = {}" "busy_in ?c = busy_in c"
    by (simp_all add: spsc_views split: producer.split)
  moreover have "spsc_extent ?r' = spsc_extent ?r" by (simp add: spsc_extent_def)
  ultimately show ?thesis using d rel(1) step by (simp add: spsc_inv_def)
qed

lemma inv_consume:
  assumes inv: "spsc_inv c"
    and p: "extent p (sp_esize (sc_ring c)) \<inter> (spsc_extent (sc_ring c) \<union> busy_in c) = {}"
  shows "spsc_inv (consumer_step p c)"
proof (cases "sc_cons c")
  case CIdle
  then show ?thesis using inv p
    by (auto simp: spsc_inv_def consumer_step.simps spsc_views split: producer.splits)
next
  case (CEntered p' t)
  then show ?thesis using inv
    by (auto simp: spsc_inv_def consumer_step.simps spsc_views split: producer.splits)
next
  case (CCopy p' t k)
  then show ?thesis using inv_consume_byte [OF inv] inv_release [OF inv] by blast
qed

lemma inv_step: "spsc_step c c' \<Longrightarrow> spsc_inv c \<Longrightarrow> spsc_inv c'"
  by (elim spsc_stepE) (auto intro: inv_produce inv_consume inv_environment)

lemma inv_start: "spsc_ring_init r0 s cap es = (True, r) \<Longrightarrow> cap < 2 ^ 64 \<Longrightarrow> spsc_inv (spsc_start r m)"
proof -
  assume i: "spsc_ring_init r0 s cap es = (True, r)" and lt: "cap < 2 ^ 64"
  then have p: "is_pow2 cap" "0 < es" "r = \<lparr>sp_storage = s, sp_capacity = cap, sp_mask = cap - 1,
      sp_esize = es, sp_head = 0, sp_tail = 0\<rparr>" by (auto simp: spsc_ring_init_def split: if_splits)
  then obtain k where k: "0 < k" "cap = 2 ^ k" using is_pow2_shape by blast
  have "k < 64" using lt k(2) power_less_imp_less_exp [of "2::nat" k 64] by simp
  then have "spsc_ok r" using p k by (auto simp: spsc_ok_def)
  then show ?thesis
    using p(3) by (simp add: spsc_inv_def spsc_start_def spsc_views spsc_list_def spsc_used_def)
qed

lemma inv_reachable: "spsc_step\<^sup>*\<^sup>* c c' \<Longrightarrow> spsc_inv c \<Longrightarrow> spsc_inv c'"
  by (induction rule: rtranclp_induct) (auto intro: inv_step)

section \<open>Properties\<close>

lemma length_spsc_list [simp]: "length (spsc_list r m) = spsc_used r"
  by (simp add: spsc_list_def)

lemma take_bit_plus_exp:
  assumes "k < 64" shows "take_bit k (x + 2 ^ k) = take_bit k (x :: u64)"
proof -
  have d: "(2::nat) ^ k dvd 2 ^ 64" using assms by (intro le_imp_power_dvd) simp
  have "(2::nat) ^ k < 2 ^ 64" using assms by (intro power_strict_increasing) auto
  then have "unat (of_nat (2 ^ k) :: u64) = 2 ^ k" unfolding unat_of_nat by simp
  then have p: "unat (2 ^ k :: u64) = 2 ^ k" by simp
  have "unat (x + 2 ^ k) mod 2 ^ k = (unat x + 2 ^ k) mod 2 ^ k"
    using mod_mod_cancel [OF d, of "unat x + 2 ^ k"] by (simp add: unat_word_ariths p)
  then have "take_bit k (unat (x + 2 ^ k)) = take_bit k (unat x)" by (simp add: take_bit_eq_mod)
  then have "unat (take_bit k (x + 2 ^ k)) = unat (take_bit k x)" by (simp only: unsigned_take_bit_eq)
  then show ?thesis by (simp only: word_unat_eq_iff)
qed

lemma spsc_count_used:
  assumes "spsc_ok r" shows "spsc_ring_count r = spsc_used r"
proof -
  obtain k where k: "k < 64" "sp_capacity r = 2 ^ k" "sp_mask r = mask k"
    using assms by (auto simp: spsc_ok_def mask_eq_exp_minus_1)
  have b: "sp_tail r \<le> sp_head r + sp_capacity r" using assms by (simp add: spsc_ok_def)
  let ?d = "of_nat (sp_head r) - of_nat (sp_tail r) :: u64"
  have "(of_nat (sp_head r + sp_capacity r - sp_tail r) :: u64) = ?d + 2 ^ k"
    using b k(2) by (simp add: of_nat_diff)
  then have "take_bit k (of_nat (sp_head r + sp_capacity r - sp_tail r) :: u64) = take_bit k (?d + 2 ^ k)" by simp
  also have "\<dots> = take_bit k ?d" by (rule take_bit_plus_exp [OF k(1)])
  finally have "unat (take_bit k ?d) = take_bit k (unat (of_nat (sp_head r + sp_capacity r - sp_tail r) :: u64))"
    by (metis unsigned_take_bit_eq)
  also have "\<dots> = (sp_head r + sp_capacity r - sp_tail r) mod 2 ^ k"
    using k(1) by (simp add: unsigned_of_nat take_bit_take_bit take_bit_eq_mod [symmetric])
  finally show ?thesis
    using k by (simp add: spsc_ring_count_def spsc_used_def take_bit_eq_mask of_nat_mask_eq)
qed

lemma spsc_full_used:
  assumes ok: "spsc_ok r" shows "spsc_ring_full r \<longleftrightarrow> spsc_used r = sp_capacity r - 1"
proof -
  note w = spsc_window [OF ok]
  have c: "sp_tail r < sp_capacity r" using ok by (simp add: spsc_ok_def)
  have h: "(sp_head r + 1) mod sp_capacity r = (sp_tail r + (spsc_used r + 1)) mod sp_capacity r"
    using w(2) by (metis add.assoc mod_add_left_eq)
  have "(sp_tail r + (spsc_used r + 1)) mod sp_capacity r = sp_tail r \<longleftrightarrow> spsc_used r = sp_capacity r - 1"
  proof
    assume t: "(sp_tail r + (spsc_used r + 1)) mod sp_capacity r = sp_tail r"
    show "spsc_used r = sp_capacity r - 1"
      using cyclic_distinct [of "spsc_used r + 1" "sp_capacity r" 0 "sp_tail r"] t w(1) c by fastforce
  next
    assume "spsc_used r = sp_capacity r - 1"
    then have "sp_tail r + (spsc_used r + 1) = sp_tail r + sp_capacity r" using w(1) by simp
    then show "(sp_tail r + (spsc_used r + 1)) mod sp_capacity r = sp_tail r" using c by simp
  qed
  then show ?thesis by (simp only: spsc_ring_full_def mask_index [OF ok] h)
qed

lemma spsc_empty_used:
  assumes ok: "spsc_ok r" shows "spsc_ring_empty r \<longleftrightarrow> spsc_used r = 0"
proof
  assume "spsc_used r = 0"
  then show "spsc_ring_empty r" using spsc_window(2) [OF ok] ok by (simp add: spsc_ring_empty_def spsc_ok_def)
qed (use ok in \<open>simp add: spsc_ring_empty_def spsc_used_def\<close>)

text \<open>
  C14. Concurrent use: start a ring with \<open>spsc_ring_init\<close> and let one producer, one consumer and
  any other code interleave access by access, byte by byte, each call's buffer left alone while
  it runs. At every moment what the consumer has received, followed by what is in the ring, is
  exactly what the producer published, in order and with no torn element; at most
  \<open>capacity - 1\<close> elements wait; and the observers agree with the contents.
\<close>

theorem spsc_concurrent_order:
  assumes "spsc_ring_init r0 storage capacity element_size = (True, r)" and "capacity < 2 ^ 64"
    and "spsc_step\<^sup>*\<^sup>* (spsc_start r m) c"
  shows "sc_in c = sc_out c @ spsc_list (sc_ring c) (sc_mem c) \<and>
     length (spsc_list (sc_ring c) (sc_mem c)) \<le> spsc_ring_capacity (sc_ring c) \<and>
     spsc_ring_count (sc_ring c) = length (spsc_list (sc_ring c) (sc_mem c)) \<and>
     (spsc_ring_empty (sc_ring c) \<longleftrightarrow> spsc_list (sc_ring c) (sc_mem c) = []) \<and>
     (spsc_ring_full (sc_ring c) \<longleftrightarrow>
        length (spsc_list (sc_ring c) (sc_mem c)) = spsc_ring_capacity (sc_ring c))"
proof -
  have inv: "spsc_inv c" by (rule inv_reachable [OF assms(3) inv_start [OF assms(1,2)]])
  have ok: "spsc_ok (sc_ring c)" using inv by (simp add: spsc_inv_def)
  show ?thesis
    using inv spsc_window(1) [OF ok] spsc_count_used [OF ok] spsc_full_used [OF ok] spsc_empty_used [OF ok]
    by (auto simp: spsc_inv_def spsc_ring_capacity_def simp flip: length_0_conv)
qed

theorem spsc_concurrent_order_witness:
  "let r = snd (spsc_ring_init undefined 8 2 1); c = producer_step 100 (spsc_start r (\<lambda>a. of_nat a))
   in sc_prod c = PEntered 100 0 1 \<and> sc_in c = [] \<and> spsc_ring_count (sc_ring c) = 0"
proof -
  let ?r = "\<lparr>sp_storage = 8, sp_capacity = 2, sp_mask = 1, sp_esize = 1, sp_head = 0, sp_tail = 0\<rparr>"
  let ?s = "spsc_start ?r (\<lambda>a. of_nat a)" and ?c = "producer_step 100 (spsc_start ?r (\<lambda>a. of_nat a))"
  have init: "spsc_ring_init undefined 8 2 1 = (True, ?r)" by (simp add: spsc_ring_init_def is_pow2_def)
  have c: "?c = ?s\<lparr>sc_prod := PEntered 100 0 1\<rparr>" by (simp add: producer_step.simps spsc_start_def Let_def)
  have "spsc_step ?s ?c"
    by (rule produce) (simp add: spsc_start_def spsc_extent_def busy_out_def extent_def)
  then have "spsc_step\<^sup>*\<^sup>* ?s ?c" by (rule r_into_rtranclp)
  from spsc_concurrent_order [OF init _ this]
  have "sc_in ?c = sc_out ?c @ spsc_list (sc_ring ?c) (sc_mem ?c) \<and>
      spsc_ring_count (sc_ring ?c) = length (spsc_list (sc_ring ?c) (sc_mem ?c))" by simp
  then show ?thesis unfolding init Let_def snd_conv c by (simp add: spsc_start_def spsc_used_def)
qed

section \<open>A call alone is the whole operation\<close>

lemma fun_upd_store: "(store_bytes m p bs)(p + length bs := v) = store_bytes m p (bs @ [v])"
  by (rule ext) (auto simp: store_bytes_def nth_append)

lemma producer_copies:
  assumes "apart (sp_storage r + h * sp_esize r) (sp_esize r) e (sp_esize r)" and "k \<le> sp_esize r"
    and "sc_ring c = r" "sc_mem c = m" "sc_prod c = PCopy e h n 0"
  shows "(producer_step x ^^ k) c =
    c\<lparr>sc_mem := store_bytes m (sp_storage r + h * sp_esize r) (load_bytes m e k), sc_prod := PCopy e h n k\<rparr>"
  using assms(2)
proof (induction k)
  case 0
  then show ?case using assms by simp
next
  case (Suc k)
  have "store_bytes m (sp_storage r + h * sp_esize r) (load_bytes m e k) (e + k) = m (e + k)"
    using assms(1) Suc.prems by (auto simp: store_bytes_def apart_def)
  then show ?case
    using Suc assms fun_upd_store [of m "sp_storage r + h * sp_esize r" "load_bytes m e k" "m (e + k)"]
    by (simp add: producer_step.simps Let_def load_bytes_def)
qed

lemma consumer_copies:
  assumes "apart (sp_storage r + t * sp_esize r) (sp_esize r) p (sp_esize r)" and "k \<le> sp_esize r"
    and "sc_ring c = r" "sc_mem c = m" "sc_cons c = CCopy p t 0"
  shows "(consumer_step x ^^ k) c =
    c\<lparr>sc_mem := store_bytes m p (load_bytes m (sp_storage r + t * sp_esize r) k), sc_cons := CCopy p t k\<rparr>"
  using assms(2)
proof (induction k)
  case 0
  then show ?case using assms by simp
next
  case (Suc k)
  have "store_bytes m p (load_bytes m (sp_storage r + t * sp_esize r) k) (sp_storage r + t * sp_esize r + k) =
      m (sp_storage r + t * sp_esize r + k)"
    using assms(1) Suc.prems by (auto simp: store_bytes_def apart_def)
  then show ?case
    using Suc assms fun_upd_store [of m p "load_bytes m (sp_storage r + t * sp_esize r) k" "m (sp_storage r + t * sp_esize r + k)"]
    by (simp add: consumer_step.simps Let_def load_bytes_def)
qed

lemma producer_alone:
  assumes idle: "sc_prod c = PIdle" "e \<noteq> 0"
    and ap: "apart (sp_storage (sc_ring c) + sp_head (sc_ring c) * sp_esize (sc_ring c)) (sp_esize (sc_ring c))
      e (sp_esize (sc_ring c))"
    and push: "spsc_ring_push (sc_ring c) (sc_mem c) e = (ok, r', m')"
  shows "(producer_step e ^^ (if ok then sp_esize (sc_ring c) + 3 else 2)) c =
    c\<lparr>sc_ring := r', sc_mem := m',
      sc_in := (if ok then sc_in c @ [load_bytes (sc_mem c) e (sp_esize (sc_ring c))] else sc_in c)\<rparr>"
proof -
  let ?r = "sc_ring c" and ?m = "sc_mem c"
  let ?n = "(sp_head ?r + 1) AND sp_mask ?r" and ?es = "sp_esize ?r"
  let ?c1 = "c\<lparr>sc_prod := PEntered e (sp_head ?r) ?n\<rparr>" and ?c2 = "c\<lparr>sc_prod := PCopy e (sp_head ?r) ?n 0\<rparr>"
  have s1: "producer_step e c = ?c1" using idle by (simp add: producer_step.simps Let_def)
  show ?thesis
  proof (cases "?n = sp_tail ?r")
    case True
    then have "(ok, r', m') = (False, ?r, ?m)" using push idle by (simp add: spsc_ring_push_def Let_def)
    moreover have "producer_step e ?c1 = c" using True idle(1) by (simp add: producer_step.simps)
    ultimately show ?thesis using s1 by (simp add: numeral_2_eq_2)
  next
    case False
    let ?slot = "sp_storage ?r + sp_head ?r * ?es"
    have res: "ok" "r' = ?r\<lparr>sp_head := ?n\<rparr>" "m' = store_bytes ?m ?slot (load_bytes ?m e ?es)"
      using push idle False by (simp_all add: spsc_ring_push_def Let_def memcpy_def)
    have s2: "producer_step e ?c1 = ?c2" using False by (simp add: producer_step.simps)
    have s3: "(producer_step e ^^ ?es) ?c2 =
        ?c2\<lparr>sc_mem := m', sc_prod := PCopy e (sp_head ?r) ?n ?es\<rparr>"
      unfolding res(3) by (rule producer_copies [OF ap]) simp_all
    have "load_bytes m' e ?es = load_bytes ?m e ?es" unfolding res(3) using ap by simp
    then have s4: "producer_step e (?c2\<lparr>sc_mem := m', sc_prod := PCopy e (sp_head ?r) ?n ?es\<rparr>) =
        c\<lparr>sc_ring := r', sc_mem := m', sc_in := sc_in c @ [load_bytes ?m e ?es]\<rparr>"
      using idle(1) res(2) by (cases c) (simp add: producer_step.simps Let_def)
    have "(producer_step e ^^ (?es + 3)) c = producer_step e ((producer_step e ^^ ?es) (producer_step e (producer_step e c)))"
      by (simp add: funpow_swap1 numeral_3_eq_3)
    then show ?thesis using res(1) s1 s2 s3 s4 by simp
  qed
qed

lemma consumer_alone:
  assumes idle: "sc_cons c = CIdle" "p \<noteq> 0"
    and ap: "apart (sp_storage (sc_ring c) + sp_tail (sc_ring c) * sp_esize (sc_ring c)) (sp_esize (sc_ring c))
      p (sp_esize (sc_ring c))"
    and pop: "spsc_ring_pop (sc_ring c) (sc_mem c) p = (ok, r', m')"
  shows "(consumer_step p ^^ (if ok then sp_esize (sc_ring c) + 3 else 2)) c =
    c\<lparr>sc_ring := r', sc_mem := m',
      sc_out := (if ok then sc_out c @ [load_bytes m' p (sp_esize (sc_ring c))] else sc_out c)\<rparr>"
proof -
  let ?r = "sc_ring c" and ?m = "sc_mem c"
  let ?t = "sp_tail ?r" and ?es = "sp_esize ?r"
  let ?c1 = "c\<lparr>sc_cons := CEntered p ?t\<rparr>" and ?c2 = "c\<lparr>sc_cons := CCopy p ?t 0\<rparr>"
  have s1: "consumer_step p c = ?c1" using idle by (simp add: consumer_step.simps Let_def)
  show ?thesis
  proof (cases "?t = sp_head ?r")
    case True
    then have "(ok, r', m') = (False, ?r, ?m)" using pop idle by (simp add: spsc_ring_pop_def Let_def)
    moreover have "consumer_step p ?c1 = c" using True idle(1) by (simp add: consumer_step.simps)
    ultimately show ?thesis using s1 by (simp add: numeral_2_eq_2)
  next
    case False
    let ?slot = "sp_storage ?r + ?t * ?es"
    have res: "ok" "r' = ?r\<lparr>sp_tail := (?t + 1) AND sp_mask ?r\<rparr>" "m' = store_bytes ?m p (load_bytes ?m ?slot ?es)"
      using pop idle False by (simp_all add: spsc_ring_pop_def Let_def memcpy_def)
    have s2: "consumer_step p ?c1 = ?c2" using False by (simp add: consumer_step.simps)
    have s3: "(consumer_step p ^^ ?es) ?c2 = ?c2\<lparr>sc_mem := m', sc_cons := CCopy p ?t ?es\<rparr>"
      unfolding res(3) by (rule consumer_copies [OF ap]) simp_all
    have s4: "consumer_step p (?c2\<lparr>sc_mem := m', sc_cons := CCopy p ?t ?es\<rparr>) =
        c\<lparr>sc_ring := r', sc_mem := m', sc_out := sc_out c @ [load_bytes m' p ?es]\<rparr>"
      using idle(1) res(2) by (cases c) (simp add: consumer_step.simps Let_def)
    have "(consumer_step p ^^ (?es + 3)) c = consumer_step p ((consumer_step p ^^ ?es) (consumer_step p (consumer_step p c)))"
      by (simp add: funpow_swap1 numeral_3_eq_3)
    then show ?thesis using res(1) s1 s2 s3 s4 by simp
  qed
qed

lemma not_in_storage_apart:
  assumes "spsc_ok r" "extent p (sp_esize r) \<inter> spsc_extent r = {}" "i < sp_capacity r"
  shows "apart (sp_storage r + i * sp_esize r) (sp_esize r) p (sp_esize r)"
proof (rule ccontr)
  assume "\<not> ?thesis"
  then have "max p (cell (sp_storage r) (sp_esize r) i) \<in> extent p (sp_esize r) \<inter> spsc_extent r"
    using cell_bounds [OF assms(3), of "sp_storage r" "sp_esize r"] assms(3)
    by (auto simp: apart_def spsc_extent_def cell_def)
  then show False using assms(2) by simp
qed

text \<open>
  A call that nobody interrupts is the operation: run alone from outside, the producer's
  access-by-access steps come back with the ring and the memory \<open>spsc_ring_push\<close> computes (the
  element published exactly when it answers true), after \<open>element_size + 3\<close> steps or, when the
  ring is full, 2; the consumer's steps likewise compute \<open>spsc_ring_pop\<close>.
\<close>

theorem spsc_call_atomic:
  assumes "spsc_ok (sc_ring c)" "sc_prod c = PIdle" "sc_cons c = CIdle" "p \<noteq> 0"
    and "extent p (sp_esize (sc_ring c)) \<inter> spsc_extent (sc_ring c) = {}"
  shows "(case spsc_ring_push (sc_ring c) (sc_mem c) p of (ok, r', m') \<Rightarrow>
      (producer_step p ^^ (if ok then sp_esize (sc_ring c) + 3 else 2)) c =
      c\<lparr>sc_ring := r', sc_mem := m',
        sc_in := (if ok then sc_in c @ [load_bytes (sc_mem c) p (sp_esize (sc_ring c))] else sc_in c)\<rparr>) \<and>
    (case spsc_ring_pop (sc_ring c) (sc_mem c) p of (ok, r', m') \<Rightarrow>
      (consumer_step p ^^ (if ok then sp_esize (sc_ring c) + 3 else 2)) c =
      c\<lparr>sc_ring := r', sc_mem := m',
        sc_out := (if ok then sc_out c @ [load_bytes m' p (sp_esize (sc_ring c))] else sc_out c)\<rparr>)"
proof -
  have b: "sp_head (sc_ring c) < sp_capacity (sc_ring c)" "sp_tail (sc_ring c) < sp_capacity (sc_ring c)"
    using assms(1) by (simp_all add: spsc_ok_def)
  note ap = not_in_storage_apart [OF assms(1,5)]
  obtain ok r' m' where push: "spsc_ring_push (sc_ring c) (sc_mem c) p = (ok, r', m')" by (rule prod_cases3)
  obtain ok2 r2 m2 where pop: "spsc_ring_pop (sc_ring c) (sc_mem c) p = (ok2, r2, m2)" by (rule prod_cases3)
  show ?thesis
    unfolding push pop prod.case
    using producer_alone [OF assms(2,4) ap [OF b(1)] push] consumer_alone [OF assms(3,4) ap [OF b(2)] pop] by blast
qed

theorem spsc_call_atomic_witness:
  "let r = snd (spsc_ring_init undefined 8 2 1); m = (\<lambda>a. of_nat a); c = spsc_start r m
   in sc_in ((producer_step 100 ^^ 4) c) = [[100]] \<and> sp_head (sc_ring ((producer_step 100 ^^ 4) c)) = 1"
proof -
  let ?r = "\<lparr>sp_storage = 8, sp_capacity = 2, sp_mask = 1, sp_esize = 1, sp_head = 0, sp_tail = 0\<rparr>"
  let ?c = "spsc_start ?r (\<lambda>a. of_nat a)"
  have init: "snd (spsc_ring_init undefined 8 2 1) = ?r" by (simp add: spsc_ring_init_def is_pow2_def)
  have "spsc_ok (sc_ring ?c)"
    by (simp add: spsc_start_def spsc_ok_def) (intro exI [of _ 1], simp)
  moreover have "sc_prod ?c = PIdle" "sc_cons ?c = CIdle" "(100::nat) \<noteq> 0"
    "extent 100 (sp_esize (sc_ring ?c)) \<inter> spsc_extent (sc_ring ?c) = {}"
    by (simp_all add: spsc_start_def spsc_extent_def extent_def)
  ultimately have "(producer_step 100 ^^ 4) ?c = ?c\<lparr>sc_ring := ?r\<lparr>sp_head := 1\<rparr>,
      sc_mem := memcpy (\<lambda>a. of_nat a) 8 100 1, sc_in := [[100]]\<rparr>"
    using spsc_call_atomic [of ?c 100]
    by (simp add: spsc_start_def spsc_ring_push_def Let_def load_bytes_def split: prod.splits)
  then show ?thesis unfolding init Let_def by simp
qed

text \<open>The steps a call still has to make.\<close>

definition producer_left :: "spsc \<Rightarrow> nat" where
  "producer_left c = (case sc_prod c of PIdle \<Rightarrow> 0 | PEntered e h n \<Rightarrow> sp_esize (sc_ring c) + 2
     | PCopy e h n k \<Rightarrow> sp_esize (sc_ring c) - k + 1)"

definition consumer_left :: "spsc \<Rightarrow> nat" where
  "consumer_left c = (case sc_cons c of CIdle \<Rightarrow> 0 | CEntered p t \<Rightarrow> sp_esize (sc_ring c) + 2
     | CCopy p t k \<Rightarrow> sp_esize (sc_ring c) - k + 1)"

text \<open>
  C15. Wait freedom: every step of a call brings its end nearer by one, from wherever the
  call stands and whatever the other side and its environment do in between; a call has at
  most \<open>element_size + 3\<close> steps. Neither side ever waits for the other.
\<close>

theorem spsc_wait_free:
  "producer_left c \<le> sp_esize (sc_ring c) + 2 \<and> consumer_left c \<le> sp_esize (sc_ring c) + 2 \<and>
   (producer_left c = 0 \<longleftrightarrow> sc_prod c = PIdle) \<and> (consumer_left c = 0 \<longleftrightarrow> sc_cons c = CIdle) \<and>
   (sc_prod c = PIdle \<or> producer_left (producer_step p c) < producer_left c) \<and>
   (sc_cons c = CIdle \<or> consumer_left (consumer_step p c) < consumer_left c) \<and>
   producer_left (consumer_step p c) = producer_left c \<and>
   consumer_left (producer_step p c) = consumer_left c \<and>
   producer_left (c\<lparr>sc_mem := m\<rparr>) = producer_left c \<and> consumer_left (c\<lparr>sc_mem := m\<rparr>) = consumer_left c"
  by (cases "sc_prod c"; cases "sc_cons c")
    (simp_all add: producer_left_def consumer_left_def producer_step.simps consumer_step.simps Let_def, arith+)

section \<open>From one context: a bounded queue\<close>

definition spsc_client :: "SpscRing \<Rightarrow> hptr \<Rightarrow> bool" where
  "spsc_client r p \<longleftrightarrow> p \<noteq> 0 \<and> apart (sp_storage r) (sp_capacity r * sp_esize r) p (sp_esize r)"

lemma spsc_push_cases:
  assumes ok: "spsc_ok r" and cl: "spsc_client r p" and push: "spsc_ring_push r m p = (a, r', m')"
  shows "spsc_ok r'" "a \<longleftrightarrow> spsc_used r < sp_capacity r - 1"
    "spsc_list r' m' = (if a then spsc_list r m @ [load_bytes m p (sp_esize r)] else spsc_list r m)"
    "sp_storage r' = sp_storage r" "sp_capacity r' = sp_capacity r" "sp_esize r' = sp_esize r"
proof -
  let ?n = "(sp_head r + 1) mod sp_capacity r" and ?bs = "load_bytes m p (sp_esize r)"
  let ?m = "store_bytes m (cell (sp_storage r) (sp_esize r) (sp_head r)) ?bs"
  have res: "(a, r', m') = (if ?n = sp_tail r then (False, r, m) else (True, r\<lparr>sp_head := ?n\<rparr>, ?m))"
    using push cl mask_index [OF ok]
    by (simp add: spsc_ring_push_def Let_def memcpy_def spsc_client_def cell_def split: if_splits)
  have full: "?n = sp_tail r \<longleftrightarrow> spsc_used r = sp_capacity r - 1"
    using spsc_full_used [OF ok] by (simp add: spsc_ring_full_def mask_index [OF ok])
  have room: "spsc_used r < sp_capacity r - 1 \<longleftrightarrow> ?n \<noteq> sp_tail r"
    using full spsc_window(1) [OF ok] by auto
  have "spsc_list r ?m = spsc_list r m"
    by (rule spsc_list_cong [OF ok]) (use window_not_head [OF ok] in \<open>simp add: cell_val_store\<close>)
  moreover have "cell_val ?m (sp_storage r) (sp_esize r) (sp_head r) = ?bs" by (simp add: cell_val_store)
  ultimately have "?n \<noteq> sp_tail r \<Longrightarrow> spsc_list (r\<lparr>sp_head := ?n\<rparr>) ?m = spsc_list r m @ [?bs]"
    using spsc_publish(3) [OF ok, of ?m] by simp
  then show "spsc_ok r'" "a \<longleftrightarrow> spsc_used r < sp_capacity r - 1"
    "spsc_list r' m' = (if a then spsc_list r m @ [?bs] else spsc_list r m)"
    "sp_storage r' = sp_storage r" "sp_capacity r' = sp_capacity r" "sp_esize r' = sp_esize r"
    using res room spsc_publish(1) [OF ok] ok by (auto split: if_splits)
qed

lemma spsc_pop_cases:
  assumes ok: "spsc_ok r" and cl: "spsc_client r p" and pop: "spsc_ring_pop r m p = (a, r', m')"
  shows "spsc_ok r'" "a \<longleftrightarrow> spsc_list r m \<noteq> []"
    "spsc_list r m = (if a then load_bytes m' p (sp_esize r') # spsc_list r' m' else spsc_list r' m')"
    "sp_storage r' = sp_storage r" "sp_capacity r' = sp_capacity r" "sp_esize r' = sp_esize r"
proof -
  let ?bs = "cell_val m (sp_storage r) (sp_esize r) (sp_tail r)"
  let ?r = "r\<lparr>sp_tail := (sp_tail r + 1) mod sp_capacity r\<rparr>"
  have res: "(a, r', m') = (if sp_tail r = sp_head r then (False, r, m) else (True, ?r, store_bytes m p ?bs))"
    using pop cl mask_index [OF ok]
    by (simp add: spsc_ring_pop_def Let_def memcpy_def spsc_client_def cell_def cell_val_def split: if_splits)
  have "spsc_list r m \<noteq> [] \<longleftrightarrow> spsc_used r \<noteq> 0" by (metis length_0_conv length_spsc_list)
  then have ne: "spsc_list r m \<noteq> [] \<longleftrightarrow> sp_tail r \<noteq> sp_head r"
    using spsc_empty_used [OF ok] by (auto simp: spsc_ring_empty_def)
  have ok': "sp_tail r \<noteq> sp_head r \<Longrightarrow> spsc_ok ?r" by (rule spsc_release(1) [OF ok])
  have "spsc_list ?r (store_bytes m p ?bs) = spsc_list ?r m" if "sp_tail r \<noteq> sp_head r"
  proof (rule spsc_list_frame [OF ok' [OF that]])
    fix x assume "x \<in> spsc_extent ?r"
    then show "store_bytes m p ?bs x = m x" using cl
      by (intro store_bytes_other) (auto simp: spsc_client_def spsc_extent_def apart_def)
  qed
  then show "spsc_ok r'" "a \<longleftrightarrow> spsc_list r m \<noteq> []"
    "spsc_list r m = (if a then load_bytes m' p (sp_esize r') # spsc_list r' m' else spsc_list r' m')"
    "sp_storage r' = sp_storage r" "sp_capacity r' = sp_capacity r" "sp_esize r' = sp_esize r"
    using res ne ok ok' spsc_release(3) [OF ok, of m] by (auto split: if_splits)
qed

lemma spsc_client_cong:
  "sp_storage r' = sp_storage r \<Longrightarrow> sp_capacity r' = sp_capacity r \<Longrightarrow> sp_esize r' = sp_esize r \<Longrightarrow>
   spsc_client r' = spsc_client r"
  by (simp add: spsc_client_def fun_eq_iff)

interpretation spsc_seq: bounded_queue
  "\<lambda>(r, m) p. spsc_ring_push r m p" "\<lambda>(r, m) p. spsc_ring_pop r m p"
  "\<lambda>(r, m) p. load_bytes m p (sp_esize r)" "\<lambda>(r, m) p. load_bytes m p (sp_esize r)"
  "\<lambda>(r, m). spsc_ok r" "\<lambda>(r, m). spsc_client r" "\<lambda>(r, m). spsc_client r" "\<lambda>_ _. True"
  "\<lambda>(r, m). spsc_list r m" "\<lambda>(r, m). sp_capacity r - 1"
proof (unfold_locales, goal_cases)
  case (1 s p ok s')
  obtain r m where s: "s = (r, m)" by (cases s)
  obtain r' m' where s': "s' = (r', m')" by (cases s')
  have ok: "spsc_ok r" and cl: "spsc_client r p" and push: "spsc_ring_push r m p = (ok, r', m')"
    using 1 s s' by auto
  note c = spsc_push_cases [OF ok cl push]
  show ?case unfolding s s' prod.case using c(1-3,5) spsc_client_cong [OF c(4-6)] by auto
next
  case (2 s p ok s')
  obtain r m where s: "s = (r, m)" by (cases s)
  obtain r' m' where s': "s' = (r', m')" by (cases s')
  have ok: "spsc_ok r" and cl: "spsc_client r p" and pop: "spsc_ring_pop r m p = (ok, r', m')"
    using 2 s s' by auto
  note c = spsc_pop_cases [OF ok cl pop]
  show ?case unfolding s s' prod.case using c(1-3,5) spsc_client_cong [OF c(4-6)] by auto
qed

end
