(* ===== verification/VM_Ecall.thy ===== *)
theory VM_Ecall
  imports VM_Types
begin

text \<open>
  The ECALL router (\<open>src/vm/vm_ecall.c\<close>) and the CPU-only handlers
  (\<open>src/vm/vm_ecall_handlers.c\<close>), on the machine the scheduler drives. A machine holds the
  scheduler's state, the \<open>VmCpu\<close> objects by address, the host memory and, as \<open>'e\<close>, whatever
  else the host keeps. A C handler \<open>void (*)(VmCpu *, void *system)\<close> may reach all of it, so a
  handler is a function of the CPU's address and the machine. A NULL function pointer is
  \<open>None\<close>.
\<close>

record VmSched =
  total_quanta_run :: u64
  total_instructions :: u64
  global_tick :: u32
  trapped_vms :: u32
  registered_count :: u16
  sd_vms :: "u16 \<Rightarrow> hptr"
  sd_debt :: "u16 \<Rightarrow> u32"
  sd_critical :: "u16 \<Rightarrow> u32"
  sd_ready :: u64
  sd_blocked :: u64
  sd_cursor :: u16

record 'e machine =
  mc_sched :: VmSched
  mc_cpus :: "hptr \<Rightarrow> VmCpu"
  mc_mem :: hmem
  mc_ext :: 'e

type_synonym 'e handler = "hptr \<Rightarrow> 'e machine \<Rightarrow> 'e machine"

definition upd_cpu :: "hptr \<Rightarrow> (VmCpu \<Rightarrow> VmCpu) \<Rightarrow> 'e machine \<Rightarrow> 'e machine" where
  "upd_cpu p f M = M\<lparr>mc_cpus := (mc_cpus M)(p := f (mc_cpus M p))\<rparr>"

definition upd_sched :: "(VmSched \<Rightarrow> VmSched) \<Rightarrow> 'e machine \<Rightarrow> 'e machine" where
  "upd_sched f M = M\<lparr>mc_sched := f (mc_sched M)\<rparr>"

definition set_a0 :: "u32 \<Rightarrow> VmCpu \<Rightarrow> VmCpu" where
  "set_a0 v cpu = cpu\<lparr>regs := (regs cpu)(VM_REG_A0 := v)\<rparr>"

text \<open>\<open>(uint32_t)-((int32_t)e)\<close>, the value an error leaves in \<open>a0\<close>.\<close>

abbreviation (input) VM_EBUSY :: u32 where "VM_EBUSY \<equiv> 16"
abbreviation (input) VM_EINVAL :: u32 where "VM_EINVAL \<equiv> 22"
abbreviation (input) VM_ENOSYS :: u32 where "VM_ENOSYS \<equiv> 38"
abbreviation (input) VM_ETIMEDOUT :: u32 where "VM_ETIMEDOUT \<equiv> 110"

lemma upd_cpu_simps [simp]:
  "mc_sched (upd_cpu p f M) = mc_sched M" "mc_mem (upd_cpu p f M) = mc_mem M"
  "mc_ext (upd_cpu p f M) = mc_ext M" "mc_cpus (upd_cpu p f M) p = f (mc_cpus M p)"
  "q \<noteq> p \<Longrightarrow> mc_cpus (upd_cpu p f M) q = mc_cpus M q"
  by (simp_all add: upd_cpu_def)

lemma upd_sched_simps [simp]:
  "mc_sched (upd_sched f M) = f (mc_sched M)" "mc_mem (upd_sched f M) = mc_mem M"
  "mc_ext (upd_sched f M) = mc_ext M" "mc_cpus (upd_sched f M) = mc_cpus M"
  by (simp_all add: upd_sched_def)

section \<open>Router\<close>

record 'h VmEcallRouter =
  linux_slots :: "u32 \<Rightarrow> 'h option"
  vm_slots :: "u32 \<Rightarrow> 'h option"
  fallback :: "'h option"

abbreviation (input) VM_ECALL_LINUX_RANGE_START :: u32 where "VM_ECALL_LINUX_RANGE_START \<equiv> 0"
abbreviation (input) VM_ECALL_LINUX_RANGE_SIZE :: u32 where "VM_ECALL_LINUX_RANGE_SIZE \<equiv> 256"
abbreviation (input) VM_ECALL_VM_RANGE_START :: u32 where "VM_ECALL_VM_RANGE_START \<equiv> 1024"
abbreviation (input) VM_ECALL_VM_RANGE_SIZE :: u32 where "VM_ECALL_VM_RANGE_SIZE \<equiv> 256"

definition default_fallback :: "'e handler" where
  "default_fallback cpu = upd_cpu cpu (set_a0 (- VM_ENOSYS))"

text \<open>\<open>slot_for\<close> returns a pointer into one of the two arrays; here, which array and which index.\<close>

datatype ecall_slot = LinuxSlot u32 | VmSlot u32

definition slot_for :: "u32 \<Rightarrow> ecall_slot option" where
  "slot_for syscall_num =
     (if syscall_num < VM_ECALL_LINUX_RANGE_START + VM_ECALL_LINUX_RANGE_SIZE
      then Some (LinuxSlot (syscall_num - VM_ECALL_LINUX_RANGE_START))
      else if syscall_num \<ge> VM_ECALL_VM_RANGE_START \<and>
              syscall_num < VM_ECALL_VM_RANGE_START + VM_ECALL_VM_RANGE_SIZE
      then Some (VmSlot (syscall_num - VM_ECALL_VM_RANGE_START))
      else None)"

primrec get_slot :: "'h VmEcallRouter \<Rightarrow> ecall_slot \<Rightarrow> 'h option" where
  "get_slot r (LinuxSlot i) = linux_slots r i"
| "get_slot r (VmSlot i) = vm_slots r i"

primrec set_slot :: "'h VmEcallRouter \<Rightarrow> ecall_slot \<Rightarrow> 'h option \<Rightarrow> 'h VmEcallRouter" where
  "set_slot r (LinuxSlot i) h = r\<lparr>linux_slots := (linux_slots r)(i := h)\<rparr>"
| "set_slot r (VmSlot i) h = r\<lparr>vm_slots := (vm_slots r)(i := h)\<rparr>"

definition vm_ecall_router_init :: "'e handler VmEcallRouter" where
  "vm_ecall_router_init =
     \<lparr>linux_slots = (\<lambda>_. None), vm_slots = (\<lambda>_. None), fallback = Some default_fallback\<rparr>"

definition vm_ecall_register ::
  "'h VmEcallRouter \<Rightarrow> u32 \<Rightarrow> 'h option \<Rightarrow> bool \<times> 'h VmEcallRouter" where
  "vm_ecall_register r syscall_num handler =
     (case handler of None \<Rightarrow> (False, r)
      | Some h \<Rightarrow>
        (case slot_for syscall_num of None \<Rightarrow> (False, r)
         | Some slot \<Rightarrow>
           if get_slot r slot \<noteq> None then (False, r)
           else (True, set_slot r slot (Some h))))"

definition vm_ecall_unregister :: "'h VmEcallRouter \<Rightarrow> u32 \<Rightarrow> bool \<times> 'h VmEcallRouter" where
  "vm_ecall_unregister r syscall_num =
     (case slot_for syscall_num of None \<Rightarrow> (False, r)
      | Some slot \<Rightarrow>
        if get_slot r slot = None then (False, r)
        else (True, set_slot r slot None))"

definition vm_ecall_set_fallback ::
  "'e handler VmEcallRouter \<Rightarrow> 'e handler option \<Rightarrow> 'e handler VmEcallRouter" where
  "vm_ecall_set_fallback r fb =
     r\<lparr>fallback := (if fb \<noteq> None then fb else Some default_fallback)\<rparr>"

definition vm_ecall_dispatch :: "'e handler VmEcallRouter \<Rightarrow> 'e handler" where
  "vm_ecall_dispatch r cpu M =
     (let syscall_num = regs (mc_cpus M cpu) VM_REG_A7;
          handler = (case slot_for syscall_num of None \<Rightarrow> None | Some slot \<Rightarrow> get_slot r slot) in
      case handler of Some h \<Rightarrow> h cpu M
      | None \<Rightarrow>
        (case fallback r of Some fb \<Rightarrow> fb cpu M
         | None \<Rightarrow> upd_cpu cpu (set_a0 (- VM_ENOSYS)) M))"

section \<open>CPU-only handlers\<close>

abbreviation (input) SYS_EXIT :: u32 where "SYS_EXIT \<equiv> 93"
abbreviation (input) SYS_SELF :: u32 where "SYS_SELF \<equiv> 1024"
abbreviation (input) SYS_YIELD :: u32 where "SYS_YIELD \<equiv> 1040"
abbreviation (input) SYS_CRITICAL_ENTER :: u32 where "SYS_CRITICAL_ENTER \<equiv> 1041"
abbreviation (input) SYS_CRITICAL_EXIT :: u32 where "SYS_CRITICAL_EXIT \<equiv> 1042"

definition vm_handle_exit :: "'e handler" where
  "vm_handle_exit cpu = upd_cpu cpu (\<lambda>c. c\<lparr>halted := True\<rparr>)"

definition vm_handle_self :: "'e handler" where
  "vm_handle_self cpu = upd_cpu cpu (\<lambda>c. set_a0 (ucast (vm_id c)) c)"

definition vm_handle_yield :: "'e handler" where
  "vm_handle_yield cpu = upd_cpu cpu (\<lambda>c. (set_a0 0 c)\<lparr>block_reason := BLOCK_YIELDED\<rparr>)"

definition vm_handle_critical_enter :: "'e handler" where
  "vm_handle_critical_enter cpu = upd_cpu cpu (\<lambda>c.
     if in_critical c then set_a0 (- VM_EBUSY) c
     else set_a0 0 (c\<lparr>in_critical := True\<rparr>))"

definition vm_handle_critical_exit :: "'e handler" where
  "vm_handle_critical_exit cpu = upd_cpu cpu (\<lambda>c.
     if \<not> in_critical c then set_a0 (- VM_EINVAL) c
     else set_a0 0 (c\<lparr>in_critical := False\<rparr>))"

definition cpu_handlers :: "(u32 \<times> 'e handler) list" where
  "cpu_handlers =
     [(SYS_EXIT, vm_handle_exit), (SYS_SELF, vm_handle_self), (SYS_YIELD, vm_handle_yield),
      (SYS_CRITICAL_ENTER, vm_handle_critical_enter), (SYS_CRITICAL_EXIT, vm_handle_critical_exit)]"

text \<open>
  The registration loop, with its roll-back: \<open>done\<close> are the entries already installed. The
  code writes the loop out in each installer; it is a function of the two operations here.
\<close>

fun install_loop ::
  "('r \<Rightarrow> u32 \<Rightarrow> 'h option \<Rightarrow> bool \<times> 'r) \<Rightarrow> ('r \<Rightarrow> u32 \<Rightarrow> bool \<times> 'r) \<Rightarrow>
   (u32 \<times> 'h) list \<Rightarrow> (u32 \<times> 'h) list \<Rightarrow> 'r \<Rightarrow> bool \<times> 'r" where
  "install_loop reg unreg installed [] r = (True, r)"
| "install_loop reg unreg installed ((num, h) # entries) r =
     (let (ok, r') = reg r num (Some h) in
      if \<not> ok then (False, foldl (\<lambda>r e. snd (unreg r (fst e))) r' installed)
      else install_loop reg unreg (installed @ [(num, h)]) entries r')"

definition vm_ecall_install_cpu_handlers ::
  "'e handler VmEcallRouter \<Rightarrow> bool \<times> 'e handler VmEcallRouter" where
  "vm_ecall_install_cpu_handlers =
     install_loop vm_ecall_register vm_ecall_unregister [] cpu_handlers"

section \<open>The table as a map\<close>

locale handler_table =
  fixes reg :: "'r \<Rightarrow> u32 \<Rightarrow> 'h option \<Rightarrow> bool \<times> 'r"
    and unreg :: "'r \<Rightarrow> u32 \<Rightarrow> bool \<times> 'r"
    and lookup :: "'r \<Rightarrow> u32 \<Rightarrow> 'h option"
    and valid :: "u32 \<Rightarrow> bool"
  assumes reg_law: "reg r n (Some h) = (ok, r') \<Longrightarrow>
      (ok \<longleftrightarrow> valid n \<and> lookup r n = None) \<and> lookup r' = (if ok then (lookup r)(n := Some h) else lookup r)"
    and unreg_law: "unreg r n = (ok, r') \<Longrightarrow>
      (ok \<longleftrightarrow> lookup r n \<noteq> None) \<and> lookup r' = (lookup r)(n := None)"
begin

lemma roll_back:
  "lookup (foldl (\<lambda>r e. snd (unreg r (fst e))) r es) = (\<lambda>n. if n \<in> fst ` set es then None else lookup r n)"
proof (induction es arbitrary: r)
  case (Cons e es)
  have "lookup (snd (unreg r (fst e))) = (lookup r)(fst e := None)"
    using unreg_law [of r "fst e"] by (cases "unreg r (fst e)") simp
  then show ?case by (simp add: Cons.IH fun_eq_iff)
qed simp

lemma install_all_or_nothing:
  "install_loop reg unreg installed es r = (ok, r') \<Longrightarrow> distinct (map fst (installed @ es)) \<Longrightarrow>
   (ok \<longleftrightarrow> (\<forall>n \<in> fst ` set es. valid n \<and> lookup r n = None)) \<and>
   lookup r' = (if ok then lookup r ++ map_of es
     else (\<lambda>n. if n \<in> fst ` set installed then None else lookup r n))"
proof (induction es arbitrary: installed r)
  case Nil
  then show ?case by simp
next
  case (Cons e es)
  obtain num h where e: "e = (num, h)" by (cases e)
  obtain a r1 where step: "reg r num (Some h) = (a, r1)" by (cases "reg r num (Some h)")
  note law = reg_law [OF step]
  show ?case
  proof (cases a)
    case False
    then show ?thesis using Cons.prems law step e by (auto simp: roll_back)
  next
    case True
    have dist: "distinct (map fst ((installed @ [(num, h)]) @ es))" using Cons.prems(2) e by simp
    have run: "install_loop reg unreg (installed @ [(num, h)]) es r1 = (ok, r')"
      using Cons.prems(1) step True e by simp
    have r1: "lookup r1 = (lookup r)(num := Some h)" using law True by simp
    have num: "num \<notin> fst ` set es" using dist by simp
    have free: "valid num \<and> lookup r num = None" using law True by simp
    note ih = Cons.IH [OF run dist]
    have ok: "ok \<longleftrightarrow> (\<forall>n \<in> fst ` set (e # es). valid n \<and> lookup r n = None)"
      using ih r1 num free e by (auto split: if_splits)
    have "lookup r1 ++ map_of es = lookup r ++ map_of (e # es)"
      using num by (simp add: r1 e map_add_upd_left dom_map_of_conv_image_fst)
    moreover have "(\<lambda>n. if n \<in> fst ` set (installed @ [(num, h)]) then None else lookup r1 n) =
        (\<lambda>n. if n \<in> fst ` set installed then None else lookup r n)"
      using r1 free by (auto simp: fun_eq_iff)
    ultimately show ?thesis using ih ok by simp
  qed
qed

end

definition handler_of :: "'h VmEcallRouter \<Rightarrow> u32 \<Rightarrow> 'h option" where
  "handler_of r n = (case slot_for n of None \<Rightarrow> None | Some slot \<Rightarrow> get_slot r slot)"

lemma get_slot_init: "get_slot vm_ecall_router_init s = None"
  by (cases s) (simp_all add: vm_ecall_router_init_def)

lemma handler_of_init: "handler_of vm_ecall_router_init n = None"
  by (cases "slot_for n") (simp_all add: handler_of_def get_slot_init)

lemma slot_for_inj: "slot_for n = Some s \<Longrightarrow> slot_for k = Some s \<Longrightarrow> n = k"
  by (auto simp: slot_for_def split: if_splits)

lemma get_set_slot: "get_slot (set_slot r s h) t = (if t = s then h else get_slot r t)"
  by (cases s; cases t) auto

lemma handler_of_set:
  "slot_for n = Some s \<Longrightarrow> handler_of (set_slot r s h) = (handler_of r)(n := h)"
  using slot_for_inj by (fastforce simp: handler_of_def fun_eq_iff get_set_slot split: option.splits)

interpretation ecall_table: handler_table
  "vm_ecall_register :: 'h VmEcallRouter \<Rightarrow> _" vm_ecall_unregister handler_of "\<lambda>n. slot_for n \<noteq> None"
proof (unfold_locales, goal_cases)
  case (1 r n h ok r')
  then show ?case
    by (auto simp: vm_ecall_register_def handler_of_set split: option.splits if_splits)
      (simp_all add: handler_of_def)
next
  case (2 r n ok r')
  then show ?case
    by (auto simp: vm_ecall_unregister_def handler_of_set split: option.splits if_splits)
      (simp_all add: handler_of_def fun_eq_iff)
qed

text \<open>
  C16. The router: a call reaches exactly the handler registered for the number in \<open>a7\<close>, any
  other number reaches the fallback, and after \<open>vm_ecall_router_init\<close> the fallback leaves
  \<open>-ENOSYS\<close> in \<open>a0\<close> and changes nothing else. Installing the CPU-only handlers is all or nothing:
  it succeeds exactly when their five slots are free, then those calls reach them and every
  other call its old handler; otherwise every call still reaches its old handler.
\<close>

theorem ecall_router_correct:
  "vm_ecall_dispatch r cpu M =
     (case handler_of r (regs (mc_cpus M cpu) VM_REG_A7) of Some h \<Rightarrow> h cpu M
      | None \<Rightarrow> (case fallback r of Some fb \<Rightarrow> fb cpu M | None \<Rightarrow> default_fallback cpu M)) \<and>
   vm_ecall_dispatch vm_ecall_router_init cpu M = upd_cpu cpu (set_a0 (- VM_ENOSYS)) M \<and>
   (case vm_ecall_install_cpu_handlers r of (ok, r') \<Rightarrow>
      (ok \<longleftrightarrow> list_all (\<lambda>n. handler_of r n = None)
        [SYS_EXIT, SYS_SELF, SYS_YIELD, SYS_CRITICAL_ENTER, SYS_CRITICAL_EXIT]) \<and>
      handler_of r' = (if ok then handler_of r ++ map_of cpu_handlers else handler_of r))"
proof (intro conjI)
  show "vm_ecall_dispatch vm_ecall_router_init cpu M = upd_cpu cpu (set_a0 (- VM_ENOSYS)) M"
    unfolding vm_ecall_dispatch_def Let_def handler_of_def [symmetric] handler_of_init
    by (simp add: default_fallback_def) (simp add: vm_ecall_router_init_def default_fallback_def)
  obtain ok r' where run: "vm_ecall_install_cpu_handlers r = (ok, r')" by (cases "vm_ecall_install_cpu_handlers r")
  have "distinct (map fst ([] @ cpu_handlers))" by (simp add: cpu_handlers_def)
  from ecall_table.install_all_or_nothing [OF run [unfolded vm_ecall_install_cpu_handlers_def] this]
  show "case vm_ecall_install_cpu_handlers r of (ok, r') \<Rightarrow>
      (ok \<longleftrightarrow> list_all (\<lambda>n. handler_of r n = None)
        [SYS_EXIT, SYS_SELF, SYS_YIELD, SYS_CRITICAL_ENTER, SYS_CRITICAL_EXIT]) \<and>
      handler_of r' = (if ok then handler_of r ++ map_of cpu_handlers else handler_of r)"
    unfolding run prod.case by (auto simp: cpu_handlers_def slot_for_def)
qed (simp add: vm_ecall_dispatch_def handler_of_def Let_def default_fallback_def split: option.splits)

end
