(* ===== verification/VM_Sched.thy ===== *)
theory VM_Sched
  imports VM_Ecall VM_Exec "HOL-Library.Monad_Syntax"
begin

text \<open>
  The cooperative scheduler, \<open>src/vm/vm_sched.c\<close>. The \<open>vms\<close> array holds pointers to caller-owned
  \<open>VmCpu\<close>s (\<open>0\<close> is NULL), the ready and blocked sets are 64-bit bitmaps over vm ids, and one
  scheduling step wakes what is due, picks the next ready VM, runs it and handles how it
  stopped. The loop inside a step (a critical section may extend the turn, an ECALL may resume
  it) has no bound of its own, so it is a partial function: \<open>None\<close> is a step that never returns.

  The configuration holds the host's callbacks and the router. A callback not set is \<open>None\<close>,
  as NULL; \<open>vm_sched_init\<close> replaces an unset trap or idle handler by the default, and the
  calls here do the same. The tick source reads a host clock: it sees and may advance only
  the host's part of the machine.
\<close>

datatype VmTrapAction = VM_TRAP_TERMINATE | VM_TRAP_RESUME | VM_TRAP_LOG_AND_TERMINATE

datatype VmSchedStepResult = VM_SCHED_RAN | VM_SCHED_IDLE | VM_SCHED_ALL_HALTED

record 'e VmSchedConfig =
  baseline_quantum :: u32
  max_critical_overrun :: u32
  trap_handler :: "(hptr \<Rightarrow> 'e machine \<Rightarrow> VmTrapAction \<times> 'e machine) option"
  idle_handler :: "(u32 \<Rightarrow> 'e machine \<Rightarrow> 'e machine) option"
  ecall_router :: "'e handler VmEcallRouter option"
  tick_source :: "('e \<Rightarrow> u32 \<times> 'e) option"
  ticks_per_second :: u32

abbreviation (input) VM_SCHED_MAX_VMS :: u16 where "VM_SCHED_MAX_VMS \<equiv> 64"

text \<open>The slot numbers \<open>0 .. VM_SCHED_MAX_VMS - 1\<close>, in the order the loops visit them.\<close>

definition vm_ids :: "u16 list" where "vm_ids = map of_nat [0..<64]"

section \<open>Bitmaps\<close>

definition bm_set :: "u64 \<Rightarrow> u16 \<Rightarrow> u64" where
  "bm_set b i = b OR push_bit (unat i) 1"

definition bm_clear :: "u64 \<Rightarrow> u16 \<Rightarrow> u64" where
  "bm_clear b i = b AND NOT (push_bit (unat i) 1)"

definition bm_test :: "u64 \<Rightarrow> u16 \<Rightarrow> bool" where
  "bm_test b i \<longleftrightarrow> b AND push_bit (unat i) 1 \<noteq> 0"

definition find_next_ready :: "u64 \<Rightarrow> u16 \<Rightarrow> u16 option" where
  "find_next_ready ready start =
     (if ready = 0 then None
      else find (bm_test ready) (map (\<lambda>i. (start + i) mod VM_SCHED_MAX_VMS) vm_ids))"

text \<open>
  The scan for the lowest set bit, and the loop over the set bits of a bitmap from the
  lowest up, which the wake functions share. The scan is only entered with a bit set; the
  C loop would not end on 0.
\<close>

function lowest_id :: "u16 \<Rightarrow> u64 \<Rightarrow> u16" where
  "lowest_id i b = (if b = 0 then i else if b AND 1 = 0 then lowest_id (i + 1) (drop_bit 1 b) else i)"
  by pat_completeness auto
termination
proof (relation "measure (\<lambda>(i, b). unat b)", goal_cases)
  case (2 i b)
  then have "0 < unat b" by (simp add: unat_gt_0)
  then show ?case by (simp add: drop_bit_eq_div unat_div)
qed simp

declare lowest_id.simps [simp del]

function while_bits :: "(u16 \<Rightarrow> 's \<Rightarrow> 's) \<Rightarrow> u64 \<Rightarrow> 's \<Rightarrow> 's" where
  "while_bits f b s = (if b = 0 then s else while_bits f (b AND (b - 1)) (f (lowest_id 0 b) s))"
  by pat_completeness auto
termination
proof (relation "measure (\<lambda>(f, b, s). unat b)", goal_cases)
  case (2 f b s)
  then have "unat (b - 1) < unat b" by (simp add: unat_minus_one unat_gt_0)
  moreover have "b AND (b - 1) \<le> b - 1" by (simp add: word_and_le1)
  ultimately show ?case by (simp add: word_le_nat_alt)
qed simp

declare while_bits.simps [simp del]

section \<open>Lifecycle and registration\<close>

definition default_trap_handler :: "hptr \<Rightarrow> 'e machine \<Rightarrow> VmTrapAction \<times> 'e machine" where
  "default_trap_handler cpu M = (VM_TRAP_TERMINATE, M)"

definition default_idle_handler :: "u32 \<Rightarrow> 'e machine \<Rightarrow> 'e machine" where
  "default_idle_handler ticks M = M"

definition zero_sched :: VmSched where
  "zero_sched = \<lparr>total_quanta_run = 0, total_instructions = 0, global_tick = 0, trapped_vms = 0,
     registered_count = 0, sd_vms = (\<lambda>_. 0), sd_debt = (\<lambda>_. 0), sd_critical = (\<lambda>_. 0),
     sd_ready = 0, sd_blocked = 0, sd_cursor = 0\<rparr>"

definition zero_config :: "'e VmSchedConfig" where
  "zero_config = \<lparr>baseline_quantum = 0, max_critical_overrun = 0, trap_handler = None,
     idle_handler = None, ecall_router = None, tick_source = None, ticks_per_second = 0\<rparr>"

definition vm_sched_init :: "'e VmSchedConfig option \<Rightarrow> VmSched \<times> 'e VmSchedConfig" where
  "vm_sched_init cfg =
     (let c = (case cfg of None \<Rightarrow> zero_config | Some c \<Rightarrow> c);
          c = (if trap_handler c = None then c\<lparr>trap_handler := Some default_trap_handler\<rparr> else c);
          c = (if idle_handler c = None then c\<lparr>idle_handler := Some default_idle_handler\<rparr> else c);
          c = (if baseline_quantum c = 0 then c\<lparr>baseline_quantum := 1000\<rparr> else c);
          c = (if max_critical_overrun c = 0
               then c\<lparr>max_critical_overrun := 10 * baseline_quantum c\<rparr> else c)
      in (zero_sched, c))"

definition admit :: "u16 \<Rightarrow> hptr \<Rightarrow> 'e machine \<Rightarrow> 'e machine" where
  "admit i cpu M = upd_cpu cpu (\<lambda>c. c\<lparr>vm_id := i\<rparr>)
     (upd_sched (\<lambda>s. s\<lparr>sd_vms := (sd_vms s)(i := cpu), sd_ready := bm_set (sd_ready s) i,
        sd_debt := (sd_debt s)(i := 0), sd_critical := (sd_critical s)(i := 0),
        registered_count := registered_count s + 1\<rparr>) M)"

definition vm_sched_register :: "'e machine \<Rightarrow> hptr \<Rightarrow> int \<times> 'e machine" where
  "vm_sched_register M cpu =
     (if cpu = 0 then (-2, M)
      else
        case find (\<lambda>i. sd_vms (mc_sched M) i = 0) vm_ids of
          Some i \<Rightarrow> (uint i, admit i cpu M)
        | None \<Rightarrow> (-1, M))"

definition vm_sched_register_at :: "'e machine \<Rightarrow> hptr \<Rightarrow> u16 \<Rightarrow> int \<times> 'e machine" where
  "vm_sched_register_at M cpu requested_id =
     (if requested_id \<ge> VM_SCHED_MAX_VMS then (-1, M)
      else if cpu = 0 then (-3, M)
      else if sd_vms (mc_sched M) requested_id \<noteq> 0 then (-2, M)
      else (0, admit requested_id cpu M))"

definition vm_sched_unregister :: "'e machine \<Rightarrow> u16 \<Rightarrow> 'e machine" where
  "vm_sched_unregister M i =
     (if i \<ge> VM_SCHED_MAX_VMS then M
      else if sd_vms (mc_sched M) i = 0 then M
      else upd_sched (\<lambda>s. s\<lparr>sd_vms := (sd_vms s)(i := 0),
        sd_ready := bm_clear (sd_ready s) i, sd_blocked := bm_clear (sd_blocked s) i,
        sd_debt := (sd_debt s)(i := 0), sd_critical := (sd_critical s)(i := 0),
        registered_count := (if registered_count s > 0 then registered_count s - 1
                             else registered_count s)\<rparr>) M)"

definition vm_sched_get :: "VmSched \<Rightarrow> u16 \<Rightarrow> hptr" where
  "vm_sched_get s i = (if i \<ge> VM_SCHED_MAX_VMS then 0 else sd_vms s i)"

section \<open>Waking and halting\<close>

text \<open>The blocked-to-ready transition the wake functions share.\<close>

definition move_ready :: "u16 \<Rightarrow> 'e machine \<Rightarrow> 'e machine" where
  "move_ready i = upd_sched (\<lambda>s. s\<lparr>sd_blocked := bm_clear (sd_blocked s) i,
     sd_ready := bm_set (sd_ready s) i\<rparr>)"

definition unblock :: "u32 \<Rightarrow> VmCpu \<Rightarrow> VmCpu" where
  "unblock v c = set_a0 v (c\<lparr>block_reason := BLOCK_NONE, block_deadline := 0\<rparr>)"

definition vm_sched_wake_mailbox :: "'e machine \<Rightarrow> u16 \<Rightarrow> u32 \<Rightarrow> bool \<times> 'e machine" where
  "vm_sched_wake_mailbox M i a0_value =
     (if i \<ge> VM_SCHED_MAX_VMS then (False, M)
      else
        let cpu = sd_vms (mc_sched M) i in
        if cpu = 0 then (False, M)
        else if block_reason (mc_cpus M cpu) \<noteq> BLOCK_MAILBOX_RECV then (False, M)
        else if \<not> bm_test (sd_blocked (mc_sched M)) i then (False, M)
        else (True, move_ready i (upd_cpu cpu (unblock a0_value) M)))"

definition vm_sched_wake_child :: "'e machine \<Rightarrow> u16 \<Rightarrow> u32 \<Rightarrow> bool \<times> 'e machine" where
  "vm_sched_wake_child M i a0_value =
     (if i \<ge> VM_SCHED_MAX_VMS then (False, M)
      else
        let cpu = sd_vms (mc_sched M) i in
        if cpu = 0 then (False, M)
        else if block_reason (mc_cpus M cpu) \<noteq> BLOCK_ON_CHILD then (False, M)
        else if \<not> bm_test (sd_blocked (mc_sched M)) i then (False, M)
        else (True, move_ready i
          (upd_cpu cpu (\<lambda>c. unblock a0_value (c\<lparr>block_child_vm := UINT16_MAX\<rparr>)) M)))"

definition frame_wake_one :: "u32 \<Rightarrow> u16 \<Rightarrow> nat \<times> 'e machine \<Rightarrow> nat \<times> 'e machine" where
  "frame_wake_one now_consumed i = (\<lambda>(woken, M).
     let cpu = sd_vms (mc_sched M) i in
     if cpu = 0 then (woken, M)
     else if block_reason (mc_cpus M cpu) \<noteq> BLOCK_FRAME_CONSUMED then (woken, M)
     else if now_consumed \<ge> block_deadline (mc_cpus M cpu)
     then (woken + 1, move_ready i (upd_cpu cpu (unblock 0) M))
     else (woken, M))"

definition vm_sched_wake_frame_consumed :: "'e machine \<Rightarrow> u32 \<Rightarrow> nat \<times> 'e machine" where
  "vm_sched_wake_frame_consumed M now_consumed =
     while_bits (frame_wake_one now_consumed) (sd_blocked (mc_sched M)) (0, M)"

definition clear_both :: "u16 \<Rightarrow> 'e machine \<Rightarrow> 'e machine" where
  "clear_both i = upd_sched (\<lambda>s. s\<lparr>sd_ready := bm_clear (sd_ready s) i,
     sd_blocked := bm_clear (sd_blocked s) i\<rparr>)"

definition vm_sched_halt :: "'e machine \<Rightarrow> u16 \<Rightarrow> 'e machine" where
  "vm_sched_halt M i =
     (if i \<ge> VM_SCHED_MAX_VMS then M
      else
        let cpu = sd_vms (mc_sched M) i in
        if cpu = 0 then M
        else clear_both i (upd_cpu cpu (\<lambda>c. c\<lparr>halted := True\<rparr>) M))"

section \<open>Timeouts\<close>

definition tick_reached :: "u32 \<Rightarrow> u32 \<Rightarrow> bool" where
  "tick_reached now deadline \<longleftrightarrow> 0 \<le> sint (now - deadline)"

text \<open>
  The switch of \<open>wake_expired_timeouts\<close>: what to deliver if the VM wakes, and the ticks left if it
  waits for a deadline (\<open>None\<close>: no deadline to report).
\<close>

datatype wake_decision = Wake u32 | Wait "u32 option"

definition deadline_decision :: "u32 \<Rightarrow> u32 \<Rightarrow> u32 \<Rightarrow> wake_decision" where
  "deadline_decision now deadline a0_value =
     (if tick_reached now deadline then Wake a0_value else Wait (Some (deadline - now)))"

definition wake_decision_of :: "u32 \<Rightarrow> VmCpu \<Rightarrow> wake_decision" where
  "wake_decision_of now c =
     (case block_reason c of
        BLOCK_YIELDED \<Rightarrow> Wake 0
      | BLOCK_SLEEP \<Rightarrow> deadline_decision now (block_deadline c) 0
      | BLOCK_MAILBOX_RECV \<Rightarrow>
          if block_deadline c \<noteq> 0 then deadline_decision now (block_deadline c) (- VM_ETIMEDOUT)
          else Wait None
      | BLOCK_ON_CHILD \<Rightarrow> Wait None
      | BLOCK_FRAME_CONSUMED \<Rightarrow> Wait None
      | BLOCK_NONE \<Rightarrow> Wake 0)"

definition wake_one :: "u16 \<Rightarrow> u32 \<times> 'e machine \<Rightarrow> u32 \<times> 'e machine" where
  "wake_one i = (\<lambda>(delta, M).
     let cpu = sd_vms (mc_sched M) i in
     if cpu = 0 then (delta, M)
     else
       case wake_decision_of (global_tick (mc_sched M)) (mc_cpus M cpu) of
         Wake v \<Rightarrow> (delta, move_ready i (upd_cpu cpu (unblock v) M))
       | Wait (Some d) \<Rightarrow> (if d < delta then d else delta, M)
       | Wait None \<Rightarrow> (delta, M))"

definition wake_expired_timeouts :: "'e machine \<Rightarrow> u32 \<times> 'e machine" where
  "wake_expired_timeouts M = while_bits wake_one (sd_blocked (mc_sched M)) (UINT32_MAX, M)"

section \<open>One scheduling step\<close>

text \<open>Under a halt or a fatal trap the VM leaves both sets.\<close>

definition apply_block_transition :: "u16 \<Rightarrow> 'e machine \<Rightarrow> 'e machine" where
  "apply_block_transition i M =
     (let cpu = sd_vms (mc_sched M) i in
      if cpu = 0 then M
      else if block_reason (mc_cpus M cpu) = BLOCK_NONE then M
      else upd_sched (\<lambda>s. s\<lparr>sd_ready := bm_clear (sd_ready s) i,
             sd_blocked := bm_set (sd_blocked s) i\<rparr>) M)"

definition handle_trap :: "'e VmSchedConfig \<Rightarrow> u16 \<Rightarrow> 'e machine \<Rightarrow> 'e machine" where
  "handle_trap cfg i M =
     (let cpu = sd_vms (mc_sched M) i in
      if cpu = 0 then M
      else
        let (action, M) = (case trap_handler cfg of Some h \<Rightarrow> h cpu M
                           | None \<Rightarrow> default_trap_handler cpu M) in
        case action of
          VM_TRAP_RESUME \<Rightarrow>
            upd_cpu cpu (\<lambda>c. c\<lparr>trap_cause := TRAP_NONE, trap_pc := 0, trap_addr := 0, trap_insn := 0\<rparr>) M
        | VM_TRAP_LOG_AND_TERMINATE \<Rightarrow>
            clear_both i (upd_cpu cpu (\<lambda>c. c\<lparr>halted := True\<rparr>)
              (upd_sched (\<lambda>s. s\<lparr>trapped_vms := trapped_vms s + 1\<rparr>) M))
        | VM_TRAP_TERMINATE \<Rightarrow> clear_both i (upd_cpu cpu (\<lambda>c. c\<lparr>halted := True\<rparr>) M))"

text \<open>Returns the quantum and the debt paid.\<close>

definition effective_quantum :: "'e VmSchedConfig \<Rightarrow> VmSched \<Rightarrow> u16 \<Rightarrow> u32 \<times> u32" where
  "effective_quantum cfg s i =
     (let baseline = baseline_quantum cfg;
          cap = baseline div 2;
          debt = sd_debt s i;
          pay = (if debt < cap then debt else cap)
      in (baseline - pay, pay))"

definition sample_tick :: "('e \<Rightarrow> u32 \<times> 'e) \<Rightarrow> 'e machine \<Rightarrow> 'e machine" where
  "sample_tick src M =
     (let (t, e) = src (mc_ext M) in upd_sched (\<lambda>s. s\<lparr>global_tick := t\<rparr>) (M\<lparr>mc_ext := e\<rparr>))"

text \<open>The run of one \<open>vm_step\<close> with the counters and the tick after it.\<close>

definition run_quantum ::
  "'e VmSchedConfig \<Rightarrow> hptr \<Rightarrow> u32 \<Rightarrow> 'e machine \<Rightarrow> VmStepResult \<times> u32 \<times> 'e machine" where
  "run_quantum cfg cpu budget M =
     (let (r, used, c, m) = vm_step (mc_cpus M cpu) (mc_mem M) budget;
          M = (upd_cpu cpu (\<lambda>_. c) M)\<lparr>mc_mem := m\<rparr>;
          M = upd_sched (\<lambda>s. s\<lparr>total_quanta_run := total_quanta_run s + 1,
                total_instructions := total_instructions s + ucast used\<rparr>) M;
          M = (case tick_source cfg of Some src \<Rightarrow> sample_tick src M
               | None \<Rightarrow> upd_sched (\<lambda>s. s\<lparr>global_tick := global_tick s + used\<rparr>) M)
      in (r, used, M))"

definition pay_debt :: "u16 \<Rightarrow> u32 \<Rightarrow> 'e machine \<Rightarrow> 'e machine" where
  "pay_debt i debt_paid = upd_sched (\<lambda>s. s\<lparr>sd_debt := (sd_debt s)(i :=
     (if debt_paid \<le> sd_debt s i then sd_debt s i - debt_paid else 0))\<rparr>)"

text \<open>How one round of the loop ends: another \<open>vm_step\<close> with a budget, or the turn is over.\<close>

datatype 'e round = Again u32 "'e machine" | Over "'e machine"

definition expired_round ::
  "'e VmSchedConfig \<Rightarrow> u16 \<Rightarrow> hptr \<Rightarrow> u32 \<Rightarrow> u32 \<Rightarrow> 'e machine \<Rightarrow> 'e round" where
  "expired_round cfg i cpu debt_paid used M =
     (if in_critical (mc_cpus M cpu) then
        let M = upd_sched (\<lambda>s. s\<lparr>sd_critical := (sd_critical s)(i := sd_critical s i + used)\<rparr>) M in
        if sd_critical (mc_sched M) i > max_critical_overrun cfg
        then Over (upd_sched (\<lambda>s. s\<lparr>sd_ready := bm_clear (sd_ready s) i,
                     sd_critical := (sd_critical s)(i := 0), sd_debt := (sd_debt s)(i := 0)\<rparr>)
                   (upd_cpu cpu (\<lambda>c. c\<lparr>halted := True, trap_cause := TRAP_HALT\<rparr>) M))
        else Again (baseline_quantum cfg)
               (upd_sched (\<lambda>s. s\<lparr>sd_debt := (sd_debt s)(i := sd_debt s i + used)\<rparr>) M)
      else
        Over (upd_sched (\<lambda>s. s\<lparr>sd_critical := (sd_critical s)(i := 0)\<rparr>) (pay_debt i debt_paid M)))"

definition ecall_round ::
  "'e VmSchedConfig \<Rightarrow> u16 \<Rightarrow> hptr \<Rightarrow> u32 \<Rightarrow> u32 \<Rightarrow> u32 \<Rightarrow> 'e machine \<Rightarrow> 'e round" where
  "ecall_round cfg i cpu debt_paid budget used M =
     (let M = (case ecall_router cfg of Some r \<Rightarrow> vm_ecall_dispatch r cpu M
               | None \<Rightarrow> upd_cpu cpu (set_a0 (- VM_ENOSYS)) M) in
      if halted (mc_cpus M cpu) then Over (clear_both i M)
      else if block_reason (mc_cpus M cpu) \<noteq> BLOCK_NONE then Over (apply_block_transition i M)
      else if used \<ge> budget then Over (pay_debt i debt_paid M)
      else Again (budget - used) M)"

definition turn_round ::
  "'e VmSchedConfig \<Rightarrow> u16 \<Rightarrow> hptr \<Rightarrow> u32 \<Rightarrow> u32 \<Rightarrow> 'e machine \<Rightarrow> 'e round" where
  "turn_round cfg i cpu debt_paid budget M =
     (let (r, used, M) = run_quantum cfg cpu budget M in
      case r of
        VM_STEP_QUANTUM_EXPIRED \<Rightarrow> expired_round cfg i cpu debt_paid used M
      | VM_STEP_ECALL \<Rightarrow> ecall_round cfg i cpu debt_paid budget used M
      | VM_STEP_HALTED \<Rightarrow> Over (clear_both i M)
      | VM_STEP_TRAPPED \<Rightarrow> Over (handle_trap cfg i M))"

partial_function (option) run_turn ::
  "'e VmSchedConfig \<Rightarrow> u16 \<Rightarrow> hptr \<Rightarrow> u32 \<Rightarrow> u32 \<Rightarrow> 'e machine \<Rightarrow> 'e machine option" where
  "run_turn cfg i cpu debt_paid budget M =
     (case turn_round cfg i cpu debt_paid budget M of
        Over M' \<Rightarrow> Some M'
      | Again budget' M' \<Rightarrow> run_turn cfg i cpu debt_paid budget' M')"

declare run_turn.simps [code]

definition vm_sched_step :: "'e VmSchedConfig \<Rightarrow> 'e machine \<Rightarrow> (VmSchedStepResult \<times> 'e machine) option" where
  "vm_sched_step cfg M =
     (let M = (case tick_source cfg of Some src \<Rightarrow> sample_tick src M | None \<Rightarrow> M);
          M = snd (wake_expired_timeouts M) in
      if sd_ready (mc_sched M) = 0 then
        if sd_blocked (mc_sched M) = 0 then Some (VM_SCHED_ALL_HALTED, M)
        else Some (VM_SCHED_IDLE, M)
      else
        case find_next_ready (sd_ready (mc_sched M)) (sd_cursor (mc_sched M)) of
          None \<Rightarrow> Some (VM_SCHED_IDLE, M)
        | Some i \<Rightarrow>
          let (budget, debt_paid) = effective_quantum cfg (mc_sched M) i in
          do { M \<leftarrow> run_turn cfg i (sd_vms (mc_sched M) i) debt_paid budget M;
               Some (VM_SCHED_RAN,
                 upd_sched (\<lambda>s. s\<lparr>sd_cursor := (i + 1) mod VM_SCHED_MAX_VMS\<rparr>) M) })"

text \<open>The idle branch of the driver.\<close>

definition idle_round :: "'e VmSchedConfig \<Rightarrow> 'e machine \<Rightarrow> 'e machine" where
  "idle_round cfg M =
     (let (delta, M) = wake_expired_timeouts M;
          M = (case idle_handler cfg of Some h \<Rightarrow> h delta M | None \<Rightarrow> default_idle_handler delta M)
      in case tick_source cfg of
           None \<Rightarrow> upd_sched (\<lambda>s. s\<lparr>global_tick := global_tick s + 1\<rparr>) M
         | Some src \<Rightarrow> sample_tick src M)"

partial_function (option) run_loop ::
  "'e VmSchedConfig \<Rightarrow> u64 \<Rightarrow> u64 \<Rightarrow> 'e machine \<Rightarrow> (bool \<times> 'e machine) option" where
  "run_loop cfg max_cycles cycles M =
     (if max_cycles = 0 \<or> cycles < max_cycles then
        case vm_sched_step cfg M of
          None \<Rightarrow> None
        | Some (r, M') \<Rightarrow>
          if r = VM_SCHED_ALL_HALTED then Some (True, M')
          else if r = VM_SCHED_IDLE
          then run_loop cfg max_cycles (cycles + 1) (idle_round cfg M')
          else run_loop cfg max_cycles (cycles + 1) M'
      else Some (False, M))"

declare run_loop.simps [code]

definition vm_sched_run :: "'e VmSchedConfig \<Rightarrow> u64 \<Rightarrow> 'e machine \<Rightarrow> (bool \<times> 'e machine) option" where
  "vm_sched_run cfg max_cycles M = run_loop cfg max_cycles 0 M"

text \<open>Header accessors; the count is the population count of the bitmap.\<close>

definition vm_sched_ready_count :: "VmSched \<Rightarrow> nat" where
  "vm_sched_ready_count s = while_bits (\<lambda>_ n. n + 1) (sd_ready s) 0"

definition vm_sched_blocked_count :: "VmSched \<Rightarrow> nat" where
  "vm_sched_blocked_count s = while_bits (\<lambda>_ n. n + 1) (sd_blocked s) 0"

definition vm_sched_debt :: "VmSched \<Rightarrow> u16 \<Rightarrow> u32" where
  "vm_sched_debt s i = (if i \<ge> VM_SCHED_MAX_VMS then 0 else sd_debt s i)"

end
