(* ===== verification/VM_Sched_Bits.thy ===== *)
theory VM_Sched_Bits
  imports VM_Sched
begin

text \<open>
  The bitmap operations of the scheduler as sets of slot numbers: what setting, clearing and
  testing do bit by bit, that the scan finds the lowest set bit and \<open>b & (b - 1)\<close> removes it, so
  that the shared loop visits the set slots in ascending order, and that \<open>find_next_ready\<close>
  picks the cyclically nearest one.
\<close>

section \<open>Single bits\<close>

lemma bit_1_shift: "bit (push_bit n 1 :: u64) k \<longleftrightarrow> k = n \<and> k < 64"
  by (auto simp: bit_simps simp del: push_bit_of_1)

lemma bit_bm_set [simp]: "bit (bm_set b i) k \<longleftrightarrow> bit b k \<or> k = unat i \<and> k < 64"
  by (auto simp: bm_set_def bit_or_iff bit_1_shift simp del: push_bit_of_1)

lemma bit_bm_clear [simp]: "bit (bm_clear b i) k \<longleftrightarrow> bit b k \<and> k \<noteq> unat i"
  by (auto simp: bm_clear_def bit_and_iff bit_not_iff bit_1_shift bit_imp_le_length
      simp del: push_bit_of_1 dest: bit_imp_le_length)

lemma bm_test_bit: "bm_test b i \<longleftrightarrow> bit b (unat i)"
proof
  assume "bm_test b i"
  then obtain k where "bit (b AND push_bit (unat i) 1) k"
    unfolding bm_test_def by (metis bit_0_eq bot_apply bit_eq_iff bot_bool_def)
  then show "bit b (unat i)" by (auto simp: bit_and_iff bit_1_shift simp del: push_bit_of_1)
next
  assume b: "bit b (unat i)"
  then have "bit (b AND push_bit (unat i) 1) (unat i)"
    using bit_imp_le_length [OF b] by (simp add: bit_and_iff bit_1_shift del: push_bit_of_1)
  then show "bm_test b i" unfolding bm_test_def by (metis bit_0_eq bot_apply bot_bool_def)
qed

lemma u64_zero_iff: "(b :: u64) = 0 \<longleftrightarrow> (\<forall>k < 64. \<not> bit b k)"
  by (auto intro!: bit_word_eqI)

lemma and_1_zero_iff: "(b :: u64) AND 1 = 0 \<longleftrightarrow> \<not> bit b 0"
  by (metis and_one_eq bit_0 even_iff_mod_2_eq_zero)

section \<open>The lowest set bit\<close>

definition lowest :: "'a::semiring_bit_operations \<Rightarrow> nat \<Rightarrow> bool" where
  "lowest b n \<longleftrightarrow> bit b n \<and> (\<forall>k < n. \<not> bit b k)"

lemma lowest_id_spec:
  "b \<noteq> 0 \<Longrightarrow> \<exists>n. lowest b n \<and> lowest_id i b = i + of_nat n"
proof (induction i b rule: lowest_id.induct)
  case (1 i b)
  show ?case
  proof (cases "b AND 1 = 0")
    case True
    then have even: "\<not> bit b 0" by (simp only: and_1_zero_iff not_False_eq_True)
    obtain k where k: "bit b k" using "1.prems" u64_zero_iff [of b] by blast
    then obtain j where "k = Suc j" using even by (cases k) auto
    then have "bit (drop_bit 1 b) j" using k by (simp add: bit_drop_bit_eq)
    then have nz: "drop_bit 1 b \<noteq> 0" by auto
    from "1.IH" [OF "1.prems" True nz] obtain n where n: "lowest (drop_bit 1 b) n"
      "lowest_id (i + 1) (drop_bit 1 b) = i + 1 + of_nat n" by blast
    have "lowest b (Suc n)"
      using n(1) even by (auto simp: lowest_def bit_drop_bit_eq less_Suc_eq_0_disj)
    moreover have "lowest_id i b = i + of_nat (Suc n)"
      using n(2) True "1.prems" by (simp add: lowest_id.simps [of i b] add.assoc)
    ultimately show ?thesis by blast
  next
    case False
    then have "bit b 0" by (simp only: and_1_zero_iff not_not)
    then have "lowest b 0" by (simp add: lowest_def)
    moreover have "lowest_id i b = i + of_nat 0" using False by (simp add: lowest_id.simps [of i b])
    ultimately show ?thesis by blast
  qed
qed

lemma nat_clear_lowest:
  "0 < (b::nat) \<Longrightarrow> bit (b AND (b - 1)) k \<longleftrightarrow> bit b k \<and> \<not> lowest b k"
proof (induction b arbitrary: k rule: less_induct)
  case (less b)
  show ?case
  proof (cases "odd b")
    case True
    have "lowest b j \<longleftrightarrow> j = 0" for j
      using True by (cases j) (simp_all add: lowest_def bit_0 All_less_Suc2)
    moreover obtain c where "b = 2 * c + 1" using True by (rule oddE)
    then have "b div 2 = c" "(b - 1) div 2 = c" "even (b - 1)" by simp_all
    ultimately show ?thesis
      unfolding bit_and_iff by (cases k) (simp_all add: bit_0 bit_Suc)
  next
    case False
    then obtain c where c: "b = 2 * c" by (auto elim: evenE)
    have "0 < c" "c < b" using less.prems c by simp_all
    have m: "(b - 1) div 2 = c - 1" "b div 2 = c" using c \<open>0 < c\<close> by simp_all
    have low: "lowest b (Suc j) \<longleftrightarrow> lowest c j" for j
      using False m(2) by (simp add: lowest_def bit_Suc bit_0 All_less_Suc2)
    show ?thesis
    proof (cases k)
      case 0
      then show ?thesis unfolding bit_and_iff using False by (simp add: bit_0)
    next
      case (Suc j)
      have "bit (b AND (b - 1)) (Suc j) \<longleftrightarrow> bit (c AND (c - 1)) j"
        unfolding bit_and_iff by (simp only: bit_Suc m)
      also have "\<dots> \<longleftrightarrow> bit b (Suc j) \<and> \<not> lowest b (Suc j)"
        using less.IH [OF \<open>c < b\<close> \<open>0 < c\<close>, of j] by (simp only: low bit_Suc m)
      finally show ?thesis unfolding Suc .
    qed
  qed
qed

lemma lowest_unat: "lowest (unat b) n \<longleftrightarrow> lowest b n"
  by (simp add: lowest_def bit_unsigned_iff)

lemma clear_lowest:
  assumes "b \<noteq> 0" shows "bit (b AND (b - 1)) k \<longleftrightarrow> bit b k \<and> \<not> lowest (b :: u64) k"
proof -
  have "unat (b AND (b - 1)) = unat b AND (unat b - 1)"
    using assms by (simp add: unsigned_and_eq unat_minus_one)
  moreover have "0 < unat b" using assms by (simp add: unat_gt_0)
  ultimately have "bit (unat (b AND (b - 1))) k \<longleftrightarrow> bit (unat b) k \<and> \<not> lowest (unat b) k"
    using nat_clear_lowest by simp
  then show ?thesis by (auto simp: lowest_unat bit_unsigned_iff dest: bit_imp_le_length)
qed

section \<open>The loop over the set bits\<close>

definition slots_of :: "u64 \<Rightarrow> u16 list" where
  "slots_of b = map of_nat (filter (bit b) [0..<64])"

lemma lowest_unique: "lowest b n \<Longrightarrow> lowest b m \<Longrightarrow> n = m"
  by (metis linorder_neqE_nat lowest_def)

lemma unat_of_nat_slot [simp]: "n < 64 \<Longrightarrow> unat (of_nat n :: u16) = n"
  by (simp add: unat_of_nat)

lemma slots_of_0 [simp]: "slots_of 0 = []"
  by (simp add: slots_of_def)

lemma slots_of_step:
  assumes "b \<noteq> 0"
  shows "slots_of b = lowest_id 0 b # slots_of (b AND (b - 1))"
proof -
  obtain n where n: "lowest b n" "lowest_id 0 b = of_nat n"
    using lowest_id_spec [OF assms, of 0] by auto
  then have bit: "bit b n" and lt: "n < 64" using bit_imp_le_length [of b n] by (auto simp: lowest_def)
  have other: "bit (b AND (b - 1)) k \<longleftrightarrow> bit b k \<and> k \<noteq> n" for k
    using clear_lowest [OF assms, of k] n(1) lowest_unique by blast
  have split: "[0..<64] = [0..<n] @ n # [Suc n..<64]"
    using lt upt_add_eq_append [of 0 n "64 - n"] by (simp add: upt_conv_Cons)
  have "filter (bit b) [0..<n] = []" using n(1) by (simp add: lowest_def filter_empty_conv)
  moreover have "filter (bit (b AND (b - 1))) [0..<n] = []"
    using n(1) by (auto simp: lowest_def filter_empty_conv other)
  moreover have "filter (bit (b AND (b - 1))) [Suc n..<64] = filter (bit b) [Suc n..<64]"
    by (rule filter_cong) (auto simp: other)
  ultimately have "filter (bit b) [0..<64] = n # filter (bit (b AND (b - 1))) [0..<64]"
    unfolding split using bit other by simp
  then show ?thesis by (simp add: slots_of_def n(2))
qed

lemma while_bits_fold: "while_bits f b s = fold f (slots_of b) s"
proof (induction f b s rule: while_bits.induct)
  case (1 f b s)
  then show ?case
    by (cases "b = 0") (simp_all add: while_bits.simps [of f b s] while_bits.simps [of f 0 s] slots_of_step)
qed

lemma set_slots_of: "i \<in> set (slots_of b) \<longleftrightarrow> bit b (unat i)"
proof
  assume "bit b (unat i)"
  then show "i \<in> set (slots_of b)"
    using bit_imp_le_length [of b "unat i"] by (auto simp: slots_of_def image_iff intro!: bexI [of _ "unat i"])
qed (auto simp: slots_of_def)

lemma distinct_slots_of: "distinct (slots_of b)"
  by (auto simp: slots_of_def distinct_map inj_on_def) (metis unat_of_nat_slot)

section \<open>The next ready slot\<close>

text \<open>How far slot \<open>i\<close> is from \<open>start\<close>, going up and around.\<close>

definition ahead :: "u16 \<Rightarrow> u16 \<Rightarrow> nat" where
  "ahead start i = (unat i + 64 - unat start) mod 64"

lemma start_plus:
  assumes "unat (start :: u16) < 64" "n < 64"
  shows "unat ((start + of_nat n) mod 64) = (unat start + n) mod 64"
proof -
  have "unat (start + of_nat n) = unat start + n"
    using assms by (simp add: unat_word_ariths unat_of_nat)
  then show ?thesis by (simp add: unat_mod)
qed

lemma ahead_of:
  assumes "unat start < 64" "n < 64"
  shows "ahead start ((start + of_nat n) mod 64) = n"
  using assms by (simp add: ahead_def start_plus) (auto simp: mod_if)

lemma at_ahead:
  assumes "unat start < 64" "unat i < 64"
  shows "(start + of_nat (ahead start i)) mod 64 = i"
proof -
  have "ahead start i < 64" by (simp add: ahead_def)
  moreover have "(unat start + ahead start i) mod 64 = unat i"
    using assms by (simp add: ahead_def mod_add_right_eq)
  ultimately show ?thesis using assms by (simp add: word_unat_eq_iff start_plus)
qed

lemma find_next_ready_nearest:
  assumes "unat start < 64"
  shows "case find_next_ready ready start of
      None \<Rightarrow> ready = 0
    | Some i \<Rightarrow> unat i < 64 \<and> bit ready (unat i) \<and>
        (\<forall>j. bit ready (unat j) \<longrightarrow> ahead start i \<le> ahead start j)"
proof (cases "ready = 0")
  case True
  then show ?thesis by (simp add: find_next_ready_def)
next
  case False
  let ?at = "\<lambda>n. (start + of_nat n) mod 64 :: u16"
  have eq: "find_next_ready ready start = find (bm_test ready) (map ?at [0..<64])"
    using False by (simp add: find_next_ready_def vm_ids_def comp_def)
  obtain k where k: "k < 64" "bit ready k" using False u64_zero_iff [of ready] by blast
  then have "bm_test ready (?at (ahead start (of_nat k)))"
    using assms by (simp add: at_ahead bm_test_bit)
  moreover have "ahead start (of_nat k) < 64" by (simp add: ahead_def)
  ultimately have "\<exists>n < 64. bm_test ready (?at n)" by blast
  then obtain i where found: "find (bm_test ready) (map ?at [0..<64]) = Some i"
    by (metis (no_types, lifting) find_None_iff2 image_eqI atLeastLessThan_iff set_map set_upt zero_le not_None_eq)
  then obtain n where n: "n < 64" "i = ?at n" "bm_test ready i" "\<forall>j < n. \<not> bm_test ready (?at j)"
    by (auto simp: find_Some_iff)
  have "ahead start i \<le> ahead start j" if "bit ready (unat j)" for j
  proof (rule ccontr)
    assume "\<not> ahead start i \<le> ahead start j"
    then have "ahead start j < n" using n(1,2) assms by (simp add: ahead_of)
    moreover have "bm_test ready (?at (ahead start j))"
      using that assms bit_imp_le_length [OF that] by (simp add: at_ahead bm_test_bit)
    ultimately show False using n(4) by blast
  qed
  moreover have "unat i < 64" using n(1,2) assms by (simp add: start_plus)
  ultimately show ?thesis using n(3) by (simp add: eq found bm_test_bit)
qed

end
