(* ===== verification/VM_Sched_Inv.thy ===== *)
theory VM_Sched_Inv
  imports VM_Sched_Bits VM_Run
begin

text \<open>
  The invariant of the scheduler's state, that every operation outside the run of a VM keeps it,
  and what waking does, slot by slot.
\<close>

section \<open>Invariant\<close>

definition registered :: "'e machine \<Rightarrow> u16 \<Rightarrow> bool" where
  "registered M i \<longleftrightarrow> sd_vms (mc_sched M) i \<noteq> 0"

definition cpu_of :: "'e machine \<Rightarrow> u16 \<Rightarrow> VmCpu" where
  "cpu_of M i = mc_cpus M (sd_vms (mc_sched M) i)"

definition is_ready :: "'e machine \<Rightarrow> u16 \<Rightarrow> bool" where
  "is_ready M i \<longleftrightarrow> bit (sd_ready (mc_sched M)) (unat i)"

definition is_blocked :: "'e machine \<Rightarrow> u16 \<Rightarrow> bool" where
  "is_blocked M i \<longleftrightarrow> bit (sd_blocked (mc_sched M)) (unat i)"

text \<open>
  No VM is both ready and blocked; only registered VMs are either; a registered VM that has not
  halted is one of them, so that none is ever lost; the slots hold distinct CPUs (each knows
  its slot), the count is the number of used slots, the cursor is a slot number.
\<close>

definition sched_inv :: "'e machine \<Rightarrow> bool" where
  "sched_inv M \<longleftrightarrow>
     (\<forall>i. \<not> (is_ready M i \<and> is_blocked M i)) \<and>
     (\<forall>i. is_ready M i \<or> is_blocked M i \<longrightarrow> registered M i) \<and>
     (\<forall>i. registered M i \<and> \<not> halted (cpu_of M i) \<longrightarrow> is_ready M i \<or> is_blocked M i) \<and>
     (\<forall>i. registered M i \<longrightarrow> unat i < 64 \<and> vm_id (cpu_of M i) = i \<and> vm_regions_ok (cpu_of M i)) \<and>
     unat (registered_count (mc_sched M)) = card {i. registered M i} \<and>
     unat (sd_cursor (mc_sched M)) < 64"

lemmas slot_views = registered_def cpu_of_def is_ready_def is_blocked_def

lemma sched_invD:
  assumes "sched_inv M"
  shows "\<not> (is_ready M i \<and> is_blocked M i)" "is_ready M i \<Longrightarrow> registered M i" "is_blocked M i \<Longrightarrow> registered M i"
    "registered M i \<Longrightarrow> \<not> halted (cpu_of M i) \<Longrightarrow> is_ready M i \<or> is_blocked M i"
    "registered M i \<Longrightarrow> unat i < 64" "registered M i \<Longrightarrow> vm_id (cpu_of M i) = i"
    "registered M i \<Longrightarrow> vm_regions_ok (cpu_of M i)"
  using assms by (auto simp: sched_inv_def)

lemma distinct_cpus:
  assumes "sched_inv M" "registered M i" "registered M j" "i \<noteq> j"
  shows "sd_vms (mc_sched M) i \<noteq> sd_vms (mc_sched M) j"
  using sched_invD(6) [OF assms(1,2)] sched_invD(6) [OF assms(1,3)] assms(4) by (auto simp: cpu_of_def)

text \<open>
  A change that leaves the registrations, the CPUs' identities and regions alone, and revives no
  halted CPU.
\<close>

definition quiet :: "'e machine \<Rightarrow> 'e machine \<Rightarrow> bool" where
  "quiet M M' \<longleftrightarrow>
     sd_vms (mc_sched M') = sd_vms (mc_sched M) \<and>
     registered_count (mc_sched M') = registered_count (mc_sched M) \<and>
     sd_cursor (mc_sched M') = sd_cursor (mc_sched M) \<and>
     (\<forall>p. vm_id (mc_cpus M' p) = vm_id (mc_cpus M p) \<and>
        (vm_regions_ok (mc_cpus M p) \<longrightarrow> vm_regions_ok (mc_cpus M' p)) \<and>
        (halted (mc_cpus M p) \<longrightarrow> halted (mc_cpus M' p)))"

lemma quiet_refl [simp]: "quiet M M"
  by (simp add: quiet_def)

lemma quiet_trans [trans]: "quiet M M' \<Longrightarrow> quiet M' M'' \<Longrightarrow> quiet M M''"
  by (simp add: quiet_def)

lemma quiet_registered: "quiet M M' \<Longrightarrow> registered M' i = registered M i"
  by (simp add: quiet_def registered_def)

lemma sched_inv_change:
  assumes inv: "sched_inv M" and q: "quiet M M'"
    and "\<And>i. \<not> (is_ready M' i \<and> is_blocked M' i)"
    and "\<And>i. is_ready M' i \<or> is_blocked M' i \<Longrightarrow> registered M i"
    and "\<And>i. registered M i \<Longrightarrow> is_ready M i \<or> is_blocked M i \<Longrightarrow> \<not> halted (cpu_of M' i) \<Longrightarrow>
        is_ready M' i \<or> is_blocked M' i"
  shows "sched_inv M'"
proof -
  note reg = quiet_registered [OF q]
  have hal: "halted (cpu_of M i) \<Longrightarrow> halted (cpu_of M' i)" for i
    using q by (auto simp: quiet_def cpu_of_def)
  have ids: "vm_id (cpu_of M' i) = vm_id (cpu_of M i)" "vm_regions_ok (cpu_of M i) \<Longrightarrow> vm_regions_ok (cpu_of M' i)" for i
    using q by (auto simp: quiet_def cpu_of_def)
  show ?thesis
    unfolding sched_inv_def reg
  proof (intro conjI allI impI)
    fix i
    show "\<not> (is_ready M' i \<and> is_blocked M' i)" by (rule assms(3))
    show "registered M i" if "is_ready M' i \<or> is_blocked M' i"
      using that by (rule assms(4))
    show "is_ready M' i \<or> is_blocked M' i" if "registered M i \<and> \<not> halted (cpu_of M' i)"
      using that hal sched_invD(4) [OF inv] assms(5) by blast
    show "unat i < 64" "vm_id (cpu_of M' i) = i" "vm_regions_ok (cpu_of M' i)" if "registered M i"
      using that sched_invD(5-7) [OF inv] ids by auto
  next
    show "unat (registered_count (mc_sched M')) = card {i. registered M i}"
      "unat (sd_cursor (mc_sched M')) < 64"
      using inv q by (auto simp: sched_inv_def quiet_def)
  qed
qed

lemma sched_inv_quiet:
  assumes inv: "sched_inv M" and "quiet M M'"
    and "\<And>i. \<not> (is_ready M' i \<and> is_blocked M' i)"
    and "\<And>i. is_ready M' i \<or> is_blocked M' i \<Longrightarrow> is_ready M i \<or> is_blocked M i"
    and "\<And>i. registered M i \<Longrightarrow> is_ready M i \<or> is_blocked M i \<Longrightarrow> \<not> halted (cpu_of M' i) \<Longrightarrow>
        is_ready M' i \<or> is_blocked M' i"
  shows "sched_inv M'"
  by (rule sched_inv_change [OF assms(1-3) _ assms(5)]) (use assms(4) sched_invD [OF inv] in blast)

section \<open>Bit updates\<close>

lemma quiet_upd_sched:
  "(\<And>s. sd_vms (f s) = sd_vms s \<and> registered_count (f s) = registered_count s \<and> sd_cursor (f s) = sd_cursor s) \<Longrightarrow>
   quiet M (upd_sched f M)"
  by (simp add: quiet_def)

lemma quiet_upd_cpu:
  "vm_id (f (mc_cpus M p)) = vm_id (mc_cpus M p) \<Longrightarrow>
   vm_regions_ok (f (mc_cpus M p)) = vm_regions_ok (mc_cpus M p) \<Longrightarrow>
   (halted (mc_cpus M p) \<Longrightarrow> halted (f (mc_cpus M p))) \<Longrightarrow> quiet M (upd_cpu p f M)"
  by (auto simp: quiet_def upd_cpu_def)

lemma unblock_simps [simp]:
  "vm_id (unblock v c) = vm_id c" "halted (unblock v c) = halted c"
  "vm_descriptors (unblock v c) = vm_descriptors c" "vm_regions_ok (unblock v c) = vm_regions_ok c"
  "block_reason (unblock v c) = BLOCK_NONE"
  by (simp_all add: unblock_def set_a0_def vm_regions_ok_def vm_descriptors_def)

lemma quiet_move_ready: "quiet M (move_ready i M)"
  unfolding move_ready_def by (rule quiet_upd_sched) simp

lemma quiet_clear_both: "quiet M (clear_both i M)"
  unfolding clear_both_def by (rule quiet_upd_sched) simp

lemma quiet_unblock: "quiet M (move_ready i (upd_cpu p (unblock v) M))"
  by (rule quiet_trans [OF quiet_upd_cpu quiet_move_ready]) simp_all

lemma child_field_simps [simp]:
  "vm_id (c\<lparr>block_child_vm := w\<rparr>) = vm_id c" "vm_regions_ok (c\<lparr>block_child_vm := w\<rparr>) = vm_regions_ok c"
  by (simp_all add: vm_regions_ok_def vm_descriptors_def)

lemma quiet_unblock_child:
  "quiet M (move_ready i (upd_cpu p (\<lambda>c. unblock v (c\<lparr>block_child_vm := w\<rparr>)) M))"
  by (rule quiet_trans [OF quiet_upd_cpu quiet_move_ready]) simp_all

lemma unat_slot_eq: "unat (j :: u16) = unat i \<longleftrightarrow> j = i"
  by (simp add: word_unat_eq_iff)

lemma move_ready_bits:
  "unat i < 64 \<Longrightarrow> is_ready (move_ready i M) j \<longleftrightarrow> is_ready M j \<or> j = i"
  "is_blocked (move_ready i M) j \<longleftrightarrow> is_blocked M j \<and> j \<noteq> i"
  by (auto simp: move_ready_def is_ready_def is_blocked_def unat_slot_eq)

lemma clear_both_bits:
  "is_ready (clear_both i M) j \<longleftrightarrow> is_ready M j \<and> j \<noteq> i"
  "is_blocked (clear_both i M) j \<longleftrightarrow> is_blocked M j \<and> j \<noteq> i"
  by (auto simp: clear_both_def is_ready_def is_blocked_def unat_slot_eq)

lemma upd_cpu_bits [simp]:
  "is_ready (upd_cpu p f M) j = is_ready M j" "is_blocked (upd_cpu p f M) j = is_blocked M j"
  "registered (upd_cpu p f M) j = registered M j"
  by (simp_all add: is_ready_def is_blocked_def registered_def)

lemma move_ready_views [simp]:
  "registered (move_ready i M) = registered M" "cpu_of (move_ready i M) = cpu_of M"
  "mc_cpus (move_ready i M) = mc_cpus M" "mc_mem (move_ready i M) = mc_mem M" "mc_ext (move_ready i M) = mc_ext M"
  by (simp_all add: move_ready_def fun_eq_iff registered_def cpu_of_def)

lemma cpu_of_upd_cpu:
  assumes "sched_inv M" "registered M i" "registered M j"
  shows "cpu_of (upd_cpu (sd_vms (mc_sched M) i) f M) j = (if j = i then f (cpu_of M i) else cpu_of M j)"
  using distinct_cpus [OF assms(1,3,2)] by (auto simp: cpu_of_def)

text \<open>Moving a blocked VM to the ready set.\<close>

lemma inv_move_ready:
  assumes inv: "sched_inv M" and b: "is_blocked M i" and q: "quiet M (move_ready i (upd_cpu p f M))"
  shows "sched_inv (move_ready i (upd_cpu p f M))"
proof (rule sched_inv_quiet [OF inv q])
  have lt: "unat i < 64" using sched_invD(3,5) [OF inv] b by blast
  note bits = move_ready_bits(1) [OF lt] move_ready_bits(2) upd_cpu_bits
  fix j
  show "\<not> (is_ready (move_ready i (upd_cpu p f M)) j \<and> is_blocked (move_ready i (upd_cpu p f M)) j)"
    using sched_invD(1) [OF inv, of j] by (auto simp: bits)
  show "is_ready M j \<or> is_blocked M j"
    if "is_ready (move_ready i (upd_cpu p f M)) j \<or> is_blocked (move_ready i (upd_cpu p f M)) j"
    using that b by (auto simp: bits)
  show "is_ready (move_ready i (upd_cpu p f M)) j \<or> is_blocked (move_ready i (upd_cpu p f M)) j"
    if "is_ready M j \<or> is_blocked M j"
    using that by (auto simp: bits)
qed

section \<open>Waking by event\<close>

lemma bm_test_blocked: "bm_test (sd_blocked (mc_sched M)) i = is_blocked M i"
  by (simp add: bm_test_bit is_blocked_def)

lemma wake_mailbox_inv: "sched_inv M \<Longrightarrow> sched_inv (snd (vm_sched_wake_mailbox M i v))"
  using inv_move_ready [OF _ _ quiet_unblock]
  by (auto simp: vm_sched_wake_mailbox_def Let_def bm_test_blocked)

lemma wake_child_inv: "sched_inv M \<Longrightarrow> sched_inv (snd (vm_sched_wake_child M i v))"
  using inv_move_ready [OF _ _ quiet_unblock_child]
  by (auto simp: vm_sched_wake_child_def Let_def bm_test_blocked)

lemma halt_inv:
  assumes inv: "sched_inv M" shows "sched_inv (vm_sched_halt M i)"
proof (cases "i \<ge> VM_SCHED_MAX_VMS \<or> sd_vms (mc_sched M) i = 0")
  case True
  then show ?thesis using inv by (auto simp: vm_sched_halt_def Let_def)
next
  case False
  let ?p = "sd_vms (mc_sched M) i"
  let ?M = "clear_both i (upd_cpu ?p (\<lambda>c. c\<lparr>halted := True\<rparr>) M)"
  have eq: "vm_sched_halt M i = ?M" using False by (simp add: vm_sched_halt_def Let_def)
  have q: "quiet M ?M"
    by (rule quiet_trans [OF quiet_upd_cpu quiet_clear_both]) (simp_all add: vm_regions_ok_def vm_descriptors_def)
  have h: "halted (cpu_of ?M i)" by (simp add: cpu_of_def clear_both_def)
  show ?thesis
    unfolding eq
    by (rule sched_inv_quiet [OF inv q]) (use h sched_invD(1) [OF inv] in \<open>auto simp: clear_both_bits\<close>)
qed

section \<open>Waking by deadline\<close>

definition decision :: "'e machine \<Rightarrow> u16 \<Rightarrow> wake_decision" where
  "decision M i = wake_decision_of (global_tick (mc_sched M)) (cpu_of M i)"

definition wakes :: "'e machine \<Rightarrow> u16 \<Rightarrow> bool" where
  "wakes M i \<longleftrightarrow> (\<exists>v. decision M i = Wake v)"

definition woken_cpu :: "'e machine \<Rightarrow> u16 \<Rightarrow> VmCpu" where
  "woken_cpu M i = (case decision M i of Wake v \<Rightarrow> unblock v (cpu_of M i) | Wait d \<Rightarrow> cpu_of M i)"

text \<open>What a pass over the slots \<open>is\<close> has done, with \<open>delta\<close> the smallest wait so far.\<close>

definition pass :: "u16 list \<Rightarrow> u32 \<times> 'e machine \<Rightarrow> u32 \<times> 'e machine \<Rightarrow> bool" where
  "pass is = (\<lambda>(delta, M) (delta', M').
     quiet M M' \<and> mc_mem M' = mc_mem M \<and> mc_ext M' = mc_ext M \<and>
     mc_sched M' = (mc_sched M)\<lparr>sd_ready := sd_ready (mc_sched M'), sd_blocked := sd_blocked (mc_sched M')\<rparr> \<and>
     (\<forall>i. is_ready M' i \<longleftrightarrow> is_ready M i \<or> i \<in> set is \<and> wakes M i) \<and>
     (\<forall>i. is_blocked M' i \<longleftrightarrow> is_blocked M i \<and> \<not> (i \<in> set is \<and> wakes M i)) \<and>
     (\<forall>i. registered M i \<longrightarrow> cpu_of M' i = (if i \<in> set is then woken_cpu M i else cpu_of M i)) \<and>
     delta' \<le> delta \<and> (\<forall>i d. i \<in> set is \<longrightarrow> decision M i = Wait (Some d) \<longrightarrow> delta' \<le> d) \<and>
     (delta' = delta \<or> (\<exists>i \<in> set is. decision M i = Wait (Some delta'))))"

lemma wake_one_pass:
  assumes inv: "sched_inv M" and b: "is_blocked M i"
  shows "pass [i] (delta, M) (wake_one i (delta, M)) \<and> sched_inv (snd (wake_one i (delta, M)))"
proof -
  have reg: "registered M i" using sched_invD(3) [OF inv b] .
  then have lt: "unat i < 64" and p: "sd_vms (mc_sched M) i \<noteq> 0"
    using sched_invD(5) [OF inv] by (auto simp: registered_def)
  show ?thesis
  proof (cases "decision M i")
    case (Wake v)
    let ?M = "move_ready i (upd_cpu (sd_vms (mc_sched M) i) (unblock v) M)"
    have eq: "wake_one i (delta, M) = (delta, ?M)"
      using Wake p by (simp add: wake_one_def Let_def decision_def cpu_of_def)
    have cpu: "cpu_of ?M j = (if j = i then unblock v (cpu_of M i) else cpu_of M j)" if "registered M j" for j
      using cpu_of_upd_cpu [OF inv reg that] by simp
    have sch: "mc_sched ?M = (mc_sched M)\<lparr>sd_ready := sd_ready (mc_sched ?M), sd_blocked := sd_blocked (mc_sched ?M)\<rparr>"
      by (simp add: move_ready_def)
    have "pass [i] (delta, M) (delta, ?M)"
      unfolding pass_def prod.case
      using quiet_unblock [of M i "sd_vms (mc_sched M) i" v] sch cpu Wake
      by (auto simp: move_ready_bits(1) [OF lt] move_ready_bits(2) wakes_def woken_cpu_def)
    then show ?thesis unfolding eq snd_conv using inv_move_ready [OF inv b quiet_unblock] by blast
  next
    case (Wait od)
    then have "snd (wake_one i (delta, M)) = M"
      using p by (cases od) (simp_all add: wake_one_def Let_def decision_def cpu_of_def)
    moreover have "fst (wake_one i (delta, M)) = (case od of None \<Rightarrow> delta | Some d \<Rightarrow> if d < delta then d else delta)"
      using Wait p by (cases od) (simp_all add: wake_one_def Let_def decision_def cpu_of_def)
    ultimately have eq: "wake_one i (delta, M) = (case od of None \<Rightarrow> delta | Some d \<Rightarrow> if d < delta then d else delta, M)"
      by (metis prod.collapse)
    show ?thesis
      unfolding eq pass_def using Wait inv
      by (cases od) (auto simp: wakes_def woken_cpu_def)
  qed
qed

lemma pass_trans:
  assumes one: "pass [i] (d, M) (d1, M1)" and rest: "pass is (d1, M1) (d2, M2)" and "i \<notin> set is"
    and reg: "\<forall>j \<in> set (i # is). registered M j"
  shows "pass (i # is) (d, M) (d2, M2)"
proof -
  note o = one [unfolded pass_def prod.case] and r = rest [unfolded pass_def prod.case]
  have reg1: "registered M1 j = registered M j" for j using o quiet_registered by blast
  have cpu1: "cpu_of M1 j = cpu_of M j" if "registered M j" "j \<noteq> i" for j using o that by simp
  obtain r1 b1 where s1: "mc_sched M1 = (mc_sched M)\<lparr>sd_ready := r1, sd_blocked := b1\<rparr>" using o by blast
  obtain r2 b2 where s2: "mc_sched M2 = (mc_sched M1)\<lparr>sd_ready := r2, sd_blocked := b2\<rparr>" using r by blast
  have tick: "global_tick (mc_sched M1) = global_tick (mc_sched M)" by (simp add: s1)
  have same: "decision M1 j = decision M j" "woken_cpu M1 j = woken_cpu M j" "wakes M1 j = wakes M j"
    if "j \<in> set is" for j
  proof -
    have c: "cpu_of M1 j = cpu_of M j" using cpu1 that assms(3) reg by auto
    show "decision M1 j = decision M j" "woken_cpu M1 j = woken_cpu M j" "wakes M1 j = wakes M j"
      unfolding decision_def woken_cpu_def wakes_def tick c by (rule refl)+
  qed
  show ?thesis
    unfolding pass_def prod.case
  proof (intro conjI allI impI)
    show "quiet M M2" using o r quiet_trans by blast
    show "mc_mem M2 = mc_mem M" "mc_ext M2 = mc_ext M" using o r by simp_all
    show "mc_sched M2 = (mc_sched M)\<lparr>sd_ready := sd_ready (mc_sched M2), sd_blocked := sd_blocked (mc_sched M2)\<rparr>"
      by (simp add: s2 s1)
    show "is_ready M2 j \<longleftrightarrow> is_ready M j \<or> j \<in> set (i # is) \<and> wakes M j" for j
      using o r same(3) [of j] by (auto simp del: not_ex)
    show "is_blocked M2 j \<longleftrightarrow> is_blocked M j \<and> \<not> (j \<in> set (i # is) \<and> wakes M j)" for j
      using o r same(3) [of j] by auto
    show "cpu_of M2 j = (if j \<in> set (i # is) then woken_cpu M j else cpu_of M j)" if "registered M j" for j
      using o r same(2) [of j] that reg1 assms(3) by auto
    have le: "d1 \<le> d" "d2 \<le> d1" using o r by blast+
    then show "d2 \<le> d" by (rule order_trans [rotated])
    show "d2 \<le> e" if "j \<in> set (i # is)" "decision M j = Wait (Some e)" for j e
    proof (cases "j = i")
      case True
      then have "d1 \<le> e" using o that(2) by simp
      then show ?thesis using le(2) by (rule order_trans [rotated])
    next
      case False
      then have "j \<in> set is" using that(1) by simp
      then show ?thesis using r that(2) same(1) by metis
    qed
    show "d2 = d \<or> (\<exists>j \<in> set (i # is). decision M j = Wait (Some d2))"
    proof (cases "d2 = d1")
      case True
      then show ?thesis using o by auto
    next
      case False
      then obtain j where "j \<in> set is" "decision M1 j = Wait (Some d2)" using r by blast
      then show ?thesis using same(1) by (metis list.set_intros(2))
    qed
  qed
qed

lemma fold_wake:
  "sched_inv M \<Longrightarrow> distinct is \<Longrightarrow> \<forall>i \<in> set is. is_blocked M i \<Longrightarrow>
   pass is (d, M) (fold wake_one is (d, M)) \<and> sched_inv (snd (fold wake_one is (d, M)))"
proof (induction "is" arbitrary: d M)
  case Nil
  then show ?case by (simp add: pass_def)
next
  case (Cons i "is")
  obtain d1 M1 where one: "wake_one i (d, M) = (d1, M1)" by (cases "wake_one i (d, M)")
  have p1: "pass [i] (d, M) (d1, M1)" and inv1: "sched_inv M1"
    using wake_one_pass [OF Cons.prems(1), of i d] Cons.prems(3) one by auto
  have "\<forall>j \<in> set is. is_blocked M1 j"
    using Cons.prems(2,3) p1 by (auto simp: pass_def)
  then have ih: "pass is (d1, M1) (fold wake_one is (d1, M1)) \<and> sched_inv (snd (fold wake_one is (d1, M1)))"
    using Cons.IH [OF inv1] Cons.prems(2) by simp
  obtain d2 M2 where r: "fold wake_one is (d1, M1) = (d2, M2)" by (cases "fold wake_one is (d1, M1)")
  have "\<forall>j \<in> set (i # is). registered M j" using sched_invD(3) [OF Cons.prems(1)] Cons.prems(3) by blast
  then have "pass (i # is) (d, M) (d2, M2)"
    using pass_trans [OF p1] ih r Cons.prems(2) by simp
  then show ?case using ih one r by simp
qed

lemma wake_expired_pass:
  assumes "sched_inv M"
  shows "pass (slots_of (sd_blocked (mc_sched M))) (UINT32_MAX, M) (wake_expired_timeouts M)"
    "sched_inv (snd (wake_expired_timeouts M))"
  using fold_wake [OF assms distinct_slots_of, of "sd_blocked (mc_sched M)" UINT32_MAX]
  by (simp_all add: wake_expired_timeouts_def while_bits_fold set_slots_of is_blocked_def)

section \<open>Registration\<close>

lemma finite_registered: "finite {i. registered M i}"
  by simp

lemma card_registered_le: "sched_inv M \<Longrightarrow> card {i. registered M i} \<le> 64"
proof -
  assume inv: "sched_inv M"
  have "{i. registered M i} \<subseteq> of_nat ` {..<64}"
  proof
    fix i assume "i \<in> {i. registered M i}"
    then have "unat i < 64" using sched_invD(5) [OF inv] by simp
    then show "i \<in> of_nat ` {..<64}" by (intro image_eqI [of _ _ "unat i"]) auto
  qed
  then show ?thesis using surj_card_le [of "{..<64::nat}" "{i. registered M i}" of_nat] by simp
qed

text \<open>A CPU the caller may register: initialised, running, not in a slot already.\<close>

definition fresh_cpu :: "'e machine \<Rightarrow> hptr \<Rightarrow> bool" where
  "fresh_cpu M p \<longleftrightarrow> p \<noteq> 0 \<and> vm_regions_ok (mc_cpus M p) \<and> (\<forall>i. sd_vms (mc_sched M) i \<noteq> p)"

lemma admit_inv:
  assumes inv: "sched_inv M" and p: "fresh_cpu M p" and free: "\<not> registered M i" and lt: "unat i < 64"
  shows "sched_inv (admit i p M)"
proof -
  let ?M = "admit i p M"
  have p0: "p \<noteq> 0" using p by (simp add: fresh_cpu_def)
  have reg: "registered ?M j \<longleftrightarrow> registered M j \<or> j = i" for j
    using p0 by (simp add: registered_def admit_def)
  have cpu: "cpu_of ?M j = (if j = i then (mc_cpus M p)\<lparr>vm_id := i\<rparr> else cpu_of M j)" for j
    using p by (auto simp: cpu_of_def admit_def upd_cpu_def fresh_cpu_def)
  have rd: "is_ready ?M j \<longleftrightarrow> is_ready M j \<or> j = i" "is_blocked ?M j = is_blocked M j" for j
    using lt by (auto simp: is_ready_def is_blocked_def admit_def unat_slot_eq)
  have no: "\<not> is_ready M i" "\<not> is_blocked M i" using sched_invD(2,3) [OF inv] free by blast+
  have "{j. registered ?M j} = insert i {j. registered M j}" using reg by auto
  then have card: "card {j. registered ?M j} = Suc (card {j. registered M j})" using free by simp
  have "unat (registered_count (mc_sched M)) = card {j. registered M j}" using inv by (simp add: sched_inv_def)
  then have "unat (registered_count (mc_sched M) + 1) = Suc (card {j. registered M j})"
    using card_registered_le [OF inv] by (simp add: unat_word_ariths)
  then have count: "unat (registered_count (mc_sched ?M)) = card {j. registered ?M j}"
    using card by (simp add: admit_def)
  have "vm_regions_ok ((mc_cpus M p)\<lparr>vm_id := i\<rparr>)"
    using p by (simp add: fresh_cpu_def vm_regions_ok_def vm_descriptors_def)
  moreover have "unat (sd_cursor (mc_sched ?M)) < 64" using inv by (simp add: admit_def sched_inv_def)
  ultimately show ?thesis
    using no count sched_invD [OF inv] lt unfolding sched_inv_def reg cpu rd by auto
qed

lemma register_inv:
  assumes "sched_inv M" "cpu = 0 \<or> fresh_cpu M cpu"
  shows "sched_inv (snd (vm_sched_register M cpu))"
proof (cases "find (\<lambda>i. sd_vms (mc_sched M) i = 0) vm_ids")
  case (Some i)
  then have "sd_vms (mc_sched M) i = 0" "i \<in> set vm_ids" by (auto simp: find_Some_iff)
  moreover from this(2) have "unat i < 64" by (auto simp: vm_ids_def)
  ultimately show ?thesis
    using assms admit_inv [OF assms(1), of cpu i] Some by (auto simp: vm_sched_register_def registered_def)
qed (use assms in \<open>simp add: vm_sched_register_def\<close>)

lemma register_at_inv:
  assumes "sched_inv M" "cpu = 0 \<or> fresh_cpu M cpu"
  shows "sched_inv (snd (vm_sched_register_at M cpu i))"
  using assms admit_inv [OF assms(1), of cpu i]
  by (auto simp: vm_sched_register_at_def registered_def not_le word_less_nat_alt)

lemma unregister_inv:
  assumes inv: "sched_inv M" shows "sched_inv (vm_sched_unregister M i)"
proof (cases "i \<ge> VM_SCHED_MAX_VMS \<or> sd_vms (mc_sched M) i = 0")
  case True
  then show ?thesis using inv by (auto simp: vm_sched_unregister_def)
next
  case False
  let ?M = "vm_sched_unregister M i"
  have eqs: "sd_vms (mc_sched ?M) = (sd_vms (mc_sched M))(i := 0)" "mc_cpus ?M = mc_cpus M"
    "sd_ready (mc_sched ?M) = bm_clear (sd_ready (mc_sched M)) i"
    "sd_blocked (mc_sched ?M) = bm_clear (sd_blocked (mc_sched M)) i"
    "sd_cursor (mc_sched ?M) = sd_cursor (mc_sched M)"
    "registered_count (mc_sched ?M) = (if registered_count (mc_sched M) > 0
       then registered_count (mc_sched M) - 1 else registered_count (mc_sched M))"
    using False by (simp_all add: vm_sched_unregister_def)
  have reg: "registered ?M j \<longleftrightarrow> registered M j \<and> j \<noteq> i" for j by (simp add: registered_def eqs)
  have cpu: "cpu_of ?M j = cpu_of M j" if "j \<noteq> i" for j using that by (simp add: cpu_of_def eqs)
  have bits: "is_ready ?M j \<longleftrightarrow> is_ready M j \<and> j \<noteq> i" "is_blocked ?M j \<longleftrightarrow> is_blocked M j \<and> j \<noteq> i" for j
    by (auto simp: is_ready_def is_blocked_def eqs unat_slot_eq)
  have i: "registered M i" using False by (simp add: registered_def)
  have "{j. registered ?M j} = {j. registered M j} - {i}" using reg by auto
  then have card: "card {j. registered ?M j} = card {j. registered M j} - 1" using i by simp
  have n: "unat (registered_count (mc_sched M)) = card {j. registered M j}" using inv by (simp add: sched_inv_def)
  moreover have "0 < card {j. registered M j}" using i by (auto simp: card_gt_0_iff)
  ultimately have "registered_count (mc_sched M) > 0" by (simp add: word_less_nat_alt)
  then have count: "unat (registered_count (mc_sched ?M)) = card {j. registered ?M j}"
    using n card by (simp add: eqs unat_minus_one word_gt_0)
  have "unat (sd_cursor (mc_sched ?M)) < 64" using inv by (simp add: eqs sched_inv_def)
  moreover note d = sched_invD [OF inv]
  ultimately show ?thesis
    unfolding sched_inv_def reg bits
  proof (intro conjI allI impI)
    fix j assume live: "(registered M j \<and> j \<noteq> i) \<and> \<not> halted (cpu_of ?M j)"
    then have "cpu_of ?M j = cpu_of M j" using cpu by blast
    then have "is_ready M j \<or> is_blocked M j" using d(4) [of j] live by metis
    then show "is_ready M j \<and> j \<noteq> i \<or> is_blocked M j \<and> j \<noteq> i" using live by blast
  next
    show "unat (registered_count (mc_sched ?M)) = card {j. registered M j \<and> j \<noteq> i}" using count reg by simp
  qed (use d cpu in auto)
qed

end
