(* ===== verification/VM_Sched_Step.thy ===== *)
theory VM_Sched_Step
  imports VM_Sched_Inv
begin

text \<open>
  The scheduling step: what one \<open>vm_step\<close> contributes to it, that the invariant survives a
  whole turn whatever the guest does, and that a turn ends.
\<close>

section \<open>One run of a VM, as the scheduler sees it\<close>

text \<open>An ECALL that retired nothing still moved the program counter up.\<close>

lemma fetch_in_bounds:
  assumes "fetch_instruction c m = (True, c', insn, n)"
  shows "unat (snd (xlat_pick c (pc c))) + 2 \<le> unat (r_length (fst (xlat_pick c (pc c))))"
proof -
  obtain r off where p: "xlat_pick c (pc c) = (r, off)" by (cases "xlat_pick c (pc c)")
  have "\<not> (r_length r = 0 \<or> off > r_length r \<or> 2 > r_length r - off)"
    using assms p by (auto simp: fetch_instruction_def xlat_read_def split: if_splits)
  then show ?thesis using in_bounds_unat [of "r_length r" off 2] p by simp
qed

lemma top_half_pick:
  assumes "7 * 2 ^ 29 \<le> unat a"
  shows "xlat_pick c a = (l2_shared c, a AND 0x1FFFFFFF)" "unat (a AND 0x1FFFFFFF) = unat a - 7 * 2 ^ 29"
proof -
  have lt: "unat a < 2 ^ 32" using unsigned_less [of a, where 'a = nat] by simp
  have "unat (drop_bit 30 a) = unat a div 2 ^ 30" by (simp add: drop_bit_eq_div unat_div)
  also have "\<dots> = 3" using assms lt by simp
  finally have top: "drop_bit 30 a = 3" by (simp add: word_unat_eq_iff)
  have "unat a div 2 ^ 29 = 7" using assms lt by simp
  then have "bit (unat a) 29" by (simp add: bit_iff_odd)
  then have "bit a 29" by (simp add: bit_unsigned_iff)
  moreover have "(0x20000000 :: u32) = push_bit 29 1" by simp
  ultimately have "bit (a AND 0x20000000) 29" by (simp add: bit_and_iff bit_push_bit_iff del: push_bit_of_1)
  then have "a AND 0x20000000 \<noteq> 0" by auto
  then show "xlat_pick c a = (l2_shared c, a AND 0x1FFFFFFF)" by (simp add: xlat_pick_def top)
  have "a AND 0x1FFFFFFF = take_bit 29 a" by (simp add: take_bit_eq_mask mask_eq_exp_minus_1)
  then have "unat (a AND 0x1FFFFFFF) = take_bit 29 (unat a)" by (simp only: unsigned_take_bit_eq)
  also have "\<dots> = unat a mod 2 ^ 29" by (rule take_bit_eq_mod)
  also have "\<dots> = unat a - 7 * 2 ^ 29" using assms lt by (simp add: mod_if)
  finally show "unat (a AND 0x1FFFFFFF) = unat a - 7 * 2 ^ 29" .
qed

lemma ecall_pc_advances:
  assumes "vm_step c m b = (VM_STEP_ECALL, 0, c', m')" and "vm_regions_ok c"
    and l2: "unat (r_length (l2_shared c)) + 4 \<le> 2 ^ 29"
  shows "unat (pc c) < unat (pc c')"
proof -
  let ?c = "clear_trap c"
  have ok: "vm_regions_ok ?c" using assms(2) by simp
  obtain e k d q where l: "vm_step_loop 0 b ?c m = (e, k, d, q)" by (metis prod_cases4)
  have nh: "\<not> e" "k = 0" "trap_cause d = TRAP_ECALL" "pc c' = pc d"
    using assms(1) l by (auto simp: vm_step_def split: if_splits)
  obtain s c2 m2 where s: "step_once ?c m = (s, c2, m2)" by (metis prod_cases3)
  have "\<not> s"
  proof
    assume "s"
    then have "vm_step_loop 1 b c2 m2 = (e, k, d, q)"
      using l s nh(1) by (simp add: vm_step_loop.simps [of 0] split: if_splits)
    moreover have "vm_regions_ok c2"
      using step_once_spec [OF ok, of m] s ok same_host_fields_reach [of ?c c2] by (simp add: step_spec_def)
    ultimately have "unat (1::u32) \<le> unat k"
      using vm_step_loop_spec [of c2 1 b m2] by (simp add: loop_spec_def)
    then show False using nh(2) by simp
  qed
  then have d: "d = c2" using l s nh(1) by (simp add: vm_step_loop.simps [of 0] split: if_splits)
  then have adv: "pc d \<in> {pc c + 2, pc c + 4}"
    using step_once_spec [OF ok, of m] s \<open>\<not> s\<close> nh(3) by (simp add: step_spec_def)
  obtain f c3 insn n where f: "fetch_instruction ?c m = (f, c3, insn, n)" by (metis prod_cases4)
  have f
  proof (rule ccontr)
    assume "\<not> f"
    then have "trap_cause c2 = trap_cause c3" using s f by (auto simp: step_once_def)
    then show False using fetch_result [OF f ok] \<open>\<not> f\<close> nh(3) d by auto
  qed
  then have bound: "unat (snd (xlat_pick ?c (pc c))) + 2 \<le> unat (r_length (fst (xlat_pick ?c (pc c))))"
    using fetch_in_bounds [of ?c m c3 insn n] f by simp
  have "unat (pc c) + 4 < 2 ^ 32"
  proof (cases "7 * 2 ^ 29 \<le> unat (pc c)")
    case True
    have "l2_shared ?c = l2_shared c" by (simp add: clear_trap_def)
    then have "unat (pc c) - 7 * 2 ^ 29 + 2 \<le> unat (r_length (l2_shared c))"
      using bound top_half_pick(1) [OF True, of ?c] top_half_pick(2) [OF True] by simp
    then show ?thesis using l2 True by simp
  qed simp
  then have "unat (pc c + 2) = unat (pc c) + 2" "unat (pc c + 4) = unat (pc c) + 4"
    by (simp_all add: unat_word_ariths)
  then show ?thesis using adv nh(4) by auto
qed

section \<open>The invariant through a turn\<close>

text \<open>
  What the host's callbacks owe the scheduler: an ECALL handler, a trap handler and an idle
  handler keep the invariant, and the first two leave the calling VM in its slot.
\<close>

definition host_keeps_inv :: "'e VmSchedConfig \<Rightarrow> bool" where
  "host_keeps_inv cfg \<longleftrightarrow>
     (\<forall>r M i. ecall_router cfg = Some r \<longrightarrow> sched_inv M \<longrightarrow> registered M i \<longrightarrow>
        (let M' = vm_ecall_dispatch r (sd_vms (mc_sched M) i) M in
         sched_inv M' \<and> sd_vms (mc_sched M') i = sd_vms (mc_sched M) i)) \<and>
     (\<forall>h M i. trap_handler cfg = Some h \<longrightarrow> sched_inv M \<longrightarrow> registered M i \<longrightarrow>
        (let M' = snd (h (sd_vms (mc_sched M) i) M) in
         sched_inv M' \<and> sd_vms (mc_sched M') i = sd_vms (mc_sched M) i)) \<and>
     (\<forall>h M d. idle_handler cfg = Some h \<longrightarrow> sched_inv M \<longrightarrow> sched_inv (h d M))"

lemma inv_same_bits:
  assumes "sched_inv M" "quiet M M'" "\<And>i. is_ready M' i = is_ready M i" "\<And>i. is_blocked M' i = is_blocked M i"
  shows "sched_inv M'"
  using sched_inv_quiet [OF assms(1,2)] sched_invD(1) [OF assms(1)] assms(3,4) by simp

lemma inv_clear_both:
  assumes "sched_inv M" "\<not> registered M i \<or> halted (cpu_of M i)"
  shows "sched_inv (clear_both i M)"
proof (rule sched_inv_quiet [OF assms(1) quiet_clear_both])
  fix j
  show "\<not> (is_ready (clear_both i M) j \<and> is_blocked (clear_both i M) j)"
    using sched_invD(1) [OF assms(1), of j] by (auto simp: clear_both_bits)
  show "is_ready (clear_both i M) j \<or> is_blocked (clear_both i M) j"
    if "registered M j" "is_ready M j \<or> is_blocked M j" "\<not> halted (cpu_of (clear_both i M) j)"
    using that assms(2) by (auto simp: clear_both_bits) (auto simp: cpu_of_def clear_both_def)
qed (auto simp: clear_both_bits)

lemma sample_tick_view:
  "quiet M (sample_tick src M)" "is_ready (sample_tick src M) i = is_ready M i"
  "is_blocked (sample_tick src M) i = is_blocked M i" "mc_cpus (sample_tick src M) = mc_cpus M"
  "mc_mem (sample_tick src M) = mc_mem M" "sd_vms (mc_sched (sample_tick src M)) = sd_vms (mc_sched M)"
  "sd_critical (mc_sched (sample_tick src M)) = sd_critical (mc_sched M)"
  "sd_debt (mc_sched (sample_tick src M)) = sd_debt (mc_sched M)"
  "sd_cursor (mc_sched (sample_tick src M)) = sd_cursor (mc_sched M)"
  "sd_ready (mc_sched (sample_tick src M)) = sd_ready (mc_sched M)"
  "sd_blocked (mc_sched (sample_tick src M)) = sd_blocked (mc_sched M)"
  by (simp_all add: sample_tick_def quiet_def is_ready_def is_blocked_def split: prod.split)

lemma inv_sample_tick: "sched_inv M \<Longrightarrow> sched_inv (sample_tick src M)"
  by (rule inv_same_bits) (simp_all add: sample_tick_view)

lemma run_quantum_view:
  assumes "run_quantum cfg p b M = (r, n, M')" and "vm_regions_ok (mc_cpus M p)"
  obtains c' where "vm_step (mc_cpus M p) (mc_mem M) b = (r, n, c', mc_mem M')"
    "mc_cpus M' = (mc_cpus M)(p := c')" "quiet M M'"
    "sd_ready (mc_sched M') = sd_ready (mc_sched M)" "sd_blocked (mc_sched M') = sd_blocked (mc_sched M)"
    "sd_critical (mc_sched M') = sd_critical (mc_sched M)" "sd_debt (mc_sched M') = sd_debt (mc_sched M)"
proof -
  obtain r0 n0 c m where s: "vm_step (mc_cpus M p) (mc_mem M) b = (r0, n0, c, m)" by (metis prod_cases4)
  note v = vm_step_view [OF assms(2) s]
  have "quiet M (upd_cpu p (\<lambda>_. c) M)" using v(1-3) assms(2) by (intro quiet_upd_cpu) auto
  then have q: "quiet M M'" and rest: "r0 = r" "n0 = n" "mc_mem M' = m" "mc_cpus M' = (mc_cpus M)(p := c)"
    "sd_ready (mc_sched M') = sd_ready (mc_sched M)" "sd_blocked (mc_sched M') = sd_blocked (mc_sched M)"
    "sd_critical (mc_sched M') = sd_critical (mc_sched M)" "sd_debt (mc_sched M') = sd_debt (mc_sched M)"
    using assms(1) s
    by (auto simp: run_quantum_def Let_def quiet_def upd_cpu_def upd_sched_def sample_tick_def
        split: option.splits prod.splits)
  show thesis by (rule that [OF _ rest(4) q rest(5-8)]) (use s rest(1-3) in simp)
qed

lemma run_quantum_inv:
  assumes "run_quantum cfg (sd_vms (mc_sched M) i) b M = (r, n, M')" "sched_inv M" "registered M i"
  shows "sched_inv M'" "sd_vms (mc_sched M') = sd_vms (mc_sched M)" "r = VM_STEP_HALTED \<Longrightarrow> halted (cpu_of M' i)"
    "is_ready M' j = is_ready M j" "is_blocked M' j = is_blocked M j"
proof -
  have ok: "vm_regions_ok (mc_cpus M (sd_vms (mc_sched M) i))"
    using sched_invD(7) [OF assms(2,3)] by (simp add: cpu_of_def)
  obtain c' where v: "vm_step (mc_cpus M (sd_vms (mc_sched M) i)) (mc_mem M) b = (r, n, c', mc_mem M')"
    "mc_cpus M' = (mc_cpus M)(sd_vms (mc_sched M) i := c')" "quiet M M'"
    "sd_ready (mc_sched M') = sd_ready (mc_sched M)" "sd_blocked (mc_sched M') = sd_blocked (mc_sched M)"
    using run_quantum_view [OF assms(1) ok] .
  show "sd_vms (mc_sched M') = sd_vms (mc_sched M)" using v(3) by (simp add: quiet_def)
  then show "r = VM_STEP_HALTED \<Longrightarrow> halted (cpu_of M' i)"
    using vm_step_view(7) [OF ok v(1)] v(2) by (simp add: cpu_of_def)
  show "is_ready M' j = is_ready M j" "is_blocked M' j = is_blocked M j" for j
    using v(4,5) by (simp_all add: is_ready_def is_blocked_def)
  then show "sched_inv M'" by (intro inv_same_bits [OF assms(2) v(3)])
qed

definition round_inv :: "u16 \<Rightarrow> hptr \<Rightarrow> 'e round \<Rightarrow> bool" where
  "round_inv i p rd \<longleftrightarrow> (case rd of Again b M \<Rightarrow> sched_inv M \<and> sd_vms (mc_sched M) i = p | Over M \<Rightarrow> sched_inv M)"

lemma quiet_fields:
  "quiet M (upd_sched (\<lambda>s. s\<lparr>sd_critical := f s\<rparr>) M)" "quiet M (upd_sched (\<lambda>s. s\<lparr>sd_debt := f s\<rparr>) M)"
  "quiet M (pay_debt i d M)" "quiet M (upd_sched (\<lambda>s. s\<lparr>trapped_vms := t s\<rparr>) M)"
  by (simp_all add: quiet_def pay_debt_def)

lemma bits_fields [simp]:
  "is_ready (upd_sched (\<lambda>s. s\<lparr>sd_critical := f s\<rparr>) M) j = is_ready M j"
  "is_blocked (upd_sched (\<lambda>s. s\<lparr>sd_critical := f s\<rparr>) M) j = is_blocked M j"
  "is_ready (upd_sched (\<lambda>s. s\<lparr>sd_debt := f s\<rparr>) M) j = is_ready M j"
  "is_blocked (upd_sched (\<lambda>s. s\<lparr>sd_debt := f s\<rparr>) M) j = is_blocked M j"
  "is_ready (pay_debt i d M) j = is_ready M j" "is_blocked (pay_debt i d M) j = is_blocked M j"
  "is_ready (upd_sched (\<lambda>s. s\<lparr>trapped_vms := t s\<rparr>) M) j = is_ready M j"
  "is_blocked (upd_sched (\<lambda>s. s\<lparr>trapped_vms := t s\<rparr>) M) j = is_blocked M j"
  by (simp_all add: is_ready_def is_blocked_def pay_debt_def)

lemmas inv_fields = inv_same_bits [OF _ quiet_fields(1)] inv_same_bits [OF _ quiet_fields(2)]
  inv_same_bits [OF _ quiet_fields(3)] inv_same_bits [OF _ quiet_fields(4)]

lemma inv_halt_cpu:
  assumes "sched_inv M" and "\<And>c. vm_id (f c) = vm_id c" "\<And>c. vm_regions_ok (f c) = vm_regions_ok c" "\<And>c. halted (f c)"
  shows "sched_inv (upd_cpu p f M)"
  by (rule inv_same_bits [OF assms(1) quiet_upd_cpu]) (simp_all add: assms(2-4))

lemma halted_field [simp]:
  "vm_regions_ok (c\<lparr>halted := h\<rparr>) = vm_regions_ok c" "vm_regions_ok (c\<lparr>halted := h, trap_cause := t\<rparr>) = vm_regions_ok c"
  "vm_regions_ok (c\<lparr>trap_cause := t, trap_pc := x, trap_addr := y, trap_insn := z\<rparr>) = vm_regions_ok c"
  "vm_regions_ok (c\<lparr>trap_cause := t\<rparr>) = vm_regions_ok c" "vm_regions_ok (set_a0 v c) = vm_regions_ok c"
  "vm_id (set_a0 v c) = vm_id c" "halted (set_a0 v c) = halted c"
  by (simp_all add: vm_regions_ok_def vm_descriptors_def set_a0_def)

lemma expired_round_inv:
  assumes inv: "sched_inv M" and reg: "registered M i" and p: "sd_vms (mc_sched M) i = p"
  shows "round_inv i p (expired_round cfg i p d n M)"
proof (cases "in_critical (mc_cpus M p)")
  case False
  then show ?thesis using inv by (simp add: expired_round_def round_inv_def inv_fields)
next
  case crit: True
  let ?M = "upd_sched (\<lambda>s. s\<lparr>sd_critical := (sd_critical s)(i := sd_critical s i + n)\<rparr>) M"
  have inv': "sched_inv ?M" by (rule inv_fields(1) [OF inv]) simp_all
  show ?thesis
  proof (cases "sd_critical (mc_sched ?M) i > max_critical_overrun cfg")
    case False
    have "sched_inv (upd_sched (\<lambda>s. s\<lparr>sd_debt := (sd_debt s)(i := sd_debt s i + n)\<rparr>) ?M)"
      by (rule inv_fields(2) [OF inv']) simp_all
    then show ?thesis using crit False p unfolding expired_round_def Let_def round_inv_def by simp
  next
    case True
    let ?H = "upd_cpu p (\<lambda>c. c\<lparr>halted := True, trap_cause := TRAP_HALT\<rparr>) ?M"
    have h: "sched_inv ?H" by (rule inv_halt_cpu [OF inv']) simp_all
    have hal: "halted (cpu_of ?H i)" using p by (simp add: cpu_of_def)
    have "sched_inv (upd_sched (\<lambda>s. s\<lparr>sd_ready := bm_clear (sd_ready s) i,
        sd_critical := (sd_critical s)(i := 0), sd_debt := (sd_debt s)(i := 0)\<rparr>) ?H)" (is "sched_inv ?R")
    proof (rule sched_inv_quiet [OF h])
      have bits: "is_ready ?R j \<longleftrightarrow> is_ready ?H j \<and> j \<noteq> i" "is_blocked ?R j = is_blocked ?H j" for j
        by (auto simp: is_ready_def is_blocked_def unat_slot_eq)
      show "quiet ?H ?R" by (simp add: quiet_def)
      fix j
      show "\<not> (is_ready ?R j \<and> is_blocked ?R j)" using sched_invD(1) [OF h] bits by blast
      show "is_ready ?H j \<or> is_blocked ?H j" if "is_ready ?R j \<or> is_blocked ?R j" using that bits by blast
      show "is_ready ?R j \<or> is_blocked ?R j"
        if "is_ready ?H j \<or> is_blocked ?H j" "\<not> halted (cpu_of ?R j)"
        using that hal bits by (cases "j = i") (auto simp: cpu_of_def)
    qed
    then show ?thesis using crit True unfolding expired_round_def Let_def round_inv_def by simp
  qed
qed

lemma apply_block_inv:
  assumes inv: "sched_inv M" shows "sched_inv (apply_block_transition i M)"
proof (cases "registered M i \<and> block_reason (cpu_of M i) \<noteq> BLOCK_NONE")
  case True
  let ?M = "upd_sched (\<lambda>s. s\<lparr>sd_ready := bm_clear (sd_ready s) i, sd_blocked := bm_set (sd_blocked s) i\<rparr>) M"
  have lt: "unat i < 64" using sched_invD(5) [OF inv] True by blast
  have bits: "is_ready ?M j \<longleftrightarrow> is_ready M j \<and> j \<noteq> i" "is_blocked ?M j \<longleftrightarrow> is_blocked M j \<or> j = i" for j
    using lt by (auto simp: is_ready_def is_blocked_def unat_slot_eq)
  have "sched_inv ?M"
    by (rule sched_inv_change [OF inv])
      (use True sched_invD(1-3) [OF inv] in \<open>auto simp: bits quiet_def\<close>)
  then show ?thesis using True by (simp add: apply_block_transition_def Let_def cpu_of_def registered_def)
qed (use inv in \<open>auto simp: apply_block_transition_def Let_def cpu_of_def registered_def\<close>)

lemma ecall_round_inv:
  assumes inv: "sched_inv M" and host: "host_keeps_inv cfg" and reg: "registered M i"
    and p: "sd_vms (mc_sched M) i = p"
  shows "round_inv i p (ecall_round cfg i p d b n M)"
proof -
  define M1 where "M1 = (case ecall_router cfg of Some r \<Rightarrow> vm_ecall_dispatch r p M
     | None \<Rightarrow> upd_cpu p (set_a0 (- VM_ENOSYS)) M)"
  have M1: "sched_inv M1" "sd_vms (mc_sched M1) i = p"
  proof (atomize (full), cases "ecall_router cfg")
    case None
    have "sched_inv (upd_cpu p (set_a0 (- VM_ENOSYS)) M)"
      by (rule inv_same_bits [OF inv quiet_upd_cpu]) simp_all
    then show "sched_inv M1 \<and> sd_vms (mc_sched M1) i = p" using None p by (simp add: M1_def)
  next
    case (Some r)
    then show "sched_inv M1 \<and> sd_vms (mc_sched M1) i = p"
      using host inv reg p by (auto simp: host_keeps_inv_def M1_def Let_def)
  qed
  have "halted (mc_cpus M1 p) \<Longrightarrow> sched_inv (clear_both i M1)"
    using M1 by (intro inv_clear_both) (simp_all add: cpu_of_def)
  moreover have "sched_inv (pay_debt i d M1)" by (rule inv_fields(3) [OF M1(1)]) simp_all
  ultimately show ?thesis
    using M1 apply_block_inv [OF M1(1), of i]
    unfolding ecall_round_def M1_def [symmetric] Let_def round_inv_def by simp
qed

lemma handle_trap_inv:
  assumes inv: "sched_inv M" and host: "host_keeps_inv cfg"
  shows "sched_inv (handle_trap cfg i M)"
proof (cases "registered M i")
  case False
  then show ?thesis using inv by (simp add: handle_trap_def registered_def)
next
  case reg: True
  let ?p = "sd_vms (mc_sched M) i"
  obtain act M1 where h: "(case trap_handler cfg of Some h \<Rightarrow> h ?p M | None \<Rightarrow> default_trap_handler ?p M) = (act, M1)"
    by (cases "(case trap_handler cfg of Some h \<Rightarrow> h ?p M | None \<Rightarrow> default_trap_handler ?p M)")
  have "sched_inv M1 \<and> sd_vms (mc_sched M1) i = ?p"
  proof (cases "trap_handler cfg")
    case None
    then show ?thesis using h inv by (simp add: default_trap_handler_def)
  next
    case (Some f)
    then have "snd (f ?p M) = M1" using h by simp
    then show ?thesis using host inv reg Some unfolding host_keeps_inv_def Let_def by blast
  qed
  then have M1: "sched_inv M1" "sd_vms (mc_sched M1) i = ?p" by simp_all
  have kill: "sched_inv (clear_both i (upd_cpu ?p (\<lambda>c. c\<lparr>halted := True\<rparr>) N))"
    if "sched_inv N" "sd_vms (mc_sched N) i = ?p" for N
    using that by (intro inv_clear_both inv_halt_cpu) (simp_all add: cpu_of_def)
  have "sched_inv (upd_cpu ?p (\<lambda>c. c\<lparr>trap_cause := TRAP_NONE, trap_pc := 0, trap_addr := 0, trap_insn := 0\<rparr>) M1)"
    by (rule inv_same_bits [OF M1(1) quiet_upd_cpu]) simp_all
  moreover have "sched_inv (clear_both i (upd_cpu ?p (\<lambda>c. c\<lparr>halted := True\<rparr>) M1))" by (rule kill [OF M1])
  moreover have "sched_inv (clear_both i (upd_cpu ?p (\<lambda>c. c\<lparr>halted := True\<rparr>)
      (upd_sched (\<lambda>s. s\<lparr>trapped_vms := trapped_vms s + 1\<rparr>) M1)))"
    by (rule kill) (simp_all add: M1 inv_fields(4))
  ultimately show ?thesis
    using reg unfolding handle_trap_def Let_def h
    by (simp add: registered_def split: VmTrapAction.split)
qed

lemma turn_round_inv:
  assumes inv: "sched_inv M" and host: "host_keeps_inv cfg" and reg: "registered M i"
    and p: "sd_vms (mc_sched M) i = p"
  shows "round_inv i p (turn_round cfg i p d b M)"
proof -
  obtain r n M1 where q: "run_quantum cfg p b M = (r, n, M1)" by (metis prod_cases3)
  note v = run_quantum_inv [OF q [folded p] inv reg]
  have reg1: "registered M1 i" and p1: "sd_vms (mc_sched M1) i = p" using reg v(2) p by (simp_all add: registered_def)
  have "r = VM_STEP_HALTED \<Longrightarrow> sched_inv (clear_both i M1)" using v(1,3) by (intro inv_clear_both) auto
  then show ?thesis
    unfolding turn_round_def q Let_def prod.case
    using expired_round_inv [OF v(1) reg1 p1] ecall_round_inv [OF v(1) host reg1 p1] handle_trap_inv [OF v(1) host]
    by (cases r) (simp_all add: round_inv_def)
qed

lemma run_turn_inv:
  assumes "run_turn cfg i p d b M = Some M'"
  shows "host_keeps_inv cfg \<Longrightarrow> p \<noteq> 0 \<Longrightarrow> sched_inv M \<Longrightarrow> sd_vms (mc_sched M) i = p \<Longrightarrow> sched_inv M'"
proof (rule run_turn.raw_induct [where P = "\<lambda>cfg i p d b M M'. host_keeps_inv cfg \<longrightarrow> p \<noteq> 0 \<longrightarrow>
    sched_inv M \<longrightarrow> sd_vms (mc_sched M) i = p \<longrightarrow> sched_inv M'", OF _ assms, rule_format])
  fix rec :: "'a VmSchedConfig \<Rightarrow> u16 \<Rightarrow> hptr \<Rightarrow> u32 \<Rightarrow> u32 \<Rightarrow> 'a machine \<Rightarrow> 'a machine option"
    and cfg i p d b M M'
  assume IH: "\<And>cfg i p d b M M'. rec cfg i p d b M = Some M' \<Longrightarrow> host_keeps_inv cfg \<Longrightarrow> p \<noteq> 0 \<Longrightarrow>
      sched_inv M \<Longrightarrow> sd_vms (mc_sched M) i = p \<Longrightarrow> sched_inv M'"
    and step: "(case turn_round cfg i p d b M of Again b' N \<Rightarrow> rec cfg i p d b' N | Over N \<Rightarrow> Some N) = Some M'"
    and pre: "host_keeps_inv cfg" "p \<noteq> 0" "sched_inv M" "sd_vms (mc_sched M) i = p"
  have "round_inv i p (turn_round cfg i p d b M)"
    using turn_round_inv [OF pre(3,1) _ pre(4)] pre(2,4) by (simp add: registered_def)
  then show "sched_inv M'" using step IH pre by (auto simp: round_inv_def split: round.splits)
qed

lemma next_ready_registered:
  assumes "sched_inv M" "find_next_ready (sd_ready (mc_sched M)) (sd_cursor (mc_sched M)) = Some i"
  shows "is_ready M i" "registered M i" "unat i < 64"
proof -
  have "unat (sd_cursor (mc_sched M)) < 64" using assms(1) by (simp add: sched_inv_def)
  from find_next_ready_nearest [OF this, of "sd_ready (mc_sched M)"] assms(2)
  show "is_ready M i" "unat i < 64" by (simp_all add: is_ready_def)
  then show "registered M i" using sched_invD(2) [OF assms(1)] by blast
qed

text \<open>The machine a step works on once it has sampled the clock and woken what is due.\<close>

definition step_start :: "'e VmSchedConfig \<Rightarrow> 'e machine \<Rightarrow> 'e machine" where
  "step_start cfg M =
     snd (wake_expired_timeouts (case tick_source cfg of Some src \<Rightarrow> sample_tick src M | None \<Rightarrow> M))"

lemma step_start_inv: "sched_inv M \<Longrightarrow> sched_inv (step_start cfg M)"
  by (auto simp: step_start_def inv_sample_tick wake_expired_pass(2) split: option.split)

lemma vm_sched_step_unfold:
  "vm_sched_step cfg M = (let M = step_start cfg M in
     if sd_ready (mc_sched M) = 0 then
        if sd_blocked (mc_sched M) = 0 then Some (VM_SCHED_ALL_HALTED, M) else Some (VM_SCHED_IDLE, M)
      else
        case find_next_ready (sd_ready (mc_sched M)) (sd_cursor (mc_sched M)) of
          None \<Rightarrow> Some (VM_SCHED_IDLE, M)
        | Some i \<Rightarrow>
          let (budget, debt_paid) = effective_quantum cfg (mc_sched M) i in
          do { M \<leftarrow> run_turn cfg i (sd_vms (mc_sched M) i) debt_paid budget M;
               Some (VM_SCHED_RAN, upd_sched (\<lambda>s. s\<lparr>sd_cursor := (i + 1) mod VM_SCHED_MAX_VMS\<rparr>) M) })"
  by (simp add: vm_sched_step_def step_start_def Let_def)

lemma set_cursor_inv:
  "sched_inv M \<Longrightarrow> unat c < 64 \<Longrightarrow> sched_inv (upd_sched (\<lambda>s. s\<lparr>sd_cursor := c\<rparr>) M)"
  by (simp add: sched_inv_def slot_views)

lemma sched_step_inv:
  assumes "sched_inv M" "host_keeps_inv cfg" "vm_sched_step cfg M = Some (r, M')"
  shows "sched_inv M'"
proof -
  let ?S = "step_start cfg M"
  have inv: "sched_inv ?S" by (rule step_start_inv [OF assms(1)])
  show ?thesis
  proof (cases "sd_ready (mc_sched ?S) = 0")
    case True
    then show ?thesis using assms(3) inv by (auto simp: vm_sched_step_unfold Let_def split: if_splits)
  next
    case False
    show ?thesis
    proof (cases "find_next_ready (sd_ready (mc_sched ?S)) (sd_cursor (mc_sched ?S))")
      case None
      then show ?thesis using assms(3) False inv by (simp add: vm_sched_step_unfold Let_def)
    next
      case (Some i)
      obtain b d where q: "effective_quantum cfg (mc_sched ?S) i = (b, d)" by (cases "effective_quantum cfg (mc_sched ?S) i")
      then obtain N where t: "run_turn cfg i (sd_vms (mc_sched ?S) i) d b ?S = Some N"
        and M': "M' = upd_sched (\<lambda>s. s\<lparr>sd_cursor := (i + 1) mod VM_SCHED_MAX_VMS\<rparr>) N"
        using assms(3) False Some by (auto simp: vm_sched_step_unfold Let_def bind_eq_Some_conv)
      have "sched_inv N"
        using run_turn_inv [OF t assms(2) _ inv] next_ready_registered [OF inv Some] by (simp add: registered_def)
      moreover have "unat ((i + 1) mod VM_SCHED_MAX_VMS) < 64" by (simp add: unat_mod)
      ultimately show ?thesis unfolding M' by (rule set_cursor_inv)
    qed
  qed
qed

section \<open>A turn ends\<close>

text \<open>
  What an ECALL handler leaves alone for the VM that called it: its program counter (the core
  has already moved it past the ECALL), its regions, and the scheduler's count of its
  current critical section.
\<close>

definition host_steady :: "'e VmSchedConfig \<Rightarrow> u16 \<Rightarrow> hptr \<Rightarrow> bool" where
  "host_steady cfg i p \<longleftrightarrow> (\<forall>r M. ecall_router cfg = Some r \<longrightarrow>
     (let M' = vm_ecall_dispatch r p M in
      pc (mc_cpus M' p) = pc (mc_cpus M p) \<and> l2_shared (mc_cpus M' p) = l2_shared (mc_cpus M p) \<and>
      (vm_regions_ok (mc_cpus M p) \<longrightarrow> vm_regions_ok (mc_cpus M' p)) \<and>
      sd_critical (mc_sched M') i = sd_critical (mc_sched M) i))"

text \<open>The state of a turn between two runs, and how far it is from its end.\<close>

definition turn_ok :: "'e VmSchedConfig \<Rightarrow> u16 \<Rightarrow> hptr \<Rightarrow> u32 \<Rightarrow> 'e machine \<Rightarrow> bool" where
  "turn_ok cfg i p b M \<longleftrightarrow> vm_regions_ok (mc_cpus M p) \<and>
     unat (r_length (l2_shared (mc_cpus M p))) + 4 \<le> 2 ^ 29 \<and>
     0 < b \<and> b \<le> baseline_quantum cfg \<and> sd_critical (mc_sched M) i \<le> max_critical_overrun cfg"

definition turn_rank :: "'e VmSchedConfig \<Rightarrow> u16 \<Rightarrow> hptr \<Rightarrow> u32 \<times> 'e machine \<Rightarrow> nat \<times> nat \<times> nat" where
  "turn_rank cfg i p = (\<lambda>(b, M).
     (unat (max_critical_overrun cfg) - unat (sd_critical (mc_sched M) i), unat b, 2 ^ 32 - unat (pc (mc_cpus M p))))"

abbreviation lex3 :: "((nat \<times> nat \<times> nat) \<times> (nat \<times> nat \<times> nat)) set" where
  "lex3 \<equiv> less_than <*lex*> less_than <*lex*> less_than"

lemma turn_round_descends:
  assumes ok: "turn_ok cfg i p b M" and cap: "unat (max_critical_overrun cfg) + unat (baseline_quantum cfg) < 2 ^ 32"
    and host: "host_steady cfg i p" and again: "turn_round cfg i p d b M = Again b' M'"
  shows "turn_ok cfg i p b' M' \<and> (turn_rank cfg i p (b', M'), turn_rank cfg i p (b, M)) \<in> lex3"
proof -
  obtain r n M1 where q: "run_quantum cfg p b M = (r, n, M1)" by (metis prod_cases3)
  have reg: "vm_regions_ok (mc_cpus M p)" and l2: "unat (r_length (l2_shared (mc_cpus M p))) + 4 \<le> 2 ^ 29"
    and b: "0 < b" "b \<le> baseline_quantum cfg" and c: "sd_critical (mc_sched M) i \<le> max_critical_overrun cfg"
    using ok by (simp_all add: turn_ok_def)
  obtain c' where s: "vm_step (mc_cpus M p) (mc_mem M) b = (r, n, c', mc_mem M1)"
    and v: "mc_cpus M1 = (mc_cpus M)(p := c')" "sd_critical (mc_sched M1) = sd_critical (mc_sched M)"
    using run_quantum_view [OF q reg] by metis
  have view: "vm_regions_ok c'" "l2_shared c' = l2_shared (mc_cpus M p)"
    "r = VM_STEP_QUANTUM_EXPIRED \<Longrightarrow> n = b" "r = VM_STEP_ECALL \<Longrightarrow> n < b"
    using vm_step_view [OF reg s] by blast+
  consider (expired) "r = VM_STEP_QUANTUM_EXPIRED" "expired_round cfg i p d n M1 = Again b' M'"
    | (ecall) "r = VM_STEP_ECALL" "ecall_round cfg i p d b n M1 = Again b' M'"
    using again q by (cases r) (auto simp: turn_round_def)
  then show ?thesis
  proof cases
    case expired
    let ?k = "sd_critical (mc_sched M) i"
    have n: "n = b" using view(3) expired(1) by simp
    have res: "b' = baseline_quantum cfg" "sd_critical (mc_sched M') i = ?k + b"
      "mc_cpus M' p = c'" "\<not> ?k + b > max_critical_overrun cfg"
      using expired(2) v n by (auto simp: expired_round_def Let_def split: if_splits)
    have "unat b \<le> unat (baseline_quantum cfg)" "unat ?k \<le> unat (max_critical_overrun cfg)"
      using b(2) c by (simp_all add: word_le_nat_alt)
    then have sum: "unat (?k + b) = unat ?k + unat b" using cap by (simp add: unat_word_ariths)
    have "0 < unat b" using b(1) by (simp add: word_less_nat_alt)
    moreover have "unat ?k + unat b \<le> unat (max_critical_overrun cfg)"
      using res(4) sum by (simp add: not_less word_le_nat_alt)
    ultimately have "unat (max_critical_overrun cfg) - unat (sd_critical (mc_sched M') i) <
        unat (max_critical_overrun cfg) - unat ?k" using res(2) sum by simp
    moreover have "turn_ok cfg i p b' M'"
      using res view(1,2) l2 b by (auto simp: turn_ok_def not_less)
    ultimately show ?thesis by (simp add: turn_rank_def)
  next
    case ecall
    have lt: "n < b" using view(4) ecall(1) by simp
    let ?N = "(case ecall_router cfg of Some r \<Rightarrow> vm_ecall_dispatch r p M1 | None \<Rightarrow> upd_cpu p (set_a0 (- VM_ENOSYS)) M1)"
    have res: "b' = b - n" "M' = ?N"
      using ecall(2) by (auto simp: ecall_round_def Let_def split: if_splits)
    have keep: "pc (mc_cpus ?N p) = pc c'" "l2_shared (mc_cpus ?N p) = l2_shared c'" "vm_regions_ok (mc_cpus ?N p)"
      "sd_critical (mc_sched ?N) i = sd_critical (mc_sched M) i"
      using host v view(1) by (cases "ecall_router cfg"; auto simp: host_steady_def Let_def set_a0_def
          vm_regions_ok_def vm_descriptors_def)+
    have bn: "unat b' = unat b - unat n" using lt by (simp add: res(1) unat_sub less_imp_le)
    have ok': "turn_ok cfg i p b' M'"
    proof -
      have "0 < b'" using bn lt by (simp add: word_less_nat_alt)
      moreover have "b' \<le> b" using bn by (simp add: word_le_nat_alt)
      ultimately show ?thesis using keep view(2) l2 b(2) c by (auto simp: turn_ok_def res(2))
    qed
    show ?thesis
    proof (cases "n = 0")
      case True
      then have "unat (pc (mc_cpus M p)) < unat (pc c')"
        using ecall_pc_advances [of "mc_cpus M p" "mc_mem M" b c' "mc_mem M1"] s ecall(1) reg l2 by simp
      then show ?thesis
        using ok' keep bn True unsigned_less [of "pc c'", where 'a = nat] by (simp add: turn_rank_def res(2))
    next
      case False
      then have "0 < unat n" by (simp add: unat_gt_0)
      then have "unat b' < unat b" using bn lt by (simp add: word_less_nat_alt)
      then show ?thesis using ok' keep by (simp add: turn_rank_def res(2))
    qed
  qed
qed

lemma wf_lex3: "wf lex3"
  by (intro wf_lex_prod wf_less_than)

lemma run_turn_returns:
  assumes "turn_ok cfg i p b M" and cap: "unat (max_critical_overrun cfg) + unat (baseline_quantum cfg) < 2 ^ 32"
    and host: "host_steady cfg i p"
  shows "\<exists>M'. run_turn cfg i p d b M = Some M'"
  using assms(1)
proof (induction x \<equiv> "turn_rank cfg i p (b, M)" arbitrary: b M rule: wf_induct_rule [OF wf_lex3])
  case (1 b M)
  show ?case
  proof (cases "turn_round cfg i p d b M")
    case (Over N)
    then show ?thesis by (simp add: run_turn.simps [of cfg i p d b M])
  next
    case (Again b' N)
    from turn_round_descends [OF 1(2) cap host Again] have "\<exists>M'. run_turn cfg i p d b' N = Some M'"
      using 1(1) by blast
    then show ?thesis using Again by (simp add: run_turn.simps [of cfg i p d b M])
  qed
qed

end
