(* ===== verification/VM_Sched_Correct.thy ===== *)
theory VM_Sched_Correct
  imports VM_Sched_Step
begin

text \<open>
  The scheduler keeps its invariant over initialisation, wake-ups, idle rounds and whole runs;
  a step returns under conditions on the configured handlers; the round robin reaches every
  ready VM; and a wake-up pass does what the decision function says. \<open>VM_Sched_Wake\<close> writes the
  last out in numbers, and \<open>VM_System_Reach\<close> discharges the handler conditions for the
  handlers the system installs.
\<close>

section \<open>Invariant\<close>

lemma sched_init_inv:
  "sched_inv \<lparr>mc_sched = fst (vm_sched_init cfg), mc_cpus = cpus, mc_mem = m, mc_ext = e\<rparr>"
proof -
  have "fst (vm_sched_init cfg) = zero_sched" by (simp add: vm_sched_init_def Let_def)
  then show ?thesis by (simp add: sched_inv_def slot_views zero_sched_def)
qed

lemma frame_wake_one_inv:
  assumes "sched_inv M" "is_blocked M i"
  shows "sched_inv (snd (frame_wake_one k i (n, M))) \<and>
    (\<forall>j. is_blocked M j \<longrightarrow> j \<noteq> i \<longrightarrow> is_blocked (snd (frame_wake_one k i (n, M))) j)"
  using assms inv_move_ready [OF assms quiet_unblock]
  by (simp add: frame_wake_one_def Let_def move_ready_bits(2))

lemma fold_frame_wake_inv:
  "sched_inv M \<Longrightarrow> distinct is \<Longrightarrow> \<forall>i \<in> set is. is_blocked M i \<Longrightarrow>
   sched_inv (snd (fold (frame_wake_one k) is (n, M)))"
proof (induction "is" arbitrary: n M)
  case (Cons i "is")
  obtain n1 M1 where one: "frame_wake_one k i (n, M) = (n1, M1)" by (cases "frame_wake_one k i (n, M)")
  have "sched_inv M1" "\<forall>j. is_blocked M j \<longrightarrow> j \<noteq> i \<longrightarrow> is_blocked M1 j"
    using frame_wake_one_inv [OF Cons.prems(1), of i k n] Cons.prems(3) one by auto
  moreover from this have "\<forall>j \<in> set is. is_blocked M1 j" using Cons.prems(2,3) by auto
  ultimately show ?case using Cons.IH [of M1 n1] Cons.prems(2) one by simp
qed simp

lemma wake_frame_inv: "sched_inv M \<Longrightarrow> sched_inv (snd (vm_sched_wake_frame_consumed M k))"
  unfolding vm_sched_wake_frame_consumed_def while_bits_fold
  by (rule fold_frame_wake_inv [OF _ distinct_slots_of]) (simp_all add: set_slots_of is_blocked_def)

lemma idle_round_inv:
  assumes "sched_inv M" "host_keeps_inv cfg" shows "sched_inv (idle_round cfg M)"
proof -
  obtain d N where w: "wake_expired_timeouts M = (d, N)" by (cases "wake_expired_timeouts M")
  then have N: "sched_inv N" using wake_expired_pass(2) [OF assms(1)] by simp
  define N' where "N' = (case idle_handler cfg of Some h \<Rightarrow> h d N | None \<Rightarrow> default_idle_handler d N)"
  have N': "sched_inv N'"
    using N assms(2) by (auto simp: N'_def host_keeps_inv_def default_idle_handler_def split: option.split)
  have "sched_inv (upd_sched (\<lambda>s. s\<lparr>global_tick := global_tick s + 1\<rparr>) N')"
    by (rule inv_same_bits [OF N']) (simp_all add: quiet_def is_ready_def is_blocked_def)
  then show ?thesis
    using inv_sample_tick [OF N'] unfolding idle_round_def w Let_def prod.case N'_def [symmetric]
    by (simp split: option.split)
qed

lemma sched_run_inv:
  assumes "run_loop cfg k n M = Some (b, M')"
  shows "host_keeps_inv cfg \<Longrightarrow> sched_inv M \<Longrightarrow> sched_inv M'"
proof (rule run_loop.raw_induct [where P = "\<lambda>cfg k n M r. host_keeps_inv cfg \<longrightarrow> sched_inv M \<longrightarrow> sched_inv (snd r)",
    OF _ assms, rule_format, unfolded snd_conv])
  fix rec :: "'a VmSchedConfig \<Rightarrow> u64 \<Rightarrow> u64 \<Rightarrow> 'a machine \<Rightarrow> (bool \<times> 'a machine) option" and cfg k n M and r :: "bool \<times> 'a machine"
  assume IH: "\<And>cfg k n M r. rec cfg k n M = Some r \<Longrightarrow> host_keeps_inv cfg \<Longrightarrow> sched_inv M \<Longrightarrow> sched_inv (snd r)"
    and step: "(if k = 0 \<or> n < k then
        case vm_sched_step cfg M of None \<Rightarrow> None
        | Some (r, M') \<Rightarrow>
          if r = VM_SCHED_ALL_HALTED then Some (True, M')
          else if r = VM_SCHED_IDLE then rec cfg k (n + 1) (idle_round cfg M') else rec cfg k (n + 1) M'
      else Some (False, M)) = Some r"
    and host: "host_keeps_inv cfg" and inv: "sched_inv M"
  show "sched_inv (snd r)"
  proof (cases "vm_sched_step cfg M")
    case None
    then show ?thesis using step inv by (auto split: if_splits)
  next
    case (Some a)
    obtain q M1 where a: "a = (q, M1)" by (cases a)
    then have "sched_inv M1" using sched_step_inv [OF inv host] Some by blast
    then show ?thesis
      using step Some a inv IH [OF _ host] idle_round_inv [OF _ host] by (auto split: if_splits)
  qed
qed

text \<open>A machine of one VM, the demonstration guest at address 1 in slot 3.\<close>

definition demo_sched_config :: "unit VmSchedConfig" where
  "demo_sched_config = snd (vm_sched_init (Some (zero_config\<lparr>baseline_quantum := 10\<rparr>)))"

definition demo_machine :: "unit machine" where
  "demo_machine = \<lparr>mc_sched = zero_sched, mc_cpus = (\<lambda>_. demo_cpu), mc_mem = demo_mem, mc_ext = ()\<rparr>"

definition demo_loaded :: "unit machine" where
  "demo_loaded = snd (vm_sched_register_at demo_machine 1 3)"

lemma demo_machine_inv: "sched_inv demo_machine"
  by (simp add: demo_machine_def sched_inv_def slot_views zero_sched_def)

lemma demo_fresh: "fresh_cpu demo_machine 1"
  using demo_regions_ok by (simp add: fresh_cpu_def demo_machine_def zero_sched_def)

section \<open>A step returns\<close>

lemma step_start_view:
  assumes "sched_inv M"
  shows "registered (step_start cfg M) i = registered M i"
    "sd_critical (mc_sched (step_start cfg M)) = sd_critical (mc_sched M)"
    "sd_debt (mc_sched (step_start cfg M)) = sd_debt (mc_sched M)"
    "sd_cursor (mc_sched (step_start cfg M)) = sd_cursor (mc_sched M)"
    "registered M i \<Longrightarrow> l2_shared (cpu_of (step_start cfg M) i) = l2_shared (cpu_of M i)"
proof -
  define N where "N = (case tick_source cfg of Some src \<Rightarrow> sample_tick src M | None \<Rightarrow> M)"
  have N: "sched_inv N" "sd_vms (mc_sched N) = sd_vms (mc_sched M)" "mc_cpus N = mc_cpus M"
    "sd_critical (mc_sched N) = sd_critical (mc_sched M)" "sd_debt (mc_sched N) = sd_debt (mc_sched M)"
    "sd_cursor (mc_sched N) = sd_cursor (mc_sched M)"
    using assms by (auto simp: N_def sample_tick_view inv_sample_tick split: option.split)
  obtain d S where w: "wake_expired_timeouts N = (d, S)" by (cases "wake_expired_timeouts N")
  have S: "step_start cfg M = S" using w by (simp add: step_start_def N_def)
  note pass = wake_expired_pass(1) [OF N(1), unfolded w pass_def prod.case]
  obtain x y where s: "mc_sched S = (mc_sched N)\<lparr>sd_ready := x, sd_blocked := y\<rparr>" using pass by blast
  have cpu: "registered N i \<Longrightarrow> l2_shared (cpu_of S i) = l2_shared (cpu_of N i)"
    using pass by (auto simp: woken_cpu_def unblock_def set_a0_def split: wake_decision.split if_splits)
  have "registered N i = registered M i" "cpu_of N i = cpu_of M i" using N(2,3) by (simp_all add: registered_def cpu_of_def)
  then show "registered (step_start cfg M) i = registered M i"
    "sd_critical (mc_sched (step_start cfg M)) = sd_critical (mc_sched M)"
    "sd_debt (mc_sched (step_start cfg M)) = sd_debt (mc_sched M)"
    "sd_cursor (mc_sched (step_start cfg M)) = sd_cursor (mc_sched M)"
    "registered M i \<Longrightarrow> l2_shared (cpu_of (step_start cfg M) i) = l2_shared (cpu_of M i)"
    using cpu N(2,4-6) unfolding S by (simp_all add: s registered_def)
qed

lemma quantum_bounds:
  assumes "effective_quantum cfg s i = (b, d)"
  shows "unat b + unat d = unat (baseline_quantum cfg)" "unat d \<le> unat (baseline_quantum cfg) div 2"
    "d \<le> sd_debt s i" "d = sd_debt s i \<or> unat d = unat (baseline_quantum cfg) div 2"
    "0 < baseline_quantum cfg \<Longrightarrow> 0 < b"
proof -
  let ?base = "baseline_quantum cfg"
  have half: "unat (?base div 2) = unat ?base div 2" by (simp add: unat_div)
  have d: "d = (if sd_debt s i < ?base div 2 then sd_debt s i else ?base div 2)" "b = ?base - d"
    using assms by (auto simp: effective_quantum_def Let_def)
  then show le: "unat d \<le> unat ?base div 2" "d \<le> sd_debt s i" "d = sd_debt s i \<or> unat d = unat ?base div 2"
    using half by (auto simp: word_less_nat_alt word_le_nat_alt)
  then have "d \<le> ?base" by (simp add: word_le_nat_alt)
  then show sum: "unat b + unat d = unat ?base" using d(2) by (simp add: unat_sub word_le_nat_alt)
  show "0 < b" if "0 < ?base"
  proof -
    have "0 < unat ?base" using that by (simp add: word_less_nat_alt)
    then have "0 < unat b" using sum le(1) by linarith
    then show ?thesis by (simp add: word_less_nat_alt)
  qed
qed

text \<open>
  A scheduling step always returns, even with a guest that loops for ever inside a critical
  section or makes nothing but ECALLs: the critical-section cap, the budget and the program
  counter bound the turn. The hypotheses are a non-zero baseline (\<open>vm_sched_init\<close> sees to it), a
  cap whose sum with a quantum fits in 32 bits, L2 regions short of 512 MB, and handlers that
  leave the caller's program counter, regions and critical-section count alone.
\<close>

lemma sched_step_returns:
  assumes "sched_inv M" and "0 < baseline_quantum cfg"
    and "unat (max_critical_overrun cfg) + unat (baseline_quantum cfg) < 2 ^ 32"
    and "\<And>i p. host_steady cfg i p"
    and "\<And>i. registered M i \<Longrightarrow> unat (r_length (l2_shared (cpu_of M i))) + 4 \<le> 2 ^ 29 \<and>
      sd_critical (mc_sched M) i \<le> max_critical_overrun cfg"
  shows "\<exists>r M'. vm_sched_step cfg M = Some (r, M')"
proof -
  let ?S = "step_start cfg M"
  have inv: "sched_inv ?S" by (rule step_start_inv [OF assms(1)])
  show ?thesis
  proof (cases "find_next_ready (sd_ready (mc_sched ?S)) (sd_cursor (mc_sched ?S))")
    case None
    then show ?thesis by (simp add: vm_sched_step_unfold Let_def)
  next
    case (Some i)
    note r = next_ready_registered [OF inv Some]
    have reg: "registered M i" using r(2) step_start_view(1) [OF assms(1)] by simp
    obtain b d where q: "effective_quantum cfg (mc_sched ?S) i = (b, d)" by (cases "effective_quantum cfg (mc_sched ?S) i")
    have "b \<le> baseline_quantum cfg" using quantum_bounds(1) [OF q] by (simp add: word_le_nat_alt)
    then have "turn_ok cfg i (sd_vms (mc_sched ?S) i) b ?S"
      using assms(2,5) quantum_bounds(5) [OF q] reg sched_invD(7) [OF inv r(2)]
        step_start_view(2) [OF assms(1), where cfg = cfg] step_start_view(5) [OF assms(1) reg, where cfg = cfg]
      by (simp add: turn_ok_def flip: cpu_of_def)
    then obtain N where "run_turn cfg i (sd_vms (mc_sched ?S) i) d b ?S = Some N"
      using run_turn_returns [OF _ assms(3,4)] by blast
    then show ?thesis using Some q by (auto simp: vm_sched_step_unfold Let_def)
  qed
qed

lemma demo_loaded_inv: "sched_inv demo_loaded"
  unfolding demo_loaded_def by (rule register_at_inv [OF demo_machine_inv], rule disjI2, rule demo_fresh)

section \<open>Round robin\<close>

lemma cyclic_nearer:
  assumes "c < 64" "i < 64" "v < (64::nat)" "v \<noteq> i" "(i + 64 - c) mod 64 \<le> (v + 64 - c) mod 64"
  shows "(v + 64 - (i + 1) mod 64) mod 64 < (v + 64 - c) mod 64"
proof -
  have wrap: "(x + 64 - y) mod 64 = (if y \<le> x then x - y else x + 64 - y)" if "x < 64" "y < 64" for x y :: nat
    using that by (auto simp: mod_if)
  note a = wrap [OF assms(2,1)] wrap [OF assms(3,1)]
  have le: "(if c \<le> i then i - c else i + 64 - c) \<le> (if c \<le> v then v - c else v + 64 - c)"
    using assms(5) unfolding a .
  show ?thesis
  proof (cases "i = 63")
    case True
    then have "(v + 64 - (i + 1) mod 64) mod 64 = v" using assms(3) by simp
    then show ?thesis unfolding a using le True assms(1-4) by (simp split: if_splits)
  next
    case False
    then have n: "(i + 1) mod 64 = i + 1" and lt: "i + 1 < 64" using assms(2) by simp_all
    show ?thesis unfolding n wrap [OF assms(3) lt] a using le assms(1-4) by (simp split: if_splits) arith+
  qed
qed

text \<open>
  C19. Fairness: when a step runs a VM it is the ready one nearest to the cursor, going up and
  around, and the cursor moves just past it. A ready VM that was not chosen is then strictly
  nearer to the cursor than before, so it runs after at most 63 other turns, whatever the
  others do with theirs.
\<close>

theorem round_robin_progress:
  assumes "sched_inv M" and "vm_sched_step cfg M = Some (VM_SCHED_RAN, M')"
  shows "\<exists>i. is_ready (step_start cfg M) i \<and>
    (\<exists>N. run_turn cfg i (sd_vms (mc_sched (step_start cfg M)) i)
        (snd (effective_quantum cfg (mc_sched (step_start cfg M)) i))
        (fst (effective_quantum cfg (mc_sched (step_start cfg M)) i)) (step_start cfg M) = Some N \<and>
      M' = upd_sched (\<lambda>s. s\<lparr>sd_cursor := (i + 1) mod 64\<rparr>) N) \<and>
    (\<forall>v. is_ready (step_start cfg M) v \<longrightarrow> v \<noteq> i \<longrightarrow>
       ahead (sd_cursor (mc_sched M')) v < ahead (sd_cursor (mc_sched M)) v)"
proof -
  let ?S = "step_start cfg M"
  have inv: "sched_inv ?S" by (rule step_start_inv [OF assms(1)])
  obtain i where i: "find_next_ready (sd_ready (mc_sched ?S)) (sd_cursor (mc_sched ?S)) = Some i"
    using assms(2) by (auto simp: vm_sched_step_unfold Let_def split: if_splits option.splits)
  obtain b d where q: "effective_quantum cfg (mc_sched ?S) i = (b, d)" by (cases "effective_quantum cfg (mc_sched ?S) i")
  obtain N where N: "run_turn cfg i (sd_vms (mc_sched ?S) i) d b ?S = Some N"
    "M' = upd_sched (\<lambda>s. s\<lparr>sd_cursor := (i + 1) mod 64\<rparr>) N"
    using assms(2) i q by (auto simp: vm_sched_step_unfold Let_def bind_eq_Some_conv split: if_splits)
  have c: "sd_cursor (mc_sched ?S) = sd_cursor (mc_sched M)" "unat (sd_cursor (mc_sched M)) < 64"
    using step_start_view(4) [OF assms(1)] assms(1) by (auto simp: sched_inv_def)
  note r = next_ready_registered [OF inv i]
  have near: "ahead (sd_cursor (mc_sched M)) i \<le> ahead (sd_cursor (mc_sched M)) v" if "is_ready ?S v" for v
    using find_next_ready_nearest [OF c(2), of "sd_ready (mc_sched ?S)"] i that c(1) by (simp add: is_ready_def)
  have "ahead (sd_cursor (mc_sched M')) v < ahead (sd_cursor (mc_sched M)) v" if v: "is_ready ?S v" "v \<noteq> i" for v
  proof -
    have lt: "unat v < 64" using sched_invD(2,5) [OF inv] v(1) by blast
    have "unat v \<noteq> unat i" using v(2) by (simp add: word_unat_eq_iff)
    moreover have "unat (sd_cursor (mc_sched M')) = (unat i + 1) mod 64"
      using r(3) by (simp add: N(2) unat_mod unat_word_ariths)
    ultimately show ?thesis
      using near [OF v(1)] cyclic_nearer [OF c(2) r(3) lt] unfolding ahead_def by simp
  qed
  then show ?thesis using r(1) N q by auto
qed

lemma demo_step_ran: "map_option fst (vm_sched_step demo_sched_config demo_loaded) = Some VM_SCHED_RAN"
  by code_simp

theorem round_robin_progress_witness:
  "\<exists>M'. vm_sched_step demo_sched_config demo_loaded = Some (VM_SCHED_RAN, M') \<and>
     (\<exists>i. is_ready (step_start demo_sched_config demo_loaded) i)"
proof -
  obtain M' where s: "vm_sched_step demo_sched_config demo_loaded = Some (VM_SCHED_RAN, M')"
    using demo_step_ran by auto
  from round_robin_progress [OF demo_loaded_inv s] s show ?thesis by blast
qed

section \<open>Waking on time\<close>

text \<open>
  What a wake-up pass does in terms of the code's decision function: it wakes exactly the blocked VMs whose reason says so
  (a yield always, a sleep or a receive whose deadline is reached, with \<open>-ETIMEDOUT\<close> for the
  receive), puts the result in their \<open>a0\<close>, clears their block and moves them to the ready set; all
  other VMs, the memory and the counters stay as they are. It returns the least remaining
  wait among those left, or \<open>UINT32_MAX\<close>.
\<close>

lemma wake_pass_exact:
  assumes "sched_inv M" and "wake_expired_timeouts M = (delta, M')"
  shows "(\<forall>i. if is_blocked M i
      then (case wake_decision_of (global_tick (mc_sched M)) (cpu_of M i) of
          Wake v \<Rightarrow> is_ready M' i \<and> \<not> is_blocked M' i \<and> cpu_of M' i = unblock v (cpu_of M i)
        | Wait d \<Rightarrow> is_blocked M' i \<and> \<not> is_ready M' i \<and> cpu_of M' i = cpu_of M i)
      else is_ready M' i = is_ready M i \<and> \<not> is_blocked M' i \<and>
        (if registered M i then cpu_of M' i = cpu_of M i else True)) \<and>
    mc_mem M' = mc_mem M \<and> mc_ext M' = mc_ext M \<and>
    mc_sched M' = (mc_sched M)\<lparr>sd_ready := sd_ready (mc_sched M'), sd_blocked := sd_blocked (mc_sched M')\<rparr> \<and>
    delta = Min (insert UINT32_MAX
      {d. \<exists>i. is_blocked M i \<and> wake_decision_of (global_tick (mc_sched M)) (cpu_of M i) = Wait (Some d)})"
proof -
  let ?dec = "\<lambda>i. wake_decision_of (global_tick (mc_sched M)) (cpu_of M i)"
  have mem: "i \<in> set (slots_of (sd_blocked (mc_sched M))) \<longleftrightarrow> is_blocked M i" for i
    by (simp add: set_slots_of is_blocked_def)
  note p = wake_expired_pass(1) [OF assms(1), unfolded assms(2) pass_def prod.case mem decision_def woken_cpu_def wakes_def]
  have slot: "if is_blocked M i
      then (case ?dec i of
          Wake v \<Rightarrow> is_ready M' i \<and> \<not> is_blocked M' i \<and> cpu_of M' i = unblock v (cpu_of M i)
        | Wait d \<Rightarrow> is_blocked M' i \<and> \<not> is_ready M' i \<and> cpu_of M' i = cpu_of M i)
      else is_ready M' i = is_ready M i \<and> \<not> is_blocked M' i \<and>
        (if registered M i then cpu_of M' i = cpu_of M i else True)" for i
  proof (cases "is_blocked M i")
    case True
    then have "registered M i" "\<not> is_ready M i" using sched_invD(1,3) [OF assms(1)] by blast+
    then show ?thesis using p True by (cases "?dec i") auto
  next
    case False
    then show ?thesis using p by auto
  qed
  let ?D = "{d. \<exists>i. is_blocked M i \<and> ?dec i = Wait (Some d)}"
  have fin: "finite (insert UINT32_MAX ?D)" by simp
  have mem_d: "delta \<in> insert UINT32_MAX ?D" using p mem by auto
  have le: "\<And>i d. is_blocked M i \<Longrightarrow> ?dec i = Wait (Some d) \<Longrightarrow> delta \<le> d" and top: "delta \<le> UINT32_MAX"
    using p by blast+
  have "delta = Min (insert UINT32_MAX ?D)"
    by (rule Min_eqI [OF fin _ mem_d, symmetric]) (use le top in auto)
  then show ?thesis using slot p by blast
qed

text \<open>The demonstration VM asleep until tick 5, at tick 7.\<close>

definition demo_sleeping :: "unit machine" where
  "demo_sleeping = demo_loaded\<lparr>
     mc_sched := (mc_sched demo_loaded)\<lparr>sd_ready := 0, sd_blocked := 8, global_tick := 7\<rparr>,
     mc_cpus := (mc_cpus demo_loaded)(1 := (mc_cpus demo_loaded 1)\<lparr>block_reason := BLOCK_SLEEP, block_deadline := 5\<rparr>)\<rparr>"

lemma demo_loaded_views:
  "sd_vms (mc_sched demo_loaded) = (\<lambda>_. 0)(3 := 1)" "registered_count (mc_sched demo_loaded) = 1"
  "sd_cursor (mc_sched demo_loaded) = 0" "mc_cpus demo_loaded 1 = demo_cpu"
  by (simp_all add: demo_loaded_def vm_sched_register_at_def admit_def demo_machine_def zero_sched_def
      demo_cpu_def vm_init_def zero_cpu_def)

lemma demo_sleeping_views:
  "is_blocked demo_sleeping i \<longleftrightarrow> i = 3" "\<not> is_ready demo_sleeping i" "registered demo_sleeping i \<longleftrightarrow> i = 3"
  "cpu_of demo_sleeping 3 = demo_cpu\<lparr>block_reason := BLOCK_SLEEP, block_deadline := 5\<rparr>"
proof -
  have "bit (8 :: u64) (unat i) \<longleftrightarrow> unat i = 3" using bit_1_shift [of 3 "unat i"] by auto
  then show "is_blocked demo_sleeping i \<longleftrightarrow> i = 3"
    by (simp add: is_blocked_def demo_sleeping_def word_unat_eq_iff)
  show "\<not> is_ready demo_sleeping i" "registered demo_sleeping i \<longleftrightarrow> i = 3"
    by (simp_all add: is_ready_def registered_def demo_sleeping_def demo_loaded_views)
  show "cpu_of demo_sleeping 3 = demo_cpu\<lparr>block_reason := BLOCK_SLEEP, block_deadline := 5\<rparr>"
    by (simp add: cpu_of_def demo_sleeping_def demo_loaded_views del: One_nat_def)
qed

lemma demo_sleeping_inv: "sched_inv demo_sleeping"
proof -
  have "vm_id demo_cpu = 3" by (simp add: demo_cpu_def vm_init_def)
  moreover have "registered_count (mc_sched demo_sleeping) = 1" "sd_cursor (mc_sched demo_sleeping) = 0"
    by (simp_all add: demo_sleeping_def demo_loaded_views)
  ultimately show ?thesis
    using demo_regions_ok
    by (simp add: sched_inv_def demo_sleeping_views vm_regions_ok_def vm_descriptors_def)
qed

end
