(* ===== verification/VM_Sched_Policy.thy ===== *)
theory VM_Sched_Policy
  imports VM_Sched_Correct
begin

text \<open>
  The scheduler's policies: when a sleeper is due across the wrap of the clock, what quantum and
  debt a turn starts and ends with, and what a fault in one VM can do to the others.
\<close>

section \<open>The wrapping clock\<close>

lemma sint_nonneg_u32: "0 \<le> sint (w :: u32) \<longleftrightarrow> unat w < 2 ^ 31"
proof -
  have lt: "unat w < 2 ^ 32" using unsigned_less [of w, where 'a = nat] by simp
  have "0 \<le> sint w \<longleftrightarrow> \<not> bit (uint w) 31"
    by (simp add: sint_uint signed_take_bit_nonnegative_iff)
  also have "\<dots> \<longleftrightarrow> \<not> bit (unat w) 31" by (simp add: bit_unsigned_iff)
  also have "\<dots> \<longleftrightarrow> even (unat w div 2 ^ 31)" by (simp add: bit_iff_odd)
  also have "\<dots> \<longleftrightarrow> unat w < 2 ^ 31"
  proof (cases "unat w < 2 ^ 31")
    case False
    then have "unat w div 2 ^ 31 = 1" using lt by (simp add: div_nat_eqI)
    then show ?thesis using False by simp
  qed simp
  finally show ?thesis .
qed

lemma tick_reached_spans:
  fixes d e :: u32
  assumes "unat d < 2 ^ 31" "unat e < 2 ^ 31"
  shows "unat (e - d) < 2 ^ 31 \<longleftrightarrow> unat d \<le> unat e"
proof -
  have "unat (e - d) = (if unat d \<le> unat e then unat e - unat d else unat e + 2 ^ 32 - unat d)"
    by (simp add: unat_sub_if')
  then show ?thesis using assms by auto
qed

text \<open>
  A VM that went to sleep at any tick \<open>t\<close> for \<open>d\<close> ticks is woken by the first pass at which \<open>d\<close> or more
  ticks have gone by and by no earlier one, and until then the pass counts exactly the ticks
  left, as long as both spans are below \<open>2^31\<close>.
\<close>

lemma sleep_on_time:
  assumes "block_reason c = BLOCK_SLEEP" and "block_deadline c = t + d"
    and "unat d < 2 ^ 31" and "unat elapsed < 2 ^ 31"
  shows "wake_decision_of (t + elapsed) c =
    (if unat d \<le> unat elapsed then Wake 0 else Wait (Some (of_nat (unat d - unat elapsed))))"
proof -
  have diff: "t + elapsed - (t + d) = elapsed - d" "t + d - (t + elapsed) = d - elapsed" by simp_all
  have "tick_reached (t + elapsed) (t + d) \<longleftrightarrow> unat d \<le> unat elapsed"
    using tick_reached_spans [OF assms(3,4)] by (simp add: tick_reached_def diff sint_nonneg_u32)
  moreover have "d - elapsed = of_nat (unat d - unat elapsed)" if "\<not> unat d \<le> unat elapsed"
    using that by (simp add: of_nat_diff)
  ultimately show ?thesis
    using assms(1,2) diff by (simp add: wake_decision_of_def deadline_decision_def)
qed

section \<open>Quantum and debt\<close>

lemma bm_test_clear: "\<not> bm_test (bm_clear b i) i"
  by (simp add: bm_test_def bm_clear_def and.assoc)

text \<open>
  The quantum and the debt of an expired turn. A turn is granted the baseline less a payment
  \<open>d\<close>, the debt or half the baseline, whichever is less. A VM that uses its grant up outside a
  critical section has run exactly the baseline less what its debt fell by, so every instruction
  of debt is paid by one instruction not run. Inside a critical section the VM goes on with a
  full baseline and the debt grows by exactly what it ran, until the section's count passes
  the cap: then it is halted with \<open>TRAP_HALT\<close> and leaves the ready set.
\<close>

theorem quantum_and_debt:
  assumes "effective_quantum cfg (mc_sched M) i = (b, d)" and "vm_regions_ok (mc_cpus M p)"
    and "run_quantum cfg p b M = (VM_STEP_QUANTUM_EXPIRED, n, M1)"
  shows "unat n + unat d = unat (baseline_quantum cfg) \<and>
    unat d = min (unat (sd_debt (mc_sched M) i)) (unat (baseline_quantum cfg) div 2) \<and>
    (case turn_round cfg i p d b M of
       Over M' \<Rightarrow>
         if in_critical (mc_cpus M p)
         then sd_critical (mc_sched M) i + n > max_critical_overrun cfg \<and> halted (mc_cpus M' p) \<and>
           trap_cause (mc_cpus M' p) = TRAP_HALT \<and> \<not> bm_test (sd_ready (mc_sched M')) i
         else unat (sd_debt (mc_sched M') i) = unat (sd_debt (mc_sched M) i) - unat d \<and>
           sd_critical (mc_sched M') i = 0
     | Again b' M' \<Rightarrow> in_critical (mc_cpus M p) \<and> b' = baseline_quantum cfg \<and>
         sd_debt (mc_sched M') i = sd_debt (mc_sched M) i + n \<and>
         sd_critical (mc_sched M') i = sd_critical (mc_sched M) i + n)"
proof -
  obtain c' where v: "vm_step (mc_cpus M p) (mc_mem M) b = (VM_STEP_QUANTUM_EXPIRED, n, c', mc_mem M1)"
    "mc_cpus M1 = (mc_cpus M)(p := c')" "sd_critical (mc_sched M1) = sd_critical (mc_sched M)"
    "sd_debt (mc_sched M1) = sd_debt (mc_sched M)"
    using run_quantum_view [OF assms(3,2)] by metis
  have n: "n = b" and crit: "in_critical (mc_cpus M1 p) = in_critical (mc_cpus M p)"
    using vm_step_view(4,8) [OF assms(2) v(1)] v(2) by simp_all
  note q = quantum_bounds(1-4) [OF assms(1)]
  have d: "unat d = min (unat (sd_debt (mc_sched M) i)) (unat (baseline_quantum cfg) div 2)"
    using q(2-4) by (auto simp: word_le_nat_alt min_def)
  have round: "turn_round cfg i p d b M = expired_round cfg i p d n M1"
    by (simp add: turn_round_def assms(3))
  show ?thesis
  proof (cases "in_critical (mc_cpus M p)")
    case False
    then show ?thesis
      using q(1,3) d n crit v(4) unfolding round
      by (simp add: expired_round_def pay_debt_def unat_sub)
  next
    case True
    show ?thesis
    proof (cases "sd_critical (mc_sched M) i + n > max_critical_overrun cfg")
      case True
      then show ?thesis
        using q(1) d n crit v(3) \<open>in_critical (mc_cpus M p)\<close> unfolding round
        by (simp add: expired_round_def Let_def bm_test_clear)
    next
      case False
      then show ?thesis
        using q(1) d n crit v(3,4) True unfolding round by (simp add: expired_round_def Let_def)
    qed
  qed
qed

definition demo_indebted :: "unit machine" where
  "demo_indebted = upd_sched (\<lambda>s. s\<lparr>sd_debt := (\<lambda>_. 5)\<rparr>) demo_loaded"

definition demo_small_config :: "unit VmSchedConfig" where
  "demo_small_config = demo_sched_config\<lparr>baseline_quantum := 3\<rparr>"

theorem quantum_and_debt_witness:
  "effective_quantum demo_small_config (mc_sched demo_indebted) 3 = (2, 1) \<and>
   (case turn_round demo_small_config 3 1 1 2 demo_indebted of
      Over M' \<Rightarrow> sd_debt (mc_sched M') 3 = 4 | Again b' M' \<Rightarrow> False)"
proof -
  have q: "effective_quantum demo_small_config (mc_sched demo_indebted) 3 = (2, 1)" by code_simp
  have ok: "vm_regions_ok (mc_cpus demo_indebted 1)"
    using demo_loaded_views(4) demo_regions_ok by (simp add: demo_indebted_def)
  have nc: "\<not> in_critical (mc_cpus demo_indebted 1)" "sd_debt (mc_sched demo_indebted) 3 = 5"
    using demo_loaded_views(4) by (simp_all add: demo_indebted_def demo_cpu_def vm_init_def zero_cpu_def)
  have "fst (run_quantum demo_small_config 1 2 demo_indebted) = VM_STEP_QUANTUM_EXPIRED" by code_simp
  then obtain n M1 where r: "run_quantum demo_small_config 1 2 demo_indebted = (VM_STEP_QUANTUM_EXPIRED, n, M1)"
    by (cases "run_quantum demo_small_config 1 2 demo_indebted") auto
  note t = quantum_and_debt [OF q ok r, THEN conjunct2, THEN conjunct2]
  show ?thesis
  proof (cases "turn_round demo_small_config 3 1 1 2 demo_indebted")
    case (Over M')
    then have "unat (sd_debt (mc_sched M') 3) = unat (4 :: u32)"
      using t nc unfolding Over by simp
    then show ?thesis using Over q by (simp only: round.case word_unat_eq_iff simp_thms)
  qed (use t nc in simp)
qed

section \<open>Faults stay inside\<close>

text \<open>
  C21. A fault of one VM is contained: when the run of a VM ends in a trap of any cause and the
  trap handler is the default one, the turn ends at once with the VM halted and out of both
  sets, and no other VM has lost or gained anything: its CPU, its place in the sets, and all
  memory outside the faulting VM's writable regions are as before.
\<close>

theorem fault_isolated:
  assumes "sched_inv M" and "registered M i" and "p = sd_vms (mc_sched M) i"
    and "trap_handler cfg = Some default_trap_handler"
    and "run_quantum cfg p b M = (VM_STEP_TRAPPED, n, M1)"
  shows "case run_turn cfg i p d b M of None \<Rightarrow> False
    | Some M' \<Rightarrow> sched_inv M' \<and> halted (cpu_of M' i) \<and> \<not> is_ready M' i \<and> \<not> is_blocked M' i \<and>
        (\<forall>j. if j = i then True else is_ready M' j = is_ready M j \<and> is_blocked M' j = is_blocked M j \<and>
           (if registered M j then cpu_of M' j = cpu_of M j else True)) \<and>
        (\<forall>a. if a \<in> vm_writable (cpu_of M i) then True else mc_mem M' a = mc_mem M a)"
proof -
  have ok: "vm_regions_ok (mc_cpus M p)" using sched_invD(7) [OF assms(1,2)] assms(3) by (simp add: cpu_of_def)
  obtain c' where v: "vm_step (mc_cpus M p) (mc_mem M) b = (VM_STEP_TRAPPED, n, c', mc_mem M1)"
    "mc_cpus M1 = (mc_cpus M)(p := c')" "quiet M M1"
    "sd_ready (mc_sched M1) = sd_ready (mc_sched M)" "sd_blocked (mc_sched M1) = sd_blocked (mc_sched M)"
    using run_quantum_view [OF assms(5) ok] by metis
  note q = run_quantum_inv [OF assms(5) [unfolded assms(3)] assms(1,2)]
  define M' where "M' = clear_both i (upd_cpu p (\<lambda>c. c\<lparr>halted := True\<rparr>) M1)"
  have p: "p \<noteq> 0" "sd_vms (mc_sched M1) i = p" using assms(2,3) q(2) by (simp_all add: registered_def)
  have "handle_trap cfg i M1 = M'"
    using p by (simp add: handle_trap_def Let_def assms(4) default_trap_handler_def M'_def)
  then have run: "run_turn cfg i p d b M = Some M'"
    by (simp add: run_turn.simps turn_round_def assms(5))
  have slots: "sd_vms (mc_sched M') = sd_vms (mc_sched M)" using q(2) by (simp add: M'_def clear_both_def)
  have bits: "is_ready M' j \<longleftrightarrow> is_ready M j \<and> j \<noteq> i" "is_blocked M' j \<longleftrightarrow> is_blocked M j \<and> j \<noteq> i" for j
    using q(4,5) by (auto simp: M'_def clear_both_bits)
  have cpu: "mc_cpus M' = (mc_cpus M)(p := c'\<lparr>halted := True\<rparr>)" "mc_mem M' = mc_mem M1"
    using v(2) by (simp_all add: M'_def clear_both_def upd_cpu_def upd_sched_def)
  have "sched_inv M'"
    unfolding M'_def using p q(1) by (intro inv_clear_both inv_halt_cpu) (simp_all add: cpu_of_def)
  moreover have "cpu_of M' j = cpu_of M j" if "j \<noteq> i" "registered M j" for j
    using distinct_cpus [OF assms(1) that(2) assms(2) that(1)] assms(3) by (simp add: cpu_of_def slots cpu)
  moreover have "mc_mem M' a = mc_mem M a" if "a \<notin> vm_writable (cpu_of M i)" for a
    using vm_step_view(10) [OF ok v(1), of a] that cpu(2) assms(3) by (simp add: cpu_of_def)
  moreover have "halted (cpu_of M' i)" using assms(3) by (simp add: cpu_of_def slots cpu)
  ultimately show ?thesis unfolding run by (simp add: bits)
qed

text \<open>The demonstration VM with its program counter outside every region.\<close>

definition demo_lost :: "unit machine" where
  "demo_lost = upd_cpu 1 (\<lambda>c. c\<lparr>pc := 0x40\<rparr>) demo_loaded"

lemma demo_lost_inv: "sched_inv demo_lost" "registered demo_lost 3" "1 = sd_vms (mc_sched demo_lost) 3"
proof -
  show "sched_inv demo_lost"
    unfolding demo_lost_def
    by (rule inv_same_bits [OF demo_loaded_inv quiet_upd_cpu])
      (simp_all add: vm_regions_ok_def vm_descriptors_def)
  show "registered demo_lost 3" "1 = sd_vms (mc_sched demo_lost) 3"
    by (simp_all add: registered_def demo_lost_def demo_loaded_views)
qed

theorem fault_isolated_witness:
  "case run_turn demo_sched_config 3 1 0 10 demo_lost of None \<Rightarrow> False
    | Some M' \<Rightarrow> halted (cpu_of M' 3) \<and> \<not> is_ready M' 3"
proof -
  have h: "trap_handler demo_sched_config = Some default_trap_handler"
    by (simp add: demo_sched_config_def vm_sched_init_def zero_config_def Let_def)
  have "fst (run_quantum demo_sched_config 1 10 demo_lost) = VM_STEP_TRAPPED" by code_simp
  then obtain n M1 where "run_quantum demo_sched_config 1 10 demo_lost = (VM_STEP_TRAPPED, n, M1)"
    by (cases "run_quantum demo_sched_config 1 10 demo_lost") auto
  from fault_isolated [OF demo_lost_inv h this, where d = 0] show ?thesis by (auto split: option.splits)
qed

section \<open>Critical sections and the overrun count\<close>

text \<open>
  What leaves the overrun count alone. When a VM inside a critical section leaves it by
  \<open>SYS_CRITICAL_EXIT\<close> with its budget not yet used up, and when a VM outside one yields, the round keeps
  the section's count and the debt as they were, although the section is over; the next
  section of that VM starts from the old count, and its first expiry halts the VM as soon as
  the two together pass the cap.
\<close>

theorem overrun_outlives_section:
  assumes "ecall_router cfg = Some r" and "handler_of r SYS_CRITICAL_EXIT = Some vm_handle_critical_exit"
    and "handler_of r SYS_YIELD = Some vm_handle_yield"
    and "\<not> halted (mc_cpus M p)" and "block_reason (mc_cpus M p) = BLOCK_NONE"
    and "sd_vms (mc_sched M) i = p" and "p \<noteq> 0"
  shows "(if regs (mc_cpus M p) VM_REG_A7 = SYS_CRITICAL_EXIT \<and> in_critical (mc_cpus M p) \<and> n < b
      then (case ecall_round cfg i p d b n M of Over M' \<Rightarrow> False
        | Again b' M' \<Rightarrow> \<not> in_critical (mc_cpus M' p) \<and> sd_critical (mc_sched M') = sd_critical (mc_sched M))
      else True) \<and>
    (if regs (mc_cpus M p) VM_REG_A7 = SYS_YIELD
      then (case ecall_round cfg i p d b n M of Again b' M' \<Rightarrow> False
        | Over M' \<Rightarrow> bm_test (sd_blocked (mc_sched M')) i = (unat i < 64) \<and>
            sd_critical (mc_sched M') = sd_critical (mc_sched M) \<and>
            sd_debt (mc_sched M') = sd_debt (mc_sched M))
      else True) \<and>
    (if in_critical (mc_cpus M p) \<and> sd_critical (mc_sched M) i + n > max_critical_overrun cfg
      then (case expired_round cfg i p d n M of Again b' M' \<Rightarrow> False
        | Over M' \<Rightarrow> halted (mc_cpus M' p) \<and> trap_cause (mc_cpus M' p) = TRAP_HALT)
      else True)"
proof -
  have exit: "vm_ecall_dispatch r p M = vm_handle_critical_exit p M"
    if "regs (mc_cpus M p) VM_REG_A7 = SYS_CRITICAL_EXIT"
    using that assms(2) by (simp add: vm_ecall_dispatch_def handler_of_def Let_def split: option.splits)
  have yield: "vm_ecall_dispatch r p M = vm_handle_yield p M"
    if "regs (mc_cpus M p) VM_REG_A7 = SYS_YIELD"
    using that assms(3) by (simp add: vm_ecall_dispatch_def handler_of_def Let_def split: option.splits)
  show ?thesis
  proof (intro conjI)
    show "if regs (mc_cpus M p) VM_REG_A7 = SYS_CRITICAL_EXIT \<and> in_critical (mc_cpus M p) \<and> n < b
      then (case ecall_round cfg i p d b n M of Over M' \<Rightarrow> False
        | Again b' M' \<Rightarrow> \<not> in_critical (mc_cpus M' p) \<and> sd_critical (mc_sched M') = sd_critical (mc_sched M))
      else True"
      using assms(1,4,5) by (simp add: ecall_round_def Let_def exit vm_handle_critical_exit_def set_a0_def not_less [symmetric])
    show "if regs (mc_cpus M p) VM_REG_A7 = SYS_YIELD
      then (case ecall_round cfg i p d b n M of Again b' M' \<Rightarrow> False
        | Over M' \<Rightarrow> bm_test (sd_blocked (mc_sched M')) i = (unat i < 64) \<and>
            sd_critical (mc_sched M') = sd_critical (mc_sched M) \<and>
            sd_debt (mc_sched M') = sd_debt (mc_sched M))
      else True"
      using assms(1,4-7)
      by (simp add: ecall_round_def Let_def yield vm_handle_yield_def set_a0_def apply_block_transition_def bm_test_bit)
        (auto dest: bit_imp_le_length)
    show "if in_critical (mc_cpus M p) \<and> sd_critical (mc_sched M) i + n > max_critical_overrun cfg
      then (case expired_round cfg i p d n M of Again b' M' \<Rightarrow> False
        | Over M' \<Rightarrow> halted (mc_cpus M' p) \<and> trap_cause (mc_cpus M' p) = TRAP_HALT)
      else True"
      by (simp add: expired_round_def Let_def)
  qed
qed


lemma demo_cpu_router:
  "handler_of (snd (vm_ecall_install_cpu_handlers (vm_ecall_router_init :: 'e handler VmEcallRouter))) n = map_of cpu_handlers n"
proof -
  let ?init = "vm_ecall_router_init :: 'e handler VmEcallRouter"
  obtain ok r where run: "vm_ecall_install_cpu_handlers ?init = (ok, r)"
    by (cases "vm_ecall_install_cpu_handlers ?init")
  have d: "distinct (map fst ([] @ cpu_handlers))" by (simp add: cpu_handlers_def)
  note all = ecall_table.install_all_or_nothing [OF run [unfolded vm_ecall_install_cpu_handlers_def] d]
  have "ok" using all by (simp add: handler_of_init) (simp add: cpu_handlers_def slot_for_def)
  then show ?thesis using all run by (simp add: map_add_def handler_of_init split: option.splits)
qed

definition demo_ecall_config :: "unit VmSchedConfig" where
  "demo_ecall_config = demo_sched_config\<lparr>
     ecall_router := Some (snd (vm_ecall_install_cpu_handlers vm_ecall_router_init))\<rparr>"

definition demo_yielding :: "unit machine" where
  "demo_yielding = upd_cpu 1 (\<lambda>c. c\<lparr>regs := (regs c)(VM_REG_A7 := SYS_YIELD)\<rparr>)
     (upd_sched (\<lambda>s. s\<lparr>sd_critical := (\<lambda>_. 90)\<rparr>) demo_loaded)"

theorem overrun_outlives_section_witness:
  "case ecall_round demo_ecall_config 3 1 0 10 4 demo_yielding of Again b' M' \<Rightarrow> False
    | Over M' \<Rightarrow> bm_test (sd_blocked (mc_sched M')) 3 \<and> sd_critical (mc_sched M') 3 = 90"
proof -
  have h: "ecall_router demo_ecall_config = Some (snd (vm_ecall_install_cpu_handlers vm_ecall_router_init))"
    "handler_of (snd (vm_ecall_install_cpu_handlers vm_ecall_router_init)) SYS_CRITICAL_EXIT = Some vm_handle_critical_exit"
    "handler_of (snd (vm_ecall_install_cpu_handlers vm_ecall_router_init)) SYS_YIELD = Some vm_handle_yield"
    by (simp_all add: demo_ecall_config_def demo_cpu_router) (simp_all add: cpu_handlers_def)
  have c: "\<not> halted (mc_cpus demo_yielding 1)" "block_reason (mc_cpus demo_yielding 1) = BLOCK_NONE"
    "sd_vms (mc_sched demo_yielding) 3 = 1" "(1 :: hptr) \<noteq> 0"
    "regs (mc_cpus demo_yielding 1) VM_REG_A7 = SYS_YIELD" "sd_critical (mc_sched demo_yielding) = (\<lambda>_. 90)"
    by (simp_all add: demo_yielding_def demo_loaded_views demo_cpu_def vm_init_def zero_cpu_def del: One_nat_def)
  from overrun_outlives_section [OF h c(1-4), of 4 10 0] c(5,6) show ?thesis
    by (simp split: round.splits)
qed

end
