(* ===== verification/VM_Sched_Wake.thy ===== *)
theory VM_Sched_Wake
  imports VM_Sched_Policy
begin

text \<open>
  What a pass of \<open>wake_expired_timeouts\<close> does, stated without the code's own decision function:
  the reasons, the wrap-around comparison, the results and the reported wait are written out.
\<close>

text \<open>A deadline is due when it lies at most \<open>2^31 - 1\<close> ticks behind the tick counter, modulo \<open>2^32\<close>.\<close>

definition due :: "u32 \<Rightarrow> u32 \<Rightarrow> bool" where
  "due now deadline \<longleftrightarrow> unat (now - deadline) < 2 ^ 31"

definition woken_with :: "u32 \<Rightarrow> VmCpu \<Rightarrow> VmCpu" where
  "woken_with v c = c\<lparr>regs := (regs c)(10 := v), block_reason := BLOCK_NONE, block_deadline := 0\<rparr>"

lemma tick_reached_due: "tick_reached now d = due now d"
  by (simp add: tick_reached_def due_def sint_nonneg_u32)

lemma unblock_woken: "unblock v c = woken_with v c"
  by (simp add: unblock_def set_a0_def woken_with_def)

lemma decision_cases:
  "block_reason c = BLOCK_YIELDED \<or> block_reason c = BLOCK_NONE \<or> block_reason c = BLOCK_SLEEP \<and> due now (block_deadline c) \<Longrightarrow>
     wake_decision_of now c = Wake 0"
  "block_reason c = BLOCK_MAILBOX_RECV \<and> block_deadline c \<noteq> 0 \<and> due now (block_deadline c) \<Longrightarrow>
     wake_decision_of now c = Wake (- 110)"
  "(block_reason c = BLOCK_SLEEP \<or> block_reason c = BLOCK_MAILBOX_RECV \<and> block_deadline c \<noteq> 0) \<and>
     \<not> due now (block_deadline c) \<Longrightarrow> wake_decision_of now c = Wait (Some (block_deadline c - now))"
  "block_reason c = BLOCK_ON_CHILD \<or> block_reason c = BLOCK_FRAME_CONSUMED \<or>
     block_reason c = BLOCK_MAILBOX_RECV \<and> block_deadline c = 0 \<Longrightarrow> wake_decision_of now c = Wait None"
  by (auto simp: wake_decision_of_def deadline_decision_def tick_reached_due)

lemma reports_wait_iff:
  "wake_decision_of now c = Wait (Some d) \<longleftrightarrow>
     (block_reason c = BLOCK_SLEEP \<or> block_reason c = BLOCK_MAILBOX_RECV \<and> block_deadline c \<noteq> 0) \<and>
     \<not> due now (block_deadline c) \<and> d = block_deadline c - now"
  by (auto simp: wake_decision_of_def deadline_decision_def tick_reached_due split: VmBlockReason.splits)

text \<open>
  C20. What a wake-up pass does, VM by VM. A blocked VM that yielded, or sleeps until a deadline
  that is due, becomes ready with result 0; one that receives with a deadline (0 means none)
  that is due becomes ready with \<open>-110\<close>, which is \<open>-ETIMEDOUT\<close>; a woken VM's \<open>a0\<close>, block reason and
  deadline are written and nothing else of it. A VM that waits for a child, for a frame, for a
  message without time-out, or for a deadline that is not due, stays blocked and unchanged.
  Every VM that was not blocked, the memory and the rest of the scheduler are unchanged. The
  pass returns the least remaining number of ticks of those left waiting for a deadline, or
  \<open>UINT32_MAX\<close>. Due is meant across the wrap of the 32-bit tick.
\<close>

theorem wake_pass_on_time:
  assumes "sched_inv M" and "wake_expired_timeouts M = (delta, M')" and "now = global_tick (mc_sched M)"
  shows "(\<forall>i c. is_blocked M i \<longrightarrow> c = cpu_of M i \<longrightarrow>
        block_reason c = BLOCK_YIELDED \<or> block_reason c = BLOCK_NONE \<or> block_reason c = BLOCK_SLEEP \<and> due now (block_deadline c) \<longrightarrow>
        is_ready M' i \<and> \<not> is_blocked M' i \<and> cpu_of M' i = woken_with 0 c)
    \<and> (\<forall>i c. is_blocked M i \<longrightarrow> c = cpu_of M i \<longrightarrow>
        block_reason c = BLOCK_MAILBOX_RECV \<and> block_deadline c \<noteq> 0 \<and> due now (block_deadline c) \<longrightarrow>
        is_ready M' i \<and> \<not> is_blocked M' i \<and> cpu_of M' i = woken_with (- 110) c)
    \<and> (\<forall>i c. is_blocked M i \<longrightarrow> c = cpu_of M i \<longrightarrow>
        block_reason c = BLOCK_ON_CHILD \<or> block_reason c = BLOCK_FRAME_CONSUMED \<or>
        block_reason c = BLOCK_MAILBOX_RECV \<and> block_deadline c = 0 \<or>
        (block_reason c = BLOCK_SLEEP \<or> block_reason c = BLOCK_MAILBOX_RECV) \<and> \<not> due now (block_deadline c) \<longrightarrow>
        is_blocked M' i \<and> \<not> is_ready M' i \<and> cpu_of M' i = c)
    \<and> (\<forall>i. \<not> is_blocked M i \<longrightarrow> is_ready M' i = is_ready M i \<and> \<not> is_blocked M' i \<and>
        (registered M i \<longrightarrow> cpu_of M' i = cpu_of M i))
    \<and> mc_mem M' = mc_mem M \<and> mc_ext M' = mc_ext M
    \<and> mc_sched M' = (mc_sched M)\<lparr>sd_ready := sd_ready (mc_sched M'), sd_blocked := sd_blocked (mc_sched M')\<rparr>
    \<and> delta = Min (insert (2 ^ 32 - 1) {block_deadline (cpu_of M i) - now | i. is_blocked M i \<and>
        (block_reason (cpu_of M i) = BLOCK_SLEEP \<or>
         block_reason (cpu_of M i) = BLOCK_MAILBOX_RECV \<and> block_deadline (cpu_of M i) \<noteq> 0) \<and>
        \<not> due now (block_deadline (cpu_of M i))})"
proof -
  note w = wake_pass_exact [OF assms(1,2), folded assms(3), unfolded unblock_woken reports_wait_iff]
  have slot: "if is_blocked M i
      then (case wake_decision_of now (cpu_of M i) of
          Wake v \<Rightarrow> is_ready M' i \<and> \<not> is_blocked M' i \<and> cpu_of M' i = woken_with v (cpu_of M i)
        | Wait d \<Rightarrow> is_blocked M' i \<and> \<not> is_ready M' i \<and> cpu_of M' i = cpu_of M i)
      else is_ready M' i = is_ready M i \<and> \<not> is_blocked M' i \<and>
        (if registered M i then cpu_of M' i = cpu_of M i else True)" for i
    using w by blast
  have wake: "is_ready M' i \<and> \<not> is_blocked M' i \<and> cpu_of M' i = woken_with v (cpu_of M i)"
    if "is_blocked M i" "wake_decision_of now (cpu_of M i) = Wake v" for i v
    using slot [of i] that by simp
  have wait: "is_blocked M' i \<and> \<not> is_ready M' i \<and> cpu_of M' i = cpu_of M i"
    if "is_blocked M i" "wake_decision_of now (cpu_of M i) = Wait d" for i d
    using slot [of i] that by simp
  have other: "is_ready M' i = is_ready M i \<and> \<not> is_blocked M' i \<and> (registered M i \<longrightarrow> cpu_of M' i = cpu_of M i)"
    if "\<not> is_blocked M i" for i
    using slot [of i] that by (simp split: if_splits)
  have left: "is_blocked M' i \<and> \<not> is_ready M' i \<and> cpu_of M' i = cpu_of M i"
    if "is_blocked M i" "block_reason (cpu_of M i) = BLOCK_ON_CHILD \<or> block_reason (cpu_of M i) = BLOCK_FRAME_CONSUMED \<or>
        block_reason (cpu_of M i) = BLOCK_MAILBOX_RECV \<and> block_deadline (cpu_of M i) = 0 \<or>
        (block_reason (cpu_of M i) = BLOCK_SLEEP \<or> block_reason (cpu_of M i) = BLOCK_MAILBOX_RECV) \<and>
        \<not> due now (block_deadline (cpu_of M i))" for i
  proof -
    have "\<exists>d. wake_decision_of now (cpu_of M i) = Wait d"
      using that(2) decision_cases(3,4) [of "cpu_of M i" now] by blast
    then show ?thesis using wait that(1) by blast
  qed
  have top: "(2 ^ 32 - 1 :: u32) = UINT32_MAX" by simp
  have delta: "delta = Min (insert (2 ^ 32 - 1) {block_deadline (cpu_of M i) - now | i. is_blocked M i \<and>
        (block_reason (cpu_of M i) = BLOCK_SLEEP \<or>
         block_reason (cpu_of M i) = BLOCK_MAILBOX_RECV \<and> block_deadline (cpu_of M i) \<noteq> 0) \<and>
        \<not> due now (block_deadline (cpu_of M i))})"
    unfolding top w [THEN conjunct2, THEN conjunct2, THEN conjunct2, THEN conjunct2]
    by (rule arg_cong [where f = Min], rule arg_cong [where f = "insert UINT32_MAX"]) blast
  have rest: "mc_mem M' = mc_mem M" "mc_ext M' = mc_ext M"
    "mc_sched M' = (mc_sched M)\<lparr>sd_ready := sd_ready (mc_sched M'), sd_blocked := sd_blocked (mc_sched M')\<rparr>"
    using w by blast+
  show ?thesis
    by (intro conjI allI impI)
      (simp_all add: wake decision_cases(1,2) left other rest(1,2) delta, rule rest(3))
qed

text \<open>The demonstration VM asleep until tick 5, at tick 7; the same with a receive that timed out.\<close>

definition demo_receiving :: "unit machine" where
  "demo_receiving = upd_cpu 1 (\<lambda>c. c\<lparr>block_reason := BLOCK_MAILBOX_RECV\<rparr>) demo_sleeping"

lemma demo_receiving_inv: "sched_inv demo_receiving"
  unfolding demo_receiving_def
  by (rule inv_same_bits [OF demo_sleeping_inv quiet_upd_cpu]) (simp_all add: vm_regions_ok_def vm_descriptors_def)

theorem wake_pass_on_time_witness:
  "case wake_expired_timeouts demo_receiving of (delta, M') \<Rightarrow>
     is_ready M' 3 \<and> regs (cpu_of M' 3) 10 = - 110 \<and> block_reason (cpu_of M' 3) = BLOCK_NONE"
proof -
  obtain delta M' where w: "wake_expired_timeouts demo_receiving = (delta, M')" by force
  have blocked: "is_blocked demo_receiving 3" using demo_sleeping_views(1) [of 3] by (simp add: demo_receiving_def)
  have "cpu_of demo_receiving 3 = (cpu_of demo_sleeping 3)\<lparr>block_reason := BLOCK_MAILBOX_RECV\<rparr>"
    by (simp add: cpu_of_def demo_receiving_def demo_sleeping_def demo_loaded_views upd_cpu_def del: One_nat_def)
  then have vm: "block_reason (cpu_of demo_receiving 3) = BLOCK_MAILBOX_RECV" "block_deadline (cpu_of demo_receiving 3) = 5"
    by (simp_all add: demo_sleeping_views(4))
  have now: "global_tick (mc_sched demo_receiving) = 7" by (simp add: demo_receiving_def demo_sleeping_def)
  have "due 7 5" by (simp add: due_def)
  then have "is_ready M' 3 \<and> cpu_of M' 3 = woken_with (- 110) (cpu_of demo_receiving 3)"
    using wake_pass_on_time [OF demo_receiving_inv w now [symmetric]] blocked vm by auto
  then show ?thesis unfolding w by (simp add: woken_with_def)
qed

end
