(* ===== verification/VM_Mailbox.thy ===== *)
theory VM_Mailbox
  imports Ring
begin

text \<open>
  The per-VM mailbox (\<open>src/vm/vm_mailbox.c\<close>, \<open>include/vm/vm_mailbox.h\<close>): a FIFO of slots that
  carry the sender's id before the payload, and a whitelist of senders. \<open>send\<close>, \<open>recv\<close> and \<open>peek\<close>
  put the slot together and take it apart in a local buffer; its address on the host's stack
  is the parameter \<open>scratch\<close>. The locker's callbacks act on an environment \<open>'e\<close>, as in the slab
  allocator, and a NULL pointer argument is \<open>0\<close>.
\<close>

section \<open>Data\<close>

abbreviation (input) VM_MAILBOX_WHITELIST_BITS :: u16 where "VM_MAILBOX_WHITELIST_BITS \<equiv> 64"
abbreviation (input) VM_MAILBOX_MAX_SLOT_SIZE :: u16 where "VM_MAILBOX_MAX_SLOT_SIZE \<equiv> 4096"
abbreviation (input) VM_MAILBOX_SLOT_OVERHEAD :: nat where "VM_MAILBOX_SLOT_OVERHEAD \<equiv> 2"

datatype VmMailboxResult =
    VM_MBOX_OK | VM_MBOX_ERR_INVALID_ARG | VM_MBOX_ERR_NOT_WHITELISTED | VM_MBOX_ERR_FULL
  | VM_MBOX_ERR_EMPTY | VM_MBOX_ERR_BAD_VM_ID

record 'e VmMailboxLocker =
  ml_lock :: "'e \<Rightarrow> u64 \<times> 'e"
  ml_unlock :: "'e \<Rightarrow> u64 \<Rightarrow> 'e"

record 'e VmMailbox =
  sends_accepted :: u32
  sends_rejected_full :: u32
  sends_rejected_perm :: u32
  recvs :: u32
  slot_size :: u16
  depth :: u16
  whitelist :: u64
  mb_fifo :: FifoQueue
  mb_locker :: "'e VmMailboxLocker"

definition vm_mailbox_null_locker :: "'e VmMailboxLocker" where
  "vm_mailbox_null_locker = \<lparr>ml_lock = (\<lambda>e. (0, e)), ml_unlock = (\<lambda>e s. e)\<rparr>"

definition mbox_lock :: "'e VmMailbox \<Rightarrow> 'e \<Rightarrow> u64 \<times> 'e" where
  "mbox_lock m e = ml_lock (mb_locker m) e"

definition mbox_unlock :: "'e VmMailbox \<Rightarrow> u64 \<Rightarrow> 'e \<Rightarrow> 'e" where
  "mbox_unlock m s e = ml_unlock (mb_locker m) e s"

definition whitelist_id_valid :: "u16 \<Rightarrow> bool" where
  "whitelist_id_valid vm_id \<longleftrightarrow> vm_id < VM_MAILBOX_WHITELIST_BITS"

definition whitelist_bit :: "u16 \<Rightarrow> u64" where
  "whitelist_bit vm_id = push_bit (unat vm_id) 1"

section \<open>Lifecycle\<close>

definition vm_mailbox_required_storage_bytes :: "u16 \<Rightarrow> u16 \<Rightarrow> nat" where
  "vm_mailbox_required_storage_bytes sz d =
     (if sz = 0 \<or> sz > VM_MAILBOX_MAX_SLOT_SIZE then 0
      else if d = 0 then 0
      else (unat sz + VM_MAILBOX_SLOT_OVERHEAD) * unat d)"

definition vm_mailbox_init ::
  "'e VmMailbox \<Rightarrow> hptr \<Rightarrow> u16 \<Rightarrow> u16 \<Rightarrow> VmMailboxResult \<times> 'e VmMailbox" where
  "vm_mailbox_init m storage sz d =
     (if storage = 0 then (VM_MBOX_ERR_INVALID_ARG, m)
      else if sz = 0 \<or> sz > VM_MAILBOX_MAX_SLOT_SIZE then (VM_MBOX_ERR_INVALID_ARG, m)
      else if d = 0 then (VM_MBOX_ERR_INVALID_ARG, m)
      else (VM_MBOX_OK,
        \<lparr>sends_accepted = 0, sends_rejected_full = 0, sends_rejected_perm = 0, recvs = 0,
         slot_size = sz, depth = d, whitelist = 0,
         mb_fifo = fifo_init storage (unat d) (unat sz + VM_MAILBOX_SLOT_OVERHEAD),
         mb_locker = vm_mailbox_null_locker\<rparr>))"

text \<open>The locker argument as its two function pointers; \<open>None\<close> is NULL.\<close>

definition vm_mailbox_set_locker ::
  "'e VmMailbox \<Rightarrow> ('e \<Rightarrow> u64 \<times> 'e) option \<Rightarrow> ('e \<Rightarrow> u64 \<Rightarrow> 'e) option \<Rightarrow> 'e VmMailbox" where
  "vm_mailbox_set_locker m lock unlock =
     (case (lock, unlock) of
        (Some l, Some u) \<Rightarrow> m\<lparr>mb_locker := \<lparr>ml_lock = l, ml_unlock = u\<rparr>\<rparr>
      | _ \<Rightarrow> m\<lparr>mb_locker := vm_mailbox_null_locker\<rparr>)"

definition vm_mailbox_reset :: "'e VmMailbox \<Rightarrow> 'e \<Rightarrow> 'e VmMailbox \<times> 'e" where
  "vm_mailbox_reset m e =
     (let (lk, e) = mbox_lock m e; m = m\<lparr>mb_fifo := fifo_reset (mb_fifo m)\<rparr> in (m, mbox_unlock m lk e))"

section \<open>Whitelist\<close>

definition vm_mailbox_whitelist_set ::
  "'e VmMailbox \<Rightarrow> u16 \<Rightarrow> 'e \<Rightarrow> VmMailboxResult \<times> 'e VmMailbox \<times> 'e" where
  "vm_mailbox_whitelist_set m sender e =
     (if \<not> whitelist_id_valid sender then (VM_MBOX_ERR_BAD_VM_ID, m, e)
      else let (lk, e) = mbox_lock m e; m = m\<lparr>whitelist := whitelist m OR whitelist_bit sender\<rparr>
           in (VM_MBOX_OK, m, mbox_unlock m lk e))"

definition vm_mailbox_whitelist_clear ::
  "'e VmMailbox \<Rightarrow> u16 \<Rightarrow> 'e \<Rightarrow> VmMailboxResult \<times> 'e VmMailbox \<times> 'e" where
  "vm_mailbox_whitelist_clear m sender e =
     (if \<not> whitelist_id_valid sender then (VM_MBOX_ERR_BAD_VM_ID, m, e)
      else let (lk, e) = mbox_lock m e; m = m\<lparr>whitelist := whitelist m AND NOT (whitelist_bit sender)\<rparr>
           in (VM_MBOX_OK, m, mbox_unlock m lk e))"

definition vm_mailbox_whitelist_check :: "'e VmMailbox \<Rightarrow> u16 \<Rightarrow> bool" where
  "vm_mailbox_whitelist_check m sender \<longleftrightarrow>
     whitelist_id_valid sender \<and> whitelist m AND whitelist_bit sender \<noteq> 0"

definition vm_mailbox_whitelist_set_all :: "'e VmMailbox \<Rightarrow> 'e \<Rightarrow> 'e VmMailbox \<times> 'e" where
  "vm_mailbox_whitelist_set_all m e =
     (let (lk, e) = mbox_lock m e; m = m\<lparr>whitelist := NOT 0\<rparr> in (m, mbox_unlock m lk e))"

definition vm_mailbox_whitelist_clear_all :: "'e VmMailbox \<Rightarrow> 'e \<Rightarrow> 'e VmMailbox \<times> 'e" where
  "vm_mailbox_whitelist_clear_all m e =
     (let (lk, e) = mbox_lock m e; m = m\<lparr>whitelist := 0\<rparr> in (m, mbox_unlock m lk e))"

section \<open>Messages\<close>

definition vm_mailbox_send ::
  "'e VmMailbox \<Rightarrow> u16 \<Rightarrow> hptr \<Rightarrow> u16 \<Rightarrow> hptr \<Rightarrow> hmem \<Rightarrow> 'e \<Rightarrow> VmMailboxResult \<times> 'e VmMailbox \<times> hmem \<times> 'e" where
  "vm_mailbox_send m sender payload payload_size scratch mem e =
     (if payload = 0 then (VM_MBOX_ERR_INVALID_ARG, m, mem, e)
      else if payload_size \<noteq> slot_size m then (VM_MBOX_ERR_INVALID_ARG, m, mem, e)
      else if \<not> whitelist_id_valid sender then (VM_MBOX_ERR_BAD_VM_ID, m, mem, e)
      else
        let mem = st16 mem scratch sender;
            mem = memcpy mem (scratch + VM_MAILBOX_SLOT_OVERHEAD) payload (unat payload_size);
            (lk, e) = mbox_lock m e in
        if whitelist m AND whitelist_bit sender = 0 then
          let m = m\<lparr>sends_rejected_perm := sends_rejected_perm m + 1\<rparr>
          in (VM_MBOX_ERR_NOT_WHITELISTED, m, mem, mbox_unlock m lk e)
        else
          let (ok, q, mem) = fifo_push (mb_fifo m) mem scratch; m = m\<lparr>mb_fifo := q\<rparr> in
          if \<not> ok then
            let m = m\<lparr>sends_rejected_full := sends_rejected_full m + 1\<rparr>
            in (VM_MBOX_ERR_FULL, m, mem, mbox_unlock m lk e)
          else
            let m = m\<lparr>sends_accepted := sends_accepted m + 1\<rparr>
            in (VM_MBOX_OK, m, mem, mbox_unlock m lk e))"

definition vm_mailbox_recv ::
  "'e VmMailbox \<Rightarrow> hptr \<Rightarrow> hptr \<Rightarrow> hptr \<Rightarrow> hmem \<Rightarrow> 'e \<Rightarrow> VmMailboxResult \<times> 'e VmMailbox \<times> hmem \<times> 'e" where
  "vm_mailbox_recv m out_payload out_sender scratch mem e =
     (if out_payload = 0 then (VM_MBOX_ERR_INVALID_ARG, m, mem, e)
      else
        let (lk, e) = mbox_lock m e; (ok, q, mem) = fifo_pop (mb_fifo m) mem scratch; m = m\<lparr>mb_fifo := q\<rparr> in
        if \<not> ok then (VM_MBOX_ERR_EMPTY, m, mem, mbox_unlock m lk e)
        else
          let m = m\<lparr>recvs := recvs m + 1\<rparr>;
              e = mbox_unlock m lk e;
              mem = (if out_sender \<noteq> 0 then memcpy mem out_sender scratch 2 else mem);
              mem = memcpy mem out_payload (scratch + VM_MAILBOX_SLOT_OVERHEAD) (unat (slot_size m))
          in (VM_MBOX_OK, m, mem, e))"

definition vm_mailbox_peek ::
  "'e VmMailbox \<Rightarrow> hptr \<Rightarrow> hptr \<Rightarrow> hptr \<Rightarrow> hmem \<Rightarrow> 'e \<Rightarrow> VmMailboxResult \<times> hmem \<times> 'e" where
  "vm_mailbox_peek m out_payload out_sender scratch mem e =
     (let (lk, e) = mbox_lock m e; (ok, mem) = fifo_peek (mb_fifo m) mem scratch in
      if \<not> ok then (VM_MBOX_ERR_EMPTY, mem, mbox_unlock m lk e)
      else
        let e = mbox_unlock m lk e;
            mem = (if out_sender \<noteq> 0 then memcpy mem out_sender scratch 2 else mem);
            mem = (if out_payload \<noteq> 0
                   then memcpy mem out_payload (scratch + VM_MAILBOX_SLOT_OVERHEAD) (unat (slot_size m))
                   else mem)
        in (VM_MBOX_OK, mem, e))"

section \<open>Introspection\<close>

definition vm_mailbox_count :: "'e VmMailbox \<Rightarrow> nat" where "vm_mailbox_count m = fifo_count (mb_fifo m)"
definition vm_mailbox_free_slots :: "'e VmMailbox \<Rightarrow> nat" where
  "vm_mailbox_free_slots m = unat (depth m) - fifo_count (mb_fifo m)"
definition vm_mailbox_capacity :: "'e VmMailbox \<Rightarrow> nat" where "vm_mailbox_capacity m = unat (depth m)"
definition vm_mailbox_empty :: "'e VmMailbox \<Rightarrow> bool" where "vm_mailbox_empty m = fifo_empty (mb_fifo m)"
definition vm_mailbox_full :: "'e VmMailbox \<Rightarrow> bool" where "vm_mailbox_full m = fifo_full (mb_fifo m)"

section \<open>Contents\<close>

text \<open>A message is a sender and a payload; a slot holds the one before the other.\<close>

definition message_of :: "u8 list \<Rightarrow> u16 \<times> u8 list" where
  "message_of bs = (from_le (take 2 bs), drop 2 bs)"

abbreviation mb_ring :: "'e VmMailbox \<Rightarrow> RingBuffer" where "mb_ring m \<equiv> ff_rb (mb_fifo m)"

definition mb_messages :: "'e VmMailbox \<Rightarrow> hmem \<Rightarrow> (u16 \<times> u8 list) list" where
  "mb_messages m mem = map message_of (rb_list (mb_ring m) mem)"

definition mailbox_ok :: "'e VmMailbox \<Rightarrow> bool" where
  "mailbox_ok m \<longleftrightarrow> rb_ok (mb_ring m) \<and> rg_capacity (mb_ring m) = unat (depth m) \<and>
     rg_esize (mb_ring m) = unat (slot_size m) + 2 \<and> 0 < slot_size m \<and> slot_size m \<le> VM_MAILBOX_MAX_SLOT_SIZE"

text \<open>
  The places a call works with: the local buffer is clear of the storage, the caller's payload of
  both, and so is the sender's place, if there is one.
\<close>

definition mb_clear :: "'e VmMailbox \<Rightarrow> hptr \<Rightarrow> hptr \<Rightarrow> nat \<Rightarrow> bool" where
  "mb_clear m scratch p n \<longleftrightarrow>
     apart (rg_storage (mb_ring m)) (rg_capacity (mb_ring m) * rg_esize (mb_ring m)) p n \<and> apart scratch 4098 p n"

definition send_places :: "'e VmMailbox \<Rightarrow> hptr \<Rightarrow> hptr \<Rightarrow> bool" where
  "send_places m scratch payload \<longleftrightarrow>
     apart (rg_storage (mb_ring m)) (rg_capacity (mb_ring m) * rg_esize (mb_ring m)) scratch 4098 \<and>
     mb_clear m scratch payload (unat (slot_size m))"

definition recv_places :: "'e VmMailbox \<Rightarrow> hptr \<Rightarrow> hptr \<Rightarrow> hptr \<Rightarrow> bool" where
  "recv_places m scratch out_payload out_sender \<longleftrightarrow>
     apart (rg_storage (mb_ring m)) (rg_capacity (mb_ring m) * rg_esize (mb_ring m)) scratch 4098 \<and>
     mb_clear m scratch out_payload (unat (slot_size m)) \<and>
     (out_sender \<noteq> 0 \<longrightarrow> mb_clear m scratch out_sender 2 \<and> apart out_sender 2 out_payload (unat (slot_size m)))"

lemma apart_less: "apart p n q k \<Longrightarrow> k' \<le> k \<Longrightarrow> apart p n q k'"
  by (auto simp: apart_def)

lemma apart_within: "apart p n q k \<Longrightarrow> p \<le> p' \<Longrightarrow> p' + n' \<le> p + n \<Longrightarrow> apart p' n' q k"
  by (auto simp: apart_def)

lemma slot_bound: "mailbox_ok m \<Longrightarrow> unat (slot_size m) + 2 \<le> 4098"
  by (simp add: mailbox_ok_def word_le_nat_alt)

lemma scratch_client:
  "mailbox_ok m \<Longrightarrow>
   apart (rg_storage (mb_ring m)) (rg_capacity (mb_ring m) * rg_esize (mb_ring m)) scratch 4098 \<Longrightarrow>
   rb_client (mb_ring m) scratch"
  using slot_bound [of m] apart_less [of _ _ scratch 4098] by (simp add: rb_client_def mailbox_ok_def)

lemma composed_slot:
  assumes "apart scratch 4098 payload n" "n + 2 \<le> 4098"
  shows "load_bytes (memcpy (st16 mem scratch s) (scratch + 2) payload n) scratch (n + 2) =
    le_bytes 2 s @ load_bytes mem payload n"
proof -
  have "load_bytes (st16 mem scratch s) payload n = load_bytes mem payload n"
    using apart_within [OF assms(1), of scratch 2] by simp
  moreover have "apart (scratch + 2) n scratch 2" by (simp add: apart_def)
  ultimately show ?thesis
    using load_bytes_append [of "memcpy (st16 mem scratch s) (scratch + 2) payload n" scratch 2 n]
    by (simp add: memcpy_def add.commute) (simp add: store_le_def)
qed

lemma message_of_slot [simp]: "message_of (le_bytes 2 s @ bs) = (s, bs)"
  by (simp add: message_of_def take_bit_word_eq_self)

lemma whitelist_bit_test: "w AND whitelist_bit i = 0 \<longleftrightarrow> \<not> bit w (unat i)"
  by (simp add: whitelist_bit_def and_exp_eq_0_iff_not_bit)

section \<open>Send\<close>

lemma mb_push_frame:
  assumes "mailbox_ok m" "fifo_push (mb_fifo m) mem p = (ok, q, mem')"
  shows "mailbox_ok (m\<lparr>mb_fifo := q\<rparr>)" "ok \<longleftrightarrow> length (mb_messages m mem) < unat (depth m)"
    "mb_messages (m\<lparr>mb_fifo := q\<rparr>) mem' = mb_messages m mem @
      (if ok then [message_of (load_bytes mem p (unat (slot_size m) + 2))] else [])"
    "a \<notin> rb_extent (mb_ring m) \<Longrightarrow> mem' a = mem a" "\<not> ok \<Longrightarrow> q = mb_fifo m \<and> mem' = mem"
proof -
  have ok: "rb_ok (mb_ring m)" using assms(1) by (simp add: mailbox_ok_def)
  note c = fifo_push_cases [OF ok assms(2)]
  show "mailbox_ok (m\<lparr>mb_fifo := q\<rparr>)" "ok \<longleftrightarrow> length (mb_messages m mem) < unat (depth m)"
    "mb_messages (m\<lparr>mb_fifo := q\<rparr>) mem' = mb_messages m mem @
      (if ok then [message_of (load_bytes mem p (unat (slot_size m) + 2))] else [])"
    using c(1-3,5-7) assms(1) by (auto simp: mailbox_ok_def mb_messages_def)
  show "a \<notin> rb_extent (mb_ring m) \<Longrightarrow> mem' a = mem a" by (rule c(4))
  show "\<not> ok \<Longrightarrow> q = mb_fifo m \<and> mem' = mem" using assms(2) by (auto simp: fifo_push_def split: if_splits prod.splits)
qed

lemma mb_messages_frame:
  "mailbox_ok m \<Longrightarrow> (\<And>a. a \<in> rb_extent (mb_ring m) \<Longrightarrow> mem' a = mem a) \<Longrightarrow> mb_messages m mem' = mb_messages m mem"
  using rb_list_other [of "mb_ring m" mem' mem] by (simp add: mb_messages_def mailbox_ok_def)

lemma mb_full_count: "mailbox_ok m \<Longrightarrow> length (mb_messages m mem) \<le> unat (depth m)"
  by (simp add: mailbox_ok_def mb_messages_def rb_ok_def)

lemma mailbox_ok_counters [simp]:
  "mailbox_ok (m\<lparr>sends_rejected_perm := x\<rparr>) = mailbox_ok m" "mailbox_ok (m\<lparr>sends_rejected_full := x\<rparr>) = mailbox_ok m"
  "mailbox_ok (m\<lparr>sends_accepted := x\<rparr>) = mailbox_ok m" "mailbox_ok (m\<lparr>recvs := x\<rparr>) = mailbox_ok m"
  "mb_messages (m\<lparr>sends_rejected_perm := x\<rparr>) = mb_messages m" "mb_messages (m\<lparr>sends_rejected_full := x\<rparr>) = mb_messages m"
  "mb_messages (m\<lparr>sends_accepted := x\<rparr>) = mb_messages m" "mb_messages (m\<lparr>recvs := x\<rparr>) = mb_messages m"
  by (simp_all add: mailbox_ok_def mb_messages_def fun_eq_iff)

lemma mb_send_result:
  assumes "mailbox_ok m" and "send_places m scratch payload"
    and "vm_mailbox_send m sender payload n scratch mem e = (r, m', mem', e')"
  shows "r = (if payload = 0 \<or> n \<noteq> slot_size m then VM_MBOX_ERR_INVALID_ARG
      else if sender \<ge> VM_MAILBOX_WHITELIST_BITS then VM_MBOX_ERR_BAD_VM_ID
      else if \<not> vm_mailbox_whitelist_check m sender then VM_MBOX_ERR_NOT_WHITELISTED
      else if length (mb_messages m mem) = unat (depth m) then VM_MBOX_ERR_FULL else VM_MBOX_OK) \<and>
    mb_messages m' mem' = mb_messages m mem @
      (if r = VM_MBOX_OK then [(sender, load_bytes mem payload (unat (slot_size m)))] else []) \<and>
    mailbox_ok m' \<and>
    m' = m\<lparr>mb_fifo := mb_fifo m',
      sends_accepted := sends_accepted m + (if r = VM_MBOX_OK then 1 else 0),
      sends_rejected_full := sends_rejected_full m + (if r = VM_MBOX_ERR_FULL then 1 else 0),
      sends_rejected_perm := sends_rejected_perm m + (if r = VM_MBOX_ERR_NOT_WHITELISTED then 1 else 0)\<rparr> \<and>
    (\<forall>a. if a \<in> rb_extent (mb_ring m) \<union> extent scratch (unat (slot_size m) + 2) then True else mem' a = mem a)"
proof (cases "payload = 0 \<or> n \<noteq> slot_size m \<or> \<not> whitelist_id_valid sender")
  case True
  then have "m' = m" "mem' = mem" and r: "r = (if payload = 0 \<or> n \<noteq> slot_size m then VM_MBOX_ERR_INVALID_ARG else VM_MBOX_ERR_BAD_VM_ID)"
    using assms(3) by (auto simp: vm_mailbox_send_def split: if_splits)
  then show ?thesis using assms(1) True by (auto simp: whitelist_id_valid_def not_less)
next
  case False
  let ?sz = "unat (slot_size m)"
  let ?mem = "memcpy (st16 mem scratch sender) (scratch + 2) payload (unat n)"
  have n: "n = slot_size m" and pay: "payload \<noteq> 0" and id: "whitelist_id_valid sender" using False by simp_all
  have small: "?sz + 2 \<le> 4098" by (rule slot_bound [OF assms(1)])
  have slot: "load_bytes ?mem scratch (?sz + 2) = le_bytes 2 sender @ load_bytes mem payload ?sz"
    unfolding n using assms(2) small by (intro composed_slot) (auto simp: send_places_def mb_clear_def)
  have out: "?mem a = mem a" if "a \<notin> extent scratch (?sz + 2)" for a
    using that n by (auto simp: memcpy_def store_bytes_other store_le_other)
  have same: "mb_messages m ?mem = mb_messages m mem"
  proof (rule mb_messages_frame [OF assms(1)])
    fix a assume "a \<in> rb_extent (mb_ring m)"
    then have "a \<notin> extent scratch (?sz + 2)"
      using assms(2) small by (auto simp: send_places_def rb_extent_def apart_def)
    then show "?mem a = mem a" by (rule out)
  qed
  obtain lk e1 where lk: "mbox_lock m e = (lk, e1)" by (cases "mbox_lock m e")
  obtain ok q mem1 where push: "fifo_push (mb_fifo m) ?mem scratch = (ok, q, mem1)" by (metis prod_cases3)
  note f = mb_push_frame [OF assms(1) push]
  note full = mb_full_count [OF assms(1), of mem]
  have ans: "(r, m', mem') =
    (if \<not> vm_mailbox_whitelist_check m sender
     then (VM_MBOX_ERR_NOT_WHITELISTED, m\<lparr>sends_rejected_perm := sends_rejected_perm m + 1\<rparr>, ?mem)
     else if \<not> ok then (VM_MBOX_ERR_FULL, m\<lparr>sends_rejected_full := sends_rejected_full m + 1\<rparr>, ?mem)
     else (VM_MBOX_OK, m\<lparr>mb_fifo := q, sends_accepted := sends_accepted m + 1\<rparr>, mem1))"
    using assms(3) pay n id lk push f(5)
    by (auto simp: vm_mailbox_send_def Let_def vm_mailbox_whitelist_check_def split: if_splits)
  consider (perm) "\<not> vm_mailbox_whitelist_check m sender" | (full) "vm_mailbox_whitelist_check m sender" "\<not> ok"
    | (ok) "vm_mailbox_whitelist_check m sender" ok by blast
  then show ?thesis
  proof cases
    case perm
    then show ?thesis using ans assms(1) pay n id same out
      by (simp add: whitelist_id_valid_def not_le)
  next
    case full
    then show ?thesis using ans assms(1) pay n id same out f(2) mb_full_count [OF assms(1), of mem]
      by (simp add: whitelist_id_valid_def not_le)
  next
    case ok
    have "mem1 a = mem a" if "a \<notin> rb_extent (mb_ring m)" "a \<notin> extent scratch (?sz + 2)" for a
      using f(4) [OF that(1)] out [OF that(2)] by simp
    then show ?thesis using ans assms(1) pay n id same f(1-3) slot ok
      by (simp add: whitelist_id_valid_def not_le)
  qed
qed

section \<open>Receive and peek\<close>

lemma apart_extent: "apart p n q k \<Longrightarrow> a \<in> extent p n \<Longrightarrow> a \<notin> extent q k"
  by (auto simp: apart_def)

lemma mb_pop_frame:
  assumes "mailbox_ok m" "recv_places m scratch p s" "fifo_pop (mb_fifo m) mem scratch = (ok, q, mem')"
  shows "mailbox_ok (m\<lparr>mb_fifo := q\<rparr>)" "ok \<longleftrightarrow> mb_messages m mem \<noteq> []"
    "mb_messages m mem =
      (if ok then [message_of (load_bytes mem' scratch (unat (slot_size m) + 2))] else []) @ mb_messages (m\<lparr>mb_fifo := q\<rparr>) mem'"
    "a \<notin> extent scratch (unat (slot_size m) + 2) \<Longrightarrow> mem' a = mem a" "\<not> ok \<Longrightarrow> q = mb_fifo m \<and> mem' = mem"
    "rb_extent (ff_rb q) = rb_extent (mb_ring m)" "fifo_peek (mb_fifo m) mem scratch = (ok, mem')"
proof -
  have ok: "rb_ok (mb_ring m)" and es: "rg_esize (mb_ring m) = unat (slot_size m) + 2"
    using assms(1) by (simp_all add: mailbox_ok_def)
  have cl: "rb_client (mb_ring m) scratch" using assms(1,2) scratch_client by (auto simp: recv_places_def)
  note c = fifo_pop_cases [OF ok cl assms(3)]
  show "mailbox_ok (m\<lparr>mb_fifo := q\<rparr>)" "ok \<longleftrightarrow> mb_messages m mem \<noteq> []"
    "mb_messages m mem =
      (if ok then [message_of (load_bytes mem' scratch (unat (slot_size m) + 2))] else []) @ mb_messages (m\<lparr>mb_fifo := q\<rparr>) mem'"
    using c(1-3,5-7) assms(1) by (auto simp: mailbox_ok_def mb_messages_def)
  show "a \<notin> extent scratch (unat (slot_size m) + 2) \<Longrightarrow> mem' a = mem a" using c(4) es by simp
  show "\<not> ok \<Longrightarrow> q = mb_fifo m \<and> mem' = mem" using assms(3)
    by (auto simp: fifo_pop_def rb_pop_def Let_def split: if_splits)
  show "rb_extent (ff_rb q) = rb_extent (mb_ring m)" using c(5-7) by (simp add: rb_extent_def)
  show "fifo_peek (mb_fifo m) mem scratch = (ok, mem')" using assms(3)
    by (auto simp: fifo_pop_def fifo_peek_def rb_pop_def rb_peek_def Let_def split: if_splits)
qed

text \<open>What a call that took a slot into its local buffer leaves in the caller's places.\<close>

lemma split_slot:
  assumes mem1_def: "mem1 = (if s \<noteq> 0 then memcpy mem s scratch 2 else mem)"
    and mem2_def: "mem2 = memcpy mem1 p (scratch + 2) n"
    and "apart scratch 4098 p n" "n + 2 \<le> 4098" "s \<noteq> 0 \<Longrightarrow> apart scratch 4098 s 2 \<and> apart s 2 p n"
  shows "load_bytes mem2 p n = snd (message_of (load_bytes mem scratch (n + 2)))"
    "s \<noteq> 0 \<Longrightarrow> ld16 mem2 s = fst (message_of (load_bytes mem scratch (n + 2)))"
    "a \<notin> extent p n \<Longrightarrow> s = 0 \<or> a \<notin> extent s 2 \<Longrightarrow> mem2 a = mem a"
proof -
  have "load_bytes mem1 (scratch + 2) n = load_bytes mem (scratch + 2) n"
  proof (cases "s = 0")
    case False
    have "apart s 2 (scratch + 2) n"
      using apart_within [of scratch 4098 s 2 "scratch + 2" n] assms(4,5) False by (simp add: apart_sym)
    then show ?thesis using False by (simp add: mem1_def memcpy_def)
  qed (simp add: mem1_def)
  then show "load_bytes mem2 p n = snd (message_of (load_bytes mem scratch (n + 2)))"
    by (simp add: mem2_def memcpy_def message_of_def)
  have "take 2 (load_bytes mem scratch (n + 2)) = load_bytes mem scratch 2" by (simp add: min_def del: One_nat_def add_2_eq_Suc add_2_eq_Suc')
  then show "ld16 mem2 s = fst (message_of (load_bytes mem scratch (n + 2)))" if "s \<noteq> 0"
    using that assms(5) unfolding message_of_def fst_conv
    by (simp add: mem2_def mem1_def memcpy_def apart_sym load_le_def)
  show "mem2 a = mem a" if "a \<notin> extent p n" "s = 0 \<or> a \<notin> extent s 2"
    using that by (auto simp: mem2_def mem1_def memcpy_def store_bytes_other)
qed

lemma mb_recv_result:
  assumes "mailbox_ok m" and "recv_places m scratch p s"
    and "vm_mailbox_recv m p s scratch mem e = (r, m', mem', e')"
  shows "r = (if p = 0 then VM_MBOX_ERR_INVALID_ARG
      else if mb_messages m mem = [] then VM_MBOX_ERR_EMPTY else VM_MBOX_OK) \<and>
    (if r = VM_MBOX_OK
     then mb_messages m mem = (if s \<noteq> 0 then ld16 mem' s else fst (hd (mb_messages m mem)),
         load_bytes mem' p (unat (slot_size m))) # mb_messages m' mem'
     else m' = m \<and> mem' = mem) \<and>
    mailbox_ok m' \<and>
    m' = m\<lparr>mb_fifo := mb_fifo m', recvs := recvs m + (if r = VM_MBOX_OK then 1 else 0)\<rparr> \<and>
    (\<forall>a. if a \<in> extent p (unat (slot_size m)) \<or> s \<noteq> 0 \<and> a \<in> extent s 2 \<or>
           a \<in> extent scratch (unat (slot_size m) + 2) then True else mem' a = mem a) \<and>
    (if p = 0 then True
     else fst (vm_mailbox_peek m p s scratch mem e) = r \<and> fst (snd (vm_mailbox_peek m p s scratch mem e)) = mem')"
proof (cases "p = 0")
  case True
  then show ?thesis using assms by (auto simp: vm_mailbox_recv_def)
next
  case False
  let ?sz = "unat (slot_size m)"
  obtain lk e1 where lk: "mbox_lock m e = (lk, e1)" by (cases "mbox_lock m e")
  obtain ok q mem1 where pop: "fifo_pop (mb_fifo m) mem scratch = (ok, q, mem1)" by (metis prod_cases3)
  note f = mb_pop_frame [OF assms(1,2) pop]
  show ?thesis
  proof (cases ok)
    case no: False
    then have "r = VM_MBOX_ERR_EMPTY" "m' = m" "mem' = mem"
      using assms(3) False lk pop f(5) by (auto simp: vm_mailbox_recv_def Let_def)
    then show ?thesis using assms(1) f(2,5,7) no False lk by (simp add: vm_mailbox_peek_def Let_def)
  next
    case True
    define mem2 where "mem2 = memcpy (if s \<noteq> 0 then memcpy mem1 s scratch 2 else mem1) p (scratch + 2) ?sz"
    have res: "r = VM_MBOX_OK" "m' = m\<lparr>mb_fifo := q, recvs := recvs m + 1\<rparr>" "mem' = mem2"
      using assms(3) False lk pop True by (auto simp: vm_mailbox_recv_def Let_def mem2_def)
    have small: "?sz + 2 \<le> 4098" by (rule slot_bound [OF assms(1)])
    have places: "apart scratch 4098 p ?sz" "s \<noteq> 0 \<Longrightarrow> apart scratch 4098 s 2 \<and> apart s 2 p ?sz"
      using assms(2) by (auto simp: recv_places_def mb_clear_def)
    have d: "load_bytes mem2 p ?sz = snd (message_of (load_bytes mem1 scratch (?sz + 2)))"
      "s \<noteq> 0 \<Longrightarrow> ld16 mem2 s = fst (message_of (load_bytes mem1 scratch (?sz + 2)))"
      "\<And>a. a \<notin> extent p ?sz \<Longrightarrow> s = 0 \<or> a \<notin> extent s 2 \<Longrightarrow> mem2 a = mem1 a"
      by (rule split_slot [OF refl mem2_def places(1) small places(2)]; assumption)+
    have keep: "mb_messages (m\<lparr>mb_fifo := q\<rparr>) mem2 = mb_messages (m\<lparr>mb_fifo := q\<rparr>) mem1"
    proof (rule mb_messages_frame [OF f(1)])
      fix a assume "a \<in> rb_extent (mb_ring (m\<lparr>mb_fifo := q\<rparr>))"
      then have a: "a \<in> extent (rg_storage (mb_ring m)) (rg_capacity (mb_ring m) * rg_esize (mb_ring m))"
        using f(6) by (simp add: rb_extent_def [symmetric] del: in_extent)
      have "a \<notin> extent p ?sz" "s = 0 \<or> a \<notin> extent s 2"
        using assms(2) apart_extent [OF _ a] unfolding recv_places_def mb_clear_def by blast+
      then show "mem2 a = mem1 a" by (rule d(3))
    qed
    have msg: "mb_messages m mem = message_of (load_bytes mem1 scratch (?sz + 2)) # mb_messages (m\<lparr>mb_fifo := q\<rparr>) mem2"
      using f(3) True keep by simp
    have out: "mem2 a = mem a" if "a \<notin> extent p ?sz" "s = 0 \<or> a \<notin> extent s 2" "a \<notin> extent scratch (?sz + 2)" for a
      using d(3) [OF that(1,2)] f(4) [OF that(3)] by simp
    have peek: "vm_mailbox_peek m p s scratch mem e = (VM_MBOX_OK, mem2, mbox_unlock m lk e1)"
      using False lk f(7) True by (simp add: vm_mailbox_peek_def Let_def mem2_def)
    have "mb_messages m mem = (if s \<noteq> 0 then ld16 mem2 s else fst (hd (mb_messages m mem)), load_bytes mem2 p ?sz) #
        mb_messages m' mem2"
      unfolding msg list.sel res(2) using d(1,2) by (cases "s = 0") simp_all
    then show ?thesis using res False f(1) peek out msg unfolding res by auto
  qed
qed


section \<open>Order\<close>

text \<open>
  The mailbox as a bounded queue of messages: a send hands over a sender, a payload and the
  call's local buffer, a receive two places to deliver into and its buffer; what a send may
  do depends on the whitelist.
\<close>

type_synonym 'e mb_state = "'e VmMailbox \<times> hmem \<times> 'e"

definition mb_push :: "'e mb_state \<Rightarrow> u16 \<times> hptr \<times> hptr \<Rightarrow> bool \<times> 'e mb_state" where
  "mb_push = (\<lambda>(m, mem, e) (sender, payload, scratch).
     let (r, s) = vm_mailbox_send m sender payload (slot_size m) scratch mem e in (r = VM_MBOX_OK, s))"

definition mb_pop :: "'e mb_state \<Rightarrow> hptr \<times> hptr \<times> hptr \<Rightarrow> bool \<times> 'e mb_state" where
  "mb_pop = (\<lambda>(m, mem, e) (out_payload, out_sender, scratch).
     let (r, s) = vm_mailbox_recv m out_payload out_sender scratch mem e in (r = VM_MBOX_OK, s))"

definition mb_src :: "'e mb_state \<Rightarrow> u16 \<times> hptr \<times> hptr \<Rightarrow> u16 \<times> u8 list" where
  "mb_src = (\<lambda>(m, mem, e) (sender, payload, scratch). (sender, load_bytes mem payload (unat (slot_size m))))"

definition mb_dst :: "'e mb_state \<Rightarrow> hptr \<times> hptr \<times> hptr \<Rightarrow> u16 \<times> u8 list" where
  "mb_dst = (\<lambda>(m, mem, e) (out_payload, out_sender, scratch).
     (ld16 mem out_sender, load_bytes mem out_payload (unat (slot_size m))))"

definition mb_pusher :: "'e VmMailbox \<Rightarrow> u16 \<times> hptr \<times> hptr \<Rightarrow> bool" where
  "mb_pusher m = (\<lambda>(sender, payload, scratch). payload \<noteq> 0 \<and> send_places m scratch payload)"

definition mb_popper :: "'e VmMailbox \<Rightarrow> hptr \<times> hptr \<times> hptr \<Rightarrow> bool" where
  "mb_popper m = (\<lambda>(p, s, scratch). p \<noteq> 0 \<and> s \<noteq> 0 \<and> recv_places m scratch p s)"

lemma mb_geometry:
  assumes "mailbox_ok m" "mailbox_ok m'" "rg_storage (mb_ring m') = rg_storage (mb_ring m)"
    "slot_size m' = slot_size m" "depth m' = depth m"
  shows "mb_pusher m' = mb_pusher m" "mb_popper m' = mb_popper m"
  using assms by (simp_all add: mb_pusher_def mb_popper_def send_places_def recv_places_def mb_clear_def mailbox_ok_def)

lemma send_storage:
  "vm_mailbox_send m sender payload n scratch mem e = (r, m', mem', e') \<Longrightarrow> rg_storage (mb_ring m') = rg_storage (mb_ring m)"
  by (auto simp: vm_mailbox_send_def Let_def fifo_push_def rb_push_def split: if_splits prod.splits)

lemma recv_storage:
  "vm_mailbox_recv m p s scratch mem e = (r, m', mem', e') \<Longrightarrow> rg_storage (mb_ring m') = rg_storage (mb_ring m)"
  by (auto simp: vm_mailbox_recv_def Let_def fifo_pop_def rb_pop_def split: if_splits prod.splits)

lemma whitelist_check_cong: "whitelist m' = whitelist m \<Longrightarrow> vm_mailbox_whitelist_check m' = vm_mailbox_whitelist_check m"
  by (simp add: vm_mailbox_whitelist_check_def fun_eq_iff)

interpretation mailbox: bounded_queue mb_push mb_pop mb_src mb_dst
  "\<lambda>(m, mem, e). mailbox_ok m" "\<lambda>(m, mem, e). mb_pusher m" "\<lambda>(m, mem, e). mb_popper m"
  "\<lambda>(m, mem, e) (sender, payload, scratch). vm_mailbox_whitelist_check m sender"
  "\<lambda>(m, mem, e). mb_messages m mem" "\<lambda>(m, mem, e). unat (depth m)"
proof (unfold_locales, goal_cases)
  case (1 x p ok x')
  obtain m mem e where x: "x = (m, mem, e)" by (metis prod_cases3)
  obtain sender payload scratch where p: "p = (sender, payload, scratch)" by (metis prod_cases3)
  obtain r m' mem' e' where s: "vm_mailbox_send m sender payload (slot_size m) scratch mem e = (r, m', mem', e')"
    by (metis prod_cases4)
  have x': "x' = (m', mem', e')" "ok \<longleftrightarrow> r = VM_MBOX_OK" using 1 x p s by (auto simp: mb_push_def)
  have pre: "mailbox_ok m" "send_places m scratch payload" "payload \<noteq> 0" using 1 x p by (auto simp: mb_pusher_def)
  note c = mb_send_result [OF pre(1,2) s]
  have m': "mailbox_ok m'" using c by blast
  have eq: "m' = m\<lparr>mb_fifo := mb_fifo m', sends_accepted := sends_accepted m + (if r = VM_MBOX_OK then 1 else 0),
      sends_rejected_full := sends_rejected_full m + (if r = VM_MBOX_ERR_FULL then 1 else 0),
      sends_rejected_perm := sends_rejected_perm m + (if r = VM_MBOX_ERR_NOT_WHITELISTED then 1 else 0)\<rparr>"
    using c by blast
  have f: "whitelist m' = whitelist m" "slot_size m' = slot_size m" "depth m' = depth m" by (subst eq, simp)+
  have valid: "\<not> 64 \<le> sender" if "vm_mailbox_whitelist_check m sender"
    using that by (simp add: vm_mailbox_whitelist_check_def whitelist_id_valid_def not_le)
  have "r = VM_MBOX_OK \<longleftrightarrow> vm_mailbox_whitelist_check m sender \<and> length (mb_messages m mem) < unat (depth m)"
    using c pre(3) valid mb_full_count [OF pre(1), of mem] by (simp split: if_splits)
  then show ?case
    unfolding x x'(1) p prod.case mb_src_def using c m' x'(2) whitelist_check_cong [OF f(1)]
      mb_geometry [OF pre(1) m' send_storage [OF s] f(2,3)] f(3) by auto
next
  case (2 x p ok x')
  obtain m mem e where x: "x = (m, mem, e)" by (metis prod_cases3)
  obtain q s scratch where p: "p = (q, s, scratch)" by (metis prod_cases3)
  obtain r m' mem' e' where v: "vm_mailbox_recv m q s scratch mem e = (r, m', mem', e')" by (metis prod_cases4)
  have x': "x' = (m', mem', e')" "ok \<longleftrightarrow> r = VM_MBOX_OK" using 2 x p v by (auto simp: mb_pop_def)
  have pre: "mailbox_ok m" "recv_places m scratch q s" "q \<noteq> 0" "s \<noteq> 0" using 2 x p by (auto simp: mb_popper_def)
  note c = mb_recv_result [OF pre(1,2) v]
  have m': "mailbox_ok m'" using c by blast
  have eq: "m' = m\<lparr>mb_fifo := mb_fifo m', recvs := recvs m + (if r = VM_MBOX_OK then 1 else 0)\<rparr>"
    using c by blast
  have f: "whitelist m' = whitelist m" "slot_size m' = slot_size m" "depth m' = depth m" by (subst eq, simp)+
  have ok: "r = VM_MBOX_OK \<longleftrightarrow> mb_messages m mem \<noteq> []" using c pre(3) by simp
  have cont: "mb_messages m mem = (if ok then mb_dst (m', mem', e') (q, s, scratch) # mb_messages m' mem' else mb_messages m' mem')"
    using c [THEN conjunct2, THEN conjunct1] pre(4) x'(2) f(2) unfolding mb_dst_def prod.case by (cases ok) simp_all
  show ?case
    unfolding x x'(1) p prod.case using cont ok m' x'(2) whitelist_check_cong [OF f(1)]
      mb_geometry [OF pre(1) m' recv_storage [OF v] f(2,3)] f(3) by auto
qed


section \<open>Properties\<close>

text \<open>
  C22. Sending: the answer is the first of the checks that fails, in the order null payload or
  wrong size, sender out of range, sender not whitelisted, mailbox full. Only a send that
  succeeds changes the queue, and then it adds exactly the sender and the payload bytes at
  the end; each answer past the argument checks raises exactly its own counter. Nothing is
  written outside the mailbox's storage and the call's local buffer.
\<close>

theorem mailbox_send_contract:
  assumes "mailbox_ok m" and "send_places m scratch payload"
    and "vm_mailbox_send m sender payload n scratch mem e = (r, m', mem', e')"
  shows "r = (if payload = 0 \<or> n \<noteq> slot_size m then VM_MBOX_ERR_INVALID_ARG
      else if sender \<ge> VM_MAILBOX_WHITELIST_BITS then VM_MBOX_ERR_BAD_VM_ID
      else if \<not> vm_mailbox_whitelist_check m sender then VM_MBOX_ERR_NOT_WHITELISTED
      else if length (mb_messages m mem) = unat (depth m) then VM_MBOX_ERR_FULL else VM_MBOX_OK) \<and>
    mb_messages m' mem' = mb_messages m mem @
      (if r = VM_MBOX_OK then [(sender, load_bytes mem payload (unat (slot_size m)))] else []) \<and>
    mailbox_ok m' \<and>
    m' = m\<lparr>mb_fifo := mb_fifo m',
      sends_accepted := sends_accepted m + (if r = VM_MBOX_OK then 1 else 0),
      sends_rejected_full := sends_rejected_full m + (if r = VM_MBOX_ERR_FULL then 1 else 0),
      sends_rejected_perm := sends_rejected_perm m + (if r = VM_MBOX_ERR_NOT_WHITELISTED then 1 else 0)\<rparr> \<and>
    (\<forall>a. if a \<in> rb_extent (mb_ring m) \<union> extent scratch (unat (slot_size m) + 2) then True else mem' a = mem a)"
  using assms by (rule mb_send_result)

text \<open>
  Receiving: with a place for the payload and a message waiting, the call delivers the oldest
  one, its payload bytes and the id its sender had (when there is a place for it), removes it
  and no other, and counts it; on an empty mailbox it says so and changes nothing. Only the
  caller's places and the call's local buffer are written. A peek leaves the same answer and
  the same memory as the receive would, without touching the mailbox.
\<close>

theorem mailbox_recv_contract:
  assumes "mailbox_ok m" and "recv_places m scratch p s"
    and "vm_mailbox_recv m p s scratch mem e = (r, m', mem', e')"
  shows "r = (if p = 0 then VM_MBOX_ERR_INVALID_ARG
      else if mb_messages m mem = [] then VM_MBOX_ERR_EMPTY else VM_MBOX_OK) \<and>
    (if r = VM_MBOX_OK
     then mb_messages m mem = (if s \<noteq> 0 then ld16 mem' s else fst (hd (mb_messages m mem)),
         load_bytes mem' p (unat (slot_size m))) # mb_messages m' mem'
     else m' = m \<and> mem' = mem) \<and>
    mailbox_ok m' \<and>
    m' = m\<lparr>mb_fifo := mb_fifo m', recvs := recvs m + (if r = VM_MBOX_OK then 1 else 0)\<rparr> \<and>
    (\<forall>a. if a \<in> extent p (unat (slot_size m)) \<or> s \<noteq> 0 \<and> a \<in> extent s 2 \<or>
           a \<in> extent scratch (unat (slot_size m) + 2) then True else mem' a = mem a) \<and>
    (if p = 0 then True
     else fst (vm_mailbox_peek m p s scratch mem e) = r \<and> fst (snd (vm_mailbox_peek m p s scratch mem e)) = mem')"
  using assms by (rule mb_recv_result)

text \<open>
  C23. Messages arrive whole, in order, once, and with the true sender's id: over any sequence of
  sends and receives on a mailbox, the messages waiting at first followed by the accepted
  ones are the delivered ones followed by those still waiting.
\<close>

theorem mailbox_order:
  assumes "mailbox_ok m" and "\<forall>x \<in> set ops. op_ok (mb_pusher m) (mb_popper m) x"
    and "run_queue mb_push mb_pop mb_src mb_dst ops (m, mem, e) = (accepted, delivered, m', mem', e')"
  shows "mb_messages m mem @ accepted = delivered @ mb_messages m' mem' \<and> mailbox_ok m'"
  using mailbox.run_order [of "(m, mem, e)" ops accepted delivered "(m', mem', e')"] assms by simp

text \<open>A mailbox of two four-byte slots that takes messages from VM 3 only.\<close>

definition zero_mailbox :: "'e VmMailbox" where
  "zero_mailbox = \<lparr>sends_accepted = 0, sends_rejected_full = 0, sends_rejected_perm = 0, recvs = 0,
     slot_size = 0, depth = 0, whitelist = 0, mb_fifo = fifo_init 0 0 0, mb_locker = vm_mailbox_null_locker\<rparr>"

definition demo_mailbox :: "unit VmMailbox" where
  "demo_mailbox = fst (snd (vm_mailbox_whitelist_set (snd (vm_mailbox_init zero_mailbox 100 4 2)) 3 ()))"

lemma demo_mailbox_simps [simp]:
  "mailbox_ok demo_mailbox" "slot_size demo_mailbox = 4" "depth demo_mailbox = 2" "mb_messages demo_mailbox mem = []"
  "rg_storage (mb_ring demo_mailbox) = 100" "rg_capacity (mb_ring demo_mailbox) = 2" "rg_esize (mb_ring demo_mailbox) = 6"
  "vm_mailbox_whitelist_check demo_mailbox 3" "\<not> vm_mailbox_whitelist_check demo_mailbox 4"
  by (simp_all add: demo_mailbox_def vm_mailbox_whitelist_set_def vm_mailbox_init_def whitelist_id_valid_def
      mbox_lock_def vm_mailbox_null_locker_def mailbox_ok_def fifo_init_def rb_init_ok mb_messages_def rb_list_def
      vm_mailbox_whitelist_check_def whitelist_bit_def Let_def) (simp_all add: rb_init_def)

definition demo_mem_ramp :: hmem where
  "demo_mem_ramp = store_bytes (\<lambda>_. 0) 20 [20, 21, 22, 23, 24, 25, 26, 27, 28, 29, 30, 31]"

theorem mailbox_send_contract_witness:
  "case vm_mailbox_send demo_mailbox 3 20 4 1000 demo_mem_ramp () of (r, m', mem', e') \<Rightarrow>
     r = VM_MBOX_OK \<and> mb_messages m' mem' = [(3, [20, 21, 22, 23])]"
proof -
  obtain r m' mem' e' where s: "vm_mailbox_send demo_mailbox 3 20 4 1000 demo_mem_ramp () = (r, m', mem', e')"
    by (metis prod_cases4)
  have "send_places demo_mailbox 1000 20" by (simp add: send_places_def mb_clear_def apart_def)
  from mailbox_send_contract [OF _ this s]
  have "r = VM_MBOX_OK \<and> mb_messages m' mem' = [(3, load_bytes demo_mem_ramp 20 4)]" by simp
  then show ?thesis unfolding s by (simp add: load_bytes_def demo_mem_ramp_def store_bytes_def upt_rec)
qed

definition demo_filled :: "unit VmMailbox \<times> hmem \<times> unit" where
  "demo_filled = snd (vm_mailbox_send demo_mailbox 3 20 4 1000 demo_mem_ramp ())"

theorem mailbox_recv_contract_witness:
  "case demo_filled of (m, mem, e) \<Rightarrow>
     (case vm_mailbox_recv m 6000 6100 1000 mem e of (r, m', mem', e') \<Rightarrow>
        r = VM_MBOX_OK \<and> ld16 mem' 6100 = 3 \<and> load_bytes mem' 6000 4 = [20, 21, 22, 23])"
proof -
  obtain m mem e where d: "demo_filled = (m, mem, e)" by (metis prod_cases3)
  have "send_places demo_mailbox 1000 20" by (simp add: send_places_def mb_clear_def apart_def)
  then obtain r0 where snd: "vm_mailbox_send demo_mailbox 3 20 4 1000 demo_mem_ramp () = (r0, m, mem, e)"
    and pl: "send_places demo_mailbox 1000 20"
    using d by (cases "vm_mailbox_send demo_mailbox 3 20 4 1000 demo_mem_ramp ()") (auto simp: demo_filled_def)
  note c = mb_send_result [OF demo_mailbox_simps(1) pl snd]
  have r0: "r0 = VM_MBOX_OK" using c by simp
  have m: "mb_messages m mem = [(3, load_bytes demo_mem_ramp 20 4)]" "mailbox_ok m" using c r0 by simp_all
  have "\<exists>q a b c. m = demo_mailbox\<lparr>mb_fifo := q, sends_accepted := a, sends_rejected_full := b, sends_rejected_perm := c\<rparr>"
    using c by blast
  then have eq: "slot_size m = 4" "depth m = 2" by auto
  have pl2: "recv_places m 1000 6000 6100"
    using m(2) send_storage [OF snd] eq by (simp add: recv_places_def mb_clear_def mailbox_ok_def apart_def)
  obtain r m' mem' e' where v: "vm_mailbox_recv m 6000 6100 1000 mem e = (r, m', mem', e')" by (metis prod_cases4)
  note c = mailbox_recv_contract [OF m(2) pl2 v]
  have "r = VM_MBOX_OK" using c m(1) by simp
  moreover have "mb_messages m mem = (ld16 mem' 6100, load_bytes mem' 6000 4) # mb_messages m' mem'"
    using c [THEN conjunct2, THEN conjunct1] \<open>r = VM_MBOX_OK\<close> eq by simp
  then have "ld16 mem' 6100 = 3 \<and> load_bytes mem' 6000 4 = load_bytes demo_mem_ramp 20 4" using m(1) by simp
  ultimately show ?thesis unfolding d prod.case v by (simp add: load_bytes_def demo_mem_ramp_def store_bytes_def upt_rec)
qed

theorem mailbox_order_witness:
  "case run_queue mb_push mb_pop mb_src mb_dst [QPush (3, 20, 1000), QPop (6000, 6100, 1000)]
      (demo_mailbox, demo_mem_ramp, ()) of (accepted, delivered, m', mem', e') \<Rightarrow>
    accepted = [(3, [20, 21, 22, 23])] \<and> delivered = accepted \<and> mb_messages m' mem' = []"
proof -
  let ?s = "(demo_mailbox, demo_mem_ramp, ())" and ?p = "(3, 20, 1000)" and ?q = "(6000, 6100, 1000)"
  have pl: "mb_pusher demo_mailbox ?p" "mb_popper demo_mailbox ?q"
    by (simp_all add: mb_pusher_def mb_popper_def send_places_def recv_places_def mb_clear_def apart_def)
  obtain ok s1 where push: "mb_push ?s ?p = (ok, s1)" by (cases "mb_push ?s ?p")
  obtain ok' s2 where pop: "mb_pop s1 ?q = (ok', s2)" by (cases "mb_pop s1 ?q")
  have one: "ok" "ok'" "mb_dst s2 ?q = mb_src ?s ?p"
    using mailbox.pop_after_push [OF _ _ _ _ _ _ push pop] pl by simp_all
  obtain m' mem' e' where s2: "s2 = (m', mem', e')" by (metis prod_cases3)
  have run: "run_queue mb_push mb_pop mb_src mb_dst [QPush ?p, QPop ?q] ?s = ([mb_src ?s ?p], [mb_src ?s ?p], m', mem', e')"
    using push pop one s2 by simp
  have "\<forall>x \<in> set [QPush ?p, QPop ?q]. op_ok (mb_pusher demo_mailbox) (mb_popper demo_mailbox) x" using pl by simp
  from mailbox_order [OF demo_mailbox_simps(1) this run] have "mb_messages m' mem' = []" by simp
  then show ?thesis unfolding run
    by (simp add: mb_src_def load_bytes_def demo_mem_ramp_def store_bytes_def upt_rec)
qed

end
