(* ===== verification/VM_Loader.thy ===== *)
theory VM_Loader
  imports VM_Types Slab_Client
begin

text \<open>
  The ELF loader (\<open>src/vm/vm_loader.c\<close>, \<open>include/vm/vm_loader.h\<close>). The image is the \<open>elf_size\<close> bytes of
  host memory from \<open>elf\<close>; the RAM arena is the slab allocator of \<open>Slab\<close>, passed along with the
  memory and the locker's environment. \<open>ram_arena\<close> keeps the pointer itself only for its NULL
  test. The hosts are little-endian, so the byte swaps of \<open>rd16\<close> and \<open>rd32\<close> are not compiled in.
\<close>

section \<open>Data\<close>

datatype VmBacking = VM_BACKING_XIP | VM_BACKING_COPY_RAM

datatype VmLoadResult =
    VM_LOAD_OK
  | VM_LOAD_ERR_TRUNCATED | VM_LOAD_ERR_BAD_MAGIC | VM_LOAD_ERR_NOT_RV32 | VM_LOAD_ERR_NOT_LITTLE_ENDIAN
  | VM_LOAD_ERR_BAD_VERSION | VM_LOAD_ERR_NOT_RISCV | VM_LOAD_ERR_NOT_EXECUTABLE | VM_LOAD_ERR_BAD_ENTRY
  | VM_LOAD_ERR_DYNAMIC_FORBIDDEN | VM_LOAD_ERR_INTERP_FORBIDDEN | VM_LOAD_ERR_SEG_OUT_OF_RANGE
  | VM_LOAD_ERR_SEG_REGION_MISMATCH | VM_LOAD_ERR_SEG_BSS_IN_RO | VM_LOAD_ERR_SEG_TOO_LARGE
  | VM_LOAD_ERR_UNRESOLVED_RELOCS | VM_LOAD_ERR_OUT_OF_RAM | VM_LOAD_ERR_DATA_SIZE_TOO_SMALL
  | VM_LOAD_ERR_INVALID_ARG

record VmLoaderConfig =
  code_backing :: VmBacking
  rodata_backing :: VmBacking
  ram_arena :: hptr
  region_data_size :: u32
  shared_base :: hptr
  shared_size :: u32
  l2_shared_base :: hptr
  l2_shared_size :: u32

type_synonym 'e load_state = "VmCpu \<times> 'e SlabAllocator \<times> hmem \<times> 'e"

abbreviation (input) ELF32_EHDR_SIZE :: u64 where "ELF32_EHDR_SIZE \<equiv> 52"
abbreviation (input) ELF32_PHDR_SIZE :: u64 where "ELF32_PHDR_SIZE \<equiv> 32"
abbreviation (input) PT_LOAD :: u32 where "PT_LOAD \<equiv> 1"
abbreviation (input) PT_DYNAMIC :: u32 where "PT_DYNAMIC \<equiv> 2"
abbreviation (input) PT_INTERP :: u32 where "PT_INTERP \<equiv> 3"
abbreviation (input) PF_W :: u32 where "PF_W \<equiv> 2"

definition rd16 :: "hmem \<Rightarrow> hptr \<Rightarrow> u16" where "rd16 mem p = ld16 mem p"
definition rd32 :: "hmem \<Rightarrow> hptr \<Rightarrow> u32" where "rd32 mem p = ld32 mem p"

definition vaddr_to_region :: "u32 \<Rightarrow> u32" where "vaddr_to_region vaddr = drop_bit 30 vaddr"

section \<open>Segments\<close>

definition validate_pt_load :: "u32 \<Rightarrow> u32 \<Rightarrow> u32 \<Rightarrow> u32 \<Rightarrow> VmLoadResult" where
  "validate_pt_load vaddr filesz memsz flags =
     (let region = vaddr_to_region vaddr in
      if region = VM_REGION_SHARED then VM_LOAD_ERR_SEG_OUT_OF_RANGE
      else let offset = vaddr AND 0x3FFFFFFF in
      if memsz > 0x40000000 \<or> offset > 0x40000000 - memsz then VM_LOAD_ERR_SEG_TOO_LARGE
      else if memsz < filesz then VM_LOAD_ERR_SEG_OUT_OF_RANGE
      else let is_writable = (flags AND PF_W \<noteq> 0) in
      if region = VM_REGION_CODE \<or> region = VM_REGION_RODATA then
        if is_writable then VM_LOAD_ERR_SEG_REGION_MISMATCH
        else if memsz > filesz then VM_LOAD_ERR_SEG_BSS_IN_RO
        else VM_LOAD_OK
      else VM_LOAD_OK)"

definition set_region :: "u32 \<Rightarrow> hptr \<Rightarrow> u32 \<Rightarrow> bool \<Rightarrow> VmCpu \<Rightarrow> VmCpu" where
  "set_region r base len w cpu =
     cpu\<lparr>regions := (regions cpu)(r := \<lparr>r_base = base, r_length = len, r_writable = w\<rparr>)\<rparr>"

definition apply_pt_load ::
  "VmLoaderConfig \<Rightarrow> hptr \<Rightarrow> u32 \<Rightarrow> u32 \<Rightarrow> u32 \<Rightarrow> u32 \<Rightarrow> 'e load_state \<Rightarrow> VmLoadResult \<times> 'e load_state" where
  "apply_pt_load cfg elf offset filesz memsz vaddr = (\<lambda>(cpu, a, mem, e).
     let region = vaddr_to_region vaddr in
     if region = VM_REGION_CODE \<or> region = VM_REGION_RODATA then
       let mode = (if region = VM_REGION_CODE then code_backing cfg else rodata_backing cfg) in
       if mode = VM_BACKING_XIP then
         let src = elf + unat offset in
         if region = VM_REGION_CODE \<and> odd src then (VM_LOAD_ERR_INVALID_ARG, cpu, a, mem, e)
         else (VM_LOAD_OK, set_region region src filesz False cpu, a, mem, e)
       else
         let (dst, a, mem, e) = slab_alloc a mem e (ucast filesz) in
         if dst = 0 then (VM_LOAD_ERR_OUT_OF_RAM, cpu, a, mem, e)
         else
           let mem = memcpy mem dst (elf + unat offset) (unat filesz)
           in (VM_LOAD_OK, set_region region dst filesz False cpu, a, mem, e)
     else if region_data_size cfg < memsz then (VM_LOAD_ERR_DATA_SIZE_TOO_SMALL, cpu, a, mem, e)
     else
       let (dst, a, mem, e) = slab_alloc a mem e (ucast (region_data_size cfg)) in
       if dst = 0 then (VM_LOAD_ERR_OUT_OF_RAM, cpu, a, mem, e)
       else
         let mem = (if filesz > 0 then memcpy mem dst (elf + unat offset) (unat filesz) else mem);
             mem = (if memsz > filesz then memset0 mem (dst + unat filesz) (unat (memsz - filesz)) else mem)
         in (VM_LOAD_OK, set_region region dst (region_data_size cfg) True cpu, a, mem, e))"

section \<open>The image\<close>

text \<open>The checks of the ELF header.\<close>

definition check_ehdr :: "hmem \<Rightarrow> hptr \<Rightarrow> u64 \<Rightarrow> VmLoadResult" where
  "check_ehdr mem elf elf_size =
     (if elf_size < ELF32_EHDR_SIZE then VM_LOAD_ERR_TRUNCATED
      else if mem elf \<noteq> 0x7F \<or> mem (elf + 1) \<noteq> 0x45 \<or> mem (elf + 2) \<noteq> 0x4C \<or> mem (elf + 3) \<noteq> 0x46
      then VM_LOAD_ERR_BAD_MAGIC
      else if mem (elf + 4) \<noteq> 1 then VM_LOAD_ERR_NOT_RV32
      else if mem (elf + 5) \<noteq> 1 then VM_LOAD_ERR_NOT_LITTLE_ENDIAN
      else if mem (elf + 6) \<noteq> 1 then VM_LOAD_ERR_BAD_VERSION
      else
        let e_type = rd16 mem (elf + 16);
            e_machine = rd16 mem (elf + 18);
            e_version = rd32 mem (elf + 20);
            e_entry = rd32 mem (elf + 24);
            e_phoff = rd32 mem (elf + 28);
            e_phentsz = rd16 mem (elf + 42);
            e_phnum = rd16 mem (elf + 44) in
        if e_machine \<noteq> 0xF3 then VM_LOAD_ERR_NOT_RISCV
        else if e_type \<noteq> 2 then VM_LOAD_ERR_NOT_EXECUTABLE
        else if e_version \<noteq> 1 then VM_LOAD_ERR_BAD_VERSION
        else if ucast e_phentsz \<noteq> ELF32_PHDR_SIZE then VM_LOAD_ERR_INVALID_ARG
        else if vaddr_to_region e_entry \<noteq> VM_REGION_CODE then VM_LOAD_ERR_BAD_ENTRY
        else if e_entry AND 1 \<noteq> 0 then VM_LOAD_ERR_BAD_ENTRY
        else if e_phnum = 0 then VM_LOAD_ERR_INVALID_ARG
        else if ucast e_phoff + ucast e_phnum * ELF32_PHDR_SIZE > elf_size then VM_LOAD_ERR_TRUNCATED
        else VM_LOAD_OK)"

definition elf_entry :: "hmem \<Rightarrow> hptr \<Rightarrow> u32" where "elf_entry mem elf = rd32 mem (elf + 24)"

text \<open>The addresses of the program headers the two loops visit.\<close>

definition elf_phdrs :: "hmem \<Rightarrow> hptr \<Rightarrow> hptr list" where
  "elf_phdrs mem elf =
     map (\<lambda>i. elf + unat (rd32 mem (elf + 28)) + 32 * i) [0..<unat (rd16 mem (elf + 44))]"

definition p_type :: "hmem \<Rightarrow> hptr \<Rightarrow> u32" where "p_type mem ph = rd32 mem ph"
definition p_offset :: "hmem \<Rightarrow> hptr \<Rightarrow> u32" where "p_offset mem ph = rd32 mem (ph + 4)"
definition p_vaddr :: "hmem \<Rightarrow> hptr \<Rightarrow> u32" where "p_vaddr mem ph = rd32 mem (ph + 8)"
definition p_filesz :: "hmem \<Rightarrow> hptr \<Rightarrow> u32" where "p_filesz mem ph = rd32 mem (ph + 16)"
definition p_memsz :: "hmem \<Rightarrow> hptr \<Rightarrow> u32" where "p_memsz mem ph = rd32 mem (ph + 20)"
definition p_flags :: "hmem \<Rightarrow> hptr \<Rightarrow> u32" where "p_flags mem ph = rd32 mem (ph + 24)"

text \<open>One round of the validation loop, and the loop: the first error, or OK.\<close>

definition check_phdr :: "hmem \<Rightarrow> u64 \<Rightarrow> hptr \<Rightarrow> VmLoadResult" where
  "check_phdr mem elf_size ph =
     (if p_type mem ph = PT_DYNAMIC then VM_LOAD_ERR_DYNAMIC_FORBIDDEN
      else if p_type mem ph = PT_INTERP then VM_LOAD_ERR_INTERP_FORBIDDEN
      else if p_type mem ph \<noteq> PT_LOAD then VM_LOAD_OK
      else if p_filesz mem ph = 0 \<and> p_memsz mem ph = 0 then VM_LOAD_OK
      else if p_filesz mem ph > 0 \<and> ucast (p_offset mem ph) + ucast (p_filesz mem ph) > elf_size
      then VM_LOAD_ERR_TRUNCATED
      else validate_pt_load (p_vaddr mem ph) (p_filesz mem ph) (p_memsz mem ph) (p_flags mem ph))"

fun check_phdrs :: "hmem \<Rightarrow> u64 \<Rightarrow> hptr list \<Rightarrow> VmLoadResult" where
  "check_phdrs mem elf_size [] = VM_LOAD_OK"
| "check_phdrs mem elf_size (ph # phs) =
     (let vr = check_phdr mem elf_size ph in
      if vr \<noteq> VM_LOAD_OK then vr else check_phdrs mem elf_size phs)"

text \<open>The second loop; it reads each program header again.\<close>

fun apply_phdrs ::
  "VmLoaderConfig \<Rightarrow> hptr \<Rightarrow> hptr list \<Rightarrow> 'e load_state \<Rightarrow> VmLoadResult \<times> 'e load_state" where
  "apply_phdrs cfg elf [] st = (VM_LOAD_OK, st)"
| "apply_phdrs cfg elf (ph # phs) st =
     (case st of (cpu, a, mem, e) \<Rightarrow>
        if p_type mem ph \<noteq> PT_LOAD then apply_phdrs cfg elf phs st
        else if p_filesz mem ph = 0 \<and> p_memsz mem ph = 0 then apply_phdrs cfg elf phs st
        else
          let (ar, st') = apply_pt_load cfg elf (p_offset mem ph) (p_filesz mem ph) (p_memsz mem ph)
                            (p_vaddr mem ph) st
          in if ar \<noteq> VM_LOAD_OK then (ar, st') else apply_phdrs cfg elf phs st')"

text \<open>The data region when no segment made one, the shared regions, entry point and stack.\<close>

definition default_data_region :: "VmLoaderConfig \<Rightarrow> 'e load_state \<Rightarrow> VmLoadResult \<times> 'e load_state" where
  "default_data_region cfg = (\<lambda>(cpu, a, mem, e).
     if r_length (regions cpu VM_REGION_DATA) = 0 then
       let (dst, a, mem, e) = slab_alloc a mem e (ucast (region_data_size cfg)) in
       if dst = 0 then (VM_LOAD_ERR_OUT_OF_RAM, cpu, a, mem, e)
       else (VM_LOAD_OK, set_region VM_REGION_DATA dst (region_data_size cfg) True cpu, a,
             memset0 mem dst (unat (region_data_size cfg)), e)
     else (VM_LOAD_OK, cpu, a, mem, e))"

definition finish_load :: "VmLoaderConfig \<Rightarrow> u32 \<Rightarrow> VmCpu \<Rightarrow> VmCpu" where
  "finish_load cfg entry cpu =
     (let cpu = set_region VM_REGION_SHARED (shared_base cfg) (shared_size cfg) (shared_base cfg \<noteq> 0) cpu;
          cpu = cpu\<lparr>l2_shared := \<lparr>r_base = l2_shared_base cfg, r_length = l2_shared_size cfg,
                  r_writable = (l2_shared_base cfg \<noteq> 0)\<rparr>\<rparr>;
          cpu = cpu\<lparr>pc := entry\<rparr>;
          sp_top = 0x80000000 + region_data_size cfg
      in cpu\<lparr>regs := (regs cpu)(VM_REG_SP := sp_top AND NOT 7)\<rparr>)"

definition vm_load ::
  "hptr \<Rightarrow> u64 \<Rightarrow> VmLoaderConfig \<Rightarrow> 'e load_state \<Rightarrow> VmLoadResult \<times> 'e load_state" where
  "vm_load elf elf_size cfg st =
     (case st of (cpu, a, mem, e) \<Rightarrow>
        if elf = 0 then (VM_LOAD_ERR_INVALID_ARG, st)
        else if ram_arena cfg = 0 then (VM_LOAD_ERR_INVALID_ARG, st)
        else if region_data_size cfg = 0 then (VM_LOAD_ERR_INVALID_ARG, st)
        else let hr = check_ehdr mem elf elf_size in
        if hr \<noteq> VM_LOAD_OK then (hr, st)
        else
          let entry = elf_entry mem elf; phs = elf_phdrs mem elf; vr = check_phdrs mem elf_size phs in
          if vr \<noteq> VM_LOAD_OK then (vr, st)
          else let (ar, st) = apply_phdrs cfg elf phs st in
          if ar \<noteq> VM_LOAD_OK then (ar, st)
          else let (dr, st) = default_data_region cfg st in
          if dr \<noteq> VM_LOAD_OK then (dr, st)
          else case st of (cpu, a, mem, e) \<Rightarrow> (VM_LOAD_OK, finish_load cfg entry cpu, a, mem, e))"

definition vm_load_result_string :: "VmLoadResult \<Rightarrow> string" where
  "vm_load_result_string r =
     (case r of
        VM_LOAD_OK \<Rightarrow> ''OK''
      | VM_LOAD_ERR_TRUNCATED \<Rightarrow> ''ELF truncated''
      | VM_LOAD_ERR_BAD_MAGIC \<Rightarrow> ''bad ELF magic''
      | VM_LOAD_ERR_NOT_RV32 \<Rightarrow> ''not RV32 (ELFCLASS32 required)''
      | VM_LOAD_ERR_NOT_LITTLE_ENDIAN \<Rightarrow> ''not little-endian''
      | VM_LOAD_ERR_BAD_VERSION \<Rightarrow> ''bad ELF version''
      | VM_LOAD_ERR_NOT_RISCV \<Rightarrow> ''not RISC-V (EM_RISCV required)''
      | VM_LOAD_ERR_NOT_EXECUTABLE \<Rightarrow> ''not executable (ET_EXEC required)''
      | VM_LOAD_ERR_BAD_ENTRY \<Rightarrow> ''bad entry point''
      | VM_LOAD_ERR_DYNAMIC_FORBIDDEN \<Rightarrow> ''PT_DYNAMIC forbidden''
      | VM_LOAD_ERR_INTERP_FORBIDDEN \<Rightarrow> ''PT_INTERP forbidden''
      | VM_LOAD_ERR_SEG_OUT_OF_RANGE \<Rightarrow> ''segment out of range''
      | VM_LOAD_ERR_SEG_REGION_MISMATCH \<Rightarrow> ''segment writable bit doesn'' @ [CHR 0x27] @ ''t match region''
      | VM_LOAD_ERR_SEG_BSS_IN_RO \<Rightarrow> ''BSS in read-only segment''
      | VM_LOAD_ERR_SEG_TOO_LARGE \<Rightarrow> ''segment exceeds region cap''
      | VM_LOAD_ERR_UNRESOLVED_RELOCS \<Rightarrow> ''unresolved relocations present''
      | VM_LOAD_ERR_OUT_OF_RAM \<Rightarrow> ''out of RAM in arena''
      | VM_LOAD_ERR_DATA_SIZE_TOO_SMALL \<Rightarrow> ''region_data_size < data+bss''
      | VM_LOAD_ERR_INVALID_ARG \<Rightarrow> ''invalid argument'')"

end
