(* ===== verification/VM_Loader_Safe.thy ===== *)
theory VM_Loader_Safe
  imports VM_Loader VM_Run
begin

text \<open>
  The loader's safety, for any image: an invariant of the load (what the regions point at, that the
  arena's other blocks are untouched) kept by every segment, and from it what a guest can
  reach after \<open>vm_load\<close> has accepted it.
\<close>

section \<open>The invariant of a load\<close>

text \<open>
  What holds between any two steps of a load that started with arena \<open>a0\<close> and memory \<open>m0\<close>: the
  arena is in order, its old blocks are all there with their contents, nothing outside it has
  changed, the code and rodata regions are read-only and lie in the image \<open>E\<close> or in a block
  of this load, and the data region lies in a block of this load.
\<close>

definition own_block :: "'e SlabAllocator \<Rightarrow> hmem \<Rightarrow> 'e SlabAllocator \<Rightarrow> hmem \<Rightarrow> VmRegion \<Rightarrow> bool" where
  "own_block a0 m0 a m r \<longleftrightarrow> r_base r \<in> slab_live a m \<and> r_base r \<notin> slab_live a0 m0 \<and>
     unat (r_length r) \<le> slab_block_size a m (r_base r)"

definition ro_region :: "hptr set \<Rightarrow> 'e SlabAllocator \<Rightarrow> hmem \<Rightarrow> 'e SlabAllocator \<Rightarrow> hmem \<Rightarrow> VmRegion \<Rightarrow> bool" where
  "ro_region E a0 m0 a m r \<longleftrightarrow> \<not> r_writable r \<and> region_ok r \<and> (region_extent r \<subseteq> E \<or> own_block a0 m0 a m r)"

definition load_inv :: "hptr set \<Rightarrow> 'e SlabAllocator \<Rightarrow> hmem \<Rightarrow> 'e load_state \<Rightarrow> bool" where
  "load_inv E a0 m0 = (\<lambda>(cpu, a, m, e).
     slab_inv a m \<and> region a = region a0 \<and> region_bytes a = region_bytes a0 \<and>
     slab_live a0 m0 \<subseteq> slab_live a m \<and>
     (\<forall>q \<in> slab_live a0 m0. slab_block_size a m q = slab_block_size a0 m0 q \<and>
        (\<forall>x \<in> extent q (slab_block_size a0 m0 q). m x = m0 x)) \<and>
     (\<forall>x. x \<notin> extent (region a0) (region_bytes a0) \<longrightarrow> m x = m0 x) \<and>
     ro_region E a0 m0 a m (regions cpu VM_REGION_CODE) \<and> ro_region E a0 m0 a m (regions cpu VM_REGION_RODATA) \<and>
     (r_length (regions cpu VM_REGION_DATA) = 0 \<or> own_block a0 m0 a m (regions cpu VM_REGION_DATA)))"

lemma own_block_mono:
  assumes "own_block a0 m0 a m r" "slab_live a m \<subseteq> slab_live a' m'"
    "\<And>q. q \<in> slab_live a m \<Longrightarrow> slab_block_size a' m' q = slab_block_size a m q"
  shows "own_block a0 m0 a' m' r"
  using assms by (auto simp: own_block_def)

lemma load_inv_mono:
  assumes inv: "load_inv E a0 m0 (cpu, a, m, e)" and new: "slab_inv a' m'"
    and reg: "region a' = region a" "region_bytes a' = region_bytes a"
    and live: "slab_live a m \<subseteq> slab_live a' m'"
    and size: "\<And>q. q \<in> slab_live a m \<Longrightarrow> slab_block_size a' m' q = slab_block_size a m q"
    and keep: "\<And>q x. q \<in> slab_live a m \<Longrightarrow> x \<in> extent q (slab_block_size a m q) \<Longrightarrow> q \<in> slab_live a0 m0 \<Longrightarrow> m' x = m x"
    and out: "\<And>x. x \<notin> extent (region a) (region_bytes a) \<Longrightarrow> m' x = m x"
  shows "load_inv E a0 m0 (cpu, a', m', e')"
proof -
  have own: "own_block a0 m0 a m r \<Longrightarrow> own_block a0 m0 a' m' r" for r by (rule own_block_mono [OF _ live size])
  have ro: "ro_region E a0 m0 a m r \<Longrightarrow> ro_region E a0 m0 a' m' r" for r using own by (auto simp: ro_region_def)
  have old: "q \<in> slab_live a m" "slab_block_size a m q = slab_block_size a0 m0 q"
    "x \<in> extent q (slab_block_size a0 m0 q) \<Longrightarrow> m x = m0 x" if "q \<in> slab_live a0 m0" for q x
    using inv that by (auto simp: load_inv_def)
  have "m' x = m0 x" if "q \<in> slab_live a0 m0" "x \<in> extent q (slab_block_size a0 m0 q)" for q x
    using keep [OF old(1) _ that(1), of x] old(2,3) [OF that(1)] that by simp
  moreover have "m' x = m0 x" if "x \<notin> extent (region a0) (region_bytes a0)" for x
    using inv that out [of x] by (auto simp: load_inv_def)
  ultimately show ?thesis using inv new reg live size old own ro unfolding load_inv_def prod.case by auto
qed

text \<open>An allocation, and writing the block it granted.\<close>

lemma slab_alloc_refuse:
  assumes inv: "slab_inv a m" and al: "slab_alloc a m e n = (0, a', m', e')"
  shows "slab_inv a' m'" "slab_live a' m' = slab_live a m" "m' = m"
    "q \<in> slab_live a m \<Longrightarrow> slab_block_size a' m' q = slab_block_size a m q"
proof -
  have all: "slab_inv a' m' \<and> slab_live a' m' = slab_live a m \<and> m' = m"
    by (rule slab_alloc_cases [OF inv, of e n]) (use al in \<open>auto simp: user_at_def\<close>)
  then show "slab_inv a' m'" "slab_live a' m' = slab_live a m" and m: "m' = m" by blast+
  show "slab_block_size a' m' q = slab_block_size a m q" if "q \<in> slab_live a m"
    using alloc_live_size [OF al inv _ that] all that by blast
qed

lemma load_alloc:
  assumes inv: "load_inv E a0 m0 (cpu, a, m, e)" and al: "slab_alloc a m e1 n = (p, a', m1, e2)"
    and wr: "p \<noteq> 0 \<Longrightarrow> (\<And>x. x \<notin> extent p (slab_block_size a' m1 p) \<Longrightarrow> m2 x = m1 x)" "p = 0 \<Longrightarrow> m2 = m1"
  shows "load_inv E a0 m0 (cpu, a', m2, e3)"
    and "p \<noteq> 0 \<Longrightarrow> p \<in> slab_live a' m2 \<and> p \<notin> slab_live a0 m0"
    and "p \<noteq> 0 \<Longrightarrow> slab_block_size a' m2 p = slab_block_size a' m1 p"
    and "p \<noteq> 0 \<Longrightarrow> unat n + 8 < 2 ^ 32 \<Longrightarrow> unat n \<le> slab_block_size a' m1 p"
proof -
  have si: "slab_inv a m" and sub: "slab_live a0 m0 \<subseteq> slab_live a m" using inv by (auto simp: load_inv_def)
  note geo = slab_alloc_geometry(1,2) [OF al]
  have "load_inv E a0 m0 (cpu, a', m2, e3) \<and> (p \<noteq> 0 \<longrightarrow> (p \<in> slab_live a' m2 \<and> p \<notin> slab_live a0 m0) \<and>
      slab_block_size a' m2 p = slab_block_size a' m1 p \<and>
      (unat n + 8 < 2 ^ 32 \<longrightarrow> unat n \<le> slab_block_size a' m1 p))"
  proof (cases "p = 0")
    case True
    note r = slab_alloc_refuse [OF si al [unfolded True]]
    have "load_inv E a0 m0 (cpu, a', m1, e3)"
      by (rule load_inv_mono [OF inv r(1) geo]) (use r in auto)
    then show ?thesis using True wr(2) by simp
  next
    case False
    note g = slab_alloc_grant [OF si al False]
    have p: "p \<in> slab_live a' m1" using g(3) by simp
    note w = slab_write_live [OF g(1) p wr(1) [OF False]]
    note bounds = slab_live_bounds [OF g(1) p]
    have "load_inv E a0 m0 (cpu, a', m2, e3)"
    proof (rule load_inv_mono [OF inv w(1) geo])
      show "slab_live a m \<subseteq> slab_live a' m2" using w(2) g(3) by auto
      show "slab_block_size a' m2 q = slab_block_size a m q" if "q \<in> slab_live a m" for q
        using w(3) [of q] g(3,5) that by simp
      show "m2 x = m x" if "q \<in> slab_live a m" "x \<in> extent q (slab_block_size a m q)" "q \<in> slab_live a0 m0" for q x
      proof -
        have "q \<in> slab_live a' m1" "p \<noteq> q" using that(1) g(2,3) by auto
        then have "x \<notin> extent p (slab_block_size a' m1 p)" using bounds(2) [of q] that(1,2) g(5) by auto
        then show ?thesis using wr(1) [OF False] g(6) [OF that(1,2)] by simp
      qed
      show "m2 x = m x" if "x \<notin> extent (region a) (region_bytes a)" for x
      proof -
        have "x \<notin> extent p (slab_block_size a' m1 p)" using that bounds(1) unfolding geo by blast
        then show ?thesis using wr(1) [OF False, of x] g(7) [OF that] by simp
      qed
    qed
    then show ?thesis using False p w(2,3) g(2,4) sub by auto
  qed
  then show "load_inv E a0 m0 (cpu, a', m2, e3)" "p \<noteq> 0 \<Longrightarrow> p \<in> slab_live a' m2 \<and> p \<notin> slab_live a0 m0"
    "p \<noteq> 0 \<Longrightarrow> slab_block_size a' m2 p = slab_block_size a' m1 p"
    "p \<noteq> 0 \<Longrightarrow> unat n + 8 < 2 ^ 32 \<Longrightarrow> unat n \<le> slab_block_size a' m1 p" by blast+
qed


section \<open>Segments\<close>

lemma load_set_ro:
  assumes "load_inv E a0 m0 (cpu, a, m, e)" "r = VM_REGION_CODE \<or> r = VM_REGION_RODATA"
    and "ro_region E a0 m0 a m \<lparr>r_base = b, r_length = l, r_writable = False\<rparr>"
  shows "load_inv E a0 m0 (set_region r b l False cpu, a, m, e)"
  using assms by (auto simp: load_inv_def set_region_def)

lemma load_set_data:
  assumes "load_inv E a0 m0 (cpu, a, m, e)"
    and "own_block a0 m0 a m \<lparr>r_base = b, r_length = l, r_writable = True\<rparr>"
  shows "load_inv E a0 m0 (set_region VM_REGION_DATA b l True cpu, a, m, e)"
  using assms by (auto simp: load_inv_def set_region_def)

lemma own_block_nonnull: "own_block a0 m0 a m r \<Longrightarrow> r_base r \<noteq> 0"
  using live_nonzero by (auto simp: own_block_def)

lemma vaddr_region_cases:
  "vaddr_to_region v = VM_REGION_CODE \<or> vaddr_to_region v = VM_REGION_RODATA \<or>
   vaddr_to_region v = VM_REGION_DATA \<or> vaddr_to_region v = VM_REGION_SHARED"
proof -
  have "vaddr_to_region v < 4" unfolding vaddr_to_region_def by (rule drop_bit_30_less)
  then show ?thesis using u32_less_4_cases by blast
qed

lemma validate_ok:
  assumes "validate_pt_load vaddr filesz memsz flags = VM_LOAD_OK"
  shows "vaddr_to_region vaddr \<noteq> VM_REGION_SHARED" "unat memsz \<le> 2 ^ 30" "filesz \<le> memsz"
  using assms by (auto simp: validate_pt_load_def Let_def word_le_nat_alt not_less split: if_splits)

lemma memcpy_other: "x \<notin> extent dst n \<Longrightarrow> memcpy m dst src n x = m x"
  by (simp add: memcpy_def store_bytes_other)

lemma memset0_other: "x \<notin> extent dst n \<Longrightarrow> memset0 m dst n x = m x"
  by (simp add: memset0_def store_bytes_other)

text \<open>What the checks established about a segment before it is applied.\<close>

definition segment_ok :: "u64 \<Rightarrow> u32 \<Rightarrow> u32 \<Rightarrow> u32 \<Rightarrow> u32 \<Rightarrow> bool" where
  "segment_ok elf_size offset filesz memsz vaddr \<longleftrightarrow>
     (filesz \<noteq> 0 \<longrightarrow> unat offset + unat filesz \<le> unat elf_size) \<and> vaddr_to_region vaddr \<noteq> VM_REGION_SHARED \<and>
     unat memsz \<le> 2 ^ 30 \<and> filesz \<le> memsz"

lemma unat_ucast_u64: "unat (ucast w :: u64) = unat (w :: u32)"
proof -
  have "unat w < 2 ^ 64" using unsigned_less [of w, where 'a = nat] by simp
  then show ?thesis by (simp add: unsigned_ucast_eq take_bit_nat_eq_self)
qed

lemma apply_pt_load_inv:
  assumes inv: "load_inv (extent elf (unat elf_size)) a0 m0 (cpu, a, m, e)" and "elf \<noteq> 0"
    and size: "unat (region_data_size cfg) + 8 < 2 ^ 32"
    and seg: "segment_ok elf_size offset filesz memsz vaddr"
    and ap: "apply_pt_load cfg elf offset filesz memsz vaddr (cpu, a, m, e) = (r, st)"
  shows "load_inv (extent elf (unat elf_size)) a0 m0 st"
proof -
  let ?E = "extent elf (unat elf_size)" and ?reg = "vaddr_to_region vaddr"
  have fs: "unat filesz \<le> unat memsz" "unat filesz + 8 < 2 ^ 32"
    using seg by (auto simp: segment_ok_def word_le_nat_alt)
  note u64 = unat_ucast_u64
  consider (ro) "?reg = VM_REGION_CODE \<or> ?reg = VM_REGION_RODATA" | (data) "?reg = VM_REGION_DATA"
    using vaddr_region_cases [of vaddr] seg by (auto simp: segment_ok_def)
  then show ?thesis
  proof cases
    case ro
    define mode where "mode = (if ?reg = VM_REGION_CODE then code_backing cfg else rodata_backing cfg)"
    show ?thesis
    proof (cases mode)
      case VM_BACKING_XIP
      have "ro_region ?E a0 m0 a m \<lparr>r_base = elf + unat offset, r_length = filesz, r_writable = False\<rparr>"
        using seg \<open>elf \<noteq> 0\<close> by (auto simp: ro_region_def region_ok_def region_extent_def segment_ok_def)
      from load_set_ro [OF inv ro this] show ?thesis
        using ap ro VM_BACKING_XIP inv
        by (auto simp: apply_pt_load_def Let_def mode_def [symmetric] split: if_splits)
    next
      case VM_BACKING_COPY_RAM
      obtain dst a1 m1 e1 where al: "slab_alloc a m e (ucast filesz) = (dst, a1, m1, e1)" by (metis prod_cases4)
      define m2 where "m2 = (if dst = 0 then m1 else memcpy m1 dst (elf + unat offset) (unat filesz))"
      have le: "dst \<noteq> 0 \<Longrightarrow> unat filesz \<le> slab_block_size a1 m1 dst"
        using load_alloc(4) [OF inv al, of m1] fs(2) u64 [of filesz] by simp
      have out: "m2 x = m1 x" if "dst \<noteq> 0" "x \<notin> extent dst (slab_block_size a1 m1 dst)" for x
        using that le by (auto simp: m2_def memcpy_other)
      note l = load_alloc [OF inv al out, unfolded m2_def [symmetric]]
      have m2: "dst = 0 \<Longrightarrow> m2 = m1" by (simp add: m2_def)
      have inv2: "load_inv ?E a0 m0 (cpu, a1, m2, e1)" using l(1) m2 by blast
      show ?thesis
      proof (cases "dst = 0")
        case True
        then show ?thesis using ap ro VM_BACKING_COPY_RAM al inv2
          by (auto simp: apply_pt_load_def Let_def mode_def [symmetric] m2_def)
      next
        case False
        have "own_block a0 m0 a1 m2 \<lparr>r_base = dst, r_length = filesz, r_writable = False\<rparr>"
          using l(2,3) m2 False le by (simp add: own_block_def)
        then have "ro_region ?E a0 m0 a1 m2 \<lparr>r_base = dst, r_length = filesz, r_writable = False\<rparr>"
          using False by (simp add: ro_region_def region_ok_def)
        from load_set_ro [OF inv2 ro this] show ?thesis
          using ap ro VM_BACKING_COPY_RAM al False
          by (auto simp: apply_pt_load_def Let_def mode_def [symmetric] m2_def)
      qed
    qed
  next
    case data
    obtain dst a1 m1 e1 where al: "slab_alloc a m e (ucast (region_data_size cfg)) = (dst, a1, m1, e1)" by (metis prod_cases4)
    define m2 where "m2 = (if filesz > 0 then memcpy m1 dst (elf + unat offset) (unat filesz) else m1)"
    define m3 where "m3 = (if memsz > filesz then memset0 m2 (dst + unat filesz) (unat (memsz - filesz)) else m2)"
    show ?thesis
    proof (cases "region_data_size cfg < memsz")
      case True
      then show ?thesis using ap data inv by (auto simp: apply_pt_load_def Let_def)
    next
      case small: False
      show ?thesis
      proof (cases "dst = 0")
        case True
        have "load_inv ?E a0 m0 (cpu, a1, m1, e1)" using load_alloc(1) [OF inv al, of m1] True by simp
        then show ?thesis using ap data small al True by (auto simp: apply_pt_load_def Let_def)
      next
        case False
        have le: "unat (region_data_size cfg) \<le> slab_block_size a1 m1 dst"
          using load_alloc(4) [OF inv al, of m1] size u64 [of "region_data_size cfg"] False by simp
        have ms: "unat memsz \<le> unat (region_data_size cfg)" using small by (simp add: word_less_nat_alt)
        have "unat (memsz - filesz) = unat memsz - unat filesz" if "filesz < memsz"
          using that by (intro unat_sub) (simp add: word_le_nat_alt word_less_nat_alt)
        then have out: "m3 x = m1 x" if "x \<notin> extent dst (slab_block_size a1 m1 dst)" for x
          using that le ms fs(1) by (auto simp: m3_def m2_def memcpy_other memset0_other)
        note l = load_alloc [OF inv al out]
        have inv3: "load_inv ?E a0 m0 (cpu, a1, m3, e1)" using l(1) False by blast
        have "own_block a0 m0 a1 m3 \<lparr>r_base = dst, r_length = region_data_size cfg, r_writable = True\<rparr>"
          using l(2,3) False le by (simp add: own_block_def)
        from load_set_data [OF inv3 this] show ?thesis
          using ap data small al False
          by (auto simp: apply_pt_load_def Let_def m2_def m3_def)
      qed
    qed
  qed
qed


lemma unat_ucast_sum: "unat (ucast v + ucast w :: u64) = unat (v :: u32) + unat (w :: u32)"
proof -
  have "unat v < 2 ^ 32" "unat w < 2 ^ 32"
    using unsigned_less [of v, where 'a = nat] unsigned_less [of w, where 'a = nat] by simp_all
  then show ?thesis by (simp add: unat_word_ariths unat_ucast_u64)
qed

lemma check_phdr_segment:
  assumes "check_phdr m elf_size ph = VM_LOAD_OK" "p_type m ph = PT_LOAD" "\<not> (p_filesz m ph = 0 \<and> p_memsz m ph = 0)"
  shows "segment_ok elf_size (p_offset m ph) (p_filesz m ph) (p_memsz m ph) (p_vaddr m ph)"
proof -
  have "validate_pt_load (p_vaddr m ph) (p_filesz m ph) (p_memsz m ph) (p_flags m ph) = VM_LOAD_OK"
    and ext: "p_filesz m ph > 0 \<longrightarrow> \<not> ucast (p_offset m ph) + ucast (p_filesz m ph) > elf_size"
    using assms by (auto simp: check_phdr_def split: if_splits)
  note v = validate_ok [OF this(1)]
  have "unat (p_offset m ph) + unat (p_filesz m ph) \<le> unat elf_size" if "p_filesz m ph \<noteq> 0"
    using ext that by (simp add: word_gt_0 not_less word_le_nat_alt unat_ucast_sum)
  then show ?thesis using v by (simp add: segment_ok_def)
qed

lemma check_phdrs_all: "check_phdrs m elf_size phs = VM_LOAD_OK \<Longrightarrow> ph \<in> set phs \<Longrightarrow> check_phdr m elf_size ph = VM_LOAD_OK"
  by (induction phs) (auto simp: Let_def split: if_splits)

lemma phdr_cong:
  assumes "\<And>x. x \<in> extent ph 32 \<Longrightarrow> m' x = m x"
  shows "p_type m' ph = p_type m ph" "p_offset m' ph = p_offset m ph" "p_vaddr m' ph = p_vaddr m ph"
    "p_filesz m' ph = p_filesz m ph" "p_memsz m' ph = p_memsz m ph"
  unfolding p_type_def p_offset_def p_vaddr_def p_filesz_def p_memsz_def rd32_def
  by (auto intro!: load_le_eqI assms)

lemma apply_phdrs_inv:
  assumes "elf \<noteq> 0" and size: "unat (region_data_size cfg) + 8 < 2 ^ 32"
    and apart: "extent elf (unat elf_size) \<inter> extent (region a0) (region_bytes a0) = {}"
  shows "load_inv (extent elf (unat elf_size)) a0 m0 st \<Longrightarrow>
    \<forall>ph \<in> set phs. check_phdr m0 elf_size ph = VM_LOAD_OK \<and> extent ph 32 \<subseteq> extent elf (unat elf_size) \<Longrightarrow>
    apply_phdrs cfg elf phs st = (r, st') \<Longrightarrow> load_inv (extent elf (unat elf_size)) a0 m0 st'"
proof (induction phs arbitrary: st)
  case (Cons ph phs)
  obtain cpu a m e where st: "st = (cpu, a, m, e)" by (metis prod_cases4)
  have "m x = m0 x" if "x \<in> extent ph 32" for x
  proof -
    have "x \<notin> extent (region a0) (region_bytes a0)" using that Cons.prems(2) apart by (auto simp del: in_extent)
    then show ?thesis using Cons.prems(1) st by (auto simp: load_inv_def)
  qed
  note same = phdr_cong [of ph m m0, OF this]
  show ?case
  proof (cases "p_type m ph \<noteq> PT_LOAD \<or> p_filesz m ph = 0 \<and> p_memsz m ph = 0")
    case True
    then show ?thesis using Cons st by (auto split: if_splits)
  next
    case False
    obtain ar st1 where ap: "apply_pt_load cfg elf (p_offset m ph) (p_filesz m ph) (p_memsz m ph) (p_vaddr m ph) st = (ar, st1)"
      by (cases "apply_pt_load cfg elf (p_offset m ph) (p_filesz m ph) (p_memsz m ph) (p_vaddr m ph) st")
    have "segment_ok elf_size (p_offset m ph) (p_filesz m ph) (p_memsz m ph) (p_vaddr m ph)"
      using check_phdr_segment [of m0 elf_size ph] Cons.prems(2) False same by simp
    from apply_pt_load_inv [OF Cons.prems(1) [unfolded st] assms(1) size this ap [unfolded st]]
    have inv1: "load_inv (extent elf (unat elf_size)) a0 m0 st1" .
    show ?thesis
    proof (cases "ar = VM_LOAD_OK")
      case True
      then show ?thesis using Cons.IH [OF inv1] Cons.prems(2,3) st ap False by (auto split: if_splits)
    next
      case False
      then show ?thesis using Cons.prems(3) st ap inv1 \<open>\<not> (p_type m ph \<noteq> PT_LOAD \<or> _)\<close> by auto
    qed
  qed
qed simp

lemma check_ehdr_ok:
  assumes "check_ehdr m elf elf_size = VM_LOAD_OK"
  shows "vaddr_to_region (elf_entry m elf) = VM_REGION_CODE" "elf_entry m elf AND 1 = 0" "elf_phdrs m elf \<noteq> []"
    "ph \<in> set (elf_phdrs m elf) \<Longrightarrow> extent ph 32 \<subseteq> extent elf (unat elf_size)"
proof -
  let ?off = "rd32 m (elf + 28)" and ?num = "rd16 m (elf + 44)"
  have all: "vaddr_to_region (rd32 m (elf + 24)) = VM_REGION_CODE" "rd32 m (elf + 24) AND 1 = 0" "?num \<noteq> 0"
    "\<not> ucast ?off + ucast ?num * 32 > elf_size"
    using assms unfolding check_ehdr_def Let_def by (auto split: if_splits)
  then show "vaddr_to_region (elf_entry m elf) = VM_REGION_CODE" "elf_entry m elf AND 1 = 0" "elf_phdrs m elf \<noteq> []"
    by (simp_all add: elf_entry_def elf_phdrs_def unat_gt_0)
  have b: "unat ?off < 2 ^ 32" "unat ?num < 2 ^ 16"
    using unsigned_less [of ?off, where 'a = nat] unsigned_less [of ?num, where 'a = nat] by simp_all
  have "unat (ucast ?num :: u64) = unat ?num" using b(2) by (simp add: unsigned_ucast_eq take_bit_nat_eq_self)
  then have "unat (ucast ?off + ucast ?num * 32 :: u64) = unat ?off + 32 * unat ?num"
    using b by (simp add: unat_word_ariths unat_ucast_u64)
  then have le: "unat ?off + 32 * unat ?num \<le> unat elf_size" using all(4) by (simp add: not_less word_le_nat_alt)
  assume "ph \<in> set (elf_phdrs m elf)"
  then obtain i where i: "i < unat ?num" "ph = elf + unat ?off + 32 * i" by (auto simp: elf_phdrs_def)
  then have "32 * i + 32 \<le> 32 * unat ?num" by simp
  then show "extent ph 32 \<subseteq> extent elf (unat elf_size)" using i(2) le by auto
qed

lemma default_data_inv:
  assumes inv: "load_inv E a0 m0 st" and size: "unat (region_data_size cfg) + 8 < 2 ^ 32"
    and d: "default_data_region cfg st = (r, cpu', a', m', e')"
  shows "load_inv E a0 m0 (cpu', a', m', e')"
    and "r = VM_LOAD_OK \<Longrightarrow> own_block a0 m0 a' m' (regions cpu' VM_REGION_DATA)"
proof -
  obtain cpu a m e where st: "st = (cpu, a, m, e)" by (metis prod_cases4)
  obtain dst a1 m1 e1 where al: "slab_alloc a m e (ucast (region_data_size cfg)) = (dst, a1, m1, e1)" by (metis prod_cases4)
  note inv0 = inv [unfolded st]
  have "load_inv E a0 m0 (cpu', a', m', e') \<and> (r = VM_LOAD_OK \<longrightarrow> own_block a0 m0 a' m' (regions cpu' VM_REGION_DATA))"
  proof (cases "r_length (regions cpu VM_REGION_DATA) = 0")
    case False
    then show ?thesis using d st inv0 by (auto simp: default_data_region_def load_inv_def)
  next
    case len: True
    show ?thesis
    proof (cases "dst = 0")
      case True
      have "load_inv E a0 m0 (cpu, a1, m1, e1)" using load_alloc(1) [OF inv0 al, of m1] True by simp
      then show ?thesis using d st al len True by (auto simp: default_data_region_def)
    next
      case False
      let ?m2 = "memset0 m1 dst (unat (region_data_size cfg))"
      have le: "unat (region_data_size cfg) \<le> slab_block_size a1 m1 dst"
        using load_alloc(4) [OF inv0 al, of m1] size False by (simp add: unat_ucast_u64)
      then have out: "?m2 x = m1 x" if "x \<notin> extent dst (slab_block_size a1 m1 dst)" for x
        using that by (intro memset0_other) auto
      note l = load_alloc [OF inv0 al out]
      have own: "own_block a0 m0 a1 ?m2 \<lparr>r_base = dst, r_length = region_data_size cfg, r_writable = True\<rparr>"
        using l(2,3) False le by (simp add: own_block_def)
      have "load_inv E a0 m0 (cpu, a1, ?m2, e1)" using l(1) False by blast
      from load_set_data [OF this own] show ?thesis
        using d st al len False own by (auto simp: default_data_region_def set_region_def)
    qed
  qed
  then show "load_inv E a0 m0 (cpu', a', m', e')"
    "r = VM_LOAD_OK \<Longrightarrow> own_block a0 m0 a' m' (regions cpu' VM_REGION_DATA)" by blast+
qed


section \<open>A load as a whole\<close>

lemma load_inv_start: "slab_inv a m \<Longrightarrow> load_inv E a m (vm_init n, a, m, e)"
  by (simp add: load_inv_def ro_region_def region_ok_def region_extent_def vm_init_def zero_cpu_def zero_region_def)
    (simp add: extent_def)

lemma vm_load_inv:
  assumes inv: "slab_inv a m" and size: "unat (region_data_size cfg) + 8 < 2 ^ 32"
    and apart: "extent elf (unat elf_size) \<inter> extent (region a) (region_bytes a) = {}"
    and load: "vm_load elf elf_size cfg (vm_init n, a, m, e) = (r, cpu', a', m', e')"
  shows "r \<noteq> VM_LOAD_OK \<Longrightarrow> load_inv (extent elf (unat elf_size)) a m (cpu', a', m', e')"
    and "r = VM_LOAD_OK \<Longrightarrow> check_ehdr m elf elf_size = VM_LOAD_OK \<and> check_phdrs m elf_size (elf_phdrs m elf) = VM_LOAD_OK \<and>
      (\<exists>cpu. load_inv (extent elf (unat elf_size)) a m (cpu, a', m', e') \<and>
         own_block a m a' m' (regions cpu VM_REGION_DATA) \<and> cpu' = finish_load cfg (elf_entry m elf) cpu)"
proof -
  let ?E = "extent elf (unat elf_size)" and ?st = "(vm_init n, a, m, e)"
  note start = load_inv_start [OF inv, of ?E n e]
  have "(r \<noteq> VM_LOAD_OK \<longrightarrow> load_inv ?E a m (cpu', a', m', e')) \<and>
    (r = VM_LOAD_OK \<longrightarrow> check_ehdr m elf elf_size = VM_LOAD_OK \<and> check_phdrs m elf_size (elf_phdrs m elf) = VM_LOAD_OK \<and>
      (\<exists>cpu. load_inv ?E a m (cpu, a', m', e') \<and> own_block a m a' m' (regions cpu VM_REGION_DATA) \<and>
         cpu' = finish_load cfg (elf_entry m elf) cpu))"
  proof (cases "elf = 0 \<or> ram_arena cfg = 0 \<or> region_data_size cfg = 0 \<or> check_ehdr m elf elf_size \<noteq> VM_LOAD_OK \<or>
      check_phdrs m elf_size (elf_phdrs m elf) \<noteq> VM_LOAD_OK")
    case True
    then show ?thesis using load start by (auto simp: vm_load_def Let_def split: if_splits)
  next
    case False
    then have ok: "elf \<noteq> 0" "check_ehdr m elf elf_size = VM_LOAD_OK" "check_phdrs m elf_size (elf_phdrs m elf) = VM_LOAD_OK"
      by auto
    obtain ar st1 where ap: "apply_phdrs cfg elf (elf_phdrs m elf) ?st = (ar, st1)"
      by (cases "apply_phdrs cfg elf (elf_phdrs m elf) ?st")
    have "\<forall>ph \<in> set (elf_phdrs m elf). check_phdr m elf_size ph = VM_LOAD_OK \<and> extent ph 32 \<subseteq> ?E"
      using check_phdrs_all [OF ok(3)] check_ehdr_ok(4) [OF ok(2)] by blast
    note inv1 = apply_phdrs_inv [OF ok(1) size apart start this ap]
    obtain dr cpu2 a2 m2 e2 where d: "default_data_region cfg st1 = (dr, cpu2, a2, m2, e2)" by (metis prod_cases5)
    note inv2 = default_data_inv [OF inv1 size d]
    show ?thesis
    proof (cases "ar = VM_LOAD_OK \<and> dr = VM_LOAD_OK")
      case True
      then have "r = VM_LOAD_OK" "cpu' = finish_load cfg (elf_entry m elf) cpu2" "a' = a2" "m' = m2" "e' = e2"
        using load ok ap d False by (auto simp: vm_load_def Let_def)
      then show ?thesis using inv2 True ok by auto
    next
      case bad: False
      then have "r \<noteq> VM_LOAD_OK \<and> ((cpu', a', m', e') = st1 \<or> (cpu', a', m', e') = (cpu2, a2, m2, e2))"
        using load ok ap d False by (auto simp: vm_load_def Let_def split: if_splits)
      then show ?thesis using inv1 inv2(1) by metis
    qed
  qed
  then show "r \<noteq> VM_LOAD_OK \<Longrightarrow> load_inv ?E a m (cpu', a', m', e')"
    "r = VM_LOAD_OK \<Longrightarrow> check_ehdr m elf elf_size = VM_LOAD_OK \<and> check_phdrs m elf_size (elf_phdrs m elf) = VM_LOAD_OK \<and>
      (\<exists>cpu. load_inv ?E a m (cpu, a', m', e') \<and> own_block a m a' m' (regions cpu VM_REGION_DATA) \<and>
         cpu' = finish_load cfg (elf_entry m elf) cpu)" by blast+
qed

lemma finish_load_descriptors:
  "vm_descriptors (finish_load cfg entry cpu) =
     [regions cpu VM_REGION_CODE, regions cpu VM_REGION_RODATA, regions cpu VM_REGION_DATA,
      \<lparr>r_base = shared_base cfg, r_length = shared_size cfg, r_writable = (shared_base cfg \<noteq> 0)\<rparr>,
      \<lparr>r_base = l2_shared_base cfg, r_length = l2_shared_size cfg, r_writable = (l2_shared_base cfg \<noteq> 0)\<rparr>]"
  "pc (finish_load cfg entry cpu) = entry"
  by (simp_all add: finish_load_def set_region_def vm_descriptors_def Let_def)

text \<open>The memory the embedder shares with every guest.\<close>

definition shared_memory :: "VmLoaderConfig \<Rightarrow> hptr set" where
  "shared_memory cfg = extent (shared_base cfg) (unat (shared_size cfg)) \<union>
     extent (l2_shared_base cfg) (unat (l2_shared_size cfg))"

lemma finish_regions:
  assumes inv: "load_inv E a0 m0 (cpu, a, m, e)" and data: "own_block a0 m0 a m (regions cpu VM_REGION_DATA)"
    and null: "shared_base cfg = 0 \<Longrightarrow> shared_size cfg = 0" "l2_shared_base cfg = 0 \<Longrightarrow> l2_shared_size cfg = 0"
    and cpu': "cpu' = finish_load cfg entry cpu"
  defines "p \<equiv> r_base (regions cpu VM_REGION_DATA)"
  shows "vm_regions_ok cpu'" and "p \<in> slab_live a m - slab_live a0 m0"
    and "vm_writable cpu' \<subseteq> extent p (slab_block_size a m p) \<union> shared_memory cfg"
    and "vm_readable cpu' \<subseteq> E \<union> shared_memory cfg \<union>
      (\<Union>p \<in> slab_live a m - slab_live a0 m0. extent p (slab_block_size a m p))"
proof -
  note desc = finish_load_descriptors [of cfg entry cpu, folded cpu']
  let ?B = "\<Union>p \<in> slab_live a m - slab_live a0 m0. extent p (slab_block_size a m p)"
  have own: "region_extent g \<subseteq> extent (r_base g) (slab_block_size a m (r_base g))"
    "r_base g \<in> slab_live a m - slab_live a0 m0" if "own_block a0 m0 a m g" for g
    using that by (auto simp: own_block_def region_extent_def)
  have ro: "\<not> r_writable g" "region_ok g" "region_extent g \<subseteq> E \<union> ?B" if "ro_region E a0 m0 a m g" for g
    using that own [of g] by (auto simp: ro_region_def simp del: in_extent)
  have roC: "ro_region E a0 m0 a m (regions cpu VM_REGION_CODE)" "ro_region E a0 m0 a m (regions cpu VM_REGION_RODATA)"
    using inv by (auto simp: load_inv_def)
  show "p \<in> slab_live a m - slab_live a0 m0" using own(2) [OF data] by (simp add: p_def)
  show "vm_regions_ok cpu'"
    using ro(2) [OF roC(1)] ro(2) [OF roC(2)] own_block_nonnull [OF data] null
    by (auto simp: vm_regions_ok_def desc region_ok_def)
  show "vm_writable cpu' \<subseteq> extent p (slab_block_size a m p) \<union> shared_memory cfg"
    using ro(1) [OF roC(1)] ro(1) [OF roC(2)] own(1) [OF data]
    by (auto simp: vm_writable_def desc shared_memory_def region_extent_def p_def simp del: in_extent)
  show "vm_readable cpu' \<subseteq> E \<union> shared_memory cfg \<union> ?B"
    using ro(3) [OF roC(1)] ro(3) [OF roC(2)] own [OF data]
    unfolding vm_readable_def desc(1) by (auto simp: shared_memory_def region_extent_def simp del: in_extent)
qed

text \<open>
  C24. Loading is safe for any image: whatever bytes \<open>vm_load\<close> is given, if it accepts them then
  the CPU's regions are well formed, the guest can write only inside one block allocated by this load
  and the shared memory, and read only those, the blocks this load copied into, and the image
  itself; it starts at an even address of the code region. Accepted or rejected, the arena's
  invariant holds, every block that was live before is still live with its contents, and
  nothing outside the arena has changed. A step of the loaded guest then leaves all those other
  blocks alone, as long as the shared memory is not in them.
\<close>

theorem loader_safe:
  assumes "slab_inv a m" and "unat (region_data_size cfg) + 8 < 2 ^ 32"
    and "extent elf (unat elf_size) \<inter> extent (region a) (region_bytes a) = {}"
    and "shared_base cfg = 0 \<Longrightarrow> shared_size cfg = 0" and "l2_shared_base cfg = 0 \<Longrightarrow> l2_shared_size cfg = 0"
    and "vm_load elf elf_size cfg (vm_init n, a, m, e) = (r, cpu', a', m', e')"
  shows "slab_inv a' m' \<and> slab_live a m \<subseteq> slab_live a' m' \<and>
    (\<forall>q \<in> slab_live a m. slab_block_size a' m' q = slab_block_size a m q \<and>
       (\<forall>x \<in> extent q (slab_block_size a m q). m' x = m x)) \<and>
    (\<forall>x. x \<notin> extent (region a) (region_bytes a) \<longrightarrow> m' x = m x) \<and>
    (r = VM_LOAD_OK \<longrightarrow>
       vm_regions_ok cpu' \<and>
       (\<exists>p \<in> slab_live a' m' - slab_live a m. vm_writable cpu' \<subseteq> extent p (slab_block_size a' m' p) \<union> shared_memory cfg) \<and>
       vm_readable cpu' \<subseteq> extent elf (unat elf_size) \<union> shared_memory cfg \<union>
         (\<Union>p \<in> slab_live a' m' - slab_live a m. extent p (slab_block_size a' m' p)) \<and>
       drop_bit 30 (pc cpu') = VM_REGION_CODE \<and> pc cpu' AND 1 = 0 \<and>
       (\<forall>b q x. q \<in> slab_live a m \<longrightarrow> x \<in> extent q (slab_block_size a m q) \<longrightarrow> x \<notin> shared_memory cfg \<longrightarrow>
          snd (snd (snd (vm_step cpu' m' b))) x = m x))"
proof -
  let ?E = "extent elf (unat elf_size)"
  note l = vm_load_inv [OF assms(1-3,6)]
  have "\<exists>cpu. load_inv ?E a m (cpu, a', m', e')" using l by (cases "r = VM_LOAD_OK") blast+
  then have frame: "slab_inv a' m'" "slab_live a m \<subseteq> slab_live a' m'"
    "\<And>q. q \<in> slab_live a m \<Longrightarrow> slab_block_size a' m' q = slab_block_size a m q"
    "\<And>q x. q \<in> slab_live a m \<Longrightarrow> x \<in> extent q (slab_block_size a m q) \<Longrightarrow> m' x = m x"
    "\<And>x. x \<notin> extent (region a) (region_bytes a) \<Longrightarrow> m' x = m x"
    by (auto simp: load_inv_def)
  have "vm_regions_ok cpu' \<and>
       (\<exists>p \<in> slab_live a' m' - slab_live a m. vm_writable cpu' \<subseteq> extent p (slab_block_size a' m' p) \<union> shared_memory cfg) \<and>
       vm_readable cpu' \<subseteq> ?E \<union> shared_memory cfg \<union>
         (\<Union>p \<in> slab_live a' m' - slab_live a m. extent p (slab_block_size a' m' p)) \<and>
       drop_bit 30 (pc cpu') = VM_REGION_CODE \<and> pc cpu' AND 1 = 0 \<and>
       (\<forall>b q x. q \<in> slab_live a m \<longrightarrow> x \<in> extent q (slab_block_size a m q) \<longrightarrow> x \<notin> shared_memory cfg \<longrightarrow>
          snd (snd (snd (vm_step cpu' m' b))) x = m x)" if r: "r = VM_LOAD_OK"
  proof -
    obtain cpu where hdr: "check_ehdr m elf elf_size = VM_LOAD_OK"
      and inv: "load_inv ?E a m (cpu, a', m', e')" and data: "own_block a m a' m' (regions cpu VM_REGION_DATA)"
      and cpu': "cpu' = finish_load cfg (elf_entry m elf) cpu"
      using l(2) [OF r] by blast
    note f = finish_regions [OF inv data assms(4,5) cpu']
    let ?p = "r_base (regions cpu VM_REGION_DATA)"
    have "snd (snd (snd (vm_step cpu' m' b))) x = m x"
      if q: "q \<in> slab_live a m" "x \<in> extent q (slab_block_size a m q)" "x \<notin> shared_memory cfg" for b q x
    proof -
      obtain rr k c2 m2 where s: "vm_step cpu' m' b = (rr, k, c2, m2)" by (metis prod_cases4)
      have pq: "q \<in> slab_live a' m'" "q \<noteq> ?p" "?p \<in> slab_live a' m'" using q(1) frame(2) f(2) by auto
      have "x \<notin> extent ?p (slab_block_size a' m' ?p)"
        using slab_live_bounds(2) [OF frame(1) pq(1,3,2)] q(2) frame(3) [OF q(1)] by auto
      then have "x \<notin> vm_writable cpu'" using f(3) q(3) by blast
      then have "m2 x = m' x"
        using vm_step_view(10) [OF f(1) s] by blast
      then show ?thesis using s frame(4) [OF q(1,2)] by simp
    qed
    then show ?thesis
      using f check_ehdr_ok(1,2) [OF hdr] finish_load_descriptors(2) [of cfg "elf_entry m elf" cpu, folded cpu']
      by (auto simp: vaddr_to_region_def simp del: in_extent)
  qed
  then show ?thesis using frame by blast
qed

text \<open>A one-segment image (an \<open>ecall\<close>), and a memory that holds it at address 200 beside a two-block arena at 8.\<close>

definition demo_elf :: "u8 list" where
  "demo_elf = [0x7F, 0x45, 0x4C, 0x46, 1, 1, 1, 0, 0, 0, 0, 0, 0, 0, 0, 0,
     2, 0, 0xF3, 0, 1, 0, 0, 0, 0, 0, 0, 0, 52, 0, 0, 0, 0, 0, 0, 0, 0, 0, 0, 0, 52, 0, 32, 0, 1, 0, 0, 0, 0, 0, 0, 0,
     1, 0, 0, 0, 84, 0, 0, 0, 0, 0, 0, 0, 0, 0, 0, 0, 4, 0, 0, 0, 4, 0, 0, 0, 5, 0, 0, 0, 4, 0, 0, 0,
     0x73, 0, 0, 0]"

definition demo_loader_config :: VmLoaderConfig where
  "demo_loader_config = \<lparr>code_backing = VM_BACKING_XIP, rodata_backing = VM_BACKING_XIP, ram_arena = 1,
     region_data_size = 16, shared_base = 0, shared_size = 0, l2_shared_base = 0, l2_shared_size = 0\<rparr>"

lemma demo_elf_fields:
  fixes m :: hmem
  defines "im \<equiv> store_bytes m 200 demo_elf"
  shows "check_ehdr im 200 88 = VM_LOAD_OK" "elf_phdrs im 200 = [252]"
    "p_type im 252 = PT_LOAD" "p_offset im 252 = 84" "p_filesz im 252 = 4" "p_memsz im 252 = 4"
    "p_vaddr im 252 = 0" "p_flags im 252 = 5"
proof -
  have b: "im (200 + k) = demo_elf ! k" if "k < 88" for k
    using that by (simp add: im_def store_bytes_def demo_elf_def)
  have at: "im 200 = demo_elf ! 0" using b [of 0] by simp
  have ld: "load_bytes im (200 + k) n = take n (drop k demo_elf)" if "k + n \<le> 88" for k n
    using that by (intro nth_equalityI) (auto simp: b add.assoc demo_elf_def)
  note f = ld [of 16 2] ld [of 18 2] ld [of 20 4] ld [of 24 4] ld [of 28 4] ld [of 42 2] ld [of 44 2]
    ld [of 52 4] ld [of 56 4] ld [of 60 4] ld [of 68 4] ld [of 72 4] ld [of 76 4]
  note g = b [of 1] b [of 2] b [of 3] b [of 4] b [of 5] b [of 6]
  show "check_ehdr im 200 88 = VM_LOAD_OK" "elf_phdrs im 200 = [252]"
    "p_type im 252 = PT_LOAD" "p_offset im 252 = 84" "p_filesz im 252 = 4" "p_memsz im 252 = 4"
    "p_vaddr im 252 = 0" "p_flags im 252 = 5"
    using f g at by (simp_all add: check_ehdr_def elf_phdrs_def p_type_def p_offset_def p_filesz_def p_memsz_def p_vaddr_def
        p_flags_def rd16_def rd32_def load_le_def vaddr_to_region_def demo_elf_def Let_def)
qed

lemma demo_image:
  obtains a :: "unit SlabAllocator" and m where "slab_inv a (store_bytes m 200 demo_elf)"
    "slab_live a (store_bytes m 200 demo_elf) = {}" "btop a 0 = 2" "region a = 8" "region_bytes a = 104"
proof -
  obtain a :: "unit SlabAllocator" and m where
    init: "slab_init (zero_slab slab_null_locker) (\<lambda>_. 0) 8 104 demo_config slab_null_locker = (SLAB_OK, a, m)"
    and a: "slab_inv a m" "slab_live a m = {}" "btop a 0 = 2"
    by (rule demo_slab)
  note reg = slab_init_region [OF init]
  have same: "store_bytes m 200 demo_elf x = m x" if "x \<in> extent (region a) (region_bytes a)" for x
    using that by (intro store_bytes_other) (auto simp: reg)
  show thesis
    by (rule that [OF slab_inv_local(1) [OF a(1) same]]) (use slab_inv_local(2) [OF a(1) same] a reg in simp_all)
qed

theorem loader_safe_witness:
  "\<exists>(a :: unit SlabAllocator) m cpu' a' m' e'. slab_inv a m \<and>
     vm_load 200 88 demo_loader_config (vm_init 1, a, m, ()) = (VM_LOAD_OK, cpu', a', m', e') \<and>
     vm_regions_ok cpu' \<and> pc cpu' AND 1 = 0 \<and> slab_inv a' m'"
proof -
  obtain a :: "unit SlabAllocator" and m0 where a: "slab_inv a (store_bytes m0 200 demo_elf)" "btop a 0 = 2"
    "region a = 8" "region_bytes a = 104"
    by (rule demo_image)
  define m where "m = store_bytes m0 200 demo_elf"
  note f = demo_elf_fields [of m0, folded m_def]
  have chk: "check_phdrs m 88 [252] = VM_LOAD_OK"
    using f by (simp add: check_phdr_def validate_pt_load_def vaddr_to_region_def)
  obtain cpu1 where ap: "apply_phdrs demo_loader_config 200 [252] (vm_init 1, a, m, ()) = (VM_LOAD_OK, cpu1, a, m, ())"
    and len: "r_length (regions cpu1 2) = 0"
    using f by (simp add: apply_pt_load_def vaddr_to_region_def demo_loader_config_def set_region_def vm_init_def
        zero_cpu_def zero_region_def)
  have cfg: "ram_arena demo_loader_config \<noteq> 0" "region_data_size demo_loader_config = 16"
    by (simp_all add: demo_loader_config_def)
  obtain dst a1 m1 e1 where al: "slab_alloc a m () 16 = (dst, a1, m1, e1)" by (metis prod_cases4)
  have "size_to_bin 16 = 0" by code_simp
  then have "dst \<noteq> 0"
    by (cases rule: slab_alloc_cases [OF a(1) [folded m_def], of "()" 16]) (use al a(2) in \<open>auto simp: user_at_def\<close>)
  then obtain cpu' a' m' e' where load: "vm_load 200 88 demo_loader_config (vm_init 1, a, m, ()) = (VM_LOAD_OK, cpu', a', m', e')"
    using f(1,2) chk ap len al cfg
    by (simp add: vm_load_def Let_def default_data_region_def del: apply_phdrs.simps check_phdrs.simps)
  have apart: "extent 200 (unat (88 :: u64)) \<inter> extent (region a) (region_bytes a) = {}" by (auto simp: a)
  have "unat (region_data_size demo_loader_config) + 8 < 2 ^ 32" "shared_size demo_loader_config = 0"
    "l2_shared_size demo_loader_config = 0" by (simp_all add: demo_loader_config_def)
  from loader_safe [OF a(1) [folded m_def] this(1) apart this(2,3) load] load a(1) [folded m_def]
  show ?thesis by blast
qed

end
