(* ===== verification/VM_Loader_Accept.thy ===== *)
theory VM_Loader_Accept
  imports VM_Loader_Safe
begin

text \<open>
  Which images pass the loader's checks, against the header's list of rules in plain arithmetic, and
  what an accepted segment becomes. \<open>VM_Loader_Exact\<close> adds the arena and says when a load succeeds.
\<close>

section \<open>What is accepted\<close>

text \<open>The images the header promises to accept, in plain arithmetic.\<close>

definition acceptable_segment :: "hmem \<Rightarrow> u64 \<Rightarrow> hptr \<Rightarrow> bool" where
  "acceptable_segment m elf_size ph \<longleftrightarrow>
     (p_filesz m ph = 0 \<or> unat (p_offset m ph) + unat (p_filesz m ph) \<le> unat elf_size) \<and>
     unat (p_vaddr m ph) < 3 * 2 ^ 30 \<and>
     unat (p_vaddr m ph) mod 2 ^ 30 + unat (p_memsz m ph) \<le> 2 ^ 30 \<and>
     p_filesz m ph \<le> p_memsz m ph \<and>
     (unat (p_vaddr m ph) < 2 * 2 ^ 30 \<longrightarrow> \<not> bit (p_flags m ph) 1 \<and> p_memsz m ph = p_filesz m ph)"

definition acceptable_phdr :: "hmem \<Rightarrow> u64 \<Rightarrow> hptr \<Rightarrow> bool" where
  "acceptable_phdr m elf_size ph \<longleftrightarrow> p_type m ph \<notin> {PT_DYNAMIC, PT_INTERP} \<and>
     (p_type m ph = PT_LOAD \<and> (p_filesz m ph \<noteq> 0 \<or> p_memsz m ph \<noteq> 0) \<longrightarrow> acceptable_segment m elf_size ph)"

definition acceptable_image :: "hmem \<Rightarrow> hptr \<Rightarrow> u64 \<Rightarrow> bool" where
  "acceptable_image m elf elf_size \<longleftrightarrow>
     52 \<le> unat elf_size \<and> load_bytes m elf 7 = [0x7F, 0x45, 0x4C, 0x46, 1, 1, 1] \<and>
     rd16 m (elf + 16) = 2 \<and> rd16 m (elf + 18) = 0xF3 \<and> rd32 m (elf + 20) = 1 \<and>
     unat (elf_entry m elf) < 2 ^ 30 \<and> even (unat (elf_entry m elf)) \<and>
     rd16 m (elf + 42) = 32 \<and> rd16 m (elf + 44) \<noteq> 0 \<and>
     unat (rd32 m (elf + 28)) + 32 * unat (rd16 m (elf + 44)) \<le> unat elf_size \<and>
     list_all (acceptable_phdr m elf_size) (elf_phdrs m elf)"

lemma region_unat: "unat (vaddr_to_region v) = unat v div 2 ^ 30"
  by (simp add: vaddr_to_region_def drop_bit_eq_div unat_div)

lemma region_eq: "vaddr_to_region v = w \<longleftrightarrow> unat v div 2 ^ 30 = unat w"
  by (simp add: word_unat_eq_iff region_unat)

lemma unat_low_30: "unat (v AND 0x3FFFFFFF :: u32) = unat v mod 2 ^ 30"
proof -
  have "v AND 0x3FFFFFFF = take_bit 30 v" by (simp add: take_bit_eq_mask mask_eq_exp_minus_1)
  then have "unat (v AND 0x3FFFFFFF) = take_bit 30 (unat v)" by (simp only: unsigned_take_bit_eq)
  then show ?thesis by (simp only: take_bit_eq_mod)
qed

lemma and_2_zero: "w AND PF_W \<noteq> 0 \<longleftrightarrow> bit (w :: u32) 1"
  using and_exp_eq_0_iff_not_bit [of w 1] by simp

lemma and_1_zero: "w AND 1 = 0 \<longleftrightarrow> even (unat (w :: u32))"
proof -
  have "bit (unat w) 0 \<longleftrightarrow> bit w 0" by (simp only: bit_unsigned_iff) simp
  then show ?thesis using and_exp_eq_0_iff_not_bit [of w 0] by (simp add: bit_0)
qed

lemma div_window: "0 < (k::nat) \<Longrightarrow> x div k = n \<longleftrightarrow> n * k \<le> x \<and> x < Suc n * k"
  using less_eq_div_iff_mult_less_eq [of k n x] div_less_iff_less_mult [of k x "Suc n"] by auto

lemma segment_arith:
  fixes v s :: u32
  shows "\<not> (s > 0x40000000 \<or> v AND 0x3FFFFFFF > 0x40000000 - s) \<longleftrightarrow> unat v mod 2 ^ 30 + unat s \<le> 2 ^ 30"
proof (cases "s > 0x40000000")
  case False
  then have "unat (0x40000000 - s) = 2 ^ 30 - unat s" "unat s \<le> 2 ^ 30"
    by (auto simp: unat_sub word_le_nat_alt not_less)
  then show ?thesis using False by (simp add: word_less_nat_alt not_less unat_low_30) linarith
qed (simp add: word_less_nat_alt)

lemma check_phdr_accepts:
  assumes "p_type m ph = PT_LOAD" "\<not> (p_filesz m ph = 0 \<and> p_memsz m ph = 0)"
  shows "check_phdr m elf_size ph = VM_LOAD_OK \<longleftrightarrow> acceptable_segment m elf_size ph"
proof -
  let ?v = "p_vaddr m ph" and ?s = "p_memsz m ph" and ?f = "p_filesz m ph"
  have lt: "unat ?v < 4 * 2 ^ 30" using unsigned_less [of ?v, where 'a = nat] by simp
  have r3: "vaddr_to_region ?v = VM_REGION_SHARED \<longleftrightarrow> \<not> unat ?v < 3 * 2 ^ 30"
    using lt unfolding region_eq by (auto simp: div_window)
  have r01: "vaddr_to_region ?v = VM_REGION_CODE \<or> vaddr_to_region ?v = VM_REGION_RODATA \<longleftrightarrow> unat ?v < 2 * 2 ^ 30"
    unfolding region_eq by (auto simp: div_window)
  have ext: "\<not> (?f > 0 \<and> ucast (p_offset m ph) + ucast ?f > elf_size) \<longleftrightarrow>
      ?f = 0 \<or> unat (p_offset m ph) + unat ?f \<le> unat elf_size"
    unfolding word_gt_0 by (auto simp: not_less word_le_nat_alt unat_ucast_sum)
  have "validate_pt_load ?v ?f ?s (p_flags m ph) = VM_LOAD_OK \<longleftrightarrow>
      unat ?v < 3 * 2 ^ 30 \<and> unat ?v mod 2 ^ 30 + unat ?s \<le> 2 ^ 30 \<and> ?f \<le> ?s \<and>
      (unat ?v < 2 * 2 ^ 30 \<longrightarrow> \<not> bit (p_flags m ph) 1 \<and> ?s = ?f)"
    unfolding validate_pt_load_def Let_def r3 r01 and_2_zero segment_arith [symmetric] by (auto simp: not_less)
  then show ?thesis
    using assms ext unfolding check_phdr_def acceptable_segment_def by auto
qed

lemma check_phdrs_accepts: "check_phdrs m elf_size phs = VM_LOAD_OK \<longleftrightarrow> list_all (acceptable_phdr m elf_size) phs"
proof (induction phs)
  case (Cons ph phs)
  have "check_phdr m elf_size ph = VM_LOAD_OK \<longleftrightarrow> acceptable_phdr m elf_size ph"
  proof (cases "p_type m ph = PT_LOAD \<and> \<not> (p_filesz m ph = 0 \<and> p_memsz m ph = 0)")
    case True
    then show ?thesis using check_phdr_accepts [of m ph elf_size] by (auto simp: acceptable_phdr_def)
  qed (auto simp: check_phdr_def acceptable_phdr_def)
  then show ?case using Cons by (auto simp: Let_def)
qed simp

lemma image_accepts:
  "acceptable_image m elf elf_size \<longleftrightarrow>
   check_ehdr m elf elf_size = VM_LOAD_OK \<and> check_phdrs m elf_size (elf_phdrs m elf) = VM_LOAD_OK"
proof -
  have magic: "load_bytes m elf 7 = [0x7F, 0x45, 0x4C, 0x46, 1, 1, 1] \<longleftrightarrow>
      \<not> (m elf \<noteq> 0x7F \<or> m (elf + 1) \<noteq> 0x45 \<or> m (elf + 2) \<noteq> 0x4C \<or> m (elf + 3) \<noteq> 0x46) \<and>
      \<not> m (elf + 4) \<noteq> 1 \<and> \<not> m (elf + 5) \<noteq> 1 \<and> \<not> m (elf + 6) \<noteq> 1"
    by (auto simp: load_bytes_def upt_rec eval_nat_numeral)
  have size: "\<not> elf_size < ELF32_EHDR_SIZE \<longleftrightarrow> 52 \<le> unat elf_size" by (simp add: word_less_nat_alt not_less)
  have ent: "vaddr_to_region (rd32 m (elf + 24)) = VM_REGION_CODE \<longleftrightarrow> unat (rd32 m (elf + 24)) < 2 ^ 30"
    unfolding region_eq by (simp add: div_eq_0_iff)
  let ?off = "rd32 m (elf + 28)" and ?num = "rd16 m (elf + 44)"
  have b: "unat ?off < 2 ^ 32" "unat ?num < 2 ^ 16"
    using unsigned_less [of ?off, where 'a = nat] unsigned_less [of ?num, where 'a = nat] by simp_all
  have "unat (ucast ?num :: u64) = unat ?num" using b(2) by (simp add: unsigned_ucast_eq take_bit_nat_eq_self)
  then have "unat (ucast ?off + ucast ?num * 32 :: u64) = unat ?off + 32 * unat ?num"
    using b by (simp add: unat_word_ariths unat_ucast_u64)
  then have tbl: "\<not> ucast ?off + ucast ?num * ELF32_PHDR_SIZE > elf_size \<longleftrightarrow> unat ?off + 32 * unat ?num \<le> unat elf_size"
    by (simp add: word_less_nat_alt not_less)
  have ent_sz: "ucast (rd16 m (elf + 42)) = ELF32_PHDR_SIZE \<longleftrightarrow> rd16 m (elf + 42) = 32"
    using unsigned_less [of "rd16 m (elf + 42)", where 'a = nat]
    by (simp add: word_unat_eq_iff unsigned_ucast_eq take_bit_nat_eq_self)
  show ?thesis
    unfolding acceptable_image_def elf_entry_def check_phdrs_accepts check_ehdr_def Let_def
    unfolding magic size [symmetric] ent [symmetric] tbl [symmetric] and_1_zero [symmetric] ent_sz
    by auto
qed


abbreviation (input) apply_results :: "VmLoadResult set" where
  "apply_results \<equiv>
     {VM_LOAD_OK, VM_LOAD_ERR_OUT_OF_RAM, VM_LOAD_ERR_DATA_SIZE_TOO_SMALL, VM_LOAD_ERR_INVALID_ARG}"

lemma apply_pt_load_result: "fst (apply_pt_load cfg elf k f s v st) \<in> apply_results"
  by (auto simp: apply_pt_load_def Let_def split: prod.splits)

lemma apply_phdrs_result: "fst (apply_phdrs cfg elf phs st) \<in> apply_results"
proof (induction phs arbitrary: st)
  case (Cons ph phs)
  obtain cpu a m e where st: "st = (cpu, a, m, e)" by (metis prod_cases4)
  obtain ar st1 where ap: "apply_pt_load cfg elf (p_offset m ph) (p_filesz m ph) (p_memsz m ph) (p_vaddr m ph) st = (ar, st1)"
    by (cases "apply_pt_load cfg elf (p_offset m ph) (p_filesz m ph) (p_memsz m ph) (p_vaddr m ph) st")
  then have "ar \<in> apply_results" by (metis apply_pt_load_result fst_conv)
  then show ?case using Cons [of st] Cons [of st1] ap st by (simp only: apply_phdrs.simps prod.case Let_def split: if_splits) auto
qed simp

section \<open>What is loaded\<close>

text \<open>
  C26. What a segment becomes: when a checked segment is applied, its region starts with the
  segment's file bytes, whatever the segment's offset inside the region; a data segment's region is
  writable, has the configured size, and its bytes from the file size up to the memory size
  are zero; a code or rodata region is read-only and ends with the file bytes. No other region
  and no register changes.
\<close>

theorem segment_contents:
  assumes "slab_inv a m" and "unat (region_data_size cfg) + 8 < 2 ^ 32"
    and "extent elf (unat elf_size) \<inter> extent (region a) (region_bytes a) = {}"
    and "segment_ok elf_size offset filesz memsz vaddr"
    and "apply_pt_load cfg elf offset filesz memsz vaddr (cpu, a, m, e) = (VM_LOAD_OK, cpu', a', m', e')"
  shows "(let g = regions cpu' (vaddr_to_region vaddr) in
      load_bytes m' (r_base g) (unat filesz) = load_bytes m (elf + unat offset) (unat filesz) \<and>
      (if vaddr_to_region vaddr = VM_REGION_DATA
       then r_writable g \<and> r_length g = region_data_size cfg \<and> unat memsz \<le> unat (r_length g) \<and>
         load_bytes m' (r_base g + unat filesz) (unat memsz - unat filesz) = replicate (unat memsz - unat filesz) 0
       else \<not> r_writable g \<and> r_length g = filesz)) \<and>
    cpu' = cpu\<lparr>regions := (regions cpu)(vaddr_to_region vaddr := regions cpu' (vaddr_to_region vaddr))\<rparr>"
proof -
  let ?reg = "vaddr_to_region vaddr" and ?src = "elf + unat offset"
  have fs: "unat filesz \<le> unat memsz" using assms(4) by (auto simp: segment_ok_def word_le_nat_alt)
  have src: "load_bytes m1 ?src (unat filesz) = load_bytes m ?src (unat filesz)"
    if "slab_alloc a m e k = (dst, a1, m1, e1)" "dst \<noteq> 0" for k dst a1 m1 e1
  proof (cases "filesz = 0")
    case False
    then have "extent ?src (unat filesz) \<subseteq> extent elf (unat elf_size)" using assms(4) by (auto simp: segment_ok_def)
    then show ?thesis using assms(3) slab_alloc_grant(7) [OF assms(1) that]
      by (intro load_bytes_eqI) (metis IntI empty_iff in_extent subsetD)
  qed simp
  consider (ro) "?reg = VM_REGION_CODE \<or> ?reg = VM_REGION_RODATA" | (data) "?reg = VM_REGION_DATA"
    using vaddr_region_cases [of vaddr] assms(4) by (auto simp: segment_ok_def)
  then show ?thesis
  proof cases
    case ro
    define mode where "mode = (if ?reg = VM_REGION_CODE then code_backing cfg else rodata_backing cfg)"
    have nd: "?reg \<noteq> VM_REGION_DATA" using ro by auto
    show ?thesis
    proof (cases mode)
      case VM_BACKING_XIP
      then have "cpu' = set_region ?reg ?src filesz False cpu" "m' = m"
        using assms(5) ro by (auto simp: apply_pt_load_def Let_def mode_def [symmetric] split: if_splits)
      then show ?thesis using nd by (simp add: set_region_def)
    next
      case VM_BACKING_COPY_RAM
      obtain dst a1 m1 e1 where al: "slab_alloc a m e (ucast filesz) = (dst, a1, m1, e1)" by (metis prod_cases4)
      have "dst \<noteq> 0" "cpu' = set_region ?reg dst filesz False cpu" "m' = memcpy m1 dst ?src (unat filesz)"
        using assms(5) ro VM_BACKING_COPY_RAM al
        by (auto simp: apply_pt_load_def Let_def mode_def [symmetric] split: if_splits)
      then show ?thesis using nd src [OF al] by (simp add: set_region_def memcpy_def)
    qed
  next
    case data
    obtain dst a1 m1 e1 where al: "slab_alloc a m e (ucast (region_data_size cfg)) = (dst, a1, m1, e1)" by (metis prod_cases4)
    define m2 where "m2 = (if filesz > 0 then memcpy m1 dst ?src (unat filesz) else m1)"
    define m3 where "m3 = (if memsz > filesz then memset0 m2 (dst + unat filesz) (unat (memsz - filesz)) else m2)"
    have r: "\<not> region_data_size cfg < memsz" "dst \<noteq> 0" "cpu' = set_region VM_REGION_DATA dst (region_data_size cfg) True cpu"
      "m' = m3"
      using assms(5) data al by (auto simp: apply_pt_load_def Let_def m2_def m3_def split: if_splits)
    have gap: "unat (memsz - filesz) = unat memsz - unat filesz" if "filesz < memsz"
      using that by (intro unat_sub) (simp add: word_le_nat_alt word_less_nat_alt)
    have m2: "load_bytes m2 dst (unat filesz) = load_bytes m ?src (unat filesz)"
      using src [OF al r(2)] by (cases "filesz = 0") (simp_all add: m2_def memcpy_def word_gt_0)
    have "apart (dst + unat filesz) (unat memsz - unat filesz) dst (unat filesz)" by (simp add: apart_def)
    then have bytes: "load_bytes m3 dst (unat filesz) = load_bytes m2 dst (unat filesz)"
      using gap by (simp add: m3_def memset0_def)
    have zero: "load_bytes m3 (dst + unat filesz) (unat memsz - unat filesz) = replicate (unat memsz - unat filesz) 0"
    proof (cases "filesz < memsz")
      case True
      then show ?thesis using gap by (simp add: m3_def memset0_def)
    next
      case False
      then show ?thesis by (simp add: word_less_nat_alt)
    qed
    show ?thesis using r m2 bytes zero data by (simp add: set_region_def word_less_nat_alt)
  qed
qed


theorem segment_contents_witness:
  "\<exists>(a :: unit SlabAllocator) m cpu' a' m' e'.
     apply_pt_load demo_loader_config 200 84 4 8 0x80000000 (vm_init 1, a, m, ()) = (VM_LOAD_OK, cpu', a', m', e') \<and>
     load_bytes m' (r_base (regions cpu' 2)) 4 = [0x73, 0, 0, 0] \<and>
     load_bytes m' (r_base (regions cpu' 2) + 4) 4 = [0, 0, 0, 0]"
proof -
  obtain a :: "unit SlabAllocator" and m0 where a: "slab_inv a (store_bytes m0 200 demo_elf)" "btop a 0 = 2"
    "region a = 8" "region_bytes a = 104"
    by (rule demo_image)
  define m where "m = store_bytes m0 200 demo_elf"
  obtain dst a1 m1 e1 where al: "slab_alloc a m () 16 = (dst, a1, m1, e1)" by (metis prod_cases4)
  have "size_to_bin 16 = 0" by code_simp
  then have "dst \<noteq> 0"
    by (cases rule: slab_alloc_cases [OF a(1) [folded m_def], of "()" 16]) (use al a(2) in \<open>auto simp: user_at_def\<close>)
  then obtain cpu' a' m' e' where ap: "apply_pt_load demo_loader_config 200 84 4 8 0x80000000 (vm_init 1, a, m, ()) =
      (VM_LOAD_OK, cpu', a', m', e')"
    using al by (simp add: apply_pt_load_def vaddr_to_region_def demo_loader_config_def Let_def)
  have apart: "extent 200 (unat (88 :: u64)) \<inter> extent (region a) (region_bytes a) = {}" by (auto simp: a)
  have pre: "unat (region_data_size demo_loader_config) + 8 < 2 ^ 32" "segment_ok 88 84 4 8 0x80000000"
    by (simp_all add: demo_loader_config_def segment_ok_def vaddr_to_region_def)
  have four: "load_bytes m (200 + unat (84 :: u32)) 4 = [0x73, 0, 0, 0]"
    by (simp add: m_def load_bytes_def store_bytes_def demo_elf_def upt_rec)
  have "load_bytes m' (r_base (regions cpu' 2)) 4 = [0x73, 0, 0, 0] \<and>
      load_bytes m' (r_base (regions cpu' 2) + 4) 4 = replicate 4 0"
    using segment_contents [OF a(1) [folded m_def] pre(1) apart pre(2) ap] four
    by (simp add: vaddr_to_region_def Let_def)
  with ap show ?thesis by (intro exI conjI) (auto simp: numeral_eq_Suc)
qed

end
