(* ===== verification/VM_Loader_Exact.thy ===== *)
theory VM_Loader_Exact
  imports VM_Loader_Accept Slab_Size
begin

text \<open>
  When exactly \<open>vm_load\<close> succeeds: the header rules of \<open>VM_Loader_Accept\<close>, what the configuration and
  the image must agree on, and the arena's supply of free blocks, all in plain arithmetic.
\<close>

section \<open>The arena's supply\<close>

text \<open>
  Blocks of bin \<open>i\<close> serve a request of \<open>n\<close> bytes when it is the smallest bin whose blocks hold request and
  header. A list of requests is covered when every bin has as many free blocks as requests.
\<close>

definition served_by :: "nat \<Rightarrow> nat \<Rightarrow> bool" where
  "served_by n i \<longleftrightarrow> n + 8 \<le> 32 * 2 ^ i \<and> (\<forall>j < i. 32 * 2 ^ j < n + 8)"

definition covers :: "'e SlabAllocator \<Rightarrow> nat list \<Rightarrow> bool" where
  "covers a ns \<longleftrightarrow> (\<forall>n \<in> set ns. 0 < n \<and> n + 8 \<le> 2 ^ 20) \<and>
     (\<forall>i < 16. length (filter (\<lambda>n. served_by n i) ns) \<le> btop a i)"

lemma covers_Nil [simp]: "covers a []" by (simp add: covers_def)

lemma covers_prefix: "covers a (xs @ ys) \<Longrightarrow> covers a xs"
  by (auto simp: covers_def)

lemma served_by_bin:
  assumes "unat n + 8 \<le> 2 ^ 20" shows "served_by (unat n) i \<longleftrightarrow> i = size_to_bin n"
proof -
  have b: "unat n + 8 \<le> 32 * 2 ^ size_to_bin n" "\<forall>j < size_to_bin n. 32 * 2 ^ j < unat n + 8"
    using size_to_bin_exact [of n] assms by simp_all
  show ?thesis
  proof
    assume s: "served_by (unat n) i"
    then have "\<not> i < size_to_bin n" "\<not> size_to_bin n < i" using b by (auto simp: served_by_def not_less [symmetric])
    then show "i = size_to_bin n" by simp
  qed (use b in \<open>simp add: served_by_def\<close>)
qed

lemma slab_alloc_top:
  assumes "slab_alloc a m e n = (p, a', m', e')" "n \<noteq> 0" "size_to_bin n < 16" "btop a (size_to_bin n) \<noteq> 0"
    and "slab_inv a m"
  shows "btop a' j = (if j = size_to_bin n then btop a j - 1 else btop a j)"
proof -
  obtain k where k: "btop a (size_to_bin n) = Suc k" using assms(4) by (metis not0_implies_Suc)
  obtain b a1 where al: "slab_alloc a m e n =
        (user_at a (size_to_bin n) b, a1, st32 m (block_at a (size_to_bin n) b) SLAB_MAGIC_ALLOCATED,
         lk_unlock (locker a) (snd (lk_lock (locker a) e)) (fst (lk_lock (locker a) e)))"
    and other: "\<And>j. j \<noteq> size_to_bin n \<Longrightarrow> bins a1 j = bins a j" and top: "btop a1 (size_to_bin n) = k"
    using slab_alloc_result [OF assms(5,2) refl assms(3) k] by metis
  then show ?thesis using assms(1) k by (auto simp: btop_def)
qed

lemma alloc_covers:
  assumes inv: "slab_inv a m" and al: "slab_alloc a m e (ucast (w :: u32)) = (p, a', m', e')" and w: "unat w + 8 < 2 ^ 32"
  shows "p \<noteq> 0 \<longleftrightarrow> covers a [unat w]" and "p \<noteq> 0 \<Longrightarrow> covers a' ns \<longleftrightarrow> covers a (unat w # ns)"
proof -
  let ?n = "ucast w :: u64"
  have n: "unat ?n = unat w" by (rule unat_ucast_u64)
  have zero: "?n = 0 \<longleftrightarrow> unat w = 0" unfolding n [symmetric] by (simp add: word_unat_eq_iff)
  have bin: "size_to_bin ?n < 16 \<longleftrightarrow> unat w + 8 \<le> 2 ^ 20"
    using size_to_bin_exact [of ?n] w unfolding n by (auto split: if_splits)
  have p: "p = 0 \<longleftrightarrow> ?n = 0 \<or> 16 \<le> size_to_bin ?n \<or> btop a (size_to_bin ?n) = 0"
    by (rule slab_alloc_cases [OF inv, of e ?n]) (use al in \<open>auto simp: user_at_def\<close>)
  have served: "served_by (unat w) i \<longleftrightarrow> i = size_to_bin ?n" if "unat w + 8 \<le> 2 ^ 20" for i
    using served_by_bin [of ?n i] that n by simp
  show "p \<noteq> 0 \<longleftrightarrow> covers a [unat w]"
  proof (cases "unat w + 8 \<le> 2 ^ 20")
    case True
    then have "covers a [unat w] \<longleftrightarrow> unat w \<noteq> 0 \<and> btop a (size_to_bin ?n) \<noteq> 0"
      using bin served by (auto simp: covers_def Suc_le_eq)
    then show ?thesis using p zero bin True by auto
  qed (use p bin in \<open>auto simp: covers_def\<close>)
  assume "p \<noteq> 0"
  then have g: "?n \<noteq> 0" "size_to_bin ?n < 16" "btop a (size_to_bin ?n) \<noteq> 0" using p by auto
  have le: "unat w + 8 \<le> 2 ^ 20" using bin g(2) by simp
  have "length (filter (\<lambda>n. served_by n i) ns) \<le> btop a' i \<longleftrightarrow>
      length (filter (\<lambda>n. served_by n i) (unat w # ns)) \<le> btop a i" for i
    using served [OF le, of i] g(3) slab_alloc_top [OF al g inv, of i] by auto
  then show "covers a' ns \<longleftrightarrow> covers a (unat w # ns)"
    using le g(1) zero by (auto simp: covers_def)
qed

section \<open>What a segment asks for\<close>

text \<open>The headers the loader acts on; their region is the top of the address, below 1 GB code, below 2 GB rodata.\<close>

definition loads :: "hmem \<Rightarrow> hptr \<Rightarrow> bool" where
  "loads m ph \<longleftrightarrow> p_type m ph = PT_LOAD \<and> (p_filesz m ph \<noteq> 0 \<or> p_memsz m ph \<noteq> 0)"

definition data_segment :: "hmem \<Rightarrow> hptr \<Rightarrow> bool" where "data_segment m ph \<longleftrightarrow> 2 ^ 31 \<le> unat (p_vaddr m ph)"

definition needs :: "VmLoaderConfig \<Rightarrow> hmem \<Rightarrow> hptr \<Rightarrow> nat list" where
  "needs cfg m ph =
     (if data_segment m ph then [unat (region_data_size cfg)]
      else if (if unat (p_vaddr m ph) < 2 ^ 30 then code_backing cfg else rodata_backing cfg) = VM_BACKING_XIP then []
      else [unat (p_filesz m ph)])"

definition outgrows :: "VmLoaderConfig \<Rightarrow> hmem \<Rightarrow> hptr \<Rightarrow> bool" where
  "outgrows cfg m ph \<longleftrightarrow> data_segment m ph \<and> unat (region_data_size cfg) < unat (p_memsz m ph)"

definition odd_code :: "VmLoaderConfig \<Rightarrow> hmem \<Rightarrow> hptr \<Rightarrow> hptr \<Rightarrow> bool" where
  "odd_code cfg m elf ph \<longleftrightarrow> unat (p_vaddr m ph) < 2 ^ 30 \<and> code_backing cfg = VM_BACKING_XIP \<and>
     odd (elf + unat (p_offset m ph))"

lemma segment_supply:
  assumes inv: "slab_inv a m" and size: "unat (region_data_size cfg) + 8 < 2 ^ 32"
    and seg: "acceptable_segment m elf_size ph" and ld: "loads m ph"
    and ap: "apply_pt_load cfg elf (p_offset m ph) (p_filesz m ph) (p_memsz m ph) (p_vaddr m ph) (cpu, a, m, e) =
      (r, cpu', a', m', e')"
  shows "r = VM_LOAD_OK \<longleftrightarrow> \<not> outgrows cfg m ph \<and> \<not> odd_code cfg m elf ph \<and> covers a (needs cfg m ph)"
    and "r = VM_LOAD_OK \<Longrightarrow> covers a' ns \<longleftrightarrow> covers a (needs cfg m ph @ ns)"
    and "r = VM_LOAD_OK \<Longrightarrow> region_data_size cfg \<noteq> 0 \<Longrightarrow>
      r_length (regions cpu' VM_REGION_DATA) = 0 \<longleftrightarrow> \<not> data_segment m ph \<and> r_length (regions cpu VM_REGION_DATA) = 0"
    and "r = VM_LOAD_ERR_DATA_SIZE_TOO_SMALL \<Longrightarrow> outgrows cfg m ph"
    and "r = VM_LOAD_ERR_INVALID_ARG \<Longrightarrow> odd_code cfg m elf ph"
    and "r = VM_LOAD_ERR_OUT_OF_RAM \<Longrightarrow> \<not> covers a (needs cfg m ph)"
proof -
  let ?v = "p_vaddr m ph" and ?f = "p_filesz m ph" and ?s = "p_memsz m ph"
  have v: "unat ?v < 3 * 2 ^ 30" using seg by (simp add: acceptable_segment_def)
  have code: "vaddr_to_region ?v = VM_REGION_CODE \<longleftrightarrow> unat ?v < 2 ^ 30"
    unfolding region_eq by (auto simp: div_window)
  have ro: "vaddr_to_region ?v = VM_REGION_RODATA \<longleftrightarrow> 2 ^ 30 \<le> unat ?v \<and> \<not> data_segment m ph"
    unfolding region_eq data_segment_def by (auto simp: div_window)
  have data: "vaddr_to_region ?v = VM_REGION_DATA \<longleftrightarrow> data_segment m ph"
    using v unfolding region_eq data_segment_def by (auto simp: div_window)
  have le: "?f \<le> ?s" "unat ?s \<le> 2 ^ 30" using seg by (simp_all add: acceptable_segment_def)
  then have f: "unat ?f + 8 < 2 ^ 32" by (simp add: word_le_nat_alt)
  let ?goal = "(r = VM_LOAD_OK \<longleftrightarrow> \<not> outgrows cfg m ph \<and> \<not> odd_code cfg m elf ph \<and> covers a (needs cfg m ph)) \<and>
    (r = VM_LOAD_OK \<longrightarrow> (\<forall>ns. covers a' ns \<longleftrightarrow> covers a (needs cfg m ph @ ns)) \<and>
      (region_data_size cfg \<noteq> 0 \<longrightarrow> (r_length (regions cpu' VM_REGION_DATA) = 0 \<longleftrightarrow>
        \<not> data_segment m ph \<and> r_length (regions cpu VM_REGION_DATA) = 0))) \<and>
    (r = VM_LOAD_ERR_DATA_SIZE_TOO_SMALL \<longrightarrow> outgrows cfg m ph) \<and>
    (r = VM_LOAD_ERR_INVALID_ARG \<longrightarrow> odd_code cfg m elf ph) \<and>
    (r = VM_LOAD_ERR_OUT_OF_RAM \<longrightarrow> \<not> covers a (needs cfg m ph))"
  have ?goal
  proof (cases "data_segment m ph")
    case True
    obtain dst a1 m1 e1 where al: "slab_alloc a m e (ucast (region_data_size cfg)) = (dst, a1, m1, e1)" by (metis prod_cases4)
    note c = alloc_covers [OF inv al size]
    have "\<not> vaddr_to_region ?v = VM_REGION_CODE" "\<not> vaddr_to_region ?v = VM_REGION_RODATA"
      using code ro True by (auto simp: data_segment_def)
    then show ?thesis using ap al c True data
      by (cases "region_data_size cfg < ?s"; cases "dst = 0")
        (auto simp: apply_pt_load_def Let_def set_region_def needs_def outgrows_def odd_code_def word_less_nat_alt data_segment_def)
  next
    case nd: False
    have reg: "vaddr_to_region ?v = VM_REGION_CODE \<or> vaddr_to_region ?v = VM_REGION_RODATA" using code ro nd by auto
    have keep: "vaddr_to_region ?v \<noteq> VM_REGION_DATA" using data nd by simp
    define mode where "mode = (if unat ?v < 2 ^ 30 then code_backing cfg else rodata_backing cfg)"
    have mode: "(if vaddr_to_region ?v = VM_REGION_CODE then code_backing cfg else rodata_backing cfg) = mode"
      using code by (simp add: mode_def)
    show ?thesis
    proof (cases mode)
      case VM_BACKING_XIP
      then have n: "needs cfg m ph = []" "\<not> outgrows cfg m ph" using nd by (simp_all add: needs_def outgrows_def mode_def)
      have o: "odd_code cfg m elf ph \<longleftrightarrow> unat ?v < 2 ^ 30 \<and> odd (elf + unat (p_offset m ph))"
        using VM_BACKING_XIP by (auto simp: odd_code_def mode_def split: if_splits)
      show ?thesis using ap reg keep code VM_BACKING_XIP nd n(2)
        unfolding apply_pt_load_def Let_def prod.case mode n o set_region_def by (auto split: if_splits)
    next
      case VM_BACKING_COPY_RAM
      obtain dst a1 m1 e1 where al: "slab_alloc a m e (ucast ?f) = (dst, a1, m1, e1)" by (metis prod_cases4)
      note c = alloc_covers [OF inv al f]
      have n: "needs cfg m ph = [unat ?f]" "\<not> outgrows cfg m ph" "\<not> odd_code cfg m elf ph"
        using nd VM_BACKING_COPY_RAM by (auto simp: needs_def outgrows_def odd_code_def mode_def split: if_splits)
      show ?thesis using ap reg keep VM_BACKING_COPY_RAM nd al c n(2,3)
        unfolding apply_pt_load_def Let_def prod.case mode n set_region_def
        by (cases "dst = 0") auto
    qed
  qed
  then show "r = VM_LOAD_OK \<longleftrightarrow> \<not> outgrows cfg m ph \<and> \<not> odd_code cfg m elf ph \<and> covers a (needs cfg m ph)"
    "r = VM_LOAD_OK \<Longrightarrow> covers a' ns \<longleftrightarrow> covers a (needs cfg m ph @ ns)"
    "r = VM_LOAD_OK \<Longrightarrow> region_data_size cfg \<noteq> 0 \<Longrightarrow>
      r_length (regions cpu' VM_REGION_DATA) = 0 \<longleftrightarrow> \<not> data_segment m ph \<and> r_length (regions cpu VM_REGION_DATA) = 0"
    "r = VM_LOAD_ERR_DATA_SIZE_TOO_SMALL \<Longrightarrow> outgrows cfg m ph" "r = VM_LOAD_ERR_INVALID_ARG \<Longrightarrow> odd_code cfg m elf ph"
    "r = VM_LOAD_ERR_OUT_OF_RAM \<Longrightarrow> \<not> covers a (needs cfg m ph)" by blast+
qed

section \<open>All segments\<close>

lemma loads_segment:
  assumes "check_phdr m elf_size ph = VM_LOAD_OK" "loads m ph"
  shows "acceptable_segment m elf_size ph"
  using check_phdr_accepts [of m ph elf_size] assms by (auto simp: loads_def)

lemma needs_cong:
  assumes "\<And>x. x \<in> extent ph 32 \<Longrightarrow> m' x = m x"
  shows "loads m' ph = loads m ph" "needs cfg m' ph = needs cfg m ph" "outgrows cfg m' ph = outgrows cfg m ph"
    "odd_code cfg m' elf ph = odd_code cfg m elf ph" "data_segment m' ph = data_segment m ph"
proof -
  have "p_type m' ph = p_type m ph" "p_offset m' ph = p_offset m ph" "p_vaddr m' ph = p_vaddr m ph"
    "p_filesz m' ph = p_filesz m ph" "p_memsz m' ph = p_memsz m ph"
    by (rule phdr_cong, erule assms)+
  then show "loads m' ph = loads m ph" "needs cfg m' ph = needs cfg m ph" "outgrows cfg m' ph = outgrows cfg m ph"
    "odd_code cfg m' elf ph = odd_code cfg m elf ph" "data_segment m' ph = data_segment m ph"
    by (simp_all only: loads_def needs_def outgrows_def odd_code_def data_segment_def)
qed

lemma acceptable_segment_cong:
  assumes "\<And>x. x \<in> extent ph 32 \<Longrightarrow> m' x = m x"
  shows "acceptable_segment m' elf_size ph = acceptable_segment m elf_size ph"
proof -
  have "p_flags m' ph = p_flags m ph"
    unfolding p_flags_def rd32_def by (auto intro!: load_le_eqI assms)
  moreover have "p_offset m' ph = p_offset m ph" "p_vaddr m' ph = p_vaddr m ph"
    "p_filesz m' ph = p_filesz m ph" "p_memsz m' ph = p_memsz m ph"
    by (rule phdr_cong, erule assms)+
  ultimately show ?thesis by (simp only: acceptable_segment_def)
qed

text \<open>The verdict of the second loop on the headers \<open>phs\<close>, in terms of the memory \<open>m0\<close> the load started with.\<close>

definition verdict :: "VmLoaderConfig \<Rightarrow> hmem \<Rightarrow> hptr \<Rightarrow> 'e SlabAllocator \<Rightarrow> hptr list \<Rightarrow> VmLoadResult \<Rightarrow> bool" where
  "verdict cfg m elf a phs r \<longleftrightarrow>
     (r = VM_LOAD_OK \<longleftrightarrow> (\<forall>ph \<in> set phs. \<not> outgrows cfg m ph \<and> \<not> odd_code cfg m elf ph) \<and> covers a (concat (map (needs cfg m) phs))) \<and>
     (r = VM_LOAD_ERR_DATA_SIZE_TOO_SMALL \<longrightarrow> (\<exists>ph \<in> set phs. outgrows cfg m ph)) \<and>
     (r = VM_LOAD_ERR_INVALID_ARG \<longrightarrow> (\<exists>ph \<in> set phs. odd_code cfg m elf ph)) \<and>
     (r = VM_LOAD_ERR_OUT_OF_RAM \<longrightarrow> \<not> covers a (concat (map (needs cfg m) phs)))"

lemma verdict_refused:
  assumes "r \<noteq> VM_LOAD_OK" "r = VM_LOAD_OK \<longleftrightarrow> \<not> outgrows cfg m ph \<and> \<not> odd_code cfg m elf ph \<and> covers a (needs cfg m ph)"
    and "r = VM_LOAD_ERR_DATA_SIZE_TOO_SMALL \<Longrightarrow> outgrows cfg m ph" "r = VM_LOAD_ERR_INVALID_ARG \<Longrightarrow> odd_code cfg m elf ph"
    and "r = VM_LOAD_ERR_OUT_OF_RAM \<Longrightarrow> \<not> covers a (needs cfg m ph)"
  shows "verdict cfg m elf a (ph # phs) r"
  using assms covers_prefix [of a "needs cfg m ph"] by (auto simp: verdict_def)

lemma verdict_Cons:
  assumes "\<not> outgrows cfg m ph" "\<not> odd_code cfg m elf ph" "\<And>ns. covers a' ns \<longleftrightarrow> covers a (needs cfg m ph @ ns)"
    and "verdict cfg m elf a' phs r"
  shows "verdict cfg m elf a (ph # phs) r"
  using assms by (simp add: verdict_def)

lemma segments_supply:
  assumes elf: "elf \<noteq> 0" and size: "unat (region_data_size cfg) + 8 < 2 ^ 32" "region_data_size cfg \<noteq> 0"
    and apart: "extent elf (unat elf_size) \<inter> extent (region a0) (region_bytes a0) = {}"
  shows "load_inv (extent elf (unat elf_size)) a0 m0 (cpu, a, m, e) \<Longrightarrow>
    \<forall>ph \<in> set phs. check_phdr m0 elf_size ph = VM_LOAD_OK \<and> extent ph 32 \<subseteq> extent elf (unat elf_size) \<Longrightarrow>
    apply_phdrs cfg elf phs (cpu, a, m, e) = (r, cpu', a', m', e') \<Longrightarrow>
    verdict cfg m0 elf a (filter (loads m0) phs) r \<and>
    (r = VM_LOAD_OK \<longrightarrow> (\<forall>ns. covers a' ns \<longleftrightarrow> covers a (concat (map (needs cfg m0) (filter (loads m0) phs)) @ ns)) \<and>
      (r_length (regions cpu' VM_REGION_DATA) = 0 \<longleftrightarrow>
       (\<forall>ph \<in> set phs. loads m0 ph \<longrightarrow> \<not> data_segment m0 ph) \<and> r_length (regions cpu VM_REGION_DATA) = 0))"
proof (induction phs arbitrary: cpu a m e)
  case Nil
  then show ?case by (auto simp: verdict_def)
next
  case (Cons ph phs)
  have eq: "m x = m0 x" if "x \<in> extent ph 32" for x
  proof -
    have "x \<notin> extent (region a0) (region_bytes a0)" using that Cons.prems(2) apart by (auto simp del: in_extent)
    then show ?thesis using Cons.prems(1) by (auto simp: load_inv_def)
  qed
  have same: "loads m ph = loads m0 ph" "needs cfg m ph = needs cfg m0 ph" "outgrows cfg m ph = outgrows cfg m0 ph"
    "odd_code cfg m elf ph = odd_code cfg m0 elf ph" "data_segment m ph = data_segment m0 ph"
    "acceptable_segment m elf_size ph = acceptable_segment m0 elf_size ph"
    by (rule needs_cong acceptable_segment_cong, erule eq)+
  have skip: "p_type m ph \<noteq> PT_LOAD \<or> p_filesz m ph = 0 \<and> p_memsz m ph = 0 \<longleftrightarrow> \<not> loads m0 ph"
    unfolding same(1) [symmetric] unfolding loads_def by blast
  have rest: "\<forall>ph \<in> set phs. check_phdr m0 elf_size ph = VM_LOAD_OK \<and> extent ph 32 \<subseteq> extent elf (unat elf_size)"
    using Cons.prems(2) by simp
  show ?case
  proof (cases "loads m0 ph")
    case False
    then have "apply_phdrs cfg elf phs (cpu, a, m, e) = (r, cpu', a', m', e')"
      using Cons.prems(3) skip by (auto split: if_splits)
    from Cons.IH [OF Cons.prems(1) rest this] False show ?thesis by simp
  next
    case True
    obtain ar c1 a1 m1 e1 where ap: "apply_pt_load cfg elf (p_offset m ph) (p_filesz m ph) (p_memsz m ph) (p_vaddr m ph)
        (cpu, a, m, e) = (ar, c1, a1, m1, e1)" by (metis prod_cases5)
    have chk: "check_phdr m0 elf_size ph = VM_LOAD_OK" using Cons.prems(2) by simp
    have seg: "acceptable_segment m elf_size ph" "loads m ph"
      using loads_segment [OF chk True] True same by simp_all
    have inv: "slab_inv a m" using Cons.prems(1) by (simp add: load_inv_def)
    note s = segment_supply [OF inv size(1) seg ap, unfolded same]
    have go: "apply_phdrs cfg elf (ph # phs) (cpu, a, m, e) =
        (if ar \<noteq> VM_LOAD_OK then (ar, c1, a1, m1, e1) else apply_phdrs cfg elf phs (c1, a1, m1, e1))"
      using True skip ap by (auto simp: Let_def)
    show ?thesis
    proof (cases "ar = VM_LOAD_OK")
      case False
      then have r: "r = ar" using Cons.prems(3) go by simp
      have "verdict cfg m0 elf a (ph # filter (loads m0) phs) ar" by (rule verdict_refused [OF False s(1,4-6)])
      then show ?thesis using True r False by simp
    next
      case ok: True
      have run: "apply_phdrs cfg elf phs (c1, a1, m1, e1) = (r, cpu', a', m', e')" using Cons.prems(3) go ok by simp
      have "segment_ok elf_size (p_offset m ph) (p_filesz m ph) (p_memsz m ph) (p_vaddr m ph)"
        using check_phdr_segment [of m elf_size ph] check_phdr_accepts [of m ph elf_size] seg by (auto simp: loads_def)
      from apply_pt_load_inv [OF Cons.prems(1) elf size(1) this ap]
      have inv1: "load_inv (extent elf (unat elf_size)) a0 m0 (c1, a1, m1, e1)" .
      have fine: "\<not> outgrows cfg m0 ph" "\<not> odd_code cfg m0 elf ph" using s(1) ok by simp_all
      note ih = Cons.IH [OF inv1 rest run]
      have "verdict cfg m0 elf a (ph # filter (loads m0) phs) r"
        by (rule verdict_Cons [OF fine s(2) [OF ok] conjunct1 [OF ih]])
      then show ?thesis using True ih s(2) [OF ok] s(3) [OF ok size(2)] by auto
    qed
  qed
qed

lemma check_ehdr_relocs: "check_ehdr m elf elf_size \<noteq> VM_LOAD_ERR_UNRESOLVED_RELOCS"
  by (simp add: check_ehdr_def Let_def)

lemma check_phdrs_relocs: "check_phdrs m elf_size phs \<noteq> VM_LOAD_ERR_UNRESOLVED_RELOCS"
  by (induction phs) (simp_all add: check_phdr_def validate_pt_load_def Let_def)

section \<open>The load\<close>

text \<open>
  The blocks a load asks the arena for: one per copied code or rodata segment, one of the
  configured data size per data segment, and one for the data region when no segment makes it.
\<close>

definition image_needs :: "VmLoaderConfig \<Rightarrow> hmem \<Rightarrow> hptr list \<Rightarrow> nat list" where
  "image_needs cfg m phs = concat (map (needs cfg m) phs) @
     (if \<exists>ph \<in> set phs. data_segment m ph then [] else [unat (region_data_size cfg)])"

definition arguments_ok :: "hptr \<Rightarrow> VmLoaderConfig \<Rightarrow> bool" where
  "arguments_ok elf cfg \<longleftrightarrow> elf \<noteq> 0 \<and> ram_arena cfg \<noteq> 0 \<and> region_data_size cfg \<noteq> 0"

text \<open>The load of an acceptable image, in terms of the supply.\<close>

lemma accepted_load:
  assumes inv: "slab_inv a m" and size: "unat (region_data_size cfg) + 8 < 2 ^ 32"
    and apart: "extent elf (unat elf_size) \<inter> extent (region a) (region_bytes a) = {}"
    and load: "vm_load elf elf_size cfg (vm_init n, a, m, e) = (r, cpu', a', m', e')"
    and phs: "phs = filter (loads m) (elf_phdrs m elf)"
    and good: "arguments_ok elf cfg" "acceptable_image m elf elf_size"
  shows "r = VM_LOAD_OK \<longleftrightarrow> (\<forall>ph \<in> set phs. \<not> outgrows cfg m ph \<and> \<not> odd_code cfg m elf ph) \<and> covers a (image_needs cfg m phs)"
    and "(r = VM_LOAD_ERR_DATA_SIZE_TOO_SMALL \<and> (\<exists>ph \<in> set phs. outgrows cfg m ph)) \<or>
      (r = VM_LOAD_ERR_INVALID_ARG \<and> (\<exists>ph \<in> set phs. odd_code cfg m elf ph)) \<or>
      (r = VM_LOAD_ERR_OUT_OF_RAM \<and> \<not> covers a (image_needs cfg m phs)) \<or> r = VM_LOAD_OK"
    and "r = VM_LOAD_OK \<Longrightarrow> covers a' ns \<longleftrightarrow> covers a (image_needs cfg m phs @ ns)"
proof -
  let ?E = "extent elf (unat elf_size)" and ?st = "(vm_init n, a, m, e)" and ?all = "elf_phdrs m elf"
  note start = load_inv_start [OF inv, of ?E n e]
  have ok: "elf \<noteq> 0" "ram_arena cfg \<noteq> 0" "region_data_size cfg \<noteq> 0" "check_ehdr m elf elf_size = VM_LOAD_OK"
    "check_phdrs m elf_size ?all = VM_LOAD_OK" using good unfolding image_accepts arguments_ok_def by auto
  have hdrs: "\<forall>ph \<in> set ?all. check_phdr m elf_size ph = VM_LOAD_OK \<and> extent ph 32 \<subseteq> ?E"
    using check_phdrs_all [OF ok(5)] check_ehdr_ok(4) [OF ok(4)] by blast
  obtain ar c1 a1 m1 e1 where ap: "apply_phdrs cfg elf ?all ?st = (ar, c1, a1, m1, e1)" by (metis prod_cases5)
  note sup = segments_supply [OF ok(1) size ok(3) apart start hdrs ap, folded phs]
  have v: "verdict cfg m elf a phs ar" by (rule conjunct1 [OF sup])
  have some: "(\<exists>ph \<in> set phs. data_segment m ph) \<longleftrightarrow> \<not> (\<forall>ph \<in> set ?all. loads m ph \<longrightarrow> \<not> data_segment m ph)"
    by (auto simp: phs)
  have codes: "ar \<in> {VM_LOAD_OK, VM_LOAD_ERR_OUT_OF_RAM, VM_LOAD_ERR_DATA_SIZE_TOO_SMALL, VM_LOAD_ERR_INVALID_ARG}"
    using apply_phdrs_result [of cfg elf ?all ?st] ap by simp
  have big: "covers a (image_needs cfg m phs) \<Longrightarrow> covers a (concat (map (needs cfg m) phs))"
    unfolding image_needs_def by (rule covers_prefix)
  have "(r = VM_LOAD_OK \<longleftrightarrow> (\<forall>ph \<in> set phs. \<not> outgrows cfg m ph \<and> \<not> odd_code cfg m elf ph) \<and> covers a (image_needs cfg m phs)) \<and>
    ((r = VM_LOAD_ERR_DATA_SIZE_TOO_SMALL \<and> (\<exists>ph \<in> set phs. outgrows cfg m ph)) \<or>
      (r = VM_LOAD_ERR_INVALID_ARG \<and> (\<exists>ph \<in> set phs. odd_code cfg m elf ph)) \<or>
      (r = VM_LOAD_ERR_OUT_OF_RAM \<and> \<not> covers a (image_needs cfg m phs)) \<or> r = VM_LOAD_OK) \<and>
    (r = VM_LOAD_OK \<longrightarrow> (covers a' ns \<longleftrightarrow> covers a (image_needs cfg m phs @ ns)))"
  proof (cases "ar = VM_LOAD_OK")
    case False
    then have "r = ar" using load ok ap by (simp add: vm_load_def Let_def)
    then show ?thesis using v big False codes unfolding verdict_def by auto
  next
    case ar: True
    have fine: "\<forall>ph \<in> set phs. \<not> outgrows cfg m ph \<and> \<not> odd_code cfg m elf ph" using v ar by (simp add: verdict_def)
    have len: "r_length (regions c1 VM_REGION_DATA) = 0 \<longleftrightarrow> \<not> (\<exists>ph \<in> set phs. data_segment m ph)"
      using sup ar some by (simp add: vm_init_def zero_cpu_def zero_region_def)
    obtain dr c2 a2 m2 e2 where d: "default_data_region cfg (c1, a1, m1, e1) = (dr, c2, a2, m2, e2)" by (metis prod_cases5)
    have inv1: "slab_inv a1 m1"
      using apply_phdrs_inv [OF ok(1) size apart start hdrs ap] by (simp add: load_inv_def)
    obtain dst a3 m3 e3 where al: "slab_alloc a1 m1 e1 (ucast (region_data_size cfg)) = (dst, a3, m3, e3)" by (metis prod_cases4)
    note dst = alloc_covers [OF inv1 al size]
    have more: "covers a1 ns \<longleftrightarrow> covers a (concat (map (needs cfg m) phs) @ ns)" for ns using sup ar by blast
    have dr: "dr \<in> {VM_LOAD_OK, VM_LOAD_ERR_OUT_OF_RAM}" "dr = VM_LOAD_OK \<longleftrightarrow> covers a (image_needs cfg m phs)"
      using d al dst(1) len more [of "[unat (region_data_size cfg)]"] more [of "[]"]
      by (auto simp: default_data_region_def image_needs_def split: if_splits)
    have left: "covers a2 ns \<longleftrightarrow> covers a (image_needs cfg m phs @ ns)" if "dr = VM_LOAD_OK"
      using that d al dst(2) [of ns] len more [of ns] more [of "unat (region_data_size cfg) # ns"]
      by (auto simp: default_data_region_def image_needs_def split: if_splits)
    have "r = dr" "dr = VM_LOAD_OK \<Longrightarrow> a' = a2"
      using load ok ap ar d by (auto simp: vm_load_def Let_def split: if_splits)
    then show ?thesis using dr fine left by auto
  qed
  then show "r = VM_LOAD_OK \<longleftrightarrow> (\<forall>ph \<in> set phs. \<not> outgrows cfg m ph \<and> \<not> odd_code cfg m elf ph) \<and> covers a (image_needs cfg m phs)"
    "(r = VM_LOAD_ERR_DATA_SIZE_TOO_SMALL \<and> (\<exists>ph \<in> set phs. outgrows cfg m ph)) \<or>
      (r = VM_LOAD_ERR_INVALID_ARG \<and> (\<exists>ph \<in> set phs. odd_code cfg m elf ph)) \<or>
      (r = VM_LOAD_ERR_OUT_OF_RAM \<and> \<not> covers a (image_needs cfg m phs)) \<or> r = VM_LOAD_OK"
    "r = VM_LOAD_OK \<Longrightarrow> covers a' ns \<longleftrightarrow> covers a (image_needs cfg m phs @ ns)" by blast+
qed

text \<open>
  C25. \<open>vm_load\<close>, for a CPU fresh from \<open>vm_init\<close>, a sound arena and any image beside it, succeeds if and only if
  the three arguments are given, the image meets the header's list of rules (magic, class,
  machine, type, entry point, header table inside the file, no dynamic section or interpreter,
  every segment inside the file and inside one of the three regions, read-only and without BSS
  outside the data region), no data segment outgrows the configured data size, no code executed
  in place is at an odd address, and the arena has, bin by bin, as many free blocks as the
  segments and the data region ask for. Missing arguments and images that break a rule leave CPU,
  arena and memory untouched; the three later errors are returned only for their own reason,
  and after them the arena is in order, every block that was live is live with its contents, and
  nothing outside the arena has changed (blocks already granted stay with the caller). The rule on
  unresolved relocations, which \<open>vm_loader.h\<close> lists as well, is not enforced: its code is never returned.
\<close>

theorem loader_exact:
  assumes "slab_inv a m" and "unat (region_data_size cfg) + 8 < 2 ^ 32"
    and "extent elf (unat elf_size) \<inter> extent (region a) (region_bytes a) = {}"
    and "vm_load elf elf_size cfg (vm_init n, a, m, e) = (r, cpu', a', m', e')"
    and "phs = filter (loads m) (elf_phdrs m elf)"
  shows "(r = VM_LOAD_OK \<longleftrightarrow> arguments_ok elf cfg \<and> acceptable_image m elf elf_size \<and>
        (\<forall>ph \<in> set phs. \<not> outgrows cfg m ph \<and> \<not> odd_code cfg m elf ph) \<and> covers a (image_needs cfg m phs))
    \<and> (\<not> arguments_ok elf cfg \<longrightarrow> r = VM_LOAD_ERR_INVALID_ARG)
    \<and> (\<not> arguments_ok elf cfg \<or> \<not> acceptable_image m elf elf_size \<longrightarrow> (cpu', a', m', e') = (vm_init n, a, m, e))
    \<and> (arguments_ok elf cfg \<and> acceptable_image m elf elf_size \<longrightarrow>
        (r = VM_LOAD_ERR_DATA_SIZE_TOO_SMALL \<and> (\<exists>ph \<in> set phs. outgrows cfg m ph)) \<or>
        (r = VM_LOAD_ERR_INVALID_ARG \<and> (\<exists>ph \<in> set phs. odd_code cfg m elf ph)) \<or>
        (r = VM_LOAD_ERR_OUT_OF_RAM \<and> \<not> covers a (image_needs cfg m phs)) \<or> r = VM_LOAD_OK)
    \<and> slab_inv a' m' \<and> slab_live a m \<subseteq> slab_live a' m'
    \<and> (\<forall>q \<in> slab_live a m. \<forall>x \<in> extent q (slab_block_size a m q). m' x = m x)
    \<and> (\<forall>x. x \<notin> extent (region a) (region_bytes a) \<longrightarrow> m' x = m x)
    \<and> r \<noteq> VM_LOAD_ERR_UNRESOLVED_RELOCS"
proof -
  let ?E = "extent elf (unat elf_size)" and ?st = "(vm_init n, a, m, e)" and ?all = "elf_phdrs m elf"
  note start = load_inv_start [OF assms(1), of ?E n e]
  have frame: "slab_inv a' m' \<and> slab_live a m \<subseteq> slab_live a' m' \<and>
      (\<forall>q \<in> slab_live a m. \<forall>x \<in> extent q (slab_block_size a m q). m' x = m x) \<and>
      (\<forall>x. x \<notin> extent (region a) (region_bytes a) \<longrightarrow> m' x = m x)"
  proof -
    have "\<exists>cpu. load_inv ?E a m (cpu, a', m', e')" using vm_load_inv [OF assms(1-4)] by blast
    then show ?thesis unfolding load_inv_def prod.case by blast
  qed
  have checks: "acceptable_image m elf elf_size \<longleftrightarrow>
      check_ehdr m elf elf_size = VM_LOAD_OK \<and> check_phdrs m elf_size ?all = VM_LOAD_OK" by (rule image_accepts)
  show ?thesis
  proof (cases "arguments_ok elf cfg \<and> acceptable_image m elf elf_size")
    case False
    have "(\<not> arguments_ok elf cfg \<longrightarrow> r = VM_LOAD_ERR_INVALID_ARG) \<and> (cpu', a', m', e') = ?st \<and> r \<noteq> VM_LOAD_OK \<and>
        r \<noteq> VM_LOAD_ERR_UNRESOLVED_RELOCS"
      using assms(4) False unfolding checks arguments_ok_def
      by (auto simp: vm_load_def Let_def check_ehdr_relocs check_phdrs_relocs split: if_splits)
    then show ?thesis using False frame by blast
  next
    case True
    then have good: "arguments_ok elf cfg" "acceptable_image m elf elf_size" by blast+
    note acc = accepted_load [OF assms good]
    have "r \<noteq> VM_LOAD_ERR_UNRESOLVED_RELOCS" using acc(2) by auto
    then show ?thesis using acc(1,2) True frame by blast
  qed
qed

text \<open>The demonstration image, which asks for one block of 16 bytes for its data region.\<close>

theorem loader_exact_witness:
  "\<exists>(a :: unit SlabAllocator) m. fst (vm_load 200 88 demo_loader_config (vm_init 1, a, m, ())) = VM_LOAD_OK"
proof -
  obtain a :: "unit SlabAllocator" and m0 where a: "slab_inv a (store_bytes m0 200 demo_elf)" "btop a 0 = 2"
    "region a = 8" "region_bytes a = 104"
    by (rule demo_image)
  define m where "m = store_bytes m0 200 demo_elf"
  note f = demo_elf_fields [of m0, folded m_def]
  have cfg: "unat (region_data_size demo_loader_config) + 8 < 2 ^ 32" "arguments_ok 200 demo_loader_config"
    "code_backing demo_loader_config = VM_BACKING_XIP" "region_data_size demo_loader_config = 16"
    by (simp_all add: demo_loader_config_def arguments_ok_def)
  have apart: "extent 200 (unat (88 :: u64)) \<inter> extent (region a) (region_bytes a) = {}" by (auto simp: a)
  obtain r cpu' a' m' e' where load: "vm_load 200 88 demo_loader_config (vm_init 1, a, m, ()) = (r, cpu', a', m', e')"
    by (metis prod_cases5)
  have "check_phdrs m 88 [252] = VM_LOAD_OK"
    using f by (simp add: check_phdr_def validate_pt_load_def vaddr_to_region_def)
  then have image: "acceptable_image m 200 88" using f(1,2) by (simp add: image_accepts)
  have phs: "[252] = filter (loads m) (elf_phdrs m 200)" using f by (simp add: loads_def)
  have code: "\<not> data_segment m 252" "\<not> outgrows demo_loader_config m 252" "\<not> odd_code demo_loader_config m 200 252"
    "needs demo_loader_config m 252 = []"
    using f cfg(3) by (simp_all add: data_segment_def outgrows_def odd_code_def needs_def)
  have "served_by 16 i \<longleftrightarrow> i = 0" for i by (auto simp: served_by_def)
  then have "covers a (image_needs demo_loader_config m [252])"
    using code a(2) by (simp add: image_needs_def covers_def cfg(4))
  then have "r = VM_LOAD_OK"
    using loader_exact [OF a(1) [folded m_def] cfg(1) apart load phs] cfg(2) image code by simp
  then show ?thesis using load by (intro exI [of _ a] exI [of _ m]) simp
qed

end
