(* ===== verification/VM_System.thy ===== *)
theory VM_System
  imports VM_Sched VM_Mailbox VM_Loader Slab_Size
begin

text \<open>
  The composition of the VM's parts, \<open>src/vm/vm_system.c\<close> with \<open>include/vm/vm_system.h\<close>, over the
  cooperative backend \<open>src/vm/vm_sched_ops_coop.c\<close> (the default build): the system's state, the
  ECALL handlers that need it, loading and unloading a VM, and the reaping of halted children.

  The system is the host's part of the scheduler's machine (\<open>mc_ext\<close>). \<open>sys->config\<close> keeps its
  data fields; its callbacks go to the scheduler's configuration when the system starts and are
  not read again. The router is part of that configuration too. An unload hook is kept by its
  address, as in C, and what a call of it does is the parameter \<open>call_hook\<close>. \<open>frame\<close> is the
  host's stack frame: the mailbox calls put their local buffer there, and \<open>handle_recv\<close> its
  \<open>sender\<close> behind it. The \<open>if (!cpu || !sys)\<close> guards are discharged by the types.
\<close>

section \<open>Constants\<close>

abbreviation (input) VM_EPERM :: u32 where "VM_EPERM \<equiv> 1"
abbreviation (input) VM_ENOENT :: u32 where "VM_ENOENT \<equiv> 2"
abbreviation (input) VM_EIO :: u32 where "VM_EIO \<equiv> 5"
abbreviation (input) VM_EAGAIN :: u32 where "VM_EAGAIN \<equiv> 11"
abbreviation (input) VM_ENOMEM :: u32 where "VM_ENOMEM \<equiv> 12"
abbreviation (input) VM_EFAULT :: u32 where "VM_EFAULT \<equiv> 14"

abbreviation (input) VM_REG_A1 :: u32 where "VM_REG_A1 \<equiv> 11"
abbreviation (input) VM_REG_A2 :: u32 where "VM_REG_A2 \<equiv> 12"

abbreviation (input) SYS_TICKS_NOW :: u32 where "SYS_TICKS_NOW \<equiv> 1043"
abbreviation (input) SYS_TICK_HZ :: u32 where "SYS_TICK_HZ \<equiv> 1044"
abbreviation (input) SYS_SLEEP_TICKS :: u32 where "SYS_SLEEP_TICKS \<equiv> 1045"
abbreviation (input) SYS_SLEEP_UNTIL :: u32 where "SYS_SLEEP_UNTIL \<equiv> 1046"
abbreviation (input) SYS_SET_RELOAD_PERIOD :: u32 where "SYS_SET_RELOAD_PERIOD \<equiv> 1047"
abbreviation (input) SYS_YIELD_UNTIL_RELOAD :: u32 where "SYS_YIELD_UNTIL_RELOAD \<equiv> 1048"
abbreviation (input) SYS_ALLOC :: u32 where "SYS_ALLOC \<equiv> 1056"
abbreviation (input) SYS_FREE :: u32 where "SYS_FREE \<equiv> 1057"
abbreviation (input) SYS_SEND :: u32 where "SYS_SEND \<equiv> 1072"
abbreviation (input) SYS_RECV :: u32 where "SYS_RECV \<equiv> 1073"
abbreviation (input) SYS_MAILBOX_INFO :: u32 where "SYS_MAILBOX_INFO \<equiv> 1074"
abbreviation (input) SYS_WHITELIST_ADD :: u32 where "SYS_WHITELIST_ADD \<equiv> 1075"
abbreviation (input) SYS_WHITELIST_REMOVE :: u32 where "SYS_WHITELIST_REMOVE \<equiv> 1076"
abbreviation (input) SYS_SLAB_STATS :: u32 where "SYS_SLAB_STATS \<equiv> 1106"
abbreviation (input) SYS_VM_STATS :: u32 where "SYS_VM_STATS \<equiv> 1107"

abbreviation (input) DEFAULT_BASELINE_QUANTUM :: u32 where "DEFAULT_BASELINE_QUANTUM \<equiv> 5000"
abbreviation (input) DEFAULT_MAX_CRITICAL_OVERRUN :: u32 where "DEFAULT_MAX_CRITICAL_OVERRUN \<equiv> 50000"
abbreviation (input) DEFAULT_MAILBOX_SLOT_SIZE :: u16 where "DEFAULT_MAILBOX_SLOT_SIZE \<equiv> 32"
abbreviation (input) DEFAULT_MAILBOX_DEPTH :: u16 where "DEFAULT_MAILBOX_DEPTH \<equiv> 8"

definition DEFAULT_SLAB_BUCKETS :: SlabConfig where
  "DEFAULT_SLAB_BUCKETS i = (if i < 8 then [16, 16, 8, 8, 4, 2, 1, 1] ! i else 0)"

abbreviation (input) SHARED_GUEST_BASE :: u32 where "SHARED_GUEST_BASE \<equiv> 0xC0000000"
abbreviation (input) VM_PER_VM_ALLOC_CAP :: nat where "VM_PER_VM_ALLOC_CAP \<equiv> 32"

text \<open>\<open>sizeof(VmCpu)\<close> on a 64-bit host.\<close>

abbreviation (input) SIZEOF_VM_CPU :: u64 where "SIZEOF_VM_CPU \<equiv> 304"

definition addr_in_shared :: "u32 \<Rightarrow> bool" where
  "addr_in_shared guest_addr \<longleftrightarrow> guest_addr AND 0xC0000000 = 0xC0000000"

section \<open>State\<close>

record VmSystemConfig =
  yc_shared_storage :: hptr
  yc_shared_storage_size :: u64
  yc_l2_shared_storage :: hptr
  yc_l2_shared_storage_size :: u64
  yc_local_storage :: hptr
  yc_local_storage_size :: u64
  yc_slab_config :: SlabConfig
  yc_baseline_quantum :: u32
  yc_max_critical_overrun :: u32
  yc_ticks_per_second :: u32
  yc_default_mailbox_slot_size :: u16
  yc_default_mailbox_depth :: u16
  yc_max_vms :: u16
  yc_spawn_data_kb :: u32

record VmAllocTracking =
  at_blocks :: "hptr list"
  at_count :: u8

record 'e VmSystem =
  sy_config :: VmSystemConfig
  sy_shared :: "'e SlabAllocator"
  sy_local :: "'e SlabAllocator"
  sy_vms :: "u16 \<Rightarrow> hptr"
  sy_mailboxes :: "u16 \<Rightarrow> 'e VmMailbox"
  sy_tracking :: "u16 \<Rightarrow> VmAllocTracking"
  sy_hooks :: "(hptr \<times> hptr) list"
  sy_env :: 'e

type_synonym 'e sysm = "'e VmSystem machine"
type_synonym 'e sys_handler = "'e VmSystem handler"

definition upd_sys :: "('e VmSystem \<Rightarrow> 'e VmSystem) \<Rightarrow> 'e sysm \<Rightarrow> 'e sysm" where
  "upd_sys f M = M\<lparr>mc_ext := f (mc_ext M)\<rparr>"

lemma upd_sys_simps [simp]:
  "mc_sched (upd_sys f M) = mc_sched M" "mc_mem (upd_sys f M) = mc_mem M"
  "mc_cpus (upd_sys f M) = mc_cpus M" "mc_ext (upd_sys f M) = f (mc_ext M)"
  by (simp_all add: upd_sys_def)

definition zero_tracking :: VmAllocTracking where
  "zero_tracking = \<lparr>at_blocks = replicate VM_PER_VM_ALLOC_CAP 0, at_count = 0\<rparr>"

definition set_tracking :: "u16 \<Rightarrow> VmAllocTracking \<Rightarrow> 'e sysm \<Rightarrow> 'e sysm" where
  "set_tracking i t = upd_sys (\<lambda>s. s\<lparr>sy_tracking := (sy_tracking s)(i := t)\<rparr>)"

definition set_mailbox :: "u16 \<Rightarrow> 'e VmMailbox \<Rightarrow> 'e sysm \<Rightarrow> 'e sysm" where
  "set_mailbox i m = upd_sys (\<lambda>s. s\<lparr>sy_mailboxes := (sy_mailboxes s)(i := m)\<rparr>)"

definition set_vm :: "u16 \<Rightarrow> hptr \<Rightarrow> 'e sysm \<Rightarrow> 'e sysm" where
  "set_vm i p = upd_sys (\<lambda>s. s\<lparr>sy_vms := (sy_vms s)(i := p)\<rparr>)"

text \<open>The allocator calls on the system's two slabs.\<close>

definition shared_alloc :: "u64 \<Rightarrow> 'e sysm \<Rightarrow> hptr \<times> 'e sysm" where
  "shared_alloc n M =
     (let (p, a, m, e) = slab_alloc (sy_shared (mc_ext M)) (mc_mem M) (sy_env (mc_ext M)) n
      in (p, upd_sys (\<lambda>s. s\<lparr>sy_shared := a, sy_env := e\<rparr>) (M\<lparr>mc_mem := m\<rparr>)))"

definition shared_free :: "hptr \<Rightarrow> 'e sysm \<Rightarrow> SlabResult \<times> 'e sysm" where
  "shared_free p M =
     (let (r, a, m, e) = slab_free (sy_shared (mc_ext M)) (mc_mem M) (sy_env (mc_ext M)) p
      in (r, upd_sys (\<lambda>s. s\<lparr>sy_shared := a, sy_env := e\<rparr>) (M\<lparr>mc_mem := m\<rparr>)))"

definition local_alloc :: "u64 \<Rightarrow> 'e sysm \<Rightarrow> hptr \<times> 'e sysm" where
  "local_alloc n M =
     (let (p, a, m, e) = slab_alloc (sy_local (mc_ext M)) (mc_mem M) (sy_env (mc_ext M)) n
      in (p, upd_sys (\<lambda>s. s\<lparr>sy_local := a, sy_env := e\<rparr>) (M\<lparr>mc_mem := m\<rparr>)))"

definition local_free :: "hptr \<Rightarrow> 'e sysm \<Rightarrow> SlabResult \<times> 'e sysm" where
  "local_free p M =
     (let (r, a, m, e) = slab_free (sy_local (mc_ext M)) (mc_mem M) (sy_env (mc_ext M)) p
      in (r, upd_sys (\<lambda>s. s\<lparr>sy_local := a, sy_env := e\<rparr>) (M\<lparr>mc_mem := m\<rparr>)))"

section \<open>The scheduler seam\<close>

record 'm VmSchedOps =
  op_now :: "'m \<Rightarrow> u32"
  op_ticks_hz :: "'m \<Rightarrow> u32"
  op_register_vm :: "'m \<Rightarrow> hptr \<Rightarrow> int \<times> 'm"
  op_unregister_vm :: "'m \<Rightarrow> u16 \<Rightarrow> 'm"
  op_run :: "'m \<Rightarrow> u64 \<Rightarrow> (bool \<times> 'm) option"
  op_step :: "'m \<Rightarrow> (VmSchedStepResult \<times> 'm) option"
  op_wake_mailbox :: "'m \<Rightarrow> u16 \<Rightarrow> u32 \<Rightarrow> bool \<times> 'm"
  op_wake_child :: "'m \<Rightarrow> u16 \<Rightarrow> u32 \<Rightarrow> bool \<times> 'm"

definition coop_now :: "'x machine \<Rightarrow> u32" where "coop_now M = global_tick (mc_sched M)"

definition coop_ticks_hz :: "'x VmSchedConfig \<Rightarrow> 'x machine \<Rightarrow> u32" where
  "coop_ticks_hz cfg M = ticks_per_second cfg"

definition coop_register_vm :: "'x machine \<Rightarrow> hptr \<Rightarrow> int \<times> 'x machine" where
  "coop_register_vm M cpu = vm_sched_register M cpu"

definition coop_unregister_vm :: "'x machine \<Rightarrow> u16 \<Rightarrow> 'x machine" where
  "coop_unregister_vm M i = vm_sched_unregister M i"

definition coop_run :: "'x VmSchedConfig \<Rightarrow> 'x machine \<Rightarrow> u64 \<Rightarrow> (bool \<times> 'x machine) option" where
  "coop_run cfg M max_cycles = vm_sched_run cfg max_cycles M"

definition coop_step :: "'x VmSchedConfig \<Rightarrow> 'x machine \<Rightarrow> (VmSchedStepResult \<times> 'x machine) option" where
  "coop_step cfg M = vm_sched_step cfg M"

definition coop_wake_mailbox :: "'x machine \<Rightarrow> u16 \<Rightarrow> u32 \<Rightarrow> bool \<times> 'x machine" where
  "coop_wake_mailbox M i a0_value = vm_sched_wake_mailbox M i a0_value"

definition coop_wake_child :: "'x machine \<Rightarrow> u16 \<Rightarrow> u32 \<Rightarrow> bool \<times> 'x machine" where
  "coop_wake_child M i a0_value = vm_sched_wake_child M i a0_value"

definition coop_ops :: "'x VmSchedConfig \<Rightarrow> 'x machine VmSchedOps" where
  "coop_ops cfg = \<lparr>op_now = coop_now, op_ticks_hz = coop_ticks_hz cfg,
     op_register_vm = coop_register_vm, op_unregister_vm = coop_unregister_vm,
     op_run = coop_run cfg, op_step = coop_step cfg,
     op_wake_mailbox = coop_wake_mailbox, op_wake_child = coop_wake_child\<rparr>"

lemma coop_ops_simps [simp]:
  "op_now (coop_ops cfg) M = global_tick (mc_sched M)" "op_ticks_hz (coop_ops cfg) M = ticks_per_second cfg"
  "op_register_vm (coop_ops cfg) M p = vm_sched_register M p"
  "op_unregister_vm (coop_ops cfg) M i = vm_sched_unregister M i"
  "op_run (coop_ops cfg) M n = vm_sched_run cfg n M" "op_step (coop_ops cfg) M = vm_sched_step cfg M"
  "op_wake_mailbox (coop_ops cfg) M i v = vm_sched_wake_mailbox M i v"
  "op_wake_child (coop_ops cfg) M i v = vm_sched_wake_child M i v"
  by (simp_all add: coop_ops_def coop_now_def coop_ticks_hz_def coop_register_vm_def coop_unregister_vm_def
      coop_run_def coop_step_def coop_wake_mailbox_def coop_wake_child_def)

section \<open>Handlers: memory\<close>

definition get_arg :: "hptr \<Rightarrow> u32 \<Rightarrow> 'x machine \<Rightarrow> u32" where
  "get_arg cpu r M = regs (mc_cpus M cpu) r"

definition ret_a0 :: "hptr \<Rightarrow> u32 \<Rightarrow> 'x machine \<Rightarrow> 'x machine" where
  "ret_a0 cpu v = upd_cpu cpu (set_a0 v)"

definition track_alloc :: "'e sysm \<Rightarrow> u16 \<Rightarrow> hptr \<Rightarrow> bool \<times> 'e sysm" where
  "track_alloc M vm host_p =
     (if vm \<ge> VM_SCHED_MAX_VMS then (False, M)
      else let t = sy_tracking (mc_ext M) vm in
      if unat (at_count t) \<ge> VM_PER_VM_ALLOC_CAP then (False, M)
      else
        case find (\<lambda>i. at_blocks t ! i = 0) [0..<VM_PER_VM_ALLOC_CAP] of
          None \<Rightarrow> (False, M)
        | Some i \<Rightarrow> (True, set_tracking vm
            (t\<lparr>at_blocks := (at_blocks t)[i := host_p], at_count := at_count t + 1\<rparr>) M))"

definition untrack_alloc :: "'e sysm \<Rightarrow> u16 \<Rightarrow> hptr \<Rightarrow> bool \<times> 'e sysm" where
  "untrack_alloc M vm host_p =
     (if vm \<ge> VM_SCHED_MAX_VMS then (False, M)
      else let t = sy_tracking (mc_ext M) vm in
        case find (\<lambda>i. at_blocks t ! i = host_p) [0..<VM_PER_VM_ALLOC_CAP] of
          None \<Rightarrow> (False, M)
        | Some i \<Rightarrow> (True, set_tracking vm
            (t\<lparr>at_blocks := (at_blocks t)[i := 0], at_count := at_count t - 1\<rparr>) M))"

definition handle_alloc :: "'e sys_handler" where
  "handle_alloc cpu M =
     (let size = get_arg cpu VM_REG_A0 M; vm = vm_id (mc_cpus M cpu) in
      if size = 0 then ret_a0 cpu (- VM_EINVAL) M
      else if unat (at_count (sy_tracking (mc_ext M) vm)) \<ge> VM_PER_VM_ALLOC_CAP
      then ret_a0 cpu (- VM_ENOMEM) M
      else let (host_p, M) = shared_alloc (ucast size) M in
      if host_p = 0 then ret_a0 cpu (- VM_ENOMEM) M
      else let (tracked, M) = track_alloc M vm host_p in
      if \<not> tracked then ret_a0 cpu (- VM_ENOMEM) (snd (shared_free host_p M))
      else let base = yc_shared_storage (sy_config (mc_ext M)) in
      if host_p < base \<or> host_p - base \<ge> unat (yc_shared_storage_size (sy_config (mc_ext M))) then
        let M = snd (untrack_alloc M vm host_p); M = snd (shared_free host_p M)
        in ret_a0 cpu (- VM_ENOMEM) M
      else ret_a0 cpu (SHARED_GUEST_BASE + of_nat (host_p - base)) M)"

definition handle_free :: "'e sys_handler" where
  "handle_free cpu M =
     (let guest_addr = get_arg cpu VM_REG_A0 M in
      if \<not> addr_in_shared guest_addr then ret_a0 cpu (- VM_EINVAL) M
      else let offset = guest_addr - SHARED_GUEST_BASE in
      if ucast offset \<ge> yc_shared_storage_size (sy_config (mc_ext M)) then ret_a0 cpu (- VM_EINVAL) M
      else
        let host_p = yc_shared_storage (sy_config (mc_ext M)) + unat offset;
            (tracked, M) = untrack_alloc M (vm_id (mc_cpus M cpu)) host_p in
        if \<not> tracked then ret_a0 cpu (- VM_EINVAL) M
        else let (r, M) = shared_free host_p M in
        if r \<noteq> SLAB_OK then ret_a0 cpu (- VM_EINVAL) M
        else ret_a0 cpu 0 M)"

section \<open>Handlers: mailboxes\<close>

text \<open>A mailbox pointer, as the slot it points to; \<open>None\<close> is NULL.\<close>

definition vm_system_get_mailbox :: "'e sysm \<Rightarrow> u16 \<Rightarrow> 'e VmMailbox option" where
  "vm_system_get_mailbox M vm =
     (if vm \<ge> VM_SCHED_MAX_VMS then None
      else if sy_vms (mc_ext M) vm = 0 then None
      else Some (sy_mailboxes (mc_ext M) vm))"

text \<open>
  The fast path of a send: with the target blocked in a receive, translate its saved
  destination in its own regions. Returns the host address, \<open>0\<close> to queue instead.
\<close>

definition rendezvous_dest :: "hptr \<Rightarrow> u32 \<Rightarrow> 'e sysm \<Rightarrow> hptr \<times> 'e sysm" where
  "rendezvous_dest target_cpu payload_size M =
     (if block_reason (mc_cpus M target_cpu) = BLOCK_MAILBOX_RECV then
        let tc = mc_cpus M target_cpu;
            (tc, target_host) = vm_translate_write tc (cpu_internal tc 0) payload_size
        in (target_host, upd_cpu target_cpu (\<lambda>_. tc) M)
      else (0, M))"

definition send_result_a0 :: "VmMailboxResult \<Rightarrow> u32" where
  "send_result_a0 r =
     (case r of
        VM_MBOX_OK \<Rightarrow> 0
      | VM_MBOX_ERR_NOT_WHITELISTED \<Rightarrow> - VM_EPERM
      | VM_MBOX_ERR_BAD_VM_ID \<Rightarrow> - VM_EPERM
      | VM_MBOX_ERR_FULL \<Rightarrow> - VM_EAGAIN
      | _ \<Rightarrow> - VM_EINVAL)"

definition handle_send :: "'e sysm VmSchedOps \<Rightarrow> hptr \<Rightarrow> 'e sys_handler" where
  "handle_send ops frame cpu M =
     (let target_id = get_arg cpu VM_REG_A0 M;
          guest_payload = get_arg cpu VM_REG_A1 M;
          payload_size = get_arg cpu VM_REG_A2 M in
      if target_id \<ge> ucast VM_SCHED_MAX_VMS then ret_a0 cpu (- VM_ENOENT) M
      else let t = ucast target_id; target_cpu = sy_vms (mc_ext M) t in
      case vm_system_get_mailbox M t of None \<Rightarrow> ret_a0 cpu (- VM_ENOENT) M
      | Some mbox \<Rightarrow>
        if target_cpu = 0 then ret_a0 cpu (- VM_ENOENT) M
        else if payload_size \<noteq> ucast (slot_size mbox) then ret_a0 cpu (- VM_EINVAL) M
        else let (c, host_payload) = vm_translate_read (mc_cpus M cpu) guest_payload payload_size;
                 M = upd_cpu cpu (\<lambda>_. c) M in
        if host_payload = 0
        then ret_a0 cpu (- VM_EFAULT) (upd_cpu cpu (\<lambda>c. c\<lparr>trap_cause := TRAP_NONE\<rparr>) M)
        else if \<not> vm_mailbox_whitelist_check mbox (vm_id (mc_cpus M cpu)) then ret_a0 cpu (- VM_EPERM) M
        else let (target_host, M) = rendezvous_dest target_cpu payload_size M in
        if target_host \<noteq> 0 then
          let M = M\<lparr>mc_mem := memcpy (mc_mem M) target_host host_payload (unat payload_size)\<rparr>;
              M = upd_cpu target_cpu (\<lambda>c. c\<lparr>trap_cause := TRAP_NONE\<rparr>) M;
              M = snd (op_wake_mailbox ops M t (ucast (vm_id (mc_cpus M cpu))));
              M = upd_cpu target_cpu (\<lambda>c. c\<lparr>cpu_internal := (cpu_internal c)(0 := 0)\<rparr>) M;
              M = ret_a0 cpu 0 M;
              mbox = sy_mailboxes (mc_ext M) t
          in set_mailbox t (mbox\<lparr>sends_accepted := sends_accepted mbox + 1\<rparr>) M
        else
          let (r, mbox, mem, e) = vm_mailbox_send mbox (vm_id (mc_cpus M cpu)) host_payload
                                    (ucast payload_size) frame (mc_mem M) (sy_env (mc_ext M));
              M = set_mailbox t mbox (upd_sys (\<lambda>s. s\<lparr>sy_env := e\<rparr>) (M\<lparr>mc_mem := mem\<rparr>))
          in ret_a0 cpu (send_result_a0 r) M)"

definition handle_recv :: "'e sysm VmSchedOps \<Rightarrow> hptr \<Rightarrow> 'e sys_handler" where
  "handle_recv ops frame cpu M =
     (let guest_dest = get_arg cpu VM_REG_A0 M;
          timeout = get_arg cpu VM_REG_A1 M;
          vm = vm_id (mc_cpus M cpu);
          sender_at = frame + 4098 in
      case vm_system_get_mailbox M vm of None \<Rightarrow> ret_a0 cpu (- VM_EINVAL) M
      | Some mbox \<Rightarrow>
        let (c, host_dest) = vm_translate_write (mc_cpus M cpu) guest_dest (ucast (slot_size mbox));
            M = upd_cpu cpu (\<lambda>_. c) M in
        if host_dest = 0
        then ret_a0 cpu (- VM_EFAULT) (upd_cpu cpu (\<lambda>c. c\<lparr>trap_cause := TRAP_NONE\<rparr>) M)
        else
          let (r, mbox, mem, e) = vm_mailbox_recv mbox host_dest sender_at frame
                                    (st16 (mc_mem M) sender_at 0) (sy_env (mc_ext M));
              M = set_mailbox vm mbox (upd_sys (\<lambda>s. s\<lparr>sy_env := e\<rparr>) (M\<lparr>mc_mem := mem\<rparr>)) in
          if r = VM_MBOX_OK then ret_a0 cpu (ucast (ld16 mem sender_at)) M
          else if r \<noteq> VM_MBOX_ERR_EMPTY then ret_a0 cpu (- VM_EINVAL) M
          else if timeout = 0 then ret_a0 cpu (- VM_EAGAIN) M
          else if in_critical (mc_cpus M cpu) then ret_a0 cpu (- VM_EBUSY) M
          else
            upd_cpu cpu (\<lambda>c. c\<lparr>cpu_internal := (cpu_internal c)(0 := guest_dest),
                block_reason := BLOCK_MAILBOX_RECV,
                block_deadline := (if timeout = UINT32_MAX then 0 else op_now ops M + timeout)\<rparr>) M)"

definition handle_mailbox_info :: "'e sys_handler" where
  "handle_mailbox_info cpu M =
     (let target_id = get_arg cpu VM_REG_A0 M in
      if target_id \<ge> ucast VM_SCHED_MAX_VMS then ret_a0 cpu (- VM_ENOENT) M
      else
        case vm_system_get_mailbox M (ucast target_id) of None \<Rightarrow> ret_a0 cpu (- VM_ENOENT) M
        | Some mbox \<Rightarrow>
          if \<not> vm_mailbox_whitelist_check mbox (vm_id (mc_cpus M cpu)) then ret_a0 cpu (- VM_EPERM) M
          else upd_cpu cpu (\<lambda>c. c\<lparr>regs := (regs c)(VM_REG_A0 := ucast (slot_size mbox),
                 VM_REG_A1 := of_nat (vm_mailbox_free_slots mbox))\<rparr>) M)"

text \<open>The two whitelist handlers; the sender's id is cut to 16 bits.\<close>

definition handle_whitelist_add :: "'e sys_handler" where
  "handle_whitelist_add cpu M =
     (let sender_id = get_arg cpu VM_REG_A0 M; vm = vm_id (mc_cpus M cpu) in
      case vm_system_get_mailbox M vm of None \<Rightarrow> ret_a0 cpu (- VM_EINVAL) M
      | Some mbox \<Rightarrow>
        let (r, mbox, e) = vm_mailbox_whitelist_set mbox (ucast sender_id) (sy_env (mc_ext M));
            M = set_mailbox vm mbox (upd_sys (\<lambda>s. s\<lparr>sy_env := e\<rparr>) M)
        in ret_a0 cpu (if r = VM_MBOX_OK then 0 else - VM_ENOENT) M)"

definition handle_whitelist_remove :: "'e sys_handler" where
  "handle_whitelist_remove cpu M =
     (let sender_id = get_arg cpu VM_REG_A0 M; vm = vm_id (mc_cpus M cpu) in
      case vm_system_get_mailbox M vm of None \<Rightarrow> ret_a0 cpu (- VM_EINVAL) M
      | Some mbox \<Rightarrow>
        let (r, mbox, e) = vm_mailbox_whitelist_clear mbox (ucast sender_id) (sy_env (mc_ext M));
            M = set_mailbox vm mbox (upd_sys (\<lambda>s. s\<lparr>sy_env := e\<rparr>) M)
        in ret_a0 cpu (if r = VM_MBOX_OK then 0 else - VM_ENOENT) M)"

section \<open>Handlers: time\<close>

definition handle_ticks_now :: "'e sysm VmSchedOps \<Rightarrow> 'e sys_handler" where
  "handle_ticks_now ops cpu M = ret_a0 cpu (op_now ops M) M"

definition handle_tick_hz :: "'e sysm VmSchedOps \<Rightarrow> 'e sys_handler" where
  "handle_tick_hz ops cpu M = ret_a0 cpu (op_ticks_hz ops M) M"

definition handle_sleep_ticks :: "'e sysm VmSchedOps \<Rightarrow> 'e sys_handler" where
  "handle_sleep_ticks ops cpu M =
     (let n = get_arg cpu VM_REG_A0 M in
      if n = 0 then upd_cpu cpu (\<lambda>c. (set_a0 0 c)\<lparr>block_reason := BLOCK_YIELDED\<rparr>) M
      else upd_cpu cpu (\<lambda>c. c\<lparr>block_reason := BLOCK_SLEEP, block_deadline := op_now ops M + n\<rparr>) M)"

definition handle_sleep_until :: "'e sysm VmSchedOps \<Rightarrow> 'e sys_handler" where
  "handle_sleep_until ops cpu M =
     (let deadline = get_arg cpu VM_REG_A0 M; now = op_now ops M in
      if 0 \<le> sint (now - deadline)
      then upd_cpu cpu (\<lambda>c. (set_a0 0 c)\<lparr>block_reason := BLOCK_YIELDED\<rparr>) M
      else upd_cpu cpu (\<lambda>c. c\<lparr>block_reason := BLOCK_SLEEP, block_deadline := deadline\<rparr>) M)"

definition handle_set_reload_period :: "'e sysm VmSchedOps \<Rightarrow> 'e sys_handler" where
  "handle_set_reload_period ops cpu M =
     (let p = get_arg cpu VM_REG_A0 M
      in ret_a0 cpu 0 (upd_cpu cpu (\<lambda>c. c\<lparr>reload_period := p,
           reload_next_deadline := (if p = 0 then 0 else op_now ops M + p)\<rparr>) M))"

text \<open>The catch-up loop, with \<open>safety\<close> counting down from 1024.\<close>

fun advance_reload :: "u32 \<Rightarrow> u32 \<Rightarrow> nat \<Rightarrow> u32 \<Rightarrow> u32" where
  "advance_reload now period 0 nxt = nxt"
| "advance_reload now period (Suc safety) nxt =
     (if 0 \<le> sint (now - nxt) then advance_reload now period safety (nxt + period) else nxt)"

definition handle_yield_until_reload :: "'e sysm VmSchedOps \<Rightarrow> 'e sys_handler" where
  "handle_yield_until_reload ops cpu M =
     (let c = mc_cpus M cpu in
      if reload_period c = 0 then upd_cpu cpu (\<lambda>c. (set_a0 0 c)\<lparr>block_reason := BLOCK_YIELDED\<rparr>) M
      else
        let now = op_now ops M; deadline = reload_next_deadline c; period = reload_period c;
            nxt = advance_reload now period 1024 deadline
        in upd_cpu cpu (\<lambda>c. c\<lparr>reload_next_deadline := nxt + period, block_reason := BLOCK_SLEEP,
             block_deadline := nxt\<rparr>) M)"

end
