(* ===== verification/VM_System_Life.thy ===== *)
theory VM_System_Life
  imports VM_System
begin

text \<open>
  The second half of \<open>src/vm/vm_system.c\<close>: the introspection handlers, the installation of all
  the system's handlers, start and end of the system, loading, unloading and reaping.
\<close>

section \<open>Handlers: introspection\<close>

text \<open>\<open>VmSlabStatsRecord\<close> and \<open>VmVmStatsRecord\<close>, with their bytes on the wire.\<close>

record slab_stats_half =
  ss_total :: u32
  ss_in_use :: u32
  ss_peak :: u32
  ss_alloc_count :: u32
  ss_free_count :: u32
  ss_failed_count :: u32
  ss_bins :: "u32 list"

record VmSlabStatsRecord =
  ssr_version :: u16
  ssr_bin_count :: u16
  ssr_local :: slab_stats_half
  ssr_shared :: slab_stats_half

definition slab_stats_bytes :: "VmSlabStatsRecord \<Rightarrow> u8 list" where
  "slab_stats_bytes r =
     le_bytes 2 (ssr_version r) @ le_bytes 2 (ssr_bin_count r) @
     concat (map (\<lambda>h. concat (map (le_bytes 4)
       [ss_total h, ss_in_use h, ss_peak h, ss_alloc_count h, ss_free_count h, ss_failed_count h]))
       [ssr_local r, ssr_shared r]) @
     concat (map (le_bytes 4) (ss_bins (ssr_local r))) @
     concat (map (le_bytes 4) (ss_bins (ssr_shared r)))"

record VmVmStatsRecord =
  vsr_version :: u16
  vsr_vm_id :: u16
  vsr_state :: u8
  vsr_in_critical :: u8
  vsr_alloc_count :: u8
  vsr_text_bytes :: u32
  vsr_rodata_bytes :: u32
  vsr_data_bytes :: u32
  vsr_mailbox_bytes :: u32
  vsr_retired_lo :: u32
  vsr_retired_hi :: u32
  vsr_trap_count :: u32
  vsr_ecall_count :: u32

definition vm_stats_bytes :: "VmVmStatsRecord \<Rightarrow> u8 list" where
  "vm_stats_bytes r =
     le_bytes 2 (vsr_version r) @ le_bytes 2 (vsr_vm_id r) @
     [vsr_state r, vsr_in_critical r, vsr_alloc_count r, 0] @
     concat (map (le_bytes 4)
       [vsr_text_bytes r, vsr_rodata_bytes r, vsr_data_bytes r, vsr_mailbox_bytes r,
        vsr_retired_lo r, vsr_retired_hi r, vsr_trap_count r, vsr_ecall_count r])"

abbreviation (input) SIZEOF_SLAB_STATS :: u32 where "SIZEOF_SLAB_STATS \<equiv> 180"
abbreviation (input) SIZEOF_VM_STATS :: u32 where "SIZEOF_VM_STATS \<equiv> 40"

definition pack_bin_info :: "SlabBinInfo \<Rightarrow> u32" where
  "pack_bin_info b =
     (let bc = ucast (bucket_count b); iu = ucast (blocks_in_use b)
      in (bc AND 0xFFFF) OR push_bit 16 (iu AND 0xFFFF))"

definition slab_half :: "'e SlabAllocator \<Rightarrow> slab_stats_half" where
  "slab_half a = \<lparr>ss_total = of_nat (total_bytes_managed a), ss_in_use = of_nat (total_bytes_in_use a),
     ss_peak = of_nat (peak_bytes_in_use a), ss_alloc_count = alloc_count a,
     ss_free_count = free_count a, ss_failed_count = failed_alloc_count a,
     ss_bins = map (\<lambda>i. pack_bin_info (bins a i)) [0..<SLAB_BIN_COUNT]\<rparr>"

definition handle_slab_stats :: "'e sys_handler" where
  "handle_slab_stats cpu M =
     (let guest_ptr = get_arg cpu VM_REG_A0 M; buf_size = get_arg cpu VM_REG_A1 M in
      if buf_size < SIZEOF_SLAB_STATS then ret_a0 cpu (- VM_EINVAL) M
      else let (c, host_buf) = vm_translate_write (mc_cpus M cpu) guest_ptr SIZEOF_SLAB_STATS;
               M = upd_cpu cpu (\<lambda>_. c) M in
      if host_buf = 0
      then ret_a0 cpu (- VM_EFAULT) (upd_cpu cpu (\<lambda>c. c\<lparr>trap_cause := TRAP_NONE\<rparr>) M)
      else
        let rec = \<lparr>ssr_version = 1, ssr_bin_count = 16,
                ssr_local = slab_half (sy_local (mc_ext M)), ssr_shared = slab_half (sy_shared (mc_ext M))\<rparr>
        in ret_a0 cpu SIZEOF_SLAB_STATS
             (M\<lparr>mc_mem := store_bytes (mc_mem M) host_buf (slab_stats_bytes rec)\<rparr>))"

definition vm_stats_of :: "'e sysm \<Rightarrow> u16 \<Rightarrow> VmVmStatsRecord" where
  "vm_stats_of M i =
     (let target = mc_cpus M (sy_vms (mc_ext M) i); rb = ff_rb (mb_fifo (sy_mailboxes (mc_ext M) i)) in
      \<lparr>vsr_version = 1, vsr_vm_id = i,
       vsr_state = (if halted target then 0 else if block_reason target \<noteq> BLOCK_NONE then 2 else 1),
       vsr_in_critical = (if in_critical target then 1 else 0),
       vsr_alloc_count = at_count (sy_tracking (mc_ext M) i),
       vsr_text_bytes = r_length (regions target VM_REGION_CODE),
       vsr_rodata_bytes = r_length (regions target VM_REGION_RODATA),
       vsr_data_bytes = r_length (regions target VM_REGION_DATA),
       vsr_mailbox_bytes = of_nat (rg_capacity rb * rg_esize rb),
       vsr_retired_lo = ucast (instructions_retired target),
       vsr_retired_hi = ucast (drop_bit 32 (instructions_retired target)),
       vsr_trap_count = trap_count target, vsr_ecall_count = ecall_count target\<rparr>)"

definition handle_vm_stats :: "'e sys_handler" where
  "handle_vm_stats cpu M =
     (let arg_vm_id = get_arg cpu VM_REG_A0 M; guest_ptr = get_arg cpu VM_REG_A1 M;
          buf_size = get_arg cpu VM_REG_A2 M in
      if buf_size < SIZEOF_VM_STATS then ret_a0 cpu (- VM_EINVAL) M
      else if arg_vm_id \<noteq> 0xFFFF \<and> arg_vm_id \<ge> ucast VM_SCHED_MAX_VMS then ret_a0 cpu (- VM_EINVAL) M
      else let target_id = (if arg_vm_id = 0xFFFF then vm_id (mc_cpus M cpu) else ucast arg_vm_id) in
      if sy_vms (mc_ext M) target_id = 0 then ret_a0 cpu (- VM_ENOENT) M
      else let (c, host_buf) = vm_translate_write (mc_cpus M cpu) guest_ptr SIZEOF_VM_STATS;
               M = upd_cpu cpu (\<lambda>_. c) M in
      if host_buf = 0
      then ret_a0 cpu (- VM_EFAULT) (upd_cpu cpu (\<lambda>c. c\<lparr>trap_cause := TRAP_NONE\<rparr>) M)
      else ret_a0 cpu SIZEOF_VM_STATS
             (M\<lparr>mc_mem := store_bytes (mc_mem M) host_buf (vm_stats_bytes (vm_stats_of M target_id))\<rparr>))"

section \<open>Installing the handlers\<close>

definition system_handlers :: "'e sysm VmSchedOps \<Rightarrow> hptr \<Rightarrow> (u32 \<times> 'e sys_handler) list" where
  "system_handlers ops frame =
     [(SYS_ALLOC, handle_alloc), (SYS_FREE, handle_free),
      (SYS_SEND, handle_send ops frame), (SYS_RECV, handle_recv ops frame),
      (SYS_MAILBOX_INFO, handle_mailbox_info),
      (SYS_WHITELIST_ADD, handle_whitelist_add), (SYS_WHITELIST_REMOVE, handle_whitelist_remove),
      (SYS_TICKS_NOW, handle_ticks_now ops), (SYS_TICK_HZ, handle_tick_hz ops),
      (SYS_SLEEP_TICKS, handle_sleep_ticks ops), (SYS_SLEEP_UNTIL, handle_sleep_until ops),
      (SYS_SET_RELOAD_PERIOD, handle_set_reload_period ops),
      (SYS_YIELD_UNTIL_RELOAD, handle_yield_until_reload ops),
      (SYS_SLAB_STATS, handle_slab_stats), (SYS_VM_STATS, handle_vm_stats)]"

definition install_system_handlers ::
  "'e sysm VmSchedOps \<Rightarrow> hptr \<Rightarrow> 'e sys_handler VmEcallRouter \<Rightarrow> bool \<times> 'e sys_handler VmEcallRouter" where
  "install_system_handlers ops frame =
     install_loop vm_ecall_register vm_ecall_unregister [] (system_handlers ops frame)"

section \<open>Start and end\<close>

definition fill_defaults :: "VmSystemConfig \<Rightarrow> VmSystemConfig" where
  "fill_defaults c =
     (let c = (if yc_baseline_quantum c = 0 then c\<lparr>yc_baseline_quantum := DEFAULT_BASELINE_QUANTUM\<rparr> else c);
          c = (if yc_max_critical_overrun c = 0
               then c\<lparr>yc_max_critical_overrun := DEFAULT_MAX_CRITICAL_OVERRUN\<rparr> else c);
          c = (if yc_default_mailbox_slot_size c = 0
               then c\<lparr>yc_default_mailbox_slot_size := DEFAULT_MAILBOX_SLOT_SIZE\<rparr> else c);
          c = (if yc_default_mailbox_depth c = 0
               then c\<lparr>yc_default_mailbox_depth := DEFAULT_MAILBOX_DEPTH\<rparr> else c);
          any_bucket = list_ex (\<lambda>i. yc_slab_config c i \<noteq> 0) [0..<SLAB_BIN_COUNT];
          c = (if \<not> any_bucket
               then c\<lparr>yc_slab_config := (\<lambda>i. if i < SLAB_BIN_COUNT then DEFAULT_SLAB_BUCKETS i
                                                else yc_slab_config c i)\<rparr> else c);
          c = (if yc_max_vms c = 0 then c\<lparr>yc_max_vms := 8\<rparr> else c)
      in (if yc_spawn_data_kb c = 0 then c\<lparr>yc_spawn_data_kb := 16\<rparr> else c))"

text \<open>The local slab's bins: the code \<open>vm_system_init\<close> and \<open>vm_system_local_required\<close> both have.\<close>

definition per_bin_slots :: "u16 \<Rightarrow> u16" where
  "per_bin_slots max_vms = max_vms + (if max_vms < 32 then 1 else max_vms div 16)"

definition local_bins :: "u16 \<Rightarrow> u32 \<Rightarrow> SlabConfig" where
  "local_bins max_vms spawn_data_kb =
     (let add = (\<lambda>i (c :: SlabConfig). c(i := c i + per_bin_slots max_vms));
          bin_cpu = slab_bin_for_size SIZEOF_VM_CPU;
          bin_mbox = slab_bin_for_size 2048;
          bin_data = slab_bin_for_size (ucast spawn_data_kb * 1024);
          cfg = add bin_data (add bin_mbox (add bin_cpu (\<lambda>_. 0)));
          bin_segment_hi = (if bin_data > 0 then bin_data - 1 else 0)
      in fold add [0..<Suc bin_segment_hi] cfg)"

definition vm_system_local_required :: "u16 \<Rightarrow> u32 \<Rightarrow> nat" where
  "vm_system_local_required max_vms spawn_data_kb =
     (let max_vms = (if max_vms = 0 then 8 else max_vms);
          spawn_data_kb = (if spawn_data_kb = 0 then 16 else spawn_data_kb)
      in slab_required_bytes (local_bins max_vms spawn_data_kb))"

text \<open>The callbacks of the configuration, which only the scheduler keeps.\<close>

record 'e VmSystemCallbacks =
  ycb_trap_handler :: "(hptr \<Rightarrow> 'e sysm \<Rightarrow> VmTrapAction \<times> 'e sysm) option"
  ycb_idle_handler :: "(u32 \<Rightarrow> 'e sysm \<Rightarrow> 'e sysm) option"
  ycb_tick_source :: "('e VmSystem \<Rightarrow> u32 \<times> 'e VmSystem) option"

definition zero_system :: "'e \<Rightarrow> 'e VmSystem" where
  "zero_system e = \<lparr>sy_config = \<lparr>yc_shared_storage = 0, yc_shared_storage_size = 0,
       yc_l2_shared_storage = 0, yc_l2_shared_storage_size = 0, yc_local_storage = 0,
       yc_local_storage_size = 0, yc_slab_config = (\<lambda>_. 0), yc_baseline_quantum = 0,
       yc_max_critical_overrun = 0, yc_ticks_per_second = 0, yc_default_mailbox_slot_size = 0,
       yc_default_mailbox_depth = 0, yc_max_vms = 0, yc_spawn_data_kb = 0\<rparr>,
     sy_shared = zero_slab slab_null_locker, sy_local = zero_slab slab_null_locker,
     sy_vms = (\<lambda>_. 0), sy_mailboxes = (\<lambda>_. zero_mailbox), sy_tracking = (\<lambda>_. zero_tracking),
     sy_hooks = [], sy_env = e\<rparr>"

definition sched_config_of ::
  "'e VmSystemCallbacks \<Rightarrow> VmSystemConfig \<Rightarrow> 'e sys_handler VmEcallRouter \<Rightarrow> 'e VmSystem VmSchedConfig" where
  "sched_config_of cb c r =
     \<lparr>baseline_quantum = yc_baseline_quantum c, max_critical_overrun = yc_max_critical_overrun c,
      trap_handler = ycb_trap_handler cb, idle_handler = ycb_idle_handler cb, ecall_router = Some r,
      tick_source = ycb_tick_source cb, ticks_per_second = yc_ticks_per_second c\<rparr>"

text \<open>
  \<open>None\<close> is \<open>false\<close>; the configuration of the scheduler otherwise, with the router in it. The ops
  the handlers use are those of this configuration.
\<close>

definition vm_system_init ::
  "'e VmSystemCallbacks \<Rightarrow> VmSystemConfig \<Rightarrow> hptr \<Rightarrow> 'e sysm \<Rightarrow> 'e VmSystem VmSchedConfig option \<times> 'e sysm" where
  "vm_system_init cb cfg frame M =
     (if yc_shared_storage cfg = 0 \<or> yc_shared_storage_size cfg = 0 then (None, M)
      else if yc_local_storage cfg = 0 \<or> yc_local_storage_size cfg = 0 then (None, M)
      else
        let c = fill_defaults cfg;
            s = (zero_system (sy_env (mc_ext M)))\<lparr>sy_config := c\<rparr>;
            (sr, a, m) = slab_init (sy_shared s) (mc_mem M) (yc_shared_storage c)
               (unat (yc_shared_storage_size c)) (yc_slab_config c) slab_null_locker;
            s = s\<lparr>sy_shared := a\<rparr>; M = M\<lparr>mc_mem := m, mc_ext := s, mc_sched := zero_sched\<rparr> in
        if sr \<noteq> SLAB_OK then (None, M)
        else
          let (sr, a, m) = slab_init (sy_local s) (mc_mem M) (yc_local_storage c)
                 (unat (yc_local_storage_size c)) (local_bins (yc_max_vms c) (yc_spawn_data_kb c)) slab_null_locker;
              M = upd_sys (\<lambda>s. s\<lparr>sy_local := a\<rparr>) (M\<lparr>mc_mem := m\<rparr>) in
          if sr \<noteq> SLAB_OK then (None, M)
          else
            let (ok, r) = vm_ecall_install_cpu_handlers vm_ecall_router_init in
            if \<not> ok then (None, M)
            else let (ok, r) = install_system_handlers (coop_ops (sched_config_of cb c r)) frame r in
            if \<not> ok then (None, M)
            else let (sched, scfg) = vm_sched_init (Some (sched_config_of cb c r))
                 in (Some scfg, M\<lparr>mc_sched := sched\<rparr>))"

definition halt_vm :: "u16 \<Rightarrow> 'e sysm \<Rightarrow> 'e sysm" where
  "halt_vm i M = (let p = sy_vms (mc_ext M) i in
     if p \<noteq> 0 then upd_cpu p (\<lambda>c. c\<lparr>halted := True\<rparr>) M else M)"

definition vm_system_destroy :: "'e sysm \<Rightarrow> 'e sysm" where
  "vm_system_destroy M =
     (let M = fold halt_vm vm_ids M
      in upd_sys (\<lambda>s. zero_system (sy_env s)) (M\<lparr>mc_sched := zero_sched\<rparr>))"

definition vm_system_register_unload_hook :: "'e sysm \<Rightarrow> hptr \<Rightarrow> hptr \<Rightarrow> bool \<times> 'e sysm" where
  "vm_system_register_unload_hook M hook userdata =
     (if hook = 0 then (False, M)
      else if length (sy_hooks (mc_ext M)) \<ge> 8 then (False, M)
      else (True, upd_sys (\<lambda>s. s\<lparr>sy_hooks := sy_hooks s @ [(hook, userdata)]\<rparr>) M))"

section \<open>Loading\<close>

datatype VmSystemResult =
    VM_SYS_OK | VM_SYS_ERR_FULL | VM_SYS_ERR_NO_ARENA_SPACE | VM_SYS_ERR_LOAD_FAILED | VM_SYS_ERR_INVALID_ARG

record VmLoadVmResult =
  lr_code :: VmSystemResult
  lr_load_result :: VmLoadResult
  lr_assigned_vm_id :: int

text \<open>The region loop that the failure path and the unloading have: free the base, clear the entry.\<close>

definition release_region :: "hptr \<Rightarrow> u32 \<Rightarrow> 'e sysm \<Rightarrow> 'e sysm" where
  "release_region cpu i M =
     (let b = r_base (regions (mc_cpus M cpu) i) in
      if b = 0 then M
      else upd_cpu cpu (\<lambda>c. c\<lparr>regions := (regions c)(i := (regions c i)\<lparr>r_base := 0, r_length := 0\<rparr>)\<rparr>)
             (snd (local_free b M)))"

definition release_regions :: "hptr \<Rightarrow> 'e sysm \<Rightarrow> 'e sysm" where
  "release_regions cpu M = fold (release_region cpu) [0, 1, 2, 3] M"

text \<open>The \<open>fail:\<close> path, from what had been acquired: \<open>0\<close> and a negative id are nothing.\<close>

definition load_fail ::
  "'e sysm VmSchedOps \<Rightarrow> hptr \<Rightarrow> int \<Rightarrow> hptr \<Rightarrow> VmSystemResult \<Rightarrow> VmLoadResult \<Rightarrow> 'e sysm \<Rightarrow> VmLoadVmResult \<times> 'e sysm" where
  "load_fail ops cpu assigned mbox_storage code lr M =
     (let M = (if cpu \<noteq> 0 then release_regions cpu M else M);
          M = (if assigned \<ge> 0
               then set_vm (word_of_int assigned) 0 (op_unregister_vm ops M (word_of_int assigned)) else M);
          M = (if mbox_storage \<noteq> 0 then snd (local_free mbox_storage M) else M);
          M = (if cpu \<noteq> 0 then snd (local_free cpu M) else M)
      in (\<lparr>lr_code = code, lr_load_result = lr, lr_assigned_vm_id = -1\<rparr>, M))"

definition vm_system_load_vm_with_mailbox ::
  "'e sysm VmSchedOps \<Rightarrow> 'e sysm \<Rightarrow> hptr \<Rightarrow> u64 \<Rightarrow> u32 \<Rightarrow> VmBacking \<Rightarrow> VmBacking \<Rightarrow> u16 \<Rightarrow> u16 \<Rightarrow>
   VmLoadVmResult \<times> 'e sysm" where
  "vm_system_load_vm_with_mailbox ops M elf elf_size data_region_size cb rb mbox_slot mbox_depth =
     (if elf = 0 \<or> elf_size = 0 \<or> data_region_size = 0
      then (\<lparr>lr_code = VM_SYS_ERR_INVALID_ARG, lr_load_result = VM_LOAD_OK, lr_assigned_vm_id = -1\<rparr>, M)
      else let (cpu, M) = local_alloc SIZEOF_VM_CPU M in
      if cpu = 0 then load_fail ops 0 (-1) 0 VM_SYS_ERR_NO_ARENA_SPACE VM_LOAD_OK M
      else
        let M = upd_cpu cpu (\<lambda>_. vm_init 0) M; (assigned, M) = op_register_vm ops M cpu in
        if assigned < 0 then load_fail ops cpu (-1) 0 VM_SYS_ERR_FULL VM_LOAD_OK M
        else
          let i = word_of_int assigned;
              M = set_tracking i zero_tracking (set_vm i cpu M);
              mbox_bytes = vm_mailbox_required_storage_bytes mbox_slot mbox_depth in
          if mbox_bytes = 0 then load_fail ops cpu assigned 0 VM_SYS_ERR_INVALID_ARG VM_LOAD_OK M
          else let (st, M) = local_alloc (of_nat mbox_bytes) M in
          if st = 0 then load_fail ops cpu assigned 0 VM_SYS_ERR_NO_ARENA_SPACE VM_LOAD_OK M
          else
            let (mr, mb) = vm_mailbox_init (sy_mailboxes (mc_ext M) i) st mbox_slot mbox_depth;
                M = set_mailbox i mb M in
            if mr \<noteq> VM_MBOX_OK then load_fail ops cpu assigned st VM_SYS_ERR_INVALID_ARG VM_LOAD_OK M
            else
              let s = mc_ext M; c = sy_config s;
                  lcfg = \<lparr>code_backing = cb, rodata_backing = rb, ram_arena = 1,
                    region_data_size = data_region_size,
                    shared_base = yc_shared_storage c, shared_size = ucast (yc_shared_storage_size c),
                    l2_shared_base = yc_l2_shared_storage c, l2_shared_size = ucast (yc_l2_shared_storage_size c)\<rparr>;
                  (lr, c, a, m, e) = vm_load elf elf_size lcfg (mc_cpus M cpu, sy_local s, mc_mem M, sy_env s);
                  M = upd_cpu cpu (\<lambda>_. c) (upd_sys (\<lambda>s. s\<lparr>sy_local := a, sy_env := e\<rparr>) (M\<lparr>mc_mem := m\<rparr>)) in
              if lr \<noteq> VM_LOAD_OK then load_fail ops cpu assigned st VM_SYS_ERR_LOAD_FAILED lr M
              else (\<lparr>lr_code = VM_SYS_OK, lr_load_result = VM_LOAD_OK, lr_assigned_vm_id = assigned\<rparr>, M))"

definition vm_system_load_vm ::
  "'e sysm VmSchedOps \<Rightarrow> 'e sysm \<Rightarrow> hptr \<Rightarrow> u64 \<Rightarrow> u32 \<Rightarrow> VmBacking \<Rightarrow> VmBacking \<Rightarrow> VmLoadVmResult \<times> 'e sysm" where
  "vm_system_load_vm ops M elf elf_size data_region_size cb rb =
     vm_system_load_vm_with_mailbox ops M elf elf_size data_region_size cb rb
       (yc_default_mailbox_slot_size (sy_config (mc_ext M))) (yc_default_mailbox_depth (sy_config (mc_ext M)))"

section \<open>Unloading and reaping\<close>

text \<open>One round of the hook loop, and of the loop over a VM's tracked blocks.\<close>

definition run_hook :: "(hptr \<Rightarrow> u16 \<Rightarrow> hptr \<Rightarrow> 'e sysm \<Rightarrow> 'e sysm) \<Rightarrow> u16 \<Rightarrow> nat \<Rightarrow> 'e sysm \<Rightarrow> 'e sysm" where
  "run_hook call_hook vm i M =
     (if i < length (sy_hooks (mc_ext M)) then
        case sy_hooks (mc_ext M) ! i of (h, ud) \<Rightarrow> if h \<noteq> 0 then call_hook h vm ud M else M
      else M)"

definition free_tracked :: "u16 \<Rightarrow> nat \<Rightarrow> 'e sysm \<Rightarrow> 'e sysm" where
  "free_tracked vm i M =
     (let t = sy_tracking (mc_ext M) vm; p = at_blocks t ! i in
      if p = 0 then M
      else let M = snd (shared_free p M); t = sy_tracking (mc_ext M) vm
           in set_tracking vm (t\<lparr>at_blocks := (at_blocks t)[i := 0]\<rparr>) M)"

definition free_all_tracked :: "u16 \<Rightarrow> 'e sysm \<Rightarrow> 'e sysm" where
  "free_all_tracked vm M =
     (if at_count (sy_tracking (mc_ext M) vm) > 0 then
        let M = fold (free_tracked vm) [0..<VM_PER_VM_ALLOC_CAP] M
        in set_tracking vm ((sy_tracking (mc_ext M) vm)\<lparr>at_count := 0\<rparr>) M
      else M)"

definition vm_system_unload_vm ::
  "'e sysm VmSchedOps \<Rightarrow> (hptr \<Rightarrow> u16 \<Rightarrow> hptr \<Rightarrow> 'e sysm \<Rightarrow> 'e sysm) \<Rightarrow> 'e sysm \<Rightarrow> u16 \<Rightarrow> bool \<times> 'e sysm" where
  "vm_system_unload_vm ops call_hook M vm =
     (if vm \<ge> VM_SCHED_MAX_VMS then (False, M)
      else let cpu = sy_vms (mc_ext M) vm in
      if cpu = 0 then (False, M)
      else
        let M = upd_cpu cpu (\<lambda>c. c\<lparr>halted := True\<rparr>) M;
            M = fold (run_hook call_hook vm) [0..<8] M;
            M = release_regions cpu M;
            M = free_all_tracked vm M;
            st = rg_storage (ff_rb (mb_fifo (sy_mailboxes (mc_ext M) vm)));
            M = (if st \<noteq> 0 then snd (local_free st M) else M);
            M = snd (local_free cpu M);
            M = op_unregister_vm ops M vm
        in (True, set_mailbox vm zero_mailbox (set_vm vm 0 M)))"

definition vm_system_run :: "'e sysm VmSchedOps \<Rightarrow> 'e sysm \<Rightarrow> u64 \<Rightarrow> (bool \<times> 'e sysm) option" where
  "vm_system_run ops M max_cycles = op_run ops M max_cycles"

definition waits_on :: "'e sysm \<Rightarrow> u16 \<Rightarrow> u16 \<Rightarrow> bool" where
  "waits_on M cid pid \<longleftrightarrow> sy_vms (mc_ext M) pid \<noteq> 0 \<and>
     block_reason (mc_cpus M (sy_vms (mc_ext M) pid)) = BLOCK_ON_CHILD \<and>
     block_child_vm (mc_cpus M (sy_vms (mc_ext M) pid)) = cid"

definition crash_cause :: "VmTrapCause \<Rightarrow> bool" where
  "crash_cause t \<longleftrightarrow> t \<in> {TRAP_ILLEGAL_INSTR, TRAP_LOAD_FAULT, TRAP_STORE_FAULT, TRAP_LOAD_MISALIGNED,
     TRAP_STORE_MISALIGNED, TRAP_STORE_RO, TRAP_INSTR_FETCH_FAULT, TRAP_INSTR_MISALIGNED}"

definition child_status :: "VmCpu \<Rightarrow> u32" where
  "child_status c = (if crash_cause (trap_cause c) then - VM_EIO else regs c VM_REG_A0 AND 0xff)"

definition reap_child ::
  "'e sysm VmSchedOps \<Rightarrow> (hptr \<Rightarrow> u16 \<Rightarrow> hptr \<Rightarrow> 'e sysm \<Rightarrow> 'e sysm) \<Rightarrow> u16 \<Rightarrow> 'e sysm \<Rightarrow> 'e sysm" where
  "reap_child ops call_hook cid M =
     (let child = sy_vms (mc_ext M) cid in
      if child = 0 \<or> \<not> halted (mc_cpus M child) then M
      else
        let M = (case find (waits_on M cid) vm_ids of
              None \<Rightarrow> M
            | Some parent_id \<Rightarrow> snd (op_wake_child ops M parent_id (child_status (mc_cpus M child))))
        in snd (vm_system_unload_vm ops call_hook M cid))"

definition vm_system_reap_halted_children ::
  "'e sysm VmSchedOps \<Rightarrow> (hptr \<Rightarrow> u16 \<Rightarrow> hptr \<Rightarrow> 'e sysm \<Rightarrow> 'e sysm) \<Rightarrow> 'e sysm \<Rightarrow> 'e sysm" where
  "vm_system_reap_halted_children ops call_hook M = fold (reap_child ops call_hook) vm_ids M"

definition vm_system_step ::
  "'e sysm VmSchedOps \<Rightarrow> (hptr \<Rightarrow> u16 \<Rightarrow> hptr \<Rightarrow> 'e sysm \<Rightarrow> 'e sysm) \<Rightarrow> 'e sysm \<Rightarrow>
   (VmSchedStepResult \<times> 'e sysm) option" where
  "vm_system_step ops call_hook M =
     (case op_step ops M of None \<Rightarrow> None
      | Some (r, M') \<Rightarrow> Some (r, vm_system_reap_halted_children ops call_hook M'))"

text \<open>Header accessors.\<close>

definition vm_system_ready_count :: "'e sysm \<Rightarrow> nat" where
  "vm_system_ready_count M = vm_sched_ready_count (mc_sched M)"
definition vm_system_blocked_count :: "'e sysm \<Rightarrow> nat" where
  "vm_system_blocked_count M = vm_sched_blocked_count (mc_sched M)"
definition vm_system_shared_bytes_used :: "'e sysm \<Rightarrow> nat" where
  "vm_system_shared_bytes_used M = total_bytes_in_use (sy_shared (mc_ext M))"
definition vm_system_local_bytes_used :: "'e sysm \<Rightarrow> nat" where
  "vm_system_local_bytes_used M = total_bytes_in_use (sy_local (mc_ext M))"
definition vm_system_local_bytes_peak :: "'e sysm \<Rightarrow> nat" where
  "vm_system_local_bytes_peak M = total_bytes_in_use (sy_local (mc_ext M))"

end
