(* ===== verification/VM_System_Pools.thy ===== *)
theory VM_System_Pools
  imports VM_System_Life VM_Loader_Safe
begin

text \<open>
  The system's two slabs in one host memory. Both keep their invariant under every call on either,
  because their regions have no byte in common; each of the four calls changes one live set,
  nothing of the scheduler and of the CPUs, and no byte of a block that is live before and after.
\<close>

section \<open>The two pools\<close>

abbreviation shared_live :: "'e sysm \<Rightarrow> hptr set" where
  "shared_live M \<equiv> slab_live (sy_shared (mc_ext M)) (mc_mem M)"

abbreviation local_live :: "'e sysm \<Rightarrow> hptr set" where
  "local_live M \<equiv> slab_live (sy_local (mc_ext M)) (mc_mem M)"

abbreviation shared_size_of :: "'e sysm \<Rightarrow> hptr \<Rightarrow> nat" where
  "shared_size_of M \<equiv> slab_block_size (sy_shared (mc_ext M)) (mc_mem M)"

abbreviation local_size_of :: "'e sysm \<Rightarrow> hptr \<Rightarrow> nat" where
  "local_size_of M \<equiv> slab_block_size (sy_local (mc_ext M)) (mc_mem M)"

definition shared_extent :: "'e sysm \<Rightarrow> hptr set" where
  "shared_extent M = extent (region (sy_shared (mc_ext M))) (region_bytes (sy_shared (mc_ext M)))"

definition local_extent :: "'e sysm \<Rightarrow> hptr set" where
  "local_extent M = extent (region (sy_local (mc_ext M))) (region_bytes (sy_local (mc_ext M)))"

definition pools_ok :: "'e sysm \<Rightarrow> bool" where
  "pools_ok M \<longleftrightarrow> slab_inv (sy_shared (mc_ext M)) (mc_mem M) \<and> slab_inv (sy_local (mc_ext M)) (mc_mem M) \<and>
     shared_extent M \<inter> local_extent M = {}"

text \<open>What any sequence of pool calls leaves alone.\<close>

definition pool_frame :: "'e sysm \<Rightarrow> 'e sysm \<Rightarrow> bool" where
  "pool_frame M M' \<longleftrightarrow> mc_sched M' = mc_sched M \<and> mc_cpus M' = mc_cpus M \<and>
     sy_config (mc_ext M') = sy_config (mc_ext M) \<and> sy_vms (mc_ext M') = sy_vms (mc_ext M) \<and>
     sy_mailboxes (mc_ext M') = sy_mailboxes (mc_ext M) \<and> sy_tracking (mc_ext M') = sy_tracking (mc_ext M) \<and>
     sy_hooks (mc_ext M') = sy_hooks (mc_ext M) \<and>
     region (sy_shared (mc_ext M')) = region (sy_shared (mc_ext M)) \<and>
     region_bytes (sy_shared (mc_ext M')) = region_bytes (sy_shared (mc_ext M)) \<and>
     region (sy_local (mc_ext M')) = region (sy_local (mc_ext M)) \<and>
     region_bytes (sy_local (mc_ext M')) = region_bytes (sy_local (mc_ext M)) \<and>
     (\<forall>x. x \<notin> shared_extent M \<longrightarrow> x \<notin> local_extent M \<longrightarrow> mc_mem M' x = mc_mem M x)"

lemma pool_frame_fields:
  assumes "pool_frame M M'"
  shows "sy_config (mc_ext M') = sy_config (mc_ext M)" "sy_vms (mc_ext M') = sy_vms (mc_ext M)"
    "sy_mailboxes (mc_ext M') = sy_mailboxes (mc_ext M)" "sy_tracking (mc_ext M') = sy_tracking (mc_ext M)"
    "sy_hooks (mc_ext M') = sy_hooks (mc_ext M)" "mc_sched M' = mc_sched M" "mc_cpus M' = mc_cpus M"
    "region (sy_shared (mc_ext M')) = region (sy_shared (mc_ext M))"
    "region_bytes (sy_shared (mc_ext M')) = region_bytes (sy_shared (mc_ext M))"
    "region (sy_local (mc_ext M')) = region (sy_local (mc_ext M))"
    "region_bytes (sy_local (mc_ext M')) = region_bytes (sy_local (mc_ext M))"
    "shared_extent M' = shared_extent M" "local_extent M' = local_extent M"
    "x \<notin> shared_extent M \<Longrightarrow> x \<notin> local_extent M \<Longrightarrow> mc_mem M' x = mc_mem M x"
  using assms by (simp_all add: pool_frame_def shared_extent_def local_extent_def del: in_extent)

lemma pool_frame_refl [simp]: "pool_frame M M"
  by (simp add: pool_frame_def)

lemma pool_frame_trans [trans]:
  assumes a: "pool_frame M M1" and b: "pool_frame M1 M2" shows "pool_frame M M2"
  using pool_frame_fields [OF a] pool_frame_fields [OF b] by (simp add: pool_frame_def del: in_extent)

section \<open>One call\<close>

text \<open>A slab in a memory another slab has just changed outside it.\<close>

lemma other_pool:
  assumes "slab_inv b m" "extent (region a) (region_bytes a) \<inter> extent (region b) (region_bytes b) = {}"
    and "\<And>x. x \<notin> extent (region a) (region_bytes a) \<Longrightarrow> m' x = m x"
  shows "slab_inv b m'" "slab_live b m' = slab_live b m" "q \<in> slab_live b m \<Longrightarrow> slab_block_size b m' q = slab_block_size b m q"
    "q \<in> slab_live b m \<Longrightarrow> x \<in> extent q (slab_block_size b m q) \<Longrightarrow> m' x = m x"
proof -
  have same: "x \<in> extent (region b) (region_bytes b) \<Longrightarrow> m' x = m x" for x using assms(2) assms(3) [of x] by blast
  show inv: "slab_inv b m'" and live: "slab_live b m' = slab_live b m"
    by (rule slab_inv_local [OF assms(1) same]; assumption)+
  show "slab_block_size b m' q = slab_block_size b m q" if "q \<in> slab_live b m"
    by (rule live_size_geometry [OF assms(1) inv]) (use that live in auto)
  show "m' x = m x" if "q \<in> slab_live b m" "x \<in> extent q (slab_block_size b m q)"
    using slab_live_bounds(1) [OF assms(1) that(1)] that(2) same by blast
qed

lemma pools_okD:
  assumes "pools_ok M"
  shows "slab_inv (sy_shared (mc_ext M)) (mc_mem M)" "slab_inv (sy_local (mc_ext M)) (mc_mem M)"
    "extent (region (sy_shared (mc_ext M))) (region_bytes (sy_shared (mc_ext M))) \<inter>
     extent (region (sy_local (mc_ext M))) (region_bytes (sy_local (mc_ext M))) = {}"
    "extent (region (sy_local (mc_ext M))) (region_bytes (sy_local (mc_ext M))) \<inter>
     extent (region (sy_shared (mc_ext M))) (region_bytes (sy_shared (mc_ext M))) = {}"
  using assms by (auto simp: pools_ok_def shared_extent_def local_extent_def simp del: in_extent)

text \<open>
  The contract of a pool call, in one predicate: the live set becomes \<open>L\<close>, the other pool's stays,
  and a block live before and after keeps its size and its bytes.
\<close>

definition kept_blocks :: "('e sysm \<Rightarrow> hptr set) \<Rightarrow> ('e sysm \<Rightarrow> hptr \<Rightarrow> nat) \<Rightarrow> 'e sysm \<Rightarrow> 'e sysm \<Rightarrow> bool" where
  "kept_blocks live sz M M' \<longleftrightarrow> (\<forall>q \<in> live M \<inter> live M'. sz M' q = sz M q \<and>
     (\<forall>x \<in> extent q (sz M q). mc_mem M' x = mc_mem M x))"

definition pool_call :: "'e sysm \<Rightarrow> 'e sysm \<Rightarrow> hptr set \<Rightarrow> hptr set \<Rightarrow> bool" where
  "pool_call M M' S L \<longleftrightarrow> pools_ok M' \<and> pool_frame M M' \<and> shared_live M' = S \<and> local_live M' = L \<and>
     kept_blocks shared_live shared_size_of M M' \<and> kept_blocks local_live local_size_of M M'"

lemma pool_callD:
  assumes "pool_call M M' S L"
  shows "pools_ok M'" "pool_frame M M'" "shared_live M' = S" "local_live M' = L"
    "q \<in> shared_live M \<Longrightarrow> q \<in> S \<Longrightarrow> shared_size_of M' q = shared_size_of M q"
    "q \<in> shared_live M \<Longrightarrow> q \<in> S \<Longrightarrow> x \<in> extent q (shared_size_of M q) \<Longrightarrow> mc_mem M' x = mc_mem M x"
    "q \<in> local_live M \<Longrightarrow> q \<in> L \<Longrightarrow> local_size_of M' q = local_size_of M q"
    "q \<in> local_live M \<Longrightarrow> q \<in> L \<Longrightarrow> x \<in> extent q (local_size_of M q) \<Longrightarrow> mc_mem M' x = mc_mem M x"
  using assms by (auto simp: pool_call_def kept_blocks_def simp del: in_extent)

lemma pool_call_refl: "pools_ok M \<Longrightarrow> pool_call M M (shared_live M) (local_live M)"
  by (simp add: pool_call_def kept_blocks_def)

text \<open>A chain of calls; the blocks it keeps are those live throughout.\<close>

lemma pool_call_trans:
  assumes a: "pool_call M M1 S1 L1" and b: "pool_call M1 M2 S2 L2"
    and "shared_live M \<inter> S2 \<subseteq> S1" "local_live M \<inter> L2 \<subseteq> L1"
  shows "pool_call M M2 S2 L2"
proof -
  note a = pool_callD [OF a] and b = pool_callD [OF b]
  have "kept_blocks shared_live shared_size_of M M2" "kept_blocks local_live local_size_of M M2"
    using a(3-8) b(3-8) assms(3,4) unfolding kept_blocks_def by (auto simp del: in_extent)
  then show ?thesis using a b pool_frame_trans [OF a(2) b(2)] by (simp add: pool_call_def)
qed

lemma shared_update_call:
  assumes ok: "pools_ok M" and M': "M' = upd_sys (\<lambda>s. s\<lparr>sy_shared := a, sy_env := e\<rparr>) (M\<lparr>mc_mem := m\<rparr>)"
    and inv: "slab_inv a m" and reg: "region a = region (sy_shared (mc_ext M))" "region_bytes a = region_bytes (sy_shared (mc_ext M))"
    and size: "\<And>q. q \<in> shared_live M \<Longrightarrow> q \<in> slab_live a m \<Longrightarrow> slab_block_size a m q = shared_size_of M q"
    and keep: "\<And>q x. q \<in> shared_live M \<Longrightarrow> q \<in> slab_live a m \<Longrightarrow> x \<in> extent q (shared_size_of M q) \<Longrightarrow> m x = mc_mem M x"
    and out: "\<And>x. x \<notin> shared_extent M \<Longrightarrow> m x = mc_mem M x"
  shows "pool_call M M' (slab_live a m) (local_live M)"
proof -
  note o = pools_okD [OF ok]
  note other = other_pool [OF o(2,3) out [unfolded shared_extent_def]]
  have ext: "shared_extent M' = shared_extent M" "local_extent M' = local_extent M"
    using reg by (simp_all add: M' shared_extent_def local_extent_def)
  have "pools_ok M'" using inv other(1) ok unfolding pools_ok_def ext by (simp add: M')
  moreover have "pool_frame M M'" using ext reg out by (simp add: pool_frame_def M' del: in_extent)
  moreover have "kept_blocks shared_live shared_size_of M M'"
    using size keep unfolding kept_blocks_def M' by (simp del: in_extent) blast
  moreover have "kept_blocks local_live local_size_of M M'"
    using other by (simp add: kept_blocks_def M' del: in_extent)
  ultimately show ?thesis using other(2) by (simp add: pool_call_def M')
qed

lemma local_update_call:
  assumes ok: "pools_ok M" and M': "M' = upd_sys (\<lambda>s. s\<lparr>sy_local := a, sy_env := e\<rparr>) (M\<lparr>mc_mem := m\<rparr>)"
    and inv: "slab_inv a m" and reg: "region a = region (sy_local (mc_ext M))" "region_bytes a = region_bytes (sy_local (mc_ext M))"
    and size: "\<And>q. q \<in> local_live M \<Longrightarrow> q \<in> slab_live a m \<Longrightarrow> slab_block_size a m q = local_size_of M q"
    and keep: "\<And>q x. q \<in> local_live M \<Longrightarrow> q \<in> slab_live a m \<Longrightarrow> x \<in> extent q (local_size_of M q) \<Longrightarrow> m x = mc_mem M x"
    and out: "\<And>x. x \<notin> local_extent M \<Longrightarrow> m x = mc_mem M x"
  shows "pool_call M M' (shared_live M) (slab_live a m)"
proof -
  note o = pools_okD [OF ok]
  note other = other_pool [OF o(1,4) out [unfolded local_extent_def]]
  have ext: "shared_extent M' = shared_extent M" "local_extent M' = local_extent M"
    using reg by (simp_all add: M' shared_extent_def local_extent_def)
  have "pools_ok M'" using inv other(1) ok unfolding pools_ok_def ext by (simp add: M')
  moreover have "pool_frame M M'" using ext reg out by (simp add: pool_frame_def M' del: in_extent)
  moreover have "kept_blocks local_live local_size_of M M'"
    using size keep unfolding kept_blocks_def M' by (simp del: in_extent) blast
  moreover have "kept_blocks shared_live shared_size_of M M'"
    using other by (simp add: kept_blocks_def M' del: in_extent)
  ultimately show ?thesis using other(2) by (simp add: pool_call_def M')
qed

lemma shared_alloc_call:
  assumes ok: "pools_ok M" and al: "shared_alloc n M = (p, M')"
  shows "pool_call M M' (if p = 0 then shared_live M else insert p (shared_live M)) (local_live M)"
    "p \<noteq> 0 \<Longrightarrow> p \<notin> shared_live M" "p = 0 \<Longrightarrow> mc_mem M' = mc_mem M"
    "p \<noteq> 0 \<Longrightarrow> unat n + 8 < 2 ^ 32 \<Longrightarrow> unat n \<le> shared_size_of M' p"
proof -
  obtain a m e where sa: "slab_alloc (sy_shared (mc_ext M)) (mc_mem M) (sy_env (mc_ext M)) n = (p, a, m, e)"
    and M': "M' = upd_sys (\<lambda>s. s\<lparr>sy_shared := a, sy_env := e\<rparr>) (M\<lparr>mc_mem := m\<rparr>)"
    using al by (auto simp: shared_alloc_def split: prod.splits)
  note inv = pools_okD(1) [OF ok] and geo = slab_alloc_geometry(1,2) [OF sa]
  have "pool_call M M' (slab_live a m) (local_live M) \<and>
      slab_live a m = (if p = 0 then shared_live M else insert p (shared_live M)) \<and>
      (p \<noteq> 0 \<longrightarrow> p \<notin> shared_live M) \<and> (p = 0 \<longrightarrow> m = mc_mem M) \<and>
      (p \<noteq> 0 \<longrightarrow> unat n + 8 < 2 ^ 32 \<longrightarrow> unat n \<le> slab_block_size a m p)"
  proof (cases "p = 0")
    case True
    note r = slab_alloc_refuse [OF inv sa [unfolded True]]
    have "pool_call M M' (slab_live a m) (local_live M)"
      by (rule shared_update_call [OF ok M' r(1) geo]) (use r in auto)
    then show ?thesis using True r(2,3) by simp
  next
    case False
    note g = slab_alloc_grant [OF inv sa False]
    have "pool_call M M' (slab_live a m) (local_live M)"
      by (rule shared_update_call [OF ok M' g(1) geo]) (use g in \<open>auto simp: shared_extent_def simp del: in_extent\<close>)
    then show ?thesis using False g(2,3,4) by simp
  qed
  then show "pool_call M M' (if p = 0 then shared_live M else insert p (shared_live M)) (local_live M)"
    "p \<noteq> 0 \<Longrightarrow> p \<notin> shared_live M" "p = 0 \<Longrightarrow> mc_mem M' = mc_mem M"
    "p \<noteq> 0 \<Longrightarrow> unat n + 8 < 2 ^ 32 \<Longrightarrow> unat n \<le> shared_size_of M' p"
    by (auto simp: M')
qed

lemma local_alloc_call:
  assumes ok: "pools_ok M" and al: "local_alloc n M = (p, M')"
  shows "pool_call M M' (shared_live M) (if p = 0 then local_live M else insert p (local_live M))"
    "p \<noteq> 0 \<Longrightarrow> p \<notin> local_live M" "p = 0 \<Longrightarrow> mc_mem M' = mc_mem M"
    "p \<noteq> 0 \<Longrightarrow> unat n + 8 < 2 ^ 32 \<Longrightarrow> unat n \<le> local_size_of M' p"
proof -
  obtain a m e where sa: "slab_alloc (sy_local (mc_ext M)) (mc_mem M) (sy_env (mc_ext M)) n = (p, a, m, e)"
    and M': "M' = upd_sys (\<lambda>s. s\<lparr>sy_local := a, sy_env := e\<rparr>) (M\<lparr>mc_mem := m\<rparr>)"
    using al by (auto simp: local_alloc_def split: prod.splits)
  note inv = pools_okD(2) [OF ok] and geo = slab_alloc_geometry(1,2) [OF sa]
  have "pool_call M M' (shared_live M) (slab_live a m) \<and>
      slab_live a m = (if p = 0 then local_live M else insert p (local_live M)) \<and>
      (p \<noteq> 0 \<longrightarrow> p \<notin> local_live M) \<and> (p = 0 \<longrightarrow> m = mc_mem M) \<and>
      (p \<noteq> 0 \<longrightarrow> unat n + 8 < 2 ^ 32 \<longrightarrow> unat n \<le> slab_block_size a m p)"
  proof (cases "p = 0")
    case True
    note r = slab_alloc_refuse [OF inv sa [unfolded True]]
    have "pool_call M M' (shared_live M) (slab_live a m)"
      by (rule local_update_call [OF ok M' r(1) geo]) (use r in auto)
    then show ?thesis using True r(2,3) by simp
  next
    case False
    note g = slab_alloc_grant [OF inv sa False]
    have "pool_call M M' (shared_live M) (slab_live a m)"
      by (rule local_update_call [OF ok M' g(1) geo]) (use g in \<open>auto simp: local_extent_def simp del: in_extent\<close>)
    then show ?thesis using False g(2,3,4) by simp
  qed
  then show "pool_call M M' (shared_live M) (if p = 0 then local_live M else insert p (local_live M))"
    "p \<noteq> 0 \<Longrightarrow> p \<notin> local_live M" "p = 0 \<Longrightarrow> mc_mem M' = mc_mem M"
    "p \<noteq> 0 \<Longrightarrow> unat n + 8 < 2 ^ 32 \<Longrightarrow> unat n \<le> local_size_of M' p"
    by (auto simp: M')
qed

lemma shared_free_call:
  assumes ok: "pools_ok M" and p: "p \<in> shared_live M" and fr: "shared_free p M = (r, M')"
  shows "r = SLAB_OK" "pool_call M M' (shared_live M - {p}) (local_live M)"
proof -
  obtain a m e where sf: "slab_free (sy_shared (mc_ext M)) (mc_mem M) (sy_env (mc_ext M)) p = (r, a, m, e)"
    and M': "M' = upd_sys (\<lambda>s. s\<lparr>sy_shared := a, sy_env := e\<rparr>) (M\<lparr>mc_mem := m\<rparr>)"
    using fr by (auto simp: shared_free_def split: prod.splits)
  note f = slab_free_release [OF pools_okD(1) [OF ok] p sf]
  show "r = SLAB_OK" by (rule f(1))
  have "pool_call M M' (slab_live a m) (local_live M)"
    by (rule shared_update_call [OF ok M' f(2,4,5)]) (use f in \<open>auto simp: shared_extent_def simp del: in_extent\<close>)
  then show "pool_call M M' (shared_live M - {p}) (local_live M)" using f(3) by simp
qed

lemma local_free_call:
  assumes ok: "pools_ok M" and p: "p \<in> local_live M" and fr: "local_free p M = (r, M')"
  shows "r = SLAB_OK" "pool_call M M' (shared_live M) (local_live M - {p})"
proof -
  obtain a m e where sf: "slab_free (sy_local (mc_ext M)) (mc_mem M) (sy_env (mc_ext M)) p = (r, a, m, e)"
    and M': "M' = upd_sys (\<lambda>s. s\<lparr>sy_local := a, sy_env := e\<rparr>) (M\<lparr>mc_mem := m\<rparr>)"
    using fr by (auto simp: local_free_def split: prod.splits)
  note f = slab_free_release [OF pools_okD(2) [OF ok] p sf]
  show "r = SLAB_OK" by (rule f(1))
  have "pool_call M M' (shared_live M) (slab_live a m)"
    by (rule local_update_call [OF ok M' f(2,4,5)]) (use f in \<open>auto simp: local_extent_def simp del: in_extent\<close>)
  then show "pool_call M M' (shared_live M) (local_live M - {p})" using f(3) by simp
qed

text \<open>A pointer whose header is not in the region is not this pool's: the call does nothing.\<close>

definition foreign :: "'e sysm \<Rightarrow> hptr \<Rightarrow> bool" where
  "foreign M p \<longleftrightarrow> p - 8 < region (sy_local (mc_ext M)) \<or>
     p - 8 \<ge> region (sy_local (mc_ext M)) + region_bytes (sy_local (mc_ext M))"

lemma local_free_foreign: "foreign M p \<Longrightarrow> snd (local_free p M) = M"
  by (auto simp: local_free_def slab_free_def foreign_def header_of_def Let_def upd_sys_def)

end
