(* ===== verification/VM_System_Mem.thy ===== *)
theory VM_System_Mem
  imports VM_System_Pools
begin

text \<open>
  \<open>SYS_ALLOC\<close>, \<open>SYS_FREE\<close> and the tracking of a VM's blocks: which blocks of the shared slab each VM
  holds, that the two calls answer as documented on every branch, and that unloading gives every
  block back.
\<close>

section \<open>Tracking\<close>

definition tracking_ok :: "VmAllocTracking \<Rightarrow> bool" where
  "tracking_ok t \<longleftrightarrow> length (at_blocks t) = VM_PER_VM_ALLOC_CAP \<and> distinct (filter (\<lambda>p. p \<noteq> 0) (at_blocks t)) \<and>
     unat (at_count t) = length (filter (\<lambda>p. p \<noteq> 0) (at_blocks t))"

definition blocks_of :: "VmAllocTracking \<Rightarrow> hptr set" where "blocks_of t = set (at_blocks t) - {0}"

abbreviation tracked :: "'e sysm \<Rightarrow> u16 \<Rightarrow> hptr set" where
  "tracked M i \<equiv> blocks_of (sy_tracking (mc_ext M) i)"

lemma blocks_of_filter: "blocks_of t = set (filter (\<lambda>p. p \<noteq> 0) (at_blocks t))"
  by (auto simp: blocks_of_def)

lemma count_card: "tracking_ok t \<Longrightarrow> unat (at_count t) = card (blocks_of t)"
  by (simp add: tracking_ok_def blocks_of_filter distinct_card del: set_filter)

lemma zero_tracking_ok [simp]: "tracking_ok zero_tracking" "blocks_of zero_tracking = {}"
  by (simp_all add: tracking_ok_def zero_tracking_def blocks_of_def)

lemma split_at: "i < length xs \<Longrightarrow> xs[i := y] = take i xs @ y # drop (Suc i) xs"
  by (simp add: upd_conv_take_nth_drop)

lemma filter_fill:
  assumes "i < length xs" "xs ! i = 0" "p \<noteq> (0::nat)"
  obtains a b where "filter (\<lambda>p. p \<noteq> 0) xs = a @ b" "filter (\<lambda>p. p \<noteq> 0) (xs[i := p]) = a @ p # b"
proof
  show "filter (\<lambda>p. p \<noteq> 0) xs = filter (\<lambda>p. p \<noteq> 0) (take i xs) @ filter (\<lambda>p. p \<noteq> 0) (drop (Suc i) xs)"
    by (subst id_take_nth_drop [OF assms(1)]) (simp add: assms(2))
  show "filter (\<lambda>p. p \<noteq> 0) (xs[i := p]) = filter (\<lambda>p. p \<noteq> 0) (take i xs) @ p # filter (\<lambda>p. p \<noteq> 0) (drop (Suc i) xs)"
    using assms by (simp add: split_at)
qed

lemma fill_slot:
  assumes ok: "tracking_ok t" and i: "i < VM_PER_VM_ALLOC_CAP" "at_blocks t ! i = 0"
    and p: "p \<noteq> 0" "p \<notin> blocks_of t"
  defines "t' \<equiv> t\<lparr>at_blocks := (at_blocks t)[i := p], at_count := at_count t + 1\<rparr>"
  shows "tracking_ok t'" "blocks_of t' = insert p (blocks_of t)"
proof -
  have len: "i < length (at_blocks t)" using ok i(1) by (simp add: tracking_ok_def)
  obtain a b where ab: "filter (\<lambda>p. p \<noteq> 0) (at_blocks t) = a @ b"
    "filter (\<lambda>p. p \<noteq> 0) ((at_blocks t)[i := p]) = a @ p # b"
    by (rule filter_fill [OF len i(2) p(1)])
  have "length (a @ p # b) \<le> 32"
    using length_filter_le [of "\<lambda>p. p \<noteq> 0" "(at_blocks t)[i := p]"] ok unfolding ab(2) by (simp add: tracking_ok_def)
  then have "unat (at_count t + 1) = Suc (unat (at_count t))"
    using ok ab(1) unat_plus_one [of "at_count t" 33] by (simp add: tracking_ok_def word_less_nat_alt)
  then show "tracking_ok t'"
    using ok ab p(2) by (auto simp: t'_def tracking_ok_def blocks_of_filter simp del: set_filter)
  show "blocks_of t' = insert p (blocks_of t)"
    unfolding blocks_of_filter t'_def using ab by (simp del: set_filter)
qed

lemma empty_slot:
  assumes ok: "tracking_ok t" and i: "i < VM_PER_VM_ALLOC_CAP" and p: "at_blocks t ! i \<noteq> 0"
  defines "t' \<equiv> t\<lparr>at_blocks := (at_blocks t)[i := 0], at_count := at_count t - 1\<rparr>"
  shows "tracking_ok t'" "blocks_of t' = blocks_of t - {at_blocks t ! i}"
proof -
  have len: "i < length (at_blocks t)" using ok i(1) by (simp add: tracking_ok_def)
  obtain a b where ab: "filter (\<lambda>p. p \<noteq> 0) ((at_blocks t)[i := 0]) = a @ b"
    "filter (\<lambda>p. p \<noteq> 0) ((at_blocks t)[i := 0, i := at_blocks t ! i]) = a @ at_blocks t ! i # b"
    by (rule filter_fill [of i "(at_blocks t)[i := 0]" "at_blocks t ! i"]) (use len p in auto)
  have old: "filter (\<lambda>p. p \<noteq> 0) (at_blocks t) = a @ at_blocks t ! i # b" using ab(2) by simp
  have "unat (at_count t - 1) = unat (at_count t) - 1"
    using ok old by (simp add: tracking_ok_def unat_minus_one unat_gt_0 unat_eq_zero [symmetric])
  then show "tracking_ok t'"
    using ok ab old by (auto simp: t'_def tracking_ok_def)
  show "blocks_of t' = blocks_of t - {at_blocks t ! i}"
    unfolding blocks_of_filter t'_def using ab(1) old ok by (auto simp: tracking_ok_def simp del: set_filter)
qed

text \<open>The two tracking calls.\<close>

lemma set_tracking_simps [simp]:
  "sy_tracking (mc_ext (set_tracking i t M)) = (sy_tracking (mc_ext M))(i := t)"
  "mc_sched (set_tracking i t M) = mc_sched M" "mc_cpus (set_tracking i t M) = mc_cpus M"
  "mc_mem (set_tracking i t M) = mc_mem M" "sy_shared (mc_ext (set_tracking i t M)) = sy_shared (mc_ext M)"
  "sy_local (mc_ext (set_tracking i t M)) = sy_local (mc_ext M)"
  "sy_config (mc_ext (set_tracking i t M)) = sy_config (mc_ext M)"
  "sy_vms (mc_ext (set_tracking i t M)) = sy_vms (mc_ext M)"
  "sy_mailboxes (mc_ext (set_tracking i t M)) = sy_mailboxes (mc_ext M)"
  "sy_hooks (mc_ext (set_tracking i t M)) = sy_hooks (mc_ext M)"
  by (simp_all add: set_tracking_def)

lemma track_alloc_result:
  assumes ok: "tracking_ok (sy_tracking (mc_ext M) vm)" and vm: "vm < VM_SCHED_MAX_VMS"
    and p: "p \<noteq> 0" "p \<notin> tracked M vm" and room: "card (tracked M vm) < VM_PER_VM_ALLOC_CAP"
  obtains t where "track_alloc M vm p = (True, set_tracking vm t M)" "tracking_ok t"
    "blocks_of t = insert p (tracked M vm)"
proof -
  let ?t = "sy_tracking (mc_ext M) vm"
  have len: "length (at_blocks ?t) = 32" using ok by (simp add: tracking_ok_def)
  have "find (\<lambda>i. at_blocks ?t ! i = 0) [0..<32] \<noteq> None"
  proof
    assume "find (\<lambda>i. at_blocks ?t ! i = 0) [0..<32] = None"
    then have "\<forall>p \<in> set (at_blocks ?t). p \<noteq> 0" using len by (auto simp: find_None_iff in_set_conv_nth)
    then have "filter (\<lambda>p. p \<noteq> 0) (at_blocks ?t) = at_blocks ?t" by (intro filter_True) auto
    with ok len room count_card [OF ok] show False by (simp add: tracking_ok_def)
  qed
  then obtain i where f: "find (\<lambda>i. at_blocks ?t ! i = 0) [0..<32] = Some i" by auto
  then have i: "i < 32" "at_blocks ?t ! i = 0" by (auto simp: find_Some_iff)
  note fill = fill_slot [OF ok i p]
  show thesis
    by (rule that [OF _ fill]) (use f vm room count_card [OF ok] in \<open>simp add: track_alloc_def Let_def not_le [symmetric]\<close>)
qed

lemma untrack_alloc_result:
  assumes ok: "tracking_ok (sy_tracking (mc_ext M) vm)" and vm: "vm < VM_SCHED_MAX_VMS" and p: "p \<noteq> 0"
  shows "p \<notin> tracked M vm \<Longrightarrow> untrack_alloc M vm p = (False, M)"
    "p \<in> tracked M vm \<Longrightarrow> \<exists>t. untrack_alloc M vm p = (True, set_tracking vm t M) \<and> tracking_ok t \<and>
      blocks_of t = tracked M vm - {p}"
proof -
  let ?t = "sy_tracking (mc_ext M) vm"
  have len: "length (at_blocks ?t) = 32" using ok by (simp add: tracking_ok_def)
  have mem: "p \<in> tracked M vm \<longleftrightarrow> (\<exists>i < 32. at_blocks ?t ! i = p)"
    using p len by (auto simp: blocks_of_def in_set_conv_nth)
  show "untrack_alloc M vm p = (False, M)" if "p \<notin> tracked M vm"
  proof -
    have "find (\<lambda>i. at_blocks ?t ! i = p) [0..<32] = None" using that mem by (auto simp: find_None_iff)
    then show ?thesis using vm by (simp add: untrack_alloc_def Let_def not_le [symmetric])
  qed
  show "\<exists>t. untrack_alloc M vm p = (True, set_tracking vm t M) \<and> tracking_ok t \<and> blocks_of t = tracked M vm - {p}"
    if "p \<in> tracked M vm"
  proof -
    have "find (\<lambda>i. at_blocks ?t ! i = p) [0..<32] \<noteq> None" using that mem by (auto simp: find_None_iff)
    then obtain i where f: "find (\<lambda>i. at_blocks ?t ! i = p) [0..<32] = Some i" by auto
    then have i: "i < 32" "at_blocks ?t ! i = p" by (auto simp: find_Some_iff)
    have nz: "at_blocks ?t ! i \<noteq> 0" using i(2) p by simp
    note e = empty_slot [OF ok i(1) nz]
    show ?thesis
      by (rule exI, rule conjI [OF _ conjI [OF e [unfolded i(2)]]])
        (use f vm i(2) in \<open>simp add: untrack_alloc_def Let_def not_le [symmetric]\<close>)
  qed
qed

section \<open>The invariant of the shared memory\<close>

definition shared_inv :: "'e sysm \<Rightarrow> bool" where
  "shared_inv M \<longleftrightarrow> pools_ok M \<and>
     region (sy_shared (mc_ext M)) = yc_shared_storage (sy_config (mc_ext M)) \<and>
     region_bytes (sy_shared (mc_ext M)) = unat (yc_shared_storage_size (sy_config (mc_ext M))) \<and>
     (\<forall>i < VM_SCHED_MAX_VMS. tracking_ok (sy_tracking (mc_ext M) i) \<and> tracked M i \<subseteq> shared_live M) \<and>
     (\<forall>i < VM_SCHED_MAX_VMS. \<forall>j < VM_SCHED_MAX_VMS. i \<noteq> j \<longrightarrow> tracked M i \<inter> tracked M j = {})"

lemma shared_invD:
  assumes "shared_inv M"
  shows "pools_ok M" "region (sy_shared (mc_ext M)) = yc_shared_storage (sy_config (mc_ext M))"
    "region_bytes (sy_shared (mc_ext M)) = unat (yc_shared_storage_size (sy_config (mc_ext M)))"
    "i < VM_SCHED_MAX_VMS \<Longrightarrow> tracking_ok (sy_tracking (mc_ext M) i)"
    "i < VM_SCHED_MAX_VMS \<Longrightarrow> tracked M i \<subseteq> shared_live M"
    "i < VM_SCHED_MAX_VMS \<Longrightarrow> j < VM_SCHED_MAX_VMS \<Longrightarrow> i \<noteq> j \<Longrightarrow> tracked M i \<inter> tracked M j = {}"
  using assms by (simp_all add: shared_inv_def)

text \<open>
  The invariant through a pool call and a change of one VM's tracking: the new set may hold only
  live blocks no other VM holds.
\<close>

lemma shared_inv_step:
  assumes inv: "shared_inv M" and call: "pool_call M M1 S L" and M': "M' = set_tracking vm t M1"
    and t: "tracking_ok t" "blocks_of t \<subseteq> S"
    and others: "\<And>j. j < VM_SCHED_MAX_VMS \<Longrightarrow> j \<noteq> vm \<Longrightarrow> tracked M j \<subseteq> S \<and> tracked M j \<inter> blocks_of t = {}"
  shows "shared_inv M'"
proof -
  note c = pool_callD(1-4) [OF call] and f = pool_frame_fields [OF pool_callD(2) [OF call]]
  have "pools_ok M'" using c(1) unfolding M' pools_ok_def shared_extent_def local_extent_def by simp
  moreover have "region (sy_shared (mc_ext M')) = yc_shared_storage (sy_config (mc_ext M'))"
    "region_bytes (sy_shared (mc_ext M')) = unat (yc_shared_storage_size (sy_config (mc_ext M')))"
    using shared_invD(2,3) [OF inv] f by (simp_all add: M')
  moreover have "tracking_ok (sy_tracking (mc_ext M') i) \<and> tracked M' i \<subseteq> shared_live M'" if "i < VM_SCHED_MAX_VMS" for i
    using shared_invD(4) [OF inv that] others [OF that] t c(3) f(4) by (simp add: M')
  moreover have "tracked M' i \<inter> tracked M' j = {}" if "i < VM_SCHED_MAX_VMS" "j < VM_SCHED_MAX_VMS" "i \<noteq> j" for i j
    using shared_invD(6) [OF inv that] others that f(4) by (simp add: M') (metis Int_commute)
  ultimately show ?thesis unfolding shared_inv_def by blast
qed

lemma set_tracking_same: "sy_tracking (mc_ext M) i = t \<Longrightarrow> set_tracking i t M = M"
  by (auto simp: set_tracking_def upd_sys_def)

lemma shared_inv_call:
  assumes inv: "shared_inv M" and call: "pool_call M M' S L" and sub: "shared_live M \<subseteq> S"
  shows "shared_inv M'"
proof -
  have f: "sy_tracking (mc_ext M') = sy_tracking (mc_ext M)"
    by (rule pool_frame_fields(4) [OF pool_callD(2) [OF call]])
  have "M' = set_tracking 0 (sy_tracking (mc_ext M) 0) M'" using f set_tracking_same by metis
  then show ?thesis
    by (rule shared_inv_step [OF inv call])
      (use shared_invD(4) [OF inv] subset_trans [OF shared_invD(5) [OF inv] sub] shared_invD(6) [OF inv] in simp_all)
qed

text \<open>The invariant does not read the CPUs, and not the memory outside the two pools.\<close>

lemma shared_inv_cong:
  assumes "mc_ext M' = mc_ext M" "mc_mem M' = mc_mem M"
  shows "shared_inv M' = shared_inv M"
  by (simp add: shared_inv_def pools_ok_def shared_extent_def local_extent_def assms)

lemma ret_a0_simps [simp]:
  "mc_ext (ret_a0 p v M) = mc_ext M" "mc_mem (ret_a0 p v M) = mc_mem M" "mc_sched (ret_a0 p v M) = mc_sched M"
  "mc_cpus (ret_a0 p v M) p = set_a0 v (mc_cpus M p)" "q \<noteq> p \<Longrightarrow> mc_cpus (ret_a0 p v M) q = mc_cpus M q"
  "regs (set_a0 v c) VM_REG_A0 = v"
  by (simp_all add: ret_a0_def set_a0_def)

lemma shared_inv_ret [simp]: "shared_inv (ret_a0 p v M) = shared_inv M"
  by (rule shared_inv_cong) simp_all

section \<open>Allocation\<close>

text \<open>The only branches of \<open>handle_alloc\<close> that can be taken when the invariant holds.\<close>

lemma handle_alloc_cases:
  assumes inv: "shared_inv M" and vm: "vm_id (mc_cpus M cpu) < VM_SCHED_MAX_VMS"
  defines "v \<equiv> vm_id (mc_cpus M cpu)" and "sz \<equiv> get_arg cpu VM_REG_A0 M"
  obtains "sz = 0" "handle_alloc cpu M = ret_a0 cpu (- VM_EINVAL) M"
  | "sz \<noteq> 0" "card (tracked M v) = VM_PER_VM_ALLOC_CAP" "handle_alloc cpu M = ret_a0 cpu (- VM_ENOMEM) M"
  | M1 where "sz \<noteq> 0" "card (tracked M v) < VM_PER_VM_ALLOC_CAP" "shared_alloc (ucast sz) M = (0, M1)"
      "handle_alloc cpu M = ret_a0 cpu (- VM_ENOMEM) M1"
  | p M1 t where "sz \<noteq> 0" "card (tracked M v) < VM_PER_VM_ALLOC_CAP"
      "shared_alloc (ucast sz) M = (p, M1)" "p \<noteq> 0" "tracking_ok t" "blocks_of t = insert p (tracked M v)"
      "yc_shared_storage (sy_config (mc_ext M)) \<le> p"
      "p - yc_shared_storage (sy_config (mc_ext M)) < unat (yc_shared_storage_size (sy_config (mc_ext M)))"
      "handle_alloc cpu M = ret_a0 cpu (SHARED_GUEST_BASE + of_nat (p - yc_shared_storage (sy_config (mc_ext M))))
         (set_tracking v t M1)"
proof -
  have ok: "tracking_ok (sy_tracking (mc_ext M) v)" using shared_invD(4) [OF inv] vm by (simp add: v_def)
  note cc = count_card [OF ok]
  have cap: "card (tracked M v) \<le> 32"
    using ok length_filter_le [of "\<lambda>p. p \<noteq> 0" "at_blocks (sy_tracking (mc_ext M) v)"] cc by (simp add: tracking_ok_def)
  obtain p M1 where al: "shared_alloc (ucast sz) M = (p, M1)" by (cases "shared_alloc (ucast sz) M")
  note c = shared_alloc_call [OF shared_invD(1) [OF inv] al]
  note f = pool_frame_fields [OF pool_callD(2) [OF c(1)]]
  consider "sz = 0" | "sz \<noteq> 0" "card (tracked M v) = 32" | "sz \<noteq> 0" "card (tracked M v) < 32" "p = 0"
    | "sz \<noteq> 0" "card (tracked M v) < 32" "p \<noteq> 0"
    using cap by linarith
  then show thesis
  proof cases
    case 1
    then show thesis by (intro that(1)) (simp_all add: handle_alloc_def sz_def Let_def)
  next
    case 2
    then show thesis using cc by (intro that(2)) (simp_all add: handle_alloc_def sz_def v_def Let_def)
  next
    case 3
    then show thesis using cc al by (intro that(3)) (simp_all add: handle_alloc_def sz_def v_def Let_def)
  next
    case 4
    have fresh: "p \<notin> tracked M1 v" using shared_invD(5) [OF inv vm] c(2) [OF 4(3)] f(4) by (auto simp: v_def)
    obtain t where tr: "track_alloc M1 v p = (True, set_tracking v t M1)" "tracking_ok t"
      "blocks_of t = insert p (tracked M v)"
      by (rule track_alloc_result [of M1 v p]) (use ok vm 4 fresh f(4) in \<open>simp_all add: v_def\<close>)
    have live: "p \<in> slab_live (sy_shared (mc_ext M1)) (mc_mem M1)" using pool_callD(3) [OF c(1)] 4(3) by simp
    have sinv: "slab_inv (sy_shared (mc_ext M1)) (mc_mem M1)" by (rule pools_okD(1) [OF pool_callD(1) [OF c(1)]])
    obtain i b where ib: "i < 16" "b < bcount (sy_shared (mc_ext M1)) i" "p = user_at (sy_shared (mc_ext M1)) i b"
      using live by (rule slab_liveE)
    have "region (sy_shared (mc_ext M1)) \<le> p \<and> p < region (sy_shared (mc_ext M1)) + region_bytes (sy_shared (mc_ext M1))"
      using block_bounds(1,2) [OF slab_inv_layout [OF sinv] ib(1,2)] btotal_ge [of i] ib(3) by (simp add: user_at_def)
    then have in_region: "yc_shared_storage (sy_config (mc_ext M)) \<le> p"
      "p - yc_shared_storage (sy_config (mc_ext M)) < unat (yc_shared_storage_size (sy_config (mc_ext M)))"
      using shared_invD(2,3) [OF inv] f(8,9) by linarith+
    show thesis
      by (rule that(4) [OF 4(1,2) al 4(3) tr(2,3) in_region])
        (use 4 cc al tr(1) in_region f(1) in \<open>simp add: handle_alloc_def sz_def [symmetric] v_def [symmetric] Let_def\<close>)
  qed
qed

text \<open>The address an allocation returns is one the guest's own translation takes back to the block.\<close>

lemma shared_address:
  assumes "(w :: u32) < 0x20000000"
  shows "drop_bit 30 (0xC0000000 + w) = 3" "(0xC0000000 + w) AND 0x20000000 = 0" "(0xC0000000 + w) AND 0x1FFFFFFF = w"
proof -
  have high: "\<not> bit w n" if "29 \<le> n" for n
    using not_bit_of_less [of w 29 n] assms that by simp
  have "0xC0000000 AND w = 0"
    by (rule u32_eq_bits) (simp add: all_less_32 bit_simps high)
  then have or: "0xC0000000 + w = 0xC0000000 OR w" using word_plus_and_or [of "0xC0000000" w] by simp
  show "drop_bit 30 (0xC0000000 + w) = 3" unfolding or
    by (rule u32_eq_bits) (simp add: all_less_32 bit_simps high)
  show "(0xC0000000 + w) AND 0x20000000 = 0" unfolding or
    by (rule u32_eq_bits) (simp add: all_less_32 bit_simps high)
  show "(0xC0000000 + w) AND 0x1FFFFFFF = w" unfolding or
    by (rule u32_eq_bits) (simp add: all_less_32 bit_simps high)
qed

definition shared_region :: "VmSystemConfig \<Rightarrow> VmRegion" where
  "shared_region c = \<lparr>r_base = yc_shared_storage c, r_length = ucast (yc_shared_storage_size c), r_writable = True\<rparr>"

lemma translate_shared:
  assumes reg: "regions c VM_REGION_SHARED = shared_region cfg" and size: "unat (yc_shared_storage_size cfg) \<le> 2 ^ 29"
    and p: "yc_shared_storage cfg \<le> p" "p + unat n \<le> yc_shared_storage cfg + unat (yc_shared_storage_size cfg)"
    and n: "n \<noteq> 0"
  shows "vm_translate_write c (SHARED_GUEST_BASE + of_nat (p - yc_shared_storage cfg)) n = (c, p)"
proof -
  define w where "w = (of_nat (p - yc_shared_storage cfg) :: u32)"
  have "0 < unat n" using n by (simp add: unat_gt_0)
  then have off: "p - yc_shared_storage cfg < 2 ^ 29" using p size by linarith
  then have uw: "unat w = p - yc_shared_storage cfg" by (simp add: w_def unat_of_nat)
  have wl: "w < 0x20000000" using off uw by (simp add: word_less_nat_alt)
  have ul: "unat (ucast (yc_shared_storage_size cfg) :: u32) = unat (yc_shared_storage_size cfg)"
    using size by (simp add: unsigned_ucast_eq take_bit_nat_eq_self)
  note a = shared_address [OF wl]
  have "unat n \<le> unat (ucast (yc_shared_storage_size cfg) :: u32) - unat w" using p uw ul by linarith
  moreover have "unat w \<le> unat (ucast (yc_shared_storage_size cfg) :: u32)" using p uw ul by linarith
  ultimately have "n \<le> ucast (yc_shared_storage_size cfg) - w" "w \<le> ucast (yc_shared_storage_size cfg)"
    by (simp_all add: word_le_nat_alt unat_sub)
  moreover have "ucast (yc_shared_storage_size cfg) \<noteq> (0 :: u32)" using ul p \<open>0 < unat n\<close> by (metis add.right_neutral leD le_trans less_add_same_cancel1 unat_0)
  moreover have "p = yc_shared_storage cfg + unat w" using uw p(1) by simp
  ultimately show ?thesis using n a reg
    by (simp add: w_def [symmetric] vm_translate_write_def xlat_write_def xlat_pick_def Let_def shared_region_def not_less [symmetric])
qed

lemma ucast_u64_eq_0 [simp]: "(ucast (w :: u32) :: u64) = 0 \<longleftrightarrow> w = 0"
proof -
  have "(ucast w :: u64) = 0 \<longleftrightarrow> unat (ucast w :: u64) = 0" by (simp add: unat_eq_zero)
  then show ?thesis by (simp add: unat_ucast_u64 unat_eq_zero)
qed

lemma granted_translates:
  assumes inv: "shared_inv M" and al: "shared_alloc (ucast sz) M = (p, M1)" "p \<noteq> 0" "yc_shared_storage (sy_config (mc_ext M)) \<le> p"
    and sz: "sz \<noteq> 0" "unat sz + 8 < 2 ^ 32"
    and reg: "regions c VM_REGION_SHARED = shared_region (sy_config (mc_ext M))"
      "unat (yc_shared_storage_size (sy_config (mc_ext M))) \<le> 2 ^ 29"
  shows "vm_translate_write c (SHARED_GUEST_BASE + of_nat (p - yc_shared_storage (sy_config (mc_ext M)))) sz = (c, p)"
proof -
  note c = shared_alloc_call [OF shared_invD(1) [OF inv] al(1)]
  note f = pool_frame_fields(8,9) [OF pool_callD(2) [OF c(1)]]
  have "extent p (shared_size_of M1 p) \<subseteq> extent (region (sy_shared (mc_ext M1))) (region_bytes (sy_shared (mc_ext M1)))"
    using slab_live_bounds(1) [OF pools_okD(1) [OF pool_callD(1) [OF c(1)]]] pool_callD(3) [OF c(1)] al(2) by simp
  moreover have "0 < unat sz" using sz(1) by (simp add: unat_gt_0)
  moreover have "unat sz \<le> shared_size_of M1 p" using c(4) [OF al(2)] sz(2) by (simp add: unat_ucast_u64)
  ultimately have "p + unat sz \<le> yc_shared_storage (sy_config (mc_ext M)) + unat (yc_shared_storage_size (sy_config (mc_ext M)))"
    using f shared_invD(2,3) [OF inv] by (auto simp: subset_iff dest!: spec [of _ "p + unat sz - 1"])
  then show ?thesis using translate_shared [OF reg al(3) _ sz(1)] by simp
qed

lemma shared_alloc_decides:
  assumes "pools_ok M" and "shared_alloc n M = (p, M')"
  shows "p = 0 \<longleftrightarrow> n = 0 \<or> size_to_bin n \<ge> 16 \<or> btop (sy_shared (mc_ext M)) (size_to_bin n) = 0"
proof -
  obtain a m e where sa: "slab_alloc (sy_shared (mc_ext M)) (mc_mem M) (sy_env (mc_ext M)) n = (p, a, m, e)"
    using assms(2) by (auto simp: shared_alloc_def split: prod.splits)
  show ?thesis
    by (rule slab_alloc_cases [OF pools_okD(1) [OF assms(1)], of "sy_env (mc_ext M)" n]) (use sa in \<open>auto simp: user_at_def\<close>)
qed

text \<open>
  C29. \<open>SYS_ALLOC\<close>: a request of zero bytes is \<open>-EINVAL\<close>; a VM at its cap, or a request no bin can
  serve, is \<open>-ENOMEM\<close>, and in both cases nothing but \<open>a0\<close> and the failure count changes hands;
  otherwise \<open>a0\<close> names a fresh block of the shared slab that no VM held, it is tracked for the
  caller and for no one else, and the caller's own address translation takes the address to
  that block for all the bytes it asked for (requests within 8 bytes of 4 GB excepted, which
  the 64-bit slab truncates). No byte of a block live before is changed in either slab, and
  no other VM's CPU.
\<close>

theorem sys_alloc_contract:
  assumes "shared_inv M" and "vm_id (mc_cpus M cpu) < VM_SCHED_MAX_VMS" and "handle_alloc cpu M = M'"
  shows "shared_inv M' \<and> mc_sched M' = mc_sched M \<and> local_live M' = local_live M \<and>
    (\<forall>q. q \<noteq> cpu \<longrightarrow> mc_cpus M' q = mc_cpus M q) \<and>
    (\<forall>j. j \<noteq> vm_id (mc_cpus M cpu) \<longrightarrow> tracked M' j = tracked M j) \<and>
    (\<forall>q \<in> shared_live M. \<forall>x \<in> extent q (shared_size_of M q). mc_mem M' x = mc_mem M x) \<and>
    (\<forall>q \<in> local_live M. \<forall>x \<in> extent q (local_size_of M q). mc_mem M' x = mc_mem M x) \<and>
    (let sz = get_arg cpu VM_REG_A0 M; v = vm_id (mc_cpus M cpu); bin = size_to_bin (ucast sz) in
     if sz = 0 \<or> card (tracked M v) = VM_PER_VM_ALLOC_CAP \<or> bin \<ge> 16 \<or> btop (sy_shared (mc_ext M)) bin = 0
     then get_arg cpu VM_REG_A0 M' = (if sz = 0 then - VM_EINVAL else - VM_ENOMEM) \<and>
       tracked M' v = tracked M v \<and> shared_live M' = shared_live M
     else \<exists>p. get_arg cpu VM_REG_A0 M' = SHARED_GUEST_BASE + of_nat (p - yc_shared_storage (sy_config (mc_ext M))) \<and>
       p \<notin> shared_live M \<and> shared_live M' = insert p (shared_live M) \<and> tracked M' v = insert p (tracked M v) \<and>
       (unat sz + 8 < 2 ^ 32 \<longrightarrow> unat sz \<le> shared_size_of M' p \<and>
         (regions (mc_cpus M cpu) VM_REGION_SHARED = shared_region (sy_config (mc_ext M)) \<longrightarrow>
          unat (yc_shared_storage_size (sy_config (mc_ext M))) \<le> 2 ^ 29 \<longrightarrow>
          snd (vm_translate_write (mc_cpus M' cpu) (get_arg cpu VM_REG_A0 M') sz) = p)))"
proof -
  let ?v = "vm_id (mc_cpus M cpu)" and ?sz = "get_arg cpu VM_REG_A0 M"
  let ?P = "\<lambda>M'. shared_inv M' \<and> mc_sched M' = mc_sched M \<and> local_live M' = local_live M \<and>
    (\<forall>q. q \<noteq> cpu \<longrightarrow> mc_cpus M' q = mc_cpus M q) \<and>
    (\<forall>j. j \<noteq> ?v \<longrightarrow> tracked M' j = tracked M j) \<and>
    (\<forall>q \<in> shared_live M. \<forall>x \<in> extent q (shared_size_of M q). mc_mem M' x = mc_mem M x) \<and>
    (\<forall>q \<in> local_live M. \<forall>x \<in> extent q (local_size_of M q). mc_mem M' x = mc_mem M x)"
  show ?thesis
  proof (rule handle_alloc_cases [OF assms(1,2)])
    assume "?sz = 0" "handle_alloc cpu M = ret_a0 cpu (- VM_EINVAL) M"
    then show ?thesis using assms(1,3) by (auto simp: get_arg_def Let_def)
  next
    assume "?sz \<noteq> 0" "card (tracked M ?v) = VM_PER_VM_ALLOC_CAP" "handle_alloc cpu M = ret_a0 cpu (- VM_ENOMEM) M"
    then show ?thesis using assms(1,3) by (auto simp: get_arg_def Let_def)
  next
    fix M1
    assume a: "?sz \<noteq> 0" "card (tracked M ?v) < VM_PER_VM_ALLOC_CAP" "shared_alloc (ucast ?sz) M = (0, M1)"
      "handle_alloc cpu M = ret_a0 cpu (- VM_ENOMEM) M1"
    note c = shared_alloc_call [OF shared_invD(1) [OF assms(1)] a(3)]
    note f = pool_frame_fields [OF pool_callD(2) [OF c(1)]] and d = shared_alloc_decides [OF shared_invD(1) [OF assms(1)] a(3)]
    have "shared_inv M1" by (rule shared_inv_call [OF assms(1) c(1)]) simp
    then have "?P M'" "get_arg cpu VM_REG_A0 M' = - VM_ENOMEM" "tracked M' ?v = tracked M ?v" "shared_live M' = shared_live M"
      using a(4) assms(3) c(3) f pool_callD(3,4) [OF c(1)] by (auto simp: get_arg_def)
    then show ?thesis using a(1) d by (auto simp: Let_def unsigned_ucast_eq)
  next
    fix p M1 t
    assume a: "?sz \<noteq> 0" "card (tracked M ?v) < VM_PER_VM_ALLOC_CAP" "shared_alloc (ucast ?sz) M = (p, M1)" "p \<noteq> 0"
      "tracking_ok t" "blocks_of t = insert p (tracked M ?v)" "yc_shared_storage (sy_config (mc_ext M)) \<le> p"
      "p - yc_shared_storage (sy_config (mc_ext M)) < unat (yc_shared_storage_size (sy_config (mc_ext M)))"
      "handle_alloc cpu M = ret_a0 cpu (SHARED_GUEST_BASE + of_nat (p - yc_shared_storage (sy_config (mc_ext M))))
         (set_tracking ?v t M1)"
    note c = shared_alloc_call [OF shared_invD(1) [OF assms(1)] a(3)]
    note f = pool_frame_fields [OF pool_callD(2) [OF c(1)]] and d = shared_alloc_decides [OF shared_invD(1) [OF assms(1)] a(3)]
    note live = pool_callD(3,4) [OF c(1)] and keep = pool_callD(6,8) [OF c(1)]
    note inv = shared_invD(4-6) [OF assms(1)]
    have "shared_inv (set_tracking ?v t M1)"
    proof (rule shared_inv_step [OF assms(1) c(1) refl a(5)])
      show "blocks_of t \<subseteq> (if p = 0 then shared_live M else insert p (shared_live M))"
        using a(4,6) inv(2) [OF assms(2)] by auto
      show "tracked M j \<subseteq> (if p = 0 then shared_live M else insert p (shared_live M)) \<and> tracked M j \<inter> blocks_of t = {}"
        if "j < VM_SCHED_MAX_VMS" "j \<noteq> ?v" for j
        using a(4,6) c(2) inv(2) [OF that(1)] inv(3) [OF that(1) assms(2) that(2)] by auto
    qed
    then have P: "?P M'" using a(4,9) assms(3) f live keep by (auto simp del: in_extent)
    have M': "get_arg cpu VM_REG_A0 M' = SHARED_GUEST_BASE + of_nat (p - yc_shared_storage (sy_config (mc_ext M)))"
      "shared_live M' = insert p (shared_live M)" "tracked M' ?v = insert p (tracked M ?v)" "p \<notin> shared_live M"
      "shared_size_of M' = shared_size_of M1" "mc_cpus M' cpu = set_a0 (get_arg cpu VM_REG_A0 M') (mc_cpus M cpu)"
      using a(4,6,9) assms(3) c(2) live f(7) by (simp_all add: get_arg_def)
    have size: "unat ?sz \<le> shared_size_of M' p" if "unat ?sz + 8 < 2 ^ 32"
      using c(4) [OF a(4)] that M'(5) by (simp add: unat_ucast_u64)
    have tr: "snd (vm_translate_write (mc_cpus M' cpu) (get_arg cpu VM_REG_A0 M') ?sz) = p"
      if "unat ?sz + 8 < 2 ^ 32" "regions (mc_cpus M cpu) VM_REGION_SHARED = shared_region (sy_config (mc_ext M))"
        "unat (yc_shared_storage_size (sy_config (mc_ext M))) \<le> 2 ^ 29"
      using granted_translates [OF assms(1) a(3,4,7,1) that(1), of "mc_cpus M' cpu"] that(2,3) M'(1,6) by (simp add: set_a0_def)
    show ?thesis using P M'(1-4) size tr a(1,2,4) d by (auto simp: Let_def)
  qed
qed

section \<open>Release\<close>

lemma tracked_nonzero: "p \<in> blocks_of t \<Longrightarrow> p \<noteq> 0"
  by (simp add: blocks_of_def)

text \<open>A tracked block given up: untracked and freed, as \<open>handle_free\<close> and the unloading do it.\<close>

lemma shared_release:
  assumes inv: "shared_inv M" and v: "v < VM_SCHED_MAX_VMS" and p: "p \<in> tracked M v"
    and t: "tracking_ok t" "blocks_of t = tracked M v - {p}" and fr: "shared_free p (set_tracking v t M) = (r, M')"
  shows "r = SLAB_OK" "shared_inv M'" "shared_live M' = shared_live M - {p}" "local_live M' = local_live M"
    "sy_tracking (mc_ext M') = (sy_tracking (mc_ext M))(v := t)" "mc_sched M' = mc_sched M" "mc_cpus M' = mc_cpus M"
    "q \<in> shared_live M \<Longrightarrow> q \<noteq> p \<Longrightarrow> x \<in> extent q (shared_size_of M q) \<Longrightarrow> mc_mem M' x = mc_mem M x"
    "q \<in> local_live M \<Longrightarrow> x \<in> extent q (local_size_of M q) \<Longrightarrow> mc_mem M' x = mc_mem M x"
    "pool_call (set_tracking v t M) M' (shared_live M - {p}) (local_live M)"
proof -
  have inv1: "shared_inv (set_tracking v t M)"
  proof (rule shared_inv_step [OF inv pool_call_refl [OF shared_invD(1) [OF inv]] refl t(1)])
    show "blocks_of t \<subseteq> shared_live M" using t(2) shared_invD(5) [OF inv v] by blast
    show "tracked M j \<subseteq> shared_live M \<and> tracked M j \<inter> blocks_of t = {}" if "j < VM_SCHED_MAX_VMS" "j \<noteq> v" for j
      using shared_invD(5) [OF inv that(1)] shared_invD(6) [OF inv that(1) v that(2)] t(2) by blast
  qed
  have live: "p \<in> shared_live (set_tracking v t M)" using p shared_invD(5) [OF inv v] by auto
  note c = shared_free_call [OF shared_invD(1) [OF inv1] live fr]
  note d = pool_callD [OF c(2)] and f = pool_frame_fields [OF pool_callD(2) [OF c(2)]]
  show "r = SLAB_OK" by (rule c(1))
  have "M' = set_tracking v t M'" using f(4) set_tracking_same [of M' v t] by simp
  then show "shared_inv M'"
  proof (rule shared_inv_step [OF inv1 c(2) _ t(1)])
    show "blocks_of t \<subseteq> shared_live (set_tracking v t M) - {p}" using t(2) shared_invD(5) [OF inv v] by auto
    show "tracked (set_tracking v t M) j \<subseteq> shared_live (set_tracking v t M) - {p} \<and>
        tracked (set_tracking v t M) j \<inter> blocks_of t = {}" if "j < VM_SCHED_MAX_VMS" "j \<noteq> v" for j
    proof -
      have "tracked M j \<inter> tracked M v = {}" by (rule shared_invD(6) [OF inv that(1) v that(2)])
      then show ?thesis using shared_invD(5) [OF inv that(1)] that(2) t(2) p by auto
    qed
  qed
  show "shared_live M' = shared_live M - {p}" "local_live M' = local_live M"
    "sy_tracking (mc_ext M') = (sy_tracking (mc_ext M))(v := t)" "mc_sched M' = mc_sched M" "mc_cpus M' = mc_cpus M"
    using d(3,4) f by simp_all
  show "pool_call (set_tracking v t M) M' (shared_live M - {p}) (local_live M)" using c(2) by simp
  show "q \<in> shared_live M \<Longrightarrow> q \<noteq> p \<Longrightarrow> x \<in> extent q (shared_size_of M q) \<Longrightarrow> mc_mem M' x = mc_mem M x"
    "q \<in> local_live M \<Longrightarrow> x \<in> extent q (local_size_of M q) \<Longrightarrow> mc_mem M' x = mc_mem M x"
    using d(6,8) by (simp_all del: in_extent)
qed

lemma shared_base_pos: "shared_inv M \<Longrightarrow> 0 < yc_shared_storage (sy_config (mc_ext M))"
  using slab_inv_layout [OF pools_okD(1) [OF shared_invD(1)]] shared_invD(2) by (fastforce simp: slab_layout_def)

text \<open>
  C30. \<open>SYS_FREE\<close> succeeds exactly on the address of a block the calling VM holds: the block leaves the
  caller's set and the slab's live set, and no other VM's blocks or bytes change. Any other
  address (outside the shared window, not a block, already freed, or another VM's) is
  \<open>-EINVAL\<close> and changes nothing but \<open>a0\<close>.
\<close>

theorem sys_free_contract:
  assumes "shared_inv M" and "vm_id (mc_cpus M cpu) < VM_SCHED_MAX_VMS" and "handle_free cpu M = M'"
  shows "let g = get_arg cpu VM_REG_A0 M; v = vm_id (mc_cpus M cpu);
      p = yc_shared_storage (sy_config (mc_ext M)) + unat (g - SHARED_GUEST_BASE) in
    if addr_in_shared g \<and> p \<in> tracked M v
    then get_arg cpu VM_REG_A0 M' = 0 \<and> shared_inv M' \<and> shared_live M' = shared_live M - {p} \<and>
      tracked M' v = tracked M v - {p} \<and> (\<forall>j. j \<noteq> v \<longrightarrow> tracked M' j = tracked M j) \<and>
      local_live M' = local_live M \<and> mc_sched M' = mc_sched M \<and> (\<forall>q. q \<noteq> cpu \<longrightarrow> mc_cpus M' q = mc_cpus M q) \<and>
      (\<forall>q \<in> shared_live M - {p}. \<forall>x \<in> extent q (shared_size_of M q). mc_mem M' x = mc_mem M x)
    else M' = ret_a0 cpu (- VM_EINVAL) M"
proof -
  define g where "g = get_arg cpu VM_REG_A0 M"
  define v where "v = vm_id (mc_cpus M cpu)"
  define p where "p = yc_shared_storage (sy_config (mc_ext M)) + unat (g - SHARED_GUEST_BASE)"
  have v: "v < VM_SCHED_MAX_VMS" using assms(2) by (simp add: v_def)
  have nz: "p \<noteq> 0" using shared_base_pos [OF assms(1)] by (simp add: p_def)
  note u = untrack_alloc_result [OF shared_invD(4) [OF assms(1) v] v nz]
  have out: "\<not> ucast (g - SHARED_GUEST_BASE) \<ge> yc_shared_storage_size (sy_config (mc_ext M))" if "p \<in> tracked M v"
  proof -
    have "p \<in> shared_live M" using that shared_invD(5) [OF assms(1) v] by auto
    then obtain i b where ib: "i < 16" "b < bcount (sy_shared (mc_ext M)) i" "p = user_at (sy_shared (mc_ext M)) i b"
      by (rule slab_liveE)
    have "p < region (sy_shared (mc_ext M)) + region_bytes (sy_shared (mc_ext M))"
      using block_bounds(1,2) [OF slab_inv_layout [OF pools_okD(1) [OF shared_invD(1) [OF assms(1)]]] ib(1,2)]
        btotal_ge [of i] ib(3) by (simp add: user_at_def)
    then show ?thesis using shared_invD(2,3) [OF assms(1)] by (simp add: p_def word_le_nat_alt unat_ucast_u64)
  qed
  have "if addr_in_shared g \<and> p \<in> tracked M v
    then get_arg cpu VM_REG_A0 M' = 0 \<and> shared_inv M' \<and> shared_live M' = shared_live M - {p} \<and>
      tracked M' v = tracked M v - {p} \<and> (\<forall>j. j \<noteq> v \<longrightarrow> tracked M' j = tracked M j) \<and>
      local_live M' = local_live M \<and> mc_sched M' = mc_sched M \<and> (\<forall>q. q \<noteq> cpu \<longrightarrow> mc_cpus M' q = mc_cpus M q) \<and>
      (\<forall>q \<in> shared_live M - {p}. \<forall>x \<in> extent q (shared_size_of M q). mc_mem M' x = mc_mem M x)
    else M' = ret_a0 cpu (- VM_EINVAL) M"
  proof (cases "addr_in_shared g \<and> p \<in> tracked M v")
    case True
    then obtain t where t: "untrack_alloc M v p = (True, set_tracking v t M)" "tracking_ok t" "blocks_of t = tracked M v - {p}"
      using u(2) by blast
    obtain r M1 where fr: "shared_free p (set_tracking v t M) = (r, M1)" by (cases "shared_free p (set_tracking v t M)")
    have p: "p \<in> tracked M v" using True by simp
    note rel = shared_release [OF assms(1) v p t(2,3) fr]
    have "M' = ret_a0 cpu 0 M1"
      using assms(3) True out t(1) fr rel(1)
      by (simp add: handle_free_def Let_def g_def [symmetric] v_def [symmetric] p_def [symmetric])
    then show ?thesis using True rel(2-7) t(3) by (simp add: get_arg_def del: in_extent) (use rel(8) in blast)
  next
    case False
    then show ?thesis
      using assms(3) u(1) by (auto simp: handle_free_def Let_def g_def [symmetric] v_def [symmetric] p_def [symmetric])
  qed
  then show ?thesis unfolding Let_def g_def v_def p_def .
qed

section \<open>Reclaiming at unload\<close>

lemma blocks_of_cleared:
  assumes "tracking_ok t" "i < VM_PER_VM_ALLOC_CAP" "at_blocks t ! i \<noteq> 0"
  shows "blocks_of (t\<lparr>at_blocks := (at_blocks t)[i := 0]\<rparr>) = blocks_of t - {at_blocks t ! i}"
  using empty_slot(2) [OF assms] by (simp add: blocks_of_def)

text \<open>
  During the loop the count lags behind the list; the invariant is that of a machine whose count
  is right.
\<close>

definition recount :: "VmAllocTracking \<Rightarrow> VmAllocTracking" where
  "recount t = t\<lparr>at_count := of_nat (length (filter (\<lambda>p. p \<noteq> 0) (at_blocks t)))\<rparr>"

definition counted :: "u16 \<Rightarrow> 'e sysm \<Rightarrow> 'e sysm" where
  "counted v M = set_tracking v (recount (sy_tracking (mc_ext M) v)) M"

lemma recount_simps [simp]:
  "at_blocks (recount t) = at_blocks t" "blocks_of (recount t) = blocks_of t" "recount (t\<lparr>at_count := c\<rparr>) = recount t"
  by (simp_all add: recount_def blocks_of_def)

lemma recount_same:
  assumes "tracking_ok t" shows "recount t = t"
proof -
  have "length (filter (\<lambda>p. p \<noteq> 0) (at_blocks t)) = unat (at_count t)" using assms by (simp add: tracking_ok_def)
  then show ?thesis by (simp add: recount_def)
qed

lemma recount_ok:
  assumes "length (at_blocks t) = VM_PER_VM_ALLOC_CAP" "distinct (filter (\<lambda>p. p \<noteq> 0) (at_blocks t))"
  shows "tracking_ok (recount t)"
proof -
  have "length (filter (\<lambda>p. p \<noteq> 0) (at_blocks t)) \<le> 32" using length_filter_le assms(1) by metis
  then show ?thesis using assms by (simp add: tracking_ok_def recount_def unat_of_nat)
qed

lemma shared_free_tracking:
  "shared_free p (set_tracking v t M) = (fst (shared_free p M), set_tracking v t (snd (shared_free p M)))"
  by (simp add: shared_free_def set_tracking_def upd_sys_def split: prod.splits)

lemma set_tracking_twice [simp]: "set_tracking v t (set_tracking v u M) = set_tracking v t M"
  by (simp add: set_tracking_def upd_sys_def)

text \<open>One round of the loop, on the machine with its count made right.\<close>

lemma free_tracked_step:
  assumes inv: "shared_inv (counted v M)" and v: "v < VM_SCHED_MAX_VMS" and i: "i < VM_PER_VM_ALLOC_CAP"
  defines "p \<equiv> at_blocks (sy_tracking (mc_ext M) v) ! i" and "M' \<equiv> free_tracked v i M"
  shows "shared_inv (counted v M')"
    "pool_call (set_tracking v t M) (set_tracking v t M') (shared_live M - {p}) (local_live M)"
    "sy_tracking (mc_ext M') = (sy_tracking (mc_ext M))(v := (sy_tracking (mc_ext M) v)\<lparr>at_blocks :=
       (at_blocks (sy_tracking (mc_ext M) v))[i := 0]\<rparr>)"
proof -
  let ?t = "sy_tracking (mc_ext M) v"
  have ok: "tracking_ok (recount ?t)" using shared_invD(4) [OF inv v] by (simp add: counted_def)
  have pools: "pools_ok (set_tracking v t M)" for t
    using shared_invD(1) [OF inv] by (simp add: counted_def pools_ok_def shared_extent_def local_extent_def)
  show "shared_inv (counted v M')"
    "pool_call (set_tracking v t M) (set_tracking v t M') (shared_live M - {p}) (local_live M)"
    "sy_tracking (mc_ext M') = (sy_tracking (mc_ext M))(v := ?t\<lparr>at_blocks := (at_blocks ?t)[i := 0]\<rparr>)"
  proof -
    let ?goal = "shared_inv (counted v M') \<and>
      pool_call (set_tracking v t M) (set_tracking v t M') (shared_live M - {p}) (local_live M) \<and>
      sy_tracking (mc_ext M') = (sy_tracking (mc_ext M))(v := ?t\<lparr>at_blocks := (at_blocks ?t)[i := 0]\<rparr>)"
    have ?goal
    proof (cases "p = 0")
      case True
      have "0 \<notin> shared_live M" using live_nonzero by fastforce
      moreover have "(at_blocks ?t)[i := 0] = at_blocks ?t" using True list_update_id [of "at_blocks ?t" i] by (simp add: p_def)
      moreover have "M' = M" using True by (simp add: M'_def free_tracked_def p_def [symmetric] Let_def)
      ultimately show ?thesis using inv True pool_call_refl [OF pools [of t]] by simp
    next
      case False
      let ?t' = "?t\<lparr>at_blocks := (at_blocks ?t)[i := 0]\<rparr>"
      obtain r M1 where fr: "shared_free p M = (r, M1)" by (cases "shared_free p M")
      have trk: "sy_tracking (mc_ext M1) = sy_tracking (mc_ext M)"
        using fr by (auto simp: shared_free_def split: prod.splits)
      have M': "M' = set_tracking v ?t' M1"
        using False fr trk by (simp add: M'_def free_tracked_def p_def [symmetric] Let_def)
      have blocks: "blocks_of ?t' = tracked M v - {p}"
        using blocks_of_cleared [OF ok i] False by (simp add: p_def blocks_of_def)
      have ok': "tracking_ok (recount ?t')"
        using empty_slot(1) [OF ok i] False by (intro recount_ok) (simp_all add: tracking_ok_def p_def)
      have len: "length (at_blocks ?t) = 32" using ok by (simp add: tracking_ok_def)
      have p: "p \<in> tracked (counted v M) v"
        using False i len by (auto simp: counted_def blocks_of_def p_def)
      have fr': "shared_free p (set_tracking v u (counted v M)) = (r, set_tracking v u M1)" for u
        using fr by (simp add: counted_def shared_free_tracking)
      have rel: "shared_inv (set_tracking v (recount ?t') M1)"
        by (rule shared_release(2) [OF inv v p ok' _ fr']) (simp add: blocks counted_def)
      have "p \<in> shared_live (set_tracking v t M)" using p shared_invD(5) [OF inv v] by (auto simp: counted_def)
      from shared_free_call(2) [OF pools this, of r "set_tracking v t M1"]
      have "pool_call (set_tracking v t M) (set_tracking v t M1) (shared_live M - {p}) (local_live M)"
        using fr by (simp add: shared_free_tracking)
      then show ?thesis using rel M' trk by (simp add: counted_def)
    qed
    then show "shared_inv (counted v M')"
      "pool_call (set_tracking v t M) (set_tracking v t M') (shared_live M - {p}) (local_live M)"
      "sy_tracking (mc_ext M') = (sy_tracking (mc_ext M))(v := ?t\<lparr>at_blocks := (at_blocks ?t)[i := 0]\<rparr>)" by blast+
  qed
qed

lemma free_tracked_loop:
  assumes inv: "shared_inv (counted v M)" and v: "v < VM_SCHED_MAX_VMS" and n: "n \<le> VM_PER_VM_ALLOC_CAP"
  defines "bs \<equiv> at_blocks (sy_tracking (mc_ext M) v)" and "M' \<equiv> fold (free_tracked v) [0..<n] M"
  shows "shared_inv (counted v M')"
    "pool_call (set_tracking v t M) (set_tracking v t M') (shared_live M - set (take n bs)) (local_live M)"
    "sy_tracking (mc_ext M') = (sy_tracking (mc_ext M))(v := (sy_tracking (mc_ext M) v)\<lparr>at_blocks := replicate n 0 @ drop n bs\<rparr>)"
proof -
  have len: "length bs = 32" using shared_invD(4) [OF inv v] by (simp add: counted_def bs_def tracking_ok_def)
  have "shared_inv (counted v (fold (free_tracked v) [0..<n] M)) \<and>
    pool_call (set_tracking v t M) (set_tracking v t (fold (free_tracked v) [0..<n] M)) (shared_live M - set (take n bs)) (local_live M) \<and>
    sy_tracking (mc_ext (fold (free_tracked v) [0..<n] M)) =
      (sy_tracking (mc_ext M))(v := (sy_tracking (mc_ext M) v)\<lparr>at_blocks := replicate n 0 @ drop n bs\<rparr>)"
    using n
  proof (induction n)
    case 0
    have "pools_ok (set_tracking v t M)"
      using shared_invD(1) [OF inv] by (simp add: counted_def pools_ok_def shared_extent_def local_extent_def)
    from pool_call_refl [OF this] show ?case using inv by (simp add: bs_def)
  next
    case (Suc n)
    let ?Mn = "fold (free_tracked v) [0..<n] M"
    have n: "n < 32" using Suc.prems by simp
    have ih: "shared_inv (counted v ?Mn)"
      "pool_call (set_tracking v t M) (set_tracking v t ?Mn) (shared_live M - set (take n bs)) (local_live M)"
      "sy_tracking (mc_ext ?Mn) = (sy_tracking (mc_ext M))(v := (sy_tracking (mc_ext M) v)\<lparr>at_blocks := replicate n 0 @ drop n bs\<rparr>)"
      using Suc.IH [OF less_imp_le [OF n]] by blast+
    note st = free_tracked_step [OF ih(1) v n]
    have b: "at_blocks (sy_tracking (mc_ext ?Mn) v) ! n = bs ! n" using ih(3) n len by (simp add: nth_append)
    have up: "(replicate n 0 @ drop n bs)[n := 0] = replicate (Suc n) 0 @ drop (Suc n) bs"
      using n len by (simp add: list_update_append Cons_nth_drop_Suc [symmetric] replicate_append_same [symmetric])
    have tk: "take (Suc n) bs = take n bs @ [bs ! n]" using n len by (simp add: take_Suc_conv_app_nth)
    have "pool_call (set_tracking v t M) (set_tracking v t (free_tracked v n ?Mn))
        (shared_live (set_tracking v t ?Mn) - {bs ! n}) (local_live (set_tracking v t ?Mn))"
      by (rule pool_call_trans [OF ih(2)]) (use st(2) b pool_callD(3,4) [OF ih(2)] in \<open>auto simp del: in_extent\<close>)
    moreover have "shared_live (set_tracking v t ?Mn) - {bs ! n} = shared_live M - set (take (Suc n) bs)"
      using pool_callD(3) [OF ih(2)] tk by auto
    ultimately show ?case
      using st(1,3) ih(3) up pool_callD(4) [OF ih(2)] by (simp del: replicate.simps)
  qed
  then show "shared_inv (counted v M')"
    "pool_call (set_tracking v t M) (set_tracking v t M') (shared_live M - set (take n bs)) (local_live M)"
    "sy_tracking (mc_ext M') = (sy_tracking (mc_ext M))(v := (sy_tracking (mc_ext M) v)\<lparr>at_blocks := replicate n 0 @ drop n bs\<rparr>)"
    by (simp_all add: M'_def)
qed

lemma counted_same: "tracking_ok (sy_tracking (mc_ext M) v) \<Longrightarrow> counted v M = M"
  by (simp add: counted_def recount_same set_tracking_same)

lemma free_all_tracked_result:
  assumes inv: "shared_inv M" and v: "v < VM_SCHED_MAX_VMS" and M': "M' = free_all_tracked v M"
  shows "shared_inv M'" "pool_call (set_tracking v t M) (set_tracking v t M') (shared_live M - tracked M v) (local_live M)"
    "sy_tracking (mc_ext M') = (sy_tracking (mc_ext M))(v := zero_tracking)"
proof -
  have ok: "tracking_ok (sy_tracking (mc_ext M) v)" by (rule shared_invD(4) [OF inv v])
  let ?bs = "at_blocks (sy_tracking (mc_ext M) v)"
  have len: "length ?bs = 32" using ok by (simp add: tracking_ok_def)
  have "shared_inv M' \<and> pool_call (set_tracking v t M) (set_tracking v t M') (shared_live M - tracked M v) (local_live M) \<and>
    sy_tracking (mc_ext M') = (sy_tracking (mc_ext M))(v := zero_tracking)"
  proof (cases "at_count (sy_tracking (mc_ext M) v) = 0")
    case True
    then have "filter (\<lambda>p. p \<noteq> 0) ?bs = []" using ok by (simp add: tracking_ok_def)
    then have "\<forall>p \<in> set ?bs. p = 0" and tr: "tracked M v = {}" by (auto simp: filter_empty_conv blocks_of_def)
    then have "?bs = replicate 32 0" using len by (simp add: replicate_eqI)
    then have "sy_tracking (mc_ext M) v = zero_tracking" using True by (simp add: zero_tracking_def)
    moreover have "pools_ok (set_tracking v t M)"
      using shared_invD(1) [OF inv] by (simp add: pools_ok_def shared_extent_def local_extent_def)
    ultimately show ?thesis using inv True tr pool_call_refl [of "set_tracking v t M"]
      by (simp add: M' free_all_tracked_def fun_upd_idem)
  next
    case False
    let ?L = "fold (free_tracked v) [0..<32] M"
    have c: "shared_inv (counted v M)" using inv ok by (simp add: counted_same)
    note lp = free_tracked_loop [OF c v order_refl]
    have z: "(sy_tracking (mc_ext ?L) v)\<lparr>at_count := 0\<rparr> = zero_tracking"
      using lp(3) len by (simp add: zero_tracking_def)
    have "recount (sy_tracking (mc_ext ?L) v) = zero_tracking"
      using lp(3) len by (simp add: recount_def zero_tracking_def)
    then have "shared_inv (set_tracking v zero_tracking ?L)" using lp(1) by (simp add: counted_def)
    moreover have "M' = set_tracking v zero_tracking ?L"
      using False z by (simp add: M' free_all_tracked_def word_gt_0 Let_def)
    moreover have "shared_live M - set (take 32 ?bs) = shared_live M - tracked M v"
      using len live_nonzero by (fastforce simp: blocks_of_def)
    ultimately show ?thesis using lp(2) [of t] lp(3) by simp
  qed
  then show "shared_inv M'" "pool_call (set_tracking v t M) (set_tracking v t M') (shared_live M - tracked M v) (local_live M)"
    "sy_tracking (mc_ext M') = (sy_tracking (mc_ext M))(v := zero_tracking)" by blast+
qed

end
