(* ===== verification/VM_System_Time.thy ===== *)
theory VM_System_Time
  imports VM_System_Mem VM_Sched_Policy
begin

text \<open>
  The time syscalls together with the scheduler's wake-up decision: sleeping, absolute deadlines and
  the periodic reload, on a 32-bit clock that wraps.
\<close>

section \<open>The catch-up loop\<close>

text \<open>\<open>lag\<close> is how far the clock is past the boundary, \<open>None\<close> when the boundary is still to come.\<close>

definition lag :: "u32 \<Rightarrow> u32 \<Rightarrow> nat option" where
  "lag now d = (if tick_reached now d then Some (unat (now - d)) else None)"

lemma lag_step:
  assumes p: "0 < unat p" "unat p < 2 ^ 31" and l: "lag now d = Some l"
  shows "lag now (d + p) = (if unat p \<le> l then Some (l - unat p) else None)"
proof -
  have l2: "l < 2 ^ 31" "unat (now - d) = l" using l by (auto simp: lag_def tick_reached_def sint_nonneg_u32 split: if_splits)
  have e: "now - (d + p) = (now - d) - p" by simp
  have "unat (now - (d + p)) = (if unat p \<le> l then l - unat p else l + 2 ^ 32 - unat p)"
    unfolding e using l2 by (simp add: unat_sub_if')
  then show ?thesis using p l2 by (auto simp: lag_def tick_reached_def sint_nonneg_u32)
qed

lemma advance_reload_result:
  assumes p: "0 < unat p" "unat p < 2 ^ 31"
  shows "advance_reload now p n d = d + of_nat (case lag now d of None \<Rightarrow> 0 | Some l \<Rightarrow> min n (l div unat p + 1)) * p"
proof (induction n arbitrary: d)
  case 0
  then show ?case by (simp split: option.splits)
next
  case (Suc n)
  show ?case
  proof (cases "lag now d")
    case None
    then show ?thesis by (simp add: lag_def tick_reached_def split: if_splits)
  next
    case (Some l)
    then have r: "0 \<le> sint (now - d)" by (simp add: lag_def tick_reached_def split: if_splits)
    note st = lag_step [OF p Some]
    have "min (Suc n) (l div unat p + 1) = Suc (case lag now (d + p) of None \<Rightarrow> 0 | Some l \<Rightarrow> min n (l div unat p + 1))"
    proof (cases "unat p \<le> l")
      case True
      then have "l div unat p = Suc ((l - unat p) div unat p)" using p(1) by (simp add: le_div_geq)
      then show ?thesis using True st by simp
    qed (use st in simp)
    then show ?thesis using Suc.IH [of "d + p"] r Some by (simp add: algebra_simps)
  qed
qed

section \<open>Blocking and waking\<close>

text \<open>What the machine's CPU decides at a later tick.\<close>

definition decides :: "'x machine \<Rightarrow> hptr \<Rightarrow> u32 \<Rightarrow> wake_decision" where
  "decides M cpu now = wake_decision_of now (mc_cpus M cpu)"

text \<open>
  C33. The sleeping syscalls against the wake-up pass, for spans below \<open>2^31\<close>: after \<open>SYS_SLEEP_TICKS\<close>
  with \<open>n > 0\<close> at tick \<open>t\<close>, or \<open>SYS_SLEEP_UNTIL\<close> a deadline \<open>n\<close> ticks ahead, the VM is woken with
  \<open>a0 = 0\<close> by the first pass at which \<open>n\<close> or more ticks have gone by and by none before, the pass
  counting exactly the ticks left, across the wrap of the clock. With \<open>n = 0\<close>, or a deadline
  already reached, the call is a yield: it is due at every tick.
\<close>

theorem sys_sleep_exact:
  fixes ops :: "'e sysm VmSchedOps" and M :: "'e sysm" and e :: u32
  assumes "unat e < 2 ^ 31" and "n = get_arg cpu VM_REG_A0 M"
  shows "(if n = 0 then decides (handle_sleep_ticks ops cpu M) cpu (op_now ops M + e) = Wake 0
     else unat n < 2 ^ 31 \<longrightarrow> decides (handle_sleep_ticks ops cpu M) cpu (op_now ops M + e) =
       (if unat n \<le> unat e then Wake 0 else Wait (Some (of_nat (unat n - unat e))))) \<and>
    (if tick_reached (op_now ops M) n then decides (handle_sleep_until ops cpu M) cpu (op_now ops M + e) = Wake 0
     else unat (n - op_now ops M) < 2 ^ 31 \<longrightarrow> decides (handle_sleep_until ops cpu M) cpu (op_now ops M + e) =
       (if unat (n - op_now ops M) \<le> unat e then Wake 0
        else Wait (Some (of_nat (unat (n - op_now ops M) - unat e)))))"
proof -
  let ?t = "op_now ops M"
  have ticks: "decides (handle_sleep_ticks ops cpu M) cpu (?t + e) =
      (if unat n \<le> unat e then Wake 0 else Wait (Some (of_nat (unat n - unat e))))" if "n \<noteq> 0" "unat n < 2 ^ 31"
    using sleep_on_time [OF _ _ that(2) assms(1), of "mc_cpus (handle_sleep_ticks ops cpu M) cpu" ?t] that(1) assms(2)
    by (simp add: decides_def handle_sleep_ticks_def Let_def)
  have until: "decides (handle_sleep_until ops cpu M) cpu (?t + e) =
      (if unat (n - ?t) \<le> unat e then Wake 0 else Wait (Some (of_nat (unat (n - ?t) - unat e))))"
    if "\<not> tick_reached ?t n" "unat (n - ?t) < 2 ^ 31"
    using sleep_on_time [OF _ _ that(2) assms(1), of "mc_cpus (handle_sleep_until ops cpu M) cpu" ?t] that(1) assms(2)
    by (simp add: decides_def handle_sleep_until_def Let_def tick_reached_def)
  show ?thesis using ticks until assms(2)
    by (auto simp: decides_def handle_sleep_ticks_def handle_sleep_until_def Let_def tick_reached_def wake_decision_of_def)
qed

theorem sys_sleep_exact_witness:
  "decides (handle_sleep_ticks (coop_ops (zero_config :: unit VmSystem VmSchedConfig)) 8
      \<lparr>mc_sched = zero_sched\<lparr>global_tick := 0xFFFFFFFE\<rparr>, mc_cpus = (\<lambda>_. zero_cpu\<lparr>regs := (\<lambda>_. 5)\<rparr>),
       mc_mem = (\<lambda>_. 0), mc_ext = zero_system ()\<rparr>) 8 (0xFFFFFFFE + 3) = Wait (Some 2)"
  using sys_sleep_exact [of 3 5 8 "\<lparr>mc_sched = zero_sched\<lparr>global_tick := 0xFFFFFFFE\<rparr>, mc_cpus = (\<lambda>_. zero_cpu\<lparr>regs := (\<lambda>_. 5)\<rparr>),
       mc_mem = (\<lambda>_. 0), mc_ext = zero_system ()\<rparr>" "coop_ops (zero_config :: unit VmSystem VmSchedConfig)"]
  by (simp add: get_arg_def zero_sched_def)

section \<open>The periodic reload\<close>

lemma unat_neg_u32: "unat (- w) = (if w = 0 then 0 else 2 ^ 32 - unat w)" for w :: u32
  using unat_sub_if' [of 0 w] by (auto simp: unat_eq_zero)

text \<open>
  C34. The periodic reload keeps its phase. With a period \<open>p\<close> set and the next boundary at \<open>d\<close>,
  \<open>SYS_YIELD_UNTIL_RELOAD\<close> blocks until \<open>d + k * p\<close> and leaves the boundary after that as the next:
  \<open>k = 0\<close> while \<open>d\<close> is still ahead, and otherwise, the clock being \<open>l\<close> ticks past \<open>d\<close>, the number of
  boundaries missed, \<open>l div p + 1\<close>, but never more than 1024. So with fewer than 1024 periods
  missed the wake-up is at the first boundary after now, at most a period away; with more
  missed the block is already due, and the VM runs again at once. Without a period the call is a yield.
\<close>

theorem reload_keeps_phase:
  fixes ops :: "'e sysm VmSchedOps" and M :: "'e sysm"
  assumes "c = mc_cpus M cpu" and "unat (reload_period c) < 2 ^ 31"
    and "c' = mc_cpus (handle_yield_until_reload ops cpu M) cpu"
  defines "p \<equiv> unat (reload_period c)" and "d \<equiv> reload_next_deadline c" and "now \<equiv> op_now ops M"
  shows "if p = 0 then block_reason c' = BLOCK_YIELDED \<and> regs c' VM_REG_A0 = 0
    else
      let k = (if tick_reached now d then min 1024 (unat (now - d) div p + 1) else 0) in
      block_reason c' = BLOCK_SLEEP \<and> block_deadline c' = d + of_nat k * reload_period c \<and>
      reload_next_deadline c' = block_deadline c' + reload_period c \<and> reload_period c' = reload_period c \<and>
      (if tick_reached now d \<and> unat (now - d) div p < 1024
       then \<not> tick_reached now (block_deadline c') \<and> unat (block_deadline c' - now) = p - unat (now - d) mod p
       else tick_reached now (block_deadline c') = tick_reached now d)"
proof (cases "p = 0")
  case True
  then have "reload_period c = 0" by (simp add: p_def unat_eq_zero)
  then show ?thesis using True assms(1,3) by (simp add: handle_yield_until_reload_def set_a0_def)
next
  case False
  have nz: "reload_period c \<noteq> 0" using False by (auto simp: p_def)
  have p: "0 < unat (reload_period c)" "unat (reload_period c) < 2 ^ 31" using False assms(2) by (simp_all add: p_def)
  define k where "k = (if tick_reached now d then min 1024 (unat (now - d) div p + 1) else 0)"
  have adv: "advance_reload now (reload_period c) n d =
      d + of_nat (if tick_reached now d then min n (unat (now - d) div p + 1) else 0) * reload_period c" for n
    using advance_reload_result [OF p, of now n d] by (simp add: lag_def p_def)
  have c': "block_reason c' = BLOCK_SLEEP" "block_deadline c' = d + of_nat k * reload_period c"
    "reload_next_deadline c' = block_deadline c' + reload_period c" "reload_period c' = reload_period c"
    using nz assms(1,3) adv [of 1024] by (simp_all add: handle_yield_until_reload_def Let_def d_def now_def k_def)
  have due: "if tick_reached now d \<and> unat (now - d) div p < 1024
     then \<not> tick_reached now (block_deadline c') \<and> unat (block_deadline c' - now) = p - unat (now - d) mod p
     else tick_reached now (block_deadline c') = tick_reached now d"
  proof (cases "tick_reached now d")
    case False
    then show ?thesis using c'(2) by (simp add: k_def)
  next
    case True
    define l where "l = unat (now - d)"
    have l: "l < 2 ^ 31" using True by (simp add: l_def tick_reached_def sint_nonneg_u32)
    have kp: "unat (of_nat k * reload_period c) = k * p" if "k * p < 2 ^ 32"
    proof -
      have "of_nat k * reload_period c = (of_nat (k * p) :: u32)" by (simp add: p_def)
      then show ?thesis using that by (simp add: unat_of_nat take_bit_nat_eq_self del: of_nat_mult)
    qed
    show ?thesis
    proof (cases "l div p < 1024")
      case small: True
      then have k: "k = l div p + 1" using True by (simp add: k_def l_def)
      have le: "l = l div p * p + l mod p" "l mod p < p" using False by simp_all
      have "k * p = l div p * p + p" using k by simp
      then have kpe: "k * p = l + (p - l mod p)" using le by linarith
      have b: "0 < p - l mod p" "p - l mod p < 2 ^ 31" using le(2) p by (simp_all add: p_def)
      have kw: "unat (of_nat k * reload_period c) = l + (p - l mod p)" using kp kpe b l by simp
      have "block_deadline c' - now = of_nat k * reload_period c - (now - d)" using c'(2) by simp
      also have "unat \<dots> = p - l mod p" by (subst unat_sub_if', unfold kw l_def [symmetric], simp)
      finally have dist: "unat (block_deadline c' - now) = p - l mod p" .
      have "unat (- (block_deadline c' - now)) = 2 ^ 32 - (p - l mod p)"
        using b by (subst unat_neg_u32) (use dist in auto)
      then have "unat (now - block_deadline c') = 2 ^ 32 - (p - l mod p)" by simp
      then have "\<not> tick_reached now (block_deadline c')" using b by (simp add: tick_reached_def sint_nonneg_u32)
      then show ?thesis using dist True small by (simp add: l_def)
    next
      case large: False
      then have k: "k = 1024" using True by (simp add: k_def l_def)
      have "1024 * p \<le> l div p * p" using large by (intro mult_le_mono1) simp
      then have "1024 * p \<le> l" using le_trans div_times_less_eq_dividend by blast
      then have kw: "unat (of_nat k * reload_period c) = 1024 * p" "1024 * p \<le> l" using kp k l by simp_all
      have "now - block_deadline c' = (now - d) - of_nat k * reload_period c" using c'(2) by simp
      also have "unat \<dots> = l - 1024 * p" by (subst unat_sub_if', unfold kw(1) l_def [symmetric], simp add: kw(2))
      finally have "unat (now - block_deadline c') = l - 1024 * p" .
      then have "tick_reached now (block_deadline c')" using l by (simp add: tick_reached_def sint_nonneg_u32)
      then show ?thesis using True large by (simp add: l_def)
    qed
  qed
  show ?thesis using False c' due by (simp add: k_def Let_def)
qed

theorem reload_keeps_phase_witness:
  "block_deadline (mc_cpus (handle_yield_until_reload (coop_ops (zero_config :: unit VmSystem VmSchedConfig)) 8
      \<lparr>mc_sched = zero_sched\<lparr>global_tick := 5\<rparr>,
       mc_cpus = (\<lambda>_. zero_cpu\<lparr>reload_period := 10, reload_next_deadline := 0xFFFFFFE0\<rparr>),
       mc_mem = (\<lambda>_. 0), mc_ext = zero_system ()\<rparr>) 8) = 8"
  using reload_keeps_phase [OF refl _ refl, of "\<lparr>mc_sched = zero_sched\<lparr>global_tick := 5\<rparr>,
       mc_cpus = (\<lambda>_. zero_cpu\<lparr>reload_period := 10, reload_next_deadline := 0xFFFFFFE0\<rparr>),
       mc_mem = (\<lambda>_. 0), mc_ext = zero_system ()\<rparr>" 8 "coop_ops (zero_config :: unit VmSystem VmSchedConfig)"]
  by (simp add: zero_sched_def Let_def tick_reached_def)

end
