(* ===== verification/VM_System_Own.thy ===== *)
theory VM_System_Own
  imports VM_System_Mem VM_Sched_Step
begin

text \<open>
  Who owns what: every loaded VM owns a CPU block, a mailbox block and the blocks its regions point at
  in the local slab, and the blocks tracked for it in the shared one. The invariant says that
  no two VMs own the same block; unloading gives back exactly what the VM owned.
\<close>

section \<open>Steps on the pools\<close>

text \<open>The pools' part of \<open>pool_call\<close>, which does not look at the rest of the machine.\<close>

definition pool_step :: "'e sysm \<Rightarrow> 'e sysm \<Rightarrow> hptr set \<Rightarrow> hptr set \<Rightarrow> bool" where
  "pool_step M M' S L \<longleftrightarrow> pools_ok M' \<and> shared_live M' = S \<and> local_live M' = L \<and>
     kept_blocks shared_live shared_size_of M M' \<and> kept_blocks local_live local_size_of M M' \<and>
     region (sy_shared (mc_ext M')) = region (sy_shared (mc_ext M)) \<and>
     region_bytes (sy_shared (mc_ext M')) = region_bytes (sy_shared (mc_ext M)) \<and>
     region (sy_local (mc_ext M')) = region (sy_local (mc_ext M)) \<and>
     region_bytes (sy_local (mc_ext M')) = region_bytes (sy_local (mc_ext M)) \<and>
     (\<forall>x. x \<notin> shared_extent M \<longrightarrow> x \<notin> local_extent M \<longrightarrow> mc_mem M' x = mc_mem M x)"

definition same_pools :: "'e sysm \<Rightarrow> 'e sysm \<Rightarrow> bool" where
  "same_pools M M' \<longleftrightarrow> sy_shared (mc_ext M') = sy_shared (mc_ext M) \<and>
     sy_local (mc_ext M') = sy_local (mc_ext M) \<and> mc_mem M' = mc_mem M"

lemma pools_ok_cong: "same_pools M M' \<Longrightarrow> pools_ok M' = pools_ok M"
  by (simp add: same_pools_def pools_ok_def shared_extent_def local_extent_def)

lemma pool_step_cong: "same_pools M M1 \<Longrightarrow> same_pools M' M1' \<Longrightarrow> pool_step M1 M1' S L = pool_step M M' S L"
  by (simp add: same_pools_def pool_step_def kept_blocks_def pools_ok_def shared_extent_def local_extent_def)

lemma pool_step_call: "pool_call M M' S L \<Longrightarrow> pool_step M M' S L"
  by (simp add: pool_call_def pool_step_def pool_frame_def)

lemma pool_step_refl: "pools_ok M \<Longrightarrow> same_pools M M' \<Longrightarrow> pool_step M M' (shared_live M) (local_live M)"
  by (simp add: same_pools_def pool_step_def kept_blocks_def pools_ok_def shared_extent_def local_extent_def)

lemma pool_stepD:
  assumes "pool_step M M' S L"
  shows "pools_ok M'" "shared_live M' = S" "local_live M' = L"
    "region (sy_shared (mc_ext M')) = region (sy_shared (mc_ext M))"
    "region_bytes (sy_shared (mc_ext M')) = region_bytes (sy_shared (mc_ext M))"
    "region (sy_local (mc_ext M')) = region (sy_local (mc_ext M))"
    "region_bytes (sy_local (mc_ext M')) = region_bytes (sy_local (mc_ext M))"
    "shared_extent M' = shared_extent M" "local_extent M' = local_extent M" "foreign M' p = foreign M p"
    "q \<in> shared_live M \<Longrightarrow> q \<in> S \<Longrightarrow> x \<in> extent q (shared_size_of M q) \<Longrightarrow> mc_mem M' x = mc_mem M x"
    "q \<in> local_live M \<Longrightarrow> q \<in> L \<Longrightarrow> x \<in> extent q (local_size_of M q) \<Longrightarrow> mc_mem M' x = mc_mem M x"
    "q \<in> local_live M \<Longrightarrow> q \<in> L \<Longrightarrow> local_size_of M' q = local_size_of M q"
  using assms
  by (auto simp: pool_step_def kept_blocks_def shared_extent_def local_extent_def foreign_def simp del: in_extent)

lemma pool_step_trans:
  assumes a: "pool_step M M1 S1 L1" and b: "pool_step M1 M2 S2 L2" and sub: "S2 \<subseteq> S1" "L2 \<subseteq> L1"
  shows "pool_step M M2 S2 L2"
proof -
  have "kept_blocks shared_live shared_size_of M M2" "kept_blocks local_live local_size_of M M2"
    using a b sub unfolding kept_blocks_def pool_step_def by (auto simp del: in_extent)
  then show ?thesis
    using a b pool_stepD(8,9) [OF a] unfolding pool_step_def by (auto simp del: in_extent)
qed

text \<open>What the pool calls leave alone, as rewrite rules.\<close>

lemma local_free_simps [simp]:
  "mc_sched (snd (local_free p M)) = mc_sched M" "mc_cpus (snd (local_free p M)) = mc_cpus M"
  "sy_config (mc_ext (snd (local_free p M))) = sy_config (mc_ext M)"
  "sy_vms (mc_ext (snd (local_free p M))) = sy_vms (mc_ext M)"
  "sy_mailboxes (mc_ext (snd (local_free p M))) = sy_mailboxes (mc_ext M)"
  "sy_tracking (mc_ext (snd (local_free p M))) = sy_tracking (mc_ext M)"
  "sy_hooks (mc_ext (snd (local_free p M))) = sy_hooks (mc_ext M)"
  by (simp_all add: local_free_def split: prod.splits)

lemma same_pools_updates [simp]:
  "same_pools M M" "same_pools M (upd_cpu p f M)" "same_pools M (set_tracking i t M)" "same_pools M (set_vm i q M)"
  "same_pools M (set_mailbox i m M)" "same_pools M (vm_sched_unregister M i)" "same_pools M (upd_sched g M)"
  by (simp_all add: same_pools_def set_vm_def set_mailbox_def vm_sched_unregister_def)

lemma pool_step_right [simp]:
  "pool_step M (upd_cpu p f M') S L = pool_step M M' S L" "pool_step M (set_tracking i t M') S L = pool_step M M' S L"
  "pool_step M (set_vm i q M') S L = pool_step M M' S L" "pool_step M (set_mailbox i m M') S L = pool_step M M' S L"
  "pool_step M (vm_sched_unregister M' i) S L = pool_step M M' S L" "pool_step M (upd_sched g M') S L = pool_step M M' S L"
  by (rule pool_step_cong; simp)+

lemma pool_step_left [simp]:
  "pool_step (upd_cpu p f M) M' S L = pool_step M M' S L" "pool_step (set_tracking i t M) M' S L = pool_step M M' S L"
  "pool_step (set_vm i q M) M' S L = pool_step M M' S L" "pool_step (set_mailbox i m M) M' S L = pool_step M M' S L"
  "pool_step (vm_sched_unregister M i) M' S L = pool_step M M' S L" "pool_step (upd_sched g M) M' S L = pool_step M M' S L"
  by (rule pool_step_cong; simp)+

lemma same_pools_sym: "same_pools M M' \<Longrightarrow> same_pools M' M"
  by (simp add: same_pools_def)

lemma same_pools_trans: "same_pools M M1 \<Longrightarrow> same_pools M1 M2 \<Longrightarrow> same_pools M M2"
  by (simp add: same_pools_def)

lemma set_vm_simps [simp]:
  "sy_vms (mc_ext (set_vm i p M)) = (sy_vms (mc_ext M))(i := p)" "mc_sched (set_vm i p M) = mc_sched M"
  "mc_cpus (set_vm i p M) = mc_cpus M" "mc_mem (set_vm i p M) = mc_mem M"
  "sy_mailboxes (mc_ext (set_vm i p M)) = sy_mailboxes (mc_ext M)"
  "sy_tracking (mc_ext (set_vm i p M)) = sy_tracking (mc_ext M)" "sy_config (mc_ext (set_vm i p M)) = sy_config (mc_ext M)"
  "sy_shared (mc_ext (set_vm i p M)) = sy_shared (mc_ext M)" "sy_local (mc_ext (set_vm i p M)) = sy_local (mc_ext M)"
  "sy_hooks (mc_ext (set_vm i p M)) = sy_hooks (mc_ext M)"
  by (simp_all add: set_vm_def)

lemma set_mailbox_simps [simp]:
  "sy_mailboxes (mc_ext (set_mailbox i m M)) = (sy_mailboxes (mc_ext M))(i := m)" "mc_sched (set_mailbox i m M) = mc_sched M"
  "mc_cpus (set_mailbox i m M) = mc_cpus M" "mc_mem (set_mailbox i m M) = mc_mem M"
  "sy_vms (mc_ext (set_mailbox i m M)) = sy_vms (mc_ext M)"
  "sy_tracking (mc_ext (set_mailbox i m M)) = sy_tracking (mc_ext M)"
  "sy_config (mc_ext (set_mailbox i m M)) = sy_config (mc_ext M)"
  "sy_shared (mc_ext (set_mailbox i m M)) = sy_shared (mc_ext M)"
  "sy_local (mc_ext (set_mailbox i m M)) = sy_local (mc_ext M)"
  "sy_hooks (mc_ext (set_mailbox i m M)) = sy_hooks (mc_ext M)"
  by (simp_all add: set_mailbox_def)

section \<open>Freeing a list of pointers\<close>

definition free_each :: "hptr list \<Rightarrow> 'e sysm \<Rightarrow> 'e sysm" where
  "free_each bs M = fold (\<lambda>b M. if b = 0 then M else snd (local_free b M)) bs M"

definition own_ptrs :: "'e sysm \<Rightarrow> hptr list \<Rightarrow> hptr list" where
  "own_ptrs M bs = filter (\<lambda>b. b \<noteq> 0 \<and> \<not> foreign M b) bs"

lemma free_each_simps [simp]:
  "free_each [] M = M" "free_each (b # bs) M = free_each bs (if b = 0 then M else snd (local_free b M))"
  "free_each (bs @ cs) M = free_each cs (free_each bs M)"
  by (simp_all add: free_each_def)

lemma free_each_fields [simp]:
  "mc_sched (free_each bs M) = mc_sched M" "mc_cpus (free_each bs M) = mc_cpus M"
  "sy_config (mc_ext (free_each bs M)) = sy_config (mc_ext M)" "sy_vms (mc_ext (free_each bs M)) = sy_vms (mc_ext M)"
  "sy_mailboxes (mc_ext (free_each bs M)) = sy_mailboxes (mc_ext M)"
  "sy_tracking (mc_ext (free_each bs M)) = sy_tracking (mc_ext M)" "sy_hooks (mc_ext (free_each bs M)) = sy_hooks (mc_ext M)"
  by (induction bs arbitrary: M) simp_all

lemma free_each_call:
  "pools_ok M \<Longrightarrow> distinct (own_ptrs M bs) \<Longrightarrow> set (own_ptrs M bs) \<subseteq> local_live M \<Longrightarrow>
   pool_step M (free_each bs M) (shared_live M) (local_live M - set (own_ptrs M bs))"
proof (induction bs arbitrary: M)
  case Nil
  then show ?case by (simp add: own_ptrs_def pool_step_refl)
next
  case (Cons b bs)
  show ?case
  proof (cases "b = 0 \<or> foreign M b")
    case True
    then have "free_each (b # bs) M = free_each bs M" by (auto simp: local_free_foreign)
    moreover have "own_ptrs M (b # bs) = own_ptrs M bs" using True by (auto simp: own_ptrs_def)
    ultimately show ?thesis using Cons by simp
  next
    case False
    obtain r M1 where fr: "local_free b M = (r, M1)" by (cases "local_free b M")
    have b: "b \<in> local_live M" using Cons.prems(3) False by (simp add: own_ptrs_def)
    note st = pool_step_call [OF local_free_call(2) [OF Cons.prems(1) b fr]]
    have own: "own_ptrs M1 bs = own_ptrs M bs" using pool_stepD(10) [OF st] by (simp add: own_ptrs_def)
    have "pool_step M1 (free_each bs M1) (shared_live M1) (local_live M1 - set (own_ptrs M bs))"
      unfolding own [symmetric]
      by (rule Cons.IH [OF pool_stepD(1) [OF st]]) (use Cons.prems False own pool_stepD(3) [OF st] in \<open>auto simp: own_ptrs_def\<close>)
    then have "pool_step M (free_each bs M1) (shared_live M1) (local_live M1 - set (own_ptrs M bs))"
      by (rule pool_step_trans [OF st]) (use pool_stepD(2,3) [OF st] in auto)
    moreover have "local_live M1 - set (own_ptrs M bs) = local_live M - set (own_ptrs M (b # bs))"
      using pool_stepD(3) [OF st] False by (auto simp: own_ptrs_def)
    ultimately show ?thesis using False fr pool_stepD(2) [OF st] by simp
  qed
qed

section \<open>The region loop\<close>

definition bases_of :: "VmCpu \<Rightarrow> u32 list \<Rightarrow> hptr list" where
  "bases_of c is = map (\<lambda>i. r_base (regions c i)) is"

definition clear_map :: "u32 list \<Rightarrow> (u32 \<Rightarrow> VmRegion) \<Rightarrow> u32 \<Rightarrow> VmRegion" where
  "clear_map is g = (\<lambda>i. if i \<in> set is \<and> r_base (g i) \<noteq> 0 then (g i)\<lparr>r_base := 0, r_length := 0\<rparr> else g i)"

definition clear_regions :: "u32 list \<Rightarrow> VmCpu \<Rightarrow> VmCpu" where
  "clear_regions is c = c\<lparr>regions := clear_map is (regions c)\<rparr>"

lemma clear_map_nil [simp]: "clear_map [] g = g" by (simp add: clear_map_def)

lemma clear_map_Cons: "i \<notin> set is \<Longrightarrow> clear_map is (clear_map [i] g) = clear_map (i # is) g"
  by (auto simp: clear_map_def fun_eq_iff)

lemma clear_map_one:
  "clear_map [i] g = (if r_base (g i) = 0 then g else g(i := (g i)\<lparr>r_base := 0, r_length := 0\<rparr>))"
  by (auto simp: clear_map_def fun_eq_iff)

lemma local_free_upd_cpu: "snd (local_free b (upd_cpu p f M)) = upd_cpu p f (snd (local_free b M))"
  by (simp add: local_free_def upd_cpu_def upd_sys_def split: prod.splits)

lemma free_each_upd_cpu: "free_each bs (upd_cpu p f M) = upd_cpu p f (free_each bs M)"
  by (induction bs arbitrary: M) (simp_all add: local_free_upd_cpu)

lemma upd_cpu_twice [simp]: "upd_cpu p f (upd_cpu p g M) = upd_cpu p (\<lambda>c. f (g c)) M"
  by (simp add: upd_cpu_def)

lemma upd_cpu_same: "f (mc_cpus M p) = mc_cpus M p \<Longrightarrow> upd_cpu p f M = M"
  by (simp add: upd_cpu_def)

lemma clear_regions_nil [simp]: "clear_regions [] c = c"
  by (simp add: clear_regions_def)

lemma clear_regions_Cons: "i \<notin> set is \<Longrightarrow> clear_regions is (clear_regions [i] c) = clear_regions (i # is) c"
  by (simp add: clear_regions_def clear_map_Cons)

lemma release_region_eq:
  "release_region cpu i M = upd_cpu cpu (clear_regions [i]) (free_each [r_base (regions (mc_cpus M cpu) i)] M)"
  by (simp add: release_region_def Let_def upd_cpu_def clear_regions_def clear_map_one)

lemma release_regions_list:
  "distinct is \<Longrightarrow> fold (release_region cpu) is M =
     upd_cpu cpu (clear_regions is) (free_each (bases_of (mc_cpus M cpu) is) M)"
proof (induction "is" arbitrary: M)
  case Nil
  show ?case by (simp add: upd_cpu_same bases_of_def)
next
  case (Cons i js)
  let ?c = "mc_cpus M cpu" and ?M1 = "release_region cpu i M"
  have "mc_cpus ?M1 cpu = clear_regions [i] ?c" by (simp add: release_region_eq)
  then have same: "bases_of (mc_cpus ?M1 cpu) js = bases_of ?c js"
    using Cons.prems by (auto simp: bases_of_def clear_regions_def clear_map_def)
  have "fold (release_region cpu) (i # js) M = upd_cpu cpu (clear_regions js) (free_each (bases_of ?c js) ?M1)"
    using Cons same by simp
  also have "\<dots> = upd_cpu cpu (clear_regions (i # js)) (free_each (bases_of ?c js) (free_each [r_base (regions ?c i)] M))"
    using Cons.prems by (simp add: release_region_eq free_each_upd_cpu clear_regions_Cons)
  finally show ?case by (simp add: bases_of_def)
qed

abbreviation (input) region_ids :: "u32 list" where "region_ids \<equiv> [0, 1, 2, 3]"

lemma release_regions_eq:
  "release_regions cpu M = upd_cpu cpu (clear_regions region_ids) (free_each (bases_of (mc_cpus M cpu) region_ids) M)"
  unfolding release_regions_def by (rule release_regions_list) simp

lemma clear_regions_fields [simp]:
  "vm_id (clear_regions is c) = vm_id c" "halted (clear_regions is c) = halted c"
  "trap_cause (clear_regions is c) = trap_cause c" "regs (clear_regions is c) = regs c"
  "vm_regions_ok c \<Longrightarrow> vm_regions_ok (clear_regions is c)"
  by (auto simp: clear_regions_def clear_map_def vm_regions_ok_def vm_descriptors_def region_ok_def)

section \<open>Ownership\<close>

abbreviation mbox_storage :: "'e sysm \<Rightarrow> u16 \<Rightarrow> hptr" where
  "mbox_storage M i \<equiv> rg_storage (ff_rb (mb_fifo (sy_mailboxes (mc_ext M) i)))"

definition own_list :: "'e sysm \<Rightarrow> u16 \<Rightarrow> hptr list" where
  "own_list M i = own_ptrs M (bases_of (mc_cpus M (sy_vms (mc_ext M) i)) region_ids) @
     [mbox_storage M i, sy_vms (mc_ext M) i]"

definition own_inv :: "'e sysm \<Rightarrow> bool" where
  "own_inv M \<longleftrightarrow> shared_inv M \<and> sched_inv M \<and> sy_vms (mc_ext M) = sd_vms (mc_sched M) \<and>
     foreign M (yc_shared_storage (sy_config (mc_ext M))) \<and>
     (\<forall>i. registered M i \<longrightarrow> distinct (own_list M i) \<and> set (own_list M i) \<subseteq> local_live M) \<and>
     (\<forall>i. \<not> registered M i \<longrightarrow> i < VM_SCHED_MAX_VMS \<longrightarrow> tracked M i = {}) \<and>
     (\<forall>i j. registered M i \<longrightarrow> registered M j \<longrightarrow> i \<noteq> j \<longrightarrow> set (own_list M i) \<inter> set (own_list M j) = {})"

lemma own_invD:
  assumes "own_inv M"
  shows "shared_inv M" "sched_inv M" "sy_vms (mc_ext M) = sd_vms (mc_sched M)"
    "foreign M (yc_shared_storage (sy_config (mc_ext M)))"
    "registered M i \<Longrightarrow> distinct (own_list M i)" "registered M i \<Longrightarrow> set (own_list M i) \<subseteq> local_live M"
    "\<not> registered M i \<Longrightarrow> i < VM_SCHED_MAX_VMS \<Longrightarrow> tracked M i = {}"
    "registered M i \<Longrightarrow> registered M j \<Longrightarrow> i \<noteq> j \<Longrightarrow> set (own_list M i) \<inter> set (own_list M j) = {}"
  using assms by (simp_all add: own_inv_def)

lemma sched_inv_cong: "mc_sched M' = mc_sched M \<Longrightarrow> mc_cpus M' = mc_cpus M \<Longrightarrow> sched_inv M' = sched_inv M"
  by (simp add: sched_inv_def slot_views)

lemma registered_slot: "sched_inv M \<Longrightarrow> registered M i \<Longrightarrow> i < VM_SCHED_MAX_VMS"
  using sched_invD(5) by (fastforce simp: word_less_nat_alt)

lemma live_not_foreign:
  assumes "pools_ok M" "p \<in> local_live M" shows "p \<noteq> 0" "\<not> foreign M p"
proof -
  obtain i b where ib: "i < 16" "b < bcount (sy_local (mc_ext M)) i" "p = user_at (sy_local (mc_ext M)) i b"
    using assms(2) by (rule slab_liveE)
  then show "p \<noteq> 0" "\<not> foreign M p"
    using block_bounds(1,2) [OF slab_inv_layout [OF pools_okD(2) [OF assms(1)]] ib(1,2)] btotal_ge [of i]
    by (auto simp: foreign_def user_at_def)
qed

lemma own_ptrs_live: "pools_ok M \<Longrightarrow> set bs \<subseteq> local_live M \<Longrightarrow> own_ptrs M bs = bs"
  using live_not_foreign by (fastforce simp: own_ptrs_def intro!: filter_True)

lemma own_ptrs_cong: "pool_step M M' S L \<Longrightarrow> own_ptrs M' bs = own_ptrs M bs"
  by (simp add: own_ptrs_def pool_stepD(10))

lemma shared_inv_keep:
  assumes inv: "shared_inv M" and st: "pool_step M M' S L" and "sy_tracking (mc_ext M') = sy_tracking (mc_ext M)"
    "sy_config (mc_ext M') = sy_config (mc_ext M)" and "\<And>i. i < VM_SCHED_MAX_VMS \<Longrightarrow> tracked M i \<subseteq> S"
  shows "shared_inv M'"
  using inv pool_stepD(1-5) [OF st] assms(3-5) unfolding shared_inv_def by simp

text \<open>The invariant of a machine in which some VMs are gone and the others own what they did.\<close>

lemma own_inv_shrink:
  assumes inv: "own_inv M" and st: "pool_step M M' S L" and "shared_inv M'" "sched_inv M'"
    and "sy_vms (mc_ext M') = sd_vms (mc_sched M')" "sy_config (mc_ext M') = sy_config (mc_ext M)"
    and keep: "\<And>i. registered M' i \<Longrightarrow> registered M i \<and> set (own_list M i) \<subseteq> L \<and> own_list M' i = own_list M i"
    and "\<And>i. \<not> registered M' i \<Longrightarrow> i < VM_SCHED_MAX_VMS \<Longrightarrow> tracked M' i = {}"
  shows "own_inv M'"
  unfolding own_inv_def
proof (intro conjI allI impI)
  show "foreign M' (yc_shared_storage (sy_config (mc_ext M')))"
    using own_invD(4) [OF inv] assms(6) pool_stepD(10) [OF st] by simp
  show "distinct (own_list M' i)" "set (own_list M' i) \<subseteq> local_live M'" if "registered M' i" for i
    using keep [OF that] own_invD(5) [OF inv] pool_stepD(3) [OF st] by auto
  show "set (own_list M' i) \<inter> set (own_list M' j) = {}" if "registered M' i" "registered M' j" "i \<noteq> j" for i j
    using keep [OF that(1)] keep [OF that(2)] own_invD(8) [OF inv _ _ that(3)] by simp
qed (use assms in auto)

lemma own_list_cong:
  assumes "pool_step M M' S L" "sy_vms (mc_ext M') i = sy_vms (mc_ext M) i"
    "sy_mailboxes (mc_ext M') i = sy_mailboxes (mc_ext M) i"
    "regions (mc_cpus M' (sy_vms (mc_ext M) i)) = regions (mc_cpus M (sy_vms (mc_ext M) i))"
  shows "own_list M' i = own_list M i"
  using assms by (simp add: own_list_def own_ptrs_cong [OF assms(1)] bases_of_def)

section \<open>Unloading\<close>

text \<open>The hooks release what a host service keeps for the VM in its own state.\<close>

definition quiet_hooks :: "(hptr \<Rightarrow> u16 \<Rightarrow> hptr \<Rightarrow> 'e sysm \<Rightarrow> 'e sysm) \<Rightarrow> bool" where
  "quiet_hooks call_hook \<longleftrightarrow> (\<forall>h i ud M. \<exists>e. call_hook h i ud M = upd_sys (\<lambda>s. s\<lparr>sy_env := e\<rparr>) M)"

definition same_but_env :: "'e sysm \<Rightarrow> 'e sysm \<Rightarrow> bool" where
  "same_but_env M M' \<longleftrightarrow> (\<exists>e. M' = upd_sys (\<lambda>s. s\<lparr>sy_env := e\<rparr>) M)"

lemma same_but_envD:
  assumes "same_but_env M M'"
  shows "mc_sched M' = mc_sched M" "mc_cpus M' = mc_cpus M" "same_pools M M'"
    "sy_config (mc_ext M') = sy_config (mc_ext M)" "sy_vms (mc_ext M') = sy_vms (mc_ext M)"
    "sy_mailboxes (mc_ext M') = sy_mailboxes (mc_ext M)" "sy_tracking (mc_ext M') = sy_tracking (mc_ext M)"
    "sy_hooks (mc_ext M') = sy_hooks (mc_ext M)"
  using assms by (auto simp: same_but_env_def same_pools_def)

lemma same_but_env_trans: "same_but_env M M1 \<Longrightarrow> same_but_env M1 M2 \<Longrightarrow> same_but_env M M2"
  by (force simp: same_but_env_def upd_sys_def)

lemma same_but_env_refl: "same_but_env M M"
  unfolding same_but_env_def by (rule exI [of _ "sy_env (mc_ext M)"]) (simp add: upd_sys_def)

lemma run_hooks_env:
  assumes "quiet_hooks call_hook" shows "same_but_env M (fold (run_hook call_hook vm) is M)"
proof (induction "is" arbitrary: M)
  case (Cons i js)
  have "same_but_env M (run_hook call_hook vm i M)"
    using assms same_but_env_refl [of M] by (auto simp: run_hook_def quiet_hooks_def same_but_env_def split: prod.splits)
  then show ?case using same_but_env_trans [OF _ Cons.IH] by simp
qed (simp add: same_but_env_refl)

text \<open>Halting a CPU and clearing its regions keeps the scheduler's invariant.\<close>

lemma sched_inv_cleared:
  assumes "sched_inv M" shows "sched_inv (upd_cpu p (\<lambda>c. clear_regions is (c\<lparr>halted := h \<or> halted c\<rparr>)) M)"
proof (rule sched_inv_quiet [OF assms])
  let ?f = "\<lambda>c. clear_regions is (c\<lparr>halted := h \<or> halted c\<rparr>)"
  show "quiet M (upd_cpu p ?f M)"
    by (auto simp: quiet_def upd_cpu_def vm_regions_ok_def vm_descriptors_def clear_regions_def clear_map_def region_ok_def)
qed (use sched_invD [OF assms] in \<open>auto simp: is_ready_def is_blocked_def\<close>)

lemma unregister_simps [simp]:
  "mc_cpus (vm_sched_unregister M i) = mc_cpus M" "mc_ext (vm_sched_unregister M i) = mc_ext M"
  "mc_mem (vm_sched_unregister M i) = mc_mem M"
  "i < VM_SCHED_MAX_VMS \<Longrightarrow> sd_vms (mc_sched (vm_sched_unregister M i)) = (sd_vms (mc_sched M))(i := 0)"
  by (auto simp: vm_sched_unregister_def fun_eq_iff)

text \<open>The freeing part of the unloading, from the region loop to the CPU's own block.\<close>

lemma unload_frees:
  assumes inv: "own_inv M" and v: "registered M v" and M': "M' = (let cpu = sy_vms (mc_ext M) v;
      M3 = upd_cpu cpu (clear_regions region_ids) (free_each (bases_of (mc_cpus M cpu) region_ids) M)
    in free_each [mbox_storage M v, cpu] (free_all_tracked v M3))"
  shows "pool_step M M' (shared_live M - tracked M v) (local_live M - set (own_list M v))" "shared_inv M'"
    "sy_tracking (mc_ext M') = (sy_tracking (mc_ext M))(v := zero_tracking)" "mc_sched M' = mc_sched M"
    "mc_cpus M' = mc_cpus (upd_cpu (sy_vms (mc_ext M) v) (clear_regions region_ids) M)"
    "sy_config (mc_ext M') = sy_config (mc_ext M)" "sy_vms (mc_ext M') = sy_vms (mc_ext M)"
    "sy_mailboxes (mc_ext M') = sy_mailboxes (mc_ext M)"
proof -
  let ?cpu = "sy_vms (mc_ext M) v" and ?t = "sy_tracking (mc_ext M) v"
  let ?bs = "bases_of (mc_cpus M ?cpu) region_ids"
  define M3 where "M3 = upd_cpu ?cpu (clear_regions region_ids) (free_each ?bs M)"
  define M4 where "M4 = free_all_tracked v M3"
  have lt: "v < VM_SCHED_MAX_VMS" by (rule registered_slot [OF own_invD(2) [OF inv] v])
  note sh = own_invD(1) [OF inv] and own = own_invD(5,6) [OF inv v, unfolded own_list_def]
  note pools = shared_invD(1) [OF sh]
  have st3: "pool_step M M3 (shared_live M) (local_live M - set (own_ptrs M ?bs))"
    using free_each_call [OF pools, of ?bs] own by (simp add: M3_def)
  have sh3: "shared_inv M3"
    by (rule shared_inv_keep [OF sh st3]) (use shared_invD(5) [OF sh] in \<open>auto simp: M3_def\<close>)
  note ft1 = free_all_tracked_result(1) [OF sh3 lt M4_def] and ft2 = free_all_tracked_result(2) [OF sh3 lt M4_def, where t = zero_tracking]
    and ft3 = free_all_tracked_result(3) [OF sh3 lt M4_def]
  have st4: "pool_step M3 M4 (shared_live M - tracked M v) (local_live M3)"
    using pool_step_call [OF ft2] pool_stepD(2) [OF st3] by (simp add: M3_def)
  have fields4: "mc_sched M4 = mc_sched M" "mc_cpus M4 = mc_cpus M3" "sy_config (mc_ext M4) = sy_config (mc_ext M)"
    "sy_vms (mc_ext M4) = sy_vms (mc_ext M)" "sy_mailboxes (mc_ext M4) = sy_mailboxes (mc_ext M)"
    using pool_frame_fields [OF pool_callD(2) [OF ft2]] by (simp_all add: M3_def)
  have M'eq: "M' = free_each [mbox_storage M v, ?cpu] M4" by (simp add: M' M4_def M3_def Let_def)
  have two: "own_ptrs M4 [mbox_storage M v, ?cpu] = [mbox_storage M v, ?cpu]"
    by (rule own_ptrs_live [OF pool_stepD(1) [OF st4]]) (use own pool_stepD(3) [OF st3] pool_stepD(3) [OF st4] in auto)
  have st5: "pool_step M4 M' (shared_live M4) (local_live M4 - {mbox_storage M v, ?cpu})"
    using free_each_call [OF pool_stepD(1) [OF st4], of "[mbox_storage M v, ?cpu]"] two own
      pool_stepD(3) [OF st3] pool_stepD(3) [OF st4] unfolding M'eq by auto
  have "pool_step M3 M' (shared_live M4) (local_live M4 - {mbox_storage M v, ?cpu})"
    by (rule pool_step_trans [OF st4 st5]) (use pool_stepD(2,3) [OF st4] in auto)
  then have "pool_step M M' (shared_live M4) (local_live M4 - {mbox_storage M v, ?cpu})"
    by (rule pool_step_trans [OF st3]) (use pool_stepD(2,3) [OF st3] pool_stepD(2,3) [OF st4] in auto)
  moreover have "local_live M4 - {mbox_storage M v, ?cpu} = local_live M - set (own_list M v)"
    using pool_stepD(3) [OF st3] pool_stepD(3) [OF st4] by (auto simp: own_list_def)
  ultimately show "pool_step M M' (shared_live M - tracked M v) (local_live M - set (own_list M v))"
    using pool_stepD(2) [OF st4] by simp
  show "shared_inv M'"
    by (rule shared_inv_keep [OF ft1 st5]) (use shared_invD(5) [OF ft1] in \<open>auto simp: M'eq\<close>)
  show "sy_tracking (mc_ext M') = (sy_tracking (mc_ext M))(v := zero_tracking)"
    using ft3 by (simp add: M'eq M3_def)
  show "mc_sched M' = mc_sched M" "mc_cpus M' = mc_cpus (upd_cpu ?cpu (clear_regions region_ids) M)"
    "sy_config (mc_ext M') = sy_config (mc_ext M)" "sy_vms (mc_ext M') = sy_vms (mc_ext M)"
    "sy_mailboxes (mc_ext M') = sy_mailboxes (mc_ext M)"
    using fields4 by (simp_all add: M'eq M3_def upd_cpu_def)
qed

lemma unload_unfold:
  assumes "registered M v" "v < VM_SCHED_MAX_VMS" "sy_vms (mc_ext M) = sd_vms (mc_sched M)" "quiet_hooks call_hook"
  obtains M2 where "same_but_env (upd_cpu (sy_vms (mc_ext M) v) (\<lambda>c. c\<lparr>halted := True\<rparr>) M) M2"
    "vm_system_unload_vm (coop_ops cfg) call_hook M v = (True, set_mailbox v zero_mailbox (set_vm v 0 (vm_sched_unregister
       (let cpu = sy_vms (mc_ext M2) v;
            M3 = upd_cpu cpu (clear_regions region_ids) (free_each (bases_of (mc_cpus M2 cpu) region_ids) M2)
        in free_each [mbox_storage M2 v, cpu] (free_all_tracked v M3)) v)))"
proof -
  let ?cpu = "sy_vms (mc_ext M) v"
  let ?M1 = "upd_cpu ?cpu (\<lambda>c. c\<lparr>halted := True\<rparr>) M"
  define M2 where "M2 = fold (run_hook call_hook v) [0..<8] ?M1"
  have env: "same_but_env ?M1 M2" unfolding M2_def by (rule run_hooks_env [OF assms(4)])
  note f = same_but_envD [OF env]
  have nz: "?cpu \<noteq> 0" using assms(1,3) by (simp add: registered_def)
  define M4 where "M4 = free_all_tracked v (release_regions ?cpu M2)"
  have fr: "snd (local_free ?cpu (if x \<noteq> 0 then snd (local_free x M4) else M4)) = free_each [x, ?cpu] M4" for x
    using nz by simp
  have mb: "sy_mailboxes (mc_ext M4) = sy_mailboxes (mc_ext M2)"
  proof -
    have step: "sy_mailboxes (mc_ext (free_tracked v i N)) = sy_mailboxes (mc_ext N)" for i and N :: "'a sysm"
      by (simp add: free_tracked_def shared_free_def Let_def split: prod.splits)
    have "sy_mailboxes (mc_ext (fold (free_tracked v) is N)) = sy_mailboxes (mc_ext N)" for "is" and N :: "'a sysm"
      by (induction "is" arbitrary: N) (simp_all add: step)
    then show ?thesis by (simp add: M4_def free_all_tracked_def release_regions_eq Let_def)
  qed
  show thesis
  proof (rule that [OF env])
    show "vm_system_unload_vm (coop_ops cfg) call_hook M v = (True, set_mailbox v zero_mailbox (set_vm v 0 (vm_sched_unregister
       (let cpu = sy_vms (mc_ext M2) v;
            M3 = upd_cpu cpu (clear_regions region_ids) (free_each (bases_of (mc_cpus M2 cpu) region_ids) M2)
        in free_each [mbox_storage M2 v, cpu] (free_all_tracked v M3)) v)))"
    proof -
      have g: "\<not> v \<ge> VM_SCHED_MAX_VMS" using assms(2) by simp
      have "vm_system_unload_vm (coop_ops cfg) call_hook M v = (True, set_mailbox v zero_mailbox (set_vm v 0
          (op_unregister_vm (coop_ops cfg) (snd (local_free ?cpu (if mbox_storage M4 v \<noteq> 0
             then snd (local_free (mbox_storage M4 v) M4) else M4))) v)))"
        unfolding vm_system_unload_vm_def Let_def if_not_P [OF g] if_not_P [OF nz] M2_def M4_def ..
      also have "\<dots> = (True, set_mailbox v zero_mailbox (set_vm v 0
          (vm_sched_unregister (free_each [mbox_storage M2 v, ?cpu] M4) v)))"
        by (simp only: fr mb coop_ops_simps)
      finally show ?thesis unfolding Let_def M4_def release_regions_eq f(5) by (simp only: upd_cpu_simps)
    qed
  qed
qed

lemma unload_result:
  assumes inv: "own_inv M" and v: "registered M v" and hooks: "quiet_hooks call_hook"
    and un: "vm_system_unload_vm (coop_ops cfg) call_hook M v = (ok, M')"
  shows "ok" "own_inv M'" "pool_step M M' (shared_live M - tracked M v) (local_live M - set (own_list M v))"
    "sy_tracking (mc_ext M') = (sy_tracking (mc_ext M))(v := zero_tracking)"
    "sy_mailboxes (mc_ext M') = (sy_mailboxes (mc_ext M))(v := zero_mailbox)"
    "mc_sched M' = mc_sched (vm_sched_unregister M v)" "sy_config (mc_ext M') = sy_config (mc_ext M)"
    "q \<noteq> sy_vms (mc_ext M) v \<Longrightarrow> mc_cpus M' q = mc_cpus M q"
proof -
  let ?cpu = "sy_vms (mc_ext M) v"
  have lt: "v < VM_SCHED_MAX_VMS" by (rule registered_slot [OF own_invD(2) [OF inv] v])
  obtain M2 where env: "same_but_env (upd_cpu ?cpu (\<lambda>c. c\<lparr>halted := True\<rparr>) M) M2"
    and un2: "vm_system_unload_vm (coop_ops cfg) call_hook M v = (True, set_mailbox v zero_mailbox (set_vm v 0 (vm_sched_unregister
       (let cpu = sy_vms (mc_ext M2) v;
            M3 = upd_cpu cpu (clear_regions region_ids) (free_each (bases_of (mc_cpus M2 cpu) region_ids) M2)
        in free_each [mbox_storage M2 v, cpu] (free_all_tracked v M3)) v)))"
    by (rule unload_unfold [OF v lt own_invD(3) [OF inv] hooks, of cfg])
  note f = same_but_envD [OF env]
  define M6 where "M6 = (let cpu = sy_vms (mc_ext M2) v;
            M3 = upd_cpu cpu (clear_regions region_ids) (free_each (bases_of (mc_cpus M2 cpu) region_ids) M2)
        in free_each [mbox_storage M2 v, cpu] (free_all_tracked v M3))"
  have M': "M' = set_mailbox v zero_mailbox (set_vm v 0 (vm_sched_unregister M6 v))" and "ok"
    using un un2 by (simp_all add: M6_def)
  then show "ok" by simp
  have st2: "pool_step M M2 (shared_live M) (local_live M)"
    by (rule pool_step_refl [OF shared_invD(1) [OF own_invD(1) [OF inv]]]) (use f(3) in \<open>simp add: same_pools_def\<close>)
  have reg2: "registered M2 = registered M" by (simp add: registered_def fun_eq_iff f(1))
  have own2: "own_list M2 i = own_list M i" for i
    by (rule own_list_cong [OF st2]) (simp_all add: f(2,5,6) upd_cpu_def)
  have inv2: "own_inv M2"
  proof (rule own_inv_shrink [OF inv st2])
    show "shared_inv M2"
      by (rule shared_inv_keep [OF own_invD(1) [OF inv] st2]) (use f shared_invD(5) [OF own_invD(1) [OF inv]] in simp_all)
    show "sched_inv M2" using sched_inv_cleared [OF own_invD(2) [OF inv], of ?cpu "[]" True] sched_inv_cong [of M2 "upd_cpu ?cpu (\<lambda>c. c\<lparr>halted := True\<rparr>) M"] f(1,2) by simp
  qed (use f own_invD(3,6,7) [OF inv] own2 in \<open>simp_all add: reg2\<close>)
  have v2: "registered M2 v" using v by (simp add: reg2)
  note u = unload_frees [OF inv2 v2 M6_def]
  have st6: "pool_step M M6 (shared_live M - tracked M v) (local_live M - set (own_list M v))"
    by (rule pool_step_trans [OF st2]) (use u(1) f(7) own2 pool_stepD(2,3) [OF st2] in auto)
  then show st: "pool_step M M' (shared_live M - tracked M v) (local_live M - set (own_list M v))"
    by (simp add: M')
  show "sy_tracking (mc_ext M') = (sy_tracking (mc_ext M))(v := zero_tracking)"
    "sy_mailboxes (mc_ext M') = (sy_mailboxes (mc_ext M))(v := zero_mailbox)" "sy_config (mc_ext M') = sy_config (mc_ext M)"
    using u f by (simp_all add: M')
  show sd: "mc_sched M' = mc_sched (vm_sched_unregister M v)"
    using u(4) f(1) by (simp add: M' vm_sched_unregister_def upd_sched_def)
  show cpus: "mc_cpus M' q = mc_cpus M q" if "q \<noteq> ?cpu" for q using u(5) f(2,5) that by (simp add: M' upd_cpu_def)
  have reg: "registered M' i \<longleftrightarrow> registered M i \<and> i \<noteq> v" for i using sd lt by (simp add: registered_def)
  show "own_inv M'"
  proof (rule own_inv_shrink [OF inv st])
    show "shared_inv M'"
      by (rule shared_inv_keep [OF u(2), of _ "shared_live M6" "local_live M6"])
        (use shared_invD(1,5) [OF u(2)] in \<open>auto simp: M' pool_step_refl\<close>)
    have "sched_inv M6"
      using sched_inv_cleared [OF own_invD(2) [OF inv2], of ?cpu region_ids False]
        sched_inv_cong [of M6 "upd_cpu ?cpu (clear_regions region_ids) M2"] u(4,5) f(5) by simp
    then show "sched_inv M'" using sched_inv_cong [of M' "vm_sched_unregister M6 v"] unregister_inv by (simp add: M')
    show "sy_vms (mc_ext M') = sd_vms (mc_sched M')" using own_invD(3) [OF inv2] u(4,7) lt by (simp add: M')
    show "sy_config (mc_ext M') = sy_config (mc_ext M)" using u(6) f(4) by (simp add: M')
    show "registered M i \<and> set (own_list M i) \<subseteq> local_live M - set (own_list M v) \<and> own_list M' i = own_list M i"
      if r: "registered M' i" for i
    proof -
      have ri: "registered M i" "i \<noteq> v" using r reg by auto
      have "sd_vms (mc_sched M) i \<noteq> sd_vms (mc_sched M) v" by (rule distinct_cpus [OF own_invD(2) [OF inv] ri(1) v ri(2)])
      then have ne: "sy_vms (mc_ext M) i \<noteq> ?cpu" using own_invD(3) [OF inv] by simp
      have "own_list M' i = own_list M i"
        by (rule own_list_cong [OF st]) (use u(7,8) f(5,6) ri(2) cpus [OF ne] in \<open>simp_all add: M'\<close>)
      then show ?thesis using ri own_invD(6) [OF inv ri(1)] own_invD(8) [OF inv ri(1) v ri(2)] by blast
    qed
    show "tracked M' i = {}" if "\<not> registered M' i" "i < VM_SCHED_MAX_VMS" for i
      using that reg own_invD(7) [OF inv] u(3) f(7) by (cases "i = v") (simp_all add: M')
  qed
qed

end
