(* ===== verification/VM_System_Reap.thy ===== *)
theory VM_System_Reap
  imports VM_System_Own
begin

text \<open>
  What unloading promises: the blocks of a VM come back, all of them and no others; and what one round
  of the reaping that follows every system step does, to the VM reaped and to its waiting parent.
  \<open>VM_System_Family\<close> states the whole pass.
\<close>

section \<open>Unload\<close>

lemma unload_effect:
  assumes "own_inv M" and "registered M v" and "quiet_hooks call_hook"
    and "vm_system_unload_vm (coop_ops cfg) call_hook M v = (ok, M')"
  shows "ok \<and> own_inv M' \<and>
    local_live M' = local_live M - set (own_list M v) \<and> shared_live M' = shared_live M - tracked M v \<and>
    sy_vms (mc_ext M') = (sy_vms (mc_ext M))(v := 0) \<and> (\<forall>i. registered M' i \<longleftrightarrow> registered M i \<and> i \<noteq> v) \<and>
    sy_mailboxes (mc_ext M') = (sy_mailboxes (mc_ext M))(v := zero_mailbox) \<and>
    sy_tracking (mc_ext M') = (sy_tracking (mc_ext M))(v := zero_tracking) \<and>
    (\<forall>i. registered M' i \<longrightarrow> cpu_of M' i = cpu_of M i \<and> is_ready M' i = is_ready M i \<and> is_blocked M' i = is_blocked M i) \<and>
    (\<forall>q \<in> local_live M'. \<forall>x \<in> extent q (local_size_of M q). mc_mem M' x = mc_mem M x) \<and>
    (\<forall>q \<in> shared_live M'. \<forall>x \<in> extent q (shared_size_of M q). mc_mem M' x = mc_mem M x)"
proof -
  note u = unload_result [OF assms] and st = unload_result(3) [OF assms]
  have lt: "v < VM_SCHED_MAX_VMS" by (rule registered_slot [OF own_invD(2) [OF assms(1)] assms(2)])
  have nz: "sd_vms (mc_sched M) v \<noteq> 0" using assms(2) by (simp add: registered_def)
  have sd: "sd_vms (mc_sched M') = (sd_vms (mc_sched M))(v := 0)" using u(6) lt by simp
  have reg: "registered M' i \<longleftrightarrow> registered M i \<and> i \<noteq> v" for i using sd by (simp add: registered_def)
  have other: "cpu_of M' i = cpu_of M i \<and> is_ready M' i = is_ready M i \<and> is_blocked M' i = is_blocked M i"
    if "registered M' i" for i
  proof -
    have ri: "registered M i" "i \<noteq> v" using that reg by auto
    have "sd_vms (mc_sched M) i \<noteq> sd_vms (mc_sched M) v"
      by (rule distinct_cpus [OF own_invD(2) [OF assms(1)] ri(1) assms(2) ri(2)])
    then have "mc_cpus M' (sd_vms (mc_sched M) i) = mc_cpus M (sd_vms (mc_sched M) i)"
      using u(8) own_invD(3) [OF assms(1)] by simp
    moreover have "sd_ready (mc_sched M') = bm_clear (sd_ready (mc_sched M)) v"
      "sd_blocked (mc_sched M') = bm_clear (sd_blocked (mc_sched M)) v"
      using lt nz unfolding u(6) vm_sched_unregister_def by (auto dest: leD)
    then have "is_ready M' i = is_ready M i" "is_blocked M' i = is_blocked M i"
      using ri(2) by (simp_all add: is_ready_def is_blocked_def unat_slot_eq)
    ultimately show ?thesis using sd ri(2) by (simp add: cpu_of_def)
  qed
  have keep: "q \<in> local_live M' \<Longrightarrow> x \<in> extent q (local_size_of M q) \<Longrightarrow> mc_mem M' x = mc_mem M x"
    "q \<in> shared_live M' \<Longrightarrow> x \<in> extent q (shared_size_of M q) \<Longrightarrow> mc_mem M' x = mc_mem M x" for q x
    using pool_stepD(2,3,11,12) [OF st] by blast+
  have "sy_vms (mc_ext M') = (sy_vms (mc_ext M))(v := 0)"
    using own_invD(3) [OF u(2)] own_invD(3) [OF assms(1)] sd by simp
  then show ?thesis using u(1,2,4,5) pool_stepD(2,3) [OF st] reg other keep by (intro conjI allI impI ballI) blast+
qed

text \<open>
  C31. Unloading a VM gives back exactly what it owned: its CPU block, its mailbox storage, the local
  blocks its regions point at and every shared block it had allocated and not freed. The slot
  is empty afterwards, in the system and in the scheduler, with a clean mailbox and empty
  tracking; every other VM keeps its CPU state, its blocks and their contents, its tracked
  blocks and its place in the ready and blocked sets. Regions that point outside the local
  slab (code run in place, the shared window) are left alone.
\<close>

theorem unload_reclaims:
  assumes "own_inv M" and "registered M v" and "quiet_hooks call_hook"
    and "vm_system_unload_vm (coop_ops cfg) call_hook M v = (ok, M')"
  shows "ok \<and> own_inv M' \<and>
    local_live M' = local_live M - set (own_list M v) \<and> shared_live M' = shared_live M - tracked M v \<and>
    sy_vms (mc_ext M') = (sy_vms (mc_ext M))(v := 0) \<and> (\<forall>i. registered M' i \<longleftrightarrow> registered M i \<and> i \<noteq> v) \<and>
    sy_mailboxes (mc_ext M') = (sy_mailboxes (mc_ext M))(v := zero_mailbox) \<and>
    sy_tracking (mc_ext M') = (sy_tracking (mc_ext M))(v := zero_tracking) \<and>
    (\<forall>i. registered M' i \<longrightarrow> cpu_of M' i = cpu_of M i \<and> is_ready M' i = is_ready M i \<and> is_blocked M' i = is_blocked M i) \<and>
    (\<forall>q \<in> local_live M'. \<forall>x \<in> extent q (local_size_of M q). mc_mem M' x = mc_mem M x) \<and>
    (\<forall>q \<in> shared_live M'. \<forall>x \<in> extent q (shared_size_of M q). mc_mem M' x = mc_mem M x)"
  by (rule unload_effect [OF assms])

section \<open>Reaping\<close>

lemma own_inv_wake:
  assumes inv: "own_inv M" shows "own_inv (snd (vm_sched_wake_child M i v))"
proof -
  let ?M = "snd (vm_sched_wake_child M i v)"
  have ext: "mc_ext ?M = mc_ext M" "mc_mem ?M = mc_mem M" "sd_vms (mc_sched ?M) = sd_vms (mc_sched M)"
    by (auto simp: vm_sched_wake_child_def Let_def move_ready_def)
  have regs: "regions (mc_cpus ?M q) = regions (mc_cpus M q)" for q
    by (auto simp: vm_sched_wake_child_def Let_def move_ready_def upd_cpu_def unblock_def set_a0_def)
  have st: "pool_step M ?M (shared_live M) (local_live M)"
    by (rule pool_step_refl [OF shared_invD(1) [OF own_invD(1) [OF inv]]]) (simp add: same_pools_def ext)
  have reg: "registered ?M j = registered M j" for j by (simp add: registered_def ext)
  show ?thesis
  proof (rule own_inv_shrink [OF inv st])
    show "shared_inv ?M" using own_invD(1) [OF inv] shared_inv_cong [OF ext(1,2)] by simp
    show "sched_inv ?M" by (rule wake_child_inv [OF own_invD(2) [OF inv]])
    show "registered M j \<and> set (own_list M j) \<subseteq> local_live M \<and> own_list ?M j = own_list M j" if "registered ?M j" for j
      using that own_invD(6) [OF inv] own_list_cong [OF st, of j] by (simp add: reg ext regs)
  qed (use own_invD(3,7) [OF inv] in \<open>simp_all add: ext reg\<close>)
qed

lemma wake_child_view:
  "mc_cpus (snd (vm_sched_wake_child M i v)) q =
     (if i < VM_SCHED_MAX_VMS \<and> sd_vms (mc_sched M) i = q \<and> q \<noteq> 0 \<and> block_reason (mc_cpus M q) = BLOCK_ON_CHILD \<and> is_blocked M i
      then unblock v ((mc_cpus M q)\<lparr>block_child_vm := UINT16_MAX\<rparr>) else mc_cpus M q)"
proof (cases "i < VM_SCHED_MAX_VMS")
  case True
  then show ?thesis
    by (simp add: vm_sched_wake_child_def Let_def move_ready_def bm_test_blocked) (auto simp: upd_cpu_def)
qed (auto simp: vm_sched_wake_child_def)

lemma reap_child_result:
  assumes inv: "own_inv M" and hooks: "quiet_hooks call_hook" and M': "M' = reap_child (coop_ops cfg) call_hook cid M"
    and child: "registered M cid" "halted (cpu_of M cid)"
  defines "W \<equiv> (case find (waits_on M cid) vm_ids of None \<Rightarrow> M
     | Some pid \<Rightarrow> snd (vm_sched_wake_child M pid (child_status (cpu_of M cid))))"
  shows "own_inv W" "own_inv M'" "registered W i = registered M i" "halted (cpu_of W i) = halted (cpu_of M i)"
    "registered M' i \<longleftrightarrow> registered M i \<and> i \<noteq> cid"
    "registered M' i \<Longrightarrow> cpu_of M' i = cpu_of W i \<and> is_ready M' i = is_ready W i \<and> is_blocked M' i = is_blocked W i"
proof -
  have vms: "sy_vms (mc_ext M) = sd_vms (mc_sched M)" by (rule own_invD(3) [OF inv])
  have nz: "sy_vms (mc_ext M) cid \<noteq> 0" using child(1) vms by (simp add: registered_def)
  have M'W: "M' = snd (vm_system_unload_vm (coop_ops cfg) call_hook W cid)"
    using nz child(2) vms unfolding M' reap_child_def W_def Let_def
    by (auto simp: cpu_of_def split: option.splits)
  show W: "own_inv W" using own_inv_wake [OF inv] inv by (simp add: W_def split: option.splits)
  have sdW: "sd_vms (mc_sched W) = sd_vms (mc_sched M)"
    by (auto simp: W_def vm_sched_wake_child_def Let_def move_ready_def split: option.splits)
  show regW: "registered W i = registered M i" for i by (simp add: registered_def sdW)
  have "halted (mc_cpus W q) = halted (mc_cpus M q)" for q
    by (simp add: W_def wake_child_view unblock_def set_a0_def split: option.splits)
  then show "halted (cpu_of W i) = halted (cpu_of M i)" by (simp add: cpu_of_def sdW)
  have "registered W cid" using child(1) regW by simp
  from unload_effect [OF W this hooks surjective_pairing, of cfg]
  show "own_inv M'" "registered M' i \<longleftrightarrow> registered M i \<and> i \<noteq> cid"
    "registered M' i \<Longrightarrow> cpu_of M' i = cpu_of W i \<and> is_ready M' i = is_ready W i \<and> is_blocked M' i = is_blocked W i"
    by (auto simp: M'W regW)
qed

lemma find_vm_ids: "find P vm_ids = Some i \<Longrightarrow> P i \<and> i < VM_SCHED_MAX_VMS"
  by (fastforce simp: find_Some_iff vm_ids_def word_less_nat_alt unat_of_nat)

text \<open>The exit status reaches the parent that waits.\<close>

lemma reap_child_delivers:
  assumes inv: "own_inv M" and hooks: "quiet_hooks call_hook"
    and child: "registered M cid" "halted (cpu_of M cid)"
    and parent: "find (waits_on M cid) vm_ids = Some pid" "is_blocked M pid" "pid \<noteq> cid"
  shows "registered (reap_child (coop_ops cfg) call_hook cid M) pid"
    "cpu_of (reap_child (coop_ops cfg) call_hook cid M) pid =
       unblock (child_status (cpu_of M cid)) ((cpu_of M pid)\<lparr>block_child_vm := UINT16_MAX\<rparr>)"
    "is_ready (reap_child (coop_ops cfg) call_hook cid M) pid"
    "\<not> is_blocked (reap_child (coop_ops cfg) call_hook cid M) pid"
proof -
  let ?v = "child_status (cpu_of M cid)"
  let ?W = "snd (vm_sched_wake_child M pid ?v)"
  note r = reap_child_result [OF inv hooks refl child, unfolded parent(1) option.case]
  have p: "waits_on M cid pid" "pid < 64" using find_vm_ids [OF parent(1)] by auto
  have reg: "registered M pid" using sched_invD(3) [OF own_invD(2) [OF inv] parent(2)] .
  have blk: "block_reason (mc_cpus M (sd_vms (mc_sched M) pid)) = BLOCK_ON_CHILD"
    using p(1) own_invD(3) [OF inv] by (simp add: waits_on_def)
  have W: "?W = move_ready pid (upd_cpu (sd_vms (mc_sched M) pid) (\<lambda>c. unblock ?v (c\<lparr>block_child_vm := UINT16_MAX\<rparr>)) M)"
    using p(2) blk reg parent(2) by (auto simp: vm_sched_wake_child_def Let_def bm_test_blocked registered_def dest: leD)
  show "registered (reap_child (coop_ops cfg) call_hook cid M) pid" using r(5) reg parent(3) by simp
  then have "cpu_of (reap_child (coop_ops cfg) call_hook cid M) pid = cpu_of ?W pid \<and>
      is_ready (reap_child (coop_ops cfg) call_hook cid M) pid = is_ready ?W pid \<and>
      is_blocked (reap_child (coop_ops cfg) call_hook cid M) pid = is_blocked ?W pid" by (rule r(6))
  then show "cpu_of (reap_child (coop_ops cfg) call_hook cid M) pid =
       unblock ?v ((cpu_of M pid)\<lparr>block_child_vm := UINT16_MAX\<rparr>)"
    "is_ready (reap_child (coop_ops cfg) call_hook cid M) pid" "\<not> is_blocked (reap_child (coop_ops cfg) call_hook cid M) pid"
    using p(2) unfolding W by (simp_all add: cpu_of_def move_ready_bits word_less_nat_alt)
qed

lemma reap_child_skip:
  assumes "own_inv M" "\<not> (registered M cid \<and> halted (cpu_of M cid))"
  shows "reap_child ops call_hook cid M = M"
  using assms own_invD(3) [OF assms(1)] by (simp add: reap_child_def registered_def cpu_of_def Let_def)

lemma reap_list:
  assumes hooks: "quiet_hooks call_hook"
  shows "own_inv M \<Longrightarrow> distinct is \<Longrightarrow> M' = fold (reap_child (coop_ops cfg) call_hook) is M \<Longrightarrow>
    own_inv M' \<and> (\<forall>i. registered M' i \<longleftrightarrow> registered M i \<and> \<not> (i \<in> set is \<and> halted (cpu_of M i))) \<and>
    (\<forall>i. registered M' i \<longrightarrow> halted (cpu_of M' i) = halted (cpu_of M i))"
proof (induction "is" arbitrary: M)
  case (Cons c js)
  let ?M1 = "reap_child (coop_ops cfg) call_hook c M"
  have one: "own_inv ?M1 \<and> (\<forall>i. registered ?M1 i \<longleftrightarrow> registered M i \<and> \<not> (i = c \<and> halted (cpu_of M i))) \<and>
    (\<forall>i. registered ?M1 i \<longrightarrow> halted (cpu_of ?M1 i) = halted (cpu_of M i))"
  proof (cases "registered M c \<and> halted (cpu_of M c)")
    case True
    then have child: "registered M c" "halted (cpu_of M c)" by blast+
    note r = reap_child_result [OF Cons.prems(1) hooks refl child]
    have "halted (cpu_of ?M1 i) = halted (cpu_of M i)" if "registered ?M1 i" for i using r(6) [OF that] r(4) by simp
    then show ?thesis using r(2) r(5) child(2) by blast
  next
    case False
    have eq: "?M1 = M" by (rule reap_child_skip [OF Cons.prems(1) False])
    show ?thesis unfolding eq using Cons.prems(1) False by blast
  qed
  have "own_inv M' \<and> (\<forall>i. registered M' i \<longleftrightarrow> registered ?M1 i \<and> \<not> (i \<in> set js \<and> halted (cpu_of ?M1 i))) \<and>
    (\<forall>i. registered M' i \<longrightarrow> halted (cpu_of M' i) = halted (cpu_of ?M1 i))"
  proof (rule Cons.IH [OF conjunct1 [OF one]])
    show "distinct js" using Cons.prems(2) by simp
    show "M' = fold (reap_child (coop_ops cfg) call_hook) js ?M1" using Cons.prems(3) by simp
  qed
  then show ?case
  proof (elim conjE, intro conjI allI)
    fix i
    assume M': "\<forall>i. registered M' i \<longleftrightarrow> registered ?M1 i \<and> \<not> (i \<in> set js \<and> halted (cpu_of ?M1 i))"
      "\<forall>i. registered M' i \<longrightarrow> halted (cpu_of M' i) = halted (cpu_of ?M1 i)"
    have c: "c \<notin> set js" using Cons.prems(2) by simp
    have i: "registered ?M1 i \<longleftrightarrow> registered M i \<and> \<not> (i = c \<and> halted (cpu_of M i))"
      "registered ?M1 i \<Longrightarrow> halted (cpu_of ?M1 i) = halted (cpu_of M i)" using one by blast+
    show "registered M' i \<longleftrightarrow> registered M i \<and> \<not> (i \<in> set (c # js) \<and> halted (cpu_of M i))"
      using M'(1) [rule_format, of i] i c by (cases "i = c"; cases "registered M i") simp_all
    show "registered M' i \<longrightarrow> halted (cpu_of M' i) = halted (cpu_of M i)"
      using M' [rule_format, of i] i by blast
  qed
qed simp

end
