(* ===== verification/VM_System_Init.thy ===== *)
theory VM_System_Init
  imports VM_System_Reap VM_Sched_Policy
begin

text \<open>
  Starting a system: \<open>vm_system_init\<close> carves the two slabs and installs the handlers, and the state
  it leaves satisfies the invariants the other theories keep.
\<close>

section \<open>The handlers\<close>

lemma fill_defaults_fields [simp]:
  "yc_shared_storage (fill_defaults c) = yc_shared_storage c"
  "yc_shared_storage_size (fill_defaults c) = yc_shared_storage_size c"
  "yc_local_storage (fill_defaults c) = yc_local_storage c"
  "yc_local_storage_size (fill_defaults c) = yc_local_storage_size c"
  "yc_max_vms (fill_defaults c) = (if yc_max_vms c = 0 then 8 else yc_max_vms c)"
  "yc_spawn_data_kb (fill_defaults c) = (if yc_spawn_data_kb c = 0 then 16 else yc_spawn_data_kb c)"
  by (simp_all add: fill_defaults_def Let_def)

lemma local_required_filled:
  "slab_required_bytes (local_bins (yc_max_vms (fill_defaults c)) (yc_spawn_data_kb (fill_defaults c))) =
   vm_system_local_required (yc_max_vms c) (yc_spawn_data_kb c)"
  by (simp add: vm_system_local_required_def Let_def)

lemma cpu_handlers_installed:
  obtains r where "vm_ecall_install_cpu_handlers (vm_ecall_router_init :: 'e handler VmEcallRouter) = (True, r)"
    and "handler_of r = map_of cpu_handlers"
proof -
  obtain ok r where run: "vm_ecall_install_cpu_handlers (vm_ecall_router_init :: 'e handler VmEcallRouter) = (ok, r)"
    by force
  have d: "distinct (map fst ([] @ cpu_handlers))" by (simp add: cpu_handlers_def)
  note all = ecall_table.install_all_or_nothing [OF run [unfolded vm_ecall_install_cpu_handlers_def] d]
  have ok: "ok" using all by (simp add: handler_of_init) (simp add: cpu_handlers_def slot_for_def)
  then have "handler_of r = map_of cpu_handlers" using all by (simp add: map_add_def handler_of_init fun_eq_iff split: option.splits)
  then show thesis using that run ok by simp
qed

lemma system_handlers_installed:
  assumes "handler_of (r :: 'e sys_handler VmEcallRouter) = map_of cpu_handlers"
  obtains r' where "install_system_handlers ops frame r = (True, r')"
    and "handler_of r' = map_of cpu_handlers ++ map_of (system_handlers ops frame)"
proof -
  obtain ok r' where run: "install_system_handlers ops frame r = (ok, r')" by force
  have d: "distinct (map fst ([] @ system_handlers ops frame))" by (simp add: system_handlers_def)
  note all = ecall_table.install_all_or_nothing [OF run [unfolded install_system_handlers_def] d]
  have ok: "ok" using all assms by (simp add: cpu_handlers_def) (simp add: system_handlers_def slot_for_def)
  then show thesis using that all run assms by simp
qed

section \<open>The state after a start\<close>

definition storage_ok :: "VmSystemConfig \<Rightarrow> bool" where
  "storage_ok c \<longleftrightarrow> 0 < yc_shared_storage c \<and> 0 < yc_shared_storage_size c \<and>
     0 < yc_local_storage c \<and> 0 < yc_local_storage_size c \<and>
     yc_shared_storage c + unat (yc_shared_storage_size c) < 2 ^ 64 \<and>
     yc_local_storage c + unat (yc_local_storage_size c) < 2 ^ 64 \<and>
     (yc_shared_storage c + unat (yc_shared_storage_size c) \<le> yc_local_storage c \<or>
      yc_local_storage c + unat (yc_local_storage_size c) + 8 \<le> yc_shared_storage c)"

definition fresh_system :: "'e sysm \<Rightarrow> bool" where
  "fresh_system M \<longleftrightarrow> own_inv M \<and> shared_live M = {} \<and> local_live M = {} \<and>
     (\<forall>i. \<not> registered M i) \<and> (\<forall>i. tracked M i = {})"

lemma sched_started: "fst (vm_sched_init (Some c)) = zero_sched"
  by (simp add: vm_sched_init_def Let_def)

lemma init_pools:
  assumes st: "storage_ok c" and sh: "slab_required_bytes scfg \<le> unat (yc_shared_storage_size c)"
    and lo: "slab_required_bytes lcfg \<le> unat (yc_local_storage_size c)"
    and i1: "slab_init a0 m (yc_shared_storage c) (unat (yc_shared_storage_size c)) scfg lk = (r1, a1, m1)"
    and i2: "slab_init b0 m1 (yc_local_storage c) (unat (yc_local_storage_size c)) lcfg lk = (r2, b1, m2)"
    and M: "M = \<lparr>mc_sched = zero_sched, mc_cpus = cpus, mc_mem = m2,
        mc_ext = (zero_system e)\<lparr>sy_config := c, sy_shared := a1, sy_local := b1\<rparr>\<rparr>"
  shows "r1 = SLAB_OK" "r2 = SLAB_OK" "fresh_system M"
    "x \<notin> extent (yc_shared_storage c) (unat (yc_shared_storage_size c)) \<Longrightarrow>
     x \<notin> extent (yc_local_storage c) (unat (yc_local_storage_size c)) \<Longrightarrow> m2 x = m x"
    "\<forall>i<16. btop a1 i = cnt scfg i \<and> btop b1 i = cnt lcfg i"
    "region b1 = yc_local_storage c" "region_bytes b1 = unat (yc_local_storage_size c)"
proof -
  have s: "slab_inv a1 m1 \<and> slab_live a1 m1 = {} \<and> r1 = SLAB_OK \<and> (\<forall>i<16. btop a1 i = cnt scfg i)"
    by (rule slab_init_establishes [OF _ _ sh, of "yc_shared_storage c" a0 m lk]) (use st i1 in \<open>auto simp: storage_ok_def\<close>)
  have l: "slab_inv b1 m2 \<and> slab_live b1 m2 = {} \<and> r2 = SLAB_OK \<and> (\<forall>i<16. btop b1 i = cnt lcfg i)"
    by (rule slab_init_establishes [OF _ _ lo, of "yc_local_storage c" b0 m1 lk]) (use st i2 in \<open>auto simp: storage_ok_def\<close>)
  show r: "r1 = SLAB_OK" "r2 = SLAB_OK" and "\<forall>i<16. btop a1 i = cnt scfg i \<and> btop b1 i = cnt lcfg i" using s l by blast+
  note w1 = slab_init_writes_inside [OF i1 [unfolded r]] and w2 = slab_init_writes_inside [OF i2 [unfolded r]]
  show "m2 x = m x" if "x \<notin> extent (yc_shared_storage c) (unat (yc_shared_storage_size c))"
     "x \<notin> extent (yc_local_storage c) (unat (yc_local_storage_size c))"
    using w1 [OF that(1)] w2 [OF that(2)] by simp
  note reg = slab_init_region [OF i1 [unfolded r]] slab_init_region [OF i2 [unfolded r]]
  show "region b1 = yc_local_storage c" "region_bytes b1 = unat (yc_local_storage_size c)" by (rule reg)+
  have dis: "extent (region b1) (region_bytes b1) \<inter> extent (region a1) (region_bytes a1) = {}"
    using st by (auto simp: reg storage_ok_def)
  have same: "m2 x = m1 x" if "x \<in> extent (region a1) (region_bytes a1)" for x
    using w2 [of x] dis that unfolding reg by blast
  have a: "slab_inv a1 m2" "slab_live a1 m2 = {}"
    using slab_inv_local [OF conjunct1 [OF s] same] s by simp_all
  have sh_inv: "shared_inv M"
    using a(1) l dis reg by (auto simp: M shared_inv_def pools_ok_def shared_extent_def local_extent_def zero_system_def simp del: in_extent)
  have "sched_inv M" by (simp add: M sched_inv_def slot_views zero_sched_def)
  moreover have no: "\<not> registered M i" "tracked M i = {}" for i
    by (simp_all add: M registered_def zero_sched_def zero_system_def)
  moreover have "foreign M (yc_shared_storage (sy_config (mc_ext M)))"
    using st reg by (auto simp: foreign_def M storage_ok_def)
  ultimately have "own_inv M" using sh_inv by (simp add: own_inv_def M zero_sched_def zero_system_def)
  then show "fresh_system M" using no a(2) l by (simp add: fresh_system_def M)
qed

text \<open>
  The two steps of a start, read off the definition.
\<close>

lemma init_unfold:
  assumes "storage_ok cfg" and "vm_system_init cb cfg frame M = (res, M')"
  obtains r1 a1 m1 r2 b1 m2 where
    "slab_init (zero_slab slab_null_locker) (mc_mem M) (yc_shared_storage (fill_defaults cfg))
       (unat (yc_shared_storage_size (fill_defaults cfg))) (yc_slab_config (fill_defaults cfg)) slab_null_locker = (r1, a1, m1)"
    "slab_init (zero_slab slab_null_locker) m1 (yc_local_storage (fill_defaults cfg))
       (unat (yc_local_storage_size (fill_defaults cfg)))
       (local_bins (yc_max_vms (fill_defaults cfg)) (yc_spawn_data_kb (fill_defaults cfg))) slab_null_locker = (r2, b1, m2)"
    "res \<noteq> None \<longleftrightarrow> r1 = SLAB_OK \<and> r2 = SLAB_OK"
    "\<And>sc. res = Some sc \<Longrightarrow> M' = \<lparr>mc_sched = zero_sched, mc_cpus = mc_cpus M, mc_mem = m2,
        mc_ext = (zero_system (sy_env (mc_ext M)))\<lparr>sy_config := fill_defaults cfg, sy_shared := a1, sy_local := b1\<rparr>\<rparr> \<and>
      (\<exists>r0 r. ecall_router sc = Some r \<and> handler_of r = map_of cpu_handlers ++
        map_of (system_handlers (coop_ops (sched_config_of cb (fill_defaults cfg) r0)) frame))"
proof -
  define c where "c = fill_defaults cfg"
  obtain r1 a1 m1 where i1: "slab_init (zero_slab slab_null_locker :: 'a SlabAllocator) (mc_mem M) (yc_shared_storage c)
       (unat (yc_shared_storage_size c)) (yc_slab_config c) slab_null_locker = (r1, a1, m1)" by (metis prod_cases3)
  obtain r2 b1 m2 where i2: "slab_init (zero_slab slab_null_locker :: 'a SlabAllocator) m1 (yc_local_storage c)
       (unat (yc_local_storage_size c)) (local_bins (yc_max_vms c) (yc_spawn_data_kb c)) slab_null_locker = (r2, b1, m2)"
    by (metis prod_cases3)
  obtain r0 where r0: "vm_ecall_install_cpu_handlers (vm_ecall_router_init :: 'a sys_handler VmEcallRouter) = (True, r0)"
    "handler_of r0 = map_of cpu_handlers" by (rule cpu_handlers_installed)
  obtain r where r: "install_system_handlers (coop_ops (sched_config_of cb c r0)) frame r0 = (True, r)"
    "handler_of r = map_of cpu_handlers ++ map_of (system_handlers (coop_ops (sched_config_of cb c r0)) frame)"
    by (rule system_handlers_installed [OF r0(2)])
  have ne: "yc_shared_storage cfg \<noteq> 0" "yc_shared_storage_size cfg \<noteq> 0" "yc_local_storage cfg \<noteq> 0" "yc_local_storage_size cfg \<noteq> 0"
    using assms(1) by (auto simp: storage_ok_def)
  have z: "sy_shared (zero_system e) = zero_slab slab_null_locker" "sy_local (zero_system e) = zero_slab slab_null_locker" for e :: 'a
    by (simp_all add: zero_system_def)
  note run = assms(2) [unfolded vm_system_init_def c_def [symmetric] Let_def]
  have res: "res \<noteq> None \<longleftrightarrow> r1 = SLAB_OK \<and> r2 = SLAB_OK"
    using run ne i1 i2 r0(1) r(1)
    by (cases "r1 = SLAB_OK"; cases "r2 = SLAB_OK") (auto simp: z upd_sys_def vm_sched_init_def Let_def)
  have suc: "M' = \<lparr>mc_sched = zero_sched, mc_cpus = mc_cpus M, mc_mem = m2,
        mc_ext = (zero_system (sy_env (mc_ext M)))\<lparr>sy_config := c, sy_shared := a1, sy_local := b1\<rparr>\<rparr> \<and>
      ecall_router sc = Some r" if "res = Some sc" for sc
  proof -
    have "r1 = SLAB_OK" "r2 = SLAB_OK" using that res by auto
    then show ?thesis using run ne i1 i2 r0(1) r(1) that
      by (auto simp: z upd_sys_def vm_sched_init_def Let_def sched_config_of_def)
  qed
  show thesis
    by (rule that [OF i1 [unfolded c_def] i2 [unfolded c_def] res])
      (use suc r(2) in \<open>simp_all only: c_def, blast+\<close>)
qed

lemma system_start_result:
  assumes "storage_ok cfg" and "vm_system_init cb cfg frame M = (res, M')"
  shows "(res \<noteq> None \<longleftrightarrow>
      slab_required_bytes (yc_slab_config (fill_defaults cfg)) \<le> unat (yc_shared_storage_size cfg) \<and>
      vm_system_local_required (yc_max_vms cfg) (yc_spawn_data_kb cfg) \<le> unat (yc_local_storage_size cfg)) \<and>
    (\<forall>sc. res = Some sc \<longrightarrow> fresh_system M' \<and> sy_config (mc_ext M') = fill_defaults cfg \<and> mc_cpus M' = mc_cpus M \<and>
      (\<forall>i<16. btop (sy_shared (mc_ext M')) i = cnt (yc_slab_config (fill_defaults cfg)) i \<and>
         btop (sy_local (mc_ext M')) i = cnt (local_bins (yc_max_vms (fill_defaults cfg)) (yc_spawn_data_kb (fill_defaults cfg))) i) \<and>
      region (sy_local (mc_ext M')) = yc_local_storage cfg \<and> region_bytes (sy_local (mc_ext M')) = unat (yc_local_storage_size cfg) \<and>
      (\<forall>x. x \<notin> extent (yc_shared_storage cfg) (unat (yc_shared_storage_size cfg)) \<longrightarrow>
         x \<notin> extent (yc_local_storage cfg) (unat (yc_local_storage_size cfg)) \<longrightarrow> mc_mem M' x = mc_mem M x) \<and>
      (\<exists>r0 r. ecall_router sc = Some r \<and> handler_of r = map_of cpu_handlers ++
         map_of (system_handlers (coop_ops (sched_config_of cb (fill_defaults cfg) r0)) frame)))"
proof (rule init_unfold [OF assms])
  fix r1 a1 m1 r2 b1 m2
  assume i1: "slab_init (zero_slab slab_null_locker) (mc_mem M) (yc_shared_storage (fill_defaults cfg))
       (unat (yc_shared_storage_size (fill_defaults cfg))) (yc_slab_config (fill_defaults cfg)) slab_null_locker = (r1, a1, m1)"
    and i2: "slab_init (zero_slab slab_null_locker) m1 (yc_local_storage (fill_defaults cfg))
       (unat (yc_local_storage_size (fill_defaults cfg)))
       (local_bins (yc_max_vms (fill_defaults cfg)) (yc_spawn_data_kb (fill_defaults cfg))) slab_null_locker = (r2, b1, m2)"
    and res: "res \<noteq> None \<longleftrightarrow> r1 = SLAB_OK \<and> r2 = SLAB_OK"
    and suc: "\<And>sc. res = Some sc \<Longrightarrow> M' = \<lparr>mc_sched = zero_sched, mc_cpus = mc_cpus M, mc_mem = m2,
        mc_ext = (zero_system (sy_env (mc_ext M)))\<lparr>sy_config := fill_defaults cfg, sy_shared := a1, sy_local := b1\<rparr>\<rparr> \<and>
      (\<exists>r0 r. ecall_router sc = Some r \<and> handler_of r = map_of cpu_handlers ++
        map_of (system_handlers (coop_ops (sched_config_of cb (fill_defaults cfg) r0)) frame))"
  have st: "storage_ok (fill_defaults cfg)" using assms(1) by (simp add: storage_ok_def)
  have need: "slab_required_bytes (yc_slab_config (fill_defaults cfg)) \<le> unat (yc_shared_storage_size cfg)" if "r1 = SLAB_OK"
  proof (rule ccontr)
    assume "\<not> ?thesis"
    then show False using slab_init_refuses i1 that by (metis fill_defaults_fields(2) fst_conv not_le)
  qed
  have need2: "vm_system_local_required (yc_max_vms cfg) (yc_spawn_data_kb cfg) \<le> unat (yc_local_storage_size cfg)" if "r2 = SLAB_OK"
  proof (rule ccontr)
    assume "\<not> ?thesis"
    then show False using slab_init_refuses i2 that by (metis fill_defaults_fields(4) fst_conv local_required_filled not_le)
  qed
  note pools = init_pools [OF st _ _ i1 i2 refl, unfolded local_required_filled fill_defaults_fields(1-4)]
  show ?thesis
  proof (intro conjI iffI allI impI)
    assume "res \<noteq> None"
    then show "slab_required_bytes (yc_slab_config (fill_defaults cfg)) \<le> unat (yc_shared_storage_size cfg)"
      "vm_system_local_required (yc_max_vms cfg) (yc_spawn_data_kb cfg) \<le> unat (yc_local_storage_size cfg)"
      using res need need2 by blast+
  next
    assume "slab_required_bytes (yc_slab_config (fill_defaults cfg)) \<le> unat (yc_shared_storage_size cfg) \<and>
      vm_system_local_required (yc_max_vms cfg) (yc_spawn_data_kb cfg) \<le> unat (yc_local_storage_size cfg)"
    then show "res \<noteq> None" using res pools(1,2) by blast
  next
    fix sc assume sc: "res = Some sc"
    then have n: "slab_required_bytes (yc_slab_config (fill_defaults cfg)) \<le> unat (yc_shared_storage_size cfg)"
      "vm_system_local_required (yc_max_vms cfg) (yc_spawn_data_kb cfg) \<le> unat (yc_local_storage_size cfg)"
      using res need need2 by blast+
    note s = suc [OF sc]
    show "fresh_system M'" using pools(3) [OF n] s by simp
    show "btop (sy_shared (mc_ext M')) i = cnt (yc_slab_config (fill_defaults cfg)) i"
      "btop (sy_local (mc_ext M')) i = cnt (local_bins (yc_max_vms (fill_defaults cfg)) (yc_spawn_data_kb (fill_defaults cfg))) i"
      if "i < 16" for i using pools(5) [OF n] that s by auto
    show "region (sy_local (mc_ext M')) = yc_local_storage cfg" "region_bytes (sy_local (mc_ext M')) = unat (yc_local_storage_size cfg)"
      using pools(6,7) [OF n] s by simp_all
    show "sy_config (mc_ext M') = fill_defaults cfg" "mc_cpus M' = mc_cpus M" using s by simp_all
    show "mc_mem M' x = mc_mem M x" if "x \<notin> extent (yc_shared_storage cfg) (unat (yc_shared_storage_size cfg))"
      "x \<notin> extent (yc_local_storage cfg) (unat (yc_local_storage_size cfg))" for x
      using pools(4) [OF n that] s by simp
    show "\<exists>r0 r. ecall_router sc = Some r \<and> handler_of r = map_of cpu_handlers ++
        map_of (system_handlers (coop_ops (sched_config_of cb (fill_defaults cfg) r0)) frame)" using s by blast
  qed
qed

text \<open>
  C27. Starting a system on two storage areas that do not overlap (and leave 8 bytes between the
  local one and a shared one behind it) succeeds exactly when the areas hold what
  \<open>slab_required_bytes\<close> and \<open>vm_system_local_required\<close> ask for. Then every invariant of the
  running system holds, nothing is allocated, tracked or registered, every block of every bin is free, no byte outside the two
  areas has changed, and each of the twenty syscalls of the CPU and system tables reaches its handler.
\<close>

theorem system_start:
  assumes "storage_ok cfg" and "vm_system_init cb cfg frame M = (res, M')"
  shows "(res \<noteq> None \<longleftrightarrow>
      slab_required_bytes (yc_slab_config (fill_defaults cfg)) \<le> unat (yc_shared_storage_size cfg) \<and>
      vm_system_local_required (yc_max_vms cfg) (yc_spawn_data_kb cfg) \<le> unat (yc_local_storage_size cfg)) \<and>
    (\<forall>sc. res = Some sc \<longrightarrow> fresh_system M' \<and> sy_config (mc_ext M') = fill_defaults cfg \<and> mc_cpus M' = mc_cpus M \<and>
      (\<forall>i<16. btop (sy_shared (mc_ext M')) i = cnt (yc_slab_config (fill_defaults cfg)) i \<and>
         btop (sy_local (mc_ext M')) i = cnt (local_bins (yc_max_vms (fill_defaults cfg)) (yc_spawn_data_kb (fill_defaults cfg))) i) \<and>
      region (sy_local (mc_ext M')) = yc_local_storage cfg \<and> region_bytes (sy_local (mc_ext M')) = unat (yc_local_storage_size cfg) \<and>
      (\<forall>x. x \<notin> extent (yc_shared_storage cfg) (unat (yc_shared_storage_size cfg)) \<longrightarrow>
         x \<notin> extent (yc_local_storage cfg) (unat (yc_local_storage_size cfg)) \<longrightarrow> mc_mem M' x = mc_mem M x) \<and>
      (\<exists>r0 r. ecall_router sc = Some r \<and> handler_of r = map_of cpu_handlers ++
         map_of (system_handlers (coop_ops (sched_config_of cb (fill_defaults cfg) r0)) frame)))"
  by (rule system_start_result [OF assms])

section \<open>A concrete system\<close>

definition demo_storage :: VmSystemConfig where
  "demo_storage = sy_config (zero_system ())\<lparr>yc_shared_storage := 0x10000, yc_shared_storage_size := 0x100000,
     yc_local_storage := 0x1000000, yc_local_storage_size := 0x1000000\<rparr>"

definition demo_callbacks :: "unit VmSystemCallbacks" where
  "demo_callbacks = \<lparr>ycb_trap_handler = None, ycb_idle_handler = None, ycb_tick_source = None\<rparr>"

definition demo_blank :: "unit sysm" where
  "demo_blank = \<lparr>mc_sched = zero_sched, mc_cpus = (\<lambda>_. zero_cpu), mc_mem = store_bytes (\<lambda>_. 0) 200 demo_elf, mc_ext = zero_system ()\<rparr>"

definition demo_system :: "unit sysm" where
  "demo_system = snd (vm_system_init demo_callbacks demo_storage 0x1000 demo_blank)"

lemma demo_storage_ok: "storage_ok demo_storage"
  by (simp add: storage_ok_def demo_storage_def)

lemma fold_add_bins:
  "fold (\<lambda>i (c :: SlabConfig). c(i := c i + s)) [0..<n] c = (\<lambda>i. if i < n then c i + s else c i)"
  by (induction n) (auto simp: fun_eq_iff less_Suc_eq)

lemma default_local_bins:
  "local_bins 8 16 = (\<lambda>i. if i < 10 then (if i = 7 \<or> i = 4 then 18 else 9) else if i = 10 then 9 else 0)"
proof -
  have b: "slab_bin_for_size 304 = 4" "slab_bin_for_size 2048 = 7" "slab_bin_for_size 16384 = 10" by code_simp+
  show ?thesis by (auto simp: local_bins_def Let_def b fold_add_bins per_bin_slots_def simp del: upt_Suc)
qed

lemma demo_storage_fits:
  "slab_required_bytes (yc_slab_config (fill_defaults demo_storage)) \<le> unat (yc_shared_storage_size demo_storage)"
  "vm_system_local_required (yc_max_vms demo_storage) (yc_spawn_data_kb demo_storage) \<le> unat (yc_local_storage_size demo_storage)"
proof -
  have u: "[0..<16] = [0, 1, 2, 3, 4, 5, 6, 7, 8, 9, 10, 11, 12, 13, 14, 15 :: nat]" by (simp add: upt_rec)
  have "yc_slab_config (fill_defaults demo_storage) = DEFAULT_SLAB_BUCKETS"
    by (simp add: fill_defaults_def Let_def demo_storage_def zero_system_def DEFAULT_SLAB_BUCKETS_def fun_eq_iff list_ex_iff)
  then show "slab_required_bytes (yc_slab_config (fill_defaults demo_storage)) \<le> unat (yc_shared_storage_size demo_storage)"
    by (simp add: slab_required_bytes_def u DEFAULT_SLAB_BUCKETS_def demo_storage_def zero_system_def)
  show "vm_system_local_required (yc_max_vms demo_storage) (yc_spawn_data_kb demo_storage) \<le> unat (yc_local_storage_size demo_storage)"
    by (simp add: vm_system_local_required_def default_local_bins slab_required_bytes_def u demo_storage_def zero_system_def)
qed

lemma demo_system_fresh:
  "fresh_system demo_system" "sy_config (mc_ext demo_system) = fill_defaults demo_storage"
  "\<forall>i<16. btop (sy_shared (mc_ext demo_system)) i = cnt (yc_slab_config (fill_defaults demo_storage)) i \<and>
     btop (sy_local (mc_ext demo_system)) i = cnt (local_bins 8 16) i"
  "region (sy_local (mc_ext demo_system)) = 0x1000000" "region_bytes (sy_local (mc_ext demo_system)) = 0x1000000"
  "\<forall>x < 0x10000. mc_mem demo_system x = mc_mem demo_blank x"
  using system_start_result [where cfg = demo_storage and cb = demo_callbacks and frame = "0x1000" and M = demo_blank,
      OF demo_storage_ok prod.collapse [symmetric]] demo_storage_fits
  by (auto simp: demo_system_def demo_storage_def zero_system_def)

theorem system_start_witness: "fst (vm_system_init demo_callbacks demo_storage 0x1000 demo_blank) \<noteq> None"
  using system_start [where cfg = demo_storage and cb = demo_callbacks and frame = "0x1000" and M = demo_blank,
      OF demo_storage_ok prod.collapse [symmetric]] demo_storage_fits by blast

end
