(* ===== verification/VM_Loader_Own.thy ===== *)
theory VM_Loader_Own
  imports VM_Loader_Safe
begin

text \<open>
  Who owns what a load allocates: after any load, accepted or not, each new block of the arena is
  the base of exactly one region of the CPU, so that freeing the regions' bases undoes the
  load. For an image with two segments for one region only the inclusion holds, and the first
  block is lost.
\<close>

section \<open>The blocks the regions point at\<close>

definition outside :: "'e SlabAllocator \<Rightarrow> hptr \<Rightarrow> bool" where
  "outside a p \<longleftrightarrow> p - 8 < region a \<or> p - 8 \<ge> region a + region_bytes a"

definition bases_in :: "'e SlabAllocator \<Rightarrow> u32 list \<Rightarrow> (u32 \<Rightarrow> VmRegion) \<Rightarrow> hptr list" where
  "bases_in a is rs = filter (\<lambda>b. b \<noteq> 0 \<and> \<not> outside a b) (map (\<lambda>r. r_base (rs r)) is)"

abbreviation arena_bases :: "'e SlabAllocator \<Rightarrow> (u32 \<Rightarrow> VmRegion) \<Rightarrow> hptr list" where
  "arena_bases a \<equiv> bases_in a [0, 1, 2]"

lemma filter_map_update:
  assumes "distinct is" "r \<in> set is" "distinct (filter P (map f is))" "P b \<Longrightarrow> b \<notin> set (filter P (map f is))"
  shows "distinct (filter P (map (f(r := b)) is))"
    "set (filter P (map (f(r := b)) is)) \<subseteq> {x. x = b \<and> P x} \<union> set (filter P (map f is))"
    "\<not> P (f r) \<Longrightarrow> set (filter P (map (f(r := b)) is)) = {x. x = b \<and> P x} \<union> set (filter P (map f is))"
proof -
  show "distinct (filter P (map (f(r := b)) is))"
    using assms by (induction "is") (auto simp: map_fun_upd split: if_splits)
qed (use assms(2) in auto)

lemma bases_update:
  assumes "distinct is" "r \<in> set is" "distinct (bases_in a is rs)" "b \<noteq> 0 \<and> \<not> outside a b \<longrightarrow> b \<notin> set (bases_in a is rs)"
    and rs': "rs' = rs(r := \<lparr>r_base = b, r_length = l, r_writable = w\<rparr>)"
  shows "distinct (bases_in a is rs')"
    "set (bases_in a is rs') \<subseteq> {x. x = b \<and> x \<noteq> 0 \<and> \<not> outside a x} \<union> set (bases_in a is rs)"
    "r_base (rs r) = 0 \<Longrightarrow>
     set (bases_in a is rs') = {x. x = b \<and> x \<noteq> 0 \<and> \<not> outside a x} \<union> set (bases_in a is rs)"
proof -
  have e: "(\<lambda>q. r_base (rs' q)) = (\<lambda>q. r_base (rs q))(r := b)" by (auto simp: rs')
  note u = filter_map_update [OF assms(1,2), of "\<lambda>b. b \<noteq> 0 \<and> \<not> outside a b" "\<lambda>q. r_base (rs q)" b, folded e, folded bases_in_def]
  show "distinct (bases_in a is rs')"
    "set (bases_in a is rs') \<subseteq> {x. x = b \<and> x \<noteq> 0 \<and> \<not> outside a x} \<union> set (bases_in a is rs)"
    "r_base (rs r) = 0 \<Longrightarrow>
     set (bases_in a is rs') = {x. x = b \<and> x \<noteq> 0 \<and> \<not> outside a x} \<union> set (bases_in a is rs)"
    using u(1) [OF assms(3)] u(2) [OF assms(3)] u(3) [OF assms(3)] assms(4) by simp_all
qed

lemma live_inside:
  assumes "slab_inv a m" "p \<in> slab_live a m" shows "p \<noteq> 0" "\<not> outside a p"
proof -
  obtain i b where ib: "i < 16" "b < bcount a i" "p = user_at a i b" using assms(2) by (rule slab_liveE)
  have p: "p = block_at a i b + 8" unfolding ib(3) user_at_def block_at_def by (rule refl)
  have "block_at a i b < region a + region_bytes a" "region a \<le> block_at a i b"
    using block_bounds(1,2) [OF slab_inv_layout [OF assms(1)] ib(1,2)] btotal_ge [of i] by linarith+
  then show "\<not> outside a p" unfolding p outside_def by linarith
  show "p \<noteq> 0" unfolding p by simp
qed

lemma outside_cong: "region a' = region a \<Longrightarrow> region_bytes a' = region_bytes a \<Longrightarrow> outside a' = outside a"
  by (simp add: outside_def fun_eq_iff)

lemma bases_in_cong: "region a' = region a \<Longrightarrow> region_bytes a' = region_bytes a \<Longrightarrow> bases_in a' is = bases_in a is"
  unfolding bases_in_def using outside_cong [of a' a] by simp

section \<open>The invariant of a load\<close>

definition load_own :: "'e SlabAllocator \<Rightarrow> hmem \<Rightarrow> 'e load_state \<Rightarrow> bool" where
  "load_own a0 m0 = (\<lambda>(cpu, a, m, e).
     distinct (arena_bases a0 (regions cpu)) \<and>
     set (arena_bases a0 (regions cpu)) \<subseteq> slab_live a m - slab_live a0 m0 \<and>
     (r_length (regions cpu VM_REGION_DATA) = 0 \<longrightarrow> r_base (regions cpu VM_REGION_DATA) = 0))"

definition load_tight :: "'e SlabAllocator \<Rightarrow> hmem \<Rightarrow> 'e load_state \<Rightarrow> bool" where
  "load_tight a0 m0 = (\<lambda>(cpu, a, m, e).
     slab_live a m = slab_live a0 m0 \<union> set (arena_bases a0 (regions cpu)))"

text \<open>
  One segment, or the default data region: nothing has changed but perhaps the arena's failure
  count; or a region has been set, to a place outside the arena or to a new block.
\<close>

definition placed :: "hptr \<Rightarrow> 'e load_state \<Rightarrow> 'e load_state \<Rightarrow> bool" where
  "placed b = (\<lambda>(cpu, a, m, e) (cpu', a', m', e').
     (outside a b \<and> slab_live a' m' = slab_live a m \<or>
      b \<noteq> 0 \<and> \<not> outside a b \<and> b \<notin> slab_live a m \<and> slab_live a' m' = insert b (slab_live a m)))"

definition load_move :: "u32 \<Rightarrow> bool \<Rightarrow> 'e load_state \<Rightarrow> 'e load_state \<Rightarrow> bool" where
  "load_move r ok = (\<lambda>(cpu, a, m, e) (cpu', a', m', e').
     region a' = region a \<and> region_bytes a' = region_bytes a \<and> slab_inv a' m' \<and>
     (if ok then \<exists>b l w. cpu' = set_region r b l w cpu \<and> (r = VM_REGION_DATA \<longrightarrow> l \<noteq> 0) \<and>
          placed b (cpu, a, m, e) (cpu', a', m', e')
      else cpu' = cpu \<and> slab_live a' m' = slab_live a m))"

lemma load_move_own:
  assumes mv: "load_move r ok (cpu, a, m, e) (cpu', a', m', e')" and r: "r \<in> {0, 1, 2}"
    and own: "load_own a0 m0 (cpu, a, m, e)" and sub: "slab_live a0 m0 \<subseteq> slab_live a m"
    and reg: "region a = region a0" "region_bytes a = region_bytes a0"
  shows "load_own a0 m0 (cpu', a', m', e')"
    "r_base (regions cpu r) = 0 \<Longrightarrow> load_tight a0 m0 (cpu, a, m, e) \<Longrightarrow> load_tight a0 m0 (cpu', a', m', e')"
    "r' \<noteq> r \<Longrightarrow> regions cpu' r' = regions cpu r'"
    "vm_id cpu' = vm_id cpu" "halted cpu' = halted cpu"
proof -
  have o: "outside a = outside a0" by (rule outside_cong [OF reg])
  have d: "distinct (arena_bases a0 (regions cpu))" "set (arena_bases a0 (regions cpu)) \<subseteq> slab_live a m - slab_live a0 m0"
    "r_length (regions cpu 2) = 0 \<Longrightarrow> r_base (regions cpu 2) = 0"
    using own unfolding load_own_def prod.case by blast+
  have "load_own a0 m0 (cpu', a', m', e') \<and>
    (r_base (regions cpu r) = 0 \<longrightarrow> load_tight a0 m0 (cpu, a, m, e) \<longrightarrow> load_tight a0 m0 (cpu', a', m', e')) \<and>
    (\<forall>r'. r' \<noteq> r \<longrightarrow> regions cpu' r' = regions cpu r') \<and> vm_id cpu' = vm_id cpu \<and> halted cpu' = halted cpu"
  proof (cases ok)
    case False
    then have "cpu' = cpu" "slab_live a' m' = slab_live a m" using mv by (simp_all add: load_move_def)
    then show ?thesis using own by (simp add: load_own_def load_tight_def del: in_extent)
  next
    case True
    then obtain b l w where c: "cpu' = set_region r b l w cpu" "r = 2 \<longrightarrow> l \<noteq> 0"
      and pl: "outside a b \<and> slab_live a' m' = slab_live a m \<or>
        b \<noteq> 0 \<and> \<not> outside a b \<and> b \<notin> slab_live a m \<and> slab_live a' m' = insert b (slab_live a m)"
      using mv unfolding load_move_def placed_def by auto
    let ?rs = "(regions cpu)(r := \<lparr>r_base = b, r_length = l, r_writable = w\<rparr>)"
    have rs: "regions cpu' = ?rs" "vm_id cpu' = vm_id cpu" "halted cpu' = halted cpu" by (simp_all add: c(1) set_region_def)
    have len: "r_length (?rs 2) = 0 \<longrightarrow> r_base (?rs 2) = 0" using c(2) d(3) by simp
    have dis: "distinct [0, 1, 2 :: u32]" "r \<in> set [0, 1, 2]" using r by simp_all
    have new: "b \<noteq> 0 \<and> \<not> outside a0 b \<longrightarrow> b \<notin> set (arena_bases a0 (regions cpu))"
      using pl d(2) unfolding o by blast
    note ab = bases_update [OF dis d(1) new refl]
    have live: "slab_live a' m' = {x. x = b \<and> x \<noteq> 0 \<and> \<not> outside a0 x} \<union> slab_live a m"
      using pl unfolding o by (elim disjE conjE) auto
    have "{x. x = b \<and> x \<noteq> 0 \<and> \<not> outside a0 x} \<inter> slab_live a0 m0 = {}" using pl sub unfolding o by blast
    then have "set (arena_bases a0 ?rs) \<subseteq> slab_live a' m' - slab_live a0 m0" using ab(2) d(2) live by blast
    moreover have "slab_live a' m' = slab_live a0 m0 \<union> set (arena_bases a0 ?rs)"
      if "r_base (regions cpu r) = 0" "slab_live a m = slab_live a0 m0 \<union> set (arena_bases a0 (regions cpu))"
      using ab(3) [OF that(1)] that(2) live by blast
    ultimately show ?thesis using ab(1) len rs unfolding load_own_def load_tight_def prod.case by simp
  qed
  then show "load_own a0 m0 (cpu', a', m', e')"
    "r_base (regions cpu r) = 0 \<Longrightarrow> load_tight a0 m0 (cpu, a, m, e) \<Longrightarrow> load_tight a0 m0 (cpu', a', m', e')"
    "r' \<noteq> r \<Longrightarrow> regions cpu' r' = regions cpu r'"
    "vm_id cpu' = vm_id cpu" "halted cpu' = halted cpu" by blast+
qed

section \<open>Segments\<close>

text \<open>An allocation, written only inside the block it granted.\<close>

lemma alloc_write:
  assumes inv: "slab_inv a m" and al: "slab_alloc a m e n = (p, a', m1, e')"
    and wr: "\<And>x. p \<noteq> 0 \<Longrightarrow> x \<notin> extent p (slab_block_size a' m1 p) \<Longrightarrow> m2 x = m1 x" "p = 0 \<Longrightarrow> m2 = m1"
  shows "region a' = region a" "region_bytes a' = region_bytes a" "slab_inv a' m2"
    "p = 0 \<Longrightarrow> slab_live a' m2 = slab_live a m"
    "p \<noteq> 0 \<Longrightarrow> p \<notin> slab_live a m \<and> slab_live a' m2 = insert p (slab_live a m) \<and> \<not> outside a p"
proof -
  note geo = slab_alloc_geometry(1,2) [OF al]
  then show "region a' = region a" "region_bytes a' = region_bytes a" by blast+
  have "slab_inv a' m2 \<and> (p = 0 \<longrightarrow> slab_live a' m2 = slab_live a m) \<and>
    (p \<noteq> 0 \<longrightarrow> p \<notin> slab_live a m \<and> slab_live a' m2 = insert p (slab_live a m) \<and> \<not> outside a p)"
  proof (cases "p = 0")
    case True
    note r = slab_alloc_refuse [OF inv al [unfolded True]]
    show ?thesis using True r(1,2) wr(2) by simp
  next
    case False
    note g = slab_alloc_grant [OF inv al False]
    have p: "p \<in> slab_live a' m1" using g(3) by simp
    note w = slab_write_live [OF g(1) p wr(1) [OF False]]
    have "\<not> outside a' p" by (rule live_inside(2) [OF g(1) p])
    then show ?thesis using False w(1,2) g(2,3) outside_cong [OF geo] by simp
  qed
  then show "slab_inv a' m2" "p = 0 \<Longrightarrow> slab_live a' m2 = slab_live a m"
    "p \<noteq> 0 \<Longrightarrow> p \<notin> slab_live a m \<and> slab_live a' m2 = insert p (slab_live a m) \<and> \<not> outside a p" by blast+
qed

lemma alloc_granted_size:
  assumes "slab_inv a m" "slab_alloc a m e (ucast n) = (p, a', m', e')" "p \<noteq> 0" "unat (n :: u32) + 8 < 2 ^ 32"
  shows "unat n \<le> slab_block_size a' m' p"
  using slab_alloc_grant(4) [OF assms(1-3)] assms(4) unat_ucast_u64 [of n] by simp

text \<open>A place for an image: no byte of it, and not the 8 bytes before it, in the arena.\<close>

definition image_apart :: "'e SlabAllocator \<Rightarrow> hptr \<Rightarrow> u64 \<Rightarrow> bool" where
  "image_apart a elf elf_size \<longleftrightarrow> elf + unat elf_size \<le> region a \<or> region a + region_bytes a + 8 \<le> elf"

lemma image_outside:
  assumes "image_apart a elf elf_size" "slab_inv a m" "k < unat elf_size"
  shows "outside a (elf + k)"
proof -
  have "0 < region a" using slab_inv_layout [OF assms(2)] by (simp add: slab_layout_def)
  then show ?thesis using assms(1,3) unfolding image_apart_def outside_def by linarith
qed

text \<open>The segments a load applies: those it does not skip, each for a code or rodata region with bytes in the file.\<close>

definition loadable :: "u64 \<Rightarrow> u32 \<Rightarrow> u32 \<Rightarrow> u32 \<Rightarrow> u32 \<Rightarrow> bool" where
  "loadable elf_size offset filesz memsz vaddr \<longleftrightarrow> segment_ok elf_size offset filesz memsz vaddr \<and>
     (vaddr_to_region vaddr = VM_REGION_CODE \<or> vaddr_to_region vaddr = VM_REGION_RODATA \<longrightarrow> filesz \<noteq> 0)"

lemma loadable_data:
  assumes seg: "segment_ok elf_size offset filesz memsz vaddr" and reg: "vaddr_to_region vaddr = VM_REGION_DATA"
    and inv: "slab_inv a m" and size: "unat (region_data_size cfg) + 8 < 2 ^ 32" "region_data_size cfg \<noteq> 0"
    and ap: "apply_pt_load cfg elf offset filesz memsz vaddr (cpu, a, m, e) = (r, cpu', a', m', e')"
  shows "load_move VM_REGION_DATA (r = VM_LOAD_OK) (cpu, a, m, e) (cpu', a', m', e')"
proof (cases "region_data_size cfg < memsz")
  case True
  then show ?thesis using ap reg inv by (auto simp: apply_pt_load_def Let_def load_move_def)
next
  case small: False
  obtain dst a1 m1 e1 where al: "slab_alloc a m e (ucast (region_data_size cfg)) = (dst, a1, m1, e1)" by (metis prod_cases4)
  define m2 where "m2 = (if filesz > 0 then memcpy m1 dst (elf + unat offset) (unat filesz) else m1)"
  define m3 where "m3 = (if memsz > filesz then memset0 m2 (dst + unat filesz) (unat (memsz - filesz)) else m2)"
  show ?thesis
  proof (cases "dst = 0")
    case True
    note w = alloc_write [OF inv al _ refl]
    show ?thesis using ap reg small al True w(1-4) by (auto simp: apply_pt_load_def Let_def load_move_def)
  next
    case False
    note le = alloc_granted_size [OF inv al False size(1)]
    have ms: "unat memsz \<le> unat (region_data_size cfg)" using small by (simp add: word_less_nat_alt)
    have fs: "unat filesz \<le> unat memsz" using seg by (simp add: segment_ok_def word_le_nat_alt)
    have "unat (memsz - filesz) = unat memsz - unat filesz" if "filesz < memsz"
      using that by (intro unat_sub) (simp add: word_le_nat_alt word_less_nat_alt)
    then have out: "m3 x = m1 x" if "x \<notin> extent dst (slab_block_size a1 m1 dst)" for x
      using that le ms fs by (auto simp: m3_def m2_def memcpy_other memset0_other)
    note w = alloc_write [OF inv al out]
    have m3: "dst = 0 \<Longrightarrow> m3 = m1" using False by simp
    have eq: "r = VM_LOAD_OK" "cpu' = set_region VM_REGION_DATA dst (region_data_size cfg) True cpu" "a' = a1" "m' = m3" "e' = e1"
      using ap reg small al False by (auto simp: apply_pt_load_def Let_def m2_def m3_def)
    have "placed dst (cpu, a, m, e) (cpu', a', m', e')" using w(5) m3 False eq by (simp add: placed_def)
    then show ?thesis using w(1-3) m3 eq size(2) unfolding load_move_def by auto
  qed
qed

lemma loadable_ro:
  assumes seg: "loadable elf_size offset filesz memsz vaddr"
    and reg: "vaddr_to_region vaddr = VM_REGION_CODE \<or> vaddr_to_region vaddr = VM_REGION_RODATA"
    and inv: "slab_inv a m" and im: "image_apart a elf elf_size"
    and ap: "apply_pt_load cfg elf offset filesz memsz vaddr (cpu, a, m, e) = (r, cpu', a', m', e')"
  shows "load_move (vaddr_to_region vaddr) (r = VM_LOAD_OK) (cpu, a, m, e) (cpu', a', m', e')"
proof -
  have fz: "filesz \<noteq> 0" and so: "segment_ok elf_size offset filesz memsz vaddr" using seg reg by (auto simp: loadable_def)
  have nd: "vaddr_to_region vaddr \<noteq> VM_REGION_DATA" using reg by auto
  define mode where "mode = (if vaddr_to_region vaddr = VM_REGION_CODE then code_backing cfg else rodata_backing cfg)"
  show ?thesis
  proof (cases mode)
    case VM_BACKING_XIP
    have "unat offset < unat elf_size" using so fz by (auto simp: segment_ok_def word_less_nat_alt unat_gt_0 [symmetric])
    then have o: "outside a (elf + unat offset)" by (rule image_outside [OF im inv])
    have "(cpu', a', m', e') = (set_region (vaddr_to_region vaddr) (elf + unat offset) filesz False cpu, a, m, e)"
      if "r = VM_LOAD_OK"
      using ap reg VM_BACKING_XIP that by (auto simp: apply_pt_load_def Let_def mode_def [symmetric] split: if_splits)
    moreover have "(cpu', a', m', e') = (cpu, a, m, e)" if "r \<noteq> VM_LOAD_OK"
      using ap reg VM_BACKING_XIP that by (auto simp: apply_pt_load_def Let_def mode_def [symmetric] split: if_splits)
    ultimately show ?thesis using o inv nd by (auto simp: load_move_def placed_def)
  next
    case VM_BACKING_COPY_RAM
    obtain dst a1 m1 e1 where al: "slab_alloc a m e (ucast filesz) = (dst, a1, m1, e1)" by (metis prod_cases4)
    show ?thesis
    proof (cases "dst = 0")
      case True
      note w = alloc_write [OF inv al _ refl]
      have "r \<noteq> VM_LOAD_OK" "cpu' = cpu" "a' = a1" "m' = m1"
        using ap reg VM_BACKING_COPY_RAM al True by (auto simp: apply_pt_load_def Let_def mode_def [symmetric])
      then show ?thesis using True w(1-4) by (simp add: load_move_def)
    next
      case False
      have "unat filesz + 8 < 2 ^ 32" using so by (auto simp: segment_ok_def word_le_nat_alt)
      note le = alloc_granted_size [OF inv al False this]
      let ?m2 = "memcpy m1 dst (elf + unat offset) (unat filesz)"
      have out: "?m2 x = m1 x" if "x \<notin> extent dst (slab_block_size a1 m1 dst)" for x
        using that le by (intro memcpy_other) auto
      note w = alloc_write [OF inv al out]
      have eq: "r = VM_LOAD_OK" "cpu' = set_region (vaddr_to_region vaddr) dst filesz False cpu" "a' = a1" "m' = ?m2" "e' = e1"
        using ap reg VM_BACKING_COPY_RAM al False by (auto simp: apply_pt_load_def Let_def mode_def [symmetric])
      have "placed dst (cpu, a, m, e) (cpu', a', m', e')" using w(5) False eq by (simp add: placed_def)
      then show ?thesis using w(1-3) False eq nd unfolding load_move_def by auto
    qed
  qed
qed

lemma apply_pt_load_moves:
  assumes seg: "loadable elf_size offset filesz memsz vaddr"
    and inv: "slab_inv a m" and im: "image_apart a elf elf_size"
    and size: "unat (region_data_size cfg) + 8 < 2 ^ 32" "region_data_size cfg \<noteq> 0"
    and ap: "apply_pt_load cfg elf offset filesz memsz vaddr (cpu, a, m, e) = (r, cpu', a', m', e')"
  shows "load_move (vaddr_to_region vaddr) (r = VM_LOAD_OK) (cpu, a, m, e) (cpu', a', m', e')"
    "vaddr_to_region vaddr \<in> {0, 1, 2}"
proof -
  have so: "segment_ok elf_size offset filesz memsz vaddr" using seg by (simp add: loadable_def)
  then show "vaddr_to_region vaddr \<in> {0, 1, 2}" using vaddr_region_cases [of vaddr] by (auto simp: segment_ok_def)
  show "load_move (vaddr_to_region vaddr) (r = VM_LOAD_OK) (cpu, a, m, e) (cpu', a', m', e')"
  proof (cases "vaddr_to_region vaddr = VM_REGION_DATA")
    case True
    show ?thesis using loadable_data [OF so True inv size ap] unfolding True .
  next
    case False
    then have "vaddr_to_region vaddr = VM_REGION_CODE \<or> vaddr_to_region vaddr = VM_REGION_RODATA"
      using vaddr_region_cases [of vaddr] so by (auto simp: segment_ok_def)
    from loadable_ro [OF seg this inv im ap] show ?thesis .
  qed
qed

lemma default_data_moves:
  assumes inv: "slab_inv a m" and size: "unat (region_data_size cfg) + 8 < 2 ^ 32" "region_data_size cfg \<noteq> 0"
    and d: "default_data_region cfg (cpu, a, m, e) = (r, cpu', a', m', e')" and len: "r_length (regions cpu VM_REGION_DATA) = 0"
  shows "load_move VM_REGION_DATA (r = VM_LOAD_OK) (cpu, a, m, e) (cpu', a', m', e')"
proof -
  obtain dst a1 m1 e1 where al: "slab_alloc a m e (ucast (region_data_size cfg)) = (dst, a1, m1, e1)" by (metis prod_cases4)
  show ?thesis
  proof (cases "dst = 0")
    case True
    note w = alloc_write [OF inv al _ refl]
    show ?thesis using d len al True w(1-4) by (auto simp: default_data_region_def load_move_def)
  next
    case False
    note le = alloc_granted_size [OF inv al False size(1)]
    have out: "memset0 m1 dst (unat (region_data_size cfg)) x = m1 x" if "x \<notin> extent dst (slab_block_size a1 m1 dst)" for x
      using that le by (intro memset0_other) auto
    note w = alloc_write [OF inv al out]
    have eq: "r = VM_LOAD_OK" "cpu' = set_region VM_REGION_DATA dst (region_data_size cfg) True cpu" "a' = a1"
      "m' = memset0 m1 dst (unat (region_data_size cfg))" "e' = e1"
      using d len al False by (auto simp: default_data_region_def)
    have "placed dst (cpu, a, m, e) (cpu', a', m', e')" using w(5) False eq by (simp add: placed_def)
    then show ?thesis using w(1-3) False eq size(2) unfolding load_move_def by auto
  qed
qed

section \<open>The loop\<close>

definition applied :: "hmem \<Rightarrow> hptr \<Rightarrow> bool" where
  "applied m ph \<longleftrightarrow> p_type m ph = PT_LOAD \<and> \<not> (p_filesz m ph = 0 \<and> p_memsz m ph = 0)"

definition segment_regions :: "hmem \<Rightarrow> hptr list \<Rightarrow> u32 list" where
  "segment_regions m phs = map (\<lambda>ph. vaddr_to_region (p_vaddr m ph)) (filter (applied m) phs)"

lemma check_phdr_loadable:
  assumes "check_phdr m elf_size ph = VM_LOAD_OK" "applied m ph"
  shows "loadable elf_size (p_offset m ph) (p_filesz m ph) (p_memsz m ph) (p_vaddr m ph)"
proof -
  have seg: "segment_ok elf_size (p_offset m ph) (p_filesz m ph) (p_memsz m ph) (p_vaddr m ph)"
    by (rule check_phdr_segment [OF assms(1)]) (use assms(2) in \<open>auto simp: applied_def\<close>)
  have "validate_pt_load (p_vaddr m ph) (p_filesz m ph) (p_memsz m ph) (p_flags m ph) = VM_LOAD_OK"
    using assms by (auto simp: check_phdr_def applied_def split: if_splits)
  then have "vaddr_to_region (p_vaddr m ph) \<in> {0, 1} \<Longrightarrow> \<not> p_memsz m ph > p_filesz m ph"
    by (auto simp: validate_pt_load_def Let_def split: if_splits)
  then show ?thesis using seg assms(2) by (auto simp: loadable_def applied_def word_gt_0)
qed

definition same_vm :: "VmCpu \<Rightarrow> VmCpu \<Rightarrow> bool" where
  "same_vm c c' \<longleftrightarrow> regions c' VM_REGION_SHARED = regions c VM_REGION_SHARED \<and> vm_id c' = vm_id c \<and> halted c' = halted c"

lemma same_vm_refl [simp]: "same_vm c c" by (simp add: same_vm_def)

lemma same_vm_trans: "same_vm c c1 \<Longrightarrow> same_vm c1 c2 \<Longrightarrow> same_vm c c2" by (simp add: same_vm_def)

lemma load_move_same: 
  assumes "load_move r ok (cpu, a, m, e) (cpu', a', m', e')" "r \<in> {0, 1, 2}" "load_own a0 m0 (cpu, a, m, e)"
    "slab_live a0 m0 \<subseteq> slab_live a m" "region a = region a0" "region_bytes a = region_bytes a0"
  shows "same_vm cpu cpu'"
  using load_move_own(3) [OF assms, of 3] load_move_own(4,5) [OF assms] assms(2) by (auto simp: same_vm_def)

lemma apply_phdrs_own:
  assumes "elf \<noteq> 0" and size: "unat (region_data_size cfg) + 8 < 2 ^ 32" "region_data_size cfg \<noteq> 0"
    and apart: "extent elf (unat elf_size) \<inter> extent (region a0) (region_bytes a0) = {}" and im: "image_apart a0 elf elf_size"
  shows "load_inv (extent elf (unat elf_size)) a0 m0 (cpu, a, m, e) \<Longrightarrow> load_own a0 m0 (cpu, a, m, e) \<Longrightarrow>
    \<forall>ph \<in> set phs. check_phdr m0 elf_size ph = VM_LOAD_OK \<and> extent ph 32 \<subseteq> extent elf (unat elf_size) \<Longrightarrow>
    apply_phdrs cfg elf phs (cpu, a, m, e) = (r, cpu', a', m', e') \<Longrightarrow>
    load_own a0 m0 (cpu', a', m', e') \<and> same_vm cpu cpu' \<and>
    (distinct (segment_regions m0 phs) \<longrightarrow> (\<forall>q \<in> set (segment_regions m0 phs). r_base (regions cpu q) = 0) \<longrightarrow>
     load_tight a0 m0 (cpu, a, m, e) \<longrightarrow> load_tight a0 m0 (cpu', a', m', e'))"
proof (induction phs arbitrary: cpu a m e)
  case (Cons ph phs)
  note inv = Cons.prems(1) and own = Cons.prems(2)
  have si: "slab_inv a m" and reg: "region a = region a0" "region_bytes a = region_bytes a0"
    and sub: "slab_live a0 m0 \<subseteq> slab_live a m" and out: "\<And>x. x \<notin> extent (region a0) (region_bytes a0) \<Longrightarrow> m x = m0 x"
    using inv unfolding load_inv_def prod.case by blast+
  have hdr: "m x = m0 x" if "x \<in> extent ph 32" for x
    by (rule out) (use that Cons.prems(3) apart in \<open>auto simp del: in_extent\<close>)
  have same: "p_type m ph = p_type m0 ph" "p_offset m ph = p_offset m0 ph" "p_vaddr m ph = p_vaddr m0 ph"
    "p_filesz m ph = p_filesz m0 ph" "p_memsz m ph = p_memsz m0 ph"
    by (rule phdr_cong [OF hdr]; assumption)+
  have rest: "\<forall>ph \<in> set phs. check_phdr m0 elf_size ph = VM_LOAD_OK \<and> extent ph 32 \<subseteq> extent elf (unat elf_size)"
    using Cons.prems(3) by simp
  show ?case
  proof (cases "applied m0 ph")
    case False
    then have "apply_phdrs cfg elf phs (cpu, a, m, e) = (r, cpu', a', m', e')"
      using Cons.prems(4) by (auto simp: applied_def same split: if_splits)
    moreover have "segment_regions m0 (ph # phs) = segment_regions m0 phs" using False by (simp add: segment_regions_def)
    ultimately show ?thesis using Cons.IH [OF inv own rest] by simp
  next
    case True
    let ?q = "vaddr_to_region (p_vaddr m0 ph)"
    obtain ar c1 a1 m1 e1 where ap: "apply_pt_load cfg elf (p_offset m ph) (p_filesz m ph) (p_memsz m ph) (p_vaddr m ph) (cpu, a, m, e)
        = (ar, c1, a1, m1, e1)" by (metis prod_cases5)
    have g: "p_type m ph = PT_LOAD" "(p_filesz m ph = 0 \<and> p_memsz m ph = 0) = False" using True by (auto simp: applied_def same)
    note run = Cons.prems(4) [unfolded apply_phdrs.simps prod.case g ap Let_def, simplified]
    have ld: "loadable elf_size (p_offset m ph) (p_filesz m ph) (p_memsz m ph) (p_vaddr m ph)"
      using check_phdr_loadable [OF _ True] Cons.prems(3) same by simp
    have im': "image_apart a elf elf_size" using im by (simp add: image_apart_def reg)
    note mv = apply_pt_load_moves [OF ld si im' size ap, unfolded same]
    note mo = load_move_own [OF mv own sub reg] and sm = load_move_same [OF mv own sub reg]
    have inv1: "load_inv (extent elf (unat elf_size)) a0 m0 (c1, a1, m1, e1)"
      by (rule apply_pt_load_inv [OF inv assms(1) size(1) _ ap]) (use ld in \<open>simp add: loadable_def\<close>)
    have sr: "segment_regions m0 (ph # phs) = ?q # segment_regions m0 phs" using True by (simp add: segment_regions_def)
    show ?thesis
    proof (cases "ar = VM_LOAD_OK")
      case ok: True
      have "apply_phdrs cfg elf phs (c1, a1, m1, e1) = (r, cpu', a', m', e')"
        using run ok by simp
      note ih = Cons.IH [OF inv1 mo(1) rest this]
      have "load_tight a0 m0 (cpu', a', m', e')"
        if "distinct (segment_regions m0 (ph # phs))" "\<forall>q \<in> set (segment_regions m0 (ph # phs)). r_base (regions cpu q) = 0"
          "load_tight a0 m0 (cpu, a, m, e)"
      proof -
        have "load_tight a0 m0 (c1, a1, m1, e1)" using mo(2) that(2,3) sr by simp
        moreover have "\<forall>q \<in> set (segment_regions m0 phs). r_base (regions c1 q) = 0"
        proof
          fix q assume q: "q \<in> set (segment_regions m0 phs)"
          then have "q \<noteq> ?q" using that(1) unfolding sr by auto
          from mo(3) [OF this] show "r_base (regions c1 q) = 0" using q that(2) unfolding sr by simp
        qed
        ultimately show ?thesis using ih that(1) unfolding sr by simp
      qed
      then show ?thesis using ih same_vm_trans [OF sm] by blast
    next
      case bad: False
      then have "(cpu', a', m', e') = (c1, a1, m1, e1)" using run by simp
      then show ?thesis using mo(1,2) sm sr by simp
    qed
  qed
qed simp

text \<open>An image, if its header is accepted, has at most one segment for each region.\<close>

definition one_segment_each :: "hmem \<Rightarrow> hptr \<Rightarrow> u64 \<Rightarrow> bool" where
  "one_segment_each m elf elf_size \<longleftrightarrow>
     (check_ehdr m elf elf_size = VM_LOAD_OK \<longrightarrow> distinct (segment_regions m (elf_phdrs m elf)))"

lemma one_segment_cong:
  assumes same: "\<And>x. x \<in> extent elf (unat elf_size) \<Longrightarrow> m' x = m x"
  shows "one_segment_each m' elf elf_size = one_segment_each m elf elf_size"
proof (cases "elf_size < ELF32_EHDR_SIZE")
  case True
  then show ?thesis by (simp add: one_segment_each_def check_ehdr_def)
next
  case False
  then have sz: "52 \<le> unat elf_size" by (simp add: not_less word_le_nat_alt)
  have ld: "(load_le n m' (elf + k) :: 'w::len word) = load_le n m (elf + k)" if "k + n \<le> 52" for k n
    by (rule load_le_eqI) (use that sz same in auto)
  have b: "m' (elf + k) = m (elf + k)" if "k < 52" for k using same [of "elf + k"] that sz by simp
  have r16: "rd16 m' (elf + k) = rd16 m (elf + k)" if "k + 2 \<le> 52" for k unfolding rd16_def by (rule ld [OF that])
  have r32: "rd32 m' (elf + k) = rd32 m (elf + k)" if "k + 4 \<le> 52" for k unfolding rd32_def by (rule ld [OF that])
  have h0: "m' elf = m elf" using b [of 0] by simp
  have h: "m' (elf + 1) = m (elf + 1)" "m' (elf + 2) = m (elf + 2)" "m' (elf + 3) = m (elf + 3)"
    "m' (elf + 4) = m (elf + 4)" "m' (elf + 5) = m (elf + 5)" "m' (elf + 6) = m (elf + 6)"
    by (rule b; simp)+
  have r: "rd16 m' (elf + 16) = rd16 m (elf + 16)" "rd16 m' (elf + 18) = rd16 m (elf + 18)"
    "rd16 m' (elf + 42) = rd16 m (elf + 42)" "rd16 m' (elf + 44) = rd16 m (elf + 44)"
    by (rule r16; simp)+
  have w: "rd32 m' (elf + 20) = rd32 m (elf + 20)" "rd32 m' (elf + 24) = rd32 m (elf + 24)" "rd32 m' (elf + 28) = rd32 m (elf + 28)"
    by (rule r32; simp)+
  have c: "check_ehdr m' elf elf_size = check_ehdr m elf elf_size" "elf_phdrs m' elf = elf_phdrs m elf"
    unfolding check_ehdr_def elf_phdrs_def h0 h r w by (rule refl)+
  have "segment_regions m' (elf_phdrs m elf) = segment_regions m (elf_phdrs m elf)" if "check_ehdr m elf elf_size = VM_LOAD_OK"
  proof -
    have "m' x = m x" if "ph \<in> set (elf_phdrs m elf)" "x \<in> extent ph 32" for ph x
      using check_ehdr_ok(4) [OF \<open>check_ehdr m elf elf_size = VM_LOAD_OK\<close> that(1)] that(2) same by blast
    note p = phdr_cong [OF this]
    have "applied m' ph = applied m ph" "p_vaddr m' ph = p_vaddr m ph" if "ph \<in> set (elf_phdrs m elf)" for ph
      using p [OF that] by (simp_all add: applied_def)
    then show ?thesis unfolding segment_regions_def by (intro map_cong filter_cong refl) simp_all
  qed
  then show ?thesis by (simp add: one_segment_each_def c)
qed

text \<open>The whole load.\<close>

lemma vm_load_own:
  assumes inv: "slab_inv a m" and size: "unat (region_data_size cfg) + 8 < 2 ^ 32" and im: "image_apart a elf elf_size"
    and load: "vm_load elf elf_size cfg (vm_init n, a, m, e) = (r, cpu', a', m', e')"
  shows "distinct (arena_bases a (regions cpu'))" "set (arena_bases a (regions cpu')) \<subseteq> slab_live a' m' - slab_live a m"
    "one_segment_each m elf elf_size \<Longrightarrow> slab_live a' m' = slab_live a m \<union> set (arena_bases a (regions cpu'))"
    "r_base (regions cpu' VM_REGION_SHARED) = (if r = VM_LOAD_OK then shared_base cfg else 0)"
    "vm_id cpu' = n" "\<not> halted cpu'"
proof -
  let ?E = "extent elf (unat elf_size)" and ?c = "vm_init n"
  have apart: "?E \<inter> extent (region a) (region_bytes a) = {}" using im by (auto simp: image_apart_def)
  have z: "regions ?c = (\<lambda>_. zero_region)" "vm_id ?c = n" "\<not> halted ?c" by (simp_all add: vm_init_def zero_cpu_def)
  have zb: "r_base zero_region = 0" by (simp add: zero_region_def)
  have own0: "load_own a m (?c, a, m, e)" and tight0: "load_tight a m (?c, a, m, e)"
    by (simp_all add: load_own_def load_tight_def bases_in_def z zb)
  have "load_own a m (cpu', a', m', e') \<and>
    (one_segment_each m elf elf_size \<longrightarrow> load_tight a m (cpu', a', m', e')) \<and>
    r_base (regions cpu' VM_REGION_SHARED) = (if r = VM_LOAD_OK then shared_base cfg else 0) \<and> vm_id cpu' = n \<and> \<not> halted cpu'"
  proof (cases "elf = 0 \<or> ram_arena cfg = 0 \<or> region_data_size cfg = 0 \<or> check_ehdr m elf elf_size \<noteq> VM_LOAD_OK \<or>
      check_phdrs m elf_size (elf_phdrs m elf) \<noteq> VM_LOAD_OK")
    case True
    then have "r \<noteq> VM_LOAD_OK \<and> (cpu', a', m', e') = (?c, a, m, e)"
      using load by (auto simp: vm_load_def Let_def split: if_splits)
    then show ?thesis using own0 tight0 z zb by simp
  next
    case False
    then have ok: "elf \<noteq> 0" "region_data_size cfg \<noteq> 0" "check_ehdr m elf elf_size = VM_LOAD_OK"
      "check_phdrs m elf_size (elf_phdrs m elf) = VM_LOAD_OK" "ram_arena cfg \<noteq> 0" by auto
    have phs: "\<forall>ph \<in> set (elf_phdrs m elf). check_phdr m elf_size ph = VM_LOAD_OK \<and> extent ph 32 \<subseteq> ?E"
      using check_phdrs_all [OF ok(4)] check_ehdr_ok(4) [OF ok(3)] by blast
    obtain ar c1 a1 m1 e1 where ap: "apply_phdrs cfg elf (elf_phdrs m elf) (?c, a, m, e) = (ar, c1, a1, m1, e1)"
      by (metis prod_cases5)
    note inv1 = apply_phdrs_inv [OF ok(1) size apart load_inv_start [OF inv] phs ap]
    note own1 = apply_phdrs_own [OF ok(1) size ok(2) apart im load_inv_start [OF inv] own0 phs ap]
    have base3: "r_base (regions c1 VM_REGION_SHARED) = 0" "vm_id c1 = n" "\<not> halted c1"
      using own1 z zb by (auto simp: same_vm_def)
    have tight1: "one_segment_each m elf elf_size \<longrightarrow> load_tight a m (c1, a1, m1, e1)"
      using own1 tight0 ok(3) by (simp add: z zb one_segment_each_def)
    obtain dr c2 a2 m2 e2 where d: "default_data_region cfg (c1, a1, m1, e1) = (dr, c2, a2, m2, e2)" by (metis prod_cases5)
    have li: "slab_inv a1 m1" "slab_live a m \<subseteq> slab_live a1 m1" "region a1 = region a" "region_bytes a1 = region_bytes a"
      using inv1 unfolding load_inv_def prod.case by blast+
    have s2: "load_own a m (c2, a2, m2, e2) \<and> (load_tight a m (c1, a1, m1, e1) \<longrightarrow> load_tight a m (c2, a2, m2, e2)) \<and> same_vm c1 c2"
    proof (cases "r_length (regions c1 VM_REGION_DATA) = 0")
      case len: True
      note mv = default_data_moves [OF li(1) size ok(2) d len]
      have b0: "r_base (regions c1 VM_REGION_DATA) = 0" using own1 len by (simp add: load_own_def)
      have "load_own a m (c1, a1, m1, e1)" using own1 by blast
      note mo = load_move_own [OF mv _ this li(2-4)] and sm = load_move_same [OF mv _ this li(2-4)]
      show ?thesis using mo(1,2) b0 sm by simp
    next
      case False
      then show ?thesis using d own1 by (simp add: default_data_region_def)
    qed
    have base2: "r_base (regions c2 VM_REGION_SHARED) = 0" "vm_id c2 = n" "\<not> halted c2"
      using s2 base3 by (auto simp: same_vm_def)
    consider (all_ok) "ar = VM_LOAD_OK" "dr = VM_LOAD_OK" | (data) "ar = VM_LOAD_OK" "dr \<noteq> VM_LOAD_OK" | (seg) "ar \<noteq> VM_LOAD_OK"
      by blast
    then show ?thesis
    proof cases
      case all_ok
      let ?f = "finish_load cfg (elf_entry m elf) c2"
      have eq: "r = VM_LOAD_OK" "(cpu', a', m', e') = (?f, a2, m2, e2)"
        using load ok ap d all_ok by (auto simp: vm_load_def Let_def)
      have f: "regions ?f 0 = regions c2 0" "regions ?f 1 = regions c2 1" "regions ?f 2 = regions c2 2"
        "r_base (regions ?f 3) = shared_base cfg" "vm_id ?f = vm_id c2" "halted ?f = halted c2"
        by (simp_all add: finish_load_def set_region_def Let_def)
      have "arena_bases a (regions ?f) = arena_bases a (regions c2)" by (simp add: bases_in_def f)
      then show ?thesis using eq s2 tight1 base2 f by (auto simp: load_own_def load_tight_def)
    next
      case data
      have "r \<noteq> VM_LOAD_OK" "(cpu', a', m', e') = (c2, a2, m2, e2)"
        using load ok ap d data by (auto simp: vm_load_def Let_def)
      then show ?thesis using s2 tight1 base2 by simp
    next
      case seg
      have "r \<noteq> VM_LOAD_OK" "(cpu', a', m', e') = (c1, a1, m1, e1)"
        using load ok ap seg by (auto simp: vm_load_def Let_def)
      then show ?thesis using own1 tight1 base3 by simp
    qed
  qed
  then show "distinct (arena_bases a (regions cpu'))" "set (arena_bases a (regions cpu')) \<subseteq> slab_live a' m' - slab_live a m"
    "one_segment_each m elf elf_size \<Longrightarrow> slab_live a' m' = slab_live a m \<union> set (arena_bases a (regions cpu'))"
    "r_base (regions cpu' VM_REGION_SHARED) = (if r = VM_LOAD_OK then shared_base cfg else 0)"
    "vm_id cpu' = n" "\<not> halted cpu'"
    unfolding load_own_def load_tight_def prod.case by blast+
qed

end
