(* ===== verification/VM_System_Load.thy ===== *)
theory VM_System_Load
  imports VM_System_Init VM_Loader_Own
begin

text \<open>
  Loading a VM as a transaction: \<open>vm_system_load_vm_with_mailbox\<close> either leaves a complete VM that
  owns its blocks, or takes back every block it had allocated; all other VMs are untouched
  either way.
\<close>

section \<open>A machine during a load\<close>

text \<open>
  The invariant's scheduler part looks only at the CPUs that are registered.
\<close>

lemma sched_inv_same_cpus:
  assumes "sched_inv N" "mc_sched M' = mc_sched N"
    "\<And>i. registered N i \<Longrightarrow> mc_cpus M' (sd_vms (mc_sched N) i) = mc_cpus N (sd_vms (mc_sched N) i)"
  shows "sched_inv M'"
proof -
  have "registered M' = registered N" "is_ready M' = is_ready N" "is_blocked M' = is_blocked N"
    by (simp_all add: fun_eq_iff registered_def is_ready_def is_blocked_def assms(2))
  moreover have "cpu_of M' i = cpu_of N i" if "registered N i" for i
    using assms(3) [OF that] by (simp add: cpu_of_def assms(2))
  ultimately show ?thesis using assms(1) unfolding sched_inv_def assms(2) by (simp cong: conj_cong)
qed

lemma sched_inv_replace:
  assumes inv: "sched_inv N" and i: "registered N i" and c: "vm_id c = i" "vm_regions_ok c" "halted (cpu_of N i) \<longrightarrow> halted c"
    and M': "mc_sched M' = mc_sched N" "mc_cpus M' = (mc_cpus N)(sd_vms (mc_sched N) i := c)"
  shows "sched_inv M'"
proof -
  have s: "registered M' = registered N" "is_ready M' = is_ready N" "is_blocked M' = is_blocked N"
    by (simp_all add: fun_eq_iff registered_def is_ready_def is_blocked_def M'(1))
  have cpu: "cpu_of M' j = (if j = i then c else cpu_of N j)" if "registered N j" for j
    using distinct_cpus [OF inv that i] by (auto simp: cpu_of_def M')
  have live: "is_ready N j \<or> is_blocked N j" if "registered N j" "\<not> halted (cpu_of M' j)" for j
    using that cpu [OF that(1)] sched_invD(4) [OF inv that(1)] c(3) by (auto split: if_splits)
  have slot: "unat j < 64 \<and> vm_id (cpu_of M' j) = j \<and> vm_regions_ok (cpu_of M' j)" if "registered N j" for j
    using cpu [OF that] sched_invD(5-7) [OF inv that] c(1,2) by simp
  show ?thesis using live slot inv unfolding sched_inv_def s M'(1) by blast
qed

text \<open>
  Between the allocation of the CPU block and the end of the load: slot \<open>i\<close> is taken by it, the
  local slab has gained the blocks \<open>X\<close>, and nothing else of the old machine has changed.
\<close>

definition loading :: "'e sysm \<Rightarrow> u16 \<Rightarrow> hptr \<Rightarrow> hptr set \<Rightarrow> 'e sysm \<Rightarrow> bool" where
  "loading M i p X N \<longleftrightarrow> pool_step M N (shared_live M) (local_live M \<union> X) \<and> X \<inter> local_live M = {} \<and> p \<in> X \<and>
     mc_sched N = mc_sched (admit i p M) \<and> sy_vms (mc_ext N) = (sy_vms (mc_ext M))(i := p) \<and>
     sy_config (mc_ext N) = sy_config (mc_ext M) \<and> sy_hooks (mc_ext N) = sy_hooks (mc_ext M) \<and>
     sy_tracking (mc_ext N) = (sy_tracking (mc_ext M))(i := zero_tracking) \<and>
     (\<forall>j. j \<noteq> i \<longrightarrow> sy_mailboxes (mc_ext N) j = sy_mailboxes (mc_ext M) j) \<and>
     (\<forall>q. q \<noteq> p \<longrightarrow> mc_cpus N q = mc_cpus M q)"

lemma loadingD:
  assumes "loading M i p X N"
  shows "pool_step M N (shared_live M) (local_live M \<union> X)" "X \<inter> local_live M = {}" "p \<in> X"
    "mc_sched N = mc_sched (admit i p M)" "sy_vms (mc_ext N) = (sy_vms (mc_ext M))(i := p)"
    "sy_config (mc_ext N) = sy_config (mc_ext M)" "sy_hooks (mc_ext N) = sy_hooks (mc_ext M)"
    "sy_tracking (mc_ext N) = (sy_tracking (mc_ext M))(i := zero_tracking)"
    "j \<noteq> i \<Longrightarrow> sy_mailboxes (mc_ext N) j = sy_mailboxes (mc_ext M) j" "q \<noteq> p \<Longrightarrow> mc_cpus N q = mc_cpus M q"
  using assms by (auto simp: loading_def)

text \<open>A local block is not a CPU of a VM that was loaded before.\<close>

lemma fresh_not_cpu:
  assumes "own_inv M" "p \<notin> local_live M" "registered M j"
  shows "sd_vms (mc_sched M) j \<noteq> p"
  using own_invD(6) [OF assms(1,3)] own_invD(3) [OF assms(1)] assms(2) by (auto simp: own_list_def)

lemma loading_own_list:
  assumes own: "own_inv M" and ld: "loading M i p X N" and j: "registered M j" "j \<noteq> i"
  shows "own_list N j = own_list M j" "set (own_list M j) \<subseteq> local_live M"
proof -
  note d = loadingD [OF ld]
  show "set (own_list M j) \<subseteq> local_live M" by (rule own_invD(6) [OF own j(1)])
  have "p \<notin> local_live M" using d(2,3) by blast
  then have "sy_vms (mc_ext M) j \<noteq> p" using fresh_not_cpu [OF own _ j(1)] own_invD(3) [OF own] by simp
  then show "own_list N j = own_list M j"
    using own_list_cong [OF d(1), of j] d(5,9,10) j(2) by simp
qed

lemma kept_blocks_trans:
  assumes "kept_blocks live sz M N" "kept_blocks live sz N N'" "live M \<inter> live N' \<subseteq> live N"
  shows "kept_blocks live sz M N'"
  unfolding kept_blocks_def
proof (intro ballI conjI)
  fix q assume "q \<in> live M \<inter> live N'"
  then have q: "q \<in> live M \<inter> live N" "q \<in> live N \<inter> live N'" using assms(3) by blast+
  have a: "sz N q = sz M q" "\<And>x. x \<in> extent q (sz M q) \<Longrightarrow> mc_mem N x = mc_mem M x"
    using bspec [OF assms(1) [unfolded kept_blocks_def] q(1)] by blast+
  have b: "sz N' q = sz N q" "\<And>x. x \<in> extent q (sz N q) \<Longrightarrow> mc_mem N' x = mc_mem N x"
    using bspec [OF assms(2) [unfolded kept_blocks_def] q(2)] by blast+
  show "sz N' q = sz M q" using a(1) b(1) by simp
  show "mc_mem N' x = mc_mem M x" if "x \<in> extent q (sz M q)" for x
    using a(2) [OF that] b(2) [of x] that unfolding a(1) by simp
qed

lemma pool_step_chain:
  assumes a: "pool_step M N S L" and b: "pool_step N N' S' L'" and sub: "shared_live M \<inter> S' \<subseteq> S" "local_live M \<inter> L' \<subseteq> L"
  shows "pool_step M N' S' L'"
proof -
  note a' = a [unfolded pool_step_def] and b' = b [unfolded pool_step_def]
  have "kept_blocks shared_live shared_size_of M N'" by (rule kept_blocks_trans [of _ _ _ N]) (use a' b' sub in auto)
  moreover have "kept_blocks local_live local_size_of M N'" by (rule kept_blocks_trans [of _ _ _ N]) (use a' b' sub in auto)
  ultimately show ?thesis using a' b' pool_stepD(8,9) [OF a] unfolding pool_step_def by (simp del: in_extent)
qed

text \<open>A pool call, and a change of the new CPU or mailbox, keep it.\<close>

lemma loading_call:
  assumes ld: "loading M i p X N" and call: "pool_step N N' (shared_live N) (local_live N \<union> Y)" and Y: "Y \<inter> local_live N = {}"
    and same: "mc_sched N' = mc_sched N" "sy_vms (mc_ext N') = sy_vms (mc_ext N)" "sy_config (mc_ext N') = sy_config (mc_ext N)"
      "sy_hooks (mc_ext N') = sy_hooks (mc_ext N)" "sy_tracking (mc_ext N') = sy_tracking (mc_ext N)"
      "\<And>j. j \<noteq> i \<Longrightarrow> sy_mailboxes (mc_ext N') j = sy_mailboxes (mc_ext N) j" "\<And>q. q \<noteq> p \<Longrightarrow> mc_cpus N' q = mc_cpus N q"
  shows "loading M i p (X \<union> Y) N'"
proof -
  note d = loadingD [OF ld] and n = pool_stepD [OF loadingD(1) [OF ld]] and c = pool_stepD [OF call]
  have "pool_step M N' (shared_live N) (local_live N \<union> Y)" by (rule pool_step_chain [OF d(1) call]) (use n(2,3) in auto)
  then have "pool_step M N' (shared_live M) (local_live M \<union> (X \<union> Y))" using n(2,3) by (simp add: Un_assoc)
  then show ?thesis using d same Y n(3) unfolding loading_def by auto
qed

lemma admit_simps [simp]:
  "mc_ext (admit i p M) = mc_ext M" "mc_mem (admit i p M) = mc_mem M" "same_pools M (admit i p M)"
  "sd_vms (mc_sched (admit i p M)) = (sd_vms (mc_sched M))(i := p)"
  "q \<noteq> p \<Longrightarrow> mc_cpus (admit i p M) q = mc_cpus M q" "mc_cpus (admit i p M) p = (mc_cpus M p)\<lparr>vm_id := i\<rparr>"
  by (simp_all add: admit_def same_pools_def upd_cpu_def)

lemma pool_step_admit [simp]: "pool_step M (admit i p N) S L = pool_step M N S L"
  by (rule pool_step_cong) simp_all

section \<open>Starting one\<close>

lemma loading_start:
  assumes ok: "pools_ok M" and al: "local_alloc n M = (p, M1)" "p \<noteq> 0"
    and N: "N = set_tracking i zero_tracking (set_vm i p (admit i p (upd_cpu p (\<lambda>_. vm_init 0) M1)))"
  shows "loading M i p {p} N" "mc_cpus N p = vm_init i" "sy_mailboxes (mc_ext N) i = sy_mailboxes (mc_ext M) i"
proof -
  note c = local_alloc_call [OF ok al(1)] and f = pool_frame_fields [OF pool_callD(2) [OF local_alloc_call(1) [OF ok al(1)]]]
  have "pool_step M M1 (shared_live M) (local_live M \<union> {p})" using pool_step_call [OF c(1)] al(2) by simp
  then show "loading M i p {p} N"
    using c(2) al(2) f by (simp add: loading_def N) (simp add: admit_def upd_cpu_def)
  show "mc_cpus N p = vm_init i" by (simp add: N vm_init_def)
  show "sy_mailboxes (mc_ext N) i = sy_mailboxes (mc_ext M) i" using f(3) by (simp add: N)
qed

lemma loading_registered:
  assumes "loading M i p X N" "p \<noteq> 0" shows "registered N j \<longleftrightarrow> registered M j \<or> j = i"
  using loadingD(4) [OF assms(1)] assms(2) by (simp add: registered_def)

lemma loading_shared:
  assumes own: "own_inv M" and ld: "loading M i p X N" and i: "\<not> registered M i" "i < VM_SCHED_MAX_VMS"
  shows "shared_inv N"
proof -
  note d = loadingD [OF ld] and sh = own_invD(1) [OF own]
  have "shared_inv (set_tracking i zero_tracking M)"
    by (rule shared_inv_step [OF sh pool_call_refl [OF shared_invD(1) [OF sh]] refl])
      (use shared_invD(5) [OF sh] in auto)
  then show ?thesis
    by (rule shared_inv_keep [of _ N "shared_live M" "local_live M \<union> X"])
      (use d shared_invD(5) [OF sh] in \<open>simp_all add: fun_eq_iff\<close>)
qed

lemma loading_sched:
  assumes own: "own_inv M" and ld: "loading M i p X N" and i: "\<not> registered M i" "i < VM_SCHED_MAX_VMS"
    and c: "vm_id (mc_cpus N p) = i" "vm_regions_ok (mc_cpus N p)" and p: "p \<noteq> 0"
  shows "sched_inv N"
proof -
  note d = loadingD [OF ld]
  let ?M0 = "upd_cpu p (\<lambda>_. vm_init i) M" and ?M1 = "admit i p (upd_cpu p (\<lambda>_. vm_init i) M)"
  have pl: "p \<notin> local_live M" using d(2,3) by blast
  have ne: "sd_vms (mc_sched M) j \<noteq> p" for j
    using fresh_not_cpu [OF own pl, of j] p by (cases "registered M j") (auto simp: registered_def)
  have "sched_inv ?M0"
    by (rule sched_inv_same_cpus [OF own_invD(2) [OF own]]) (use ne in \<open>auto simp: upd_cpu_def\<close>)
  moreover have "fresh_cpu ?M0 p"
    using p ne by (simp add: fresh_cpu_def vm_regions_ok_def vm_descriptors_def region_ok_def vm_init_def zero_cpu_def zero_region_def)
  moreover have "\<not> registered ?M0 i" "unat i < 64" using i by (simp_all add: registered_def word_less_nat_alt)
  ultimately have s1: "sched_inv ?M1" by (rule admit_inv)
  have r1: "registered ?M1 i" using p by (simp add: registered_def)
  have nh: "\<not> halted (cpu_of ?M1 i)" by (simp add: cpu_of_def vm_init_def zero_cpu_def)
  show ?thesis
  proof (rule sched_inv_replace [OF s1 r1 c])
    show "halted (cpu_of ?M1 i) \<longrightarrow> halted (mc_cpus N p)" using nh by simp
    show "mc_sched N = mc_sched ?M1" using d(4) by (simp add: admit_def)
    show "mc_cpus N = (mc_cpus ?M1)(sd_vms (mc_sched ?M1) i := mc_cpus N p)"
      using d(10) by (auto simp: fun_eq_iff upd_cpu_def)
  qed
qed

section \<open>Completing one\<close>

lemma loading_complete:
  assumes own: "own_inv M" and ld: "loading M i p X N" and i: "\<not> registered M i" "i < VM_SCHED_MAX_VMS"
    and c: "vm_id (mc_cpus N p) = i" "vm_regions_ok (mc_cpus N p)" and p: "p \<noteq> 0"
    and l: "distinct (own_list N i)" "set (own_list N i) \<subseteq> X"
  shows "own_inv N"
proof -
  note d = loadingD [OF ld] and reg = loading_registered [OF ld p]
  have old: "own_list N j = own_list M j" "set (own_list N j) \<subseteq> local_live M" "distinct (own_list N j)" if "registered M j" for j
  proof -
    have "j \<noteq> i" using that i(1) by auto
    note o = loading_own_list [OF own ld that this]
    show "own_list N j = own_list M j" "set (own_list N j) \<subseteq> local_live M" "distinct (own_list N j)"
      using o own_invD(5) [OF own that] by simp_all
  qed
  have live: "local_live N = local_live M \<union> X" by (rule pool_stepD(3) [OF d(1)])
  show ?thesis
    unfolding own_inv_def
  proof (intro conjI allI impI)
    show "shared_inv N" by (rule loading_shared [OF own ld i])
    show "sched_inv N" by (rule loading_sched [OF own ld i c p])
    show "sy_vms (mc_ext N) = sd_vms (mc_sched N)" using d(4,5) own_invD(3) [OF own] by simp
    show "foreign N (yc_shared_storage (sy_config (mc_ext N)))"
      using own_invD(4) [OF own] d(6) pool_stepD(10) [OF d(1)] by simp
    show "distinct (own_list N j)" "set (own_list N j) \<subseteq> local_live N" if "registered N j" for j
      using that old [of j] l live unfolding reg by auto
    show "tracked N j = {}" if "\<not> registered N j" "j < VM_SCHED_MAX_VMS" for j
      using that own_invD(7) [OF own, of j] d(8) unfolding reg by simp
    show "set (own_list N j) \<inter> set (own_list N k) = {}" if "registered N j" "registered N k" "j \<noteq> k" for j k
    proof -
      have dis: "set (own_list N q) \<inter> set (own_list N i) = {}" if "registered M q" for q
        using old(2) [OF that] l(2) d(2) by blast
      show ?thesis
        using that dis [of j] dis [of k] old(1) own_invD(8) [OF own, of j k] unfolding reg by (auto simp: Int_commute)
    qed
  qed
qed

section \<open>Undoing one\<close>

text \<open>The blocks the failure path gives back.\<close>

definition fail_list :: "'e sysm \<Rightarrow> hptr \<Rightarrow> hptr \<Rightarrow> hptr list" where
  "fail_list N p st = own_ptrs N (bases_of (mc_cpus N p) region_ids @ [st, p])"

lemma own_ptrs_append: "own_ptrs M (xs @ ys) = own_ptrs M xs @ own_ptrs M ys"
  by (simp add: own_ptrs_def)

text \<open>The scheduler after a registration that was taken back.\<close>

lemma admit_unregister:
  fixes M :: "'e sysm"
  assumes inv: "sched_inv M" and i: "\<not> registered M i" "i < VM_SCHED_MAX_VMS" and p: "p \<noteq> 0" "\<And>j. sd_vms (mc_sched M) j \<noteq> p"
    and N: "mc_sched N = mc_sched (admit i p M)" and M': "mc_sched M' = mc_sched (vm_sched_unregister N i)"
    and cpus: "\<And>q. q \<noteq> p \<Longrightarrow> mc_cpus M' q = mc_cpus M q"
  shows "sched_inv M'" "sd_vms (mc_sched M') = sd_vms (mc_sched M)"
    "is_ready M' j = is_ready M j" "is_blocked M' j = is_blocked M j"
proof -
  let ?M0 = "upd_cpu p (\<lambda>_. vm_init i) M" and ?M1 = "admit i p (upd_cpu p (\<lambda>_. vm_init i) M)"
  have "sched_inv ?M0" by (rule sched_inv_same_cpus [OF inv]) (use p in \<open>auto simp: upd_cpu_def\<close>)
  moreover have "fresh_cpu ?M0 p"
    using p by (simp add: fresh_cpu_def vm_regions_ok_def vm_descriptors_def region_ok_def vm_init_def zero_cpu_def zero_region_def)
  moreover have "\<not> registered ?M0 i" "unat i < 64" using i by (simp_all add: registered_def word_less_nat_alt)
  ultimately have "sched_inv ?M1" by (rule admit_inv)
  then have s: "sched_inv (vm_sched_unregister ?M1 i)" by (rule unregister_inv)
  have sd: "mc_sched (vm_sched_unregister ?M1 i) = mc_sched M'"
    using N M' by (simp add: vm_sched_unregister_def admit_def upd_sched_def)
  have z: "sd_vms (mc_sched M) i = 0" using i(1) by (simp add: registered_def)
  have nz: "sd_vms (mc_sched N) i \<noteq> 0" using N p(1) by simp
  show vms: "sd_vms (mc_sched M') = sd_vms (mc_sched M)" using M' N i(2) z by (simp add: fun_eq_iff)
  show "sched_inv M'"
    by (rule sched_inv_same_cpus [OF s sd [symmetric]]) (use vms sd cpus p(2) in \<open>simp add: upd_cpu_def\<close>)
  have no: "\<not> is_ready M i" "\<not> is_blocked M i" using sched_invD(2,3) [OF inv] i(1) by blast+
  have b: "sd_ready (mc_sched M') = bm_clear (bm_set (sd_ready (mc_sched M)) i) i"
    "sd_blocked (mc_sched M') = bm_clear (sd_blocked (mc_sched M)) i"
    using M' N nz i(2) by (auto simp: vm_sched_unregister_def admit_def dest: leD)
  show "is_ready M' j = is_ready M j" "is_blocked M' j = is_blocked M j"
    using no i(2) by (auto simp: is_ready_def is_blocked_def b unat_slot_eq word_less_nat_alt)
qed

lemma local_free_set: 
  "snd (local_free b (set_vm i q M)) = set_vm i q (snd (local_free b M))"
  "snd (local_free b (vm_sched_unregister M i)) = vm_sched_unregister (snd (local_free b M)) i"
  by (simp_all add: local_free_def set_vm_def upd_sys_def vm_sched_unregister_def upd_sched_def split: prod.splits)

lemma free_each_set:
  "free_each bs (set_vm i q M) = set_vm i q (free_each bs M)"
  "free_each bs (vm_sched_unregister M i) = vm_sched_unregister (free_each bs M) i"
  by (induction bs arbitrary: M) (simp_all add: local_free_set)

lemma load_fail_unfold:
  assumes "p \<noteq> 0"
  shows "snd (load_fail (coop_ops cfg) p (uint i) st code lr N) =
    set_vm i 0 (vm_sched_unregister (upd_cpu p (clear_regions region_ids)
      (free_each (bases_of (mc_cpus N p) region_ids @ [st, p]) N)) i)"
proof -
  have "snd (load_fail (coop_ops cfg) p (uint i) st code lr N) =
    free_each [st, p] (set_vm i 0 (vm_sched_unregister (release_regions p N) i))"
    using assms by (simp add: load_fail_def Let_def)
  then show ?thesis unfolding free_each_set release_regions_eq free_each_upd_cpu by (simp only: free_each_simps(3))
qed

lemma loading_failed:
  assumes own: "own_inv M" and ld: "loading M i p X N" and i: "\<not> registered M i" "i < VM_SCHED_MAX_VMS" and p: "p \<noteq> 0"
    and l: "distinct (fail_list N p st)" "set (fail_list N p st) \<subseteq> X"
    and M': "M' = snd (load_fail (coop_ops cfg) p (uint i) st code lr N)"
  shows "own_inv M'" "pool_step M M' (shared_live M) (local_live M \<union> (X - set (fail_list N p st)))"
    "registered M' j \<longleftrightarrow> registered M j" "q \<noteq> p \<Longrightarrow> mc_cpus M' q = mc_cpus M q"
    "is_ready M' j = is_ready M j" "is_blocked M' j = is_blocked M j"
    "sy_tracking (mc_ext M') = (sy_tracking (mc_ext M))(i := zero_tracking)" "j \<noteq> i \<Longrightarrow> sy_mailboxes (mc_ext M') j = sy_mailboxes (mc_ext M) j"
    "sy_config (mc_ext M') = sy_config (mc_ext M)" "sy_vms (mc_ext M') = sy_vms (mc_ext M)"
proof -
  note d = loadingD [OF ld] and u = load_fail_unfold [OF p, of cfg i st code lr N, folded M']
  note live = pool_stepD(2,3) [OF d(1)]
  have f: "pool_step N (free_each (bases_of (mc_cpus N p) region_ids @ [st, p]) N) (shared_live N) (local_live N - set (fail_list N p st))"
    unfolding fail_list_def by (rule free_each_call [OF pool_stepD(1) [OF d(1)]]) (use l live in \<open>auto simp: fail_list_def\<close>)
  then have "pool_step N M' (shared_live N) (local_live N - set (fail_list N p st))" unfolding u by simp
  then have "pool_step M M' (shared_live N) (local_live N - set (fail_list N p st))"
    by (rule pool_step_chain [OF d(1)]) (use live in auto)
  moreover have "local_live N - set (fail_list N p st) = local_live M \<union> (X - set (fail_list N p st))"
    using live(2) l(2) d(2) by blast
  ultimately show st: "pool_step M M' (shared_live M) (local_live M \<union> (X - set (fail_list N p st)))" using live(1) by simp
  have pl: "p \<notin> local_live M" using d(2,3) by blast
  have ne: "sd_vms (mc_sched M) j \<noteq> p" for j
    using fresh_not_cpu [OF own pl, of j] p by (cases "registered M j") (auto simp: registered_def)
  have sd: "mc_sched M' = mc_sched (vm_sched_unregister N i)" unfolding u by (simp add: vm_sched_unregister_def upd_sched_def)
  show cpus: "mc_cpus M' q = mc_cpus M q" if "q \<noteq> p" for q using d(10) [OF that] that unfolding u by (simp add: upd_cpu_def)
  note a = admit_unregister [OF own_invD(2) [OF own] i p ne d(4) sd cpus]
  show reg: "registered M' j \<longleftrightarrow> registered M j" for j using a(2) by (simp add: registered_def)
  show "is_ready M' j = is_ready M j" by (rule a(3))
  show "is_blocked M' j = is_blocked M j" by (rule a(4))
  show tr: "sy_tracking (mc_ext M') = (sy_tracking (mc_ext M))(i := zero_tracking)" using d(8) by (simp add: u)
  show mb: "sy_mailboxes (mc_ext M') j = sy_mailboxes (mc_ext M) j" if "j \<noteq> i" for j using d(9) [OF that] by (simp add: u)
  show cfg: "sy_config (mc_ext M') = sy_config (mc_ext M)" using d(6) by (simp add: u)
  have z: "sy_vms (mc_ext M) i = 0" using i(1) own_invD(3) [OF own] by (simp add: registered_def)
  show vms: "sy_vms (mc_ext M') = sy_vms (mc_ext M)" using d(5) z by (simp add: u fun_eq_iff)
  show "own_inv M'"
  proof (rule own_inv_shrink [OF own st])
    show "shared_inv M'"
      by (rule shared_inv_keep [OF loading_shared [OF own ld i], of _ "shared_live N" "local_live N - set (fail_list N p st)"])
        (use f u shared_invD(5) [OF loading_shared [OF own ld i]] in simp_all)
    show "sched_inv M'" by (rule a(1))
    show "sy_vms (mc_ext M') = sd_vms (mc_sched M')" using vms a(2) own_invD(3) [OF own] by simp
    show "registered M j \<and> set (own_list M j) \<subseteq> local_live M \<union> (X - set (fail_list N p st)) \<and> own_list M' j = own_list M j"
      if "registered M' j" for j
    proof -
      have rj: "registered M j" "j \<noteq> i" using that i(1) unfolding reg by auto
      have "sy_vms (mc_ext M) j \<noteq> p" using ne [of j] own_invD(3) [OF own] by simp
      then have "own_list M' j = own_list M j" using own_list_cong [OF st, of j] vms mb [OF rj(2)] cpus by simp
      then show ?thesis using own_invD(6) [OF own rj(1)] rj(1) by blast
    qed
    show "tracked M' j = {}" if "\<not> registered M' j" "j < VM_SCHED_MAX_VMS" for j
      using own_invD(7) [OF own _ that(2)] that(1) unfolding reg tr by simp
  qed (rule cfg)
qed

section \<open>The segments\<close>

lemma foreign_outside: "foreign M p \<longleftrightarrow> outside (sy_local (mc_ext M)) p"
  by (simp add: foreign_def outside_def)

lemma own_ptrs_bases:
  "own_ptrs M (bases_of c region_ids) = arena_bases (sy_local (mc_ext M)) (regions c) @
     (if r_base (regions c 3) = 0 \<or> foreign M (r_base (regions c 3)) then [] else [r_base (regions c 3)])"
  by (simp add: own_ptrs_def bases_of_def bases_in_def foreign_outside)

definition loader_config :: "'e sysm \<Rightarrow> u32 \<Rightarrow> VmBacking \<Rightarrow> VmBacking \<Rightarrow> VmLoaderConfig" where
  "loader_config M n cb rb = \<lparr>code_backing = cb, rodata_backing = rb, ram_arena = 1, region_data_size = n,
     shared_base = yc_shared_storage (sy_config (mc_ext M)), shared_size = ucast (yc_shared_storage_size (sy_config (mc_ext M))),
     l2_shared_base = yc_l2_shared_storage (sy_config (mc_ext M)),
     l2_shared_size = ucast (yc_l2_shared_storage_size (sy_config (mc_ext M)))\<rparr>"

lemma loading_segments:
  assumes own: "own_inv M" and ld: "loading M i p X N" and cpu: "mc_cpus N p = vm_init i"
    and size: "unat n + 8 < 2 ^ 32" and im: "image_apart (sy_local (mc_ext N)) elf elf_size"
    and l2: "yc_l2_shared_storage (sy_config (mc_ext M)) = 0 \<Longrightarrow> yc_l2_shared_storage_size (sy_config (mc_ext M)) = 0"
    and load: "vm_load elf elf_size (loader_config N n cb rb) (mc_cpus N p, sy_local (mc_ext N), mc_mem N, sy_env (mc_ext N)) = (lr, c, a, m, e)"
    and N': "N' = upd_cpu p (\<lambda>_. c) (upd_sys (\<lambda>s. s\<lparr>sy_local := a, sy_env := e\<rparr>) (N\<lparr>mc_mem := m\<rparr>))"
  defines "B \<equiv> arena_bases (sy_local (mc_ext N)) (regions c)"
  obtains Y where "loading M i p (X \<union> Y) N'" "mc_cpus N' p = c" "sy_mailboxes (mc_ext N') = sy_mailboxes (mc_ext N)"
    "Y \<inter> local_live N = {}" "vm_id c = i" "distinct B" "set B \<subseteq> Y"
    "one_segment_each (mc_mem N) elf elf_size \<Longrightarrow> Y = set B"
    "own_ptrs N' (bases_of c region_ids) = B" "lr = VM_LOAD_OK \<Longrightarrow> vm_regions_ok c"
proof -
  note d = loadingD [OF ld] and pools = pool_stepD(1) [OF loadingD(1) [OF ld]]
  let ?a = "sy_local (mc_ext N)" and ?cfg = "loader_config N n cb rb"
  note si = pools_okD(2) [OF pools]
  have size': "unat (region_data_size ?cfg) + 8 < 2 ^ 32" using size by (simp add: loader_config_def)
  have apart: "extent elf (unat elf_size) \<inter> extent (region ?a) (region_bytes ?a) = {}" using im by (auto simp: image_apart_def)
  note load' = load [unfolded cpu]
  note li = vm_load_inv [OF si size' apart load'] and lo = vm_load_own [OF si size' im load']
  obtain c0 where inv: "load_inv (extent elf (unat elf_size)) ?a (mc_mem N) (c0, a, m, e)"
    using li by (cases "lr = VM_LOAD_OK") blast+
  have sl: "slab_inv a m" and reg: "region a = region ?a" "region_bytes a = region_bytes ?a"
    and sub: "local_live N \<subseteq> slab_live a m"
    and keep: "\<And>q. q \<in> local_live N \<Longrightarrow> slab_block_size a m q = local_size_of N q \<and>
        (\<forall>x \<in> extent q (local_size_of N q). m x = mc_mem N x)"
    and out: "\<And>x. x \<notin> extent (region ?a) (region_bytes ?a) \<Longrightarrow> m x = mc_mem N x"
    using inv unfolding load_inv_def prod.case by blast+
  let ?N1 = "upd_sys (\<lambda>s. s\<lparr>sy_local := a, sy_env := e\<rparr>) (N\<lparr>mc_mem := m\<rparr>)" and ?Y = "slab_live a m - local_live N"
  have "pool_call N ?N1 (shared_live N) (slab_live a m)"
    by (rule local_update_call [OF pools refl sl reg])
      (use keep out in \<open>auto simp: local_extent_def simp del: in_extent\<close>)
  then have call: "pool_step N N' (shared_live N) (local_live N \<union> ?Y)"
    using sub by (simp add: N' pool_step_call Un_absorb1)
  have ld': "loading M i p (X \<union> ?Y) N'"
    by (rule loading_call [OF ld call]) (auto simp: N' upd_cpu_def)
  have f3: "r_base (regions c 3) = 0 \<or> foreign N' (r_base (regions c 3))"
    using lo(4) own_invD(4) [OF own] d(6) pool_stepD(10) [OF loadingD(1) [OF ld']] by (simp add: loader_config_def)
  have bs: "own_ptrs N' (bases_of c region_ids) = B"
    using f3 bases_in_cong [OF reg] by (simp add: own_ptrs_bases N' B_def)
  have ok: "vm_regions_ok c" if r: "lr = VM_LOAD_OK"
  proof -
    obtain c1 where c1: "load_inv (extent elf (unat elf_size)) ?a (mc_mem N) (c1, a, m, e)"
      "own_block ?a (mc_mem N) a m (regions c1 VM_REGION_DATA)" "c = finish_load ?cfg (elf_entry (mc_mem N) elf) c1"
      using li(2) [OF r] by blast
    have nz: "shared_base ?cfg \<noteq> 0"
      using shared_base_pos [OF own_invD(1) [OF own]] d(6) by (simp add: loader_config_def)
    have "l2_shared_size ?cfg = 0" if "l2_shared_base ?cfg = 0"
      using l2 that d(6) by (simp add: loader_config_def)
    with finish_regions(1) [OF c1(1,2) _ _ c1(3)] nz show ?thesis by blast
  qed
  have m: "mc_cpus N' p = c" "sy_mailboxes (mc_ext N') = sy_mailboxes (mc_ext N)" by (simp_all add: N')
  have Y: "?Y \<inter> local_live N = {}" by blast
  have eq: "?Y = set B" if "one_segment_each (mc_mem N) elf elf_size"
    using lo(3) [OF that] lo(2) by (auto simp: B_def)
  show thesis by (rule that [OF ld' m Y lo(5) lo(1,2) [folded B_def] eq bs ok])
qed

section \<open>The load as a transaction\<close>

text \<open>What the VMs that were there before keep.\<close>

definition others_kept :: "'e sysm \<Rightarrow> 'e sysm \<Rightarrow> bool" where
  "others_kept M M' \<longleftrightarrow> shared_live M' = shared_live M \<and> local_live M \<subseteq> local_live M' \<and>
     (\<forall>j. registered M j \<longrightarrow> registered M' j \<and> cpu_of M' j = cpu_of M j \<and>
        is_ready M' j = is_ready M j \<and> is_blocked M' j = is_blocked M j \<and>
        sy_mailboxes (mc_ext M') j = sy_mailboxes (mc_ext M) j \<and> tracked M' j = tracked M j) \<and>
     (\<forall>q \<in> local_live M. \<forall>x \<in> extent q (local_size_of M q). mc_mem M' x = mc_mem M x) \<and>
     (\<forall>q \<in> shared_live M. \<forall>x \<in> extent q (shared_size_of M q). mc_mem M' x = mc_mem M x)"

definition load_refused :: "'e sysm \<Rightarrow> bool \<Rightarrow> 'e sysm \<Rightarrow> bool" where
  "load_refused M tight M' \<longleftrightarrow> own_inv M' \<and> others_kept M M' \<and> (\<forall>j. registered M' j = registered M j) \<and>
     (tight \<longrightarrow> local_live M' = local_live M)"

definition load_granted :: "'e sysm \<Rightarrow> bool \<Rightarrow> u16 \<Rightarrow> 'e sysm \<Rightarrow> bool" where
  "load_granted M tight i M' \<longleftrightarrow> own_inv M' \<and> others_kept M M' \<and> \<not> registered M i \<and>
     (\<forall>j. registered M' j \<longleftrightarrow> registered M j \<or> j = i) \<and> is_ready M' i \<and> tracked M' i = {} \<and>
     set (own_list M' i) \<inter> local_live M = {} \<and>
     (tight \<longrightarrow> local_live M' = local_live M \<union> set (own_list M' i))"

lemma others_keptI:
  assumes own: "own_inv M" and st: "pool_step M M' (shared_live M) (local_live M \<union> Y)"
    and reg: "\<And>j. registered M j \<Longrightarrow> registered M' j" and vms: "\<And>j. registered M j \<Longrightarrow> sd_vms (mc_sched M') j = sd_vms (mc_sched M) j"
    and rest: "\<And>q. q \<noteq> p \<Longrightarrow> mc_cpus M' q = mc_cpus M q" "\<And>j. registered M j \<Longrightarrow> is_ready M' j = is_ready M j"
      "\<And>j. registered M j \<Longrightarrow> is_blocked M' j = is_blocked M j" "\<And>j. j \<noteq> i \<Longrightarrow> sy_mailboxes (mc_ext M') j = sy_mailboxes (mc_ext M) j"
      "sy_tracking (mc_ext M') = (sy_tracking (mc_ext M))(i := zero_tracking)"
    and new: "p \<notin> local_live M" "\<not> registered M i"
  shows "others_kept M M'"
proof -
  have "cpu_of M' j = cpu_of M j" if "registered M j" for j
    using rest(1) [of "sd_vms (mc_sched M) j"] fresh_not_cpu [OF own new(1) that] vms [OF that] by (simp add: cpu_of_def)
  moreover have "j \<noteq> i" if "registered M j" for j using that new(2) by auto
  ultimately show ?thesis
    unfolding others_kept_def using reg rest pool_stepD(2,3,11,12) [OF st] by (auto simp del: in_extent)
qed

lemma loading_refused:
  assumes own: "own_inv M" and ld: "loading M i p X N" and i: "\<not> registered M i" "i < VM_SCHED_MAX_VMS" and p: "p \<noteq> 0"
    and l: "distinct (fail_list N p st)" "set (fail_list N p st) \<subseteq> X" "tight \<Longrightarrow> X \<subseteq> set (fail_list N p st)"
    and M': "M' = snd (load_fail (coop_ops cfg) p (uint i) st code lr N)"
  shows "load_refused M tight M'"
proof -
  note f = loading_failed [OF own ld i p l(1,2) M']
  have pl: "p \<notin> local_live M" using loadingD(2,3) [OF ld] by blast
  have "others_kept M M'"
    by (rule others_keptI [OF own f(2) _ _ f(4) _ _ f(8,7) pl i(1)])
      (use f(3,5,6,10) own_invD(3) [OF own] own_invD(3) [OF f(1)] in simp_all)
  then show ?thesis using f(1,3) l(2,3) pool_stepD(3) [OF f(2)] by (auto simp: load_refused_def)
qed

lemma loading_granted:
  assumes own: "own_inv M" and ld: "loading M i p X N" and i: "\<not> registered M i" "i < VM_SCHED_MAX_VMS" and p: "p \<noteq> 0"
    and c: "vm_id (mc_cpus N p) = i" "vm_regions_ok (mc_cpus N p)"
    and l: "distinct (own_list N i)" "set (own_list N i) \<subseteq> X" "tight \<Longrightarrow> X \<subseteq> set (own_list N i)"
  shows "load_granted M tight i N"
proof -
  note d = loadingD [OF ld] and inv = loading_complete [OF own ld i c p l(1,2)]
  have sd: "sd_vms (mc_sched N) = (sd_vms (mc_sched M))(i := p)" using d(4) by simp
  have rd: "is_ready N j \<longleftrightarrow> is_ready M j \<or> j = i" "is_blocked N j = is_blocked M j" for j
    using i(2) by (auto simp: is_ready_def is_blocked_def d(4) admit_def unat_slot_eq word_less_nat_alt)
  have pl: "p \<notin> local_live M" using d(2,3) by blast
  have ne: "j \<noteq> i" if "registered M j" for j using that i(1) by auto
  have "others_kept M N"
    by (rule others_keptI [OF own d(1) _ _ d(10) _ _ d(9,8) pl i(1)])
      (use loading_registered [OF ld p] sd rd ne in simp_all)
  then show ?thesis
    using inv i(1) loading_registered [OF ld p] rd(1) d(2,8) l(2,3) pool_stepD(3) [OF d(1)]
    by (auto simp: load_granted_def)
qed

text \<open>The branches without a registration.\<close>

lemma not_loaded_refused:
  assumes own: "own_inv M" and st: "pool_step M M' (shared_live M) (local_live M)"
    and same: "mc_sched M' = mc_sched M" "sy_config (mc_ext M') = sy_config (mc_ext M)" "sy_vms (mc_ext M') = sy_vms (mc_ext M)"
      "sy_tracking (mc_ext M') = sy_tracking (mc_ext M)" "sy_mailboxes (mc_ext M') = sy_mailboxes (mc_ext M)"
      "\<And>q. q \<noteq> p \<Longrightarrow> mc_cpus M' q = mc_cpus M q" and p: "p \<notin> local_live M"
  shows "load_refused M tight M'"
proof -
  have cpus: "mc_cpus M' (sd_vms (mc_sched M) j) = mc_cpus M (sd_vms (mc_sched M) j)" if "registered M j" for j
    using fresh_not_cpu [OF own p that] by (rule same(6))
  have reg: "registered M' = registered M" by (simp add: registered_def fun_eq_iff same(1))
  have own': "own_inv M'"
  proof (rule own_inv_shrink [OF own st])
    show "shared_inv M'"
      by (rule shared_inv_keep [OF own_invD(1) [OF own] st]) (use same shared_invD(5) [OF own_invD(1) [OF own]] in simp_all)
    show "sched_inv M'" by (rule sched_inv_same_cpus [OF own_invD(2) [OF own] same(1) cpus])
    show "registered M j \<and> set (own_list M j) \<subseteq> local_live M \<and> own_list M' j = own_list M j" if "registered M' j" for j
    proof -
      have rj: "registered M j" using that reg by simp
      have "own_list M' j = own_list M j"
        using own_list_cong [OF st, of j] same cpus [OF rj] own_invD(3) [OF own] by simp
      then show ?thesis using own_invD(6) [OF own rj] rj by blast
    qed
  qed (use same own_invD(3,7) [OF own] reg in simp_all)
  have "others_kept M M'"
    unfolding others_kept_def using cpus same reg pool_stepD(2,3,11,12) [OF st]
    by (auto simp: cpu_of_def is_ready_def is_blocked_def simp del: in_extent)
  then show ?thesis using own' reg pool_stepD(3) [OF st] by (simp add: load_refused_def)
qed

lemma unregistered_fail:
  assumes own: "own_inv M" and al: "local_alloc n M = (p, M1)" "p \<noteq> 0"
    and M': "M' = snd (load_fail (coop_ops cfg) p (-1) 0 code lr (upd_cpu p (\<lambda>_. vm_init 0) M1))"
  shows "load_refused M tight M'"
proof -
  note ok = shared_invD(1) [OF own_invD(1) [OF own]]
  note c = local_alloc_call [OF ok al(1)] and f = pool_frame_fields [OF pool_callD(2) [OF local_alloc_call(1) [OF ok al(1)]]]
  let ?N = "upd_cpu p (\<lambda>_. vm_init 0) M1"
  have bs: "bases_of (vm_init 0) region_ids = [0, 0, 0, 0]"
    by (simp add: bases_of_def vm_init_def zero_cpu_def zero_region_def)
  have M'eq: "M' = snd (local_free p (upd_cpu p (clear_regions region_ids) ?N))"
    unfolding M' load_fail_def release_regions_eq using al(2) by (simp add: bs Let_def del: upd_cpu_twice)
  then have M'2: "M' = upd_cpu p (clear_regions region_ids) (upd_cpu p (\<lambda>_. vm_init 0) (snd (local_free p M1)))"
    by (simp add: local_free_upd_cpu)
  obtain r M2 where fr: "local_free p M1 = (r, M2)" by (cases "local_free p M1")
  have live: "p \<in> local_live M1" using pool_callD(4) [OF c(1)] al(2) by simp
  note st = pool_step_call [OF local_free_call(2) [OF pool_callD(1) [OF c(1)] live fr]]
  have "pool_step M M2 (shared_live M1) (local_live M1 - {p})"
    by (rule pool_step_chain [OF pool_step_call [OF c(1)] st]) (use pool_callD(3,4) [OF c(1)] in auto)
  moreover have "shared_live M1 = shared_live M" "local_live M1 - {p} = local_live M"
    using pool_callD(3,4) [OF c(1)] c(2) al(2) by auto
  ultimately have st': "pool_step M M' (shared_live M) (local_live M)" by (simp add: M'2 fr)
  have M2: "M2 = snd (local_free p M1)" using fr by simp
  show ?thesis
    by (rule not_loaded_refused [OF own st', of p]) (use c(2) al(2) f in \<open>simp_all add: M'2 upd_cpu_def\<close>)
qed

lemma load_fail_code [simp]:
  "lr_code (fst (load_fail ops p as st code lr M)) = code" "lr_assigned_vm_id (fst (load_fail ops p as st code lr M)) = -1"
  by (simp_all add: load_fail_def Let_def)

definition load_outcome :: "'e sysm \<Rightarrow> bool \<Rightarrow> VmLoadVmResult \<Rightarrow> 'e sysm \<Rightarrow> bool" where
  "load_outcome M tight res M' \<longleftrightarrow>
     (if lr_code res = VM_SYS_OK then \<exists>i. lr_assigned_vm_id res = uint i \<and> load_granted M tight i M'
      else lr_assigned_vm_id res = -1 \<and> load_refused M tight M')"

lemma refused_outcome:
  assumes "load_fail ops p as st code lr N = (res, M')" "code \<noteq> VM_SYS_OK" "load_refused M tight (snd (load_fail ops p as st code lr N))"
  shows "load_outcome M tight res M'"
  using assms load_fail_code(1,2) [of ops p as st code lr N] by (simp add: load_outcome_def)

text \<open>From the moment the VM has its slot and its CPU block.\<close>

lemma load_from_slot:
  assumes own: "own_inv M" and ld: "loading M i p {p} N" and cpu: "mc_cpus N p = vm_init i"
    and i: "\<not> registered M i" "i < VM_SCHED_MAX_VMS" and p: "p \<noteq> 0" and code: "code \<noteq> VM_SYS_OK"
  shows "load_fail (coop_ops cfg) p (uint i) 0 code lr N = (res, M') \<Longrightarrow> load_outcome M tight res M'"
proof -
  have bs: "bases_of (mc_cpus N p) region_ids = [0, 0, 0, 0]"
    by (simp add: cpu bases_of_def vm_init_def zero_cpu_def zero_region_def)
  have "p \<in> local_live N" using loadingD(3) [OF ld] pool_stepD(3) [OF loadingD(1) [OF ld]] by blast
  then have "\<not> foreign N p" by (rule live_not_foreign(2) [OF pool_stepD(1) [OF loadingD(1) [OF ld]]])
  then have fl: "fail_list N p 0 = [p]" using p unfolding fail_list_def bs by (simp add: own_ptrs_def)
  have "load_refused M tight (snd (load_fail (coop_ops cfg) p (uint i) 0 code lr N))"
    by (rule loading_refused [OF own ld i p _ _ _ refl]) (simp_all add: fl)
  then show "load_fail (coop_ops cfg) p (uint i) 0 code lr N = (res, M') \<Longrightarrow> load_outcome M tight res M'"
    using refused_outcome code by blast
qed

lemma load_from_mailbox:
  assumes own: "own_inv M" and ld: "loading M i p {p} N" and cpu: "mc_cpus N p = vm_init i"
    and i: "\<not> registered M i" "i < VM_SCHED_MAX_VMS" and p: "p \<noteq> 0"
    and al: "local_alloc k N = (st, N1)" "st \<noteq> 0" and mb: "N2 = set_mailbox i mb N1" "rg_storage (ff_rb (mb_fifo mb)) = st"
    and size: "unat n + 8 < 2 ^ 32" and im: "image_apart (sy_local (mc_ext M)) elf elf_size"
    and sh: "extent elf (unat elf_size) \<inter> shared_extent M = {}"
    and l2: "yc_l2_shared_storage (sy_config (mc_ext M)) = 0 \<Longrightarrow> yc_l2_shared_storage_size (sy_config (mc_ext M)) = 0"
    and load: "vm_load elf elf_size (loader_config N2 n cb rb) (mc_cpus N2 p, sy_local (mc_ext N2), mc_mem N2, sy_env (mc_ext N2)) = (lr, c, a, m, e)"
    and N3: "N3 = upd_cpu p (\<lambda>_. c) (upd_sys (\<lambda>s. s\<lparr>sy_local := a, sy_env := e\<rparr>) (N2\<lparr>mc_mem := m\<rparr>))"
  shows "lr \<noteq> VM_LOAD_OK \<Longrightarrow> load_refused M (one_segment_each (mc_mem M) elf elf_size)
      (snd (load_fail (coop_ops cfg) p (uint i) st code lr N3))"
    "lr = VM_LOAD_OK \<Longrightarrow> load_granted M (one_segment_each (mc_mem M) elf elf_size) i N3"
proof -
  note d = loadingD [OF ld] and okN = pool_stepD(1) [OF loadingD(1) [OF ld]]
  note ac = local_alloc_call [OF okN al(1)]
  note f = pool_frame_fields [OF pool_callD(2) [OF ac(1)]]
  have call: "pool_step N N2 (shared_live N) (local_live N \<union> {st})" using pool_step_call [OF ac(1)] al(2) by (simp add: mb(1))
  have st: "st \<notin> local_live N" by (rule ac(2) [OF al(2)])
  have ld2: "loading M i p ({p} \<union> {st}) N2"
    by (rule loading_call [OF ld call]) (use st f in \<open>simp_all add: mb(1)\<close>)
  note d2 = loadingD [OF ld2] and s2 = pool_stepD [OF loadingD(1) [OF ld2]]
  have cpu2: "mc_cpus N2 p = vm_init i" using cpu f(7) by (simp add: mb(1))
  have im2: "image_apart (sy_local (mc_ext N2)) elf elf_size" using im s2(6,7) by (simp add: image_apart_def)
  have mem2: "mc_mem N2 x = mc_mem M x" if "x \<in> extent elf (unat elf_size)" for x
  proof -
    have "x \<notin> local_extent M" using im that by (auto simp: image_apart_def local_extent_def)
    moreover have "x \<notin> shared_extent M" using sh that by blast
    ultimately show ?thesis using d2(1) unfolding pool_step_def by blast
  qed
  have one: "one_segment_each (mc_mem N2) elf elf_size = one_segment_each (mc_mem M) elf elf_size"
    by (rule one_segment_cong [OF mem2])
  obtain Y B where ld3: "loading M i p (({p} \<union> {st}) \<union> Y) N3" and c: "mc_cpus N3 p = c" "vm_id c = i"
    and mb3: "sy_mailboxes (mc_ext N3) = sy_mailboxes (mc_ext N2)" and Y: "Y \<inter> local_live N2 = {}"
    and B: "distinct B" "set B \<subseteq> Y" "one_segment_each (mc_mem M) elf elf_size \<Longrightarrow> Y = set B"
      "own_ptrs N3 (bases_of c region_ids) = B" and ok: "lr = VM_LOAD_OK \<Longrightarrow> vm_regions_ok c"
    using loading_segments [OF own ld2 cpu2 size im2 l2 load N3] unfolding one by metis
  note d3 = loadingD [OF ld3] and s3 = pool_stepD [OF loadingD(1) [OF ld3]]
  have live: "p \<in> local_live N3" "st \<in> local_live N3" using s3(3) by blast+
  have two: "own_ptrs N3 [st, p] = [st, p]" by (rule own_ptrs_live [OF s3(1)]) (use live in simp)
  have ne: "st \<noteq> p" "st \<notin> Y" "p \<notin> Y" using st d(3) pool_stepD(3) [OF d(1)] Y s2(3) by auto
  have fl: "fail_list N3 p st = B @ [st, p]" by (simp only: fail_list_def own_ptrs_append c(1) B(4) two)
  have dis: "distinct (fail_list N3 p st)" "set (fail_list N3 p st) \<subseteq> ({p} \<union> {st}) \<union> Y"
    "one_segment_each (mc_mem M) elf elf_size \<Longrightarrow> ({p} \<union> {st}) \<union> Y \<subseteq> set (fail_list N3 p st)"
    using B(1-3) ne unfolding fl by auto
  show "load_refused M (one_segment_each (mc_mem M) elf elf_size) (snd (load_fail (coop_ops cfg) p (uint i) st code lr N3))"
    if "lr \<noteq> VM_LOAD_OK" by (rule loading_refused [OF own ld3 i p dis refl])
  have "mbox_storage N3 i = st" by (simp add: mb3 mb)
  moreover have "sy_vms (mc_ext N3) i = p" using d3(5) by simp
  ultimately have ol: "own_list N3 i = fail_list N3 p st" by (simp only: own_list_def c(1) B(4) fl)
  show "load_granted M (one_segment_each (mc_mem M) elf elf_size) i N3" if "lr = VM_LOAD_OK"
    by (rule loading_granted [OF own ld3 i p _ _ dis [folded ol]]) (simp_all add: c ok [OF that])
qed

lemma mailbox_made:
  assumes "vm_mailbox_required_storage_bytes sz d \<noteq> 0" "st \<noteq> 0" "vm_mailbox_init m0 st sz d = (mr, mb)"
  shows "mr = VM_MBOX_OK" "rg_storage (ff_rb (mb_fifo mb)) = st"
  using assms by (auto simp: vm_mailbox_required_storage_bytes_def vm_mailbox_init_def fifo_init_def rb_init_def split: if_splits)

lemma load_outcome_result:
  assumes own: "own_inv M" and size: "unat n + 8 < 2 ^ 32" and im: "image_apart (sy_local (mc_ext M)) elf elf_size"
    and sh: "extent elf (unat elf_size) \<inter> shared_extent M = {}"
    and l2: "yc_l2_shared_storage (sy_config (mc_ext M)) = 0 \<Longrightarrow> yc_l2_shared_storage_size (sy_config (mc_ext M)) = 0"
    and run: "vm_system_load_vm_with_mailbox (coop_ops cfg) M elf elf_size n cb rb slot dep = (res, M')"
  shows "load_outcome M (one_segment_each (mc_mem M) elf elf_size) res M'"
proof (cases "elf = 0 \<or> elf_size = 0 \<or> n = 0")
  case True
  then have r: "res = \<lparr>lr_code = VM_SYS_ERR_INVALID_ARG, lr_load_result = VM_LOAD_OK, lr_assigned_vm_id = -1\<rparr>" "M' = M"
    using run by (auto simp: vm_system_load_vm_with_mailbox_def)
  have "0 \<notin> local_live M" using live_not_foreign(1) [OF shared_invD(1) [OF own_invD(1) [OF own]], of 0] by auto
  then have "load_refused M tight M" for tight
    by (intro not_loaded_refused [OF own pool_step_refl [OF shared_invD(1) [OF own_invD(1) [OF own]]], of _ 0]) simp_all
  then show ?thesis by (simp add: load_outcome_def r)
next
  case args: False
  note ok = shared_invD(1) [OF own_invD(1) [OF own]]
  obtain p M1 where al: "local_alloc SIZEOF_VM_CPU M = (p, M1)" by (cases "local_alloc SIZEOF_VM_CPU M")
  note ac = local_alloc_call [OF ok al] and f = pool_frame_fields [OF pool_callD(2) [OF local_alloc_call(1) [OF ok al]]]
  note run1 = run [unfolded vm_system_load_vm_with_mailbox_def if_not_P [OF args] al Let_def prod.case]
  show ?thesis
  proof (cases "p = 0")
    case True
    have "load_fail (coop_ops cfg) 0 (-1) 0 VM_SYS_ERR_NO_ARENA_SPACE VM_LOAD_OK M1 = (res, M')" using run1 True by simp
    moreover have "snd (load_fail (coop_ops cfg) 0 (-1) 0 VM_SYS_ERR_NO_ARENA_SPACE VM_LOAD_OK M1) = M1" by (simp add: load_fail_def)
    moreover have "load_refused M tight M1" for tight
    proof (rule not_loaded_refused [OF own, of _ 0])
      show "pool_step M M1 (shared_live M) (local_live M)" using pool_step_call [OF ac(1)] True by simp
      show "0 \<notin> local_live M" using live_not_foreign(1) [OF ok, of 0] by auto
    qed (use f in simp_all)
    ultimately show ?thesis using refused_outcome [of "coop_ops cfg" 0 "-1" 0 VM_SYS_ERR_NO_ARENA_SPACE VM_LOAD_OK M1] by simp
  next
    case p: False
    let ?M2 = "upd_cpu p (\<lambda>_. vm_init 0) M1"
    note run2 = run1 [unfolded if_not_P [OF p] coop_ops_simps]
    show ?thesis
    proof (cases "find (\<lambda>i. sd_vms (mc_sched M1) i = 0) vm_ids")
      case None
      then have "vm_sched_register ?M2 p = (-1, ?M2)" using p by (simp add: vm_sched_register_def)
      then have "load_fail (coop_ops cfg) p (-1) 0 VM_SYS_ERR_FULL VM_LOAD_OK ?M2 = (res, M')" using run2 by simp
      then show ?thesis using refused_outcome unregistered_fail [OF own al p refl] by (metis VmSystemResult.distinct(1))
    next
      case (Some i)
      have i: "\<not> registered M i" "i < VM_SCHED_MAX_VMS" using find_vm_ids [OF Some] f(6) by (simp_all add: registered_def)
      define N where "N = set_tracking i zero_tracking (set_vm i p (admit i p ?M2))"
      note ls = loading_start [OF ok al p N_def]
      have "vm_sched_register ?M2 p = (uint i, admit i p ?M2)" using p Some by (simp add: vm_sched_register_def)
      moreover have "\<not> uint i < 0" by simp
      ultimately have run3: "(if vm_mailbox_required_storage_bytes slot dep = 0
        then load_fail (coop_ops cfg) p (uint i) 0 VM_SYS_ERR_INVALID_ARG VM_LOAD_OK N
        else case local_alloc (of_nat (vm_mailbox_required_storage_bytes slot dep)) N of (st, M) \<Rightarrow>
          if st = 0 then load_fail (coop_ops cfg) p (uint i) 0 VM_SYS_ERR_NO_ARENA_SPACE VM_LOAD_OK M
          else case vm_mailbox_init (sy_mailboxes (mc_ext M) i) st slot dep of (mr, mb) \<Rightarrow>
            if mr \<noteq> VM_MBOX_OK
            then load_fail (coop_ops cfg) p (uint i) st VM_SYS_ERR_INVALID_ARG VM_LOAD_OK (set_mailbox i mb M)
            else case vm_load elf elf_size (loader_config (set_mailbox i mb M) n cb rb)
                (mc_cpus (set_mailbox i mb M) p, sy_local (mc_ext (set_mailbox i mb M)), mc_mem (set_mailbox i mb M),
                 sy_env (mc_ext (set_mailbox i mb M))) of (lr, c, a, m, e) \<Rightarrow>
              if lr \<noteq> VM_LOAD_OK then load_fail (coop_ops cfg) p (uint i) st VM_SYS_ERR_LOAD_FAILED lr
                 (upd_cpu p (\<lambda>_. c) (upd_sys (\<lambda>s. s\<lparr>sy_local := a, sy_env := e\<rparr>) ((set_mailbox i mb M)\<lparr>mc_mem := m\<rparr>)))
              else (\<lparr>lr_code = VM_SYS_OK, lr_load_result = VM_LOAD_OK, lr_assigned_vm_id = uint i\<rparr>,
                 upd_cpu p (\<lambda>_. c) (upd_sys (\<lambda>s. s\<lparr>sy_local := a, sy_env := e\<rparr>) ((set_mailbox i mb M)\<lparr>mc_mem := m\<rparr>)))) = (res, M')"
        using run2 unfolding N_def loader_config_def by (simp only: prod.case word_of_int_uint if_False)
      show ?thesis
      proof (cases "vm_mailbox_required_storage_bytes slot dep = 0")
        case True
        then have "load_fail (coop_ops cfg) p (uint i) 0 VM_SYS_ERR_INVALID_ARG VM_LOAD_OK N = (res, M')" using run3 by simp
        then show ?thesis by (rule load_from_slot [OF own ls(1,2) i p, rotated]) simp
      next
        case mbn: False
        obtain st N1 where al2: "local_alloc (of_nat (vm_mailbox_required_storage_bytes slot dep)) N = (st, N1)"
          by (cases "local_alloc (of_nat (vm_mailbox_required_storage_bytes slot dep)) N")
        note run4 = run3 [unfolded al2 prod.case if_not_P [OF mbn]]
        show ?thesis
        proof (cases "st = 0")
          case True
          have okN: "pools_ok N" by (rule pool_stepD(1) [OF loadingD(1) [OF ls(1)]])
          note c2 = local_alloc_call [OF okN al2]
          have "pool_step N N1 (shared_live N) (local_live N \<union> {})" using pool_step_call [OF c2(1)] True by simp
          then have "loading M i p ({p} \<union> {}) N1"
            by (rule loading_call [OF ls(1)]) (use pool_frame_fields [OF pool_callD(2) [OF c2(1)]] in simp_all)
          moreover have "mc_cpus N1 p = vm_init i" using ls(2) pool_frame_fields(7) [OF pool_callD(2) [OF c2(1)]] by simp
          moreover have "load_fail (coop_ops cfg) p (uint i) 0 VM_SYS_ERR_NO_ARENA_SPACE VM_LOAD_OK N1 = (res, M')"
            using run4 True by simp
          ultimately show ?thesis using load_from_slot [OF own _ _ i p, of N1 VM_SYS_ERR_NO_ARENA_SPACE] by simp
        next
          case st: False
          obtain mr mb where mi: "vm_mailbox_init (sy_mailboxes (mc_ext N1) i) st slot dep = (mr, mb)" by force
          note mm = mailbox_made [OF mbn st mi]
          define N2 where "N2 = set_mailbox i mb N1"
          obtain lr c a m e where load: "vm_load elf elf_size (loader_config N2 n cb rb)
              (mc_cpus N2 p, sy_local (mc_ext N2), mc_mem N2, sy_env (mc_ext N2)) = (lr, c, a, m, e)" by (metis prod_cases5)
          define N3 where "N3 = upd_cpu p (\<lambda>_. c) (upd_sys (\<lambda>s. s\<lparr>sy_local := a, sy_env := e\<rparr>) (N2\<lparr>mc_mem := m\<rparr>))"
          note fin = load_from_mailbox [OF own ls(1,2) i p al2 st N2_def mm(2) size im sh l2 load N3_def]
          have out: "(res, M') = (if lr \<noteq> VM_LOAD_OK then load_fail (coop_ops cfg) p (uint i) st VM_SYS_ERR_LOAD_FAILED lr N3
              else (\<lparr>lr_code = VM_SYS_OK, lr_load_result = VM_LOAD_OK, lr_assigned_vm_id = uint i\<rparr>, N3))"
            using run4 [unfolded if_not_P [OF st] mi prod.case mm(1), folded N2_def, unfolded load prod.case, folded N3_def] by simp
          show ?thesis
          proof (cases "lr = VM_LOAD_OK")
            case True
            then show ?thesis using out fin(2) by (auto simp: load_outcome_def)
          next
            case False
            then show ?thesis using out refused_outcome [OF _ _ fin(1) [OF _ False]] by simp
          qed
        qed
      qed
    qed
  qed
qed

text \<open>
  C28. Loading a VM is a transaction. For any image apart from the two slabs, the load either succeeds
  or takes everything back. If it succeeds, exactly one free slot \<open>i\<close> has been taken, its VM is
  ready to run, owns no block any other VM owned and holds no shared block; if it fails, for
  whatever reason (no memory, no slot, a bad mailbox geometry, a bad image), the same VMs are
  registered as before. In both cases the ownership invariant holds, and every other VM keeps its
  CPU, its place in the scheduler, its mailbox, its blocks and their bytes. With at most one
  segment for each region no block is lost: after a failure the local slab's live set is what it
  was, after a success it has gained what the new VM owns.
\<close>

theorem load_transaction:
  assumes "own_inv M" and "unat n + 8 < 2 ^ 32" and "image_apart (sy_local (mc_ext M)) elf elf_size"
    and "extent elf (unat elf_size) \<inter> shared_extent M = {}"
    and "yc_l2_shared_storage (sy_config (mc_ext M)) = 0 \<Longrightarrow> yc_l2_shared_storage_size (sy_config (mc_ext M)) = 0"
    and "vm_system_load_vm_with_mailbox (coop_ops cfg) M elf elf_size n cb rb slot dep = (res, M')"
  shows "load_outcome M (one_segment_each (mc_mem M) elf elf_size) res M'"
  by (rule load_outcome_result [OF assms])

end
