(* ===== verification/VM_System_Demo.thy ===== *)
theory VM_System_Demo
  imports VM_System_Load
begin

text \<open>
  A concrete system with one VM loaded from a one-segment image, at which the system's theorems are applied.
\<close>

section \<open>What the local slab grants\<close>

lemma local_alloc_decides:
  assumes "pools_ok M" and "local_alloc n M = (p, M')"
  shows "p = 0 \<longleftrightarrow> n = 0 \<or> size_to_bin n \<ge> 16 \<or> btop (sy_local (mc_ext M)) (size_to_bin n) = 0"
proof -
  obtain a m e where sa: "slab_alloc (sy_local (mc_ext M)) (mc_mem M) (sy_env (mc_ext M)) n = (p, a, m, e)"
    using assms(2) by (auto simp: local_alloc_def split: prod.splits)
  show ?thesis
    by (rule slab_alloc_cases [OF pools_okD(2) [OF assms(1)], of "sy_env (mc_ext M)" n]) (use sa in \<open>auto simp: user_at_def\<close>)
qed

lemma slab_alloc_other_bins:
  assumes "slab_alloc a m e n = (p, a', m', e')" "j \<noteq> size_to_bin n" shows "btop a' j = btop a j"
  using assms by (auto simp: slab_alloc_def slab_fail_def Let_def btop_def update_bin_def split: if_splits prod.splits)

lemma local_alloc_other_bins:
  assumes "local_alloc n M = (p, M')" "j \<noteq> size_to_bin n"
  shows "btop (sy_local (mc_ext M')) j = btop (sy_local (mc_ext M)) j"
  using assms slab_alloc_other_bins by (fastforce simp: local_alloc_def split: prod.splits)

section \<open>The image\<close>

lemma image_there:
  assumes "\<And>x. x \<in> extent 200 88 \<Longrightarrow> m x = store_bytes m0 200 demo_elf x"
  shows "m = store_bytes m 200 demo_elf"
proof
  fix x show "m x = store_bytes m 200 demo_elf x"
  proof (cases "x \<in> extent 200 88")
    case True
    then show ?thesis using assms [OF True] by (simp add: store_bytes_def demo_elf_def)
  next
    case False
    then show ?thesis by (intro store_bytes_other [symmetric]) (simp add: demo_elf_def)
  qed
qed

lemma demo_elf_loads:
  assumes im: "m = store_bytes m 200 demo_elf"
    and cfg: "code_backing cfg = VM_BACKING_XIP" "ram_arena cfg \<noteq> 0" "region_data_size cfg \<noteq> 0"
    and al: "slab_alloc a m e (ucast (region_data_size cfg)) = (dst, a1, m1, e1)" "dst \<noteq> 0"
  shows "fst (vm_load 200 88 cfg (vm_init i, a, m, e)) = VM_LOAD_OK"
proof -
  note f = demo_elf_fields [of m, folded im]
  have chk: "check_phdrs m 88 [252] = VM_LOAD_OK"
    using f by (simp add: check_phdr_def validate_pt_load_def vaddr_to_region_def)
  obtain cpu1 where ap: "apply_phdrs cfg 200 [252] (vm_init i, a, m, e) = (VM_LOAD_OK, cpu1, a, m, e)"
    and len: "r_length (regions cpu1 2) = 0"
    using f cfg by (simp add: apply_pt_load_def vaddr_to_region_def set_region_def vm_init_def zero_cpu_def zero_region_def)
  show ?thesis using f(1,2) chk ap len al cfg
    by (simp add: vm_load_def Let_def default_data_region_def del: apply_phdrs.simps check_phdrs.simps)
qed

section \<open>The load\<close>

definition demo_ops :: "unit sysm VmSchedOps" where "demo_ops = coop_ops zero_config"

definition demo_load :: "VmLoadVmResult \<times> unit sysm" where
  "demo_load = vm_system_load_vm_with_mailbox demo_ops demo_system 200 88 64 VM_BACKING_XIP VM_BACKING_XIP 4 2"

lemma demo_system_own: "own_inv demo_system" "pools_ok demo_system" "\<not> registered demo_system i"
  using demo_system_fresh(1) shared_invD(1) [OF own_invD(1)] by (auto simp: fresh_system_def)

lemma demo_places:
  "image_apart (sy_local (mc_ext demo_system)) 200 88" "extent 200 (unat (88 :: u64)) \<inter> shared_extent demo_system = {}"
proof -
  show "image_apart (sy_local (mc_ext demo_system)) 200 88" by (simp add: image_apart_def demo_system_fresh(4))
  have "region (sy_shared (mc_ext demo_system)) = yc_shared_storage demo_storage"
    unfolding shared_invD(2) [OF own_invD(1) [OF demo_system_own(1)]] demo_system_fresh(2) by simp
  then show "extent 200 (unat (88 :: u64)) \<inter> shared_extent demo_system = {}"
    by (auto simp: shared_extent_def demo_storage_def)
qed

lemma demo_load_succeeds: "lr_code (fst demo_load) = VM_SYS_OK" "lr_assigned_vm_id (fst demo_load) = 0"
proof -
  have bin: "size_to_bin 304 = 4" "size_to_bin 12 = 0" "size_to_bin 64 = 2" by code_simp+
  note ok = demo_system_own(2)
  have top: "btop (sy_local (mc_ext demo_system)) 4 = 18" "btop (sy_local (mc_ext demo_system)) 0 = 9"
    "btop (sy_local (mc_ext demo_system)) 2 = 9"
    using demo_system_fresh(3) by (simp_all add: default_local_bins cnt_def)
  obtain p M1 where al: "local_alloc 304 demo_system = (p, M1)" by (cases "local_alloc 304 demo_system")
  have p: "p \<noteq> 0" using local_alloc_decides [OF ok al] bin(1) top(1) by simp
  note c1 = local_alloc_call [OF ok al] and f1 = pool_frame_fields [OF pool_callD(2) [OF local_alloc_call(1) [OF ok al]]]
  have ids: "vm_ids = 0 # tl vm_ids" by (simp add: vm_ids_def upt_rec)
  have slot: "find (\<lambda>i. sd_vms (mc_sched M1) i = 0) vm_ids = Some 0"
    using demo_system_own(3) [of 0] f1(6) by (subst ids) (simp add: registered_def)
  let ?M2 = "upd_cpu p (\<lambda>_. vm_init 0) M1"
  define N where "N = set_tracking 0 zero_tracking (set_vm 0 p (admit 0 p ?M2))"
  note ls = loading_start [OF ok al p N_def]
  have okN: "pools_ok N" by (rule pool_stepD(1) [OF loadingD(1) [OF ls(1)]])
  obtain st N1 where al2: "local_alloc 12 N = (st, N1)" by (cases "local_alloc 12 N")
  have topN: "btop (sy_local (mc_ext N)) 0 = 9" "btop (sy_local (mc_ext N)) 2 = 9"
    using local_alloc_other_bins [OF al, of 0] local_alloc_other_bins [OF al, of 2] bin(1) top by (simp_all add: N_def)
  have st: "st \<noteq> 0" using local_alloc_decides [OF okN al2] bin(2) topN(1) by simp
  note c2 = local_alloc_call [OF okN al2] and f2 = pool_frame_fields [OF pool_callD(2) [OF local_alloc_call(1) [OF okN al2]]]
  obtain mb where mb: "vm_mailbox_init (sy_mailboxes (mc_ext N1) 0) st 4 2 = (VM_MBOX_OK, mb)"
    using st by (simp add: vm_mailbox_init_def)
  define N2 where "N2 = set_mailbox 0 mb N1"
  have okN2: "pools_ok N2" using pool_callD(1) [OF c2(1)] pools_ok_cong [of N1 N2] by (simp add: N2_def)
  have top2: "btop (sy_local (mc_ext N2)) 2 = 9" using local_alloc_other_bins [OF al2, of 2] bin(2) topN(2) by (simp add: N2_def)
  have cpu: "mc_cpus N2 p = vm_init 0" using ls(2) f2(7) by (simp add: N2_def)
  have mem: "mc_mem N2 x = store_bytes (\<lambda>_. 0) 200 demo_elf x" if "x \<in> extent 200 88" for x
  proof -
    have out: "x \<notin> shared_extent demo_system" "x \<notin> local_extent demo_system"
      using that demo_places by (auto simp: image_apart_def local_extent_def)
    have "shared_extent N = shared_extent demo_system" "local_extent N = local_extent demo_system"
      using pool_stepD(8,9) [OF loadingD(1) [OF ls(1)]] by simp_all
    then have "mc_mem N2 x = mc_mem N x" using f2(14) [of x] out by (simp add: N2_def)
    also have "\<dots> = mc_mem demo_system x" using f1(14) [OF out] by (simp add: N_def)
    also have "\<dots> = store_bytes (\<lambda>_. 0) 200 demo_elf x" using demo_system_fresh(6) that by (simp add: demo_blank_def)
    finally show ?thesis .
  qed
  obtain dst a1 m1 e1 where al3: "slab_alloc (sy_local (mc_ext N2)) (mc_mem N2) (sy_env (mc_ext N2)) 64 = (dst, a1, m1, e1)"
    by (metis prod_cases4)
  have dst: "dst \<noteq> 0"
  proof -
    have "fst (local_alloc 64 N2) = dst" using al3 by (simp add: local_alloc_def)
    then show ?thesis using local_alloc_decides [OF okN2, of 64 dst "snd (local_alloc 64 N2)"] bin(3) top2 by auto
  qed
  let ?cfg = "loader_config N2 64 VM_BACKING_XIP VM_BACKING_XIP"
  have "fst (vm_load 200 88 ?cfg (vm_init 0, sy_local (mc_ext N2), mc_mem N2, sy_env (mc_ext N2))) = VM_LOAD_OK"
    by (rule demo_elf_loads [OF image_there [OF mem] _ _ _ _ dst]) (use al3 in \<open>simp_all add: loader_config_def\<close>)
  then obtain c a m e where load: "vm_load 200 88 ?cfg (mc_cpus N2 p, sy_local (mc_ext N2), mc_mem N2, sy_env (mc_ext N2))
      = (VM_LOAD_OK, c, a, m, e)" unfolding cpu by (metis prod_cases5 fst_conv)
  have reg: "vm_sched_register ?M2 p = (0, admit 0 p ?M2)" using p slot by (simp add: vm_sched_register_def)
  have bytes: "vm_mailbox_required_storage_bytes 4 2 = 12" by (simp add: vm_mailbox_required_storage_bytes_def)
  have run: "demo_load = (\<lparr>lr_code = VM_SYS_OK, lr_load_result = VM_LOAD_OK, lr_assigned_vm_id = 0\<rparr>,
      upd_cpu p (\<lambda>_. c) (upd_sys (\<lambda>s. s\<lparr>sy_local := a, sy_env := e\<rparr>) (N2\<lparr>mc_mem := m\<rparr>)))"
    unfolding demo_load_def demo_ops_def vm_system_load_vm_with_mailbox_def al Let_def prod.case coop_ops_simps reg bytes
    using p st al2 mb load [unfolded N2_def] by (simp add: N_def [symmetric] N2_def loader_config_def)
  show "lr_code (fst demo_load) = VM_SYS_OK" "lr_assigned_vm_id (fst demo_load) = 0"
    unfolding run fst_conv by (rule VmLoadVmResult.select_convs)+
qed

text \<open>The system with the VM of the image in it.\<close>

definition demo_running :: "unit sysm" where "demo_running = snd demo_load"

theorem load_transaction_witness:
  "load_outcome demo_system (one_segment_each (mc_mem demo_system) 200 88) (fst demo_load) demo_running \<and>
   lr_code (fst demo_load) = VM_SYS_OK"
proof -
  have "yc_l2_shared_storage_size (sy_config (mc_ext demo_system)) = 0"
    unfolding demo_system_fresh(2) by (simp add: fill_defaults_def demo_storage_def zero_system_def Let_def)
  then show ?thesis
    using load_transaction [OF demo_system_own(1) _ demo_places, of 64 zero_config VM_BACKING_XIP VM_BACKING_XIP 4 2
        "fst demo_load" "snd demo_load"] demo_load_succeeds
    by (simp add: demo_load_def demo_ops_def demo_running_def)
qed

section \<open>Syscalls, unloading and reaping\<close>

lemma demo_system_shared: "shared_inv demo_system" "shared_live demo_system = {}" "tracked demo_system i = {}"
  using demo_system_fresh(1) own_invD(1) by (auto simp: fresh_system_def)

text \<open>A CPU outside the system's storage that asks for \<open>n\<close>.\<close>

definition demo_caller :: "u32 \<Rightarrow> unit sysm" where
  "demo_caller n = upd_cpu 8 (\<lambda>_. zero_cpu\<lparr>regs := (\<lambda>_. n)\<rparr>) demo_system"

lemma demo_caller_simps [simp]:
  "shared_inv (demo_caller n)" "vm_id (mc_cpus (demo_caller n) 8) = 0" "get_arg 8 VM_REG_A0 (demo_caller n) = n"
  "mc_ext (demo_caller n) = mc_ext demo_system" "mc_mem (demo_caller n) = mc_mem demo_system"
proof -
  show "mc_ext (demo_caller n) = mc_ext demo_system" "mc_mem (demo_caller n) = mc_mem demo_system"
    by (simp_all add: demo_caller_def)
  then show "shared_inv (demo_caller n)" using demo_system_shared(1) shared_inv_cong by blast
qed (simp_all add: demo_caller_def zero_cpu_def get_arg_def)

theorem sys_alloc_contract_witness:
  "\<exists>p. shared_live (handle_alloc 8 (demo_caller 24)) = {p} \<and> 24 \<le> shared_size_of (handle_alloc 8 (demo_caller 24)) p"
proof -
  have bin: "size_to_bin 24 = 0" by code_simp
  have "yc_slab_config (fill_defaults demo_storage) 0 = 16"
    by (simp add: fill_defaults_def Let_def demo_storage_def zero_system_def DEFAULT_SLAB_BUCKETS_def list_ex_iff)
  then have "btop (sy_shared (mc_ext demo_system)) 0 = 16" using demo_system_fresh(3) by (simp add: cnt_def)
  then show ?thesis
    using sys_alloc_contract [of "demo_caller 24" 8, OF _ _ refl] bin
    by (simp add: demo_system_shared Let_def) blast
qed

theorem sys_free_contract_witness:
  "handle_free 8 (demo_caller 0xC0000020) = ret_a0 8 (- VM_EINVAL) (demo_caller 0xC0000020)"
  using sys_free_contract [of "demo_caller 0xC0000020" 8, OF _ _ refl] by (simp add: demo_system_shared Let_def)

lemma demo_one_segment: "one_segment_each (mc_mem demo_system) 200 88"
proof -
  let ?im = "store_bytes (\<lambda>_. 0) 200 demo_elf"
  have "one_segment_each ?im 200 88" by (simp add: one_segment_each_def demo_elf_fields segment_regions_def)
  moreover have "mc_mem demo_system x = ?im x" if "x \<in> extent 200 (unat (88 :: u64))" for x
    using demo_system_fresh(6) that by (simp add: demo_blank_def)
  ultimately show ?thesis using one_segment_cong by metis
qed

lemma demo_running_facts:
  "own_inv demo_running" "registered demo_running i \<longleftrightarrow> i = 0" "local_live demo_running = set (own_list demo_running 0)"
proof -
  have "yc_l2_shared_storage_size (sy_config (mc_ext demo_system)) = 0"
    unfolding demo_system_fresh(2) by (simp add: fill_defaults_def demo_storage_def zero_system_def Let_def)
  then have "load_outcome demo_system True (fst demo_load) demo_running"
    using load_outcome_result [OF demo_system_own(1) _ demo_places, of 64 zero_config VM_BACKING_XIP VM_BACKING_XIP 4 2
        "fst demo_load" "snd demo_load"] demo_one_segment by (simp add: demo_load_def demo_ops_def demo_running_def)
  then have "load_granted demo_system True 0 demo_running"
    using demo_load_succeeds by (auto simp: load_outcome_def uint_0_iff)
  moreover have "local_live demo_system = {}" using demo_system_fresh(1) by (simp add: fresh_system_def)
  ultimately show "own_inv demo_running" "registered demo_running i \<longleftrightarrow> i = 0"
    "local_live demo_running = set (own_list demo_running 0)"
    using demo_system_own(3) by (simp_all add: load_granted_def)
qed

definition no_hooks :: "hptr \<Rightarrow> u16 \<Rightarrow> hptr \<Rightarrow> unit sysm \<Rightarrow> unit sysm" where "no_hooks h i ud M = M"

lemma no_hooks_quiet: "quiet_hooks no_hooks"
  by (auto simp: quiet_hooks_def no_hooks_def upd_sys_def)

theorem unload_reclaims_witness:
  "fst (vm_system_unload_vm (coop_ops zero_config) no_hooks demo_running 0) \<and>
   local_live (snd (vm_system_unload_vm (coop_ops zero_config) no_hooks demo_running 0)) = {}"
proof -
  have "registered demo_running 0" by (simp add: demo_running_facts(2))
  from unload_reclaims [OF demo_running_facts(1) this no_hooks_quiet prod.collapse [symmetric], of zero_config]
  show ?thesis using demo_running_facts(3) by auto
qed

end
