(* ===== verification/VM_System_Mail.thy ===== *)
theory VM_System_Mail
  imports VM_System_Demo
begin

text \<open>
  The mailbox syscalls over the whole machine: what a send delivers, by the fast path to a blocked
  receiver or through the queue, what a receive takes or how it blocks, and that a message sent is
  the message received.
\<close>

section \<open>Translations\<close>

lemma translate_ok:
  "vm_translate_read c a n = (c', p) \<Longrightarrow> p \<noteq> 0 \<Longrightarrow> c' = c" "vm_translate_write c a n = (c', p) \<Longrightarrow> p \<noteq> 0 \<Longrightarrow> c' = c"
  by (auto simp: vm_translate_read_def vm_translate_write_def xlat_read_def xlat_write_def split: if_splits prod.splits)

lemma translate_keeps:
  "vm_translate_read c a n = (c', p) \<Longrightarrow> c'\<lparr>trap_cause := t\<rparr> = c\<lparr>trap_cause := t, trap_pc := trap_pc c', trap_addr := trap_addr c'\<rparr>"
  by (auto simp: vm_translate_read_def xlat_read_def set_trap_def split: if_splits prod.splits)

section \<open>Send\<close>

text \<open>The host addresses a send works with, \<open>0\<close> where a translation fails.\<close>

definition send_source :: "'e sysm \<Rightarrow> hptr \<Rightarrow> hptr" where
  "send_source M cpu = snd (vm_translate_read (mc_cpus M cpu) (get_arg cpu VM_REG_A1 M) (get_arg cpu VM_REG_A2 M))"

definition send_direct :: "'e sysm \<Rightarrow> hptr \<Rightarrow> u32 \<Rightarrow> hptr" where
  "send_direct M q n = (if block_reason (mc_cpus M q) = BLOCK_MAILBOX_RECV
     then snd (vm_translate_write (mc_cpus M q) (cpu_internal (mc_cpus M q) 0) n) else 0)"

definition send_error :: "'e sysm \<Rightarrow> hptr \<Rightarrow> u32 option" where
  "send_error M cpu =
     (let tid = get_arg cpu VM_REG_A0 M; t = ucast tid; mb = sy_mailboxes (mc_ext M) t in
      if tid \<ge> 64 \<or> sy_vms (mc_ext M) t = 0 then Some VM_ENOENT
      else if get_arg cpu VM_REG_A2 M \<noteq> ucast (slot_size mb) then Some VM_EINVAL
      else if send_source M cpu = 0 then Some VM_EFAULT
      else if \<not> vm_mailbox_whitelist_check mb (vm_id (mc_cpus M cpu)) then Some VM_EPERM else None)"

lemma send_refuses:
  assumes "send_error M cpu = Some k"
  shows "\<exists>c. handle_send ops frame cpu M = ret_a0 cpu (- k) (upd_cpu cpu (\<lambda>_. c) M) \<and>
    c = (mc_cpus M cpu)\<lparr>trap_cause := trap_cause c, trap_pc := trap_pc c, trap_addr := trap_addr c\<rparr>"
proof -
  let ?tid = "get_arg cpu VM_REG_A0 M" and ?n = "get_arg cpu VM_REG_A2 M" and ?c = "mc_cpus M cpu"
  let ?mb = "sy_mailboxes (mc_ext M) (ucast ?tid)"
  obtain c h where tr: "vm_translate_read ?c (get_arg cpu VM_REG_A1 M) ?n = (c, h)" by force
  have h: "send_source M cpu = h" by (simp add: send_source_def tr)
  have same: "upd_cpu cpu (\<lambda>_. ?c) M = M" by (simp add: upd_cpu_def)
  have lt: "ucast ?tid < VM_SCHED_MAX_VMS" if "\<not> ?tid \<ge> 64"
  proof -
    have t: "unat ?tid < 64" using that by (simp add: not_le word_less_nat_alt)
    then have "unat (ucast ?tid :: u16) = unat ?tid" by (simp add: unsigned_ucast_eq take_bit_nat_eq_self)
    then show ?thesis using t by (simp add: word_less_nat_alt)
  qed
  consider "?tid \<ge> 64 \<or> sy_vms (mc_ext M) (ucast ?tid) = 0" "k = VM_ENOENT"
    | "\<not> ?tid \<ge> 64" "sy_vms (mc_ext M) (ucast ?tid) \<noteq> 0" "?n \<noteq> ucast (slot_size ?mb)" "k = VM_EINVAL"
    | "\<not> ?tid \<ge> 64" "sy_vms (mc_ext M) (ucast ?tid) \<noteq> 0" "?n = ucast (slot_size ?mb)" "h = 0" "k = VM_EFAULT"
    | "\<not> ?tid \<ge> 64" "sy_vms (mc_ext M) (ucast ?tid) \<noteq> 0" "?n = ucast (slot_size ?mb)" "h \<noteq> 0"
      "\<not> vm_mailbox_whitelist_check ?mb (vm_id ?c)" "k = VM_EPERM"
    using assms by (auto simp: send_error_def Let_def h split: if_splits)
  then show ?thesis
  proof cases
    case 1
    then have "handle_send ops frame cpu M = ret_a0 cpu (- k) M"
      by (auto simp: handle_send_def vm_system_get_mailbox_def Let_def split: option.splits)
    then show ?thesis using same by (intro exI [of _ ?c]) simp
  next
    case 2
    then have "handle_send ops frame cpu M = ret_a0 cpu (- k) M"
      using lt by (auto simp: handle_send_def vm_system_get_mailbox_def Let_def dest: leD)
    then show ?thesis using same by (intro exI [of _ ?c]) simp
  next
    case 3
    then have "handle_send ops frame cpu M = ret_a0 cpu (- k) (upd_cpu cpu (\<lambda>c. c\<lparr>trap_cause := TRAP_NONE\<rparr>) (upd_cpu cpu (\<lambda>_. c) M))"
      using lt tr by (auto simp: handle_send_def vm_system_get_mailbox_def Let_def dest: leD)
    then have "handle_send ops frame cpu M = ret_a0 cpu (- k) (upd_cpu cpu (\<lambda>_. c\<lparr>trap_cause := TRAP_NONE\<rparr>) M)"
      by (simp add: upd_cpu_def)
    then show ?thesis using translate_keeps [OF tr, of TRAP_NONE] by (intro exI [of _ "c\<lparr>trap_cause := TRAP_NONE\<rparr>"]) simp
  next
    case 4
    have "handle_send ops frame cpu M = ret_a0 cpu (- k) M"
      using 4 lt tr translate_ok(1) [OF tr 4(4)] same
      by (auto simp: handle_send_def vm_system_get_mailbox_def Let_def upd_cpu_def dest: leD)
    then show ?thesis using same by (intro exI [of _ ?c]) simp
  qed
qed

text \<open>What remains when there is no error.\<close>

definition send_target :: "'e sysm \<Rightarrow> hptr \<Rightarrow> u16" where "send_target M cpu = ucast (get_arg cpu VM_REG_A0 M)"

lemma send_accepted:
  assumes "send_error M cpu = None"
  defines "t \<equiv> send_target M cpu"
  shows "t < VM_SCHED_MAX_VMS" "sy_vms (mc_ext M) t \<noteq> 0" "get_arg cpu VM_REG_A2 M = ucast (slot_size (sy_mailboxes (mc_ext M) t))"
    "send_source M cpu \<noteq> 0" "vm_mailbox_whitelist_check (sy_mailboxes (mc_ext M) t) (vm_id (mc_cpus M cpu))"
    "vm_translate_read (mc_cpus M cpu) (get_arg cpu VM_REG_A1 M) (get_arg cpu VM_REG_A2 M) = (mc_cpus M cpu, send_source M cpu)"
proof -
  have e: "\<not> get_arg cpu VM_REG_A0 M \<ge> 64" "sy_vms (mc_ext M) t \<noteq> 0"
    "get_arg cpu VM_REG_A2 M = ucast (slot_size (sy_mailboxes (mc_ext M) t))"
    "send_source M cpu \<noteq> 0" "vm_mailbox_whitelist_check (sy_mailboxes (mc_ext M) t) (vm_id (mc_cpus M cpu))"
    using assms(1) by (auto simp: send_error_def t_def send_target_def Let_def split: if_splits)
  then show "sy_vms (mc_ext M) t \<noteq> 0" "get_arg cpu VM_REG_A2 M = ucast (slot_size (sy_mailboxes (mc_ext M) t))"
    "send_source M cpu \<noteq> 0" "vm_mailbox_whitelist_check (sy_mailboxes (mc_ext M) t) (vm_id (mc_cpus M cpu))" by blast+
  have "unat (get_arg cpu VM_REG_A0 M) < 64" using e(1) by (simp add: not_le word_less_nat_alt)
  then show "t < VM_SCHED_MAX_VMS"
    by (simp add: t_def send_target_def word_less_nat_alt unsigned_ucast_eq take_bit_nat_eq_self)
  obtain c h where tr: "vm_translate_read (mc_cpus M cpu) (get_arg cpu VM_REG_A1 M) (get_arg cpu VM_REG_A2 M) = (c, h)" by force
  then have "h = send_source M cpu" by (simp add: send_source_def)
  then show "vm_translate_read (mc_cpus M cpu) (get_arg cpu VM_REG_A1 M) (get_arg cpu VM_REG_A2 M) = (mc_cpus M cpu, send_source M cpu)"
    using tr translate_ok(1) [OF tr] e(4) by simp
qed

lemma rendezvous_result:
  "rendezvous_dest q n M = (send_direct M q n,
     if send_direct M q n \<noteq> 0 \<or> block_reason (mc_cpus M q) \<noteq> BLOCK_MAILBOX_RECV then M
     else upd_cpu q (\<lambda>_. fst (vm_translate_write (mc_cpus M q) (cpu_internal (mc_cpus M q) 0) n)) M)"
proof (cases "block_reason (mc_cpus M q) = BLOCK_MAILBOX_RECV")
  case True
  obtain c h where tr: "vm_translate_write (mc_cpus M q) (cpu_internal (mc_cpus M q) 0) n = (c, h)" by force
  show ?thesis
  proof (cases "h = 0")
    case False
    then have "upd_cpu q (\<lambda>_. c) M = M" using translate_ok(2) [OF tr] by (simp add: upd_cpu_def)
    then show ?thesis using True tr False by (simp add: rendezvous_dest_def send_direct_def)
  qed (use True tr in \<open>simp add: rendezvous_dest_def send_direct_def\<close>)
qed (simp add: rendezvous_dest_def send_direct_def)

lemma wake_mailbox_frame:
  "mc_mem (snd (vm_sched_wake_mailbox M i v)) = mc_mem M" "mc_ext (snd (vm_sched_wake_mailbox M i v)) = mc_ext M"
  "sd_vms (mc_sched (snd (vm_sched_wake_mailbox M i v))) = sd_vms (mc_sched M)"
  "q \<noteq> sd_vms (mc_sched M) i \<Longrightarrow> mc_cpus (snd (vm_sched_wake_mailbox M i v)) q = mc_cpus M q"
  by (auto simp: vm_sched_wake_mailbox_def Let_def move_ready_def)

text \<open>The fast path.\<close>

lemma send_hands_over:
  fixes M :: "'e sysm"
  assumes ok: "send_error M cpu = None" and vms: "sy_vms (mc_ext M) = sd_vms (mc_sched M)"
    and run: "block_reason (mc_cpus M cpu) = BLOCK_NONE" and M': "M' = handle_send (coop_ops cfg) frame cpu M"
  defines "t \<equiv> send_target M cpu" and "q \<equiv> sy_vms (mc_ext M) (send_target M cpu)" and "n \<equiv> get_arg cpu VM_REG_A2 M"
  defines "d \<equiv> send_direct M q n"
  assumes direct: "d \<noteq> 0" and blk: "is_blocked M t"
  shows "mc_mem M' = memcpy (mc_mem M) d (send_source M cpu) (unat n)" "get_arg cpu VM_REG_A0 M' = 0"
    "mc_cpus M' q = (unblock (ucast (vm_id (mc_cpus M cpu))) ((mc_cpus M q)\<lparr>trap_cause := TRAP_NONE\<rparr>))
       \<lparr>cpu_internal := (cpu_internal (mc_cpus M q))(0 := 0)\<rparr>"
    "is_ready M' t" "\<not> is_blocked M' t"
    "sy_mailboxes (mc_ext M') = (sy_mailboxes (mc_ext M))(t := (sy_mailboxes (mc_ext M) t)
       \<lparr>sends_accepted := sends_accepted (sy_mailboxes (mc_ext M) t) + 1\<rparr>)"
    "p \<noteq> cpu \<Longrightarrow> p \<noteq> q \<Longrightarrow> mc_cpus M' p = mc_cpus M p"
    "j \<noteq> t \<Longrightarrow> is_ready M' j = is_ready M j \<and> is_blocked M' j = is_blocked M j"
proof -
  note a = send_accepted [OF ok, folded t_def, folded n_def]
  have qt: "sy_vms (mc_ext M) t = q" and tt: "ucast (get_arg cpu VM_REG_A0 M) = t" by (simp_all add: q_def t_def send_target_def)
  have br: "block_reason (mc_cpus M q) = BLOCK_MAILBOX_RECV" using direct by (auto simp: d_def send_direct_def split: if_splits)
  have ne: "q \<noteq> cpu" using br run by auto
  let ?mb = "sy_mailboxes (mc_ext M) t" and ?me = "vm_id (mc_cpus M cpu)"
  let ?M1 = "upd_cpu q (\<lambda>c. c\<lparr>trap_cause := TRAP_NONE\<rparr>) (M\<lparr>mc_mem := memcpy (mc_mem M) d (send_source M cpu) (unat n)\<rparr>)"
  let ?M2 = "snd (vm_sched_wake_mailbox ?M1 t (ucast ?me))"
  have same: "upd_cpu cpu (\<lambda>_. mc_cpus M cpu) M = M" by (simp add: upd_cpu_def)
  have rd: "rendezvous_dest q n M = (d, M)" using direct by (simp add: rendezvous_result d_def)
  have big: "\<not> get_arg cpu VM_REG_A0 M \<ge> ucast VM_SCHED_MAX_VMS"
    using ok by (auto simp: send_error_def Let_def split: if_splits)
  have mbx: "vm_system_get_mailbox M t = Some ?mb" using a(1,2) by (auto simp: vm_system_get_mailbox_def dest: leD)
  have g: "\<not> q = 0" "\<not> n \<noteq> ucast (slot_size ?mb)" "\<not> send_source M cpu = 0" "\<not> \<not> vm_mailbox_whitelist_check ?mb ?me"
    using a(2-5) qt by simp_all
  have sm: "sy_mailboxes (mc_ext (ret_a0 cpu 0 (upd_cpu q (\<lambda>c. c\<lparr>cpu_internal := (cpu_internal c)(0 := 0)\<rparr>) ?M2))) t = ?mb"
    by (simp add: wake_mailbox_frame)
  have vi: "vm_id (mc_cpus ?M1 cpu) = ?me" using ne by (simp add: upd_cpu_def)
  have M'eq: "M' = set_mailbox t (?mb\<lparr>sends_accepted := sends_accepted ?mb + 1\<rparr>)
      (ret_a0 cpu 0 (upd_cpu q (\<lambda>c. c\<lparr>cpu_internal := (cpu_internal c)(0 := 0)\<rparr>) ?M2))"
    unfolding M' handle_send_def Let_def tt if_not_P [OF big] mbx option.case qt n_def [symmetric] if_not_P [OF g(1)] if_not_P [OF g(2)]
      a(6) prod.case same if_not_P [OF g(3)] if_not_P [OF g(4)] rd if_P [OF direct] coop_ops_simps vi sm ..
  have wk: "?M2 = move_ready t (upd_cpu q (unblock (ucast ?me)) ?M1)"
  proof -
    have "sd_vms (mc_sched ?M1) t = q" "block_reason (mc_cpus ?M1 q) = BLOCK_MAILBOX_RECV" "bm_test (sd_blocked (mc_sched ?M1)) t"
      using qt vms br blk a(1) by (simp_all add: bm_test_blocked is_blocked_def)
    then show ?thesis using a(1) g(1) by (simp add: vm_sched_wake_mailbox_def Let_def not_le)
  qed
  note M'2 = M'eq [unfolded wk]
  show "mc_mem M' = memcpy (mc_mem M) d (send_source M cpu) (unat n)" by (simp add: M'eq wake_mailbox_frame)
  show "get_arg cpu VM_REG_A0 M' = 0" by (simp add: M'eq get_arg_def)
  show "mc_cpus M' q = (unblock (ucast ?me) ((mc_cpus M q)\<lparr>trap_cause := TRAP_NONE\<rparr>))\<lparr>cpu_internal := (cpu_internal (mc_cpus M q))(0 := 0)\<rparr>"
    using ne by (simp add: M'2 move_ready_def upd_cpu_def unblock_def set_a0_def ret_a0_def)
  have sch: "mc_sched M' = mc_sched (move_ready t M)" by (simp add: M'2 move_ready_def ret_a0_def)
  have t64: "unat t < 64" using a(1) by (simp add: t_def word_less_nat_alt)
  show "is_ready M' t" "\<not> is_blocked M' t"
    using move_ready_bits(1) [OF t64, of M t] move_ready_bits(2) [of t M t] by (simp_all add: is_ready_def is_blocked_def sch)
  show "j \<noteq> t \<Longrightarrow> is_ready M' j = is_ready M j \<and> is_blocked M' j = is_blocked M j"
    using move_ready_bits(1) [OF t64, of M j] move_ready_bits(2) [of t M j] by (simp add: is_ready_def is_blocked_def sch)
  show "sy_mailboxes (mc_ext M') = (sy_mailboxes (mc_ext M))(t := ?mb\<lparr>sends_accepted := sends_accepted ?mb + 1\<rparr>)"
    by (simp add: M'eq wake_mailbox_frame)
  show "p \<noteq> cpu \<Longrightarrow> p \<noteq> q \<Longrightarrow> mc_cpus M' p = mc_cpus M p"
    by (simp add: M'2 move_ready_def upd_cpu_def ret_a0_def)
qed

text \<open>The queue.\<close>

lemma unat_ucast16: "unat (ucast (w :: u16) :: u32) = unat w"
  using unsigned_less [of w, where ?'a = nat] by (simp add: unsigned_ucast_eq take_bit_nat_eq_self)

lemma ucast_ucast16: "ucast (ucast (w :: u16) :: u32) = w"
  by (rule word_unat_eq_iff [THEN iffD2]) (simp add: unsigned_ucast_eq take_bit_word_eq_self)

lemma send_queues:
  fixes M :: "'e sysm"
  assumes ok: "send_error M cpu = None" and M': "M' = handle_send (coop_ops cfg) frame cpu M"
  defines "t \<equiv> send_target M cpu" and "q \<equiv> sy_vms (mc_ext M) (send_target M cpu)" and "n \<equiv> get_arg cpu VM_REG_A2 M"
  defines "mb \<equiv> sy_mailboxes (mc_ext M) t"
  assumes direct: "send_direct M q n = 0" and box: "mailbox_ok mb" and pl: "send_places mb frame (send_source M cpu)"
  shows "get_arg cpu VM_REG_A0 M' = (if length (mb_messages mb (mc_mem M)) = unat (depth mb) then - VM_EAGAIN else 0)"
    "mb_messages (sy_mailboxes (mc_ext M') t) (mc_mem M') = mb_messages mb (mc_mem M) @
       (if length (mb_messages mb (mc_mem M)) = unat (depth mb) then []
        else [(vm_id (mc_cpus M cpu), load_bytes (mc_mem M) (send_source M cpu) (unat n))])"
    "mailbox_ok (sy_mailboxes (mc_ext M') t)" "mc_sched M' = mc_sched M"
    "x \<notin> rb_extent (mb_ring mb) \<Longrightarrow> x \<notin> extent frame (unat n + 2) \<Longrightarrow> mc_mem M' x = mc_mem M x"
    "j \<noteq> t \<Longrightarrow> sy_mailboxes (mc_ext M') j = sy_mailboxes (mc_ext M) j"
    "sy_vms (mc_ext M') = sy_vms (mc_ext M)" "p \<noteq> cpu \<Longrightarrow> p \<noteq> q \<Longrightarrow> mc_cpus M' p = mc_cpus M p"
    "rg_storage (mb_ring (sy_mailboxes (mc_ext M') t)) = rg_storage (mb_ring mb) \<and>
     slot_size (sy_mailboxes (mc_ext M') t) = slot_size mb \<and> depth (sy_mailboxes (mc_ext M') t) = depth mb"
    "block_reason (mc_cpus M q) \<noteq> BLOCK_MAILBOX_RECV \<Longrightarrow> p \<noteq> cpu \<Longrightarrow> mc_cpus M' p = mc_cpus M p"
proof -
  note a = send_accepted [OF ok, folded t_def, folded n_def, folded mb_def]
  have qt: "sy_vms (mc_ext M) t = q" and tt: "ucast (get_arg cpu VM_REG_A0 M) = t" by (simp_all add: q_def t_def send_target_def)
  let ?me = "vm_id (mc_cpus M cpu)"
  have same: "upd_cpu cpu (\<lambda>_. mc_cpus M cpu) M = M" by (simp add: upd_cpu_def)
  obtain M1 where rd: "rendezvous_dest q n M = (0, M1)" and M1: "mc_mem M1 = mc_mem M" "mc_ext M1 = mc_ext M" "mc_sched M1 = mc_sched M"
    "\<And>p. p \<noteq> q \<Longrightarrow> mc_cpus M1 p = mc_cpus M p" "vm_id (mc_cpus M1 cpu) = ?me"
    "block_reason (mc_cpus M q) \<noteq> BLOCK_MAILBOX_RECV \<Longrightarrow> M1 = M"
  proof -
    let ?w = "vm_translate_write (mc_cpus M q) (cpu_internal (mc_cpus M q) 0) n"
    have "vm_id (fst ?w) = vm_id (mc_cpus M q)"
      by (auto simp: vm_translate_write_def xlat_write_def set_trap_def split: prod.splits)
    then show thesis
      using that [of "if block_reason (mc_cpus M q) \<noteq> BLOCK_MAILBOX_RECV then M else upd_cpu q (\<lambda>_. fst ?w) M"]
      by (simp add: rendezvous_result direct upd_cpu_def)
  qed
  have big: "\<not> get_arg cpu VM_REG_A0 M \<ge> ucast VM_SCHED_MAX_VMS"
    using ok by (auto simp: send_error_def Let_def split: if_splits)
  have mbx: "vm_system_get_mailbox M t = Some mb" using a(1,2) by (auto simp: vm_system_get_mailbox_def mb_def dest: leD)
  have g: "\<not> q = 0" "\<not> n \<noteq> ucast (slot_size mb)" "\<not> send_source M cpu = 0" "\<not> \<not> vm_mailbox_whitelist_check mb ?me" "\<not> (0 :: hptr) \<noteq> 0"
    using a(2-5) qt by simp_all
  obtain r mb' mem' e' where snd: "vm_mailbox_send mb ?me (send_source M cpu) (ucast n) frame (mc_mem M) (sy_env (mc_ext M)) = (r, mb', mem', e')"
    by (metis prod_cases4)
  have M'eq: "M' = ret_a0 cpu (send_result_a0 r) (set_mailbox t mb' (upd_sys (\<lambda>s. s\<lparr>sy_env := e'\<rparr>) (M1\<lparr>mc_mem := mem'\<rparr>)))"
    unfolding M' handle_send_def Let_def tt if_not_P [OF big] mbx option.case qt n_def [symmetric] if_not_P [OF g(1)] if_not_P [OF g(2)]
      a(6) prod.case same if_not_P [OF g(3)] if_not_P [OF g(4)] rd if_not_P [OF g(5)] coop_ops_simps M1(1,2,5) snd ..
  have un: "ucast n = slot_size mb" "unat n = unat (slot_size mb)"
    unfolding a(3) by (rule ucast_ucast16, rule unat_ucast16)
  note all = mb_send_result [OF box pl snd]
  note c = all [THEN conjunct1] all [THEN conjunct2, THEN conjunct1] all [THEN conjunct2, THEN conjunct2, THEN conjunct1]
  note frm = all [THEN conjunct2, THEN conjunct2, THEN conjunct2, THEN conjunct2]
  have wl: "\<not> ?me \<ge> VM_MAILBOX_WHITELIST_BITS" using a(5) by (auto simp: vm_mailbox_whitelist_check_def whitelist_id_valid_def not_le)
  have r: "r = (if length (mb_messages mb (mc_mem M)) = unat (depth mb) then VM_MBOX_ERR_FULL else VM_MBOX_OK)"
    using c(1) a(4,5) un(1) wl by simp
  show "get_arg cpu VM_REG_A0 M' = (if length (mb_messages mb (mc_mem M)) = unat (depth mb) then - VM_EAGAIN else 0)"
    by (simp add: M'eq get_arg_def r send_result_a0_def)
  show "mb_messages (sy_mailboxes (mc_ext M') t) (mc_mem M') = mb_messages mb (mc_mem M) @
       (if length (mb_messages mb (mc_mem M)) = unat (depth mb) then []
        else [(?me, load_bytes (mc_mem M) (send_source M cpu) (unat n))])"
    using c(2) r un(2) by (simp add: M'eq)
  show "mailbox_ok (sy_mailboxes (mc_ext M') t)" using c(3) by (simp add: M'eq)
  show "mc_sched M' = mc_sched M" "sy_vms (mc_ext M') = sy_vms (mc_ext M)" by (simp_all add: M'eq M1)
  show "x \<notin> rb_extent (mb_ring mb) \<Longrightarrow> x \<notin> extent frame (unat n + 2) \<Longrightarrow> mc_mem M' x = mc_mem M x"
    using frm un(2) by (simp add: M'eq del: in_extent)
  show "j \<noteq> t \<Longrightarrow> sy_mailboxes (mc_ext M') j = sy_mailboxes (mc_ext M) j" by (simp add: M'eq M1)
  show "p \<noteq> cpu \<Longrightarrow> p \<noteq> q \<Longrightarrow> mc_cpus M' p = mc_cpus M p" by (simp add: M'eq M1)
  show "block_reason (mc_cpus M q) \<noteq> BLOCK_MAILBOX_RECV \<Longrightarrow> p \<noteq> cpu \<Longrightarrow> mc_cpus M' p = mc_cpus M p" by (simp add: M'eq M1)
  have "slot_size mb' = slot_size mb \<and> depth mb' = depth mb"
    by (subst (1 2) all [THEN conjunct2, THEN conjunct2, THEN conjunct2, THEN conjunct1]) simp
  moreover have "rg_storage (mb_ring mb') = rg_storage (mb_ring mb)"
    by (rule send_storage [OF snd])
  ultimately show "rg_storage (mb_ring (sy_mailboxes (mc_ext M') t)) = rg_storage (mb_ring mb) \<and>
     slot_size (sy_mailboxes (mc_ext M') t) = slot_size mb \<and> depth (sy_mailboxes (mc_ext M') t) = depth mb"
    by (simp add: M'eq)
qed

section \<open>Receive\<close>

text \<open>Where the caller wants the payload, \<open>0\<close> where it may not write.\<close>

definition recv_dest :: "'e sysm \<Rightarrow> hptr \<Rightarrow> hptr" where
  "recv_dest M cpu = snd (vm_translate_write (mc_cpus M cpu) (get_arg cpu VM_REG_A0 M)
     (ucast (slot_size (sy_mailboxes (mc_ext M) (vm_id (mc_cpus M cpu))))))"

lemma recv_refuses:
  assumes mb: "vm_system_get_mailbox M (vm_id (mc_cpus M cpu)) = Some mb" and d: "recv_dest M cpu = 0"
  shows "\<exists>c. handle_recv ops frame cpu M = ret_a0 cpu (- VM_EFAULT) (upd_cpu cpu (\<lambda>_. c) M) \<and>
    c = (mc_cpus M cpu)\<lparr>trap_cause := TRAP_NONE, trap_pc := trap_pc c, trap_addr := trap_addr c\<rparr>"
proof -
  let ?n = "ucast (slot_size mb) :: u32"
  obtain c h where tr: "vm_translate_write (mc_cpus M cpu) (get_arg cpu VM_REG_A0 M) ?n = (c, h)" by force
  have mb': "sy_mailboxes (mc_ext M) (vm_id (mc_cpus M cpu)) = mb"
    using mb by (simp add: vm_system_get_mailbox_def split: if_splits)
  have h: "h = 0" using d tr by (simp add: recv_dest_def mb')
  have "c\<lparr>trap_cause := TRAP_NONE\<rparr> = (mc_cpus M cpu)\<lparr>trap_cause := TRAP_NONE, trap_pc := trap_pc c, trap_addr := trap_addr c\<rparr>"
    using tr by (auto simp: vm_translate_write_def xlat_write_def set_trap_def split: if_splits prod.splits)
  moreover have "handle_recv ops frame cpu M = ret_a0 cpu (- VM_EFAULT) (upd_cpu cpu (\<lambda>_. c\<lparr>trap_cause := TRAP_NONE\<rparr>) M)"
    by (simp add: handle_recv_def Let_def mb tr h upd_cpu_def)
  ultimately show ?thesis by (intro exI [of _ "c\<lparr>trap_cause := TRAP_NONE\<rparr>"]) simp
qed

text \<open>A waiting message is delivered; without one the caller is answered, or left to be parked.\<close>

lemma sender_place_clear:
  assumes "mailbox_ok mb" "recv_places mb frame d (frame + 4098)"
  shows "mb_messages mb (st16 m (frame + 4098) v) = mb_messages mb m"
proof (rule mb_messages_frame [OF assms(1)])
  fix a assume "a \<in> rb_extent (mb_ring mb)"
  moreover have "apart (rg_storage (mb_ring mb)) (rg_capacity (mb_ring mb) * rg_esize (mb_ring mb)) (frame + 4098) 2"
    using assms(2) by (simp add: recv_places_def mb_clear_def)
  ultimately have "a \<notin> extent (frame + 4098) 2" unfolding rb_extent_def by (rule apart_extent [rotated])
  then show "st16 m (frame + 4098) v a = m a" by (rule store_le_other)
qed

lemma recv_answers:
  fixes M :: "'e sysm"
  assumes got: "vm_system_get_mailbox M (vm_id (mc_cpus M cpu)) = Some mb" and d: "recv_dest M cpu \<noteq> 0"
    and M': "M' = handle_recv (coop_ops cfg) frame cpu M" and box: "mailbox_ok mb"
    and pl: "recv_places mb frame (recv_dest M cpu) (frame + 4098)"
  defines "c \<equiv> mc_cpus M cpu" and "mb' \<equiv> sy_mailboxes (mc_ext M') (vm_id (mc_cpus M cpu))" and "t \<equiv> get_arg cpu VM_REG_A1 M"
  shows "case mb_messages mb (mc_mem M) of
      m # rest \<Rightarrow> mc_cpus M' cpu = set_a0 (ucast (fst m)) c \<and>
        load_bytes (mc_mem M') (recv_dest M cpu) (unat (slot_size mb)) = snd m \<and> mb_messages mb' (mc_mem M') = rest
    | [] \<Rightarrow> mc_cpus M' cpu = (if t = 0 then set_a0 (- VM_EAGAIN) c else if in_critical c then set_a0 (- VM_EBUSY) c
         else c\<lparr>cpu_internal := (cpu_internal c)(0 := get_arg cpu VM_REG_A0 M), block_reason := BLOCK_MAILBOX_RECV,
           block_deadline := (if t = UINT32_MAX then 0 else global_tick (mc_sched M) + t)\<rparr>) \<and>
        mb_messages mb' (mc_mem M') = []" (is ?answer)
    "mailbox_ok mb'" "mc_sched M' = mc_sched M" "p \<noteq> cpu \<Longrightarrow> mc_cpus M' p = mc_cpus M p"
    "x \<notin> extent (recv_dest M cpu) (unat (slot_size mb)) \<Longrightarrow> x \<notin> extent frame 4100 \<Longrightarrow> mc_mem M' x = mc_mem M x"
    "j \<noteq> vm_id c \<Longrightarrow> sy_mailboxes (mc_ext M') j = sy_mailboxes (mc_ext M) j"
proof -
  let ?vm = "vm_id (mc_cpus M cpu)" and ?d = "recv_dest M cpu" and ?z = "unat (slot_size mb)"
  have mb: "sy_mailboxes (mc_ext M) ?vm = mb" using got by (simp add: vm_system_get_mailbox_def split: if_splits)
  obtain c1 h where tr1: "vm_translate_write (mc_cpus M cpu) (get_arg cpu VM_REG_A0 M) (ucast (slot_size mb)) = (c1, h)" by force
  then have h: "h = ?d" by (simp add: recv_dest_def mb)
  have tr: "vm_translate_write (mc_cpus M cpu) (get_arg cpu VM_REG_A0 M) (ucast (slot_size mb)) = (mc_cpus M cpu, ?d)"
    using tr1 translate_ok(2) [OF tr1] d h by simp
  have same: "upd_cpu cpu (\<lambda>_. mc_cpus M cpu) M = M" by (simp add: upd_cpu_def)
  obtain r m2 mem e where rv: "vm_mailbox_recv mb ?d (frame + 4098) frame (st16 (mc_mem M) (frame + 4098) 0) (sy_env (mc_ext M)) = (r, m2, mem, e)"
    by (metis prod_cases4)
  let ?N = "set_mailbox ?vm m2 (upd_sys (\<lambda>s. s\<lparr>sy_env := e\<rparr>) (M\<lparr>mc_mem := mem\<rparr>))"
  note all = mb_recv_result [OF box pl rv, unfolded sender_place_clear [OF box pl]]
  have r: "r = (if mb_messages mb (mc_mem M) = [] then VM_MBOX_ERR_EMPTY else VM_MBOX_OK)" using all [THEN conjunct1] d by simp
  have M'eq: "M' = (if r = VM_MBOX_OK then ret_a0 cpu (ucast (ld16 mem (frame + 4098))) ?N
      else if t = 0 then ret_a0 cpu (- VM_EAGAIN) ?N
      else if in_critical c then ret_a0 cpu (- VM_EBUSY) ?N
      else upd_cpu cpu (\<lambda>c. c\<lparr>cpu_internal := (cpu_internal c)(0 := get_arg cpu VM_REG_A0 M),
             block_reason := BLOCK_MAILBOX_RECV,
             block_deadline := (if t = UINT32_MAX then 0 else global_tick (mc_sched M) + t)\<rparr>) ?N)"
    unfolding M' handle_recv_def Let_def got option.case tr prod.case same if_not_P [OF d] rv
    using r by (simp add: t_def c_def)
  have mbx: "sy_mailboxes (mc_ext M') ?vm = m2" and mem: "mc_mem M' = mem" and sch: "mc_sched M' = mc_sched M"
    and oth: "\<And>p. p \<noteq> cpu \<Longrightarrow> mc_cpus M' p = mc_cpus M p"
    and box': "\<And>j. j \<noteq> ?vm \<Longrightarrow> sy_mailboxes (mc_ext M') j = sy_mailboxes (mc_ext M) j"
    unfolding M'eq by (simp_all add: ret_a0_def)
  show "mailbox_ok mb'" using all [THEN conjunct2, THEN conjunct2, THEN conjunct1] by (simp add: mb'_def mbx)
  show "mc_sched M' = mc_sched M" by (rule sch)
  show "p \<noteq> cpu \<Longrightarrow> mc_cpus M' p = mc_cpus M p" by (rule oth)
  show "j \<noteq> vm_id c \<Longrightarrow> sy_mailboxes (mc_ext M') j = sy_mailboxes (mc_ext M) j" using box' by (simp add: c_def)
  show "mc_mem M' x = mc_mem M x" if x: "x \<notin> extent ?d ?z" "x \<notin> extent frame 4100"
  proof -
    have small: "?z + 2 \<le> 4098" by (rule slot_bound [OF box])
    have y: "x \<notin> extent (frame + 4098) 2" "x \<notin> extent frame (?z + 2)" using x(2) small by auto
    have "mem x = st16 (mc_mem M) (frame + 4098) 0 x"
      using all [THEN conjunct2, THEN conjunct2, THEN conjunct2, THEN conjunct2, THEN conjunct1, rule_format, of x] x(1) y
      by (simp del: in_extent)
    then show ?thesis using store_le_other [OF y(1)] by (simp add: mem)
  qed
  show ?answer
  proof (cases "mb_messages mb (mc_mem M)")
    case Nil
    then have "m2 = mb \<and> mem = st16 (mc_mem M) (frame + 4098) 0" using all [THEN conjunct2, THEN conjunct1] r by simp
    then have "mb_messages mb' (mc_mem M') = []" using sender_place_clear [OF box pl] Nil by (simp add: mb'_def mbx mem)
    then show ?thesis using Nil r by (simp add: M'eq ret_a0_def c_def)
  next
    case (Cons m rest)
    then have rok: "r = VM_MBOX_OK" using r by simp
    then have "m # rest = (ld16 mem (frame + 4098), load_bytes mem ?d ?z) # mb_messages m2 mem"
      using all [THEN conjunct2, THEN conjunct1] d Cons by simp
    then show ?thesis using Cons rok by (simp add: M'eq ret_a0_def c_def mb'_def)
  qed
qed

section \<open>Properties\<close>

text \<open>
  C35. A SYS_SEND does exactly one of three things. A send that fails a check answers the first
  failing one (no such VM, wrong size, unreadable payload, not on the whitelist) and changes nothing
  else. A send to a VM parked in a receive whose saved destination it may write puts the payload
  there at once: the receiver becomes ready with the sender's true id in its a0, and the queue
  is not touched. Any other send appends exactly the payload and the true sender's id to
  the target's queue, or answers -EAGAIN when it is full and leaves the queue as it is.
\<close>

theorem sys_send_contract:
  fixes M :: "'e sysm"
  assumes "sy_vms (mc_ext M) = sd_vms (mc_sched M)" and "block_reason (mc_cpus M cpu) = BLOCK_NONE"
    and "M' = handle_send (coop_ops cfg) frame cpu M"
    and "t = send_target M cpu" and "q = sy_vms (mc_ext M) t" and "mb = sy_mailboxes (mc_ext M) t"
    and "n = get_arg cpu VM_REG_A2 M" and "mailbox_ok mb" and "send_places mb frame (send_source M cpu)"
    and "block_reason (mc_cpus M q) = BLOCK_MAILBOX_RECV \<Longrightarrow> is_blocked M t"
  shows "case send_error M cpu of
      Some k \<Rightarrow> get_arg cpu VM_REG_A0 M' = - k \<and> mc_mem M' = mc_mem M \<and> mc_sched M' = mc_sched M \<and>
        mc_ext M' = mc_ext M \<and> (\<forall>p. p \<noteq> cpu \<longrightarrow> mc_cpus M' p = mc_cpus M p)
    | None \<Rightarrow> if send_direct M q n \<noteq> 0
        then get_arg cpu VM_REG_A0 M' = 0 \<and> mc_mem M' = memcpy (mc_mem M) (send_direct M q n) (send_source M cpu) (unat n) \<and>
          get_arg q VM_REG_A0 M' = ucast (vm_id (mc_cpus M cpu)) \<and> block_reason (mc_cpus M' q) = BLOCK_NONE \<and>
          is_ready M' t \<and> \<not> is_blocked M' t \<and> mb_fifo (sy_mailboxes (mc_ext M') t) = mb_fifo mb
        else get_arg cpu VM_REG_A0 M' = (if length (mb_messages mb (mc_mem M)) = unat (depth mb) then - VM_EAGAIN else 0) \<and>
          mb_messages (sy_mailboxes (mc_ext M') t) (mc_mem M') = mb_messages mb (mc_mem M) @
            (if length (mb_messages mb (mc_mem M)) = unat (depth mb) then []
             else [(vm_id (mc_cpus M cpu), load_bytes (mc_mem M) (send_source M cpu) (unat n))]) \<and>
          mailbox_ok (sy_mailboxes (mc_ext M') t) \<and> mc_sched M' = mc_sched M"
proof (cases "send_error M cpu")
  case (Some k)
  obtain c where "M' = ret_a0 cpu (- k) (upd_cpu cpu (\<lambda>_. c) M)" using send_refuses [OF Some] assms(3) by blast
  then show ?thesis using Some by (simp add: ret_a0_def get_arg_def)
next
  case None
  show ?thesis
  proof (cases "send_direct M q n = 0")
    case False
    then have blk: "is_blocked M t" using assms(10) by (auto simp: send_direct_def split: if_splits)
    note h = send_hands_over [OF None assms(1-3), folded assms(4), folded assms(5,7), OF False blk]
    show ?thesis using h(1-6) None False assms(6) by (simp add: get_arg_def unblock_def set_a0_def)
  next
    case True
    show ?thesis
      using send_queues(1-4) [OF None assms(3), folded assms(4), folded assms(5-7), OF True assms(8,9)] None True by simp
  qed
qed

text \<open>
  C36. A SYS_RECV takes the oldest waiting message whole: its bytes are at the destination,
  its sender's id is in a0 and the rest of the queue is what it was. A destination the caller may not
  write is answered -EFAULT before anything is taken. On an empty queue a zero time-out answers
  -EAGAIN, a call inside a critical section -EBUSY, and any other call parks the VM with
  its destination saved and its deadline set (none for the longest time-out).
\<close>

theorem sys_recv_contract:
  fixes M :: "'e sysm"
  assumes "vm_system_get_mailbox M (vm_id (mc_cpus M cpu)) = Some mb" and "mailbox_ok mb"
    and "recv_places mb frame (recv_dest M cpu) (frame + 4098)"
    and "M' = handle_recv (coop_ops cfg) frame cpu M" and "c = mc_cpus M cpu" and "t = get_arg cpu VM_REG_A1 M"
    and "mb' = sy_mailboxes (mc_ext M') (vm_id (mc_cpus M cpu))"
  shows "if recv_dest M cpu = 0
    then get_arg cpu VM_REG_A0 M' = - VM_EFAULT \<and> mc_mem M' = mc_mem M \<and> mc_ext M' = mc_ext M \<and> mc_sched M' = mc_sched M
    else (case mb_messages mb (mc_mem M) of
        m # rest \<Rightarrow> mc_cpus M' cpu = set_a0 (ucast (fst m)) c \<and>
          load_bytes (mc_mem M') (recv_dest M cpu) (unat (slot_size mb)) = snd m \<and> mb_messages mb' (mc_mem M') = rest
      | [] \<Rightarrow> mc_cpus M' cpu = (if t = 0 then set_a0 (- VM_EAGAIN) c else if in_critical c then set_a0 (- VM_EBUSY) c
           else c\<lparr>cpu_internal := (cpu_internal c)(0 := get_arg cpu VM_REG_A0 M), block_reason := BLOCK_MAILBOX_RECV,
             block_deadline := (if t = UINT32_MAX then 0 else global_tick (mc_sched M) + t)\<rparr>) \<and>
          mb_messages mb' (mc_mem M') = []) \<and> mailbox_ok mb' \<and> mc_sched M' = mc_sched M"
proof (cases "recv_dest M cpu = 0")
  case True
  obtain c' where "M' = ret_a0 cpu (- VM_EFAULT) (upd_cpu cpu (\<lambda>_. c') M)" using recv_refuses [OF assms(1) True] assms(4) by blast
  then show ?thesis using True by (simp add: ret_a0_def get_arg_def)
next
  case False
  show ?thesis
    using recv_answers(1-3) [OF assms(1) False assms(4,2,3), folded assms(5-7)] False by simp
qed

text \<open>A sender, VM 3, and a receiver, VM 1, parked in a receive into its eight data bytes at \<open>48\<close>.\<close>

definition demo_receiver :: VmCpu where
  "demo_receiver = (vm_init 1)\<lparr>regions := (\<lambda>_. zero_region)(2 := \<lparr>r_base = 48, r_length = 8, r_writable = True\<rparr>),
     regs := (\<lambda>_. 0)(10 := 0x80000000, 11 := 7), cpu_internal := (\<lambda>_. 0)(0 := 0x80000000)\<rparr>"

definition demo_sender :: VmCpu where
  "demo_sender = demo_cpu\<lparr>regs := (\<lambda>_. 0)(10 := 1, 11 := 0x80000000, 12 := 4)\<rparr>"

definition demo_pair :: "VmBlockReason \<Rightarrow> unit sysm" where
  "demo_pair r = (let vms = (\<lambda>_. 0)(1 := 9, 3 := 8) in
     demo_blank\<lparr>mc_sched := zero_sched\<lparr>sd_vms := vms, sd_blocked := 2, global_tick := 100\<rparr>,
       mc_cpus := (\<lambda>_. zero_cpu)(8 := demo_sender, 9 := demo_receiver\<lparr>block_reason := r\<rparr>),
       mc_ext := (zero_system ())\<lparr>sy_vms := vms, sy_mailboxes := (\<lambda>_. zero_mailbox)(1 := demo_mailbox)\<rparr>\<rparr>)"


lemma demo_pair_simps [simp]:
  "mc_cpus (demo_pair r) 8 = demo_sender" "mc_cpus (demo_pair r) 9 = demo_receiver\<lparr>block_reason := r\<rparr>"
  "sy_vms (mc_ext (demo_pair r)) 1 = 9" "sy_mailboxes (mc_ext (demo_pair r)) 1 = demo_mailbox"
  "global_tick (mc_sched (demo_pair r)) = 100"
  "is_blocked (demo_pair r) 1"
  by (simp_all add: demo_pair_def Let_def is_blocked_def zero_system_def)

lemma demo_pair_vms: "sy_vms (mc_ext (demo_pair r)) = sd_vms (mc_sched (demo_pair r))"
  by (simp add: demo_pair_def Let_def zero_system_def)

lemma demo_pair_args [simp]:
  "get_arg 8 VM_REG_A0 (demo_pair r) = 1" "get_arg 8 VM_REG_A1 (demo_pair r) = 0x80000000"
  "get_arg 8 VM_REG_A2 (demo_pair r) = 4" "get_arg 9 VM_REG_A0 (demo_pair r) = 0x80000000" "get_arg 9 VM_REG_A1 (demo_pair r) = 7"
  by (simp_all add: get_arg_def demo_sender_def demo_receiver_def)

lemma demo_pair_places:
  "send_target (demo_pair r) 8 = 1" "send_source (demo_pair r) 8 = 32" "recv_dest (demo_pair r) 9 = 48"
  "send_direct (demo_pair r) 9 4 = (if r = BLOCK_MAILBOX_RECV then 48 else 0)" "send_error (demo_pair r) 8 = None"
  "block_reason demo_sender = BLOCK_NONE" "vm_id demo_sender = 3" "vm_id demo_receiver = 1" "\<not> in_critical demo_receiver"
proof -
  show src: "send_source (demo_pair r) 8 = 32"
    by (simp add: send_source_def vm_translate_read_def xlat_read_def xlat_pick_def demo_sender_def demo_cpu_def)
  show "send_target (demo_pair r) 8 = 1" by (simp add: send_target_def)
  show "recv_dest (demo_pair r) 9 = 48" "send_direct (demo_pair r) 9 4 = (if r = BLOCK_MAILBOX_RECV then 48 else 0)"
    by (simp_all add: recv_dest_def send_direct_def vm_translate_write_def xlat_write_def xlat_pick_def demo_receiver_def vm_init_def zero_cpu_def)
  show id: "vm_id demo_sender = 3" "vm_id demo_receiver = 1" "block_reason demo_sender = BLOCK_NONE" "\<not> in_critical demo_receiver"
    by (simp_all add: demo_sender_def demo_cpu_def demo_receiver_def vm_init_def zero_cpu_def)
  show "send_error (demo_pair r) 8 = None" by (simp add: send_error_def src id word_le_nat_alt)
qed

theorem sys_send_contract_witness:
  "let M' = handle_send (coop_ops zero_config) 1000 8 (demo_pair BLOCK_MAILBOX_RECV) in
     get_arg 8 VM_REG_A0 M' = 0 \<and> get_arg 9 VM_REG_A0 M' = 3 \<and> is_ready M' 1"
  using sys_send_contract [where cpu = 8 and M = "demo_pair BLOCK_MAILBOX_RECV" and cfg = zero_config and frame = 1000,
      OF demo_pair_vms _ refl refl refl refl refl]
  by (simp add: demo_pair_places send_places_def mb_clear_def apart_def Let_def)

theorem sys_recv_contract_witness:
  "let c = mc_cpus (handle_recv (coop_ops zero_config) 1000 9 (demo_pair BLOCK_NONE)) 9 in
     block_reason c = BLOCK_MAILBOX_RECV \<and> block_deadline c = 107"
  using sys_recv_contract [where cpu = 9 and M = "demo_pair BLOCK_NONE" and cfg = zero_config and frame = 1000 and mb = demo_mailbox,
      OF _ _ _ refl refl refl refl]
  by (simp add: demo_pair_places recv_places_def mb_clear_def apart_def Let_def vm_system_get_mailbox_def word_le_nat_alt)

end
