(* ===== verification/VM_System_Host.thy ===== *)
theory VM_System_Host
  imports VM_System_Mail VM_System_Init
begin

text \<open>
  The system's own ECALL handlers against the scheduler's contract. Every handler the start of
  the system installs, and the fallback, is calm: it keeps the scheduler's invariant, the
  registrations, the cursor and the critical-section counts, and no VM's program counter,
  identity or L2 region changes. So the router of a started system meets what the
  scheduling step asks of its host, and the invariant and the termination of the step hold for
  every state a started system can reach.
\<close>

section \<open>Calm changes\<close>

definition calm :: "'e machine \<Rightarrow> 'e machine \<Rightarrow> bool" where
  "calm M M' \<longleftrightarrow> quiet M M' \<and> sd_critical (mc_sched M') = sd_critical (mc_sched M) \<and>
     (\<forall>p. pc (mc_cpus M' p) = pc (mc_cpus M p) \<and> l2_shared (mc_cpus M' p) = l2_shared (mc_cpus M p)) \<and>
     (sched_inv M \<longrightarrow> sched_inv M')"

lemma calm_refl [simp]: "calm M M"
  by (simp add: calm_def)

lemma calm_trans: "calm M M' \<Longrightarrow> calm M' M'' \<Longrightarrow> calm M M''"
  using quiet_trans by (auto simp: calm_def)

text \<open>A change of one CPU's fields that its identity, regions and place in the program survive.\<close>

definition calm_cpu :: "VmCpu \<Rightarrow> VmCpu \<Rightarrow> bool" where
  "calm_cpu c c' \<longleftrightarrow> vm_id c' = vm_id c \<and> vm_regions_ok c' = vm_regions_ok c \<and> pc c' = pc c \<and>
     l2_shared c' = l2_shared c \<and> (halted c \<longrightarrow> halted c')"

lemma calm_upd_cpu: "calm M N \<Longrightarrow> calm_cpu (mc_cpus N p) (f (mc_cpus N p)) \<Longrightarrow> calm M (upd_cpu p f N)"
proof (rule calm_trans)
  assume c: "calm_cpu (mc_cpus N p) (f (mc_cpus N p))"
  then have q: "quiet N (upd_cpu p f N)" by (intro quiet_upd_cpu) (simp_all add: calm_cpu_def)
  have "sched_inv (upd_cpu p f N)" if "sched_inv N" by (rule inv_same_bits [OF that q]) simp_all
  then show "calm N (upd_cpu p f N)" using c q by (simp add: calm_def calm_cpu_def upd_cpu_def)
qed

lemma calm_host:
  "calm M N \<Longrightarrow> mc_sched N' = mc_sched N \<Longrightarrow> mc_cpus N' = mc_cpus N \<Longrightarrow> calm M N'"
proof (rule calm_trans)
  assume s: "mc_sched N' = mc_sched N" "mc_cpus N' = mc_cpus N"
  then have q: "quiet N N'" by (simp add: quiet_def)
  have "sched_inv N'" if "sched_inv N"
    by (rule inv_same_bits [OF that q]) (simp_all add: is_ready_def is_blocked_def s)
  then show "calm N N'" using q s by (simp add: calm_def)
qed

lemma calm_wake_mailbox: "calm M N \<Longrightarrow> calm M (snd (vm_sched_wake_mailbox N i v))"
proof (rule calm_trans)
  have "quiet N (snd (vm_sched_wake_mailbox N i v))"
    using quiet_unblock [of N i "sd_vms (mc_sched N) i" v] by (auto simp: vm_sched_wake_mailbox_def Let_def)
  moreover have "pc (mc_cpus (snd (vm_sched_wake_mailbox N i v)) p) = pc (mc_cpus N p) \<and>
      l2_shared (mc_cpus (snd (vm_sched_wake_mailbox N i v)) p) = l2_shared (mc_cpus N p)" for p
    by (auto simp: vm_sched_wake_mailbox_def Let_def upd_cpu_def unblock_def set_a0_def)
  moreover have "sd_critical (mc_sched (snd (vm_sched_wake_mailbox N i v))) = sd_critical (mc_sched N)"
    by (auto simp: vm_sched_wake_mailbox_def Let_def move_ready_def)
  ultimately show "calm N (snd (vm_sched_wake_mailbox N i v))" by (simp add: calm_def wake_mailbox_inv)
qed

text \<open>The field updates the handlers make.\<close>

lemma calm_cpu_refl [simp]: "calm_cpu c c"
  by (simp add: calm_cpu_def)

lemma calm_cpu_fields [simp]:
  "calm_cpu c (set_a0 v c)" "calm_cpu c (c\<lparr>halted := True\<rparr>)" "calm_cpu c (c\<lparr>trap_cause := t\<rparr>)"
  "calm_cpu c (c\<lparr>block_reason := b\<rparr>)" "calm_cpu c (c\<lparr>block_reason := b, block_deadline := d\<rparr>)"
  "calm_cpu c ((set_a0 v c)\<lparr>block_reason := b\<rparr>)" "calm_cpu c (set_a0 v (c\<lparr>in_critical := x\<rparr>))"
  "calm_cpu c (c\<lparr>cpu_internal := k\<rparr>)" "calm_cpu c (c\<lparr>regs := r\<rparr>)"
  "calm_cpu c (c\<lparr>cpu_internal := k, block_reason := b, block_deadline := d\<rparr>)"
  "calm_cpu c (c\<lparr>reload_period := u, reload_next_deadline := w\<rparr>)"
  "calm_cpu c (c\<lparr>reload_next_deadline := w, block_reason := b, block_deadline := d\<rparr>)"
  by (simp_all add: calm_cpu_def set_a0_def vm_regions_ok_def vm_descriptors_def)

lemma calm_cpu_translate:
  "calm_cpu c (fst (vm_translate_read c a n))" "calm_cpu c (fst (vm_translate_write c a n))"
  by (auto simp: calm_cpu_def vm_translate_read_def vm_translate_write_def xlat_read_def xlat_write_def
      set_trap_def vm_regions_ok_def vm_descriptors_def split: prod.splits)

lemma calm_translate:
  "calm M N \<Longrightarrow> vm_translate_read (mc_cpus N p) a n = (c, h) \<Longrightarrow> calm M (upd_cpu p (\<lambda>_. c) N)"
  "calm M N \<Longrightarrow> vm_translate_write (mc_cpus N p) a n = (c, h) \<Longrightarrow> calm M (upd_cpu p (\<lambda>_. c) N)"
  using calm_cpu_translate by (metis calm_upd_cpu fst_conv)+

lemma calm_cpu_trap: "calm_cpu c c' \<Longrightarrow> calm_cpu c (c'\<lparr>trap_cause := t\<rparr>)"
  by (simp add: calm_cpu_def)

lemma calm_cpu_trap_cleared:
  "vm_translate_read c a n = (c', h) \<Longrightarrow> calm_cpu c (c'\<lparr>trap_cause := t\<rparr>)"
  "vm_translate_write c a n = (c', h) \<Longrightarrow> calm_cpu c (c'\<lparr>trap_cause := t\<rparr>)"
  using calm_cpu_translate [of c a n] by (simp_all add: calm_cpu_trap)

text \<open>Through a call that returns a value with the machine.\<close>

lemma calm_case: "calm M (snd X) \<Longrightarrow> (\<And>a N. X = (a, N) \<Longrightarrow> calm M N \<Longrightarrow> calm M (f a N)) \<Longrightarrow> calm M (case X of (a, N) \<Rightarrow> f a N)"
  by (cases X) simp

lemma calm_ret: "calm M N \<Longrightarrow> calm M (ret_a0 p v N)"
  unfolding ret_a0_def by (rule calm_upd_cpu) simp_all

lemma calm_sys: "calm M N \<Longrightarrow> calm M (upd_sys f N)" "calm M N \<Longrightarrow> calm M (set_mailbox i mb N)"
  "calm M N \<Longrightarrow> calm M (set_tracking i t N)" "calm M N \<Longrightarrow> calm M (N\<lparr>mc_mem := m\<rparr>)"
  by (erule calm_host; simp add: set_mailbox_def set_tracking_def)+

lemma calm_slab:
  "calm M N \<Longrightarrow> calm M (snd (shared_alloc n N))" "calm M N \<Longrightarrow> calm M (snd (shared_free p N))"
  "calm M N \<Longrightarrow> calm M (snd (track_alloc N i p))" "calm M N \<Longrightarrow> calm M (snd (untrack_alloc N i p))"
  by (erule calm_host; simp add: shared_alloc_def shared_free_def track_alloc_def untrack_alloc_def set_tracking_def Let_def
      split: prod.splits option.splits)+

section \<open>Every handler is calm\<close>

definition calm_handler :: "'e handler \<Rightarrow> bool" where
  "calm_handler h \<longleftrightarrow> (\<forall>p M. calm M (h p M))"

lemma calm_cpu_handlers: "(n, h) \<in> set cpu_handlers \<Longrightarrow> calm_handler h"
  by (auto simp: cpu_handlers_def calm_handler_def vm_handle_exit_def vm_handle_self_def vm_handle_yield_def
      vm_handle_critical_enter_def vm_handle_critical_exit_def intro!: calm_upd_cpu)

lemma calm_fallback: "calm_handler default_fallback"
  by (simp add: calm_handler_def default_fallback_def calm_upd_cpu)

lemma calm_time_handlers:
  "calm_handler (handle_ticks_now ops)" "calm_handler (handle_tick_hz ops)" "calm_handler (handle_sleep_ticks ops)"
  "calm_handler (handle_sleep_until ops)" "calm_handler (handle_set_reload_period ops)"
  "calm_handler (handle_yield_until_reload ops)"
  by (auto simp: calm_handler_def handle_ticks_now_def handle_tick_hz_def handle_sleep_ticks_def handle_sleep_until_def
      handle_set_reload_period_def handle_yield_until_reload_def Let_def intro!: calm_ret calm_upd_cpu)

lemma calm_stats_handlers: "calm_handler handle_slab_stats" "calm_handler handle_vm_stats"
  by (auto simp: calm_handler_def handle_slab_stats_def handle_vm_stats_def Let_def
      intro!: calm_ret calm_sys calm_upd_cpu elim!: calm_translate [OF calm_refl] calm_cpu_trap_cleared split: prod.splits)

lemma calm_whitelist_handlers: "calm_handler handle_whitelist_add" "calm_handler handle_whitelist_remove"
  "calm_handler handle_mailbox_info"
  by (auto simp: calm_handler_def handle_whitelist_add_def handle_whitelist_remove_def handle_mailbox_info_def Let_def
      intro!: calm_ret calm_sys calm_upd_cpu split: prod.splits option.splits)

lemma calm_memory_handlers: "calm_handler handle_alloc" "calm_handler handle_free"
  by (auto simp: calm_handler_def handle_alloc_def handle_free_def Let_def intro!: calm_case calm_ret calm_slab)

lemma calm_rendezvous: "calm M N \<Longrightarrow> calm M (snd (rendezvous_dest q n N))"
  by (auto simp: rendezvous_dest_def Let_def elim!: calm_translate split: prod.splits)

lemma calm_rendezvous_case: "rendezvous_dest q n N = (h, N') \<Longrightarrow> calm M N \<Longrightarrow> calm M N'"
  using calm_rendezvous [of M N q n] by simp

lemma calm_send: "calm_handler (handle_send (coop_ops cfg) frame)"
  unfolding calm_handler_def handle_send_def Let_def coop_ops_simps
  by (auto intro!: calm_ret calm_sys calm_upd_cpu calm_wake_mailbox
      elim!: calm_rendezvous_case calm_translate [OF calm_refl] calm_cpu_trap_cleared split: prod.splits option.splits)

lemma calm_recv: "calm_handler (handle_recv (coop_ops cfg) frame)"
  unfolding calm_handler_def handle_recv_def Let_def coop_ops_simps
  by (auto intro!: calm_ret calm_sys calm_upd_cpu
      elim!: calm_translate [OF calm_refl] calm_cpu_trap_cleared split: prod.splits option.splits)

lemma calm_system_handlers: "(n, h) \<in> set (system_handlers (coop_ops cfg) frame) \<Longrightarrow> calm_handler h"
  by (auto simp: system_handlers_def calm_memory_handlers calm_send calm_recv calm_whitelist_handlers
      calm_time_handlers calm_stats_handlers)

text \<open>Installing handlers leaves the fallback alone.\<close>

lemma router_fallback:
  "fallback (snd (vm_ecall_register r n h)) = fallback r" "fallback (snd (vm_ecall_unregister r n)) = fallback r"
proof -
  have "fallback (set_slot r s h) = fallback r" for s h by (cases s) simp_all
  then show "fallback (snd (vm_ecall_register r n h)) = fallback r" "fallback (snd (vm_ecall_unregister r n)) = fallback r"
    by (auto simp: vm_ecall_register_def vm_ecall_unregister_def split: option.splits)
qed

lemma roll_back_fallback:
  "fallback (foldl (\<lambda>r e. snd (vm_ecall_unregister r (fst e))) r es) = fallback r"
  by (induction es arbitrary: r) (simp_all add: router_fallback(2))

lemma install_fallback:
  "fallback (snd (install_loop vm_ecall_register vm_ecall_unregister is es r)) = fallback r"
proof (induction es arbitrary: "is" r)
  case (Cons e es)
  obtain n h where e: "e = (n, h)" by force
  obtain ok r' where reg: "vm_ecall_register r n (Some h) = (ok, r')" by force
  have "fallback r' = fallback r" using router_fallback(1) [of r n "Some h"] reg by simp
  then show ?case using Cons.IH [of "is @ [(n, h)]" r'] by (simp add: e reg roll_back_fallback)
qed simp

section \<open>The configuration of a started system\<close>

lemma started_config:
  assumes "vm_system_init cb yc frame M0 = (Some cfg, M1)"
  obtains r where "cfg = snd (vm_sched_init (Some (sched_config_of cb (fill_defaults yc) r)))"
    "mc_sched M1 = zero_sched" "\<And>p M. calm M (vm_ecall_dispatch r p M)"
proof -
  let ?c = "fill_defaults yc"
  obtain r0 where r0: "vm_ecall_install_cpu_handlers (vm_ecall_router_init :: 'a sys_handler VmEcallRouter) = (True, r0)"
    "handler_of r0 = map_of cpu_handlers" by (rule cpu_handlers_installed)
  let ?ops = "coop_ops (sched_config_of cb ?c r0)"
  obtain r where r: "install_system_handlers ?ops frame r0 = (True, r)"
    "handler_of r = map_of cpu_handlers ++ map_of (system_handlers ?ops frame)"
    by (rule system_handlers_installed [OF r0(2)])
  have "fallback r0 = Some default_fallback"
    using install_fallback [of "[]" cpu_handlers "vm_ecall_router_init :: 'a sys_handler VmEcallRouter"] r0(1)
    by (simp add: vm_ecall_install_cpu_handlers_def) (simp add: vm_ecall_router_init_def)
  then have fb: "fallback r = Some default_fallback"
    using install_fallback [of "[]" "system_handlers ?ops frame" r0] r(1) by (simp add: install_system_handlers_def)
  have calm_r: "calm_handler h" if "handler_of r n = Some h" for n h
    using that calm_cpu_handlers calm_system_handlers map_of_SomeD
    by (fastforce simp: r(2) map_add_Some_iff)
  have dispatch: "calm M (vm_ecall_dispatch r p M)" for p M
  proof (cases "handler_of r (regs (mc_cpus M p) VM_REG_A7)")
    case None
    then have "vm_ecall_dispatch r p M = default_fallback p M"
      using fb by (simp add: vm_ecall_dispatch_def handler_of_def Let_def split: option.splits)
    then show ?thesis by (simp add: calm_fallback [unfolded calm_handler_def])
  next
    case (Some h)
    then have "vm_ecall_dispatch r p M = h p M"
      by (simp add: vm_ecall_dispatch_def handler_of_def Let_def split: option.splits)
    then show ?thesis using calm_r [OF Some] by (simp add: calm_handler_def)
  qed
  have "vm_sched_init (Some (sched_config_of cb ?c r)) = (mc_sched M1, cfg)"
    using assms r0(1) r(1) by (auto simp: vm_system_init_def Let_def split: if_splits prod.splits)
  moreover from this have "mc_sched M1 = zero_sched" by (simp add: vm_sched_init_def Let_def)
  ultimately show thesis using that [OF _ _ dispatch] by simp
qed

section \<open>What the host's own callbacks may do\<close>

text \<open>
  The trap and the idle handler are the host's code. What the scheduler's header lets them do
  is this: change any memory and any state of the host, write the fields of a VM's CPU other
  than its identity, its regions and its halted flag, and call the scheduler's functions for
  waking and halting, in any order.
\<close>

inductive host_act :: "'e machine \<Rightarrow> 'e machine \<Rightarrow> bool" where
  host_state: "mc_sched M' = mc_sched M \<Longrightarrow> mc_cpus M' = mc_cpus M \<Longrightarrow> host_act M M'"
| host_cpu: "(\<And>c. vm_id (f c) = vm_id c \<and> vm_descriptors (f c) = vm_descriptors c \<and> halted (f c) = halted c) \<Longrightarrow>
    host_act M (upd_cpu p f M)"
| host_wake_mailbox: "host_act M (snd (vm_sched_wake_mailbox M i v))"
| host_wake_child: "host_act M (snd (vm_sched_wake_child M i v))"
| host_wake_frame: "host_act M (snd (vm_sched_wake_frame_consumed M k))"
| host_halt: "host_act M (vm_sched_halt M i)"
| host_then: "host_act M M' \<Longrightarrow> host_act M' M'' \<Longrightarrow> host_act M M''"

definition callbacks_ok :: "'e VmSystemCallbacks \<Rightarrow> bool" where
  "callbacks_ok cb \<longleftrightarrow>
     (\<forall>h p M. ycb_trap_handler cb = Some h \<longrightarrow> host_act M (snd (h p M))) \<and>
     (\<forall>h d M. ycb_idle_handler cb = Some h \<longrightarrow> host_act M (h d M))"

text \<open>Registrations, regions and critical-section counts stay.\<close>

definition settled :: "'e machine \<Rightarrow> 'e machine \<Rightarrow> bool" where
  "settled M M' \<longleftrightarrow> sd_vms (mc_sched M') = sd_vms (mc_sched M) \<and> sd_critical (mc_sched M') = sd_critical (mc_sched M) \<and>
     (\<forall>p. l2_shared (mc_cpus M' p) = l2_shared (mc_cpus M p))"

lemma settled_refl [simp]: "settled M M" by (simp add: settled_def)
lemma settled_trans: "settled M M' \<Longrightarrow> settled M' M'' \<Longrightarrow> settled M M''" by (simp add: settled_def)
lemma calm_settled: "calm M M' \<Longrightarrow> settled M M'" by (simp add: calm_def quiet_def settled_def)

lemma settled_move_ready: "settled M N \<Longrightarrow> settled M (move_ready i N)"
  by (simp add: settled_def move_ready_def)

lemma settled_upd_cpu: "(\<And>c. l2_shared (f c) = l2_shared c) \<Longrightarrow> settled M (upd_cpu p f M)"
  by (simp add: settled_def upd_cpu_def)

lemma settled_wakes:
  "settled M (snd (vm_sched_wake_mailbox M i v))" "settled M (snd (vm_sched_wake_child M i v))"
  "settled M (snd (frame_wake_one k i (n, M)))" "settled M (vm_sched_halt M i)"
  by (auto simp: vm_sched_wake_mailbox_def vm_sched_wake_child_def frame_wake_one_def vm_sched_halt_def Let_def
      unblock_def set_a0_def clear_both_def intro!: settled_move_ready settled_upd_cpu)
    (simp add: settled_def upd_cpu_def)

lemma settled_fold_frame: "settled M (snd (fold (frame_wake_one k) is (n, M)))"
proof (induction "is" arbitrary: n M)
  case (Cons i "is")
  obtain n1 M1 where one: "frame_wake_one k i (n, M) = (n1, M1)" by force
  then show ?case using Cons.IH [of M1 n1] settled_wakes(3) [of M k i n] settled_trans by fastforce
qed simp

lemma settled_wake_frame: "settled M (snd (vm_sched_wake_frame_consumed M k))"
  unfolding vm_sched_wake_frame_consumed_def while_bits_fold by (rule settled_fold_frame)

lemma host_act_keeps: "host_act M M' \<Longrightarrow> settled M M' \<and> (sched_inv M \<longrightarrow> sched_inv M')"
proof (induction rule: host_act.induct)
  case (host_state M' M)
  then have c: "calm M M'" by (rule calm_host [OF calm_refl])
  then show ?case using calm_settled [OF c] by (simp add: calm_def)
next
  case (host_cpu f M p)
  have q: "quiet M (upd_cpu p f M)"
    by (rule quiet_upd_cpu) (use host_cpu in \<open>simp_all add: vm_regions_ok_def\<close>)
  have "settled M (upd_cpu p f M)"
    by (rule settled_upd_cpu) (use host_cpu in \<open>simp add: vm_descriptors_def\<close>)
  then show ?case using inv_same_bits [OF _ q] by simp
next
  case (host_then M M' M'')
  then show ?case using settled_trans by blast
qed (simp_all add: settled_wakes settled_wake_frame wake_mailbox_inv wake_child_inv wake_frame_inv halt_inv)

lemma started_host:
  assumes "vm_system_init cb yc frame M0 = (Some cfg, M1)" and "callbacks_ok cb"
  shows "host_keeps_inv cfg" "host_steady cfg i p" "0 < baseline_quantum cfg"
    "ecall_router cfg = Some r \<Longrightarrow> settled M (vm_ecall_dispatch r p M)"
    "trap_handler cfg = Some h \<Longrightarrow> settled M (snd (h p M))" "idle_handler cfg = Some k \<Longrightarrow> settled M (k d M)"
    "max_critical_overrun cfg = yc_max_critical_overrun (fill_defaults yc)"
    "baseline_quantum cfg = yc_baseline_quantum (fill_defaults yc)" "mc_sched M1 = zero_sched"
proof -
  obtain q where cfg: "cfg = snd (vm_sched_init (Some (sched_config_of cb (fill_defaults yc) q)))"
    and M1: "mc_sched M1 = zero_sched" and calm: "\<And>p M. calm M (vm_ecall_dispatch q p M)"
    by (rule started_config [OF assms(1)]) (rule that; assumption)
  have nz: "yc_baseline_quantum (fill_defaults yc) \<noteq> 0" "yc_max_critical_overrun (fill_defaults yc) \<noteq> 0"
    by (simp_all add: fill_defaults_def Let_def)
  have f: "ecall_router cfg = Some q" "baseline_quantum cfg = yc_baseline_quantum (fill_defaults yc)"
    "max_critical_overrun cfg = yc_max_critical_overrun (fill_defaults yc)"
    "trap_handler cfg = Some (case ycb_trap_handler cb of Some h \<Rightarrow> h | None \<Rightarrow> default_trap_handler)"
    "idle_handler cfg = Some (case ycb_idle_handler cb of Some h \<Rightarrow> h | None \<Rightarrow> default_idle_handler)"
    using nz by (auto simp: cfg vm_sched_init_def sched_config_of_def Let_def split: option.split)
  have trap: "host_act M (snd (h p M))" if "trap_handler cfg = Some h" for h p M
    using that assms(2) by (auto simp: f callbacks_ok_def default_trap_handler_def host_state split: option.splits)
  have idle: "host_act M (h d M)" if "idle_handler cfg = Some h" for h d M
    using that assms(2) by (auto simp: f callbacks_ok_def default_idle_handler_def host_state split: option.splits)
  show "baseline_quantum cfg = yc_baseline_quantum (fill_defaults yc)" "mc_sched M1 = zero_sched"
    "max_critical_overrun cfg = yc_max_critical_overrun (fill_defaults yc)" by (rule f M1)+
  show "0 < baseline_quantum cfg" using nz by (simp add: f word_neq_0_conv)
  show "settled M (vm_ecall_dispatch r p M)" if "ecall_router cfg = Some r" for r p M
    using that f(1) calm_settled [OF calm] by simp
  show "settled M (snd (h p M))" if "trap_handler cfg = Some h" for h p M using host_act_keeps [OF trap [OF that]] by blast
  show "settled M (k d M)" if "idle_handler cfg = Some k" for k d M using host_act_keeps [OF idle [OF that]] by blast
  show "host_keeps_inv cfg"
    unfolding host_keeps_inv_def Let_def
  proof (intro conjI allI impI)
    fix r and M :: "'a sysm" and i
    assume r: "ecall_router cfg = Some r" and inv: "sched_inv M"
    have "calm M (vm_ecall_dispatch r (sd_vms (mc_sched M) i) M)" using r f(1) calm by simp
    then show "sched_inv (vm_ecall_dispatch r (sd_vms (mc_sched M) i) M)"
      "sd_vms (mc_sched (vm_ecall_dispatch r (sd_vms (mc_sched M) i) M)) i = sd_vms (mc_sched M) i"
      using inv by (simp_all add: calm_def quiet_def)
  next
    fix h and M :: "'a sysm" and i
    assume h: "trap_handler cfg = Some h" and inv: "sched_inv M"
    show "sched_inv (snd (h (sd_vms (mc_sched M) i) M))"
      "sd_vms (mc_sched (snd (h (sd_vms (mc_sched M) i) M))) i = sd_vms (mc_sched M) i"
      using host_act_keeps [OF trap [OF h]] inv by (simp_all add: settled_def)
  next
    fix h d and M :: "'a sysm"
    assume "idle_handler cfg = Some h" "sched_inv M"
    then show "sched_inv (h d M)" using host_act_keeps [OF idle] by blast
  qed
  show "host_steady cfg i p"
    using calm by (simp add: host_steady_def f Let_def calm_def quiet_def)
qed

end
