(* ===== verification/VM_System_Reach.thy ===== *)
theory VM_System_Reach
  imports VM_System_Host VM_System_Demo
begin

text \<open>
  Everything a started system can do, as one transition system, and the two promises of its
  scheduler in every state it reaches: the invariant holds, and a scheduling step returns.
\<close>

section \<open>The bounds a step keeps\<close>

text \<open>No critical-section count is above the cap, and no VM's L2 region reaches the end of its window.\<close>

definition bounded :: "u32 \<Rightarrow> 'e machine \<Rightarrow> bool" where
  "bounded cap M \<longleftrightarrow> (\<forall>i. sd_critical (mc_sched M) i \<le> cap) \<and>
     (\<forall>i. registered M i \<longrightarrow> unat (r_length (l2_shared (cpu_of M i))) + 4 \<le> 2 ^ 29)"

definition settled_host :: "'e VmSchedConfig \<Rightarrow> bool" where
  "settled_host cfg \<longleftrightarrow>
     (\<forall>r p M. ecall_router cfg = Some r \<longrightarrow> settled M (vm_ecall_dispatch r p M)) \<and>
     (\<forall>h p M. trap_handler cfg = Some h \<longrightarrow> settled M (snd (h p M))) \<and>
     (\<forall>h d M. idle_handler cfg = Some h \<longrightarrow> settled M (h d M))"

lemma bounded_settled: "settled M M' \<Longrightarrow> bounded cap M \<Longrightarrow> bounded cap M'"
  by (simp add: bounded_def settled_def registered_def cpu_of_def)

lemma settled_fields:
  "settled M (clear_both i M)" "settled M (pay_debt i d M)" "settled M (apply_block_transition i M)"
  "settled M (upd_sched (\<lambda>s. s\<lparr>trapped_vms := t s\<rparr>) M)" "settled M (upd_sched (\<lambda>s. s\<lparr>sd_cursor := v\<rparr>) M)"
  "settled M (upd_sched (\<lambda>s. s\<lparr>global_tick := g s\<rparr>) M)" "settled M (sample_tick src M)"
  by (auto simp: settled_def clear_both_def pay_debt_def apply_block_transition_def Let_def sample_tick_def split: prod.split)

lemma settled_quantum:
  assumes "run_quantum cfg p b M = (r, n, M')" and "vm_regions_ok (mc_cpus M p)"
  shows "settled M M'"
proof -
  obtain c' where "vm_step (mc_cpus M p) (mc_mem M) b = (r, n, c', mc_mem M')" "mc_cpus M' = (mc_cpus M)(p := c')"
    "quiet M M'" "sd_critical (mc_sched M') = sd_critical (mc_sched M)"
    by (rule run_quantum_view [OF assms])
  then show ?thesis using vm_step_view(6) [OF assms(2)] by (auto simp: settled_def quiet_def)
qed

fun round_machine :: "'e round \<Rightarrow> 'e machine" where
  "round_machine (Again b M) = M"
| "round_machine (Over M) = M"

lemma bounded_expired:
  assumes "bounded (max_critical_overrun cfg) M"
  shows "bounded (max_critical_overrun cfg) (round_machine (expired_round cfg i p d n M))"
  using assms
  by (auto simp: expired_round_def Let_def bounded_def registered_def cpu_of_def pay_debt_def upd_cpu_def not_less)


lemma bounded_round:
  assumes host: "settled_host cfg" and inv: "sched_inv M" and reg: "registered M i" and p: "sd_vms (mc_sched M) i = p"
    and b: "bounded (max_critical_overrun cfg) M"
  shows "bounded (max_critical_overrun cfg) (round_machine (turn_round cfg i p d q M))"
proof -
  let ?cap = "max_critical_overrun cfg"
  obtain r n M1 where rq: "run_quantum cfg p q M = (r, n, M1)" by (metis prod_cases3)
  have "vm_regions_ok (mc_cpus M p)" using sched_invD(7) [OF inv reg] p by (simp add: cpu_of_def)
  then have b1: "bounded ?cap M1" using bounded_settled [OF settled_quantum [OF rq]] b by simp
  have ecall: "bounded ?cap (round_machine (ecall_round cfg i p d q n M1))"
  proof -
    define N where "N = (case ecall_router cfg of Some r \<Rightarrow> vm_ecall_dispatch r p M1 | None \<Rightarrow> upd_cpu p (set_a0 (- VM_ENOSYS)) M1)"
    have "settled M1 N"
      using host by (auto simp: N_def settled_host_def set_a0_def intro!: settled_upd_cpu split: option.split)
    then have N: "bounded ?cap N" using bounded_settled b1 by blast
    show ?thesis using N bounded_settled [OF settled_fields(1) N] bounded_settled [OF settled_fields(2) N]
        bounded_settled [OF settled_fields(3) N]
      by (simp add: ecall_round_def N_def [symmetric] Let_def)
  qed
  have trap: "bounded ?cap (handle_trap cfg i M1)"
  proof -
    define s where "s = sd_vms (mc_sched M1) i"
    obtain act N where h: "(case trap_handler cfg of Some h \<Rightarrow> h s M1 | None \<Rightarrow> default_trap_handler s M1) = (act, N)" by force
    have "settled M1 N"
    proof (cases "trap_handler cfg")
      case (Some f)
      then have "snd (f s M1) = N" using h by simp
      then show ?thesis using host Some by (auto simp: settled_host_def)
    qed (use h in \<open>simp add: default_trap_handler_def\<close>)
    then have N: "bounded ?cap N" using bounded_settled b1 by blast
    have cpu: "bounded ?cap (upd_cpu s f K)" if "bounded ?cap K" "\<And>c. l2_shared (f c) = l2_shared c" for f K
      using bounded_settled [OF settled_upd_cpu] that by blast
    show ?thesis
      unfolding handle_trap_def s_def [symmetric] Let_def h
      using b1 cpu [OF N] cpu [OF bounded_settled [OF settled_fields(4) N]]
      by (auto intro!: bounded_settled [OF settled_fields(1)] split: VmTrapAction.split)
  qed
  show ?thesis
    unfolding turn_round_def rq Let_def prod.case
    using bounded_expired [OF b1] ecall trap bounded_settled [OF settled_fields(1) b1] by (cases r) simp_all
qed

lemma bounded_turn:
  assumes "run_turn cfg i p d b M = Some M'"
  shows "settled_host cfg \<and> host_keeps_inv cfg \<and> p \<noteq> 0 \<and> sched_inv M \<and> sd_vms (mc_sched M) i = p \<and>
    bounded (max_critical_overrun cfg) M \<longrightarrow> bounded (max_critical_overrun cfg) M'"
proof (rule run_turn.raw_induct [where P = "\<lambda>cfg i p d b M M'. settled_host cfg \<and> host_keeps_inv cfg \<and> p \<noteq> 0 \<and> sched_inv M \<and>
    sd_vms (mc_sched M) i = p \<and> bounded (max_critical_overrun cfg) M \<longrightarrow> bounded (max_critical_overrun cfg) M'", OF _ assms])
  fix rec :: "'a VmSchedConfig \<Rightarrow> u16 \<Rightarrow> hptr \<Rightarrow> u32 \<Rightarrow> u32 \<Rightarrow> 'a machine \<Rightarrow> 'a machine option"
    and cfg i p d b M M'
  assume IH: "\<And>cfg i p d b M M'. rec cfg i p d b M = Some M' \<Longrightarrow>
      settled_host cfg \<and> host_keeps_inv cfg \<and> p \<noteq> 0 \<and> sched_inv M \<and> sd_vms (mc_sched M) i = p \<and>
      bounded (max_critical_overrun cfg) M \<longrightarrow> bounded (max_critical_overrun cfg) M'"
    and step: "(case turn_round cfg i p d b M of Again b' N \<Rightarrow> rec cfg i p d b' N | Over N \<Rightarrow> Some N) = Some M'"
  show "settled_host cfg \<and> host_keeps_inv cfg \<and> p \<noteq> 0 \<and> sched_inv M \<and> sd_vms (mc_sched M) i = p \<and>
      bounded (max_critical_overrun cfg) M \<longrightarrow> bounded (max_critical_overrun cfg) M'"
  proof (intro impI, elim conjE)
    assume pre: "settled_host cfg" "host_keeps_inv cfg" "p \<noteq> 0" "sched_inv M" "sd_vms (mc_sched M) i = p"
      "bounded (max_critical_overrun cfg) M"
    have reg: "registered M i" using pre(3,5) by (simp add: registered_def)
    have "round_inv i p (turn_round cfg i p d b M)" by (rule turn_round_inv [OF pre(4,2) reg pre(5)])
    moreover have "bounded (max_critical_overrun cfg) (round_machine (turn_round cfg i p d b M))"
      by (rule bounded_round [OF pre(1,4) reg pre(5,6)])
    ultimately show "bounded (max_critical_overrun cfg) M'"
      using step IH pre(1-3) by (auto simp: round_inv_def split: round.splits)
  qed
qed

lemma bounded_start: "sched_inv M \<Longrightarrow> bounded cap M \<Longrightarrow> bounded cap (step_start cfg M)"
  by (simp add: bounded_def step_start_view)

lemma bounded_step:
  assumes "settled_host cfg" "host_keeps_inv cfg" "sched_inv M" "bounded (max_critical_overrun cfg) M"
    and "vm_sched_step cfg M = Some (r, M')"
  shows "bounded (max_critical_overrun cfg) M'"
proof -
  let ?S = "step_start cfg M"
  have inv: "sched_inv ?S" by (rule step_start_inv [OF assms(3)])
  have bS: "bounded (max_critical_overrun cfg) ?S" by (rule bounded_start [OF assms(3,4)])
  show ?thesis
  proof (cases "sd_ready (mc_sched ?S) = 0 \<or> find_next_ready (sd_ready (mc_sched ?S)) (sd_cursor (mc_sched ?S)) = None")
    case True
    then show ?thesis using assms(5) bS by (auto simp: vm_sched_step_unfold Let_def split: if_splits)
  next
    case False
    then obtain i where i: "find_next_ready (sd_ready (mc_sched ?S)) (sd_cursor (mc_sched ?S)) = Some i" by blast
    obtain b d where q: "effective_quantum cfg (mc_sched ?S) i = (b, d)" by force
    obtain N where t: "run_turn cfg i (sd_vms (mc_sched ?S) i) d b ?S = Some N"
      and M': "M' = upd_sched (\<lambda>s. s\<lparr>sd_cursor := (i + 1) mod VM_SCHED_MAX_VMS\<rparr>) N"
      using assms(5) False i q by (auto simp: vm_sched_step_unfold Let_def bind_eq_Some_conv)
    have "bounded (max_critical_overrun cfg) N"
      using bounded_turn [OF t] assms(1,2) inv bS next_ready_registered(2) [OF inv i] by (simp add: registered_def)
    then show ?thesis unfolding M' by (rule bounded_settled [OF settled_fields(5)])
  qed
qed

lemma bounded_idle:
  assumes "settled_host cfg" "sched_inv M" "bounded cap M"
  shows "bounded cap (idle_round cfg M)"
proof -
  obtain d N where w: "wake_expired_timeouts M = (d, N)" by force
  have "step_start (cfg\<lparr>tick_source := None\<rparr>) M = N" by (simp add: step_start_def w)
  then have N: "bounded cap N" using bounded_start [OF assms(2,3), of "cfg\<lparr>tick_source := None\<rparr>"] by simp
  define N' where "N' = (case idle_handler cfg of Some h \<Rightarrow> h d N | None \<Rightarrow> default_idle_handler d N)"
  have "settled N N'"
    using assms(1) by (auto simp: N'_def settled_host_def default_idle_handler_def split: option.split)
  then have N': "bounded cap N'" using bounded_settled N by blast
  show ?thesis
    unfolding idle_round_def w Let_def prod.case N'_def [symmetric]
    using bounded_settled [OF settled_fields(6) N'] bounded_settled [OF settled_fields(7) N']
    by (auto split: option.split)
qed

section \<open>The bounds through loading and unloading\<close>

definition counts_kept :: "'e machine \<Rightarrow> 'e machine \<Rightarrow> bool" where
  "counts_kept M M' \<longleftrightarrow> (\<forall>i. sd_critical (mc_sched M') i = sd_critical (mc_sched M) i \<or> sd_critical (mc_sched M') i = 0)"

lemma counts_refl [simp]: "counts_kept M M" by (simp add: counts_kept_def)
lemma counts_trans: "counts_kept M M' \<Longrightarrow> counts_kept M' M'' \<Longrightarrow> counts_kept M M''"
  unfolding counts_kept_def by metis

lemma counts_same: "counts_kept M N \<Longrightarrow> mc_sched N' = mc_sched N \<Longrightarrow> counts_kept M N'"
  by (simp add: counts_kept_def)

lemma pool_calls_sched [simp]:
  "mc_sched (snd (local_alloc n M)) = mc_sched M" "mc_sched (snd (local_free p M)) = mc_sched M"
  "mc_sched (snd (shared_free p M)) = mc_sched M"
  "sy_config (mc_ext (snd (local_alloc n M))) = sy_config (mc_ext M)"
  by (simp_all add: local_alloc_def local_free_def shared_free_def split: prod.splits)

lemma local_alloc_config: "local_alloc n M = (p, N) \<Longrightarrow> mc_sched N = mc_sched M \<and> sy_config (mc_ext N) = sy_config (mc_ext M)"
  using pool_calls_sched(1,4) [of n M] by simp

lemma setters_sched [simp]:
  "mc_sched (set_mailbox i mb M) = mc_sched M" "mc_sched (set_vm i p M) = mc_sched M" "mc_sched (set_tracking i t M) = mc_sched M"
  by (simp_all add: set_mailbox_def set_vm_def set_tracking_def)

lemma release_regions_sched [simp]: "mc_sched (release_regions p M) = mc_sched M"
proof -
  have "mc_sched (fold (release_region p) is M) = mc_sched M" for "is"
    by (induction "is" arbitrary: M) (simp_all add: release_region_def Let_def)
  then show ?thesis unfolding release_regions_def by blast
qed

lemma counts_unregister: "counts_kept M N \<Longrightarrow> counts_kept M (vm_sched_unregister N i)"
  by (auto simp: counts_kept_def vm_sched_unregister_def)

lemma counts_register: "counts_kept M N \<Longrightarrow> vm_sched_register N p = (k, N') \<Longrightarrow> counts_kept M N'"
  by (auto simp: counts_kept_def vm_sched_register_def admit_def split: if_splits option.splits)

lemma counts_load_fail: "counts_kept M N \<Longrightarrow> counts_kept M (snd (load_fail (coop_ops cfg) p k st code lr N))"
proof -
  assume N: "counts_kept M N"
  define N1 where "N1 = (if p \<noteq> 0 then release_regions p N else N)"
  have N1: "counts_kept M N1" by (rule counts_same [OF N]) (simp add: N1_def)
  define N2 where "N2 = (if k \<ge> 0 then set_vm (word_of_int k) 0 (vm_sched_unregister N1 (word_of_int k)) else N1)"
  have N2: "counts_kept M N2"
    using N1 counts_same [OF counts_unregister [OF N1]] by (simp add: N2_def)
  show ?thesis
    unfolding load_fail_def Let_def snd_conv coop_ops_simps N1_def [symmetric] N2_def [symmetric]
    by (rule counts_same [OF N2]) simp
qed

lemma counts_load:
  assumes "vm_system_load_vm_with_mailbox (coop_ops cfg) M elf n d cb rb slot dep = (res, M')"
  shows "counts_kept M M'"
proof -
  have fail: "load_fail (coop_ops cfg) p k st code lr N = (res, M') \<Longrightarrow> counts_kept M N \<Longrightarrow> counts_kept M M'" for p k st code lr N
    using counts_load_fail [of M N cfg p k st code lr] by simp
  obtain p M1 where a1: "local_alloc SIZEOF_VM_CPU M = (p, M1)" by force
  have c1: "counts_kept M M1" using counts_same [OF counts_refl] local_alloc_config [OF a1] by blast
  define M2 where "M2 = upd_cpu p (\<lambda>_. vm_init 0) M1"
  have c2: "counts_kept M M2" by (rule counts_same [OF c1]) (simp add: M2_def)
  obtain k M3 where r: "vm_sched_register M2 p = (k, M3)" by force
  have c3: "counts_kept M M3" by (rule counts_register [OF c2 r])
  define M4 where "M4 = set_tracking (word_of_int k) zero_tracking (set_vm (word_of_int k) p M3)"
  have c4: "counts_kept M M4" by (rule counts_same [OF c3]) (simp add: M4_def)
  obtain st M5 where a2: "local_alloc (of_nat (vm_mailbox_required_storage_bytes slot dep)) M4 = (st, M5)" by force
  have c5: "counts_kept M M5" using counts_same [OF c4] local_alloc_config [OF a2] by blast
  have c6: "counts_kept M (set_mailbox i mb M5)" for i mb by (rule counts_same [OF c5]) simp
  have c7: "counts_kept M (upd_cpu q f (upd_sys g ((set_mailbox i mb M5)\<lparr>mc_mem := mem\<rparr>)))" for q f g i mb mem
    by (rule counts_same [OF c5]) simp
  show ?thesis
    using assms [unfolded vm_system_load_vm_with_mailbox_def a1 Let_def prod.case coop_ops_simps M2_def [symmetric] r
        M4_def [symmetric] a2] fail c1 c3 c4 c5 c6 c7
    by (auto split: if_splits prod.splits)
qed

lemma finish_l2: "r_length (l2_shared (finish_load lc entry c)) = l2_shared_size lc"
  by (simp add: finish_load_def Let_def)

lemma vm_load_l2:
  assumes "vm_load elf n lc (c0, a, m, e) = (VM_LOAD_OK, c, a', m', e')"
  shows "r_length (l2_shared c) = l2_shared_size lc"
  using assms by (auto simp: vm_load_def Let_def finish_l2 split: if_splits prod.splits)

lemma register_slot:
  assumes "vm_sched_register M p = (k, N)" "k \<ge> 0"
  obtains i where "k = uint i" "N = admit i p M"
  using assms by (auto simp: vm_sched_register_def split: if_splits option.splits)

lemma load_new_l2:
  assumes "vm_system_load_vm_with_mailbox (coop_ops cfg) M elf n d cb rb slot dep = (res, M')" and "lr_code res = VM_SYS_OK"
  obtains i where "lr_assigned_vm_id res = uint i"
    "r_length (l2_shared (cpu_of M' i)) = ucast (yc_l2_shared_storage_size (sy_config (mc_ext M)))"
proof -
  have fail: "load_fail (coop_ops cfg) p k st code lr N = (res, M') \<Longrightarrow> code \<noteq> VM_SYS_OK \<Longrightarrow> thesis" for p k st code lr N
    using assms(2) load_fail_code(1) [of "coop_ops cfg" p k st code lr N] by simp
  obtain p M1 where a1: "local_alloc SIZEOF_VM_CPU M = (p, M1)" by force
  define M2 where "M2 = upd_cpu p (\<lambda>_. vm_init 0) M1"
  obtain k M3 where r: "vm_sched_register M2 p = (k, M3)" by force
  define i :: u16 where "i = word_of_int k"
  define M4 where "M4 = set_tracking i zero_tracking (set_vm i p M3)"
  obtain st M5 where a2: "local_alloc (of_nat (vm_mailbox_required_storage_bytes slot dep)) M4 = (st, M5)" by force
  obtain mr mb where b: "vm_mailbox_init (sy_mailboxes (mc_ext M5) i) st slot dep = (mr, mb)" by force
  define M6 where "M6 = set_mailbox i mb M5"
  define lc where "lc = \<lparr>code_backing = cb, rodata_backing = rb, ram_arena = 1, region_data_size = d,
     shared_base = yc_shared_storage (sy_config (mc_ext M6)), shared_size = ucast (yc_shared_storage_size (sy_config (mc_ext M6))),
     l2_shared_base = yc_l2_shared_storage (sy_config (mc_ext M6)),
     l2_shared_size = ucast (yc_l2_shared_storage_size (sy_config (mc_ext M6)))\<rparr>"
  obtain lr c a m e where ld: "vm_load elf n lc (mc_cpus M6 p, sy_local (mc_ext M6), mc_mem M6, sy_env (mc_ext M6)) = (lr, c, a, m, e)"
    by (metis prod_cases5)
  define M7 where "M7 = upd_cpu p (\<lambda>_. c) (upd_sys (\<lambda>s. s\<lparr>sy_local := a, sy_env := e\<rparr>) (M6\<lparr>mc_mem := m\<rparr>))"
  have ok: "lr = VM_LOAD_OK \<and> k \<ge> 0 \<and> M' = M7 \<and> lr_assigned_vm_id res = k \<or> thesis"
    using assms [unfolded vm_system_load_vm_with_mailbox_def a1 Let_def prod.case coop_ops_simps M2_def [symmetric] r
        i_def [symmetric] M4_def [symmetric] a2 b M6_def [symmetric] lc_def [symmetric] ld M7_def [symmetric]] fail
    by (auto split: if_splits)
  show thesis
  proof (rule disjE [OF ok])
    assume *: "lr = VM_LOAD_OK \<and> k \<ge> 0 \<and> M' = M7 \<and> lr_assigned_vm_id res = k"
    obtain j where j: "k = uint j" "M3 = admit j p M2" by (rule register_slot [OF r]) (use * in auto)
    have ij: "i = j" by (simp add: i_def j)
    have "sd_vms (mc_sched M7) j = p"
      using local_alloc_config [OF a2] by (simp add: M7_def M6_def M4_def j admit_def)
    then have "cpu_of M' j = c" using * by (simp add: cpu_of_def M7_def)
    moreover have "l2_shared_size lc = ucast (yc_l2_shared_storage_size (sy_config (mc_ext M)))"
    proof -
      have "sy_config (mc_ext M3) = sy_config (mc_ext M2)" by (simp add: j admit_def upd_cpu_def upd_sched_def)
      then show ?thesis
        using local_alloc_config [OF a1] local_alloc_config [OF a2]
        by (simp add: lc_def M6_def M4_def M2_def set_mailbox_def set_tracking_def set_vm_def)
    qed
    ultimately show thesis using that [of j] * j vm_load_l2 [OF ld [unfolded conjunct1 [OF *]]] by simp
  qed
qed

lemma bounded_load:
  assumes own: "own_inv M" and n: "unat n + 8 < 2 ^ 32" and ap: "image_apart (sy_local (mc_ext M)) elf elf_size"
    and sh: "extent elf (unat elf_size) \<inter> shared_extent M = {}"
    and l2: "yc_l2_shared_storage (sy_config (mc_ext M)) = 0 \<Longrightarrow> yc_l2_shared_storage_size (sy_config (mc_ext M)) = 0"
    and small: "unat (yc_l2_shared_storage_size (sy_config (mc_ext M))) + 4 \<le> 2 ^ 29"
    and ld: "vm_system_load_vm_with_mailbox (coop_ops cfg) M elf elf_size n cb rb slot dep = (res, M')"
    and b: "bounded cap M"
  shows "sched_inv M' \<and> bounded cap M'"
proof -
  note out = load_outcome_result [OF own n ap sh l2 ld]
  have inv: "sched_inv M'" using out own_invD(2) by (auto simp: load_outcome_def load_granted_def load_refused_def split: if_splits)
  have cap: "sd_critical (mc_sched M') i \<le> cap" for i
    using counts_load [OF ld] b by (auto simp: counts_kept_def bounded_def) (metis word_zero_le)
  have old: "registered M j \<Longrightarrow> cpu_of M' j = cpu_of M j" for j
    using out by (auto simp: load_outcome_def load_granted_def load_refused_def others_kept_def split: if_splits)
  have "unat (r_length (l2_shared (cpu_of M' j))) + 4 \<le> 2 ^ 29" if j: "registered M' j" for j
  proof (cases "registered M j")
    case True
    then show ?thesis using old b by (simp add: bounded_def)
  next
    case False
    have okc: "lr_code res = VM_SYS_OK"
      using out j False by (auto simp: load_outcome_def load_refused_def split: if_splits)
    then obtain i where i: "lr_assigned_vm_id res = uint i" "load_granted M (one_segment_each (mc_mem M) elf elf_size) i M'"
      using out by (auto simp: load_outcome_def)
    obtain k where k: "lr_assigned_vm_id res = uint k"
      "r_length (l2_shared (cpu_of M' k)) = ucast (yc_l2_shared_storage_size (sy_config (mc_ext M)))"
      by (rule load_new_l2 [OF ld okc])
    have "j = k" using i k(1) j False by (auto simp: load_granted_def word_uint_eq_iff)
    moreover have "unat (ucast (yc_l2_shared_storage_size (sy_config (mc_ext M))) :: u32) =
        unat (yc_l2_shared_storage_size (sy_config (mc_ext M)))"
      using small by (simp add: unsigned_ucast_eq take_bit_nat_eq_self)
    ultimately show ?thesis using k(2) small by simp
  qed
  then show ?thesis using inv cap by (simp add: bounded_def)
qed

lemma bounded_unload:
  assumes "own_inv M" "registered M v" "quiet_hooks call_hook"
    and un: "vm_system_unload_vm (coop_ops cfg) call_hook M v = (ok, M')" and b: "bounded cap M"
  shows "bounded cap M'"
proof -
  have e: "\<And>i. registered M' i \<Longrightarrow> registered M i \<and> cpu_of M' i = cpu_of M i"
    using unload_effect [OF assms(1-4)] by blast
  have "counts_kept M (vm_sched_unregister M v)" by (rule counts_unregister) simp
  then have "sd_critical (mc_sched M') i = sd_critical (mc_sched M) i \<or> sd_critical (mc_sched M') i = 0" for i
    using unload_result(6) [OF assms(1-4)] by (simp add: counts_kept_def)
  then have "sd_critical (mc_sched M') i \<le> cap" for i using b unfolding bounded_def by (metis word_zero_le)
  then show ?thesis using e b by (simp add: bounded_def)
qed

lemma bounded_reap_child:
  assumes own: "own_inv M" and hooks: "quiet_hooks call_hook" and b: "bounded cap M"
  shows "own_inv (reap_child (coop_ops cfg) call_hook cid M) \<and> bounded cap (reap_child (coop_ops cfg) call_hook cid M)"
proof (cases "registered M cid \<and> halted (cpu_of M cid)")
  case False
  then show ?thesis using own b by (simp add: reap_child_skip [OF own False])
next
  case True
  then have child: "registered M cid" "halted (cpu_of M cid)" by simp_all
  define W where "W = (case find (waits_on M cid) vm_ids of None \<Rightarrow> M
     | Some pid \<Rightarrow> snd (vm_sched_wake_child M pid (child_status (cpu_of M cid))))"
  note r = reap_child_result [OF own hooks refl child, folded W_def]
  have "settled M W" by (simp add: W_def settled_wakes split: option.split)
  then have bW: "bounded cap W" using bounded_settled b by blast
  have "sy_vms (mc_ext M) = sd_vms (mc_sched M)" by (rule own_invD(3) [OF own])
  then have M': "reap_child (coop_ops cfg) call_hook cid M = snd (vm_system_unload_vm (coop_ops cfg) call_hook W cid)"
    using child by (simp add: reap_child_def W_def Let_def registered_def cpu_of_def split: option.splits)
  have "registered W cid" using r(3) child(1) by simp
  note un = bounded_unload [OF r(1) this hooks surjective_pairing bW]
  have "own_inv (reap_child (coop_ops cfg) call_hook cid M)" by (rule r(2))
  then show ?thesis using un unfolding M' by blast
qed

lemma bounded_reap:
  assumes "quiet_hooks call_hook"
  shows "own_inv M \<Longrightarrow> bounded cap M \<Longrightarrow>
    own_inv (vm_system_reap_halted_children (coop_ops cfg) call_hook M) \<and>
    bounded cap (vm_system_reap_halted_children (coop_ops cfg) call_hook M)"
proof -
  have "own_inv M \<Longrightarrow> bounded cap M \<Longrightarrow> own_inv (fold (reap_child (coop_ops cfg) call_hook) is M) \<and>
      bounded cap (fold (reap_child (coop_ops cfg) call_hook) is M)" for "is" M
    by (induction "is" arbitrary: M) (use bounded_reap_child [OF _ assms] in auto)
  then show "own_inv M \<Longrightarrow> bounded cap M \<Longrightarrow>
    own_inv (vm_system_reap_halted_children (coop_ops cfg) call_hook M) \<and>
    bounded cap (vm_system_reap_halted_children (coop_ops cfg) call_hook M)"
    by (simp add: vm_system_reap_halted_children_def)
qed

lemma bounded_register:
  assumes b: "bounded cap M" and p: "fresh_cpu M p" "unat (r_length (l2_shared (mc_cpus M p))) + 4 \<le> 2 ^ 29"
  shows "bounded cap (admit i p M)"
  using assms by (auto simp: bounded_def admit_def registered_def cpu_of_def upd_cpu_def fresh_cpu_def)

section \<open>Runs\<close>

definition healthy :: "'e VmSchedConfig \<Rightarrow> 'e machine \<Rightarrow> bool" where
  "healthy cfg M \<longleftrightarrow> sched_inv M \<and> bounded (max_critical_overrun cfg) M"

lemma healthy_step:
  "settled_host cfg \<Longrightarrow> host_keeps_inv cfg \<Longrightarrow> healthy cfg M \<Longrightarrow> vm_sched_step cfg M = Some (r, M') \<Longrightarrow> healthy cfg M'"
  using sched_step_inv bounded_step by (fastforce simp: healthy_def)

lemma healthy_idle: "settled_host cfg \<Longrightarrow> host_keeps_inv cfg \<Longrightarrow> healthy cfg M \<Longrightarrow> healthy cfg (idle_round cfg M)"
  using idle_round_inv bounded_idle by (fastforce simp: healthy_def)

lemma healthy_run:
  assumes "run_loop cfg k n M = Some r"
  shows "settled_host cfg \<and> host_keeps_inv cfg \<and> healthy cfg M \<longrightarrow> healthy cfg (snd r)"
proof (rule run_loop.raw_induct [where P = "\<lambda>cfg k n M r. settled_host cfg \<and> host_keeps_inv cfg \<and> healthy cfg M \<longrightarrow>
    healthy cfg (snd r)", OF _ assms])
  fix rec :: "'a VmSchedConfig \<Rightarrow> u64 \<Rightarrow> u64 \<Rightarrow> 'a machine \<Rightarrow> (bool \<times> 'a machine) option" and cfg k n M and r :: "bool \<times> 'a machine"
  assume IH: "\<And>cfg k n M r. rec cfg k n M = Some r \<Longrightarrow> settled_host cfg \<and> host_keeps_inv cfg \<and> healthy cfg M \<longrightarrow> healthy cfg (snd r)"
    and step: "(if k = 0 \<or> n < k then
        case vm_sched_step cfg M of None \<Rightarrow> None
        | Some (r, M') \<Rightarrow>
          if r = VM_SCHED_ALL_HALTED then Some (True, M')
          else if r = VM_SCHED_IDLE then rec cfg k (n + 1) (idle_round cfg M') else rec cfg k (n + 1) M'
      else Some (False, M)) = Some r"
  show "settled_host cfg \<and> host_keeps_inv cfg \<and> healthy cfg M \<longrightarrow> healthy cfg (snd r)"
  proof (intro impI, elim conjE)
    assume pre: "settled_host cfg" "host_keeps_inv cfg" "healthy cfg M"
    show "healthy cfg (snd r)"
    proof (cases "vm_sched_step cfg M")
      case (Some a)
      obtain q M1 where a: "a = (q, M1)" by force
      have h: "healthy cfg M1" by (rule healthy_step [OF pre]) (use Some a in simp)
      have later: "rec cfg k (n + 1) N = Some r \<Longrightarrow> healthy cfg N \<Longrightarrow> healthy cfg (snd r)" for N
        by (rule IH [THEN mp]) (use pre in blast)+
      consider (stop) "healthy cfg (snd r)" | (idle) "rec cfg k (n + 1) (idle_round cfg M1) = Some r"
        | (go) "rec cfg k (n + 1) M1 = Some r"
        using step Some a h pre(3) by (simp split: if_splits; fastforce)
      then show ?thesis using later h healthy_idle [OF pre(1,2) h] by cases blast+
    qed (use step pre in \<open>auto split: if_splits\<close>)
  qed
qed

section \<open>What a started system can reach\<close>

text \<open>
  The transitions: scheduling steps and runs; whatever the host's callbacks may do, done by the
  host between them; loading, unloading and reaping, in states in which the blocks are owned as
  \<open>own_inv\<close> says (a guest can break that through the shared window, which a finding records),
  with an L2 area that leaves the last bytes of its 512 MB window free; and the scheduler's own
  registration calls on CPUs that are not registered yet.
\<close>

inductive sys_reach :: "'e VmSystem VmSchedConfig \<Rightarrow> 'e sysm \<Rightarrow> 'e sysm \<Rightarrow> bool" for cfg M1 where
  reach_start: "sys_reach cfg M1 M1"
| reach_step: "sys_reach cfg M1 M \<Longrightarrow> vm_sched_step cfg M = Some (r, M') \<Longrightarrow> sys_reach cfg M1 M'"
| reach_run: "sys_reach cfg M1 M \<Longrightarrow> vm_sched_run cfg k M = Some (b, M') \<Longrightarrow> sys_reach cfg M1 M'"
| reach_host: "sys_reach cfg M1 M \<Longrightarrow> host_act M M' \<Longrightarrow> sys_reach cfg M1 M'"
| reach_load: "sys_reach cfg M1 M \<Longrightarrow> own_inv M \<Longrightarrow> unat n + 8 < 2 ^ 32 \<Longrightarrow>
    image_apart (sy_local (mc_ext M)) elf elf_size \<Longrightarrow> extent elf (unat elf_size) \<inter> shared_extent M = {} \<Longrightarrow>
    (yc_l2_shared_storage (sy_config (mc_ext M)) = 0 \<longrightarrow> yc_l2_shared_storage_size (sy_config (mc_ext M)) = 0) \<Longrightarrow>
    unat (yc_l2_shared_storage_size (sy_config (mc_ext M))) + 4 \<le> 2 ^ 29 \<Longrightarrow>
    vm_system_load_vm_with_mailbox (coop_ops cfg) M elf elf_size n cb rb slot dep = (res, M') \<Longrightarrow> sys_reach cfg M1 M'"
| reach_unload: "sys_reach cfg M1 M \<Longrightarrow> own_inv M \<Longrightarrow> quiet_hooks hk \<Longrightarrow> registered M v \<Longrightarrow>
    vm_system_unload_vm (coop_ops cfg) hk M v = (ok, M') \<Longrightarrow> sys_reach cfg M1 M'"
| reach_reap: "sys_reach cfg M1 M \<Longrightarrow> own_inv M \<Longrightarrow> quiet_hooks hk \<Longrightarrow>
    sys_reach cfg M1 (vm_system_reap_halted_children (coop_ops cfg) hk M)"
| reach_register: "sys_reach cfg M1 M \<Longrightarrow> fresh_cpu M p \<Longrightarrow> unat (r_length (l2_shared (mc_cpus M p))) + 4 \<le> 2 ^ 29 \<Longrightarrow>
    sys_reach cfg M1 (snd (vm_sched_register M p))"
| reach_register_at: "sys_reach cfg M1 M \<Longrightarrow> fresh_cpu M p \<Longrightarrow> unat (r_length (l2_shared (mc_cpus M p))) + 4 \<le> 2 ^ 29 \<Longrightarrow>
    sys_reach cfg M1 (snd (vm_sched_register_at M p i))"
| reach_unregister: "sys_reach cfg M1 M \<Longrightarrow> sys_reach cfg M1 (vm_sched_unregister M i)"

lemma reach_healthy:
  assumes start: "vm_system_init cb yc frame M0 = (Some cfg, M1)" and cb: "callbacks_ok cb"
    and reach: "sys_reach cfg M1 M"
  shows "healthy cfg M"
proof -
  note host = started_host(1) [OF start cb]
  have host': "settled_host cfg"
    unfolding settled_host_def using started_host(4-6) [OF start cb] by blast
  let ?cap = "max_critical_overrun cfg"
  show ?thesis using reach
  proof (induction rule: sys_reach.induct)
    case reach_start
    have "sched_inv M1" using started_host(9) [OF start cb] by (simp add: sched_inv_def slot_views zero_sched_def)
    then show ?case
      using started_host(9) [OF start cb] by (simp add: healthy_def bounded_def registered_def zero_sched_def)
  next
    case (reach_step M r M')
    then show ?case using healthy_step [OF host' host] by blast
  next
    case (reach_run M k b M')
    then show ?case using healthy_run [of cfg k 0 M "(b, M')"] host' host by (simp add: vm_sched_run_def)
  next
    case (reach_host M M')
    then have "settled M M'" "sched_inv M'" using host_act_keeps [OF reach_host.hyps(2)] by (simp_all add: healthy_def)
    moreover have "bounded ?cap M'"
      by (rule bounded_settled [OF \<open>settled M M'\<close>]) (rule conjunct2 [OF reach_host.IH [unfolded healthy_def]])
    ultimately show ?case unfolding healthy_def by blast
  next
    case (reach_load M n elf elf_size cb' rb slot dep res M')
    have l2: "yc_l2_shared_storage (sy_config (mc_ext M)) = 0 \<Longrightarrow> yc_l2_shared_storage_size (sy_config (mc_ext M)) = 0"
      using reach_load.hyps(6) by blast
    have "bounded ?cap M" using reach_load.IH by (simp only: healthy_def)
    from bounded_load [OF reach_load.hyps(2-4) reach_load.hyps(5) l2 reach_load.hyps(7,8) this] show ?case
      by (simp only: healthy_def)
  next
    case (reach_unload M hk v ok M')
    have "own_inv M'" by (rule unload_result(2) [OF reach_unload.hyps(2,4,3,5)])
    moreover have "bounded ?cap M'"
      by (rule bounded_unload [OF reach_unload.hyps(2,4,3,5)]) (use reach_unload.IH in \<open>simp add: healthy_def\<close>)
    ultimately show ?case by (simp add: healthy_def own_invD(2))
  next
    case (reach_reap M hk)
    then have "bounded ?cap M" by (simp add: healthy_def)
    from bounded_reap [OF reach_reap.hyps(3,2) this, of cfg] show ?case by (simp add: healthy_def own_invD(2))
  next
    case (reach_register M p)
    have "bounded ?cap (snd (vm_sched_register M p))"
      using reach_register bounded_register [OF _ reach_register.hyps(2,3)]
      by (auto simp: vm_sched_register_def healthy_def split: option.split)
    then show ?case using register_inv [of M p] reach_register.IH reach_register.hyps(2) by (simp add: healthy_def)
  next
    case (reach_register_at M p i)
    have "bounded ?cap (snd (vm_sched_register_at M p i))"
      using reach_register_at bounded_register [OF _ reach_register_at.hyps(2,3)]
      by (auto simp: vm_sched_register_at_def healthy_def)
    then show ?case using register_at_inv [of M p i] reach_register_at.IH reach_register_at.hyps(2) by (simp add: healthy_def)
  next
    case (reach_unregister M i)
    then have inv: "sched_inv M" and b: "bounded ?cap M" by (simp_all add: healthy_def)
    have "counts_kept M (vm_sched_unregister M i)" by (rule counts_unregister) simp
    then have "\<forall>j. sd_critical (mc_sched (vm_sched_unregister M i)) j \<le> ?cap"
      using b by (metis bounded_def counts_kept_def word_zero_le)
    moreover have "registered (vm_sched_unregister M i) j \<Longrightarrow> registered M j \<and> cpu_of (vm_sched_unregister M i) j = cpu_of M j" for j
      by (auto simp: vm_sched_unregister_def registered_def cpu_of_def split: if_splits)
    ultimately have "bounded ?cap (vm_sched_unregister M i)" using b by (simp add: bounded_def)
    then show ?case using unregister_inv [OF inv] by (simp add: healthy_def)
  qed
qed

text \<open>
  C17. The scheduler's invariant holds in every state a started system can reach, whatever its
  guests execute and whichever ECALLs they make: the ready and blocked sets are disjoint, hold
  only registered VMs, and together hold every registered VM that has not halted, so that no VM
  is lost; slots, identities, count and cursor are consistent. The ECALL handlers are the twenty the
  system installs and its fallback; of the host's own trap and idle callbacks it is only required
  that they act through the scheduler's public functions (\<open>callbacks_ok\<close>).
\<close>

theorem system_sched_invariant:
  assumes "vm_system_init cb yc frame M0 = (Some cfg, M1)" and "callbacks_ok cb" and "sys_reach cfg M1 M"
  shows "(\<forall>i. \<not> (is_ready M i \<and> is_blocked M i))
    \<and> (\<forall>i. is_ready M i \<or> is_blocked M i \<longrightarrow> registered M i)
    \<and> (\<forall>i. registered M i \<and> \<not> halted (cpu_of M i) \<longrightarrow> is_ready M i \<or> is_blocked M i)
    \<and> (\<forall>i. registered M i \<longrightarrow> unat i < 64 \<and> vm_id (cpu_of M i) = i \<and> vm_regions_ok (cpu_of M i))
    \<and> unat (registered_count (mc_sched M)) = card {i. registered M i}
    \<and> unat (sd_cursor (mc_sched M)) < 64"
  using reach_healthy [OF assms] by (simp add: healthy_def sched_inv_def)

lemma run_returns:
  assumes step: "\<And>M. healthy cfg M \<Longrightarrow> \<exists>r M'. vm_sched_step cfg M = Some (r, M')"
    and host: "settled_host cfg" "host_keeps_inv cfg"
  shows "n \<le> k \<Longrightarrow> k \<noteq> 0 \<Longrightarrow> healthy cfg M \<Longrightarrow> \<exists>b M'. run_loop cfg k n M = Some (b, M')"
proof (induction d \<equiv> "unat k - unat n" arbitrary: n M)
  case 0
  then have "\<not> n < k" by (simp add: word_less_nat_alt)
  then show ?case using 0(3) by (subst run_loop.simps) auto
next
  case (Suc d)
  have lt: "n < k" using Suc.hyps(2) by (simp add: word_less_nat_alt)
  have up: "unat (n + 1) = Suc (unat n)" by (rule unat_plus_one [OF lt])
  have le: "n + 1 \<le> k" "d = unat k - unat (n + 1)"
    using Suc.hyps(2) lt up by (simp_all add: word_le_nat_alt word_less_nat_alt)
  obtain r M1 where s: "vm_sched_step cfg M = Some (r, M1)" using step [OF Suc.prems(3)] by blast
  have h: "healthy cfg M1" by (rule healthy_step [OF host Suc.prems(3) s])
  note ih = Suc.hyps(1) [OF le(2) le(1) Suc.prems(2)]
  show ?case
    using ih [OF h] ih [OF healthy_idle [OF host h]] s lt by (subst run_loop.simps) auto
qed

text \<open>
  C18. In every state a started system can reach, a scheduling step returns, and so does the
  system's own step and a run of any bounded number of cycles, whatever the guests do: one that
  loops for ever inside a critical section, or makes nothing but ECALLs, is cut off by the
  critical-section cap, its budget or the end of its program. The only condition on the
  configuration is that the cap and a quantum together stay below \<open>2^32\<close>; with a cap closer to
  \<open>UINT32_MAX\<close> the count of the critical section can never exceed it and a finding records that.
\<close>

theorem system_step_returns:
  assumes "vm_system_init cb yc frame M0 = (Some cfg, M1)" and "callbacks_ok cb" and "sys_reach cfg M1 M"
    and "unat (yc_max_critical_overrun (fill_defaults yc)) + unat (yc_baseline_quantum (fill_defaults yc)) < 2 ^ 32"
  shows "(\<exists>r M'. vm_sched_step cfg M = Some (r, M'))
    \<and> (\<exists>r M'. vm_system_step (coop_ops cfg) call_hook M = Some (r, M'))
    \<and> (k \<noteq> 0 \<longrightarrow> (\<exists>b M'. vm_system_run (coop_ops cfg) M k = Some (b, M')))"
proof -
  note host = started_host [OF assms(1,2)]
  have host': "settled_host cfg" unfolding settled_host_def using host(4-6) by blast
  have step: "\<exists>r M'. vm_sched_step cfg N = Some (r, M')" if "healthy cfg N" for N
  proof (rule sched_step_returns)
    show "sched_inv N" "0 < baseline_quantum cfg" using that host(3) by (simp_all add: healthy_def)
    show "unat (max_critical_overrun cfg) + unat (baseline_quantum cfg) < 2 ^ 32" using assms(4) host(7,8) by simp
    show "host_steady cfg i p" for i p by (rule host(2))
    show "unat (r_length (l2_shared (cpu_of N i))) + 4 \<le> 2 ^ 29 \<and> sd_critical (mc_sched N) i \<le> max_critical_overrun cfg"
      if "registered N i" for i using that \<open>healthy cfg N\<close> by (simp add: healthy_def bounded_def)
  qed
  have h: "healthy cfg M" by (rule reach_healthy [OF assms(1-3)])
  have "\<exists>b M'. vm_system_run (coop_ops cfg) M k = Some (b, M')" if "k \<noteq> 0"
    using run_returns [OF step host' host(1), of 0 k M] that h
    by (simp add: vm_system_run_def vm_sched_run_def)
  then show ?thesis using step [OF h] by (auto simp: vm_system_step_def)
qed

section \<open>A running system\<close>

text \<open>The demonstration system, started with its handlers, with the VM of the image loaded.\<close>

lemma demo_started:
  obtains cfg where "vm_system_init demo_callbacks demo_storage 0x1000 demo_blank = (Some cfg, demo_system)"
    and "callbacks_ok demo_callbacks" and "ecall_router cfg \<noteq> None"
    and "sys_reach cfg demo_system demo_running"
proof -
  obtain cfg where start: "vm_system_init demo_callbacks demo_storage 0x1000 demo_blank = (Some cfg, demo_system)"
    using system_start_witness unfolding demo_system_def by (metis option.exhaust prod.collapse)
  have cb: "callbacks_ok demo_callbacks" by (simp add: callbacks_ok_def demo_callbacks_def)
  obtain q where "cfg = snd (vm_sched_init (Some (sched_config_of demo_callbacks (fill_defaults demo_storage) q)))"
    by (rule started_config [OF start]) (rule that; assumption)
  then have router: "ecall_router cfg \<noteq> None" by (simp add: vm_sched_init_def sched_config_of_def Let_def)
  have ops: "vm_system_load_vm_with_mailbox (coop_ops cfg) demo_system 200 88 64 VM_BACKING_XIP VM_BACKING_XIP 4 2 = demo_load"
    unfolding demo_load_def demo_ops_def vm_system_load_vm_with_mailbox_def load_fail_def by (simp only: coop_ops_simps)
  have l2: "yc_l2_shared_storage_size (sy_config (mc_ext demo_system)) = 0"
    unfolding demo_system_fresh(2) by (simp add: fill_defaults_def demo_storage_def zero_system_def Let_def)
  have "sys_reach cfg demo_system (snd demo_load)"
    by (rule reach_load [OF reach_start demo_system_own(1) _ demo_places _ _ ops [THEN trans, OF prod.collapse [symmetric]]])
      (simp_all add: l2)
  then show thesis using that [OF start cb router] by (simp add: demo_running_def)
qed

text \<open>Its VM can be scheduled, and the state after the step is sound again.\<close>

theorem system_step_returns_witness:
  "\<exists>cfg r M. vm_system_init demo_callbacks demo_storage 0x1000 demo_blank = (Some cfg, demo_system) \<and>
     ecall_router cfg \<noteq> None \<and> registered demo_running 0 \<and> vm_sched_step cfg demo_running = Some (r, M)"
proof -
  obtain cfg where start: "vm_system_init demo_callbacks demo_storage 0x1000 demo_blank = (Some cfg, demo_system)"
    "callbacks_ok demo_callbacks" and router: "ecall_router cfg \<noteq> None" and reach: "sys_reach cfg demo_system demo_running"
    by (rule demo_started)
  have "unat (yc_max_critical_overrun (fill_defaults demo_storage)) + unat (yc_baseline_quantum (fill_defaults demo_storage)) < 2 ^ 32"
    by (simp add: fill_defaults_def demo_storage_def zero_system_def Let_def)
  from system_step_returns [OF start reach this] have "\<exists>r M. vm_sched_step cfg demo_running = Some (r, M)" by blast
  moreover have "registered demo_running 0" by (simp add: demo_running_facts(2))
  ultimately show ?thesis using start(1) router by blast
qed

theorem system_sched_invariant_witness:
  "is_ready demo_running 0 \<or> is_blocked demo_running 0 \<or> halted (cpu_of demo_running 0)"
proof -
  obtain cfg where start: "vm_system_init demo_callbacks demo_storage 0x1000 demo_blank = (Some cfg, demo_system)"
    "callbacks_ok demo_callbacks" and reach: "sys_reach cfg demo_system demo_running"
    by (rule demo_started)
  have "registered demo_running 0" by (simp add: demo_running_facts(2))
  then show ?thesis using system_sched_invariant [OF start reach] by blast
qed

end
