(* ===== verification/VM_System_Family.thy ===== *)
theory VM_System_Family
  imports VM_System_Demo VM_Loader_Exact
begin

text \<open>
  What the reaping pass that ends every system step does to each VM, from the state before the pass
  to the state after it: which are gone, which are handed an exit status, which are untouched.
\<close>

section \<open>What one round leaves alone\<close>

lemma reap_round:
  assumes "own_inv M" and "quiet_hooks call_hook"
  shows "own_inv (reap_child (coop_ops cfg) call_hook c M)"
    and "registered (reap_child (coop_ops cfg) call_hook c M) i \<longleftrightarrow> registered M i \<and> \<not> (i = c \<and> halted (cpu_of M i))"
    and "registered (reap_child (coop_ops cfg) call_hook c M) i \<Longrightarrow>
      halted (cpu_of (reap_child (coop_ops cfg) call_hook c M) i) = halted (cpu_of M i)"
  using reap_list [OF assms(2,1), of "[c]" _ cfg, OF _ refl] by simp_all

definition parked_on :: "'e machine \<Rightarrow> u16 \<Rightarrow> u16 \<Rightarrow> bool" where
  "parked_on M cid pid \<longleftrightarrow> registered M pid \<and> block_reason (cpu_of M pid) = BLOCK_ON_CHILD \<and> block_child_vm (cpu_of M pid) = cid"

lemma parked_waits: "own_inv M \<Longrightarrow> waits_on M cid pid = parked_on M cid pid"
  using own_invD(3) [of M] by (simp add: waits_on_def parked_on_def registered_def cpu_of_def)

text \<open>Waking one parent does not touch the others.\<close>

lemma wake_child_others:
  assumes "sched_inv M" "registered M i" "i \<noteq> pid"
  shows "cpu_of (snd (vm_sched_wake_child M pid v)) i = cpu_of M i"
    "is_ready (snd (vm_sched_wake_child M pid v)) i = is_ready M i"
    "is_blocked (snd (vm_sched_wake_child M pid v)) i = is_blocked M i"
proof -
  let ?W = "snd (vm_sched_wake_child M pid v)"
  have sd: "sd_vms (mc_sched ?W) = sd_vms (mc_sched M)"
    by (auto simp: vm_sched_wake_child_def Let_def move_ready_def)
  have "sd_vms (mc_sched M) pid \<noteq> sd_vms (mc_sched M) i \<or> sd_vms (mc_sched M) pid = 0"
    using distinct_cpus [OF assms(1), of pid i] assms(2,3) by (auto simp: registered_def)
  then show "cpu_of ?W i = cpu_of M i" by (auto simp: cpu_of_def sd wake_child_view)
  show "is_ready ?W i = is_ready M i" "is_blocked ?W i = is_blocked M i"
    using assms(3) by (auto simp: vm_sched_wake_child_def Let_def move_ready_bits word_less_nat_alt not_le)
qed

lemma wake_child_ready:
  assumes "\<not> is_blocked M i"
  shows "cpu_of (snd (vm_sched_wake_child M i v)) i = cpu_of M i"
    "is_ready (snd (vm_sched_wake_child M i v)) i = is_ready M i"
    "is_blocked (snd (vm_sched_wake_child M i v)) i = is_blocked M i"
  using assms by (auto simp: vm_sched_wake_child_def Let_def bm_test_blocked not_le)

text \<open>A VM that is not the one reaped and not blocked on it stays as it is.\<close>

lemma reap_round_others:
  assumes own: "own_inv M" and hooks: "quiet_hooks call_hook" and i: "registered M i" "\<not> (i = c \<and> halted (cpu_of M i))"
    and free: "\<not> (is_blocked M i \<and> parked_on M c i \<and> registered M c \<and> halted (cpu_of M c))"
    and N: "N = reap_child (coop_ops cfg) call_hook c M"
  shows "cpu_of N i = cpu_of M i" "is_ready N i = is_ready M i" "is_blocked N i = is_blocked M i"
proof -
  have "cpu_of N i = cpu_of M i \<and> is_ready N i = is_ready M i \<and> is_blocked N i = is_blocked M i"
  proof (cases "registered M c \<and> halted (cpu_of M c)")
    case True
    then have child: "registered M c" "halted (cpu_of M c)" by blast+
    have reg: "registered N i" using reap_round(2) [OF own hooks] i by (simp add: N)
    note r = reap_child_result(6) [OF own hooks N child reg]
    show ?thesis
    proof (cases "find (waits_on M c) vm_ids")
      case (Some pid)
      then have p: "parked_on M c pid" using find_vm_ids parked_waits [OF own] by blast
      show ?thesis
      proof (cases "i = pid")
        case True
        then have "\<not> is_blocked M i" using free child p by blast
        from wake_child_ready [OF this] show ?thesis using r Some True by simp
      next
        case False
        from wake_child_others [OF own_invD(2) [OF own] i(1) this] show ?thesis using r Some by simp
      qed
    qed (use r in simp)
  next
    case False
    then show ?thesis unfolding N reap_child_skip [OF own False] by simp
  qed
  then show "cpu_of N i = cpu_of M i" "is_ready N i = is_ready M i" "is_blocked N i = is_blocked M i" by blast+
qed

text \<open>Nobody starts waiting.\<close>

lemma reap_round_parked:
  assumes own: "own_inv M" and hooks: "quiet_hooks call_hook"
    and p: "parked_on (reap_child (coop_ops cfg) call_hook c M) d i"
  shows "parked_on M d i"
proof (cases "registered M c \<and> halted (cpu_of M c)")
  case True
  let ?N = "reap_child (coop_ops cfg) call_hook c M"
  from True have child: "registered M c" "halted (cpu_of M c)" by blast+
  have reg: "registered ?N i" "registered M i" using p reap_round(2) [OF own hooks] by (simp_all add: parked_on_def)
  note r = reap_child_result(6) [OF own hooks refl child reg(1)]
  show ?thesis
  proof (cases "find (waits_on M c) vm_ids")
    case None
    then show ?thesis using r p reg(2) by (simp add: parked_on_def)
  next
    case (Some pid)
    show ?thesis
    proof (cases "i = pid")
      case False
      then show ?thesis using wake_child_others(1) [OF own_invD(2) [OF own] reg(2) False] r p reg(2) Some
        by (simp add: parked_on_def)
    next
      case eq: True
      define v where "v = child_status (cpu_of M c)"
      let ?W = "snd (vm_sched_wake_child M pid v)"
      have sd: "sd_vms (mc_sched ?W) = sd_vms (mc_sched M)"
        by (auto simp: vm_sched_wake_child_def Let_def move_ready_def)
      have "cpu_of ?W i = cpu_of M i \<or> block_reason (cpu_of ?W i) = BLOCK_NONE"
        by (simp add: cpu_of_def sd wake_child_view unblock_def set_a0_def)
      then show ?thesis using r p reg(2) Some unfolding v_def by (auto simp: parked_on_def)
    qed
  qed
next
  case False
  then show ?thesis using p by (simp add: reap_child_skip [OF own])
qed

section \<open>Several rounds\<close>

lemma reap_rounds_others:
  assumes hooks: "quiet_hooks call_hook"
  shows "own_inv M \<Longrightarrow> registered M i \<Longrightarrow> \<not> (i \<in> set cs \<and> halted (cpu_of M i)) \<Longrightarrow>
    \<forall>c \<in> set cs. \<not> (is_blocked M i \<and> parked_on M c i \<and> registered M c \<and> halted (cpu_of M c)) \<Longrightarrow>
    N = fold (reap_child (coop_ops cfg) call_hook) cs M \<Longrightarrow>
    own_inv N \<and> registered N i \<and> cpu_of N i = cpu_of M i \<and> is_ready N i = is_ready M i \<and> is_blocked N i = is_blocked M i"
proof (induction cs arbitrary: M)
  case (Cons c cs)
  let ?M1 = "reap_child (coop_ops cfg) call_hook c M"
  note round = reap_round [OF Cons.prems(1) hooks]
  have ic: "\<not> (i = c \<and> halted (cpu_of M i))"
    and wc: "\<not> (is_blocked M i \<and> parked_on M c i \<and> registered M c \<and> halted (cpu_of M c))"
    using Cons.prems(3,4) by auto
  note same = reap_round_others [OF Cons.prems(1) hooks Cons.prems(2) ic wc refl, of cfg]
  have reg: "registered ?M1 i" using round(2) Cons.prems(2) ic by blast
  have "own_inv N \<and> registered N i \<and> cpu_of N i = cpu_of ?M1 i \<and> is_ready N i = is_ready ?M1 i \<and> is_blocked N i = is_blocked ?M1 i"
  proof (rule Cons.IH [OF round(1) reg])
    show "\<not> (i \<in> set cs \<and> halted (cpu_of ?M1 i))" using same(1) Cons.prems(3) by auto
    show "N = fold (reap_child (coop_ops cfg) call_hook) cs ?M1" using Cons.prems(5) by simp
    show "\<forall>d \<in> set cs. \<not> (is_blocked ?M1 i \<and> parked_on ?M1 d i \<and> registered ?M1 d \<and> halted (cpu_of ?M1 d))"
    proof (intro ballI notI, elim conjE)
      fix d assume d: "d \<in> set cs" "is_blocked ?M1 i" "parked_on ?M1 d i" "registered ?M1 d" "halted (cpu_of ?M1 d)"
      have "parked_on M d i" by (rule reap_round_parked [OF Cons.prems(1) hooks d(3)])
      moreover have "registered M d" "halted (cpu_of M d)" using round(2,3) d(4,5) by blast+
      ultimately show False using Cons.prems(4) d(1,2) same(3) by simp
    qed
  qed
  then show ?case using same by simp
qed simp

lemma reap_rounds_parked:
  assumes hooks: "quiet_hooks call_hook"
  shows "own_inv M \<Longrightarrow> parked_on (fold (reap_child (coop_ops cfg) call_hook) cs M) d i \<Longrightarrow> parked_on M d i"
proof (induction cs arbitrary: M)
  case (Cons c cs)
  then show ?case using Cons.IH [OF reap_round(1) [OF Cons.prems(1) hooks]] reap_round_parked [OF Cons.prems(1) hooks]
    by (metis fold_simps(2))
qed simp

lemma find_sub: "find P xs = Some p \<Longrightarrow> Q p \<Longrightarrow> (\<And>q. Q q \<Longrightarrow> P q) \<Longrightarrow> find Q xs = Some p"
  by (induction xs) (auto split: if_splits)

lemma find_lowest:
  assumes "P pid" "unat pid < 64" "\<forall>q < pid. \<not> P q" shows "find P vm_ids = Some pid"
proof -
  have at: "unat (vm_ids ! j) = j" if "j < 64" for j
    using that by (simp add: vm_ids_def unat_of_nat)
  have len: "length vm_ids = 64" by (simp add: vm_ids_def)
  have "vm_ids ! unat pid = pid" using at [OF assms(2)] by (simp add: word_unat_eq_iff)
  moreover have "\<not> P (vm_ids ! j)" if "j < unat pid" for j
    using that at [of j] assms(2,3) by (simp add: word_less_nat_alt)
  ultimately show ?thesis using assms(1,2) len unfolding find_Some_iff by (intro exI [of _ "unat pid"]) simp
qed

lemma every_vm_id: "unat i < 64 \<Longrightarrow> i \<in> set vm_ids"
  unfolding vm_ids_def set_map by (rule image_eqI [of _ _ "unat i"]) simp_all

text \<open>The parent of a VM that is reaped in the middle of the pass.\<close>

lemma reap_pass_parent:
  assumes own: "own_inv M" and hooks: "quiet_hooks call_hook"
    and child: "registered M cid" "halted (cpu_of M cid)" "\<not> is_blocked M cid"
    and parent: "is_blocked M pid" "\<not> halted (cpu_of M pid)" "parked_on M cid pid" "\<forall>q < pid. \<not> parked_on M cid q"
  and M'0: "M' = vm_system_reap_halted_children (coop_ops cfg) call_hook M"
  shows "is_ready M' pid \<and> \<not> is_blocked M' pid \<and>
    cpu_of M' pid = unblock (child_status (cpu_of M cid)) ((cpu_of M pid)\<lparr>block_child_vm := UINT16_MAX\<rparr>)"
proof -
  let ?f = "fold (reap_child (coop_ops cfg) call_hook)"
  have inv: "sched_inv M" by (rule own_invD(2) [OF own])
  have reg: "registered M pid" using parent(3) by (simp add: parked_on_def)
  have ne: "pid \<noteq> cid" using parent(2) child(2) by blast
  obtain xs ys where ids: "vm_ids = xs @ cid # ys" using every_vm_id [OF sched_invD(5) [OF inv child(1)]] by (metis split_list)
  have "distinct (xs @ cid # ys)" unfolding ids [symmetric] by code_simp
  then have out: "cid \<notin> set xs" by simp
  have one: "d = cid" if "parked_on M d pid" for d using that parent(3) by (simp add: parked_on_def)
  define M1 where "M1 = ?f xs M"
  have p1: "own_inv M1 \<and> registered M1 pid \<and> cpu_of M1 pid = cpu_of M pid \<and> is_ready M1 pid = is_ready M pid \<and>
      is_blocked M1 pid = is_blocked M pid"
    by (rule reap_rounds_others [OF hooks own reg _ _ M1_def]) (use one out(1) parent(2) in blast)+
  have p2: "own_inv M1 \<and> registered M1 cid \<and> cpu_of M1 cid = cpu_of M cid \<and> is_ready M1 cid = is_ready M cid \<and>
      is_blocked M1 cid = is_blocked M cid"
    by (rule reap_rounds_others [OF hooks own child(1) _ _ M1_def]) (use child(3) out(1) in auto)
  then have c1: "registered M1 cid" "halted (cpu_of M1 cid)" "cpu_of M1 cid = cpu_of M cid" using child(2) by simp_all
  have "find (parked_on M cid) vm_ids = Some pid"
    by (rule find_lowest [OF parent(3) sched_invD(5) [OF inv reg] parent(4)])
  then have "find (waits_on M1 cid) vm_ids = Some pid"
  proof (rule find_sub)
    show "waits_on M1 cid pid" using p1 parent(3) by (simp add: parked_waits parked_on_def)
    show "parked_on M cid q" if "waits_on M1 cid q" for q
      using that p1 reap_rounds_parked [OF hooks own] unfolding M1_def by (simp add: parked_waits)
  qed
  note d = reap_child_delivers [OF conjunct1 [OF p1] hooks c1(1,2) this _ ne, of cfg]
  define M2 where "M2 = reap_child (coop_ops cfg) call_hook cid M1"
  have d2: "registered M2 pid" "is_ready M2 pid" "\<not> is_blocked M2 pid"
    "cpu_of M2 pid = unblock (child_status (cpu_of M cid)) ((cpu_of M pid)\<lparr>block_child_vm := UINT16_MAX\<rparr>)"
    using d p1 parent(1) c1(3) by (simp_all add: M2_def)
  have M': "M' = ?f ys M2" by (simp add: M'0 vm_system_reap_halted_children_def ids M1_def M2_def)
  have "own_inv M2" unfolding M2_def by (rule reap_round(1) [OF conjunct1 [OF p1] hooks])
  then have "registered M' pid \<and> cpu_of M' pid = cpu_of M2 pid \<and> is_ready M' pid = is_ready M2 pid \<and> is_blocked M' pid = is_blocked M2 pid"
    using reap_rounds_others [OF hooks _ d2(1) _ _ M'] d2(4) parent(2)
    by (simp add: unblock_def set_a0_def parked_on_def)
  then show ?thesis using d2 by simp
qed

lemma status_low_byte: "w AND 0xff = (word_of_nat (unat w mod 256) :: u32)"
proof -
  have "w AND 0xff = take_bit 8 w" by (simp add: take_bit_eq_mask mask_eq_exp_minus_1)
  then have "unat (w AND 0xff) = take_bit 8 (unat w)" by (simp only: unsigned_take_bit_eq)
  then have "unat (w AND 0xff) = unat w mod 256" by (simp only: take_bit_eq_mod) simp
  then have "word_of_nat (unat (w AND 0xff)) = (word_of_nat (unat w mod 256) :: u32)" by (rule arg_cong)
  then show ?thesis by (simp only: of_nat_unat ucast_id)
qed

section \<open>The pass\<close>

text \<open>
  C32. The reaping pass that ends every system step, from the state before it to the state after it. The
  ownership invariant holds afterwards; every halted VM is unloaded and no other, so none keeps a
  CPU block, a mailbox, a region or a shared block. A live VM blocked on a child that has halted
  (and, having halted, is not in the blocked set itself) gets the child's exit status (the low byte of the child's \<open>a0\<close>, or \<open>-5\<close>, which is \<open>-EIO\<close>, after a
  crash: one of the eight traps of a bad instruction or access) in \<open>a0\<close>, is ready and no longer
  blocked, and nothing else of it changes; if several wait for the same child it is the one with
  the lowest id. Every other live VM keeps its CPU state and its place in the ready and blocked sets.
\<close>

theorem reap_pass_delivers:
  assumes "own_inv M" and "quiet_hooks call_hook"
    and "M' = vm_system_reap_halted_children (coop_ops cfg) call_hook M"
  shows "own_inv M' \<and> (\<forall>i. registered M' i \<longleftrightarrow> registered M i \<and> \<not> halted (cpu_of M i))
    \<and> (\<forall>cid pid child parent. registered M cid \<and> child = cpu_of M cid \<and> halted child \<and> \<not> is_blocked M cid \<and>
        is_blocked M pid \<and> parent = cpu_of M pid \<and> \<not> halted parent \<and>
        parked_on M cid pid \<and> (\<forall>q < pid. \<not> parked_on M cid q) \<longrightarrow>
        is_ready M' pid \<and> \<not> is_blocked M' pid \<and>
        cpu_of M' pid = parent\<lparr>
          regs := (regs parent)(10 :=
            if trap_cause child \<in> {TRAP_ILLEGAL_INSTR, TRAP_LOAD_FAULT, TRAP_STORE_FAULT, TRAP_LOAD_MISALIGNED,
                 TRAP_STORE_MISALIGNED, TRAP_STORE_RO, TRAP_INSTR_FETCH_FAULT, TRAP_INSTR_MISALIGNED}
            then - 5 else word_of_nat (unat (regs child 10) mod 256)),
          block_reason := BLOCK_NONE, block_deadline := 0, block_child_vm := 2 ^ 16 - 1\<rparr>)
    \<and> (\<forall>i. registered M i \<and> \<not> halted (cpu_of M i) \<and>
        \<not> (is_blocked M i \<and> (\<exists>c. parked_on M c i \<and> registered M c \<and> halted (cpu_of M c))) \<longrightarrow>
        cpu_of M' i = cpu_of M i \<and> is_ready M' i = is_ready M i \<and> is_blocked M' i = is_blocked M i)"
proof (intro conjI allI impI)
  let ?f = "fold (reap_child (coop_ops cfg) call_hook)"
  have ids: "distinct vm_ids" by code_simp
  have M': "M' = ?f vm_ids M" using assms(3) by (simp add: vm_system_reap_halted_children_def)
  have slot: "unat i < 64" if "registered M i" for i by (rule sched_invD(5) [OF own_invD(2) [OF assms(1)] that])
  note pass = reap_list [OF assms(2,1) ids M']
  show "own_inv M'" using pass by blast
  show "registered M' i \<longleftrightarrow> registered M i \<and> \<not> halted (cpu_of M i)" for i
    using pass every_vm_id [OF slot [of i]] by blast
  fix i assume i: "registered M i \<and> \<not> halted (cpu_of M i) \<and>
      \<not> (is_blocked M i \<and> (\<exists>c. parked_on M c i \<and> registered M c \<and> halted (cpu_of M c)))"
  then have "registered M' i \<and> cpu_of M' i = cpu_of M i \<and> is_ready M' i = is_ready M i \<and> is_blocked M' i = is_blocked M i"
    using reap_rounds_others [OF assms(2,1) _ _ _ M', of i] by blast
  then show "cpu_of M' i = cpu_of M i" "is_ready M' i = is_ready M i" "is_blocked M' i = is_blocked M i" by blast+
next
  fix cid pid child parent
  assume h: "registered M cid \<and> child = cpu_of M cid \<and> halted child \<and> \<not> is_blocked M cid \<and>
        is_blocked M pid \<and> parent = cpu_of M pid \<and> \<not> halted parent \<and>
        parked_on M cid pid \<and> (\<forall>q < pid. \<not> parked_on M cid q)"
  then have "is_ready M' pid \<and> \<not> is_blocked M' pid \<and>
      cpu_of M' pid = unblock (child_status child) (parent\<lparr>block_child_vm := UINT16_MAX\<rparr>)"
    using reap_pass_parent [OF assms(1,2) _ _ _ _ _ _ _ assms(3), of cid pid] by blast
  then show "is_ready M' pid" "\<not> is_blocked M' pid"
    "cpu_of M' pid = parent\<lparr>
          regs := (regs parent)(10 :=
            if trap_cause child \<in> {TRAP_ILLEGAL_INSTR, TRAP_LOAD_FAULT, TRAP_STORE_FAULT, TRAP_LOAD_MISALIGNED,
                 TRAP_STORE_MISALIGNED, TRAP_STORE_RO, TRAP_INSTR_FETCH_FAULT, TRAP_INSTR_MISALIGNED}
            then - 5 else word_of_nat (unat (regs child 10) mod 256)),
          block_reason := BLOCK_NONE, block_deadline := 0, block_child_vm := 2 ^ 16 - 1\<rparr>"
    by (simp_all add: status_low_byte unblock_def set_a0_def child_status_def crash_cause_def)
qed

end
