(* ===== verification/VM_System_Family_Demo.thy ===== *)
theory VM_System_Family_Demo
  imports VM_System_Family
begin

text \<open>
  A second VM in the demonstration system: the image is loaded again, from the blocks the first load left.
  With the first VM waiting for the second, and the second halted, the reaping pass is applied.
\<close>

section \<open>Loading the image into any slot\<close>

lemma local_covers:
  assumes "pools_ok M" "local_alloc (ucast (w :: u32)) M = (p, M')" "unat w + 8 < 2 ^ 32"
  shows "p \<noteq> 0 \<longleftrightarrow> covers (sy_local (mc_ext M)) [unat w]"
    and "p \<noteq> 0 \<Longrightarrow> covers (sy_local (mc_ext M')) ns \<longleftrightarrow> covers (sy_local (mc_ext M)) (unat w # ns)"
proof -
  obtain a m e where sa: "slab_alloc (sy_local (mc_ext M)) (mc_mem M) (sy_env (mc_ext M)) (ucast w) = (p, a, m, e)"
    and M': "sy_local (mc_ext M') = a"
    using assms(2) by (auto simp: local_alloc_def split: prod.splits)
  note c = alloc_covers [OF pools_okD(2) [OF assms(1)] sa assms(3)]
  show "p \<noteq> 0 \<longleftrightarrow> covers (sy_local (mc_ext M)) [unat w]" by (rule c(1))
  show "p \<noteq> 0 \<Longrightarrow> covers (sy_local (mc_ext M')) ns \<longleftrightarrow> covers (sy_local (mc_ext M)) (unat w # ns)"
    unfolding M' by (rule c(2))
qed

text \<open>What the demonstration image asks for.\<close>

lemma demo_image_facts:
  assumes m: "\<forall>x \<in> extent 200 88. m x = store_bytes (\<lambda>_. 0) 200 demo_elf x"
    and cfg: "code_backing cfg = VM_BACKING_XIP" "region_data_size cfg = 64"
  shows "acceptable_image m 200 88" "filter (loads m) (elf_phdrs m 200) = [252]"
    "\<not> outgrows cfg m 252" "\<not> odd_code cfg m 200 252" "image_needs cfg m [252] = [64]"
proof -
  have "m = store_bytes m 200 demo_elf" by (rule image_there [where ?m0.0 = "\<lambda>_. 0"]) (rule bspec [OF m])
  note f = demo_elf_fields [of m, folded this]
  have "check_phdrs m 88 [252] = VM_LOAD_OK"
    using f by (simp add: check_phdr_def validate_pt_load_def vaddr_to_region_def)
  then show "acceptable_image m 200 88" using f(1,2) by (simp add: image_accepts)
  show "filter (loads m) (elf_phdrs m 200) = [252]" using f by (simp add: loads_def)
  show "\<not> outgrows cfg m 252" "\<not> odd_code cfg m 200 252" "image_needs cfg m [252] = [64]"
    using f cfg by (simp_all add: data_segment_def outgrows_def odd_code_def needs_def image_needs_def)
qed

text \<open>What stays in place for a further load: the extents of the slabs, the configuration, the image.\<close>

definition image_ready :: "unit sysm \<Rightarrow> bool" where
  "image_ready M \<longleftrightarrow> image_apart (sy_local (mc_ext M)) 200 88 \<and> extent 200 88 \<inter> shared_extent M = {} \<and>
     (\<forall>x \<in> extent 200 88. mc_mem M x = store_bytes (\<lambda>_. 0) 200 demo_elf x) \<and>
     yc_l2_shared_storage_size (sy_config (mc_ext M)) = 0"

lemma image_ready_step:
  assumes "image_ready M" "pool_frame M M'" shows "image_ready M'"
proof -
  note f = pool_frame_fields [OF assms(2)]
  have "x \<notin> local_extent M" if "x \<in> extent 200 88" for x
    using assms(1) that by (auto simp: image_ready_def image_apart_def local_extent_def)
  then show ?thesis using assms(1) f(1) f(10-13) f(14) unfolding image_ready_def image_apart_def by auto
qed

lemma demo_load_from:
  assumes ok: "pools_ok M" and free: "find (\<lambda>i. sd_vms (mc_sched M) i = 0) vm_ids = Some i"
    and im: "image_ready M" and sup: "covers (sy_local (mc_ext M)) (304 # 12 # 64 # ns)"
    and run: "vm_system_load_vm_with_mailbox demo_ops M 200 88 64 VM_BACKING_XIP VM_BACKING_XIP 4 2 = (res, M')"
  shows "lr_code res = VM_SYS_OK" "lr_assigned_vm_id res = uint i" "image_ready M'" "covers (sy_local (mc_ext M')) ns"
    "\<not> halted (cpu_of M' i)"
proof -
  have wide: "(304 :: u64) = ucast (304 :: u32)" "(12 :: u64) = ucast (12 :: u32)" by simp_all
  have c0: "covers (sy_local (mc_ext M)) [304]" using sup covers_prefix [of _ "[304]" "12 # 64 # ns"] by simp
  obtain p M1 where al: "local_alloc 304 M = (p, M1)" by (cases "local_alloc 304 M")
  have p: "p \<noteq> 0" using local_covers(1) [OF ok al [unfolded wide]] c0 by simp
  have sup1: "covers (sy_local (mc_ext M1)) (12 # 64 # ns)" using local_covers(2) [OF ok al [unfolded wide] _ p] sup by simp
  note f1 = pool_callD(2) [OF local_alloc_call(1) [OF ok al]]
  let ?M2 = "upd_cpu p (\<lambda>_. vm_init 0) M1"
  have reg: "vm_sched_register ?M2 p = (uint i, admit i p ?M2)"
    using p free pool_frame_fields(6) [OF f1] by (simp add: vm_sched_register_def)
  define N where "N = set_tracking i zero_tracking (set_vm i p (admit i p ?M2))"
  note ls = loading_start [OF ok al p N_def]
  have okN: "pools_ok N" by (rule pool_stepD(1) [OF loadingD(1) [OF ls(1)]])
  have N: "sy_local (mc_ext N) = sy_local (mc_ext M1)" "sy_shared (mc_ext N) = sy_shared (mc_ext M1)" "mc_mem N = mc_mem M1" "sy_config (mc_ext N) = sy_config (mc_ext M1)"
    by (simp_all add: N_def)
  have imN: "image_ready N" using image_ready_step [OF im f1] N by (simp add: image_ready_def shared_extent_def)
  obtain st N1 where al2: "local_alloc 12 N = (st, N1)" by (cases "local_alloc 12 N")
  have "covers (sy_local (mc_ext N)) [12]" using sup1 covers_prefix [of _ "[12]" "64 # ns"] N(1) by simp
  then have st: "st \<noteq> 0" using local_covers(1) [OF okN al2 [unfolded wide]] by simp
  have sup2: "covers (sy_local (mc_ext N1)) (64 # ns)"
    using local_covers(2) [OF okN al2 [unfolded wide] _ st] sup1 N(1) by simp
  note c2 = local_alloc_call [OF okN al2]
  obtain mb where mb: "vm_mailbox_init (sy_mailboxes (mc_ext N1) i) st 4 2 = (VM_MBOX_OK, mb)"
    using st by (simp add: vm_mailbox_init_def)
  define N2 where "N2 = set_mailbox i mb N1"
  have N2: "sy_local (mc_ext N2) = sy_local (mc_ext N1)" "sy_shared (mc_ext N2) = sy_shared (mc_ext N1)" "mc_mem N2 = mc_mem N1" "sy_config (mc_ext N2) = sy_config (mc_ext N1)"
    by (simp_all add: N2_def)
  have okN2: "pools_ok N2" using pool_callD(1) [OF c2(1)] pools_ok_cong [of N1 N2] by (simp add: N2_def)
  have imN2: "image_ready N2"
    using image_ready_step [OF imN pool_callD(2) [OF c2(1)]] N2 by (simp add: image_ready_def shared_extent_def)
  have cpu: "mc_cpus N2 p = vm_init i"
    using ls(2) pool_frame_fields(7) [OF pool_callD(2) [OF c2(1)]] by (simp add: N2_def)
  let ?cfg = "loader_config N2 64 VM_BACKING_XIP VM_BACKING_XIP" and ?a = "sy_local (mc_ext N2)"
  have img: "\<forall>x \<in> extent 200 88. mc_mem N2 x = store_bytes (\<lambda>_. 0) 200 demo_elf x"
    using imN2 unfolding image_ready_def by blast
  have cfg: "code_backing ?cfg = VM_BACKING_XIP" "region_data_size ?cfg = 64" "arguments_ok 200 ?cfg"
    "unat (region_data_size ?cfg) + 8 < 2 ^ 32" by (simp_all add: loader_config_def arguments_ok_def)
  note facts = demo_image_facts [OF img cfg(1,2)]
  have apart: "extent 200 (unat (88 :: u64)) \<inter> extent (region ?a) (region_bytes ?a) = {}"
    using imN2 by (auto simp: image_ready_def image_apart_def)
  obtain r c a m e where load: "vm_load 200 88 ?cfg (vm_init i, ?a, mc_mem N2, sy_env (mc_ext N2)) = (r, c, a, m, e)"
    by (metis prod_cases5)
  note acc = accepted_load [OF pools_okD(2) [OF okN2] cfg(4) apart load facts(2) [symmetric] cfg(3) facts(1)]
  have r: "r = VM_LOAD_OK"
    using acc(1) facts(3-5) sup2 covers_prefix [of _ "[64]" ns] N2(1) by simp
  have left: "covers a ns" using acc(3) [OF r, of ns] facts(5) sup2 N2(1) by simp
  have inv: "region a = region ?a \<and> region_bytes a = region_bytes ?a \<and>
      (\<forall>x. x \<notin> extent (region ?a) (region_bytes ?a) \<longrightarrow> m x = mc_mem N2 x)"
    using vm_load_inv(2) [OF pools_okD(2) [OF okN2] cfg(4) apart load r] unfolding load_inv_def prod.case by blast
  have bytes: "vm_mailbox_required_storage_bytes 4 2 = 12" by (simp add: vm_mailbox_required_storage_bytes_def)
  have M': "res = \<lparr>lr_code = VM_SYS_OK, lr_load_result = VM_LOAD_OK, lr_assigned_vm_id = uint i\<rparr>"
    "M' = upd_cpu p (\<lambda>_. c) (upd_sys (\<lambda>s. s\<lparr>sy_local := a, sy_env := e\<rparr>) (N2\<lparr>mc_mem := m\<rparr>))"
    using run unfolding demo_ops_def vm_system_load_vm_with_mailbox_def al Let_def prod.case coop_ops_simps reg bytes
    using p st al2 mb load [folded cpu, unfolded r N2_def] by (simp_all add: N_def [symmetric] N2_def loader_config_def)
  show "lr_code res = VM_SYS_OK" "lr_assigned_vm_id res = uint i" using M'(1) by simp_all
  show "covers (sy_local (mc_ext M')) ns" using left by (simp add: M'(2))
  have at: "sd_vms (mc_sched M') i = p"
    using loadingD(4) [OF ls(1)] pool_frame_fields(6) [OF pool_callD(2) [OF c2(1)]] by (simp add: M'(2) N2_def admit_def)
  have "\<not> halted c" by (rule vm_load_own(6) [OF pools_okD(2) [OF okN2] cfg(4) _ load]) (use imN2 in \<open>simp add: image_ready_def\<close>)
  moreover have "mc_cpus M' p = c" by (simp add: M'(2) upd_cpu_def)
  ultimately show "\<not> halted (cpu_of M' i)" unfolding cpu_of_def at by simp
  have "m x = mc_mem N2 x" if "x \<in> extent 200 88" for x
  proof -
    have "unat (88 :: u64) = 88" by simp
    then have "x \<notin> extent (region ?a) (region_bytes ?a)" using that apart by (simp del: in_extent) blast
    then show ?thesis using inv by blast
  qed
  then show "image_ready M'"
    using imN2 inv by (simp add: M'(2) image_ready_def image_apart_def shared_extent_def)
qed

section \<open>Two VMs\<close>

lemma demo_bins: "size_to_bin 304 = 4" "size_to_bin 12 = 0" "size_to_bin 64 = 2"
  by code_simp+

definition demo_second :: "unit sysm" where
  "demo_second = snd (vm_system_load_vm_with_mailbox demo_ops demo_running 200 88 64 VM_BACKING_XIP VM_BACKING_XIP 4 2)"

lemma demo_image_ready: "image_ready demo_system"
proof -
  have "yc_l2_shared_storage_size (sy_config (mc_ext demo_system)) = 0"
    unfolding demo_system_fresh(2) by (simp add: fill_defaults_def demo_storage_def zero_system_def Let_def)
  then show ?thesis using demo_places demo_system_fresh(6) by (simp add: image_ready_def demo_blank_def)
qed

lemma demo_supply: "covers (sy_local (mc_ext demo_system)) [304, 12, 64, 304, 12, 64]"
proof -
  have tops: "\<forall>i < 16. btop (sy_local (mc_ext demo_system)) i = cnt (local_bins 8 16) i"
    using demo_system_fresh(3) by blast
  have served: "served_by 304 i \<longleftrightarrow> i = 4" "served_by 12 i \<longleftrightarrow> i = 0" "served_by 64 i \<longleftrightarrow> i = 2" for i
    using served_by_bin [of 304 i] served_by_bin [of 12 i] served_by_bin [of 64 i] demo_bins by simp_all
  show ?thesis unfolding covers_def using tops by (simp add: served default_local_bins cnt_def)
qed

lemma first_free:
  assumes "\<And>j. registered M j \<longleftrightarrow> unat j < k" "k < 64"
  shows "find (\<lambda>i. sd_vms (mc_sched M) i = 0) vm_ids = Some (word_of_nat k)"
proof (rule find_lowest)
  have k: "unat (word_of_nat k :: u16) = k" using assms(2) by (simp add: unat_of_nat)
  show "sd_vms (mc_sched M) (word_of_nat k) = 0" "unat (word_of_nat k :: u16) < 64"
    using assms(1) [of "word_of_nat k"] assms(2) k by (simp_all add: registered_def)
  show "\<forall>q < word_of_nat k. sd_vms (mc_sched M) q \<noteq> 0"
    using assms(1) k by (auto simp: registered_def word_less_nat_alt)
qed

lemma demo_load_granted:
  assumes own: "own_inv M" and free: "\<And>j. registered M j \<longleftrightarrow> unat j < k" "k < 64" and im: "image_ready M"
    and sup: "covers (sy_local (mc_ext M)) (304 # 12 # 64 # ns)"
    and run: "vm_system_load_vm_with_mailbox demo_ops M 200 88 64 VM_BACKING_XIP VM_BACKING_XIP 4 2 = (res, M')"
  shows "own_inv M'" "registered M' j \<longleftrightarrow> unat j < Suc k" "is_ready M' (word_of_nat k)"
    "registered M j \<Longrightarrow> is_ready M' j = is_ready M j" "image_ready M'" "covers (sy_local (mc_ext M')) ns"
    "\<not> halted (cpu_of M' (word_of_nat k))" "registered M j \<Longrightarrow> cpu_of M' j = cpu_of M j"
proof -
  note ld = demo_load_from [OF shared_invD(1) [OF own_invD(1) [OF own]] first_free [OF free] im sup run]
  show "image_ready M'" "covers (sy_local (mc_ext M')) ns" "\<not> halted (cpu_of M' (word_of_nat k))"
    by (rule ld(3-5))+
  have "load_outcome M (one_segment_each (mc_mem M) 200 88) res M'"
    by (rule load_outcome_result [OF own _ _ _ _ run [unfolded demo_ops_def]]) (use im in \<open>simp_all add: image_ready_def del: in_extent\<close>)
  then obtain i where i: "uint (word_of_nat k :: u16) = uint i" "load_granted M (one_segment_each (mc_mem M) 200 88) i M'"
    using ld(1,2) by (auto simp: load_outcome_def)
  have k: "unat (word_of_nat k :: u16) = k" using free(2) by (simp add: unat_of_nat)
  have g: "load_granted M (one_segment_each (mc_mem M) 200 88) (word_of_nat k) M'" using i by (metis word_of_int_uint)
  then show "own_inv M'" "is_ready M' (word_of_nat k)" by (simp_all add: load_granted_def)
  have "registered M' j \<longleftrightarrow> registered M j \<or> j = word_of_nat k" using g unfolding load_granted_def by blast
  then show "registered M' j \<longleftrightarrow> unat j < Suc k" using free(1) k by (auto simp: word_unat_eq_iff less_Suc_eq)
  show "registered M j \<Longrightarrow> is_ready M' j = is_ready M j" using g unfolding load_granted_def others_kept_def by blast
  show "registered M j \<Longrightarrow> cpu_of M' j = cpu_of M j" using g unfolding load_granted_def others_kept_def by blast
qed

lemma demo_second_facts:
  "own_inv demo_second" "registered demo_second i \<longleftrightarrow> unat i < 2" "is_ready demo_second 0" "is_ready demo_second 1"
    "\<not> halted (cpu_of demo_second 0)" "\<not> is_blocked demo_second 1"
proof -
  have none: "registered demo_system j \<longleftrightarrow> unat j < 0" for j using demo_system_own(3) by simp
  note one = demo_load_granted [OF demo_system_own(1) none _ demo_image_ready demo_supply prod.collapse [symmetric],
      folded demo_load_def demo_running_def]
  have run: "snd demo_load = demo_running" by (simp add: demo_running_def)
  have reg: "registered demo_running j \<longleftrightarrow> unat j < 1" for j using one(2) by simp
  note two = demo_load_granted [OF one(1) reg _ one(5,6) prod.collapse [symmetric], folded demo_second_def]
  show "own_inv demo_second" "registered demo_second i \<longleftrightarrow> unat i < 2" "is_ready demo_second 1"
    using two(1-3) by (simp_all add: numeral_2_eq_2)
  have "is_ready demo_running 0" using one(3) by simp
  then show "is_ready demo_second 0" using two(4) [of 0] reg [of 0] by simp
  show "\<not> halted (cpu_of demo_second 0)" using one(7) two(8) [of 0] reg [of 0] by simp
  show "\<not> is_blocked demo_second 1" using sched_invD(1) [OF own_invD(2) [OF two(1)], of 1] two(3) by simp
qed

section \<open>A parent and its halted child\<close>

text \<open>Changes that leave the pools, the slots and every CPU's regions alone keep the ownership.\<close>

lemma own_inv_frame:
  assumes own: "own_inv M" and inv: "sched_inv M'" and ext: "mc_ext M' = mc_ext M" "mc_mem M' = mc_mem M"
    and vms: "sd_vms (mc_sched M') = sd_vms (mc_sched M)" and regs: "\<And>q. regions (mc_cpus M' q) = regions (mc_cpus M q)"
  shows "own_inv M'"
proof -
  have st: "pool_step M M' (shared_live M) (local_live M)"
    by (rule pool_step_refl [OF shared_invD(1) [OF own_invD(1) [OF own]]]) (simp add: same_pools_def ext)
  have reg: "registered M' j = registered M j" for j by (simp add: registered_def vms)
  show ?thesis
  proof (rule own_inv_shrink [OF own st _ inv])
    show "shared_inv M'" using own_invD(1) [OF own] shared_inv_cong [OF ext(1,2)] by simp
    show "registered M j \<and> set (own_list M j) \<subseteq> local_live M \<and> own_list M' j = own_list M j" if "registered M' j" for j
      using that own_invD(6) [OF own] own_list_cong [OF st, of j] by (simp add: reg ext regs)
  qed (use own_invD(3,7) [OF own] in \<open>simp_all add: ext vms reg\<close>)
qed

lemma own_inv_cpu:
  assumes "own_inv M" and f: "\<And>c. vm_id (f c) = vm_id c" "\<And>c. regions (f c) = regions c" "\<And>c. l2_shared (f c) = l2_shared c"
    "\<And>c. halted c \<Longrightarrow> halted (f c)"
  shows "own_inv (upd_cpu p f M)"
proof (rule own_inv_frame [OF assms(1)])
  have "quiet M (upd_cpu p f M)"
    by (rule quiet_upd_cpu) (use f in \<open>simp_all add: vm_regions_ok_def vm_descriptors_def\<close>)
  then show "sched_inv (upd_cpu p f M)"
    by (rule inv_same_bits [OF own_invD(2) [OF assms(1)]]) (simp_all add: is_ready_def is_blocked_def)
  show "regions (mc_cpus (upd_cpu p f M) q) = regions (mc_cpus M q)" for q using f(2) by (simp add: upd_cpu_def)
qed simp_all

text \<open>The first VM blocked on the second, which has exited with status 7.\<close>

definition demo_waiting :: "unit sysm" where
  "demo_waiting = apply_block_transition 0
     (upd_cpu (sd_vms (mc_sched demo_second) 0) (\<lambda>c. c\<lparr>block_reason := BLOCK_ON_CHILD, block_child_vm := 1\<rparr>) demo_second)"

definition demo_family :: "unit sysm" where
  "demo_family = upd_cpu (sd_vms (mc_sched demo_waiting) 1)
     (\<lambda>c. c\<lparr>halted := True, trap_cause := TRAP_ECALL, regs := (regs c)(10 := 0x107)\<rparr>) demo_waiting"

lemma demo_family_slots:
  "sd_vms (mc_sched demo_waiting) = sd_vms (mc_sched demo_second)" "sd_vms (mc_sched demo_family) = sd_vms (mc_sched demo_second)"
  by (simp_all add: demo_family_def demo_waiting_def apply_block_transition_def Let_def)

lemma demo_family_own: "own_inv demo_family"
proof -
  let ?M = "upd_cpu (sd_vms (mc_sched demo_second) 0) (\<lambda>c. c\<lparr>block_reason := BLOCK_ON_CHILD, block_child_vm := 1\<rparr>) demo_second"
  have M: "own_inv ?M" by (rule own_inv_cpu [OF demo_second_facts(1)]) simp_all
  have "own_inv demo_waiting"
    unfolding demo_waiting_def
    by (rule own_inv_frame [OF M apply_block_inv [OF own_invD(2) [OF M]]]) (simp_all add: apply_block_transition_def Let_def)
  then show ?thesis unfolding demo_family_def by (rule own_inv_cpu) simp_all
qed

lemma demo_family_views:
  "registered demo_family i \<longleftrightarrow> unat i < 2" "is_blocked demo_family 0" "\<not> is_blocked demo_family 1"
  "\<not> halted (cpu_of demo_family 0)" "halted (cpu_of demo_family 1)" "trap_cause (cpu_of demo_family 1) = TRAP_ECALL"
  "regs (cpu_of demo_family 1) 10 = 0x107" "parked_on demo_family 1 0"
proof -
  let ?p = "sd_vms (mc_sched demo_second) 0" and ?q = "sd_vms (mc_sched demo_second) 1"
  have reg: "registered demo_second 0" "registered demo_second 1" by (simp_all add: demo_second_facts(2))
  then have nz: "?p \<noteq> 0" "?q \<noteq> 0" by (simp_all add: registered_def)
  have ne: "?p \<noteq> ?q" by (rule distinct_cpus [OF own_invD(2) [OF demo_second_facts(1)] reg]) simp
  note slots = demo_family_slots
  show "registered demo_family i \<longleftrightarrow> unat i < 2" using demo_second_facts(2) by (simp add: registered_def slots)
  have bits: "sd_blocked (mc_sched demo_family) = bm_set (sd_blocked (mc_sched demo_second)) 0"
    using nz(1) by (simp add: demo_family_def demo_waiting_def apply_block_transition_def Let_def)
  then show "is_blocked demo_family 0" by (simp add: is_blocked_def)
  have "unat (1 :: u16) \<noteq> unat (0 :: u16)" by simp
  then show "\<not> is_blocked demo_family 1" using demo_second_facts(6) bits by (simp add: is_blocked_def)
  have cpu: "cpu_of demo_family 0 = (cpu_of demo_second 0)\<lparr>block_reason := BLOCK_ON_CHILD, block_child_vm := 1\<rparr>"
    "cpu_of demo_family 1 = (cpu_of demo_second 1)\<lparr>halted := True, trap_cause := TRAP_ECALL,
       regs := (regs (cpu_of demo_second 1))(10 := 0x107)\<rparr>"
    using nz ne unfolding cpu_of_def slots
    by (simp_all add: demo_family_def demo_waiting_def slots(1) [unfolded demo_waiting_def] apply_block_transition_def Let_def upd_cpu_def)
  show "\<not> halted (cpu_of demo_family 0)" "halted (cpu_of demo_family 1)" "trap_cause (cpu_of demo_family 1) = TRAP_ECALL"
    "regs (cpu_of demo_family 1) 10 = 0x107"
    using demo_second_facts(5) by (simp_all add: cpu)
  show "parked_on demo_family 1 0" using reg(1) by (simp add: parked_on_def cpu registered_def slots)
qed

theorem reap_pass_delivers_witness:
  "case vm_system_reap_halted_children (coop_ops zero_config) no_hooks demo_family of M' \<Rightarrow>
     \<not> registered M' 1 \<and> registered M' 0 \<and> is_ready M' 0 \<and> regs (cpu_of M' 0) 10 = 7"
proof -
  define M' where "M' = vm_system_reap_halted_children (coop_ops zero_config) no_hooks demo_family"
  note pass = reap_pass_delivers [OF demo_family_own no_hooks_quiet M'_def]
  have gone: "registered M' i \<longleftrightarrow> registered demo_family i \<and> \<not> halted (cpu_of demo_family i)" for i using pass by blast
  have "registered demo_family 1" "registered demo_family 0" by (simp_all add: demo_family_views(1))
  then have "\<not> registered M' 1" "registered M' 0" using gone demo_family_views(4,5) by simp_all
  moreover have "registered demo_family 1 \<and> cpu_of demo_family 1 = cpu_of demo_family 1 \<and> halted (cpu_of demo_family 1) \<and>
      \<not> is_blocked demo_family 1 \<and> is_blocked demo_family 0 \<and> cpu_of demo_family 0 = cpu_of demo_family 0 \<and>
      \<not> halted (cpu_of demo_family 0) \<and> parked_on demo_family 1 0 \<and> (\<forall>q < 0. \<not> parked_on demo_family 1 q)"
    using demo_family_views \<open>registered demo_family 1\<close> by simp
  with pass have "is_ready M' 0 \<and> regs (cpu_of M' 0) 10 = 7"
    using demo_family_views(6,7) by fastforce
  ultimately show ?thesis by (simp add: M'_def)
qed

end
