(* ===== verification/Fast_Div.thy ===== *)
theory Fast_Div
  imports Slab_Size "HOL-Library.Signed_Division"
begin

text \<open>
  \<open>src/src/math/fast_div.c\<close> with the bit scans of \<open>src/include/math/bits.h\<close> it uses: division by a
  prepared reciprocal, on 32 and 64 bits, unsigned and signed. The theorems say that for every
  dividend the prepared divisor gives the quotient and remainder of C's \<open>/\<close> and \<open>%\<close>.
\<close>

section \<open>Bit scans\<close>

text \<open>The portable branch of the header; the compiler's builtin counts the same zeros.\<close>

definition bits_clz32 :: "u32 \<Rightarrow> nat" where
  "bits_clz32 x0 =
     (if x0 = 0 then 32
      else
        let (n, x) = (0, x0);
            (n, x) = (if x AND 0xFFFF0000 = 0 then (n + 16, push_bit 16 x) else (n, x));
            (n, x) = (if x AND 0xFF000000 = 0 then (n + 8, push_bit 8 x) else (n, x));
            (n, x) = (if x AND 0xF0000000 = 0 then (n + 4, push_bit 4 x) else (n, x));
            (n, x) = (if x AND 0xC0000000 = 0 then (n + 2, push_bit 2 x) else (n, x))
        in if x AND 0x80000000 = 0 then n + 1 else n)"

definition bits_clz64 :: "u64 \<Rightarrow> nat" where
  "bits_clz64 x =
     (if x = 0 then 64
      else if drop_bit 32 x = 0 then 32 + bits_clz32 (ucast x)
      else bits_clz32 (ucast (drop_bit 32 x)))"

section \<open>Prepared divisors\<close>

text \<open>The four structs differ in the width alone: a signed divisor is kept as its word.\<close>

record 'w fdiv =
  fd_d :: 'w
  fd_magic :: 'w
  fd_shift :: u8
  fd_flags :: u8

type_synonym div_u32_t = "u32 fdiv"
type_synonym div_s32_t = "u32 fdiv"
type_synonym div_u64_t = "u64 fdiv"
type_synonym div_s64_t = "u64 fdiv"

abbreviation (input) FDIV_FLAG_POW2 :: u8 where "FDIV_FLAG_POW2 \<equiv> 1"
abbreviation (input) FDIV_FLAG_ADD :: u8 where "FDIV_FLAG_ADD \<equiv> 2"
abbreviation (input) FDIV_FLAG_NEG :: u8 where "FDIV_FLAG_NEG \<equiv> 4"

definition mulhi_u32 :: "u32 \<Rightarrow> u32 \<Rightarrow> u32" where
  "mulhi_u32 a b = ucast (drop_bit 32 ((ucast a :: u64) * ucast b))"

definition mulhi_u64 :: "u64 \<Rightarrow> u64 \<Rightarrow> u64" where
  "mulhi_u64 a b =
     (let a_lo = a AND 0xFFFFFFFF; a_hi = drop_bit 32 a; b_lo = b AND 0xFFFFFFFF; b_hi = drop_bit 32 b;
          lo_lo = a_lo * b_lo; hi_lo = a_hi * b_lo; lo_hi = a_lo * b_hi; hi_hi = a_hi * b_hi;
          mid = drop_bit 32 lo_lo + (hi_lo AND 0xFFFFFFFF) + (lo_hi AND 0xFFFFFFFF)
      in hi_hi + drop_bit 32 hi_lo + drop_bit 32 lo_hi + drop_bit 32 mid)"

section \<open>Unsigned, 32 bits\<close>

definition fdiv_u32_prepare :: "u32 \<Rightarrow> div_u32_t" where
  "fdiv_u32_prepare d =
     (if d AND (d - 1) = 0
      then \<lparr>fd_d = d, fd_magic = 0, fd_shift = of_int (31 - int (bits_clz32 d)), fd_flags = FDIV_FLAG_POW2\<rparr>
      else
        let L = 32 - bits_clz32 (d - 1) in
        if L < 32 then
          let num = push_bit (32 + L) 1 :: u64;
              m = (num + ucast d - 1) div ucast d
          in if m < push_bit 32 1
             then \<lparr>fd_d = d, fd_magic = ucast m, fd_shift = of_nat L, fd_flags = 0\<rparr>
             else \<lparr>fd_d = d, fd_magic = ucast (m - push_bit 32 1), fd_shift = of_nat L, fd_flags = FDIV_FLAG_ADD\<rparr>
        else
          let q = NOT 0 div ucast d :: u64;
              rem = NOT 0 - q * ucast d;
              q = (if rem + 1 = ucast d then q + 1 else q + 1)
          in \<lparr>fd_d = d, fd_magic = ucast (q - push_bit 32 1), fd_shift = 32, fd_flags = FDIV_FLAG_ADD\<rparr>)"

definition fdiv_u32 :: "u32 \<Rightarrow> div_u32_t \<Rightarrow> u32" where
  "fdiv_u32 n p =
     (if fd_flags p AND FDIV_FLAG_POW2 \<noteq> 0 then drop_bit (unat (fd_shift p)) n
      else
        let t = mulhi_u32 n (fd_magic p) in
        if fd_flags p AND FDIV_FLAG_ADD \<noteq> 0 then drop_bit (unat (fd_shift p) - 1) (drop_bit 1 (n - t) + t)
        else drop_bit (unat (fd_shift p)) t)"

definition fdiv_u32_qr :: "u32 \<Rightarrow> div_u32_t \<Rightarrow> u32 \<times> u32" where
  "fdiv_u32_qr n p = (let quot = fdiv_u32 n p in (quot, n - quot * fd_d p))"

section \<open>Signed, 32 bits\<close>

definition fdiv_s32_prepare :: "u32 \<Rightarrow> div_s32_t" where
  "fdiv_s32_prepare d =
     (let abs_d = (if sint d < 0 then - d else d);
          flags = (if sint d < 0 then FDIV_FLAG_NEG else 0);
          u = fdiv_u32_prepare abs_d;
          flags = (if fd_flags u AND FDIV_FLAG_POW2 \<noteq> 0 then flags OR FDIV_FLAG_POW2 else flags);
          flags = (if fd_flags u AND FDIV_FLAG_ADD \<noteq> 0 then flags OR FDIV_FLAG_ADD else flags)
      in \<lparr>fd_d = d, fd_magic = fd_magic u, fd_shift = fd_shift u, fd_flags = flags\<rparr>)"

definition fdiv_s32 :: "u32 \<Rightarrow> div_s32_t \<Rightarrow> u32" where
  "fdiv_s32 n p =
     (let abs_n = (if sint n < 0 then - n else n);
          q_abs = (if fd_flags p AND FDIV_FLAG_POW2 \<noteq> 0 then drop_bit (unat (fd_shift p)) abs_n
            else
              let t = mulhi_u32 abs_n (fd_magic p) in
              if fd_flags p AND FDIV_FLAG_ADD \<noteq> 0 then drop_bit (unat (fd_shift p) - 1) (drop_bit 1 (abs_n - t) + t)
              else drop_bit (unat (fd_shift p)) t);
          n_neg = sint n < 0;
          d_neg = fd_flags p AND FDIV_FLAG_NEG \<noteq> 0
      in if n_neg \<noteq> d_neg then - q_abs else q_abs)"

definition fdiv_s32_qr :: "u32 \<Rightarrow> div_s32_t \<Rightarrow> u32 \<times> u32" where
  "fdiv_s32_qr n p = (let quot = fdiv_s32 n p in (quot, n - quot * fd_d p))"

section \<open>Unsigned, 64 bits\<close>

text \<open>
  The long division of \<open>2 ^ (64 + L)\<close>, one bit of the dividend per round, from bit \<open>b - 1\<close> down to
  \<open>0\<close>: the 128-bit quotient in two words and the remainder.
\<close>

fun long_divide :: "u64 \<Rightarrow> nat \<Rightarrow> nat \<Rightarrow> u64 \<times> u64 \<times> u64 \<Rightarrow> u64 \<times> u64 \<times> u64" where
  "long_divide d one 0 s = s"
| "long_divide d one (Suc i) (q_hi, q_lo, rem) =
     (let bit_in = (if i = one then 1 else 0);
          carry_out = drop_bit 63 rem AND 1 \<noteq> 0;
          rem = push_bit 1 rem OR bit_in;
          (rem_ge_d, rem) = (if carry_out then (1, rem - d) else if rem \<ge> d then (1, rem - d) else (0, rem));
          q_hi = push_bit 1 q_hi OR drop_bit 63 q_lo;
          q_lo = push_bit 1 q_lo OR rem_ge_d
      in long_divide d one i (q_hi, q_lo, rem))"

definition fdiv_u64_prepare :: "u64 \<Rightarrow> div_u64_t" where
  "fdiv_u64_prepare d =
     (if d AND (d - 1) = 0
      then \<lparr>fd_d = d, fd_magic = 0, fd_shift = of_int (63 - int (bits_clz64 d)), fd_flags = FDIV_FLAG_POW2\<rparr>
      else
        let L = 64 - bits_clz64 (d - 1);
            (q_hi, q_lo, rem) = long_divide d (64 + L) (64 + L + 1) (0, 0, 0);
            (q_hi, q_lo) = (if q_lo = NOT 0 then (q_hi + 1, 0) else (q_hi, q_lo + 1))
        in if q_hi = 0
           then \<lparr>fd_d = d, fd_magic = q_lo, fd_shift = of_nat L, fd_flags = 0\<rparr>
           else \<lparr>fd_d = d, fd_magic = q_lo, fd_shift = of_nat L, fd_flags = FDIV_FLAG_ADD\<rparr>)"

definition fdiv_u64 :: "u64 \<Rightarrow> div_u64_t \<Rightarrow> u64" where
  "fdiv_u64 n p =
     (if fd_flags p AND FDIV_FLAG_POW2 \<noteq> 0 then drop_bit (unat (fd_shift p)) n
      else
        let t = mulhi_u64 n (fd_magic p) in
        if fd_flags p AND FDIV_FLAG_ADD \<noteq> 0 then drop_bit (unat (fd_shift p) - 1) (drop_bit 1 (n - t) + t)
        else drop_bit (unat (fd_shift p)) t)"

definition fdiv_u64_qr :: "u64 \<Rightarrow> div_u64_t \<Rightarrow> u64 \<times> u64" where
  "fdiv_u64_qr n p = (let quot = fdiv_u64 n p in (quot, n - quot * fd_d p))"

section \<open>Signed, 64 bits\<close>

definition fdiv_s64_prepare :: "u64 \<Rightarrow> div_s64_t" where
  "fdiv_s64_prepare d =
     (let abs_d = (if sint d < 0 then - d else d);
          flags = (if sint d < 0 then FDIV_FLAG_NEG else 0);
          u = fdiv_u64_prepare abs_d;
          flags = (if fd_flags u AND FDIV_FLAG_POW2 \<noteq> 0 then flags OR FDIV_FLAG_POW2 else flags);
          flags = (if fd_flags u AND FDIV_FLAG_ADD \<noteq> 0 then flags OR FDIV_FLAG_ADD else flags)
      in \<lparr>fd_d = d, fd_magic = fd_magic u, fd_shift = fd_shift u, fd_flags = flags\<rparr>)"

definition fdiv_s64 :: "u64 \<Rightarrow> div_s64_t \<Rightarrow> u64" where
  "fdiv_s64 n p =
     (let abs_n = (if sint n < 0 then - n else n);
          q_abs = (if fd_flags p AND FDIV_FLAG_POW2 \<noteq> 0 then drop_bit (unat (fd_shift p)) abs_n
            else
              let t = mulhi_u64 abs_n (fd_magic p) in
              if fd_flags p AND FDIV_FLAG_ADD \<noteq> 0 then drop_bit (unat (fd_shift p) - 1) (drop_bit 1 (abs_n - t) + t)
              else drop_bit (unat (fd_shift p)) t);
          n_neg = sint n < 0;
          d_neg = fd_flags p AND FDIV_FLAG_NEG \<noteq> 0
      in if n_neg \<noteq> d_neg then - q_abs else q_abs)"

definition fdiv_s64_qr :: "u64 \<Rightarrow> div_s64_t \<Rightarrow> u64 \<times> u64" where
  "fdiv_s64_qr n p = (let quot = fdiv_s64 n p in (quot, n - quot * fd_d p))"


section \<open>The arithmetic\<close>

text \<open>
  With \<open>2 ^ (L - 1) < d < 2 ^ L\<close> the rounded-up reciprocal \<open>m\<close> of \<open>d\<close> scaled by \<open>2 ^ (W + L)\<close> has exactly
  \<open>W + 1\<close> bits, and scaling back gives the exact quotient of every \<open>W\<close>-bit dividend.
\<close>

definition reciprocal :: "nat \<Rightarrow> nat \<Rightarrow> nat \<Rightarrow> nat" where "reciprocal W L d = 2 ^ (W + L) div d + 1"

lemma reciprocal_exact:
  assumes "0 < d" "d < 2 ^ L" "n < 2 ^ W" "\<not> d dvd 2 ^ (W + L)"
  shows "n * reciprocal W L d div 2 ^ (W + L) = n div d"
proof -
  let ?P = "2 ^ (W + L) :: nat" and ?m = "reciprocal W L d"
  define e where "e = d - ?P mod d"
  have md: "?m * d = ?P + e"
    using div_mult_mod_eq [of ?P d] mod_less_divisor [OF assms(1), of ?P] unfolding reciprocal_def e_def add_mult_distrib
    by linarith
  have e: "e \<le> d" by (simp add: e_def)
  have "n * e \<le> n * 2 ^ L" using e assms(2) by (intro mult_le_mono2) simp
  also have "\<dots> < 2 ^ W * 2 ^ L" using assms(3) by simp
  finally have ne: "n * e < ?P" by (simp add: power_add)
  have nm: "n * ?m * d = n * ?P + n * e" unfolding mult.assoc md by (rule distrib_left)
  have n: "n = n div d * d + n mod d" by simp
  have "n div d * ?P * d \<le> n * ?m * d"
  proof -
    have "n div d * ?P * d = (n div d * d) * ?P" by (simp only: ac_simps)
    also have "\<dots> \<le> n * ?P" by (rule mult_le_mono1) simp
    also have "\<dots> \<le> n * ?P + n * e" by (rule le_add1)
    finally show ?thesis unfolding nm .
  qed
  then have lo: "n div d * ?P \<le> n * ?m" using assms(1) by simp
  have "n + 1 \<le> (n div d + 1) * d" using mod_less_divisor [OF assms(1), of n] n unfolding add_mult_distrib by linarith
  then have "(n + 1) * ?P \<le> (n div d + 1) * d * ?P" by (rule mult_le_mono1)
  then have "n * ?m * d < (n div d + 1) * ?P * d" unfolding nm using ne by (simp add: algebra_simps)
  then have "n * ?m < (n div d + 1) * ?P" by simp
  then show ?thesis using lo by (intro div_nat_eqI) (simp_all add: ac_simps)
qed

lemma reciprocal_bounds:
  assumes "2 ^ (L - 1) < d" "d < 2 ^ L" "d < 2 ^ W" "0 < L"
  shows "2 ^ W < reciprocal W L d" "reciprocal W L d < 2 ^ Suc W"
proof -
  let ?P = "2 ^ (W + L) :: nat"
  have d: "0 < d" using assms(1) by (cases d) simp_all
  have "2 ^ W * d \<le> ?P" using assms(2) by (simp add: power_add)
  then have "2 ^ W \<le> ?P div d" using d by (simp add: less_eq_div_iff_mult_less_eq)
  then show "2 ^ W < reciprocal W L d" by (simp add: reciprocal_def)
  have l: "2 ^ Suc W * 2 ^ (L - 1) = ?P" using assms(4) by (cases L) (simp_all add: power_add)
  have "?P + 2 ^ Suc W \<le> 2 ^ Suc W * d"
    using mult_le_mono2 [of "2 ^ (L - 1) + 1" d "2 ^ Suc W"] assms(1) l by (simp add: algebra_simps)
  then have "?P < (2 ^ Suc W - 1) * d" using assms(3) by (simp add: algebra_simps)
  then have "?P div d < 2 ^ Suc W - 1" using d by (simp add: div_less_iff_less_mult)
  then show "reciprocal W L d < 2 ^ Suc W" by (simp add: reciprocal_def)
qed

text \<open>The reciprocal's top bit is left out of \<open>magic\<close>; adding the dividend in halves puts it back without overflow.\<close>

lemma add_path:
  fixes n t :: "'a :: len word"
  assumes "t \<le> n" "0 < k"
  shows "unat (drop_bit (k - 1) (drop_bit 1 (n - t) + t)) = (unat n + unat t) div 2 ^ k"
proof -
  have t: "unat t \<le> unat n" using assms(1) by (simp add: word_le_nat_alt)
  have s: "unat (n - t) = unat n - unat t" using assms(1) by (simp add: unat_sub)
  have h: "unat (drop_bit 1 (n - t)) = (unat n - unat t) div 2" by (simp only: unat_drop_bit_eq s) (simp add: drop_bit_eq_div)
  have sum: "(unat n - unat t) div 2 + unat t = (unat n + unat t) div 2" using t by presburger
  have "(unat n + unat t) div 2 \<le> unat n" using t by linarith
  then have "unat (drop_bit 1 (n - t) + t) = (unat n + unat t) div 2"
    using unsigned_less [of n, where ?'a = nat] by (subst unat_add_lem [THEN iffD1]) (simp_all only: h sum order_le_less_trans)
  then show ?thesis
    using assms(2) by (cases k) (simp_all add: unat_drop_bit_eq drop_bit_eq_div [where ?'a = nat] div_mult2_eq [symmetric])
qed

lemma magic_quotient:
  assumes "2 ^ (L - 1) < d" "d < 2 ^ L" "d < 2 ^ W" "0 < L" "n < 2 ^ W" "\<not> d dvd 2 ^ (W + L)"
    and "magic = reciprocal W L d - 2 ^ W"
  shows "(n + n * magic div 2 ^ W) div 2 ^ L = n div d" "n * magic div 2 ^ W \<le> n"
proof -
  have m: "reciprocal W L d = 2 ^ W + magic" "magic < 2 ^ W" using reciprocal_bounds [OF assms(1-4)] assms(7) by simp_all
  have "n * reciprocal W L d div 2 ^ W = n + n * magic div 2 ^ W" unfolding m(1) by (simp add: distrib_left)
  then have "(n + n * magic div 2 ^ W) div 2 ^ L = n * reciprocal W L d div 2 ^ (W + L)"
    by (simp add: power_add div_mult2_eq)
  also have "\<dots> = n div d" using assms(1) by (intro reciprocal_exact assms(2,5,6)) simp
  finally show "(n + n * magic div 2 ^ W) div 2 ^ L = n div d" .
  have "n * magic \<le> n * 2 ^ W" using m(2) by simp
  then have "n * magic div 2 ^ W \<le> n * 2 ^ W div 2 ^ W" by (rule div_le_mono)
  then show "n * magic div 2 ^ W \<le> n" by simp
qed

section \<open>Bit scans and powers of two\<close>

lemma bits_clz32_bounds:
  assumes "x \<noteq> 0"
  shows "bits_clz32 x \<le> 31" "2 ^ (31 - bits_clz32 x) \<le> unat x" "unat x < 2 ^ (32 - bits_clz32 x)"
proof -
  have "bits_clz32 x = sw_clz32 x" using assms unfolding bits_clz32_def sw_clz32_def by simp
  then show "bits_clz32 x \<le> 31" "2 ^ (31 - bits_clz32 x) \<le> unat x" "unat x < 2 ^ (32 - bits_clz32 x)"
    using sw_clz32_bounds [OF assms] by simp_all
qed

lemma bits_clz64_bounds:
  assumes "x \<noteq> 0"
  shows "bits_clz64 x \<le> 63" "2 ^ (63 - bits_clz64 x) \<le> unat x" "unat x < 2 ^ (64 - bits_clz64 x)"
proof -
  have hi: "unat (drop_bit 32 x) = unat x div 2 ^ 32" by (simp only: unat_drop_bit_eq drop_bit_eq_div [where ?'a = nat])
  have x64: "unat x < 2 ^ 64" using unsigned_less [of x, where ?'a = nat] by simp
  have "bits_clz64 x \<le> 63 \<and> 2 ^ (63 - bits_clz64 x) \<le> unat x \<and> unat x < 2 ^ (64 - bits_clz64 x)"
  proof (cases "drop_bit 32 x = 0")
    case True
    then have "unat x div 2 ^ 32 = 0" using hi by simp
    then have x32: "unat x < 2 ^ 32" by (simp add: div_eq_0_iff)
    then have u: "unat (ucast x :: u32) = unat x" by (simp add: unsigned_ucast_eq take_bit_nat_eq_self)
    have nz: "(ucast x :: u32) \<noteq> 0" using u assms by (metis unat_eq_zero unsigned_0)
    show ?thesis using bits_clz32_bounds [OF nz] assms True unfolding u by (simp add: bits_clz64_def)
  next
    case False
    have "unat x div 2 ^ 32 < 2 ^ 32" using x64 by (simp add: div_less_iff_less_mult)
    then have u: "unat (ucast (drop_bit 32 x) :: u32) = unat x div 2 ^ 32"
      by (simp only: unsigned_ucast_eq hi) (simp add: take_bit_nat_eq_self)
    have nz: "(ucast (drop_bit 32 x) :: u32) \<noteq> 0" using u hi False by (metis unat_eq_zero unsigned_0)
    let ?c = "bits_clz32 (ucast (drop_bit 32 x))"
    note b = bits_clz32_bounds [OF nz, unfolded u]
    have c: "bits_clz64 x = ?c" using False assms by (simp add: bits_clz64_def)
    have e: "63 - ?c = (31 - ?c) + 32" "64 - ?c = (32 - ?c) + 32" using b(1) by simp_all
    have "2 ^ (63 - ?c) \<le> unat x" using b(2) unfolding e power_add by (simp add: less_eq_div_iff_mult_less_eq)
    moreover have "unat x < 2 ^ (64 - ?c)" using b(3) unfolding e power_add by (simp add: div_less_iff_less_mult)
    ultimately show ?thesis using b(1) by (simp add: c)
  qed
  then show "bits_clz64 x \<le> 63" "2 ^ (63 - bits_clz64 x) \<le> unat x" "unat x < 2 ^ (64 - bits_clz64 x)" by blast+
qed

lemma unat_minus_1: "d \<noteq> 0 \<Longrightarrow> unat (d - 1 :: 'a :: len word) = unat d - 1"
  by (rule unat_minus_one)

lemma word_power_of_two:
  fixes d :: "'a :: len word"
  assumes "d \<noteq> 0" shows "d AND (d - 1) = 0 \<longleftrightarrow> (\<exists>k. unat d = 2 ^ k)"
proof -
  have pos: "0 < unat d" using assms by (simp add: unat_gt_0)
  have "d AND (d - 1) = 0 \<longleftrightarrow> unat d AND (unat d - 1) = 0"
    by (simp add: word_unat_eq_iff unsigned_and_eq unat_minus_1 [OF assms])
  also have "\<dots> \<longleftrightarrow> (\<exists>k. unat d = 2 ^ k)"
  proof
    assume "\<exists>k. unat d = 2 ^ k"
    then obtain k where k: "unat d = 2 ^ k" by blast
    have "(2 :: nat) ^ k AND mask k = take_bit k (2 ^ k)" by (simp add: take_bit_eq_mask)
    then show "unat d AND (unat d - 1) = 0" by (simp add: k mask_eq_exp_minus_1)
  qed (use nat_power_of_two [OF pos] in blast)
  finally show ?thesis .
qed

text \<open>Between two powers of two: the exponent of a power, and the rounded-up logarithm of anything else.\<close>

lemma log_of_power:
  assumes "2 ^ j \<le> (2 :: nat) ^ k" "(2 :: nat) ^ k < 2 ^ Suc j" shows "k = j"
  using power_le_imp_le_exp [OF _ assms(1)] power_less_imp_less_exp [OF _ assms(2)] by simp

lemma dvd_power_of_two: "d dvd (2 :: nat) ^ i \<Longrightarrow> \<exists>k. d = 2 ^ k"
proof (induction i arbitrary: d)
  case 0
  then show ?case by (intro exI [of _ 0]) simp
next
  case (Suc i)
  obtain c where c: "2 ^ Suc i = d * c" using Suc.prems by (elim dvdE)
  show ?case
  proof (cases "even c")
    case True
    then have "2 ^ i = d * (c div 2)" using c by (auto elim!: evenE)
    then show ?thesis using Suc.IH [of d] by (metis dvd_triv_left)
  next
    case False
    have "even (d * c)" unfolding c [symmetric] by simp
    then have "even d" using False by simp
    then have "2 ^ i = d div 2 * c" "d = 2 * (d div 2)" using c by (auto elim!: evenE)
    then obtain k where "d div 2 = 2 ^ k" using Suc.IH [of "d div 2"] by (metis dvd_triv_left)
    then show ?thesis using \<open>d = 2 * (d div 2)\<close> by (intro exI [of _ "Suc k"]) simp
  qed
qed

lemma log_rounded_up:
  fixes d :: "'a :: len word"
  assumes "d \<noteq> 0" "d AND (d - 1) \<noteq> 0" and "2 ^ j \<le> unat (d - 1)" "unat (d - 1) < 2 ^ Suc j"
  shows "2 ^ j < unat d" "unat d < 2 ^ Suc j" "\<not> unat d dvd 2 ^ i"
proof -
  have pos: "0 < unat d" using assms(1) by (simp add: unat_gt_0)
  have m: "unat (d - 1) = unat d - 1" by (rule unat_minus_1 [OF assms(1)])
  have np: "unat d \<noteq> 2 ^ k" for k using assms(2) word_power_of_two [OF assms(1)] by blast
  show "2 ^ j < unat d" using assms(3) pos m by linarith
  show "unat d < 2 ^ Suc j" using assms(4) pos m np [of "Suc j"] by linarith
  show "\<not> unat d dvd 2 ^ i" using np dvd_power_of_two by blast
qed

section \<open>High halves of products\<close>

lemma mulhi_u32_exact: "unat (mulhi_u32 a b) = unat a * unat b div 2 ^ 32"
proof -
  have a: "unat a < 2 ^ 32" "unat b < 2 ^ 32" using unsigned_less [where ?'a = nat, of a] unsigned_less [where ?'a = nat, of b] by simp_all
  have p: "unat a * unat b < 2 ^ 32 * 2 ^ 32" using a by (intro mult_strict_mono) simp_all
  have "unat ((ucast a :: u64) * ucast b) = unat a * unat b"
    using p a by (simp add: unat_word_ariths unsigned_ucast_eq take_bit_nat_eq_self)
  moreover have "unat a * unat b div 2 ^ 32 < 2 ^ 32" using p by (simp add: div_less_iff_less_mult)
  ultimately show ?thesis
    unfolding mulhi_u32_def unsigned_ucast_eq unat_drop_bit_eq drop_bit_eq_div [where ?'a = nat] by (simp add: take_bit_nat_eq_self)
qed

lemma mulhi_half:
  fixes ah al bh bl B :: nat
  assumes "0 < B"
  shows "(ah * B + al) * (bh * B + bl) div (B * B) = ah * bh + ah * bl div B + al * bh div B
    + (al * bl div B + ah * bl mod B + al * bh mod B) div B"
proof -
  let ?c = "al * bl div B" and ?x = "ah * bl" and ?y = "al * bh"
  have "(ah * B + al) * (bh * B + bl) = (ah * bh * B + ?x + ?y) * B + al * bl" by (simp add: algebra_simps)
  then have "(ah * B + al) * (bh * B + bl) div B = ah * bh * B + ?x + ?y + ?c" using assms by simp
  then have "(ah * B + al) * (bh * B + bl) div (B * B) = (ah * bh * B + (?x + ?y + ?c)) div B"
    by (simp add: div_mult2_eq add.assoc)
  also have "\<dots> = ah * bh + (?x + ?y + ?c) div B" using assms by simp
  also have "?x + ?y + ?c = (?x div B + ?y div B) * B + (?c + ?x mod B + ?y mod B)"
    using div_mult_mod_eq [of ?x B] div_mult_mod_eq [of ?y B] unfolding add_mult_distrib by linarith
  also have "(\<dots>) div B = ?x div B + ?y div B + (?c + ?x mod B + ?y mod B) div B" using assms by simp
  finally show ?thesis by simp
qed

lemma mulhi_u64_exact: "unat (mulhi_u64 a b) = unat a * unat b div 2 ^ 64"
proof -
  let ?B = "2 ^ 32 :: nat"
  define ah al bh bl where "ah = unat a div ?B" "al = unat a mod ?B" "bh = unat b div ?B" "bl = unat b mod ?B"
  note d = this
  have lim: "ah < ?B" "bh < ?B" "al < ?B" "bl < ?B"
    using unsigned_less [where ?'a = nat, of a] unsigned_less [where ?'a = nat, of b] by (simp_all add: d div_less_iff_less_mult)
  have prod: "x * y < 2 ^ 64" if "x < ?B" "y < ?B" for x y :: nat
  proof -
    have "x * y < ?B * ?B" using that by (intro mult_strict_mono) simp_all
    then show ?thesis by simp
  qed
  have lo: "unat (w AND 0xFFFFFFFF) = unat w mod ?B" for w :: u64
  proof -
    have "(0xFFFFFFFF :: u64) = mask 32" by (simp add: mask_eq_exp_minus_1)
    then show ?thesis by (simp only: take_bit_eq_mask [symmetric] unsigned_take_bit_eq take_bit_eq_mod [where ?'a = nat])
  qed
  have hi: "unat (drop_bit 32 w) = unat w div ?B" for w :: u64
    by (simp only: unat_drop_bit_eq drop_bit_eq_div [where ?'a = nat])
  have mul: "unat (v * w) = unat v * unat w" if "unat v < ?B" "unat w < ?B" for v w :: u64
    using prod [OF that] by (simp add: unat_word_ariths take_bit_nat_eq_self)
  have add: "unat (v + w) = unat v + unat w" if "unat v + unat w < 2 ^ 64" for v w :: u64
    using that by (simp add: unat_word_ariths take_bit_nat_eq_self)
  have a: "unat (a AND 0xFFFFFFFF) = al" "unat (drop_bit 32 a) = ah" "unat (b AND 0xFFFFFFFF) = bl" "unat (drop_bit 32 b) = bh"
    by (simp_all only: lo hi d)
  define total where "total = ah * bh + ah * bl div ?B + al * bh div ?B + (al * bl div ?B + ah * bl mod ?B + al * bh mod ?B) div ?B"
  have "unat a = ah * ?B + al" "unat b = bh * ?B + bl" by (simp_all add: d)
  then have t: "unat a * unat b div 2 ^ 64 = total" using mulhi_half [of ?B ah al bh bl] by (simp add: total_def)
  have "unat a * unat b < 2 ^ 64 * 2 ^ 64"
    using unsigned_less [where ?'a = nat, of a] unsigned_less [where ?'a = nat, of b] by (intro mult_strict_mono) simp_all
  then have small: "total < 2 ^ 64" unfolding t [symmetric] by (simp add: div_less_iff_less_mult)
  have mid: "al * bl div ?B + ah * bl mod ?B + al * bh mod ?B < 2 ^ 64"
    using prod [OF lim(3,4)] mod_less_divisor [of ?B "ah * bl"] mod_less_divisor [of ?B "al * bh"] by (simp add: div_less_iff_less_mult)
  have add3: "unat (u + v + w) = unat u + unat v + unat w" if "unat u + unat v + unat w < 2 ^ 64" for u v w :: u64
    using that by (simp add: add)
  have add4: "unat (u + v + w + x) = unat u + unat v + unat w + unat x" if "unat u + unat v + unat w + unat x < 2 ^ 64" for u v w x :: u64
    using that by (simp add: add)
  have m: "unat ((a AND 0xFFFFFFFF) * (b AND 0xFFFFFFFF)) = al * bl" "unat (drop_bit 32 a * (b AND 0xFFFFFFFF)) = ah * bl"
    "unat ((a AND 0xFFFFFFFF) * drop_bit 32 b) = al * bh" "unat (drop_bit 32 a * drop_bit 32 b) = ah * bh"
    by (simp_all only: mul a lim)
  let ?mid = "drop_bit 32 ((a AND 0xFFFFFFFF) * (b AND 0xFFFFFFFF)) + (drop_bit 32 a * (b AND 0xFFFFFFFF) AND 0xFFFFFFFF)
    + ((a AND 0xFFFFFFFF) * drop_bit 32 b AND 0xFFFFFFFF)"
  have um: "unat ?mid = al * bl div ?B + ah * bl mod ?B + al * bh mod ?B" using mid by (simp only: add3 hi lo m)
  show ?thesis
    unfolding t mulhi_u64_def Let_def using small by (simp only: total_def add4 hi m um)
qed

section \<open>Unsigned division is exact\<close>

text \<open>What a prepared divisor must hold for the run to be exact: the exponent of a power of two, or the reciprocal.\<close>

definition prepared :: "nat \<Rightarrow> ('a :: len) word \<Rightarrow> 'a word fdiv \<Rightarrow> bool" where
  "prepared W d p \<longleftrightarrow> fd_d p = d \<and>
     (if d AND (d - 1) = 0
      then fd_flags p = FDIV_FLAG_POW2 \<and> unat d = 2 ^ unat (fd_shift p)
      else fd_flags p = FDIV_FLAG_ADD \<and> 0 < unat (fd_shift p) \<and> 2 ^ (unat (fd_shift p) - 1) < unat d \<and>
        unat d < 2 ^ unat (fd_shift p) \<and> unat (fd_magic p) = reciprocal W (unat (fd_shift p)) (unat d) - 2 ^ W)"

lemma prepared_cases:
  fixes d n t :: "'a :: len word"
  assumes "d \<noteq> 0" "prepared LENGTH('a) d p" "unat t = unat n * unat (fd_magic p) div 2 ^ LENGTH('a)"
  shows "fd_flags p = FDIV_FLAG_POW2 \<Longrightarrow> drop_bit (unat (fd_shift p)) n = n div d"
    "fd_flags p \<noteq> FDIV_FLAG_POW2 \<Longrightarrow> fd_flags p = FDIV_FLAG_ADD \<and>
       drop_bit (unat (fd_shift p) - 1) (drop_bit 1 (n - t) + t) = n div d"
proof -
  let ?s = "unat (fd_shift p)"
  assume "fd_flags p = FDIV_FLAG_POW2"
  then have "unat d = 2 ^ ?s" using assms(2) by (auto simp: prepared_def split: if_splits)
  then show "drop_bit ?s n = n div d"
    by (intro word_unat_eq_iff [THEN iffD2]) (simp only: unat_drop_bit_eq drop_bit_eq_div [where ?'a = nat] unat_div)
next
  let ?s = "unat (fd_shift p)" and ?W = "LENGTH('a)"
  assume "fd_flags p \<noteq> FDIV_FLAG_POW2"
  then have np: "d AND (d - 1) \<noteq> 0" and f: "fd_flags p = FDIV_FLAG_ADD" "0 < ?s" "2 ^ (?s - 1) < unat d" "unat d < 2 ^ ?s"
    "unat (fd_magic p) = reciprocal ?W ?s (unat d) - 2 ^ ?W" using assms(2) by (auto simp: prepared_def split: if_splits)
  have nd: "\<not> unat d dvd 2 ^ (?W + ?s)" using dvd_power_of_two np word_power_of_two [OF assms(1)] by blast
  note q = magic_quotient [OF f(3,4) unsigned_less f(2) unsigned_less nd f(5), of n, folded assms(3)]
  have "t \<le> n" using q(2) by (simp add: word_le_nat_alt)
  then have "unat (drop_bit (?s - 1) (drop_bit 1 (n - t) + t)) = unat n div unat d" using add_path [OF _ f(2)] q(1) by metis
  then show "fd_flags p = FDIV_FLAG_ADD \<and> drop_bit (?s - 1) (drop_bit 1 (n - t) + t) = n div d"
    using f(1) by (simp add: word_unat_eq_iff unat_div del: One_nat_def)
qed

lemma remainder_parts:
  assumes "0 < d" "\<not> d dvd (p :: nat)"
  obtains r where "p = p div d * d + Suc r" "Suc r < d"
proof -
  have "0 < p mod d" "p mod d < d" using assms by (simp_all add: mod_greater_zero_iff_not_dvd)
  then show thesis using div_mult_mod_eq [of p d] by (intro that [of "p mod d - 1"]) simp_all
qed

lemma quotient_of: "r < d \<Longrightarrow> (q * d + r) div d = (q :: nat)"
  by (cases "d = 0") simp_all

lemma reciprocal_round_up:
  assumes "0 < d" "\<not> d dvd 2 ^ (W + L)" shows "(2 ^ (W + L) + d - 1) div d = reciprocal W L d"
proof -
  let ?q = "2 ^ (W + L) div d"
  obtain r where r: "2 ^ (W + L) = ?q * d + Suc r" "Suc r < d" using remainder_parts [OF assms] .
  have "2 ^ (W + L) + d - 1 = (?q + 1) * d + r" using r unfolding add_mult_distrib by linarith
  then show ?thesis using quotient_of [of r d "?q + 1"] r(2) by (simp only: reciprocal_def Suc_lessD)
qed

lemma reciprocal_last:
  assumes "0 < d" "\<not> d dvd 2 ^ (W + L)" shows "(2 ^ (W + L) - 1) div d + 1 = reciprocal W L d"
proof -
  let ?q = "2 ^ (W + L) div d"
  obtain r where r: "2 ^ (W + L) = ?q * d + Suc r" "Suc r < d" using remainder_parts [OF assms] .
  have "2 ^ (W + L) - 1 = ?q * d + r" using r(1) by linarith
  then show ?thesis using quotient_of [of r d ?q] r(2) by (simp only: reciprocal_def Suc_lessD)
qed

text \<open>The prepare functions' common part: the shift.\<close>

lemma prepared_shift:
  fixes d :: "'a :: len word"
  assumes "d \<noteq> 0" and clz: "\<And>x :: 'a word. x \<noteq> 0 \<Longrightarrow> clz x < LENGTH('a) \<and> 2 ^ (LENGTH('a) - 1 - clz x) \<le> unat x \<and> unat x < 2 ^ (LENGTH('a) - clz x)"
  shows "d AND (d - 1) = 0 \<Longrightarrow> unat d = 2 ^ (LENGTH('a) - 1 - clz d)"
    "d AND (d - 1) \<noteq> 0 \<Longrightarrow> clz (d - 1) < LENGTH('a) \<and> 2 ^ (LENGTH('a) - clz (d - 1) - 1) < unat d \<and>
      unat d < 2 ^ (LENGTH('a) - clz (d - 1)) \<and> \<not> unat d dvd 2 ^ i"
proof -
  assume "d AND (d - 1) = 0"
  then obtain k where k: "unat d = 2 ^ k" using word_power_of_two [OF assms(1)] by blast
  note c = clz [OF assms(1), unfolded k]
  have "Suc (LENGTH('a) - 1 - clz d) = LENGTH('a) - clz d" using c [THEN conjunct1] by simp
  then have "k = LENGTH('a) - 1 - clz d" using c by (intro log_of_power) simp_all
  then show "unat d = 2 ^ (LENGTH('a) - 1 - clz d)" by (simp add: k)
next
  assume np: "d AND (d - 1) \<noteq> 0"
  then have "d - 1 \<noteq> 0" by auto
  note c = clz [OF this]
  have s: "Suc (LENGTH('a) - clz (d - 1) - 1) = LENGTH('a) - clz (d - 1)" using c [THEN conjunct1] by simp
  show "clz (d - 1) < LENGTH('a) \<and> 2 ^ (LENGTH('a) - clz (d - 1) - 1) < unat d \<and>
      unat d < 2 ^ (LENGTH('a) - clz (d - 1)) \<and> \<not> unat d dvd 2 ^ i"
    using log_rounded_up [OF assms(1) np, of "LENGTH('a) - clz (d - 1) - 1"] c unfolding s by (simp add: diff_commute)
qed

lemma prepare_u32: "d \<noteq> 0 \<Longrightarrow> prepared 32 d (fdiv_u32_prepare d)"
proof (cases "d AND (d - 1) = 0")
  case True
  assume d: "d \<noteq> 0"
  have "bits_clz32 x < 32 \<and> 2 ^ (32 - 1 - bits_clz32 x) \<le> unat x \<and> unat x < 2 ^ (32 - bits_clz32 x)" if "x \<noteq> 0" for x
    using bits_clz32_bounds [OF that] by simp
  then have k: "unat d = 2 ^ (31 - bits_clz32 d)" using prepared_shift(1) [OF d, of bits_clz32] True by simp
  have "(of_int (31 - int (bits_clz32 d)) :: u8) = of_nat (31 - bits_clz32 d)" using bits_clz32_bounds(1) [OF d] by (simp add: of_nat_diff)
  then have "unat (of_int (31 - int (bits_clz32 d)) :: u8) = 31 - bits_clz32 d" by (simp add: unat_of_nat)
  then show ?thesis using k True by (simp add: prepared_def fdiv_u32_prepare_def)
next
  case False
  assume d: "d \<noteq> 0"
  define L where "L = 32 - bits_clz32 (d - 1)"
  have "bits_clz32 x < 32 \<and> 2 ^ (32 - 1 - bits_clz32 x) \<le> unat x \<and> unat x < 2 ^ (32 - bits_clz32 x)" if "x \<noteq> 0" for x
    using bits_clz32_bounds [OF that] by simp
  then have L: "0 < L" "L \<le> 32" "2 ^ (L - 1) < unat d" "unat d < 2 ^ L" and nd: "\<not> unat d dvd 2 ^ i" for i
    using prepared_shift(2) [OF d, of bits_clz32] False by (simp_all add: L_def)
  have d32: "unat d < 2 ^ 32" "0 < unat d" using unsigned_less [where ?'a = nat, of d] d by (simp_all add: unat_gt_0)
  have ud: "unat (ucast d :: u64) = unat d" using d32 by (simp add: unsigned_ucast_eq take_bit_nat_eq_self)
  note b = reciprocal_bounds [OF L(3,4) d32(1) L(1)]
  have one: "unat (push_bit 32 1 :: u64) = 2 ^ 32" by simp
  have cast: "unat (ucast (m - push_bit 32 1 :: u64) :: u32) = reciprocal 32 L (unat d) - 2 ^ 32 \<and> \<not> m < push_bit 32 1"
    if m: "unat m = reciprocal 32 L (unat d)" for m :: u64
  proof -
    have "push_bit 32 1 \<le> m" using b(1) m by (simp add: word_le_nat_alt)
    then have "unat (m - push_bit 32 1) = reciprocal 32 L (unat d) - 2 ^ 32" "\<not> m < push_bit 32 1" using m one by (simp_all add: unat_sub)
    then show ?thesis using b(2) by (simp add: unsigned_ucast_eq take_bit_nat_eq_self)
  qed
  show ?thesis
  proof (cases "L < 32")
    case True
    let ?num = "push_bit (32 + L) 1 :: u64"
    have num: "unat ?num = 2 ^ (32 + L)" 
      by (simp only: unsigned_push_bit_eq push_bit_eq_mult [where ?'a = nat] unsigned_1 mult_1) (use True in \<open>simp add: take_bit_nat_eq_self power_strict_increasing\<close>)
    have "(2 :: nat) ^ (32 + L) \<le> 2 ^ 63" using True by (intro power_increasing) simp_all
    then have "unat (?num + ucast d - 1) = 2 ^ (32 + L) + unat d - 1"
      using d32 num ud by (simp add: unat_word_ariths take_bit_nat_eq_self unat_sub_if')
    then have m: "unat ((?num + ucast d - 1) div ucast d) = reciprocal 32 L (unat d)"
      using reciprocal_round_up [OF d32(2) nd] by (simp add: unat_div ud)
    have "unat (of_nat L :: u8) = L" using L(2) by (simp add: unat_of_nat)
    then show ?thesis using cast [OF m] True False L by (simp add: prepared_def fdiv_u32_prepare_def L_def [symmetric] Let_def)
  next
    case L32: False
    then have 32: "L = 32" using L(2) by simp
    have "unat (NOT 0 div ucast d :: u64) + 1 = reciprocal 32 L (unat d)"
      using reciprocal_last [OF d32(2) nd, of 32 L] unfolding 32 by (simp add: unat_div ud unsigned_minus_1_eq_mask mask_eq_exp_minus_1)
    then have m: "unat (NOT 0 div ucast d + 1 :: u64) = reciprocal 32 L (unat d)"
      using b(2) by (simp add: unat_word_ariths take_bit_nat_eq_self)
    show ?thesis using cast [OF m] L32 False L 32 by (simp add: prepared_def fdiv_u32_prepare_def L_def [symmetric] Let_def)
  qed
qed

lemma fdiv_u32_result:
  assumes "d \<noteq> 0" shows "fdiv_u32 n (fdiv_u32_prepare d) = n div d"
proof -
  let ?p = "fdiv_u32_prepare d"
  note c = prepared_cases [of d ?p "mulhi_u32 n (fd_magic ?p)" n, OF assms]
  show ?thesis using c prepare_u32 [OF assms]
    by (cases "fd_flags ?p = FDIV_FLAG_POW2") (simp_all add: fdiv_u32_def Let_def mulhi_u32_exact)
qed

text \<open>
  The long division: with the bits above \<open>i\<close> of \<open>2 ^ one\<close> consumed, the two words hold the quotient and
  \<open>rem\<close> the remainder of what has been read.
\<close>

lemma shift_in:
  fixes w :: u64
  assumes "y \<le> (1 :: nat)" shows "unat (push_bit 1 w OR of_nat y) = (2 * unat w + y) mod 2 ^ 64"
proof -
  have "push_bit 1 w OR of_nat y = push_bit 1 w + of_nat y"
    by (rule disjunctive_add [symmetric]) (use assms in \<open>auto simp: bit_simps le_Suc_eq bit_0\<close>)
  then show ?thesis using assms by (auto simp: le_Suc_eq unat_word_ariths take_bit_eq_mod mod_simps mult.commute [of 2])
qed

lemma top_bit: "drop_bit 63 (w :: u64) AND 1 \<noteq> 0 \<longleftrightarrow> 2 ^ 63 \<le> unat w"
proof -
  have "unat (drop_bit 63 w) = unat w div 2 ^ 63" by (simp only: unat_drop_bit_eq drop_bit_eq_div [where ?'a = nat])
  moreover have "unat w div 2 ^ 63 < 2" using unsigned_less [where ?'a = nat, of w] by (simp add: div_less_iff_less_mult)
  ultimately have "unat (drop_bit 63 w AND 1) = unat w div 2 ^ 63" by (simp only: unsigned_and_eq unsigned_1 and_one_eq [where ?'a = nat] mod_less)
  then show ?thesis by (simp only: word_unat_eq_iff unsigned_0) (simp add: div_eq_0_iff not_less)
qed

lemma push_bit_carry:
  fixes rem d :: u64 and x :: nat
  assumes "unat rem < unat d" "x \<le> 1"
  defines "r \<equiv> push_bit 1 rem OR of_nat x" and "v \<equiv> 2 * unat rem + x"
  shows "if drop_bit 63 rem AND 1 \<noteq> 0 then unat (r - d) = v - unat d \<and> unat d \<le> v
    else unat r = v"
proof -
  have r64: "unat rem < 2 ^ 64" using unsigned_less [where ?'a = nat, of rem] by simp
  have d64: "unat d < 2 ^ 64" using unsigned_less [where ?'a = nat, of d] by simp
  have r: "unat r = v mod 2 ^ 64" unfolding r_def v_def by (rule shift_in [OF assms(2)])
  have "drop_bit 63 rem AND 1 \<noteq> 0 \<longleftrightarrow> 2 ^ 63 \<le> unat rem" by (rule top_bit)
  moreover have "unat r = v" if "\<not> 2 ^ 63 \<le> unat rem" using that assms(2) unfolding r by (simp add: v_def)
  moreover have "unat (r - d) = v - unat d \<and> unat d \<le> v" if "2 ^ 63 \<le> unat rem"
  proof -
    have "v mod 2 ^ 64 = v - 2 ^ 64" using that r64 assms(2) by (simp add: v_def mod_if)
    moreover have "v < unat d + 2 ^ 64" "2 ^ 64 \<le> v" using that assms(1,2) r64 d64 by (simp_all add: v_def)
    ultimately show ?thesis using d64 unfolding unat_sub_if' by (simp add: r word_le_nat_alt)
  qed
  ultimately show ?thesis by simp
qed

lemma double_division:
  fixes n d x :: nat
  assumes "0 < d"
  defines "v \<equiv> 2 * (n mod d) + x" and "N \<equiv> 2 * n + x"
  shows "x \<le> 1 \<Longrightarrow> N div d = 2 * (n div d) + (if d \<le> v then 1 else 0)" "x \<le> 1 \<Longrightarrow> N mod d = (if d \<le> v then v - d else v)"
proof -
  assume x: "x \<le> 1"
  have N: "N = (2 * (n div d)) * d + v" using div_mult_mod_eq [of n d] unfolding N_def v_def mult.assoc by linarith
  have v: "v < 2 * d" using x mod_less_divisor [OF assms(1), of n] by (simp add: v_def)
  have "v div d = (if d \<le> v then 1 else 0) \<and> v mod d = (if d \<le> v then v - d else v)"
    using v assms(1) by (auto simp: le_div_geq le_mod_geq not_le)
  then show "N div d = 2 * (n div d) + (if d \<le> v then 1 else 0)" "N mod d = (if d \<le> v then v - d else v)"
    unfolding N using assms(1) by simp_all
qed

lemma quotient_words:
  fixes hi lo :: u64
  assumes "q = unat hi * 2 ^ 64 + unat lo" "2 * q + x < 2 ^ 128" "x \<le> 1"
  shows "unat (push_bit 1 hi OR drop_bit 63 lo) * 2 ^ 64 + unat (push_bit 1 lo OR of_nat x) = 2 * q + x"
proof -
  have l64: "unat lo < 2 ^ 64" using unsigned_less [where ?'a = nat, of lo] by simp
  have top: "unat (drop_bit 63 lo) = unat lo div 2 ^ 63" by (simp only: unat_drop_bit_eq drop_bit_eq_div [where ?'a = nat])
  have t1: "unat lo div 2 ^ 63 \<le> 1" using l64 by (simp add: div_less_iff_less_mult less_Suc_eq_le [symmetric])
  have "drop_bit 63 lo = of_nat (unat lo div 2 ^ 63)" by (rule word_unat_eq_iff [THEN iffD2]) (use t1 in \<open>simp add: top unat_of_nat take_bit_nat_eq_self\<close>)
  then have h: "unat (push_bit 1 hi OR drop_bit 63 lo) = (2 * unat hi + unat lo div 2 ^ 63) mod 2 ^ 64" using shift_in [OF t1] by simp
  have hs: "2 * unat hi + unat lo div 2 ^ 63 < 2 ^ 64"
  proof -
    have "2 * unat hi * 2 ^ 64 + 2 * unat lo < 2 ^ 64 * 2 ^ 64" using assms(1,2) by simp
    moreover have "unat lo div 2 ^ 63 * 2 ^ 64 \<le> 2 * unat lo" using div_times_less_eq_dividend [of "unat lo" "2 ^ 63"] by simp
    ultimately have "(2 * unat hi + unat lo div 2 ^ 63) * 2 ^ 64 < 2 ^ 64 * 2 ^ 64" unfolding add_mult_distrib by linarith
    then show ?thesis by simp
  qed
  have "unat lo div 2 ^ 63 * 2 ^ 64 + (2 * unat lo + x) mod 2 ^ 64 = 2 * unat lo + x"
  proof (cases "unat lo < 2 ^ 63")
    case True
    then show ?thesis using assms(3) by (simp add: mod_if)
  next
    case False
    then have "unat lo div 2 ^ 63 = 1" using l64 by (simp add: div_nat_eqI)
    moreover have "(2 * unat lo + x) mod 2 ^ 64 = 2 * unat lo + x - 2 ^ 64" using False l64 assms(3) by (simp add: mod_if)
    ultimately show ?thesis using False by simp
  qed
  then show ?thesis unfolding h shift_in [OF assms(3)] using hs assms(1) by (simp add: algebra_simps)
qed

lemma long_divide_result:
  assumes "d \<noteq> 0" "n = 2 ^ (one + 1) div 2 ^ i" "i \<le> one + 1" "2 ^ (one + 1) div unat d < 2 ^ 128"
    and "unat hi * 2 ^ 64 + unat lo = n div 2 div unat d" "unat rem = n div 2 mod unat d"
    and "long_divide d one i (hi, lo, rem) = (hi', lo', rem')"
  shows "unat hi' * 2 ^ 64 + unat lo' = 2 ^ one div unat d"
  using assms(2,3,5-7)
proof (induction i arbitrary: n hi lo rem)
  case 0
  then show ?case by simp
next
  case (Suc i)
  have d: "0 < unat d" using assms(1) by (simp add: unat_gt_0)
  define x :: nat where "x = (if i = one then 1 else 0)"
  define m :: nat where "m = n div 2"
  have x1: "x \<le> 1" by (simp add: x_def)
  have bit_in: "(if i = one then 1 else 0 :: u64) = of_nat x" by (simp add: x_def)
  have step: "2 ^ (one + 1) div 2 ^ i div 2 = 2 * m + x"
  proof (cases "i = one")
    case True
    then have "n = 1" using Suc.prems(1) by simp
    then show ?thesis using True by (simp add: m_def x_def)
  next
    case False
    then have "i < one" using Suc.prems(2) by simp
    then obtain k where k: "one = i + Suc k" using less_imp_Suc_add by auto
    have "n = 2 ^ Suc k" using Suc.prems(1) unfolding k by (simp add: power_add)
    moreover have "x = 0" using False by (simp add: x_def)
    ultimately show ?thesis using Suc.prems(1) unfolding k by (simp add: m_def power_add)
  qed
  let ?q = "m div unat d" and ?v = "2 * unat rem + x"
  have rem: "unat rem = m mod unat d" using Suc.prems(4) by (simp add: m_def)
  have less: "unat rem < unat d" unfolding rem using d by simp
  note dd = double_division [OF d x1, of m, folded rem]
  note pc = push_bit_carry [OF less x1]
  define r where "r = push_bit 1 rem OR of_nat x"
  define c where "c = (drop_bit 63 rem AND 1 \<noteq> 0)"
  define y :: nat where "y = (if unat d \<le> ?v then 1 else 0)"
  have y1: "y \<le> 1" by (simp add: y_def)
  have choice: "(if c then (1, r - d) else if r \<ge> d then (1, r - d) else (0, r)) = (of_nat y, if unat d \<le> ?v then r - d else r)"
    using pc [folded r_def, folded c_def] by (simp add: y_def word_le_nat_alt split: if_splits)
  have rr: "unat (if unat d \<le> ?v then r - d else r) = (2 * m + x) mod unat d"
    using pc [folded r_def, folded c_def] dd(2) by (auto simp: unat_sub_if' word_le_nat_alt split: if_splits)
  have bound: "2 * ?q + y < 2 ^ 128"
  proof -
    have "2 * m + x \<le> 2 ^ (one + 1)" unfolding step [symmetric] using div_le_dividend order_trans by blast
    then have "(2 * m + x) div unat d \<le> 2 ^ (one + 1) div unat d" by (rule div_le_mono)
    then show ?thesis using assms(4) dd(1) by (simp add: y_def)
  qed
  note qw = quotient_words [OF _ bound y1, of hi lo]
  have quot: "unat (push_bit 1 hi OR drop_bit 63 lo) * 2 ^ 64 + unat (push_bit 1 lo OR of_nat y) = (2 * m + x) div unat d"
    using qw Suc.prems(3) dd(1) by (simp add: m_def y_def)
  show ?case
  proof (rule Suc.IH)
    show "2 ^ (one + 1) div 2 ^ i = 2 ^ (one + 1) div (2 ^ i :: nat)" ..
    show "i \<le> one + 1" using Suc.prems(2) by simp
    show "unat (push_bit 1 hi OR drop_bit 63 lo) * 2 ^ 64 + unat (push_bit 1 lo OR of_nat y) = 2 ^ (one + 1) div 2 ^ i div 2 div unat d"
      unfolding step by (rule quot)
    show "unat (if unat d \<le> ?v then r - d else r) = 2 ^ (one + 1) div 2 ^ i div 2 mod unat d" unfolding step by (rule rr)
    show "long_divide d one i (push_bit 1 hi OR drop_bit 63 lo, push_bit 1 lo OR of_nat y, if unat d \<le> ?v then r - d else r) = (hi', lo', rem')"
      using Suc.prems(5) unfolding long_divide.simps(2) Let_def bit_in r_def [symmetric] c_def [symmetric] choice prod.case .
  qed
qed

lemma prepare_u64: "d \<noteq> 0 \<Longrightarrow> prepared 64 d (fdiv_u64_prepare d)"
proof (cases "d AND (d - 1) = 0")
  case True
  assume d: "d \<noteq> 0"
  have "bits_clz64 x < 64 \<and> 2 ^ (64 - 1 - bits_clz64 x) \<le> unat x \<and> unat x < 2 ^ (64 - bits_clz64 x)" if "x \<noteq> 0" for x
    using bits_clz64_bounds [OF that] by simp
  then have k: "unat d = 2 ^ (63 - bits_clz64 d)" using prepared_shift(1) [OF d, of bits_clz64] True by simp
  have "(of_int (63 - int (bits_clz64 d)) :: u8) = of_nat (63 - bits_clz64 d)" using bits_clz64_bounds(1) [OF d] by (simp add: of_nat_diff)
  then have "unat (of_int (63 - int (bits_clz64 d)) :: u8) = 63 - bits_clz64 d" by (simp add: unat_of_nat)
  then show ?thesis using k True by (simp add: prepared_def fdiv_u64_prepare_def)
next
  case False
  assume d: "d \<noteq> 0"
  define L where "L = 64 - bits_clz64 (d - 1)"
  have "bits_clz64 x < 64 \<and> 2 ^ (64 - 1 - bits_clz64 x) \<le> unat x \<and> unat x < 2 ^ (64 - bits_clz64 x)" if "x \<noteq> 0" for x
    using bits_clz64_bounds [OF that] by simp
  then have L: "0 < L" "L \<le> 64" "2 ^ (L - 1) < unat d" "unat d < 2 ^ L"
    using prepared_shift(2) [OF d, of bits_clz64] False by (simp_all add: L_def)
  have d64: "unat d < 2 ^ 64" using unsigned_less [where ?'a = nat, of d] by simp
  note b = reciprocal_bounds [OF L(3,4) d64 L(1)]
  obtain hi lo rem where ld: "long_divide d (64 + L) (64 + L + 1) (0, 0, 0) = (hi, lo, rem)" by (metis prod_cases3)
  have "2 ^ (64 + L + 1) div unat d < 2 ^ 128"
  proof -
    have "(2 :: nat) ^ (64 + L + 1) = 2 ^ (L - 1) * 2 ^ 66" using L(1) by (cases L) (simp_all add: power_add)
    also have "\<dots> < unat d * 2 ^ 128" using L(3) by (intro mult_strict_mono) simp_all
    finally show ?thesis using d by (simp add: div_less_iff_less_mult unat_gt_0 ac_simps)
  qed
  then have q: "unat hi * 2 ^ 64 + unat lo + 1 = reciprocal 64 L (unat d)"
    using long_divide_result [OF d refl _ _ _ _ ld] by (simp add: reciprocal_def)
  have l64: "unat lo < 2 ^ 64" using unsigned_less [where ?'a = nat, of lo] by simp
  have hi: "unat hi = 1" using b l64 unfolding q [symmetric] by simp
  have lo: "unat lo + 1 < 2 ^ 64" using b(2) hi unfolding q [symmetric] by simp
  have "lo \<noteq> NOT 0" using lo by (auto simp: unsigned_minus_1_eq_mask mask_eq_exp_minus_1)
  moreover have "hi \<noteq> 0" using hi by auto
  moreover have "unat (lo + 1) = reciprocal 64 L (unat d) - 2 ^ 64" using lo hi unfolding q [symmetric] by (simp add: unat_word_ariths take_bit_nat_eq_self)
  moreover have "unat (of_nat L :: u8) = L" using L(2) by (simp add: unat_of_nat)
  ultimately show ?thesis using False L ld by (simp add: prepared_def fdiv_u64_prepare_def L_def [symmetric] Let_def)
qed

lemma fdiv_u64_result:
  assumes "d \<noteq> 0" shows "fdiv_u64 n (fdiv_u64_prepare d) = n div d"
proof -
  let ?p = "fdiv_u64_prepare d"
  note c = prepared_cases [of d ?p "mulhi_u64 n (fd_magic ?p)" n, OF assms]
  show ?thesis using c prepare_u64 [OF assms]
    by (cases "fd_flags ?p = FDIV_FLAG_POW2") (simp_all add: fdiv_u64_def Let_def mulhi_u64_exact)
qed

section \<open>Signed division truncates\<close>

text \<open>
  The sign flag does not disturb the path flags, so a signed call is the unsigned one on the absolute
  values, with the sign put back.
\<close>

definition magnitude :: "'a :: len word \<Rightarrow> 'a word" where "magnitude w = (if sint w < 0 then - w else w)"

lemma flag_bits:
  fixes f :: u8
  assumes "f = FDIV_FLAG_POW2 \<or> f = FDIV_FLAG_ADD"
  defines "g \<equiv> \<lambda>neg. let h = (if neg then FDIV_FLAG_NEG else 0);
      h = (if f AND FDIV_FLAG_POW2 \<noteq> 0 then h OR FDIV_FLAG_POW2 else h)
    in if f AND FDIV_FLAG_ADD \<noteq> 0 then h OR FDIV_FLAG_ADD else h"
  shows "(g neg AND FDIV_FLAG_POW2 \<noteq> 0) = (f AND FDIV_FLAG_POW2 \<noteq> 0)" "(g neg AND FDIV_FLAG_ADD \<noteq> 0) = (f AND FDIV_FLAG_ADD \<noteq> 0)"
    "(g neg AND FDIV_FLAG_NEG \<noteq> 0) = neg"
  using assms(1) by (auto simp: g_def Let_def)

lemma prepared_flags: "prepared W d p \<Longrightarrow> fd_flags p = FDIV_FLAG_POW2 \<or> fd_flags p = FDIV_FLAG_ADD"
  by (auto simp: prepared_def split: if_splits)

lemma magnitude_0: "magnitude d = 0 \<longleftrightarrow> d = 0" by (simp add: magnitude_def)

lemma fdiv_s32_magnitude:
  assumes "d \<noteq> 0"
  shows "fdiv_s32 n (fdiv_s32_prepare d) =
    (if (sint n < 0) \<noteq> (sint d < 0) then - (magnitude n div magnitude d) else magnitude n div magnitude d)"
proof -
  let ?p = "fdiv_u32_prepare (magnitude d)"
  have nz: "magnitude d \<noteq> 0" using assms by (simp add: magnitude_0)
  note f = flag_bits [OF prepared_flags [OF prepare_u32 [OF nz]], unfolded Let_def]
  show ?thesis
    using fdiv_u32_result [OF nz, of "magnitude n"]
    unfolding fdiv_s32_def fdiv_s32_prepare_def Let_def fdiv.select_convs magnitude_def [symmetric] f fdiv_u32_def by simp
qed

lemma fdiv_s64_magnitude:
  assumes "d \<noteq> 0"
  shows "fdiv_s64 n (fdiv_s64_prepare d) =
    (if (sint n < 0) \<noteq> (sint d < 0) then - (magnitude n div magnitude d) else magnitude n div magnitude d)"
proof -
  let ?p = "fdiv_u64_prepare (magnitude d)"
  have nz: "magnitude d \<noteq> 0" using assms by (simp add: magnitude_0)
  note f = flag_bits [OF prepared_flags [OF prepare_u64 [OF nz]], unfolded Let_def]
  show ?thesis
    using fdiv_u64_result [OF nz, of "magnitude n"]
    unfolding fdiv_s64_def fdiv_s64_prepare_def Let_def fdiv.select_convs magnitude_def [symmetric] f fdiv_u64_def by simp
qed

lemma sint_of_int_range:
  "- (2 ^ (LENGTH('a) - 1)) \<le> x \<Longrightarrow> x < 2 ^ (LENGTH('a) - 1) \<Longrightarrow> sint (of_int x :: 'a :: len word) = x"
  by (simp add: signed_of_int signed_take_bit_int_eq_self)

lemma uint_magnitude: "uint (magnitude (w :: 'a :: len word)) = \<bar>sint w\<bar>"
proof -
  have "magnitude w = of_int \<bar>sint w\<bar>" by (simp add: magnitude_def)
  moreover have "\<bar>sint w\<bar> \<le> 2 ^ (LENGTH('a) - 1)" using sint_ge [of w] sint_lt [of w] by linarith
  moreover have "(2 :: int) ^ (LENGTH('a) - 1) < 2 ^ LENGTH('a)" by (rule power_strict_increasing) simp_all
  ultimately have "\<bar>sint w\<bar> < 2 ^ LENGTH('a)" "magnitude w = of_int \<bar>sint w\<bar>" by linarith+
  then show ?thesis by (simp add: unsigned_of_int take_bit_int_eq_self)
qed

lemma signed_quotient:
  fixes n d :: "'a :: len word"
  assumes "sint n \<noteq> - (2 ^ (LENGTH('a) - 1))"
    and "q = (if (sint n < 0) \<noteq> (sint d < 0) then - (magnitude n div magnitude d) else magnitude n div magnitude d)"
  shows "sint q = sint n sdiv sint d" "sint (n - q * d) = sint n smod sint d"
proof -
  let ?a = "\<bar>sint n\<bar> div \<bar>sint d\<bar>" and ?h = "2 ^ (LENGTH('a) - 1) :: int"
  have abs: "magnitude n div magnitude d = of_int ?a"
    by (rule word_uint_eqI) (metis uint_div uint_magnitude word_of_int_uint)
  have n: "\<bar>sint n\<bar> < ?h" using assms(1) sint_ge [of n] sint_lt [of n] by linarith
  have qi: "q = of_int (sint n sdiv sint d)"
    unfolding assms(2) abs signed_divide_int_def by (auto simp: sgn_if)
  have "\<bar>sint n sdiv sint d\<bar> \<le> \<bar>sint n\<bar>"
  proof -
    have "?a \<le> \<bar>sint n\<bar>" using zdiv_mono2 [of "\<bar>sint n\<bar>" 1 "\<bar>sint d\<bar>"] by (cases "sint d = 0") simp_all
    moreover have "0 \<le> ?a" by (simp add: div_int_pos_iff)
    ultimately show ?thesis by (auto simp: signed_divide_int_def abs_mult abs_sgn_eq)
  qed
  then show s: "sint q = sint n sdiv sint d" unfolding qi using n by (intro sint_of_int_range) linarith+
  have "n - q * d = of_int (sint n - sint n sdiv sint d * sint d)" by (simp add: qi)
  also have "sint n - sint n sdiv sint d * sint d = sint n smod sint d" by (rule minus_sdiv_mult_eq_smod)
  finally have r: "n - q * d = of_int (sint n smod sint d)" .
  have "\<bar>sint n smod sint d\<bar> \<le> \<bar>sint n\<bar>"
  proof -
    have "sint n smod sint d = sgn (sint n) * (\<bar>sint n\<bar> mod \<bar>sint d\<bar>)" by (rule smod_int_alt_def)
    moreover have "0 \<le> \<bar>sint n\<bar> mod \<bar>sint d\<bar>" "\<bar>sint n\<bar> mod \<bar>sint d\<bar> \<le> \<bar>sint n\<bar>"
      by (cases "sint d = 0"; simp add: zmod_le_nonneg_dividend)+
    ultimately show ?thesis by (auto simp: abs_mult abs_sgn_eq)
  qed
  then show "sint (n - q * d) = sint n smod sint d" unfolding r using n by (intro sint_of_int_range) linarith+
qed

section \<open>Properties\<close>

text \<open>
  C37. A divisor prepared by \<open>fdiv_u32_prepare\<close> divides every 32-bit dividend exactly: for every divisor but \<open>0\<close>
  the multiply-and-shift of \<open>fdiv_u32\<close> is C's \<open>/\<close>, and \<open>fdiv_u32_qr\<close> adds C's \<open>%\<close>.
\<close>

theorem fdiv_u32_exact:
  assumes "d \<noteq> 0"
  shows "fdiv_u32 n (fdiv_u32_prepare d) = n div d \<and> fdiv_u32_qr n (fdiv_u32_prepare d) = (n div d, n mod d)"
proof -
  have "fd_d (fdiv_u32_prepare d) = d" using prepare_u32 [OF assms] by (simp add: prepared_def)
  then show ?thesis using fdiv_u32_result [OF assms] by (simp add: fdiv_u32_qr_def minus_div_mult_eq_mod)
qed

theorem fdiv_u32_exact_witness:
  "fdiv_u32_qr 4294967295 (fdiv_u32_prepare 7) = (613566756, 3)"
  using fdiv_u32_exact [of 7 4294967295] by simp

text \<open>
  C38. The 64-bit version is exact as well: the bit-by-bit long division in \<open>fdiv_u64_prepare\<close> finds the
  65-bit reciprocal, the four partial products of \<open>mulhi_u64\<close> the high half of the product, and \<open>fdiv_u64\<close>
  gives C's quotient for every dividend and every divisor but \<open>0\<close>, \<open>fdiv_u64_qr\<close> the remainder too.
\<close>

theorem fdiv_u64_exact:
  assumes "d \<noteq> 0"
  shows "fdiv_u64 n (fdiv_u64_prepare d) = n div d \<and> fdiv_u64_qr n (fdiv_u64_prepare d) = (n div d, n mod d)"
proof -
  have "fd_d (fdiv_u64_prepare d) = d" using prepare_u64 [OF assms] by (simp add: prepared_def)
  then show ?thesis using fdiv_u64_result [OF assms] by (simp add: fdiv_u64_qr_def minus_div_mult_eq_mod)
qed

theorem fdiv_u64_exact_witness:
  "fdiv_u64_qr 18446744073709551615 (fdiv_u64_prepare 10) = (1844674407370955161, 5)"
  using fdiv_u64_exact [of 10 18446744073709551615] by simp

text \<open>
  C39. The signed versions truncate toward zero and give the remainder the dividend's sign, as C's \<open>/\<close> and \<open>%\<close>
  do, for every divisor but \<open>0\<close>. The dividend is not the least integer (its negation in the code
  overflows); the same holds of the divisor, by the header's precondition.
\<close>

theorem fdiv_signed_truncates:
  fixes n d :: u32 and n' d' :: u64
  assumes "d \<noteq> 0" "sint n \<noteq> - (2 ^ 31)" "sint d \<noteq> - (2 ^ 31)"
    and "d' \<noteq> 0" "sint n' \<noteq> - (2 ^ 63)" "sint d' \<noteq> - (2 ^ 63)"
  shows "(case fdiv_s32_qr n (fdiv_s32_prepare d) of (q, r) \<Rightarrow>
      q = fdiv_s32 n (fdiv_s32_prepare d) \<and> sint q = sint n sdiv sint d \<and> sint r = sint n smod sint d) \<and>
    (case fdiv_s64_qr n' (fdiv_s64_prepare d') of (q, r) \<Rightarrow>
      q = fdiv_s64 n' (fdiv_s64_prepare d') \<and> sint q = sint n' sdiv sint d' \<and> sint r = sint n' smod sint d')"
proof -
  have "fd_d (fdiv_s32_prepare d) = d" "fd_d (fdiv_s64_prepare d') = d'"
    by (simp_all add: fdiv_s32_prepare_def fdiv_s64_prepare_def Let_def)
  then have "case fdiv_s32_qr n (fdiv_s32_prepare d) of (q, r) \<Rightarrow>
      q = fdiv_s32 n (fdiv_s32_prepare d) \<and> sint q = sint n sdiv sint d \<and> sint r = sint n smod sint d"
    "case fdiv_s64_qr n' (fdiv_s64_prepare d') of (q, r) \<Rightarrow>
      q = fdiv_s64 n' (fdiv_s64_prepare d') \<and> sint q = sint n' sdiv sint d' \<and> sint r = sint n' smod sint d'"
    using signed_quotient [OF _ fdiv_s32_magnitude [OF assms(1)], of n] signed_quotient [OF _ fdiv_s64_magnitude [OF assms(4)], of n'] assms(2,5)
    by (simp_all add: fdiv_s32_qr_def fdiv_s64_qr_def Let_def)
  then show ?thesis by blast
qed

theorem fdiv_signed_truncates_witness:
  "(case fdiv_s32_qr (-7) (fdiv_s32_prepare 2) of (q, r) \<Rightarrow> sint q = -3 \<and> sint r = -1) \<and>
   (case fdiv_s64_qr 7 (fdiv_s64_prepare (-2)) of (q, r) \<Rightarrow> sint q = -3 \<and> sint r = 1)"
  using fdiv_signed_truncates [where d = 2 and n = "-7" and d' = "-2" and n' = 7] by (auto simp: split: prod.splits)

end
