(* ===== verification/Avl_Core.thy ===== *)
theory Avl_Core
  imports Prelude "HOL-Library.Tree"
begin

text \<open>
  \<open>src/src/containers/avl_core.c\<close>: the ordered search tree over a pool of nodes that the tree and
  hash containers share. A node is its index; the four link fields, the payload and the free list are
  maps from indices. \<open>*root\<close>, \<open>*free_head\<close> and \<open>*count\<close>, which the callers own, are passed and returned.
  Loops that follow links are partial functions: \<open>None\<close> is a loop that does not end.
\<close>

abbreviation (input) AVL_CORE_NIL :: u32 where "AVL_CORE_NIL \<equiv> 0xFFFFFFFF"

section \<open>State\<close>

record 'e AvlCore =
  n_left :: "u32 \<Rightarrow> u32"
  n_right :: "u32 \<Rightarrow> u32"
  n_parent :: "u32 \<Rightarrow> u32"
  n_bal :: "u32 \<Rightarrow> int"
  avl_core_payload :: "u32 \<Rightarrow> 'e"
  av_capacity :: u32
  av_free_head :: u32
  av_count :: nat

definition set_left :: "u32 \<Rightarrow> u32 \<Rightarrow> 'e AvlCore \<Rightarrow> 'e AvlCore" where
  "set_left i v c = c\<lparr>n_left := (n_left c)(i := v)\<rparr>"
definition set_right :: "u32 \<Rightarrow> u32 \<Rightarrow> 'e AvlCore \<Rightarrow> 'e AvlCore" where
  "set_right i v c = c\<lparr>n_right := (n_right c)(i := v)\<rparr>"
definition set_parent :: "u32 \<Rightarrow> u32 \<Rightarrow> 'e AvlCore \<Rightarrow> 'e AvlCore" where
  "set_parent i v c = c\<lparr>n_parent := (n_parent c)(i := v)\<rparr>"
definition set_bal :: "u32 \<Rightarrow> int \<Rightarrow> 'e AvlCore \<Rightarrow> 'e AvlCore" where
  "set_bal i v c = c\<lparr>n_bal := (n_bal c)(i := v)\<rparr>"
definition set_payload :: "u32 \<Rightarrow> 'e \<Rightarrow> 'e AvlCore \<Rightarrow> 'e AvlCore" where
  "set_payload i v c = c\<lparr>avl_core_payload := (avl_core_payload c)(i := v)\<rparr>"

section \<open>Free list\<close>

fun build_from :: "u32 \<Rightarrow> nat \<Rightarrow> u32 \<Rightarrow> 'e AvlCore \<Rightarrow> 'e AvlCore" where
  "build_from capacity 0 i c = c"
| "build_from capacity (Suc k) i c =
     build_from capacity k (i + 1) (set_left i (if i + 1 < capacity then i + 1 else AVL_CORE_NIL) c)"

definition avl_core_build_freelist :: "'e AvlCore \<Rightarrow> 'e AvlCore" where
  "avl_core_build_freelist c =
     (let c = c\<lparr>av_free_head := (if av_capacity c > 0 then 0 else AVL_CORE_NIL)\<rparr>
      in build_from (av_capacity c) (unat (av_capacity c)) 0 c)"

definition alloc_node :: "'e AvlCore \<Rightarrow> u32 \<times> 'e AvlCore" where
  "alloc_node c =
     (let i = av_free_head c in
      if i = AVL_CORE_NIL then (AVL_CORE_NIL, c) else (i, c\<lparr>av_free_head := n_left c i\<rparr>))"

definition free_node :: "u32 \<Rightarrow> 'e AvlCore \<Rightarrow> 'e AvlCore" where
  "free_node i c = (set_left i (av_free_head c) c)\<lparr>av_free_head := i\<rparr>"

section \<open>Search and walk\<close>

partial_function (option) avl_core_find :: "('k \<Rightarrow> 'e \<Rightarrow> int) \<Rightarrow> 'e AvlCore \<Rightarrow> 'k \<Rightarrow> u32 \<Rightarrow> u32 option" where
  "avl_core_find cmp c key cur =
     (if cur = AVL_CORE_NIL then Some AVL_CORE_NIL
      else let r = cmp key (avl_core_payload c cur) in
        if r = 0 then Some cur
        else avl_core_find cmp c key (if r < 0 then n_left c cur else n_right c cur))"

partial_function (option) walk_left :: "'e AvlCore \<Rightarrow> u32 \<Rightarrow> u32 option" where
  "walk_left c n = (if n_left c n \<noteq> AVL_CORE_NIL then walk_left c (n_left c n) else Some n)"

partial_function (option) walk_right :: "'e AvlCore \<Rightarrow> u32 \<Rightarrow> u32 option" where
  "walk_right c n = (if n_right c n \<noteq> AVL_CORE_NIL then walk_right c (n_right c n) else Some n)"

definition subtree_min :: "'e AvlCore \<Rightarrow> u32 \<Rightarrow> u32 option" where
  "subtree_min c n = (if n = AVL_CORE_NIL then Some AVL_CORE_NIL else walk_left c n)"
definition subtree_max :: "'e AvlCore \<Rightarrow> u32 \<Rightarrow> u32 option" where
  "subtree_max c n = (if n = AVL_CORE_NIL then Some AVL_CORE_NIL else walk_right c n)"

definition avl_core_min :: "'e AvlCore \<Rightarrow> u32 \<Rightarrow> u32 option" where "avl_core_min c root = subtree_min c root"
definition avl_core_max :: "'e AvlCore \<Rightarrow> u32 \<Rightarrow> u32 option" where "avl_core_max c root = subtree_max c root"

partial_function (option) climb_next :: "'e AvlCore \<Rightarrow> u32 \<Rightarrow> u32 \<Rightarrow> u32 option" where
  "climb_next c cur p =
     (if p \<noteq> AVL_CORE_NIL \<and> cur = n_right c p then climb_next c p (n_parent c p) else Some p)"

partial_function (option) climb_prev :: "'e AvlCore \<Rightarrow> u32 \<Rightarrow> u32 \<Rightarrow> u32 option" where
  "climb_prev c cur p =
     (if p \<noteq> AVL_CORE_NIL \<and> cur = n_left c p then climb_prev c p (n_parent c p) else Some p)"

definition avl_core_next :: "'e AvlCore \<Rightarrow> u32 \<Rightarrow> u32 option" where
  "avl_core_next c cur =
     (if cur = AVL_CORE_NIL \<or> cur \<ge> av_capacity c then Some AVL_CORE_NIL
      else if n_right c cur \<noteq> AVL_CORE_NIL then subtree_min c (n_right c cur)
      else climb_next c cur (n_parent c cur))"

definition avl_core_prev :: "'e AvlCore \<Rightarrow> u32 \<Rightarrow> u32 option" where
  "avl_core_prev c cur =
     (if cur = AVL_CORE_NIL \<or> cur \<ge> av_capacity c then Some AVL_CORE_NIL
      else if n_left c cur \<noteq> AVL_CORE_NIL then subtree_max c (n_left c cur)
      else climb_prev c cur (n_parent c cur))"

section \<open>Rotations\<close>

definition replace_child :: "u32 \<Rightarrow> u32 \<Rightarrow> u32 \<Rightarrow> u32 \<times> 'e AvlCore \<Rightarrow> u32 \<times> 'e AvlCore" where
  "replace_child parent old neu = (\<lambda>(root, c).
     let (root, c) =
       (if parent = AVL_CORE_NIL then (neu, c)
        else if n_left c parent = old then (root, set_left parent neu c)
        else (root, set_right parent neu c))
     in (root, if neu \<noteq> AVL_CORE_NIL then set_parent neu parent c else c))"

definition rotate_left :: "u32 \<Rightarrow> u32 \<times> 'e AvlCore \<Rightarrow> u32 \<times> u32 \<times> 'e AvlCore" where
  "rotate_left x = (\<lambda>(root, c).
     let y = n_right c x; p = n_parent c x; b = n_left c y;
         c = set_right x b c;
         c = (if b \<noteq> AVL_CORE_NIL then set_parent b x c else c);
         c = set_left y x c;
         c = set_parent x y c;
         (root, c) = replace_child p x y (root, c);
         c = (if n_bal c y = 0 then set_bal y (-1) (set_bal x 1 c) else set_bal y 0 (set_bal x 0 c))
     in (y, root, c))"

definition rotate_right :: "u32 \<Rightarrow> u32 \<times> 'e AvlCore \<Rightarrow> u32 \<times> u32 \<times> 'e AvlCore" where
  "rotate_right x = (\<lambda>(root, c).
     let y = n_left c x; p = n_parent c x; b = n_right c y;
         c = set_left x b c;
         c = (if b \<noteq> AVL_CORE_NIL then set_parent b x c else c);
         c = set_right y x c;
         c = set_parent x y c;
         (root, c) = replace_child p x y (root, c);
         c = (if n_bal c y = 0 then set_bal y 1 (set_bal x (-1) c) else set_bal y 0 (set_bal x 0 c))
     in (y, root, c))"

definition rotate_left_right :: "u32 \<Rightarrow> u32 \<times> 'e AvlCore \<Rightarrow> u32 \<times> u32 \<times> 'e AvlCore" where
  "rotate_left_right x = (\<lambda>(root, c).
     let z = n_left c x; y = n_right c z; yb = n_bal c y;
         (_, root, c) = rotate_left z (root, c);
         (newroot, root, c) = rotate_right x (root, c);
         c = (if yb > 0 then set_bal x 0 (set_bal z (-1) c)
              else if yb = 0 then set_bal x 0 (set_bal z 0 c)
              else set_bal x 1 (set_bal z 0 c));
         c = set_bal y 0 c
     in (newroot, root, c))"

definition rotate_right_left :: "u32 \<Rightarrow> u32 \<times> 'e AvlCore \<Rightarrow> u32 \<times> u32 \<times> 'e AvlCore" where
  "rotate_right_left x = (\<lambda>(root, c).
     let z = n_right c x; y = n_left c z; yb = n_bal c y;
         (_, root, c) = rotate_right z (root, c);
         (newroot, root, c) = rotate_left x (root, c);
         c = (if yb < 0 then set_bal x 0 (set_bal z 1 c)
              else if yb = 0 then set_bal x 0 (set_bal z 0 c)
              else set_bal x (-1) (set_bal z 0 c));
         c = set_bal y 0 c
     in (newroot, root, c))"

section \<open>Retracing\<close>

partial_function (option) avl_retrace_insert :: "u32 \<Rightarrow> u32 \<Rightarrow> u32 \<times> 'e AvlCore \<Rightarrow> (u32 \<times> 'e AvlCore) option" where
  "avl_retrace_insert child p s =
     (let c = snd s in
      if p = AVL_CORE_NIL then Some s
      else if child = n_right c p then
        if n_bal c p > 0 then
          Some (snd (if n_bal c child < 0 then rotate_right_left p s else rotate_left p s))
        else if n_bal c p < 0 then Some (fst s, set_bal p 0 c)
        else avl_retrace_insert p (n_parent c p) (fst s, set_bal p 1 c)
      else
        if n_bal c p < 0 then
          Some (snd (if n_bal c child > 0 then rotate_left_right p s else rotate_right p s))
        else if n_bal c p > 0 then Some (fst s, set_bal p 0 c)
        else avl_retrace_insert p (n_parent c p) (fst s, set_bal p (-1) c))"

partial_function (option) avl_retrace_remove :: "u32 \<Rightarrow> bool \<Rightarrow> u32 \<times> 'e AvlCore \<Rightarrow> (u32 \<times> 'e AvlCore) option" where
  "avl_retrace_remove p lost_left s =
     (let c = snd s in
      if p = AVL_CORE_NIL then Some s
      else
        let next_parent = n_parent c p; came_from_left = lost_left;
            lost_left = (if next_parent \<noteq> AVL_CORE_NIL then n_left c next_parent = p else lost_left) in
        if came_from_left then
          if n_bal c p > 0 then
            let sb = n_bal c (n_right c p);
                s = snd (if sb < 0 then rotate_right_left p s else rotate_left p s)
            in if sb = 0 then Some s else avl_retrace_remove next_parent lost_left s
          else if n_bal c p = 0 then Some (fst s, set_bal p 1 c)
          else avl_retrace_remove next_parent lost_left (fst s, set_bal p 0 c)
        else
          if n_bal c p < 0 then
            let sb = n_bal c (n_left c p);
                s = snd (if sb > 0 then rotate_left_right p s else rotate_right p s)
            in if sb = 0 then Some s else avl_retrace_remove next_parent lost_left s
          else if n_bal c p = 0 then Some (fst s, set_bal p (-1) c)
          else avl_retrace_remove next_parent lost_left (fst s, set_bal p 0 c))"

section \<open>Insert and remove\<close>

text \<open>The descent: \<open>None\<close> inside on a duplicate, else the last node and the last comparison.\<close>

partial_function (option) descend ::
  "('e \<Rightarrow> 'e \<Rightarrow> int) \<Rightarrow> 'e AvlCore \<Rightarrow> 'e \<Rightarrow> u32 \<Rightarrow> int \<Rightarrow> u32 \<Rightarrow> (u32 \<times> int) option option" where
  "descend cmp c elem parent cm cur =
     (if cur = AVL_CORE_NIL then Some (Some (parent, cm))
      else let cm = cmp elem (avl_core_payload c cur) in
        if cm = 0 then Some None
        else descend cmp c elem cur cm (if cm < 0 then n_left c cur else n_right c cur))"

definition link_leaf :: "u32 \<Rightarrow> u32 \<Rightarrow> int \<Rightarrow> 'e \<Rightarrow> u32 \<times> 'e AvlCore \<Rightarrow> u32 \<times> 'e AvlCore" where
  "link_leaf n parent cm elem = (\<lambda>(root, c).
     let c = set_bal n 0 (set_parent n parent (set_right n AVL_CORE_NIL (set_left n AVL_CORE_NIL (set_payload n elem c))));
         (root, c) =
           (if parent = AVL_CORE_NIL then (n, c)
            else if cm < 0 then (root, set_left parent n c)
            else (root, set_right parent n c))
     in (root, c\<lparr>av_count := av_count c + 1\<rparr>))"

definition avl_core_insert ::
  "('e \<Rightarrow> 'e \<Rightarrow> int) \<Rightarrow> u32 \<times> 'e AvlCore \<Rightarrow> 'e \<Rightarrow> bool \<Rightarrow> (nat \<times> u32 \<times> 'e AvlCore) option" where
  "avl_core_insert cmp s elem balance =
     (case descend cmp (snd s) elem AVL_CORE_NIL 0 (fst s) of
        None \<Rightarrow> None
      | Some None \<Rightarrow> Some (0, s)
      | Some (Some (parent, cm)) \<Rightarrow>
          let (n, c) = alloc_node (snd s) in
          if n = AVL_CORE_NIL then Some (0, fst s, c)
          else
            let s = link_leaf n parent cm elem (fst s, c) in
            if balance then map_option (Pair 1) (avl_retrace_insert n (n_parent (snd s) n) s)
            else Some (1, s))"

text \<open>The payload of the removed element is returned, \<open>None\<close> when there is none.\<close>

definition unlink_node :: "u32 \<Rightarrow> bool \<Rightarrow> u32 \<times> 'e AvlCore \<Rightarrow> (u32 \<times> 'e AvlCore) option" where
  "unlink_node target balance s =
     (let c = snd s;
          child = (if n_left c target \<noteq> AVL_CORE_NIL then n_left c target else n_right c target);
          parent = n_parent c target;
          lost_left = (parent \<noteq> AVL_CORE_NIL \<and> n_left c parent = target);
          s = replace_child parent target child s
      in map_option (\<lambda>(root, c). (root, let c = free_node target c in c\<lparr>av_count := av_count c - 1\<rparr>))
           (if balance \<and> parent \<noteq> AVL_CORE_NIL then avl_retrace_remove parent lost_left s else Some s))"

definition avl_core_remove ::
  "('k \<Rightarrow> 'e \<Rightarrow> int) \<Rightarrow> u32 \<times> 'e AvlCore \<Rightarrow> 'k \<Rightarrow> bool \<Rightarrow> ('e option \<times> u32 \<times> 'e AvlCore) option" where
  "avl_core_remove cmp s key balance =
     (case avl_core_find cmp (snd s) key (fst s) of
        None \<Rightarrow> None
      | Some z \<Rightarrow>
        if z = AVL_CORE_NIL then Some (None, s)
        else
          let c = snd s; out = avl_core_payload c z in
          if n_left c z \<noteq> AVL_CORE_NIL \<and> n_right c z \<noteq> AVL_CORE_NIL then
            (case subtree_min c (n_right c z) of
               None \<Rightarrow> None
             | Some x \<Rightarrow> map_option (Pair (Some out)) (unlink_node x balance (fst s, set_payload z (avl_core_payload c x) c)))
          else map_option (Pair (Some out)) (unlink_node z balance s))"

end
