(* ===== verification/Avl_Rep.thy ===== *)
theory Avl_Rep
  imports Avl_Core
begin

text \<open>
  What the node pool means: the search tree a pool holds, with each node's index and stored balance, and the
  context of a subtree on the way up to the root. The rotations of the code are the rotations of these trees.
\<close>

type_synonym shape = "(u32 \<times> int) tree"

fun ids :: "shape \<Rightarrow> u32 list" where
  "ids Leaf = []"
| "ids (Node l a r) = ids l @ fst a # ids r"

fun idx :: "shape \<Rightarrow> u32" where
  "idx Leaf = AVL_CORE_NIL"
| "idx (Node l a r) = fst a"

fun rep :: "'e AvlCore \<Rightarrow> u32 \<Rightarrow> shape \<Rightarrow> bool" where
  "rep c par Leaf \<longleftrightarrow> True"
| "rep c par (Node l (i, b) r) \<longleftrightarrow> i \<noteq> AVL_CORE_NIL \<and> n_left c i = idx l \<and> n_right c i = idx r \<and>
     n_parent c i = par \<and> n_bal c i = b \<and> rep c i l \<and> rep c i r"

text \<open>One step up: the hole is the left or the right child of a node with the other child given.\<close>

datatype frame = InL u32 int shape | InR shape u32 int

fun fidx :: "frame \<Rightarrow> u32" where
  "fidx (InL i b r) = i"
| "fidx (InR l i b) = i"

fun pidx :: "frame list \<Rightarrow> u32" where
  "pidx [] = AVL_CORE_NIL"
| "pidx (f # ctx) = fidx f"

fun fids :: "frame \<Rightarrow> u32 list" where
  "fids (InL i b r) = i # ids r"
| "fids (InR l i b) = i # ids l"

fun cids :: "frame list \<Rightarrow> u32 list" where
  "cids [] = []"
| "cids (f # ctx) = fids f @ cids ctx"

fun fill :: "frame \<Rightarrow> shape \<Rightarrow> shape" where
  "fill (InL i b r) t = Node t (i, b) r"
| "fill (InR l i b) t = Node l (i, b) t"

abbreviation plug :: "frame list \<Rightarrow> shape \<Rightarrow> shape" where "plug ctx t \<equiv> foldl (\<lambda>t f. fill f t) t ctx"

fun repf :: "'e AvlCore \<Rightarrow> u32 \<Rightarrow> u32 \<Rightarrow> frame \<Rightarrow> bool" where
  "repf c par x (InL i b r) \<longleftrightarrow> i \<noteq> AVL_CORE_NIL \<and> n_left c i = x \<and> n_right c i = idx r \<and>
     n_parent c i = par \<and> n_bal c i = b \<and> rep c i r"
| "repf c par x (InR l i b) \<longleftrightarrow> i \<noteq> AVL_CORE_NIL \<and> n_left c i = idx l \<and> n_right c i = x \<and>
     n_parent c i = par \<and> n_bal c i = b \<and> rep c i l"

fun repc :: "'e AvlCore \<Rightarrow> u32 \<Rightarrow> u32 \<Rightarrow> frame list \<Rightarrow> bool" where
  "repc c root x [] \<longleftrightarrow> root = x"
| "repc c root x (f # ctx) \<longleftrightarrow> repf c (pidx ctx) x f \<and> repc c root (fidx f) ctx"

lemma idx_fill [simp]: "idx (fill f t) = fidx f" by (cases f) simp_all

lemma rep_fill: "rep c par (fill f t) \<longleftrightarrow> repf c par (idx t) f \<and> rep c (fidx f) t"
  by (cases f) auto

lemma rep_plug: "rep c AVL_CORE_NIL (plug ctx t) \<and> root = idx (plug ctx t) \<longleftrightarrow> rep c (pidx ctx) t \<and> repc c root (idx t) ctx"
proof (induction ctx arbitrary: t)
  case (Cons f ctx)
  then show ?case by (auto simp: rep_fill)
qed auto

lemma set_ids_fill [simp]: "set (ids (fill f t)) = set (fids f) \<union> set (ids t)" by (cases f) auto

lemma distinct_fill: "distinct (ids (fill f t)) \<longleftrightarrow> distinct (fids f @ ids t)" by (cases f) auto

lemma set_ids_plug [simp]: "set (ids (plug ctx t)) = set (cids ctx) \<union> set (ids t)"
proof (induction ctx arbitrary: t)
  case (Cons f ctx)
  show ?case unfolding foldl_Cons Cons.IH set_ids_fill by auto
qed simp

lemma distinct_plug: "distinct (ids (plug ctx t)) \<longleftrightarrow> distinct (cids ctx @ ids t)"
proof (induction ctx arbitrary: t)
  case (Cons f ctx)
  have "distinct (ids (plug (f # ctx) t)) \<longleftrightarrow> distinct (cids ctx @ ids (fill f t))" using Cons.IH [of "fill f t"] by simp
  also have "\<dots> \<longleftrightarrow> distinct (cids (f # ctx) @ ids t)" unfolding distinct_append distinct_fill set_ids_fill by auto
  finally show ?case .
qed simp

section \<open>Field updates\<close>

lemma set_field [simp]:
  "n_left (set_left i v c) = (n_left c)(i := v)" "n_right (set_left i v c) = n_right c" "n_parent (set_left i v c) = n_parent c"
  "n_left (set_right i v c) = n_left c" "n_right (set_right i v c) = (n_right c)(i := v)" "n_parent (set_right i v c) = n_parent c"
  "n_left (set_parent i v c) = n_left c" "n_right (set_parent i v c) = n_right c" "n_parent (set_parent i v c) = (n_parent c)(i := v)"
  "n_left (set_bal i k c) = n_left c" "n_right (set_bal i k c) = n_right c" "n_parent (set_bal i k c) = n_parent c"
  "n_left (set_payload i e c) = n_left c" "n_right (set_payload i e c) = n_right c" "n_parent (set_payload i e c) = n_parent c"
  "n_bal (set_left i v c) = n_bal c" "n_bal (set_right i v c) = n_bal c" "n_bal (set_parent i v c) = n_bal c"
  "n_bal (set_bal i k c) = (n_bal c)(i := k)" "n_bal (set_payload i e c) = n_bal c"
  "avl_core_payload (set_left i v c) = avl_core_payload c" "avl_core_payload (set_right i v c) = avl_core_payload c"
  "avl_core_payload (set_parent i v c) = avl_core_payload c" "avl_core_payload (set_bal i k c) = avl_core_payload c"
  "avl_core_payload (set_payload i e c) = (avl_core_payload c)(i := e)"
  "av_capacity (set_left i v c) = av_capacity c" "av_capacity (set_right i v c) = av_capacity c"
  "av_capacity (set_parent i v c) = av_capacity c" "av_capacity (set_bal i k c) = av_capacity c" "av_capacity (set_payload i e c) = av_capacity c"
  "av_free_head (set_left i v c) = av_free_head c" "av_free_head (set_right i v c) = av_free_head c"
  "av_free_head (set_parent i v c) = av_free_head c" "av_free_head (set_bal i k c) = av_free_head c" "av_free_head (set_payload i e c) = av_free_head c"
  "av_count (set_left i v c) = av_count c" "av_count (set_right i v c) = av_count c"
  "av_count (set_parent i v c) = av_count c" "av_count (set_bal i k c) = av_count c" "av_count (set_payload i e c) = av_count c"
  by (simp_all add: set_left_def set_right_def set_parent_def set_bal_def set_payload_def)

text \<open>Nothing but links and balances of the named nodes differs.\<close>

definition only_links :: "u32 set \<Rightarrow> 'e AvlCore \<Rightarrow> 'e AvlCore \<Rightarrow> bool" where
  "only_links S c c' \<longleftrightarrow> (\<forall>i. i \<notin> S \<longrightarrow> n_left c' i = n_left c i \<and> n_right c' i = n_right c i \<and> n_parent c' i = n_parent c i \<and>
     n_bal c' i = n_bal c i) \<and> avl_core_payload c' = avl_core_payload c \<and> av_capacity c' = av_capacity c \<and>
     av_free_head c' = av_free_head c \<and> av_count c' = av_count c"

lemma only_linksD:
  "only_links S c c' \<Longrightarrow> i \<notin> S \<Longrightarrow> n_left c' i = n_left c i \<and> n_right c' i = n_right c i \<and> n_parent c' i = n_parent c i \<and> n_bal c' i = n_bal c i"
  "only_links S c c' \<Longrightarrow> avl_core_payload c' = avl_core_payload c \<and> av_capacity c' = av_capacity c \<and> av_free_head c' = av_free_head c \<and> av_count c' = av_count c"
  by (simp_all add: only_links_def)

lemma only_links_refl [simp]: "only_links S c c" by (simp add: only_links_def)

lemma only_links_trans: "only_links S c c' \<Longrightarrow> only_links T c' c'' \<Longrightarrow> S \<union> T \<subseteq> U \<Longrightarrow> only_links U c c''"
  unfolding only_links_def by (metis UnCI subsetD)

lemma only_links_set [simp]:
  "only_links S c (set_left i v c') \<longleftrightarrow> only_links S c c'" "only_links S c (set_right i v c') \<longleftrightarrow> only_links S c c'"
  "only_links S c (set_parent i v c') \<longleftrightarrow> only_links S c c'" "only_links S c (set_bal i k c') \<longleftrightarrow> only_links S c c'" if "i \<in> S"
  using that by (auto simp: only_links_def)

lemma rep_cong:
  "(\<And>i. i \<in> set (ids t) \<Longrightarrow> n_left c' i = n_left c i \<and> n_right c' i = n_right c i \<and> n_parent c' i = n_parent c i \<and> n_bal c' i = n_bal c i)
   \<Longrightarrow> rep c' par t = rep c par t"
proof (induction t arbitrary: par)
  case (Node l a r)
  then show ?case by (cases a) auto
qed simp

lemma rep_move:
  assumes "rep c par t" "distinct (ids t)"
    and "\<And>i. i \<in> set (ids t) \<Longrightarrow> n_left c' i = n_left c i \<and> n_right c' i = n_right c i \<and> n_bal c' i = n_bal c i"
    and "\<And>i. i \<in> set (ids t) \<Longrightarrow> i \<noteq> idx t \<Longrightarrow> n_parent c' i = n_parent c i"
    and "t \<noteq> Leaf \<Longrightarrow> n_parent c' (idx t) = q"
  shows "rep c' q t"
proof (cases t)
  case (Node l a r)
  obtain i b where a: "a = (i, b)" by force
  have "rep c' i l = rep c i l" "rep c' i r = rep c i r"
    using assms(2-4) unfolding Node a by (intro rep_cong; force)+
  then show ?thesis using assms(1,3,5) unfolding Node a by simp
qed simp

lemma repf_cong:
  "(\<And>i. i \<in> set (fids f) \<Longrightarrow> n_left c' i = n_left c i \<and> n_right c' i = n_right c i \<and> n_parent c' i = n_parent c i \<and> n_bal c' i = n_bal c i)
   \<Longrightarrow> repf c' par x f = repf c par x f"
  using rep_cong [of _ c' c] by (cases f) auto

lemma repc_cong:
  "(\<And>i. i \<in> set (cids ctx) \<Longrightarrow> n_left c' i = n_left c i \<and> n_right c' i = n_right c i \<and> n_parent c' i = n_parent c i \<and> n_bal c' i = n_bal c i)
   \<Longrightarrow> repc c' root x ctx = repc c root x ctx"
proof (induction ctx arbitrary: x)
  case (Cons f ctx)
  have "repf c' (pidx ctx) x f = repf c (pidx ctx) x f" by (rule repf_cong) (use Cons.prems in auto)
  then show ?case using Cons.IH Cons.prems by auto
qed simp

lemma only_links_rep: "only_links S c c' \<Longrightarrow> S \<inter> set (ids t) = {} \<Longrightarrow> rep c' par t = rep c par t"
  by (rule rep_cong) (auto dest: only_linksD(1))

lemma only_links_repc: "only_links S c c' \<Longrightarrow> S \<inter> set (cids ctx) = {} \<Longrightarrow> repc c' root x ctx = repc c root x ctx"
  by (rule repc_cong) (metis only_linksD(1) disjoint_iff)

lemma rep_no_nil: "rep c par t \<Longrightarrow> AVL_CORE_NIL \<notin> set (ids t)"
proof (induction t arbitrary: par)
  case (Node l a r)
  then show ?case by (cases a) auto
qed simp

lemma repc_no_nil: "repc c root x ctx \<Longrightarrow> AVL_CORE_NIL \<notin> set (cids ctx)"
proof (induction ctx arbitrary: x)
  case (Cons f ctx)
  have "AVL_CORE_NIL \<notin> set (fids f)" using Cons.prems by (cases f) (auto dest: rep_no_nil)
  then show ?case using Cons by auto
qed simp

lemma idx_in: "t \<noteq> Leaf \<Longrightarrow> idx t \<in> set (ids t)" by (cases t) auto

lemma idx_nil: "rep c par t \<Longrightarrow> idx t = AVL_CORE_NIL \<longleftrightarrow> t = Leaf"
  by (cases t) auto

lemma fidx_in [simp]: "fidx f \<in> set (fids f)" by (cases f) auto

lemma pidx_in: "ctx \<noteq> [] \<Longrightarrow> pidx ctx \<in> set (cids ctx)" by (cases ctx) auto

lemma pidx_nil: "repc c root x ctx \<Longrightarrow> pidx ctx = AVL_CORE_NIL \<longleftrightarrow> ctx = []"
  using pidx_in [of ctx] repc_no_nil [of c root x ctx] by (cases "ctx = []") auto

section \<open>Replacing a child\<close>

lemma replace_child_rep:
  assumes "repc c root old ctx" "distinct (cids ctx)" "old \<noteq> AVL_CORE_NIL" "old \<notin> set (cids ctx)" "neu \<notin> set (cids ctx)"
    and "replace_child (pidx ctx) old neu (root, c) = (root', c')"
  shows "repc c' root' neu ctx" "\<And>i. i \<notin> set (cids ctx) \<Longrightarrow> n_left c' i = n_left c i \<and> n_right c' i = n_right c i"
    "n_parent c' = (if neu = AVL_CORE_NIL then n_parent c else (n_parent c)(neu := pidx ctx))" "n_bal c' = n_bal c"
    "only_links (insert neu (set (cids ctx))) c c'"
proof -
  define d where "d = (if ctx = [] then c else if n_left c (pidx ctx) = old then set_left (pidx ctx) neu c else set_right (pidx ctx) neu c)"
  have c': "c' = (if neu \<noteq> AVL_CORE_NIL then set_parent neu (pidx ctx) d else d)" "root' = (if ctx = [] then neu else root)"
    using assms(6) pidx_nil [OF assms(1)] by (auto simp: replace_child_def d_def split: if_splits)
  have "repc d root' neu ctx"
  proof (cases ctx)
    case (Cons f fs)
    have dist: "fidx f \<notin> set (cids fs)" "distinct (fids f)" using assms(2) fidx_in [of f] unfolding Cons by (auto simp del: fidx_in)
    have test: "n_left c (fidx f) = old \<longleftrightarrow> (\<exists>i b r. f = InL i b r)"
    proof (cases f)
      case (InR l i b)
      have "idx l \<noteq> old" using assms(3,4) idx_in [of l] unfolding Cons InR by (cases "l = Leaf") auto
      then show ?thesis using assms(1) unfolding Cons InR by simp
    qed (use assms(1) Cons in simp)
    have d: "d = (if n_left c (fidx f) = old then set_left (fidx f) neu c else set_right (fidx f) neu c)" by (simp add: d_def Cons)
    have up: "repc d root (fidx f) fs = repc c root (fidx f) fs" by (rule repc_cong) (use dist in \<open>auto simp: d\<close>)
    have "repf d (pidx fs) neu f"
    proof (cases f)
      case (InL i b r)
      have "rep d i r = rep c i r" by (rule rep_cong) (use dist InL d in auto)
      then show ?thesis using assms(1) test d unfolding Cons InL by auto
    next
      case (InR l i b)
      have "rep d i l = rep c i l" by (rule rep_cong) (use dist InR d in auto)
      then show ?thesis using assms(1) test d unfolding Cons InR by auto
    qed
    then show ?thesis using up assms(1) c'(2) unfolding Cons by simp
  qed (use c'(2) in simp)
  moreover have "repc c' root' neu ctx = repc d root' neu ctx"
    by (rule repc_cong) (use assms(5) in \<open>auto simp: c'(1)\<close>)
  ultimately show "repc c' root' neu ctx" by simp
  show "n_left c' i = n_left c i \<and> n_right c' i = n_right c i" if "i \<notin> set (cids ctx)" for i
  proof (cases "ctx = []")
    case False
    then have "i \<noteq> pidx ctx" using pidx_in that by metis
    then show ?thesis by (simp add: c'(1) d_def)
  qed (simp add: c'(1) d_def)
  show "n_parent c' = (if neu = AVL_CORE_NIL then n_parent c else (n_parent c)(neu := pidx ctx))" "n_bal c' = n_bal c"
    by (simp_all add: c'(1) d_def)
  define S where "S = insert neu (set (cids ctx))"
  have "neu \<in> S" "ctx \<noteq> [] \<Longrightarrow> pidx ctx \<in> S" using pidx_in by (simp_all add: S_def)
  then show "only_links (insert neu (set (cids ctx))) c c'" unfolding S_def [symmetric] by (cases "ctx = []") (simp_all add: c'(1) d_def)
qed

section \<open>Rotations\<close>

text \<open>A rotation before the balances are set: the three steps the two single rotations share.\<close>

lemma rotate_left_rep:
  assumes "rep c (pidx ctx) (Node ta (x, bx) (Node tb (y, b) tc))" "repc c root x ctx"
    and "distinct (ids (Node ta (x, bx) (Node tb (y, b) tc)) @ cids ctx)" and "rotate_left x (root, c) = (y', root', c')"
  shows "y' = y" "rep c' (pidx ctx) (Node (Node ta (x, if b = 0 then 1 else 0) tb) (y, if b = 0 then -1 else 0) tc)"
    "repc c' root' y ctx" "only_links (set (ids (Node ta (x, bx) (Node tb (y, b) tc)) @ cids ctx)) c c'"
proof -
  define d where "d = set_parent x y (set_left y x (if idx tb \<noteq> AVL_CORE_NIL then set_parent (idx tb) x (set_right x (idx tb) c) else set_right x (idx tb) c))"
  obtain root1 e where rc: "replace_child (pidx ctx) x y (root, d) = (root1, e)" by force
  define e' where "e' = (if b = 0 then set_bal y (-1) (set_bal x 1 e) else set_bal y 0 (set_bal x 0 e))"
  have f: "n_right c x = y" "n_parent c x = pidx ctx" "n_left c y = idx tb" "n_right c y = idx tc" "n_bal c y = b" "n_left c x = idx ta"
    "x \<noteq> AVL_CORE_NIL" "y \<noteq> AVL_CORE_NIL" "rep c x ta" "rep c y tb" "rep c y tc" using assms(1) by auto
  have i: "idx tb \<noteq> AVL_CORE_NIL \<longleftrightarrow> tb \<noteq> Leaf" "tb \<noteq> Leaf \<Longrightarrow> idx tb \<in> set (ids tb)" using idx_nil [OF f(10)] idx_in by auto
  have ds: "x \<noteq> y" "distinct (ids tb)" "distinct (cids ctx)" "x \<notin> set (ids ta) \<union> set (ids tb) \<union> set (ids tc) \<union> set (cids ctx)"
    "y \<notin> set (ids ta) \<union> set (ids tb) \<union> set (ids tc) \<union> set (cids ctx)" "set (ids tb) \<inter> (set (ids ta) \<union> set (ids tc) \<union> set (cids ctx)) = {}"
    "set (cids ctx) \<inter> (set (ids ta) \<union> set (ids tc)) = {}"
    using assms(3) by auto
  have "repc d root x ctx = repc c root x ctx" by (rule repc_cong) (use ds i in \<open>auto simp: d_def\<close>)
  note r = replace_child_rep [OF this [THEN iffD2, OF assms(2)] ds(3) f(7) _ _ rc]
  have xc: "x \<notin> set (cids ctx)" "y \<notin> set (cids ctx)" using ds by auto
  note r = r [OF xc]
  have bal: "n_bal e y = b" using r(4) f(5) by (simp add: d_def)
  have "rotate_left x (root, c) = (y, root1, e')"
    unfolding rotate_left_def prod.case Let_def f(1,2,3) d_def [symmetric] rc bal e'_def ..
  then have res: "y' = y" "root' = root1" "c' = e'" using assms(4) by simp_all
  show "y' = y" by (rule res(1))
  have par: "n_parent e' = (n_parent d)(y := pidx ctx)" using r(3) f(8) by (simp add: e'_def)
  have lr: "n_left e' i = n_left d i \<and> n_right e' i = n_right d i" if "i \<notin> set (cids ctx)" for i using r(2) [OF that] by (simp add: e'_def)
  have bl: "n_bal e' = (n_bal c)(x := if b = 0 then 1 else 0, y := if b = 0 then -1 else 0)" using r(4) by (simp add: e'_def d_def)
  define T where "T = insert x (insert y (set (ids tb) \<union> set (cids ctx)))"
  have "only_links T c d" using i by (auto simp: d_def T_def)
  then have "only_links T c e" by (rule only_links_trans [OF _ r(5)]) (auto simp: T_def)
  then have T: "only_links T c e'" by (simp add: e'_def T_def)
  have "rep e' x ta" "rep e' y tc" by (subst only_links_rep [OF T]; use f ds in \<open>auto simp: T_def\<close>)+
  moreover have "rep e' x tb"
  proof (rule rep_move [OF f(10) ds(2)])
    fix j assume j: "j \<in> set (ids tb)"
    then have n: "j \<noteq> x" "j \<noteq> y" "j \<notin> set (cids ctx)" using ds(4-6) by blast+
    show "n_left e' j = n_left c j \<and> n_right e' j = n_right c j \<and> n_bal e' j = n_bal c j" using n lr [OF n(3)] by (simp add: bl d_def)
    show "j \<noteq> idx tb \<Longrightarrow> n_parent e' j = n_parent c j" using n by (simp add: par d_def)
  next
    assume "tb \<noteq> Leaf"
    then have n: "idx tb \<noteq> AVL_CORE_NIL" "idx tb \<noteq> x" "idx tb \<noteq> y" using i ds(4,5) by blast+
    then show "n_parent e' (idx tb) = x" by (simp add: par d_def)
  qed
  ultimately show "rep c' (pidx ctx) (Node (Node ta (x, if b = 0 then 1 else 0) tb) (y, if b = 0 then -1 else 0) tc)"
    using f(2,4-8) ds(1) lr [OF xc(1)] lr [OF xc(2)] unfolding res by (simp add: par bl d_def)
  have "repc e' root1 y ctx = repc e root1 y ctx" by (rule repc_cong) (use xc in \<open>auto simp: e'_def\<close>)
  then show "repc c' root' y ctx" using r(1) unfolding res by simp
  show "only_links (set (ids (Node ta (x, bx) (Node tb (y, b) tc)) @ cids ctx)) c c'"
    unfolding res by (rule only_links_trans [OF T only_links_refl [of "{}"]]) (auto simp: T_def)
qed

lemma rotate_right_rep:
  assumes "rep c (pidx ctx) (Node (Node tc (y, b) tb) (x, bx) ta)" "repc c root x ctx"
    and "distinct (ids (Node (Node tc (y, b) tb) (x, bx) ta) @ cids ctx)" and "rotate_right x (root, c) = (y', root', c')"
  shows "y' = y" "rep c' (pidx ctx) (Node tc (y, if b = 0 then 1 else 0) (Node tb (x, if b = 0 then -1 else 0) ta))"
    "repc c' root' y ctx" "only_links (set (ids (Node (Node tc (y, b) tb) (x, bx) ta) @ cids ctx)) c c'"
proof -
  define d where "d = set_parent x y (set_right y x (if idx tb \<noteq> AVL_CORE_NIL then set_parent (idx tb) x (set_left x (idx tb) c) else set_left x (idx tb) c))"
  obtain root1 e where rc: "replace_child (pidx ctx) x y (root, d) = (root1, e)" by force
  define e' where "e' = (if b = 0 then set_bal y 1 (set_bal x (-1) e) else set_bal y 0 (set_bal x 0 e))"
  have f: "n_left c x = y" "n_parent c x = pidx ctx" "n_right c y = idx tb" "n_left c y = idx tc" "n_bal c y = b" "n_right c x = idx ta"
    "x \<noteq> AVL_CORE_NIL" "y \<noteq> AVL_CORE_NIL" "rep c x ta" "rep c y tb" "rep c y tc" using assms(1) by auto
  have i: "idx tb \<noteq> AVL_CORE_NIL \<longleftrightarrow> tb \<noteq> Leaf" "tb \<noteq> Leaf \<Longrightarrow> idx tb \<in> set (ids tb)" using idx_nil [OF f(10)] idx_in by auto
  have ds: "x \<noteq> y" "distinct (ids tb)" "distinct (cids ctx)" "x \<notin> set (ids ta) \<union> set (ids tb) \<union> set (ids tc) \<union> set (cids ctx)"
    "y \<notin> set (ids ta) \<union> set (ids tb) \<union> set (ids tc) \<union> set (cids ctx)" "set (ids tb) \<inter> (set (ids ta) \<union> set (ids tc) \<union> set (cids ctx)) = {}"
    "set (cids ctx) \<inter> (set (ids ta) \<union> set (ids tc)) = {}"
    using assms(3) by auto
  have "repc d root x ctx = repc c root x ctx" by (rule repc_cong) (use ds i in \<open>auto simp: d_def\<close>)
  note r = replace_child_rep [OF this [THEN iffD2, OF assms(2)] ds(3) f(7) _ _ rc]
  have xc: "x \<notin> set (cids ctx)" "y \<notin> set (cids ctx)" using ds by auto
  note r = r [OF xc]
  have bal: "n_bal e y = b" using r(4) f(5) by (simp add: d_def)
  have "rotate_right x (root, c) = (y, root1, e')"
    unfolding rotate_right_def prod.case Let_def f(1,2,3) d_def [symmetric] rc bal e'_def ..
  then have res: "y' = y" "root' = root1" "c' = e'" using assms(4) by simp_all
  show "y' = y" by (rule res(1))
  have par: "n_parent e' = (n_parent d)(y := pidx ctx)" using r(3) f(8) by (simp add: e'_def)
  have lr: "n_right e' i = n_right d i \<and> n_left e' i = n_left d i" if "i \<notin> set (cids ctx)" for i using r(2) [OF that] by (simp add: e'_def)
  have bl: "n_bal e' = (n_bal c)(x := if b = 0 then -1 else 0, y := if b = 0 then 1 else 0)" using r(4) by (simp add: e'_def d_def)
  define T where "T = insert x (insert y (set (ids tb) \<union> set (cids ctx)))"
  have "only_links T c d" using i by (auto simp: d_def T_def)
  then have "only_links T c e" by (rule only_links_trans [OF _ r(5)]) (auto simp: T_def)
  then have T: "only_links T c e'" by (simp add: e'_def T_def)
  have "rep e' x ta" "rep e' y tc" by (subst only_links_rep [OF T]; use f ds in \<open>auto simp: T_def\<close>)+
  moreover have "rep e' x tb"
  proof (rule rep_move [OF f(10) ds(2)])
    fix j assume j: "j \<in> set (ids tb)"
    then have n: "j \<noteq> x" "j \<noteq> y" "j \<notin> set (cids ctx)" using ds(4-6) by blast+
    show "n_left e' j = n_left c j \<and> n_right e' j = n_right c j \<and> n_bal e' j = n_bal c j" using n lr [OF n(3)] by (simp add: bl d_def)
    show "j \<noteq> idx tb \<Longrightarrow> n_parent e' j = n_parent c j" using n by (simp add: par d_def)
  next
    assume "tb \<noteq> Leaf"
    then have n: "idx tb \<noteq> AVL_CORE_NIL" "idx tb \<noteq> x" "idx tb \<noteq> y" using i ds(4,5) by blast+
    then show "n_parent e' (idx tb) = x" by (simp add: par d_def)
  qed
  ultimately show "rep c' (pidx ctx) (Node tc (y, if b = 0 then 1 else 0) (Node tb (x, if b = 0 then -1 else 0) ta))"
    using f(2,4-8) ds(1) lr [OF xc(1)] lr [OF xc(2)] unfolding res by (simp add: par bl d_def)
  have "repc e' root1 y ctx = repc e root1 y ctx" by (rule repc_cong) (use xc in \<open>auto simp: e'_def\<close>)
  then show "repc c' root' y ctx" using r(1) unfolding res by simp
  show "only_links (set (ids (Node (Node tc (y, b) tb) (x, bx) ta) @ cids ctx)) c c'"
    unfolding res by (rule only_links_trans [OF T only_links_refl [of "{}"]]) (auto simp: T_def)
qed


text \<open>Setting a stored balance where the node is known.\<close>

lemma set_bal_top:
  assumes "rep c par (Node l (x, b) r)" "x \<notin> set (ids l) \<union> set (ids r)"
  shows "rep (set_bal x k c) par (Node l (x, k) r)"
proof -
  have "rep (set_bal x k c) x l = rep c x l" "rep (set_bal x k c) x r = rep c x r" using assms(2) by (intro rep_cong; auto)+
  then show ?thesis using assms(1) by simp
qed

lemma set_bal_repc: "x \<notin> set (cids ctx) \<Longrightarrow> repc (set_bal x k c) root y ctx = repc c root y ctx"
  by (rule repc_cong) auto

text \<open>The two single rotations of a double one meet in the same shape, with the balances set at the end.\<close>

lemma set_three_bals:
  assumes "rep c par (Node (Node ta (z, bz) tb) (y, by) (Node tc (x, bx) td))" "repc c root y ctx"
    and "distinct (ids (Node (Node ta (z, bz) tb) (y, by) (Node tc (x, bx) td)) @ cids ctx)"
    and "c' = set_bal y 0 (set_bal x kx (set_bal z kz c))"
  shows "rep c' par (Node (Node ta (z, kz) tb) (y, 0) (Node tc (x, kx) td))" "repc c' root y ctx"
    "only_links {x, y, z} c c'"
proof -
  have ol: "only_links {x, y, z} c c'" by (simp add: assms(4))
  then show "only_links {x, y, z} c c'" .
  have ne: "x \<noteq> y" "z \<noteq> y" "z \<noteq> x" using assms(3) by auto
  have "{x, y, z} \<inter> set (ids t) = {}" if "t \<in> {ta, tb, tc, td}" for t using assms(3) that by auto
  then have "rep c' p t = rep c p t" if "t \<in> {ta, tb, tc, td}" for p t using only_links_rep [OF ol] that by blast
  then show "rep c' par (Node (Node ta (z, kz) tb) (y, 0) (Node tc (x, kx) td))"
    using assms(1) ne by (simp add: assms(4))
  have "{x, y, z} \<inter> set (cids ctx) = {}" using assms(3) by auto
  then show "repc c' root y ctx" using only_links_repc [OF ol] assms(2) by blast
qed

lemma rotate_left_right_rep:
  assumes "rep c (pidx ctx) (Node (Node ta (z, bz) (Node tb (y, b) tc)) (x, bx) td)" "repc c root x ctx"
    and "distinct (ids (Node (Node ta (z, bz) (Node tb (y, b) tc)) (x, bx) td) @ cids ctx)"
    and "rotate_left_right x (root, c) = (y', root', c')"
  shows "y' = y"
    "rep c' (pidx ctx) (Node (Node ta (z, if b > 0 then -1 else 0) tb) (y, 0) (Node tc (x, if b < 0 then 1 else 0) td))"
    "repc c' root' y ctx" "only_links (set (ids (Node (Node ta (z, bz) (Node tb (y, b) tc)) (x, bx) td) @ cids ctx)) c c'"
proof -
  let ?S = "set (ids (Node (Node ta (z, bz) (Node tb (y, b) tc)) (x, bx) td) @ cids ctx)"
  have f: "n_left c x = z" "n_right c z = y" "n_bal c y = b" using assms(1) by auto
  let ?ctx = "InL x bx td # ctx"
  have r0: "rep c (pidx ?ctx) (Node ta (z, bz) (Node tb (y, b) tc))" "repc c root z ?ctx" using assms(1,2) by auto
  have d0: "distinct (ids (Node ta (z, bz) (Node tb (y, b) tc)) @ cids ?ctx)" using assms(3) by auto
  obtain y1 root1 c1 where l: "rotate_left z (root, c) = (y1, root1, c1)" by (metis prod_cases3)
  note r1 = rotate_left_rep [OF r0 d0 l]
  let ?k = "if b = 0 then - 1 else 0 :: int"
  have r1': "rep c1 (pidx ctx) (Node (Node (Node ta (z, if b = 0 then 1 else 0) tb) (y, ?k) tc) (x, bx) td)" "repc c1 root1 x ctx"
    using r1(2,3) by auto
  have d1: "distinct (ids (Node (Node (Node ta (z, if b = 0 then 1 else 0) tb) (y, ?k) tc) (x, bx) td) @ cids ctx)" using assms(3) by auto
  obtain y2 root2 c2 where r: "rotate_right x (root1, c1) = (y2, root2, c2)" by (metis prod_cases3)
  note r2 = rotate_right_rep [OF r1' d1 r]
  define c3 where "c3 = set_bal y 0 (set_bal x (if b < 0 then 1 else 0) (set_bal z (if b > 0 then -1 else 0) c2))"
  have res: "y' = y" "root' = root2" "c' = c3"
    using assms(4) l r r2(1) unfolding rotate_left_right_def prod.case Let_def f by (auto simp: c3_def split: if_splits)
  have d2: "distinct (ids (Node (Node ta (z, if b = 0 then 1 else 0) tb) (y, if ?k = 0 then 1 else 0) (Node tc (x, if ?k = 0 then - 1 else 0) td)) @ cids ctx)"
    using assms(3) by auto
  note r3 = set_three_bals [OF r2(2,3) d2 c3_def]
  show "y' = y" by (rule res(1))
  show "rep c' (pidx ctx) (Node (Node ta (z, if b > 0 then -1 else 0) tb) (y, 0) (Node tc (x, if b < 0 then 1 else 0) td))" "repc c' root' y ctx"
    unfolding res by (rule r3(1,2))+
  have "only_links ?S c c1" by (rule only_links_trans [OF r1(4) only_links_refl [of "{}"]]) auto
  then have "only_links ?S c c2" by (rule only_links_trans [OF _ r2(4)]) auto
  then show "only_links ?S c c'" unfolding res by (rule only_links_trans [OF _ r3(3)]) auto
qed

lemma rotate_right_left_rep:
  assumes "rep c (pidx ctx) (Node td (x, bx) (Node (Node tc (y, b) tb) (z, bz) ta))" "repc c root x ctx"
    and "distinct (ids (Node td (x, bx) (Node (Node tc (y, b) tb) (z, bz) ta)) @ cids ctx)"
    and "rotate_right_left x (root, c) = (y', root', c')"
  shows "y' = y"
    "rep c' (pidx ctx) (Node (Node td (x, if b > 0 then -1 else 0) tc) (y, 0) (Node tb (z, if b < 0 then 1 else 0) ta))"
    "repc c' root' y ctx" "only_links (set (ids (Node td (x, bx) (Node (Node tc (y, b) tb) (z, bz) ta)) @ cids ctx)) c c'"
proof -
  let ?S = "set (ids (Node td (x, bx) (Node (Node tc (y, b) tb) (z, bz) ta)) @ cids ctx)"
  have f: "n_right c x = z" "n_left c z = y" "n_bal c y = b" using assms(1) by auto
  let ?ctx = "InR td x bx # ctx"
  have r0: "rep c (pidx ?ctx) (Node (Node tc (y, b) tb) (z, bz) ta)" "repc c root z ?ctx" using assms(1,2) by auto
  have d0: "distinct (ids (Node (Node tc (y, b) tb) (z, bz) ta) @ cids ?ctx)" using assms(3) by auto
  obtain y1 root1 c1 where l: "rotate_right z (root, c) = (y1, root1, c1)" by (metis prod_cases3)
  note r1 = rotate_right_rep [OF r0 d0 l]
  let ?k = "if b = 0 then 1 else 0 :: int"
  have r1': "rep c1 (pidx ctx) (Node td (x, bx) (Node tc (y, ?k) (Node tb (z, if b = 0 then - 1 else 0) ta)))" "repc c1 root1 x ctx"
    using r1(2,3) by auto
  have d1: "distinct (ids (Node td (x, bx) (Node tc (y, ?k) (Node tb (z, if b = 0 then - 1 else 0) ta))) @ cids ctx)" using assms(3) by auto
  obtain y2 root2 c2 where r: "rotate_left x (root1, c1) = (y2, root2, c2)" by (metis prod_cases3)
  note r2 = rotate_left_rep [OF r1' d1 r]
  define c3 where "c3 = set_bal y 0 (set_bal z (if b < 0 then 1 else 0) (set_bal x (if b > 0 then -1 else 0) c2))"
  have "x \<noteq> z" using assms(3) by auto
  then have res: "y' = y" "root' = root2" "c' = c3"
    using assms(4) l r r2(1) unfolding rotate_right_left_def prod.case Let_def f
    by (auto simp: c3_def set_bal_def fun_upd_twist split: if_splits)
  have d2: "distinct (ids (Node (Node td (x, if ?k = 0 then 1 else 0) tc) (y, if ?k = 0 then - 1 else 0) (Node tb (z, if b = 0 then - 1 else 0) ta)) @ cids ctx)"
    using assms(3) by auto
  note r3 = set_three_bals [OF r2(2,3) d2 c3_def]
  show "y' = y" by (rule res(1))
  show "rep c' (pidx ctx) (Node (Node td (x, if b > 0 then -1 else 0) tc) (y, 0) (Node tb (z, if b < 0 then 1 else 0) ta))" "repc c' root' y ctx"
    unfolding res by (rule r3(1,2))+
  have "only_links ?S c c1" by (rule only_links_trans [OF r1(4) only_links_refl [of "{}"]]) auto
  then have "only_links ?S c c2" by (rule only_links_trans [OF _ r2(4)]) auto
  then show "only_links ?S c c'" unfolding res by (rule only_links_trans [OF _ r3(3)]) auto
qed

end
