(* ===== verification/Avl_Balance.thy ===== *)
theory Avl_Balance
  imports Avl_Rep
begin

text \<open>
  The balance invariant and the two retracing loops: started below a subtree that grew or shrank by one, each
  ends with a balanced tree of the same nodes in the same order.
\<close>

section \<open>The invariant\<close>

fun avl :: "shape \<Rightarrow> bool" where
  "avl Leaf \<longleftrightarrow> True"
| "avl (Node l (i, b) r) \<longleftrightarrow> b = int (height r) - int (height l) \<and> \<bar>b\<bar> \<le> 1 \<and> avl l \<and> avl r"

fun avlc :: "nat \<Rightarrow> frame list \<Rightarrow> bool" where
  "avlc h [] \<longleftrightarrow> True"
| "avlc h (InL i b r # ctx) \<longleftrightarrow> b = int (height r) - int h \<and> \<bar>b\<bar> \<le> 1 \<and> avl r \<and> avlc (max h (height r) + 1) ctx"
| "avlc h (InR l i b # ctx) \<longleftrightarrow> b = int h - int (height l) \<and> \<bar>b\<bar> \<le> 1 \<and> avl l \<and> avlc (max (height l) h + 1) ctx"

lemma avl_plug: "avl (plug ctx t) \<longleftrightarrow> avl t \<and> avlc (height t) ctx"
proof (induction ctx arbitrary: t)
  case (Cons f ctx)
  then show ?case by (cases f) auto
qed simp

fun lids :: "frame list \<Rightarrow> u32 list" where
  "lids [] = []"
| "lids (InL i b r # ctx) = lids ctx"
| "lids (InR l i b # ctx) = lids ctx @ ids l @ [i]"

fun rids :: "frame list \<Rightarrow> u32 list" where
  "rids [] = []"
| "rids (InL i b r # ctx) = i # ids r @ rids ctx"
| "rids (InR l i b # ctx) = rids ctx"

lemma ids_plug: "ids (plug ctx t) = lids ctx @ ids t @ rids ctx"
proof (induction ctx arbitrary: t)
  case (Cons f ctx)
  then show ?case by (cases f) auto
qed simp

text \<open>The height stays logarithmic.\<close>

lemma avl_height: "avl t \<Longrightarrow> 2 ^ (height t div 2) \<le> size t + 1"
proof (induction "height t" arbitrary: t rule: less_induct)
  case less
  show ?case
  proof (cases t)
    case (Node l a r)
    obtain i b where a: "a = (i, b)" by force
    let ?h = "max (height l) (height r)"
    have av: "avl l" "avl r" "\<bar>int (height r) - int (height l)\<bar> \<le> 1" using less.prems unfolding Node a by auto
    have ih: "2 ^ (height l div 2) \<le> size l + 1" "2 ^ (height r div 2) \<le> size r + 1"
      using less.hyps [OF _ av(1)] less.hyps [OF _ av(2)] by (simp_all add: Node a)
    have d: "(?h + 1) div 2 \<le> Suc (height l div 2)" "(?h + 1) div 2 \<le> Suc (height r div 2)" using av(3) by linarith+
    have "2 * 2 ^ ((?h + 1) div 2) \<le> 2 * (2 ^ (height l div 2) + (2 :: nat) ^ (height r div 2))"
      using power_increasing [OF d(1), of "2 :: nat"] power_increasing [OF d(2), of "2 :: nat"] by simp
    then show ?thesis using ih by (simp add: Node a max.commute)
  qed simp
qed

section \<open>After an insertion\<close>

text \<open>What a retracing call ends with: a balanced tree with the same nodes in order, changed in its links only.\<close>

definition retraced :: "(u32 \<times> 'e AvlCore) option \<Rightarrow> u32 list \<Rightarrow> u32 set \<Rightarrow> 'e AvlCore \<Rightarrow> bool" where
  "retraced res is S c \<longleftrightarrow> (\<exists>root' c' t'. res = Some (root', c') \<and> rep c' AVL_CORE_NIL t' \<and> root' = idx t' \<and> avl t' \<and>
     ids t' = is \<and> only_links S c c')"

lemma retraced_done:
  assumes "rep c' (pidx ctx) t'" "repc c' root' (idx t') ctx" "avl t'" "avlc (height t') ctx" "ids t' = ids t"
    "only_links S c c'" "res = Some (root', c')"
  shows "retraced res (ids (plug ctx t)) S c"
  unfolding retraced_def
proof (intro exI conjI)
  show "rep c' AVL_CORE_NIL (plug ctx t')" "root' = idx (plug ctx t')" using rep_plug [where c = c' and ctx = ctx and t = t' and root = root'] assms(1,2) by blast+
  show "avl (plug ctx t')" using assms(3,4) by (simp add: avl_plug)
  show "ids (plug ctx t') = ids (plug ctx t)" using assms(5) by (simp add: ids_plug)
qed (rule assms)+

lemma retraced_more: "retraced res is T c' \<Longrightarrow> only_links S c c' \<Longrightarrow> S \<union> T \<subseteq> U \<Longrightarrow> retraced res is U c"
  unfolding retraced_def using only_links_trans by blast

lemma right_is_not_left:
  assumes "rep c p r" "t \<noteq> Leaf" "distinct (ids t @ ids r)" "idx t \<noteq> AVL_CORE_NIL"
  shows "idx t \<noteq> idx r"
  using assms idx_in [OF assms(2)] idx_in [of r] idx_nil [OF assms(1)] by (cases "r = Leaf") auto

lemma tree_parts:
  assumes "avl t" "height t = Suc h" obtains l i b r where "t = Node l (i, b) r" "b = int (height r) - int (height l)"
    "\<bar>b\<bar> \<le> 1" "avl l" "avl r" "max (height l) (height r) = h"
  using assms by (cases t) auto

text \<open>The rotations on the trees: what each does to balance and height when one side is two higher.\<close>

lemma rotate_right_avl:
  fixes p :: u32
  assumes "avl (Node ta (n, b) tr)" "avl r" "height (Node ta (n, b) tr) = height r + 2" "b \<le> 0"
  defines "t' \<equiv> Node ta (n, if b = 0 then 1 else 0) (Node tr (p, if b = 0 then - 1 else 0) r)"
  shows "avl t' \<and> height t' = height r + (if b = 0 then 3 else 2)"
proof (cases "b = 0")
  case True
  then have "height ta = height r + 1" "height tr = height r + 1" using assms(1,3) by auto
  then show ?thesis using True assms(1,2) by (simp add: t'_def)
next
  case False
  then have "height ta = height r + 1" "height tr = height r" using assms(1,3,4) by auto
  then show ?thesis using False assms(1,2) by (simp add: t'_def)
qed

lemma rotate_left_avl:
  fixes p :: u32
  assumes "avl (Node ta (n, b) tr)" "avl r" "height (Node ta (n, b) tr) = height r + 2" "0 \<le> b"
  defines "t' \<equiv> Node (Node r (p, if b = 0 then 1 else 0) ta) (n, if b = 0 then - 1 else 0) tr"
  shows "avl t' \<and> height t' = height r + (if b = 0 then 3 else 2)"
proof (cases "b = 0")
  case True
  then have "height ta = height r + 1" "height tr = height r + 1" using assms(1,3) by auto
  then show ?thesis using True assms(1,2) by (simp add: t'_def)
next
  case False
  then have "height tr = height r + 1" "height ta = height r" using assms(1,3,4) by auto
  then show ?thesis using False assms(1,2) by (simp add: t'_def)
qed

lemma rotate_left_right_avl:
  fixes p :: u32
  assumes "avl (Node ta (n, b) (Node tb (y, yb) tc))" "avl r" "height (Node ta (n, b) (Node tb (y, yb) tc)) = height r + 2" "0 < b"
  defines "t' \<equiv> Node (Node ta (n, if yb > 0 then - 1 else 0) tb) (y, 0) (Node tc (p, if yb < 0 then 1 else 0) r)"
  shows "avl t' \<and> height t' = height r + 2"
proof -
  have h: "height ta = height r" "max (height tb) (height tc) = height r" using assms(1,3,4) by auto
  have "yb = int (height tc) - int (height tb)" "\<bar>yb\<bar> \<le> 1" "avl ta" "avl tb" "avl tc" using assms(1) by auto
  then show ?thesis using h assms(2) by (auto simp: t'_def)
qed

lemma rotate_right_left_avl:
  fixes p :: u32
  assumes "avl (Node (Node tc (y, yb) tb) (n, b) tr)" "avl r" "height (Node (Node tc (y, yb) tb) (n, b) tr) = height r + 2" "b < 0"
  defines "t' \<equiv> Node (Node r (p, if yb > 0 then - 1 else 0) tc) (y, 0) (Node tb (n, if yb < 0 then 1 else 0) tr)"
  shows "avl t' \<and> height t' = height r + 2"
proof -
  have h: "height tr = height r" "max (height tc) (height tb) = height r" using assms(1,3,4) by auto
  have "yb = int (height tb) - int (height tc)" "\<bar>yb\<bar> \<le> 1" "avl tr" "avl tb" "avl tc" using assms(1) by auto
  then show ?thesis using h assms(2) by (auto simp: t'_def)
qed

lemma retrace_insert:
  assumes "rep c (pidx ctx) t" "repc c root (idx t) ctx" "distinct (ids t @ cids ctx)"
    and "avl t" "height t = Suc h" "avlc h ctx" "h = 0 \<or> n_bal c (idx t) \<noteq> 0"
  shows "retraced (avl_retrace_insert (idx t) (pidx ctx) (root, c)) (ids (plug ctx t)) (set (ids t @ cids ctx)) c"
  using assms
proof (induction ctx arbitrary: t h root c)
  case Nil
  then show ?case by (intro retraced_done [where t' = t]) (auto simp: avl_retrace_insert.simps)
next
  case (Cons f ctx)
  let ?S = "set (ids t @ cids (f # ctx))"
  obtain ta n b tr where t: "t = Node ta (n, b) tr" and tb: "b = int (height tr) - int (height ta)" "\<bar>b\<bar> \<le> 1"
    "avl ta" "avl tr" "max (height ta) (height tr) = h" using tree_parts [OF Cons.prems(4,5)] .
  have n: "n \<noteq> AVL_CORE_NIL" "n_bal c n = b" using Cons.prems(1) unfolding t by auto
  show ?case
  proof (cases f)
    case (InL p bp r)
    have p: "p \<noteq> AVL_CORE_NIL" "n_left c p = n" "n_right c p = idx r" "n_parent c p = pidx ctx" "n_bal c p = bp" "rep c p r"
      "repc c root p ctx" using Cons.prems(2) unfolding InL t by auto
    have bp: "bp = int (height r) - int h" "\<bar>bp\<bar> \<le> 1" "avl r" "avlc (max h (height r) + 1) ctx" using Cons.prems(6) unfolding InL by auto
    have "distinct (ids t @ ids r)" using Cons.prems(3) unfolding InL by auto
    then have nr: "idx t \<noteq> n_right c p" using right_is_not_left [OF p(6), of t] n(1) unfolding p(3) by (simp add: t)
    have whole: "rep c (pidx ctx) (Node t (p, bp) r)" "distinct (ids (Node t (p, bp) r) @ cids ctx)"
      using Cons.prems(1,3) p unfolding InL t by auto
    have pl: "plug (f # ctx) t = plug ctx (Node t (p, bp) r)" "?S = set (ids (Node t (p, bp) r) @ cids ctx)" unfolding InL by auto
    consider "bp < 0" "b > 0" | "bp < 0" "b < 0" | "bp > 0" | "bp = 0" using Cons.prems(7) bp n tb unfolding t by fastforce
    then show ?thesis
    proof cases
      case 1
      then obtain tb' y yb tc where tr: "tr = Node tb' (y, yb) tc" using tb by (cases tr) auto
      have run: "avl_retrace_insert (idx t) p (root, c) = Some (snd (rotate_left_right p (root, c)))"
        using nr 1 n p unfolding t by (subst avl_retrace_insert.simps) simp
      obtain y' root' c' where rot: "rotate_left_right p (root, c) = (y', root', c')" by (metis prod_cases3)
      note r = rotate_left_right_rep [OF whole(1) [unfolded t tr] p(7) whole(2) [unfolded t tr] rot]
      have h: "height t = height r + 2" "max h (height r) + 1 = height r + 2" using 1 bp Cons.prems(5) by linarith+
      note a = rotate_left_right_avl [where p = p, OF Cons.prems(4) [unfolded t tr] bp(3) h(1) [unfolded t tr] 1(2)]
      show ?thesis unfolding pl
        by (rule retraced_done [OF r(2) _ a [THEN conjunct1] bp(4) [unfolded h(2), folded a [THEN conjunct2]]]) (use r(1,3,4) run rot in \<open>simp_all add: InL t tr\<close>)
    next
      case 2
      have run: "avl_retrace_insert (idx t) p (root, c) = Some (snd (rotate_right p (root, c)))"
        using nr 2 n p unfolding t by (subst avl_retrace_insert.simps) simp
      obtain y' root' c' where rot: "rotate_right p (root, c) = (y', root', c')" by (metis prod_cases3)
      have b0: "b \<noteq> 0" using 2 by simp
      note r = rotate_right_rep [OF whole(1) [unfolded t] p(7) whole(2) [unfolded t] rot, unfolded if_not_P [OF b0]]
      have h: "height t = height r + 2" "max h (height r) + 1 = height r + 2" using 2 bp Cons.prems(5) by linarith+
      note a = rotate_right_avl [where p = p, OF Cons.prems(4) [unfolded t] bp(3) h(1) [unfolded t] less_imp_le [OF 2(2)], unfolded if_not_P [OF b0]]
      show ?thesis unfolding pl
        by (rule retraced_done [OF r(2) _ a [THEN conjunct1] bp(4) [unfolded h(2), folded a [THEN conjunct2]]]) (use r(1,3,4) run rot in \<open>simp_all add: InL t\<close>)
    next
      case 3
      have run: "avl_retrace_insert (idx t) p (root, c) = Some (root, set_bal p 0 c)"
        using nr 3 n p unfolding t by (subst avl_retrace_insert.simps) simp
      have pn: "p \<notin> set (ids t) \<union> set (ids r)" "p \<notin> set (cids ctx)" using whole(2) by auto
      have a: "avl (Node t (p, 0) r)" "height (Node t (p, 0 :: int) r) = max h (height r) + 1" using 3 bp Cons.prems(4,5) by auto
      show ?thesis unfolding pl
        by (rule retraced_done [OF set_bal_top [OF whole(1) pn(1)] _ a(1) bp(4) [folded a(2)]])
          (use run p(7) in \<open>simp_all add: InL set_bal_repc [OF pn(2)]\<close>)
    next
      case 4
      have run: "avl_retrace_insert (idx t) p (root, c) = avl_retrace_insert p (pidx ctx) (root, set_bal p (- 1) c)"
        using nr 4 n p unfolding t by (subst avl_retrace_insert.simps) simp
      have pn: "p \<notin> set (ids t) \<union> set (ids r)" "p \<notin> set (cids ctx)" using whole(2) by auto
      let ?t = "Node t (p, - 1) r"
      have "retraced (avl_retrace_insert (idx ?t) (pidx ctx) (root, set_bal p (- 1) c)) (ids (plug ctx ?t)) (set (ids ?t @ cids ctx)) (set_bal p (- 1) c)"
      proof (rule Cons.IH [where h = "Suc h"])
        show "rep (set_bal p (- 1) c) (pidx ctx) ?t" by (rule set_bal_top [OF whole(1) pn(1)])
        show "repc (set_bal p (- 1) c) root (idx ?t) ctx" using p(7) by (simp add: set_bal_repc [OF pn(2)])
        have hr: "height r = h" using 4 bp by simp
        show "distinct (ids ?t @ cids ctx)" using whole(2) by simp
        show "avl ?t" "height ?t = Suc (Suc h)" using hr bp(3) Cons.prems(4,5) by simp_all
        show "avlc (Suc h) ctx" using bp(4) hr by simp
      qed simp
      then have "retraced (avl_retrace_insert (idx t) p (root, c)) (ids (plug ctx ?t)) (set (ids ?t @ cids ctx)) c"
        unfolding run fst_conv idx.simps by (rule retraced_more [where S = "{p}"]) auto
      moreover have "ids (plug ctx ?t) = ids (plug ctx (Node t (p, bp) r))" by (simp add: ids_plug)
      ultimately show ?thesis unfolding pl by (simp add: InL)
    qed
  next
    case (InR r p bp)
    have p: "p \<noteq> AVL_CORE_NIL" "n_right c p = n" "n_left c p = idx r" "n_parent c p = pidx ctx" "n_bal c p = bp" "rep c p r"
      "repc c root p ctx" using Cons.prems(2) unfolding InR t by auto
    have bp: "bp = int h - int (height r)" "\<bar>bp\<bar> \<le> 1" "avl r" "avlc (max (height r) h + 1) ctx" using Cons.prems(6) unfolding InR by auto
    have nr: "idx t = n_right c p" unfolding t p(2) by simp
    have whole: "rep c (pidx ctx) (Node r (p, bp) t)" "distinct (ids (Node r (p, bp) t) @ cids ctx)"
      using Cons.prems(1,3) p unfolding InR t by auto
    have pl: "plug (f # ctx) t = plug ctx (Node r (p, bp) t)" "?S = set (ids (Node r (p, bp) t) @ cids ctx)" unfolding InR by auto
    consider "bp > 0" "b < 0" | "bp > 0" "b > 0" | "bp < 0" | "bp = 0" using Cons.prems(7) bp n tb unfolding t by fastforce
    then show ?thesis
    proof cases
      case 1
      then obtain tb' y yb tc where tr: "ta = Node tb' (y, yb) tc" using tb by (cases ta) auto
      have run: "avl_retrace_insert (idx t) p (root, c) = Some (snd (rotate_right_left p (root, c)))"
        using nr 1 n p unfolding t by (subst avl_retrace_insert.simps) simp
      obtain y' root' c' where rot: "rotate_right_left p (root, c) = (y', root', c')" by (metis prod_cases3)
      note r = rotate_right_left_rep [OF whole(1) [unfolded t tr] p(7) whole(2) [unfolded t tr] rot]
      have h: "height t = height r + 2" "max (height r) h + 1 = height r + 2" using 1 bp Cons.prems(5) by linarith+
      note a = rotate_right_left_avl [where p = p, OF Cons.prems(4) [unfolded t tr] bp(3) h(1) [unfolded t tr] 1(2)]
      show ?thesis unfolding pl
        by (rule retraced_done [OF r(2) _ a [THEN conjunct1] bp(4) [unfolded h(2), folded a [THEN conjunct2]]]) (use r(1,3,4) run rot in \<open>simp_all add: InR t tr\<close>)
    next
      case 2
      have run: "avl_retrace_insert (idx t) p (root, c) = Some (snd (rotate_left p (root, c)))"
        using nr 2 n p unfolding t by (subst avl_retrace_insert.simps) simp
      obtain y' root' c' where rot: "rotate_left p (root, c) = (y', root', c')" by (metis prod_cases3)
      have b0: "b \<noteq> 0" using 2 by simp
      note r = rotate_left_rep [OF whole(1) [unfolded t] p(7) whole(2) [unfolded t] rot, unfolded if_not_P [OF b0]]
      have h: "height t = height r + 2" "max (height r) h + 1 = height r + 2" using 2 bp Cons.prems(5) by linarith+
      note a = rotate_left_avl [where p = p, OF Cons.prems(4) [unfolded t] bp(3) h(1) [unfolded t] less_imp_le [OF 2(2)], unfolded if_not_P [OF b0]]
      show ?thesis unfolding pl
        by (rule retraced_done [OF r(2) _ a [THEN conjunct1] bp(4) [unfolded h(2), folded a [THEN conjunct2]]]) (use r(1,3,4) run rot in \<open>simp_all add: InR t\<close>)
    next
      case 3
      have run: "avl_retrace_insert (idx t) p (root, c) = Some (root, set_bal p 0 c)"
        using nr 3 n p unfolding t by (subst avl_retrace_insert.simps) simp
      have pn: "p \<notin> set (ids r) \<union> set (ids t)" "p \<notin> set (cids ctx)" using whole(2) by auto
      have a: "avl (Node r (p, 0) t)" "height (Node r (p, 0 :: int) t) = max (height r) h + 1" using 3 bp Cons.prems(4,5) by auto
      show ?thesis unfolding pl
        by (rule retraced_done [OF set_bal_top [OF whole(1) pn(1)] _ a(1) bp(4) [folded a(2)]])
          (use run p(7) in \<open>simp_all add: InR set_bal_repc [OF pn(2)]\<close>)
    next
      case 4
      have run: "avl_retrace_insert (idx t) p (root, c) = avl_retrace_insert p (pidx ctx) (root, set_bal p 1 c)"
        using nr 4 n p unfolding t by (subst avl_retrace_insert.simps) simp
      have pn: "p \<notin> set (ids r) \<union> set (ids t)" "p \<notin> set (cids ctx)" using whole(2) by auto
      let ?t = "Node r (p, 1) t"
      have "retraced (avl_retrace_insert (idx ?t) (pidx ctx) (root, set_bal p 1 c)) (ids (plug ctx ?t)) (set (ids ?t @ cids ctx)) (set_bal p 1 c)"
      proof (rule Cons.IH [where h = "Suc h"])
        show "rep (set_bal p (1) c) (pidx ctx) ?t" by (rule set_bal_top [OF whole(1) pn(1)])
        show "repc (set_bal p (1) c) root (idx ?t) ctx" using p(7) by (simp add: set_bal_repc [OF pn(2)])
        have hr: "height r = h" using 4 bp by simp
        show "distinct (ids ?t @ cids ctx)" using whole(2) by simp
        show "avl ?t" "height ?t = Suc (Suc h)" using hr bp(3) Cons.prems(4,5) by simp_all
        show "avlc (Suc h) ctx" using bp(4) hr by simp
      qed simp
      then have "retraced (avl_retrace_insert (idx t) p (root, c)) (ids (plug ctx ?t)) (set (ids ?t @ cids ctx)) c"
        unfolding run fst_conv idx.simps by (rule retraced_more [where S = "{p}"]) auto
      moreover have "ids (plug ctx ?t) = ids (plug ctx (Node r (p, bp) t))" by (simp add: ids_plug)
      ultimately show ?thesis unfolding pl by (simp add: InR)
    qed
  qed
qed

section \<open>After a removal\<close>

fun is_left :: "frame \<Rightarrow> bool" where
  "is_left (InL i b r) \<longleftrightarrow> True"
| "is_left (InR l i b) \<longleftrightarrow> False"

lemma came_from:
  assumes "repc c root p ctx" "ctx \<noteq> []" "p \<noteq> AVL_CORE_NIL" "p \<notin> set (cids ctx)"
  shows "n_left c (pidx ctx) = p \<longleftrightarrow> is_left (hd ctx)"
proof (cases ctx)
  case (Cons f fs)
  show ?thesis
  proof (cases f)
    case (InR l i b)
    have "idx l \<noteq> p" using assms(3,4) idx_in [of l] unfolding Cons InR by (cases "l = Leaf") auto
    then show ?thesis using assms(1) unfolding Cons InR by simp
  qed (use assms(1) Cons in simp)
qed (use assms(2) in simp)

lemma retraced_on:
  assumes "retraced res (ids (plug ctx t')) (set (ids t' @ cids ctx)) c'" "ids t' = ids t" "only_links (set (ids t @ cids ctx)) c c'"
  shows "retraced res (ids (plug ctx t)) (set (ids t @ cids ctx)) c"
  using retraced_more [OF assms(1,3) order_refl] assms(2) by (simp add: ids_plug)

lemma next_left:
  fixes ll :: bool
  assumes "repc c root p ctx" "p \<noteq> AVL_CORE_NIL" "p \<notin> set (cids ctx)"
  defines "q \<equiv> if pidx ctx \<noteq> AVL_CORE_NIL then n_left c (pidx ctx) = p else ll"
  shows "ctx = [] \<or> q = is_left (hd ctx)"
  using came_from [OF assms(1) _ assms(2,3)] pidx_nil [OF assms(1)] by (cases "ctx = []") (simp_all add: q_def)

lemma retrace_remove:
  assumes "rep c (pidx ctx) t" "repc c root (idx t) ctx" "distinct (ids t @ cids ctx)"
    and "avl t" "height t = h" "avlc (Suc h) ctx" "ctx = [] \<or> ll = is_left (hd ctx)"
  shows "retraced (avl_retrace_remove (pidx ctx) ll (root, c)) (ids (plug ctx t)) (set (ids t @ cids ctx)) c"
  using assms
proof (induction ctx arbitrary: t h root c ll)
  case Nil
  then show ?case by (intro retraced_done [where t' = t]) (auto simp: avl_retrace_remove.simps)
next
  case (Cons f ctx)
  let ?S = "set (ids t @ cids (f # ctx))"
  show ?case
  proof (cases f)
    case (InL p bp r)
    have p: "p \<noteq> AVL_CORE_NIL" "n_left c p = idx t" "n_right c p = idx r" "n_parent c p = pidx ctx" "n_bal c p = bp" "rep c p r"
      "repc c root p ctx" using Cons.prems(2) unfolding InL by auto
    have bp: "bp = int (height r) - int (Suc h)" "\<bar>bp\<bar> \<le> 1" "avl r" "avlc (max (Suc h) (height r) + 1) ctx"
      using Cons.prems(6) unfolding InL by auto
    have ll: "ll" using Cons.prems(7) InL by simp
    have whole: "rep c (pidx ctx) (Node t (p, bp) r)" "distinct (ids (Node t (p, bp) r) @ cids ctx)"
      using Cons.prems(1,3) p unfolding InL by auto
    have pl: "plug (f # ctx) t = plug ctx (Node t (p, bp) r)" "?S = set (ids (Node t (p, bp) r) @ cids ctx)" "pidx (f # ctx) = p"
      unfolding InL by auto
    have pn: "p \<notin> set (ids t) \<union> set (ids r)" "p \<notin> set (cids ctx)" using whole(2) by auto
    define q where "q = (if pidx ctx \<noteq> AVL_CORE_NIL then n_left c (pidx ctx) = p else ll)"
    have q: "ctx = [] \<or> q = is_left (hd ctx)" unfolding q_def by (rule next_left [OF p(7,1) pn(2)])
    note step = avl_retrace_remove.simps [of p ll "(root, c)", unfolded Let_def snd_conv fst_conv if_not_P [OF p(1)] if_P [OF ll] p(3-5), folded q_def]
    consider "bp > 0" | "bp = 0" | "bp < 0" by linarith
    then show ?thesis
    proof cases
      case 1
      have hr: "height r = Suc (Suc h)" using 1 bp by simp
      obtain rl z sb rr where r: "r = Node rl (z, sb) rr" and rb: "sb = int (height rr) - int (height rl)" "\<bar>sb\<bar> \<le> 1" "avl rl" "avl rr"
        "max (height rl) (height rr) = Suc h" using tree_parts [OF bp(3) hr] .
      have sb: "n_bal c (idx r) = sb" using p(6) unfolding r by simp
      have h2: "height (Node rl (z, sb) rr) = height t + 2" using hr Cons.prems(5) unfolding r by simp
      show ?thesis
      proof (cases "sb < 0")
        case True
        then obtain ta y yb tb where rl: "rl = Node ta (y, yb) tb" using rb by (cases rl) auto
        obtain y' root' c' where rot: "rotate_right_left p (root, c) = (y', root', c')" by (metis prod_cases3)
        have run: "avl_retrace_remove p ll (root, c) = avl_retrace_remove (pidx ctx) q (root', c')"
          using step 1 True rot by (simp add: sb)
        note R = rotate_right_left_rep [OF whole(1) [unfolded r rl] p(7) whole(2) [unfolded r rl] rot]
        note a = rotate_right_left_avl [where p = p, OF bp(3) [unfolded r rl] Cons.prems(4) h2 [unfolded rl] True]
        have av: "avlc (Suc (height t + 2)) ctx" using bp(4) hr Cons.prems(5) by simp
        show ?thesis unfolding pl run
          by (rule retraced_on [OF Cons.IH [OF R(2) _ _ a [THEN conjunct1] a [THEN conjunct2] av q]])
            (use R(3,4) whole(2) in \<open>simp_all add: r rl\<close>)
      next
        case False
        obtain y' root' c' where rot: "rotate_left p (root, c) = (y', root', c')" by (metis prod_cases3)
        note R = rotate_left_rep [OF whole(1) [unfolded r] p(7) whole(2) [unfolded r] rot]
        note a = rotate_left_avl [where p = p, OF bp(3) [unfolded r] Cons.prems(4) h2 leI [OF False]]
        show ?thesis
        proof (cases "sb = 0")
          case True
          have run: "avl_retrace_remove p ll (root, c) = Some (root', c')" using step 1 True rot by (simp add: sb)
          have av: "avlc (height t + 3) ctx" using bp(4) hr Cons.prems(5) by (simp add: numeral_3_eq_3)
          note R = R [unfolded if_P [OF True]] and a = a [unfolded if_P [OF True]]
          show ?thesis unfolding pl run
            by (rule retraced_done [OF R(2) _ a [THEN conjunct1] av [folded a [THEN conjunct2]]]) (use R(3,4) in \<open>simp_all add: r\<close>)
        next
          case nz: False
          have run: "avl_retrace_remove p ll (root, c) = avl_retrace_remove (pidx ctx) q (root', c')"
            using step 1 False nz rot by (simp add: sb)
          note R = R [unfolded if_not_P [OF nz]] and a = a [unfolded if_not_P [OF nz]]
          have av: "avlc (Suc (height t + 2)) ctx" using bp(4) hr Cons.prems(5) by simp
          show ?thesis unfolding pl run
            by (rule retraced_on [OF Cons.IH [OF R(2) _ _ a [THEN conjunct1] a [THEN conjunct2] av q]])
              (use R(3,4) whole(2) in \<open>simp_all add: r\<close>)
        qed
      qed
    next
      case 2
      have run: "avl_retrace_remove p ll (root, c) = Some (root, set_bal p 1 c)" using step 2 by simp
      have hr: "height r = Suc h" using 2 bp by simp
      have a: "avl (Node t (p, 1) r)" using hr bp(3) Cons.prems(4,5) by simp
      have av: "avlc (height (Node t (p, 1 :: int) r)) ctx" using hr bp(4) Cons.prems(5) by simp
      show ?thesis unfolding pl run
        by (rule retraced_done [OF set_bal_top [OF whole(1) pn(1)] _ a av]) (use p(7) in \<open>simp_all add: set_bal_repc [OF pn(2)]\<close>)
    next
      case 3
      have run: "avl_retrace_remove p ll (root, c) = avl_retrace_remove (pidx ctx) q (root, set_bal p 0 c)" using step 3 by simp
      have hr: "height r = h" using 3 bp by simp
      have a: "avl (Node t (p, 0) r)" using hr bp(3) Cons.prems(4,5) by simp
      have av: "avlc (Suc (height (Node t (p, 0 :: int) r))) ctx" using hr bp(4) Cons.prems(5) by simp
      show ?thesis unfolding pl run
        by (rule retraced_on [OF Cons.IH [OF set_bal_top [OF whole(1) pn(1)] _ _ a refl av q]])
          (use p(7) whole(2) in \<open>simp_all add: set_bal_repc [OF pn(2)]\<close>)
    qed
  next
    case (InR r p bp)
    have p: "p \<noteq> AVL_CORE_NIL" "n_right c p = idx t" "n_left c p = idx r" "n_parent c p = pidx ctx" "n_bal c p = bp" "rep c p r"
      "repc c root p ctx" using Cons.prems(2) unfolding InR by auto
    have bp: "bp = int (Suc h) - int (height r)" "\<bar>bp\<bar> \<le> 1" "avl r" "avlc (max (height r) (Suc h) + 1) ctx"
      using Cons.prems(6) unfolding InR by auto
    have ll: "\<not> ll" using Cons.prems(7) InR by simp
    have whole: "rep c (pidx ctx) (Node r (p, bp) t)" "distinct (ids (Node r (p, bp) t) @ cids ctx)"
      using Cons.prems(1,3) p unfolding InR by auto
    have pl: "plug (f # ctx) t = plug ctx (Node r (p, bp) t)" "?S = set (ids (Node r (p, bp) t) @ cids ctx)" "pidx (f # ctx) = p"
      unfolding InR by auto
    have pn: "p \<notin> set (ids r) \<union> set (ids t)" "p \<notin> set (cids ctx)" using whole(2) by auto
    define q where "q = (if pidx ctx \<noteq> AVL_CORE_NIL then n_left c (pidx ctx) = p else ll)"
    have q: "ctx = [] \<or> q = is_left (hd ctx)" unfolding q_def by (rule next_left [OF p(7,1) pn(2)])
    note step = avl_retrace_remove.simps [of p ll "(root, c)", unfolded Let_def snd_conv fst_conv if_not_P [OF p(1)] if_not_P [OF ll] p(3-5), folded q_def]
    consider "bp < 0" | "bp = 0" | "bp > 0" by linarith
    then show ?thesis
    proof cases
      case 1
      have hr: "height r = Suc (Suc h)" using 1 bp by simp
      obtain rl z sb rr where r: "r = Node rl (z, sb) rr" and rb: "sb = int (height rr) - int (height rl)" "\<bar>sb\<bar> \<le> 1" "avl rl" "avl rr"
        "max (height rl) (height rr) = Suc h" using tree_parts [OF bp(3) hr] .
      have sb: "n_bal c (idx r) = sb" using p(6) unfolding r by simp
      have h2: "height (Node rl (z, sb) rr) = height t + 2" using hr Cons.prems(5) unfolding r by simp
      show ?thesis
      proof (cases "0 < sb")
        case True
        then obtain ta y yb tb where rr: "rr = Node ta (y, yb) tb" using rb by (cases rr) auto
        obtain y' root' c' where rot: "rotate_left_right p (root, c) = (y', root', c')" by (metis prod_cases3)
        have run: "avl_retrace_remove p ll (root, c) = avl_retrace_remove (pidx ctx) q (root', c')"
          using step 1 True rot by (simp add: sb)
        note R = rotate_left_right_rep [OF whole(1) [unfolded r rr] p(7) whole(2) [unfolded r rr] rot]
        note a = rotate_left_right_avl [where p = p, OF bp(3) [unfolded r rr] Cons.prems(4) h2 [unfolded rr] True]
        have av: "avlc (Suc (height t + 2)) ctx" using bp(4) hr Cons.prems(5) by simp
        show ?thesis unfolding pl run
          by (rule retraced_on [OF Cons.IH [OF R(2) _ _ a [THEN conjunct1] a [THEN conjunct2] av q]])
            (use R(3,4) whole(2) in \<open>simp_all add: r rr\<close>)
      next
        case False
        obtain y' root' c' where rot: "rotate_right p (root, c) = (y', root', c')" by (metis prod_cases3)
        note R = rotate_right_rep [OF whole(1) [unfolded r] p(7) whole(2) [unfolded r] rot]
        note a = rotate_right_avl [where p = p, OF bp(3) [unfolded r] Cons.prems(4) h2 leI [OF False]]
        show ?thesis
        proof (cases "sb = 0")
          case True
          have run: "avl_retrace_remove p ll (root, c) = Some (root', c')" using step 1 True rot by (simp add: sb)
          have av: "avlc (height t + 3) ctx" using bp(4) hr Cons.prems(5) by (simp add: numeral_3_eq_3)
          note R = R [unfolded if_P [OF True]] and a = a [unfolded if_P [OF True]]
          show ?thesis unfolding pl run
            by (rule retraced_done [OF R(2) _ a [THEN conjunct1] av [folded a [THEN conjunct2]]]) (use R(3,4) in \<open>simp_all add: r\<close>)
        next
          case nz: False
          have run: "avl_retrace_remove p ll (root, c) = avl_retrace_remove (pidx ctx) q (root', c')"
            using step 1 False nz rot by (simp add: sb)
          note R = R [unfolded if_not_P [OF nz]] and a = a [unfolded if_not_P [OF nz]]
          have av: "avlc (Suc (height t + 2)) ctx" using bp(4) hr Cons.prems(5) by simp
          show ?thesis unfolding pl run
            by (rule retraced_on [OF Cons.IH [OF R(2) _ _ a [THEN conjunct1] a [THEN conjunct2] av q]])
              (use R(3,4) whole(2) in \<open>simp_all add: r\<close>)
        qed
      qed
    next
      case 2
      have run: "avl_retrace_remove p ll (root, c) = Some (root, set_bal p (- 1) c)" using step 2 by simp
      have hr: "height r = Suc h" using 2 bp by simp
      have a: "avl (Node r (p, - 1) t)" using hr bp(3) Cons.prems(4,5) by simp
      have av: "avlc (height (Node r (p, - 1 :: int) t)) ctx" using hr bp(4) Cons.prems(5) by simp
      show ?thesis unfolding pl run
        by (rule retraced_done [OF set_bal_top [OF whole(1) pn(1)] _ a av]) (use p(7) in \<open>simp_all add: set_bal_repc [OF pn(2)]\<close>)
    next
      case 3
      have run: "avl_retrace_remove p ll (root, c) = avl_retrace_remove (pidx ctx) q (root, set_bal p 0 c)" using step 3 by simp
      have hr: "height r = h" using 3 bp by simp
      have a: "avl (Node r (p, 0) t)" using hr bp(3) Cons.prems(4,5) by simp
      have av: "avlc (Suc (height (Node r (p, 0 :: int) t))) ctx" using hr bp(4) Cons.prems(5) by simp
      show ?thesis unfolding pl run
        by (rule retraced_on [OF Cons.IH [OF set_bal_top [OF whole(1) pn(1)] _ _ a refl av q]])
          (use p(7) whole(2) in \<open>simp_all add: set_bal_repc [OF pn(2)]\<close>)
    qed
  qed
qed

end
