(* ===== verification/Avl_Tree.thy ===== *)
theory Avl_Tree
  imports Avl_Balance
begin

text \<open>
  What the operations of the engine do to the elements: the pool invariant (every node is in a tree or in the
  free list), the search order, and the contracts of find, insert and remove over the in-order list of payloads.
  Several trees may share one pool; the nodes of the others stay as they are.
\<close>

section \<open>Order\<close>

text \<open>The documented contract of the comparator: it orders by a key.\<close>

definition compares :: "('a \<Rightarrow> 'e \<Rightarrow> int) \<Rightarrow> ('a \<Rightarrow> 'k :: linorder) \<Rightarrow> ('e \<Rightarrow> 'k) \<Rightarrow> bool" where
  "compares cmp f g \<longleftrightarrow> (\<forall>a b. (cmp a b < 0 \<longleftrightarrow> f a < g b) \<and> (cmp a b = 0 \<longleftrightarrow> f a = g b))"

abbreviation elems :: "'e AvlCore \<Rightarrow> shape \<Rightarrow> 'e list" where "elems c t \<equiv> map (avl_core_payload c) (ids t)"

abbreviation ordered :: "('e \<Rightarrow> 'k :: linorder) \<Rightarrow> 'e AvlCore \<Rightarrow> shape \<Rightarrow> bool" where
  "ordered g c t \<equiv> sorted_wrt (<) (map g (elems c t))"

lemma compares_cases:
  assumes "compares cmp f g"
  obtains "cmp a b < 0" "f a < g b" | "cmp a b = 0" "f a = g b" | "cmp a b > 0" "g b < f a"
proof (cases "f a" "g b" rule: linorder_cases)
  case greater
  then have "\<not> cmp a b < 0" "cmp a b \<noteq> 0" using assms by (auto simp: compares_def)
  then show ?thesis using that(3) greater by simp
qed (use assms that in \<open>simp_all add: compares_def\<close>)

definition find_spec :: "('e \<Rightarrow> 'k :: linorder) \<Rightarrow> 'e AvlCore \<Rightarrow> shape \<Rightarrow> 'k \<Rightarrow> u32 option \<Rightarrow> bool" where
  "find_spec g c t k res \<longleftrightarrow> (\<exists>z. res = Some z \<and>
     (if k \<in> g ` set (elems c t) then z \<in> set (ids t) \<and> g (avl_core_payload c z) = k else z = AVL_CORE_NIL))"

lemma find_result:
  assumes "compares cmp f g" "rep c par t" "ordered g c t"
  shows "find_spec g c t (f a) (avl_core_find cmp c a (idx t))"
  using assms(2,3)
proof (induction t arbitrary: par)
  case Leaf
  then show ?case by (simp add: avl_core_find.simps find_spec_def)
next
  case (Node l ib r)
  obtain i b where ib: "ib = (i, b)" by force
  have p: "i \<noteq> AVL_CORE_NIL" "n_left c i = idx l" "n_right c i = idx r" "rep c i l" "rep c i r" using Node.prems(1) by (auto simp: ib)
  have o: "ordered g c l" "ordered g c r" "\<forall>x\<in>set (ids l). g (avl_core_payload c x) < g (avl_core_payload c i)"
    "\<forall>x\<in>set (ids r). g (avl_core_payload c i) < g (avl_core_payload c x)"
    using Node.prems(2) by (auto simp: ib sorted_wrt_append)
  note step = avl_core_find.simps [of cmp c a i]
  show ?case
  proof (rule compares_cases [OF assms(1), of a "avl_core_payload c i"])
    assume lt: "cmp a (avl_core_payload c i) < 0" "f a < g (avl_core_payload c i)"
    have mem: "f a \<in> g ` set (elems c (Node l ib r)) \<longleftrightarrow> f a \<in> g ` set (elems c l)" using lt(2) o(4) by (force simp: ib)
    have "avl_core_find cmp c a i = avl_core_find cmp c a (idx l)" using lt p(1,2) by (simp add: step)
    then show ?thesis using Node.IH(1) [OF p(4) o(1)] unfolding find_spec_def mem by (auto simp: ib)
  next
    assume gt: "0 < cmp a (avl_core_payload c i)" "g (avl_core_payload c i) < f a"
    have mem: "f a \<in> g ` set (elems c (Node l ib r)) \<longleftrightarrow> f a \<in> g ` set (elems c r)" using gt(2) o(3) by (force simp: ib)
    have "avl_core_find cmp c a i = avl_core_find cmp c a (idx r)" using gt p(1,3) by (simp add: step)
    then show ?thesis using Node.IH(2) [OF p(5) o(2)] unfolding find_spec_def mem by (auto simp: ib)
  qed (use p(1) in \<open>simp add: ib step find_spec_def\<close>)
qed

text \<open>Where the descent ends: the hole of a tree, left of the larger and right of the smaller elements.\<close>

definition place :: "('e \<Rightarrow> 'k :: linorder) \<Rightarrow> 'e AvlCore \<Rightarrow> 'k \<Rightarrow> frame list \<Rightarrow> int \<Rightarrow> bool" where
  "place g c k ctx cm \<longleftrightarrow> (ctx = [] \<or> (cm < 0 \<longleftrightarrow> is_left (hd ctx))) \<and>
     (\<forall>i\<in>set (lids ctx). g (avl_core_payload c i) < k) \<and> (\<forall>i\<in>set (rids ctx). k < g (avl_core_payload c i))"

definition descend_spec :: "('e \<Rightarrow> 'k :: linorder) \<Rightarrow> 'e AvlCore \<Rightarrow> 'k \<Rightarrow> bool \<Rightarrow> shape \<Rightarrow> (u32 \<times> int) option option \<Rightarrow> bool" where
  "descend_spec g c k dup t res \<longleftrightarrow> (if dup then res = Some None
     else \<exists>ctx cm. res = Some (Some (pidx ctx, cm)) \<and> plug ctx Leaf = t \<and> place g c k ctx cm)"

lemma descend_result:
  assumes "compares cmp g g" "rep c (pidx ctx) t" "ordered g c t" "place g c (g e) ctx cm"
  shows "descend_spec g c (g e) (g e \<in> g ` set (elems c t)) (plug ctx t) (descend cmp c e (pidx ctx) cm (idx t))"
  using assms(2-)
proof (induction t arbitrary: ctx cm)
  case Leaf
  then show ?case by (auto simp: descend.simps descend_spec_def)
next
  case (Node l ib r)
  obtain i b where ib: "ib = (i, b)" by force
  have p: "i \<noteq> AVL_CORE_NIL" "n_left c i = idx l" "n_right c i = idx r" "rep c i l" "rep c i r" using Node.prems(1) by (auto simp: ib)
  have o: "ordered g c l" "ordered g c r" "\<forall>x\<in>set (ids l). g (avl_core_payload c x) < g (avl_core_payload c i)"
    "\<forall>x\<in>set (ids r). g (avl_core_payload c i) < g (avl_core_payload c x)"
    using Node.prems(2) by (auto simp: ib sorted_wrt_append)
  let ?m = "cmp e (avl_core_payload c i)"
  note step = descend.simps [of cmp c e "pidx ctx" cm i]
  show ?case
  proof (rule compares_cases [OF assms(1), of e "avl_core_payload c i"])
    assume lt: "?m < 0" "g e < g (avl_core_payload c i)"
    have mem: "g e \<in> g ` set (elems c (Node l ib r)) \<longleftrightarrow> g e \<in> g ` set (elems c l)" using lt(2) o(4) by (force simp: ib)
    have "place g c (g e) (InL i b r # ctx) ?m" using lt o(4) Node.prems(3) by (force simp: place_def)
    then have "descend_spec g c (g e) (g e \<in> g ` set (elems c l)) (plug (InL i b r # ctx) l) (descend cmp c e i ?m (idx l))"
      using Node.IH(1) [of "InL i b r # ctx" ?m] p(4) o(1) by simp
    moreover have "descend cmp c e (pidx ctx) cm i = descend cmp c e i ?m (idx l)" using lt p(1,2) by (simp add: step)
    ultimately show ?thesis unfolding mem by (simp add: ib)
  next
    assume gt: "0 < ?m" "g (avl_core_payload c i) < g e"
    have mem: "g e \<in> g ` set (elems c (Node l ib r)) \<longleftrightarrow> g e \<in> g ` set (elems c r)" using gt(2) o(3) by (force simp: ib)
    have "place g c (g e) (InR l i b # ctx) ?m" using gt o(3) Node.prems(3) by (force simp: place_def)
    then have "descend_spec g c (g e) (g e \<in> g ` set (elems c r)) (plug (InR l i b # ctx) r) (descend cmp c e i ?m (idx r))"
      using Node.IH(2) [of "InR l i b # ctx" ?m] p(5) o(2) by simp
    moreover have "descend cmp c e (pidx ctx) cm i = descend cmp c e i ?m (idx r)" using gt p(1,3) by (simp add: step)
    ultimately show ?thesis unfolding mem by (simp add: ib)
  qed (use p(1) in \<open>simp add: ib step descend_spec_def\<close>)
qed

section \<open>The pool\<close>

fun free_chain :: "'e AvlCore \<Rightarrow> u32 \<Rightarrow> u32 list \<Rightarrow> bool" where
  "free_chain c h [] \<longleftrightarrow> h = AVL_CORE_NIL"
| "free_chain c h (i # is) \<longleftrightarrow> h = i \<and> i \<noteq> AVL_CORE_NIL \<and> free_chain c (n_left c i) is"

text \<open>Every node is in use or in the free list, and not in both.\<close>

definition pool_free :: "'e AvlCore \<Rightarrow> u32 set \<Rightarrow> bool" where
  "pool_free c U \<longleftrightarrow> (\<exists>fs. free_chain c (av_free_head c) fs \<and> distinct fs \<and> set fs \<inter> U = {} \<and> set fs \<union> U = {..<av_capacity c})"

definition pool_ok :: "'e AvlCore \<Rightarrow> u32 set \<Rightarrow> bool" where
  "pool_ok c U \<longleftrightarrow> pool_free c U \<and> av_count c = card U"

definition same_at :: "'e AvlCore \<Rightarrow> 'e AvlCore \<Rightarrow> u32 \<Rightarrow> bool" where
  "same_at c c' i \<longleftrightarrow> n_left c' i = n_left c i \<and> n_right c' i = n_right c i \<and> n_parent c' i = n_parent c i \<and>
     n_bal c' i = n_bal c i \<and> avl_core_payload c' i = avl_core_payload c i"

lemma only_links_same: "only_links S c c' \<Longrightarrow> i \<notin> S \<Longrightarrow> same_at c c' i"
  by (simp add: only_links_def same_at_def)

lemma same_at_trans: "same_at c c' i \<Longrightarrow> same_at c' c'' i \<Longrightarrow> same_at c c'' i"
  by (simp add: same_at_def)

lemma card_below_u32: "card {..<w :: u32} = unat w"
proof -
  have "unat ` {..<w} = {..<unat w}"
  proof
    show "{..<unat w} \<subseteq> unat ` {..<w}"
    proof
      fix k assume k: "k \<in> {..<unat w}"
      then have "k < 2 ^ 32" using unsigned_less [of w, where ?'a = nat] by simp
      then have "unat (word_of_nat k :: u32) = k" by (simp add: unat_of_nat)
      then show "k \<in> unat ` {..<w}" using k by (metis imageI lessThan_iff word_less_nat_alt)
    qed
  qed (auto simp: word_less_nat_alt)
  then show ?thesis using card_image [of unat "{..<w}"] by (simp add: inj_on_def unsigned_word_eqI)
qed

lemma below_not_nil: "(i :: u32) < w \<Longrightarrow> i \<noteq> AVL_CORE_NIL"
  using unsigned_less [of w, where ?'a = nat] by (auto simp: word_less_nat_alt)

lemma free_chain_cong: "(\<And>i. i \<in> set is \<Longrightarrow> n_left c' i = n_left c i) \<Longrightarrow> free_chain c' h is = free_chain c h is"
  by (induction "is" arbitrary: h) auto

lemma pool_free_cong:
  assumes "pool_free c U" "av_free_head c' = av_free_head c" "av_capacity c' = av_capacity c"
    and "\<And>i. i \<notin> U \<Longrightarrow> i < av_capacity c \<Longrightarrow> n_left c' i = n_left c i"
  shows "pool_free c' U"
proof -
  obtain fs where fs: "free_chain c (av_free_head c) fs" "distinct fs" "set fs \<inter> U = {}" "set fs \<union> U = {..<av_capacity c}"
    using assms(1) by (auto simp: pool_free_def)
  have "free_chain c' (av_free_head c) fs = free_chain c (av_free_head c) fs" by (rule free_chain_cong) (use fs(3,4) assms(4) in blast)
  then show ?thesis using fs assms(2,3) by (auto simp: pool_free_def)
qed

lemma alloc_node_result:
  assumes "pool_ok c U" "alloc_node c = (n, c1)"
  shows "if av_count c = unat (av_capacity c) then n = AVL_CORE_NIL \<and> c1 = c
    else n \<noteq> AVL_CORE_NIL \<and> n \<notin> U \<and> c1 = c\<lparr>av_free_head := n_left c n\<rparr> \<and> pool_free c1 (insert n U)"
proof -
  obtain fs where fs: "free_chain c (av_free_head c) fs" "distinct fs" "set fs \<inter> U = {}" "set fs \<union> U = {..<av_capacity c}"
    and n: "av_count c = card U" using assms(1) by (auto simp: pool_ok_def pool_free_def)
  have "length fs + card U = unat (av_capacity c)"
    using card_Un_disjoint [of "set fs" U] distinct_card [OF fs(2)] fs(3,4) by (simp add: card_below_u32)
  then have full: "av_count c = unat (av_capacity c) \<longleftrightarrow> fs = []" using n by auto
  show ?thesis
  proof (cases fs)
    case Nil
    then show ?thesis using full fs(1) assms(2) by (simp add: alloc_node_def)
  next
    case (Cons i gs)
    have c1: "n = i" "c1 = c\<lparr>av_free_head := n_left c i\<rparr>" "i \<noteq> AVL_CORE_NIL" using fs(1) assms(2) by (auto simp: Cons alloc_node_def)
    have "free_chain c1 (av_free_head c1) gs = free_chain c (n_left c i) gs" unfolding c1 by (simp add: free_chain_cong [of gs "c\<lparr>av_free_head := n_left c i\<rparr>" c])
    then have "pool_free c1 (insert i U)"
      using fs unfolding pool_free_def by (intro exI [of _ gs]) (auto simp: Cons c1(2))
    then show ?thesis using full c1 fs(3) by (simp add: Cons)
  qed
qed

lemma free_node_result:
  assumes "pool_free c (insert i U)" "i \<notin> U" "i \<noteq> AVL_CORE_NIL"
  shows "pool_free (free_node i c) U"
proof -
  obtain fs where fs: "free_chain c (av_free_head c) fs" "distinct fs" "set fs \<inter> insert i U = {}" "set fs \<union> insert i U = {..<av_capacity c}"
    using assms(1) by (auto simp: pool_free_def)
  have "free_chain (free_node i c) (av_free_head c) fs = free_chain c (av_free_head c) fs"
    by (rule free_chain_cong) (use fs(3) in \<open>auto simp: free_node_def\<close>)
  then show ?thesis
    using fs assms(2,3) unfolding pool_free_def by (intro exI [of _ "i # fs"]) (auto simp: free_node_def)
qed

section \<open>Insertion\<close>

lemma link_leaf_result:
  assumes "repc c root AVL_CORE_NIL ctx" "ctx = [] \<or> (cm < 0 \<longleftrightarrow> is_left (hd ctx))" "distinct (cids ctx)" "n \<notin> set (cids ctx)"
    and "n \<noteq> AVL_CORE_NIL" "link_leaf n (pidx ctx) cm e (root, c) = (root', c')"
  shows "rep c' (pidx ctx) (Node Leaf (n, 0) Leaf)" "repc c' root' n ctx"
    "avl_core_payload c' = (avl_core_payload c)(n := e)" "av_count c' = av_count c + 1" "av_capacity c' = av_capacity c"
    "av_free_head c' = av_free_head c" "i \<notin> insert n (set (cids ctx)) \<Longrightarrow> same_at c c' i"
proof -
  define d where "d = set_bal n 0 (set_parent n (pidx ctx) (set_right n AVL_CORE_NIL (set_left n AVL_CORE_NIL (set_payload n e c))))"
  have c': "root' = (if ctx = [] then n else root)" "c' = (let d = (if ctx = [] then d else if cm < 0 then set_left (pidx ctx) n d else set_right (pidx ctx) n d) in d\<lparr>av_count := av_count d + 1\<rparr>)"
    using assms(6) pidx_nil [OF assms(1)] by (auto simp: link_leaf_def d_def Let_def split: if_splits prod.splits)
  have np: "ctx \<noteq> [] \<Longrightarrow> pidx ctx \<noteq> n" using pidx_in assms(4) by metis
  show "rep c' (pidx ctx) (Node Leaf (n, 0) Leaf)" using np assms(5) by (auto simp: c' d_def)
  show "avl_core_payload c' = (avl_core_payload c)(n := e)" "av_count c' = av_count c + 1" "av_capacity c' = av_capacity c"
    "av_free_head c' = av_free_head c" by (simp_all add: c' d_def)
  show "same_at c c' i" if "i \<notin> insert n (set (cids ctx))" for i
  proof -
    have "ctx \<noteq> [] \<Longrightarrow> i \<noteq> pidx ctx" using pidx_in that by (metis insertCI)
    then show ?thesis using that by (auto simp: c' d_def same_at_def)
  qed
  show "repc c' root' n ctx"
  proof (cases ctx)
    case (Cons f fs)
    have dist: "fidx f \<notin> set (cids fs)" "distinct (fids f)" using assms(3) fidx_in [of f] unfolding Cons by (auto simp del: fidx_in)
    have nc: "n \<notin> set (fids f)" "n \<notin> set (cids fs)" using assms(4) unfolding Cons by auto
    have up: "repc c' root (fidx f) fs = repc c root (fidx f) fs"
      by (rule repc_cong) (use dist nc in \<open>auto simp: c' d_def Cons\<close>)
    have "repf c' (pidx fs) n f"
    proof (cases f)
      case (InL i b r)
      have "rep c' i r = rep c i r" by (rule rep_cong) (use dist nc InL in \<open>auto simp: c' d_def Cons\<close>)
      then show ?thesis using assms(1,2) nc unfolding Cons InL by (auto simp: c' d_def Cons InL)
    next
      case (InR l i b)
      have "rep c' i l = rep c i l" by (rule rep_cong) (use dist nc InR in \<open>auto simp: c' d_def Cons\<close>)
      then show ?thesis using assms(1,2) nc unfolding Cons InR by (auto simp: c' d_def Cons InR)
    qed
    then show ?thesis using up assms(1) c'(1) unfolding Cons by simp
  qed (simp add: c'(1))
qed

text \<open>A search tree in the pool: balanced when the discipline says so, its nodes among those in use.\<close>

definition tree_ok :: "('e \<Rightarrow> 'k :: linorder) \<Rightarrow> bool \<Rightarrow> 'e AvlCore \<Rightarrow> u32 \<Rightarrow> shape \<Rightarrow> bool" where
  "tree_ok g balance c root t \<longleftrightarrow> rep c AVL_CORE_NIL t \<and> root = idx t \<and> distinct (ids t) \<and> ordered g c t \<and> (balance \<longrightarrow> avl t)"

lemma tree_ok_same:
  assumes "\<And>i. i \<in> set (ids t) \<Longrightarrow> same_at c c' i"
  shows "tree_ok g balance c' root t = tree_ok g balance c root t" "elems c' t = elems c t"
proof -
  show "elems c' t = elems c t" using assms by (simp add: same_at_def)
  then have "map g (elems c' t) = map g (elems c t)" by presburger
  moreover have "rep c' AVL_CORE_NIL t = rep c AVL_CORE_NIL t" by (rule rep_cong) (use assms in \<open>simp add: same_at_def\<close>)
  ultimately show "tree_ok g balance c' root t = tree_ok g balance c root t" unfolding tree_ok_def by presburger
qed

lemma insort_between:
  "\<forall>x\<in>set xs. g x < g e \<Longrightarrow> \<forall>y\<in>set ys. g e < g y \<Longrightarrow> insort_key g e (xs @ ys) = xs @ e # ys"
proof (induction xs)
  case Nil
  then show ?case by (cases ys) (auto simp: less_imp_le)
qed auto

definition insert_spec :: "('e \<Rightarrow> 'k :: linorder) \<Rightarrow> bool \<Rightarrow> 'e AvlCore \<Rightarrow> u32 set \<Rightarrow> shape \<Rightarrow> 'e \<Rightarrow> (nat \<times> u32 \<times> 'e AvlCore) option \<Rightarrow> bool" where
  "insert_spec g balance c U t e res \<longleftrightarrow> (\<exists>root' c' t' n. res = Some (1, root', c') \<and> n \<notin> U \<and> pool_ok c' (insert n U) \<and>
     tree_ok g balance c' root' t' \<and> set (ids t') = insert n (set (ids t)) \<and> elems c' t' = insort_key g e (elems c t) \<and>
     av_capacity c' = av_capacity c \<and> (\<forall>i\<in>U - set (ids t). same_at c c' i))"

lemma insert_result:
  fixes g :: "'e \<Rightarrow> 'k :: linorder" and c :: "'e AvlCore"
  assumes "compares cmp g g" "pool_ok c U" "tree_ok g balance c root t" "set (ids t) \<subseteq> U"
  shows "if g e \<in> g ` set (elems c t) \<or> av_count c = unat (av_capacity c) then avl_core_insert cmp (root, c) e balance = Some (0, root, c)
    else insert_spec g balance c U t e (avl_core_insert cmp (root, c) e balance)"
proof -
  let ?d = "descend cmp c e AVL_CORE_NIL 0 root"
  have t: "rep c AVL_CORE_NIL t" "root = idx t" "distinct (ids t)" "ordered g c t" "balance \<Longrightarrow> avl t" using assms(3) by (auto simp: tree_ok_def)
  have "place g c (g e) [] 0" by (simp add: place_def)
  from descend_result [OF assms(1), where ctx = "[]", OF _ t(4) this] t(1,2)
  have ds: "descend_spec g c (g e) (g e \<in> g ` set (elems c t)) t ?d" by simp
  obtain n c1 where al: "alloc_node c = (n, c1)" by force
  note A = alloc_node_result [OF assms(2) al]
  consider "g e \<in> g ` set (elems c t)" | "g e \<notin> g ` set (elems c t)" "av_count c = unat (av_capacity c)"
    | "g e \<notin> g ` set (elems c t)" "av_count c \<noteq> unat (av_capacity c)" by blast
  then show ?thesis
  proof cases
    case 1
    then show ?thesis using ds by (simp add: descend_spec_def avl_core_insert_def)
  next
    case 2
    then show ?thesis using ds A al by (auto simp: descend_spec_def avl_core_insert_def)
  next
    case 3
    obtain ctx cm where D: "?d = Some (Some (pidx ctx, cm))" "plug ctx Leaf = t" "place g c (g e) ctx cm"
      using ds 3(1) by (auto simp: descend_spec_def)
    have n: "n \<noteq> AVL_CORE_NIL" "n \<notin> U" "c1 = c\<lparr>av_free_head := n_left c n\<rparr>" "pool_free c1 (insert n U)" using A 3(2) by auto
    have c1: "n_left c1 = n_left c" "n_right c1 = n_right c" "n_parent c1 = n_parent c" "n_bal c1 = n_bal c"
      "avl_core_payload c1 = avl_core_payload c" "av_count c1 = av_count c" "av_capacity c1 = av_capacity c" by (simp_all add: n(3))
    have idc: "set (ids t) = set (cids ctx)" "distinct (cids ctx)" "ids t = lids ctx @ rids ctx"
      using D(2) t(3) distinct_plug [where ctx = ctx and t = Leaf] ids_plug [where ctx = ctx and t = Leaf] set_ids_plug [where ctx = ctx and t = Leaf] by auto
    have nc: "n \<notin> set (cids ctx)" using n(2) assms(4) idc(1) by auto
    have "repc c root (idx Leaf) ctx" using rep_plug [where c = c and ctx = ctx and t = Leaf and root = root] t(1,2) D(2) by blast
    then have rc: "repc c1 root AVL_CORE_NIL ctx" using repc_cong [of ctx c1 c] by (simp add: c1)
    obtain root2 c2 where ll: "link_leaf n (pidx ctx) cm e (root, c1) = (root2, c2)" by force
    have sg: "ctx = [] \<or> (cm < 0 \<longleftrightarrow> is_left (hd ctx))" using D(3) by (simp add: place_def)
    note L = link_leaf_result [OF rc sg idc(2) nc n(1) ll]
    let ?t = "Node Leaf (n, 0) Leaf"
    let ?S = "insert n (set (ids t))"
    have L7: "same_at c c2 i" if "i \<notin> ?S" for i using L(7) [of i] that by (simp add: same_at_def c1 idc(1))
    have av2: "balance \<Longrightarrow> avlc 0 ctx" using t(5) avl_plug [where ctx = ctx and t = Leaf] D(2) by simp
    have "retraced (if balance then avl_retrace_insert n (n_parent c2 n) (root2, c2) else Some (root2, c2)) (ids (plug ctx ?t)) ?S c2 \<or>
      (\<not> balance \<and> rep c2 AVL_CORE_NIL (plug ctx ?t) \<and> root2 = idx (plug ctx ?t))"
    proof (cases balance)
      case True
      have "retraced (avl_retrace_insert (idx ?t) (pidx ctx) (root2, c2)) (ids (plug ctx ?t)) (set (ids ?t @ cids ctx)) c2"
        by (rule retrace_insert [where h = 0]) (use L(1,2) nc idc(2) av2 True in auto)
      moreover have "n_parent c2 n = pidx ctx" using L(1) by simp
      ultimately show ?thesis using True by (simp add: idc(1))
    next
      case False
      then show ?thesis using rep_plug [where c = c2 and ctx = ctx and t = ?t and root = root2] L(1,2) by simp
    qed
    then obtain root3 c3 t3 where R: "(if balance then avl_retrace_insert n (n_parent c2 n) (root2, c2) else Some (root2, c2)) = Some (root3, c3)"
      "rep c3 AVL_CORE_NIL t3" "root3 = idx t3" "balance \<Longrightarrow> avl t3" "ids t3 = ids (plug ctx ?t)" "only_links ?S c2 c3"
      by (cases balance) (auto simp: retraced_def)
    have run: "avl_core_insert cmp (root, c) e balance = Some (1, root3, c3)"
      using D(1) al n(1) ll R(1) by (cases balance) (auto simp: avl_core_insert_def)
    have i3: "ids t3 = lids ctx @ n # rids ctx" using R(5) by (simp add: ids_plug)
    have pay: "avl_core_payload c3 = (avl_core_payload c)(n := e)" "av_count c3 = av_count c + 1" "av_capacity c3 = av_capacity c" "av_free_head c3 = av_free_head c1"
      using L(3-6) only_linksD(2) [OF R(6)] by (simp_all add: c1)
    have nl: "n \<notin> set (lids ctx)" "n \<notin> set (rids ctx)" using nc idc(1,3) by auto
    have el: "elems c3 t3 = map (avl_core_payload c) (lids ctx) @ e # map (avl_core_payload c) (rids ctx)"
      using nl by (auto simp: i3 pay)
    also have "\<dots> = insort_key g e (elems c t)"
      using insort_between [of "map (avl_core_payload c) (lids ctx)" g e "map (avl_core_payload c) (rids ctx)"] D(3) by (simp add: place_def idc(3))
    finally have els: "elems c3 t3 = insort_key g e (elems c t)" .
    have "ordered g c3 t3" using D(3) t(4) unfolding el by (auto simp: idc(3) sorted_wrt_append place_def intro: less_trans)
    moreover have "distinct (ids t3)" using t(3) nl by (auto simp: i3 idc(3))
    ultimately have ok: "tree_ok g balance c3 root3 t3" using R(2-4) by (simp add: tree_ok_def)
    have out: "same_at c c3 i" if "i \<notin> ?S" for i using same_at_trans [OF L7 only_links_same [OF R(6)]] that by blast
    have "pool_free c3 (insert n U)"
      by (rule pool_free_cong [OF n(4)]) (use out assms(4) in \<open>auto simp: pay c1 same_at_def\<close>)
    moreover have "av_count c3 = card (insert n U)" using assms(2) n(2) by (simp add: pay pool_ok_def)
    ultimately have pk: "pool_ok c3 (insert n U)" by (simp add: pool_ok_def)
    have "set (ids t3) = insert n (set (ids t))" by (simp add: i3 idc(3))
    moreover have "\<forall>i\<in>U - set (ids t). same_at c c3 i" using out n(2) by (metis DiffE insertE)
    ultimately have "insert_spec g balance c U t e (avl_core_insert cmp (root, c) e balance)"
      unfolding insert_spec_def using run n(2) pk ok els pay(3) by blast
    then show ?thesis using 3 by simp
  qed
qed

end
