(* ===== verification/Avl_Remove.thy ===== *)
theory Avl_Remove
  imports Avl_Tree
begin

text \<open>
  Removal from a tree in the pool, and the walks along the order of the elements.
\<close>

section \<open>Opening a tree at a node\<close>

lemma ids_split: "i \<in> set (ids t) \<Longrightarrow> \<exists>ctx l b r. t = plug ctx (Node l (i, b) r)"
proof (induction t)
  case (Node l jb r)
  obtain j b where jb: "jb = (j, b)" by force
  consider "i = j" | "i \<in> set (ids l)" | "i \<in> set (ids r)" using Node.prems by (auto simp: jb)
  then show ?case
  proof cases
    case 1
    then show ?thesis by (intro exI [of _ "[]"]) (simp add: jb)
  next
    case 2
    then obtain ctx l' b' r' where "l = plug ctx (Node l' (i, b') r')" using Node.IH(1) by blast
    then have "Node l jb r = plug (ctx @ [InL j b r]) (Node l' (i, b') r')" by (simp add: jb)
    then show ?thesis by blast
  next
    case 3
    then obtain ctx l' b' r' where "r = plug ctx (Node l' (i, b') r')" using Node.IH(2) by blast
    then have "Node l jb r = plug (ctx @ [InR l j b]) (Node l' (i, b') r')" by (simp add: jb)
    then show ?thesis by blast
  qed
qed simp

lemma lids_append [simp]: "lids (xs @ ys) = lids ys @ lids xs"
  by (induction xs rule: lids.induct) auto

lemma rids_append [simp]: "rids (xs @ ys) = rids xs @ rids ys"
  by (induction xs rule: rids.induct) auto

lemma walk_left_result:
  assumes "rep c par t" "t \<noteq> Leaf"
  shows "\<exists>ctx x b r. t = plug ctx (Node Leaf (x, b) r) \<and> lids ctx = [] \<and> walk_left c (idx t) = Some x"
  using assms
proof (induction t arbitrary: par)
  case (Node l jb r)
  obtain j b where jb: "jb = (j, b)" by force
  have p: "n_left c j = idx l" "rep c j l" using Node.prems(1) by (auto simp: jb)
  note step = walk_left.simps [of c j]
  show ?case
  proof (cases "l = Leaf")
    case True
    then show ?thesis using p(1) step by (intro exI [of _ "[]"]) (simp add: jb)
  next
    case False
    obtain ctx x b' r' where ih: "l = plug ctx (Node Leaf (x, b') r')" "lids ctx = []" "walk_left c (idx l) = Some x"
      using Node.IH(1) [OF p(2) False] by blast
    have "Node l jb r = plug (ctx @ [InL j b r]) (Node Leaf (x, b') r')" using ih(1) by (simp add: jb)
    moreover have "walk_left c (idx (Node l jb r)) = Some x" using ih(3) p idx_nil [OF p(2)] False step by (simp add: jb)
    moreover have "lids (ctx @ [InL j b r]) = []" using ih(2) by simp
    ultimately show ?thesis by blast
  qed
qed simp

section \<open>Removal\<close>

definition only_child :: "shape \<Rightarrow> shape \<Rightarrow> shape" where
  "only_child l r = (if l \<noteq> Leaf then l else r)"

lemma unlink_result:
  fixes c :: "'e AvlCore"
  assumes rt: "rep c AVL_CORE_NIL (plug ctx (Node l (x, b) r))" "root = idx (plug ctx (Node l (x, b) r))"
    and dt: "distinct (ids (plug ctx (Node l (x, b) r)))" and lf: "l = Leaf \<or> r = Leaf"
    and av: "balance \<Longrightarrow> avl (plug ctx (Node l (x, b) r))" and pl: "pool_ok c U" "set (ids (plug ctx (Node l (x, b) r))) \<subseteq> U"
  shows "\<exists>root' c' t'. unlink_node x balance (root, c) = Some (root', c') \<and> rep c' AVL_CORE_NIL t' \<and> root' = idx t' \<and>
    ids t' = lids ctx @ ids l @ ids r @ rids ctx \<and> (balance \<longrightarrow> avl t') \<and> pool_ok c' (U - {x}) \<and>
    avl_core_payload c' = avl_core_payload c \<and> av_capacity c' = av_capacity c \<and>
    (\<forall>i\<in>U - set (ids (plug ctx (Node l (x, b) r))). same_at c c' i)"
proof -
  let ?t = "Node l (x, b) r" and ?c = "only_child l r"
  have rp: "rep c (pidx ctx) ?t" "repc c root x ctx" using rep_plug [where c = c and ctx = ctx and t = ?t and root = root] rt by auto
  have f: "n_left c x = idx l" "n_right c x = idx r" "n_parent c x = pidx ctx" "x \<noteq> AVL_CORE_NIL" "rep c x l" "rep c x r" using rp(1) by auto
  have ch: "rep c x ?c" "(if n_left c x \<noteq> AVL_CORE_NIL then n_left c x else n_right c x) = idx ?c" "ids ?c = ids l @ ids r"
    using f lf idx_nil [OF f(5)] by (auto simp: only_child_def)
  have ds: "distinct (cids ctx @ ids ?t)" using dt distinct_plug [where ctx = ctx and t = ?t] by simp
  have xn: "x \<notin> set (cids ctx)" "x \<notin> set (ids ?c)" "distinct (cids ctx)" "distinct (ids ?c @ cids ctx)" using ds by (auto simp: ch(3))
  have "idx ?c \<notin> set (cids ctx)"
    using idx_in [of ?c] xn(4) repc_no_nil [OF rp(2)] by (cases "?c = Leaf") auto
  note cn = this
  obtain root1 c1 where rc: "replace_child (pidx ctx) x (idx ?c) (root, c) = (root1, c1)" by force
  note R = replace_child_rep [OF rp(2) xn(3) f(4) xn(1) cn rc]
  have inil: "idx ?c = AVL_CORE_NIL \<longleftrightarrow> ?c = Leaf" by (rule idx_nil [OF ch(1)])
  have r1: "rep c1 (pidx ctx) ?c"
  proof (rule rep_move [OF ch(1)])
    show "distinct (ids ?c)" using xn(4) by simp
    show "n_left c1 i = n_left c i \<and> n_right c1 i = n_right c i \<and> n_bal c1 i = n_bal c i" if "i \<in> set (ids ?c)" for i
      using R(2) [of i] R(4) that xn(4) by auto
  qed (use R(3) inil in auto)
  let ?ll = "pidx ctx \<noteq> AVL_CORE_NIL \<and> n_left c (pidx ctx) = x"
  let ?res = "if balance \<and> pidx ctx \<noteq> AVL_CORE_NIL then avl_retrace_remove (pidx ctx) ?ll (root1, c1) else Some (root1, c1)"
  let ?S = "set (ids ?c @ cids ctx)"
  have nil: "pidx ctx = AVL_CORE_NIL \<longleftrightarrow> ctx = []" by (rule pidx_nil [OF rp(2)])
  have "\<exists>root2 c2 t2. ?res = Some (root2, c2) \<and> rep c2 AVL_CORE_NIL t2 \<and> root2 = idx t2 \<and> (balance \<longrightarrow> avl t2) \<and>
    ids t2 = ids (plug ctx ?c) \<and> only_links ?S c1 c2"
  proof (cases "balance \<and> ctx \<noteq> []")
    case True
    have "avl ?t" "avlc (height ?t) ctx" using True av avl_plug [where ctx = ctx and t = ?t] by auto
    then have ac: "avl ?c" "avlc (Suc (height ?c)) ctx" using lf by (auto simp: only_child_def)
    have ll: "ctx = [] \<or> ?ll = is_left (hd ctx)" using came_from [OF rp(2) _ f(4) xn(1)] nil True by auto
    show ?thesis using retrace_remove [OF r1 R(1) xn(4) ac(1) refl ac(2) ll] True nil unfolding retraced_def by auto
  next
    case False
    have "rep c1 AVL_CORE_NIL (plug ctx ?c) \<and> root1 = idx (plug ctx ?c)" using rep_plug [where c = c1 and ctx = ctx and t = ?c and root = root1] r1 R(1) by blast
    moreover have "balance \<longrightarrow> avl (plug ctx ?c)" using False lf av by (auto simp: only_child_def)
    ultimately show ?thesis using False nil by auto
  qed
  then obtain root2 c2 t2 where T: "?res = Some (root2, c2)" "rep c2 AVL_CORE_NIL t2" "root2 = idx t2" "balance \<longrightarrow> avl t2"
    "ids t2 = ids (plug ctx ?c)" "only_links ?S c1 c2" by blast
  define c3 where "c3 = (free_node x c2)\<lparr>av_count := av_count c2 - 1\<rparr>"
  have run: "unlink_node x balance (root, c) = Some (root2, c3)"
    unfolding unlink_node_def Let_def snd_conv ch(2) f(3) rc T(1) by (simp add: c3_def free_node_def)
  have c3: "n_left c3 = (n_left c2)(x := av_free_head c2)" "n_right c3 = n_right c2" "n_parent c3 = n_parent c2" "n_bal c3 = n_bal c2"
    "avl_core_payload c3 = avl_core_payload c2" "av_capacity c3 = av_capacity c2" "av_count c3 = av_count c2 - 1"
    by (simp_all add: c3_def free_node_def)
  let ?A = "insert (idx ?c) ?S"
  have ol: "only_links ?A c c2" by (rule only_links_trans [OF R(5) T(6)]) auto
  note fr = only_linksD(2) [OF ol]
  have i2: "ids t2 = lids ctx @ ids l @ ids r @ rids ctx" using T(5) by (simp add: ids_plug ch(3))
  have si: "set (ids ?t) \<union> set (cids ctx) = set (ids (plug ctx ?t))" by auto
  have xi: "x \<notin> set (ids t2)" using xn(1,2) T(5) by simp
  have "rep c3 AVL_CORE_NIL t2 = rep c2 AVL_CORE_NIL t2" by (rule rep_cong) (use xi in \<open>auto simp: c3\<close>)
  then have rep3: "rep c3 AVL_CORE_NIL t2" using T(2) by simp
  have U: "x \<in> U" "?S \<subseteq> U" "U \<subseteq> {..<av_capacity c}" using pl ch(3) unfolding si [symmetric] by (auto simp: pool_ok_def pool_free_def)
  have out: "i \<notin> ?A" if "i < av_capacity c" "i \<notin> ?S" for i
    using that below_not_nil [OF that(1)] inil idx_in [of ?c] by (cases "?c = Leaf") auto
  have "pool_free c2 U"
  proof (rule pool_free_cong)
    show "pool_free c U" using pl(1) by (simp add: pool_ok_def)
    show "n_left c2 i = n_left c i" if "i \<notin> U" "i < av_capacity c" for i
      using only_linksD(1) [OF ol out [OF that(2)]] that(1) U(2) by blast
  qed (use fr in simp_all)
  then have "pool_free (free_node x c2) (U - {x})" using free_node_result [of c2 x "U - {x}"] U(1) f(4) by (simp add: insert_absorb)
  then have "pool_free c3 (U - {x})" by (rule pool_free_cong) (simp_all add: c3_def)
  moreover have "av_count c3 = card (U - {x})" using pl(1) U(1) fr by (simp add: c3 pool_ok_def card_Diff_singleton)
  ultimately have pk: "pool_ok c3 (U - {x})" by (simp add: pool_ok_def)
  have "\<forall>i\<in>U - set (ids (plug ctx ?t)). same_at c c3 i"
  proof
    fix i assume i: "i \<in> U - set (ids (plug ctx ?t))"
    then have "i < av_capacity c" "i \<notin> ?S" "i \<noteq> x" using U(3) unfolding si [symmetric] by (auto simp: ch(3))
    then show "same_at c c3 i" using only_links_same [OF ol out] by (simp add: same_at_def c3)
  qed
  then show ?thesis using run rep3 T(3,4) i2 pk fr c3(5,6) by auto
qed

lemma unlink_tree:
  assumes T: "t = plug ctx (Node l (x, b) r)" and "rep c AVL_CORE_NIL t" "root = idx t" "distinct (ids t)" "l = Leaf \<or> r = Leaf"
    and "balance \<Longrightarrow> avl t" "pool_ok c U" "set (ids t) \<subseteq> U"
  shows "\<exists>root' c' t'. unlink_node x balance (root, c) = Some (root', c') \<and> rep c' AVL_CORE_NIL t' \<and> root' = idx t' \<and>
    ids t' = lids ctx @ ids l @ ids r @ rids ctx \<and> (balance \<longrightarrow> avl t') \<and> pool_ok c' (U - {x}) \<and>
    avl_core_payload c' = avl_core_payload c \<and> av_capacity c' = av_capacity c \<and> (\<forall>i\<in>U - set (ids t). same_at c c' i)"
  using assms(2-) unfolding T by (intro unlink_result) assumption+

lemma filter_between:
  fixes g :: "'e \<Rightarrow> 'k :: linorder"
  assumes "sorted_wrt (<) (map g (xs @ e # ys))"
  shows "filter (\<lambda>a. g a \<noteq> g e) (xs @ e # ys) = xs @ ys"
proof -
  have "\<forall>a\<in>set xs. g a \<noteq> g e" "\<forall>a\<in>set ys. g a \<noteq> g e" using assms by (auto simp: sorted_wrt_append)
  then show ?thesis by (simp add: filter_id_conv)
qed

lemma sorted_filter_key: "sorted_wrt (<) (map g xs) \<Longrightarrow> sorted_wrt (<) (map g (filter P xs))"
  by (simp add: sorted_wrt_map sorted_wrt_filter)

definition remove_spec :: "('e \<Rightarrow> 'k :: linorder) \<Rightarrow> bool \<Rightarrow> 'e AvlCore \<Rightarrow> u32 set \<Rightarrow> shape \<Rightarrow> 'k \<Rightarrow> ('e option \<times> u32 \<times> 'e AvlCore) option \<Rightarrow> bool" where
  "remove_spec g balance c U t k res \<longleftrightarrow> (\<exists>e root' c' t' x. res = Some (Some e, root', c') \<and> e \<in> set (elems c t) \<and> g e = k \<and>
     x \<in> set (ids t) \<and> set (ids t') = set (ids t) - {x} \<and> pool_ok c' (U - {x}) \<and> tree_ok g balance c' root' t' \<and>
     elems c' t' = filter (\<lambda>a. g a \<noteq> k) (elems c t) \<and> av_capacity c' = av_capacity c \<and> (\<forall>i\<in>U - set (ids t). same_at c c' i))"

lemma remove_spec_intro:
  assumes "tree_ok g balance c root t" "res = Some (Some e, root', c')" "ids t = xs @ z # ys" "e = avl_core_payload c z"
    and "pool_ok c' (U - {x})" "rep c' AVL_CORE_NIL t'" "root' = idx t'" "balance \<longrightarrow> avl t'"
    and "x \<in> set (ids t)" "set (ids t') = set (ids t) - {x}" "distinct (ids t')" "elems c' t' = map (avl_core_payload c) (xs @ ys)"
    and "av_capacity c' = av_capacity c" "\<forall>i\<in>U - set (ids t). same_at c c' i"
  shows "remove_spec g balance c U t (g e) res"
proof -
  have "filter (\<lambda>a. g a \<noteq> g e) (elems c t) = elems c' t'"
    using filter_between [of g "map (avl_core_payload c) xs" e "map (avl_core_payload c) ys"] assms(1,3,4,12) by (simp add: tree_ok_def)
  moreover have "ordered g c' t'"
    using sorted_filter_key [of g "elems c t" "\<lambda>a. g a \<noteq> g e"] assms(1) calculation by (simp add: tree_ok_def)
  moreover have "e \<in> set (elems c t)" using assms(3,4) by simp
  ultimately show ?thesis using assms unfolding remove_spec_def tree_ok_def by (metis (lifting))
qed

lemma remove_result:
  fixes g :: "'e \<Rightarrow> 'k :: linorder" and c :: "'e AvlCore"
  assumes "compares cmp f g" "pool_ok c U" "tree_ok g balance c root t" "set (ids t) \<subseteq> U"
  shows "if f a \<in> g ` set (elems c t) then remove_spec g balance c U t (f a) (avl_core_remove cmp (root, c) a balance)
    else avl_core_remove cmp (root, c) a balance = Some (None, root, c)"
proof -
  have t: "rep c AVL_CORE_NIL t" "root = idx t" "distinct (ids t)" "ordered g c t" "balance \<Longrightarrow> avl t" using assms(3) by (auto simp: tree_ok_def)
  have fs: "find_spec g c t (f a) (avl_core_find cmp c a root)" using find_result [OF assms(1) t(1,4)] t(2) by simp
  show ?thesis
  proof (cases "f a \<in> g ` set (elems c t)")
    case False
    then show ?thesis using fs by (simp add: find_spec_def avl_core_remove_def)
  next
    case True
    then obtain z where z: "avl_core_find cmp c a root = Some z" "z \<in> set (ids t)" "g (avl_core_payload c z) = f a"
      using fs by (auto simp: find_spec_def)
    have zn: "z \<noteq> AVL_CORE_NIL" using rep_no_nil [OF t(1)] z(2) by auto
    obtain ctx l b r where T: "t = plug ctx (Node l (z, b) r)" using ids_split [OF z(2)] by blast
    have rz: "rep c (pidx ctx) (Node l (z, b) r)" using rep_plug [where c = c and ctx = ctx and t = "Node l (z, b) r" and root = root] t(1,2) T by simp
    have two: "n_left c z \<noteq> AVL_CORE_NIL \<and> n_right c z \<noteq> AVL_CORE_NIL \<longleftrightarrow> l \<noteq> Leaf \<and> r \<noteq> Leaf"
      using rz idx_nil [of c z l] idx_nil [of c z r] by simp
    have it: "ids t = (lids ctx @ ids l) @ z # ids r @ rids ctx" by (simp add: T ids_plug)
    have "remove_spec g balance c U t (g (avl_core_payload c z)) (avl_core_remove cmp (root, c) a balance)"
    proof (cases "l \<noteq> Leaf \<and> r \<noteq> Leaf")
      case False
      have run: "avl_core_remove cmp (root, c) a balance = map_option (Pair (Some (avl_core_payload c z))) (unlink_node z balance (root, c))"
        using z(1) zn two False by (auto simp: avl_core_remove_def Let_def)
      obtain root' c' t' where u: "unlink_node z balance (root, c) = Some (root', c')" "rep c' AVL_CORE_NIL t'" "root' = idx t'"
        "ids t' = lids ctx @ ids l @ ids r @ rids ctx" "balance \<longrightarrow> avl t'" "pool_ok c' (U - {z})"
        "avl_core_payload c' = avl_core_payload c" "av_capacity c' = av_capacity c" "\<forall>i\<in>U - set (ids t). same_at c c' i"
        using unlink_tree [OF T t(1-3) _ t(5) assms(2,4)] False by blast
      show ?thesis
        by (rule remove_spec_intro [OF assms(3) _ it refl u(6,2,3,5) z(2)]) (use run u(1,4,7-9) it t(3) in auto)
    next
      case True
      have rr: "rep c z r" using rz by simp
      obtain ctx2 s bs rs where S: "r = plug ctx2 (Node Leaf (s, bs) rs)" "lids ctx2 = []" "walk_left c (idx r) = Some s"
        using walk_left_result [OF rr] True by blast
      let ?c = "set_payload z (avl_core_payload c s) c"
      have sm: "subtree_min c (n_right c z) = Some s" using S(3) rz True idx_nil [OF rr] by (simp add: subtree_min_def)
      have run: "avl_core_remove cmp (root, c) a balance = map_option (Pair (Some (avl_core_payload c z))) (unlink_node s balance (root, ?c))"
        using z(1) zn two True sm by (simp add: avl_core_remove_def Let_def)
      let ?ctx = "ctx2 @ InR l z b # ctx"
      have T2: "t = plug ?ctx (Node Leaf (s, bs) rs)" by (simp add: T S(1))
      have t1: "rep ?c AVL_CORE_NIL t" using t(1) rep_cong [of t ?c c] by simp
      have pk: "pool_ok ?c U" using assms(2) pool_free_cong [of c U ?c] by (simp add: pool_ok_def)
      obtain root' c' t' where u: "unlink_node s balance (root, ?c) = Some (root', c')" "rep c' AVL_CORE_NIL t'" "root' = idx t'"
        "ids t' = lids ?ctx @ ids rs @ rids ?ctx" "balance \<longrightarrow> avl t'" "pool_ok c' (U - {s})"
        "avl_core_payload c' = avl_core_payload ?c" "av_capacity c' = av_capacity ?c" "\<forall>i\<in>U - set (ids t). same_at ?c c' i"
        using unlink_tree [OF T2 t1 t(2,3) _ t(5) pk assms(4), unfolded ids.simps append_Nil] by blast
      have ir: "ids r = s # ids rs @ rids ctx2" by (simp add: S(1,2) ids_plug)
      have sn: "s \<noteq> z" "s \<in> set (ids t)" using t(3) by (auto simp: it ir)
      have it': "ids t' = (lids ctx @ ids l) @ z # ids rs @ rids ctx2 @ rids ctx" by (simp add: u(4) S(2))
      have zr: "z \<notin> set (lids ctx @ ids l)" "z \<notin> set (ids rs @ rids ctx2 @ rids ctx)" using t(3) by (auto simp: it ir)
      show ?thesis
      proof (rule remove_spec_intro [OF assms(3) _ it refl u(6,2,3,5) sn(2)])
        show "set (ids t') = set (ids t) - {s}" using t(3) by (auto simp: it it' ir)
        show "distinct (ids t')" using t(3) by (auto simp: it it' ir)
        show "elems c' t' = map (avl_core_payload c) ((lids ctx @ ids l) @ ids r @ rids ctx)" using zr by (simp add: it' ir u(7))
        show "\<forall>i\<in>U - set (ids t). same_at c c' i" using u(9) z(2) by (auto simp: same_at_def)
      qed (use run u(1,8) in simp_all)
    qed
    then show ?thesis using True z(3) by simp
  qed
qed

end
