(* ===== verification/Avl_Walk.thy ===== *)
theory Avl_Walk
  imports Avl_Remove
begin

text \<open>
  The cursor walks: \<open>avl_core_next\<close> and \<open>avl_core_prev\<close> step along the in-order list of nodes without a stack,
  by descending or by climbing parent links. And the free list a cleared container starts from.
\<close>

section \<open>Climbing\<close>

lemma climb_next_result:
  assumes "repc c root x ctx" "x \<noteq> AVL_CORE_NIL" "x \<notin> set (cids ctx)" "distinct (cids ctx)"
  shows "climb_next c x (pidx ctx) = Some (hd (rids ctx @ [AVL_CORE_NIL]))"
  using assms
proof (induction ctx arbitrary: x)
  case Nil
  then show ?case by (simp add: climb_next.simps)
next
  case (Cons f ctx)
  note step = climb_next.simps [of c x "pidx (f # ctx)"]
  show ?case
  proof (cases f)
    case (InL i b r)
    have "idx r \<noteq> x" using Cons.prems(2,3) idx_in [of r] unfolding InL by (cases "r = Leaf") auto
    then show ?thesis using Cons.prems(1) step unfolding InL by simp
  next
    case (InR l i b)
    have "climb_next c i (pidx ctx) = Some (hd (rids ctx @ [AVL_CORE_NIL]))"
      by (rule Cons.IH) (use Cons.prems in \<open>auto simp: InR\<close>)
    then show ?thesis using Cons.prems(1) step unfolding InR by simp
  qed
qed

lemma climb_prev_result:
  assumes "repc c root x ctx" "x \<noteq> AVL_CORE_NIL" "x \<notin> set (cids ctx)" "distinct (cids ctx)"
  shows "climb_prev c x (pidx ctx) = Some (last (AVL_CORE_NIL # lids ctx))"
  using assms
proof (induction ctx arbitrary: x)
  case Nil
  then show ?case by (simp add: climb_prev.simps)
next
  case (Cons f ctx)
  note step = climb_prev.simps [of c x "pidx (f # ctx)"]
  show ?case
  proof (cases f)
    case (InR l i b)
    have "idx l \<noteq> x" using Cons.prems(2,3) idx_in [of l] unfolding InR by (cases "l = Leaf") auto
    then show ?thesis using Cons.prems(1) step unfolding InR by simp
  next
    case (InL i b r)
    have "climb_prev c i (pidx ctx) = Some (last (AVL_CORE_NIL # lids ctx))"
      by (rule Cons.IH) (use Cons.prems in \<open>auto simp: InL\<close>)
    then show ?thesis using Cons.prems(1) step unfolding InL by simp
  qed
qed

lemma walk_right_result:
  assumes "rep c par t" "t \<noteq> Leaf"
  shows "\<exists>ctx x b l. t = plug ctx (Node l (x, b) Leaf) \<and> rids ctx = [] \<and> walk_right c (idx t) = Some x"
  using assms
proof (induction t arbitrary: par)
  case (Node l jb r)
  obtain j b where jb: "jb = (j, b)" by force
  have p: "n_right c j = idx r" "rep c j r" using Node.prems(1) by (auto simp: jb)
  note step = walk_right.simps [of c j]
  show ?case
  proof (cases "r = Leaf")
    case True
    then show ?thesis using p(1) step by (intro exI [of _ "[]"]) (simp add: jb)
  next
    case False
    obtain ctx x b' l' where ih: "r = plug ctx (Node l' (x, b') Leaf)" "rids ctx = []" "walk_right c (idx r) = Some x"
      using Node.IH(2) [OF p(2) False] by blast
    have "Node l jb r = plug (ctx @ [InR l j b]) (Node l' (x, b') Leaf)" using ih(1) by (simp add: jb)
    moreover have "walk_right c (idx (Node l jb r)) = Some x" using ih(3) p idx_nil [OF p(2)] False step by (simp add: jb)
    moreover have "rids (ctx @ [InR l j b]) = []" using ih(2) by simp
    ultimately show ?thesis by blast
  qed
qed simp

lemma subtree_min_result: "rep c par t \<Longrightarrow> subtree_min c (idx t) = Some (hd (ids t @ [AVL_CORE_NIL]))"
proof (cases "t = Leaf")
  case False
  assume r: "rep c par t"
  obtain ctx x b s where w: "t = plug ctx (Node Leaf (x, b) s)" "lids ctx = []" "walk_left c (idx t) = Some x"
    using walk_left_result [OF r False] by blast
  have "ids t = x # ids s @ rids ctx" unfolding w(1) ids_plug by (simp add: w(2))
  then show ?thesis using w(3) False idx_nil [OF r] by (simp add: subtree_min_def)
qed (simp add: subtree_min_def)

lemma subtree_max_result: "rep c par t \<Longrightarrow> subtree_max c (idx t) = Some (last (AVL_CORE_NIL # ids t))"
proof (cases "t = Leaf")
  case False
  assume r: "rep c par t"
  obtain ctx x b s where w: "t = plug ctx (Node s (x, b) Leaf)" "rids ctx = []" "walk_right c (idx t) = Some x"
    using walk_right_result [OF r False] by blast
  have "ids t = lids ctx @ ids s @ [x]" unfolding w(1) ids_plug by (simp add: w(2))
  then show ?thesis using w(3) False idx_nil [OF r] by (simp add: subtree_max_def)
qed (simp add: subtree_max_def)

lemma cursor_result:
  assumes "rep c AVL_CORE_NIL t" "distinct (ids t)" "ids t = xs @ i # ys" "i < av_capacity c"
  shows "avl_core_next c i = Some (hd (ys @ [AVL_CORE_NIL]))" "avl_core_prev c i = Some (last (AVL_CORE_NIL # xs))"
proof -
  have "i \<in> set (ids t)" using assms(3) by simp
  then obtain ctx l b r where T: "t = plug ctx (Node l (i, b) r)" using ids_split by blast
  let ?t = "Node l (i, b) r"
  have rp: "rep c (pidx ctx) ?t" "repc c (idx t) i ctx" using rep_plug [where c = c and ctx = ctx and t = ?t and root = "idx t"] assms(1) T by auto
  have f: "n_left c i = idx l" "n_right c i = idx r" "n_parent c i = pidx ctx" "i \<noteq> AVL_CORE_NIL" "rep c i l" "rep c i r" using rp(1) by auto
  have d: "i \<notin> set (cids ctx)" "distinct (cids ctx)" using assms(2) distinct_plug [where ctx = ctx and t = ?t] T by auto
  have "xs @ i # ys = (lids ctx @ ids l) @ i # ids r @ rids ctx" using assms(3) by (simp add: T ids_plug)
  moreover have "i \<notin> set xs" "i \<notin> set ys" using assms(2,3) by auto
  ultimately have e: "xs = lids ctx @ ids l" "ys = ids r @ rids ctx"
    using append_Cons_eq_iff [of i xs ys "lids ctx @ ids l" "ids r @ rids ctx"] by auto
  have c: "\<not> i \<ge> av_capacity c" using assms(4) by simp
  show "avl_core_next c i = Some (hd (ys @ [AVL_CORE_NIL]))"
  proof (cases "r = Leaf")
    case True
    then show ?thesis using climb_next_result [OF rp(2) f(4) d] f c by (simp add: avl_core_next_def e)
  next
    case False
    then have "hd (ids r @ [AVL_CORE_NIL]) = hd (ids r @ rids ctx @ [AVL_CORE_NIL])" by (cases "ids r") (use idx_in [of r] in auto)
    then show ?thesis using subtree_min_result [OF f(6)] False f c idx_nil [OF f(6)] by (simp add: avl_core_next_def e)
  qed
  show "avl_core_prev c i = Some (last (AVL_CORE_NIL # xs))"
  proof (cases "l = Leaf")
    case True
    then show ?thesis using climb_prev_result [OF rp(2) f(4) d] f c by (simp add: avl_core_prev_def e)
  next
    case False
    then have "ids l \<noteq> []" using idx_in [of l] by auto
    then show ?thesis using subtree_max_result [OF f(5)] False f c idx_nil [OF f(5)] by (simp add: avl_core_prev_def e)
  qed
qed

section \<open>The first free list\<close>

lemma build_from_left:
  "unat i + k = unat cap \<Longrightarrow> n_left (build_from cap k i c) j =
     (if i \<le> j \<and> j < cap then (if j + 1 < cap then j + 1 else AVL_CORE_NIL) else n_left c j)"
proof (induction k arbitrary: i c)
  case 0
  then have "i = cap" by (simp add: unsigned_word_eqI)
  then show ?case by (auto simp: not_le)
next
  case (Suc k)
  have "unat cap < 2 ^ 32" using unsigned_less [of cap, where ?'a = nat] by simp
  then have i: "unat (i + 1) = unat i + 1" using Suc.prems by (simp add: unat_word_ariths)
  have "i \<le> j \<longleftrightarrow> j = i \<or> i + 1 \<le> j" unfolding word_le_nat_alt i word_unat_eq_iff by linarith
  moreover have "i < cap" using Suc.prems by (simp add: word_less_nat_alt)
  moreover have "i < i + 1" by (simp add: word_less_nat_alt i)
  ultimately show ?case using Suc.IH [of "i + 1" "set_left i (if i + 1 < cap then i + 1 else AVL_CORE_NIL) c"] Suc.prems
    by (auto simp: i)
qed

lemma build_from_fields:
  "av_capacity (build_from cap k i c) = av_capacity c" "av_free_head (build_from cap k i c) = av_free_head c"
  "av_count (build_from cap k i c) = av_count c" "n_right (build_from cap k i c) = n_right c"
  "avl_core_payload (build_from cap k i c) = avl_core_payload c"
  by (induction k arbitrary: i c) simp_all

lemma chain_of_successors:
  assumes "\<And>j. j < cap \<Longrightarrow> n_left c j = (if j + 1 < cap then j + 1 else AVL_CORE_NIL)"
  shows "unat i + k = unat cap \<Longrightarrow> \<exists>fs. free_chain c (if i < cap then i else AVL_CORE_NIL) fs \<and> distinct fs \<and> set fs = {i..<cap}"
proof (induction k arbitrary: i)
  case 0
  then have "i = cap" by (simp add: unsigned_word_eqI)
  then show ?case by (intro exI [of _ "[]"]) simp
next
  case (Suc k)
  have "unat cap < 2 ^ 32" using unsigned_less [of cap, where ?'a = nat] by simp
  then have i: "unat (i + 1) = unat i + 1" "i < cap" using Suc.prems by (simp_all add: unat_word_ariths word_less_nat_alt)
  obtain fs where fs: "free_chain c (if i + 1 < cap then i + 1 else AVL_CORE_NIL) fs" "distinct fs" "set fs = {i + 1..<cap}"
    using Suc.IH [of "i + 1"] Suc.prems i(1) by auto
  have "{i..<cap} = insert i {i + 1..<cap}" "i \<notin> {i + 1..<cap}"
    using i by (auto simp: word_le_nat_alt word_less_nat_alt) (metis Suc_leI le_neq_implies_less unsigned_word_eqI)
  then show ?case using fs i(2) below_not_nil [OF i(2)] assms [OF i(2)] by (intro exI [of _ "i # fs"]) auto
qed

lemma build_freelist_result:
  assumes "av_count c = 0"
  shows "pool_ok (avl_core_build_freelist c) {}" "av_capacity (avl_core_build_freelist c) = av_capacity c"
proof -
  let ?cap = "av_capacity c" and ?c = "avl_core_build_freelist c"
  have f: "av_capacity ?c = ?cap" "av_count ?c = 0" "av_free_head ?c = (if 0 < ?cap then 0 else AVL_CORE_NIL)"
    by (simp_all add: avl_core_build_freelist_def Let_def build_from_fields assms)
  have "n_left ?c j = (if j + 1 < ?cap then j + 1 else AVL_CORE_NIL)" if "j < ?cap" for j
    using that by (simp add: avl_core_build_freelist_def Let_def build_from_left)
  then obtain fs where "free_chain ?c (if 0 < ?cap then 0 else AVL_CORE_NIL) fs" "distinct fs" "set fs = {0..<?cap}"
    using chain_of_successors [of ?cap ?c 0 "unat ?cap"] by auto
  then show "pool_ok ?c {}" unfolding pool_ok_def pool_free_def f by auto
  show "av_capacity ?c = ?cap" by (rule f(1))
qed

end
