(* ===== verification/Keyed_Set.thy ===== *)
theory Keyed_Set
  imports Prelude
begin

text \<open>
  The interface of a bounded set of keyed elements, as the ordered tree and the hash table offer it: an insertion
  that refuses a key already there or a full pool, a removal and a search that hand the element over. The provider
  promises each call against an abstract map; the client's theorem, proved once, is that a whole sequence of calls
  returns and gives the answers of the abstract map.
\<close>

datatype 'e set_op = SInsert 'e | SRemove 'e | SFind 'e

datatype 'e answer = Done nat | Found "'e option"

fun run_set ::
  "('s \<Rightarrow> 'e \<Rightarrow> (nat \<times> 's) option) \<Rightarrow> ('s \<Rightarrow> 'e \<Rightarrow> ('e option \<times> 's) option) \<Rightarrow> ('s \<Rightarrow> 'e \<Rightarrow> 'e option option) \<Rightarrow>
   'e set_op list \<Rightarrow> 's \<Rightarrow> ('e answer list \<times> 's) option" where
  "run_set ins del look [] s = Some ([], s)"
| "run_set ins del look (SInsert e # ops) s =
     (case ins s e of None \<Rightarrow> None | Some (r, s') \<Rightarrow> map_option (map_prod ((#) (Done r)) id) (run_set ins del look ops s'))"
| "run_set ins del look (SRemove e # ops) s =
     (case del s e of None \<Rightarrow> None | Some (r, s') \<Rightarrow> map_option (map_prod ((#) (Found r)) id) (run_set ins del look ops s'))"
| "run_set ins del look (SFind e # ops) s =
     (case look s e of None \<Rightarrow> None | Some r \<Rightarrow> map_option (map_prod ((#) (Found r)) id) (run_set ins del look ops s))"

text \<open>The specification: a map from keys, bounded by the number of nodes.\<close>

fun run_map :: "('e \<Rightarrow> 'k) \<Rightarrow> nat \<Rightarrow> 'e set_op list \<Rightarrow> ('k \<rightharpoonup> 'e) \<Rightarrow> 'e answer list \<times> ('k \<rightharpoonup> 'e)" where
  "run_map key room [] m = ([], m)"
| "run_map key room (SInsert e # ops) m =
     (if m (key e) = None \<and> card (dom m) < room then map_prod ((#) (Done 1)) id (run_map key room ops (m(key e \<mapsto> e)))
      else map_prod ((#) (Done 0)) id (run_map key room ops m))"
| "run_map key room (SRemove e # ops) m = map_prod ((#) (Found (m (key e)))) id (run_map key room ops (m(key e := None)))"
| "run_map key room (SFind e # ops) m = map_prod ((#) (Found (m (key e)))) id (run_map key room ops m)"

locale keyed_set =
  fixes ins :: "'s \<Rightarrow> 'e \<Rightarrow> (nat \<times> 's) option"
    and del :: "'s \<Rightarrow> 'e \<Rightarrow> ('e option \<times> 's) option"
    and look :: "'s \<Rightarrow> 'e \<Rightarrow> 'e option option"
    and stores :: "'s \<Rightarrow> ('k \<rightharpoonup> 'e) \<Rightarrow> bool"
    and room :: "'s \<Rightarrow> nat"
    and key :: "'e \<Rightarrow> 'k"
  assumes ins_law: "stores s m \<Longrightarrow> if m (key e) = None \<and> card (dom m) < room s
      then \<exists>s'. ins s e = Some (1, s') \<and> room s' = room s \<and> stores s' (m(key e \<mapsto> e)) else ins s e = Some (0, s)"
    and del_law: "stores s m \<Longrightarrow> if m (key e) = None then del s e = Some (None, s)
      else \<exists>s'. del s e = Some (m (key e), s') \<and> room s' = room s \<and> stores s' (m(key e := None))"
    and look_law: "stores s m \<Longrightarrow> look s e = Some (m (key e))"
begin

lemma run_refines:
  "stores s m \<Longrightarrow> \<exists>as s'. run_set ins del look ops s = Some (as, s') \<and> room s' = room s \<and> stores s' (snd (run_map key (room s) ops m)) \<and>
     as = fst (run_map key (room s) ops m)"
proof (induction ops arbitrary: s m)
  case (Cons x ops)
  show ?case
  proof (cases x)
    case (SInsert e)
    show ?thesis
    proof (cases "m (key e) = None \<and> card (dom m) < room s")
      case True
      then obtain s' where s': "ins s e = Some (1, s')" "room s' = room s" "stores s' (m(key e \<mapsto> e))"
        using ins_law [OF Cons.prems, of e] by auto
      show ?thesis using Cons.IH [OF s'(3)] s'(1,2) True by (auto simp del: fun_upd_apply simp: SInsert)
    next
      case False
      then have "ins s e = Some (0, s)" using ins_law [OF Cons.prems, of e] by simp
      then show ?thesis using Cons.IH [OF Cons.prems] False unfolding SInsert run_map.simps if_not_P [OF False] by auto
    qed
  next
    case (SRemove e)
    show ?thesis
    proof (cases "m (key e) = None")
      case True
      then have "del s e = Some (None, s)" "m(key e := None) = m" using del_law [OF Cons.prems, of e] by auto
      then show ?thesis using Cons.IH [OF Cons.prems] True by (auto simp: SRemove)
    next
      case False
      then obtain s' where s': "del s e = Some (m (key e), s')" "room s' = room s" "stores s' (m(key e := None))"
        using del_law [OF Cons.prems, of e] by auto
      show ?thesis using Cons.IH [OF s'(3)] s'(1,2) by (auto simp del: fun_upd_apply simp: SRemove)
    qed
  next
    case (SFind e)
    show ?thesis using Cons.IH [OF Cons.prems] look_law [OF Cons.prems, of e] by (auto simp: SFind)
  qed
qed simp

end

section \<open>The map of a list of elements\<close>

definition table :: "('e \<Rightarrow> 'k) \<Rightarrow> 'e list \<Rightarrow> 'k \<rightharpoonup> 'e" where
  "table key es = map_of (map (\<lambda>e. (key e, e)) es)"

lemma table_Some: "distinct (map key es) \<Longrightarrow> table key es k = Some e \<longleftrightarrow> e \<in> set es \<and> key e = k"
  unfolding table_def by (subst map_of_eq_Some_iff) (auto simp: comp_def)

lemma table_None: "table key es k = None \<longleftrightarrow> k \<notin> key ` set es"
  by (simp add: table_def map_of_eq_None_iff image_image)

lemma table_card: "distinct (map key es) \<Longrightarrow> card (dom (table key es)) = length es"
  using distinct_card [of "map key es"] by (auto simp: table_def dom_map_of_conv_image_fst image_image)

lemma table_eqI:
  assumes "distinct (map key es)" "distinct (map key es')" "set es' = set es"
  shows "table key es' = table key es"
proof
  fix k show "table key es' k = table key es k"
    using table_Some [OF assms(1), of k] table_Some [OF assms(2), of k] assms(3) by (metis option.exhaust)
qed

lemma table_insert:
  assumes "distinct (map key es)" "distinct (map key es')" "set es' = insert e (set es)" "key e \<notin> key ` set es"
  shows "table key es' = (table key es)(key e \<mapsto> e)"
proof -
  have "table key es' = table key (e # es)" by (rule table_eqI) (use assms in auto)
  then show ?thesis by (simp add: table_def)
qed

lemma table_remove:
  assumes "distinct (map key es)" "distinct (map key es')" "set es' = {a \<in> set es. key a \<noteq> k}"
  shows "table key es' = (table key es)(k := None)"
proof
  fix j show "table key es' j = ((table key es)(k := None)) j"
  proof (cases "j = k")
    case True
    then show ?thesis using table_None [of key es' k] assms(3) by auto
  next
    case False
    then have "table key es' j = Some e \<longleftrightarrow> table key es j = Some e" for e
      using table_Some [OF assms(1), of j] table_Some [OF assms(2), of j] assms(3) by auto
    then show ?thesis using False by (metis fun_upd_other option.exhaust)
  qed
qed

end
