(* ===== verification/Ordered_Tree.thy ===== *)
theory Ordered_Tree
  imports Avl_Walk Keyed_Set
begin

text \<open>
  The ordered tree (\<open>src/src/containers/tree.c\<close>), a facade over the engine with one root and a discipline, and the
  contracts of the engine. A null pointer argument is \<open>None\<close>; the tree pointer itself is not null. \<open>size_t\<close> is 64 bits.
\<close>

datatype TreeDiscipline = TREE_BST | TREE_AVL

abbreviation (input) TREE_NIL :: u32 where "TREE_NIL \<equiv> AVL_CORE_NIL"
abbreviation (input) TREE_NODE_OVERHEAD :: u64 where "TREE_NODE_OVERHEAD \<equiv> 16"

text \<open>\<open>t_pool\<close> holds the nodes with the owner's \<open>free_head\<close> and \<open>count\<close>.\<close>

record 'e Tree =
  t_pool :: "'e AvlCore"
  t_capacity :: u64
  t_element_size :: u64
  t_stride :: u64
  t_root :: u32
  t_discipline :: TreeDiscipline
  t_cmp :: "'e \<Rightarrow> 'e \<Rightarrow> int"

definition tree_core_ro :: "'e Tree \<Rightarrow> 'e AvlCore" where
  "tree_core_ro t = (t_pool t)\<lparr>av_capacity := ucast (t_capacity t)\<rparr>"

definition tree_core_rw :: "'e Tree \<Rightarrow> 'e AvlCore" where "tree_core_rw t = tree_core_ro t"

definition tree_pool_bytes :: "u64 \<Rightarrow> u64 \<Rightarrow> u64" where
  "tree_pool_bytes capacity element_size = capacity * (TREE_NODE_OVERHEAD + element_size)"

definition tree_pool_bytes_for_depth :: "u32 \<Rightarrow> u64 \<Rightarrow> u64" where
  "tree_pool_bytes_for_depth depth element_size =
     (if depth = 0 then 0 else if depth \<ge> 32 then 0
      else let nodes = push_bit (unat depth) 1 - 1 in tree_pool_bytes nodes element_size)"

definition tree_clear :: "'e Tree \<Rightarrow> 'e Tree" where
  "tree_clear t =
     (let c = (tree_core_rw t)\<lparr>av_count := 0\<rparr>
      in t\<lparr>t_root := TREE_NIL, t_pool := avl_core_build_freelist c\<rparr>)"

definition tree_init ::
  "TreeDiscipline \<Rightarrow> ('e \<Rightarrow> 'e \<Rightarrow> int) option \<Rightarrow> 'e AvlCore option \<Rightarrow> u64 \<Rightarrow> u64 \<Rightarrow> 'e Tree option" where
  "tree_init discipline cmp pool pool_bytes element_size =
     (case (pool, cmp) of
        (Some pool, Some cmp) \<Rightarrow>
          if element_size = 0 then None
          else
            let stride = TREE_NODE_OVERHEAD + element_size; capacity = pool_bytes div stride in
            if capacity = 0 \<or> capacity \<ge> ucast TREE_NIL then None
            else Some (tree_clear \<lparr>t_pool = pool, t_capacity = capacity, t_element_size = element_size, t_stride = stride,
                   t_root = TREE_NIL, t_discipline = discipline, t_cmp = cmp\<rparr>)
      | _ \<Rightarrow> None)"

definition tree_insert :: "'e Tree \<Rightarrow> 'e option \<Rightarrow> (nat \<times> 'e Tree) option" where
  "tree_insert t elem =
     (case elem of
        None \<Rightarrow> Some (0, t)
      | Some elem \<Rightarrow> map_option (\<lambda>(r, root, c). (r, t\<lparr>t_root := root, t_pool := c\<rparr>))
          (avl_core_insert (t_cmp t) (t_root t, tree_core_rw t) elem (t_discipline t = TREE_AVL)))"

definition tree_remove :: "'e Tree \<Rightarrow> 'e option \<Rightarrow> ('e option \<times> 'e Tree) option" where
  "tree_remove t key =
     (case key of
        None \<Rightarrow> Some (None, t)
      | Some key \<Rightarrow> map_option (\<lambda>(r, root, c). (r, t\<lparr>t_root := root, t_pool := c\<rparr>))
          (avl_core_remove (t_cmp t) (t_root t, tree_core_rw t) key (t_discipline t = TREE_AVL)))"

text \<open>The element found, \<open>Some None\<close> when there is none.\<close>

definition tree_find :: "'e Tree \<Rightarrow> 'e option \<Rightarrow> 'e option option" where
  "tree_find t key =
     (case key of
        None \<Rightarrow> Some None
      | Some key \<Rightarrow> map_option (\<lambda>n. if n = TREE_NIL then None else Some (avl_core_payload (tree_core_ro t) n))
          (avl_core_find (t_cmp t) (tree_core_ro t) key (t_root t)))"

definition tree_contains :: "'e Tree \<Rightarrow> 'e option \<Rightarrow> bool option" where
  "tree_contains t key =
     (case key of
        None \<Rightarrow> Some False
      | Some key \<Rightarrow> map_option (\<lambda>n. n \<noteq> TREE_NIL) (avl_core_find (t_cmp t) (tree_core_ro t) key (t_root t)))"

definition tree_count :: "'e Tree \<Rightarrow> nat" where "tree_count t = av_count (t_pool t)"
definition tree_empty :: "'e Tree \<Rightarrow> bool" where "tree_empty t \<longleftrightarrow> av_count (t_pool t) = 0"
definition tree_full :: "'e Tree \<Rightarrow> bool" where "tree_full t \<longleftrightarrow> av_count (t_pool t) \<ge> unat (t_capacity t)"

definition tree_begin :: "'e Tree \<Rightarrow> u32 option" where "tree_begin t = avl_core_min (tree_core_ro t) (t_root t)"
definition tree_rbegin :: "'e Tree \<Rightarrow> u32 option" where "tree_rbegin t = avl_core_max (tree_core_ro t) (t_root t)"

definition tree_next :: "'e Tree \<Rightarrow> u32 \<Rightarrow> u32 option" where
  "tree_next t cursor = (if ucast cursor \<ge> t_capacity t then Some TREE_NIL else avl_core_next (tree_core_ro t) cursor)"

definition tree_prev :: "'e Tree \<Rightarrow> u32 \<Rightarrow> u32 option" where
  "tree_prev t cursor = (if ucast cursor \<ge> t_capacity t then Some TREE_NIL else avl_core_prev (tree_core_ro t) cursor)"

definition tree_get :: "'e Tree \<Rightarrow> u32 \<Rightarrow> 'e option" where
  "tree_get t cursor =
     (if cursor = TREE_NIL \<or> ucast cursor \<ge> t_capacity t then None else Some (avl_core_payload (tree_core_ro t) cursor))"

section \<open>What a tree stores\<close>

definition tree_holds :: "('e \<Rightarrow> 'k :: linorder) \<Rightarrow> 'e Tree \<Rightarrow> shape \<Rightarrow> bool" where
  "tree_holds key t s \<longleftrightarrow> compares (t_cmp t) key key \<and> t_capacity t < 0xFFFFFFFF \<and> av_capacity (t_pool t) = ucast (t_capacity t) \<and>
     tree_ok key (t_discipline t = TREE_AVL) (t_pool t) (t_root t) s \<and> pool_ok (t_pool t) (set (ids s))"

definition tree_stores :: "('e \<Rightarrow> 'k :: linorder) \<Rightarrow> 'e Tree \<Rightarrow> ('k \<rightharpoonup> 'e) \<Rightarrow> bool" where
  "tree_stores key t m \<longleftrightarrow> (\<exists>s. tree_holds key t s \<and> m = table key (elems (t_pool t) s))"

lemma small_capacity: "(w :: u64) < 0xFFFFFFFF \<Longrightarrow> unat (ucast w :: u32) = unat w"
proof -
  assume "w < 0xFFFFFFFF"
  then have "unat w < 0xFFFFFFFF" by (simp add: word_less_nat_alt)
  then show ?thesis by (simp add: unsigned_ucast_eq take_bit_nat_eq_self)
qed

lemma ordered_distinct: "ordered g c t \<Longrightarrow> distinct (map g (elems c t))"
  by (simp add: strict_sorted_iff)

lemma tree_holdsD:
  assumes "tree_holds key t s"
  shows "tree_core_ro t = t_pool t" "tree_core_rw t = t_pool t" "distinct (map key (elems (t_pool t) s))"
    "card (dom (table key (elems (t_pool t) s))) = av_count (t_pool t)" "unat (av_capacity (t_pool t)) = unat (t_capacity t)"
    "table key (elems (t_pool t) s) k = None \<longleftrightarrow> k \<notin> key ` set (elems (t_pool t) s)"
proof -
  have h: "av_capacity (t_pool t) = ucast (t_capacity t)" "t_capacity t < 0xFFFFFFFF" "distinct (ids s)"
    "av_count (t_pool t) = card (set (ids s))" "ordered key (t_pool t) s"
    using assms by (auto simp: tree_holds_def tree_ok_def pool_ok_def)
  show "tree_core_ro t = t_pool t" using h(1) by (simp add: tree_core_ro_def)
  then show "tree_core_rw t = t_pool t" by (simp add: tree_core_rw_def)
  show d: "distinct (map key (elems (t_pool t) s))" by (rule ordered_distinct [OF h(5)])
  show "card (dom (table key (elems (t_pool t) s))) = av_count (t_pool t)"
    using table_card [OF d] distinct_card [OF h(3)] h(4) by simp
  show "unat (av_capacity (t_pool t)) = unat (t_capacity t)" using small_capacity [OF h(2)] h(1) by simp
  show "table key (elems (t_pool t) s) k = None \<longleftrightarrow> k \<notin> key ` set (elems (t_pool t) s)" by (rule table_None)
qed

lemma tree_insert_law:
  assumes "tree_stores key t m"
  shows "if m (key e) = None \<and> card (dom m) < unat (t_capacity t)
    then \<exists>t'. tree_insert t (Some e) = Some (1, t') \<and> unat (t_capacity t') = unat (t_capacity t) \<and> tree_stores key t' (m(key e \<mapsto> e))
    else tree_insert t (Some e) = Some (0, t)"
proof -
  obtain s where h: "tree_holds key t s" and m: "m = table key (elems (t_pool t) s)" using assms by (auto simp: tree_stores_def)
  note D = tree_holdsD [OF h]
  let ?c = "t_pool t"
  have k: "compares (t_cmp t) key key" "pool_ok ?c (set (ids s))" "tree_ok key (t_discipline t = TREE_AVL) ?c (t_root t) s"
    using h by (auto simp: tree_holds_def)
  have le: "av_count ?c \<le> unat (av_capacity ?c)"
    using k(2) card_mono [of "{..<av_capacity ?c}" "set (ids s)"] by (auto simp: pool_ok_def pool_free_def card_below_u32)
  note I = insert_result [OF k order_refl, of e]
  show ?thesis
  proof (cases "m (key e) = None \<and> card (dom m) < unat (t_capacity t)")
    case True
    then have new: "key e \<notin> key ` set (elems ?c s)" "av_count ?c \<noteq> unat (av_capacity ?c)"
      using D(4-6) by (auto simp: m)
    then obtain root' c' s' n where r: "avl_core_insert (t_cmp t) (t_root t, ?c) e (t_discipline t = TREE_AVL) = Some (1, root', c')"
      "pool_ok c' (insert n (set (ids s)))" "tree_ok key (t_discipline t = TREE_AVL) c' root' s'" "set (ids s') = insert n (set (ids s))"
      "elems c' s' = insort_key key e (elems ?c s)" "av_capacity c' = av_capacity ?c"
      using I by (auto simp: insert_spec_def)
    let ?t = "t\<lparr>t_root := root', t_pool := c'\<rparr>"
    have h': "tree_holds key ?t s'" using h r(2-4,6) by (simp add: tree_holds_def)
    have "table key (elems c' s') = (table key (elems ?c s))(key e \<mapsto> e)"
      by (rule table_insert [OF D(3) _ _ new(1)]) (use tree_holdsD(3) [OF h'] r(5) in \<open>auto simp: set_insort_key\<close>)
    then have "tree_stores key ?t (m(key e \<mapsto> e))" unfolding tree_stores_def using h' m by (intro exI [of _ s']) simp
    moreover have "tree_insert t (Some e) = Some (1, ?t)" using r(1) by (simp add: tree_insert_def D)
    ultimately show ?thesis using True by auto
  next
    case False
    then have "key e \<in> key ` set (elems ?c s) \<or> av_count ?c = unat (av_capacity ?c)" using D(4-6) le by (auto simp: m)
    then have "tree_insert t (Some e) = Some (0, t)" using I D(1,2) by (simp add: tree_insert_def)
    then show ?thesis using False by simp
  qed
qed

lemma tree_remove_law:
  assumes "tree_stores key t m"
  shows "if m (key e) = None then tree_remove t (Some e) = Some (None, t)
    else \<exists>t'. tree_remove t (Some e) = Some (m (key e), t') \<and> unat (t_capacity t') = unat (t_capacity t) \<and> tree_stores key t' (m(key e := None))"
proof -
  obtain s where h: "tree_holds key t s" and m: "m = table key (elems (t_pool t) s)" using assms by (auto simp: tree_stores_def)
  note D = tree_holdsD [OF h]
  let ?c = "t_pool t"
  have k: "compares (t_cmp t) key key" "pool_ok ?c (set (ids s))" "tree_ok key (t_discipline t = TREE_AVL) ?c (t_root t) s"
    using h by (auto simp: tree_holds_def)
  note R = remove_result [OF k order_refl, of e]
  show ?thesis
  proof (cases "m (key e) = None")
    case False
    then have "key e \<in> key ` set (elems ?c s)" using D(6) by (auto simp: m)
    then obtain x root' c' s' n where r: "avl_core_remove (t_cmp t) (t_root t, ?c) e (t_discipline t = TREE_AVL) = Some (Some x, root', c')"
      "x \<in> set (elems ?c s)" "key x = key e" "pool_ok c' (set (ids s) - {n})" "tree_ok key (t_discipline t = TREE_AVL) c' root' s'"
      "set (ids s') = set (ids s) - {n}" "elems c' s' = filter (\<lambda>a. key a \<noteq> key e) (elems ?c s)" "av_capacity c' = av_capacity ?c"
      using R by (auto simp: remove_spec_def)
    let ?t = "t\<lparr>t_root := root', t_pool := c'\<rparr>"
    have h': "tree_holds key ?t s'" using h r(4-6,8) by (simp add: tree_holds_def)
    have "table key (elems c' s') = (table key (elems ?c s))(key e := None)"
      by (rule table_remove [OF D(3)]) (use tree_holdsD(3) [OF h'] r(7) in auto)
    then have "tree_stores key ?t (m(key e := None))" unfolding tree_stores_def using h' m by (intro exI [of _ s']) simp
    moreover have "m (key e) = Some x" using table_Some [OF D(3), of "key e" x] r(2,3) by (simp add: m)
    moreover have "tree_remove t (Some e) = Some (Some x, ?t)" using r(1) by (simp add: tree_remove_def D)
    ultimately show ?thesis by auto
  next
    case True
    then have "key e \<notin> key ` set (elems ?c s)" using D(6) by (auto simp: m)
    then have "tree_remove t (Some e) = Some (None, t)" using R D(1,2) by (simp add: tree_remove_def)
    then show ?thesis using True by simp
  qed
qed

lemma tree_find_law:
  assumes "tree_stores key t m"
  shows "tree_find t (Some e) = Some (m (key e))"
proof -
  obtain s where h: "tree_holds key t s" and m: "m = table key (elems (t_pool t) s)" using assms by (auto simp: tree_stores_def)
  note D = tree_holdsD [OF h]
  have k: "compares (t_cmp t) key key" "rep (t_pool t) AVL_CORE_NIL s" "ordered key (t_pool t) s" "t_root t = idx s"
    using h by (auto simp: tree_holds_def tree_ok_def)
  obtain z where z: "avl_core_find (t_cmp t) (t_pool t) e (t_root t) = Some z"
    "if key e \<in> key ` set (elems (t_pool t) s) then z \<in> set (ids s) \<and> key (avl_core_payload (t_pool t) z) = key e else z = AVL_CORE_NIL"
    using find_result [OF k(1-3), of e] k(4) by (auto simp: find_spec_def)
  show ?thesis
  proof (cases "key e \<in> key ` set (elems (t_pool t) s)")
    case True
    then have "z \<noteq> AVL_CORE_NIL" "m (key e) = Some (avl_core_payload (t_pool t) z)"
      using z(2) rep_no_nil [OF k(2)] table_Some [OF D(3), of "key e" "avl_core_payload (t_pool t) z"] by (auto simp: m)
    then show ?thesis using z(1) by (simp add: tree_find_def D)
  next
    case False
    then have "m (key e) = None" using D(6) by (auto simp: m)
    then show ?thesis using z False by (simp add: tree_find_def D)
  qed
qed

text \<open>The same with the discipline, which no call changes.\<close>

definition tree_keeps :: "TreeDiscipline \<Rightarrow> ('e \<Rightarrow> 'k :: linorder) \<Rightarrow> 'e Tree \<Rightarrow> ('k \<rightharpoonup> 'e) \<Rightarrow> bool" where
  "tree_keeps d key t m \<longleftrightarrow> tree_stores key t m \<and> t_discipline t = d"

lemma tree_discipline:
  "tree_insert t (Some e) = Some (r, t') \<Longrightarrow> t_discipline t' = t_discipline t"
  "tree_remove t (Some e) = Some (x, t') \<Longrightarrow> t_discipline t' = t_discipline t"
  by (auto simp: tree_insert_def tree_remove_def)

interpretation ot: keyed_set "\<lambda>t e. tree_insert t (Some e)" "\<lambda>t e. tree_remove t (Some e)" "\<lambda>t e. tree_find t (Some e)"
  "tree_keeps d key" "\<lambda>t. unat (t_capacity t)" key for d and key :: "'e \<Rightarrow> 'k :: linorder"
proof unfold_locales
  fix t :: "'e Tree" and m :: "'k \<rightharpoonup> 'e" and e
  assume "tree_keeps d key t m"
  then have t: "tree_stores key t m" "t_discipline t = d" by (simp_all add: tree_keeps_def)
  show "if m (key e) = None \<and> card (dom m) < unat (t_capacity t)
      then \<exists>t'. tree_insert t (Some e) = Some (1, t') \<and> unat (t_capacity t') = unat (t_capacity t) \<and> tree_keeps d key t' (m(key e \<mapsto> e))
      else tree_insert t (Some e) = Some (0, t)"
    using tree_insert_law [OF t(1), of e] tree_discipline(1) [of t e] t(2) unfolding tree_keeps_def by (auto split: if_splits)
  show "if m (key e) = None then tree_remove t (Some e) = Some (None, t)
      else \<exists>t'. tree_remove t (Some e) = Some (m (key e), t') \<and> unat (t_capacity t') = unat (t_capacity t) \<and> tree_keeps d key t' (m(key e := None))"
    using tree_remove_law [OF t(1), of e] tree_discipline(2) [of t e] t(2) unfolding tree_keeps_def by (auto split: if_splits)
  show "tree_find t (Some e) = Some (m (key e))" by (rule tree_find_law [OF t(1)])
qed

lemma tree_init_stores:
  assumes "tree_init d (Some cmp) (Some p) pool_bytes element_size = Some t" "compares cmp key key"
  shows "tree_stores key t Map.empty" "t_capacity t = pool_bytes div (TREE_NODE_OVERHEAD + element_size)" "t_discipline t = d"
proof -
  let ?cap = "pool_bytes div (TREE_NODE_OVERHEAD + element_size)"
  let ?c = "p\<lparr>av_capacity := ucast ?cap, av_count := 0\<rparr>"
  have t: "?cap < 0xFFFFFFFF" "t = \<lparr>t_pool = avl_core_build_freelist ?c, t_capacity = ?cap, t_element_size = element_size,
      t_stride = TREE_NODE_OVERHEAD + element_size, t_root = TREE_NIL, t_discipline = d, t_cmp = cmp\<rparr>"
    using assms(1) by (auto simp: tree_init_def Let_def tree_clear_def tree_core_rw_def tree_core_ro_def not_le split: if_splits)
  have "tree_holds key t Leaf"
    using assms(2) t(1) build_freelist_result [of ?c] by (simp add: t(2) tree_holds_def tree_ok_def)
  then show "tree_stores key t Map.empty" unfolding tree_stores_def by (intro exI [of _ Leaf]) (simp add: table_def)
qed (use assms(1) in \<open>auto simp: tree_init_def Let_def tree_clear_def split: if_splits\<close>)

end
