(* ===== verification/Ordered_Walk.thy ===== *)
theory Ordered_Walk
  imports Ordered_Tree
begin

text \<open>
  The in-order walk of the ordered tree with its cursors, and what a client sees of a tree: any sequence of
  insertions, removals and searches, then a walk forwards or backwards.
\<close>

section \<open>The client's loop\<close>

text \<open>\<open>for (c = begin; c != TREE_NIL; c = step(c))\<close>, reading the element under each cursor.\<close>

partial_function (option) walk_from :: "(u32 \<Rightarrow> u32 option) \<Rightarrow> (u32 \<Rightarrow> 'e option) \<Rightarrow> u32 \<Rightarrow> 'e list option" where
  "walk_from step get cursor =
     (if cursor = TREE_NIL then Some []
      else case get cursor of None \<Rightarrow> None
        | Some e \<Rightarrow>
            (case step cursor of None \<Rightarrow> None
             | Some next_cursor \<Rightarrow>
                 Option.bind (walk_from step get next_cursor) (\<lambda>es. Some (e # es))))"

lemma walk_along:
  assumes "\<And>xs i ys. nodes = xs @ i # ys \<Longrightarrow> i \<noteq> TREE_NIL \<and> get i = Some (f i) \<and> step i = Some (hd (ys @ [TREE_NIL]))"
  shows "nodes = xs @ ys \<Longrightarrow> walk_from step get (hd (ys @ [TREE_NIL])) = Some (map f ys)"
proof (induction ys arbitrary: xs)
  case Nil
  then show ?case by (simp add: walk_from.simps)
next
  case (Cons i ys)
  have i: "i \<noteq> TREE_NIL \<and> get i = Some (f i) \<and> step i = Some (hd (ys @ [TREE_NIL]))" by (rule assms [OF Cons.prems])
  have "nodes = (xs @ [i]) @ ys" using Cons.prems by simp
  from Cons.IH [OF this] i show ?case by (subst walk_from.simps) simp
qed

text \<open>The nodes of a tree that is in order, for the cursors.\<close>

lemma tree_cursors:
  assumes "tree_holds key t s" "ids s = xs @ i # ys"
  shows "i \<noteq> TREE_NIL" "tree_get t i = Some (avl_core_payload (t_pool t) i)"
    "tree_next t i = Some (hd (ys @ [TREE_NIL]))" "tree_prev t i = Some (hd (rev xs @ [TREE_NIL]))"
proof -
  note D = tree_holdsD [OF assms(1)]
  have h: "rep (t_pool t) AVL_CORE_NIL s" "distinct (ids s)" "pool_ok (t_pool t) (set (ids s))"
    using assms(1) by (auto simp: tree_holds_def tree_ok_def)
  have "set (ids s) \<subseteq> {..<av_capacity (t_pool t)}" using h(3) by (auto simp: pool_ok_def pool_free_def)
  then have i: "i < av_capacity (t_pool t)" using assms(2) by auto
  have "unat (ucast i :: u64) = unat i" using unsigned_less [of i, where 'a = nat] by (simp add: unsigned_ucast_eq take_bit_nat_eq_self)
  then have cap: "\<not> ucast i \<ge> t_capacity t" using i D(5) by (simp add: not_le word_less_nat_alt)
  note cur = cursor_result [OF h(1,2) assms(2) i]
  show nil: "i \<noteq> TREE_NIL" by (rule below_not_nil [OF i])
  show "tree_get t i = Some (avl_core_payload (t_pool t) i)" using nil cap by (simp add: tree_get_def D)
  show "tree_next t i = Some (hd (ys @ [TREE_NIL]))" using cur(1) cap by (simp add: tree_next_def D)
  have "last (TREE_NIL # xs) = hd (rev xs @ [TREE_NIL])" by (cases xs rule: rev_cases) simp_all
  then show "tree_prev t i = Some (hd (rev xs @ [TREE_NIL]))" using cur(2) cap by (simp add: tree_prev_def D)
qed

lemma tree_walks:
  assumes "tree_holds key t s"
  shows "\<exists>c. tree_begin t = Some c \<and> walk_from (tree_next t) (tree_get t) c = Some (elems (t_pool t) s)"
    "\<exists>c. tree_rbegin t = Some c \<and> walk_from (tree_prev t) (tree_get t) c = Some (rev (elems (t_pool t) s))"
proof -
  note D = tree_holdsD [OF assms] and cur = tree_cursors [OF assms]
  have h: "rep (t_pool t) AVL_CORE_NIL s" "t_root t = idx s" using assms by (auto simp: tree_holds_def tree_ok_def)
  let ?f = "avl_core_payload (t_pool t)"
  have "walk_from (tree_next t) (tree_get t) (hd (ids s @ [TREE_NIL])) = Some (map ?f (ids s))"
    by (rule walk_along [where xs = "[]" and nodes = "ids s"]) (use cur(1-3) in auto)
  then show "\<exists>c. tree_begin t = Some c \<and> walk_from (tree_next t) (tree_get t) c = Some (elems (t_pool t) s)"
    using subtree_min_result [OF h(1)] by (simp add: tree_begin_def avl_core_min_def D h(2))
  have "walk_from (tree_prev t) (tree_get t) (hd (rev (ids s) @ [TREE_NIL])) = Some (map ?f (rev (ids s)))"
  proof (rule walk_along [where xs = "[]" and nodes = "rev (ids s)"])
    fix xs i ys assume "rev (ids s) = xs @ i # ys"
    then have "ids s = rev ys @ i # rev xs" by (simp add: rev_swap)
    from cur(1,2,4) [OF this] show "i \<noteq> TREE_NIL \<and> tree_get t i = Some (?f i) \<and> tree_prev t i = Some (hd (ys @ [TREE_NIL]))" by simp
  qed simp
  moreover have "last (TREE_NIL # ids s) = hd (rev (ids s) @ [TREE_NIL])" by (cases "ids s" rule: rev_cases) simp_all
  ultimately show "\<exists>c. tree_rbegin t = Some c \<and> walk_from (tree_prev t) (tree_get t) c = Some (rev (elems (t_pool t) s))"
    using subtree_max_result [OF h(1)] by (simp add: tree_rbegin_def avl_core_max_def D h(2) rev_map)
qed

section \<open>A tree's life\<close>

lemma length_ids: "length (ids s) = size s"
  by (induction s rule: ids.induct) simp_all

text \<open>
  C40. The ordered tree, from \<open>tree_init\<close> on, under either discipline and a comparator that orders by a key: any
  sequence of \<open>tree_insert\<close>, \<open>tree_remove\<close> and \<open>tree_find\<close> returns, and every answer is that of a map from keys bounded
  by the pool's number of nodes, \<open>pool_bytes\<close> over node size: an insertion is refused just when the key is there or the
  map is full, a removal and a search hand over the element with that key if there is one. Afterwards
  \<open>tree_count\<close>, \<open>tree_empty\<close> and \<open>tree_full\<close> agree with the map, and the cursor walks end and yield its elements, each once,
  in ascending order forwards and in descending order backwards. With \<open>TREE_AVL\<close> the tree is height-balanced: its
  height \<open>h\<close> satisfies \<open>2 ^ (h div 2) \<le> count + 1\<close>, so that no search takes more than about \<open>2 log2(count + 1) + 1\<close> steps.
\<close>

theorem tree_is_map:
  assumes "tree_init d (Some cmp) (Some p) pool_bytes element_size = Some t0" and "compares cmp key key"
    and "run_map key (unat (pool_bytes div (16 + element_size))) ops Map.empty = (answers, m)"
  shows "\<exists>t. run_set (\<lambda>t e. tree_insert t (Some e)) (\<lambda>t e. tree_remove t (Some e)) (\<lambda>t e. tree_find t (Some e)) ops t0
        = Some (answers, t)
    \<and> tree_count t = card (dom m) \<and> (tree_empty t \<longleftrightarrow> m = Map.empty)
    \<and> (tree_full t \<longleftrightarrow> card (dom m) = unat (pool_bytes div (16 + element_size)))
    \<and> (\<exists>es. sorted_wrt (<) (map key es) \<and> set es = ran m \<and> length es = card (dom m)
        \<and> (\<exists>c. tree_begin t = Some c \<and> walk_from (tree_next t) (tree_get t) c = Some es)
        \<and> (\<exists>c. tree_rbegin t = Some c \<and> walk_from (tree_prev t) (tree_get t) c = Some (rev es)))
    \<and> (d = TREE_AVL \<longrightarrow> (\<exists>s. rep (t_pool t) TREE_NIL s \<and> t_root t = idx s \<and> 2 ^ (height s div 2) \<le> card (dom m) + 1))"
proof -
  let ?cap = "pool_bytes div (16 + element_size)"
  note init = tree_init_stores [OF assms(1,2)]
  obtain t where t: "run_set (\<lambda>t e. tree_insert t (Some e)) (\<lambda>t e. tree_remove t (Some e)) (\<lambda>t e. tree_find t (Some e)) ops t0
        = Some (answers, t)" "unat (t_capacity t) = unat ?cap" "tree_stores key t m" "t_discipline t = d"
    using ot.run_refines [of d key t0 Map.empty ops] init assms(3) by (auto simp: tree_keeps_def)
  obtain s where s: "tree_holds key t s" "m = table key (elems (t_pool t) s)" using t(3) by (auto simp: tree_stores_def)
  note D = tree_holdsD [OF s(1)]
  have count: "tree_count t = card (dom m)" using D(4) by (simp add: tree_count_def s(2))
  have elems: "set (elems (t_pool t) s) = ran m"
    using table_Some [OF D(3)] by (auto simp: s(2) ran_def)
  have len: "length (elems (t_pool t) s) = card (dom m)" using table_card [OF D(3)] by (simp add: s(2))
  have fin: "finite (dom m)" by (simp add: s(2) table_def finite_dom_map_of)
  have empty: "tree_empty t \<longleftrightarrow> m = Map.empty"
    using count fin by (simp add: tree_empty_def tree_count_def)
  have le: "card (dom m) \<le> unat ?cap"
  proof -
    have "set (ids s) \<subseteq> {..<av_capacity (t_pool t)}" "av_count (t_pool t) = card (set (ids s))"
      using s(1) by (auto simp: tree_holds_def pool_ok_def pool_free_def)
    then have "av_count (t_pool t) \<le> unat (av_capacity (t_pool t))"
      using card_mono [of "{..<av_capacity (t_pool t)}" "set (ids s)"] by (simp add: card_below_u32)
    then show ?thesis using D(4,5) t(2) by (simp add: s(2))
  qed
  have full: "tree_full t \<longleftrightarrow> card (dom m) = unat ?cap"
    using count t(2) le by (auto simp: tree_full_def tree_count_def)
  have order: "sorted_wrt (<) (map key (elems (t_pool t) s))" using s(1) by (simp add: tree_holds_def tree_ok_def)
  have height: "rep (t_pool t) TREE_NIL s \<and> t_root t = idx s \<and> 2 ^ (height s div 2) \<le> card (dom m) + 1" if "d = TREE_AVL"
    using s(1) that avl_height [of s] len by (simp add: tree_holds_def tree_ok_def t(4) length_ids)
  show ?thesis
    using t(1) count empty full order elems len tree_walks [OF s(1)] height by blast
qed

text \<open>A balanced tree of four nodes over the integers: two insertions, a duplicate, a search and a removal.\<close>

definition demo_pool :: "int AvlCore" where
  "demo_pool = \<lparr>n_left = (\<lambda>_. 0), n_right = (\<lambda>_. 0), n_parent = (\<lambda>_. 0), n_bal = (\<lambda>_. 0), avl_core_payload = (\<lambda>_. 0),
     av_capacity = 0, av_free_head = 0, av_count = 0\<rparr>"

theorem tree_is_map_witness:
  "\<exists>t0 t. tree_init TREE_AVL (Some (-)) (Some demo_pool) 80 4 = Some t0 \<and>
     run_set (\<lambda>t e. tree_insert t (Some e)) (\<lambda>t e. tree_remove t (Some e)) (\<lambda>t e. tree_find t (Some e))
       [SInsert 3, SInsert 1, SInsert 3, SFind 1, SRemove 3] t0
     = Some ([Done 1, Done 1, Done 0, Found (Some 1), Found (Some 3)], t) \<and> tree_count t = 1"
proof -
  have cap: "(80 :: u64) div (16 + 4) = 4" "unat (4 :: u64) = 4" by simp_all
  obtain t0 where t0: "tree_init TREE_AVL (Some (-)) (Some demo_pool) 80 4 = Some t0"
    using cap by (simp add: tree_init_def Let_def)
  have cmp: "compares (-) id (id :: int \<Rightarrow> int)" by (simp add: compares_def)
  have "run_map id (unat ((80 :: u64) div (16 + 4))) [SInsert 3, SInsert 1, SInsert 3, SFind 1, SRemove 3] Map.empty
      = ([Done 1, Done 1, Done 0, Found (Some 1), Found (Some 3)], [1 \<mapsto> 1 :: int])"
    by (auto simp: fun_upd_twist)
  from tree_is_map [OF t0 cmp this] t0 show ?thesis by auto
qed

end
