(* ===== verification/Spec2Isabelle.thy ===== *)
theory Spec2Isabelle
  imports VM_Run VM_RVC VM_ISA Slab_Trace Bump Ring_Trace Stack Spsc VM_Sched_Wake VM_Mailbox VM_Loader_Exact
    VM_System_Time VM_System_Mail VM_System_Reach VM_System_Family_Demo Fast_Div Ordered_Walk
begin

text \<open>
  Verification of microgarbage: header to be completed.
\<close>

end
